(* ===== verification/Base.thy ===== *)
theory Base
  imports Main "HOL-Library.Word" "HOL-Library.Monad_Syntax" "HOL-Library.Multiset"
begin

unbundle bit_operations_syntax

text \<open>
  Prelude of the development: the machine types of the C sources, the fault type, the collections
  of simplification rules that the component theories extend, and the generic lemmas on lists,
  options and words that more than one component uses.

  Conventions.  A C function that may dereference an invalid pointer, or that may not return, yields
  an \<open>option\<close>; \<open>None\<close> is the undefined or non-terminating execution, so a theorem that an
  operation behaves as intended always says that the result is \<open>Some\<close>.  Unsigned machine
  integers are words of their width.  A C \<open>int\<close> used as a count or an index is an \<open>int\<close> with the
  bounds written out, or a \<open>nat\<close> where the code cannot make it negative.
\<close>

section \<open>Machine types\<close>

type_synonym u8 = "8 word"
type_synonym u16 = "16 word"
type_synonym u32 = "32 word"
type_synonym u64 = "64 word"

text \<open>A pointer value; \<open>NULL\<close> is the zero word.\<close>

type_synonym addr = "64 word"

abbreviation NULL :: addr where
  "NULL \<equiv> 0"

text \<open>The results that a computation with the type \<open>int\<close> may have; beyond them its overflow is undefined, a fault.\<close>

definition int_ok :: "int \<Rightarrow> bool" where
  "int_ok i \<longleftrightarrow> - (2 ^ 31) \<le> i \<and> i < 2 ^ 31"

section \<open>Proof automation\<close>

named_theorems mem_simps \<open>reads and writes of the pointer memories\<close>
named_theorems op_defs \<open>the definitions of the component operations\<close>

section \<open>Options\<close>

lemma bind_eq_Some_iff: "(Option.bind m f = Some y) \<longleftrightarrow> (\<exists>x. m = Some x \<and> f x = Some y)"
  by (cases m) auto

text \<open>A loop over a list whose body may fault.\<close>

fun foldM :: "('a \<Rightarrow> 's \<Rightarrow> 's option) \<Rightarrow> 'a list \<Rightarrow> 's \<Rightarrow> 's option" where
  "foldM f [] s = Some s"
| "foldM f (x # xs) s = Option.bind (f x s) (foldM f xs)"

lemma foldM_Nil_fun [simp]: "foldM f [] = Some"
  by (rule ext) simp

lemma foldM_append: "foldM f (xs @ ys) s = Option.bind (foldM f xs s) (foldM f ys)"
proof (induction xs arbitrary: s)
  case Nil
  then show ?case by simp
next
  case (Cons x xs)
  then show ?case by (cases "f x s") auto
qed

section \<open>Lists\<close>

lemma distinct_split_notin:
  assumes "distinct (xs @ x # ys)"
  shows "x \<notin> set xs" and "x \<notin> set ys" and "set xs \<inter> set ys = {}"
  using assms by auto

lemma sorted_map_const: "(\<And>x. x \<in> set xs \<Longrightarrow> f x = c) \<Longrightarrow> sorted (map f xs)"
  by (induction xs) auto

lemma sorted_map_Suc: "sorted xs \<Longrightarrow> sorted (map Suc xs)"
  by (induction xs) auto

text \<open>Change the first entry with a property, which is the one a lookup returns.\<close>

fun upd_first :: "('a \<Rightarrow> bool) \<Rightarrow> ('a \<Rightarrow> 'a) \<Rightarrow> 'a list \<Rightarrow> 'a list" where
  "upd_first P f [] = []"
| "upd_first P f (x # xs) = (if P x then f x # xs else x # upd_first P f xs)"

lemma length_upd_first [simp]: "length (upd_first P f xs) = length xs"
  by (induction xs) auto

lemma map_upd_first:
  "(\<And>x. P x \<Longrightarrow> k (f x) = k x) \<Longrightarrow> map k (upd_first P f xs) = map k xs"
  by (induction xs) auto

lemma set_upd_first: "x \<in> set (upd_first P f xs) \<Longrightarrow> x \<in> set xs \<or> (\<exists>y \<in> set xs. P y \<and> x = f y)"
  by (induction xs) (auto split: if_splits)

lemma find_upd_first:
  assumes "\<And>x. k (f x) = k x"
  shows "find (\<lambda>x. k x = a) (upd_first (\<lambda>x. k x = b) f xs) =
    (if a = b then map_option f (find (\<lambda>x. k x = b) xs) else find (\<lambda>x. k x = a) xs)"
  using assms by (induction xs) auto

lemma find_Some_unique:
  assumes "distinct (map f xs)" "x \<in> set xs" "f x = k"
  shows "find (\<lambda>x. f x = k) xs = Some x"
  using assms by (induction xs) (auto simp: image_iff)

lemma find_SomeD: "find P xs = Some x \<Longrightarrow> x \<in> set xs \<and> P x"
  by (induction xs) (auto split: if_splits)

lemma find_key_iff:
  assumes "distinct (map f xs)"
  shows "find (\<lambda>x. f x = k) xs = Some x \<longleftrightarrow> x \<in> set xs \<and> f x = k"
  using find_Some_unique[OF assms] find_SomeD[of "\<lambda>x. f x = k" xs x] by blast

lemma find_append: "find P (xs @ ys) = (case find P xs of None \<Rightarrow> find P ys | Some x \<Rightarrow> Some x)"
  by (induction xs) auto

section \<open>Words\<close>

lemma sint_small: "uint (w :: u32) < 2 ^ 31 \<Longrightarrow> sint w = uint w"
proof -
  assume "uint w < 2 ^ 31"
  moreover have "- (2 ^ 31) \<le> uint w" by (rule order_trans[OF _ uint_ge_0]) simp
  ultimately show ?thesis
    using signed_take_bit_int_eq_self[of 31 "uint w"] by (simp add: sint_uint)
qed

lemma sint_neg_iff: "sint (w :: u32) < 0 \<longleftrightarrow> 2 ^ 31 \<le> unat w"
proof -
  have u: "unat w < 2 ^ 32" using unsigned_less[of w] by simp
  have "sint w < 0 \<longleftrightarrow> bit (uint w) 31"
    by (simp add: sint_uint signed_take_bit_negative_iff)
  also have "\<dots> \<longleftrightarrow> bit (unat w) 31"
    by (simp add: bit_unsigned_iff)
  also have "\<dots> \<longleftrightarrow> odd (unat w div 2 ^ 31)"
    by (rule bit_iff_odd)
  also have "\<dots> \<longleftrightarrow> 2 ^ 31 \<le> unat w"
  proof (cases "2 ^ 31 \<le> unat w")
    case True
    then have "unat w div 2 ^ 31 = 1" using u by (intro div_nat_eqI) auto
    then show ?thesis using True by simp
  qed simp
  finally show ?thesis .
qed

lemma unat_and_mask: "unat (x AND (2 ^ n - 1) :: u32) = unat x mod 2 ^ n"
proof -
  have "x AND (2 ^ n - 1) = take_bit n x"
    by (simp add: take_bit_eq_mask mask_eq_exp_minus_1)
  then have "unat (x AND (2 ^ n - 1)) = take_bit n (unat x)"
    by (simp only: unsigned_take_bit_eq)
  then show ?thesis
    by (simp only: take_bit_eq_mod)
qed

lemma unat_drop_and_mask: "unat (drop_bit s x AND (2 ^ n - 1) :: u32) = unat x div 2 ^ s mod 2 ^ n"
proof -
  have "unat (drop_bit s x) = unat x div 2 ^ s"
    by (simp only: unat_drop_bit_eq flip: drop_bit_eq_div)
  then show ?thesis
    by (simp only: unat_and_mask)
qed

end
