(* ===== verification/HList.thy ===== *)
theory HList
  imports Base
begin

text \<open>
  The hash-bucket lists of \<open>stlc_list.h\<close>: a one-pointer head and nodes that hold the address of the
  pointer cell that points to them.  The field \<open>next\<close> is the first field of a node and \<open>first\<close> the only
  field of a head, so the address of that cell is the address of the node or of the head; the memory
  has one map for these cells and one for the \<open>pprev\<close> fields.
\<close>

record hmem =
  hcell :: "addr \<rightharpoonup> addr"
  hpprev :: "addr \<rightharpoonup> addr"

definition STLC_LIST_POISON1 :: addr where
  "STLC_LIST_POISON1 = 0x40000000"

definition STLC_LIST_POISON2 :: addr where
  "STLC_LIST_POISON2 = 0x040000004"

definition set_cell :: "addr \<Rightarrow> addr \<Rightarrow> hmem \<Rightarrow> hmem option" where
  "set_cell p v m = (if p \<in> dom (hcell m) then Some (m\<lparr>hcell := (hcell m)(p \<mapsto> v)\<rparr>) else None)"

definition set_pprev :: "addr \<Rightarrow> addr \<Rightarrow> hmem \<Rightarrow> hmem option" where
  "set_pprev p v m = (if p \<in> dom (hpprev m) then Some (m\<lparr>hpprev := (hpprev m)(p \<mapsto> v)\<rparr>) else None)"

definition STLC_INIT_HLIST_HEAD :: "addr \<Rightarrow> hmem \<Rightarrow> hmem option" where
  "STLC_INIT_HLIST_HEAD ptr m = set_cell ptr NULL m"

definition STLC_INIT_HLIST_NODE :: "addr \<Rightarrow> hmem \<Rightarrow> hmem option" where
  "STLC_INIT_HLIST_NODE n m = do { m \<leftarrow> set_cell n NULL m; set_pprev n NULL m }"

definition stlc_hlist_unhashed :: "addr \<Rightarrow> hmem \<Rightarrow> bool option" where
  "stlc_hlist_unhashed n m = map_option (\<lambda>pp. pp = NULL) (hpprev m n)"

definition stlc_hlist_hashed :: "addr \<Rightarrow> hmem \<Rightarrow> bool option" where
  "stlc_hlist_hashed n m = do {
     pp \<leftarrow> hpprev m n;
     if pp \<noteq> NULL
     then do {
       nx \<leftarrow> hcell m n;
       Some (\<not> (nx = STLC_LIST_POISON1 \<and> pp = STLC_LIST_POISON2)) }
     else Some False }"

definition stlc_hlist_empty :: "addr \<Rightarrow> hmem \<Rightarrow> bool option" where
  "stlc_hlist_empty hp m = map_option (\<lambda>f. f = NULL) (hcell m hp)"

definition stlc_hlist_unlink :: "addr \<Rightarrow> hmem \<Rightarrow> hmem option" where
  "stlc_hlist_unlink n m = do {
     nx \<leftarrow> hcell m n;
     pp \<leftarrow> hpprev m n;
     m \<leftarrow> set_cell pp nx m;
     if nx \<noteq> NULL then set_pprev nx pp m else Some m }"

definition stlc_hlist_del :: "addr \<Rightarrow> hmem \<Rightarrow> hmem option" where
  "stlc_hlist_del n m = do {
     m \<leftarrow> stlc_hlist_unlink n m;
     m \<leftarrow> set_cell n STLC_LIST_POISON1 m;
     set_pprev n STLC_LIST_POISON2 m }"

definition stlc_hlist_del_init :: "addr \<Rightarrow> hmem \<Rightarrow> hmem option" where
  "stlc_hlist_del_init n m = do {
     u \<leftarrow> stlc_hlist_unhashed n m;
     if \<not> u then do { m \<leftarrow> stlc_hlist_unlink n m; STLC_INIT_HLIST_NODE n m } else Some m }"

definition stlc_hlist_add_head :: "addr \<Rightarrow> addr \<Rightarrow> hmem \<Rightarrow> hmem option" where
  "stlc_hlist_add_head n hp m = do {
     first \<leftarrow> hcell m hp;
     m \<leftarrow> set_cell n first m;
     m \<leftarrow> (if first \<noteq> NULL then set_pprev first n m else Some m);
     m \<leftarrow> set_cell hp n m;
     set_pprev n hp m }"

definition stlc_hlist_add_before :: "addr \<Rightarrow> addr \<Rightarrow> hmem \<Rightarrow> hmem option" where
  "stlc_hlist_add_before n nxt m = do {
     pp \<leftarrow> hpprev m nxt;
     m \<leftarrow> set_pprev n pp m;
     m \<leftarrow> set_cell n nxt m;
     m \<leftarrow> set_pprev nxt n m;
     pp \<leftarrow> hpprev m n;
     set_cell pp n m }"

definition stlc_hlist_add_after :: "addr \<Rightarrow> addr \<Rightarrow> hmem \<Rightarrow> hmem option" where
  "stlc_hlist_add_after n nxt m = do {
     nn \<leftarrow> hcell m n;
     m \<leftarrow> set_cell nxt nn m;
     m \<leftarrow> set_cell n nxt m;
     m \<leftarrow> set_pprev nxt n m;
     nn \<leftarrow> hcell m nxt;
     if nn \<noteq> NULL then set_pprev nn nxt m else Some m }"

text \<open>The bucket scan \<open>stlc_hlist_for_each_entry\<close> that stops at the first node with a property.\<close>

partial_function (option) stlc_hlist_find :: "(addr \<Rightarrow> bool) \<Rightarrow> addr \<Rightarrow> hmem \<Rightarrow> addr option option" where
  "stlc_hlist_find P pos m =
     (if pos = NULL then Some None
      else if P pos then Some (Some pos)
      else Option.bind (hcell m pos) (\<lambda>n. stlc_hlist_find P n m))"

section \<open>Abstraction to sequences\<close>

fun hseg :: "hmem \<Rightarrow> addr \<Rightarrow> addr list \<Rightarrow> bool" where
  "hseg m p [] = (hcell m p = Some NULL)"
| "hseg m p (x # xs) = (x \<noteq> NULL \<and> hcell m p = Some x \<and> hpprev m x = Some p \<and> hseg m x xs)"

definition is_hlist :: "hmem \<Rightarrow> addr \<Rightarrow> addr list \<Rightarrow> bool" where
  "is_hlist m hp xs \<longleftrightarrow> distinct (hp # xs) \<and> hseg m hp xs"

definition is_hnode :: "hmem \<Rightarrow> addr \<Rightarrow> bool" where
  "is_hnode m n \<longleftrightarrow> n \<noteq> NULL \<and> n \<in> dom (hcell m) \<and> n \<in> dom (hpprev m)"

definition upd_cell :: "addr \<Rightarrow> addr \<Rightarrow> hmem \<Rightarrow> hmem" where
  "upd_cell p v m = m\<lparr>hcell := (hcell m)(p \<mapsto> v)\<rparr>"

definition upd_pprev :: "addr \<Rightarrow> addr \<Rightarrow> hmem \<Rightarrow> hmem" where
  "upd_pprev p v m = m\<lparr>hpprev := (hpprev m)(p \<mapsto> v)\<rparr>"

lemma set_cell_valid [mem_simps]: "p \<in> dom (hcell m) \<Longrightarrow> set_cell p v m = Some (upd_cell p v m)"
  by (simp add: set_cell_def upd_cell_def)

lemma set_pprev_valid [mem_simps]: "p \<in> dom (hpprev m) \<Longrightarrow> set_pprev p v m = Some (upd_pprev p v m)"
  by (simp add: set_pprev_def upd_pprev_def)

lemma h_upd [simp]:
  "hcell (upd_cell p v m) = (hcell m)(p \<mapsto> v)" "hpprev (upd_cell p v m) = hpprev m"
  "hpprev (upd_pprev p v m) = (hpprev m)(p \<mapsto> v)" "hcell (upd_pprev p v m) = hcell m"
  by (simp_all add: upd_cell_def upd_pprev_def)

text \<open>The same segment without a condition on where the last cell points.\<close>

fun hpath :: "hmem \<Rightarrow> addr \<Rightarrow> addr list \<Rightarrow> bool" where
  "hpath m p [] = True"
| "hpath m p (x # xs) = (x \<noteq> NULL \<and> hcell m p = Some x \<and> hpprev m x = Some p \<and> hpath m x xs)"

lemma hseg_append: "hseg m p (xs @ ys) \<longleftrightarrow> hpath m p xs \<and> hseg m (last (p # xs)) ys"
  by (induction xs arbitrary: p) auto

lemma hseg_conv: "hseg m p xs \<longleftrightarrow> hpath m p xs \<and> hcell m (last (p # xs)) = Some NULL"
  using hseg_append[of m p xs "[]"] by simp

lemma hseg_upd:
  "p \<notin> set (q # xs) \<Longrightarrow> hseg (upd_cell p v m) q xs \<longleftrightarrow> hseg m q xs"
  "p \<notin> set xs \<Longrightarrow> hseg (upd_pprev p v m) q xs \<longleftrightarrow> hseg m q xs"
  by (induction xs arbitrary: q) auto

lemma hpath_upd_cell:
  "p \<notin> set (butlast (q # xs)) \<Longrightarrow> hpath (upd_cell p v m) q xs \<longleftrightarrow> hpath m q xs"
  by (induction xs arbitrary: q) auto

lemma hpath_upd_pprev: "p \<notin> set xs \<Longrightarrow> hpath (upd_pprev p v m) q xs \<longleftrightarrow> hpath m q xs"
  by (induction xs arbitrary: q) auto

lemma hseg_dom:
  "hseg m p xs \<Longrightarrow>
   p \<in> dom (hcell m) \<and> set xs \<subseteq> dom (hcell m) \<and> set xs \<subseteq> dom (hpprev m) \<and> NULL \<notin> set xs"
  by (induction xs arbitrary: p) auto

lemmas h_seg_simps = hseg_upd hpath_upd_cell hpath_upd_pprev

lemma last_notin_butlast: "distinct (p # xs) \<Longrightarrow> last (p # xs) \<notin> set (butlast (p # xs))"
  by (induction xs arbitrary: p) auto

section \<open>The operations on well-formed buckets\<close>

lemma hlist_add_head_refines:
  assumes l: "is_hlist m hp xs" and n: "is_hnode m n" "n \<notin> set (hp # xs)"
  shows "\<exists>m'. stlc_hlist_add_head n hp m = Some m' \<and> is_hlist m' hp (n # xs)"
  using l n hseg_dom[of m hp xs]
  by (cases xs) (auto simp: stlc_hlist_add_head_def is_hlist_def is_hnode_def mem_simps h_seg_simps)

lemma hlist_unlink_refines:
  assumes l: "is_hlist m hp (xs @ e # ys)"
  shows "\<exists>m'. stlc_hlist_unlink e m = Some m' \<and> is_hlist m' hp (xs @ ys) \<and> is_hnode m' e"
proof -
  let ?p = "last (hp # xs)"
  have seg: "hpath m hp xs" "hcell m ?p = Some e" "hpprev m e = Some ?p" "e \<noteq> NULL" "hseg m e ys"
      and dist: "distinct (hp # xs @ e # ys)"
    using l by (auto simp: is_hlist_def hseg_append)
  have p: "?p \<in> set (hp # xs)" "?p \<notin> set (butlast (hp # xs))"
    using dist last_notin_butlast[of hp xs] by auto
  then have pys: "?p \<notin> set (e # ys)"
    using dist by auto
  have dm: "?p \<in> dom (hcell m)" "e \<in> dom (hpprev m)" "e \<in> dom (hcell m)" "set ys \<subseteq> dom (hpprev m)"
    using seg hseg_dom[OF seg(5)] by auto
  show ?thesis
  proof (cases ys)
    case Nil
    have run: "stlc_hlist_unlink e m = Some (upd_cell ?p NULL m)"
      using seg Nil dm by (simp add: stlc_hlist_unlink_def mem_simps)
    have "hseg (upd_cell ?p NULL m) hp xs"
      using seg p by (simp add: hseg_conv hpath_upd_cell del: last.simps butlast.simps)
    then show ?thesis
      using run dist Nil seg(4) dm by (auto simp: is_hlist_def is_hnode_def)
  next
    case (Cons y zs)
    let ?m = "upd_pprev y ?p (upd_cell ?p y m)"
    have ye: "hcell m e = Some y" "y \<noteq> NULL" "hseg m y zs" "y \<in> dom (hpprev m)"
      using seg(5) Cons dm by auto
    then have run: "stlc_hlist_unlink e m = Some ?m"
      using seg dm by (simp add: stlc_hlist_unlink_def mem_simps)
    have "hpath ?m hp xs"
      using seg(1) p(2) dist Cons by (simp add: h_seg_simps del: butlast.simps last.simps)
    moreover have "hseg ?m y zs"
      using ye dist pys Cons by (simp add: h_seg_simps del: last.simps)
    moreover have "hcell ?m ?p = Some y" "hpprev ?m y = Some ?p"
      by (simp_all del: last.simps)
    ultimately have "hseg ?m hp (xs @ ys)"
      using ye(2) unfolding Cons hseg_append hseg.simps by blast
    then show ?thesis
      using run dist seg(4) dm by (auto simp: is_hlist_def is_hnode_def)
  qed
qed

lemma hlist_del_refines:
  assumes l: "is_hlist m hp (xs @ e # ys)"
  shows "\<exists>m'. stlc_hlist_del e m = Some m' \<and> is_hlist m' hp (xs @ ys) \<and>
           stlc_hlist_hashed e m' = Some False"
proof -
  obtain m1 where m1: "stlc_hlist_unlink e m = Some m1" "is_hlist m1 hp (xs @ ys)" "is_hnode m1 e"
    using hlist_unlink_refines[OF l] by blast
  have "e \<notin> set (hp # xs @ ys)"
    using l by (auto simp: is_hlist_def)
  then show ?thesis
    using m1
    by (auto simp: stlc_hlist_del_def is_hnode_def mem_simps is_hlist_def h_seg_simps
        stlc_hlist_hashed_def)
qed

lemma hlist_del_init_refines:
  assumes l: "is_hlist m hp (xs @ e # ys)" and hp: "hp \<noteq> NULL"
  shows "\<exists>m'. stlc_hlist_del_init e m = Some m' \<and> is_hlist m' hp (xs @ ys) \<and>
           stlc_hlist_unhashed e m' = Some True"
proof -
  obtain m1 where m1: "stlc_hlist_unlink e m = Some m1" "is_hlist m1 hp (xs @ ys)" "is_hnode m1 e"
    using hlist_unlink_refines[OF l] by blast
  have pp: "hpprev m e = Some (last (hp # xs))" and "NULL \<notin> set xs" "e \<notin> set (hp # xs @ ys)"
    using l hseg_dom[of m hp "xs @ e # ys"] by (auto simp: is_hlist_def hseg_append)
  then have "last (hp # xs) \<noteq> NULL"
    using hp last_in_set[of "hp # xs"] by (metis list.distinct(1) set_ConsD)
  then show ?thesis
    using m1 pp \<open>e \<notin> _\<close>
    by (auto simp: stlc_hlist_del_init_def is_hnode_def mem_simps is_hlist_def h_seg_simps
        stlc_hlist_unhashed_def STLC_INIT_HLIST_NODE_def simp del: last.simps)
qed

lemma hlist_add_before_refines:
  assumes l: "is_hlist m hp (xs @ e # ys)" and n: "is_hnode m n" "n \<notin> set (hp # xs @ e # ys)"
  shows "\<exists>m'. stlc_hlist_add_before n e m = Some m' \<and> is_hlist m' hp (xs @ n # e # ys)"
proof -
  let ?p = "last (hp # xs)"
  let ?m = "upd_cell ?p n (upd_pprev e n (upd_cell n e (upd_pprev n ?p m)))"
  have seg: "hpath m hp xs" "hcell m ?p = Some e" "hpprev m e = Some ?p" "e \<noteq> NULL" "hseg m e ys"
      and dist: "distinct (hp # xs @ e # ys)"
    using l by (auto simp: is_hlist_def hseg_append)
  have p: "?p \<in> set (hp # xs)" "?p \<notin> set (butlast (hp # xs))"
    using dist last_notin_butlast[of hp xs] by auto
  then have pys: "?p \<notin> set (n # e # ys)"
    using dist n by auto
  have "e \<in> dom (hpprev m)" "?p \<in> dom (hcell m)"
    using seg by (auto simp del: last.simps)
  then have run: "stlc_hlist_add_before n e m = Some ?m"
    using seg n pys
    by (auto simp: stlc_hlist_add_before_def is_hnode_def mem_simps simp del: last.simps)
  have "n \<notin> set (butlast (hp # xs))"
    using n(2) by (metis Un_iff append_Cons in_set_butlastD set_append)
  then have "hpath ?m hp xs"
    using seg(1) p(2) dist n(2) by (simp add: h_seg_simps del: butlast.simps last.simps)
  moreover have "hseg ?m e ys"
    using seg(5) dist pys n(2) by (simp add: h_seg_simps del: last.simps)
  moreover have "hcell ?m ?p = Some n" "hpprev ?m n = Some ?p" "hcell ?m n = Some e"
      "hpprev ?m e = Some n"
    using pys n(2) by (auto simp del: last.simps)
  ultimately have "hseg ?m hp (xs @ n # e # ys)"
    using seg(4) n(1) unfolding hseg_append hseg.simps is_hnode_def by blast
  then show ?thesis
    using run dist n(2) by (auto simp: is_hlist_def)
qed

lemma hlist_add_after_refines:
  assumes l: "is_hlist m hp (xs @ e # ys)" and n: "is_hnode m n" "n \<notin> set (hp # xs @ e # ys)"
  shows "\<exists>m'. stlc_hlist_add_after e n m = Some m' \<and> is_hlist m' hp (xs @ e # n # ys)"
proof -
  let ?q = "case ys of [] \<Rightarrow> NULL | y # _ \<Rightarrow> y"
  let ?m = "upd_pprev n e (upd_cell e n (upd_cell n ?q m))"
  let ?m' = "if ys = [] then ?m else upd_pprev ?q n ?m"
  have seg: "hpath m hp xs" "hcell m (last (hp # xs)) = Some e" "hpprev m e = Some (last (hp # xs))"
      "e \<noteq> NULL" "hseg m e ys" and dist: "distinct (hp # xs @ e # ys)"
    using l by (auto simp: is_hlist_def hseg_append)
  have run: "stlc_hlist_add_after e n m = Some ?m'"
    using seg n dist hseg_dom[OF seg(5)]
    by (cases ys) (auto simp: stlc_hlist_add_after_def is_hnode_def mem_simps simp del: last.simps)
  have off: "x \<notin> set (butlast (hp # xs))" if "x \<in> {e, n}" for x
    using that n(2) dist by (metis Un_iff append_Cons distinct_split_notin(1) in_set_butlastD
        insertE list.set_intros(1) set_append singletonD)
  have "hpath ?m' hp xs"
    using seg(1) off dist n(2) by (cases ys) (simp_all add: h_seg_simps del: butlast.simps last.simps)
  moreover have "hseg ?m' n ys" "hcell ?m' e = Some n" "hpprev ?m' n = Some e"
    using seg(5) dist n(2) by (cases ys; auto simp: h_seg_simps)+
  moreover have "hcell ?m' (last (hp # xs)) = Some e" "hpprev ?m' e = Some (last (hp # xs))"
  proof -
    have "last (hp # xs) \<in> set (hp # xs)" by simp
    then have "last (hp # xs) \<notin> {e, n}" using dist n(2) by auto
    then show "hcell ?m' (last (hp # xs)) = Some e" "hpprev ?m' e = Some (last (hp # xs))"
      using seg(2,3) dist n(2) by (cases ys; auto simp del: last.simps)+
  qed
  ultimately have "hseg ?m' hp (xs @ e # n # ys)"
    using seg(4) n(1) unfolding hseg_append hseg.simps is_hnode_def by blast
  then show ?thesis
    using run dist n(2) by (auto simp: is_hlist_def)
qed

lemma hlist_find_refines:
  "hseg m p xs \<Longrightarrow> Option.bind (hcell m p) (\<lambda>pos. stlc_hlist_find P pos m) = Some (find P xs)"
proof (induction xs arbitrary: p)
  case Nil
  then show ?case by (simp add: stlc_hlist_find.simps)
next
  case (Cons x xs)
  then show ?case by (subst stlc_hlist_find.simps) auto
qed

section \<open>Properties\<close>

definition sample_hmem :: hmem where
  "sample_hmem = \<lparr>hcell = [10 \<mapsto> 20, 20 \<mapsto> 0, 30 \<mapsto> 0], hpprev = [20 \<mapsto> 10, 30 \<mapsto> 0]\<rparr>"

text \<open>C25: a node put before an entry of a hash bucket is found by the bucket scan, and
  \<open>stlc_hlist_del_init\<close> takes it out again in constant time from the node alone: the bucket is the
  old one, and the node is unhashed and may be inserted again.\<close>

theorem hlist_add_before_del:
  assumes l: "is_hlist m hp (xs @ e # ys)" and hp: "hp \<noteq> NULL"
    and n: "is_hnode m n" "n \<notin> set (hp # xs @ e # ys)"
  shows "\<exists>m1 m2. stlc_hlist_add_before n e m = Some m1 \<and> is_hlist m1 hp (xs @ n # e # ys) \<and>
           Option.bind (hcell m1 hp) (\<lambda>pos. stlc_hlist_find (\<lambda>x. x = n) pos m1) = Some (Some n) \<and>
           stlc_hlist_del_init n m1 = Some m2 \<and> is_hlist m2 hp (xs @ e # ys) \<and>
           stlc_hlist_unhashed n m2 = Some True"
proof -
  obtain m1 where m1: "stlc_hlist_add_before n e m = Some m1" "is_hlist m1 hp (xs @ n # e # ys)"
    using hlist_add_before_refines[OF l n] by blast
  have "find (\<lambda>x. x = n) (xs @ n # zs) = Some n" for zs
    by (induction xs) auto
  then show ?thesis
    using m1 hlist_del_init_refines[OF m1(2) hp]
      hlist_find_refines[of m1 hp "xs @ n # e # ys" "\<lambda>x. x = n"]
    by (auto simp: is_hlist_def)
qed

theorem hlist_add_before_del_witness:
  "\<exists>m1 m2. stlc_hlist_add_before 30 20 sample_hmem = Some m1 \<and> is_hlist m1 10 ([] @ 30 # 20 # []) \<and>
     Option.bind (hcell m1 10) (\<lambda>pos. stlc_hlist_find (\<lambda>x. x = 30) pos m1) = Some (Some 30) \<and>
     stlc_hlist_del_init 30 m1 = Some m2 \<and> is_hlist m2 10 ([] @ 20 # []) \<and>
     stlc_hlist_unhashed 30 m2 = Some True"
  by (rule hlist_add_before_del) (simp_all add: sample_hmem_def is_hlist_def is_hnode_def dom_def)

end
