(* ===== verification/MinHeap.thy ===== *)
theory MinHeap
  imports Base
begin

text \<open>
  The timer heap of \<open>min_heap.c\<close>: an array of pointers to timer nodes that grows by doubling, sift-up
  on insertion, sift-down on removal, lazy deletion (the callback is cleared and the node stays until
  it is due) and the tick that runs the callbacks of the due timers.  The event loop of
  \<open>zebra_epoll\<close> uses its own copy of the file, with \<open>cl_time_heap_tick\<close> added and the arguments
  cleared on deletion; the shared functions are the same text.

  Counts and indices are natural numbers, since the code never makes them negative; where the code
  computes with them in \<open>int\<close> (doubling the capacity, the child of a place, the count) an overflow is
  a fault.  A heap of at most \<open>2^30\<close> timers, which is part of its invariant, does not come to that, and
  a timer is added to one that has fewer.  Expiry times are 32-bit words, so the wrap-around of the millisecond clock is part of the model.  A node is an
  address of the node memory; an address that is not allocated there faults when it is used, and
  an index outside the array does too.  The clock and the result of \<open>calloc\<close> are arguments.
\<close>

section \<open>Data\<close>

record minheap_node =
  expire :: u32
  cb :: addr
  args :: addr

record time_heap =
  nodes :: "addr list"
  capacity :: nat
  cursize :: nat

type_synonym nodemem = "addr \<rightharpoonup> minheap_node"

definition TIME_HEAP_NODE_ISIZE :: nat where
  "TIME_HEAP_NODE_ISIZE = 100"

text \<open>Reads and writes of the array, and the field a comparison reads through a node pointer.\<close>

definition at :: "'a list \<Rightarrow> nat \<Rightarrow> 'a option" where
  "at xs i = (if i < length xs then Some (xs ! i) else None)"

definition put :: "'a list \<Rightarrow> nat \<Rightarrow> 'a \<Rightarrow> 'a list option" where
  "put xs i v = (if i < length xs then Some (xs[i := v]) else None)"

definition node_expire :: "nodemem \<Rightarrow> addr \<Rightarrow> u32 option" where
  "node_expire m p = map_option expire (m p)"

section \<open>Operations\<close>

definition time_heap_empty :: "time_heap \<Rightarrow> bool" where
  "time_heap_empty h = (cursize h = 0)"

definition time_heap_resize :: "time_heap \<Rightarrow> time_heap option" where
  "time_heap_resize h =
     (if cursize h \<le> length (nodes h) \<and> cursize h \<le> capacity h * 2 \<and> int_ok (int (capacity h) * 2)
      then Some (h\<lparr>capacity := capacity h * 2,
                   nodes := take (cursize h) (nodes h) @ replicate (capacity h * 2 - cursize h) NULL\<rparr>)
      else None)"

definition minheap_node_init :: "addr \<Rightarrow> u64 \<Rightarrow> addr \<Rightarrow> addr \<Rightarrow> u32 \<Rightarrow> nodemem \<Rightarrow> addr \<times> nodemem" where
  "minheap_node_init node now f a timeout m =
     (if node \<noteq> NULL
      then (node, m(node \<mapsto> \<lparr>expire = ucast (now + ucast timeout), cb = f, args = a\<rparr>))
      else (node, m))"

definition minheap_node_free :: "addr \<Rightarrow> nodemem \<Rightarrow> nodemem option" where
  "minheap_node_free node m =
     (if node \<noteq> NULL then (if node \<in> dom m then Some (m(node := None)) else None) else Some m)"

definition smaller_child :: "nodemem \<Rightarrow> nat \<Rightarrow> addr list \<Rightarrow> nat \<Rightarrow> nat option" where
  "smaller_child m n ns child =
     (if child + 1 < n
      then do {
        r \<leftarrow> at ns (child + 1);
        er \<leftarrow> node_expire m r;
        l \<leftarrow> at ns child;
        el \<leftarrow> node_expire m l;
        Some (if er < el then child + 1 else child) }
      else Some child)"

lemma smaller_child_cases: "smaller_child m n ns c = Some c' \<Longrightarrow> c' = c \<or> c' = c + 1"
  by (auto simp: smaller_child_def bind_eq_Some_iff split: if_splits)

function percolate_down_loop :: "nodemem \<Rightarrow> nat \<Rightarrow> addr \<Rightarrow> addr list \<Rightarrow> nat \<Rightarrow> addr list option" where
  "percolate_down_loop m n tmp ns hole =
     (if \<not> int_ok (int hole * 2 + 1) then None
      else if hole * 2 + 1 < n
      then do {
        child \<leftarrow> smaller_child m n ns (hole * 2 + 1);
        c \<leftarrow> at ns child;
        ec \<leftarrow> node_expire m c;
        et \<leftarrow> node_expire m tmp;
        if ec < et
        then do {
          ns' \<leftarrow> put ns hole c;
          percolate_down_loop m n tmp ns' child }
        else put ns hole tmp }
      else put ns hole tmp)"
  by pat_completeness auto
termination
  by (relation "measure (\<lambda>(m, n, tmp, ns, hole). n - hole)") (auto dest!: smaller_child_cases)

definition percolate_down :: "time_heap \<Rightarrow> nat \<Rightarrow> nodemem \<Rightarrow> time_heap option" where
  "percolate_down h hole m = do {
     tmp \<leftarrow> at (nodes h) hole;
     ns \<leftarrow> percolate_down_loop m (cursize h) tmp (nodes h) hole;
     Some (h\<lparr>nodes := ns\<rparr>) }"

function insert_time_heap :: "nodemem \<Rightarrow> addr list \<Rightarrow> addr \<Rightarrow> nat \<Rightarrow> addr list option" where
  "insert_time_heap m ns n hole =
     (if hole > 0
      then do {
        p \<leftarrow> at ns ((hole - 1) div 2);
        ep \<leftarrow> node_expire m p;
        en \<leftarrow> node_expire m n;
        if ep \<le> en then put ns hole n
        else do {
          ns' \<leftarrow> put ns hole p;
          insert_time_heap m ns' n ((hole - 1) div 2) } }
      else put ns hole n)"
  by pat_completeness auto
termination
  by (relation "measure (\<lambda>(m, ns, n, hole). hole)") auto

declare percolate_down_loop.simps [simp del] insert_time_heap.simps [simp del]

text \<open>
  \<open>time_heap_add_timer\<close> returns the new node; a null heap handle gives back a null node.
\<close>

definition time_heap_add_timer ::
  "addr \<Rightarrow> u64 \<Rightarrow> time_heap option \<Rightarrow> addr \<Rightarrow> addr \<Rightarrow> u32 \<Rightarrow> nodemem \<Rightarrow>
     (addr \<times> time_heap option \<times> nodemem) option" where
  "time_heap_add_timer new now hopt f a timeout m =
     (case hopt of
        None \<Rightarrow> Some (NULL, None, m)
      | Some h \<Rightarrow> do {
          h \<leftarrow> (if cursize h \<ge> capacity h then time_heap_resize h else Some h);
          let (node, m) = minheap_node_init new now f a timeout m;
          ns \<leftarrow> (if int_ok (int (cursize h) + 1) then insert_time_heap m (nodes h) node (cursize h) else None);
          Some (node, Some (h\<lparr>nodes := ns, cursize := cursize h + 1\<rparr>), m) })"

definition time_heap_del_timer :: "addr \<Rightarrow> nodemem \<Rightarrow> nodemem option" where
  "time_heap_del_timer node m =
     (if node \<noteq> NULL then map_option (\<lambda>nd. m(node \<mapsto> nd\<lparr>cb := NULL\<rparr>)) (m node) else Some m)"

text \<open>The copy of \<open>zebra_epoll\<close> clears the arguments too.\<close>

definition cl_time_heap_del_timer :: "addr \<Rightarrow> nodemem \<Rightarrow> nodemem option" where
  "cl_time_heap_del_timer node m =
     (if node \<noteq> NULL then map_option (\<lambda>nd. m(node \<mapsto> nd\<lparr>cb := NULL, args := NULL\<rparr>)) (m node)
      else Some m)"

definition pop_timer :: "time_heap \<Rightarrow> nodemem \<Rightarrow> (time_heap \<times> nodemem) option" where
  "pop_timer h m =
     (if time_heap_empty h then Some (h, m)
      else do {
        top \<leftarrow> at (nodes h) 0;
        if top \<noteq> NULL
        then do {
          m \<leftarrow> minheap_node_free top m;
          ns \<leftarrow> put (nodes h) 0 NULL;
          let n = cursize h - 1;
          lst \<leftarrow> at ns n;
          ns \<leftarrow> put ns 0 lst;
          h \<leftarrow> percolate_down (h\<lparr>nodes := ns, cursize := n\<rparr>) 0 m;
          Some (h, m) }
        else Some (h, m) })"

definition time_heap_top :: "time_heap \<Rightarrow> addr option" where
  "time_heap_top h = (if time_heap_empty h then Some NULL else at (nodes h) 0)"

definition time_heap_top_expire :: "time_heap \<Rightarrow> nodemem \<Rightarrow> u32 option option" where
  "time_heap_top_expire h m =
     (if time_heap_empty h then Some None
      else do { t \<leftarrow> at (nodes h) 0; e \<leftarrow> node_expire m t; Some (Some e) })"

definition time_heap_time_wait :: "u64 \<Rightarrow> time_heap \<Rightarrow> nodemem \<Rightarrow> int option option" where
  "time_heap_time_wait now h m = do {
     r \<leftarrow> time_heap_top_expire h m;
     case r of
       None \<Rightarrow> Some None
     | Some e \<Rightarrow>
         let t = ucast now :: u32 in Some (Some (sint (if e > t then e - t else 1))) }"

text \<open>The macros that own a node pointer: restart it, or stop it and forget it.\<close>

definition MINHEAP_TIMER_ON ::
  "addr \<Rightarrow> u64 \<Rightarrow> time_heap option \<Rightarrow> addr \<Rightarrow> addr \<Rightarrow> addr \<Rightarrow> u32 \<Rightarrow> nodemem \<Rightarrow>
     (addr \<times> time_heap option \<times> nodemem) option" where
  "MINHEAP_TIMER_ON new now h node f a time m = do {
     m \<leftarrow> (if node \<noteq> NULL then time_heap_del_timer node m else Some m);
     time_heap_add_timer new now h f a time m }"

definition MINHEAP_TIMER_OFF :: "addr \<Rightarrow> nodemem \<Rightarrow> (addr \<times> nodemem) option" where
  "MINHEAP_TIMER_OFF node m =
     (if node \<noteq> NULL then map_option (\<lambda>m. (NULL, m)) (time_heap_del_timer node m) else Some (node, m))"

text \<open>
  The callbacks are a parameter: they may use the heap, the node memory and a state of their own.
\<close>

type_synonym 'u callback =
  "addr \<Rightarrow> addr \<Rightarrow> time_heap \<times> nodemem \<times> 'u \<Rightarrow> (time_heap \<times> nodemem \<times> 'u) option"

partial_function (option) time_heap_tick_loop ::
  "'u callback \<Rightarrow> u32 \<Rightarrow> addr \<Rightarrow> time_heap \<Rightarrow> nodemem \<Rightarrow> 'u \<Rightarrow> (time_heap \<times> nodemem \<times> 'u) option" where
  "time_heap_tick_loop call cur tmp h m u =
     (if time_heap_empty h then Some (h, m, u)
      else if tmp = NULL then Some (h, m, u)
      else do {
        e \<leftarrow> node_expire m tmp;
        if e > cur then Some (h, m, u)
        else do {
          top \<leftarrow> at (nodes h) 0;
          nd \<leftarrow> m top;
          (h, m, u) \<leftarrow> (if cb nd \<noteq> NULL then call (cb nd) (args nd) (h, m, u) else Some (h, m, u));
          (h, m) \<leftarrow> pop_timer h m;
          tmp \<leftarrow> at (nodes h) 0;
          time_heap_tick_loop call cur tmp h m u } })"

definition time_heap_tick ::
  "'u callback \<Rightarrow> u64 \<Rightarrow> time_heap \<Rightarrow> nodemem \<Rightarrow> 'u \<Rightarrow> (time_heap \<times> nodemem \<times> 'u) option" where
  "time_heap_tick call now h m u = do {
     tmp \<leftarrow> at (nodes h) 0;
     time_heap_tick_loop call (ucast now) tmp h m u }"

text \<open>The tick of the event loop hands back the argument of one due timer.\<close>

partial_function (option) cl_time_heap_tick_loop ::
  "u32 \<Rightarrow> addr \<Rightarrow> time_heap \<Rightarrow> nodemem \<Rightarrow> (addr \<times> time_heap \<times> nodemem) option" where
  "cl_time_heap_tick_loop cur tmp h m =
     (if time_heap_empty h then Some (NULL, h, m)
      else if tmp = NULL then Some (NULL, h, m)
      else do {
        e \<leftarrow> node_expire m tmp;
        if e > cur then Some (NULL, h, m)
        else do {
          top \<leftarrow> at (nodes h) 0;
          nd \<leftarrow> m top;
          (h, m) \<leftarrow> pop_timer h m;
          if args nd \<noteq> NULL then Some (args nd, h, m)
          else do {
            tmp \<leftarrow> at (nodes h) 0;
            cl_time_heap_tick_loop cur tmp h m } } })"

definition cl_time_heap_tick :: "u64 \<Rightarrow> time_heap \<Rightarrow> nodemem \<Rightarrow> (addr \<times> time_heap \<times> nodemem) option" where
  "cl_time_heap_tick now h m = do {
     tmp \<leftarrow> at (nodes h) 0;
     cl_time_heap_tick_loop (ucast now) tmp h m }"

declare time_heap_tick_loop.simps [code] cl_time_heap_tick_loop.simps [code]

definition time_heap_init :: time_heap where
  "time_heap_init = \<lparr>nodes = replicate TIME_HEAP_NODE_ISIZE NULL, capacity = TIME_HEAP_NODE_ISIZE,
     cursize = 0\<rparr>"

definition time_head_free :: "time_heap option \<Rightarrow> nodemem \<Rightarrow> nodemem option" where
  "time_head_free hopt m =
     (case hopt of
        None \<Rightarrow> Some m
      | Some h \<Rightarrow> foldM (\<lambda>i m. do { p \<leftarrow> at (nodes h) i; minheap_node_free p m }) [0..<cursize h] m)"

section \<open>Heap order\<close>

definition key :: "nodemem \<Rightarrow> addr \<Rightarrow> u32" where
  "key m p = (case m p of Some nd \<Rightarrow> expire nd | None \<Rightarrow> 0)"

definition live :: "time_heap \<Rightarrow> addr list" where
  "live h = take (cursize h) (nodes h)"

abbreviation par :: "nat \<Rightarrow> nat" where
  "par i \<equiv> (i - 1) div 2"

definition heap_ordered :: "(addr \<Rightarrow> u32) \<Rightarrow> addr list \<Rightarrow> nat \<Rightarrow> bool" where
  "heap_ordered k ns n \<longleftrightarrow> (\<forall>i<n. 0 < i \<longrightarrow> k (ns ! par i) \<le> k (ns ! i))"

definition heap_inv :: "time_heap \<Rightarrow> nodemem \<Rightarrow> bool" where
  "heap_inv h m \<longleftrightarrow> length (nodes h) = capacity h \<and> 0 < capacity h \<and> cursize h \<le> capacity h \<and> cursize h \<le> 2 ^ 30 \<and>
     NULL \<notin> dom m \<and> distinct (live h) \<and> set (live h) \<subseteq> dom m \<and>
     heap_ordered (key m) (nodes h) (cursize h)"

lemma heap_top_least:
  assumes "heap_ordered k ns n"
  shows "i < n \<Longrightarrow> k (ns ! 0) \<le> k (ns ! i)"
proof (induction i rule: less_induct)
  case (less i)
  show ?case
  proof (cases "i = 0")
    case False
    then have "par i < i" "par i < n"
      using less.prems by linarith+
    then have "k (ns ! 0) \<le> k (ns ! par i)"
      using less.IH by blast
    also have "\<dots> \<le> k (ns ! i)"
      using assms less.prems False by (simp add: heap_ordered_def)
    finally show ?thesis .
  qed simp
qed

lemma heap_ordered_transfer:
  assumes "heap_ordered k ns n" and "\<And>i. i < n \<Longrightarrow> k' (ns' ! i) = k (ns ! i)"
  shows "heap_ordered k' ns' n"
proof -
  have "par i < n" if "i < n" for i
    using that by linarith
  then show ?thesis
    using assms by (simp add: heap_ordered_def)
qed

text \<open>
  While a node is sifted, its place is a hole: the order holds between all other places, and the two
  invariants say that the node \<open>t\<close> fits on the one side of the hole and that the neighbours of the
  hole are in order among themselves.
\<close>

definition ord_except :: "(addr \<Rightarrow> u32) \<Rightarrow> addr list \<Rightarrow> nat \<Rightarrow> nat \<Rightarrow> bool" where
  "ord_except k ns n hole \<longleftrightarrow>
     (\<forall>i<n. 0 < i \<longrightarrow> i \<noteq> hole \<longrightarrow> par i \<noteq> hole \<longrightarrow> k (ns ! par i) \<le> k (ns ! i))"

definition around :: "(addr \<Rightarrow> u32) \<Rightarrow> addr list \<Rightarrow> nat \<Rightarrow> nat \<Rightarrow> bool" where
  "around k ns n hole \<longleftrightarrow>
     (0 < hole \<longrightarrow> (\<forall>c<n. 0 < c \<longrightarrow> par c = hole \<longrightarrow> k (ns ! par hole) \<le> k (ns ! c)))"

definition down_inv :: "(addr \<Rightarrow> u32) \<Rightarrow> addr list \<Rightarrow> nat \<Rightarrow> nat \<Rightarrow> addr \<Rightarrow> bool" where
  "down_inv k ns n hole t \<longleftrightarrow> ord_except k ns n hole \<and> around k ns n hole \<and>
     (0 < hole \<longrightarrow> k (ns ! par hole) \<le> k t)"

definition up_inv :: "(addr \<Rightarrow> u32) \<Rightarrow> addr list \<Rightarrow> nat \<Rightarrow> nat \<Rightarrow> addr \<Rightarrow> bool" where
  "up_inv k ns n hole t \<longleftrightarrow> ord_except k ns n hole \<and> around k ns n hole \<and>
     (\<forall>c<n. 0 < c \<longrightarrow> par c = hole \<longrightarrow> k t \<le> k (ns ! c))"

lemmas sift_defs = down_inv_def up_inv_def ord_except_def around_def heap_ordered_def

lemma ord_exceptD:
  "ord_except k ns n hole \<Longrightarrow> i < n \<Longrightarrow> 0 < i \<Longrightarrow> i \<noteq> hole \<Longrightarrow> par i \<noteq> hole \<Longrightarrow>
   k (ns ! par i) \<le> k (ns ! i)"
  unfolding ord_except_def by blast

lemma aroundD:
  "around k ns n hole \<Longrightarrow> 0 < hole \<Longrightarrow> c < n \<Longrightarrow> 0 < c \<Longrightarrow> par c = hole \<Longrightarrow>
   k (ns ! par hole) \<le> k (ns ! c)"
  unfolding around_def by blast

lemma par_less: "0 < i \<Longrightarrow> par i < i"
  by linarith

lemma par_child: "par c = h \<Longrightarrow> 0 < c \<Longrightarrow> c = 2 * h + 1 \<or> c = 2 * h + 2"
  by linarith

lemma fill_hole:
  assumes o: "ord_except k ns n hole" and len: "hole < length ns" "n \<le> length ns"
    and up: "0 < hole \<Longrightarrow> k (ns ! par hole) \<le> k t"
    and down: "\<And>c. c < n \<Longrightarrow> 0 < c \<Longrightarrow> par c = hole \<Longrightarrow> k t \<le> k (ns ! c)"
  shows "heap_ordered k (ns[hole := t]) n"
  unfolding heap_ordered_def
proof (intro allI impI)
  fix i assume i: "i < n" "0 < i"
  have pi: "par i < i" using i(2) by (rule par_less)
  consider "i = hole" | "i \<noteq> hole" "par i = hole" | "i \<noteq> hole" "par i \<noteq> hole" by blast
  then show "k (ns[hole := t] ! par i) \<le> k (ns[hole := t] ! i)"
  proof cases
    case 1
    then show ?thesis using up i(2) pi len by simp
  next
    case 2
    then show ?thesis using down[OF i] pi len by simp
  next
    case 3
    then show ?thesis using ord_exceptD[OF o i] by simp
  qed
qed

lemma swap_mset:
  assumes "i < length ns" and "j < length ns" and "i \<noteq> j"
  shows "mset (ns[i := ns ! j, j := t]) = mset (ns[i := t])"
proof -
  have "mset ((ns[i := t])[i := (ns[i := t]) ! j, j := (ns[i := t]) ! i]) = mset (ns[i := t])"
    using assms by (intro mset_swap) auto
  then show ?thesis using assms by simp
qed

text \<open>One step down, and one step up, of the hole.\<close>

lemma down_step:
  assumes inv: "down_inv k ns n hole t" and c: "c = 2 * hole + 1 \<or> c = 2 * hole + 2" "c < n"
    and n: "n \<le> length ns"
    and least: "\<And>d. d < n \<Longrightarrow> 0 < d \<Longrightarrow> par d = hole \<Longrightarrow> k (ns ! c) \<le> k (ns ! d)"
    and lt: "k (ns ! c) < k t"
  shows "down_inv k (ns[hole := ns ! c]) n c t"
proof -
  let ?ns = "ns[hole := ns ! c]"
  have pc: "par c = hole" "0 < c" "hole < c" "hole < length ns" using c n by auto
  have o: "ord_except k ns n hole" and a: "around k ns n hole"
    using inv by (auto simp: down_inv_def)
  have "ord_except k ?ns n c"
    unfolding ord_except_def
  proof (intro allI impI)
    fix i assume i: "i < n" "0 < i" "i \<noteq> c" "par i \<noteq> c"
    have pi: "par i < i" using i(2) by (rule par_less)
    consider "i = hole" | "i \<noteq> hole" "par i = hole" | "i \<noteq> hole" "par i \<noteq> hole" by blast
    then show "k (?ns ! par i) \<le> k (?ns ! i)"
    proof cases
      case 1
      then show ?thesis using aroundD[OF a _ c(2) pc(2,1)] i(2) pi pc by simp
    next
      case 2
      then show ?thesis using least[OF i(1,2)] pc by simp
    next
      case 3
      then show ?thesis using ord_exceptD[OF o i(1,2)] by simp
    qed
  qed
  moreover have "k (?ns ! par c) \<le> k (?ns ! d)" if "d < n" "0 < d" "par d = c" for d
  proof -
    have "d \<noteq> hole" using that pc by linarith
    then show ?thesis
      using ord_exceptD[OF o that(1,2)] that(3) pc by simp
  qed
  ultimately show ?thesis
    using lt pc by (simp add: down_inv_def around_def)
qed

lemma up_step:
  assumes inv: "up_inv k ns n hole t" and hole: "0 < hole" "hole < n" and n: "n \<le> length ns"
    and gt: "k t < k (ns ! par hole)"
  shows "up_inv k (ns[hole := ns ! par hole]) n (par hole) t"
proof -
  let ?p = "par hole" and ?ns = "ns[hole := ns ! par hole]"
  have p: "?p < hole" using hole(1) by (rule par_less)
  have o: "ord_except k ns n hole" and a: "around k ns n hole"
    using inv by (auto simp: up_inv_def)
  have len: "hole < length ns" using hole n by simp
  have ge: "k (ns ! ?p) \<le> k (?ns ! d)" if "d < n" "0 < d" "par d = ?p" for d
    using ord_exceptD[OF o that(1,2)] that(3) p len by (cases "d = hole") auto
  have "ord_except k ?ns n ?p"
    unfolding ord_except_def
  proof (intro allI impI)
    fix i assume i: "i < n" "0 < i" "i \<noteq> ?p" "par i \<noteq> ?p"
    have pi: "par i < i" "i \<noteq> hole" using i(2,4) par_less by auto
    then show "k (?ns ! par i) \<le> k (?ns ! i)"
      using ord_exceptD[OF o i(1,2)] aroundD[OF a hole(1) i(1,2)] len by (cases "par i = hole") auto
  qed
  moreover have "k (?ns ! par ?p) \<le> k (?ns ! d)" if "0 < ?p" "d < n" "0 < d" "par d = ?p" for d
  proof -
    have "par ?p < ?p" using that(1) by (rule par_less)
    then have "k (ns ! par ?p) \<le> k (ns ! ?p)"
      using ord_exceptD[OF o _ that(1)] p hole(2) by simp
    then show ?thesis
      using ge[OF that(2,3,4)] \<open>par ?p < ?p\<close> p by simp
  qed
  moreover have "k t \<le> k (?ns ! d)" if "d < n" "0 < d" "par d = ?p" for d
    using ge[OF that] gt by simp
  ultimately show ?thesis
    by (simp add: up_inv_def around_def)
qed

section \<open>The sift loops\<close>

lemma node_expire_dom [simp]: "p \<in> dom m \<Longrightarrow> node_expire m p = Some (key m p)"
  by (auto simp: node_expire_def key_def)

lemma at_simps [simp]: "i < length xs \<Longrightarrow> at xs i = Some (xs ! i)" "put xs i v = None \<longleftrightarrow> length xs \<le> i"
  "i < length xs \<Longrightarrow> put xs i v = Some (xs[i := v])"
  by (auto simp: at_def put_def)

lemma smaller_child_ok:
  assumes "n \<le> length ns" and "\<And>i. i < n \<Longrightarrow> i \<noteq> hole \<Longrightarrow> ns ! i \<in> dom m" and "2 * hole + 1 < n"
  shows "\<exists>c. smaller_child m n ns (2 * hole + 1) = Some c \<and> (c = 2 * hole + 1 \<or> c = 2 * hole + 2) \<and>
    c < n \<and> (\<forall>d<n. 0 < d \<longrightarrow> par d = hole \<longrightarrow> key m (ns ! c) \<le> key m (ns ! d))"
proof -
  have d: "d = 2 * hole + 1 \<or> d = 2 * hole + 2" if "0 < d" "par d = hole" for d
    using par_child[OF that(2,1)] .
  show ?thesis
  proof (cases "2 * hole + 2 < n")
    case True
    then show ?thesis
      using assms by (auto simp: smaller_child_def dest!: d)
  next
    case False
    then show ?thesis
      using assms by (auto simp: smaller_child_def dest!: d)
  qed
qed

lemma percolate_down_loop_ok:
  "down_inv (key m) ns n hole t \<Longrightarrow> hole < n \<Longrightarrow> n \<le> 2 ^ 30 \<Longrightarrow> n \<le> length ns \<Longrightarrow> t \<in> dom m \<Longrightarrow>
   (\<And>i. i < n \<Longrightarrow> i \<noteq> hole \<Longrightarrow> ns ! i \<in> dom m) \<Longrightarrow>
   \<exists>ns'. percolate_down_loop m n t ns hole = Some ns' \<and> length ns' = length ns \<and>
         heap_ordered (key m) ns' n \<and> mset (take n ns') = mset (take n (ns[hole := t]))"
proof (induction m n t ns hole rule: percolate_down_loop.induct)
  case (1 m n t ns hole)
  note inv = 1(2) and len = 1(3,5) and val = 1(6,7)
  have io: "int_ok (int hole * 2 + 1)" using 1(3,4) by (simp add: int_ok_def)
  have up: "0 < hole \<Longrightarrow> key m (ns ! par hole) \<le> key m t" and ord: "ord_except (key m) ns n hole"
    using inv by (auto simp: down_inv_def)
  show ?case
  proof (cases "2 * hole + 1 < n")
    case False
    have "\<not> (c < n \<and> 0 < c \<and> par c = hole)" for c
      using False by linarith
    then show ?thesis
      using False len io fill_hole[OF ord, of t] up
      by (subst percolate_down_loop.simps) auto
  next
    case True
    obtain c where c: "smaller_child m n ns (2 * hole + 1) = Some c"
        "c = 2 * hole + 1 \<or> c = 2 * hole + 2" "c < n"
        and least: "\<And>d. d < n \<Longrightarrow> 0 < d \<Longrightarrow> par d = hole \<Longrightarrow> key m (ns ! c) \<le> key m (ns ! d)"
      using smaller_child_ok[OF len(2) val(2) True] by blast
    have cv: "ns ! c \<in> dom m" "c \<noteq> hole" "hole < length ns"
      using val(2)[of c] c len by auto
    show ?thesis
    proof (cases "key m (ns ! c) < key m t")
      case lt: True
      let ?ns = "ns[hole := ns ! c]"
      have val': "?ns ! i \<in> dom m" if "i < n" "i \<noteq> c" for i
        using that val(2) cv len by (cases "i = hole") auto
      have "\<exists>ns'. percolate_down_loop m n t ?ns c = Some ns' \<and> length ns' = length ?ns \<and>
         heap_ordered (key m) ns' n \<and> mset (take n ns') = mset (take n (?ns[c := t]))"
        using 1(1)[of c "ns ! c" "key m (ns ! c)" "key m t" ?ns] True c cv lt val len val' io 1(4)
          down_step[OF inv c(2,3) len(2) least lt]
        by (simp add: mult.commute)
      moreover have "mset (take n (?ns[c := t])) = mset (take n (ns[hole := t]))"
        using swap_mset[of hole "take n ns" c t] c cv len by (simp add: take_update_swap)
      ultimately show ?thesis
        using True c cv lt val(1) len io
        by (subst percolate_down_loop.simps) (auto simp: mult.commute)
    next
      case False
      then have "heap_ordered (key m) (ns[hole := t]) n"
        using fill_hole[OF ord cv(3) len(2), of t] up least by (meson leI order_trans)
      then show ?thesis
        using True c cv False val(1) len io
        by (subst percolate_down_loop.simps) (auto simp: mult.commute)
    qed
  qed
qed

lemma insert_time_heap_ok:
  "up_inv (key m) ns n hole t \<Longrightarrow> hole < n \<Longrightarrow> n \<le> length ns \<Longrightarrow> t \<in> dom m \<Longrightarrow>
   (\<And>i. i < n \<Longrightarrow> i \<noteq> hole \<Longrightarrow> ns ! i \<in> dom m) \<Longrightarrow>
   \<exists>ns'. insert_time_heap m ns t hole = Some ns' \<and> length ns' = length ns \<and>
         heap_ordered (key m) ns' n \<and> mset (take n ns') = mset (take n (ns[hole := t]))"
proof (induction m ns t hole rule: insert_time_heap.induct)
  case (1 m ns t hole)
  note inv = 1(2) and len = 1(3,4) and val = 1(5,6)
  have down: "\<And>c. c < n \<Longrightarrow> 0 < c \<Longrightarrow> par c = hole \<Longrightarrow> key m t \<le> key m (ns ! c)"
      and ord: "ord_except (key m) ns n hole"
    using inv by (auto simp: up_inv_def)
  let ?p = "par hole"
  show ?case
  proof (cases "0 < hole \<and> key m t < key m (ns ! ?p)")
    case False
    then have "heap_ordered (key m) (ns[hole := t]) n"
      using fill_hole[OF ord, of t] down len by (auto simp: not_less)
    moreover have "ns ! ?p \<in> dom m" "?p < length ns" if "0 < hole"
      using par_less[OF that] val(2)[of ?p] len by auto
    moreover have "put ns hole t = Some (ns[hole := t])"
      using len by simp
    ultimately show ?thesis
      using False val(1) by (subst insert_time_heap.simps) (auto simp: not_less)
  next
    case True
    have p: "?p < hole" using par_less True by blast
    then have pv: "ns ! ?p \<in> dom m" "?p < length ns" "hole < length ns" "?p \<noteq> hole" "?p < n"
      using val(2)[of ?p] len by auto
    let ?ns = "ns[hole := ns ! ?p]"
    have val': "?ns ! i \<in> dom m" if "i < n" "i \<noteq> ?p" for i
      using that val(2) pv len by (cases "i = hole") auto
    have "\<exists>ns'. insert_time_heap m ?ns t ?p = Some ns' \<and> length ns' = length ?ns \<and>
         heap_ordered (key m) ns' n \<and> mset (take n ns') = mset (take n (?ns[?p := t]))"
      using 1(1)[of "ns ! ?p" "key m (ns ! ?p)" "key m t" ?ns] True pv val' val(1) len
        up_step[OF inv _ len(1,2)]
      by auto
    moreover have "mset (take n (?ns[?p := t])) = mset (take n (ns[hole := t]))"
      using swap_mset[of hole "take n ns" ?p t] pv len by (simp add: take_update_swap)
    ultimately show ?thesis
      using True pv val(1) len by (subst insert_time_heap.simps) auto
  qed
qed

text \<open>A node that is not earlier than the first one does not take its place.\<close>

lemma insert_time_heap_step:
  assumes "insert_time_heap m ns t hole = Some ns'" and "0 < hole" and "t \<in> dom m"
  obtains p where "at ns (par hole) = Some p" and "p \<in> dom m"
    and "key m p \<le> key m t \<Longrightarrow> put ns hole t = Some ns'"
    and "\<not> key m p \<le> key m t \<Longrightarrow>
           \<exists>ns1. put ns hole p = Some ns1 \<and> insert_time_heap m ns1 t (par hole) = Some ns'"
proof -
  obtain p ep where p: "at ns (par hole) = Some p" "node_expire m p = Some ep"
      "(if ep \<le> key m t then put ns hole t
        else Option.bind (put ns hole p) (\<lambda>ns1. insert_time_heap m ns1 t (par hole))) = Some ns'"
    using assms(1) unfolding insert_time_heap.simps[of m ns t hole] using assms(2,3)
    by (auto simp: bind_eq_Some_iff)
  moreover have "p \<in> dom m" "ep = key m p"
    using p(2) by (auto simp: node_expire_def key_def)
  ultimately show ?thesis
    using that by (auto simp: bind_eq_Some_iff split: if_splits)
qed

lemma insert_time_heap_top:
  "insert_time_heap m ns t hole = Some ns' \<Longrightarrow> 0 < hole \<Longrightarrow> t \<in> dom m \<Longrightarrow> ns ! 0 \<in> dom m \<Longrightarrow>
   key m (ns ! 0) \<le> key m t \<Longrightarrow> ns' ! 0 = ns ! 0"
proof (induction m ns t hole arbitrary: ns' rule: insert_time_heap.induct)
  case (1 m ns t hole)
  obtain p where p: "at ns (par hole) = Some p" "p \<in> dom m"
      "key m p \<le> key m t \<Longrightarrow> put ns hole t = Some ns'"
      "\<not> key m p \<le> key m t \<Longrightarrow>
         \<exists>ns1. put ns hole p = Some ns1 \<and> insert_time_heap m ns1 t (par hole) = Some ns'"
    using insert_time_heap_step[OF 1(2,3,4)] by blast
  show ?case
  proof (cases "key m p \<le> key m t")
    case True
    then show ?thesis using p(3) 1(3) by (auto simp: put_def split: if_splits)
  next
    case False
    then obtain ns1 where ns1: "put ns hole p = Some ns1" "insert_time_heap m ns1 t (par hole) = Some ns'"
      using p(4) by blast
    then have top: "ns1 ! 0 = ns ! 0"
      using 1(3) by (auto simp: put_def split: if_splits)
    have "p \<noteq> ns ! 0"
      using False 1(6) by auto
    then have "par hole \<noteq> 0"
      using p(1) unfolding at_def by (metis option.distinct(1) option.inject)
    then show ?thesis
      using 1(1)[of p "key m p" "key m t" ns1 ns'] p(1,2) ns1 top False 1(3,4,5,6) by auto
  qed
qed

section \<open>The operations keep the heap\<close>

lemma take_pop_last:
  assumes "0 < n" and "n < length ns"
  shows "mset (take (Suc n) ns) = add_mset (ns ! 0) (mset (take n (ns[0 := ns ! n])))"
  using assms by (cases ns; cases n) (auto simp: take_Suc_conv_app_nth)

lemma live_nth: "i < cursize h \<Longrightarrow> cursize h \<le> length (nodes h) \<Longrightarrow> nodes h ! i \<in> set (live h)"
  by (auto simp: live_def in_set_conv_nth)

lemma key_upd_other [simp]: "p \<noteq> q \<Longrightarrow> key (m(q := v)) p = key m p"
  by (simp add: key_def)

lemma time_heap_resize_ok:
  assumes "heap_inv h m" and "capacity h \<le> cursize h" and "cursize h < 2 ^ 30"
  shows "\<exists>h'. time_heap_resize h = Some h' \<and> heap_inv h' m \<and> live h' = live h \<and>
           cursize h' = cursize h \<and> cursize h' < capacity h' \<and> (\<forall>i<cursize h. nodes h' ! i = nodes h ! i)"
proof -
  have o: "heap_ordered (key m) (nodes h) (cursize h)" and len: "cursize h \<le> length (nodes h)"
    using assms by (auto simp: heap_inv_def)
  then have "heap_ordered (key m) (take (cursize h) (nodes h) @ xs) (cursize h)" for xs
    using heap_ordered_transfer[OF o, of "key m"] by (simp add: nth_append)
  then show ?thesis
    using assms by (auto simp: time_heap_resize_def heap_inv_def live_def nth_append int_ok_def)
qed

lemma up_inv_last: "heap_ordered k ns n \<Longrightarrow> up_inv k ns (Suc n) n t"
  unfolding sift_defs by (auto simp: less_Suc_eq)

lemma add_timer_room_ok:
  assumes inv: "heap_inv h m" and room: "cursize h < capacity h" and fit: "cursize h < 2 ^ 30"
    and new: "new \<noteq> NULL" "new \<notin> dom m" and m': "m' = m(new \<mapsto> nd)"
  shows "\<exists>ns. insert_time_heap m' (nodes h) new (cursize h) = Some ns \<and>
           heap_inv (h\<lparr>nodes := ns, cursize := cursize h + 1\<rparr>) m' \<and>
           mset (take (cursize h + 1) ns) = add_mset new (mset (live h)) \<and>
           (0 < cursize h \<longrightarrow> key m (nodes h ! 0) \<le> expire nd \<longrightarrow> ns ! 0 = nodes h ! 0)"
proof -
  let ?n = "cursize h" and ?ns = "nodes h"
  have len: "?n < length ?ns" and val: "i < ?n \<Longrightarrow> ?ns ! i \<in> dom m" for i
    using inv room live_nth[of i h] by (auto simp: heap_inv_def)
  then have same: "i < ?n \<Longrightarrow> ?ns ! i \<noteq> new" for i
    using new by blast
  have "heap_ordered (key m) ?ns ?n"
    using inv by (simp add: heap_inv_def)
  then have "heap_ordered (key m') ?ns ?n"
    by (rule heap_ordered_transfer) (simp add: m' same)
  then have up: "up_inv (key m') ?ns (Suc ?n) ?n new"
    by (rule up_inv_last)
  have "?ns ! i \<in> dom m'" if "i < Suc ?n" "i \<noteq> ?n" for i
    using val[of i] that m' by auto
  then obtain ns where ns: "insert_time_heap m' ?ns new ?n = Some ns" "length ns = length ?ns"
      "heap_ordered (key m') ns (Suc ?n)" "mset (take (Suc ?n) ns) = mset (take (Suc ?n) (?ns[?n := new]))"
    using insert_time_heap_ok[OF up] len m' by force
  have ms: "mset (take (Suc ?n) ns) = add_mset new (mset (live h))"
    using ns(4) len by (simp add: take_Suc_conv_app_nth live_def)
  then have st: "set (take (Suc ?n) ns) = insert new (set (live h))"
    by (metis set_mset_add_mset_insert set_mset_mset)
  have "distinct (take (Suc ?n) ns)"
    using ms inv new by (metis distinct.simps(2) heap_inv_def mset.simps(2) mset_eq_imp_distinct_iff subsetD)
  then have "heap_inv (h\<lparr>nodes := ns, cursize := ?n + 1\<rparr>) m'"
    using inv ns room fit st new by (auto simp: heap_inv_def live_def m')
  moreover have "ns ! 0 = ?ns ! 0" if "0 < ?n" "key m (?ns ! 0) \<le> expire nd"
    using insert_time_heap_top[OF ns(1) that(1)] that val[OF that(1)] same[OF that(1)]
    by (auto simp: m' key_def)
  ultimately show ?thesis using ns(1) ms by auto
qed

lemma add_timer_ok:
  assumes inv: "heap_inv h m" and fit: "cursize h < 2 ^ 30" and new: "new \<noteq> NULL" "new \<notin> dom m"
    and nd: "nd = \<lparr>expire = ucast (now + ucast t), cb = f, args = a\<rparr>"
  shows "\<exists>h'. time_heap_add_timer new now (Some h) f a t m = Some (new, Some h', m(new \<mapsto> nd)) \<and>
           heap_inv h' (m(new \<mapsto> nd)) \<and> mset (live h') = add_mset new (mset (live h)) \<and>
           (0 < cursize h \<longrightarrow> key m (nodes h ! 0) \<le> expire nd \<longrightarrow> nodes h' ! 0 = nodes h ! 0)"
proof -
  obtain h1 where h1: "(if capacity h \<le> cursize h then time_heap_resize h else Some h) = Some h1"
      "heap_inv h1 m" "live h1 = live h" "cursize h1 = cursize h" "cursize h1 < capacity h1"
      "\<forall>i<cursize h. nodes h1 ! i = nodes h ! i"
    using time_heap_resize_ok[OF inv _ fit] inv by (cases "capacity h \<le> cursize h") auto
  have "int_ok (int (cursize h) + 1)" using fit by (simp add: int_ok_def)
  then show ?thesis
    using add_timer_room_ok[OF h1(2,5) _ new refl, of nd] h1 fit new nd
    by (auto simp: time_heap_add_timer_def minheap_node_init_def live_def)
qed

lemma pop_timer_empty [simp]: "cursize h = 0 \<Longrightarrow> pop_timer h m = Some (h, m)"
  by (simp add: pop_timer_def time_heap_empty_def)

lemma percolate_pop_ok:
  assumes o: "\<And>i. i < n \<Longrightarrow> 0 < par i \<Longrightarrow> key m (ns ! par i) \<le> key m (ns ! i)"
    and n: "0 < n" "n < length ns" "n \<le> 2 ^ 30"
    and val: "\<And>i. i < Suc n \<Longrightarrow> 0 < i \<Longrightarrow> ns ! i \<in> dom m"
  shows "\<exists>ns'. percolate_down_loop m n (ns ! n) (ns[0 := ns ! n]) 0 = Some ns' \<and>
           length ns' = length ns \<and> heap_ordered (key m) ns' n \<and>
           mset (take n ns') = mset (take n (ns[0 := ns ! n]))"
proof -
  have "down_inv (key m) (ns[0 := ns ! n]) n 0 (ns ! n)"
    using o n by (simp add: sift_defs)
  then show ?thesis
    using percolate_down_loop_ok[of m "ns[0 := ns ! n]" n 0 "ns ! n"] n val by auto
qed

lemma pop_timer_ok:
  assumes inv: "heap_inv h m" and ne: "0 < cursize h"
  shows "\<exists>h'. pop_timer h m = Some (h', m(nodes h ! 0 := None)) \<and>
           heap_inv h' (m(nodes h ! 0 := None)) \<and> mset (live h) = add_mset (nodes h ! 0) (mset (live h'))"
proof -
  obtain n where n: "cursize h = Suc n" using ne by (cases "cursize h") auto
  let ?ns = "nodes h" let ?t = "?ns ! 0" let ?m = "m(?t := None)"
  have len: "n < length ?ns" "?ns \<noteq> []" and cap: "length ?ns = capacity h" "0 < capacity h"
      and o: "heap_ordered (key m) ?ns (Suc n)" and nm: "NULL \<notin> dom m" and d: "distinct (take (Suc n) ?ns)"
      and sub: "set (take (Suc n) ?ns) \<subseteq> dom m"
    using inv n by (auto simp: heap_inv_def live_def)
  have val: "?ns ! i \<in> dom m" if "i < Suc n" for i
    using inv live_nth[of i h] that n by (auto simp: heap_inv_def)
  have fit: "n \<le> 2 ^ 30" using inv n by (simp add: heap_inv_def)
  have diff: "?ns ! i \<noteq> ?t" if "i < Suc n" "0 < i" for i
    using d that len nth_eq_iff_index_eq[OF d, of i 0] by auto
  have t: "?t \<noteq> NULL" "?t \<in> dom m" using val[of 0] nm by auto
  show ?thesis
  proof (cases "n = 0")
    case True
    then have "pop_timer h m = Some (h\<lparr>nodes := ?ns[0 := NULL], cursize := 0\<rparr>, ?m)"
      using n len t by (simp add: pop_timer_def time_heap_empty_def minheap_node_free_def
          percolate_down_def percolate_down_loop.simps int_ok_def)
    then show ?thesis
      using True n len cap nm by (cases ?ns) (auto simp: heap_inv_def live_def heap_ordered_def)
  next
    case False
    have o': "key ?m (?ns ! par i) \<le> key ?m (?ns ! i)" if "i < n" "0 < par i" for i
    proof -
      have "par i < n" "0 < i" using that by linarith+
      then show ?thesis
        using o that diff[of i] diff[of "par i"] by (simp add: heap_ordered_def)
    qed
    have val': "?ns ! i \<in> dom ?m" if "i < Suc n" "0 < i" for i
      using val diff that by simp
    obtain ns' where ns': "percolate_down_loop ?m n (?ns ! n) (?ns[0 := ?ns ! n]) 0 = Some ns'"
        "length ns' = length ?ns" "heap_ordered (key ?m) ns' n"
        "mset (take n ns') = mset (take n (?ns[0 := ?ns ! n]))"
      using percolate_pop_ok[of n ?m ?ns, OF o' _ len(1) fit val'] False by blast
    have ms: "mset (live h) = add_mset ?t (mset (take n ns'))"
      using ns'(4) take_pop_last[of n ?ns] False len n by (simp add: live_def)
    have run: "pop_timer h m = Some (h\<lparr>nodes := ns', cursize := n\<rparr>, ?m)"
      using n len t False ns'(1)
      by (simp add: pop_timer_def time_heap_empty_def minheap_node_free_def percolate_down_def)
    have "distinct (?t # take n ns')"
      using d n ms mset_eq_imp_distinct_iff[of "live h" "?t # take n ns'"] by (simp add: live_def)
    moreover have "set (live h) = insert ?t (set (take n ns'))"
      using ms by (metis set_mset_add_mset_insert set_mset_mset)
    ultimately have "heap_inv (h\<lparr>nodes := ns', cursize := n\<rparr>) ?m"
      using ns' cap len sub nm n fit by (auto simp: heap_inv_def live_def)
    then show ?thesis using run ms by (auto simp: live_def)
  qed
qed

section \<open>The contract of a timer queue\<close>

text \<open>
  A store of timers with a clock value each, of which the earliest can be looked at and removed.
  From the contract alone: the order in which timers leave, and the induction over the timers that
  are due, which is the argument of every loop that serves them.
\<close>

locale timer_queue =
  fixes inv :: "'s \<Rightarrow> bool" and elems :: "'s \<Rightarrow> addr multiset" and prio :: "'s \<Rightarrow> addr \<Rightarrow> u32"
    and top :: "'s \<Rightarrow> addr" and pop :: "'s \<Rightarrow> 's option"
  assumes top_law: "inv s \<Longrightarrow> elems s \<noteq> {#} \<Longrightarrow>
      top s \<in># elems s \<and> (\<forall>p \<in># elems s. prio s (top s) \<le> prio s p)"
    and pop_law: "inv s \<Longrightarrow> elems s \<noteq> {#} \<Longrightarrow>
      \<exists>s'. pop s = Some s' \<and> inv s' \<and> elems s = add_mset (top s) (elems s') \<and>
           (\<forall>p \<in># elems s'. prio s' p = prio s p)"
begin

lemma none_due:
  assumes "inv s" and "elems s = {#} \<or> t < prio s (top s)"
  shows "\<forall>p \<in># elems s. t < prio s p"
  using assms top_law[of s] by (cases "elems s = {#}") (auto intro: less_le_trans)

lemma due_induct [consumes 1, case_names served due]:
  assumes "inv s"
    and stop: "\<And>s. inv s \<Longrightarrow> elems s = {#} \<or> t < prio s (top s) \<Longrightarrow> P s"
    and step: "\<And>s s'. inv s \<Longrightarrow> elems s \<noteq> {#} \<Longrightarrow> prio s (top s) \<le> t \<Longrightarrow> pop s = Some s' \<Longrightarrow>
      inv s' \<Longrightarrow> elems s = add_mset (top s) (elems s') \<Longrightarrow>
      \<forall>p \<in># elems s'. prio s' p = prio s p \<Longrightarrow> P s' \<Longrightarrow> P s"
  shows "P s"
  using \<open>inv s\<close>
proof (induction "size (elems s)" arbitrary: s rule: less_induct)
  case less
  show ?case
  proof (cases "elems s = {#} \<or> t < prio s (top s)")
    case True
    then show ?thesis using stop less.prems by blast
  next
    case False
    then obtain s' where s': "pop s = Some s'" "inv s'" "elems s = add_mset (top s) (elems s')"
        "\<forall>p \<in># elems s'. prio s' p = prio s p"
      using pop_law[OF less.prems] by blast
    then have "size (elems s') < size (elems s)"
      by (metis lessI size_add_mset)
    then show ?thesis
      using step[of s s'] False s' less by auto
  qed
qed

end

lemma live_empty_iff: "heap_inv h m \<Longrightarrow> live h = [] \<longleftrightarrow> cursize h = 0"
  by (auto simp: heap_inv_def live_def)

interpretation heapq: timer_queue "\<lambda>(h, m). heap_inv h m" "\<lambda>(h, m). mset (live h)" "\<lambda>(h, m). key m"
  "\<lambda>(h, m). nodes h ! 0" "\<lambda>(h, m). pop_timer h m"
proof (unfold_locales, goal_cases)
  case (1 s)
  obtain h m where s: "s = (h, m)" by (cases s)
  then have inv: "heap_inv h m" and ne: "0 < cursize h"
    using 1 live_empty_iff[of h m] by auto
  have "key m (nodes h ! 0) \<le> key m p" if "p \<in> set (live h)" for p
    using that inv heap_top_least[of "key m" "nodes h" "cursize h"]
    by (auto simp: heap_inv_def live_def in_set_conv_nth)
  then show ?case
    using live_nth[OF ne] inv s by (auto simp: heap_inv_def)
next
  case (2 s)
  obtain h m where s: "s = (h, m)" by (cases s)
  then have inv: "heap_inv h m" and ne: "0 < cursize h"
    using 2 live_empty_iff[of h m] by auto
  obtain h' where h': "pop_timer h m = Some (h', m(nodes h ! 0 := None))"
      "heap_inv h' (m(nodes h ! 0 := None))" "mset (live h) = add_mset (nodes h ! 0) (mset (live h'))"
    using pop_timer_ok[OF inv ne] by blast
  have "distinct (nodes h ! 0 # live h')"
    using inv h'(3) mset_eq_imp_distinct_iff[of "live h" "nodes h ! 0 # live h'"]
    by (auto simp: heap_inv_def)
  then show ?case
    using h' s by (auto simp: key_def)
qed

section \<open>The tick\<close>

abbreviation armed :: "u32 \<Rightarrow> time_heap \<Rightarrow> nodemem \<Rightarrow> addr \<Rightarrow> bool" where
  "armed cur h m p \<equiv> p \<in> set (live h) \<and> key m p \<le> cur \<and> args (the (m p)) \<noteq> NULL"

text \<open>What the callback of a logging client sees: the callbacks and arguments, in the order of the calls.\<close>

definition log_call :: "(addr \<times> addr) list callback" where
  "log_call f a = (\<lambda>(h, m, u). Some (h, m, u @ [(f, a)]))"

definition runs :: "nodemem \<Rightarrow> addr list \<Rightarrow> (addr \<times> addr) list" where
  "runs m ps = map (\<lambda>p. (cb (the (m p)), args (the (m p)))) (filter (\<lambda>p. cb (the (m p)) \<noteq> NULL) ps)"

lemma top_in_live: "heap_inv h m \<Longrightarrow> live h \<noteq> [] \<Longrightarrow>
   nodes h ! 0 \<in> set (live h) \<and> nodes h ! 0 \<in> dom m \<and> nodes h ! 0 \<noteq> NULL \<and> nodes h \<noteq> [] \<and> \<not> time_heap_empty h"
  using heapq.top_law[of "(h, m)"] live_empty_iff[of h m]
  by (auto simp: heap_inv_def time_heap_empty_def live_def)

lemma at_0 [simp]: "heap_inv h m \<Longrightarrow> at (nodes h) 0 = Some (nodes h ! 0)"
  by (simp add: heap_inv_def)

lemma runs_cong: "(\<And>p. p \<in> set ps \<Longrightarrow> m p = m' p) \<Longrightarrow> runs m ps = runs m' ps"
  by (induction ps) (auto simp: runs_def)

lemma key_cong: "m p = m' p \<Longrightarrow> key m p = key m' p"
  by (simp add: key_def)

lemma pop_facts:
  assumes inv: "heap_inv h m" and ne: "live h \<noteq> []" and pop: "pop_timer h m = Some (h1, m1)"
  shows "heap_inv h1 m1" and "m1 = m(nodes h ! 0 := None)"
    and "mset (live h) = add_mset (nodes h ! 0) (mset (live h1))"
    and "set (live h) = insert (nodes h ! 0) (set (live h1))" and "nodes h ! 0 \<notin> set (live h1)"
    and "p \<in> set (live h1) \<Longrightarrow> key m (nodes h ! 0) \<le> key m p \<and> m1 p = m p \<and> key m1 p = key m p"
proof -
  show h1: "heap_inv h1 m1" and m1: "m1 = m(nodes h ! 0 := None)"
      and ms: "mset (live h) = add_mset (nodes h ! 0) (mset (live h1))"
    using pop_timer_ok[OF inv] pop live_empty_iff[OF inv] ne by auto
  show st: "set (live h) = insert (nodes h ! 0) (set (live h1))"
    using ms by (metis set_mset_add_mset_insert set_mset_mset)
  show off: "nodes h ! 0 \<notin> set (live h1)"
    using inv ms mset_eq_imp_distinct_iff[of "live h" "nodes h ! 0 # live h1"]
    by (auto simp: heap_inv_def)
  show "key m (nodes h ! 0) \<le> key m p \<and> m1 p = m p \<and> key m1 p = key m p" if "p \<in> set (live h1)"
    using heapq.top_law[of "(h, m)"] inv ne st off m1 that by (auto simp: key_def)
qed

lemma tick_step:
  assumes inv: "heap_inv h m" and ne: "live h \<noteq> []" and due: "key m (nodes h ! 0) \<le> cur"
    and nd: "m (nodes h ! 0) = Some nd" and pop: "pop_timer h m = Some (h1, m1)"
  shows "time_heap_tick_loop log_call cur (nodes h ! 0) h m u =
      time_heap_tick_loop log_call cur (nodes h1 ! 0) h1 m1 (u @ runs m [nodes h ! 0])"
    and "cl_time_heap_tick_loop cur (nodes h ! 0) h m =
      (if args nd \<noteq> NULL then Some (args nd, h1, m1) else cl_time_heap_tick_loop cur (nodes h1 ! 0) h1 m1)"
proof -
  note top = top_in_live[OF inv ne] and inv1 = pop_facts(1)[OF inv ne pop]
  have e: "node_expire m (nodes h ! 0) = Some (key m (nodes h ! 0))" "\<not> cur < key m (nodes h ! 0)"
    using top due by auto
  show "time_heap_tick_loop log_call cur (nodes h ! 0) h m u =
      time_heap_tick_loop log_call cur (nodes h1 ! 0) h1 m1 (u @ runs m [nodes h ! 0])"
    using top nd e by (subst time_heap_tick_loop.simps)
      (simp add: at_0[OF inv] at_0[OF inv1] pop log_call_def runs_def)
  show "cl_time_heap_tick_loop cur (nodes h ! 0) h m =
      (if args nd \<noteq> NULL then Some (args nd, h1, m1) else cl_time_heap_tick_loop cur (nodes h1 ! 0) h1 m1)"
    using top nd e by (subst cl_time_heap_tick_loop.simps)
      (simp add: at_0[OF inv] at_0[OF inv1] pop)
qed

lemma tick_stop:
  assumes inv: "heap_inv h m" and stop: "live h = [] \<or> cur < key m (nodes h ! 0)"
  shows "time_heap_tick_loop call cur (nodes h ! 0) h m u = Some (h, m, u)"
    and "cl_time_heap_tick_loop cur (nodes h ! 0) h m = Some (NULL, h, m)"
    and "\<forall>p\<in>set (live h). cur < key m p"
proof -
  have e: "time_heap_empty h \<or> node_expire m (nodes h ! 0) = Some (key m (nodes h ! 0)) \<and>
      cur < key m (nodes h ! 0)"
    using stop top_in_live[OF inv] live_empty_iff[OF inv] node_expire_dom[of "nodes h ! 0" m]
    unfolding time_heap_empty_def by blast
  then show "time_heap_tick_loop call cur (nodes h ! 0) h m u = Some (h, m, u)"
    by (subst time_heap_tick_loop.simps) auto
  show "cl_time_heap_tick_loop cur (nodes h ! 0) h m = Some (NULL, h, m)"
    using e by (subst cl_time_heap_tick_loop.simps) auto
  show "\<forall>p\<in>set (live h). cur < key m p"
    using heapq.none_due[of "(h, m)" cur] assms by auto
qed

lemma time_heap_tick_loop_ok:
  assumes "(\<lambda>(h, m). heap_inv h m) s"
  shows "\<exists>h' m' ps. time_heap_tick_loop log_call cur (nodes (fst s) ! 0) (fst s) (snd s) u =
            Some (h', m', u @ runs (snd s) ps) \<and>
          heap_inv h' m' \<and> (\<forall>p\<in>set (live h'). cur < key m' p \<and> m' p = snd s p) \<and>
          mset (live (fst s)) = mset ps + mset (live h') \<and>
          sorted (map (key (snd s)) ps) \<and> (\<forall>p\<in>set ps. key (snd s) p \<le> cur)"
  using assms
proof (induction s arbitrary: u rule: heapq.due_induct[where t = cur])
  case (served s)
  obtain h m where s: "s = (h, m)" by (cases s)
  have inv: "heap_inv h m" and stop: "live h = [] \<or> cur < key m (nodes h ! 0)"
    using served s by auto
  show ?case
    unfolding s fst_conv snd_conv using tick_stop(1)[OF inv stop, of log_call u] tick_stop(3)[OF inv stop] inv
    by (intro exI[of _ h] exI[of _ m] exI[of _ "[]"]) (simp add: runs_def)
next
  case (due s s')
  obtain h m h1 m1 where s: "s = (h, m)" "s' = (h1, m1)" by (cases s; cases s')
  let ?t = "nodes h ! 0"
  have inv: "heap_inv h m" and ne: "live h \<noteq> []" and le: "key m ?t \<le> cur"
      and pop: "pop_timer h m = Some (h1, m1)"
    using due s by auto
  obtain nd where nd: "m ?t = Some nd" using top_in_live[OF inv ne] by auto
  note facts = pop_facts[OF inv ne pop]
  obtain h' m' ps where ih: "time_heap_tick_loop log_call cur (nodes h1 ! 0) h1 m1 (u @ runs m [?t]) =
        Some (h', m', (u @ runs m [?t]) @ runs m1 ps)" "heap_inv h' m'"
      "\<forall>p\<in>set (live h'). cur < key m' p \<and> m' p = m1 p" "mset (live h1) = mset ps + mset (live h')"
      "sorted (map (key m1) ps)" "\<forall>p\<in>set ps. key m1 p \<le> cur"
    using due.IH[of "u @ runs m [?t]"] s by auto
  have sub: "p \<in> set (live h1)" if "p \<in> set ps" for p
    using ih(4) that by (metis UnCI set_mset_mset set_mset_union)
  then have same: "runs m ps = runs m1 ps" "map (key m1) ps = map (key m) ps"
    using facts(6) by (auto intro!: runs_cong)
  have "runs m (?t # ps) = runs m [?t] @ runs m1 ps"
    using same(1) by (simp add: runs_def)
  then have "time_heap_tick_loop log_call cur ?t h m u = Some (h', m', u @ runs m (?t # ps))"
    using ih(1) tick_step(1)[OF inv ne le nd pop, of u] by simp
  moreover have "sorted (map (key m) (?t # ps))" "\<forall>p\<in>set (?t # ps). key m p \<le> cur"
    using ih(5,6) same(2) sub facts(6) le by auto
  moreover have "mset (live h) = mset (?t # ps) + mset (live h')"
    using facts(3) ih(4) by simp
  moreover have "m' p = m p" if "p \<in> set (live h')" for p
  proof -
    have "p \<in> set (live h1)" using ih(4) that by (metis UnCI set_mset_mset set_mset_union)
    then show ?thesis using ih(3) that facts(6) by simp
  qed
  ultimately show ?case
    using ih(2,3) unfolding s fst_conv snd_conv by blast
qed

lemma cl_time_heap_tick_loop_ok:
  assumes "(\<lambda>(h, m). heap_inv h m) s"
  shows "\<exists>a h' m'. cl_time_heap_tick_loop cur (nodes (fst s) ! 0) (fst s) (snd s) = Some (a, h', m') \<and>
          heap_inv h' m' \<and> set (live h') \<subseteq> set (live (fst s)) \<and> (\<forall>p\<in>set (live h'). m' p = snd s p) \<and>
          (if a = NULL then \<forall>p. \<not> armed cur (fst s) (snd s) p
           else \<exists>p. armed cur (fst s) (snd s) p \<and> a = args (the (snd s p)) \<and> p \<notin> set (live h') \<and>
                  (\<forall>q. armed cur (fst s) (snd s) q \<longrightarrow> key (snd s) p \<le> key (snd s) q \<and> (q = p \<or> q \<in> set (live h'))))"
  using assms
proof (induction s rule: heapq.due_induct[where t = cur])
  case (served s)
  obtain h m where s: "s = (h, m)" by (cases s)
  have inv: "heap_inv h m" and stop: "live h = [] \<or> cur < key m (nodes h ! 0)"
    using served s by auto
  show ?case
    unfolding s fst_conv snd_conv using tick_stop(2,3)[OF inv stop] inv
    by (intro exI[of _ NULL] exI[of _ h] exI[of _ m]) (simp add: Ball_def not_le)
next
  case (due s s')
  obtain h m h1 m1 where s: "s = (h, m)" "s' = (h1, m1)" by (cases s; cases s')
  let ?t = "nodes h ! 0"
  have inv: "heap_inv h m" and ne: "live h \<noteq> []" and le: "key m ?t \<le> cur"
      and pop: "pop_timer h m = Some (h1, m1)"
    using due s by auto
  obtain nd where nd: "m ?t = Some nd" using top_in_live[OF inv ne] by auto
  note facts = pop_facts[OF inv ne pop] and step = tick_step(2)[OF inv ne le nd pop]
  show ?case
  proof (cases "args nd = NULL")
    case False
    then have "armed cur h m ?t"
      using facts(4) nd le by simp
    then show ?thesis
      using False step facts(1,4,5,6) s nd
      by (intro exI[of _ "args nd"] exI[of _ h1] exI[of _ m1]) auto
  next
    case True
    then have same: "armed cur h m p \<longleftrightarrow> armed cur h1 m1 p" for p
      using facts(4,5) facts(6)[of p] nd by (cases "p = ?t") auto
    obtain a h' m' where ih: "cl_time_heap_tick_loop cur (nodes h1 ! 0) h1 m1 = Some (a, h', m')"
        "heap_inv h' m'" "set (live h') \<subseteq> set (live h1)" "\<forall>p\<in>set (live h'). m' p = m1 p"
        "if a = NULL then \<forall>p. \<not> armed cur h1 m1 p
         else \<exists>p. armed cur h1 m1 p \<and> a = args (the (m1 p)) \<and> p \<notin> set (live h') \<and>
                (\<forall>q. armed cur h1 m1 q \<longrightarrow> key m1 p \<le> key m1 q \<and> (q = p \<or> q \<in> set (live h')))"
      using due.IH unfolding s fst_conv snd_conv by blast
    have "if a = NULL then \<forall>p. \<not> armed cur h m p
         else \<exists>p. armed cur h m p \<and> a = args (the (m p)) \<and> p \<notin> set (live h') \<and>
                (\<forall>q. armed cur h m q \<longrightarrow> key m p \<le> key m q \<and> (q = p \<or> q \<in> set (live h')))"
      using ih(5) same facts(6) by (auto split: if_splits)
    then show ?thesis
      using ih(1-4) step True s facts(4,6)
      by (intro exI[of _ a] exI[of _ h'] exI[of _ m']) auto
  qed
qed

text \<open>
  Callbacks that use the heap.  \<open>tick_contract\<close> is what the loop relies on: a callback keeps the
  heap and its own bookkeeping \<open>I\<close>, which may depend on the number of timers, takes no timer out, leaves the timer that is being served at the
  top, and what it starts is not due yet.
\<close>

definition tick_contract :: "(nat \<Rightarrow> nodemem \<Rightarrow> 'u \<Rightarrow> bool) \<Rightarrow> 'u callback \<Rightarrow> u32 \<Rightarrow> bool" where
  "tick_contract I call cur \<longleftrightarrow> (\<forall>n m u p. I (Suc n) m u \<longrightarrow> I n (m(p := None)) u) \<and>
     (\<forall>f a h m u. heap_inv h m \<longrightarrow> I (length (live h)) m u \<longrightarrow> live h \<noteq> [] \<longrightarrow> key m (nodes h ! 0) \<le> cur \<longrightarrow>
        (\<exists>h' m' u'. call f a (h, m, u) = Some (h', m', u') \<and> heap_inv h' m' \<and> I (length (live h')) m' u' \<and>
           nodes h' ! 0 = nodes h ! 0 \<and> set (live h) \<subseteq> set (live h') \<and>
           (\<forall>p\<in>set (live h). key m' p = key m p) \<and>
           (\<forall>p\<in>set (live h') - set (live h). cur < key m' p)))"

definition due_count :: "u32 \<Rightarrow> time_heap \<Rightarrow> nodemem \<Rightarrow> nat" where
  "due_count cur h m = card {p \<in> set (live h). key m p \<le> cur}"

lemma tick_contract_call:
  assumes "tick_contract I call cur" and "heap_inv h m" and "I (length (live h)) m u" and "live h \<noteq> []"
    and "key m (nodes h ! 0) \<le> cur"
  shows "\<exists>h1 m1 u1. (if f \<noteq> NULL then call f a (h, m, u) else Some (h, m, u)) = Some (h1, m1, u1) \<and>
      heap_inv h1 m1 \<and> I (length (live h1)) m1 u1 \<and> nodes h1 ! 0 = nodes h ! 0 \<and> set (live h) \<subseteq> set (live h1) \<and>
      (\<forall>p\<in>set (live h). key m1 p = key m p) \<and> (\<forall>p\<in>set (live h1) - set (live h). cur < key m1 p)"
proof (cases "f = NULL")
  case True
  then show ?thesis using assms by simp
next
  case False
  then show ?thesis using assms by (simp add: tick_contract_def)
qed

lemma tick_contract_step:
  assumes ct: "tick_contract I call cur" and inv: "heap_inv h m" and I: "I (length (live h)) m u" and ne: "live h \<noteq> []"
    and due: "key m (nodes h ! 0) \<le> cur"
  obtains h' m' u' where
    "time_heap_tick_loop call cur (nodes h ! 0) h m u = time_heap_tick_loop call cur (nodes h' ! 0) h' m' u'"
    "heap_inv h' m'" "I (length (live h')) m' u'" "due_count cur h' m' < due_count cur h m"
    "\<And>p. p \<in> set (live h) \<Longrightarrow> cur < key m p \<Longrightarrow> p \<in> set (live h') \<and> key m' p = key m p"
proof -
  let ?t = "nodes h ! 0"
  obtain nd where nd: "m ?t = Some nd" using top_in_live[OF inv ne] by auto
  obtain h1 m1 u1 where c: "(if cb nd \<noteq> NULL then call (cb nd) (args nd) (h, m, u) else Some (h, m, u)) =
        Some (h1, m1, u1)" "heap_inv h1 m1" "I (length (live h1)) m1 u1" "nodes h1 ! 0 = ?t" "set (live h) \<subseteq> set (live h1)"
      "\<forall>p\<in>set (live h). key m1 p = key m p" "\<forall>p\<in>set (live h1) - set (live h). cur < key m1 p"
    using tick_contract_call[OF ct inv I ne due] by blast
  have ne1: "live h1 \<noteq> []" using c(5) ne by auto
  then obtain h2 where pop: "pop_timer h1 m1 = Some (h2, m1(?t := None))"
    using pop_timer_ok[OF c(2)] c(4) live_empty_iff[OF c(2)] by auto
  note facts = pop_facts[OF c(2) ne1 pop]
  have live2: "set (live h2) = set (live h1) - {?t}" and k2: "p \<in> set (live h2) \<Longrightarrow> key (m1(?t := None)) p = key m1 p" for p
    using facts(4,5,6) c(4) by auto
  have t: "?t \<in> set (live h)" using top_in_live[OF inv ne] by simp
  have "{p \<in> set (live h2). key (m1(?t := None)) p \<le> cur} \<subseteq> {p \<in> set (live h). key m p \<le> cur} - {?t}"
    using live2 k2 c(6,7) by (force simp: not_le)
  then have "card {p \<in> set (live h2). key (m1(?t := None)) p \<le> cur} \<le> card ({p \<in> set (live h). key m p \<le> cur} - {?t})"
    by (intro card_mono) auto
  moreover have "card ({p \<in> set (live h). key m p \<le> cur} - {?t}) < card {p \<in> set (live h). key m p \<le> cur}"
    using t due by (intro card_Diff1_less) auto
  ultimately have "due_count cur h2 (m1(?t := None)) < due_count cur h m"
    by (simp add: due_count_def)
  moreover have "time_heap_tick_loop call cur ?t h m u =
      time_heap_tick_loop call cur (nodes h2 ! 0) h2 (m1(?t := None)) u1"
    using top_in_live[OF inv ne] nd leD[OF due] c(1)
    by (subst time_heap_tick_loop.simps) (simp add: at_0[OF inv] at_0[OF facts(1)] pop)
  moreover have "length (live h1) = Suc (length (live h2))" using facts(3) by (metis size_add_mset size_mset)
  then have "I (length (live h2)) (m1(?t := None)) u1"
    using ct c(3) by (simp add: tick_contract_def)
  moreover have "p \<in> set (live h2) \<and> key (m1(?t := None)) p = key m p" if "p \<in> set (live h)" "cur < key m p" for p
  proof -
    have "p \<noteq> ?t" using that(2) due by auto
    then show ?thesis using that(1) c(5,6) live2 by auto
  qed
  ultimately show ?thesis
    using that facts(1) by blast
qed

lemma time_heap_tick_loop_contract:
  assumes ct: "tick_contract I call cur"
  shows "heap_inv h m \<Longrightarrow> I (length (live h)) m u \<Longrightarrow>
    \<exists>h' m' u'. time_heap_tick_loop call cur (nodes h ! 0) h m u = Some (h', m', u') \<and> heap_inv h' m' \<and>
      (\<forall>p\<in>set (live h'). cur < key m' p) \<and>
      (\<forall>p\<in>set (live h). cur < key m p \<longrightarrow> p \<in> set (live h') \<and> key m' p = key m p)"
proof (induction "due_count cur h m" arbitrary: h m u rule: less_induct)
  case less
  show ?case
  proof (cases "live h = [] \<or> cur < key m (nodes h ! 0)")
    case True
    then show ?thesis
      using tick_stop(1)[OF less.prems(1) True, of call u] tick_stop(3)[OF less.prems(1) True] less.prems(1)
      by blast
  next
    case False
    obtain h1 m1 u1 where s: "time_heap_tick_loop call cur (nodes h ! 0) h m u =
          time_heap_tick_loop call cur (nodes h1 ! 0) h1 m1 u1" "heap_inv h1 m1" "I (length (live h1)) m1 u1"
        "due_count cur h1 m1 < due_count cur h m"
        "\<And>p. p \<in> set (live h) \<Longrightarrow> cur < key m p \<Longrightarrow> p \<in> set (live h1) \<and> key m1 p = key m p"
      using tick_contract_step[OF ct less.prems] False by (metis not_le)
    obtain h' m' u' where "time_heap_tick_loop call cur (nodes h1 ! 0) h1 m1 u1 = Some (h', m', u')"
        "heap_inv h' m'" "\<forall>p\<in>set (live h'). cur < key m' p"
        "\<forall>p\<in>set (live h1). cur < key m1 p \<longrightarrow> p \<in> set (live h') \<and> key m' p = key m1 p"
      using less.hyps[OF s(4,2,3)] by blast
    then show ?thesis using s(1,5) by metis
  qed
qed

text \<open>
  A client that re-arms: the callback starts the timer again \<open>delay\<close> later, with a node from its own
  supply of addresses.
\<close>

definition rearm :: "u64 \<Rightarrow> u32 \<Rightarrow> addr list callback" where
  "rearm now delay f a = (\<lambda>(h, m, u).
     case u of
       [] \<Rightarrow> Some (h, m, u)
     | p # ps \<Rightarrow> Option.bind (time_heap_add_timer p now (Some h) f a delay m)
         (\<lambda>(_, h', m'). map_option (\<lambda>h'. (h', m', ps)) h'))"

text \<open>The supply is fresh, and the heap has room for all of it.\<close>

definition fresh_supply :: "nat \<Rightarrow> nodemem \<Rightarrow> addr list \<Rightarrow> bool" where
  "fresh_supply n m u \<longleftrightarrow> n + length u \<le> 2 ^ 30 \<and> distinct u \<and> NULL \<notin> set u \<and> set u \<inter> dom m = {}"

lemma rearm_contract:
  assumes late: "cur < ucast (now + ucast delay)"
  shows "tick_contract fresh_supply (rearm now delay) cur"
proof -
  have "\<exists>h' m' u'. rearm now delay f a (h, m, u) = Some (h', m', u') \<and> heap_inv h' m' \<and> fresh_supply (length (live h')) m' u' \<and>
      nodes h' ! 0 = nodes h ! 0 \<and> set (live h) \<subseteq> set (live h') \<and> (\<forall>p\<in>set (live h). key m' p = key m p) \<and>
      (\<forall>p\<in>set (live h') - set (live h). cur < key m' p)"
    if inv: "heap_inv h m" and sup: "fresh_supply (length (live h)) m u" and ne: "live h \<noteq> []" and due: "key m (nodes h ! 0) \<le> cur"
    for f a h m u
  proof (cases u)
    case Nil
    then show ?thesis using that by (simp add: rearm_def)
  next
    case (Cons p ps)
    let ?nd = "\<lparr>expire = ucast (now + ucast delay), cb = f, args = a\<rparr>"
    have p: "p \<noteq> NULL" "p \<notin> dom m" using sup Cons by (auto simp: fresh_supply_def)
    have fit: "cursize h < 2 ^ 30" using sup Cons inv by (auto simp: fresh_supply_def heap_inv_def live_def)
    obtain h' where h': "time_heap_add_timer p now (Some h) f a delay m = Some (p, Some h', m(p \<mapsto> ?nd))"
        "heap_inv h' (m(p \<mapsto> ?nd))" "mset (live h') = add_mset p (mset (live h))"
        "nodes h' ! 0 = nodes h ! 0"
      using add_timer_ok[OF inv fit p refl, where now = now and t = delay and f = f and a = a] live_empty_iff[OF inv] ne late due by auto
    have "set (live h') = insert p (set (live h))"
      using h'(3) by (metis set_mset_add_mset_insert set_mset_mset)
    moreover have "q \<noteq> p" if "q \<in> set (live h)" for q
      using that inv p(2) by (auto simp: heap_inv_def)
    moreover have "key (m(p \<mapsto> ?nd)) p = ucast (now + ucast delay)"
      by (simp add: key_def)
    moreover have "length (live h') = Suc (length (live h))" using h'(3) by (metis size_add_mset size_mset)
    then have "fresh_supply (length (live h')) (m(p \<mapsto> ?nd)) ps"
      using sup Cons by (auto simp: fresh_supply_def)
    ultimately show ?thesis
      using h' Cons late by (auto simp: rearm_def)
  qed
  moreover have "fresh_supply n (m(p := None)) u" if "fresh_supply (Suc n) m u" for n m u p
    using that by (auto simp: fresh_supply_def)
  ultimately show ?thesis
    unfolding tick_contract_def by blast
qed

section \<open>Lazy deletion and tear-down\<close>

lemma time_heap_del_timer_ok:
  assumes inv: "heap_inv h m" and nd: "m node = Some nd"
  shows "time_heap_del_timer node m = Some (m(node \<mapsto> nd\<lparr>cb := NULL\<rparr>))"
    and "heap_inv h (m(node \<mapsto> nd\<lparr>cb := NULL\<rparr>))"
proof -
  have "node \<noteq> NULL" using inv nd by (auto simp: heap_inv_def)
  then show "time_heap_del_timer node m = Some (m(node \<mapsto> nd\<lparr>cb := NULL\<rparr>))"
    using nd by (simp add: time_heap_del_timer_def)
  have "key (m(node \<mapsto> nd\<lparr>cb := NULL\<rparr>)) = key m"
    using nd by (auto simp: key_def fun_eq_iff)
  then show "heap_inv h (m(node \<mapsto> nd\<lparr>cb := NULL\<rparr>))"
    using inv \<open>node \<noteq> NULL\<close> by (auto simp: heap_inv_def)
qed

lemma foldM_free:
  "distinct ps \<Longrightarrow> set ps \<subseteq> dom m \<Longrightarrow> NULL \<notin> set ps \<Longrightarrow>
   foldM minheap_node_free ps m = Some (m |` (- set ps))"
proof (induction ps arbitrary: m)
  case Nil
  then show ?case by simp
next
  case (Cons p ps)
  have "(m(p := None)) |` (- set ps) = m |` (- set (p # ps))"
    by (auto simp: restrict_map_def fun_eq_iff)
  moreover have "foldM minheap_node_free ps (m(p := None)) = Some ((m(p := None)) |` (- set ps))"
    using Cons.prems by (intro Cons.IH) auto
  moreover have "minheap_node_free p m = Some (m(p := None))"
    using Cons.prems by (simp add: minheap_node_free_def)
  ultimately show ?case
    by simp
qed

lemma foldM_at:
  "n \<le> length ns \<Longrightarrow>
   foldM (\<lambda>i m. Option.bind (at ns i) (\<lambda>p. f p m)) [0..<n] m = foldM f (take n ns) m"
proof (induction n)
  case (Suc n)
  then have "n < length ns" by simp
  then have "foldM (\<lambda>i m. Option.bind (at ns i) (\<lambda>p. f p m)) [n] = foldM f [ns ! n]"
    by (simp add: fun_eq_iff)
  then show ?case
    using Suc by (simp add: foldM_append take_Suc_conv_app_nth del: foldM.simps)
qed simp

text \<open>An expiry that has passed a multiple of \<open>2^32\<close> is below the clock that has not.\<close>

lemma early_expiry:
  fixes now now' :: u64 and t :: u32
  assumes turn: "unat now div 2 ^ 32 < (unat now + unat t) div 2 ^ 32"
    and tick: "now \<le> now'" "unat now' div 2 ^ 32 = unat now div 2 ^ 32"
  shows "unat now' < unat now + unat t" "(ucast (now + ucast t) :: u32) \<le> ucast now'"
proof -
  let ?w = "2 ^ 32 :: nat" and ?q = "unat now div 2 ^ 32"
  have t: "unat t < ?w" using unsigned_less[of t, where 'a = nat] by simp
  have le: "unat now \<le> unat now'" using tick(1) by (simp add: word_le_nat_alt)
  have d: "unat now = ?q * ?w + unat now mod ?w" "unat now' = ?q * ?w + unat now' mod ?w"
    using tick(2) by (metis div_mult_mod_eq)+
  have m: "unat now' mod ?w < ?w" by simp
  have s: "(?q + 1) * ?w \<le> unat now + unat t" using turn by (metis Suc_eq_plus1 Suc_leI less_eq_div_iff_mult_less_eq zero_less_numeral zero_less_power)
  then show "unat now' < unat now + unat t" using d(2) m by (simp add: algebra_simps)
  have lt: "unat now + unat t < (?q + 2) * ?w" using d(1) t mod_less_divisor[of ?w "unat now"] by (simp add: algebra_simps)
  have "(unat now + unat t) div ?w = ?q + 1" using s lt by (simp add: div_nat_eqI algebra_simps)
  then have e: "(unat now + unat t) mod ?w = unat now + unat t - (?q + 1) * ?w" by (metis minus_div_mult_eq_mod)
  have "unat (ucast (now + ucast t) :: u32) = (unat now + unat t) mod ?w"
    using t by (simp add: unsigned_ucast_eq unat_word_ariths(1) take_bit_eq_mod mod_mod_cancel)
  also have "\<dots> \<le> unat now' mod ?w" using e d le t s by (simp add: algebra_simps)
  also have "\<dots> = unat (ucast now' :: u32)" by (simp add: unsigned_ucast_eq take_bit_eq_mod)
  finally show "(ucast (now + ucast t) :: u32) \<le> ucast now'" by (simp add: word_le_nat_alt)
qed

section \<open>Properties\<close>

lemmas time_heap_world_simps = heap_inv_def live_def heap_ordered_def key_def

text \<open>A concrete heap with three timers, of which the one at address 16 was deleted lazily.\<close>

definition sample_nodes :: nodemem where
  "sample_nodes = [8 \<mapsto> \<lparr>expire = 100, cb = 1, args = 11\<rparr>, 16 \<mapsto> \<lparr>expire = 200, cb = 0, args = 0\<rparr>,
     24 \<mapsto> \<lparr>expire = 150, cb = 2, args = 12\<rparr>]"

definition sample_time_heap :: time_heap where
  "sample_time_heap = \<lparr>nodes = [8, 16, 24], capacity = 3, cursize = 3\<rparr>"

lemma sample_heap_inv: "heap_inv sample_time_heap sample_nodes"
  by (auto simp: time_heap_world_simps sample_time_heap_def sample_nodes_def less_Suc_eq numeral_3_eq_3)

lemma all_live_sample: "(\<forall>p\<in>set (live sample_time_heap). P p) \<longleftrightarrow> P 8 \<and> P 16 \<and> P 24"
  by (simp add: sample_time_heap_def live_def)



text \<open>\<open>pop_timer\<close> on a non-empty well-formed heap frees and removes a timer with the least expiry,
  keeps the others and leaves a well-formed heap.\<close>

theorem pop_timer_removes_least:
  assumes "heap_inv h m" and "live h \<noteq> []"
  shows "\<exists>p h'. time_heap_top h = Some p \<and> (\<forall>q\<in>set (live h). key m p \<le> key m q) \<and>
           pop_timer h m = Some (h', m(p := None)) \<and> heap_inv h' (m(p := None)) \<and>
           mset (live h) = add_mset p (mset (live h'))"
proof -
  have "time_heap_top h = Some (nodes h ! 0)" "0 < cursize h"
    using top_in_live[OF assms] at_0[OF assms(1)] by (auto simp: time_heap_top_def time_heap_empty_def)
  then show ?thesis
    using pop_timer_ok[OF assms(1)] heapq.top_law[of "(h, m)"] assms by auto
qed

theorem pop_timer_removes_least_witness:
  "\<exists>p h'. time_heap_top sample_time_heap = Some p \<and>
     (\<forall>q\<in>set (live sample_time_heap). key sample_nodes p \<le> key sample_nodes q) \<and>
     pop_timer sample_time_heap sample_nodes = Some (h', sample_nodes(p := None)) \<and>
     heap_inv h' (sample_nodes(p := None)) \<and>
     mset (live sample_time_heap) = add_mset p (mset (live h'))"
  by (rule pop_timer_removes_least[OF sample_heap_inv]) (simp add: sample_time_heap_def live_def)

text \<open>C3: \<open>time_heap_tick\<close> ends, and it serves exactly the timers that are due, earliest first: the log of
  the calls is that of the due timers \<open>ps\<close> in the order of expiry without the lazily deleted ones, what
  stays in the heap is all the others, and none of those is due.  The callback is one that logs its call and leaves the
  heap alone.\<close>

theorem time_heap_tick_serves_due:
  assumes "heap_inv h m"
  shows "\<exists>h' m' ps. time_heap_tick log_call now h m u = Some (h', m', u @ runs m ps) \<and> heap_inv h' m' \<and>
          (\<forall>p\<in>set (live h'). ucast now < key m' p) \<and> mset (live h) = mset ps + mset (live h') \<and>
          sorted (map (key m) ps) \<and> (\<forall>p\<in>set ps. key m p \<le> ucast now)"
  using time_heap_tick_loop_ok[of "(h, m)" "ucast now" u] assms at_0[OF assms]
  by (auto simp: time_heap_tick_def)

theorem time_heap_tick_serves_due_witness:
  "\<exists>h' m' ps. time_heap_tick log_call 170 sample_time_heap sample_nodes [] = Some (h', m', [] @ runs sample_nodes ps) \<and>
     heap_inv h' m' \<and> (\<forall>p\<in>set (live h'). ucast (170 :: u64) < key m' p) \<and>
     mset (live sample_time_heap) = mset ps + mset (live h') \<and> sorted (map (key sample_nodes) ps) \<and>
     (\<forall>p\<in>set ps. key sample_nodes p \<le> ucast (170 :: u64))"
  by (rule time_heap_tick_serves_due[OF sample_heap_inv])

text \<open>A tick whose callbacks start their timer again, later than the tick's clock value, also ends:
  no due timer is left, the timers that were not due are kept, and the heap is well formed.\<close>

theorem time_heap_tick_rearm:
  assumes "heap_inv h m" and "fresh_supply (length (live h)) m u" and "(ucast now :: u32) < ucast (now' + ucast delay)"
  shows "\<exists>h' m' u'. time_heap_tick (rearm now' delay) now h m u = Some (h', m', u') \<and> heap_inv h' m' \<and>
          (\<forall>p\<in>set (live h'). ucast now < key m' p) \<and>
          (\<forall>p\<in>set (live h). ucast now < key m p \<longrightarrow> p \<in> set (live h') \<and> key m' p = key m p)"
  using time_heap_tick_loop_contract[OF rearm_contract[OF assms(3)], OF assms(1,2)] at_0[OF assms(1)]
  by (simp add: time_heap_tick_def)

theorem time_heap_tick_rearm_witness:
  "\<exists>h' m' u'. time_heap_tick (rearm 170 500) 170 sample_time_heap sample_nodes [32, 40, 48] = Some (h', m', u') \<and>
     heap_inv h' m' \<and> (\<forall>p\<in>set (live h'). ucast (170 :: u64) < key m' p) \<and>
     (\<forall>p\<in>set (live sample_time_heap). ucast (170 :: u64) < key sample_nodes p \<longrightarrow>
        p \<in> set (live h') \<and> key m' p = key sample_nodes p)"
  by (rule time_heap_tick_rearm[OF sample_heap_inv]) (simp_all add: fresh_supply_def sample_nodes_def sample_time_heap_def live_def)

text \<open>C20: \<open>cl_time_heap_tick\<close> ends and returns the argument of the earliest timer that is due and was not
  deleted, removing that timer; every other such timer stays for the next call; it returns null exactly
  when there is no such timer.\<close>

theorem cl_time_heap_tick_earliest:
  assumes "heap_inv h m"
  shows "\<exists>a h' m'. cl_time_heap_tick now h m = Some (a, h', m') \<and> heap_inv h' m' \<and>
          set (live h') \<subseteq> set (live h) \<and> (\<forall>p\<in>set (live h'). m' p = m p) \<and>
          (if a = NULL then \<forall>p. \<not> armed (ucast now) h m p
           else \<exists>p. armed (ucast now) h m p \<and> a = args (the (m p)) \<and> p \<notin> set (live h') \<and>
                  (\<forall>q. armed (ucast now) h m q \<longrightarrow> key m p \<le> key m q \<and> (q = p \<or> q \<in> set (live h'))))"
proof -
  have "cl_time_heap_tick now h m = cl_time_heap_tick_loop (ucast now) (nodes h ! 0) h m"
    using at_0[OF assms] by (simp add: cl_time_heap_tick_def)
  then show ?thesis
    using cl_time_heap_tick_loop_ok[of "(h, m)" "ucast now"] assms
    unfolding fst_conv snd_conv prod.case by presburger
qed

theorem cl_time_heap_tick_earliest_witness:
  "\<exists>a h' m'. cl_time_heap_tick 120 sample_time_heap sample_nodes = Some (a, h', m') \<and> heap_inv h' m' \<and>
     set (live h') \<subseteq> set (live sample_time_heap) \<and> (\<forall>p\<in>set (live h'). m' p = sample_nodes p) \<and>
     (if a = NULL then \<forall>p. \<not> armed (ucast (120 :: u64)) sample_time_heap sample_nodes p
      else \<exists>p. armed (ucast (120 :: u64)) sample_time_heap sample_nodes p \<and> a = args (the (sample_nodes p)) \<and>
             p \<notin> set (live h') \<and>
             (\<forall>q. armed (ucast (120 :: u64)) sample_time_heap sample_nodes q \<longrightarrow>
                key sample_nodes p \<le> key sample_nodes q \<and> (q = p \<or> q \<in> set (live h'))))"
  by (rule cl_time_heap_tick_earliest[OF sample_heap_inv])

text \<open>C26: the wrap of the 32-bit expiry.  When a timer is added and the clock passes a multiple of \<open>2^32\<close> ms before its
  timeout is over, every tick until then calls it back at once, although its time has not come: its expiry is a small
  number again, and the heap compares numbers.\<close>

theorem time_heap_wrap_early:
  assumes inv: "heap_inv h m" and fit: "cursize h < 2 ^ 30" and new: "new \<noteq> NULL" "new \<notin> dom m" and f: "f \<noteq> NULL"
    and turn: "unat now div 2 ^ 32 < (unat now + unat t) div 2 ^ 32"
    and tick: "now \<le> now'" "unat now' div 2 ^ 32 = unat now div 2 ^ 32"
  shows "\<exists>h1 m1 h2 m2 ps. time_heap_add_timer new now (Some h) f a t m = Some (new, Some h1, m1) \<and>
    time_heap_tick log_call now' h1 m1 u = Some (h2, m2, u @ runs m1 ps) \<and> (f, a) \<in> set (runs m1 ps) \<and>
    new \<notin> set (live h2) \<and> unat now' < unat now + unat t"
proof -
  let ?nd = "\<lparr>expire = ucast (now + ucast t), cb = f, args = a\<rparr>" let ?m1 = "m(new \<mapsto> ?nd)"
  obtain h1 where h1: "time_heap_add_timer new now (Some h) f a t m = Some (new, Some h1, ?m1)" "heap_inv h1 ?m1"
      "mset (live h1) = add_mset new (mset (live h))"
    using add_timer_ok[OF inv fit new refl, where now = now and t = t and f = f and a = a] by blast
  obtain h2 m2 ps where t2: "time_heap_tick log_call now' h1 ?m1 u = Some (h2, m2, u @ runs ?m1 ps)" "heap_inv h2 m2"
      "\<forall>p\<in>set (live h2). ucast now' < key m2 p \<and> m2 p = ?m1 p" "mset (live h1) = mset ps + mset (live h2)"
    using time_heap_tick_loop_ok[of "(h1, ?m1)" "ucast now'" u] h1(2) at_0[OF h1(2)] by (auto simp: time_heap_tick_def)
  have before: "unat now' < unat now + unat t" "key ?m1 new \<le> ucast now'"
    using early_expiry[OF turn tick] by (simp_all add: key_def)
  have out: "new \<notin> set (live h2)"
  proof
    assume "new \<in> set (live h2)"
    then have "ucast now' < key m2 new" "m2 new = ?m1 new" using t2(3) by blast+
    then show False using before(2) by (simp add: key_def)
  qed
  moreover have "new \<in> set ps" using h1(3) t2(4) out by (metis UnE set_mset_mset set_mset_union union_single_eq_member)
  then have "(f, a) \<in> set (runs ?m1 ps)" using f by (force simp: runs_def)
  ultimately show ?thesis using h1(1) t2(1) before(1) by blast
qed

theorem time_heap_wrap_early_witness:
  "\<exists>h1 m1 h2 m2 ps. time_heap_add_timer 32 4294967290 (Some sample_time_heap) 2 5 100 sample_nodes = Some (32, Some h1, m1) \<and>
    time_heap_tick log_call 4294967291 h1 m1 [] = Some (h2, m2, [] @ runs m1 ps) \<and> (2, 5) \<in> set (runs m1 ps) \<and>
    32 \<notin> set (live h2) \<and> unat (4294967291 :: u64) < unat (4294967290 :: u64) + unat (100 :: u32)"
  by (rule time_heap_wrap_early[OF sample_heap_inv]) (simp_all add: sample_nodes_def sample_time_heap_def)

text \<open>\<open>time_head_free\<close> on a well-formed heap frees the node of every timer, cancelled or not, exactly
  once, and frees nothing else.\<close>

theorem time_head_free_all:
  assumes "heap_inv h m"
  shows "time_head_free (Some h) m = Some (m |` (- set (live h)))"
proof -
  have "NULL \<notin> set (live h)"
    using assms by (auto simp: heap_inv_def)
  then show ?thesis
    using assms foldM_at[of "cursize h" "nodes h" minheap_node_free] foldM_free[of "live h" m]
    by (simp add: time_head_free_def heap_inv_def live_def)
qed

theorem time_head_free_all_witness:
  "time_head_free (Some sample_time_heap) sample_nodes =
     Some (sample_nodes |` (- set (live sample_time_heap)))"
  by (rule time_head_free_all[OF sample_heap_inv])

text \<open>\<open>time_heap_time_wait\<close> reports nothing for an empty heap; otherwise it reports a wait of at least
  one millisecond that, while the earliest expiry is less than \<open>2^31\<close> ms ahead, is the time left until
  the earliest timer is due.\<close>

theorem time_heap_time_wait_earliest:
  assumes inv: "heap_inv h m" and near: "\<And>p. p \<in> set (live h) \<Longrightarrow> key m p - ucast now < 2 ^ 31 \<or> key m p \<le> ucast now"
  shows "if live h = [] then time_heap_time_wait now h m = Some None
         else \<exists>p w. time_heap_top h = Some p \<and> time_heap_time_wait now h m = Some (Some w) \<and> 1 \<le> w \<and>
                (ucast now < key m p \<longrightarrow> w = uint (key m p) - uint (ucast now :: u32))"
proof (cases "live h = []")
  case True
  then show ?thesis
    using live_empty_iff[OF inv]
    by (simp add: time_heap_time_wait_def time_heap_top_expire_def time_heap_empty_def)
next
  case False
  let ?t = "ucast now :: u32" and ?k = "key m (nodes h ! 0)"
  note top = top_in_live[OF inv False]
  then have run: "time_heap_top h = Some (nodes h ! 0)"
      "time_heap_time_wait now h m = Some (Some (sint (if ?t < ?k then ?k - ?t else 1)))"
    using at_0[OF inv]
    by (auto simp: time_heap_time_wait_def time_heap_top_def time_heap_top_expire_def Let_def)
  have "1 \<le> sint (if ?t < ?k then ?k - ?t else 1)" "?t < ?k \<longrightarrow> sint (?k - ?t) = uint ?k - uint ?t"
  proof -
    have u: "uint (?k - ?t) = uint ?k - uint ?t" if "?t < ?k"
      using that by (simp add: uint_sub_lem[THEN iffD1] word_le_def word_less_def)
    have "sint (?k - ?t) = uint (?k - ?t)" if "?t < ?k"
    proof -
      have "uint (?k - ?t) < 2 ^ 31"
        using near[of "nodes h ! 0"] top leD[of ?k ?t] that by (auto simp: word_less_def)
      then show ?thesis
        by (rule sint_small)
    qed
    then show "1 \<le> sint (if ?t < ?k then ?k - ?t else 1)" "?t < ?k \<longrightarrow> sint (?k - ?t) = uint ?k - uint ?t"
      using u by (auto simp: word_less_def)
  qed
  then show ?thesis
    using run False by auto
qed

theorem time_heap_time_wait_earliest_witness:
  "if live sample_time_heap = [] then time_heap_time_wait 60 sample_time_heap sample_nodes = Some None
   else \<exists>p w. time_heap_top sample_time_heap = Some p \<and>
          time_heap_time_wait 60 sample_time_heap sample_nodes = Some (Some w) \<and> 1 \<le> w \<and>
          (ucast (60 :: u64) < key sample_nodes p \<longrightarrow>
             w = uint (key sample_nodes p) - uint (ucast (60 :: u64) :: u32))"
  by (rule time_heap_time_wait_earliest[OF sample_heap_inv])
     (auto simp: sample_time_heap_def live_def sample_nodes_def key_def)

end
