(* ===== verification/StlcList.thy ===== *)
theory StlcList
  imports Base
begin

text \<open>
  The intrusive doubly linked lists: \<open>stlc_list.h\<close> (the functions used by the event loops, the
  dead-lock detector and the timer pools) and the \<open>ILIST_*\<close> macros of \<open>itimer.h\<close> (used by the
  time wheel), on a pointer memory.  An address that holds no list head faults when it is read or
  written.  The memory is abstracted to the sequence of the linked entries by \<open>is_list\<close>, every
  operation is shown to run without a fault on well-formed lists and to implement the operation on
  sequences, and the contract that the clients rely on is the locale \<open>intrusive_list\<close>, which is
  interpreted on both implementations.
\<close>

section \<open>The pointer memory\<close>

record list_head =
  l_next :: addr
  l_prev :: addr

type_synonym lheap = "addr \<rightharpoonup> list_head"

definition get_next :: "addr \<Rightarrow> lheap \<Rightarrow> addr option" where
  "get_next p h = map_option l_next (h p)"

definition get_prev :: "addr \<Rightarrow> lheap \<Rightarrow> addr option" where
  "get_prev p h = map_option l_prev (h p)"

definition set_next :: "addr \<Rightarrow> addr \<Rightarrow> lheap \<Rightarrow> lheap option" where
  "set_next p v h = map_option (\<lambda>n. h(p \<mapsto> n\<lparr>l_next := v\<rparr>)) (h p)"

definition set_prev :: "addr \<Rightarrow> addr \<Rightarrow> lheap \<Rightarrow> lheap option" where
  "set_prev p v h = map_option (\<lambda>n. h(p \<mapsto> n\<lparr>l_prev := v\<rparr>)) (h p)"

section \<open>The operations of stlc\_list.h\<close>

definition STLC_INIT_LIST_HEAD :: "addr \<Rightarrow> lheap \<Rightarrow> lheap option" where
  "STLC_INIT_LIST_HEAD ptr h = do { h \<leftarrow> set_next ptr ptr h; set_prev ptr ptr h }"

definition stlc_list_add_between :: "addr \<Rightarrow> addr \<Rightarrow> addr \<Rightarrow> lheap \<Rightarrow> lheap option" where
  "stlc_list_add_between new_ex prv nxt h = do {
     h \<leftarrow> set_prev nxt new_ex h;
     h \<leftarrow> set_next new_ex nxt h;
     h \<leftarrow> set_prev new_ex prv h;
     set_next prv new_ex h }"

definition stlc_list_add :: "addr \<Rightarrow> addr \<Rightarrow> lheap \<Rightarrow> lheap option" where
  "stlc_list_add new_ex head h = do {
     n \<leftarrow> get_next head h;
     stlc_list_add_between new_ex head n h }"

definition stlc_list_add_tail :: "addr \<Rightarrow> addr \<Rightarrow> lheap \<Rightarrow> lheap option" where
  "stlc_list_add_tail new_ex head h = do {
     p \<leftarrow> get_prev head h;
     stlc_list_add_between new_ex p head h }"

definition stlc_list_add_prev :: "addr \<Rightarrow> addr \<Rightarrow> lheap \<Rightarrow> lheap option" where
  "stlc_list_add_prev new_ex head h = do {
     p \<leftarrow> get_prev head h;
     stlc_list_add_between new_ex p head h }"

definition stlc_list_del_between :: "addr \<Rightarrow> addr \<Rightarrow> lheap \<Rightarrow> lheap option" where
  "stlc_list_del_between prv nxt h = do {
     h \<leftarrow> set_prev nxt prv h;
     set_next prv nxt h }"

definition stlc_list_del_only :: "addr \<Rightarrow> lheap \<Rightarrow> lheap option" where
  "stlc_list_del_only entry h = do {
     p \<leftarrow> get_prev entry h;
     n \<leftarrow> get_next entry h;
     stlc_list_del_between p n h }"

definition stlc_list_del :: "addr \<Rightarrow> lheap \<Rightarrow> lheap option" where
  "stlc_list_del entry h = do {
     p \<leftarrow> get_prev entry h;
     n \<leftarrow> get_next entry h;
     h \<leftarrow> stlc_list_del_between p n h;
     h \<leftarrow> set_next entry NULL h;
     set_prev entry NULL h }"

definition stlc_list_replace :: "addr \<Rightarrow> addr \<Rightarrow> lheap \<Rightarrow> lheap option" where
  "stlc_list_replace old new_ex h = do {
     n \<leftarrow> get_next old h;
     h \<leftarrow> set_next new_ex n h;
     n \<leftarrow> get_next new_ex h;
     h \<leftarrow> set_prev n new_ex h;
     p \<leftarrow> get_prev old h;
     h \<leftarrow> set_prev new_ex p h;
     p \<leftarrow> get_prev new_ex h;
     set_next p new_ex h }"

definition stlc_list_replace_init :: "addr \<Rightarrow> addr \<Rightarrow> lheap \<Rightarrow> lheap option" where
  "stlc_list_replace_init old new_ex h = do {
     h \<leftarrow> stlc_list_replace old new_ex h;
     STLC_INIT_LIST_HEAD old h }"

definition stlc_list_del_init :: "addr \<Rightarrow> lheap \<Rightarrow> lheap option" where
  "stlc_list_del_init entry h = do {
     p \<leftarrow> get_prev entry h;
     n \<leftarrow> get_next entry h;
     h \<leftarrow> stlc_list_del_between p n h;
     STLC_INIT_LIST_HEAD entry h }"

definition stlc_list_move :: "addr \<Rightarrow> addr \<Rightarrow> lheap \<Rightarrow> lheap option" where
  "stlc_list_move l head h = do {
     p \<leftarrow> get_prev l h;
     n \<leftarrow> get_next l h;
     h \<leftarrow> stlc_list_del_between p n h;
     stlc_list_add l head h }"

definition stlc_list_move_tail :: "addr \<Rightarrow> addr \<Rightarrow> lheap \<Rightarrow> lheap option" where
  "stlc_list_move_tail l head h = do {
     p \<leftarrow> get_prev l h;
     n \<leftarrow> get_next l h;
     h \<leftarrow> stlc_list_del_between p n h;
     stlc_list_add_tail l head h }"

definition stlc_list_break :: "addr \<Rightarrow> addr \<Rightarrow> lheap \<Rightarrow> lheap option" where
  "stlc_list_break l entry h = do {
     tmp \<leftarrow> get_prev entry h;
     h \<leftarrow> set_next tmp l h;
     lp \<leftarrow> get_prev l h;
     h \<leftarrow> set_next lp entry h;
     lp \<leftarrow> get_prev l h;
     h \<leftarrow> set_prev entry lp h;
     set_prev l tmp h }"

definition stlc_list_is_last :: "addr \<Rightarrow> addr \<Rightarrow> lheap \<Rightarrow> bool option" where
  "stlc_list_is_last l head h = map_option (\<lambda>n. n = head) (get_next l h)"

definition stlc_list_empty :: "addr \<Rightarrow> lheap \<Rightarrow> bool option" where
  "stlc_list_empty head h = map_option (\<lambda>n. n = head) (get_next head h)"

definition stlc_list_splice_nonempty :: "addr \<Rightarrow> addr \<Rightarrow> lheap \<Rightarrow> lheap option" where
  "stlc_list_splice_nonempty l head h = do {
     first \<leftarrow> get_next l h;
     lst \<leftarrow> get_prev l h;
     at \<leftarrow> get_next head h;
     h \<leftarrow> set_prev first head h;
     h \<leftarrow> set_next head first h;
     h \<leftarrow> set_next lst at h;
     set_prev at lst h }"

definition stlc_list_splice :: "addr \<Rightarrow> addr \<Rightarrow> lheap \<Rightarrow> lheap option" where
  "stlc_list_splice l head h = do {
     e \<leftarrow> stlc_list_empty l h;
     if \<not> e then stlc_list_splice_nonempty l head h else Some h }"

definition stlc_list_splice_init :: "addr \<Rightarrow> addr \<Rightarrow> lheap \<Rightarrow> lheap option" where
  "stlc_list_splice_init l head h = do {
     e \<leftarrow> stlc_list_empty l h;
     if \<not> e
     then do { h \<leftarrow> stlc_list_splice_nonempty l head h; STLC_INIT_LIST_HEAD l h }
     else Some h }"

definition stlc_list_first_entry :: "addr \<Rightarrow> lheap \<Rightarrow> addr option" where
  "stlc_list_first_entry ptr h = get_next ptr h"

text \<open>
  The iteration macros.  The loop body is a parameter that may change both its own state and the
  memory; \<open>stlc_list_for_each\<close> reads the successor after the body ran, the \<open>safe\<close> variant before.
\<close>

partial_function (option) for_each_from ::
  "(addr \<Rightarrow> 's \<Rightarrow> lheap \<Rightarrow> ('s \<times> lheap) option) \<Rightarrow> addr \<Rightarrow> addr \<Rightarrow> 's \<Rightarrow> lheap \<Rightarrow> ('s \<times> lheap) option"
where
  "for_each_from body head pos s h =
     (if pos = head then Some (s, h)
      else Option.bind (body pos s h) (\<lambda>(s, h).
             Option.bind (get_next pos h) (\<lambda>n. for_each_from body head n s h)))"

definition stlc_list_for_each ::
  "(addr \<Rightarrow> 's \<Rightarrow> lheap \<Rightarrow> ('s \<times> lheap) option) \<Rightarrow> addr \<Rightarrow> 's \<Rightarrow> lheap \<Rightarrow> ('s \<times> lheap) option" where
  "stlc_list_for_each body head s h =
     Option.bind (get_next head h) (\<lambda>pos. for_each_from body head pos s h)"

partial_function (option) for_each_prev_from ::
  "(addr \<Rightarrow> 's \<Rightarrow> lheap \<Rightarrow> ('s \<times> lheap) option) \<Rightarrow> addr \<Rightarrow> addr \<Rightarrow> 's \<Rightarrow> lheap \<Rightarrow> ('s \<times> lheap) option"
where
  "for_each_prev_from body head pos s h =
     (if pos = head then Some (s, h)
      else Option.bind (body pos s h) (\<lambda>(s, h).
             Option.bind (get_prev pos h) (\<lambda>n. for_each_prev_from body head n s h)))"

definition stlc_list_for_each_prev ::
  "(addr \<Rightarrow> 's \<Rightarrow> lheap \<Rightarrow> ('s \<times> lheap) option) \<Rightarrow> addr \<Rightarrow> 's \<Rightarrow> lheap \<Rightarrow> ('s \<times> lheap) option" where
  "stlc_list_for_each_prev body head s h =
     Option.bind (get_prev head h) (\<lambda>pos. for_each_prev_from body head pos s h)"

partial_function (option) for_each_safe_from ::
  "(addr \<Rightarrow> 's \<Rightarrow> lheap \<Rightarrow> ('s \<times> lheap) option) \<Rightarrow> addr \<Rightarrow> addr \<Rightarrow> addr \<Rightarrow> 's \<Rightarrow> lheap \<Rightarrow>
     ('s \<times> lheap) option"
where
  "for_each_safe_from body head pos n s h =
     (if pos = head then Some (s, h)
      else Option.bind (body pos s h) (\<lambda>(s, h).
             Option.bind (get_next n h) (\<lambda>n'. for_each_safe_from body head n n' s h)))"

definition stlc_list_for_each_safe ::
  "(addr \<Rightarrow> 's \<Rightarrow> lheap \<Rightarrow> ('s \<times> lheap) option) \<Rightarrow> addr \<Rightarrow> 's \<Rightarrow> lheap \<Rightarrow> ('s \<times> lheap) option" where
  "stlc_list_for_each_safe body head s h =
     Option.bind (get_next head h) (\<lambda>pos.
       Option.bind (get_next pos h) (\<lambda>n. for_each_safe_from body head pos n s h))"

section \<open>Abstraction to sequences\<close>

text \<open>
  \<open>dseg h p xs q\<close>: from \<open>p\<close> the links lead through exactly \<open>xs\<close> to \<open>q\<close>, and every backward link
  is the inverse of its forward link.  A list with head \<open>hp\<close> and entries \<open>xs\<close> is such a segment from
  \<open>hp\<close> to itself without repetition.
\<close>

definition linked :: "lheap \<Rightarrow> addr \<Rightarrow> addr \<Rightarrow> bool" where
  "linked h a b \<longleftrightarrow> get_next a h = Some b \<and> get_prev b h = Some a"

fun dseg :: "lheap \<Rightarrow> addr \<Rightarrow> addr list \<Rightarrow> addr \<Rightarrow> bool" where
  "dseg h p [] q = linked h p q"
| "dseg h p (x # xs) q = (linked h p x \<and> dseg h x xs q)"

definition is_list :: "lheap \<Rightarrow> addr \<Rightarrow> addr list \<Rightarrow> bool" where
  "is_list h hp xs \<longleftrightarrow> distinct (hp # xs) \<and> dseg h hp xs hp"

section \<open>Reads and writes\<close>

definition upd_next :: "addr \<Rightarrow> addr \<Rightarrow> lheap \<Rightarrow> lheap" where
  "upd_next p v h = h(p := map_option (\<lambda>n. n\<lparr>l_next := v\<rparr>) (h p))"

definition upd_prev :: "addr \<Rightarrow> addr \<Rightarrow> lheap \<Rightarrow> lheap" where
  "upd_prev p v h = h(p := map_option (\<lambda>n. n\<lparr>l_prev := v\<rparr>) (h p))"

lemma set_next_valid [mem_simps]: "p \<in> dom h \<Longrightarrow> set_next p v h = Some (upd_next p v h)"
  by (auto simp: set_next_def upd_next_def)

lemma set_prev_valid [mem_simps]: "p \<in> dom h \<Longrightarrow> set_prev p v h = Some (upd_prev p v h)"
  by (auto simp: set_prev_def upd_prev_def)

lemma dom_upd [simp]: "dom (upd_next p v h) = dom h" "dom (upd_prev p v h) = dom h"
  by (auto simp: upd_next_def upd_prev_def)

lemma get_upd [mem_simps]:
  "get_next a (upd_next p v h) = (if a = p \<and> p \<in> dom h then Some v else get_next a h)"
  "get_next a (upd_prev p v h) = get_next a h"
  "get_prev a (upd_prev p v h) = (if a = p \<and> p \<in> dom h then Some v else get_prev a h)"
  "get_prev a (upd_next p v h) = get_prev a h"
  by (cases "h p"; auto simp: get_next_def get_prev_def upd_next_def upd_prev_def)+

lemma get_Some_dom: "get_next a h = Some b \<Longrightarrow> a \<in> dom h" "get_prev a h = Some b \<Longrightarrow> a \<in> dom h"
  by (auto simp: get_next_def get_prev_def)

lemma linked_dom: "linked h a b \<Longrightarrow> a \<in> dom h \<and> b \<in> dom h"
  by (auto simp: linked_def dest: get_Some_dom)

lemma linked_upd_next:
  "linked (upd_next p v h) a b \<longleftrightarrow>
     (if a = p \<and> p \<in> dom h then v = b \<and> get_prev b h = Some a else linked h a b)"
  by (auto simp: linked_def mem_simps)

lemma linked_upd_prev:
  "linked (upd_prev p v h) a b \<longleftrightarrow>
     (if b = p \<and> p \<in> dom h then v = a \<and> get_next a h = Some b else linked h a b)"
  by (auto simp: linked_def mem_simps)

lemma dseg_append: "dseg h p (xs @ x # ys) q \<longleftrightarrow> dseg h p xs x \<and> dseg h x ys q"
  by (induction xs arbitrary: p) auto

lemma dseg_snoc: "dseg h p (xs @ [x]) q \<longleftrightarrow> dseg h p xs x \<and> linked h x q"
  by (simp add: dseg_append)

lemma dseg_dom: "dseg h p xs q \<Longrightarrow> p \<in> dom h \<and> q \<in> dom h \<and> set xs \<subseteq> dom h"
  by (induction xs arbitrary: p) (use linked_dom in fastforce)+

text \<open>Frame rules: a write outside the segment does not change it.\<close>

lemma dseg_upd_next: "a \<notin> set (p # xs) \<Longrightarrow> dseg (upd_next a v h) p xs q \<longleftrightarrow> dseg h p xs q"
  by (induction xs arbitrary: p) (auto simp: linked_upd_next)

lemma dseg_upd_prev: "a \<notin> set (xs @ [q]) \<Longrightarrow> dseg (upd_prev a v h) p xs q \<longleftrightarrow> dseg h p xs q"
  by (induction xs arbitrary: p) (auto simp: linked_upd_prev)

lemma dseg_cong:
  "(\<And>a. a \<in> set (p # xs) \<Longrightarrow> get_next a h' = get_next a h) \<Longrightarrow>
   (\<And>a. a \<in> set (xs @ [q]) \<Longrightarrow> get_prev a h' = get_prev a h) \<Longrightarrow>
   dseg h' p xs q \<longleftrightarrow> dseg h p xs q"
  by (induction xs arbitrary: p) (auto simp: linked_def)

lemma dseg_first: "dseg h p xs q \<Longrightarrow> get_next p h = Some (hd (xs @ [q]))"
  by (cases xs) (auto simp: linked_def)

lemma dseg_last: "dseg h p xs q \<Longrightarrow> get_prev q h = Some (last (p # xs))"
  by (cases xs rule: rev_cases) (auto simp: linked_def dseg_append)

lemmas dseg_simps = dseg_append dseg_upd_next dseg_upd_prev linked_upd_next linked_upd_prev

lemma is_list_dom: "is_list h hp xs \<Longrightarrow> insert hp (set xs) \<subseteq> dom h"
  by (auto simp: is_list_def dest: dseg_dom)

lemma is_list_unique_len:
  "dseg h p xs q \<Longrightarrow> dseg h p ys q \<Longrightarrow> q \<notin> set xs \<Longrightarrow> q \<notin> set ys \<Longrightarrow> xs = ys"
proof (induction xs arbitrary: p ys)
  case Nil
  then show ?case by (cases ys) (auto simp: linked_def)
next
  case (Cons x xs)
  then obtain y ys' where "ys = y # ys'" and "y = x"
    by (cases ys) (auto simp: linked_def)
  with Cons show ?case by auto
qed

lemma is_list_unique: "is_list h hp xs \<Longrightarrow> is_list h hp ys \<Longrightarrow> xs = ys"
  by (auto simp: is_list_def intro: is_list_unique_len)


text \<open>What an operation leaves alone: everything outside a set of addresses.\<close>

definition agree_off :: "addr set \<Rightarrow> lheap \<Rightarrow> lheap \<Rightarrow> bool" where
  "agree_off S h h' \<longleftrightarrow> dom h' = dom h \<and> (\<forall>a. a \<notin> S \<longrightarrow> h' a = h a)"

lemma agree_off_refl [simp]: "agree_off S h h"
  by (simp add: agree_off_def)

lemma agree_off_trans: "agree_off S h h' \<Longrightarrow> agree_off T h' h'' \<Longrightarrow> agree_off (S \<union> T) h h''"
  by (auto simp: agree_off_def)

lemma agree_off_mono: "agree_off S h h' \<Longrightarrow> S \<subseteq> T \<Longrightarrow> agree_off T h h'"
  by (auto simp: agree_off_def)

lemma agree_off_upd:
  "p \<in> S \<Longrightarrow> agree_off S h (upd_next p v h') \<longleftrightarrow> agree_off S h h'"
  "p \<in> S \<Longrightarrow> agree_off S h (upd_prev p v h') \<longleftrightarrow> agree_off S h h'"
  by (auto simp: agree_off_def upd_next_def upd_prev_def)

lemma is_list_frame:
  assumes "agree_off S h h'" and "S \<inter> set (hp # xs) = {}"
  shows "is_list h' hp xs \<longleftrightarrow> is_list h hp xs"
proof -
  have "h' a = h a" if "a \<in> set (hp # xs)" for a
    using assms that by (auto simp: agree_off_def)
  then have "dseg h' hp xs hp \<longleftrightarrow> dseg h hp xs hp"
    by (intro dseg_cong) (auto simp: get_next_def get_prev_def)
  then show ?thesis by (simp add: is_list_def)
qed

section \<open>The operations on well-formed lists\<close>

lemma init_refines:
  assumes "hp \<in> dom h"
  shows "\<exists>h'. STLC_INIT_LIST_HEAD hp h = Some h' \<and> is_list h' hp [] \<and> agree_off {hp} h h'"
  using assms
  by (auto simp: STLC_INIT_LIST_HEAD_def mem_simps is_list_def linked_def agree_off_upd)

lemma empty_refines: "is_list h hp xs \<Longrightarrow> stlc_list_empty hp h = Some (xs = [])"
  by (cases xs) (auto simp: is_list_def linked_def stlc_list_empty_def)

lemma is_list_ends:
  assumes "is_list h hp (xs @ ys)"
  shows "last (hp # xs) \<in> dom h" and "hd (ys @ [hp]) \<in> dom h"
  using is_list_dom[OF assms] by (cases xs rule: rev_cases; cases ys; auto)+

lemma add_between_refines:
  assumes l: "is_list h hp (xs @ ys)" and n: "n \<in> dom h" "n \<notin> set (hp # xs @ ys)"
  shows "\<exists>h'. stlc_list_add_between n (last (hp # xs)) (hd (ys @ [hp])) h = Some h' \<and>
           is_list h' hp (xs @ n # ys) \<and> agree_off (insert n (set (hp # xs @ ys))) h h'"
proof -
  let ?p = "last (hp # xs)" and ?q = "hd (ys @ [hp])"
  let ?h = "upd_next ?p n (upd_prev n ?p (upd_next n ?q (upd_prev ?q n h)))"
  have run: "stlc_list_add_between n ?p ?q h = Some ?h"
    using is_list_ends[OF l] n by (simp add: stlc_list_add_between_def mem_simps)
  have "is_list ?h hp (xs @ n # ys)"
    using l n is_list_dom[OF l]
    by (cases xs rule: rev_cases; cases ys)
       (auto simp: is_list_def dseg_simps linked_def mem_simps)
  moreover have "agree_off (insert n (set (hp # xs @ ys))) h ?h"
    by (cases xs rule: rev_cases; cases ys) (auto simp: agree_off_upd)
  ultimately show ?thesis using run by blast
qed


lemma add_refines:
  assumes l: "is_list h hp xs" and n: "n \<in> dom h" "n \<notin> set (hp # xs)"
  shows "\<exists>h'. stlc_list_add n hp h = Some h' \<and> is_list h' hp (n # xs) \<and>
           agree_off (insert n (set (hp # xs))) h h'"
  using add_between_refines[of h hp "[]" xs n] l n dseg_first[of h hp xs hp]
  by (simp add: stlc_list_add_def is_list_def)

lemma add_tail_refines:
  assumes l: "is_list h hp xs" and n: "n \<in> dom h" "n \<notin> set (hp # xs)"
  shows "\<exists>h'. stlc_list_add_tail n hp h = Some h' \<and> is_list h' hp (xs @ [n]) \<and>
           agree_off (insert n (set (hp # xs))) h h'"
  using add_between_refines[of h hp xs "[]" n] l n dseg_last[of h hp xs hp]
  by (simp add: stlc_list_add_tail_def is_list_def)

text \<open>Unlinking an entry: the two neighbours are joined, whatever is done with the entry afterwards.\<close>

lemma neighbours:
  assumes "is_list h hp (xs @ e # ys)"
  shows "get_prev e h = Some (last (hp # xs))" and "get_next e h = Some (hd (ys @ [hp]))"
  using assms dseg_last[of h hp xs e] dseg_first[of h e ys hp]
  by (auto simp: is_list_def dseg_append)

lemma del_between_refines:
  assumes l: "is_list h hp (xs @ e # ys)"
  shows "\<exists>h'. stlc_list_del_between (last (hp # xs)) (hd (ys @ [hp])) h = Some h' \<and>
           is_list h' hp (xs @ ys) \<and> h' e = h e \<and> agree_off (set (hp # xs @ ys)) h h'"
proof -
  let ?p = "last (hp # xs)" and ?q = "hd (ys @ [hp])"
  let ?h = "upd_next ?p ?q (upd_prev ?q ?p h)"
  have d: "?p \<in> dom h" "?q \<in> dom h"
    using is_list_dom[OF l] by (cases xs rule: rev_cases; cases ys; auto)+
  then have run: "stlc_list_del_between ?p ?q h = Some ?h"
    by (simp add: stlc_list_del_between_def mem_simps)
  have "is_list ?h hp (xs @ ys)"
    using l is_list_dom[OF l]
    by (cases xs rule: rev_cases; cases ys)
       (auto simp: is_list_def dseg_simps linked_def mem_simps)
  moreover have agree: "agree_off (set (hp # xs @ ys)) h ?h"
    by (cases xs rule: rev_cases; cases ys) (auto simp: agree_off_upd)
  moreover have "?h e = h e"
    using agree l by (auto simp: agree_off_def is_list_def)
  ultimately show ?thesis using run by blast
qed

lemma del_refines:
  assumes l: "is_list h hp (xs @ e # ys)"
  shows "\<exists>h'. stlc_list_del e h = Some h' \<and> is_list h' hp (xs @ ys) \<and>
           h' e = Some \<lparr>l_next = NULL, l_prev = NULL\<rparr> \<and> agree_off (set (hp # xs @ e # ys)) h h'"
proof -
  obtain h1 where h1: "stlc_list_del_between (last (hp # xs)) (hd (ys @ [hp])) h = Some h1"
      "is_list h1 hp (xs @ ys)" "h1 e = h e" "agree_off (set (hp # xs @ ys)) h h1"
    using del_between_refines[OF l] by blast
  let ?h = "upd_prev e NULL (upd_next e NULL h1)"
  have e: "e \<in> dom h1" "e \<notin> set (hp # xs @ ys)"
    using h1(3) is_list_dom[OF l] l by (auto simp: is_list_def)
  then have run: "stlc_list_del e h = Some ?h"
    using neighbours[OF l] h1(1) by (simp add: stlc_list_del_def mem_simps)
  have "agree_off {e} h1 ?h"
    by (simp add: agree_off_upd)
  then have "is_list ?h hp (xs @ ys)" and "agree_off (set (hp # xs @ e # ys)) h ?h"
    using h1(2,4) e is_list_frame[of "{e}" h1 ?h hp "xs @ ys"]
    by (auto dest: agree_off_trans elim: agree_off_mono)
  moreover have "?h e = Some \<lparr>l_next = NULL, l_prev = NULL\<rparr>"
    using e(1) by (auto simp: upd_next_def upd_prev_def intro: list_head.equality)
  ultimately show ?thesis using run by blast
qed

lemma del_init_refines:
  assumes l: "is_list h hp (xs @ e # ys)"
  shows "\<exists>h'. stlc_list_del_init e h = Some h' \<and> is_list h' hp (xs @ ys) \<and> is_list h' e [] \<and>
           agree_off (set (hp # xs @ e # ys)) h h'"
proof -
  obtain h1 where h1: "stlc_list_del_between (last (hp # xs)) (hd (ys @ [hp])) h = Some h1"
      "is_list h1 hp (xs @ ys)" "h1 e = h e" "agree_off (set (hp # xs @ ys)) h h1"
    using del_between_refines[OF l] by blast
  have e: "e \<in> dom h1" "e \<notin> set (hp # xs @ ys)"
    using h1(3) is_list_dom[OF l] l by (auto simp: is_list_def)
  obtain h2 where h2: "STLC_INIT_LIST_HEAD e h1 = Some h2" "is_list h2 e []" "agree_off {e} h1 h2"
    using init_refines[OF e(1)] by blast
  have run: "stlc_list_del_init e h = Some h2"
    using neighbours[OF l] h1(1) h2(1) by (simp add: stlc_list_del_init_def)
  have "is_list h2 hp (xs @ ys)"
    using h1(2) h2(3) e(2) is_list_frame[of "{e}" h1 h2 hp "xs @ ys"] by auto
  moreover have "agree_off (set (hp # xs @ e # ys)) h h2"
    using agree_off_trans[OF h1(4) h2(3)] by (rule agree_off_mono) auto
  ultimately show ?thesis using run h2(2) by blast
qed


lemma unlink_refines:
  assumes l: "is_list h hp (xs @ e # ys)"
  shows "\<exists>h' p n. get_prev e h = Some p \<and> get_next e h = Some n \<and>
           stlc_list_del_between p n h = Some h' \<and>
           is_list h' hp (xs @ ys) \<and> e \<in> dom h' \<and> agree_off (set (hp # xs @ ys)) h h'"
proof -
  obtain h1 where h1: "stlc_list_del_between (last (hp # xs)) (hd (ys @ [hp])) h = Some h1"
      "is_list h1 hp (xs @ ys)" "h1 e = h e" "agree_off (set (hp # xs @ ys)) h h1"
    using del_between_refines[OF l] by blast
  moreover have "e \<in> dom h1"
    using h1(3) is_list_dom[OF l] by auto
  ultimately show ?thesis using neighbours[OF l] by blast
qed

lemma move_refines:
  assumes l: "is_list h hp (xs @ e # ys)" and m: "is_list h hq zs"
    and disj: "set (hp # xs @ e # ys) \<inter> set (hq # zs) = {}"
  shows "\<exists>h'. stlc_list_move e hq h = Some h' \<and> is_list h' hp (xs @ ys) \<and> is_list h' hq (e # zs)"
proof -
  obtain h1 p n where h1: "get_prev e h = Some p" "get_next e h = Some n"
      "stlc_list_del_between p n h = Some h1"
      "is_list h1 hp (xs @ ys)" "e \<in> dom h1" "agree_off (set (hp # xs @ ys)) h h1"
    using unlink_refines[OF l] by blast
  have q1: "is_list h1 hq zs"
    using m disj is_list_frame[OF h1(6), of hq zs] by auto
  obtain h2 where h2: "stlc_list_add e hq h1 = Some h2" "is_list h2 hq (e # zs)"
      "agree_off (insert e (set (hq # zs))) h1 h2"
    using add_refines[OF q1 h1(5)] disj by auto
  have "insert e (set (hq # zs)) \<inter> set (hp # xs @ ys) = {}"
    using disj l by (auto simp: is_list_def)
  then have "is_list h2 hp (xs @ ys)"
    using h1(4) is_list_frame[OF h2(3)] by blast
  then show ?thesis
    using h1 h2 by (simp add: stlc_list_move_def)
qed

lemma move_tail_refines:
  assumes l: "is_list h hp (xs @ e # ys)" and m: "is_list h hq zs"
    and disj: "set (hp # xs @ e # ys) \<inter> set (hq # zs) = {}"
  shows "\<exists>h'. stlc_list_move_tail e hq h = Some h' \<and> is_list h' hp (xs @ ys) \<and>
           is_list h' hq (zs @ [e]) \<and> agree_off (set (hp # xs @ e # ys) \<union> set (hq # zs)) h h'"
proof -
  obtain h1 p n where h1: "get_prev e h = Some p" "get_next e h = Some n"
      "stlc_list_del_between p n h = Some h1"
      "is_list h1 hp (xs @ ys)" "e \<in> dom h1" "agree_off (set (hp # xs @ ys)) h h1"
    using unlink_refines[OF l] by blast
  have q1: "is_list h1 hq zs"
    using m disj is_list_frame[OF h1(6), of hq zs] by auto
  obtain h2 where h2: "stlc_list_add_tail e hq h1 = Some h2" "is_list h2 hq (zs @ [e])"
      "agree_off (insert e (set (hq # zs))) h1 h2"
    using add_tail_refines[OF q1 h1(5)] disj by auto
  have "insert e (set (hq # zs)) \<inter> set (hp # xs @ ys) = {}"
    using disj l by (auto simp: is_list_def)
  then have "is_list h2 hp (xs @ ys)"
    using h1(4) is_list_frame[OF h2(3)] by blast
  moreover have "agree_off (set (hp # xs @ e # ys) \<union> set (hq # zs)) h h2"
    using agree_off_trans[OF h1(6) h2(3)] by (rule agree_off_mono) auto
  ultimately show ?thesis
    using h1 h2 by (simp add: stlc_list_move_tail_def)
qed

text \<open>Splicing: the entries of one list go in front of the entries of another.\<close>

lemma splice_nonempty_refines:
  assumes l: "is_list h hp xs" and m: "is_list h hq ys" and ne: "xs \<noteq> []"
    and disj: "set (hp # xs) \<inter> set (hq # ys) = {}"
  shows "\<exists>h'. stlc_list_splice_nonempty hp hq h = Some h' \<and> is_list h' hq (xs @ ys) \<and>
           hp \<in> dom h' \<and> agree_off (set (hq # xs @ ys)) h h'"
proof -
  let ?at = "hd (ys @ [hq])"
  let ?h = "upd_prev ?at (last xs) (upd_next (last xs) ?at (upd_next hq (hd xs) (upd_prev (hd xs) hq h)))"
  have ends: "get_next hp h = Some (hd xs)" "get_prev hp h = Some (last xs)" "get_next hq h = Some ?at"
    using l m ne dseg_first[of h hp xs hp] dseg_last[of h hp xs hp] dseg_first[of h hq ys hq]
    by (auto simp: is_list_def)
  have "hd xs \<in> set xs" "last xs \<in> set xs" "?at \<in> set (hq # ys)"
    using ne by (auto simp: hd_append)
  then have d: "hd xs \<in> dom h" "last xs \<in> dom h" "hq \<in> dom h" "hp \<in> dom h" "?at \<in> dom h"
    using is_list_dom[OF l] is_list_dom[OF m] by auto
  have run: "stlc_list_splice_nonempty hp hq h = Some ?h"
    using ends d by (simp add: stlc_list_splice_nonempty_def mem_simps)
  have "is_list ?h hq (xs @ ys)"
  proof (cases "\<exists>x. xs = [x]")
    case True
    then show ?thesis
      using l m disj is_list_dom[OF l] is_list_dom[OF m]
      by (cases ys) (auto simp: is_list_def dseg_simps linked_def mem_simps)
  next
    case False
    then obtain x us z where xs: "xs = x # us @ [z]"
      using ne by (metis append_butlast_last_id list.exhaust)
    then show ?thesis
      using l m disj is_list_dom[OF l] is_list_dom[OF m]
      by (cases ys) (auto simp: is_list_def dseg_simps linked_def mem_simps)
  qed
  moreover have "agree_off (set (hq # xs @ ys)) h ?h"
    using ne by (cases ys) (auto simp: agree_off_upd)
  ultimately show ?thesis using run d(4) by auto
qed


lemma splice_refines:
  assumes "is_list h hp xs" and "is_list h hq ys" and "set (hp # xs) \<inter> set (hq # ys) = {}"
  shows "\<exists>h'. stlc_list_splice hp hq h = Some h' \<and> is_list h' hq (xs @ ys) \<and>
           agree_off (set (hq # xs @ ys)) h h'"
  using assms splice_nonempty_refines[of h hp xs hq ys] empty_refines[of h hp xs]
  by (cases "xs = []") (auto simp: stlc_list_splice_def)

lemma splice_init_refines:
  assumes l: "is_list h hp xs" and m: "is_list h hq ys"
    and disj: "set (hp # xs) \<inter> set (hq # ys) = {}"
  shows "\<exists>h'. stlc_list_splice_init hp hq h = Some h' \<and> is_list h' hp [] \<and> is_list h' hq (xs @ ys) \<and>
           agree_off (set (hp # hq # xs @ ys)) h h'"
proof (cases "xs = []")
  case True
  then show ?thesis
    using assms empty_refines[OF l] by (simp add: stlc_list_splice_init_def)
next
  case False
  obtain h1 where h1: "stlc_list_splice_nonempty hp hq h = Some h1" "is_list h1 hq (xs @ ys)"
      "hp \<in> dom h1" "agree_off (set (hq # xs @ ys)) h h1"
    using splice_nonempty_refines[OF l m False disj] by blast
  obtain h2 where h2: "STLC_INIT_LIST_HEAD hp h1 = Some h2" "is_list h2 hp []" "agree_off {hp} h1 h2"
    using init_refines[OF h1(3)] by blast
  have "hp \<notin> set (hq # xs @ ys)"
    using l disj by (auto simp: is_list_def)
  then have "is_list h2 hq (xs @ ys)"
    using h1(2) is_list_frame[OF h2(3), of hq "xs @ ys"] by auto
  moreover have "agree_off (set (hp # hq # xs @ ys)) h h2"
    using agree_off_trans[OF h1(4) h2(3)] by (rule agree_off_mono) auto
  ultimately show ?thesis
    using False empty_refines[OF l] h1(1) h2(1,2) by (auto simp: stlc_list_splice_init_def)
qed

text \<open>Replacing an entry, or the head itself, by another list head.\<close>

lemma replace_entry_refines:
  assumes l: "is_list h hp (xs @ e # ys)" and n: "n \<in> dom h" "n \<notin> set (hp # xs @ e # ys)"
  shows "\<exists>h'. stlc_list_replace e n h = Some h' \<and> is_list h' hp (xs @ n # ys)"
proof -
  let ?p = "last (hp # xs)" and ?q = "hd (ys @ [hp])"
  let ?h = "upd_next ?p n (upd_prev n ?p (upd_prev ?q n (upd_next n ?q h)))"
  have m: "?p \<in> set (hp # xs)" "?q \<in> set (hp # ys)"
    by (auto simp: hd_append)
  then have d: "?p \<in> dom h" "?q \<in> dom h" "?q \<noteq> e" "?p \<noteq> n" "?q \<noteq> n"
    using is_list_dom[OF l] n l by (auto simp: is_list_def)
  have run: "stlc_list_replace e n h = Some ?h"
    using neighbours[OF l] d n by (auto simp: stlc_list_replace_def mem_simps)
  have "is_list ?h hp (xs @ n # ys)"
    using l n is_list_dom[OF l]
    by (cases xs rule: rev_cases; cases ys)
       (auto simp: is_list_def dseg_simps linked_def mem_simps)
  then show ?thesis using run by blast
qed

lemma replace_head_refines:
  assumes l: "is_list h hp xs" and n: "n \<in> dom h" "n \<notin> set (hp # xs)"
  shows "\<exists>h'. stlc_list_replace hp n h = Some h' \<and> is_list h' n xs"
proof (cases "xs = []")
  case True
  let ?h = "upd_next n n (upd_prev n n (upd_prev hp n (upd_next n hp h)))"
  have "stlc_list_replace hp n h = Some ?h"
    using l n True by (auto simp: stlc_list_replace_def mem_simps is_list_def linked_def get_Some_dom)
  moreover have "is_list ?h n xs"
    using True n by (auto simp: is_list_def linked_def mem_simps)
  ultimately show ?thesis by blast
next
  case False
  let ?h = "upd_next (last xs) n (upd_prev n (last xs) (upd_prev (hd xs) n (upd_next n (hd xs) h)))"
  have ends: "get_next hp h = Some (hd xs)" "get_prev hp h = Some (last xs)"
    using l False dseg_first[of h hp xs hp] dseg_last[of h hp xs hp] by (auto simp: is_list_def)
  have m: "hd xs \<in> set xs" "last xs \<in> set xs"
    using False by auto
  then have d: "hd xs \<in> dom h" "last xs \<in> dom h" "hd xs \<noteq> hp" "hd xs \<noteq> n" "last xs \<noteq> n"
    using is_list_dom[OF l] l n by (auto simp: is_list_def)
  have run: "stlc_list_replace hp n h = Some ?h"
    using ends d n by (auto simp: stlc_list_replace_def mem_simps)
  have "is_list ?h n xs"
  proof (cases "\<exists>x. xs = [x]")
    case True
    then show ?thesis
      using l n is_list_dom[OF l] by (auto simp: is_list_def linked_def mem_simps)
  next
    case nsing: False
    then obtain x us z where xs: "xs = x # us @ [z]"
      using False by (metis append_butlast_last_id list.exhaust)
    then show ?thesis
      using l n is_list_dom[OF l] by (auto simp: is_list_def dseg_simps linked_def mem_simps)
  qed
  then show ?thesis using run by blast
qed

lemma break_refines:
  assumes l: "is_list h hp (xs @ e # ys)"
  shows "\<exists>h'. stlc_list_break hp e h = Some h' \<and> is_list h' hp xs \<and> is_list h' e ys"
proof -
  let ?t = "last (hp # xs)" and ?z = "last (e # ys)"
  let ?h = "upd_prev hp ?t (upd_prev e ?z (upd_next ?z e (upd_next ?t hp h)))"
  have m: "?t \<in> set (hp # xs)" "?z \<in> set (e # ys)"
    by auto
  then have d: "?t \<in> dom h" "?z \<in> dom h" "hp \<in> dom h" "e \<in> dom h"
    using is_list_dom[OF l] by auto
  have z: "get_prev hp h = Some ?z"
    using l dseg_last[of h e ys hp] by (auto simp: is_list_def dseg_append)
  have run: "stlc_list_break hp e h = Some ?h"
    using neighbours[OF l] z d by (auto simp: stlc_list_break_def mem_simps)
  have "is_list ?h hp xs" and "is_list ?h e ys"
    using l is_list_dom[OF l]
    by (cases xs rule: rev_cases; cases ys rule: rev_cases;
        auto simp: is_list_def dseg_simps linked_def mem_simps)+
  then show ?thesis using run by blast
qed


section \<open>Iteration\<close>

text \<open>A body that does not write the memory sees the entries in order (or in reverse order).\<close>

lemma for_each_from_fold:
  assumes "\<And>x s. body x s h = Some (f x s, h)"
  shows "dseg h p xs hp \<Longrightarrow> hp \<notin> set xs \<Longrightarrow>
    Option.bind (get_next p h) (\<lambda>pos. for_each_from body hp pos s h) = Some (fold f xs s, h)"
proof (induction xs arbitrary: p s)
  case Nil
  then show ?case by (simp add: linked_def for_each_from.simps)
next
  case (Cons x xs)
  then show ?case
    using assms by (subst for_each_from.simps) (auto simp: linked_def)
qed

lemma for_each_refines:
  assumes "\<And>x s. body x s h = Some (f x s, h)" and "is_list h hp xs"
  shows "stlc_list_for_each body hp s h = Some (fold f xs s, h)"
  using for_each_from_fold[where body = body and h = h and f = f and p = hp and s = s, OF assms(1)] assms(2)
  by (simp add: stlc_list_for_each_def is_list_def)

lemma for_each_prev_from_fold:
  assumes "\<And>x s. body x s h = Some (f x s, h)"
  shows "dseg h hp xs q \<Longrightarrow> hp \<notin> set xs \<Longrightarrow>
    Option.bind (get_prev q h) (\<lambda>pos. for_each_prev_from body hp pos s h) =
      Some (fold f (rev xs) s, h)"
proof (induction xs arbitrary: q s rule: rev_induct)
  case Nil
  then show ?case by (simp add: linked_def for_each_prev_from.simps)
next
  case (snoc x xs)
  then show ?case
    using assms by (subst for_each_prev_from.simps) (auto simp: linked_def dseg_append)
qed

lemma for_each_prev_refines:
  assumes "\<And>x s. body x s h = Some (f x s, h)" and "is_list h hp xs"
  shows "stlc_list_for_each_prev body hp s h = Some (fold f (rev xs) s, h)"
  using for_each_prev_from_fold[where body = body and h = h and f = f and q = hp and s = s, OF assms(1)] assms(2)
  by (simp add: stlc_list_for_each_prev_def is_list_def)

text \<open>
  The safe iteration with a body that unlinks the current entry: this is the idiom of every
  destructor of the sources (\<open>cl_thread_free_all_thread\<close>, \<open>thread_graphic_vertex_free\<close>, ...).
\<close>

definition del_body :: "(addr \<Rightarrow> 's \<Rightarrow> 's) \<Rightarrow> addr \<Rightarrow> 's \<Rightarrow> lheap \<Rightarrow> ('s \<times> lheap) option" where
  "del_body f pos s h = map_option (\<lambda>h. (f pos s, h)) (stlc_list_del pos h)"

lemma for_each_safe_del:
  "is_list h hp (x # xs) \<Longrightarrow> get_next x h = Some n \<Longrightarrow>
   \<exists>h'. for_each_safe_from (del_body f) hp x n s h = Some (fold f (x # xs) s, h') \<and> is_list h' hp [] \<and>
        agree_off (set (hp # x # xs)) h h'"
proof (induction xs arbitrary: x n s h)
  case Nil
  then obtain h1 where "stlc_list_del x h = Some h1" "is_list h1 hp []" "agree_off (set [hp, x]) h h1"
    using del_refines[of h hp "[]" x "[]"] by auto
  moreover have "n = hp" and "x \<noteq> hp"
    using Nil by (auto simp: is_list_def linked_def)
  ultimately show ?case
    by (subst for_each_safe_from.simps)
       (auto simp: del_body_def is_list_def linked_def for_each_safe_from.simps)
next
  case (Cons y ys)
  then obtain h1 where h1: "stlc_list_del x h = Some h1" "is_list h1 hp (y # ys)"
      "agree_off (set (hp # x # y # ys)) h h1"
    using del_refines[of h hp "[]" x "y # ys"] by auto
  have n: "n = y" and x: "x \<noteq> hp"
    using Cons.prems by (auto simp: is_list_def linked_def)
  have "y \<in> dom h1"
    using h1(2) is_list_dom by fastforce
  then obtain n' where n': "get_next y h1 = Some n'"
    by (auto simp: get_next_def)
  then obtain h2 where "for_each_safe_from (del_body f) hp y n' (f x s) h1 = Some (fold f (y # ys) (f x s), h2)"
      "is_list h2 hp []" "agree_off (set (hp # y # ys)) h1 h2"
    using Cons.IH[OF h1(2) n'] by blast
  moreover have "agree_off (set (hp # x # y # ys)) h h2"
    using agree_off_trans[OF h1(3) calculation(3)] by (rule agree_off_mono) auto
  ultimately show ?case
    using h1(1) n n' x by (subst for_each_safe_from.simps) (auto simp: del_body_def)
qed

lemma for_each_safe_del_refines:
  assumes "is_list h hp xs"
  shows "\<exists>h'. stlc_list_for_each_safe (del_body f) hp s h = Some (fold f xs s, h') \<and> is_list h' hp [] \<and>
           agree_off (set (hp # xs)) h h'"
proof (cases xs)
  case Nil
  then show ?thesis
    using assms
    by (auto simp: stlc_list_for_each_safe_def for_each_safe_from.simps is_list_def linked_def)
next
  case (Cons x ys)
  have "x \<in> dom h"
    using assms Cons is_list_dom by fastforce
  then obtain n where n: "get_next x h = Some n"
    by (auto simp: get_next_def)
  have "get_next hp h = Some x"
    using assms Cons by (auto simp: is_list_def linked_def)
  then show ?thesis
    using for_each_safe_del[of h hp x ys n f s] assms Cons n
    by (simp add: stlc_list_for_each_safe_def)
qed

section \<open>The contract of an intrusive list\<close>

text \<open>
  What the clients rely on: initialising, inserting at either end, unlinking, splicing and the
  emptiness test act on the sequence of entries, run without a fault, and touch only the list heads
  they name.  The clients' idioms are proved once from the contract.
\<close>

locale intrusive_list =
  fixes init :: "addr \<Rightarrow> lheap \<Rightarrow> lheap option"
    and add :: "addr \<Rightarrow> addr \<Rightarrow> lheap \<Rightarrow> lheap option"
    and add_tail :: "addr \<Rightarrow> addr \<Rightarrow> lheap \<Rightarrow> lheap option"
    and del :: "addr \<Rightarrow> lheap \<Rightarrow> lheap option"
    and splice_init :: "addr \<Rightarrow> addr \<Rightarrow> lheap \<Rightarrow> lheap option"
    and empty :: "addr \<Rightarrow> lheap \<Rightarrow> bool option"
  assumes init_law: "hp \<in> dom h \<Longrightarrow> \<exists>h'. init hp h = Some h' \<and> is_list h' hp [] \<and> agree_off {hp} h h'"
    and add_law: "is_list h hp xs \<Longrightarrow> n \<in> dom h \<Longrightarrow> n \<notin> set (hp # xs) \<Longrightarrow>
      \<exists>h'. add n hp h = Some h' \<and> is_list h' hp (n # xs) \<and> agree_off (insert n (set (hp # xs))) h h'"
    and add_tail_law: "is_list h hp xs \<Longrightarrow> n \<in> dom h \<Longrightarrow> n \<notin> set (hp # xs) \<Longrightarrow>
      \<exists>h'. add_tail n hp h = Some h' \<and> is_list h' hp (xs @ [n]) \<and>
           agree_off (insert n (set (hp # xs))) h h'"
    and del_law: "is_list h hp (xs @ e # ys) \<Longrightarrow>
      \<exists>h'. del e h = Some h' \<and> is_list h' hp (xs @ ys) \<and> agree_off (set (hp # xs @ e # ys)) h h'"
    and splice_law: "is_list h hp xs \<Longrightarrow> is_list h hq ys \<Longrightarrow> set (hp # xs) \<inter> set (hq # ys) = {} \<Longrightarrow>
      \<exists>h'. splice_init hp hq h = Some h' \<and> is_list h' hp [] \<and> is_list h' hq (xs @ ys) \<and>
           agree_off (set (hp # hq # xs @ ys)) h h'"
    and empty_law: "is_list h hp xs \<Longrightarrow> empty hp h = Some (xs = [])"
begin

lemma enqueue_all:
  "is_list h hp xs \<Longrightarrow> set ns \<subseteq> dom h \<Longrightarrow> distinct (hp # xs @ ns) \<Longrightarrow>
   \<exists>h'. foldM (\<lambda>n. add_tail n hp) ns h = Some h' \<and> is_list h' hp (xs @ ns)"
proof (induction ns arbitrary: xs h)
  case Nil
  then show ?case by simp
next
  case (Cons n ns)
  then obtain h1 where h1: "add_tail n hp h = Some h1" "is_list h1 hp (xs @ [n])"
      "agree_off (insert n (set (hp # xs))) h h1"
    using add_tail_law[of h hp xs n] by auto
  have "\<exists>h'. foldM (\<lambda>n. add_tail n hp) ns h1 = Some h' \<and> is_list h' hp ((xs @ [n]) @ ns)"
    using Cons.IH[OF h1(2)] Cons.prems h1(3) by (auto simp: agree_off_def)
  then show ?case using h1(1) by auto
qed

lemma push_all:
  "is_list h hp xs \<Longrightarrow> set ns \<subseteq> dom h \<Longrightarrow> distinct (hp # xs @ ns) \<Longrightarrow>
   \<exists>h'. foldM (\<lambda>n. add n hp) ns h = Some h' \<and> is_list h' hp (rev ns @ xs)"
proof (induction ns arbitrary: xs h)
  case Nil
  then show ?case by simp
next
  case (Cons n ns)
  then obtain h1 where h1: "add n hp h = Some h1" "is_list h1 hp (n # xs)"
      "agree_off (insert n (set (hp # xs))) h h1"
    using add_law[of h hp xs n] by auto
  have "\<exists>h'. foldM (\<lambda>n. add n hp) ns h1 = Some h' \<and> is_list h' hp (rev ns @ n # xs)"
    using Cons.IH[OF h1(2)] Cons.prems h1(3) by (auto simp: agree_off_def)
  then show ?case using h1(1) by auto
qed

lemma pop_front:
  assumes "is_list h hp (x # xs)"
  shows "\<exists>h'. empty hp h = Some False \<and> get_next hp h = Some x \<and> del x h = Some h' \<and>
           is_list h' hp xs \<and> agree_off (set (hp # x # xs)) h h'"
  using empty_law[OF assms] del_law[of h hp "[]" x xs] assms
  by (auto simp: is_list_def linked_def)

lemma splice_other:
  assumes "is_list h hp xs" and "is_list h hq ys" and "is_list h hr zs"
    and "distinct (hp # xs @ hq # ys @ hr # zs)" and "splice_init hp hq h = Some h'"
  shows "is_list h' hr zs"
proof -
  obtain h2 where "splice_init hp hq h = Some h2" "agree_off (set (hp # hq # xs @ ys)) h h2"
    using splice_law[of h hp xs hq ys] assms by auto
  then show ?thesis
    using assms is_list_frame[of "set (hp # hq # xs @ ys)" h h2 hr zs] by auto
qed

end

interpretation stlc: intrusive_list STLC_INIT_LIST_HEAD stlc_list_add stlc_list_add_tail
  stlc_list_del stlc_list_splice_init stlc_list_empty
proof (unfold_locales, goal_cases)
  case (1 hp h) then show ?case by (rule init_refines)
next
  case (2 h hp xs n) then show ?case by (rule add_refines)
next
  case (3 h hp xs n) then show ?case by (rule add_tail_refines)
next
  case (4 h hp xs e ys) then show ?case using del_refines by blast
next
  case (5 h hp xs hq ys) then show ?case by (rule splice_init_refines)
next
  case (6 h hp xs) then show ?case by (rule empty_refines)
qed

section \<open>Properties\<close>

text \<open>A concrete memory: the list with head 10 and entries 20 and 30, an empty list with head 40, and
  the unlinked heads 50 and 60.\<close>

definition sample_heap :: lheap where
  "sample_heap = [10 \<mapsto> \<lparr>l_next = 20, l_prev = 30\<rparr>, 20 \<mapsto> \<lparr>l_next = 30, l_prev = 10\<rparr>,
     30 \<mapsto> \<lparr>l_next = 10, l_prev = 20\<rparr>, 40 \<mapsto> \<lparr>l_next = 40, l_prev = 40\<rparr>,
     50 \<mapsto> \<lparr>l_next = 0, l_prev = 0\<rparr>, 60 \<mapsto> \<lparr>l_next = 0, l_prev = 0\<rparr>]"

lemmas sample_list_simps = sample_heap_def is_list_def linked_def get_next_def get_prev_def

lemma collect_fold: "fold (\<lambda>x acc. acc @ [x]) xs ys = ys @ xs"
  by (induction xs arbitrary: ys) auto

text \<open>C18: a list used with \<open>stlc_list_add_tail\<close> and drained with the safe iteration is a first-in
  first-out queue: entries come out in the order in which they were appended, after those that were
  already there, no operation faults, and the drained list is empty.\<close>

theorem stlc_list_fifo:
  assumes "is_list h hp xs" and "set ns \<subseteq> dom h" and "distinct (hp # xs @ ns)"
  shows "\<exists>h1 h2. foldM (\<lambda>n. stlc_list_add_tail n hp) ns h = Some h1 \<and>
           stlc_list_for_each_safe (del_body (\<lambda>x acc. acc @ [x])) hp [] h1 = Some (xs @ ns, h2) \<and>
           is_list h2 hp []"
proof -
  obtain h1 where "foldM (\<lambda>n. stlc_list_add_tail n hp) ns h = Some h1" "is_list h1 hp (xs @ ns)"
    using stlc.enqueue_all[OF assms] by blast
  then show ?thesis
    using for_each_safe_del_refines[of h1 hp "xs @ ns" "\<lambda>x acc. acc @ [x]" "[]"]
    by (auto simp: collect_fold)
qed

theorem stlc_list_fifo_witness:
  "\<exists>h1 h2. foldM (\<lambda>n. stlc_list_add_tail n 10) [50, 60] sample_heap = Some h1 \<and>
     stlc_list_for_each_safe (del_body (\<lambda>x acc. acc @ [x])) 10 [] h1 = Some ([20, 30] @ [50, 60], h2) \<and>
     is_list h2 10 []"
  by (rule stlc_list_fifo) (simp_all add: sample_list_simps)

text \<open>\<open>stlc_list_move_tail\<close> takes an entry out of the middle of one list and appends it to
  another; both lists stay well formed and nothing outside the two lists is written.\<close>

theorem stlc_list_move_tail_moves:
  assumes "is_list h hp (xs @ e # ys)" and "is_list h hq zs"
    and "set (hp # xs @ e # ys) \<inter> set (hq # zs) = {}"
  shows "\<exists>h'. stlc_list_move_tail e hq h = Some h' \<and> is_list h' hp (xs @ ys) \<and>
           is_list h' hq (zs @ [e]) \<and> (\<forall>a. a \<notin> set (hp # xs @ e # ys @ hq # zs) \<longrightarrow> h' a = h a)"
proof -
  obtain h' where "stlc_list_move_tail e hq h = Some h'" "is_list h' hp (xs @ ys)"
      "is_list h' hq (zs @ [e])" "agree_off (set (hp # xs @ e # ys) \<union> set (hq # zs)) h h'"
    using move_tail_refines[OF assms] by blast
  then show ?thesis
    by (auto simp: agree_off_def)
qed

theorem stlc_list_move_tail_moves_witness:
  "\<exists>h'. stlc_list_move_tail 20 40 sample_heap = Some h' \<and> is_list h' 10 ([] @ [30]) \<and>
     is_list h' 40 ([] @ [20]) \<and>
     (\<forall>a. a \<notin> set (10 # [] @ 20 # [30] @ 40 # []) \<longrightarrow> h' a = sample_heap a)"
  by (rule stlc_list_move_tail_moves) (simp_all add: sample_list_simps)

text \<open>\<open>stlc_list_break\<close> cuts a list before an entry, which becomes the head of the rest, and
  \<open>stlc_list_splice_init\<close> of that rest gives back a list with all the other entries; the rest is
  left an empty list.\<close>

theorem stlc_list_break_splice:
  assumes l: "is_list h hp (xs @ e # ys)"
  shows "\<exists>h1 h2. stlc_list_break hp e h = Some h1 \<and> is_list h1 hp xs \<and> is_list h1 e ys \<and>
           stlc_list_splice_init e hp h1 = Some h2 \<and> is_list h2 hp (ys @ xs) \<and> is_list h2 e []"
proof -
  obtain h1 where h1: "stlc_list_break hp e h = Some h1" "is_list h1 hp xs" "is_list h1 e ys"
    using break_refines[OF l] by blast
  moreover have "set (e # ys) \<inter> set (hp # xs) = {}"
    using l by (auto simp: is_list_def)
  ultimately show ?thesis
    using splice_init_refines[of h1 e ys hp xs] by blast
qed

theorem stlc_list_break_splice_witness:
  "\<exists>h1 h2. stlc_list_break 10 20 sample_heap = Some h1 \<and> is_list h1 10 [] \<and> is_list h1 20 [30] \<and>
     stlc_list_splice_init 20 10 h1 = Some h2 \<and> is_list h2 10 ([30] @ []) \<and> is_list h2 20 []"
  by (rule stlc_list_break_splice) (simp add: sample_list_simps)

end
