(* ===== verification/IList.thy ===== *)
theory IList
  imports StlcList
begin

text \<open>
  The list macros of \<open>itimer.h\<close>.  They are the lists of the time wheel; the order of the pointer
  writes differs from \<open>stlc_list.h\<close>, the contract is the same locale \<open>intrusive_list\<close>.
\<close>

section \<open>The macros\<close>

definition ILIST_INIT :: "addr \<Rightarrow> lheap \<Rightarrow> lheap option" where
  "ILIST_INIT ptr h = do { h \<leftarrow> set_next ptr ptr h; set_prev ptr ptr h }"

definition ILIST_ADD :: "addr \<Rightarrow> addr \<Rightarrow> lheap \<Rightarrow> lheap option" where
  "ILIST_ADD node head h = do {
     h \<leftarrow> set_prev node head h;
     n \<leftarrow> get_next head h;
     h \<leftarrow> set_next node n h;
     n \<leftarrow> get_next head h;
     h \<leftarrow> set_prev n node h;
     set_next head node h }"

definition ILIST_ADD_TAIL :: "addr \<Rightarrow> addr \<Rightarrow> lheap \<Rightarrow> lheap option" where
  "ILIST_ADD_TAIL node head h = do {
     p \<leftarrow> get_prev head h;
     h \<leftarrow> set_prev node p h;
     h \<leftarrow> set_next node head h;
     p \<leftarrow> get_prev head h;
     h \<leftarrow> set_next p node h;
     set_prev head node h }"

definition ILIST_DEL_BETWEEN :: "addr \<Rightarrow> addr \<Rightarrow> lheap \<Rightarrow> lheap option" where
  "ILIST_DEL_BETWEEN p n h = do { h \<leftarrow> set_prev n p h; set_next p n h }"

definition ILIST_DEL :: "addr \<Rightarrow> lheap \<Rightarrow> lheap option" where
  "ILIST_DEL entry h = do {
     n \<leftarrow> get_next entry h;
     p \<leftarrow> get_prev entry h;
     h \<leftarrow> set_prev n p h;
     p \<leftarrow> get_prev entry h;
     n \<leftarrow> get_next entry h;
     h \<leftarrow> set_next p n h;
     h \<leftarrow> set_next entry NULL h;
     set_prev entry NULL h }"

definition ILIST_DEL_INIT :: "addr \<Rightarrow> lheap \<Rightarrow> lheap option" where
  "ILIST_DEL_INIT entry h = do { h \<leftarrow> ILIST_DEL entry h; ILIST_INIT entry h }"

definition ILIST_IS_EMPTY :: "addr \<Rightarrow> lheap \<Rightarrow> bool option" where
  "ILIST_IS_EMPTY entry h = map_option (\<lambda>n. entry = n) (get_next entry h)"

definition ilist_splice_nonempty :: "addr \<Rightarrow> addr \<Rightarrow> lheap \<Rightarrow> lheap option" where
  "ilist_splice_nonempty l head h = do {
     first \<leftarrow> get_next l h;
     lst \<leftarrow> get_prev l h;
     at \<leftarrow> get_next head h;
     h \<leftarrow> set_prev first head h;
     h \<leftarrow> set_next head first h;
     h \<leftarrow> set_next lst at h;
     set_prev at lst h }"

definition ilist_splice :: "addr \<Rightarrow> addr \<Rightarrow> lheap \<Rightarrow> lheap option" where
  "ilist_splice l head h = do {
     e \<leftarrow> ILIST_IS_EMPTY l h;
     if \<not> e then ilist_splice_nonempty l head h else Some h }"

definition ilist_splice_init :: "addr \<Rightarrow> addr \<Rightarrow> lheap \<Rightarrow> lheap option" where
  "ilist_splice_init l head h = do { h \<leftarrow> ilist_splice l head h; ILIST_INIT l h }"

definition ilist_foreach_entry ::
  "(addr \<Rightarrow> 's \<Rightarrow> lheap \<Rightarrow> ('s \<times> lheap) option) \<Rightarrow> addr \<Rightarrow> 's \<Rightarrow> lheap \<Rightarrow> ('s \<times> lheap) option" where
  "ilist_foreach_entry body head s h =
     Option.bind (get_next head h) (\<lambda>pos. for_each_from body head pos s h)"

section \<open>The macros on well-formed lists\<close>

lemma ILIST_INIT_refines:
  assumes "hp \<in> dom h"
  shows "\<exists>h'. ILIST_INIT hp h = Some h' \<and> is_list h' hp [] \<and> agree_off {hp} h h'"
  using init_refines[OF assms] by (simp add: ILIST_INIT_def STLC_INIT_LIST_HEAD_def)

lemma ILIST_ADD_refines:
  assumes l: "is_list h hp xs" and n: "n \<in> dom h" "n \<notin> set (hp # xs)"
  shows "\<exists>h'. ILIST_ADD n hp h = Some h' \<and> is_list h' hp (n # xs) \<and>
           agree_off (insert n (set (hp # xs))) h h'"
proof -
  let ?q = "hd (xs @ [hp])"
  let ?h = "upd_next hp n (upd_prev ?q n (upd_next n ?q (upd_prev n hp h)))"
  have first: "get_next hp h = Some ?q"
    using l dseg_first[of h hp xs hp] by (simp add: is_list_def)
  have q: "?q \<in> set (hp # xs)"
    by (auto simp: hd_append)
  then have d: "?q \<in> dom h" "hp \<in> dom h" "hp \<noteq> n"
    using is_list_dom[OF l] n by auto
  have run: "ILIST_ADD n hp h = Some ?h"
    using first d n by (auto simp: ILIST_ADD_def mem_simps)
  have "is_list ?h hp (n # xs)"
    using l n is_list_dom[OF l]
    by (cases xs) (auto simp: is_list_def dseg_simps linked_def mem_simps)
  moreover have "agree_off (insert n (set (hp # xs))) h ?h"
    using q by (simp add: agree_off_upd)
  ultimately show ?thesis using run by blast
qed

lemma ILIST_ADD_TAIL_refines:
  assumes l: "is_list h hp xs" and n: "n \<in> dom h" "n \<notin> set (hp # xs)"
  shows "\<exists>h'. ILIST_ADD_TAIL n hp h = Some h' \<and> is_list h' hp (xs @ [n]) \<and>
           agree_off (insert n (set (hp # xs))) h h'"
proof -
  let ?p = "last (hp # xs)"
  let ?h = "upd_prev hp n (upd_next ?p n (upd_next n hp (upd_prev n ?p h)))"
  have lst: "get_prev hp h = Some ?p"
    using l dseg_last[of h hp xs hp] by (simp add: is_list_def)
  have p: "?p \<in> set (hp # xs)"
    by simp
  then have d: "?p \<in> dom h" "hp \<in> dom h" "hp \<noteq> n"
    using is_list_dom[OF l] n by auto
  have run: "ILIST_ADD_TAIL n hp h = Some ?h"
    using lst d n by (auto simp: ILIST_ADD_TAIL_def mem_simps)
  have "is_list ?h hp (xs @ [n])"
    using l n is_list_dom[OF l]
    by (cases xs rule: rev_cases) (auto simp: is_list_def dseg_simps linked_def mem_simps)
  moreover have "agree_off (insert n (set (hp # xs))) h ?h"
    using p by (simp add: agree_off_upd)
  ultimately show ?thesis using run by blast
qed

lemma ILIST_DEL_eq:
  assumes l: "is_list h hp (xs @ e # ys)"
  shows "ILIST_DEL e h = stlc_list_del e h"
proof -
  let ?p = "last (hp # xs)" and ?q = "hd (ys @ [hp])"
  have m: "?p \<in> set (hp # xs)" "?q \<in> set (hp # ys)"
    by (auto simp: hd_append)
  then have d: "?p \<in> dom h" "?q \<in> dom h" "?q \<noteq> e" "?p \<noteq> e" "e \<in> dom h"
    using is_list_dom[OF l] l by (auto simp: is_list_def)
  then show ?thesis
    using neighbours[OF l]
    by (auto simp: ILIST_DEL_def stlc_list_del_def stlc_list_del_between_def mem_simps)
qed

lemma ILIST_DEL_INIT_refines:
  assumes l: "is_list h hp (xs @ e # ys)"
  shows "\<exists>h'. ILIST_DEL_INIT e h = Some h' \<and> is_list h' hp (xs @ ys) \<and> is_list h' e [] \<and>
           agree_off (set (hp # xs @ e # ys)) h h'"
proof -
  obtain h1 where h1: "ILIST_DEL e h = Some h1" "is_list h1 hp (xs @ ys)"
      "agree_off (set (hp # xs @ e # ys)) h h1"
    using del_refines[OF l] ILIST_DEL_eq[OF l] by auto
  have e: "e \<in> dom h1" "e \<notin> set (hp # xs @ ys)"
    using h1(3) is_list_dom[OF l] l by (auto simp: is_list_def agree_off_def)
  obtain h2 where h2: "ILIST_INIT e h1 = Some h2" "is_list h2 e []" "agree_off {e} h1 h2"
    using ILIST_INIT_refines[OF e(1)] by blast
  have "is_list h2 hp (xs @ ys)"
    using h1(2) h2(3) e(2) is_list_frame[of "{e}" h1 h2 hp "xs @ ys"] by auto
  moreover have "agree_off (set (hp # xs @ e # ys)) h h2"
    using agree_off_trans[OF h1(3) h2(3)] by (rule agree_off_mono) auto
  ultimately show ?thesis
    using h1(1) h2(1,2) by (auto simp: ILIST_DEL_INIT_def)
qed

lemma ILIST_IS_EMPTY_refines: "is_list h hp xs \<Longrightarrow> ILIST_IS_EMPTY hp h = Some (xs = [])"
  by (cases xs) (auto simp: is_list_def linked_def ILIST_IS_EMPTY_def)

lemma ilist_splice_eq: "ilist_splice = stlc_list_splice"
proof -
  have "ilist_splice_nonempty = stlc_list_splice_nonempty"
    by (intro ext) (simp add: ilist_splice_nonempty_def stlc_list_splice_nonempty_def)
  moreover have "ILIST_IS_EMPTY = stlc_list_empty"
    by (intro ext) (simp add: ILIST_IS_EMPTY_def stlc_list_empty_def eq_commute)
  ultimately show ?thesis
    by (intro ext) (simp add: ilist_splice_def stlc_list_splice_def cong: if_cong)
qed

lemma ilist_splice_init_refines:
  assumes l: "is_list h hp xs" and m: "is_list h hq ys"
    and disj: "set (hp # xs) \<inter> set (hq # ys) = {}"
  shows "\<exists>h'. ilist_splice_init hp hq h = Some h' \<and> is_list h' hp [] \<and> is_list h' hq (xs @ ys) \<and>
           agree_off (set (hp # hq # xs @ ys)) h h'"
proof -
  obtain h1 where h1: "ilist_splice hp hq h = Some h1" "is_list h1 hq (xs @ ys)"
      "agree_off (set (hq # xs @ ys)) h h1"
    using splice_refines[OF assms] ilist_splice_eq by metis
  have hp: "hp \<in> dom h1" "hp \<notin> set (hq # xs @ ys)"
    using h1(3) is_list_dom[OF l] l disj by (auto simp: agree_off_def is_list_def)
  obtain h2 where h2: "ILIST_INIT hp h1 = Some h2" "is_list h2 hp []" "agree_off {hp} h1 h2"
    using ILIST_INIT_refines[OF hp(1)] by blast
  have "is_list h2 hq (xs @ ys)"
    using h1(2) hp(2) is_list_frame[OF h2(3), of hq "xs @ ys"] by auto
  moreover have "agree_off (set (hp # hq # xs @ ys)) h h2"
    using agree_off_trans[OF h1(3) h2(3)] by (rule agree_off_mono) auto
  ultimately show ?thesis
    using h1(1) h2(1,2) by (auto simp: ilist_splice_init_def)
qed

interpretation ilist: intrusive_list ILIST_INIT ILIST_ADD ILIST_ADD_TAIL ILIST_DEL_INIT
  ilist_splice_init ILIST_IS_EMPTY
proof (unfold_locales, goal_cases)
  case (1 hp h) then show ?case by (rule ILIST_INIT_refines)
next
  case (2 h hp xs n) then show ?case by (rule ILIST_ADD_refines)
next
  case (3 h hp xs n) then show ?case by (rule ILIST_ADD_TAIL_refines)
next
  case (4 h hp xs e ys) then show ?case using ILIST_DEL_INIT_refines by blast
next
  case (5 h hp xs hq ys) then show ?case by (rule ilist_splice_init_refines)
next
  case (6 h hp xs) then show ?case by (rule ILIST_IS_EMPTY_refines)
qed

end
