(* ===== verification/ITimer.thy ===== *)
theory ITimer
  imports IList
begin

text \<open>
  The hierarchical time wheel of \<open>itimer.c\<close> (core part): five vectors of buckets, a 32-bit tick
  counter that wraps, insertion by distance, the cascade from an outer vector into the inner ones and the
  update that runs the callbacks of the due bucket.

  A bucket is the sequence of the nodes linked into it: \<open>IList\<close> shows that the \<open>ilist\<close> macros on the
  pointer memory are the sequence operations used here (append, remove an entry, splice into an empty
  head, take the first).  \<open>vec k i\<close> is \<open>tvecs[k]->vec[i]\<close>, with \<open>k = 0\<close> for the root vector \<open>tv1\<close>.  The
  list \<open>queued\<close> is the local list head of \<open>itimer_internal_update\<close>: the nodes on it are linked, so a
  callback can unlink them.  Nodes are addresses of the node memory; the address of the core is
  what \<open>node->core\<close> is compared with.  A failed \<open>assert\<close> is a fault.  Callbacks are a parameter.
\<close>

section \<open>Data\<close>

definition ITIMER_NODE_STATE_OK :: u32 where "ITIMER_NODE_STATE_OK = 0x1981"
definition ITIMER_NODE_STATE_BAD :: u32 where "ITIMER_NODE_STATE_BAD = 0x2014"

definition ITVN_BITS :: nat where "ITVN_BITS = 6"
definition ITVR_BITS :: nat where "ITVR_BITS = 8"
definition ITVN_SIZE :: nat where "ITVN_SIZE = 2 ^ ITVN_BITS"
definition ITVR_SIZE :: nat where "ITVR_SIZE = 2 ^ ITVR_BITS"
definition ITVN_MASK :: u32 where "ITVN_MASK = 2 ^ ITVN_BITS - 1"
definition ITVR_MASK :: u32 where "ITVR_MASK = 2 ^ ITVR_BITS - 1"

record itimer_node =
  expires :: u32
  state :: u32
  data :: addr
  callback :: addr
  core :: addr

record itimer_core =
  self :: addr
  timer_jiffies :: u32
  vec :: "nat \<Rightarrow> nat \<Rightarrow> addr list"
  queued :: "addr list"
  nodemem :: "addr \<rightharpoonup> itimer_node"

definition set_core :: "addr \<Rightarrow> addr \<Rightarrow> itimer_core \<Rightarrow> itimer_core option" where
  "set_core p c w = map_option (\<lambda>nd. w\<lparr>nodemem := (nodemem w)(p \<mapsto> nd\<lparr>core := c\<rparr>)\<rparr>) (nodemem w p)"

text \<open>The nodes linked somewhere: in a bucket (the root vector has 256, the others 64) or on the queue.\<close>

definition slots :: "(nat \<times> nat) list" where
  "slots = map (\<lambda>i. (0, i)) [0..<ITVR_SIZE] @
     concat (map (\<lambda>k. map (\<lambda>i. (k, i)) [0..<ITVN_SIZE]) [1..<5])"

definition linked_in :: "addr \<Rightarrow> itimer_core \<Rightarrow> bool" where
  "linked_in p w = (p \<in> set (queued w) \<or> list_ex (\<lambda>(k, i). p \<in> set (vec w k i)) slots)"

definition ilist_unlink :: "addr \<Rightarrow> itimer_core \<Rightarrow> itimer_core" where
  "ilist_unlink p w = w\<lparr>vec := (\<lambda>k i. remove1 p (vec w k i)), queued := remove1 p (queued w)\<rparr>"

section \<open>Operations\<close>

definition itimer_core_init :: "u32 \<Rightarrow> itimer_core \<Rightarrow> itimer_core" where
  "itimer_core_init jiffies w = w\<lparr>timer_jiffies := jiffies, vec := (\<lambda>k i. [])\<rparr>"

definition destroy_bucket :: "nat \<times> nat \<Rightarrow> itimer_core \<Rightarrow> itimer_core option" where
  "destroy_bucket = (\<lambda>(k, i) w.
     foldM (\<lambda>p w. set_core p NULL (ilist_unlink p w)) (vec w k i) w)"

definition itimer_core_destroy :: "itimer_core \<Rightarrow> itimer_core option" where
  "itimer_core_destroy w = foldM destroy_bucket slots w"

definition itimer_node_init :: "addr \<Rightarrow> addr \<Rightarrow> addr \<Rightarrow> itimer_core \<Rightarrow> itimer_core option" where
  "itimer_node_init p fn dat w =
     (if linked_in p w then None
      else Some (w\<lparr>nodemem := (nodemem w)(p \<mapsto>
             \<lparr>expires = 0, state = ITIMER_NODE_STATE_OK, data = dat, callback = fn, core = NULL\<rparr>)\<rparr>))"

definition itimer_node_destroy :: "addr \<Rightarrow> itimer_core \<Rightarrow> itimer_core option" where
  "itimer_node_destroy p w = do {
     nd \<leftarrow> nodemem w p;
     if state nd \<noteq> ITIMER_NODE_STATE_OK then None
     else do {
       let w = (if linked_in p w then ilist_unlink p w else w);
       Some (w\<lparr>nodemem := (nodemem w)(p \<mapsto>
          \<lparr>expires = 0, state = ITIMER_NODE_STATE_BAD, data = NULL, callback = NULL, core = NULL\<rparr>)\<rparr>) } }"

text \<open>The bucket for an expiry: by the distance \<open>expires - timer_jiffies\<close>, computed modulo \<open>2^32\<close>.\<close>

definition itimer_slot :: "u32 \<Rightarrow> u32 \<Rightarrow> nat \<times> nat" where
  "itimer_slot jiffies ex =
     (let idx = ex - jiffies in
      if idx < 2 ^ ITVR_BITS then (0, unat (ex AND ITVR_MASK))
      else if idx < 2 ^ (ITVR_BITS + ITVN_BITS) then (1, unat (drop_bit ITVR_BITS ex AND ITVN_MASK))
      else if idx < 2 ^ (ITVR_BITS + ITVN_BITS * 2)
        then (2, unat (drop_bit (ITVR_BITS + ITVN_BITS) ex AND ITVN_MASK))
      else if idx < 2 ^ (ITVR_BITS + ITVN_BITS * 3)
        then (3, unat (drop_bit (ITVR_BITS + ITVN_BITS * 2) ex AND ITVN_MASK))
      else if sint idx < 0 then (0, unat (jiffies AND ITVR_MASK))
      else (4, unat (drop_bit (ITVR_BITS + ITVN_BITS * 3) ex AND ITVN_MASK)))"

definition bucket_add_tail :: "nat \<times> nat \<Rightarrow> addr \<Rightarrow> itimer_core \<Rightarrow> itimer_core" where
  "bucket_add_tail = (\<lambda>(k, i) p w. w\<lparr>vec := (vec w)(k := (vec w k)(i := vec w k i @ [p]))\<rparr>)"

definition itimer_internal_add :: "addr \<Rightarrow> itimer_core \<Rightarrow> itimer_core option" where
  "itimer_internal_add p w = do {
     nd \<leftarrow> nodemem w p;
     set_core p (self w) (bucket_add_tail (itimer_slot (timer_jiffies w) (expires nd)) p w) }"

definition itimer_node_add :: "addr \<Rightarrow> u32 \<Rightarrow> itimer_core \<Rightarrow> itimer_core option" where
  "itimer_node_add p ex w = do {
     nd \<leftarrow> nodemem w p;
     if state nd \<noteq> ITIMER_NODE_STATE_OK then None
     else do {
       w \<leftarrow> (if linked_in p w then set_core p NULL (ilist_unlink p w) else Some w);
       nd \<leftarrow> nodemem w p;
       itimer_internal_add p (w\<lparr>nodemem := (nodemem w)(p \<mapsto> nd\<lparr>expires := ex\<rparr>)\<rparr>) } }"

definition itimer_node_del :: "addr \<Rightarrow> itimer_core \<Rightarrow> (int \<times> itimer_core) option" where
  "itimer_node_del p w = do {
     nd \<leftarrow> nodemem w p;
     if state nd \<noteq> ITIMER_NODE_STATE_OK then None
     else if linked_in p w
     then (if core nd = NULL then None
           else map_option (\<lambda>w. (1, w)) (set_core p NULL (ilist_unlink p w)))
     else Some (0, w) }"

definition itimer_node_mod :: "addr \<Rightarrow> u32 \<Rightarrow> itimer_core \<Rightarrow> (int \<times> itimer_core) option" where
  "itimer_node_mod p ex w = do {
     (ret, w) \<leftarrow> itimer_node_del p w;
     w \<leftarrow> itimer_node_add p ex w;
     Some (ret, w) }"

text \<open>
  The cascade splices a bucket onto a local list and adds its nodes again one by one, through
  \<open>node->core\<close>.
\<close>

fun cascade_nodes :: "addr list \<Rightarrow> itimer_core \<Rightarrow> itimer_core option" where
  "cascade_nodes [] w = Some w"
| "cascade_nodes (p # ps) w = do {
     nd \<leftarrow> nodemem w p;
     if core nd = self w then do { w \<leftarrow> itimer_internal_add p w; cascade_nodes ps w } else None }"

definition itimer_internal_cascade :: "nat \<Rightarrow> nat \<Rightarrow> itimer_core \<Rightarrow> itimer_core option" where
  "itimer_internal_cascade k i w =
     cascade_nodes (vec w k i) (w\<lparr>vec := (vec w)(k := (vec w k)(i := []))\<rparr>)"

definition ITIMER_INDEX :: "itimer_core \<Rightarrow> nat \<Rightarrow> nat" where
  "ITIMER_INDEX w n = unat (drop_bit (ITVR_BITS + n * ITVN_BITS) (timer_jiffies w) AND ITVN_MASK)"

definition cascade_all :: "itimer_core \<Rightarrow> itimer_core option" where
  "cascade_all w = do {
     let i = ITIMER_INDEX w 0;
     w \<leftarrow> itimer_internal_cascade 1 i w;
     if i = 0 then do {
       let i = ITIMER_INDEX w 1;
       w \<leftarrow> itimer_internal_cascade 2 i w;
       if i = 0 then do {
         let i = ITIMER_INDEX w 2;
         w \<leftarrow> itimer_internal_cascade 3 i w;
         if i = 0 then itimer_internal_cascade 4 (ITIMER_INDEX w 3) w
         else Some w }
       else Some w }
     else Some w }"

type_synonym 'u itimer_fn = "addr \<Rightarrow> addr \<Rightarrow> itimer_core \<times> 'u \<Rightarrow> (itimer_core \<times> 'u) option"

partial_function (option) run_queued ::
  "'u itimer_fn \<Rightarrow> itimer_core \<Rightarrow> 'u \<Rightarrow> (itimer_core \<times> 'u) option" where
  "run_queued call w u =
     (case queued w of
        [] \<Rightarrow> Some (w, u)
      | p # _ \<Rightarrow> do {
          nd \<leftarrow> nodemem w p;
          w \<leftarrow> set_core p NULL (ilist_unlink p w);
          (w, u) \<leftarrow> (if callback nd \<noteq> NULL then call (callback nd) (data nd) (w, u) else Some (w, u));
          run_queued call w u })"

text \<open>One pass of the loop of \<open>itimer_internal_update\<close>: the tick \<open>timer_jiffies\<close>.\<close>

definition itimer_tick :: "'u itimer_fn \<Rightarrow> itimer_core \<Rightarrow> 'u \<Rightarrow> (itimer_core \<times> 'u) option" where
  "itimer_tick call w u = do {
     let index = unat (timer_jiffies w AND ITVR_MASK);
     w \<leftarrow> (if index = 0 then cascade_all w else Some w);
     let w = w\<lparr>timer_jiffies := timer_jiffies w + 1, queued := vec w 0 index,
               vec := (vec w)(0 := (vec w 0)(index := []))\<rparr>;
     run_queued call w u }"

partial_function (option) itimer_internal_update ::
  "'u itimer_fn \<Rightarrow> u32 \<Rightarrow> itimer_core \<Rightarrow> 'u \<Rightarrow> (itimer_core \<times> 'u) option" where
  "itimer_internal_update call jiffies w u =
     (if 0 \<le> sint (jiffies - timer_jiffies w)
      then do { (w, u) \<leftarrow> itimer_tick call w u; itimer_internal_update call jiffies w u }
      else Some (w, u))"

definition itimer_core_run :: "'u itimer_fn \<Rightarrow> u32 \<Rightarrow> itimer_core \<Rightarrow> 'u \<Rightarrow> (itimer_core \<times> 'u) option" where
  "itimer_core_run call jiffies w u = itimer_internal_update call jiffies w u"

declare run_queued.simps [code] itimer_internal_update.simps [code]

section \<open>The wheel arithmetic\<close>

lemmas wheel_consts = ITVN_BITS_def ITVR_BITS_def ITVN_SIZE_def ITVR_SIZE_def ITVN_MASK_def ITVR_MASK_def

text \<open>
  \<open>shift k\<close>: the low bits of a tick that the vector \<open>k > 0\<close> does not look at.  \<open>gap J e\<close>: the distance from
  tick \<open>J\<close> to tick \<open>e\<close> modulo \<open>2^32\<close>.
\<close>

definition shift :: "nat \<Rightarrow> nat" where
  "shift k = 2 + 6 * k"

abbreviation gap :: "u32 \<Rightarrow> u32 \<Rightarrow> nat" where
  "gap J e \<equiv> unat (e - J)"

lemma itimer_slot_arith:
  "itimer_slot J e =
     (if gap J e < 2 ^ 8 then (0, unat e mod 256)
      else if gap J e < 2 ^ 14 then (1, unat e div 2 ^ shift 1 mod 64)
      else if gap J e < 2 ^ 20 then (2, unat e div 2 ^ shift 2 mod 64)
      else if gap J e < 2 ^ 26 then (3, unat e div 2 ^ shift 3 mod 64)
      else if 2 ^ 31 \<le> gap J e then (0, unat J mod 256)
      else (4, unat e div 2 ^ shift 4 mod 64))"
proof -
  have m: "unat (x AND ITVR_MASK) = unat x mod 256" "unat (drop_bit n x AND ITVN_MASK) = unat x div 2 ^ n mod 64" for x n
    using unat_and_mask[of x 8] unat_drop_and_mask[of n x 6] by (simp_all add: wheel_consts)
  have c: "e - J < 2 ^ 8 \<longleftrightarrow> gap J e < 2 ^ 8" "e - J < 2 ^ (8 + 6) \<longleftrightarrow> gap J e < 2 ^ 14"
      "e - J < 2 ^ (8 + 6 * 2) \<longleftrightarrow> gap J e < 2 ^ 20" "e - J < 2 ^ (8 + 6 * 3) \<longleftrightarrow> gap J e < 2 ^ 26"
    by (simp_all add: word_less_nat_alt)
  show ?thesis
    unfolding itimer_slot_def Let_def m sint_neg_iff ITVN_BITS_def ITVR_BITS_def c
    by (simp add: shift_def)
qed

text \<open>
  Where a node with expiry \<open>e\<close> may be while the next tick is \<open>J\<close>.  In the root vector it is in the slot of
  the tick on which it will run: \<open>e\<close> itself when that is less than 256 ticks ahead, or the current slot
  (which also takes the nodes that were added late).  In an outer vector it is in the slot of its block of
  \<open>2^shift k\<close> ticks, and the first tick of that block, on which the slot is cascaded, is not past.
\<close>

definition slot_ok :: "u32 \<Rightarrow> u32 \<Rightarrow> nat \<Rightarrow> nat \<Rightarrow> bool" where
  "slot_ok J e k i \<longleftrightarrow>
     (if k = 0 then i < 256 \<and> (i = unat J mod 256 \<or> gap J e < 256 \<and> i = unat e mod 256)
      else k < 5 \<and> i = unat e div 2 ^ shift k mod 64 \<and> unat e mod 2 ^ shift k \<le> gap J e \<and> gap J e < 2 ^ 31)"

text \<open>After the cascades of the tick \<open>J\<close>, the first tick of the block is strictly ahead.\<close>

definition settled :: "u32 \<Rightarrow> u32 \<Rightarrow> nat \<Rightarrow> bool" where
  "settled J e k \<longleftrightarrow> (0 < k \<longrightarrow> unat e mod 2 ^ shift k < gap J e)"

lemma itimer_slot_ok:
  assumes "itimer_slot J e = (k, i)"
  shows "slot_ok J e k i" and "settled J e k"
proof -
  have "unat e mod 2 ^ s < gap J e" if "2 ^ s \<le> gap J e" for s
    using that by (rule less_le_trans[rotated]) simp
  then show "slot_ok J e k i" "settled J e k"
    using assms unfolding itimer_slot_arith
    by (auto simp: slot_ok_def settled_def shift_def not_less split: if_splits)
qed

lemma gap_Suc: "e \<noteq> J \<Longrightarrow> gap (J + 1) e = gap J e - 1"
  using unat_minus_one[of "e - J"] by (simp add: algebra_simps)

lemma gap_zero_iff: "gap J e = 0 \<longleftrightarrow> e = J"
  by (simp add: unat_eq_zero)

lemma slot_ok_advance:
  assumes ok: "slot_ok J e k i" and set: "settled J e k" and cur: "k = 0 \<Longrightarrow> i \<noteq> unat J mod 256"
  shows "slot_ok (J + 1) e k i" and "gap (J + 1) e = gap J e - 1" and "0 < gap J e"
proof -
  show "0 < gap J e"
    using ok set cur gap_zero_iff[of e J] by (auto simp: slot_ok_def settled_def split: if_splits)
  then show g: "gap (J + 1) e = gap J e - 1"
    using gap_Suc gap_zero_iff by (metis less_irrefl)
  show "slot_ok (J + 1) e k i"
    using ok set cur unfolding slot_ok_def settled_def g by (auto split: if_splits)
qed

text \<open>A node that is not settled is in the slot that the tick \<open>J\<close> cascades.\<close>

lemma unsettled_slot:
  assumes ok: "slot_ok J e k i" and ns: "\<not> settled J e k"
  shows "0 < k" "k < 5" "unat J mod 2 ^ shift k = 0" "i = unat J div 2 ^ shift k mod 64"
proof -
  let ?d = "gap J e" and ?D = "2 ^ shift k :: nat"
  show k: "0 < k" "k < 5" using ok ns by (auto simp: slot_ok_def settled_def split: if_splits)
  have d: "?d = unat e mod ?D" and i: "i = unat e div ?D mod 64"
    using ok ns k by (auto simp: slot_ok_def settled_def)
  have "?d \<le> unat e" using d by simp
  then have "unat (e - (e - J)) = unat e - ?d"
    by (intro unat_sub) (simp only: word_le_nat_alt)
  then have j: "unat J = ?D * (unat e div ?D)"
    using d by (simp add: minus_mod_eq_mult_div)
  show "unat J mod ?D = 0" using j by simp
  show "i = unat J div ?D mod 64" using i j by simp
qed

section \<open>The invariant of the wheel\<close>

abbreviation expires_of :: "itimer_core \<Rightarrow> addr \<Rightarrow> u32" where
  "expires_of w p \<equiv> expires (the (nodemem w p))"

definition node_ok :: "itimer_core \<Rightarrow> addr \<Rightarrow> bool" where
  "node_ok w p \<longleftrightarrow> (\<exists>nd. nodemem w p = Some nd \<and> core nd = self w \<and> state nd = ITIMER_NODE_STATE_OK)"

definition members :: "itimer_core \<Rightarrow> addr set" where
  "members w = {p. \<exists>k i. p \<in> set (vec w k i)}"

text \<open>No node is linked twice, and linked nodes are initialised and point back to the core.\<close>

definition links_ok :: "itimer_core \<Rightarrow> bool" where
  "links_ok w \<longleftrightarrow> self w \<noteq> NULL \<and> distinct (queued w) \<and> set (queued w) \<inter> members w = {} \<and>
     (\<forall>p \<in> set (queued w) \<union> members w. node_ok w p) \<and> (\<forall>k i. distinct (vec w k i)) \<and>
     (\<forall>p k i k' i'. p \<in> set (vec w k i) \<longrightarrow> p \<in> set (vec w k' i') \<longrightarrow> k = k' \<and> i = i')"

definition wheel_inv :: "itimer_core \<Rightarrow> bool" where
  "wheel_inv w \<longleftrightarrow> links_ok w \<and>
     (\<forall>k i. \<forall>p \<in> set (vec w k i). slot_ok (timer_jiffies w) (expires_of w p) k i)"

lemma slots_range: "(k, i) \<in> set slots \<longleftrightarrow> (k = 0 \<and> i < 256 \<or> 0 < k \<and> k < 5 \<and> i < 64)"
  by (auto simp: slots_def wheel_consts intro!: bexI[of _ k])

lemma slot_ok_range: "slot_ok J e k i \<Longrightarrow> (k, i) \<in> set slots"
  by (auto simp: slots_range slot_ok_def split: if_splits)

lemma linked_in_iff:
  assumes "wheel_inv w"
  shows "linked_in p w \<longleftrightarrow> p \<in> set (queued w) \<or> p \<in> members w"
proof -
  have "(k, i) \<in> set slots" if "p \<in> set (vec w k i)" for k i
    using assms that slot_ok_range unfolding wheel_inv_def by blast
  then show ?thesis
    by (auto simp: linked_in_def members_def list_ex_iff)
qed

lemma wheel_inv_node: "wheel_inv w \<Longrightarrow> p \<in> set (queued w) \<or> p \<in> members w \<Longrightarrow> node_ok w p"
  by (auto simp: wheel_inv_def links_ok_def)

lemma members_I: "p \<in> set (vec w k i) \<Longrightarrow> p \<in> members w"
  by (auto simp: members_def)

text \<open>Unlinking a node takes it out of the one list it is on.\<close>

lemma set_core_simps [simp]:
  "set_core p c w = Some w' \<longleftrightarrow>
     (\<exists>nd. nodemem w p = Some nd \<and> w' = w\<lparr>nodemem := (nodemem w)(p \<mapsto> nd\<lparr>core := c\<rparr>)\<rparr>)"
  by (auto simp: set_core_def)

lemma unlink_simps [simp]:
  "self (ilist_unlink p w) = self w" "timer_jiffies (ilist_unlink p w) = timer_jiffies w"
  "nodemem (ilist_unlink p w) = nodemem w" "queued (ilist_unlink p w) = remove1 p (queued w)"
  "vec (ilist_unlink p w) k i = remove1 p (vec w k i)"
  by (simp_all add: ilist_unlink_def)

lemma members_unlink:
  assumes "links_ok w"
  shows "members (ilist_unlink p w) = members w - {p}"
  using assms by (auto simp: members_def links_ok_def)

lemma unlink_inv:
  assumes inv: "wheel_inv w" and m: "\<And>q. q \<noteq> p \<Longrightarrow> m' q = nodemem w q"
  shows "wheel_inv ((ilist_unlink p w)\<lparr>nodemem := m'\<rparr>)"
    and "members ((ilist_unlink p w)\<lparr>nodemem := m'\<rparr>) = members w - {p}"
proof -
  let ?w = "(ilist_unlink p w)\<lparr>nodemem := m'\<rparr>"
  have l: "links_ok w" using inv by (simp add: wheel_inv_def)
  show mem: "members ?w = members w - {p}"
    using members_unlink[OF l, of p] by (simp add: members_def)
  have v: "set (vec ?w k i) = set (vec w k i) - {p}" "distinct (vec ?w k i)" for k i
    using l by (auto simp: links_ok_def)
  have q: "set (queued ?w) = set (queued w) - {p}" "distinct (queued ?w)"
    using l by (auto simp: links_ok_def)
  have "node_ok ?w r" if "r \<in> set (queued ?w) \<union> members ?w" for r
    using that l m[of r] by (auto simp: links_ok_def node_ok_def q mem)
  then have "links_ok ?w"
    using l q v mem unfolding links_ok_def by (auto simp del: Un_iff)
  then show "wheel_inv ?w"
    using inv v m unfolding wheel_inv_def by auto
qed

text \<open>Appending a free node to the slot of its expiry.\<close>

lemma bucket_add_tail_simps [simp]:
  "self (bucket_add_tail s p w) = self w" "timer_jiffies (bucket_add_tail s p w) = timer_jiffies w"
  "nodemem (bucket_add_tail s p w) = nodemem w" "queued (bucket_add_tail s p w) = queued w"
  "vec (bucket_add_tail s p w) k i = vec w k i @ (if s = (k, i) then [p] else [])"
  by (cases s; simp add: bucket_add_tail_def)+

lemma add_inv:
  assumes inv: "wheel_inv w" and free: "p \<notin> members w" "p \<notin> set (queued w)"
    and nd: "core nd = self w" "state nd = ITIMER_NODE_STATE_OK"
    and s: "s = itimer_slot (timer_jiffies w) (expires nd)"
  shows "wheel_inv ((bucket_add_tail s p w)\<lparr>nodemem := (nodemem w)(p \<mapsto> nd)\<rparr>)"
    and "members ((bucket_add_tail s p w)\<lparr>nodemem := (nodemem w)(p \<mapsto> nd)\<rparr>) = insert p (members w)"
proof -
  let ?w = "(bucket_add_tail s p w)\<lparr>nodemem := (nodemem w)(p \<mapsto> nd)\<rparr>"
  have v: "set (vec ?w k i) = set (vec w k i) \<union> (if s = (k, i) then {p} else {})" for k i
    by simp
  show mem: "members ?w = insert p (members w)"
    unfolding members_def v by (cases s) auto
  have l: "links_ok w" using inv by (simp add: wheel_inv_def)
  have nv: "p \<notin> set (vec w k i)" for k i using free(1) by (auto simp: members_def)
  have d: "distinct (vec ?w k i)" for k i
    using l nv by (simp add: links_ok_def)
  have "node_ok ?w r" if "r \<in> set (queued ?w) \<union> members ?w" for r
    using that l nd free by (auto simp: links_ok_def node_ok_def mem)
  moreover have "k = k' \<and> i = i'" if "r \<in> set (vec ?w k i)" "r \<in> set (vec ?w k' i')" for r k i k' i'
    using that l nv unfolding v links_ok_def by (auto split: if_splits)
  ultimately have "links_ok ?w"
    using l free d mem unfolding links_ok_def by (auto simp del: Un_iff)
  moreover have "slot_ok (timer_jiffies w) (expires_of ?w r) k i" if "r \<in> set (vec ?w k i)" for r k i
    using that inv nv itimer_slot_ok(1)[of "timer_jiffies w" "expires nd" k i] s
    unfolding v wheel_inv_def by (auto split: if_splits)
  ultimately show "wheel_inv ?w"
    by (simp add: wheel_inv_def)
qed

text \<open>What an operation on one node leaves alone.\<close>

definition node_frame :: "addr \<Rightarrow> itimer_core \<Rightarrow> itimer_core \<Rightarrow> bool" where
  "node_frame p w w' \<longleftrightarrow> self w' = self w \<and> timer_jiffies w' = timer_jiffies w \<and>
     (\<forall>q. q \<noteq> p \<longrightarrow> nodemem w' q = nodemem w q) \<and> queued w' = remove1 p (queued w) \<and>
     (\<forall>k i. filter (\<lambda>q. q \<noteq> p) (vec w' k i) = filter (\<lambda>q. q \<noteq> p) (vec w k i))"

lemma filter_remove1: "filter (\<lambda>q. q \<noteq> p) (remove1 p xs) = filter (\<lambda>q. q \<noteq> p) xs"
  by (induction xs) auto

lemma itimer_node_add_ok:
  assumes inv: "wheel_inv w" and nd: "nodemem w p = Some nd" "state nd = ITIMER_NODE_STATE_OK"
  shows "\<exists>w'. itimer_node_add p ex w = Some w' \<and> wheel_inv w' \<and> node_frame p w w' \<and>
           members w' = insert p (members w) \<and> nodemem w' p = Some (nd\<lparr>expires := ex, core := self w\<rparr>) \<and>
           (\<forall>k i. itimer_slot (timer_jiffies w) ex = (k, i) \<longrightarrow> p \<in> set (vec w' k i))"
proof -
  let ?nd = "nd\<lparr>expires := ex, core := self w\<rparr>"
  define w1 where "w1 = (if linked_in p w then (ilist_unlink p w)\<lparr>nodemem := (nodemem w)(p \<mapsto> nd\<lparr>core := NULL\<rparr>)\<rparr> else w)"
  have free: "p \<notin> members w1" "p \<notin> set (queued w1)" "wheel_inv w1" "members w1 = members w - {p}"
      "queued w1 = remove1 p (queued w)" "timer_jiffies w1 = timer_jiffies w" "self w1 = self w"
      "vec w1 k i = remove1 p (vec w k i)" for k i
    using unlink_inv[OF inv, of p] linked_in_iff[OF inv, of p] inv
    by (auto simp: w1_def remove1_idem wheel_inv_def links_ok_def members_def)
  let ?s = "itimer_slot (timer_jiffies w1) (expires ?nd)"
  let ?w = "(bucket_add_tail ?s p w1)\<lparr>nodemem := (nodemem w1)(p \<mapsto> ?nd)\<rparr>"
  have "wheel_inv ?w" "members ?w = insert p (members w1)"
    using add_inv[OF free(3) free(1,2), of ?nd] nd(2) free(7) by auto
  moreover have "itimer_node_add p ex w = Some ?w"
    using nd free(7) by (cases "linked_in p w")
      (simp_all add: itimer_node_add_def itimer_internal_add_def w1_def set_core_def bucket_add_tail_def split: prod.split)
  moreover have "node_frame p w ?w"
    using free by (auto simp: node_frame_def w1_def filter_remove1)
  ultimately show ?thesis
    using free by (intro exI[of _ ?w]) auto
qed

lemma itimer_node_del_ok:
  assumes inv: "wheel_inv w" and nd: "nodemem w p = Some nd" "state nd = ITIMER_NODE_STATE_OK"
  shows "\<exists>w' ret. itimer_node_del p w = Some (ret, w') \<and> wheel_inv w' \<and> node_frame p w w' \<and>
           members w' = members w - {p} \<and> ret = (if p \<in> members w \<union> set (queued w) then 1 else 0) \<and>
           (\<exists>c. nodemem w' p = Some (nd\<lparr>core := c\<rparr>))"
proof (cases "linked_in p w")
  case True
  then have "node_ok w p" "self w \<noteq> NULL"
    using inv wheel_inv_node linked_in_iff[OF inv] by (auto simp: wheel_inv_def links_ok_def)
  then have "core nd \<noteq> NULL" using nd by (auto simp: node_ok_def)
  let ?w = "(ilist_unlink p w)\<lparr>nodemem := (nodemem w)(p \<mapsto> nd\<lparr>core := NULL\<rparr>)\<rparr>"
  have "itimer_node_del p w = Some (1, ?w)"
    using True nd \<open>core nd \<noteq> NULL\<close> by (simp add: itimer_node_del_def set_core_def)
  moreover have "node_frame p w ?w"
    by (simp add: node_frame_def filter_remove1)
  ultimately show ?thesis
    using unlink_inv[OF inv, of p "(nodemem w)(p \<mapsto> nd\<lparr>core := NULL\<rparr>)"] True linked_in_iff[OF inv, of p]
    by auto
next
  case False
  then have "itimer_node_del p w = Some (0, w)" "node_frame p w w"
    using nd linked_in_iff[OF inv, of p] by (auto simp: itimer_node_del_def node_frame_def remove1_idem)
  moreover have "nodemem w p = Some (nd\<lparr>core := core nd\<rparr>)"
    using nd(1) by simp
  ultimately show ?thesis
    using False inv linked_in_iff[OF inv, of p] by (intro exI[of _ w] exI[of _ 0] conjI exI[of _ "core nd"]) auto
qed

section \<open>The cascade\<close>

abbreviation node_slot :: "itimer_core \<Rightarrow> addr \<Rightarrow> nat \<times> nat" where
  "node_slot w p \<equiv> itimer_slot (timer_jiffies w) (expires_of w p)"

lemma cascade_nodes_eq:
  "\<forall>p \<in> set ps. node_ok w p \<Longrightarrow>
   cascade_nodes ps w = Some (w\<lparr>vec := (\<lambda>k i. vec w k i @ filter (\<lambda>p. node_slot w p = (k, i)) ps)\<rparr>)"
proof (induction ps arbitrary: w)
  case Nil
  then show ?case by simp
next
  case (Cons p ps)
  obtain nd where nd: "nodemem w p = Some nd" "core nd = self w"
    using Cons.prems by (auto simp: node_ok_def)
  let ?w = "bucket_add_tail (node_slot w p) p w"
  have "nd\<lparr>core := self w\<rparr> = nd" using nd(2) by (metis itimer_node.surjective itimer_node.update_convs(5))
  then have "(nodemem w)(p \<mapsto> nd\<lparr>core := self w\<rparr>) = nodemem w" using nd(1) by auto
  then have "itimer_internal_add p w = Some ?w"
    using nd by (cases "node_slot w p") (simp add: itimer_internal_add_def set_core_def bucket_add_tail_def)
  moreover have "cascade_nodes ps ?w =
      Some (?w\<lparr>vec := (\<lambda>k i. vec ?w k i @ filter (\<lambda>p. node_slot ?w p = (k, i)) ps)\<rparr>)"
    using Cons by (auto simp: node_ok_def)
  moreover have "vec ?w k i @ filter (\<lambda>p. node_slot ?w p = (k, i)) ps =
      vec w k i @ filter (\<lambda>p. node_slot w p = (k, i)) (p # ps)" for k i
    by simp
  ultimately show ?case
    using nd by (cases "node_slot w p") (simp add: bucket_add_tail_def)
qed

text \<open>
  The ticks that a linked node still has to wait: none in the slot of the current tick, otherwise the
  distance to its expiry.
\<close>

definition wait :: "itimer_core \<Rightarrow> addr \<Rightarrow> nat" where
  "wait w p = (if p \<in> set (vec w 0 (unat (timer_jiffies w) mod 256)) then 0
               else gap (timer_jiffies w) (expires_of w p))"

text \<open>What a cascade keeps: everything but the places of the nodes.\<close>

definition vec_frame :: "itimer_core \<Rightarrow> itimer_core \<Rightarrow> bool" where
  "vec_frame w w' \<longleftrightarrow> self w' = self w \<and> timer_jiffies w' = timer_jiffies w \<and> queued w' = queued w \<and>
     nodemem w' = nodemem w \<and> members w' = members w \<and> (\<forall>p \<in> members w. wait w' p = wait w p)"

lemma vec_frame_refl [simp]: "vec_frame w w"
  by (simp add: vec_frame_def)

lemma vec_frame_trans: "vec_frame w w' \<Longrightarrow> vec_frame w' w'' \<Longrightarrow> vec_frame w w''"
  by (simp add: vec_frame_def)

definition level_settled :: "itimer_core \<Rightarrow> nat \<Rightarrow> bool" where
  "level_settled w k \<longleftrightarrow> (\<forall>i. \<forall>p \<in> set (vec w k i). settled (timer_jiffies w) (expires_of w p) k)"

text \<open>The result of a cascade, with the nodes of the slot redistributed.\<close>

definition cascaded :: "nat \<Rightarrow> nat \<Rightarrow> itimer_core \<Rightarrow> itimer_core" where
  "cascaded k i w = w\<lparr>vec := (\<lambda>j l. ((vec w)(k := (vec w k)(i := []))) j l @
     filter (\<lambda>p. node_slot w p = (j, l)) (vec w k i))\<rparr>"

lemma cascaded_frame [simp]:
  "self (cascaded k i w) = self w" "timer_jiffies (cascaded k i w) = timer_jiffies w"
  "queued (cascaded k i w) = queued w" "nodemem (cascaded k i w) = nodemem w"
  by (simp_all add: cascaded_def)

lemma cascade_run:
  assumes "links_ok w"
  shows "itimer_internal_cascade k i w = Some (cascaded k i w)"
proof -
  have "\<forall>p\<in>set (vec w k i). node_ok (w\<lparr>vec := (vec w)(k := (vec w k)(i := []))\<rparr>) p"
    using assms members_I by (fastforce simp: links_ok_def node_ok_def)
  from cascade_nodes_eq[OF this] show ?thesis
    by (simp add: itimer_internal_cascade_def cascaded_def)
qed

lemma cascaded_slot:
  assumes "links_ok w"
  shows "p \<in> set (vec (cascaded k i w) j l) \<longleftrightarrow>
      (if p \<in> set (vec w k i) then node_slot w p = (j, l) else p \<in> set (vec w j l))"
  using assms by (auto simp: links_ok_def cascaded_def)

lemma cascaded_members:
  assumes "links_ok w"
  shows "members (cascaded k i w) = members w"
proof -
  have "p \<in> members (cascaded k i w) \<longleftrightarrow> p \<in> members w" for p
    unfolding members_def mem_Collect_eq cascaded_slot[OF assms]
    by (cases "p \<in> set (vec w k i)"; cases "node_slot w p") auto
  then show ?thesis by blast
qed

lemma cascaded_inv:
  assumes inv: "wheel_inv w"
  shows "wheel_inv (cascaded k i w)"
proof -
  let ?w = "cascaded k i w"
  have l: "links_ok w" using inv by (simp add: wheel_inv_def)
  note slot = cascaded_slot[OF l]
  have "distinct (vec ?w j m)" for j m
    using l unfolding links_ok_def cascaded_def by (auto split: if_splits)
  moreover have "j = j' \<and> m = m'" if "p \<in> set (vec ?w j m)" "p \<in> set (vec ?w j' m')" for p j m j' m'
    using that l unfolding slot links_ok_def by (auto split: if_splits)
  ultimately have "links_ok ?w"
    using l cascaded_members[OF l, of k i] unfolding links_ok_def
    by (auto simp: node_ok_def simp del: Un_iff)
  moreover have "slot_ok (timer_jiffies w) (expires_of w p) j m" if "p \<in> set (vec ?w j m)" for p j m
    using that inv itimer_slot_ok(1) unfolding slot wheel_inv_def by (auto split: if_splits)
  ultimately show ?thesis
    by (simp add: wheel_inv_def)
qed

lemma cascaded_settled:
  assumes inv: "wheel_inv w"
    and lv: "level_settled w j \<or> j = k \<and> i = unat (timer_jiffies w) div 2 ^ shift k mod 64"
  shows "level_settled (cascaded k i w) j"
  unfolding level_settled_def
proof (intro allI ballI, rule ccontr)
  have l: "links_ok w" using inv by (simp add: wheel_inv_def)
  fix m p assume p: "p \<in> set (vec (cascaded k i w) j m)"
    and ns: "\<not> settled (timer_jiffies (cascaded k i w)) (expires_of (cascaded k i w) p) j"
  then have "p \<in> set (vec w j m)" "p \<notin> set (vec w k i)"
    using itimer_slot_ok(2) unfolding cascaded_slot[OF l] by (auto split: if_splits)
  moreover have "slot_ok (timer_jiffies w) (expires_of w p) j m"
    using inv calculation by (auto simp: wheel_inv_def)
  ultimately show False
    using lv unsettled_slot[of "timer_jiffies w" "expires_of w p" j m] ns by (auto simp: level_settled_def)
qed

lemma expires_mod: "unat e mod 256 = (unat J + gap J e) mod 256"
proof -
  have "unat (J + (e - J)) = (unat J + gap J e) mod 2 ^ 32"
    by (simp only: unat_word_ariths) simp
  then show ?thesis
    by (simp add: mod_mod_cancel)
qed

lemma mod256_gap:
  assumes eq: "(j + g) mod 256 = (j + c) mod 256" and "g < 256" and "c < (256 :: nat)"
  shows "g = c"
proof (rule ccontr)
  assume "g \<noteq> c"
  define a b where "a = min g c" and "b = max g c"
  have ab: "a < b" "b < 256" "(j + b) mod 256 = (j + a) mod 256"
    using assms \<open>g \<noteq> c\<close> by (auto simp: a_def b_def min_def max_def)
  then have "256 dvd (j + b) - (j + a)"
    using mod_eq_dvd_iff_nat[of "j + a" "j + b" 256] by simp
  then show False
    using ab nat_dvd_not_less[of "b - a" 256] by simp
qed

lemma cascaded_wait:
  assumes inv: "wheel_inv w" and p: "p \<in> members w" and k: "0 < k"
  shows "wait (cascaded k i w) p = wait w p"
proof (cases "p \<in> set (vec w k i)")
  case False
  then show ?thesis
    using inv cascaded_slot[of w p k i] by (simp add: wait_def wheel_inv_def)
next
  case True
  let ?J = "timer_jiffies w" and ?e = "expires_of w p"
  have l: "links_ok w" and "slot_ok ?J ?e k i"
    using inv True by (auto simp: wheel_inv_def)
  then have g: "gap ?J ?e < 2 ^ 31"
    using k by (simp add: slot_ok_def)
  have "p \<notin> set (vec w 0 m)" for m
    using True k l unfolding links_ok_def by (metis less_irrefl)
  moreover have "gap ?J ?e = 0" if "node_slot w p = (0, unat ?J mod 256)"
  proof -
    have "gap ?J ?e < 256 \<and> unat ?e mod 256 = unat ?J mod 256"
      using that g unfolding itimer_slot_arith by (auto split: if_splits)
    then show ?thesis using mod256_gap[of "unat ?J" "gap ?J ?e" 0] expires_mod[of ?e ?J] by simp
  qed
  ultimately show ?thesis
    using True by (simp add: wait_def cascaded_slot[OF l])
qed

lemma cascade_ok:
  assumes inv: "wheel_inv w" and k: "0 < k"
  obtains w' where "itimer_internal_cascade k i w = Some w'" "wheel_inv w'" "vec_frame w w'"
    "\<And>j. level_settled w j \<Longrightarrow> level_settled w' j"
    "i = unat (timer_jiffies w) div 2 ^ shift k mod 64 \<Longrightarrow> level_settled w' k"
proof
  have l: "links_ok w" using inv by (simp add: wheel_inv_def)
  show "itimer_internal_cascade k i w = Some (cascaded k i w)" "wheel_inv (cascaded k i w)"
      "vec_frame w (cascaded k i w)"
    using cascade_run[OF l] cascaded_inv[OF inv] cascaded_members[OF l] cascaded_wait[OF inv _ k]
    by (auto simp: vec_frame_def)
qed (use cascaded_settled[OF inv] in blast)+

text \<open>A level with nothing to cascade on this tick is settled.\<close>

lemma level_settled_off:
  assumes inv: "wheel_inv w" and off: "unat (timer_jiffies w) mod 2 ^ shift k \<noteq> 0 \<or> k = 0 \<or> 5 \<le> k"
  shows "level_settled w k"
  unfolding level_settled_def
proof (intro allI ballI, rule ccontr)
  fix i p assume "p \<in> set (vec w k i)" "\<not> settled (timer_jiffies w) (expires_of w p) k"
  then show False
    using unsettled_slot[of "timer_jiffies w" "expires_of w p" k i] inv off by (auto simp: wheel_inv_def)
qed

lemma levels_settled_off:
  assumes "wheel_inv w" and "unat (timer_jiffies w) mod 2 ^ shift k \<noteq> 0" and "k \<le> j"
  shows "level_settled w j"
proof -
  have "(2 :: nat) ^ shift k dvd 2 ^ shift j"
    using assms(3) by (intro le_imp_power_dvd) (simp add: shift_def)
  then have "unat (timer_jiffies w) mod 2 ^ shift j \<noteq> 0"
    using assms(2) by (metis mod_0_imp_dvd dvd_trans dvd_imp_mod_0)
  then show ?thesis
    using level_settled_off[OF assms(1)] by blast
qed

lemma ITIMER_INDEX_arith: "ITIMER_INDEX w n = unat (timer_jiffies w) div 2 ^ shift (n + 1) mod 64"
  using unat_drop_and_mask[of "8 + n * 6" "timer_jiffies w" 6]
  by (simp add: ITIMER_INDEX_def wheel_consts shift_def algebra_simps)

text \<open>One link of the chain of cascades: level \<open>k\<close> becomes settled, and the next one is due or settled.\<close>

lemma cascade_chain:
  assumes inv: "wheel_inv w" and J: "unat (timer_jiffies w) mod 2 ^ shift k = 0"
    and below: "\<forall>j<k. level_settled w j" and n: "k = n + 1" "k' = k + 1"
  shows "\<exists>w'. itimer_internal_cascade k (ITIMER_INDEX w n) w = Some w' \<and> wheel_inv w' \<and>
    vec_frame w w' \<and> (\<forall>j<k'. level_settled w' j) \<and>
    (ITIMER_INDEX w n \<noteq> 0 \<longrightarrow> (\<forall>j. level_settled w' j)) \<and>
    (ITIMER_INDEX w n = 0 \<longrightarrow> unat (timer_jiffies w') mod 2 ^ shift k' = 0)"
proof -
  let ?i = "ITIMER_INDEX w n"
  have i: "?i = unat (timer_jiffies w) div 2 ^ shift k mod 64"
    using n by (simp add: ITIMER_INDEX_arith)
  obtain w' where w': "itimer_internal_cascade k ?i w = Some w'" "wheel_inv w'" "vec_frame w w'"
      "\<And>j. level_settled w j \<Longrightarrow> level_settled w' j" "level_settled w' k"
    using cascade_ok[OF inv, of k ?i] i n(1) by auto
  have low: "\<forall>j<k'. level_settled w' j"
    using below w'(4,5) n(2) by (auto simp: less_Suc_eq)
  have same: "timer_jiffies w' = timer_jiffies w" using w'(3) by (simp add: vec_frame_def)
  have pw: "(2 :: nat) ^ shift k' = 2 ^ shift k * 64" using n(2) by (simp add: shift_def power_add)
  have iff: "unat (timer_jiffies w') mod 2 ^ shift k' = 0 \<longleftrightarrow> ?i = 0"
    using J i same by (simp add: pw mod_mult2_eq)
  have "level_settled w' j" if "?i \<noteq> 0" for j
    using levels_settled_off[OF w'(2), of k' j] low iff that by (cases "j < k'") auto
  then show ?thesis
    using w'(1-3) low iff by (intro exI[of _ w']) simp
qed

lemma cascade_all_ok:
  assumes inv: "wheel_inv w" and J: "unat (timer_jiffies w) mod 256 = 0"
  obtains w' where "cascade_all w = Some w'" "wheel_inv w'" "vec_frame w w'" "\<forall>j. level_settled w' j"
proof -
  have nums: "(1 :: nat) = 0 + 1" "(2 :: nat) = 1 + 1" "(3 :: nat) = 2 + 1" "(4 :: nat) = 3 + 1" "(5 :: nat) = 4 + 1"
    by simp_all
  have J1: "unat (timer_jiffies w) mod 2 ^ shift 1 = 0" and l1: "\<forall>j<1. level_settled w j"
    using level_settled_off[OF inv] J by (simp_all add: shift_def)
  obtain w1 where w1: "itimer_internal_cascade 1 (ITIMER_INDEX w 0) w = Some w1" "wheel_inv w1"
      "vec_frame w w1" "\<forall>j<2. level_settled w1 j" "ITIMER_INDEX w 0 \<noteq> 0 \<longrightarrow> (\<forall>j. level_settled w1 j)"
      "ITIMER_INDEX w 0 = 0 \<longrightarrow> unat (timer_jiffies w1) mod 2 ^ shift 2 = 0"
    using cascade_chain[OF inv J1 l1 nums(1,2)] by metis
  show ?thesis
  proof (cases "ITIMER_INDEX w 0 = 0")
    case False
    then show ?thesis using that[of w1] w1 by (simp add: cascade_all_def)
  next
    case c1: True
    then have J2: "unat (timer_jiffies w1) mod 2 ^ shift 2 = 0" using w1(6) by blast
    obtain w2 where w2: "itimer_internal_cascade 2 (ITIMER_INDEX w1 1) w1 = Some w2" "wheel_inv w2"
        "vec_frame w1 w2" "\<forall>j<3. level_settled w2 j" "ITIMER_INDEX w1 1 \<noteq> 0 \<longrightarrow> (\<forall>j. level_settled w2 j)"
        "ITIMER_INDEX w1 1 = 0 \<longrightarrow> unat (timer_jiffies w2) mod 2 ^ shift 3 = 0"
      using cascade_chain[OF w1(2) J2 w1(4) nums(2,3)] by metis
    note f2 = vec_frame_trans[OF w1(3) w2(3)]
    show ?thesis
    proof (cases "ITIMER_INDEX w1 1 = 0")
      case False
      then show ?thesis using that[of w2] w1(1) w2 c1 f2 by (simp add: cascade_all_def)
    next
      case c2: True
      then have J3: "unat (timer_jiffies w2) mod 2 ^ shift 3 = 0" using w2(6) by blast
      obtain w3 where w3: "itimer_internal_cascade 3 (ITIMER_INDEX w2 2) w2 = Some w3" "wheel_inv w3"
          "vec_frame w2 w3" "\<forall>j<4. level_settled w3 j" "ITIMER_INDEX w2 2 \<noteq> 0 \<longrightarrow> (\<forall>j. level_settled w3 j)"
          "ITIMER_INDEX w2 2 = 0 \<longrightarrow> unat (timer_jiffies w3) mod 2 ^ shift 4 = 0"
        using cascade_chain[OF w2(2) J3 w2(4) nums(3,4)] by metis
      note f3 = vec_frame_trans[OF f2 w3(3)]
      show ?thesis
      proof (cases "ITIMER_INDEX w2 2 = 0")
        case False
        then show ?thesis using that[of w3] w1(1) w2(1) w3 c1 c2 f3 by (simp add: cascade_all_def)
      next
        case c3: True
        then have J4: "unat (timer_jiffies w3) mod 2 ^ shift 4 = 0" using w3(6) by blast
        obtain w4 where w4: "itimer_internal_cascade 4 (ITIMER_INDEX w3 3) w3 = Some w4" "wheel_inv w4"
            "vec_frame w3 w4" "\<forall>j<5. level_settled w4 j"
          using cascade_chain[OF w3(2) J4 w3(4) nums(4,5)] by metis
        have "level_settled w4 j" for j
          using w4(4) level_settled_off[OF w4(2), of j] by (cases "j < 5") auto
        then show ?thesis
          using that[of w4] w1(1) w2(1) w3(1) w4 c1 c2 c3 vec_frame_trans[OF f3 w4(3)]
          by (simp add: cascade_all_def)
      qed
    qed
  qed
qed

section \<open>One tick\<close>

text \<open>The state in which the callbacks of a tick start to run.\<close>

definition tick_state :: "itimer_core \<Rightarrow> itimer_core" where
  "tick_state w = (let index = unat (timer_jiffies w) mod 256 in
     w\<lparr>timer_jiffies := timer_jiffies w + 1, queued := vec w 0 index,
       vec := (vec w)(0 := (vec w 0)(index := []))\<rparr>)"

lemma tick_state_vec:
  "p \<in> set (vec (tick_state w) k i) \<longleftrightarrow>
     p \<in> set (vec w k i) \<and> \<not> (k = 0 \<and> i = unat (timer_jiffies w) mod 256)"
  by (auto simp: tick_state_def Let_def)

lemma tick_state_simps [simp]:
  "timer_jiffies (tick_state w) = timer_jiffies w + 1" "self (tick_state w) = self w"
  "nodemem (tick_state w) = nodemem w"
  "queued (tick_state w) = vec w 0 (unat (timer_jiffies w) mod 256)"
  by (simp_all add: tick_state_def Let_def)

lemma tick_state_members:
  assumes "links_ok w"
  shows "members (tick_state w) = members w - set (queued (tick_state w))"
  using assms unfolding members_def links_ok_def by (auto simp: tick_state_vec; blast)

lemma tick_state_inv:
  assumes inv: "wheel_inv w" and set: "\<forall>j. level_settled w j"
  shows "wheel_inv (tick_state w)"
    and "p \<in> members (tick_state w) \<Longrightarrow> wait (tick_state w) p = wait w p - 1 \<and> 0 < wait w p"
    and "p \<in> set (queued (tick_state w)) \<Longrightarrow> p \<in> members w \<and> wait w p = 0"
proof -
  let ?J = "timer_jiffies w" and ?w = "tick_state w"
  have l: "links_ok w" using inv by (simp add: wheel_inv_def)
  have "distinct (vec ?w k i)" for k i
    using l by (simp add: links_ok_def tick_state_def Let_def)
  then have "links_ok ?w"
    using l tick_state_members[OF l] unfolding links_ok_def
    by (auto simp: tick_state_vec node_ok_def members_I)
  have adv: "slot_ok (?J + 1) (expires_of w r) k i \<and> gap (?J + 1) (expires_of w r) = gap ?J (expires_of w r) - 1 \<and>
      0 < gap ?J (expires_of w r)" if "r \<in> set (vec ?w k i)" for r k i
    using slot_ok_advance[of ?J "expires_of w r" k i] that inv set
    by (auto simp: tick_state_vec wheel_inv_def level_settled_def)
  show "wheel_inv ?w"
    using \<open>links_ok ?w\<close> adv by (auto simp: wheel_inv_def)
  show "wait ?w p = wait w p - 1 \<and> 0 < wait w p" if p: "p \<in> members ?w"
  proof -
    obtain k i where ki: "p \<in> set (vec ?w k i)" using p by (auto simp: members_def)
    have "p \<notin> set (queued ?w)" using p tick_state_members[OF l] by simp
    moreover have "gap ?J (expires_of w p) = 1" if "p \<in> set (vec ?w 0 (unat (?J + 1) mod 256))"
    proof -
      have "unat (?J + 1) mod 256 = (unat ?J + 1) mod 256"
        using expires_mod[of "?J + 1" ?J] by simp
      moreover have "slot_ok ?J (expires_of w p) 0 (unat (?J + 1) mod 256)"
        using that inv by (auto simp: tick_state_vec wheel_inv_def)
      ultimately have "gap ?J (expires_of w p) < 256" "unat (expires_of w p) mod 256 = (unat ?J + 1) mod 256"
        using that by (auto simp: slot_ok_def tick_state_vec)
      then show ?thesis
        using mod256_gap[of "unat ?J" "gap ?J (expires_of w p)" 1] expires_mod[of "expires_of w p" ?J] by simp
    qed
    ultimately show ?thesis
      using adv[OF ki] by (auto simp: wait_def)
  qed
  show "p \<in> members w \<and> wait w p = 0" if "p \<in> set (queued ?w)"
    using that by (simp add: wait_def members_I)
qed

lemma tick_start:
  assumes inv: "wheel_inv w"
  obtains w1 where "itimer_tick call w u = run_queued call (tick_state w1) u" "wheel_inv w1"
    "vec_frame w w1" "\<forall>j. level_settled w1 j"
proof -
  have m: "unat (timer_jiffies v AND ITVR_MASK) = unat (timer_jiffies v) mod 256" for v
    using unat_and_mask[of "timer_jiffies v" 8] by (simp add: wheel_consts)
  show ?thesis
  proof (cases "unat (timer_jiffies w) mod 256 = 0")
    case True
    obtain w1 where w1: "cascade_all w = Some w1" "wheel_inv w1" "vec_frame w w1" "\<forall>j. level_settled w1 j"
      using cascade_all_ok[OF inv True] by blast
    then show ?thesis
      using that[of w1] True by (simp add: itimer_tick_def tick_state_def Let_def m vec_frame_def)
  next
    case False
    then have "unat (timer_jiffies w) mod 2 ^ shift 1 \<noteq> 0" by (simp add: shift_def)
    then have "level_settled w j" for j
      using levels_settled_off[OF inv, of 1 j] level_settled_off[OF inv, of 0] by (cases j) auto
    then show ?thesis
      using that[of w] False inv by (simp add: itimer_tick_def tick_state_def Let_def m)
  qed
qed

section \<open>Running the callbacks\<close>

text \<open>
  What the loop relies on in general.  \<open>R\<close> is the client's own invariant; it may speak of the linked nodes, the
  node memory and the client's state, but not of the places of the nodes.  Serving the queued node \<open>p\<close> keeps both
  invariants, does not touch the clock, and queues nothing (it may unlink nodes that are still queued).
\<close>

definition linked_nodes :: "itimer_core \<Rightarrow> addr set" where
  "linked_nodes w = members w \<union> set (queued w)"

definition fn_ok :: "(itimer_core \<Rightarrow> 'u \<Rightarrow> bool) \<Rightarrow> 'u itimer_fn \<Rightarrow> bool" where
  "fn_ok R call \<longleftrightarrow>
     (\<forall>w w' u. R w u \<longrightarrow> linked_nodes w' = linked_nodes w \<longrightarrow> nodemem w' = nodemem w \<longrightarrow> self w' = self w \<longrightarrow> R w' u) \<and>
     (\<forall>w u p nd w1. wheel_inv w \<longrightarrow> R w u \<longrightarrow> p \<in> set (queued w) \<longrightarrow> nodemem w p = Some nd \<longrightarrow>
        set_core p NULL (ilist_unlink p w) = Some w1 \<longrightarrow>
        (\<exists>w' u'. (if callback nd \<noteq> NULL then call (callback nd) (data nd) (w1, u) else Some (w1, u)) = Some (w', u') \<and>
           wheel_inv w' \<and> R w' u' \<and> self w' = self w \<and> timer_jiffies w' = timer_jiffies w \<and>
           length (queued w') < length (queued w)))"

lemma fn_okD:
  assumes "fn_ok R call" and "wheel_inv w" and "R w u" and "p \<in> set (queued w)" and "nodemem w p = Some nd"
    and "set_core p NULL (ilist_unlink p w) = Some w1"
  shows "\<exists>w' u'. (if callback nd \<noteq> NULL then call (callback nd) (data nd) (w1, u) else Some (w1, u)) = Some (w', u') \<and>
           wheel_inv w' \<and> R w' u' \<and> self w' = self w \<and> timer_jiffies w' = timer_jiffies w \<and>
           length (queued w') < length (queued w)"
  using assms unfolding fn_ok_def by blast

lemma fn_ok_stable:
  assumes "fn_ok R call" and "R w u" and "linked_nodes w' = linked_nodes w" and "nodemem w' = nodemem w"
    and "self w' = self w"
  shows "R w' u"
  using assms unfolding fn_ok_def by blast

lemma queued_unlink:
  assumes inv: "wheel_inv w" and q: "queued w = p # ps"
  obtains nd w1 where "nodemem w p = Some nd" "set_core p NULL (ilist_unlink p w) = Some w1"
    "wheel_inv w1" "self w1 = self w" "timer_jiffies w1 = timer_jiffies w" "queued w1 = ps"
    "vec w1 = vec w" "members w1 = members w" "\<And>r. r \<noteq> p \<Longrightarrow> nodemem w1 r = nodemem w r"
proof -
  obtain nd where nd: "nodemem w p = Some nd"
    using wheel_inv_node[OF inv, of p] q by (auto simp: node_ok_def)
  let ?w = "(ilist_unlink p w)\<lparr>nodemem := (nodemem w)(p \<mapsto> nd\<lparr>core := NULL\<rparr>)\<rparr>"
  have np: "p \<notin> members w" using inv q by (auto simp: wheel_inv_def links_ok_def)
  then have "vec ?w = vec w"
    by (auto simp: fun_eq_iff members_def remove1_idem)
  moreover have "wheel_inv ?w" "members ?w = members w"
    using unlink_inv[OF inv, of p "(nodemem w)(p \<mapsto> nd\<lparr>core := NULL\<rparr>)"] np by auto
  ultimately show ?thesis
    using that[of nd ?w] nd q by simp
qed

lemma run_queued_total:
  assumes call: "fn_ok R call"
  shows "wheel_inv w \<Longrightarrow> R w u \<Longrightarrow> \<exists>w' u'. run_queued call w u = Some (w', u') \<and> wheel_inv w' \<and> R w' u' \<and>
           queued w' = [] \<and> self w' = self w \<and> timer_jiffies w' = timer_jiffies w"
proof (induction "length (queued w)" arbitrary: w u rule: less_induct)
  case less
  show ?case
  proof (cases "queued w")
    case Nil
    then show ?thesis using less.prems by (subst run_queued.simps) simp
  next
    case (Cons p ps)
    obtain nd w1 where w1: "nodemem w p = Some nd" "set_core p NULL (ilist_unlink p w) = Some w1"
      using queued_unlink[OF less.prems(1) Cons] by blast
    obtain w2 u2 where w2: "(if callback nd \<noteq> NULL then call (callback nd) (data nd) (w1, u) else Some (w1, u)) = Some (w2, u2)"
        "wheel_inv w2" "R w2 u2" "self w2 = self w" "timer_jiffies w2 = timer_jiffies w"
        "length (queued w2) < length (queued w)"
      using fn_okD[OF call less.prems _ w1] Cons by auto
    have "run_queued call w u = run_queued call w2 u2"
      using Cons w1(1,2) w2(1) by (subst run_queued.simps) (simp del: set_core_simps)
    then show ?thesis
      using less.hyps[OF w2(6,2,3)] w2(4,5) by auto
  qed
qed

lemma itimer_tick_total:
  assumes call: "fn_ok R call" and inv: "wheel_inv w" and R: "R w u" and q: "queued w = []"
  shows "\<exists>w' u'. itimer_tick call w u = Some (w', u') \<and> wheel_inv w' \<and> R w' u' \<and> queued w' = [] \<and>
           self w' = self w \<and> timer_jiffies w' = timer_jiffies w + 1"
proof -
  obtain w1 where w1: "itimer_tick call w u = run_queued call (tick_state w1) u" "wheel_inv w1"
      "vec_frame w w1" "\<forall>j. level_settled w1 j"
    using tick_start[OF inv, of call u] by blast
  have l1: "links_ok w1" using w1(2) by (simp add: wheel_inv_def)
  have "set (queued (tick_state w1)) \<subseteq> members w1" using tick_state_inv(3)[OF w1(2,4)] by blast
  then have "linked_nodes (tick_state w1) = linked_nodes w"
    using w1(3) q tick_state_members[OF l1] by (auto simp: linked_nodes_def vec_frame_def)
  then have "R (tick_state w1) u"
    using fn_ok_stable[OF call R] w1(3) by (simp add: vec_frame_def)
  then show ?thesis
    using run_queued_total[OF call tick_state_inv(1)[OF w1(2,4)], of u] w1(1,3) by (auto simp: vec_frame_def)
qed

lemma ticks_left: "0 \<le> sint (j - J) \<Longrightarrow> unat (j - J) = Suc n \<Longrightarrow> 0 \<le> sint (j - (J + 1)) \<and> unat (j - (J + 1)) = n"
  for j J :: u32
proof -
  assume a: "0 \<le> sint (j - J)" "unat (j - J) = Suc n"
  have "j \<noteq> J" using a(2) by auto
  then have "unat (j - (J + 1)) = n" using gap_Suc[of j J] a(2) by simp
  moreover have "\<not> 2 ^ 31 \<le> unat (j - J)" using a(1) sint_neg_iff[of "j - J"] by linarith
  ultimately show ?thesis
    using a(2) sint_neg_iff[of "j - (J + 1)"] by linarith
qed

lemma update_stop: "\<not> 0 \<le> sint (j - timer_jiffies w) \<Longrightarrow> itimer_internal_update call j w u = Some (w, u)"
  by (subst itimer_internal_update.simps) simp

lemma last_tick: "\<not> 0 \<le> sint (j - (j + 1) :: u32)"
  by simp

lemma itimer_update_total:
  assumes call: "fn_ok R call"
  shows "wheel_inv w \<Longrightarrow> R w u \<Longrightarrow> queued w = [] \<Longrightarrow> 0 \<le> sint (j - timer_jiffies w) \<Longrightarrow>
    \<exists>w' u'. itimer_internal_update call j w u = Some (w', u') \<and> wheel_inv w' \<and> R w' u' \<and> queued w' = [] \<and>
      self w' = self w \<and> timer_jiffies w' = j + 1"
proof (induction "unat (j - timer_jiffies w)" arbitrary: w u)
  case 0
  then have j: "j = timer_jiffies w" by (simp add: unat_eq_zero)
  obtain w1 u1 where w1: "itimer_tick call w u = Some (w1, u1)" "wheel_inv w1" "R w1 u1" "queued w1 = []"
      "self w1 = self w" "timer_jiffies w1 = timer_jiffies w + 1"
    using itimer_tick_total[OF call 0(2-4)] by blast
  then have "itimer_internal_update call j w u = Some (w1, u1)"
    using j update_stop[of j w1 call u1] by (subst itimer_internal_update.simps) simp
  then show ?case using w1 j by simp
next
  case (Suc n)
  obtain w1 u1 where w1: "itimer_tick call w u = Some (w1, u1)" "wheel_inv w1" "R w1 u1" "queued w1 = []"
      "self w1 = self w" "timer_jiffies w1 = timer_jiffies w + 1"
    using itimer_tick_total[OF call Suc(3-5)] by blast
  have step: "itimer_internal_update call j w u = itimer_internal_update call j w1 u1"
    using w1(1) Suc(6) by (subst itimer_internal_update.simps) simp
  then show ?case
    using Suc(1)[of w1 u1] w1 ticks_left[OF Suc(6) Suc(2)[symmetric]] by simp
qed

text \<open>A client that only records the calls, with the tick that is being run.\<close>

definition log_fire :: "(u32 \<times> addr \<times> addr) list itimer_fn" where
  "log_fire f d = (\<lambda>(w, u). Some (w, u @ [(timer_jiffies w - 1, f, d)]))"

definition fires :: "(addr \<rightharpoonup> itimer_node) \<Rightarrow> (addr \<Rightarrow> u32) \<Rightarrow> addr list \<Rightarrow> (u32 \<times> addr \<times> addr) list" where
  "fires m t ps = map (\<lambda>p. (t p, callback (the (m p)), data (the (m p))))
     (filter (\<lambda>p. callback (the (m p)) \<noteq> NULL) ps)"

lemma fires_cong:
  "(\<And>p. p \<in> set ps \<Longrightarrow> m p = m' p \<and> t p = t' p) \<Longrightarrow> fires m t ps = fires m' t' ps"
  by (induction ps) (auto simp: fires_def)

lemma fires_append: "fires m t (ps @ qs) = fires m t ps @ fires m t qs"
  by (simp add: fires_def)

lemma run_queued_log:
  "wheel_inv w \<Longrightarrow>
   \<exists>w'. run_queued log_fire w u = Some (w', u @ fires (nodemem w) (\<lambda>_. timer_jiffies w - 1) (queued w)) \<and>
     wheel_inv w' \<and> queued w' = [] \<and> vec w' = vec w \<and> timer_jiffies w' = timer_jiffies w \<and> members w' = members w \<and>
     (\<forall>p. p \<notin> set (queued w) \<longrightarrow> nodemem w' p = nodemem w p)"
proof (induction "queued w" arbitrary: w u)
  case Nil
  then show ?case by (subst run_queued.simps) (auto simp: fires_def)
next
  case (Cons p ps)
  obtain nd w1 where w1: "nodemem w p = Some nd" "set_core p NULL (ilist_unlink p w) = Some w1"
      "wheel_inv w1" "self w1 = self w" "timer_jiffies w1 = timer_jiffies w" "queued w1 = ps"
      "vec w1 = vec w" "members w1 = members w" "\<And>r. r \<noteq> p \<Longrightarrow> nodemem w1 r = nodemem w r"
    using queued_unlink[OF Cons(3) Cons(2)[symmetric]] by blast
  let ?t = "\<lambda>_ :: addr. timer_jiffies w - 1"
  have step: "run_queued log_fire w u = run_queued log_fire w1 (u @ fires (nodemem w) ?t [p])"
    using Cons(2)[symmetric] w1(1,2,5)
    by (subst run_queued.simps) (simp add: log_fire_def fires_def del: set_core_simps)
  have "p \<notin> set ps"
    using Cons(2,3) by (metis distinct.simps(2) links_ok_def wheel_inv_def)
  then have same: "fires (nodemem w1) ?t ps = fires (nodemem w) ?t ps"
    using w1(9) by (intro fires_cong conjI refl) metis
  obtain w' where "run_queued log_fire w1 (u @ fires (nodemem w) ?t [p]) =
        Some (w', (u @ fires (nodemem w) ?t [p]) @ fires (nodemem w1) ?t ps)"
      "wheel_inv w'" "queued w' = []" "vec w' = vec w1" "timer_jiffies w' = timer_jiffies w1"
      "members w' = members w1" "\<forall>r. r \<notin> set ps \<longrightarrow> nodemem w' r = nodemem w1 r"
    using Cons(1)[of w1 "u @ fires (nodemem w) ?t [p]"] w1 by auto
  then show ?case
    using step w1 Cons(2)[symmetric] same by (intro exI[of _ w']) (auto simp: fires_def)
qed

lemma itimer_tick_log:
  assumes inv: "wheel_inv w" and q: "queued w = []"
  shows "\<exists>w' ps. itimer_tick log_fire w u = Some (w', u @ fires (nodemem w) (\<lambda>_. timer_jiffies w) ps) \<and>
     wheel_inv w' \<and> queued w' = [] \<and> timer_jiffies w' = timer_jiffies w + 1 \<and>
     distinct ps \<and> set ps = {p \<in> members w. wait w p = 0} \<and> members w' = {p \<in> members w. 0 < wait w p} \<and>
     (\<forall>p \<in> members w'. wait w' p = wait w p - 1 \<and> nodemem w' p = nodemem w p)"
proof -
  obtain w1 where w1: "itimer_tick log_fire w u = run_queued log_fire (tick_state w1) u" "wheel_inv w1"
      "vec_frame w w1" "\<forall>j. level_settled w1 j"
    using tick_start[OF inv, of log_fire u] by blast
  let ?t = "tick_state w1" and ?ps = "queued (tick_state w1)"
  have l1: "links_ok w1" using w1(2) by (simp add: wheel_inv_def)
  note t = tick_state_inv[OF w1(2,4)]
  have f: "timer_jiffies w1 = timer_jiffies w" "nodemem w1 = nodemem w" "members w1 = members w"
      "\<forall>p \<in> members w. wait w1 p = wait w p"
    using w1(3) by (auto simp: vec_frame_def)
  obtain w' where w': "run_queued log_fire ?t u = Some (w', u @ fires (nodemem w) (\<lambda>_. timer_jiffies w) ?ps)"
      "wheel_inv w'" "queued w' = []" "vec w' = vec ?t" "timer_jiffies w' = timer_jiffies w + 1"
      "members w' = members ?t" "\<forall>p. p \<notin> set ?ps \<longrightarrow> nodemem w' p = nodemem w p"
    using run_queued_log[OF t(1), of u] f(1,2) by auto
  have ps: "set ?ps = {p \<in> members w. wait w p = 0}" and mem: "members ?t = {p \<in> members w. 0 < wait w p}"
    using t(2,3) tick_state_members[OF l1] f(3,4) by force+
  moreover have "distinct ?ps" using t(1) by (simp add: wheel_inv_def links_ok_def)
  moreover have "wait w' p = wait w p - 1 \<and> nodemem w' p = nodemem w p" if "p \<in> members w'" for p
  proof -
    have "p \<notin> set ?ps" "nodemem w' p = nodemem w p"
      using that w'(6,7) mem ps by auto
    then have "wait w' p = wait ?t p"
      using w'(4,5) f(1,2) by (simp add: wait_def)
    then show ?thesis
      using t(2)[of p] that w'(6) f(4) mem \<open>nodemem w' p = _\<close> by simp
  qed
  ultimately show ?thesis
    using w1(1) w' by (intro exI[of _ w'] exI[of _ ?ps]) auto
qed

lemma itimer_update_log:
  "wheel_inv w \<Longrightarrow> queued w = [] \<Longrightarrow> 0 \<le> sint (j - timer_jiffies w) \<Longrightarrow> n = unat (j - timer_jiffies w) \<Longrightarrow>
   \<exists>w' ps. itimer_internal_update log_fire j w u =
        Some (w', u @ fires (nodemem w) (\<lambda>p. timer_jiffies w + of_nat (wait w p)) ps) \<and>
     wheel_inv w' \<and> queued w' = [] \<and> timer_jiffies w' = j + 1 \<and>
     distinct ps \<and> set ps = {p \<in> members w. wait w p \<le> n} \<and> sorted (map (wait w) ps) \<and>
     members w' = {p \<in> members w. n < wait w p} \<and> (\<forall>p \<in> members w'. wait w' p = wait w p - (n + 1))"
proof (induction n arbitrary: w u)
  case 0
  have j: "j = timer_jiffies w" using 0(4) by (simp add: unat_eq_zero eq_commute[of 0])
  obtain w1 ps where w1: "itimer_tick log_fire w u = Some (w1, u @ fires (nodemem w) (\<lambda>_. timer_jiffies w) ps)"
      "wheel_inv w1" "queued w1 = []" "timer_jiffies w1 = timer_jiffies w + 1" "distinct ps"
      "set ps = {p \<in> members w. wait w p = 0}" "members w1 = {p \<in> members w. 0 < wait w p}"
      "\<forall>p \<in> members w1. wait w1 p = wait w p - 1 \<and> nodemem w1 p = nodemem w p"
    using itimer_tick_log[OF 0(1,2), of u] by blast
  have same: "fires (nodemem w) (\<lambda>_. timer_jiffies w) ps = fires (nodemem w) (\<lambda>p. timer_jiffies w + of_nat (wait w p)) ps"
    using w1(6) by (intro fires_cong) auto
  have run: "itimer_internal_update log_fire j w u = Some (w1, u @ fires (nodemem w) (\<lambda>_. timer_jiffies w) ps)"
    using w1(1,4) j update_stop[of j w1 log_fire] by (subst itimer_internal_update.simps) simp
  have "sorted (map (wait w) ps)"
    using w1(6) by (intro sorted_map_const[where c = 0]) auto
  then show ?case
    using run w1 same j by (intro exI[of _ w1] exI[of _ ps]) auto
next
  case (Suc n)
  obtain w1 ps where w1: "itimer_tick log_fire w u = Some (w1, u @ fires (nodemem w) (\<lambda>_. timer_jiffies w) ps)"
      "wheel_inv w1" "queued w1 = []" "timer_jiffies w1 = timer_jiffies w + 1" "distinct ps"
      "set ps = {p \<in> members w. wait w p = 0}" "members w1 = {p \<in> members w. 0 < wait w p}"
      "\<forall>p \<in> members w1. wait w1 p = wait w p - 1 \<and> nodemem w1 p = nodemem w p"
    using itimer_tick_log[OF Suc(2,3), of u] by blast
  let ?u = "u @ fires (nodemem w) (\<lambda>_. timer_jiffies w) ps"
  have tl: "0 \<le> sint (j - timer_jiffies w1)" "n = unat (j - timer_jiffies w1)"
    using ticks_left[OF Suc(4) Suc(5)[symmetric]] w1(4) by auto
  obtain w' qs where ih: "itimer_internal_update log_fire j w1 ?u =
        Some (w', ?u @ fires (nodemem w1) (\<lambda>p. timer_jiffies w1 + of_nat (wait w1 p)) qs)"
      "wheel_inv w'" "queued w' = []" "timer_jiffies w' = j + 1" "distinct qs"
      "set qs = {p \<in> members w1. wait w1 p \<le> n}" "sorted (map (wait w1) qs)"
      "members w' = {p \<in> members w1. n < wait w1 p}" "\<forall>p \<in> members w'. wait w' p = wait w1 p - (n + 1)"
    using Suc(1)[OF w1(2,3) tl, of ?u] by blast
  have step: "itimer_internal_update log_fire j w u = itimer_internal_update log_fire j w1 ?u"
    using w1(1) Suc(4) by (subst itimer_internal_update.simps) simp
  have qs: "nodemem w1 p = nodemem w p" "wait w p = Suc (wait w1 p)" if "p \<in> members w1" for p
    using that w1(7,8) by auto
  have "fires (nodemem w1) (\<lambda>p. timer_jiffies w1 + of_nat (wait w1 p)) qs =
      fires (nodemem w) (\<lambda>p. timer_jiffies w + of_nat (wait w p)) qs"
    using ih(6) qs w1(4) by (intro fires_cong) (auto simp: add.assoc)
  moreover have "fires (nodemem w) (\<lambda>_. timer_jiffies w) ps = fires (nodemem w) (\<lambda>p. timer_jiffies w + of_nat (wait w p)) ps"
    using w1(6) by (intro fires_cong) auto
  ultimately have run: "itimer_internal_update log_fire j w u =
      Some (w', u @ fires (nodemem w) (\<lambda>p. timer_jiffies w + of_nat (wait w p)) (ps @ qs))"
    using step ih(1) by (simp add: fires_append)
  have "sorted (map (wait w) ps)"
    using w1(6) by (intro sorted_map_const[where c = 0]) auto
  moreover have "map (wait w) qs = map Suc (map (wait w1) qs)"
    using ih(6) qs(2) by simp
  then have "sorted (map (wait w) qs)"
    using ih(7) sorted_map_Suc by metis
  ultimately have "sorted (map (wait w) (ps @ qs))"
    using w1(6) by (auto simp: sorted_append)
  moreover have "distinct (ps @ qs)"
    using w1(5,6,7) ih(5,6) by auto
  moreover have iff: "p \<in> members w \<and> 0 < wait w p \<longleftrightarrow> p \<in> members w1" for p
    using w1(7) by auto
  have "set (ps @ qs) = {p \<in> members w. wait w p \<le> Suc n}"
    using w1(6) ih(6) qs(2) iff by force
  moreover have "members w' = {p \<in> members w. Suc n < wait w p}"
    using ih(8) qs(2) iff by force
  moreover have "\<forall>p \<in> members w'. wait w' p = wait w p - (Suc n + 1)"
    using ih(8,9) qs(2) by simp
  ultimately show ?case
    using run ih(2-4) by blast
qed

section \<open>Tear-down\<close>

lemma unlink_all_ok:
  "wheel_inv w \<Longrightarrow> set ps \<subseteq> members w \<Longrightarrow>
   \<exists>w'. foldM (\<lambda>p w. set_core p NULL (ilist_unlink p w)) ps w = Some w' \<and> wheel_inv w' \<and>
     (\<forall>k i. set (vec w' k i) = set (vec w k i) - set ps) \<and>
     (\<forall>p. nodemem w' p = (if p \<in> set ps then map_option (core_update (\<lambda>_. NULL)) (nodemem w p) else nodemem w p))"
  if "distinct ps" using that
proof (induction ps arbitrary: w)
  case Nil
  then show ?case by simp
next
  case (Cons p ps)
  obtain nd where nd: "nodemem w p = Some nd"
    using wheel_inv_node[OF Cons.prems(1), of p] Cons.prems(2) by (auto simp: node_ok_def)
  let ?w = "(ilist_unlink p w)\<lparr>nodemem := (nodemem w)(p \<mapsto> nd\<lparr>core := NULL\<rparr>)\<rparr>"
  have w: "wheel_inv ?w" "members ?w = members w - {p}" "set (vec ?w k i) = set (vec w k i) - {p}" for k i
    using unlink_inv[OF Cons.prems(1), of p "(nodemem w)(p \<mapsto> nd\<lparr>core := NULL\<rparr>)"] Cons.prems(1)
    by (auto simp: wheel_inv_def links_ok_def)
  have "set ps \<subseteq> members ?w"
    using w(2) Cons.prems by auto
  then obtain w' where "foldM (\<lambda>p w. set_core p NULL (ilist_unlink p w)) ps ?w = Some w'" "wheel_inv w'"
      "\<forall>k i. set (vec w' k i) = set (vec ?w k i) - set ps"
      "\<forall>r. nodemem w' r = (if r \<in> set ps then map_option (core_update (\<lambda>_. NULL)) (nodemem ?w r) else nodemem ?w r)"
    using Cons.IH[OF w(1)] Cons.prems(3) by auto
  then show ?case
    using nd w(3) Cons.prems(3) by (intro exI[of _ w']) (auto simp: set_core_def)
qed

lemma destroy_bucket_ok:
  assumes inv: "wheel_inv w"
  shows "\<exists>w'. destroy_bucket (k, i) w = Some w' \<and> wheel_inv w' \<and>
     (\<forall>j l. set (vec w' j l) = (if (j, l) = (k, i) then {} else set (vec w j l))) \<and>
     (\<forall>p. nodemem w' p = (if p \<in> set (vec w k i) then map_option (core_update (\<lambda>_. NULL)) (nodemem w p) else nodemem w p))"
proof -
  have l: "links_ok w" using inv by (simp add: wheel_inv_def)
  then have "set (vec w j l) - set (vec w k i) = (if (j, l) = (k, i) then {} else set (vec w j l))" for j l
    unfolding links_ok_def by auto
  moreover have "distinct (vec w k i)" "set (vec w k i) \<subseteq> members w"
    using l members_I by (auto simp: links_ok_def)
  ultimately show ?thesis
    using unlink_all_ok[of "vec w k i" w] inv by (simp add: destroy_bucket_def)
qed

lemma destroy_slots_ok:
  "wheel_inv w \<Longrightarrow>
   \<exists>w'. foldM destroy_bucket ss w = Some w' \<and> wheel_inv w' \<and>
     (\<forall>j l. set (vec w' j l) = (if (j, l) \<in> set ss then {} else set (vec w j l))) \<and>
     (\<forall>p. nodemem w' p = (if \<exists>(k, i) \<in> set ss. p \<in> set (vec w k i)
        then map_option (core_update (\<lambda>_. NULL)) (nodemem w p) else nodemem w p))"
proof (induction ss arbitrary: w)
  case Nil
  then show ?case by simp
next
  case (Cons s ss)
  obtain k i where s: "s = (k, i)" by (cases s)
  obtain w1 where w1: "destroy_bucket (k, i) w = Some w1" "wheel_inv w1"
      "\<forall>j l. set (vec w1 j l) = (if (j, l) = (k, i) then {} else set (vec w j l))"
      "\<forall>p. nodemem w1 p = (if p \<in> set (vec w k i) then map_option (core_update (\<lambda>_. NULL)) (nodemem w p) else nodemem w p)"
    using destroy_bucket_ok[OF Cons.prems] by blast
  obtain w' where w': "foldM destroy_bucket ss w1 = Some w'" "wheel_inv w'"
      "\<forall>j l. set (vec w' j l) = (if (j, l) \<in> set ss then {} else set (vec w1 j l))"
      "\<forall>p. nodemem w' p = (if \<exists>(k, i) \<in> set ss. p \<in> set (vec w1 k i)
        then map_option (core_update (\<lambda>_. NULL)) (nodemem w1 p) else nodemem w1 p)"
    using Cons.IH[OF w1(2)] by blast
  have idem: "map_option (core_update (\<lambda>_. NULL)) (map_option (core_update (\<lambda>_. NULL)) x) =
      map_option (core_update (\<lambda>_. NULL)) x" for x :: "itimer_node option"
    by (cases x) auto
  have "nodemem w' p = (if \<exists>(k, i) \<in> set (s # ss). p \<in> set (vec w k i)
        then map_option (core_update (\<lambda>_. NULL)) (nodemem w p) else nodemem w p)" for p
    using w'(4) w1(3,4) s by (auto simp: idem split: if_splits)
  then show ?case
    using w1 w' s by (intro exI[of _ w']) auto
qed

section \<open>Properties\<close>

lemma itimer_core_init_inv:
  assumes "self w \<noteq> NULL" and "queued w = []"
  shows "wheel_inv (itimer_core_init J w)" and "members (itimer_core_init J w) = {}"
    and "queued (itimer_core_init J w) = []"
  using assms by (auto simp: itimer_core_init_def wheel_inv_def links_ok_def members_def)

lemma itimer_node_add_wait:
  assumes inv: "wheel_inv w" and nd: "nodemem w p = Some nd" "state nd = ITIMER_NODE_STATE_OK"
    and run: "itimer_node_add p ex w = Some w'"
  shows "wait w' p = (if sint (ex - timer_jiffies w) < 0 then 0 else gap (timer_jiffies w) ex)"
proof -
  let ?J = "timer_jiffies w"
  obtain k i where s: "itimer_slot ?J ex = (k, i)" by (cases "itimer_slot ?J ex")
  have w': "wheel_inv w'" "nodemem w' p = Some (nd\<lparr>expires := ex, core := self w\<rparr>)" "p \<in> set (vec w' k i)"
      "timer_jiffies w' = ?J"
    using itimer_node_add_ok[OF inv nd, of ex] run s by (auto simp: node_frame_def)
  then have "p \<in> set (vec w' 0 (unat ?J mod 256)) \<longleftrightarrow> (k, i) = (0, unat ?J mod 256)"
    by (auto simp: wheel_inv_def links_ok_def)
  moreover have "(k, i) = (0, unat ?J mod 256) \<longleftrightarrow> gap ?J ex = 0 \<or> 2 ^ 31 \<le> gap ?J ex"
  proof
    assume "(k, i) = (0, unat ?J mod 256)"
    then have "2 ^ 31 \<le> gap ?J ex \<or> gap ?J ex < 256 \<and> unat ex mod 256 = unat ?J mod 256"
      using s unfolding itimer_slot_arith by (auto split: if_splits)
    then show "gap ?J ex = 0 \<or> 2 ^ 31 \<le> gap ?J ex"
      using mod256_gap[of "unat ?J" "gap ?J ex" 0] expires_mod[of ex ?J] by auto
  next
    assume "gap ?J ex = 0 \<or> 2 ^ 31 \<le> gap ?J ex"
    then show "(k, i) = (0, unat ?J mod 256)"
      using s expires_mod[of ex ?J] unfolding itimer_slot_arith by (auto split: if_splits)
  qed
  ultimately show ?thesis
    using w'(2,4) by (auto simp: wait_def sint_neg_iff)
qed

text \<open>A concrete wheel: started at tick 250, with a node that is 300 ticks away.\<close>

definition sample_wheel :: itimer_core where
  "sample_wheel = itimer_core_init 250 \<lparr>self = 4096, timer_jiffies = 0, vec = (\<lambda>k i. []), queued = [],
     nodemem = [8 \<mapsto> \<lparr>expires = 0, state = ITIMER_NODE_STATE_OK, data = 80, callback = 1, core = NULL\<rparr>]\<rparr>"

definition sample_running :: itimer_core where
  "sample_running = the (itimer_node_add 8 550 sample_wheel)"

lemma sample_wheel_ok: "wheel_inv sample_wheel" "queued sample_wheel = []" "timer_jiffies sample_wheel = 250"
  "nodemem sample_wheel 8 =
     Some \<lparr>expires = 0, state = ITIMER_NODE_STATE_OK, data = 80, callback = 1, core = NULL\<rparr>"
proof -
  show "wheel_inv sample_wheel"
    unfolding sample_wheel_def by (rule itimer_core_init_inv) simp_all
qed (simp_all add: sample_wheel_def itimer_core_init_def)

lemma sample_running_ok: "wheel_inv sample_running" "queued sample_running = []" "timer_jiffies sample_running = 250"
  using itimer_node_add_ok[OF sample_wheel_ok(1,4), of 550] sample_wheel_ok(2,3)
  by (auto simp: sample_running_def node_frame_def)

text \<open>C1: \<open>itimer_core_run\<close> on a well-formed wheel ends, and it calls back exactly the linked nodes whose waiting
  time has run out by the tick \<open>j\<close>, each once, each on its own tick and in the order of the ticks; the
  other nodes stay linked and wait correspondingly less, whatever the vectors they are in and however the
  tick counter wraps.  The callback is one that logs its call and leaves the wheel alone; callbacks that change
  the wheel are the subject of \<open>itimer_core_run_terminates\<close>.\<close>

theorem itimer_core_run_fires_on_time:
  assumes "wheel_inv w" and "queued w = []" and "0 \<le> sint (j - timer_jiffies w)"
  shows "\<exists>w' ps. itimer_core_run log_fire j w u =
        Some (w', u @ fires (nodemem w) (\<lambda>p. timer_jiffies w + of_nat (wait w p)) ps) \<and>
     distinct ps \<and> set ps = {p \<in> members w. wait w p \<le> unat (j - timer_jiffies w)} \<and> sorted (map (wait w) ps) \<and>
     wheel_inv w' \<and> queued w' = [] \<and> timer_jiffies w' = j + 1 \<and>
     members w' = {p \<in> members w. unat (j - timer_jiffies w) < wait w p} \<and>
     (\<forall>p \<in> members w'. wait w' p = wait w p - (unat (j - timer_jiffies w) + 1))"
  using itimer_update_log[OF assms refl, of u] unfolding itimer_core_run_def by blast

theorem itimer_core_run_fires_on_time_witness:
  "\<exists>w' ps. itimer_core_run log_fire 600 sample_running [] =
        Some (w', [] @ fires (nodemem sample_running) (\<lambda>p. timer_jiffies sample_running + of_nat (wait sample_running p)) ps) \<and>
     distinct ps \<and> set ps = {p \<in> members sample_running. wait sample_running p \<le> unat (600 - timer_jiffies sample_running)} \<and>
     sorted (map (wait sample_running) ps) \<and> wheel_inv w' \<and> queued w' = [] \<and> timer_jiffies w' = 600 + 1 \<and>
     members w' = {p \<in> members sample_running. unat (600 - timer_jiffies sample_running) < wait sample_running p} \<and>
     (\<forall>p \<in> members w'. wait w' p = wait sample_running p - (unat (600 - timer_jiffies sample_running) + 1))"
  by (rule itimer_core_run_fires_on_time[OF sample_running_ok(1,2)]) (simp add: sample_running_ok)

text \<open>C7: \<open>itimer_node_add\<close> on an initialised node (linked or not) links it once, moves no other node, keeps
  the wheel well formed, and the node then waits for exactly the ticks until its expiry, or not at all when
  the expiry is already past in the signed 32-bit comparison.\<close>

theorem itimer_node_add_schedules:
  assumes "wheel_inv w" and "nodemem w p = Some nd" and "state nd = ITIMER_NODE_STATE_OK"
  shows "\<exists>w'. itimer_node_add p ex w = Some w' \<and> wheel_inv w' \<and> members w' = insert p (members w) \<and>
     wait w' p = (if sint (ex - timer_jiffies w) < 0 then 0 else unat (ex - timer_jiffies w)) \<and>
     nodemem w' p = Some (nd\<lparr>expires := ex, core := self w\<rparr>) \<and> node_frame p w w'"
  using itimer_node_add_ok[OF assms, of ex] itimer_node_add_wait[OF assms, of ex] by blast

theorem itimer_node_add_schedules_witness:
  "\<exists>w'. itimer_node_add 8 550 sample_wheel = Some w' \<and> wheel_inv w' \<and> members w' = insert 8 (members sample_wheel) \<and>
     wait w' 8 = (if sint (550 - timer_jiffies sample_wheel) < 0 then 0 else unat (550 - timer_jiffies sample_wheel)) \<and>
     nodemem w' 8 = Some (\<lparr>expires = 0, state = ITIMER_NODE_STATE_OK, data = 80, callback = 1, core = NULL\<rparr>
        \<lparr>expires := 550, core := self sample_wheel\<rparr>) \<and> node_frame 8 sample_wheel w'"
  by (rule itimer_node_add_schedules[OF sample_wheel_ok(1,4)]) simp

text \<open>C21: \<open>itimer_node_del\<close> unlinks the node from wherever it is, also from the queue of the tick that is being
  run, moves no other node, and its result says whether the node was pending.\<close>

theorem itimer_node_del_unlinks:
  assumes "wheel_inv w" and "nodemem w p = Some nd" and "state nd = ITIMER_NODE_STATE_OK"
  shows "\<exists>w' ret. itimer_node_del p w = Some (ret, w') \<and> wheel_inv w' \<and> members w' = members w - {p} \<and>
     p \<notin> set (queued w') \<and> node_frame p w w' \<and> ret = (if p \<in> members w \<union> set (queued w) then 1 else 0)"
proof -
  have "distinct (queued w)" using assms(1) by (simp add: wheel_inv_def links_ok_def)
  then show ?thesis
    using itimer_node_del_ok[OF assms] by (auto simp: node_frame_def)
qed

theorem itimer_node_del_unlinks_witness:
  "\<exists>w' ret. itimer_node_del 8 sample_wheel = Some (ret, w') \<and> wheel_inv w' \<and> members w' = members sample_wheel - {8} \<and>
     8 \<notin> set (queued w') \<and> node_frame 8 sample_wheel w' \<and>
     ret = (if 8 \<in> members sample_wheel \<union> set (queued sample_wheel) then 1 else 0)"
  by (rule itimer_node_del_unlinks[OF sample_wheel_ok(1,4)]) simp

text \<open>C19: \<open>itimer_core_run\<close> ends for every client that keeps the wheel and its own invariant \<open>R\<close>, leaves the
  clock alone and queues nothing: it runs all the ticks up to \<open>j\<close> and leaves a well-formed wheel.\<close>

theorem itimer_core_run_terminates:
  assumes "fn_ok R call" and "wheel_inv w" and "R w u" and "queued w = []" and "0 \<le> sint (j - timer_jiffies w)"
  shows "\<exists>w' u'. itimer_core_run call j w u = Some (w', u') \<and> wheel_inv w' \<and> R w' u' \<and> queued w' = [] \<and>
     self w' = self w \<and> timer_jiffies w' = j + 1"
  using itimer_update_total[OF assms] unfolding itimer_core_run_def .

text \<open>A periodic client: the callback starts the node that is its argument again, some ticks later.\<close>

definition restart :: "u32 \<Rightarrow> nat itimer_fn" where
  "restart delay f d = (\<lambda>(w, u).
     case nodemem w d of
       None \<Rightarrow> Some (w, u)
     | Some nd \<Rightarrow>
         if state nd = ITIMER_NODE_STATE_OK
         then map_option (\<lambda>w. (w, Suc u)) (itimer_node_add d (timer_jiffies w + delay) w) else Some (w, u))"

lemma restart_runs:
  assumes "wheel_inv w"
  shows "\<exists>w' u'. restart delay f d (w, u) = Some (w', u') \<and> wheel_inv w' \<and> self w' = self w \<and>
        timer_jiffies w' = timer_jiffies w \<and> length (queued w') \<le> length (queued w)"
  using assms itimer_node_add_ok[OF assms, of d _ "timer_jiffies w + delay"]
  by (cases "nodemem w d") (auto simp: restart_def node_frame_def length_remove1)

lemma queued_unlink_any:
  assumes inv: "wheel_inv w" and p: "p \<in> set (queued w)" and run: "set_core p NULL (ilist_unlink p w) = Some w1"
  shows "wheel_inv w1" "self w1 = self w" "timer_jiffies w1 = timer_jiffies w" "queued w1 = remove1 p (queued w)"
    "members w1 = members w" "length (queued w1) < length (queued w)"
    "\<And>r. r \<noteq> p \<Longrightarrow> nodemem w1 r = nodemem w r"
    "nodemem w p = Some nd \<Longrightarrow> nodemem w1 p = Some (nd\<lparr>core := NULL\<rparr>)"
proof -
  have "p \<notin> members w" using inv p by (auto simp: wheel_inv_def links_ok_def)
  moreover have "0 < length (queued w)" using p by (cases "queued w") auto
  ultimately show "wheel_inv w1" "self w1 = self w" "timer_jiffies w1 = timer_jiffies w"
      "queued w1 = remove1 p (queued w)" "members w1 = members w" "length (queued w1) < length (queued w)"
      "\<And>r. r \<noteq> p \<Longrightarrow> nodemem w1 r = nodemem w r"
      "nodemem w p = Some nd \<Longrightarrow> nodemem w1 p = Some (nd\<lparr>core := NULL\<rparr>)"
    using run p unlink_inv[OF inv, of p] by (auto simp: length_remove1)
qed

lemma restart_ok: "fn_ok (\<lambda>w u. True) (restart delay)"
  unfolding fn_ok_def
proof (intro conjI allI impI)
  fix w u p nd w1
  assume "wheel_inv w" "p \<in> set (queued w)" "set_core p NULL (ilist_unlink p w) = Some w1"
  note w1 = queued_unlink_any[OF this]
  show "\<exists>w' u'. (if callback nd \<noteq> NULL then restart delay (callback nd) (data nd) (w1, u) else Some (w1, u)) = Some (w', u') \<and>
      wheel_inv w' \<and> True \<and> self w' = self w \<and> timer_jiffies w' = timer_jiffies w \<and> length (queued w') < length (queued w)"
    using restart_runs[OF w1(1), of delay "callback nd" "data nd" u] w1
    by (cases "callback nd = NULL") (auto intro: le_less_trans)
qed simp

theorem itimer_core_run_terminates_witness:
  "\<exists>w' u'. itimer_core_run (restart 10) 600 sample_running 0 = Some (w', u') \<and> wheel_inv w' \<and> True \<and> queued w' = [] \<and>
     self w' = self sample_running \<and> timer_jiffies w' = 600 + 1"
  by (rule itimer_core_run_terminates[OF restart_ok sample_running_ok(1) _ sample_running_ok(2)])
     (simp_all add: sample_running_ok)

text \<open>\<open>itimer_core_destroy\<close> on a well-formed wheel unlinks every node of every vector and clears its core
  pointer, and touches no other node.\<close>

theorem itimer_core_destroy_unlinks_all:
  assumes "wheel_inv w"
  shows "\<exists>w'. itimer_core_destroy w = Some w' \<and> wheel_inv w' \<and> members w' = {} \<and>
     (\<forall>p. nodemem w' p = (if p \<in> members w then map_option (core_update (\<lambda>_. NULL)) (nodemem w p) else nodemem w p))"
proof -
  have "(k, i) \<in> set slots" if "p \<in> set (vec w k i)" for p k i
    using assms that slot_ok_range unfolding wheel_inv_def by blast
  then have "(\<exists>(k, i) \<in> set slots. p \<in> set (vec w k i)) \<longleftrightarrow> p \<in> members w"
    and "(k, i) \<notin> set slots \<longrightarrow> p \<notin> set (vec w k i)" for p k i
    by (auto simp: members_def)
  then show ?thesis
    using destroy_slots_ok[OF assms, of slots] unfolding itimer_core_destroy_def
    by (auto simp: members_def)
qed

theorem itimer_core_destroy_unlinks_all_witness:
  "\<exists>w'. itimer_core_destroy sample_running = Some w' \<and> wheel_inv w' \<and> members w' = {} \<and>
     (\<forall>p. nodemem w' p = (if p \<in> members sample_running
        then map_option (core_update (\<lambda>_. NULL)) (nodemem sample_running p) else nodemem sample_running p))"
  by (rule itimer_core_destroy_unlinks_all[OF sample_running_ok(1)])

end
