(* ===== verification/ITimerMgr.thy ===== *)
theory ITimerMgr
  imports ITimer
begin

text \<open>
  The manager and the periodic events of \<open>itimer.c\<close>, on top of the wheel.  An event embeds its wheel node, so an
  event and its node have the same address here, and the node's \<open>data\<close> is the event.  The manager drives the
  wheel one tick per interval; \<open>itimer_evt_cb\<close> is the callback of every event node: it counts the periods that
  have passed, starts the node again or stops the event, and calls the user's function once per period.  The
  user's functions are a parameter; they may start and stop events.
\<close>

section \<open>Data\<close>

record itimer_evt =
  period :: u32
  slap :: u32
  repeat :: int
  running :: int
  ecallback :: addr
  edata :: addr
  euser :: addr
  emgr :: addr

record itimer_mgr =
  mself :: addr
  interval :: u32
  current :: u32
  millisec :: u32
  jiffies :: u32
  mcore :: itimer_core
  evts :: "addr \<rightharpoonup> itimer_evt"

text \<open>The address of the function \<open>itimer_evt_cb\<close>.\<close>

definition EVT_CB :: addr where "EVT_CB = 0xEC"

definition ITIMER_MGR_LIMIT :: int where "ITIMER_MGR_LIMIT = 300000"

section \<open>Operations\<close>

definition itimer_mgr_init :: "u32 \<Rightarrow> u32 \<Rightarrow> itimer_mgr \<Rightarrow> itimer_mgr" where
  "itimer_mgr_init ms iv mg =
     mg\<lparr>current := ms, interval := (if iv < 1 then 1 else iv), jiffies := 0, millisec := 0,
        mcore := itimer_core_init 0 (mcore mg)\<rparr>"

definition itimer_mgr_destroy :: "itimer_mgr \<Rightarrow> itimer_mgr option" where
  "itimer_mgr_destroy mg = map_option (\<lambda>w. mg\<lparr>mcore := w\<rparr>) (itimer_core_destroy (mcore mg))"

definition upd_evt :: "addr \<Rightarrow> (itimer_evt \<Rightarrow> itimer_evt) \<Rightarrow> itimer_mgr \<Rightarrow> itimer_mgr option" where
  "upd_evt e f mg = map_option (\<lambda>ev. mg\<lparr>evts := (evts mg)(e \<mapsto> f ev)\<rparr>) (evts mg e)"

definition itimer_evt_init :: "addr \<Rightarrow> addr \<Rightarrow> addr \<Rightarrow> addr \<Rightarrow> itimer_mgr \<Rightarrow> itimer_mgr option" where
  "itimer_evt_init e fn dat usr mg = do {
     w \<leftarrow> itimer_node_init e EVT_CB e (mcore mg);
     Some (mg\<lparr>mcore := w, evts := (evts mg)(e \<mapsto>
       \<lparr>period = 0, slap = 0, repeat = 0, running = 0, ecallback = fn, edata = dat, euser = usr, emgr = NULL\<rparr>)\<rparr>) }"

definition itimer_evt_destroy :: "addr \<Rightarrow> itimer_mgr \<Rightarrow> itimer_mgr option" where
  "itimer_evt_destroy e mg = do {
     w \<leftarrow> itimer_node_destroy e (mcore mg);
     Some (mg\<lparr>mcore := w, evts := (evts mg)(e \<mapsto>
       \<lparr>period = 0, slap = 0, repeat = 0, running = 0, ecallback = NULL, edata = NULL, euser = NULL, emgr = NULL\<rparr>)\<rparr>) }"

definition itimer_evt_stop :: "addr \<Rightarrow> itimer_mgr \<Rightarrow> itimer_mgr option" where
  "itimer_evt_stop e mg = do {
     ev \<leftarrow> evts mg e;
     mg \<leftarrow> (if emgr ev \<noteq> NULL
           then do {
             (_, w) \<leftarrow> itimer_node_del e (mcore mg);
             upd_evt e (emgr_update (\<lambda>_. NULL)) (mg\<lparr>mcore := w\<rparr>) }
           else Some mg);
     upd_evt e (running_update (\<lambda>_. 0)) mg }"

text \<open>The number of ticks until the next slap, bounded so that it never looks like a past expiry.\<close>

definition evt_ticks :: "u32 \<Rightarrow> u32 \<Rightarrow> u32 \<Rightarrow> u32" where
  "evt_ticks sl cur iv =
     (let ex = (sl - cur + iv - 1) div iv in if ex \<ge> 0x70000000 then 0x70000000 else ex)"

definition itimer_evt_start :: "addr \<Rightarrow> u32 \<Rightarrow> int \<Rightarrow> itimer_mgr \<Rightarrow> itimer_mgr option" where
  "itimer_evt_start e per rep mg = do {
     ev \<leftarrow> evts mg e;
     mg \<leftarrow> (if emgr ev \<noteq> NULL then itimer_evt_stop e mg else Some mg);
     mg \<leftarrow> upd_evt e (\<lambda>ev. ev\<lparr>period := per, repeat := rep, slap := current mg + per, emgr := mself mg\<rparr>) mg;
     ev \<leftarrow> evts mg e;
     w \<leftarrow> itimer_node_add e (jiffies mg + evt_ticks (slap ev) (current mg) (interval mg)) (mcore mg);
     upd_evt e (running_update (\<lambda>_. 0)) (mg\<lparr>mcore := w\<rparr>) }"

text \<open>The loop that counts the periods: the slap, the repetitions left, the count, which is an \<open>int\<close>, and whether to stop.\<close>

partial_function (option) evt_catch_up :: "u32 \<Rightarrow> u32 \<Rightarrow> u32 \<Rightarrow> int \<Rightarrow> nat \<Rightarrow> (u32 \<times> int \<times> nat \<times> bool) option" where
  "evt_catch_up cur per sl rep cnt =
     (if sl \<le> cur
      then (if \<not> int_ok (int cnt + 1) then None
            else if rep = 1 then Some (sl + per, rep, cnt + 1, True)
            else evt_catch_up cur per (sl + per) (if rep > 1 then rep - 1 else rep) (cnt + 1))
      else Some (sl, rep, cnt, False))"

type_synonym 'u evt_fn = "addr \<Rightarrow> addr \<Rightarrow> addr \<Rightarrow> itimer_mgr \<times> 'u \<Rightarrow> (itimer_mgr \<times> 'u) option"

fun evt_calls :: "'u evt_fn \<Rightarrow> addr \<Rightarrow> nat \<Rightarrow> itimer_mgr \<times> 'u \<Rightarrow> (itimer_mgr \<times> 'u) option" where
  "evt_calls ucall e 0 s = Some s"
| "evt_calls ucall e (Suc n) s =
     (case evts (fst s) e of
        None \<Rightarrow> None
      | Some ev \<Rightarrow>
          if ecallback ev \<noteq> NULL \<and> running ev \<noteq> 0
          then Option.bind (ucall (ecallback ev) (edata ev) (euser ev) s) (evt_calls ucall e n)
          else Some s)"

definition itimer_evt_cb :: "'u evt_fn \<Rightarrow> addr \<Rightarrow> itimer_mgr \<times> 'u \<Rightarrow> (itimer_mgr \<times> 'u) option" where
  "itimer_evt_cb ucall e = (\<lambda>(mg, u). do {
     ev \<leftarrow> evts mg e;
     if emgr ev = NULL then None
     else do {
       (sl, rep, cnt, stop) \<leftarrow> evt_catch_up (current mg) (period ev) (slap ev) (repeat ev) 0;
       mg \<leftarrow> upd_evt e (\<lambda>ev. ev\<lparr>slap := sl, repeat := rep\<rparr>) mg;
       mg \<leftarrow> (if \<not> stop
             then map_option (\<lambda>w. mg\<lparr>mcore := w\<rparr>)
                    (itimer_node_add e (jiffies mg + evt_ticks sl (current mg) (interval mg)) (mcore mg))
             else itimer_evt_stop e mg);
       mg \<leftarrow> upd_evt e (running_update (\<lambda>_. 1)) mg;
       (mg, u) \<leftarrow> evt_calls ucall e cnt (mg, u);
       mg \<leftarrow> upd_evt e (running_update (\<lambda>_. 0)) mg;
       Some (mg, u) } })"

text \<open>The wheel calls \<open>itimer_evt_cb\<close> back with the core as it is at that moment.\<close>

definition evt_dispatch :: "'u evt_fn \<Rightarrow> (itimer_mgr \<times> 'u) itimer_fn" where
  "evt_dispatch ucall f d = (\<lambda>(w, mg, u).
     if f = EVT_CB
     then map_option (\<lambda>(mg, u). (mcore mg, mg, u)) (itimer_evt_cb ucall d (mg\<lparr>mcore := w\<rparr>, u))
     else None)"

text \<open>The manager runs its wheel with a callback for the nodes, which is \<open>evt_dispatch ucall\<close> here.\<close>

definition mgr_step :: "(itimer_mgr \<times> 'u) itimer_fn \<Rightarrow> itimer_mgr \<times> 'u \<Rightarrow> (itimer_mgr \<times> 'u) option" where
  "mgr_step call = (\<lambda>(mg, u). do {
     (w, mg, u) \<leftarrow> itimer_core_run call (jiffies mg) (mcore mg) (mg, u);
     Some (mg\<lparr>mcore := w, jiffies := jiffies mg + 1, current := current mg + interval mg,
              millisec := millisec mg + interval mg\<rparr>, u) })"

partial_function (option) mgr_loop ::
  "(itimer_mgr \<times> 'u) itimer_fn \<Rightarrow> u32 \<Rightarrow> itimer_mgr \<times> 'u \<Rightarrow> (itimer_mgr \<times> 'u) option" where
  "mgr_loop call ms s =
     (if 0 \<le> sint (ms - millisec (fst s))
      then Option.bind (mgr_step call s) (mgr_loop call ms) else Some s)"

text \<open>The limits are computed with the type \<open>int\<close>.\<close>

definition itimer_mgr_run ::
  "(itimer_mgr \<times> 'u) itimer_fn \<Rightarrow> u32 \<Rightarrow> itimer_mgr \<times> 'u \<Rightarrow> (itimer_mgr \<times> 'u) option" where
  "itimer_mgr_run call ms = (\<lambda>(mg, u).
     (let limit = sint (interval mg) * 64;
          diff = sint (ms - millisec mg)
      in if \<not> int_ok limit \<or> \<not> int_ok (ITIMER_MGR_LIMIT + limit) then None
         else if diff > ITIMER_MGR_LIMIT + limit then mgr_loop call ms (mg\<lparr>millisec := ms\<rparr>, u)
         else if \<not> int_ok (- ITIMER_MGR_LIMIT - limit) then None
         else if diff < - ITIMER_MGR_LIMIT - limit then mgr_loop call ms (mg\<lparr>millisec := ms\<rparr>, u)
         else mgr_loop call ms (mg, u)))"

declare evt_catch_up.simps [code] mgr_loop.simps [code]

section \<open>Counting the periods\<close>

text \<open>The periods that have begun by \<open>cur\<close> when the next one begins at \<open>sl\<close>.\<close>

definition periods_due :: "u32 \<Rightarrow> u32 \<Rightarrow> u32 \<Rightarrow> nat" where
  "periods_due cur per sl = (if sl \<le> cur then (unat cur - unat sl) div unat per + 1 else 0)"

lemma periods_due_step:
  assumes "sl \<le> cur" and "0 < per" and "unat cur + unat per < 2 ^ 32"
  shows "unat (sl + per) = unat sl + unat per" and "periods_due cur per sl = Suc (periods_due cur per (sl + per))"
proof -
  have le: "unat sl \<le> unat cur" and pos: "0 < unat per"
    using assms(1,2) by (simp_all add: word_le_nat_alt word_less_nat_alt)
  show s: "unat (sl + per) = unat sl + unat per"
    using le assms(3) by (intro unat_add_lem[THEN iffD1]) simp
  show "periods_due cur per sl = Suc (periods_due cur per (sl + per))"
  proof (cases "sl + per \<le> cur")
    case True
    then have "unat per \<le> unat cur - unat sl"
      using s le by (simp add: word_le_nat_alt)
    then have "(unat cur - unat sl) div unat per = Suc ((unat cur - unat sl - unat per) div unat per)"
      using pos by (simp add: le_div_geq)
    then show ?thesis
      using True assms(1) s by (simp add: periods_due_def)
  next
    case False
    then have "unat cur - unat sl < unat per"
      using s le by (simp add: word_le_nat_alt)
    then show ?thesis
      using False assms(1) by (simp add: periods_due_def)
  qed
qed

lemma periods_due_bound:
  assumes "0 < per" and "unat cur + unat per < 2 ^ 32" and "k \<le> periods_due cur per sl"
  shows "unat (sl + of_nat k * per) = unat sl + k * unat per"
  using assms(3)
proof (induction k arbitrary: sl)
  case (Suc k)
  then have "sl \<le> cur" by (auto simp: periods_due_def split: if_splits)
  note st = periods_due_step[OF this assms(1,2)]
  then have "unat ((sl + per) + of_nat k * per) = unat (sl + per) + k * unat per"
    using Suc by simp
  then show ?case using st(1) by (simp add: algebra_simps)
qed simp

lemma evt_catch_up_eq:
  assumes per: "0 < per" and room: "unat cur + unat per < 2 ^ 32" and fit: "c + periods_due cur per sl < 2 ^ 31"
  shows "evt_catch_up cur per sl rep c =
     (let n = periods_due cur per sl in
      if 1 \<le> rep \<and> nat rep \<le> n then Some (sl + of_nat (nat rep) * per, 1, c + nat rep, True)
      else Some (sl + of_nat n * per, if 1 \<le> rep then rep - int n else rep, c + n, False))"
  using fit
proof (induction "periods_due cur per sl" arbitrary: sl rep c)
  case 0
  then have "\<not> sl \<le> cur" by (auto simp: periods_due_def split: if_splits)
  then show ?case using 0 by (subst evt_catch_up.simps) (auto simp: Let_def)
next
  case (Suc n)
  then have le: "sl \<le> cur" by (auto simp: periods_due_def split: if_splits)
  have n: "n = periods_due cur per (sl + per)"
    using periods_due_step(2)[OF le per room] Suc(2) by simp
  have io: "int_ok (int c + 1)" using Suc(2,3) by (simp add: int_ok_def)
  have fit: "c + 1 + periods_due cur per (sl + per) < 2 ^ 31" using Suc(2,3) n by simp
  show ?case
  proof (cases "rep = 1")
    case True
    then show ?thesis using le io Suc(2)[symmetric] by (subst evt_catch_up.simps) simp
  next
    case False
    have "evt_catch_up cur per sl rep c = evt_catch_up cur per (sl + per) (if 1 < rep then rep - 1 else rep) (c + 1)"
      using le io False by (subst evt_catch_up.simps) simp
    also have "\<dots> = (let m = n; r = (if 1 < rep then rep - 1 else rep) in
      if 1 \<le> r \<and> nat r \<le> m then Some (sl + of_nat (Suc (nat r)) * per, 1, c + 1 + nat r, True)
      else Some (sl + of_nat (Suc m) * per, if 1 \<le> r then r - int m else r, c + 1 + m, False))"
      using Suc(1)[OF n fit, of "if 1 < rep then rep - 1 else rep"] n by (simp add: Let_def algebra_simps)
    also have "\<dots> = (let m = Suc n in
      if 1 \<le> rep \<and> nat rep \<le> m then Some (sl + of_nat (nat rep) * per, 1, c + nat rep, True)
      else Some (sl + of_nat m * per, if 1 \<le> rep then rep - int m else rep, c + m, False))"
    proof (cases "1 < rep")
      case True
      define r where "r = nat (rep - 1)"
      have "rep = int r + 1" "1 \<le> r" using True by (simp_all add: r_def)
      then show ?thesis by (auto simp: Let_def nat_add_distrib)
    next
      case nr: False
      then show ?thesis using False by (auto simp: Let_def)
    qed
    finally show ?thesis using Suc(2) by simp
  qed
qed

lemma periods_due_past:
  assumes "0 < per" and "unat cur + unat per < 2 ^ 32"
  shows "cur < sl + of_nat (periods_due cur per sl) * per"
proof -
  have pos: "0 < unat per" using assms(1) by (simp add: word_less_nat_alt)
  have "unat cur < unat sl + periods_due cur per sl * unat per"
  proof (cases "sl \<le> cur")
    case True
    have "unat cur - unat sl < ((unat cur - unat sl) div unat per + 1) * unat per"
      using pos by (metis add.commute dividend_less_div_times mult.commute mult_Suc Suc_eq_plus1 plus_1_eq_Suc)
    then show ?thesis using True by (simp add: periods_due_def)
  next
    case False
    then show ?thesis by (simp add: periods_due_def word_le_nat_alt)
  qed
  then show ?thesis
    using periods_due_bound[OF assms, of "periods_due cur per sl" sl] by (simp add: word_less_nat_alt)
qed

text \<open>The periods fit an \<open>int\<close> when the clock divided by the period does.\<close>

lemma periods_due_int:
  assumes "unat cur \<le> B" "B div unat per + 1 < 2 ^ 31"
  shows "periods_due cur per sl < 2 ^ 31"
proof -
  have "(unat cur - unat sl) div unat per \<le> B div unat per" using assms(1) by (intro div_le_mono) simp
  then show ?thesis using assms(2) by (simp add: periods_due_def)
qed

text \<open>When the clock value is the greatest word, the comparison never fails.\<close>

lemma evt_catch_up_max_diverges:
  assumes "evt_catch_up cur per sl rep c = Some r" and "cur = - 1" and "rep \<le> 0"
  shows False
proof -
  have "cur = - 1 \<longrightarrow> rep \<le> 0 \<longrightarrow> False"
  proof (rule evt_catch_up.raw_induct[OF _ assms(1), where P = "\<lambda>cur per sl rep c r. cur = - 1 \<longrightarrow> rep \<le> 0 \<longrightarrow> False"])
    fix f cur per sl rep c r
    assume "\<And>cur per sl rep c r. f cur per sl rep c = Some r \<Longrightarrow> cur = - 1 \<longrightarrow> rep \<le> 0 \<longrightarrow> False"
      and "(if sl \<le> cur
        then if \<not> int_ok (int c + 1) then None
             else if rep = 1 then Some (sl + per, rep, c + 1, True)
             else f cur per (sl + per) (if 1 < rep then rep - 1 else rep) (c + 1)
        else Some (sl, rep, c, False)) = Some (r :: 32 word \<times> int \<times> nat \<times> bool)"
    then show "cur = - 1 \<longrightarrow> rep \<le> 0 \<longrightarrow> False"
      by (auto split: if_splits)
  qed
  then show False using assms by blast
qed

section \<open>Starting an event\<close>

lemma evt_ticks_eq:
  assumes "0 < iv" and "unat per + unat iv \<le> 2 ^ 32"
  shows "unat (evt_ticks (cur + per) cur iv) = min ((unat per + unat iv - 1) div unat iv) 0x70000000"
    and "sint (evt_ticks (cur + per) cur iv) \<ge> 0"
proof -
  have iv: "0 < unat iv" using assms(1) by (simp add: word_less_nat_alt)
  have "unat (per + (iv - 1)) = unat per + unat (iv - 1)"
    using assms iv unat_minus_one[of iv] by (intro unat_add_lem[THEN iffD1]) auto
  moreover have "unat (iv - 1) = unat iv - 1" using assms(1) by (intro unat_minus_one) auto
  ultimately have s: "unat (per + iv - 1) = unat per + unat iv - 1"
    using iv by (simp add: algebra_simps)
  let ?ex = "(per + iv - 1) div iv"
  have d: "unat ?ex = (unat per + unat iv - 1) div unat iv"
    using s by (simp add: unat_div)
  have e: "evt_ticks (cur + per) cur iv = (if 0x70000000 \<le> ?ex then 0x70000000 else ?ex)"
    by (simp add: evt_ticks_def Let_def algebra_simps)
  show u: "unat (evt_ticks (cur + per) cur iv) = min ((unat per + unat iv - 1) div unat iv) 0x70000000"
    unfolding e using d by (auto simp: word_le_nat_alt)
  show "sint (evt_ticks (cur + per) cur iv) \<ge> 0"
    using sint_neg_iff[of "evt_ticks (cur + per) cur iv"] u by simp
qed

section \<open>The invariant of the manager\<close>

text \<open>
  An active event (one with a manager) has an initialised node that calls \<open>itimer_evt_cb\<close> back with the event, and a
  period that keeps the slap below the wrap of the clock and the count of the periods within an \<open>int\<close> while the clock is
  at most \<open>B\<close>; only nodes of active events are linked.
\<close>

definition evt_node :: "itimer_core \<Rightarrow> addr \<Rightarrow> bool" where
  "evt_node w e \<longleftrightarrow> (\<exists>nd. nodemem w e = Some nd \<and> state nd = ITIMER_NODE_STATE_OK \<and> callback nd = EVT_CB \<and> data nd = e)"

definition active :: "itimer_mgr \<Rightarrow> addr \<Rightarrow> bool" where
  "active mg e \<longleftrightarrow> (\<exists>ev. evts mg e = Some ev \<and> emgr ev \<noteq> NULL)"

definition period_ok :: "nat \<Rightarrow> u32 \<Rightarrow> bool" where
  "period_ok B per \<longleftrightarrow> 0 < per \<and> B + unat per < 2 ^ 32 \<and> B div unat per + 1 < 2 ^ 31"

definition evts_ok :: "nat \<Rightarrow> itimer_core \<Rightarrow> itimer_mgr \<Rightarrow> bool" where
  "evts_ok B w mg \<longleftrightarrow> (\<forall>e \<in> linked_nodes w. active mg e) \<and>
     (\<forall>e ev. evts mg e = Some ev \<longrightarrow> emgr ev \<noteq> NULL \<longrightarrow>
        evt_node w e \<and> period_ok B (period ev))"

definition mgr_inv :: "nat \<Rightarrow> itimer_mgr \<Rightarrow> bool" where
  "mgr_inv B mg \<longleftrightarrow> wheel_inv (mcore mg) \<and> evts_ok B (mcore mg) mg \<and> mself mg \<noteq> NULL \<and>
     0 < interval mg \<and> unat (current mg) \<le> B"

lemma active_node: "evts_ok B w mg \<Longrightarrow> active mg e \<Longrightarrow> evt_node w e"
  unfolding evts_ok_def active_def by blast

text \<open>With such a period the loop that counts the periods ends and counts those that are due.\<close>

lemma period_okD:
  assumes "period_ok B per" "unat cur \<le> B"
  shows "0 < per" "unat cur + unat per < 2 ^ 32" "0 + periods_due cur per sl < 2 ^ 31"
  using assms periods_due_int[OF assms(2)] by (auto simp: period_ok_def)

lemma mgr_period_ok: "mgr_inv B mg \<Longrightarrow> evts mg e = Some ev \<Longrightarrow> emgr ev \<noteq> NULL \<Longrightarrow> period_ok B (period ev) \<and> unat (current mg) \<le> B"
  by (simp add: mgr_inv_def evts_ok_def)

text \<open>What a callback leaves alone.\<close>

definition same_clock :: "itimer_mgr \<Rightarrow> itimer_mgr \<Rightarrow> bool" where
  "same_clock mg mg' \<longleftrightarrow> mself mg' = mself mg \<and> interval mg' = interval mg \<and> current mg' = current mg \<and>
     millisec mg' = millisec mg \<and> jiffies mg' = jiffies mg \<and> self (mcore mg') = self (mcore mg) \<and>
     timer_jiffies (mcore mg') = timer_jiffies (mcore mg) \<and>
     length (queued (mcore mg')) \<le> length (queued (mcore mg)) \<and> dom (evts mg) \<subseteq> dom (evts mg')"

lemma same_clock_refl [simp]: "same_clock mg mg"
  by (simp add: same_clock_def)

lemma same_clock_trans: "same_clock mg mg' \<Longrightarrow> same_clock mg' mg'' \<Longrightarrow> same_clock mg mg''"
  by (auto simp: same_clock_def)

lemma upd_evt_Some [simp]: "evts mg e = Some ev \<Longrightarrow> upd_evt e f mg = Some (mg\<lparr>evts := (evts mg)(e \<mapsto> f ev)\<rparr>)"
  by (simp add: upd_evt_def)

lemma set_evt_ok:
  assumes inv: "mgr_inv B mg" and ev: "evts mg e = Some ev" and f: "emgr (f ev) = emgr ev" "period (f ev) = period ev"
  shows "mgr_inv B (mg\<lparr>evts := (evts mg)(e \<mapsto> f ev)\<rparr>)" and "same_clock mg (mg\<lparr>evts := (evts mg)(e \<mapsto> f ev)\<rparr>)"
  using inv ev f by (auto simp: mgr_inv_def evts_ok_def active_def same_clock_def)

lemma linked_frame: "node_frame p w w' \<Longrightarrow> distinct (queued w) \<Longrightarrow> set (queued w') = set (queued w) - {p}"
  by (simp add: node_frame_def)

lemma evt_node_frame: "node_frame p w w' \<Longrightarrow> e \<noteq> p \<Longrightarrow> evt_node w' e = evt_node w e"
  by (simp add: node_frame_def evt_node_def)

lemma evt_add_ok:
  assumes inv: "mgr_inv B mg" and act: "active mg e"
  shows "\<exists>w. itimer_node_add e ex (mcore mg) = Some w \<and> mgr_inv B (mg\<lparr>mcore := w\<rparr>) \<and> same_clock mg (mg\<lparr>mcore := w\<rparr>)"
proof -
  let ?w = "mcore mg"
  have w: "wheel_inv ?w" and ok: "evts_ok B ?w mg" using inv by (auto simp: mgr_inv_def)
  obtain nd where nd: "nodemem ?w e = Some nd" "state nd = ITIMER_NODE_STATE_OK" "callback nd = EVT_CB" "data nd = e"
    using active_node[OF ok act] by (auto simp: evt_node_def)
  obtain w' where w': "itimer_node_add e ex ?w = Some w'" "wheel_inv w'" "node_frame e ?w w'"
      "members w' = insert e (members ?w)" "nodemem w' e = Some (nd\<lparr>expires := ex, core := self ?w\<rparr>)"
    using itimer_node_add_ok[OF w nd(1,2), of ex] by blast
  have d: "distinct (queued ?w)" using w by (simp add: wheel_inv_def links_ok_def)
  have "evt_node w' e" using w'(5) nd by (simp add: evt_node_def)
  then have "evt_node w' r" if "evt_node ?w r" for r
    using evt_node_frame[OF w'(3), of r] that by (cases "r = e") auto
  then have "evts_ok B w' (mg\<lparr>mcore := w'\<rparr>)"
    using ok act w'(4) linked_frame[OF w'(3) d]
    by (auto simp: evts_ok_def active_def linked_nodes_def)
  then show ?thesis
    using w' inv by (auto simp: mgr_inv_def same_clock_def node_frame_def length_remove1)
qed

lemma evt_stop_ok:
  assumes inv: "mgr_inv B mg" and ev: "evts mg e = Some ev"
  shows "\<exists>mg'. itimer_evt_stop e mg = Some mg' \<and> mgr_inv B mg' \<and> same_clock mg mg' \<and>
     e \<notin> linked_nodes (mcore mg') \<and> evts mg' = (evts mg)(e \<mapsto> ev\<lparr>emgr := NULL, running := 0\<rparr>)"
proof (cases "emgr ev = NULL")
  case True
  have "e \<notin> linked_nodes (mcore mg)" using inv ev True by (auto simp: mgr_inv_def evts_ok_def active_def)
  moreover have eq: "ev\<lparr>emgr := NULL, running := 0\<rparr> = ev\<lparr>running := 0\<rparr>" using True by (cases ev) simp
  ultimately show ?thesis
    using set_evt_ok[OF inv ev, of "running_update (\<lambda>_. 0)"] True ev by (simp add: itimer_evt_stop_def eq)
next
  case False
  let ?w = "mcore mg"
  have w: "wheel_inv ?w" and ok: "evts_ok B ?w mg" using inv by (auto simp: mgr_inv_def)
  obtain nd where nd: "nodemem ?w e = Some nd" "state nd = ITIMER_NODE_STATE_OK" "callback nd = EVT_CB" "data nd = e"
    using active_node[OF ok, of e] ev False by (auto simp: evt_node_def active_def)
  obtain w' ret where w': "itimer_node_del e ?w = Some (ret, w')" "wheel_inv w'" "node_frame e ?w w'"
      "members w' = members ?w - {e}"
    using itimer_node_del_ok[OF w nd(1,2)] by blast
  have d: "distinct (queued ?w)" using w by (simp add: wheel_inv_def links_ok_def)
  have l: "linked_nodes w' = linked_nodes ?w - {e}"
    using w'(4) linked_frame[OF w'(3) d] by (auto simp: linked_nodes_def)
  let ?mg = "mg\<lparr>mcore := w', evts := (evts mg)(e \<mapsto> ev\<lparr>emgr := NULL, running := 0\<rparr>)\<rparr>"
  have "itimer_evt_stop e mg = Some ?mg"
    using False ev w'(1) by (simp add: itimer_evt_stop_def)
  moreover have "evts_ok B w' ?mg"
    using ok l evt_node_frame[OF w'(3)] by (auto simp: evts_ok_def active_def)
  ultimately show ?thesis
    using w' inv l by (auto simp: mgr_inv_def same_clock_def node_frame_def length_remove1)
qed

text \<open>The contract of the user's functions.\<close>

definition user_ok :: "nat \<Rightarrow> 'u evt_fn \<Rightarrow> bool" where
  "user_ok B ucall \<longleftrightarrow> (\<forall>f d a mg u. mgr_inv B mg \<longrightarrow>
     (\<exists>mg' u'. ucall f d a (mg, u) = Some (mg', u') \<and> mgr_inv B mg' \<and> same_clock mg mg'))"

lemma evt_calls_ok:
  assumes ucall: "user_ok B ucall"
  shows "mgr_inv B mg \<Longrightarrow> e \<in> dom (evts mg) \<Longrightarrow>
    \<exists>mg' u'. evt_calls ucall e n (mg, u) = Some (mg', u') \<and> mgr_inv B mg' \<and> same_clock mg mg'"
proof (induction n arbitrary: mg u)
  case (Suc n)
  obtain ev where ev: "evts mg e = Some ev" using Suc.prems by blast
  show ?case
  proof (cases "ecallback ev \<noteq> NULL \<and> running ev \<noteq> 0")
    case True
    obtain mg1 u1 where m1: "ucall (ecallback ev) (edata ev) (euser ev) (mg, u) = Some (mg1, u1)"
        "mgr_inv B mg1" "same_clock mg mg1"
      using ucall Suc.prems(1) unfolding user_ok_def by blast
    have "e \<in> dom (evts mg1)" using m1(3) Suc.prems(2) by (auto simp: same_clock_def)
    then obtain mg2 u2 where "evt_calls ucall e n (mg1, u1) = Some (mg2, u2)" "mgr_inv B mg2" "same_clock mg1 mg2"
      using Suc.IH[OF m1(2)] by blast
    then show ?thesis
      using True ev m1(1) same_clock_trans[OF m1(3)] by auto
  qed (use ev Suc.prems in auto)
qed simp

lemma evt_next_ok:
  assumes inv: "mgr_inv B mg" and act: "active mg e"
  shows "\<exists>mg'. (if \<not> stop then map_option (\<lambda>w. mg\<lparr>mcore := w\<rparr>) (itimer_node_add e ex (mcore mg))
           else itimer_evt_stop e mg) = Some mg' \<and> mgr_inv B mg' \<and> same_clock mg mg'"
proof (cases stop)
  case True
  obtain ev where "evts mg e = Some ev" using act by (auto simp: active_def)
  then show ?thesis using evt_stop_ok[OF inv] True by auto
next
  case False
  obtain w where "itimer_node_add e ex (mcore mg) = Some w" "mgr_inv B (mg\<lparr>mcore := w\<rparr>)"
      "same_clock mg (mg\<lparr>mcore := w\<rparr>)"
    using evt_add_ok[OF inv act] by blast
  then show ?thesis using False by (intro exI[of _ "mg\<lparr>mcore := w\<rparr>"]) simp
qed

lemma evt_cb_ok:
  assumes ucall: "user_ok B ucall" and inv: "mgr_inv B mg" and ev: "evts mg e = Some ev" and act: "emgr ev \<noteq> NULL"
  shows "\<exists>mg' u'. itimer_evt_cb ucall e (mg, u) = Some (mg', u') \<and> mgr_inv B mg' \<and> same_clock mg mg'"
proof -
  note per = period_okD[OF mgr_period_ok[OF inv ev act, THEN conjunct1] mgr_period_ok[OF inv ev act, THEN conjunct2]]
  obtain sl rep n stop where c: "evt_catch_up (current mg) (period ev) (slap ev) (repeat ev) 0 = Some (sl, rep, n, stop)"
    unfolding evt_catch_up_eq[OF per] Let_def by (metis (no_types))
  let ?ev = "ev\<lparr>slap := sl, repeat := rep\<rparr>"
  let ?mg1 = "mg\<lparr>evts := (evts mg)(e \<mapsto> ?ev)\<rparr>"
  note m1 = set_evt_ok[OF inv ev, of "\<lambda>ev. ev\<lparr>slap := sl, repeat := rep\<rparr>", simplified]
  have act1: "active ?mg1 e" using act by (simp add: active_def)
  obtain mg2 where m2: "(if \<not> stop
      then map_option (\<lambda>w. ?mg1\<lparr>mcore := w\<rparr>)
             (itimer_node_add e (jiffies ?mg1 + evt_ticks sl (current ?mg1) (interval ?mg1)) (mcore ?mg1))
      else itimer_evt_stop e ?mg1) = Some mg2" "mgr_inv B mg2" "same_clock ?mg1 mg2"
    using evt_next_ok[OF m1(1) act1, of stop] by blast
  have "e \<in> dom (evts mg2)" using m2(3) by (auto simp: same_clock_def)
  then obtain ev2 where ev2: "evts mg2 e = Some ev2" by blast
  let ?mg3 = "mg2\<lparr>evts := (evts mg2)(e \<mapsto> ev2\<lparr>running := 1\<rparr>)\<rparr>"
  note m3 = set_evt_ok[OF m2(2) ev2, of "running_update (\<lambda>_. 1)", simplified]
  obtain mg4 u4 where m4: "evt_calls ucall e n (?mg3, u) = Some (mg4, u4)" "mgr_inv B mg4" "same_clock ?mg3 mg4"
    using evt_calls_ok[OF ucall m3(1), of e n u] by auto
  then obtain ev4 where ev4: "evts mg4 e = Some ev4" by (fastforce simp: same_clock_def)
  note m5 = set_evt_ok[OF m4(2) ev4, of "running_update (\<lambda>_. 0)", simplified]
  have "itimer_evt_cb ucall e (mg, u) = Some (mg4\<lparr>evts := (evts mg4)(e \<mapsto> ev4\<lparr>running := 0\<rparr>)\<rparr>, u4)"
    using ev act c m2(1) ev2 m4(1) ev4 by (simp add: itimer_evt_cb_def)
  moreover have "same_clock mg (mg4\<lparr>evts := (evts mg4)(e \<mapsto> ev4\<lparr>running := 0\<rparr>)\<rparr>)"
    using same_clock_trans[OF same_clock_trans[OF same_clock_trans[OF same_clock_trans[OF m1(2) m2(3)] m3(2)] m4(3)] m5(2)] .
  ultimately show ?thesis using m5(1) by blast
qed

section \<open>Running the manager\<close>

lemma evts_ok_cong:
  "linked_nodes w' = linked_nodes w \<Longrightarrow> nodemem w' = nodemem w \<Longrightarrow> evts_ok B w' mg = evts_ok B w mg"
  by (simp add: evts_ok_def evt_node_def)

lemma evts_ok_mgr_cong: "evts mg' = evts mg \<Longrightarrow> evts_ok B w mg' = evts_ok B w mg"
  by (simp add: evts_ok_def active_def)

text \<open>
  What the manager relies on in the callback of its nodes.  \<open>P\<close> is the client's invariant on the events and its own
  state; serving an active event whose node has just been unlinked keeps both invariants, the clock and the length of the
  queue.  The two clients are the plain events of this theory and the pooled ones of the threaded timer.
\<close>

locale mgr_client =
  fixes B :: nat and P :: "(addr \<rightharpoonup> itimer_evt) \<Rightarrow> 'u \<Rightarrow> bool" and call :: "(itimer_mgr \<times> 'u) itimer_fn"
  assumes serve: "mgr_inv B (mg\<lparr>mcore := w\<rparr>) \<Longrightarrow> P (evts mg) u \<Longrightarrow> active mg e \<Longrightarrow> e \<notin> linked_nodes w \<Longrightarrow>
    \<exists>mg' u'. call EVT_CB e (w, mg, u) = Some (mcore mg', mg', u') \<and> mgr_inv B mg' \<and> P (evts mg') u' \<and>
      same_clock (mg\<lparr>mcore := w\<rparr>) mg'"
begin

text \<open>The client's invariant for the run of the wheel.\<close>

definition run_inv :: "itimer_mgr \<Rightarrow> itimer_core \<Rightarrow> itimer_mgr \<times> 'u \<Rightarrow> bool" where
  "run_inv mg0 w = (\<lambda>(mg, u). evts_ok B w mg \<and> P (evts mg) u \<and> mself mg \<noteq> NULL \<and> 0 < interval mg \<and>
     unat (current mg) \<le> B \<and> mself mg = mself mg0 \<and> interval mg = interval mg0 \<and> current mg = current mg0 \<and>
     millisec mg = millisec mg0 \<and> jiffies mg = jiffies mg0)"

lemma dispatch_ok: "fn_ok (run_inv mg0) call"
  unfolding fn_ok_def
proof (intro conjI allI impI)
  fix w w' :: itimer_core and u :: "itimer_mgr \<times> 'u"
  assume "run_inv mg0 w u" "linked_nodes w' = linked_nodes w" "nodemem w' = nodemem w"
  then show "run_inv mg0 w' u"
    using evts_ok_cong[of w' w B "fst u"] by (cases u) (auto simp: run_inv_def)
next
  fix w w1 :: itimer_core and s :: "itimer_mgr \<times> 'u" and p nd
  assume w: "wheel_inv w" and R: "run_inv mg0 w s" and p: "p \<in> set (queued w)" and nd: "nodemem w p = Some nd"
    and un: "set_core p NULL (ilist_unlink p w) = Some w1"
  obtain mg u where s: "s = (mg, u)" by (cases s)
  note w1 = queued_unlink_any[OF w p un]
  have ok: "evts_ok B w mg" and P: "P (evts mg) u" using R s by (simp_all add: run_inv_def)
  have act: "active mg p" using ok p by (auto simp: evts_ok_def linked_nodes_def)
  have "evt_node w p" using active_node[OF ok act] .
  then have cb: "callback nd = EVT_CB" "data nd = p" "EVT_CB \<noteq> NULL" using nd by (auto simp: evt_node_def EVT_CB_def)
  have "evt_node w r \<longrightarrow> evt_node w1 r" for r
    using w1(7)[of r] w1(8)[OF nd] nd by (cases "r = p") (auto simp: evt_node_def)
  moreover have sub: "linked_nodes w1 \<subseteq> linked_nodes w"
    using w1(4,5) notin_set_remove1 by (fastforce simp: linked_nodes_def)
  ultimately have "evts_ok B w1 mg"
    using ok unfolding evts_ok_def by blast
  then have inv: "mgr_inv B (mg\<lparr>mcore := w1\<rparr>)"
    using w1(1) R s evts_ok_mgr_cong[of "mg\<lparr>mcore := w1\<rparr>" mg B w1] by (auto simp: mgr_inv_def run_inv_def)
  have d: "distinct (queued w)" "p \<notin> members w" using w p by (auto simp: wheel_inv_def links_ok_def)
  then have un': "p \<notin> linked_nodes w1" using w1(4,5) by (simp add: linked_nodes_def)
  obtain mg' u' where r: "call EVT_CB p (w1, mg, u) = Some (mcore mg', mg', u')" "mgr_inv B mg'" "P (evts mg') u'"
      "same_clock (mg\<lparr>mcore := w1\<rparr>) mg'"
    using serve[OF inv P act un'] by blast
  then show "\<exists>w' u'. (if callback nd \<noteq> NULL then call (callback nd) (data nd) (w1, s) else Some (w1, s)) =
      Some (w', u') \<and> wheel_inv w' \<and> run_inv mg0 w' u' \<and> self w' = self w \<and> timer_jiffies w' = timer_jiffies w \<and>
      length (queued w') < length (queued w)"
    using cb s R w1(2,3,6)
    by (intro exI[of _ "mcore mg'"] exI[of _ "(mg', u')"]) (auto simp: mgr_inv_def run_inv_def same_clock_def)
qed

lemma step_ok:
  assumes inv: "mgr_inv B mg" and P: "P (evts mg) u" and q: "queued (mcore mg) = []"
    and J: "timer_jiffies (mcore mg) = jiffies mg" and room: "unat (current mg) + unat (interval mg) \<le> B" "B < 2 ^ 32"
  shows "\<exists>mg' u'. mgr_step call (mg, u) = Some (mg', u') \<and> mgr_inv B mg' \<and> P (evts mg') u' \<and> queued (mcore mg') = [] \<and>
     timer_jiffies (mcore mg') = jiffies mg' \<and> jiffies mg' = jiffies mg + 1 \<and> interval mg' = interval mg \<and>
     current mg' = current mg + interval mg \<and> millisec mg' = millisec mg + interval mg"
proof -
  have R: "run_inv mg (mcore mg) (mg, u)" and w: "wheel_inv (mcore mg)"
    using inv P by (auto simp: mgr_inv_def run_inv_def)
  obtain w' mg1 u1 where run: "itimer_internal_update call (jiffies mg) (mcore mg) (mg, u) = Some (w', mg1, u1)"
      "wheel_inv w'" "run_inv mg w' (mg1, u1)" "queued w' = []" "timer_jiffies w' = jiffies mg + 1"
    using itimer_update_total[OF dispatch_ok w R q, of "jiffies mg"] J by auto
  have "unat (current mg + interval mg) = unat (current mg) + unat (interval mg)"
    using room by (intro unat_add_lem[THEN iffD1]) simp
  then have "mgr_inv B (mg1\<lparr>mcore := w', jiffies := jiffies mg1 + 1, current := current mg1 + interval mg1,
      millisec := millisec mg1 + interval mg1\<rparr>)"
    using run(2,3) room by (auto simp: mgr_inv_def run_inv_def evts_ok_def active_def)
  then show ?thesis
    using run by (auto simp: mgr_step_def itimer_core_run_def run_inv_def)
qed

end

text \<open>How many intervals the loop of \<open>itimer_mgr_run\<close> makes.\<close>

definition mgr_ticks :: "u32 \<Rightarrow> u32 \<Rightarrow> u32 \<Rightarrow> nat" where
  "mgr_ticks ms start iv = (if 0 \<le> sint (ms - start) then unat (ms - start) div unat iv + 1 else 0)"

lemma mgr_ticks_step:
  assumes pos: "0 < iv" "unat iv < 2 ^ 31" and nn: "0 \<le> sint (ms - start)"
  shows "mgr_ticks ms start iv = Suc (mgr_ticks ms (start + iv) iv)"
proof -
  let ?d = "unat (ms - start)" and ?i = "unat iv"
  have d: "?d < 2 ^ 31" using nn sint_neg_iff[of "ms - start"] by linarith
  have i: "0 < ?i" using pos(1) by (simp add: word_less_nat_alt)
  have eq: "ms - (start + iv) = (ms - start) - iv" by (simp add: algebra_simps)
  show ?thesis
  proof (cases "?i \<le> ?d")
    case True
    then have u: "unat (ms - (start + iv)) = ?d - ?i"
      unfolding eq by (intro unat_sub) (simp add: word_le_nat_alt)
    then have "0 \<le> sint (ms - (start + iv))"
      using d sint_neg_iff[of "ms - (start + iv)"] by linarith
    then show ?thesis
      using nn u True i by (simp add: mgr_ticks_def le_div_geq)
  next
    case False
    have "unat (ms - (start + iv)) = 2 ^ 32 + ?d - ?i"
      unfolding eq using False unat_sub_if'[of "ms - start" iv] by simp
    then have "2 ^ 31 \<le> unat (ms - (start + iv))"
      using pos(2) by simp
    then have "\<not> 0 \<le> sint (ms - (start + iv))"
      using sint_neg_iff[of "ms - (start + iv)"] by linarith
    then show ?thesis
      using nn False by (simp add: mgr_ticks_def)
  qed
qed

text \<open>The time from which \<open>itimer_mgr_run\<close> counts: it gives up catching up when the given time is too far away.\<close>

definition run_from :: "u32 \<Rightarrow> itimer_mgr \<Rightarrow> u32" where
  "run_from ms mg = (if \<bar>sint (ms - millisec mg)\<bar> > ITIMER_MGR_LIMIT + sint (interval mg) * 64 then ms else millisec mg)"

text \<open>The intervals for which the limits stay within an \<open>int\<close>.\<close>

definition interval_ok :: "u32 \<Rightarrow> bool" where
  "interval_ok iv \<longleftrightarrow> ITIMER_MGR_LIMIT + int (unat iv) * 64 < 2 ^ 31"

lemma interval_ok_small:
  assumes "interval_ok iv"
  shows "unat iv < 2 ^ 31" "uint iv < 2 ^ 31"
proof -
  have p: "(2 :: int) ^ 31 = 2147483648" "(2 :: nat) ^ 31 = 2147483648" by simp_all
  show "unat iv < 2 ^ 31" using assms unfolding interval_ok_def ITIMER_MGR_LIMIT_def p by linarith
  then show "uint iv < 2 ^ 31" using uint_nat[of iv] unfolding p by linarith
qed

lemma itimer_mgr_run_from:
  assumes iv: "interval_ok (interval mg)"
  shows "itimer_mgr_run call ms (mg, u) = mgr_loop call ms (mg\<lparr>millisec := run_from ms mg\<rparr>, u)"
proof -
  define n where "n = uint (interval mg)"
  have "sint (interval mg) = n" using interval_ok_small(2)[OF iv] sint_small[of "interval mg"] by (simp add: n_def)
  moreover have "0 \<le> n" by (simp add: n_def)
  moreover have "ITIMER_MGR_LIMIT + n * 64 < 2 ^ 31" using iv by (simp add: interval_ok_def n_def)
  ultimately have "int_ok (sint (interval mg) * 64)" "int_ok (ITIMER_MGR_LIMIT + sint (interval mg) * 64)"
      "int_ok (- ITIMER_MGR_LIMIT - sint (interval mg) * 64)" "0 \<le> sint (interval mg)"
    by (simp_all add: int_ok_def ITIMER_MGR_LIMIT_def)
  then show ?thesis by (auto simp: itimer_mgr_run_def run_from_def Let_def ITIMER_MGR_LIMIT_def)
qed

context mgr_client
begin

lemma loop_ok:
  assumes B: "B < 2 ^ 32"
  shows "mgr_inv B mg \<Longrightarrow> P (evts mg) u \<Longrightarrow> queued (mcore mg) = [] \<Longrightarrow> timer_jiffies (mcore mg) = jiffies mg \<Longrightarrow>
     unat (interval mg) < 2 ^ 31 \<Longrightarrow>
     unat (current mg) + mgr_ticks ms (millisec mg) (interval mg) * unat (interval mg) \<le> B \<Longrightarrow>
     \<exists>mg' u'. mgr_loop call ms (mg, u) = Some (mg', u') \<and> mgr_inv B mg' \<and> P (evts mg') u' \<and> queued (mcore mg') = [] \<and>
       timer_jiffies (mcore mg') = jiffies mg' \<and> interval mg' = interval mg \<and> sint (ms - millisec mg') < 0 \<and>
       jiffies mg' = jiffies mg + of_nat (mgr_ticks ms (millisec mg) (interval mg))"
proof (induction "mgr_ticks ms (millisec mg) (interval mg)" arbitrary: mg u)
  case 0
  then have "sint (ms - millisec mg) < 0" by (auto simp: mgr_ticks_def split: if_splits)
  then show ?case using 0 by (subst mgr_loop.simps) auto
next
  case (Suc n)
  have nn: "0 \<le> sint (ms - millisec mg)" using Suc(2) by (auto simp: mgr_ticks_def split: if_splits)
  have pos: "0 < interval mg" using Suc(3) by (simp add: mgr_inv_def)
  have n: "n = mgr_ticks ms (millisec mg + interval mg) (interval mg)"
    using mgr_ticks_step[OF pos Suc(7) nn] Suc(2) by simp
  have room: "unat (current mg) + unat (interval mg) + n * unat (interval mg) \<le> B"
    using Suc(8) unfolding Suc(2)[symmetric] by simp
  obtain mg1 u1 where st: "mgr_step call (mg, u) = Some (mg1, u1)" "mgr_inv B mg1" "P (evts mg1) u1"
      "queued (mcore mg1) = []" "timer_jiffies (mcore mg1) = jiffies mg1" "jiffies mg1 = jiffies mg + 1"
      "interval mg1 = interval mg" "current mg1 = current mg + interval mg" "millisec mg1 = millisec mg + interval mg"
    using step_ok[OF Suc(3-6) _ B] room by fastforce
  have "unat (current mg1) = unat (current mg) + unat (interval mg)"
    unfolding st(8) using room B by (intro unat_add_lem[THEN iffD1]) simp
  then have "\<exists>mg' u'. mgr_loop call ms (mg1, u1) = Some (mg', u') \<and> mgr_inv B mg' \<and> P (evts mg') u' \<and>
       queued (mcore mg') = [] \<and> timer_jiffies (mcore mg') = jiffies mg' \<and> interval mg' = interval mg1 \<and>
       sint (ms - millisec mg') < 0 \<and> jiffies mg' = jiffies mg1 + of_nat n"
    using Suc(1)[of mg1 u1] st Suc(7) room n by simp
  moreover have "mgr_loop call ms (mg, u) = mgr_loop call ms (mg1, u1)"
    using nn st(1) by (subst mgr_loop.simps) simp
  ultimately show ?case
    using st(6,7) unfolding Suc(2)[symmetric] by (simp add: algebra_simps)
qed

lemma client_run_ok:
  assumes "B < 2 ^ 32" and inv: "mgr_inv B mg" and P: "P (evts mg) u" and q: "queued (mcore mg) = []"
    and J: "timer_jiffies (mcore mg) = jiffies mg" and iv: "interval_ok (interval mg)"
    and room: "unat (current mg) + mgr_ticks ms (run_from ms mg) (interval mg) * unat (interval mg) \<le> B"
  shows "\<exists>mg' u'. itimer_mgr_run call ms (mg, u) = Some (mg', u') \<and> mgr_inv B mg' \<and> P (evts mg') u' \<and>
       queued (mcore mg') = [] \<and> timer_jiffies (mcore mg') = jiffies mg' \<and> interval mg' = interval mg \<and>
       sint (ms - millisec mg') < 0 \<and> jiffies mg' = jiffies mg + of_nat (mgr_ticks ms (run_from ms mg) (interval mg))"
proof -
  let ?mg = "mg\<lparr>millisec := run_from ms mg\<rparr>"
  have "mgr_inv B ?mg" using inv by (auto simp: mgr_inv_def evts_ok_def active_def)
  then show ?thesis
    unfolding itimer_mgr_run_from[OF iv] using loop_ok[OF assms(1), of ?mg u ms] P q J interval_ok_small(1)[OF iv] room by simp
qed

end

text \<open>The plain events, for user functions that keep the invariant.\<close>

lemma evt_client:
  assumes ucall: "user_ok B ucall"
  shows "mgr_client B (\<lambda>_ _. True) (evt_dispatch ucall)"
proof
  fix mg w and u :: 'a and e assume inv: "mgr_inv B (mg\<lparr>mcore := w\<rparr>)" and "active mg e"
  then obtain ev where ev: "evts mg e = Some ev" "emgr ev \<noteq> NULL" by (auto simp: active_def)
  then obtain mg' u' where "itimer_evt_cb ucall e (mg\<lparr>mcore := w\<rparr>, u) = Some (mg', u')" "mgr_inv B mg'"
      "same_clock (mg\<lparr>mcore := w\<rparr>) mg'"
    using evt_cb_ok[OF ucall inv, of e ev u] by auto
  then show "\<exists>mg' u'. evt_dispatch ucall EVT_CB e (w, mg, u) = Some (mcore mg', mg', u') \<and> mgr_inv B mg' \<and> True \<and>
      same_clock (mg\<lparr>mcore := w\<rparr>) mg'"
    by (auto simp: evt_dispatch_def)
qed

section \<open>Properties\<close>

text \<open>\<open>itimer_evt_start\<close> on an idle event links its node so that it waits for the number of intervals that
  covers the period, rounded up (at most \<open>0x70000000\<close>), and records period, repetitions and first slap.\<close>

theorem itimer_evt_start_schedules:
  assumes "wheel_inv (mcore mg)" and "evt_node (mcore mg) e" and "evts mg e = Some ev" and "emgr ev = NULL"
    and J: "timer_jiffies (mcore mg) = jiffies mg" and iv: "0 < interval mg" "unat per + unat (interval mg) \<le> 2 ^ 32"
  shows "\<exists>mg'. itimer_evt_start e per rep mg = Some mg' \<and> wheel_inv (mcore mg') \<and>
     members (mcore mg') = insert e (members (mcore mg)) \<and>
     wait (mcore mg') e = min ((unat per + unat (interval mg) - 1) div unat (interval mg)) 0x70000000 \<and>
     evts mg' = (evts mg)(e \<mapsto> ev\<lparr>period := per, repeat := rep, slap := current mg + per, emgr := mself mg, running := 0\<rparr>)"
proof -
  let ?t = "evt_ticks (current mg + per) (current mg) (interval mg)"
  obtain nd where nd: "nodemem (mcore mg) e = Some nd" "state nd = ITIMER_NODE_STATE_OK"
    using assms(2) by (auto simp: evt_node_def)
  obtain w' where w': "itimer_node_add e (jiffies mg + ?t) (mcore mg) = Some w'" "wheel_inv w'"
      "members w' = insert e (members (mcore mg))"
    using itimer_node_add_ok[OF assms(1) nd] by blast
  have "wait w' e = unat ?t"
    using itimer_node_add_wait[OF assms(1) nd w'(1)] evt_ticks_eq(2)[OF iv, of "current mg"] J
    by (simp add: not_less)
  then show ?thesis
    using w' assms(3,4) evt_ticks_eq(1)[OF iv] by (simp add: itimer_evt_start_def)
qed

text \<open>A manager with one idle event, 10 ms per interval, the clock at 1000.\<close>

definition sample_mgr :: itimer_mgr where
  "sample_mgr = \<lparr>mself = 256, interval = 10, current = 1000, millisec = 1000, jiffies = 250,
     mcore = itimer_core_init 250 \<lparr>self = 4096, timer_jiffies = 0, vec = (\<lambda>k i. []), queued = [],
       nodemem = [8 \<mapsto> \<lparr>expires = 0, state = ITIMER_NODE_STATE_OK, data = 8, callback = EVT_CB, core = NULL\<rparr>]\<rparr>,
     evts = [8 \<mapsto> \<lparr>period = 0, slap = 0, repeat = 0, running = 0, ecallback = 1, edata = 2, euser = 3, emgr = NULL\<rparr>]\<rparr>"

definition sample_mgr_started :: itimer_mgr where
  "sample_mgr_started = the (itimer_evt_start 8 25 0 sample_mgr)"

lemma sample_mgr_ok: "wheel_inv (mcore sample_mgr)" "evt_node (mcore sample_mgr) 8"
  "evts sample_mgr 8 = Some \<lparr>period = 0, slap = 0, repeat = 0, running = 0, ecallback = 1, edata = 2, euser = 3, emgr = NULL\<rparr>"
  "timer_jiffies (mcore sample_mgr) = jiffies sample_mgr" "interval sample_mgr = 10"
proof -
  show "wheel_inv (mcore sample_mgr)"
    unfolding sample_mgr_def itimer_mgr.simps by (rule itimer_core_init_inv) simp_all
qed (simp_all add: sample_mgr_def itimer_core_init_def evt_node_def)

theorem itimer_evt_start_schedules_witness:
  "\<exists>mg'. itimer_evt_start 8 25 0 sample_mgr = Some mg' \<and> wheel_inv (mcore mg') \<and>
     members (mcore mg') = insert 8 (members (mcore sample_mgr)) \<and>
     wait (mcore mg') 8 = min ((unat (25 :: u32) + unat (interval sample_mgr) - 1) div unat (interval sample_mgr)) 0x70000000 \<and>
     evts mg' = (evts sample_mgr)(8 \<mapsto>
       \<lparr>period = 0, slap = 0, repeat = 0, running = 0, ecallback = 1, edata = 2, euser = 3, emgr = NULL\<rparr>
       \<lparr>period := 25, repeat := 0, slap := current sample_mgr + 25, emgr := mself sample_mgr, running := 0\<rparr>)"
  by (rule itimer_evt_start_schedules[OF sample_mgr_ok(1-3) _ sample_mgr_ok(4)]) (simp_all add: sample_mgr_ok(5))

text \<open>The loop of \<open>itimer_evt_cb\<close> ends while the clock plus a period stays below \<open>2^32\<close>; it counts one call for
  every period that has begun by now, moves the slap to the first one that has not, and stops the event
  exactly when the count reaches the repetitions left.\<close>

theorem evt_catch_up_counts_periods:
  assumes "0 < per" and "unat cur + unat per < 2 ^ 32" and "periods_due cur per sl < 2 ^ 31"
  shows "evt_catch_up cur per sl rep 0 =
     (let n = periods_due cur per sl in
      if 1 \<le> rep \<and> nat rep \<le> n then Some (sl + of_nat (nat rep) * per, 1, nat rep, True)
      else Some (sl + of_nat n * per, if 1 \<le> rep then rep - int n else rep, n, False)) \<and>
     cur < sl + of_nat (periods_due cur per sl) * per"
  using evt_catch_up_eq[OF assms(1,2), of 0 sl rep] assms(3) periods_due_past[OF assms(1,2), of sl] by (simp add: Let_def)

theorem evt_catch_up_counts_periods_witness:
  "evt_catch_up 1000 25 900 3 0 =
     (let n = periods_due 1000 25 900 in
      if 1 \<le> (3 :: int) \<and> nat 3 \<le> n then Some (900 + of_nat (nat 3) * 25, 1, nat 3, True)
      else Some (900 + of_nat n * 25, if 1 \<le> (3 :: int) then 3 - int n else 3, n, False)) \<and>
     1000 < 900 + of_nat (periods_due 1000 25 900) * (25 :: u32)"
  by (rule evt_catch_up_counts_periods) (simp_all add: periods_due_def)

text \<open>C9: \<open>itimer_mgr_run\<close> ends and catches up with the given time.  It runs one tick of the wheel per interval, from the
  manager's time on, or, when the given time is more than 300 seconds and 64 intervals away in either direction, from the
  given time, which makes it a single tick; it keeps the manager, the wheel and the events consistent, and leaves the
  manager's time past the given one.  This holds for all user functions that keep them consistent, while the 32-bit clock
  does not wrap during the run and the interval is so small (\<open>interval_ok\<close>) that the limits fit an \<open>int\<close>.\<close>

theorem itimer_mgr_run_catches_up:
  assumes "user_ok B ucall" and "B < 2 ^ 32" and inv: "mgr_inv B mg" and q: "queued (mcore mg) = []"
    and J: "timer_jiffies (mcore mg) = jiffies mg" and iv: "interval_ok (interval mg)"
    and room: "unat (current mg) + mgr_ticks ms (run_from ms mg) (interval mg) * unat (interval mg) \<le> B"
  shows "\<exists>mg' u'. itimer_mgr_run (evt_dispatch ucall) ms (mg, u) = Some (mg', u') \<and> mgr_inv B mg' \<and>
       queued (mcore mg') = [] \<and> timer_jiffies (mcore mg') = jiffies mg' \<and> sint (ms - millisec mg') < 0 \<and>
       jiffies mg' = jiffies mg + of_nat (mgr_ticks ms (run_from ms mg) (interval mg))"
  using mgr_client.client_run_ok[where ms = ms and u = u, OF evt_client[OF assms(1)] assms(2) inv TrueI q J iv room]
  by blast

text \<open>A user function that stops the event that its argument names, if there is one.\<close>

definition stop_user :: "nat evt_fn" where
  "stop_user f d a = (\<lambda>(mg, u).
     case evts mg d of
       None \<Rightarrow> Some (mg, Suc u)
     | Some ev \<Rightarrow> map_option (\<lambda>mg. (mg, Suc u)) (itimer_evt_stop d mg))"

lemma stop_user_ok: "user_ok B stop_user"
  unfolding user_ok_def
proof (intro allI impI)
  fix f d a mg and u :: nat assume inv: "mgr_inv B mg"
  show "\<exists>mg' u'. stop_user f d a (mg, u) = Some (mg', u') \<and> mgr_inv B mg' \<and> same_clock mg mg'"
    using inv evt_stop_ok[OF inv, of d] by (cases "evts mg d") (auto simp: stop_user_def)
qed

lemma sample_mgr_started_ok:
  "mgr_inv 2000 sample_mgr_started" "queued (mcore sample_mgr_started) = []"
  "timer_jiffies (mcore sample_mgr_started) = jiffies sample_mgr_started" "interval sample_mgr_started = 10"
  "current sample_mgr_started = 1000" "millisec sample_mgr_started = 1000"
proof -
  obtain nd where nd: "nodemem (mcore sample_mgr) 8 = Some nd" "state nd = ITIMER_NODE_STATE_OK" "callback nd = EVT_CB" "data nd = 8"
    using sample_mgr_ok(2) by (auto simp: evt_node_def)
  let ?ex = "jiffies sample_mgr + evt_ticks (1000 + 25) 1000 10"
  obtain w' where w': "itimer_node_add 8 ?ex (mcore sample_mgr) = Some w'" "wheel_inv w'" "node_frame 8 (mcore sample_mgr) w'"
      "members w' = insert 8 (members (mcore sample_mgr))"
      "nodemem w' 8 = Some (nd\<lparr>expires := ?ex, core := self (mcore sample_mgr)\<rparr>)"
    using itimer_node_add_ok[OF sample_mgr_ok(1) nd(1,2), of ?ex] by blast
  have c: "members (mcore sample_mgr) = {}" "queued (mcore sample_mgr) = []" "current sample_mgr = 1000"
      "interval sample_mgr = 10" "mself sample_mgr = 256" "millisec sample_mgr = 1000"
    by (auto simp: sample_mgr_def itimer_core_init_def members_def)
  have mg: "sample_mgr_started = sample_mgr\<lparr>mcore := w', evts := (evts sample_mgr)(8 \<mapsto>
      \<lparr>period = 25, slap = 1000 + 25, repeat = 0, running = 0, ecallback = 1, edata = 2, euser = 3, emgr = 256\<rparr>)\<rparr>"
    using w'(1) sample_mgr_ok(3) c by (simp add: sample_mgr_started_def itimer_evt_start_def)
  have ev: "evts sample_mgr_started e = (if e = 8 then Some \<lparr>period = 25, slap = 1000 + 25, repeat = 0, running = 0,
      ecallback = 1, edata = 2, euser = 3, emgr = 256\<rparr> else None)" for e
    unfolding mg by (simp add: sample_mgr_def)
  have "evt_node w' 8" using w'(5) nd by (simp add: evt_node_def)
  moreover have "linked_nodes w' = {8}" using w'(3,4) c by (simp add: linked_nodes_def node_frame_def)
  ultimately have "evts_ok 2000 w' sample_mgr_started"
    unfolding evts_ok_def active_def ev by (auto simp: period_ok_def split: if_splits)
  moreover have f: "mcore sample_mgr_started = w'" "mself sample_mgr_started = 256" "interval sample_mgr_started = 10"
      "current sample_mgr_started = 1000" "millisec sample_mgr_started = 1000" "jiffies sample_mgr_started = jiffies sample_mgr"
    unfolding mg by (simp_all add: c)
  ultimately show "mgr_inv 2000 sample_mgr_started"
    using w'(2) by (simp add: mgr_inv_def)
  show "queued (mcore sample_mgr_started) = []" "timer_jiffies (mcore sample_mgr_started) = jiffies sample_mgr_started"
      "interval sample_mgr_started = 10" "current sample_mgr_started = 1000" "millisec sample_mgr_started = 1000"
    using f w'(3) c(2) sample_mgr_ok(4) by (auto simp: node_frame_def)
qed

theorem itimer_mgr_run_catches_up_witness:
  "\<exists>mg' u'. itimer_mgr_run (evt_dispatch stop_user) 1100 (sample_mgr_started, 0) = Some (mg', u') \<and> mgr_inv 2000 mg' \<and>
     queued (mcore mg') = [] \<and> timer_jiffies (mcore mg') = jiffies mg' \<and> sint (1100 - millisec mg') < 0 \<and>
     jiffies mg' = jiffies sample_mgr_started +
       of_nat (mgr_ticks 1100 (run_from 1100 sample_mgr_started) (interval sample_mgr_started))"
  by (rule itimer_mgr_run_catches_up[OF stop_user_ok _ sample_mgr_started_ok(1-3)])
     (simp_all add: sample_mgr_started_ok mgr_ticks_def run_from_def interval_ok_def ITIMER_MGR_LIMIT_def)

text \<open>C27: at the last value of the 32-bit clock the loop of \<open>itimer_evt_cb\<close> does not end before its count overflows for an
  event that repeats for ever, whatever its period and slap; and one interval after the clock has wrapped past a slap, the loop
  counts no period at all and the next call is scheduled about a whole turn of the clock later.\<close>

theorem itimer_evt_cb_clock_wrap:
  "evt_catch_up (- 1) per sl 0 0 = None \<and>
   evt_catch_up 4 25 4294967290 0 0 = Some (4294967290, 0, 0, False) \<and> evt_ticks 4294967290 4 10 = 429496729"
proof -
  have "evt_catch_up (- 1) per sl 0 0 = None"
    by (cases "evt_catch_up (- 1) per sl 0 0") (auto dest: evt_catch_up_max_diverges)
  moreover have "evt_catch_up 4 25 4294967290 0 0 = Some (4294967290, 0, 0, False)"
    by (subst evt_catch_up.simps) simp
  moreover have "evt_ticks 4294967290 4 10 = 429496729"
    by (simp add: evt_ticks_def Let_def)
  ultimately show ?thesis by blast
qed

end
