(* ===== verification/ITimerPool.thy ===== *)
theory ITimerPool
  imports ITimerMgr
begin

text \<open>
  The timers shared by threads, \<open>timewheel/itimer_pool_thread\<close>.  One thread runs the manager; the others set and unset
  timers by handle and run the calls that are due for them.  The events come from a pool and are found again by handle in 1024
  buckets; when a period passes, the manager's thread copies function and arguments to a task, which it puts on the
  queue of the thread that set the timer, and \<open>itimer_update_timer\<close> of that thread makes the calls.

  The state is the manager of \<open>ITimerMgr\<close> with the events' own part, and a \<open>pool\<close> with the rest.  The links of the
  intrusive lists are sequences, as in the wheel.  Each call runs alone, except that the callbacks of
  \<open>itimer_update_timer\<close> may make further calls while it holds the mutex of its queue: \<open>locked\<close> tells so, and a
  call that takes a mutex which is held blocks for ever (\<open>None\<close>).  The results of \<open>calloc\<close> are arguments: the addresses
  of the 20 new events of a call, and for the tasks, which are numbered as they are made, which of the allocations succeed.
  The text of \<open>itimer_internal.c\<close> that is the same as in \<open>itimer.c\<close> is used from there; its further mutex protects
  the wheel within one call.
\<close>

section \<open>Data\<close>

definition DEF_ITIMER_POOL_ADD_SIZE :: nat where "DEF_ITIMER_POOL_ADD_SIZE = 20"
definition MAX_THREAD_TASK :: nat where "MAX_THREAD_TASK = 48"
definition MAX_POOL_BUCKET :: nat where "MAX_POOL_BUCKET = 1024"

text \<open>
  The fields of an event that the plain one does not have; \<open>evt_free\<close> and \<open>push_task\<close> tell whether the pointers are
  set, always to \<open>itimer_unset\<close> and \<open>itimer_push_task\<close>.
\<close>

record pool_evt =
  handle :: u64
  evt_free :: bool
  push_task :: bool
  task :: int
  ended :: int

record itimer_task =
  thandle :: u64
  tcallback :: addr
  tdata :: addr
  tuser :: addr

text \<open>A queue of tasks: \<open>used\<close> for \<open>ITIMER_TASK_USEED\<close>.\<close>

record itimer_task_q =
  used :: bool
  tid :: nat
  locked :: bool
  qtasks :: "nat list"

record pool =
  pevts :: "addr \<rightharpoonup> pool_evt"
  efree :: "addr list"
  ealloc :: u32
  eunuse :: u32
  ghandle :: u64
  bucket :: "nat \<Rightarrow> addr list"
  tasks :: "nat \<rightharpoonup> itimer_task"
  tfree :: "nat list"
  talloc :: u32
  tunuse :: u32
  tmade :: nat
  queue :: "nat \<Rightarrow> itimer_task_q"
  tkey :: "nat \<Rightarrow> int"

type_synonym pstate = "itimer_mgr \<times> pool"

section \<open>The pool of tasks\<close>

text \<open>\<open>mem\<close> tells which allocations of a task succeed; a failed one is written to at once.\<close>

definition task_new :: "(nat \<Rightarrow> bool) \<Rightarrow> pool \<Rightarrow> pool option" where
  "task_new mem p =
     (if mem (tmade p)
      then Some (p\<lparr>tasks := (tasks p)(tmade p \<mapsto> \<lparr>thandle = 0, tcallback = NULL, tdata = NULL, tuser = NULL\<rparr>),
                   tfree := tfree p @ [tmade p], tmade := tmade p + 1\<rparr>)
      else None)"

definition itimer_task_pool_add :: "(nat \<Rightarrow> bool) \<Rightarrow> nat \<Rightarrow> pool \<Rightarrow> pool option" where
  "itimer_task_pool_add mem n p = do {
     p \<leftarrow> foldM (\<lambda>_. task_new mem) [0..<n] p;
     Some (if n > 0 then p\<lparr>talloc := talloc p + of_nat n, tunuse := tunuse p + of_nat n\<rparr> else p) }"

definition itimer_task_pool_alloc :: "(nat \<Rightarrow> bool) \<Rightarrow> pool \<Rightarrow> (nat \<times> pool) option" where
  "itimer_task_pool_alloc mem p = do {
     p \<leftarrow> (if tfree p = [] then itimer_task_pool_add mem DEF_ITIMER_POOL_ADD_SIZE p else Some p);
     case tfree p of
       [] \<Rightarrow> None
     | t # ts \<Rightarrow> Some (t, p\<lparr>tfree := ts, tunuse := tunuse p - 1\<rparr>) }"

definition itimer_task_pool_free :: "nat \<Rightarrow> pool \<Rightarrow> pool" where
  "itimer_task_pool_free t p = p\<lparr>tfree := tfree p @ [t], tunuse := tunuse p + 1\<rparr>"

definition push_task_to_q :: "nat \<Rightarrow> nat \<Rightarrow> pool \<Rightarrow> (int \<times> pool) option" where
  "push_task_to_q t k p =
     (let q = queue p k in
      if k \<ge> MAX_THREAD_TASK \<or> locked q then None
      else if used q then Some (0, p\<lparr>queue := (queue p)(k := q\<lparr>qtasks := qtasks q @ [t]\<rparr>)\<rparr>)
      else Some (-1, p))"

definition itimer_push_task :: "(nat \<Rightarrow> bool) \<Rightarrow> addr \<Rightarrow> pstate \<Rightarrow> pstate option" where
  "itimer_push_task mem e = (\<lambda>(mg, p). do {
     x \<leftarrow> pevts p e;
     if task x < 0 then Some (mg, p)
     else do {
       (t, p) \<leftarrow> itimer_task_pool_alloc mem p;
       ev \<leftarrow> evts mg e;
       let p = p\<lparr>tasks := (tasks p)(t \<mapsto>
                 \<lparr>thandle = handle x, tcallback = ecallback ev, tdata = edata ev, tuser = euser ev\<rparr>)\<rparr>;
       (r, p) \<leftarrow> push_task_to_q t (nat (task x)) p;
       Some (mg, if r \<noteq> 0 then itimer_task_pool_free t p else p) } })"

section \<open>The pool of events\<close>

definition evt_new :: "addr \<Rightarrow> pstate \<Rightarrow> pstate option" where
  "evt_new a = (\<lambda>(mg, p).
     if a = NULL then None
     else Some
       (mg\<lparr>evts := (evts mg)(a \<mapsto> \<lparr>period = 0, slap = 0, repeat = 0, running = 0, ecallback = NULL, edata = NULL,
              euser = NULL, emgr = NULL\<rparr>),
           mcore := (mcore mg)\<lparr>nodemem := (nodemem (mcore mg))(a \<mapsto>
              \<lparr>expires = 0, state = 0, data = NULL, callback = NULL, core = NULL\<rparr>)\<rparr>\<rparr>,
        p\<lparr>pevts := (pevts p)(a \<mapsto> \<lparr>handle = 0, evt_free = False, push_task = False, task = 0, ended = 0\<rparr>),
          efree := efree p @ [a]\<rparr>))"

definition itimer_evt_pool_add :: "(nat \<Rightarrow> addr) \<Rightarrow> nat \<Rightarrow> pstate \<Rightarrow> pstate option" where
  "itimer_evt_pool_add new n s = do {
     (mg, p) \<leftarrow> foldM (\<lambda>i. evt_new (new i)) [0..<n] s;
     Some (mg, if n > 0 then p\<lparr>ealloc := ealloc p + of_nat n, eunuse := eunuse p + of_nat n\<rparr> else p) }"

definition itimer_bucket_hash :: "u64 \<Rightarrow> nat" where
  "itimer_bucket_hash h = unat h mod MAX_POOL_BUCKET"

definition itimer_evt_add_bucket :: "addr \<Rightarrow> pool \<Rightarrow> pool option" where
  "itimer_evt_add_bucket e p = do {
     x \<leftarrow> pevts p e;
     let k = itimer_bucket_hash (handle x);
     Some (p\<lparr>bucket := (bucket p)(k := bucket p k @ [e])\<rparr>) }"

fun bucket_find :: "(addr \<rightharpoonup> pool_evt) \<Rightarrow> u64 \<Rightarrow> addr list \<Rightarrow> addr option option" where
  "bucket_find m h [] = Some None"
| "bucket_find m h (e # es) =
     (case m e of None \<Rightarrow> None | Some x \<Rightarrow> if handle x = h then Some (Some e) else bucket_find m h es)"

definition itimer_evt_bucket_lookup :: "u64 \<Rightarrow> pool \<Rightarrow> addr option option" where
  "itimer_evt_bucket_lookup h p = bucket_find (pevts p) h (bucket p (itimer_bucket_hash h))"

text \<open>The event is taken out of the list that it is linked in.\<close>

definition itimer_evt_del_bucket :: "addr \<Rightarrow> pool \<Rightarrow> pool option" where
  "itimer_evt_del_bucket e p =
     (if e \<in> set (efree p) \<or> list_ex (\<lambda>k. e \<in> set (bucket p k)) [0..<MAX_POOL_BUCKET]
      then Some (p\<lparr>efree := remove1 e (efree p), bucket := (\<lambda>k. remove1 e (bucket p k))\<rparr>)
      else None)"

definition itimer_evt_pool_alloc :: "(nat \<Rightarrow> addr) \<Rightarrow> pstate \<Rightarrow> (addr \<times> pstate) option" where
  "itimer_evt_pool_alloc new s = do {
     (mg, p) \<leftarrow> (if efree (snd s) = [] then itimer_evt_pool_add new DEF_ITIMER_POOL_ADD_SIZE s else Some s);
     case efree p of
       [] \<Rightarrow> None
     | e # es \<Rightarrow> do {
         x \<leftarrow> pevts p e;
         p \<leftarrow> itimer_evt_add_bucket e
           (p\<lparr>efree := es, eunuse := eunuse p - 1, pevts := (pevts p)(e \<mapsto> x\<lparr>handle := ghandle p\<rparr>),
              ghandle := ghandle p + 1\<rparr>);
         Some (e, mg, p) } }"

definition itimer_evt_pool_free :: "addr \<Rightarrow> pool \<Rightarrow> pool option" where
  "itimer_evt_pool_free e p = do {
     p \<leftarrow> itimer_evt_del_bucket e p;
     Some (p\<lparr>efree := efree p @ [e], eunuse := eunuse p + 1\<rparr>) }"

section \<open>The queues of the threads\<close>

text \<open>The search for the queue of a thread from \<open>key\<close> on; -1 when all are used by others.\<close>

partial_function (option) get_task_loop ::
  "nat \<Rightarrow> nat \<Rightarrow> nat \<Rightarrow> (nat \<Rightarrow> itimer_task_q) \<Rightarrow> (int \<times> (nat \<Rightarrow> itimer_task_q)) option" where
  "get_task_loop t okey key qs =
     (if locked (qs key) then None
      else if \<not> used (qs key) then Some (int key, qs(key := (qs key)\<lparr>used := True, tid := t\<rparr>))
      else if tid (qs key) = t then Some (int key, qs)
      else let key = (if key + 1 \<ge> MAX_THREAD_TASK then 0 else key + 1) in
        if key = okey then Some (-1, qs) else get_task_loop t okey key qs)"

declare get_task_loop.simps [code]

text \<open>\<open>t\<close> is the identifier of the calling thread, whose variable \<open>key\<close> is \<open>tkey p t\<close>.\<close>

definition GetTask :: "nat \<Rightarrow> pool \<Rightarrow> (int \<times> pool) option" where
  "GetTask t p =
     (if tkey p t \<noteq> 0 then Some (tkey p t, p)
      else do {
        (k, qs) \<leftarrow> get_task_loop t (t mod MAX_THREAD_TASK) (t mod MAX_THREAD_TASK) (queue p);
        Some (k, p\<lparr>queue := qs, tkey := (tkey p)(t := k)\<rparr>) })"

section \<open>Events of the pool\<close>

definition pool_evt_destroy :: "addr \<Rightarrow> pstate \<Rightarrow> pstate option" where
  "pool_evt_destroy e = (\<lambda>(mg, p). do {
     mg \<leftarrow> itimer_evt_destroy e mg;
     x \<leftarrow> pevts p e;
     Some (mg, p\<lparr>pevts := (pevts p)(e \<mapsto> x\<lparr>ended := 0, evt_free := False, push_task := False, task := -1\<rparr>)\<rparr>) })"

definition itimer_unset :: "u64 \<Rightarrow> pstate \<Rightarrow> pstate option" where
  "itimer_unset h s =
     (if h = 0 then Some s
      else do {
        r \<leftarrow> itimer_evt_bucket_lookup h (snd s);
        case r of
          None \<Rightarrow> Some s
        | Some e \<Rightarrow> do {
            (mg, p) \<leftarrow> pool_evt_destroy e s;
            p \<leftarrow> itimer_evt_pool_free e p;
            Some (mg, p) } })"

definition itimer_set :: "nat \<Rightarrow> (nat \<Rightarrow> addr) \<Rightarrow> addr \<Rightarrow> addr \<Rightarrow> addr \<Rightarrow> u32 \<Rightarrow> int \<Rightarrow> pstate \<Rightarrow> (u64 \<times> pstate) option" where
  "itimer_set t new f d a timer rep s = do {
     (e, mg, p) \<leftarrow> itimer_evt_pool_alloc new s;
     x \<leftarrow> pevts p e;
     let p = p\<lparr>pevts := (pevts p)(e \<mapsto> x\<lparr>evt_free := True, push_task := True\<rparr>)\<rparr>;
     (k, p) \<leftarrow> GetTask t p;
     x \<leftarrow> pevts p e;
     let p = p\<lparr>pevts := (pevts p)(e \<mapsto> x\<lparr>task := k\<rparr>)\<rparr>;
     mg \<leftarrow> itimer_evt_init e f d a mg;
     mg \<leftarrow> itimer_evt_start e timer rep mg;
     Some (handle x, mg, p) }"

text \<open>The macros with which the users of the timers set and unset a handle.\<close>

definition ITIMER_THREAD_ON ::
  "nat \<Rightarrow> (nat \<Rightarrow> addr) \<Rightarrow> u64 \<Rightarrow> addr \<Rightarrow> addr \<Rightarrow> u32 \<Rightarrow> int \<Rightarrow> pstate \<Rightarrow> (u64 \<times> pstate) option" where
  "ITIMER_THREAD_ON t new h f d timer rep s = do {
     s \<leftarrow> (if h \<noteq> 0 then itimer_unset h s else Some s);
     itimer_set t new f d NULL timer rep s }"

definition ITIMER_THREAD_OFF :: "u64 \<Rightarrow> pstate \<Rightarrow> (u64 \<times> pstate) option" where
  "ITIMER_THREAD_OFF h s = (if h \<noteq> 0 then map_option (Pair 0) (itimer_unset h s) else Some (h, s))"

text \<open>The loop of the callback: one task per period, while the event has a function and runs.\<close>

fun evt_pushes :: "(nat \<Rightarrow> bool) \<Rightarrow> addr \<Rightarrow> nat \<Rightarrow> pstate \<Rightarrow> pstate option" where
  "evt_pushes mem e 0 s = Some s"
| "evt_pushes mem e (Suc n) s = do {
     ev \<leftarrow> evts (fst s) e;
     x \<leftarrow> pevts (snd s) e;
     if ecallback ev \<noteq> NULL \<and> running ev \<noteq> 0
     then Option.bind (if push_task x then itimer_push_task mem e s else Some s) (evt_pushes mem e n)
     else Some s }"

definition pool_evt_cb :: "(nat \<Rightarrow> bool) \<Rightarrow> addr \<Rightarrow> pstate \<Rightarrow> pstate option" where
  "pool_evt_cb mem e = (\<lambda>(mg, p). do {
     ev \<leftarrow> evts mg e;
     x \<leftarrow> pevts p e;
     if emgr ev = NULL then None
     else do {
       (sl, rep, cnt, stop) \<leftarrow> evt_catch_up (current mg) (period ev) (slap ev) (repeat ev) 0;
       mg \<leftarrow> upd_evt e (\<lambda>ev. ev\<lparr>slap := sl, repeat := rep\<rparr>) mg;
       mg \<leftarrow> (if \<not> stop
             then map_option (\<lambda>w. mg\<lparr>mcore := w\<rparr>)
                    (itimer_node_add e (jiffies mg + evt_ticks sl (current mg) (interval mg)) (mcore mg))
             else itimer_evt_stop e mg);
       let p = (if stop then p\<lparr>pevts := (pevts p)(e \<mapsto> x\<lparr>ended := 1\<rparr>)\<rparr> else p);
       mg \<leftarrow> upd_evt e (running_update (\<lambda>_. 1)) mg;
       (mg, p) \<leftarrow> evt_pushes mem e cnt (mg, p);
       mg \<leftarrow> upd_evt e (running_update (\<lambda>_. 0)) mg;
       x \<leftarrow> pevts p e;
       if ended x \<noteq> 0 \<and> evt_free x then itimer_unset (handle x) (mg, p) else Some (mg, p) } })"

definition pool_dispatch :: "(nat \<Rightarrow> bool) \<Rightarrow> pstate itimer_fn" where
  "pool_dispatch mem f d = (\<lambda>(w, mg, p).
     if f = EVT_CB
     then map_option (\<lambda>(mg, p). (mcore mg, mg, p)) (pool_evt_cb mem d (mg\<lparr>mcore := w\<rparr>, p))
     else None)"

text \<open>\<open>now\<close> is what \<open>GetTickMS\<close> returns, of which the manager takes the low word.\<close>

definition itimer_run :: "(nat \<Rightarrow> bool) \<Rightarrow> u64 \<Rightarrow> pstate \<Rightarrow> pstate option" where
  "itimer_run mem now = itimer_mgr_run (pool_dispatch mem) (ucast now)"

section \<open>Running the tasks of a thread\<close>

type_synonym 'u task_fn = "addr \<Rightarrow> addr \<Rightarrow> addr \<Rightarrow> pstate \<times> 'u \<Rightarrow> (pstate \<times> 'u) option"

definition set_locked :: "nat \<Rightarrow> bool \<Rightarrow> pool \<Rightarrow> pool" where
  "set_locked k b p = p\<lparr>queue := (queue p)(k := (queue p k)\<lparr>locked := b\<rparr>)\<rparr>"

definition task_run :: "'u task_fn \<Rightarrow> nat \<Rightarrow> nat \<Rightarrow> (pstate \<times> 'u) \<times> nat list \<Rightarrow> ((pstate \<times> 'u) \<times> nat list) option" where
  "task_run call k t = (\<lambda>(((mg, p), u), done). do {
     x \<leftarrow> tasks p t;
     ((mg, p), u) \<leftarrow> (if tcallback x \<noteq> NULL then call (tcallback x) (tdata x) (tuser x) ((mg, p), u)
                     else Some ((mg, p), u));
     if t \<in> set (qtasks (queue p k))
     then Some (((mg, p\<lparr>queue := (queue p)(k := (queue p k)\<lparr>qtasks := remove1 t (qtasks (queue p k))\<rparr>)\<rparr>), u), done @ [t])
     else None })"

text \<open>
  The mutex of the queue is held while the functions run, so nothing is added to the queue meanwhile and the loop goes
  through the tasks that were there.
\<close>

definition itimer_update_timer :: "'u task_fn \<Rightarrow> nat \<Rightarrow> pstate \<times> 'u \<Rightarrow> (int \<times> pstate \<times> 'u) option" where
  "itimer_update_timer call t = (\<lambda>((mg, p), u). do {
     (k, p) \<leftarrow> GetTask t p;
     if k < 0 then Some (-1, (mg, p), u)
     else do {
       let k = nat k;
       if locked (queue p k) then None
       else do {
         let p = set_locked k True p;
         (((mg, p), u), done) \<leftarrow> foldM (task_run call k) (qtasks (queue p k)) (((mg, p), u), []);
         let p = set_locked k False p;
         Some (0, (mg, fold itimer_task_pool_free done p), u) } } })"

section \<open>Setting up\<close>

definition itimer_evt_pool_init :: "pool \<Rightarrow> pool" where
  "itimer_evt_pool_init p = p\<lparr>ghandle := 1, ealloc := 0, eunuse := 0, efree := [], bucket := (\<lambda>k. [])\<rparr>"

definition itimer_task_init :: "pool \<Rightarrow> pool" where
  "itimer_task_init p = p\<lparr>queue := (\<lambda>k. \<lparr>used = False, tid = 0, locked = False, qtasks = []\<rparr>)\<rparr>"

definition itimer_task_pool_init :: "pool \<Rightarrow> pool" where
  "itimer_task_pool_init p = p\<lparr>talloc := 0, tunuse := 0, tfree := []\<rparr>"

text \<open>\<open>a\<close> and \<open>c\<close> are the addresses of the manager and of the core in it.\<close>

definition itimer_mgr_thread_init :: "addr \<Rightarrow> addr \<Rightarrow> u64 \<Rightarrow> u32 \<Rightarrow> pool \<Rightarrow> pstate option" where
  "itimer_mgr_thread_init a c now iv p =
     (if a = NULL then None
      else Some (itimer_mgr_init (ucast now) iv
        \<lparr>mself = a, interval = 0, current = 0, millisec = 0, jiffies = 0,
         mcore = \<lparr>self = c, timer_jiffies = 0, vec = (\<lambda>k i. []), queued = [], nodemem = Map.empty\<rparr>, evts = Map.empty\<rparr>,
        itimer_task_init p))"

text \<open>The two pools have been allocated; the thread itself is not started here.\<close>

definition itimer_work_init :: "addr \<Rightarrow> addr \<Rightarrow> u64 \<Rightarrow> u32 \<Rightarrow> pool \<Rightarrow> pstate option" where
  "itimer_work_init a c now iv p = itimer_mgr_thread_init a c now iv (itimer_task_pool_init (itimer_evt_pool_init p))"

text \<open>The memory before: nothing allocated and no thread has a queue.\<close>

definition pool_start :: pool where
  "pool_start = \<lparr>pevts = Map.empty, efree = [], ealloc = 0, eunuse = 0, ghandle = 0, bucket = (\<lambda>k. []), tasks = Map.empty,
     tfree = [], talloc = 0, tunuse = 0, tmade = 0,
     queue = (\<lambda>k. \<lparr>used = False, tid = 0, locked = False, qtasks = []\<rparr>), tkey = (\<lambda>t. 0)\<rparr>"

end
