(* ===== verification/ITimerPoolInv.thy ===== *)
theory ITimerPoolInv
  imports ITimerPool
begin

text \<open>
  The invariant of the timers shared by threads and the properties of their calls: the queues and the search of a thread
  for its own, the tasks and where each of them is, the events with their handles, and the manager whose client they are.
\<close>

section \<open>The search for a queue\<close>

text \<open>The order in which the queues are tried, and the result of the search in terms of it.\<close>

definition q_order :: "nat \<Rightarrow> nat list" where
  "q_order t = map (\<lambda>i. (t + i) mod MAX_THREAD_TASK) [0..<MAX_THREAD_TASK]"

fun search_q :: "nat \<Rightarrow> nat list \<Rightarrow> (nat \<Rightarrow> itimer_task_q) \<Rightarrow> int \<times> (nat \<Rightarrow> itimer_task_q)" where
  "search_q t [] qs = (-1, qs)"
| "search_q t (k # ks) qs =
     (if \<not> used (qs k) then (int k, qs(k := (qs k)\<lparr>used := True, tid := t\<rparr>))
      else if tid (qs k) = t then (int k, qs) else search_q t ks qs)"

lemma next_key: "(if (t + i) mod 48 + 1 \<ge> (48 :: nat) then 0 else (t + i) mod 48 + 1) = (t + Suc i) mod 48"
  by (metis Suc_eq_plus1 Suc_leI add_Suc_right le_antisym mod_Suc mod_less_divisor zero_less_numeral)

lemma key_back: "i < 48 \<Longrightarrow> (t + Suc i) mod 48 = t mod 48 \<longleftrightarrow> i = (47 :: nat)"
proof -
  assume i: "i < 48"
  have "(t + Suc i) mod 48 = t mod 48 \<longleftrightarrow> 48 dvd Suc i"
    using mod_eq_dvd_iff_nat[of t "t + Suc i" 48] by simp
  also have "\<dots> \<longleftrightarrow> i = 47"
    using i dvd_imp_le[of 48 "Suc i"] by auto
  finally show ?thesis .
qed

lemma get_task_loop_search:
  assumes free: "\<And>k. \<not> locked (qs k)"
  shows "i < 48 \<Longrightarrow> get_task_loop t (t mod 48) ((t + i) mod 48) qs =
    Some (search_q t (map (\<lambda>i. (t + i) mod 48) [i..<48]) qs)"
proof (induction "47 - i" arbitrary: i)
  case 0
  then have i: "i = 47" by simp
  show ?case
    using free key_back[of i t] next_key[of t i] unfolding i
    by (subst get_task_loop.simps) (simp add: MAX_THREAD_TASK_def)
next
  case (Suc n)
  have u: "[i..<48] = i # [Suc i..<48]" using Suc(3) by (simp add: upt_conv_Cons)
  have "get_task_loop t (t mod 48) ((t + Suc i) mod 48) qs =
      Some (search_q t (map (\<lambda>i. (t + i) mod 48) [Suc i..<48]) qs)"
    using Suc by (intro Suc(1)) auto
  then show ?case
    using free key_back[of i t] next_key[of t i] Suc(2,3) unfolding u
    by (subst get_task_loop.simps) (simp add: MAX_THREAD_TASK_def)
qed

lemma GetTask_eq:
  assumes "\<And>k. \<not> locked (queue p k)"
  shows "GetTask t p =
     Some (if tkey p t \<noteq> 0 then (tkey p t, p)
           else (fst (search_q t (q_order t) (queue p)),
                 p\<lparr>queue := snd (search_q t (q_order t) (queue p)),
                   tkey := (tkey p)(t := fst (search_q t (q_order t) (queue p)))\<rparr>))"
  using get_task_loop_search[OF assms, of 0 t]
  by (cases "search_q t (q_order t) (queue p)") (simp add: GetTask_def q_order_def MAX_THREAD_TASK_def)

section \<open>The invariant of the queues\<close>

text \<open>
  The queues whose mutex is held are those in \<open>L\<close>; no two queues have the same thread; when a thread has a queue,
  those that its search tries first are used, so that it finds its own again; and what a thread remembers is true.
\<close>

definition queues_ok :: "nat set \<Rightarrow> pool \<Rightarrow> bool" where
  "queues_ok L p \<longleftrightarrow> (\<forall>k. locked (queue p k) \<longleftrightarrow> k \<in> L) \<and>
     (\<forall>k k'. used (queue p k) \<longrightarrow> used (queue p k') \<longrightarrow> tid (queue p k) = tid (queue p k') \<longrightarrow> k = k') \<and>
     (\<forall>k. used (queue p k) \<longrightarrow> (\<exists>ks ks'. q_order (tid (queue p k)) = ks @ k # ks' \<and> (\<forall>j \<in> set ks. used (queue p j)))) \<and>
     (\<forall>t. tkey p t > 0 \<longrightarrow> used (queue p (nat (tkey p t))) \<and> tid (queue p (nat (tkey p t))) = t) \<and>
     (\<forall>t. tkey p t < 0 \<longrightarrow> tkey p t = -1 \<and> (\<forall>k. used (queue p k) \<longrightarrow> tid (queue p k) \<noteq> t))"

lemma q_order_range: "k \<in> set (q_order t) \<Longrightarrow> k < MAX_THREAD_TASK"
  by (auto simp: q_order_def MAX_THREAD_TASK_def)

lemma queues_used_range: "queues_ok L p \<Longrightarrow> used (queue p k) \<Longrightarrow> k < MAX_THREAD_TASK"
  unfolding queues_ok_def by (metis in_set_conv_decomp q_order_range)

text \<open>What the search gives: the first queue that is free or the thread's own.\<close>

lemma search_q_cases:
  obtains (none) "search_q t ks qs = (-1, qs)" "\<forall>k \<in> set ks. used (qs k) \<and> tid (qs k) \<noteq> t"
  | (found) ks1 k ks2 where "ks = ks1 @ k # ks2" "\<forall>j \<in> set ks1. used (qs j) \<and> tid (qs j) \<noteq> t"
      "used (qs k)" "tid (qs k) = t" "search_q t ks qs = (int k, qs)"
  | (new) ks1 k ks2 where "ks = ks1 @ k # ks2" "\<forall>j \<in> set ks1. used (qs j) \<and> tid (qs j) \<noteq> t"
      "\<not> used (qs k)" "search_q t ks qs = (int k, qs(k := (qs k)\<lparr>used := True, tid := t\<rparr>))"
proof -
  have "(search_q t ks qs = (-1, qs) \<and> (\<forall>k \<in> set ks. used (qs k) \<and> tid (qs k) \<noteq> t)) \<or>
     (\<exists>ks1 k ks2. ks = ks1 @ k # ks2 \<and> (\<forall>j \<in> set ks1. used (qs j) \<and> tid (qs j) \<noteq> t) \<and>
       (used (qs k) \<and> tid (qs k) = t \<and> search_q t ks qs = (int k, qs) \<or>
        \<not> used (qs k) \<and> search_q t ks qs = (int k, qs(k := (qs k)\<lparr>used := True, tid := t\<rparr>))))"
  proof (induction ks)
    case (Cons k ks)
    show ?case
    proof (cases "used (qs k) \<and> tid (qs k) \<noteq> t")
      case True
      from Cons show ?thesis
      proof (elim disjE conjE exE)
        assume "search_q t ks qs = (-1, qs)" "\<forall>k \<in> set ks. used (qs k) \<and> tid (qs k) \<noteq> t"
        then show ?thesis using True by simp
      next
        fix ks1 k' ks2
        assume "ks = ks1 @ k' # ks2" "\<forall>j \<in> set ks1. used (qs j) \<and> tid (qs j) \<noteq> t"
          "used (qs k')" "tid (qs k') = t" "search_q t ks qs = (int k', qs)"
        then show ?thesis using True by - (rule disjI2, rule exI[of _ "k # ks1"], rule exI[of _ k'], rule exI[of _ ks2], simp)
      next
        fix ks1 k' ks2
        assume "ks = ks1 @ k' # ks2" "\<forall>j \<in> set ks1. used (qs j) \<and> tid (qs j) \<noteq> t"
          "\<not> used (qs k')" "search_q t ks qs = (int k', qs(k' := (qs k')\<lparr>used := True, tid := t\<rparr>))"
        then show ?thesis using True by - (rule disjI2, rule exI[of _ "k # ks1"], rule exI[of _ k'], rule exI[of _ ks2], simp add: fun_upd_def)
      qed
    next
      case False
      then show ?thesis by - (rule disjI2, rule exI[of _ "[]"], rule exI[of _ k], rule exI[of _ ks], auto)
    qed
  qed simp
  then show ?thesis using none found new by blast
qed

text \<open>\<open>GetTask\<close> returns, keeps the queues in order, and gives the thread a queue of its own, or -1.\<close>

lemma queues_okD:
  assumes "queues_ok L p"
  shows "locked (queue p k) \<longleftrightarrow> k \<in> L"
    and "used (queue p k) \<Longrightarrow> used (queue p k') \<Longrightarrow> tid (queue p k) = tid (queue p k') \<Longrightarrow> k = k'"
    and "used (queue p k) \<Longrightarrow> \<exists>ks ks'. q_order (tid (queue p k)) = ks @ k # ks' \<and> (\<forall>j \<in> set ks. used (queue p j))"
    and "tkey p t > 0 \<Longrightarrow> used (queue p (nat (tkey p t))) \<and> tid (queue p (nat (tkey p t))) = t"
    and "tkey p t < 0 \<Longrightarrow> tkey p t = -1 \<and> (\<forall>k. used (queue p k) \<longrightarrow> tid (queue p k) \<noteq> t)"
  using assms unfolding queues_ok_def by blast+

lemma GetTask_ok:
  assumes ok: "queues_ok {} p"
  shows "\<exists>k qs. GetTask t p = Some (k, p\<lparr>queue := qs, tkey := (tkey p)(t := k)\<rparr>) \<and>
     queues_ok {} (p\<lparr>queue := qs, tkey := (tkey p)(t := k)\<rparr>) \<and>
     (k = -1 \<or> 0 \<le> k \<and> k < int MAX_THREAD_TASK \<and> used (qs (nat k)) \<and> tid (qs (nat k)) = t) \<and>
     (\<forall>j. qtasks (qs j) = qtasks (queue p j) \<and> (used (queue p j) \<longrightarrow> qs j = queue p j))"
proof (cases "tkey p t = 0")
  case False
  have eq: "p\<lparr>queue := queue p, tkey := (tkey p)(t := tkey p t)\<rparr> = p" by simp
  have "tkey p t = -1 \<or> 0 \<le> tkey p t \<and> tkey p t < int MAX_THREAD_TASK \<and> used (queue p (nat (tkey p t))) \<and>
      tid (queue p (nat (tkey p t))) = t"
    using False queues_okD(4,5)[OF ok, of t] queues_used_range[OF ok, of "nat (tkey p t)"] by linarith
  then show ?thesis
    using False ok GetTask_eq[of p t] queues_okD(1)[OF ok] eq
    by (intro exI[of _ "tkey p t"] exI[of _ "queue p"]) simp
next
  case True
  have get: "GetTask t p = Some (k, p\<lparr>queue := qs, tkey := (tkey p)(t := k)\<rparr>)"
    if "search_q t (q_order t) (queue p) = (k, qs)" for k qs
    using True that GetTask_eq[of p t] queues_okD(1)[OF ok] by simp
  show ?thesis
  proof (cases rule: search_q_cases[of t "q_order t" "queue p"])
    case none
    have "tid (queue p k) \<noteq> t" if "used (queue p k)" for k
      using queues_okD(3)[OF ok that] none(2) by auto
    then have "queues_ok {} (p\<lparr>tkey := (tkey p)(t := -1)\<rparr>)"
      using ok unfolding queues_ok_def by simp
    then show ?thesis using get[OF none(1)] by (intro exI[of _ "-1"] exI[of _ "queue p"]) simp
  next
    case (found ks1 k ks2)
    have r: "k < MAX_THREAD_TASK" using q_order_range[of k t] found(1) by simp
    have "queues_ok {} (p\<lparr>tkey := (tkey p)(t := int k)\<rparr>)"
      using ok found(3,4) unfolding queues_ok_def by simp
    then show ?thesis using get[OF found(5)] r found(3,4)
      by (intro exI[of _ "int k"] exI[of _ "queue p"]) simp
  next
    case (new ks1 k ks2)
    let ?qs = "(queue p)(k := (queue p k)\<lparr>used := True, tid := t\<rparr>)"
    have r: "k < MAX_THREAD_TASK" using q_order_range[of k t] new(1) by simp
    have none: "tid (queue p k0) \<noteq> t" if u: "used (queue p k0)" for k0
    proof
      assume t: "tid (queue p k0) = t"
      obtain ks ks' where ks: "q_order t = ks @ k0 # ks'" "\<forall>j \<in> set ks. used (queue p j)"
        using queues_okD(3)[OF ok u] t by auto
      show False
        using new(1-3) ks t u by (auto simp: append_eq_append_conv2 append_eq_Cons_conv Cons_eq_append_conv)
    qed
    have "queues_ok {} (p\<lparr>queue := ?qs, tkey := (tkey p)(t := int k)\<rparr>)"
      unfolding queues_ok_def
    proof (intro conjI allI impI)
      fix j assume u: "used (queue (p\<lparr>queue := ?qs, tkey := (tkey p)(t := int k)\<rparr>) j)"
      have "\<exists>ks ks'. q_order (tid (?qs j)) = ks @ j # ks' \<and> (\<forall>i \<in> set ks. used (queue p i))"
      proof (cases "j = k")
        case True
        then show ?thesis using new(1,2) by auto
      next
        case False
        then show ?thesis using queues_okD(3)[OF ok, of j] u by simp
      qed
      then show "\<exists>ks ks'. q_order (tid (queue (p\<lparr>queue := ?qs, tkey := (tkey p)(t := int k)\<rparr>) j)) = ks @ j # ks' \<and>
          (\<forall>j \<in> set ks. used (queue (p\<lparr>queue := ?qs, tkey := (tkey p)(t := int k)\<rparr>) j))"
        by (force simp: fun_upd_def)
    qed (use ok none queues_okD[OF ok] new(3) in \<open>auto split: if_splits\<close>)
    then show ?thesis using get[OF new(4)] r new(3)
      by (intro exI[of _ "int k"] exI[of _ ?qs]) simp
  qed
qed

section \<open>The invariant of the tasks\<close>

text \<open>
  Every task that was made is in exactly one place: the free list, one queue, or the tasks \<open>H\<close> that the running call
  holds; only used queues have tasks; and the counters agree.
\<close>

definition tasks_ok :: "nat list \<Rightarrow> pool \<Rightarrow> bool" where
  "tasks_ok H p \<longleftrightarrow> distinct (tfree p @ H) \<and> (\<forall>k. distinct (qtasks (queue p k))) \<and>
     (\<forall>k t. t \<in> set (qtasks (queue p k)) \<longrightarrow> t \<notin> set (tfree p @ H) \<and> used (queue p k)) \<and>
     (\<forall>k k' t. t \<in> set (qtasks (queue p k)) \<longrightarrow> t \<in> set (qtasks (queue p k')) \<longrightarrow> k = k') \<and>
     set (tfree p @ H) \<union> (\<Union>k. set (qtasks (queue p k))) = {..<tmade p} \<and> dom (tasks p) = {..<tmade p} \<and>
     talloc p = of_nat (tmade p) \<and> tunuse p = of_nat (length (tfree p))"

text \<open>The calls that wait on a queue.\<close>

definition pending :: "pool \<Rightarrow> nat \<Rightarrow> (addr \<times> addr \<times> addr) list" where
  "pending p k = map (\<lambda>t. let x = the (tasks p t) in (tcallback x, tdata x, tuser x)) (qtasks (queue p k))"

text \<open>What the operations on tasks leave alone.\<close>

definition task_frame :: "pool \<Rightarrow> pool \<Rightarrow> bool" where
  "task_frame p p' \<longleftrightarrow> pevts p' = pevts p \<and> efree p' = efree p \<and> ealloc p' = ealloc p \<and> eunuse p' = eunuse p \<and>
     ghandle p' = ghandle p \<and> bucket p' = bucket p \<and> tkey p' = tkey p \<and>
     (\<forall>k. used (queue p' k) = used (queue p k) \<and> tid (queue p' k) = tid (queue p k) \<and>
        locked (queue p' k) = locked (queue p k))"

lemma task_frame_refl [simp]: "task_frame p p"
  by (simp add: task_frame_def)

lemma task_frame_trans: "task_frame p p' \<Longrightarrow> task_frame p' p'' \<Longrightarrow> task_frame p p''"
  by (simp add: task_frame_def)

lemma task_frame_queues: "task_frame p p' \<Longrightarrow> queues_ok L p' = queues_ok L p"
  by (simp add: task_frame_def queues_ok_def)

lemma pending_cong:
  assumes "qtasks (queue p' k) = qtasks (queue p k)"
    and "\<And>t. t \<in> set (qtasks (queue p k)) \<Longrightarrow> tasks p' t = tasks p t"
  shows "pending p' k = pending p k"
  using assms by (simp add: pending_def)

lemma task_new_run:
  assumes "\<forall>i. mem i"
  shows "foldM (\<lambda>_. task_new mem) [0..<n] p = Some (p\<lparr>
     tasks := (\<lambda>t. if tmade p \<le> t \<and> t < tmade p + n
                   then Some \<lparr>thandle = 0, tcallback = NULL, tdata = NULL, tuser = NULL\<rparr> else tasks p t),
     tfree := tfree p @ [tmade p..<tmade p + n], tmade := tmade p + n\<rparr>)"
proof (induction n)
  case 0
  have "(\<lambda>t. if tmade p \<le> t \<and> t < tmade p + 0 then Some z else tasks p t) = tasks p" for z
    by (auto simp: fun_eq_iff)
  then show ?case by simp
next
  case (Suc n)
  then show ?case using assms by (auto simp: foldM_append task_new_def fun_eq_iff)
qed

lemma itimer_task_pool_add_ok:
  assumes mem: "\<forall>i. mem i" and ok: "tasks_ok H p" and n: "0 < n"
  shows "\<exists>p'. itimer_task_pool_add mem n p = Some p' \<and> tasks_ok H p' \<and> task_frame p p' \<and> queue p' = queue p \<and>
     (\<forall>k. pending p' k = pending p k) \<and> tfree p' = tfree p @ [tmade p..<tmade p + n]"
proof -
  let ?z = "\<lparr>thandle = 0, tcallback = NULL, tdata = NULL, tuser = NULL\<rparr>"
  define p' where "p' = p\<lparr>tasks := (\<lambda>t. if tmade p \<le> t \<and> t < tmade p + n then Some ?z else tasks p t),
     tfree := tfree p @ [tmade p..<tmade p + n], tmade := tmade p + n,
     talloc := talloc p + of_nat n, tunuse := tunuse p + of_nat n\<rparr>"
  have run: "itimer_task_pool_add mem n p = Some p'"
    using n by (simp add: itimer_task_pool_add_def task_new_run[OF mem] p'_def)
  have old: "t < tmade p" if "t \<in> set (tfree p @ H) \<or> t \<in> set (qtasks (queue p k))" for t k
    using ok that unfolding tasks_ok_def by blast
  have d: "dom (tasks p') = {..<tmade p + n}"
  proof -
    have "dom (tasks p') = dom (tasks p) \<union> {tmade p..<tmade p + n}" by (auto simp: p'_def split: if_splits)
    also have "dom (tasks p) = {..<tmade p}" using ok by (simp add: tasks_ok_def)
    finally show ?thesis by auto
  qed
  have dist: "distinct (tfree p' @ H)"
    using ok old by (fastforce simp: p'_def tasks_ok_def)
  have all: "set (tfree p' @ H) \<union> (\<Union>k. set (qtasks (queue p' k))) = {..<tmade p'}"
  proof -
    have "set (tfree p' @ H) \<union> (\<Union>k. set (qtasks (queue p' k))) =
        (set (tfree p @ H) \<union> (\<Union>k. set (qtasks (queue p k)))) \<union> {tmade p..<tmade p + n}"
      by (auto simp: p'_def)
    also have "\<dots> = {..<tmade p} \<union> {tmade p..<tmade p + n}"
      using ok by (simp add: tasks_ok_def)
    finally show ?thesis by (auto simp: p'_def)
  qed
  have "tasks_ok H p'"
    unfolding tasks_ok_def
  proof (intro conjI allI impI)
    fix k t assume "t \<in> set (qtasks (queue p' k))"
    then have t: "t \<in> set (qtasks (queue p k))" by (simp add: p'_def)
    then show "t \<notin> set (tfree p' @ H)" "used (queue p' k)"
      using ok old[of t k] unfolding tasks_ok_def by (auto simp: p'_def)
  qed (use ok dist all d in \<open>auto simp: tasks_ok_def p'_def\<close>)
  moreover have "pending p' k = pending p k" for k
    using old[of _ k] by (intro pending_cong) (fastforce simp: p'_def)+
  ultimately show ?thesis
    using run by (auto simp: p'_def task_frame_def)
qed

lemma itimer_task_pool_alloc_ok:
  assumes mem: "\<forall>i. mem i" and ok: "tasks_ok H p"
  shows "\<exists>t p'. itimer_task_pool_alloc mem p = Some (t, p') \<and> tasks_ok (t # H) p' \<and> task_frame p p' \<and>
     queue p' = queue p \<and> (\<forall>k. pending p' k = pending p k)"
proof -
  obtain p1 where p1: "(if tfree p = [] then itimer_task_pool_add mem DEF_ITIMER_POOL_ADD_SIZE p else Some p) = Some p1"
      "tasks_ok H p1" "task_frame p p1" "queue p1 = queue p" "\<forall>k. pending p1 k = pending p k" "tfree p1 \<noteq> []"
  proof (cases "tfree p = []")
    case True
    then show ?thesis
      using itimer_task_pool_add_ok[OF mem ok, of 20] that by (auto simp: DEF_ITIMER_POOL_ADD_SIZE_def)
  next
    case False
    then show ?thesis using ok that by simp
  qed
  obtain t ts where t: "tfree p1 = t # ts" using p1(6) by (cases "tfree p1") auto
  let ?p = "p1\<lparr>tfree := ts, tunuse := tunuse p1 - 1\<rparr>"
  have "tasks_ok (t # H) ?p"
    using p1(2) t by (auto simp: tasks_ok_def)
  moreover have "itimer_task_pool_alloc mem p = Some (t, ?p)"
    using p1(1) t by (simp add: itimer_task_pool_alloc_def)
  ultimately show ?thesis
    using p1(3-5) by (intro exI[of _ t] exI[of _ ?p]) (simp add: task_frame_def pending_def)
qed

lemma itimer_task_pool_free_ok:
  assumes "tasks_ok (t # H) p"
  shows "tasks_ok H (itimer_task_pool_free t p)" and "task_frame p (itimer_task_pool_free t p)"
    and "queue (itimer_task_pool_free t p) = queue p" and "pending (itimer_task_pool_free t p) k = pending p k"
  using assms by (auto simp: itimer_task_pool_free_def tasks_ok_def task_frame_def pending_def)

lemma push_task_to_q_ok:
  assumes ok: "tasks_ok (t # H) p" and k: "k < MAX_THREAD_TASK" "\<not> locked (queue p k)" "used (queue p k)"
  shows "\<exists>p'. push_task_to_q t k p = Some (0, p') \<and> tasks_ok H p' \<and> task_frame p p' \<and> tasks p' = tasks p \<and>
     (\<forall>j. qtasks (queue p' j) = qtasks (queue p j) @ (if j = k then [t] else []))"
proof -
  let ?p = "p\<lparr>queue := (queue p)(k := (queue p k)\<lparr>qtasks := qtasks (queue p k) @ [t]\<rparr>)\<rparr>"
  have q: "set (qtasks (queue ?p j)) = set (qtasks (queue p j)) \<union> (if j = k then {t} else {})" for j
    by simp
  have nt: "t \<notin> set (qtasks (queue p j))" for j
    using ok by (auto simp: tasks_ok_def)
  have u: "(\<Union>j. set (qtasks (queue ?p j))) = insert t (\<Union>j. set (qtasks (queue p j)))"
    unfolding q by (auto split: if_splits)
  have "tasks_ok H ?p"
    unfolding tasks_ok_def u
  proof (intro conjI allI impI)
    fix j j' s assume "s \<in> set (qtasks (queue ?p j))" "s \<in> set (qtasks (queue ?p j'))"
    then show "j = j'"
      using ok nt unfolding q tasks_ok_def by (auto split: if_splits)
  next
    fix j s assume "s \<in> set (qtasks (queue ?p j))"
    then show "s \<notin> set (tfree ?p @ H)" "used (queue ?p j)"
      using ok k unfolding q tasks_ok_def by (auto split: if_splits)
  next
    fix j show "distinct (qtasks (queue ?p j))" using ok nt[of k] by (auto simp: tasks_ok_def)
  qed (use ok in \<open>auto simp: tasks_ok_def\<close>)
  moreover have "push_task_to_q t k p = Some (0, ?p)"
    using k by (simp add: push_task_to_q_def Let_def)
  ultimately show ?thesis
    by (intro exI[of _ ?p]) (auto simp: task_frame_def)
qed

text \<open>Pushing a task: the calls that wait on the queue of the event get one more.\<close>

definition target_ok :: "pool \<Rightarrow> pool_evt \<Rightarrow> bool" where
  "target_ok p x \<longleftrightarrow> task x = -1 \<or> 0 \<le> task x \<and> task x < int MAX_THREAD_TASK \<and> used (queue p (nat (task x)))"

definition call_of :: "itimer_evt \<Rightarrow> addr \<times> addr \<times> addr" where
  "call_of ev = (ecallback ev, edata ev, euser ev)"

lemma itimer_push_task_ok:
  assumes mem: "\<forall>i. mem i" and ok: "tasks_ok H p" and x: "pevts p e = Some x" and ev: "evts mg e = Some ev"
    and tg: "target_ok p x" and free: "\<And>k. \<not> locked (queue p k)"
  shows "\<exists>p'. itimer_push_task mem e (mg, p) = Some (mg, p') \<and> tasks_ok H p' \<and> task_frame p p' \<and>
     (\<forall>k. pending p' k = pending p k @ (if task x = int k then [call_of ev] else []))"
proof (cases "task x < 0")
  case True
  then show ?thesis using x ok by (auto simp: itimer_push_task_def)
next
  case False
  then have k: "nat (task x) < MAX_THREAD_TASK" "used (queue p (nat (task x)))" "task x = int k \<longleftrightarrow> nat (task x) = k" for k
    using tg by (auto simp: target_ok_def)
  obtain t p1 where p1: "itimer_task_pool_alloc mem p = Some (t, p1)" "tasks_ok (t # H) p1" "task_frame p p1"
      "queue p1 = queue p" "\<forall>k. pending p1 k = pending p k"
    using itimer_task_pool_alloc_ok[OF mem ok] by blast
  let ?t = "\<lparr>thandle = handle x, tcallback = ecallback ev, tdata = edata ev, tuser = euser ev\<rparr>"
  let ?p = "p1\<lparr>tasks := (tasks p1)(t \<mapsto> ?t)\<rparr>"
  have nt: "t \<notin> set (qtasks (queue p1 j))" for j using p1(2) by (auto simp: tasks_ok_def)
  have "t \<in> dom (tasks p1)" using p1(2) by (auto simp: tasks_ok_def)
  then have "tasks_ok (t # H) ?p" using p1(2) by (auto simp: tasks_ok_def insert_absorb)
  then obtain p2 where p2: "push_task_to_q t (nat (task x)) ?p = Some (0, p2)" "tasks_ok H p2" "task_frame ?p p2"
      "tasks p2 = tasks ?p" "\<forall>j. qtasks (queue p2 j) = qtasks (queue ?p j) @ (if j = nat (task x) then [t] else [])"
    using push_task_to_q_ok[of t H ?p "nat (task x)"] k p1(4) free by auto
  have "pending p2 j = pending p j @ (if task x = int j then [call_of ev] else [])" for j
  proof -
    have "pending ?p j = pending p1 j"
      using nt[of j] by (intro pending_cong) auto
    moreover have "pending p2 j = pending ?p j @ (if nat (task x) = j then [call_of ev] else [])"
      using p2(4) p2(5)[rule_format, of j] by (simp add: pending_def call_of_def Let_def)
    ultimately show ?thesis unfolding k(3) using p1(5)[rule_format, of j] by (simp only:)
  qed
  moreover have "itimer_push_task mem e (mg, p) = Some (mg, p2)"
    using False x ev p1(1) p2(1) by (simp add: itimer_push_task_def)
  moreover have "task_frame p1 ?p" by (simp add: task_frame_def)
  then have "task_frame p p2" using p1(3) p2(3) task_frame_trans by blast
  ultimately show ?thesis using p2(2) by blast
qed

section \<open>The invariant of the events\<close>

definition live :: "pool \<Rightarrow> addr set" where
  "live p = {e. \<exists>k. e \<in> set (bucket p k)}"

text \<open>
  Every event that was made is either free or in the bucket of its handle; live events have different handles, below
  the next one; and the counters agree.
\<close>

definition events_ok :: "pool \<Rightarrow> bool" where
  "events_ok p \<longleftrightarrow> distinct (efree p) \<and> (\<forall>k. distinct (bucket p k)) \<and>
     (\<forall>k e. e \<in> set (bucket p k) \<longrightarrow> e \<notin> set (efree p) \<and>
        (\<exists>x. pevts p e = Some x \<and> k = itimer_bucket_hash (handle x) \<and> 0 < handle x \<and> handle x < ghandle p)) \<and>
     (\<forall>e e' x x'. e \<in> live p \<longrightarrow> e' \<in> live p \<longrightarrow> pevts p e = Some x \<longrightarrow> pevts p e' = Some x' \<longrightarrow>
        handle x = handle x' \<longrightarrow> e = e') \<and>
     set (efree p) \<union> live p = dom (pevts p) \<and> ealloc p = of_nat (card (dom (pevts p))) \<and>
     eunuse p = of_nat (length (efree p)) \<and> 0 < ghandle p"

lemma events_okD:
  assumes "events_ok p"
  shows "distinct (efree p)" and "distinct (bucket p k)" and "e \<in> set (bucket p k) \<Longrightarrow> e \<notin> set (efree p)"
    and "e \<in> set (bucket p k) \<Longrightarrow>
      \<exists>x. pevts p e = Some x \<and> k = itimer_bucket_hash (handle x) \<and> 0 < handle x \<and> handle x < ghandle p"
    and "e \<in> live p \<Longrightarrow> e' \<in> live p \<Longrightarrow> pevts p e = Some x \<Longrightarrow> pevts p e' = Some x' \<Longrightarrow> handle x = handle x' \<Longrightarrow> e = e'"
    and "set (efree p) \<union> live p = dom (pevts p)"
    and "ealloc p = of_nat (card (dom (pevts p)))" and "eunuse p = of_nat (length (efree p))" and "0 < ghandle p"
  using assms unfolding events_ok_def by blast+

lemma live_bucket: "e \<in> set (bucket p k) \<Longrightarrow> e \<in> live p"
  by (auto simp: live_def)

lemma live_evt:
  assumes "events_ok p" and "e \<in> live p"
  obtains x where "pevts p e = Some x" "e \<in> set (bucket p (itimer_bucket_hash (handle x)))" "0 < handle x"
    "handle x < ghandle p" "e \<notin> set (efree p)"
proof -
  obtain k where k: "e \<in> set (bucket p k)" using assms(2) by (auto simp: live_def)
  then show ?thesis using events_okD(3,4)[OF assms(1) k] that by blast
qed

lemma task_frame_events: "task_frame p p' \<Longrightarrow> events_ok p' = events_ok p" and task_frame_live: "task_frame p p' \<Longrightarrow> live p' = live p"
  by (simp_all add: task_frame_def events_ok_def live_def)

text \<open>A change of an event that keeps its handle.\<close>

lemma events_upd:
  assumes ok: "events_ok p" and x: "pevts p e = Some x" and y: "handle y = handle x"
  shows "events_ok (p\<lparr>pevts := (pevts p)(e \<mapsto> y)\<rparr>)"
proof -
  let ?p = "p\<lparr>pevts := (pevts p)(e \<mapsto> y)\<rparr>"
  have l: "live ?p = live p" by (simp add: live_def)
  have d: "dom (pevts ?p) = dom (pevts p)" using x by auto
  have h: "\<exists>z'. pevts p e' = Some z' \<and> handle z' = handle z" if "pevts ?p e' = Some z" for e' z
    using that x y by (cases "e' = e") auto
  show ?thesis
    unfolding events_ok_def
  proof (intro conjI allI impI)
    fix k e' assume "e' \<in> set (bucket ?p k)"
    then have k: "e' \<in> set (bucket p k)" by simp
    then show "e' \<notin> set (efree ?p)" using events_okD(3)[OF ok] by simp
    show "\<exists>x. pevts ?p e' = Some x \<and> k = itimer_bucket_hash (handle x) \<and> 0 < handle x \<and> handle x < ghandle ?p"
      using events_okD(4)[OF ok k] x y by (cases "e' = e") auto
  next
    fix e1 e2 x1 x2
    assume a: "e1 \<in> live ?p" "e2 \<in> live ?p" "pevts ?p e1 = Some x1" "pevts ?p e2 = Some x2" "handle x1 = handle x2"
    obtain y1 y2 where "pevts p e1 = Some y1" "pevts p e2 = Some y2" "handle y1 = handle y2"
      using h[OF a(3)] h[OF a(4)] a(5) by metis
    then show "e1 = e2" using events_okD(5)[OF ok] a(1,2) unfolding l by blast
  next
    show "set (efree ?p) \<union> live ?p = dom (pevts ?p)" using events_okD(6)[OF ok] l d by simp
    show "ealloc ?p = of_nat (card (dom (pevts ?p)))" using events_okD(7)[OF ok] d by simp
  qed (use events_okD[OF ok] in simp_all)
qed

text \<open>The search by handle.\<close>

lemma bucket_find_ok:
  assumes "\<And>e. e \<in> set es \<Longrightarrow> e \<in> dom m"
  shows "\<exists>r. bucket_find m h es = Some r \<and>
    (case r of None \<Rightarrow> \<forall>e \<in> set es. \<forall>x. m e = Some x \<longrightarrow> handle x \<noteq> h
             | Some e \<Rightarrow> e \<in> set es \<and> (\<exists>x. m e = Some x \<and> handle x = h))"
  using assms
proof (induction es)
  case (Cons e es)
  obtain x where x: "m e = Some x" using Cons.prems[of e] by auto
  obtain r where "bucket_find m h es = Some r"
    "case r of None \<Rightarrow> \<forall>e \<in> set es. \<forall>x. m e = Some x \<longrightarrow> handle x \<noteq> h
             | Some e \<Rightarrow> e \<in> set es \<and> (\<exists>x. m e = Some x \<and> handle x = h)"
    using Cons by auto
  then show ?case using x by (auto split: option.splits)
qed simp

lemma lookup_cases:
  assumes ok: "events_ok p"
  obtains (none) "itimer_evt_bucket_lookup h p = Some None" "\<forall>e \<in> live p. \<forall>x. pevts p e = Some x \<longrightarrow> handle x \<noteq> h"
  | (found) e x where "itimer_evt_bucket_lookup h p = Some (Some e)" "e \<in> live p" "pevts p e = Some x" "handle x = h"
proof -
  let ?b = "bucket p (itimer_bucket_hash h)"
  obtain r where r: "bucket_find (pevts p) h ?b = Some r"
      "case r of None \<Rightarrow> \<forall>e \<in> set ?b. \<forall>x. pevts p e = Some x \<longrightarrow> handle x \<noteq> h
             | Some e \<Rightarrow> e \<in> set ?b \<and> (\<exists>x. pevts p e = Some x \<and> handle x = h)"
    using bucket_find_ok[of ?b "pevts p" h] events_okD(4)[OF ok] by blast
  show ?thesis
  proof (cases r)
    case None
    have "handle x \<noteq> h" if e: "e \<in> live p" and x: "pevts p e = Some x" for e x
    proof
      assume h: "handle x = h"
      obtain y where "pevts p e = Some y" "e \<in> set (bucket p (itimer_bucket_hash (handle y)))"
        using live_evt[OF ok e] by blast
      then show False using x h r(2) None by simp
    qed
    then show ?thesis using none r(1) None by (simp add: itimer_evt_bucket_lookup_def)
  next
    case (Some e)
    then obtain x where x: "e \<in> set ?b" "pevts p e = Some x" "handle x = h" using r(2) by auto
    have "itimer_evt_bucket_lookup h p = Some (Some e)" using r(1) Some by (simp add: itimer_evt_bucket_lookup_def)
    then show ?thesis using found live_bucket[OF x(1)] x(2,3) by blast
  qed
qed

lemma lookup_live:
  assumes ok: "events_ok p" and e: "e \<in> live p" and x: "pevts p e = Some x"
  shows "itimer_evt_bucket_lookup (handle x) p = Some (Some e)"
  using ok
proof (cases rule: lookup_cases[where h = "handle x"])
  case none
  then show ?thesis using e x by blast
next
  case (found e' x')
  then have "e' = e" using events_okD(5)[OF ok found(2) e found(3) x] by simp
  then show ?thesis using found(1) by simp
qed

text \<open>Giving an event back.\<close>

lemma itimer_evt_pool_free_ok:
  assumes ok: "events_ok p" and e: "e \<in> live p"
  shows "\<exists>b. itimer_evt_pool_free e p = Some (p\<lparr>efree := efree p @ [e], bucket := b, eunuse := eunuse p + 1\<rparr>) \<and>
     events_ok (p\<lparr>efree := efree p @ [e], bucket := b, eunuse := eunuse p + 1\<rparr>) \<and>
     live (p\<lparr>efree := efree p @ [e], bucket := b, eunuse := eunuse p + 1\<rparr>) = live p - {e}"
proof -
  let ?b = "\<lambda>k. remove1 e (bucket p k)"
  let ?p = "p\<lparr>efree := efree p @ [e], bucket := ?b, eunuse := eunuse p + 1\<rparr>"
  obtain x where x: "pevts p e = Some x" "e \<in> set (bucket p (itimer_bucket_hash (handle x)))" "e \<notin> set (efree p)"
    using live_evt[OF ok e] by metis
  have "list_ex (\<lambda>k. e \<in> set (bucket p k)) [0..<MAX_POOL_BUCKET]"
    using x(2) by (auto simp: list_ex_iff itimer_bucket_hash_def MAX_POOL_BUCKET_def intro!: bexI)
  then have run: "itimer_evt_pool_free e p = Some ?p"
    using x(3) by (simp add: itimer_evt_pool_free_def itimer_evt_del_bucket_def remove1_idem)
  have b: "set (?b k) = set (bucket p k) - {e}" for k
    using events_okD(2)[OF ok, of k] by simp
  have l: "live ?p = live p - {e}" by (auto simp: live_def b)
  have "events_ok ?p"
    unfolding events_ok_def
  proof (intro conjI allI impI)
    fix k e' assume "e' \<in> set (bucket ?p k)"
    then have k: "e' \<in> set (bucket p k)" "e' \<noteq> e" using b[of k] by auto
    then show "e' \<notin> set (efree ?p)" using events_okD(3)[OF ok] by simp
    show "\<exists>x. pevts ?p e' = Some x \<and> k = itimer_bucket_hash (handle x) \<and> 0 < handle x \<and> handle x < ghandle ?p"
      using events_okD(4)[OF ok k(1)] by simp
  next
    fix e1 e2 x1 x2
    assume "e1 \<in> live ?p" "e2 \<in> live ?p" "pevts ?p e1 = Some x1" "pevts ?p e2 = Some x2" "handle x1 = handle x2"
    then show "e1 = e2" using events_okD(5)[OF ok, of e1 e2 x1 x2] unfolding l by simp
  next
    show "set (efree ?p) \<union> live ?p = dom (pevts ?p)" using events_okD(6)[OF ok] e unfolding l by auto
  qed (use events_okD[OF ok] x(3) in simp_all)
  then show ?thesis using run l by blast
qed

text \<open>Taking an event from a free list that is not empty.\<close>

definition alloc_head :: "addr \<Rightarrow> addr list \<Rightarrow> pool_evt \<Rightarrow> pool \<Rightarrow> pool" where
  "alloc_head e es x p = (let h = ghandle p; k = itimer_bucket_hash h in
     p\<lparr>efree := es, eunuse := eunuse p - 1, pevts := (pevts p)(e \<mapsto> x\<lparr>handle := h\<rparr>), ghandle := h + 1,
       bucket := (bucket p)(k := bucket p k @ [e])\<rparr>)"

lemma alloc_head_ok:
  assumes ok: "events_ok p" and f: "efree p = e # es" and x: "pevts p e = Some x" and room: "ghandle p + 1 \<noteq> 0"
  shows "events_ok (alloc_head e es x p)" and "live (alloc_head e es x p) = insert e (live p)"
proof -
  let ?p = "alloc_head e es x p" and ?k = "itimer_bucket_hash (ghandle p)"
  have p: "efree ?p = es" "eunuse ?p = eunuse p - 1" "pevts ?p = (pevts p)(e \<mapsto> x\<lparr>handle := ghandle p\<rparr>)"
      "ghandle ?p = ghandle p + 1" "bucket ?p = (bucket p)(?k := bucket p ?k @ [e])" "ealloc ?p = ealloc p"
    by (simp_all add: alloc_head_def Let_def)
  have b: "set (bucket ?p k) = set (bucket p k) \<union> (if k = ?k then {e} else {})" for k by (simp add: p)
  show l: "live ?p = insert e (live p)"
  proof (rule set_eqI)
    fix a
    have "a \<in> live ?p" if "a \<in> set (bucket p k)" for k using that b[of k] live_bucket by blast
    moreover have "e \<in> live ?p" using b[of ?k] live_bucket by auto
    moreover have "a = e \<or> a \<in> live p" if "a \<in> set (bucket ?p k)" for k
      using that live_bucket[of a p k] unfolding b by (auto split: if_splits)
    ultimately show "a \<in> live ?p \<longleftrightarrow> a \<in> insert e (live p)" unfolding live_def by blast
  qed
  have ne: "e \<notin> set (bucket p k)" for k using events_okD(3)[OF ok] f by auto
  then have nl: "e \<notin> live p" by (simp add: live_def)
  have lt: "ghandle p < ghandle p + 1" 
    using room unatSuc[of "ghandle p"] by (simp add: word_less_nat_alt add.commute)
  have old: "handle y < ghandle p" "0 < handle y" if "e' \<in> live p" "pevts p e' = Some y" for e' y
    using live_evt[OF ok that(1)] that(2) by (metis option.inject)+
  show "events_ok ?p"
    unfolding events_ok_def
  proof (intro conjI allI impI)
    fix k show "distinct (bucket ?p k)" using events_okD(2)[OF ok] ne[of ?k] by (simp add: p)
  next
    fix k e' assume e': "e' \<in> set (bucket ?p k)"
    show "e' \<notin> set (efree ?p)"
      using e' events_okD(1)[OF ok] events_okD(3)[OF ok, of e' k] f unfolding b p by (auto split: if_splits)
    show "\<exists>x. pevts ?p e' = Some x \<and> k = itimer_bucket_hash (handle x) \<and> 0 < handle x \<and> handle x < ghandle ?p"
    proof (cases "e' = e")
      case True
      then have "k = ?k" using e' ne unfolding b by (auto split: if_splits)
      then show ?thesis using True lt events_okD(9)[OF ok] by (simp add: p)
    next
      case False
      then have "e' \<in> set (bucket p k)" using e' unfolding b by (auto split: if_splits)
      then obtain y where y: "pevts p e' = Some y" "k = itimer_bucket_hash (handle y)" "0 < handle y" "handle y < ghandle p"
        using events_okD(4)[OF ok] by blast
      then show ?thesis using False less_trans[OF y(4) lt] by (simp add: p)
    qed
  next
    fix e1 e2 x1 x2
    assume a: "e1 \<in> live ?p" "e2 \<in> live ?p" "pevts ?p e1 = Some x1" "pevts ?p e2 = Some x2" "handle x1 = handle x2"
    show "e1 = e2"
    proof (rule ccontr)
      assume ne: "e1 \<noteq> e2"
      then consider "e1 = e" "e2 \<in> live p" "e2 \<noteq> e" | "e2 = e" "e1 \<in> live p" "e1 \<noteq> e"
        | "e1 \<in> live p" "e2 \<in> live p" "e1 \<noteq> e" "e2 \<noteq> e"
        using a(1,2) unfolding l by blast
      then show False
      proof cases
        case 1
        then show ?thesis using old(1)[of e2 x2] a(3-5) by (auto simp: p)
      next
        case 2
        then show ?thesis using old(1)[of e1 x1] a(3-5) by (auto simp: p)
      next
        case 3
        then show ?thesis using events_okD(5)[OF ok, of e1 e2 x1 x2] a(3-5) ne by (simp add: p)
      qed
    qed
  next
    show "set (efree ?p) \<union> live ?p = dom (pevts ?p)"
      using events_okD(6)[OF ok] f x unfolding l p by auto
    have "dom (pevts ?p) = dom (pevts p)" using x by (auto simp: p)
    then show "ealloc ?p = of_nat (card (dom (pevts ?p)))" using events_okD(7)[OF ok] by (simp add: p)
    show "0 < ghandle ?p" using less_trans[OF events_okD(9)[OF ok] lt] by (simp add: p)
  qed (use events_okD[OF ok] f p in simp_all)
qed

section \<open>The invariant of the pool\<close>

text \<open>
  The parts together: exactly the live events are active in the manager, and a live event can be given back, pushes its
  calls, and aims at a used queue (or at none).
\<close>

definition pool_inv :: "nat set \<Rightarrow> nat list \<Rightarrow> (addr \<rightharpoonup> itimer_evt) \<Rightarrow> pool \<Rightarrow> bool" where
  "pool_inv L H m p \<longleftrightarrow> events_ok p \<and> tasks_ok H p \<and> queues_ok L p \<and> dom m = dom (pevts p) \<and>
     (\<forall>e. (\<exists>ev. m e = Some ev \<and> emgr ev \<noteq> NULL) \<longleftrightarrow> e \<in> live p) \<and>
     (\<forall>e x. e \<in> live p \<longrightarrow> pevts p e = Some x \<longrightarrow> evt_free x \<and> push_task x \<and> target_ok p x) \<and>
     (\<forall>e x. pevts p e = Some x \<longrightarrow> ended x = 0)"

lemma pool_invD:
  assumes "pool_inv L H m p"
  shows "events_ok p" and "tasks_ok H p" and "queues_ok L p" and "dom m = dom (pevts p)"
    and "(\<exists>ev. m e = Some ev \<and> emgr ev \<noteq> NULL) \<longleftrightarrow> e \<in> live p"
    and "e \<in> live p \<Longrightarrow> pevts p e = Some x \<Longrightarrow> evt_free x \<and> push_task x \<and> ended x = 0 \<and> target_ok p x"
    and "pevts p e = Some x \<Longrightarrow> ended x = 0"
  using assms unfolding pool_inv_def by blast+

text \<open>What a change of the events leaves alone in the pool.\<close>

definition queue_frame :: "pool \<Rightarrow> pool \<Rightarrow> bool" where
  "queue_frame p p' \<longleftrightarrow> tkey p' = tkey p \<and> (\<forall>k. used (queue p' k) = used (queue p k) \<and>
     tid (queue p' k) = tid (queue p k) \<and> locked (queue p' k) = locked (queue p k))"

lemma queue_frame_refl [simp]: "queue_frame p p"
  by (simp add: queue_frame_def)

lemma queue_frame_queues: "queue_frame p p' \<Longrightarrow> queues_ok L p' = queues_ok L p"
  by (simp add: queue_frame_def queues_ok_def)

lemma queue_frame_target: "queue_frame p p' \<Longrightarrow> target_ok p' x = target_ok p x"
  by (simp add: queue_frame_def target_ok_def)

lemma task_frame_queue_frame: "task_frame p p' \<Longrightarrow> queue_frame p p'"
  by (simp add: task_frame_def queue_frame_def)

section \<open>Ending an event\<close>

text \<open>The manager's part: the node is unlinked and made unusable.\<close>

abbreviation idle_evt :: itimer_evt where
  "idle_evt \<equiv> \<lparr>period = 0, slap = 0, repeat = 0, running = 0, ecallback = NULL, edata = NULL, euser = NULL, emgr = NULL\<rparr>"

lemma unlink_unlinked:
  assumes "wheel_inv w" and "\<not> linked_in p w"
  shows "ilist_unlink p w = w"
proof -
  have "p \<notin> set (queued w)" "p \<notin> set (vec w k i)" for k i
    using assms linked_in_iff[OF assms(1)] members_I by blast+
  then show ?thesis by (simp add: ilist_unlink_def remove1_idem)
qed

lemma itimer_evt_destroy_ok:
  assumes inv: "mgr_inv B mg" and ev: "evts mg e = Some ev" and nd: "evt_node (mcore mg) e"
  shows "\<exists>mg'. itimer_evt_destroy e mg = Some mg' \<and> mgr_inv B mg' \<and> same_clock mg mg' \<and>
     evts mg' = (evts mg)(e \<mapsto> idle_evt)"
proof -
  let ?w = "mcore mg"
  have w: "wheel_inv ?w" and ok: "evts_ok B ?w mg" using inv by (auto simp: mgr_inv_def)
  obtain n where n: "nodemem ?w e = Some n" "state n = ITIMER_NODE_STATE_OK" using nd by (auto simp: evt_node_def)
  let ?m = "(nodemem ?w)(e \<mapsto> \<lparr>expires = 0, state = ITIMER_NODE_STATE_BAD, data = NULL, callback = NULL, core = NULL\<rparr>)"
  let ?w' = "(ilist_unlink e ?w)\<lparr>nodemem := ?m\<rparr>"
  have u: "(if linked_in e ?w then ilist_unlink e ?w else ?w) = ilist_unlink e ?w"
    using unlink_unlinked[OF w] by simp
  let ?mg = "mg\<lparr>mcore := ?w', evts := (evts mg)(e \<mapsto> idle_evt)\<rparr>"
  have run: "itimer_evt_destroy e mg = Some ?mg"
    using n by (simp add: itimer_evt_destroy_def itimer_node_destroy_def u)
  note un = unlink_inv[OF w, of e ?m]
  have w': "wheel_inv ?w'" and mem: "members ?w' = members ?w - {e}" using un by simp_all
  have "distinct (queued ?w)" using w by (simp add: wheel_inv_def links_ok_def)
  then have l: "linked_nodes ?w' = linked_nodes ?w - {e}"
    using mem by (auto simp: linked_nodes_def)
  have nodes: "evt_node ?w' r = evt_node ?w r" if "r \<noteq> e" for r using that by (simp add: evt_node_def)
  have "evts_ok B ?w' ?mg"
    using ok nodes l unfolding evts_ok_def active_def by (auto split: if_splits)
  then have "mgr_inv B ?mg" using inv w' by (simp add: mgr_inv_def)
  moreover have "same_clock mg ?mg" by (auto simp: same_clock_def length_remove1)
  ultimately show ?thesis using run by (intro exI[of _ ?mg]) simp
qed

text \<open>Both parts: the event of a handle is destroyed and given back.\<close>

lemma itimer_unset_live:
  assumes inv: "mgr_inv B mg" and ok: "events_ok p" and e: "e \<in> live p" and x: "pevts p e = Some x"
    and ev: "evts mg e = Some ev" and nd: "evt_node (mcore mg) e"
  shows "\<exists>mg' p' b. itimer_unset (handle x) (mg, p) = Some (mg', p') \<and> mgr_inv B mg' \<and> same_clock mg mg' \<and>
     evts mg' = (evts mg)(e \<mapsto> idle_evt) \<and> events_ok p' \<and> live p' = live p - {e} \<and>
     p' = p\<lparr>pevts := (pevts p)(e \<mapsto> x\<lparr>ended := 0, evt_free := False, push_task := False, task := -1\<rparr>),
            efree := efree p @ [e], bucket := b, eunuse := eunuse p + 1\<rparr>"
proof -
  let ?x = "x\<lparr>ended := 0, evt_free := False, push_task := False, task := -1\<rparr>"
  let ?p = "p\<lparr>pevts := (pevts p)(e \<mapsto> ?x)\<rparr>"
  obtain mg' where mg': "itimer_evt_destroy e mg = Some mg'" "mgr_inv B mg'" "same_clock mg mg'"
      "evts mg' = (evts mg)(e \<mapsto> idle_evt)"
    using itimer_evt_destroy_ok[OF inv ev nd] by blast
  have ok1: "events_ok ?p" using events_upd[OF ok x, of ?x] by simp
  have l1: "live ?p = live p" by (simp add: live_def)
  obtain b where b: "itimer_evt_pool_free e ?p = Some (?p\<lparr>efree := efree ?p @ [e], bucket := b, eunuse := eunuse ?p + 1\<rparr>)"
      "events_ok (?p\<lparr>efree := efree ?p @ [e], bucket := b, eunuse := eunuse ?p + 1\<rparr>)"
      "live (?p\<lparr>efree := efree ?p @ [e], bucket := b, eunuse := eunuse ?p + 1\<rparr>) = live ?p - {e}"
    using itimer_evt_pool_free_ok[OF ok1] e unfolding l1 by blast
  have "0 < handle x" using live_evt[OF ok e] x by (metis option.inject)
  then have "itimer_unset (handle x) (mg, p) = Some (mg', ?p\<lparr>efree := efree ?p @ [e], bucket := b, eunuse := eunuse ?p + 1\<rparr>)"
    using lookup_live[OF ok e x] mg'(1) b(1) x by (simp add: itimer_unset_def pool_evt_destroy_def)
  then show ?thesis using mg'(2-4) b(2,3) l1 by (intro exI[of _ mg'] exI[of _ "?p\<lparr>efree := efree ?p @ [e], bucket := b, eunuse := eunuse ?p + 1\<rparr>"] exI[of _ b]) simp
qed

text \<open>An event that is ended is no longer part of the invariant.\<close>

lemma pool_inv_ended:
  assumes e: "events_ok p'" "live p' = live p - {e}" and t: "tasks_ok H p'" and q: "queue_frame p p'"
    and inv: "pool_inv L H0 m p" and d: "dom m' = dom m" "dom (pevts p') = dom (pevts p)"
    and m: "\<And>r. r \<noteq> e \<Longrightarrow> m' r = m r \<or> (\<exists>a b. m r = Some a \<and> m' r = Some b \<and> emgr b = emgr a)"
    and me: "\<And>ev. m' e = Some ev \<Longrightarrow> emgr ev = NULL"
    and x: "\<And>r. r \<noteq> e \<Longrightarrow> pevts p' r = pevts p r" and xe: "\<And>y. pevts p' e = Some y \<Longrightarrow> ended y = 0"
  shows "pool_inv L H m' p'"
proof -
  have "(\<exists>ev. m' r = Some ev \<and> emgr ev \<noteq> NULL) \<longleftrightarrow> r \<in> live p'" for r
  proof (cases "r = e")
    case True
    then show ?thesis using me e(2) by auto
  next
    case False
    then have "(\<exists>ev. m' r = Some ev \<and> emgr ev \<noteq> NULL) \<longleftrightarrow> (\<exists>ev. m r = Some ev \<and> emgr ev \<noteq> NULL)"
      using m[OF False] by (metis option.inject)
    then show ?thesis using pool_invD(5)[OF inv, of r] False e(2) by simp
  qed
  moreover have "evt_free y \<and> push_task y \<and> ended y = 0 \<and> target_ok p' y" if "r \<in> live p'" "pevts p' r = Some y" for r y
    using that pool_invD(6)[OF inv, of r y] x[of r] e(2) queue_frame_target[OF q] by auto
  moreover have "ended y = 0" if "pevts p' r = Some y" for r y
    using that x[of r] xe[of y] pool_invD(7)[OF inv, of r y] by (cases "r = e") auto
  ultimately show ?thesis
    using e(1) t queue_frame_queues[OF q, of L] pool_invD(3,4)[OF inv] d unfolding pool_inv_def by simp
qed

text \<open>\<open>itimer_unset\<close> with any handle.\<close>

lemma itimer_unset_ok:
  assumes inv: "mgr_inv B mg" and pl: "pool_inv L H (evts mg) p"
  shows "\<exists>mg' p'. itimer_unset h (mg, p) = Some (mg', p') \<and> mgr_inv B mg' \<and> same_clock mg mg' \<and>
     pool_inv L H (evts mg') p' \<and> queue p' = queue p \<and> tasks p' = tasks p \<and> tkey p' = tkey p \<and>
     live p' = {e \<in> live p. handle (the (pevts p e)) \<noteq> h}"
proof (cases "h = 0")
  case True
  have "handle (the (pevts p e)) \<noteq> 0" if "e \<in> live p" for e
    by (rule live_evt[OF pool_invD(1)[OF pl] that]) simp
  then have "live p = {e \<in> live p. handle (the (pevts p e)) \<noteq> 0}" by blast
  then show ?thesis using True inv pl by (simp add: itimer_unset_def)
next
  case False
  note ok = pool_invD(1)[OF pl]
  from ok show ?thesis
  proof (cases rule: lookup_cases[where h = h])
    case none
    have "handle (the (pevts p e)) \<noteq> h" if "e \<in> live p" for e
      by (rule live_evt[OF ok that]) (use none(2) that in simp)
    then have "live p = {e \<in> live p. handle (the (pevts p e)) \<noteq> h}" by blast
    then show ?thesis using none(1) False inv pl by (simp add: itimer_unset_def)
  next
    case (found e x)
    obtain ev where ev: "evts mg e = Some ev" "emgr ev \<noteq> NULL" using pool_invD(5)[OF pl, of e] found(2) by blast
    have nd: "evt_node (mcore mg) e"
      using inv ev active_node[of B "mcore mg" mg e] by (simp add: mgr_inv_def active_def)
    obtain mg' p' b where r: "itimer_unset (handle x) (mg, p) = Some (mg', p')" "mgr_inv B mg'" "same_clock mg mg'"
        "evts mg' = (evts mg)(e \<mapsto> idle_evt)" "events_ok p'" "live p' = live p - {e}"
        "p' = p\<lparr>pevts := (pevts p)(e \<mapsto> x\<lparr>ended := 0, evt_free := False, push_task := False, task := -1\<rparr>),
            efree := efree p @ [e], bucket := b, eunuse := eunuse p + 1\<rparr>"
      using itimer_unset_live[OF inv ok found(2,3) ev(1) nd] by blast
    have t: "tasks_ok H p'" using pool_invD(2)[OF pl] unfolding r(7) by (simp add: tasks_ok_def)
    have q: "queue_frame p p'" unfolding r(7) by (simp add: queue_frame_def)
    have "pool_inv L H (evts mg') p'"
      by (rule pool_inv_ended[OF r(5,6) t q pl]) (use r(4,7) ev found(3) in auto)
    moreover have "live p' = {e \<in> live p. handle (the (pevts p e)) \<noteq> h}"
    proof -
      have "handle (the (pevts p r)) \<noteq> h" if "r \<in> live p" "r \<noteq> e" for r
        using live_evt[OF ok that(1)] events_okD(5)[OF ok that(1) found(2) _ found(3)] that(2) found(4)
        by (metis option.sel)
      then show ?thesis using r(6) found(3,4) by auto
    qed
    ultimately show ?thesis using r found(4) by (intro exI[of _ mg'] exI[of _ p']) simp
  qed
qed

section \<open>The callback of an event\<close>

lemma evt_pushes_ok:
  assumes mem: "\<forall>i. mem i" and ev: "evts mg e = Some ev" "running ev \<noteq> 0"
  shows "tasks_ok H p \<Longrightarrow> pevts p e = Some x \<Longrightarrow> push_task x \<Longrightarrow> target_ok p x \<Longrightarrow> (\<And>k. \<not> locked (queue p k)) \<Longrightarrow>
    \<exists>p'. evt_pushes mem e n (mg, p) = Some (mg, p') \<and> tasks_ok H p' \<and> task_frame p p' \<and>
      (\<forall>k. pending p' k = pending p k @
         (if task x = int k \<and> ecallback ev \<noteq> NULL then replicate n (call_of ev) else []))"
proof (induction n arbitrary: p)
  case (Suc n)
  show ?case
  proof (cases "ecallback ev = NULL")
    case True
    then show ?thesis using ev Suc.prems by simp
  next
    case False
    obtain p1 where p1: "itimer_push_task mem e (mg, p) = Some (mg, p1)" "tasks_ok H p1" "task_frame p p1"
        "\<forall>k. pending p1 k = pending p k @ (if task x = int k then [call_of ev] else [])"
      using itimer_push_task_ok[OF mem Suc.prems(1,2) ev(1) Suc.prems(4,5)] by blast
    have "pevts p1 e = Some x" "target_ok p1 x" "\<And>k. \<not> locked (queue p1 k)"
      using p1(3) Suc.prems(2,4,5) by (simp_all add: task_frame_def target_ok_def)
    then obtain p2 where p2: "evt_pushes mem e n (mg, p1) = Some (mg, p2)" "tasks_ok H p2" "task_frame p1 p2"
        "\<forall>k. pending p2 k = pending p1 k @
           (if task x = int k \<and> ecallback ev \<noteq> NULL then replicate n (call_of ev) else [])"
      using Suc.IH[OF p1(2) _ Suc.prems(3)] by blast
    have "pending p2 k = pending p k @
        (if task x = int k \<and> ecallback ev \<noteq> NULL then replicate (Suc n) (call_of ev) else [])" for k
      using p2(4)[rule_format, of k] p1(4)[rule_format, of k] False by simp
    moreover have "evt_pushes mem e (Suc n) (mg, p) = Some (mg, p2)"
      using ev False Suc.prems(2,3) p1(1) p2(1) by simp
    ultimately show ?thesis using p2(2) task_frame_trans[OF p1(3) p2(3)] by blast
  qed
qed simp

lemma itimer_evt_stop_node:
  assumes inv: "mgr_inv B mg" and ev: "evts mg e = Some ev" and nd: "evt_node (mcore mg) e"
    and run: "itimer_evt_stop e mg = Some mg'"
  shows "evt_node (mcore mg') e"
proof (cases "emgr ev = NULL")
  case True
  then show ?thesis using run ev nd by (auto simp: itimer_evt_stop_def)
next
  case False
  obtain n where n: "nodemem (mcore mg) e = Some n" "state n = ITIMER_NODE_STATE_OK" "callback n = EVT_CB" "data n = e"
    using nd by (auto simp: evt_node_def)
  have "wheel_inv (mcore mg)" using inv by (simp add: mgr_inv_def)
  from itimer_node_del_ok[OF this n(1,2)] obtain w' ret c where w': "itimer_node_del e (mcore mg) = Some (ret, w')"
      "nodemem w' e = Some (n\<lparr>core := c\<rparr>)"
    by blast
  then have "mcore mg' = w'" using run ev False by (auto simp: itimer_evt_stop_def)
  then show ?thesis using w'(2) n by (simp add: evt_node_def)
qed

text \<open>
  What a due event does: it pushes as many calls as periods have passed, to the queue of the thread that set it, and is
  ended and given back exactly when its repetitions are used up.
\<close>

lemma pool_evt_cb_ok:
  assumes mem: "\<forall>i. mem i" and inv: "mgr_inv B mg" and pl: "pool_inv {} H (evts mg) p"
    and ev: "evts mg e = Some ev" "emgr ev \<noteq> NULL" and x: "pevts p e = Some x"
    and c: "evt_catch_up (current mg) (period ev) (slap ev) (repeat ev) 0 = Some (sl, rep, n, stop)"
  shows "\<exists>mg' p'. pool_evt_cb mem e (mg, p) = Some (mg', p') \<and> mgr_inv B mg' \<and> same_clock mg mg' \<and>
     pool_inv {} H (evts mg') p' \<and> queue_frame p p' \<and> live p' = (if stop then live p - {e} else live p) \<and>
     (\<forall>k. pending p' k = pending p k @
        (if task x = int k \<and> ecallback ev \<noteq> NULL then replicate n (call_of ev) else []))"
proof -
  have act: "active mg e" using ev by (simp add: active_def)
  have el: "e \<in> live p" using pool_invD(5)[OF pl, of e] ev by blast
  note fl = pool_invD(6)[OF pl el x]
  let ?ev1 = "ev\<lparr>slap := sl, repeat := rep\<rparr>"
  let ?mg1 = "mg\<lparr>evts := (evts mg)(e \<mapsto> ?ev1)\<rparr>"
  note m1 = set_evt_ok[OF inv ev(1), of "\<lambda>ev. ev\<lparr>slap := sl, repeat := rep\<rparr>", simplified]
  have act1: "active ?mg1 e" using ev by (simp add: active_def)
  have nd1: "evt_node (mcore ?mg1) e" using active_node[of B "mcore ?mg1" ?mg1 e] m1(1) act1 by (simp add: mgr_inv_def)
  let ?ex = "jiffies ?mg1 + evt_ticks sl (current ?mg1) (interval ?mg1)"
  let ?ev2 = "if stop then ?ev1\<lparr>emgr := NULL, running := 0\<rparr> else ?ev1"
  obtain mg2 where m2: "(if \<not> stop then map_option (\<lambda>w. ?mg1\<lparr>mcore := w\<rparr>) (itimer_node_add e ?ex (mcore ?mg1))
      else itimer_evt_stop e ?mg1) = Some mg2" "mgr_inv B mg2" "same_clock ?mg1 mg2"
      "evts mg2 = (evts mg)(e \<mapsto> ?ev2)" "evt_node (mcore mg2) e"
  proof (cases stop)
    case True
    obtain mg2 where "itimer_evt_stop e ?mg1 = Some mg2" "mgr_inv B mg2" "same_clock ?mg1 mg2"
        "evts mg2 = (evts ?mg1)(e \<mapsto> ?ev1\<lparr>emgr := NULL, running := 0\<rparr>)"
      using evt_stop_ok[OF m1(1), of e ?ev1] by auto
    then show ?thesis using True that itimer_evt_stop_node[OF m1(1) _ nd1] by simp
  next
    case False
    obtain w where w: "itimer_node_add e ?ex (mcore ?mg1) = Some w" "mgr_inv B (?mg1\<lparr>mcore := w\<rparr>)"
        "same_clock ?mg1 (?mg1\<lparr>mcore := w\<rparr>)"
      using evt_add_ok[OF m1(1) act1] by blast
    have "evt_node w e" using active_node[of B w "?mg1\<lparr>mcore := w\<rparr>" e] w(2) act1 by (simp add: mgr_inv_def active_def)
    then show ?thesis using False that[of "?mg1\<lparr>mcore := w\<rparr>"] w by simp
  qed
  have ev2: "evts mg2 e = Some ?ev2" using m2(4) by simp
  let ?ev3 = "?ev2\<lparr>running := 1\<rparr>" and ?ev4 = "?ev2\<lparr>running := 0\<rparr>"
  let ?mg3 = "mg2\<lparr>evts := (evts mg2)(e \<mapsto> ?ev3)\<rparr>" and ?mg4 = "mg2\<lparr>evts := (evts mg2)(e \<mapsto> ?ev4)\<rparr>"
  let ?x = "if stop then x\<lparr>ended := 1\<rparr> else x"
  let ?p1 = "if stop then p\<lparr>pevts := (pevts p)(e \<mapsto> ?x)\<rparr> else p"
  have p1: "tasks_ok H ?p1" "pevts ?p1 e = Some ?x" "push_task ?x" "target_ok ?p1 ?x" "\<not> locked (queue ?p1 k)"
      "events_ok ?p1" "live ?p1 = live p" "queue_frame p ?p1" "pending ?p1 k = pending p k"
      "\<And>r. r \<noteq> e \<Longrightarrow> pevts ?p1 r = pevts p r" for k
    using pool_invD(2)[OF pl] x fl queues_okD(1)[OF pool_invD(3)[OF pl]]
      events_upd[OF pool_invD(1)[OF pl] x, of "x\<lparr>ended := 1\<rparr>"] pool_invD(1)[OF pl]
    by (auto simp: tasks_ok_def target_ok_def live_def queue_frame_def pending_def)
  obtain p2 where p2: "evt_pushes mem e n (?mg3, ?p1) = Some (?mg3, p2)" "tasks_ok H p2" "task_frame ?p1 p2"
      "\<forall>k. pending p2 k = pending ?p1 k @
         (if task ?x = int k \<and> ecallback ?ev3 \<noteq> NULL then replicate n (call_of ?ev3) else [])"
    using evt_pushes_ok[OF mem, of ?mg3 e ?ev3 H ?p1 ?x n] p1(1-5) by auto
  have pend: "pending p2 k = pending p k @
      (if task x = int k \<and> ecallback ev \<noteq> NULL then replicate n (call_of ev) else [])" for k
    using p2(4)[rule_format, of k] p1(9)[of k] by (cases stop) (simp_all add: call_of_def)
  have p2x: "pevts p2 e = Some ?x" "live p2 = live p" "events_ok p2" "queue_frame p p2" "dom (pevts p2) = dom (pevts p)"
      "\<And>r. r \<noteq> e \<Longrightarrow> pevts p2 r = pevts p r"
    using p2(3) p1 task_frame_live[OF p2(3)] task_frame_events[OF p2(3)] x
    by (auto simp: task_frame_def queue_frame_def)
  have m4: "mgr_inv B ?mg4" "same_clock mg2 ?mg4"
    using set_evt_ok[OF m2(2) ev2, of "running_update (\<lambda>_. 0)"] by simp_all
  have sc: "same_clock mg ?mg4" using same_clock_trans[OF same_clock_trans[OF m1(2) m2(3)] m4(2)] .
  have run: "pool_evt_cb mem e (mg, p) =
      (if ended ?x \<noteq> 0 \<and> evt_free ?x then itimer_unset (handle ?x) (?mg4, p2) else Some (?mg4, p2))"
    using ev x c m2(1) ev2 p2(1) p2x(1) by (cases stop) (auto simp: pool_evt_cb_def)
  show ?thesis
  proof (cases stop)
    case True
    have "evts ?mg4 e = Some ?ev4" "evt_node (mcore ?mg4) e" using m2(5) by simp_all
    then obtain mg' p' b where r: "itimer_unset (handle ?x) (?mg4, p2) = Some (mg', p')" "mgr_inv B mg'"
        "same_clock ?mg4 mg'" "evts mg' = (evts ?mg4)(e \<mapsto> idle_evt)" "events_ok p'" "live p' = live p2 - {e}"
        "p' = p2\<lparr>pevts := (pevts p2)(e \<mapsto> ?x\<lparr>ended := 0, evt_free := False, push_task := False, task := -1\<rparr>),
            efree := efree p2 @ [e], bucket := b, eunuse := eunuse p2 + 1\<rparr>"
      using itimer_unset_live[OF m4(1) p2x(3) _ p2x(1), of ?ev4] el p2x(2) by auto
    have t: "tasks_ok H p'" using p2(2) unfolding r(7) by (simp add: tasks_ok_def)
    have q: "queue_frame p p'" using p2x(4) unfolding r(7) by (simp add: queue_frame_def)
    have "pool_inv {} H (evts mg') p'"
      by (rule pool_inv_ended[OF r(5) _ t q pl]) (use r(4,6,7) p2x ev m2(4) x in auto)
    moreover have "pending p' k = pending p2 k" for k unfolding r(7) by (simp add: pending_def)
    ultimately show ?thesis
      using run True fl r(1,2,6) q pend p2x(2) same_clock_trans[OF sc r(3)] by (intro exI[of _ mg'] exI[of _ p']) simp
  next
    case False
    have "pool_inv {} H (evts ?mg4) p2"
      unfolding pool_inv_def
    proof (intro conjI allI impI)
      fix r show "(\<exists>ev. evts ?mg4 r = Some ev \<and> emgr ev \<noteq> NULL) \<longleftrightarrow> r \<in> live p2"
        using pool_invD(5)[OF pl, of r] p2x(2) False m2(4) ev el by (cases "r = e") auto
    next
      fix r y assume y: "r \<in> live p2" "pevts p2 r = Some y"
      then have "pevts p r = Some y" using p2x(1) p2x(6)[of r] x False by (cases "r = e") auto
      then show "evt_free y" "push_task y" "target_ok p2 y"
        using pool_invD(6)[OF pl, of r y] y(1) p2x(2) queue_frame_target[OF p2x(4)] by auto
    next
      fix r y assume "pevts p2 r = Some y"
      then show "ended y = 0"
        using pool_invD(7)[OF pl, of r y] fl p2x(1) p2x(6)[of r] False by (cases "r = e") auto
    next
      show "dom (evts ?mg4) = dom (pevts p2)" using m2(4) ev p2x(5) pool_invD(4)[OF pl] by auto
      show "queues_ok {} p2" using queue_frame_queues[OF p2x(4)] pool_invD(3)[OF pl] by simp
    qed (use p2x(3) p2(2) in simp_all)
    then show ?thesis
      using run False fl m4(1) sc p2x(2,4) pend by (intro exI[of _ ?mg4] exI[of _ p2]) simp
  qed
qed

section \<open>Running the manager\<close>

interpretation pool_mgr: mgr_client B "pool_inv {} H" "pool_dispatch (\<lambda>_. True)" for B :: nat and H :: "nat list"
proof
  fix mg w p e assume inv: "mgr_inv B (mg\<lparr>mcore := w\<rparr>)" and pl: "pool_inv {} H (evts mg) p" and act: "active mg e"
  let ?mg = "mg\<lparr>mcore := w\<rparr>"
  obtain ev where ev: "evts mg e = Some ev" "emgr ev \<noteq> NULL" using act by (auto simp: active_def)
  then obtain x where x: "pevts p e = Some x" using pool_invD(4)[OF pl] by auto
  have "evts ?mg e = Some ev" using ev by simp
  note per = mgr_period_ok[OF inv this ev(2)]
  obtain sl rep n stop where c: "evt_catch_up (current ?mg) (period ev) (slap ev) (repeat ev) 0 = Some (sl, rep, n, stop)"
    unfolding evt_catch_up_eq[OF period_okD[OF per[THEN conjunct1] per[THEN conjunct2]]] Let_def by (metis (no_types))
  have pl': "pool_inv {} H (evts ?mg) p" and ev': "evts ?mg e = Some ev" using pl ev by simp_all
  obtain mg' p' where "pool_evt_cb (\<lambda>_. True) e (?mg, p) = Some (mg', p')" "mgr_inv B mg'" "same_clock ?mg mg'"
      "pool_inv {} H (evts mg') p'"
    using pool_evt_cb_ok[where mem = "\<lambda>_. True", OF _ inv pl' ev' ev(2) x c] by auto
  then show "\<exists>mg' p'. pool_dispatch (\<lambda>_. True) EVT_CB e (w, mg, p) = Some (mcore mg', mg', p') \<and> mgr_inv B mg' \<and>
      pool_inv {} H (evts mg') p' \<and> same_clock ?mg mg'"
    by (auto simp: pool_dispatch_def)
qed

end
