(* ===== verification/ITimerPoolCalls.thy ===== *)
theory ITimerPoolCalls
  imports ITimerPoolInv
begin

text \<open>
  The calls of the threaded timer as a whole: setting a timer, running the manager and the tasks of a thread, the states
  that sequences of calls reach, and the two properties of the component.
\<close>

section \<open>Setting a timer\<close>

lemma wheel_inv_nodemem:
  assumes "wheel_inv w" and "\<And>r. r \<in> linked_nodes w \<Longrightarrow> m' r = nodemem w r"
  shows "wheel_inv (w\<lparr>nodemem := m'\<rparr>)" and "linked_nodes (w\<lparr>nodemem := m'\<rparr>) = linked_nodes w"
proof -
  have m: "members (w\<lparr>nodemem := m'\<rparr>) = members w" by (simp add: members_def)
  then show "linked_nodes (w\<lparr>nodemem := m'\<rparr>) = linked_nodes w" by (simp add: linked_nodes_def)
  have "node_ok (w\<lparr>nodemem := m'\<rparr>) r" if "r \<in> set (queued w) \<union> members w" for r
    using assms that by (auto simp: wheel_inv_def links_ok_def node_ok_def linked_nodes_def)
  then have "links_ok (w\<lparr>nodemem := m'\<rparr>)"
    using assms(1) m by (auto simp: wheel_inv_def links_ok_def)
  moreover have "m' r = nodemem w r" if "r \<in> set (vec w k i)" for r k i
    using assms(2)[of r] members_I[OF that] by (simp add: linked_nodes_def)
  ultimately show "wheel_inv (w\<lparr>nodemem := m'\<rparr>)"
    using assms(1) by (auto simp: wheel_inv_def)
qed

text \<open>Writing an event that is not linked, and its node, keeps the manager in order while the event stays inactive.\<close>

lemma mgr_inv_write:
  assumes inv: "mgr_inv B mg" and S: "\<And>a. a \<in> S \<Longrightarrow> a \<notin> linked_nodes (mcore mg)"
    and m: "\<And>r. r \<notin> S \<Longrightarrow> m r = evts mg r \<and> n r = nodemem (mcore mg) r"
    and idle: "\<And>r ev. r \<in> S \<Longrightarrow> m r = Some ev \<Longrightarrow> emgr ev = NULL"
  shows "mgr_inv B (mg\<lparr>evts := m, mcore := (mcore mg)\<lparr>nodemem := n\<rparr>\<rparr>)"
proof -
  let ?w = "mcore mg" and ?w' = "(mcore mg)\<lparr>nodemem := n\<rparr>"
  have w: "wheel_inv ?w" and ok: "evts_ok B ?w mg" using inv by (auto simp: mgr_inv_def)
  have "n r = nodemem ?w r" if "r \<in> linked_nodes ?w" for r using S[of r] m[of r] that by blast
  then have w': "wheel_inv ?w'" and l: "linked_nodes ?w' = linked_nodes ?w"
    using wheel_inv_nodemem[OF w, of n] by blast+
  have "evts_ok B ?w' (mg\<lparr>evts := m, mcore := ?w'\<rparr>)"
    unfolding evts_ok_def
  proof (intro conjI ballI allI impI)
    fix e assume "e \<in> linked_nodes ?w'"
    then have "active mg e" "e \<notin> S" using ok S l by (auto simp: evts_ok_def)
    then show "active (mg\<lparr>evts := m, mcore := ?w'\<rparr>) e" using m[of e] by (simp add: active_def)
  next
    fix e ev assume e: "evts (mg\<lparr>evts := m, mcore := ?w'\<rparr>) e = Some ev" "emgr ev \<noteq> NULL"
    then have "e \<notin> S" using idle[of e ev] by auto
    then have old: "evts mg e = Some ev" "n e = nodemem ?w e" using e(1) m[of e] by simp_all
    then show "evt_node ?w' e" "period_ok B (period ev)"
      using ok e(2) unfolding evts_ok_def evt_node_def by auto
  qed
  then show ?thesis using inv w' by (simp add: mgr_inv_def)
qed

text \<open>Initialising and starting an event that is not linked.\<close>

lemma evt_launch_ok:
  assumes inv: "mgr_inv B mg" and nl: "e \<notin> linked_nodes (mcore mg)" and per: "period_ok B per"
  shows "\<exists>mg1 mg2. itimer_evt_init e f d a mg = Some mg1 \<and> itimer_evt_start e per rep mg1 = Some mg2 \<and>
     mgr_inv B mg2 \<and> same_clock mg mg2 \<and> evts mg2 = (evts mg)(e \<mapsto> \<lparr>period = per, slap = current mg + per, repeat = rep,
       running = 0, ecallback = f, edata = d, euser = a, emgr = mself mg\<rparr>)"
proof -
  let ?w = "mcore mg"
  have w: "wheel_inv ?w" using inv by (simp add: mgr_inv_def)
  have nli: "\<not> linked_in e ?w" using linked_in_iff[OF w, of e] nl by (simp add: linked_nodes_def)
  let ?n = "\<lparr>expires = 0, state = ITIMER_NODE_STATE_OK, data = e, callback = EVT_CB, core = NULL\<rparr>"
  let ?ev = "\<lparr>period = 0, slap = 0, repeat = 0, running = 0, ecallback = f, edata = d, euser = a, emgr = NULL\<rparr>"
  let ?mg1 = "mg\<lparr>evts := (evts mg)(e \<mapsto> ?ev), mcore := ?w\<lparr>nodemem := (nodemem ?w)(e \<mapsto> ?n)\<rparr>\<rparr>"
  have i1: "mgr_inv B ?mg1"
    by (rule mgr_inv_write[OF inv, of "{e}"]) (use nl in auto)
  have run1: "itimer_evt_init e f d a mg = Some ?mg1"
    using nli by (simp add: itimer_evt_init_def itimer_node_init_def)
  let ?ev2 = "\<lparr>period = per, slap = current mg + per, repeat = rep, running = 0, ecallback = f, edata = d, euser = a, emgr = mself mg\<rparr>"
  let ?mg2 = "?mg1\<lparr>evts := (evts ?mg1)(e \<mapsto> ?ev2)\<rparr>"
  have "evt_node (mcore ?mg2) e" by (simp add: evt_node_def)
  then have i2: "mgr_inv B ?mg2" "active ?mg2 e"
    using i1 per inv by (auto simp: mgr_inv_def evts_ok_def active_def)
  let ?ex = "jiffies mg + evt_ticks (current mg + per) (current mg) (interval mg)"
  obtain w' where w': "itimer_node_add e ?ex (mcore ?mg2) = Some w'" "mgr_inv B (?mg2\<lparr>mcore := w'\<rparr>)"
      "same_clock ?mg2 (?mg2\<lparr>mcore := w'\<rparr>)"
    using evt_add_ok[OF i2, of ?ex] by blast
  let ?mg3 = "?mg2\<lparr>mcore := w'\<rparr>"
  have m3: "mg\<lparr>evts := (evts mg)(e \<mapsto> ?ev2), mcore := w'\<rparr> = ?mg3" by simp
  have run2: "itimer_evt_start e per rep ?mg1 = Some ?mg3"
    using w'(1) by (simp add: itimer_evt_start_def)
  have "same_clock mg ?mg2" by (auto simp: same_clock_def)
  then have "same_clock mg ?mg3" using w'(3) same_clock_trans by blast
  then show ?thesis using run1 run2 w'(2) by (intro exI[of _ ?mg1] exI[of _ ?mg3]) simp
qed

text \<open>New events for an empty free list.\<close>

definition evts_fresh :: "(nat \<Rightarrow> addr) \<Rightarrow> pool \<Rightarrow> bool" where
  "evts_fresh new p \<longleftrightarrow> inj_on new {..<DEF_ITIMER_POOL_ADD_SIZE} \<and>
     (\<forall>i < DEF_ITIMER_POOL_ADD_SIZE. new i \<noteq> NULL \<and> new i \<notin> dom (pevts p))"

abbreviation new_evt :: pool_evt where
  "new_evt \<equiv> \<lparr>handle = 0, evt_free = False, push_task = False, task = 0, ended = 0\<rparr>"

abbreviation new_node :: itimer_node where
  "new_node \<equiv> \<lparr>expires = 0, state = 0, data = NULL, callback = NULL, core = NULL\<rparr>"

lemma evt_new_run:
  assumes "\<And>i. i < n \<Longrightarrow> new i \<noteq> NULL"
  shows "foldM (\<lambda>i. evt_new (new i)) [0..<n] (mg, p) = Some
    (mg\<lparr>evts := (\<lambda>a. if a \<in> new ` {..<n} then Some idle_evt else evts mg a),
        mcore := (mcore mg)\<lparr>nodemem := (\<lambda>a. if a \<in> new ` {..<n} then Some new_node else nodemem (mcore mg) a)\<rparr>\<rparr>,
     p\<lparr>pevts := (\<lambda>a. if a \<in> new ` {..<n} then Some new_evt else pevts p a), efree := efree p @ map new [0..<n]\<rparr>)"
  using assms
proof (induction n)
  case (Suc n)
  then show ?case by (auto simp: foldM_append evt_new_def fun_eq_iff lessThan_Suc)
qed simp

lemma itimer_evt_pool_add_ok:
  assumes inv: "mgr_inv B mg" and pl: "pool_inv L H (evts mg) p" and new: "evts_fresh new p" and e: "efree p = []"
  shows "\<exists>mg' p'. itimer_evt_pool_add new DEF_ITIMER_POOL_ADD_SIZE (mg, p) = Some (mg', p') \<and> mgr_inv B mg' \<and>
     same_clock mg mg' \<and> pool_inv L H (evts mg') p' \<and> queue p' = queue p \<and> tasks p' = tasks p \<and> tkey p' = tkey p \<and>
     live p' = live p \<and> ghandle p' = ghandle p \<and> efree p' = map new [0..<20] \<and> (\<forall>e \<in> live p. pevts p' e = pevts p e)"
proof -
  let ?S = "new ` {..<20}"
  let ?m = "\<lambda>a. if a \<in> ?S then Some idle_evt else evts mg a"
  let ?n = "\<lambda>a. if a \<in> ?S then Some new_node else nodemem (mcore mg) a"
  let ?x = "\<lambda>a. if a \<in> ?S then Some new_evt else pevts p a"
  define mg' where "mg' = mg\<lparr>evts := ?m, mcore := (mcore mg)\<lparr>nodemem := ?n\<rparr>\<rparr>"
  define p' where "p' = p\<lparr>pevts := ?x, efree := map new [0..<20], ealloc := ealloc p + 20, eunuse := eunuse p + 20\<rparr>"
  note ok = pool_invD(1)[OF pl]
  have fr: "a \<notin> dom (pevts p)" "a \<notin> live p" if "a \<in> ?S" for a
    using new that events_okD(6)[OF ok] by (auto simp: evts_fresh_def DEF_ITIMER_POOL_ADD_SIZE_def)
  have act: "a \<notin> linked_nodes (mcore mg)" if "a \<in> ?S" for a
    using fr(2)[OF that] inv pool_invD(5)[OF pl, of a] by (auto simp: mgr_inv_def evts_ok_def active_def)
  have "foldM (\<lambda>i. evt_new (new i)) [0..<20] (mg, p) = Some (mg', p\<lparr>pevts := ?x, efree := map new [0..<20]\<rparr>)"
    using evt_new_run[of 20 new mg p] new e
    by (simp only: evts_fresh_def DEF_ITIMER_POOL_ADD_SIZE_def mg'_def append_Nil) simp
  then have run: "itimer_evt_pool_add new DEF_ITIMER_POOL_ADD_SIZE (mg, p) = Some (mg', p')"
    unfolding DEF_ITIMER_POOL_ADD_SIZE_def itimer_evt_pool_add_def by (simp add: p'_def)
  have i: "mgr_inv B mg'"
    unfolding mg'_def by (rule mgr_inv_write[OF inv, of ?S]) (use act in \<open>auto split: if_splits\<close>)
  have l: "live p' = live p" by (simp add: live_def p'_def)
  have old: "pevts p' r = pevts p r" "evts mg' r = evts mg r" if "r \<in> live p" for r
    using fr(2)[of r] that by (auto simp: p'_def mg'_def)
  have d: "dom (pevts p') = dom (pevts p) \<union> ?S" by (auto simp: p'_def split: if_splits)
  have inj: "inj_on new {..<20}" using new by (simp add: evts_fresh_def DEF_ITIMER_POOL_ADD_SIZE_def)
  have "card (dom (pevts p')) = card (dom (pevts p)) + 20"
    unfolding d using fr(1) card_image[OF inj] by (subst card_Un_disjoint) auto
  then have al: "ealloc p' = of_nat (card (dom (pevts p')))" using events_okD(7)[OF ok] by (simp add: p'_def)
  have ev: "events_ok p'"
    unfolding events_ok_def
  proof (intro conjI allI impI)
    show "distinct (efree p')" using inj by (simp add: p'_def distinct_map atLeast0LessThan)
    show "distinct (bucket p' k)" for k using events_okD(2)[OF ok] by (simp add: p'_def)
  next
    fix k e assume "e \<in> set (bucket p' k)"
    then have k: "e \<in> set (bucket p k)" by (simp add: p'_def)
    then show "e \<notin> set (efree p')" using fr(2)[of e] live_bucket[OF k] by (auto simp: p'_def)
    show "\<exists>x. pevts p' e = Some x \<and> k = itimer_bucket_hash (handle x) \<and> 0 < handle x \<and> handle x < ghandle p'"
      using events_okD(4)[OF ok k] old(1)[OF live_bucket[OF k]] by (simp add: p'_def)
  next
    fix e1 e2 x1 x2
    assume "e1 \<in> live p'" "e2 \<in> live p'" "pevts p' e1 = Some x1" "pevts p' e2 = Some x2" "handle x1 = handle x2"
    then show "e1 = e2" using events_okD(5)[OF ok, of e1 e2 x1 x2] l old(1) by auto
  next
    show "set (efree p') \<union> live p' = dom (pevts p')"
      unfolding d l using events_okD(6)[OF ok] e by (auto simp: p'_def)
    show "eunuse p' = of_nat (length (efree p'))" using events_okD(8)[OF ok] e by (simp add: p'_def)
    show "0 < ghandle p'" using events_okD(9)[OF ok] by (simp add: p'_def)
  qed (rule al)
  have "pool_inv L H (evts mg') p'"
    unfolding pool_inv_def
  proof (intro conjI allI impI)
    show "events_ok p'" by (rule ev)
    show "tasks_ok H p'" using pool_invD(2)[OF pl] by (simp add: tasks_ok_def p'_def)
    show "queues_ok L p'" using pool_invD(3)[OF pl] by (simp add: queues_ok_def p'_def)
    show "dom (evts mg') = dom (pevts p')"
    proof -
      have "dom (evts mg') = dom (evts mg) \<union> ?S" by (auto simp: mg'_def split: if_splits)
      then show ?thesis unfolding d using pool_invD(4)[OF pl] by simp
    qed
  next
    fix r show "(\<exists>ev. evts mg' r = Some ev \<and> emgr ev \<noteq> NULL) \<longleftrightarrow> r \<in> live p'"
      using pool_invD(5)[OF pl, of r] fr(2)[of r] l by (cases "r \<in> ?S") (simp_all add: mg'_def)
  next
    fix r x assume "r \<in> live p'" "pevts p' r = Some x"
    then have "r \<in> live p" "pevts p r = Some x" using l old(1) by auto
    then show "evt_free x" "push_task x" "target_ok p' x"
      using pool_invD(6)[OF pl] by (auto simp: target_ok_def p'_def)
  next
    fix r x assume "pevts p' r = Some x"
    then show "ended x = 0"
      using pool_invD(7)[OF pl, of r] by (cases "r \<in> ?S") (auto simp: p'_def)
  qed
  moreover have "same_clock mg mg'" by (auto simp: same_clock_def mg'_def)
  ultimately show ?thesis
    using run i l old(1) by (intro exI[of _ mg'] exI[of _ p']) (simp add: p'_def)
qed

text \<open>What \<open>itimer_set\<close> needs: addresses for new events when none is free, a handle, and a period within the clock.\<close>

definition set_room :: "nat \<Rightarrow> (nat \<Rightarrow> addr) \<Rightarrow> u32 \<Rightarrow> pool \<Rightarrow> bool" where
  "set_room B new timer p \<longleftrightarrow> (efree p = [] \<longrightarrow> evts_fresh new p) \<and> ghandle p + 1 \<noteq> 0 \<and> period_ok B timer"

lemma itimer_evt_pool_alloc_ok:
  assumes inv: "mgr_inv B mg" and pl: "pool_inv L H (evts mg) p" and room: "set_room B new timer p"
  shows "\<exists>e es x mg' p'. itimer_evt_pool_alloc new (mg, p) = Some (e, mg', alloc_head e es x p') \<and> mgr_inv B mg' \<and>
     same_clock mg mg' \<and> pool_inv L H (evts mg') p' \<and> queue p' = queue p \<and> tasks p' = tasks p \<and> tkey p' = tkey p \<and>
     live p' = live p \<and> ghandle p' = ghandle p \<and> efree p' = e # es \<and> pevts p' e = Some x"
proof -
  obtain mg' p' where p': "(if efree p = [] then itimer_evt_pool_add new DEF_ITIMER_POOL_ADD_SIZE (mg, p) else Some (mg, p)) =
      Some (mg', p')" "mgr_inv B mg'" "same_clock mg mg'" "pool_inv L H (evts mg') p'" "queue p' = queue p"
      "tasks p' = tasks p" "tkey p' = tkey p" "live p' = live p" "ghandle p' = ghandle p" "efree p' \<noteq> []"
  proof (cases "efree p = []")
    case True
    then have "evts_fresh new p" using room by (simp add: set_room_def)
    from itimer_evt_pool_add_ok[OF inv pl this True] that True show ?thesis by auto
  next
    case False
    then show ?thesis using that inv pl by simp
  qed
  obtain e es where e: "efree p' = e # es" using p'(10) by (cases "efree p'") auto
  then have "e \<in> dom (pevts p')" using events_okD(6)[OF pool_invD(1)[OF p'(4)]] by auto
  then obtain x where x: "pevts p' e = Some x" by auto
  have "itimer_evt_pool_alloc new (mg, p) = Some (e, mg', alloc_head e es x p')"
    using p'(1) e x by (simp add: itimer_evt_pool_alloc_def itimer_evt_add_bucket_def alloc_head_def Let_def)
  then show ?thesis using p' e x by blast
qed

lemma itimer_set_ok:
  assumes inv: "mgr_inv B mg" and pl: "pool_inv {} H (evts mg) p" and room: "set_room B new timer p"
  shows "\<exists>e x mg' p'. itimer_set t new f d a timer rep (mg, p) = Some (ghandle p, mg', p') \<and> mgr_inv B mg' \<and>
     same_clock mg mg' \<and> pool_inv {} H (evts mg') p' \<and> live p' = insert e (live p) \<and> e \<notin> live p \<and>
     pevts p' e = Some x \<and> handle x = ghandle p \<and>
     evts mg' e = Some \<lparr>period = timer, slap = current mg + timer, repeat = rep, running = 0, ecallback = f,
       edata = d, euser = a, emgr = mself mg\<rparr> \<and>
     (task x = -1 \<or> 0 \<le> task x \<and> tid (queue p' (nat (task x))) = t) \<and>
     task x = (if tkey p t \<noteq> 0 then tkey p t else fst (search_q t (q_order t) (queue p))) \<and>
     (\<forall>j. qtasks (queue p' j) = qtasks (queue p j))"
proof -
  obtain e es x0 mg1 p1 where al: "itimer_evt_pool_alloc new (mg, p) = Some (e, mg1, alloc_head e es x0 p1)" "mgr_inv B mg1"
      "same_clock mg mg1" "pool_inv {} H (evts mg1) p1" "queue p1 = queue p" "tasks p1 = tasks p" "tkey p1 = tkey p"
      "live p1 = live p" "ghandle p1 = ghandle p" "efree p1 = e # es" "pevts p1 e = Some x0"
    using itimer_evt_pool_alloc_ok[OF inv pl room] by blast
  note ok1 = pool_invD(1)[OF al(4)]
  let ?p2 = "alloc_head e es x0 p1"
  have ah: "events_ok ?p2" "live ?p2 = insert e (live p)"
    using alloc_head_ok[OF ok1 al(10,11)] room al(8,9) by (simp_all add: set_room_def)
  have f2: "queue ?p2 = queue p1" "tkey ?p2 = tkey p1" "pevts ?p2 = (pevts p1)(e \<mapsto> x0\<lparr>handle := ghandle p\<rparr>)"
      "tasks ?p2 = tasks p1" "tfree ?p2 = tfree p1" "tmade ?p2 = tmade p1" "talloc ?p2 = talloc p1" "tunuse ?p2 = tunuse p1"
    using al(9) by (simp_all add: alloc_head_def Let_def)
  have nl: "e \<notin> live p" using events_okD(3)[OF ok1, of e] al(8,10) by (auto simp: live_def)
  let ?x1 = "x0\<lparr>handle := ghandle p, evt_free := True, push_task := True\<rparr>"
  let ?p3 = "?p2\<lparr>pevts := (pevts ?p2)(e \<mapsto> ?x1)\<rparr>"
  have q3: "queues_ok {} ?p3" using pool_invD(3)[OF al(4)] f2(1,2) by (simp add: queues_ok_def)
  obtain k qs where g: "GetTask t ?p3 = Some (k, ?p3\<lparr>queue := qs, tkey := (tkey ?p3)(t := k)\<rparr>)"
      "queues_ok {} (?p3\<lparr>queue := qs, tkey := (tkey ?p3)(t := k)\<rparr>)"
      "k = -1 \<or> 0 \<le> k \<and> k < int MAX_THREAD_TASK \<and> used (qs (nat k)) \<and> tid (qs (nat k)) = t"
      "\<forall>j. qtasks (qs j) = qtasks (queue ?p3 j) \<and> (used (queue ?p3 j) \<longrightarrow> qs j = queue ?p3 j)"
    using GetTask_ok[OF q3, of t] by blast
  have kk: "k = (if tkey p t \<noteq> 0 then tkey p t else fst (search_q t (q_order t) (queue p)))"
    using GetTask_eq[of ?p3 t] queues_okD(1)[OF q3] g(1) f2(1,2) al(5,7) by (auto split: if_splits)
  let ?x2 = "?x1\<lparr>task := k\<rparr>"
  define p4 where "p4 = ?p3\<lparr>queue := qs, tkey := (tkey ?p3)(t := k), pevts := (pevts ?p3)(e \<mapsto> ?x2)\<rparr>"
  have nlk: "e \<notin> linked_nodes (mcore mg1)"
    using al(2) nl al(8) pool_invD(5)[OF al(4), of e] by (auto simp: mgr_inv_def evts_ok_def active_def)
  have per: "period_ok B timer" using room by (simp add: set_room_def)
  obtain mg2 mg3 where l: "itimer_evt_init e f d a mg1 = Some mg2" "itimer_evt_start e timer rep mg2 = Some mg3"
      "mgr_inv B mg3" "same_clock mg1 mg3" "evts mg3 = (evts mg1)(e \<mapsto> \<lparr>period = timer, slap = current mg1 + timer,
        repeat = rep, running = 0, ecallback = f, edata = d, euser = a, emgr = mself mg1\<rparr>)"
    using evt_launch_ok[OF al(2) nlk per, of f d a rep] by blast
  have run: "itimer_set t new f d a timer rep (mg, p) = Some (ghandle p, mg3, p4)"
    using al(1) f2(3) g(1) l(1,2) by (simp add: itimer_set_def Let_def p4_def)
  have l4: "live p4 = insert e (live p)" using ah(2) by (simp add: live_def p4_def)
  have "events_ok (?p2\<lparr>pevts := (pevts ?p2)(e \<mapsto> ?x2)\<rparr>)"
    by (rule events_upd[OF ah(1)]) (use f2(3) in auto)
  then have e4: "events_ok p4" by (simp add: events_ok_def p4_def live_def)
  have qt: "qtasks (qs j) = qtasks (queue p1 j)" "used (queue p1 j) \<Longrightarrow> qs j = queue p1 j" for j
    using g(4) f2(1) by simp_all
  have "pool_inv {} H (evts mg3) p4"
    unfolding pool_inv_def
  proof (intro conjI allI impI)
    show "events_ok p4" by (rule e4)
    show "queues_ok {} p4" using g(2) by (simp add: queues_ok_def p4_def)
    have "used (qs j)" if "used (queue p1 j)" for j using qt(2)[OF that] that by simp
    then show "tasks_ok H p4"
      using pool_invD(2)[OF al(4)] f2 qt(1) by (simp add: tasks_ok_def p4_def)
    show "dom (evts mg3) = dom (pevts p4)"
      using pool_invD(4)[OF al(4)] l(5) f2(3) by (simp add: p4_def)
  next
    fix r show "(\<exists>ev. evts mg3 r = Some ev \<and> emgr ev \<noteq> NULL) \<longleftrightarrow> r \<in> live p4"
      using pool_invD(5)[OF al(4), of r] l(5) l4 al(2,8) by (cases "r = e") (simp_all add: mgr_inv_def)
  next
    fix r y assume r: "r \<in> live p4" "pevts p4 r = Some y"
    have "evt_free y \<and> push_task y \<and> ended y = 0 \<and> target_ok p4 y"
    proof (cases "r = e")
      case True
      then have y: "y = ?x2" using r(2) by (simp add: p4_def)
      show ?thesis using g(3) pool_invD(7)[OF al(4,11)] unfolding y by (auto simp: target_ok_def p4_def)
    next
      case False
      then have "r \<in> live p1" "pevts p1 r = Some y" using r l4 al(8) f2(3) by (simp_all add: p4_def)
      then have "evt_free y \<and> push_task y \<and> ended y = 0 \<and> target_ok p1 y" using pool_invD(6)[OF al(4)] by blast
      then show ?thesis using qt(2) by (auto simp: target_ok_def p4_def)
    qed
    then show "evt_free y" "push_task y" "target_ok p4 y" by blast+
  next
    fix r y assume "pevts p4 r = Some y"
    then show "ended y = 0"
      using pool_invD(7)[OF al(4), of r] pool_invD(7)[OF al(4,11)] f2(3) by (cases "r = e") (auto simp: p4_def)
  qed
  moreover have "same_clock mg mg3" using same_clock_trans[OF al(3) l(4)] .
  moreover have "current mg1 = current mg" "mself mg1 = mself mg" using al(3) by (simp_all add: same_clock_def)
  moreover have "pevts p4 e = Some ?x2" "queue p4 = qs" by (simp_all add: p4_def)
  ultimately show ?thesis
    using run l(3,5) l4 nl g(3) kk qt(1) al(5)
    by (intro exI[of _ e] exI[of _ ?x2] exI[of _ mg3] exI[of _ p4]) auto
qed

section \<open>Running the tasks of a thread\<close>

definition pstate_inv :: "nat \<Rightarrow> nat set \<Rightarrow> nat list \<Rightarrow> pstate \<Rightarrow> bool" where
  "pstate_inv B L H = (\<lambda>(mg, p). mgr_inv B mg \<and> pool_inv L H (evts mg) p)"

text \<open>
  The contract of the functions that run in \<open>itimer_update_timer\<close>: they may make calls of their own, as long as these
  keep the invariant with the mutex of the queue \<open>k\<close> held and leave that queue alone.  \<open>R\<close> relates the user's state
  before and after a call.
\<close>

type_synonym call = "addr \<times> addr \<times> addr"

definition task_fn_ok :: "nat \<Rightarrow> ('u \<Rightarrow> call \<Rightarrow> 'u \<Rightarrow> bool) \<Rightarrow> 'u task_fn \<Rightarrow> bool" where
  "task_fn_ok B R fn \<longleftrightarrow> (\<forall>k H f d a mg p u. pstate_inv B {k} H (mg, p) \<longrightarrow>
     (\<exists>mg' p' u'. fn f d a ((mg, p), u) = Some ((mg', p'), u') \<and> pstate_inv B {k} H (mg', p') \<and> same_clock mg mg' \<and>
        queue p' k = queue p k \<and> (\<forall>t \<in> set (qtasks (queue p k)). tasks p' t = tasks p t) \<and> R u (f, d, a) u'))"

fun calls_rel :: "('u \<Rightarrow> call \<Rightarrow> 'u \<Rightarrow> bool) \<Rightarrow> call list \<Rightarrow> 'u \<Rightarrow> 'u \<Rightarrow> bool" where
  "calls_rel R [] u u' = (u' = u)"
| "calls_rel R (c # cs) u u' = (\<exists>u1. R u c u1 \<and> calls_rel R cs u1 u')"

abbreviation real_calls :: "call list \<Rightarrow> call list" where
  "real_calls \<equiv> filter (\<lambda>c. fst c \<noteq> NULL)"

lemma pool_inv_cong:
  assumes "pool_inv L H m p" and "events_ok p' = events_ok p" and "tasks_ok H' p'" and "queues_ok L' p'"
    and "pevts p' = pevts p" and "live p' = live p" and "\<And>k. used (queue p' k) = used (queue p k)"
  shows "pool_inv L' H' m p'"
  using assms by (simp add: pool_inv_def target_ok_def)

lemma queues_ok_lock:
  assumes "queues_ok L p" and "\<And>k. used (queue p' k) = used (queue p k)" and "\<And>k. tid (queue p' k) = tid (queue p k)"
    and "\<And>k. locked (queue p' k) \<longleftrightarrow> k \<in> L'" and "tkey p' = tkey p"
  shows "queues_ok L' p'"
  using assms by (simp add: queues_ok_def)

text \<open>Taking and releasing the mutex of a queue.\<close>

lemma set_locked_simps [simp]:
  "qtasks (queue (set_locked k b p) j) = qtasks (queue p j)" "used (queue (set_locked k b p) j) = used (queue p j)"
  "tid (queue (set_locked k b p) j) = tid (queue p j)" "locked (queue (set_locked k b p) j) = (if j = k then b else locked (queue p j))"
  "tkey (set_locked k b p) = tkey p" "pevts (set_locked k b p) = pevts p" "tasks (set_locked k b p) = tasks p"
  by (simp_all add: set_locked_def)

lemma set_locked_parts [simp]:
  "tasks_ok H (set_locked k b p) = tasks_ok H p" "events_ok (set_locked k b p) = events_ok p"
  "live (set_locked k b p) = live p" "pending (set_locked k b p) j = pending p j"
proof -
  have "tfree (set_locked k b p) = tfree p" "tmade (set_locked k b p) = tmade p" "talloc (set_locked k b p) = talloc p"
      "tunuse (set_locked k b p) = tunuse p" "efree (set_locked k b p) = efree p" "bucket (set_locked k b p) = bucket p"
      "ealloc (set_locked k b p) = ealloc p" "eunuse (set_locked k b p) = eunuse p" "ghandle (set_locked k b p) = ghandle p"
    by (simp_all add: set_locked_def)
  then show "tasks_ok H (set_locked k b p) = tasks_ok H p" "events_ok (set_locked k b p) = events_ok p"
      "live (set_locked k b p) = live p" "pending (set_locked k b p) j = pending p j"
    by (simp_all add: tasks_ok_def events_ok_def live_def pending_def)
qed

text \<open>A task that has run is taken from the queue and held.\<close>

lemma task_take_ok:
  assumes pl: "pool_inv L H m p" and t: "qtasks (queue p k) = t # ts"
  shows "pool_inv L (H @ [t]) m (p\<lparr>queue := (queue p)(k := (queue p k)\<lparr>qtasks := ts\<rparr>)\<rparr>)"
proof -
  let ?p = "p\<lparr>queue := (queue p)(k := (queue p k)\<lparr>qtasks := ts\<rparr>)\<rparr>"
  note ok = pool_invD(2)[OF pl]
  have one: "k' = k" if "t \<in> set (qtasks (queue p k'))" for k'
    using ok that t unfolding tasks_ok_def by (metis list.set_intros(1))
  have d: "distinct (t # ts)" using ok t by (metis tasks_ok_def)
  have q: "set (qtasks (queue ?p j)) = set (qtasks (queue p j)) - {t}" for j
    using d t one[of j] by (cases "j = k") auto
  have "t \<in> (\<Union>j. set (qtasks (queue p j)))" using t by (metis UN_iff UNIV_I list.set_intros(1))
  moreover have "(\<Union>j. set (qtasks (queue ?p j))) = (\<Union>j. set (qtasks (queue p j))) - {t}" unfolding q by blast
  ultimately have u: "set (tfree ?p @ (H @ [t])) \<union> (\<Union>j. set (qtasks (queue ?p j))) =
      set (tfree p @ H) \<union> (\<Union>j. set (qtasks (queue p j)))" by auto
  have nt: "t \<notin> set (tfree p @ H)" using ok t unfolding tasks_ok_def by (metis list.set_intros(1))
  have "tasks_ok (H @ [t]) ?p"
    unfolding tasks_ok_def u
  proof (intro conjI allI impI)
    fix j s assume "s \<in> set (qtasks (queue ?p j))"
    then have "s \<in> set (qtasks (queue p j))" "s \<noteq> t" unfolding q by auto
    then show "s \<notin> set (tfree ?p @ H @ [t])" "used (queue ?p j)" using ok by (auto simp: tasks_ok_def)
  next
    fix j j' s assume "s \<in> set (qtasks (queue ?p j))" "s \<in> set (qtasks (queue ?p j'))"
    then show "j = j'" using ok unfolding q tasks_ok_def by blast
  next
    fix j show "distinct (qtasks (queue ?p j))" using ok d by (simp add: tasks_ok_def)
  qed (use ok nt in \<open>auto simp: tasks_ok_def\<close>)
  moreover have "queues_ok L ?p"
    by (rule queues_ok_lock[OF pool_invD(3)[OF pl]]) (use queues_okD(1)[OF pool_invD(3)[OF pl]] in auto)
  ultimately show ?thesis
    by (intro pool_inv_cong[OF pl]) (auto simp: events_ok_def live_def)
qed

lemma task_runs_ok:
  assumes fn: "task_fn_ok B R fn"
  shows "pstate_inv B {k} done (mg, p) \<Longrightarrow> qtasks (queue p k) = ts \<Longrightarrow>
    \<exists>mg' p' u'. foldM (task_run fn k) ts (((mg, p), u), done) = Some (((mg', p'), u'), done @ ts) \<and>
      pstate_inv B {k} (done @ ts) (mg', p') \<and> same_clock mg mg' \<and> queue p' k = (queue p k)\<lparr>qtasks := []\<rparr> \<and>
      calls_rel R (real_calls (pending p k)) u u'"
proof (induction ts arbitrary: mg p u "done")
  case Nil
  then have "queue p k = (queue p k)\<lparr>qtasks := []\<rparr>" by simp
  then show ?case using Nil by (intro exI[of _ mg] exI[of _ p] exI[of _ u]) (simp add: pending_def)
next
  case (Cons t ts)
  have pl: "mgr_inv B mg" "pool_inv {k} done (evts mg) p" using Cons.prems(1) by (simp_all add: pstate_inv_def)
  have "t \<in> dom (tasks p)"
    using pool_invD(2)[OF pl(2)] Cons.prems(2) unfolding tasks_ok_def by (metis UN_iff UNIV_I UnCI list.set_intros(1))
  then obtain x where x: "tasks p t = Some x" by auto
  obtain mg1 p1 u1 where s1: "(if tcallback x \<noteq> NULL then fn (tcallback x) (tdata x) (tuser x) ((mg, p), u)
      else Some ((mg, p), u)) = Some ((mg1, p1), u1)" "pstate_inv B {k} done (mg1, p1)" "same_clock mg mg1"
      "queue p1 k = queue p k" "\<forall>t \<in> set (qtasks (queue p k)). tasks p1 t = tasks p t"
      "calls_rel R (real_calls [(tcallback x, tdata x, tuser x)]) u u1"
  proof (cases "tcallback x = NULL")
    case True
    then show ?thesis using that[of mg p u] Cons.prems(1) by simp
  next
    case False
    obtain mg1 p1 u1 where "fn (tcallback x) (tdata x) (tuser x) ((mg, p), u) = Some ((mg1, p1), u1)"
        "pstate_inv B {k} done (mg1, p1)" "same_clock mg mg1" "queue p1 k = queue p k"
        "\<forall>t \<in> set (qtasks (queue p k)). tasks p1 t = tasks p t" "R u (tcallback x, tdata x, tuser x) u1"
      using fn Cons.prems(1) unfolding task_fn_ok_def by blast
    then show ?thesis using False that[of mg1 p1 u1] by simp
  qed
  let ?p2 = "p1\<lparr>queue := (queue p1)(k := (queue p1 k)\<lparr>qtasks := ts\<rparr>)\<rparr>"
  have i2: "pstate_inv B {k} (done @ [t]) (mg1, ?p2)"
    using s1(2,4) Cons.prems(2) task_take_ok[of "{k}" "done" "evts mg1" p1 k t ts] by (simp add: pstate_inv_def)
  obtain mg' p' u' where r: "foldM (task_run fn k) ts (((mg1, ?p2), u1), done @ [t]) = Some (((mg', p'), u'), (done @ [t]) @ ts)"
      "pstate_inv B {k} ((done @ [t]) @ ts) (mg', p')" "same_clock mg1 mg'" "queue p' k = (queue ?p2 k)\<lparr>qtasks := []\<rparr>"
      "calls_rel R (real_calls (pending ?p2 k)) u1 u'"
    using Cons.IH[OF i2, of u1] by auto
  have "task_run fn k t (((mg, p), u), done) = Some (((mg1, ?p2), u1), done @ [t])"
    using x s1(1,4) Cons.prems(2) by (simp add: task_run_def)
  moreover have "pending p k = (tcallback x, tdata x, tuser x) # pending ?p2 k"
    using s1(4,5) Cons.prems(2) x by (simp add: pending_def Let_def)
  then have "calls_rel R (real_calls (pending p k)) u u'"
    using s1(6) r(5) by (auto split: if_splits)
  ultimately show ?case
    using r(1,2,4) s1(4) same_clock_trans[OF s1(3) r(3)] by (intro exI[of _ mg'] exI[of _ p'] exI[of _ u']) simp
qed

lemma task_frees_ok:
  "pool_inv L ts m p \<Longrightarrow> pool_inv L [] m (fold itimer_task_pool_free ts p) \<and>
     queue (fold itimer_task_pool_free ts p) = queue p \<and> live (fold itimer_task_pool_free ts p) = live p"
proof (induction ts arbitrary: p)
  case (Cons t ts)
  note f = itimer_task_pool_free_ok[OF pool_invD(2)[OF Cons.prems]]
  have "pool_inv L ts m (itimer_task_pool_free t p)"
    by (rule pool_inv_cong[OF Cons.prems _ f(1)])
       (use f pool_invD(3)[OF Cons.prems] task_frame_queues[OF f(2)] task_frame_events[OF f(2)] task_frame_live[OF f(2)]
        in \<open>auto simp: task_frame_def\<close>)
  then show ?case using Cons.IH f(3) task_frame_live[OF f(2)] by simp
qed simp

text \<open>The owner of a queue finds it again.\<close>

lemma GetTask_owner:
  assumes ok: "queues_ok {} p" and k: "used (queue p k)" "tid (queue p k) = t"
    and g: "GetTask t p = Some (r, p')"
  shows "r = int k"
proof -
  obtain r' qs where q: "GetTask t p = Some (r', p\<lparr>queue := qs, tkey := (tkey p)(t := r')\<rparr>)"
      "queues_ok {} (p\<lparr>queue := qs, tkey := (tkey p)(t := r')\<rparr>)"
      "r' = -1 \<or> 0 \<le> r' \<and> r' < int MAX_THREAD_TASK \<and> used (qs (nat r')) \<and> tid (qs (nat r')) = t"
      "\<forall>j. qtasks (qs j) = qtasks (queue p j) \<and> (used (queue p j) \<longrightarrow> qs j = queue p j)"
    using GetTask_ok[OF ok, of t] by blast
  have qk: "qs k = queue p k" using q(4) k(1) by simp
  have "r' \<noteq> -1"
  proof
    assume "r' = -1"
    then have "\<forall>j. used (qs j) \<longrightarrow> tid (qs j) \<noteq> t" using queues_okD(5)[OF q(2), of t] by simp
    then show False using k qk by metis
  qed
  then have "0 \<le> r'" "nat r' = k"
    using q(3) queues_okD(2)[OF q(2), of "nat r'" k] k qk by auto
  then show ?thesis using q(1) g by simp
qed

lemma itimer_update_timer_ok:
  assumes fn: "task_fn_ok B R fn" and inv: "pstate_inv B {} [] (mg, p)"
  shows "\<exists>k r mg' p' u'. itimer_update_timer fn t ((mg, p), u) = Some (r, (mg', p'), u') \<and>
     pstate_inv B {} [] (mg', p') \<and> same_clock mg mg' \<and> (\<exists>p1. GetTask t p = Some (k, p1)) \<and>
     (k = -1 \<and> r = -1 \<and> u' = u \<or>
      0 \<le> k \<and> r = 0 \<and> qtasks (queue p' (nat k)) = [] \<and> calls_rel R (real_calls (pending p (nat k))) u u')"
proof -
  have m: "mgr_inv B mg" and pl: "pool_inv {} [] (evts mg) p" using inv by (simp_all add: pstate_inv_def)
  obtain k qs where g: "GetTask t p = Some (k, p\<lparr>queue := qs, tkey := (tkey p)(t := k)\<rparr>)"
      "queues_ok {} (p\<lparr>queue := qs, tkey := (tkey p)(t := k)\<rparr>)"
      "k = -1 \<or> 0 \<le> k \<and> k < int MAX_THREAD_TASK \<and> used (qs (nat k)) \<and> tid (qs (nat k)) = t"
      "\<forall>j. qtasks (qs j) = qtasks (queue p j) \<and> (used (queue p j) \<longrightarrow> qs j = queue p j)"
    using GetTask_ok[OF pool_invD(3)[OF pl], of t] by blast
  let ?p1 = "p\<lparr>queue := qs, tkey := (tkey p)(t := k)\<rparr>"
  have uq: "used (queue p j) \<Longrightarrow> used (qs j)" for j using g(4) by metis
  have t1: "tasks_ok [] ?p1"
    using pool_invD(2)[OF pl] g(4) uq by (simp add: tasks_ok_def)
  have pl1: "pool_inv {} [] (evts mg) ?p1"
    unfolding pool_inv_def
  proof (intro conjI allI impI)
    fix e x assume a: "e \<in> live ?p1" "pevts ?p1 e = Some x"
    then have "e \<in> live p" "pevts p e = Some x" by (simp_all add: live_def)
    then show "evt_free x" "push_task x" "target_ok ?p1 x"
      using pool_invD(6)[OF pl] uq by (auto simp: target_ok_def)
  next
    show "events_ok ?p1" using pool_invD(1)[OF pl] by (simp add: events_ok_def live_def)
    show "(\<exists>ev. evts mg e = Some ev \<and> emgr ev \<noteq> NULL) \<longleftrightarrow> e \<in> live ?p1" for e
      using pool_invD(5)[OF pl, of e] by (simp add: live_def)
    show "ended x = 0" if "pevts ?p1 e = Some x" for e x using pool_invD(7)[OF pl, of e x] that by simp
  qed (use t1 g(2) pool_invD(4)[OF pl] in simp_all)
  have pend: "pending ?p1 j = pending p j" for j using g(4) by (simp add: pending_def)
  show ?thesis
  proof (cases "k = -1")
    case True
    then have "itimer_update_timer fn t ((mg, p), u) = Some (-1, (mg, ?p1), u)"
      using g(1) by (simp add: itimer_update_timer_def)
    then show ?thesis using True m pl1 g(1) by (intro exI[of _ k]) (simp add: pstate_inv_def)
  next
    case False
    then have k: "0 \<le> k" "used (qs (nat k))" "tid (qs (nat k)) = t" using g(3) by auto
    let ?k = "nat k"
    let ?p2 = "set_locked ?k True ?p1"
    have free: "\<not> locked (qs j)" for j using queues_okD(1)[OF g(2), of j] by simp
    have q2: "queues_ok {?k} ?p2" 

      by (rule queues_ok_lock[OF g(2)]) (use free in auto)
    have "pool_inv {?k} [] (evts mg) ?p2"
      by (rule pool_inv_cong[OF pl1 _ _ q2]) (use t1 in simp_all)
    then have i2: "pstate_inv B {?k} [] (mg, ?p2)" using m by (simp add: pstate_inv_def)
    obtain mg3 p3 u3 where r: "foldM (task_run fn ?k) (qtasks (queue ?p2 ?k)) (((mg, ?p2), u), []) =
        Some (((mg3, p3), u3), [] @ qtasks (queue ?p2 ?k))" "pstate_inv B {?k} ([] @ qtasks (queue ?p2 ?k)) (mg3, p3)"
        "same_clock mg mg3" "queue p3 ?k = (queue ?p2 ?k)\<lparr>qtasks := []\<rparr>" "calls_rel R (real_calls (pending ?p2 ?k)) u u3"
      using task_runs_ok[OF fn i2 refl] by blast
    let ?ts = "qtasks (queue ?p2 ?k)" and ?p4 = "set_locked ?k False p3"
    have pl3: "mgr_inv B mg3" "pool_inv {?k} ?ts (evts mg3) p3" using r(2) by (simp_all add: pstate_inv_def)
    have q4: "queues_ok {} ?p4" 
      by (rule queues_ok_lock[OF pool_invD(3)[OF pl3(2)]])
         (use queues_okD(1)[OF pool_invD(3)[OF pl3(2)]] in auto)
    have "pool_inv {} ?ts (evts mg3) ?p4"
      by (rule pool_inv_cong[OF pl3(2) _ _ q4])
         (use pool_invD(2)[OF pl3(2)] in simp_all)
    note fr = task_frees_ok[OF this]
    have "pending ?p2 ?k = pending p ?k" using pend[of ?k] by simp
    moreover have "itimer_update_timer fn t ((mg, p), u) =
        Some (0, (mg3, fold itimer_task_pool_free ?ts ?p4), u3)"
      using g(1) k free r(1) by (simp add: itimer_update_timer_def Let_def del: set_locked_parts)
    moreover have "qtasks (queue ?p4 ?k) = []" using r(4) by simp
    ultimately show ?thesis
      using fr pl3(1) r(3,5) k(1) g(1)
      by (intro exI[of _ k] exI[of _ 0] exI[of _ mg3] exI[of _ "fold itimer_task_pool_free ?ts ?p4"] exI[of _ u3])
         (simp add: pstate_inv_def)
  qed
qed

section \<open>Reachable states\<close>

text \<open>The clock stays below \<open>B\<close> while the manager catches up.\<close>

definition run_room :: "nat \<Rightarrow> u64 \<Rightarrow> itimer_mgr \<Rightarrow> bool" where
  "run_room B now mg \<longleftrightarrow>
     unat (current mg) + mgr_ticks (ucast now) (run_from (ucast now) mg) (interval mg) * unat (interval mg) \<le> B"

inductive pool_reach :: "nat \<Rightarrow> 'u task_fn \<Rightarrow> pstate \<times> 'u \<Rightarrow> bool" for B fn where
  init: "itimer_work_init a c now iv pool_start = Some s \<Longrightarrow> c \<noteq> NULL \<Longrightarrow> unat (ucast now :: u32) \<le> B \<Longrightarrow>
    interval_ok iv \<Longrightarrow> pool_reach B fn (s, u)"
| set: "pool_reach B fn ((mg, p), u) \<Longrightarrow> set_room B new timer p \<Longrightarrow>
    itimer_set t new f d a timer rep (mg, p) = Some (h, s) \<Longrightarrow> pool_reach B fn (s, u)"
| unset: "pool_reach B fn ((mg, p), u) \<Longrightarrow> itimer_unset h (mg, p) = Some s \<Longrightarrow> pool_reach B fn (s, u)"
| run: "pool_reach B fn ((mg, p), u) \<Longrightarrow> run_room B now mg \<Longrightarrow> itimer_run (\<lambda>_. True) now (mg, p) = Some s \<Longrightarrow>
    pool_reach B fn (s, u)"
| update: "pool_reach B fn ((mg, p), u) \<Longrightarrow> itimer_update_timer fn t ((mg, p), u) = Some (r, s, u') \<Longrightarrow>
    pool_reach B fn (s, u')"

text \<open>Between calls the wheel is at rest as well.\<close>

definition rest_inv :: "nat \<Rightarrow> pstate \<Rightarrow> bool" where
  "rest_inv B s \<longleftrightarrow> pstate_inv B {} [] s \<and> queued (mcore (fst s)) = [] \<and>
     timer_jiffies (mcore (fst s)) = jiffies (fst s) \<and> interval_ok (interval (fst s))"

lemma rest_inv_keep:
  assumes "rest_inv B (mg, p)" and "mgr_inv B mg'" and "same_clock mg mg'" and "pool_inv {} [] (evts mg') p'"
  shows "rest_inv B (mg', p')"
  using assms by (simp add: rest_inv_def pstate_inv_def same_clock_def)

lemma itimer_work_init_ok:
  assumes "itimer_work_init a c now iv pool_start = Some s" and "c \<noteq> NULL" and "unat (ucast now :: u32) \<le> B"
    and "interval_ok iv"
  shows "rest_inv B s"
proof -
  let ?w = "\<lparr>self = c, timer_jiffies = 0, vec = (\<lambda>k i. []), queued = [], nodemem = Map.empty\<rparr>"
  obtain mg p where s: "s = (mg, p)" by (cases s)
  have a: "a \<noteq> NULL" using assms(1) by (auto simp: itimer_work_init_def itimer_mgr_thread_init_def split: if_splits)
  have mg: "mg = itimer_mgr_init (ucast now) iv
      \<lparr>mself = a, interval = 0, current = 0, millisec = 0, jiffies = 0, mcore = ?w, evts = Map.empty\<rparr>"
    and p: "p = itimer_task_init (itimer_task_pool_init (itimer_evt_pool_init pool_start))"
    using assms(1) a s by (auto simp: itimer_work_init_def itimer_mgr_thread_init_def)
  have w: "wheel_inv (mcore mg)" "members (mcore mg) = {}" "queued (mcore mg) = []" "timer_jiffies (mcore mg) = jiffies mg"
    using itimer_core_init_inv[of ?w 0] assms(2) by (simp_all add: mg itimer_mgr_init_def itimer_core_init_def)
  have f: "evts mg = Map.empty" "mself mg = a" "interval mg = (if iv < 1 then 1 else iv)" "current mg = ucast now"
    by (simp_all add: mg itimer_mgr_init_def)
  have "interval_ok 1" by (simp add: interval_ok_def ITIMER_MGR_LIMIT_def)
  then have "0 < interval mg" "interval_ok (interval mg)"
    using assms(4) by (auto simp: f(3) word_less_nat_alt)
  moreover have "evts_ok B (mcore mg) mg"
    using w f(1) by (simp add: evts_ok_def linked_nodes_def)
  ultimately have "mgr_inv B mg" "interval_ok (interval mg)"
    using w(1) f a assms(3) by (simp_all add: mgr_inv_def)
  moreover have "pool_inv {} [] (evts mg) p"
  proof -
    have "live p = {}" by (simp add: live_def p itimer_task_init_def itimer_task_pool_init_def itimer_evt_pool_init_def)
    then have "events_ok p" "tasks_ok [] p" "queues_ok {} p" "pevts p = Map.empty"
      by (simp_all add: events_ok_def tasks_ok_def queues_ok_def p itimer_task_init_def itimer_task_pool_init_def
          itimer_evt_pool_init_def pool_start_def)
    then show ?thesis using f(1) \<open>live p = {}\<close> by (simp add: pool_inv_def)
  qed
  ultimately show ?thesis using w(3,4) s by (simp add: rest_inv_def pstate_inv_def)
qed

lemma itimer_run_ok:
  assumes B: "B < 2 ^ 32" and inv: "rest_inv B (mg, p)" and room: "run_room B now mg"
  shows "\<exists>s. itimer_run (\<lambda>_. True) now (mg, p) = Some s \<and> rest_inv B s"
proof -
  have i: "mgr_inv B mg" "pool_inv {} [] (evts mg) p" "queued (mcore mg) = []" "timer_jiffies (mcore mg) = jiffies mg"
      "interval_ok (interval mg)"
    using inv by (simp_all add: rest_inv_def pstate_inv_def)
  obtain mg' p' where "itimer_mgr_run (pool_dispatch (\<lambda>_. True)) (ucast now) (mg, p) = Some (mg', p')" "mgr_inv B mg'"
      "pool_inv {} [] (evts mg') p'" "queued (mcore mg') = []" "timer_jiffies (mcore mg') = jiffies mg'"
      "interval mg' = interval mg"
    using pool_mgr.client_run_ok[OF B i, of "ucast now"] room unfolding run_room_def by blast
  then show ?thesis using i(5) by (simp add: itimer_run_def rest_inv_def pstate_inv_def)
qed

lemma pool_reach_inv:
  assumes "pool_reach B fn su" and fn: "task_fn_ok B R fn" and B: "B < 2 ^ 32"
  shows "rest_inv B (fst su)"
  using assms(1)
proof (induction rule: pool_reach.induct)
  case (init a c now iv s u)
  then show ?case using itimer_work_init_ok by simp
next
  case (set mg p u new timer t f d a rep h s)
  then have i: "mgr_inv B mg" "pool_inv {} [] (evts mg) p" by (simp_all add: rest_inv_def pstate_inv_def)
  obtain mg' p' where "s = (mg', p')" "mgr_inv B mg'" "same_clock mg mg'" "pool_inv {} [] (evts mg') p'"
    using itimer_set_ok[OF i set.hyps(2), of t f d a rep] set.hyps(3) by auto
  then show ?case using rest_inv_keep set.IH by simp
next
  case (unset mg p u h s)
  then have i: "mgr_inv B mg" "pool_inv {} [] (evts mg) p" by (simp_all add: rest_inv_def pstate_inv_def)
  obtain mg' p' where "s = (mg', p')" "mgr_inv B mg'" "same_clock mg mg'" "pool_inv {} [] (evts mg') p'"
    using itimer_unset_ok[OF i, of h] unset.hyps(2) by auto
  then show ?case using rest_inv_keep unset.IH by simp
next
  case (run mg p u now s)
  then show ?case using itimer_run_ok[OF B, of mg p now] by auto
next
  case (update mg p u t r s u')
  then have "pstate_inv B {} [] (mg, p)" by (simp add: rest_inv_def)
  from itimer_update_timer_ok[OF fn this, of t u] obtain mg' p' where "s = (mg', p')" "pstate_inv B {} [] (mg', p')"
      "same_clock mg mg'"
    using update.hyps(2) by auto
  then show ?case using rest_inv_keep update.IH by (simp add: pstate_inv_def)
qed

section \<open>The thread of queue 0\<close>

text \<open>
  The key 0 stands for a key that is not set, so a thread whose identifier is a multiple of 48 searches again each time.  A
  function that it runs in \<open>itimer_update_timer\<close> and that sets a timer waits for the mutex of queue 0, which the thread
  itself holds.
\<close>

lemma GetTask_key_zero_blocks:
  assumes "tkey p t = 0" and "t mod MAX_THREAD_TASK = 0" and "locked (queue p 0)"
  shows "GetTask t p = None"
  using assms by (simp add: GetTask_def get_task_loop.simps)

lemma itimer_set_key_zero_blocks:
  assumes "tkey p t = 0" and "t mod MAX_THREAD_TASK = 0" and "locked (queue p 0)"
    and "itimer_evt_pool_alloc new (mg, p) = Some (e, mg1, p1)" and "queue p1 = queue p" and "tkey p1 = tkey p"
  shows "itimer_set t new f d a timer rep (mg, p) = None"
  using assms GetTask_key_zero_blocks[of "p1\<lparr>pevts := m\<rparr>" t for m]
  by (auto simp: itimer_set_def Let_def bind_eq_None_conv)

section \<open>Properties\<close>


text \<open>A function that records its arguments and unsets the timer whose handle it gets.\<close>

definition unset_fn :: "call list task_fn" where
  "unset_fn f d a = (\<lambda>(s, u). map_option (\<lambda>s. (s, u @ [(f, d, a)])) (itimer_unset d s))"

lemma unset_fn_ok: "task_fn_ok B (\<lambda>u c u'. u' = u @ [c]) unset_fn"
  unfolding task_fn_ok_def
proof (intro allI impI)
  fix k H f d a mg p and u :: "call list" assume "pstate_inv B {k} H (mg, p)"
  then have i: "mgr_inv B mg" "pool_inv {k} H (evts mg) p" by (simp_all add: pstate_inv_def)
  obtain mg' p' where "itimer_unset d (mg, p) = Some (mg', p')" "mgr_inv B mg'" "same_clock mg mg'"
      "pool_inv {k} H (evts mg') p'" "queue p' = queue p" "tasks p' = tasks p"
    using itimer_unset_ok[OF i, of d] by blast
  then show "\<exists>mg' p' u'. unset_fn f d a ((mg, p), u) = Some ((mg', p'), u') \<and> pstate_inv B {k} H (mg', p') \<and>
      same_clock mg mg' \<and> queue p' k = queue p k \<and> (\<forall>t \<in> set (qtasks (queue p k)). tasks p' t = tasks p t) \<and>
      u' = u @ [(f, d, a)]"
    by (simp add: unset_fn_def pstate_inv_def)
qed

lemma calls_rel_log: "calls_rel (\<lambda>u c u'. u' = u @ [c]) cs u u' \<longleftrightarrow> u' = u @ cs"
  by (induction cs arbitrary: u) auto

text \<open>One thread sets a timer of two periods of 25 ms, the clock at 1000 and 10 ms per interval.\<close>

definition sample_new :: "nat \<Rightarrow> addr" where
  "sample_new i = 8192 + of_nat i"

definition sample_start :: pstate where
  "sample_start = the (itimer_work_init 256 4096 1000 10 pool_start)"

definition sample_pool :: pstate where
  "sample_pool = snd (the (itimer_set 7 sample_new 1 2 3 25 2 sample_start))"

lemma sample_new_fresh: "pevts p = Map.empty \<Longrightarrow> evts_fresh sample_new p"
proof -
  have u: "unat (8192 + of_nat i :: addr) = 8192 + i" if "i < 20" for i
  proof -
    have "unat (of_nat i :: addr) = i" using that by (simp add: unsigned_of_nat take_bit_nat_eq_self)
    then show ?thesis using that by (subst unat_plus_if') simp
  qed
  have "inj_on sample_new {..<20}"
    by (rule inj_onI) (metis u add_left_cancel lessThan_iff sample_new_def)
  moreover have "sample_new i \<noteq> NULL" if "i < 20" for i using u[OF that] by (auto simp: sample_new_def)
  ultimately show "pevts p = Map.empty \<Longrightarrow> evts_fresh sample_new p"
    by (simp add: evts_fresh_def DEF_ITIMER_POOL_ADD_SIZE_def)
qed

lemma sample_start_eq:
  "itimer_work_init 256 4096 1000 10 pool_start = Some sample_start" "ghandle (snd sample_start) = 1"
  "pevts (snd sample_start) = Map.empty" "current (fst sample_start) = 1000" "interval (fst sample_start) = 10"
  "mself (fst sample_start) = 256" "set_room 2000 sample_new 25 (snd sample_start)" "live (snd sample_start) = {}"
  "queue (snd sample_start) k = \<lparr>used = False, tid = 0, locked = False, qtasks = []\<rparr>"
  by (simp_all add: sample_start_def itimer_work_init_def itimer_mgr_thread_init_def itimer_mgr_init_def itimer_task_init_def
      itimer_task_pool_init_def itimer_evt_pool_init_def pool_start_def set_room_def period_ok_def sample_new_fresh live_def)

lemma sample_start_pool_reach: "pool_reach 2000 fn (sample_start, u)"
  by (rule pool_reach.init[OF sample_start_eq(1)]) (simp_all add: interval_ok_def ITIMER_MGR_LIMIT_def)

lemma sample_pool_ok:
  obtains e x where "itimer_set 7 sample_new 1 2 3 25 2 sample_start = Some (1, sample_pool)"
    "pstate_inv 2000 {} [] sample_pool" "live (snd sample_pool) = {e}" "pevts (snd sample_pool) e = Some x" "handle x = 1"
    "evts (fst sample_pool) e = Some \<lparr>period = 25, slap = 1025, repeat = 2, running = 0, ecallback = 1, edata = 2,
       euser = 3, emgr = 256\<rparr>" "task x = int 7" "tid (queue (snd sample_pool) 7) = 7"
    "qtasks (queue (snd sample_pool) 7) = []" "same_clock (fst sample_start) (fst sample_pool)"
proof -
  let ?mg = "fst sample_start" and ?p = "snd sample_start"
  have "rest_inv 2000 sample_start" by (rule itimer_work_init_ok[OF sample_start_eq(1)]) (simp_all add: interval_ok_def ITIMER_MGR_LIMIT_def)
  then have i: "mgr_inv 2000 ?mg" "pool_inv {} [] (evts ?mg) ?p"
    by (simp_all add: rest_inv_def pstate_inv_def case_prod_beta)
  from itimer_set_ok[OF i sample_start_eq(7), of 7 1 2 3 2] obtain e x mg' p' where
    st: "itimer_set 7 sample_new 1 2 3 25 2 (?mg, ?p) = Some (ghandle ?p, mg', p')" "mgr_inv 2000 mg'" "same_clock ?mg mg'"
      "pool_inv {} [] (evts mg') p'" "live p' = insert e (live ?p)" "pevts p' e = Some x" "handle x = ghandle ?p"
      "evts mg' e = Some \<lparr>period = 25, slap = current ?mg + 25, repeat = 2, running = 0, ecallback = 1,
         edata = 2, euser = 3, emgr = mself ?mg\<rparr>" "task x = -1 \<or> 0 \<le> task x \<and> tid (queue p' (nat (task x))) = 7"
      "task x = (if tkey ?p 7 \<noteq> 0 then tkey ?p 7 else fst (search_q 7 (q_order 7) (queue ?p)))"
      "\<forall>j. qtasks (queue p' j) = qtasks (queue ?p j)"
    by blast
  have "tkey ?p 7 = 0"
    by (simp add: sample_start_def itimer_work_init_def itimer_mgr_thread_init_def itimer_task_init_def
        itimer_task_pool_init_def itimer_evt_pool_init_def pool_start_def)
  moreover have "q_order 7 = 7 # tl (q_order 7)" by (simp add: q_order_def MAX_THREAD_TASK_def upt_conv_Cons)
  then have "fst (search_q 7 (q_order 7) (queue ?p)) = 7"
    using sample_start_eq(9)[of 7] by (metis fst_conv itimer_task_q.select_convs(1) of_nat_numeral search_q.simps(2))
  ultimately have k: "task x = 7" using st(10) by simp
  have eq: "sample_pool = (mg', p')" using st(1) by (simp add: sample_pool_def)
  show ?thesis
  proof (rule that[of e x])
    show "itimer_set 7 sample_new 1 2 3 25 2 sample_start = Some (1, sample_pool)"
      unfolding eq using st(1) sample_start_eq(2) by simp
    show "pstate_inv 2000 {} [] sample_pool" unfolding eq using st(2,4) by (simp add: pstate_inv_def)
    show "live (snd sample_pool) = {e}" unfolding eq using st(5) sample_start_eq(8) by simp
    show "evts (fst sample_pool) e = Some \<lparr>period = 25, slap = 1025, repeat = 2, running = 0, ecallback = 1, edata = 2,
       euser = 3, emgr = 256\<rparr>" unfolding eq using st(8) sample_start_eq(4,6) by simp
    show "tid (queue (snd sample_pool) 7) = 7" unfolding eq using st(9) k by simp
    show "qtasks (queue (snd sample_pool) 7) = []" unfolding eq using st(11) sample_start_eq(9)[of 7] by simp
    show "pevts (snd sample_pool) e = Some x" unfolding eq using st(6) by simp
    show "same_clock (fst sample_start) (fst sample_pool)" unfolding eq using st(3) by simp
  qed (use st(7) k sample_start_eq(2) in simp_all)
qed

lemma sample_run_room:
  assumes "same_clock (fst sample_start) mg"
  shows "run_room 2000 500 mg"
proof -
  have c: "interval mg = 10" "current mg = 1000" "millisec mg = 0"
    using assms sample_start_eq(4,5)
    by (simp_all add: same_clock_def sample_start_def itimer_work_init_def itimer_mgr_thread_init_def itimer_mgr_init_def)
  then have "run_from 500 mg = 0" by (simp add: run_from_def ITIMER_MGR_LIMIT_def)
  then show ?thesis using c by (simp add: run_room_def mgr_ticks_def)
qed




end
