(* ===== verification/DeadLock.thy ===== *)
theory DeadLock
  imports Base
begin

text \<open>
  The dead-lock detector of \<open>dead_lock_stub\<close>: the two tables that the wrapped \<open>pthread_mutex_lock\<close> and
  \<open>pthread_mutex_unlock\<close> maintain (which thread waits for which mutex, which thread holds which mutex and
  how often), the graph of waiting threads that the checker builds from them, and the topological count that
  decides whether there is a dead lock.

  The tables and the graph are the sequences of the entries of their intrusive lists (the operations of
  \<open>stlc_list.h\<close> are verified on pointers in \<open>StlcList\<close>); a pointer to an entry is the first entry
  with the key, since the lookups return that one.  A fixed-size name field holds the C string that fits in
  it.  Whether an allocation succeeds, the time and the back trace are arguments.  Waiting for a mutex that is
  never released is a fault.  What the checker prints is returned as data.
\<close>

section \<open>Data\<close>

definition WAIT_MUTEXLOCK_TIMEOUT :: u32 where "WAIT_MUTEXLOCK_TIMEOUT = 5"
definition WAIT_HOLD_THREAD_MAX :: nat where "WAIT_HOLD_THREAD_MAX = 10"
definition MAX_DEAD_MUTEXLOCK_CHECK :: nat where "MAX_DEAD_MUTEXLOCK_CHECK = 100"

record thread_graphic_vertex =
  indegress :: int
  vthread :: u64
  threads :: "u64 list"

record thread_req_lock =
  valid :: u8
  rtime :: u32
  rthread :: u64
  rlock :: u64
  rlock_name :: string
  rfile :: string
  rline :: int
  rfuncname :: string
  rstack :: "string list"
  rstack_num :: u8

record hold_lock_point =
  pfile :: string
  pline :: int
  pfuncname :: string
  pstack :: "string list"
  pstack_num :: u8

record thread_hold_lock =
  point_list :: "hold_lock_point list"
  hcount :: int
  hthread :: u64
  hlock :: u64
  hlock_name :: string

record dl_state =
  m_thread_apply_lock :: "thread_req_lock list"
  m_lock_belong_thread :: "thread_hold_lock list"
  deadlock_mutex :: bool

section \<open>The tables\<close>

definition mutex_lock :: "dl_state \<Rightarrow> dl_state option" where
  "mutex_lock st = (if deadlock_mutex st then None else Some (st\<lparr>deadlock_mutex := True\<rparr>))"

definition mutex_unlock :: "dl_state \<Rightarrow> dl_state" where
  "mutex_unlock st = st\<lparr>deadlock_mutex := False\<rparr>"

definition thread_req_lock_lookup :: "u64 \<Rightarrow> dl_state \<Rightarrow> thread_req_lock option" where
  "thread_req_lock_lookup tid st = find (\<lambda>l. rthread l = tid) (m_thread_apply_lock st)"

definition thread_req_lock_alloc :: "bool \<Rightarrow> u64 \<Rightarrow> dl_state \<Rightarrow> bool \<times> dl_state" where
  "thread_req_lock_alloc ok tid st =
     (if ok
      then (True, st\<lparr>m_thread_apply_lock := m_thread_apply_lock st @
              [\<lparr>valid = 0, rtime = 0, rthread = tid, rlock = 0, rlock_name = [], rfile = [], rline = 0,
                rfuncname = [], rstack = [], rstack_num = 0\<rparr>]\<rparr>)
      else (False, st))"

definition thread_req_lock_init ::
  "u64 \<Rightarrow> u64 \<Rightarrow> string \<Rightarrow> int \<Rightarrow> string \<Rightarrow> string \<Rightarrow> string list \<Rightarrow> u8 \<Rightarrow> u32 \<Rightarrow> thread_req_lock \<Rightarrow> thread_req_lock" where
  "thread_req_lock_init tid lock file line func name stack num now l =
     l\<lparr>rthread := tid, rlock := lock, rline := line, rtime := now, rstack := stack, rstack_num := num,
       rfile := take 31 file, rfuncname := take 31 func, rlock_name := take 31 name\<rparr>"

definition thread_req_lock_lookup_or_alloc :: "bool \<Rightarrow> u64 \<Rightarrow> dl_state \<Rightarrow> bool \<times> dl_state" where
  "thread_req_lock_lookup_or_alloc ok tid st =
     (case thread_req_lock_lookup tid st of
        None \<Rightarrow> thread_req_lock_alloc ok tid st
      | Some _ \<Rightarrow> (True, st))"

definition thread_hold_lock_lookup :: "u64 \<Rightarrow> dl_state \<Rightarrow> thread_hold_lock option" where
  "thread_hold_lock_lookup lock st = find (\<lambda>h. hlock h = lock) (m_lock_belong_thread st)"

definition thread_hold_lock_alloc :: "bool \<Rightarrow> u64 \<Rightarrow> dl_state \<Rightarrow> bool \<times> dl_state" where
  "thread_hold_lock_alloc ok lock st =
     (if ok
      then (True, st\<lparr>m_lock_belong_thread := m_lock_belong_thread st @
              [\<lparr>point_list = [], hcount = 0, hthread = 0, hlock = lock, hlock_name = []\<rparr>]\<rparr>)
      else (False, st))"

definition thread_hold_lock_lookup_or_alloc :: "bool \<Rightarrow> u64 \<Rightarrow> dl_state \<Rightarrow> bool \<times> dl_state" where
  "thread_hold_lock_lookup_or_alloc ok lock st =
     (case thread_hold_lock_lookup lock st of
        None \<Rightarrow> thread_hold_lock_alloc ok lock st
      | Some _ \<Rightarrow> (True, st))"

definition hold_lock_point_init :: "string \<Rightarrow> int \<Rightarrow> string \<Rightarrow> string list \<Rightarrow> u8 \<Rightarrow> hold_lock_point" where
  "hold_lock_point_init file line func stack num =
     \<lparr>pfile = take 19 file, pline = line, pfuncname = take 31 func, pstack = stack, pstack_num = num\<rparr>"

definition thread_hold_lock_pushstack ::
  "bool \<Rightarrow> string \<Rightarrow> int \<Rightarrow> string \<Rightarrow> string list \<Rightarrow> u8 \<Rightarrow> thread_hold_lock \<Rightarrow> thread_hold_lock" where
  "thread_hold_lock_pushstack ok file line func stack num h =
     (if ok
      then h\<lparr>point_list := hold_lock_point_init file line func stack num # point_list h, hcount := hcount h + 1\<rparr>
      else h)"

definition thread_hold_lock_popstack :: "thread_hold_lock \<Rightarrow> thread_hold_lock" where
  "thread_hold_lock_popstack h =
     (case point_list h of
        [] \<Rightarrow> h
      | p # ps \<Rightarrow> h\<lparr>point_list := ps, hcount := hcount h - 1\<rparr>)"

definition deadlockcheck_before ::
  "bool \<Rightarrow> u32 \<Rightarrow> u64 \<Rightarrow> u64 \<Rightarrow> string \<Rightarrow> int \<Rightarrow> string \<Rightarrow> string \<Rightarrow> string list \<Rightarrow> u8 \<Rightarrow> dl_state \<Rightarrow> dl_state option" where
  "deadlockcheck_before ok now tid lock file line func name stack num st = do {
     st \<leftarrow> mutex_lock st;
     let (l, st) = thread_req_lock_lookup_or_alloc ok tid st;
     if \<not> l then Some st
     else Some (mutex_unlock (st\<lparr>m_thread_apply_lock :=
            upd_first (\<lambda>l. rthread l = tid)
              (\<lambda>l. (thread_req_lock_init tid lock file line func name stack num now l)\<lparr>valid := 1\<rparr>)
              (m_thread_apply_lock st)\<rparr>)) }"

definition deadlockcheck_after ::
  "bool \<Rightarrow> bool \<Rightarrow> u64 \<Rightarrow> u64 \<Rightarrow> string \<Rightarrow> int \<Rightarrow> string \<Rightarrow> string \<Rightarrow> string list \<Rightarrow> u8 \<Rightarrow> dl_state \<Rightarrow> dl_state option" where
  "deadlockcheck_after ok1 ok2 tid lock file line func name stack num st = do {
     st \<leftarrow> mutex_lock st;
     let st = st\<lparr>m_thread_apply_lock :=
       upd_first (\<lambda>l. rthread l = tid) (\<lambda>l. l\<lparr>valid := 0, rstack_num := 0, rstack := []\<rparr>) (m_thread_apply_lock st)\<rparr>;
     let (h, st) = thread_hold_lock_lookup_or_alloc ok1 lock st;
     if \<not> h then (if ok2 then None else Some (mutex_unlock st))
     else Some (mutex_unlock (st\<lparr>m_lock_belong_thread :=
            upd_first (\<lambda>h. hlock h = lock)
              (\<lambda>h. thread_hold_lock_pushstack ok2 file line func stack num (h\<lparr>hthread := tid, hlock_name := take 31 name\<rparr>))
              (m_lock_belong_thread st)\<rparr>)) }"

definition deadlockcheck_unlock_after :: "bool \<Rightarrow> u64 \<Rightarrow> u64 \<Rightarrow> dl_state \<Rightarrow> dl_state option" where
  "deadlockcheck_unlock_after ok tid lock st = do {
     st \<leftarrow> mutex_lock st;
     let (h, st) = thread_hold_lock_lookup_or_alloc ok lock st;
     Some (mutex_unlock (if h
       then st\<lparr>m_lock_belong_thread :=
              upd_first (\<lambda>h. hlock h = lock) thread_hold_lock_popstack (m_lock_belong_thread st)\<rparr>
       else st)) }"

definition dead_lock_stub_start_check :: "dl_state \<Rightarrow> dl_state" where
  "dead_lock_stub_start_check st = st\<lparr>m_thread_apply_lock := [], m_lock_belong_thread := []\<rparr>"

section \<open>The check\<close>

definition graphics_queue_empty :: "u64 list \<Rightarrow> bool" where
  "graphics_queue_empty q = (q = [])"

definition graphics_queue_push_back :: "u64 \<Rightarrow> u64 list \<Rightarrow> u64 list" where
  "graphics_queue_push_back tid q = (if length q < MAX_DEAD_MUTEXLOCK_CHECK then q @ [tid] else q)"

definition graphics_queue_pop :: "u64 list \<Rightarrow> u64 \<times> u64 list" where
  "graphics_queue_pop q = (if q = [] then (0, q) else (last q, butlast q))"

definition thread_graphic_vertex_count :: "thread_graphic_vertex list \<Rightarrow> nat" where
  "thread_graphic_vertex_count g = fold (\<lambda>_ n. n + 1) g 0"

definition thread_graphic_vertex_lookup :: "u64 \<Rightarrow> thread_graphic_vertex list \<Rightarrow> thread_graphic_vertex option" where
  "thread_graphic_vertex_lookup tid g = find (\<lambda>v. vthread v = tid) g"

definition thread_graphic_vertex_alloc :: "bool \<Rightarrow> u64 \<Rightarrow> thread_graphic_vertex option" where
  "thread_graphic_vertex_alloc ok tid = (if ok then Some \<lparr>indegress = 0, vthread = tid, threads = []\<rparr> else None)"

definition thread_graphic_vertex_push_back :: "u64 \<Rightarrow> thread_graphic_vertex \<Rightarrow> thread_graphic_vertex" where
  "thread_graphic_vertex_push_back tid v =
     (if length (threads v) < WAIT_HOLD_THREAD_MAX then v\<lparr>threads := threads v @ [tid]\<rparr> else v)"

text \<open>A new vertex is linked to the graph without a test of the allocation: linking the null pointer is a fault.\<close>

definition thread_graphic_vertex_lookup_or_alloc ::
  "bool \<Rightarrow> u64 \<Rightarrow> thread_graphic_vertex list \<Rightarrow> thread_graphic_vertex list option" where
  "thread_graphic_vertex_lookup_or_alloc ok tid g =
     (case thread_graphic_vertex_lookup tid g of
        None \<Rightarrow> do { v \<leftarrow> thread_graphic_vertex_alloc ok tid; Some (v # g) }
      | Some _ \<Rightarrow> Some g)"

abbreviation upd_vertex :: "u64 \<Rightarrow> (thread_graphic_vertex \<Rightarrow> thread_graphic_vertex) \<Rightarrow>
    thread_graphic_vertex list \<Rightarrow> thread_graphic_vertex list" where
  "upd_vertex tid \<equiv> upd_first (\<lambda>v. vthread v = tid)"

text \<open>
  One request: nothing when it is not valid or its mutex is not held, otherwise an edge to the holder.  The argument
  \<open>ok\<close> tells whether the allocation of a vertex succeeds: its first argument is the thread of the request that is
  being added, its second the thread of the new vertex.  The test of the two vertices always succeeds: a failed
  allocation has faulted before.
\<close>

definition add_edge ::
  "(u64 \<Rightarrow> u64 \<Rightarrow> bool) \<Rightarrow> u64 \<Rightarrow> u64 \<Rightarrow> thread_graphic_vertex list \<Rightarrow> thread_graphic_vertex list option" where
  "add_edge ok t1 t2 g = do {
     g \<leftarrow> thread_graphic_vertex_lookup_or_alloc (ok t1 t1) t1 g;
     g \<leftarrow> thread_graphic_vertex_lookup_or_alloc (ok t1 t2) t2 g;
     Some (upd_vertex t2 (\<lambda>v. v\<lparr>indegress := indegress v + 1\<rparr>) (upd_vertex t1 (thread_graphic_vertex_push_back t2) g)) }"

definition add_request :: "(u64 \<Rightarrow> u64 \<Rightarrow> bool) \<Rightarrow> dl_state \<Rightarrow> thread_req_lock \<Rightarrow>
    thread_graphic_vertex list \<Rightarrow> thread_graphic_vertex list option" where
  "add_request ok st l g =
     (if valid l = 0 then Some g
      else case thread_hold_lock_lookup (rlock l) st of
             None \<Rightarrow> Some g
           | Some h \<Rightarrow> if hcount h \<le> 0 then Some g else add_edge ok (rthread l) (hthread h) g)"

definition build_graph :: "(u64 \<Rightarrow> u64 \<Rightarrow> bool) \<Rightarrow> dl_state \<Rightarrow> thread_graphic_vertex list option" where
  "build_graph ok st = foldM (add_request ok st) (m_thread_apply_lock st) []"

text \<open>The vertices without incoming edge are queued and counted.\<close>

definition queue_roots :: "thread_graphic_vertex list \<Rightarrow> u64 list \<times> nat" where
  "queue_roots g = fold (\<lambda>v (q, n). if indegress v = 0 then (graphics_queue_push_back (vthread v) q, n + 1) else (q, n)) g ([], 0)"

definition cut_edge ::
  "u64 \<Rightarrow> thread_graphic_vertex list \<times> u64 list \<times> nat \<Rightarrow> (thread_graphic_vertex list \<times> u64 list \<times> nat) option" where
  "cut_edge t = (\<lambda>(g, q, n). do {
     v \<leftarrow> thread_graphic_vertex_lookup t g;
     let g = upd_vertex t (\<lambda>v. v\<lparr>indegress := indegress v - 1\<rparr>) g;
     Some (if indegress v - 1 = 0 then (g, graphics_queue_push_back t q, n + 1) else (g, q, n)) })"

partial_function (option) peel ::
  "thread_graphic_vertex list \<times> u64 list \<times> nat \<Rightarrow> (thread_graphic_vertex list \<times> nat) option" where
  "peel s = (case s of (g, q, n) \<Rightarrow>
     if graphics_queue_empty q then Some (g, n)
     else (case graphics_queue_pop q of (t, q) \<Rightarrow>
       Option.bind (thread_graphic_vertex_lookup t g) (\<lambda>v.
       Option.bind (foldM cut_edge (threads v) (g, q, n)) peel)))"

declare peel.simps [code]

text \<open>
  The report of a dead lock: for each vertex with an incoming edge left, its request, the threads it waits for and
  the mutexes it holds; a vertex without a request is skipped.
\<close>

type_synonym dead_entry = "u64 \<times> thread_req_lock \<times> u64 list \<times> thread_hold_lock list"

definition show_dead_lock_infomation :: "dl_state \<Rightarrow> thread_graphic_vertex list \<Rightarrow> dead_entry list" where
  "show_dead_lock_infomation st g = concat (map (\<lambda>pos.
     if indegress pos = 0 then []
     else case thread_req_lock_lookup (vthread pos) st of
            None \<Rightarrow> []
          | Some l \<Rightarrow> [(vthread pos, l, threads pos,
                       filter (\<lambda>h. hthread h = vthread pos \<and> hcount h \<noteq> 0) (m_lock_belong_thread st))]) g)"

text \<open>The report of long waits: the request and the holder of its mutex, which is not shown when its count is 0.\<close>

definition thread_hold_lock_shown :: "u64 \<Rightarrow> dl_state \<Rightarrow> thread_hold_lock option" where
  "thread_hold_lock_shown lock st =
     (case thread_hold_lock_lookup lock st of
        None \<Rightarrow> None
      | Some h \<Rightarrow> if hcount h = 0 then None else Some h)"

definition check_wait_lock_time :: "u32 \<Rightarrow> dl_state \<Rightarrow> (thread_req_lock \<times> thread_hold_lock option) list" where
  "check_wait_lock_time now st = concat (map (\<lambda>l.
     if valid l = 0 then []
     else if now - rtime l > WAIT_MUTEXLOCK_TIMEOUT then [(l, thread_hold_lock_shown (rlock l) st)] else [])
     (m_thread_apply_lock st))"

datatype dl_report = DeadLock "dead_entry list" | NoDeadLock "(thread_req_lock \<times> thread_hold_lock option) list"

definition check_dead_lock_unlocked :: "(u64 \<Rightarrow> u64 \<Rightarrow> bool) \<Rightarrow> u32 \<Rightarrow> dl_state \<Rightarrow> dl_report option" where
  "check_dead_lock_unlocked ok now st = do {
     g \<leftarrow> build_graph ok st;
     let (q, n) = queue_roots g;
     (g, n) \<leftarrow> peel (g, q, n);
     Some (if n \<noteq> thread_graphic_vertex_count g then DeadLock (show_dead_lock_infomation st g)
           else NoDeadLock (check_wait_lock_time now st)) }"

definition check_dead_lock_stub :: "(u64 \<Rightarrow> u64 \<Rightarrow> bool) \<Rightarrow> u32 \<Rightarrow> dl_state \<Rightarrow> (dl_report \<times> dl_state) option" where
  "check_dead_lock_stub ok now st = do {
     st \<leftarrow> mutex_lock st;
     r \<leftarrow> check_dead_lock_unlocked ok now st;
     Some (r, mutex_unlock st) }"

definition show_thread_locks_info :: "dl_state \<Rightarrow> ((thread_req_lock list \<times> thread_hold_lock list) \<times> dl_state) option" where
  "show_thread_locks_info st = do {
     st \<leftarrow> mutex_lock st;
     Some ((filter (\<lambda>l. valid l \<noteq> 0) (m_thread_apply_lock st), filter (\<lambda>h. hcount h \<noteq> 0) (m_lock_belong_thread st)),
           mutex_unlock st) }"

section \<open>The graph of the waiting threads\<close>

text \<open>The specification: thread \<open>a\<close> waits for thread \<open>b\<close> when it requests a mutex that \<open>b\<close> holds.\<close>

definition waits_for :: "dl_state \<Rightarrow> (u64 \<times> u64) set" where
  "waits_for st = {(rthread l, hthread h) | l h. l \<in> set (m_thread_apply_lock st) \<and> valid l \<noteq> 0 \<and>
     h \<in> set (m_lock_belong_thread st) \<and> hlock h = rlock l \<and> 0 < hcount h}"

text \<open>Each thread has one request, each mutex has one entry, and its count is the number of its lock points.\<close>

definition dl_inv :: "dl_state \<Rightarrow> bool" where
  "dl_inv st \<longleftrightarrow> distinct (map rthread (m_thread_apply_lock st)) \<and> distinct (map hlock (m_lock_belong_thread st)) \<and>
     (\<forall>h \<in> set (m_lock_belong_thread st). hcount h = int (length (point_list h)))"

definition request_edges :: "dl_state \<Rightarrow> thread_req_lock \<Rightarrow> (u64 \<times> u64) list" where
  "request_edges st l =
     (if valid l = 0 then []
      else case thread_hold_lock_lookup (rlock l) st of
             None \<Rightarrow> []
           | Some h \<Rightarrow> if hcount h \<le> 0 then [] else [(rthread l, hthread h)])"

definition edges :: "dl_state \<Rightarrow> (u64 \<times> u64) list" where
  "edges st = concat (map (request_edges st) (m_thread_apply_lock st))"

lemma set_request_edges:
  assumes "distinct (map hlock (m_lock_belong_thread st))"
  shows "e \<in> set (request_edges st l) \<longleftrightarrow> valid l \<noteq> 0 \<and>
    (\<exists>h \<in> set (m_lock_belong_thread st). hlock h = rlock l \<and> 0 < hcount h \<and> e = (rthread l, hthread h))"
proof (cases "thread_hold_lock_lookup (rlock l) st")
  case None
  then have "\<forall>h \<in> set (m_lock_belong_thread st). hlock h \<noteq> rlock l"
    by (simp add: thread_hold_lock_lookup_def find_None_iff)
  then show ?thesis using None
    by (simp add: request_edges_def)
next
  case (Some h)
  then have h: "h \<in> set (m_lock_belong_thread st)" "hlock h = rlock l"
    using find_key_iff[OF assms, of "rlock l" h] by (auto simp: thread_hold_lock_lookup_def)
  have uniq: "h' = h" if "h' \<in> set (m_lock_belong_thread st)" "hlock h' = rlock l" for h'
    using find_key_iff[OF assms, of "rlock l" h'] that Some by (simp add: thread_hold_lock_lookup_def)
  show ?thesis
    using Some h by (auto simp: request_edges_def dest: uniq)
qed

lemma set_edges: "dl_inv st \<Longrightarrow> set (edges st) = waits_for st"
proof (rule set_eqI)
  fix e
  assume "dl_inv st"
  then have d: "distinct (map hlock (m_lock_belong_thread st))" by (simp add: dl_inv_def)
  show "e \<in> set (edges st) \<longleftrightarrow> e \<in> waits_for st"
    by (simp add: edges_def waits_for_def set_request_edges[OF d]) blast
qed

lemma distinct_edges:
  assumes "dl_inv st"
  shows "distinct (map fst (edges st))"
proof -
  have sub: "set (map fst (concat (map (request_edges st) ls))) \<subseteq> rthread ` set ls" for ls
    by (auto simp: request_edges_def split: option.splits if_splits)
  have "distinct (map rthread ls) \<Longrightarrow> distinct (map fst (concat (map (request_edges st) ls)))" for ls
  proof (induction ls)
    case (Cons l ls)
    then show ?case using sub[of ls]
      by (auto simp: request_edges_def image_iff subset_iff split: option.splits if_splits)
  qed simp
  then show ?thesis using assms unfolding edges_def dl_inv_def by blast
qed


text \<open>The vertex of a thread when the threads in \<open>R\<close> have been removed, and the graph of these vertices.\<close>

definition vertex :: "u64 set \<Rightarrow> (u64 \<times> u64) list \<Rightarrow> u64 \<Rightarrow> thread_graphic_vertex" where
  "vertex R es t = \<lparr>indegress = int (length (filter (\<lambda>e. snd e = t \<and> fst e \<notin> R) es)), vthread = t,
     threads = map snd (filter (\<lambda>e. fst e = t) es)\<rparr>"

definition nodes :: "(u64 \<times> u64) list \<Rightarrow> u64 set" where
  "nodes es = fst ` set es \<union> snd ` set es"

definition graph_ok :: "u64 set \<Rightarrow> (u64 \<times> u64) list \<Rightarrow> thread_graphic_vertex list \<Rightarrow> bool" where
  "graph_ok R es g \<longleftrightarrow> distinct (map vthread g) \<and> set (map vthread g) = nodes es \<and>
     (\<forall>t \<in> nodes es. thread_graphic_vertex_lookup t g = Some (vertex R es t))"

lemma vthread_upd_vertex [simp]:
  "(\<And>v. vthread (f v) = vthread v) \<Longrightarrow> map vthread (upd_vertex t f g) = map vthread g"
  by (induction g) auto

lemma lookup_upd_vertex:
  assumes "\<And>v. vthread (f v) = vthread v"
  shows "thread_graphic_vertex_lookup t' (upd_vertex t f g) =
    (if t' = t then map_option f (thread_graphic_vertex_lookup t g) else thread_graphic_vertex_lookup t' g)"
  using assms by (induction g) (auto simp: thread_graphic_vertex_lookup_def)

lemma lookup_None_iff: "thread_graphic_vertex_lookup t g = None \<longleftrightarrow> t \<notin> set (map vthread g)"
  by (auto simp: thread_graphic_vertex_lookup_def find_None_iff image_iff)

lemma lookup_Cons:
  "thread_graphic_vertex_lookup t (v # g) = (if vthread v = t then Some v else thread_graphic_vertex_lookup t g)"
  by (simp add: thread_graphic_vertex_lookup_def)

text \<open>Adding vertices for a set of threads: the graph over more nodes, the new ones without edges.\<close>

definition graph_on :: "u64 set \<Rightarrow> (u64 \<times> u64) list \<Rightarrow> thread_graphic_vertex list \<Rightarrow> bool" where
  "graph_on V es g \<longleftrightarrow> distinct (map vthread g) \<and> set (map vthread g) = V \<and>
     (\<forall>t \<in> V. thread_graphic_vertex_lookup t g = Some (vertex {} es t))"

lemma vertex_isolated: "t \<notin> nodes es \<Longrightarrow> vertex R es t = \<lparr>indegress = 0, vthread = t, threads = []\<rparr>"
  by (auto simp: vertex_def nodes_def image_iff filter_empty_conv)

lemma graph_on_alloc:
  assumes "graph_on V es g" "nodes es \<subseteq> V"
  obtains g' where "thread_graphic_vertex_lookup_or_alloc True t g = Some g'" "graph_on (insert t V) es g'"
proof (cases "t \<in> V")
  case True
  then have "thread_graphic_vertex_lookup_or_alloc True t g = Some g"
    using assms(1) by (simp add: thread_graphic_vertex_lookup_or_alloc_def graph_on_def)
  then show thesis using that assms(1) True by (simp add: insert_absorb)
next
  case False
  then have "thread_graphic_vertex_lookup t g = None"
    using assms(1) by (simp add: lookup_None_iff graph_on_def)
  then have eq: "thread_graphic_vertex_lookup_or_alloc True t g = Some (\<lparr>indegress = 0, vthread = t, threads = []\<rparr> # g)"
    by (simp add: thread_graphic_vertex_lookup_or_alloc_def thread_graphic_vertex_alloc_def)
  have "vertex {} es t = \<lparr>indegress = 0, vthread = t, threads = []\<rparr>"
    using False assms(2) by (auto intro: vertex_isolated)
  then have "graph_on (insert t V) es (\<lparr>indegress = 0, vthread = t, threads = []\<rparr> # g)"
    using assms(1) False by (auto simp: graph_on_def lookup_Cons)
  then show thesis using that eq by blast
qed

lemma graph_on_add_edge:
  assumes g: "graph_on V es g" and V: "nodes es = V" and a: "a \<notin> fst ` set es"
  obtains g' where "add_edge (\<lambda>_ _. True) a b g = Some g'" "graph_on (insert b (insert a V)) (es @ [(a, b)]) g'"
proof -
  obtain g1 where 1: "thread_graphic_vertex_lookup_or_alloc True a g = Some g1" "graph_on (insert a V) es g1"
    using graph_on_alloc[OF g] V by blast
  obtain g2 where 2: "thread_graphic_vertex_lookup_or_alloc True b g1 = Some g2"
      "graph_on (insert b (insert a V)) es g2"
    using graph_on_alloc[OF 1(2)] V by blast
  let ?g = "upd_vertex b (\<lambda>v. v\<lparr>indegress := indegress v + 1\<rparr>) (upd_vertex a (thread_graphic_vertex_push_back b) g2)"
  have eq: "add_edge (\<lambda>_ _. True) a b g = Some ?g" by (simp add: add_edge_def 1 2)
  have push: "vthread (thread_graphic_vertex_push_back b v) = vthread v" for v
    by (simp add: thread_graphic_vertex_push_back_def)
  have noa: "filter (\<lambda>e. fst e = a) es = []" using a by (auto simp: filter_empty_conv image_iff)
  have "graph_on (insert b (insert a V)) (es @ [(a, b)]) ?g" using 2(2) unfolding graph_on_def
    by (auto simp: lookup_upd_vertex push vertex_def noa thread_graphic_vertex_push_back_def WAIT_HOLD_THREAD_MAX_def)
  with eq show thesis by (rule that)
qed

lemma build_graph_edges: "build_graph ok st = foldM (\<lambda>(a, b). add_edge ok a b) (edges st) []"
proof -
  have "add_request ok st l g = foldM (\<lambda>(a, b). add_edge ok a b) (request_edges st l) g" for l g
    by (simp add: add_request_def request_edges_def bind_eq_Some_conv split: option.splits)
  then have "foldM (add_request ok st) ls g = foldM (\<lambda>(a, b). add_edge ok a b) (concat (map (request_edges st) ls)) g" for ls g
    by (induction ls arbitrary: g) (simp_all add: foldM_append cong: Option.bind_cong)
  then show ?thesis by (simp add: build_graph_def edges_def)
qed

lemma nodes_snoc: "nodes (es @ [(a, b)]) = insert b (insert a (nodes es))"
  by (auto simp: nodes_def)

lemma graph_fold:
  "distinct (map fst es) \<Longrightarrow> \<exists>g. foldM (\<lambda>(a, b). add_edge (\<lambda>_ _. True) a b) es [] = Some g \<and> graph_on (nodes es) es g"
proof (induction es rule: rev_induct)
  case Nil
  then show ?case by (simp add: graph_on_def nodes_def)
next
  case (snoc e es)
  obtain a b where e: "e = (a, b)" by (cases e)
  obtain g where g: "foldM (\<lambda>(a, b). add_edge (\<lambda>_ _. True) a b) es [] = Some g" "graph_on (nodes es) es g"
    using snoc by auto
  obtain g' where "add_edge (\<lambda>_ _. True) a b g = Some g'"
      "graph_on (insert b (insert a (nodes es))) (es @ [(a, b)]) g'"
    using graph_on_add_edge[OF g(2) refl, of a b] snoc.prems by (auto simp: e)
  then show ?case using g(1) by (simp add: e nodes_snoc foldM_append)
qed

lemma build_graph_ok:
  assumes "dl_inv st"
  obtains g where "build_graph (\<lambda>_ _. True) st = Some g" "graph_ok {} (edges st) g"
  using graph_fold[OF distinct_edges[OF assms]] by (auto simp: graph_ok_def graph_on_def build_graph_edges)

text \<open>When an allocation of the first request that waits for a mutex fails, the check faults.\<close>

lemma build_graph_no_memory: "edges st = (a, b) # es \<Longrightarrow> \<not> ok a a \<Longrightarrow> build_graph ok st = None"
  by (simp add: build_graph_edges add_edge_def thread_graphic_vertex_lookup_or_alloc_def thread_graphic_vertex_alloc_def
      thread_graphic_vertex_lookup_def)


section \<open>The topological count\<close>

text \<open>
  The invariant of the loop, with \<open>R\<close> the threads already taken from the queue: \<open>R\<close> is closed under predecessors and
  none of its threads is on a cycle, and the queue holds the other threads all of whose predecessors are in \<open>R\<close>.
\<close>

definition peel_inv :: "(u64 \<times> u64) list \<Rightarrow> u64 set \<Rightarrow> thread_graphic_vertex list \<times> u64 list \<times> nat \<Rightarrow> bool" where
  "peel_inv es R = (\<lambda>(g, q, n). R \<subseteq> nodes es \<and> graph_ok R es g \<and> distinct q \<and>
     set q = {t \<in> nodes es - R. \<forall>a. (a, t) \<in> set es \<longrightarrow> a \<in> R} \<and> n = card R + length q \<and>
     (\<forall>(a, b) \<in> set es. b \<in> R \<longrightarrow> a \<in> R) \<and> (\<forall>t \<in> R. (t, t) \<notin> (set es)\<^sup>+))"

lemma nodesI: "(a, b) \<in> set es \<Longrightarrow> a \<in> nodes es" "(a, b) \<in> set es \<Longrightarrow> b \<in> nodes es"
  unfolding nodes_def by (force simp: image_iff)+

lemma finite_nodes [simp]: "finite (nodes es)"
  by (simp add: nodes_def)

lemma indegress_vertex_0: "indegress (vertex R es t) = 0 \<longleftrightarrow> (\<forall>a. (a, t) \<in> set es \<longrightarrow> a \<in> R)"
  by (auto simp: vertex_def filter_empty_conv)

lemma graph_ok_lookup: "graph_ok R es g \<Longrightarrow> t \<in> nodes es \<Longrightarrow> thread_graphic_vertex_lookup t g = Some (vertex R es t)"
  by (simp add: graph_ok_def)

text \<open>At most one edge leaves a thread, since a thread has one request.\<close>

lemma out_edges:
  assumes "distinct (map fst es)"
  shows "filter (\<lambda>e. fst e = t) es = (case map_of es t of None \<Rightarrow> [] | Some b \<Rightarrow> [(t, b)])"
  using assms
proof (induction es)
  case (Cons e es)
  obtain a b where e: "e = (a, b)" by (cases e)
  show ?case
  proof (cases "a = t")
    case True
    then have "map_of es t = None" using Cons.prems e by (simp add: map_of_eq_None_iff)
    then show ?thesis using Cons e True by simp
  next
    case False
    then show ?thesis using Cons e by simp
  qed
qed simp

lemma vertex_insert_other:
  assumes "map_of es t \<noteq> Some b" "distinct (map fst es)"
  shows "vertex (insert t R) es b = vertex R es b"
proof -
  have "(t, b) \<notin> set es" using assms by (auto dest: map_of_is_SomeI)
  then have "filter (\<lambda>e. snd e = b \<and> fst e \<notin> insert t R) es = filter (\<lambda>e. snd e = b \<and> fst e \<notin> R) es"
    by (intro filter_cong) auto
  then show ?thesis by (simp add: vertex_def)
qed

lemma vertex_insert_target:
  assumes "map_of es t = Some b" "distinct (map fst es)" "t \<notin> R"
  shows "vertex (insert t R) es b = (vertex R es b)\<lparr>indegress := indegress (vertex R es b) - 1\<rparr>"
proof -
  have "length (filter (\<lambda>e. snd e = b \<and> fst e \<notin> R) es) = Suc (length (filter (\<lambda>e. snd e = b \<and> fst e \<notin> insert t R) es))"
    using assms
  proof (induction es)
    case (Cons e es)
    obtain a c where e: "e = (a, c)" by (cases e)
    show ?case
    proof (cases "a = t")
      case True
      have "filter (\<lambda>e. snd e = b \<and> fst e \<notin> R) es = filter (\<lambda>e. snd e = b \<and> fst e \<notin> insert t R) es"
        using Cons.prems e True by (intro filter_cong) (auto simp: rev_image_eqI)
      then show ?thesis using Cons.prems e True by simp
    next
      case False
      then show ?thesis using Cons e by auto
    qed
  qed simp
  then show ?thesis by (simp add: vertex_def)
qed

lemma peel_inv_step:
  assumes inv: "peel_inv es R (g, q @ [t], n)" and d: "distinct (map fst es)" and small: "card (nodes es) \<le> MAX_DEAD_MUTEXLOCK_CHECK"
  obtains g' q' n' where "foldM cut_edge (threads (vertex R es t)) (g, q, n) = Some (g', q', n')"
    "peel_inv es (insert t R) (g', q', n')" "t \<in> nodes es - R"
proof -
  define ready where "ready R = {t \<in> nodes es - R. \<forall>a. (a, t) \<in> set es \<longrightarrow> a \<in> R}" for R
  have R: "R \<subseteq> nodes es" and g: "graph_ok R es g" and dq: "distinct (q @ [t])" and sq: "set (q @ [t]) = ready R"
    and n: "n = card R + length q + 1" and closed: "\<And>a b. (a, b) \<in> set es \<Longrightarrow> b \<in> R \<Longrightarrow> a \<in> R"
    and acyc: "\<And>t. t \<in> R \<Longrightarrow> (t, t) \<notin> (set es)\<^sup>+"
    using inv by (auto simp: peel_inv_def ready_def)
  have t: "t \<in> nodes es" "t \<notin> R" "\<And>a. (a, t) \<in> set es \<Longrightarrow> a \<in> R" using sq by (auto simp: ready_def)
  have closed': "\<forall>(a, b) \<in> set es. b \<in> insert t R \<longrightarrow> a \<in> insert t R" using closed t(3) by blast
  have card': "card (insert t R) = Suc (card R)" using R t(2) finite_subset[OF R] by simp
  have into_R: "x \<in> R" if "(x, y) \<in> (set es)\<^sup>*" "y \<in> R" for x y
    using that by (induction rule: converse_rtrancl_induct) (auto dest: closed)
  have "(t, t) \<notin> (set es)\<^sup>+"
  proof
    assume "(t, t) \<in> (set es)\<^sup>+"
    then obtain a where "(t, a) \<in> (set es)\<^sup>*" "(a, t) \<in> set es" by (meson tranclD2)
    then show False using into_R t by blast
  qed
  then have acyc': "\<forall>x \<in> insert t R. (x, x) \<notin> (set es)\<^sup>+" using acyc by blast
  show thesis
  proof (cases "map_of es t")
    case None
    then have th: "threads (vertex R es t) = []" by (simp add: vertex_def out_edges[OF d])
    have none: "(t, b) \<notin> set es" for b using None by (auto simp: map_of_eq_None_iff rev_image_eqI)
    have "graph_ok (insert t R) es g"
      using g vertex_insert_other[OF _ d, of t] None by (simp add: graph_ok_def)
    moreover have "ready (insert t R) = set q"
      using sq dq none by (auto simp: ready_def)
    ultimately have "peel_inv es (insert t R) (g, q, n)"
      using R t(1) dq n closed' acyc' card' by (simp add: peel_inv_def ready_def)
    then show thesis using that[of g q n] th t by simp
  next
    case (Some b)
    then have th: "threads (vertex R es t) = [b]" by (simp add: vertex_def out_edges[OF d])
    have tb: "(t, b) \<in> set es" using Some by (rule map_of_SomeD)
    have only: "(t, c) \<in> set es \<longleftrightarrow> c = b" for c using eq_key_imp_eq_value[OF d tb] tb by blast
    have "b \<notin> ready R" using tb t(2) by (auto simp: ready_def)
    then have b: "b \<in> nodes es" "b \<notin> R" "b \<noteq> t" "b \<notin> set q"
      using nodesI(2)[OF tb] closed[OF tb] t(2) sq tb by auto
    define g' where "g' = upd_vertex b (\<lambda>v. v\<lparr>indegress := indegress v - 1\<rparr>) g"
    have "graph_ok (insert t R) es g'"
      using g vertex_insert_other[OF _ d, of t] vertex_insert_target[OF Some d t(2)] Some
      by (auto simp: graph_ok_def g'_def lookup_upd_vertex)
    define z where "z \<longleftrightarrow> indegress (vertex (insert t R) es b) = 0"
    have z: "z \<longleftrightarrow> (\<forall>a. (a, b) \<in> set es \<longrightarrow> a \<in> insert t R)" by (simp add: z_def indegress_vertex_0)
    have q: "set q = ready R - {t}" using sq dq by auto
    have "x \<in> ready (insert t R) \<longleftrightarrow> x \<in> set q \<or> x = b \<and> z" for x
    proof (cases "x = b")
      case True
      then show ?thesis using b z by (simp add: ready_def)
    next
      case False
      then have "(a, x) \<in> set es \<Longrightarrow> a \<noteq> t" for a using only by blast
      then show ?thesis using False q unfolding ready_def by blast
    qed
    then have "ready (insert t R) = (if z then insert b (set q) else set q)" by auto
    moreover have "length q < MAX_DEAD_MUTEXLOCK_CHECK"
    proof -
      have "set q \<subset> nodes es" using b(1,4) sq by (auto simp: ready_def)
      then have "card (set q) < card (nodes es)" by (rule psubset_card_mono[OF finite_nodes])
      then show ?thesis using small distinct_card[of q] dq by simp
    qed
    moreover have "foldM cut_edge [b] (g, q, n) = Some (if z then (g', graphics_queue_push_back b q, n + 1) else (g', q, n))"
      using graph_ok_lookup[OF g b(1)] vertex_insert_target[OF Some d t(2)]
      by (simp add: cut_edge_def g'_def z_def Let_def)
    ultimately show thesis
      using that[of g' "if z then q @ [b] else q" "if z then n + 1 else n"] th t R dq b n closed' acyc' card' \<open>graph_ok (insert t R) es g'\<close>
      by (auto simp: peel_inv_def ready_def graphics_queue_push_back_def split: if_splits)
  qed
qed


lemma peel_terminates:
  assumes "distinct (map fst es)" "card (nodes es) \<le> MAX_DEAD_MUTEXLOCK_CHECK"
  shows "peel_inv es R (g, q, n) \<Longrightarrow> \<exists>R' g' n'. peel (g, q, n) = Some (g', n') \<and> peel_inv es R' (g', [], n')"
proof (induction "card (nodes es - R)" arbitrary: R g q n rule: less_induct)
  case less
  show ?case
  proof (cases q rule: rev_cases)
    case Nil
    then show ?thesis using less.prems by (subst peel.simps) (auto simp: graphics_queue_empty_def)
  next
    case (snoc q0 t)
    obtain g' q' n' where step: "foldM cut_edge (threads (vertex R es t)) (g, q0, n) = Some (g', q', n')"
        "peel_inv es (insert t R) (g', q', n')" and t: "t \<in> nodes es - R"
      using peel_inv_step less.prems assms unfolding snoc by blast
    have "nodes es - insert t R \<subset> nodes es - R" using t by blast
    then have "card (nodes es - insert t R) < card (nodes es - R)" by (intro psubset_card_mono) auto
    from less.hyps[OF this step(2)] obtain R' g'' n'' where
      rec: "peel (g', q', n') = Some (g'', n'')" "peel_inv es R' (g'', [], n'')" by blast
    have "thread_graphic_vertex_lookup t g = Some (vertex R es t)"
      using less.prems t by (auto simp: peel_inv_def graph_ok_def)
    then have "peel (g, q, n) = Some (g'', n'')"
      using step(1) rec(1) by (subst peel.simps) (simp add: graphics_queue_empty_def graphics_queue_pop_def snoc)
    then show ?thesis using rec(2) by blast
  qed
qed

lemma queue_roots_eq:
  "queue_roots g = (take MAX_DEAD_MUTEXLOCK_CHECK (map vthread (filter (\<lambda>v. indegress v = 0) g)),
    length (filter (\<lambda>v. indegress v = 0) g))"
  unfolding queue_roots_def
  by (induction g rule: rev_induct) (auto simp: graphics_queue_push_back_def)

lemma graph_ok_mem: "graph_ok R es g \<Longrightarrow> v \<in> set g \<longleftrightarrow> (\<exists>t \<in> nodes es. v = vertex R es t)"
proof -
  assume g: "graph_ok R es g"
  have d: "distinct (map vthread g)" and V: "vthread ` set g = nodes es" using g by (simp_all add: graph_ok_def)
  have *: "v \<in> set g \<longleftrightarrow> vthread v \<in> nodes es \<and> v = vertex R es (vthread v)" for v
    using find_key_iff[OF d, of "vthread v" v] graph_ok_lookup[OF g, of "vthread v"] imageI[of v "set g" vthread, unfolded V]
    by (auto simp: thread_graphic_vertex_lookup_def)
  have "vthread (vertex R es t) = t" for t by (simp add: vertex_def)
  then show ?thesis using * by metis
qed

lemma roots:
  assumes "graph_ok {} es g"
  shows "distinct (map vthread (filter (\<lambda>v. indegress v = 0) g))"
    and "set (map vthread (filter (\<lambda>v. indegress v = 0) g)) = {t \<in> nodes es. \<forall>a. (a, t) \<notin> set es}"
    and "length g = card (nodes es)"
proof -
  have id: "vthread (vertex {} es t) = t" for t by (simp add: vertex_def)
  have "{v \<in> set g. indegress v = 0} = vertex {} es ` {t \<in> nodes es. \<forall>a. (a, t) \<notin> set es}"
    by (auto simp: graph_ok_mem[OF assms] indegress_vertex_0)
  then show "set (map vthread (filter (\<lambda>v. indegress v = 0) g)) = {t \<in> nodes es. \<forall>a. (a, t) \<notin> set es}"
    by (simp add: image_image id)
  show "distinct (map vthread (filter (\<lambda>v. indegress v = 0) g))"
    using assms distinct_map_filter[of vthread g] by (simp add: graph_ok_def)
  show "length g = card (nodes es)"
    using assms distinct_card[of "map vthread g"] by (simp add: graph_ok_def)
qed

lemma queue_roots_inv:
  assumes "graph_ok {} es g" "card (nodes es) \<le> MAX_DEAD_MUTEXLOCK_CHECK"
  shows "peel_inv es {} (g, queue_roots g)"
proof -
  have "length (filter (\<lambda>v. indegress v = 0) g) \<le> MAX_DEAD_MUTEXLOCK_CHECK"
    using assms(2) length_filter_le[of "\<lambda>v. indegress v = 0" g] roots(3)[OF assms(1)] by linarith
  then show ?thesis using assms(1) roots[OF assms(1)] by (simp add: peel_inv_def queue_roots_eq)
qed

text \<open>What is left when the queue is empty: each thread still has a predecessor, so all of them are on cycles.\<close>

lemma left_on_cycle:
  assumes inv: "peel_inv es R (g, [], n)" and d: "distinct (map fst es)" and v: "v \<in> nodes es - R"
  shows "(v, v) \<in> (set es)\<^sup>+"
proof -
  define p where "p v = (SOME a. (a, v) \<in> set es \<and> a \<notin> R)" for v
  have p: "(p v, v) \<in> set es \<and> p v \<notin> R" if "v \<in> nodes es - R" for v
  proof -
    have "{t \<in> nodes es - R. \<forall>a. (a, t) \<in> set es \<longrightarrow> a \<in> R} = {}" using inv by (simp add: peel_inv_def)
    then have "\<exists>a. (a, v) \<in> set es \<and> a \<notin> R" using that by blast
    then show ?thesis unfolding p_def by (rule someI_ex)
  qed
  define S where "S = {w \<in> nodes es - R. (w, v) \<in> (set es)\<^sup>*}"
  have maps: "p w \<in> S" if "w \<in> S" for w
  proof -
    have w: "w \<in> nodes es - R" "(w, v) \<in> (set es)\<^sup>*" using that by (auto simp: S_def)
    note pw = p[OF w(1)]
    then have "p w \<in> nodes es" by (blast intro: nodesI)
    then show ?thesis using pw converse_rtrancl_into_rtrancl[OF _ w(2)] by (simp add: S_def)
  qed
  have "inj_on p S"
  proof (rule inj_onI)
    fix x y
    assume "x \<in> S" "y \<in> S" "p x = p y"
    then have "(p x, x) \<in> set es" "(p x, y) \<in> set es" using p[of x] p[of y] by (auto simp: S_def)
    then show "x = y" by (rule eq_key_imp_eq_value[OF d])
  qed
  moreover have "finite S" by (simp add: S_def)
  ultimately have "p ` S = S" using maps by (intro endo_inj_surj) auto
  moreover have "v \<in> S" using v by (simp add: S_def)
  ultimately obtain w where "w \<in> S" "v = p w" by blast
  then show ?thesis using p[of w] by (auto simp: S_def intro: rtrancl_into_trancl2)
qed

lemma vertex_count_length: "thread_graphic_vertex_count g = length g"
proof -
  have "fold (\<lambda>_ n. n + 1) g k = k + length g" for k :: nat by (induction g arbitrary: k) simp_all
  then show ?thesis by (simp add: thread_graphic_vertex_count_def)
qed

lemma peel_result:
  assumes inv: "peel_inv es R (g, [], n)" and d: "distinct (map fst es)"
  shows "n = card R" and "nodes es - R = {t. (t, t) \<in> (set es)\<^sup>+}"
    and "n \<noteq> thread_graphic_vertex_count g \<longleftrightarrow> \<not> acyclic (set es)"
    and "{t \<in> nodes es. indegress (vertex R es t) \<noteq> 0} = {t. (t, t) \<in> (set es)\<^sup>+}"
proof -
  have R: "R \<subseteq> nodes es" and g: "graph_ok R es g" and acyc: "\<And>t. t \<in> R \<Longrightarrow> (t, t) \<notin> (set es)\<^sup>+"
    and closed: "\<And>a b. (a, b) \<in> set es \<Longrightarrow> b \<in> R \<Longrightarrow> a \<in> R"
    and left: "\<And>t. t \<in> nodes es - R \<Longrightarrow> \<exists>a. (a, t) \<in> set es \<and> a \<notin> R"
    and n: "n = card R"
    using inv by (auto simp: peel_inv_def)
  have field: "t \<in> nodes es" if "(t, t) \<in> (set es)\<^sup>+" for t
    using tranclD[OF that] by (blast intro: nodesI)
  show cyc: "nodes es - R = {t. (t, t) \<in> (set es)\<^sup>+}"
    using left_on_cycle[OF inv d] acyc field by blast
  show "n = card R" by (rule n)
  have "thread_graphic_vertex_count g = length g" by (rule vertex_count_length)
  also have "\<dots> = card (nodes es)" using g distinct_card[of "map vthread g"] by (simp add: graph_ok_def)
  finally have "n \<noteq> thread_graphic_vertex_count g \<longleftrightarrow> R \<noteq> nodes es"
    using R n card_subset_eq[OF finite_nodes R] by auto
  also have "\<dots> \<longleftrightarrow> \<not> acyclic (set es)"
    using cyc R by (auto simp: acyclic_def)
  finally show "n \<noteq> thread_graphic_vertex_count g \<longleftrightarrow> \<not> acyclic (set es)" .
  have "indegress (vertex R es t) \<noteq> 0 \<longleftrightarrow> t \<notin> R" if "t \<in> nodes es" for t
    using left[of t] closed that by (auto simp: indegress_vertex_0)
  then show "{t \<in> nodes es. indegress (vertex R es t) \<noteq> 0} = {t. (t, t) \<in> (set es)\<^sup>+}"
    using cyc by blast
qed

lemma show_dead_lock_threads:
  assumes "dl_inv st" "graph_ok R (edges st) g"
    and cyc: "{t \<in> nodes (edges st). indegress (vertex R (edges st) t) \<noteq> 0} = {t. (t, t) \<in> (waits_for st)\<^sup>+}"
  shows "fst ` set (show_dead_lock_infomation st g) = {t. (t, t) \<in> (waits_for st)\<^sup>+}"
proof -
  have req: "thread_req_lock_lookup t st \<noteq> None" if "(t, t) \<in> (waits_for st)\<^sup>+" for t
    using tranclD[OF that] by (auto simp: waits_for_def thread_req_lock_lookup_def find_None_iff)
  have id: "vthread (vertex R es t) = t" for es t by (simp add: vertex_def)
  define entry where "entry pos = (if indegress pos = 0 then []
     else case thread_req_lock_lookup (vthread pos) st of
            None \<Rightarrow> []
          | Some l \<Rightarrow> [(vthread pos, l, threads pos,
                       filter (\<lambda>h. hthread h = vthread pos \<and> hcount h \<noteq> 0) (m_lock_belong_thread st))])" for pos :: thread_graphic_vertex
  have one: "fst ` set (entry (vertex R (edges st) t)) =
      (if indegress (vertex R (edges st) t) \<noteq> 0 \<and> thread_req_lock_lookup t st \<noteq> None then {t} else {})" for t
    by (auto simp: entry_def id)
  have "set g = vertex R (edges st) ` nodes (edges st)" using graph_ok_mem[OF assms(2)] by blast
  then have "fst ` set (show_dead_lock_infomation st g) = (\<Union>t \<in> nodes (edges st). fst ` set (entry (vertex R (edges st) t)))"
    by (simp add: show_dead_lock_infomation_def entry_def[symmetric] image_UN)
  then have "fst ` set (show_dead_lock_infomation st g) =
      {t \<in> nodes (edges st). indegress (vertex R (edges st) t) \<noteq> 0 \<and> thread_req_lock_lookup t st \<noteq> None}"
    unfolding one by auto
  also have "\<dots> = {t \<in> {t \<in> nodes (edges st). indegress (vertex R (edges st) t) \<noteq> 0}. thread_req_lock_lookup t st \<noteq> None}"
    by auto
  also have "\<dots> = {t. (t, t) \<in> (waits_for st)\<^sup>+}"
    unfolding cyc using req by auto
  finally show ?thesis .
qed

text \<open>C8: While every thread has one request and every mutex one entry, the allocations succeed and at most 100 threads are
  involved, \<open>_check_dead_lock_stub\<close> ends without a fault.  It reports a dead lock exactly when the relation
  \<open>waits for a mutex held by\<close> has a cycle, and it then shows exactly the threads that are on a cycle.
\<close>

theorem check_dead_lock_finds_cycles:
  assumes "dl_inv st" "card (Field (waits_for st)) \<le> MAX_DEAD_MUTEXLOCK_CHECK"
  shows "\<exists>r. check_dead_lock_unlocked (\<lambda>_ _. True) now st = Some r \<and>
    (case r of
       DeadLock es \<Rightarrow> \<not> acyclic (waits_for st) \<and> set (map fst es) = {t. (t, t) \<in> (waits_for st)\<^sup>+}
     | NoDeadLock ws \<Rightarrow> acyclic (waits_for st) \<and> ws = check_wait_lock_time now st)"
proof -
  let ?es = "edges st"
  obtain g where b: "build_graph (\<lambda>_ _. True) st = Some g" and g: "graph_ok {} ?es g" by (rule build_graph_ok[OF assms(1)])
  have d: "distinct (map fst ?es)" and W: "set ?es = waits_for st"
    using assms(1) by (simp_all add: distinct_edges set_edges)
  have "nodes ?es = Field (waits_for st)"
    unfolding W[symmetric] by (simp add: nodes_def Field_def Domain_fst Range_snd)
  then have small: "card (nodes ?es) \<le> MAX_DEAD_MUTEXLOCK_CHECK" using assms(2) by simp
  obtain q n where q: "queue_roots g = (q, n)" by (cases "queue_roots g")
  have "peel_inv ?es {} (g, q, n)" using queue_roots_inv[OF g small] q by simp
  then obtain R g' n' where p: "peel (g, q, n) = Some (g', n')" "peel_inv ?es R (g', [], n')"
    using peel_terminates[OF d small] by blast
  note res = peel_result[OF p(2) d, unfolded W]
  have "graph_ok R ?es g'" using p(2) by (simp add: peel_inv_def)
  then have "fst ` set (show_dead_lock_infomation st g') = {t. (t, t) \<in> (waits_for st)\<^sup>+}"
    using show_dead_lock_threads[OF assms(1)] res(4) by blast
  then show ?thesis using res(3) by (simp add: check_dead_lock_unlocked_def b q p(1))
qed


text \<open>Two threads that wait for each other's mutex, and a third one that waits for one of them.\<close>

abbreviation example_req :: "u64 \<Rightarrow> u64 \<Rightarrow> thread_req_lock" where
  "example_req t l \<equiv> \<lparr>valid = 1, rtime = 0, rthread = t, rlock = l, rlock_name = [], rfile = [], rline = 0,
     rfuncname = [], rstack = [], rstack_num = 0\<rparr>"

abbreviation example_hold :: "u64 \<Rightarrow> u64 \<Rightarrow> thread_hold_lock" where
  "example_hold t l \<equiv> \<lparr>point_list = [hold_lock_point_init [] 1 [] [] 0], hcount = 1, hthread = t, hlock = l, hlock_name = []\<rparr>"

definition example_state :: dl_state where
  "example_state = \<lparr>m_thread_apply_lock = [example_req 1 20, example_req 2 10, example_req 3 10],
     m_lock_belong_thread = [example_hold 1 10, example_hold 2 20], deadlock_mutex = True\<rparr>"

lemma waits_for_example: "dl_inv example_state" "waits_for example_state = {(1, 2), (2, 1), (3, 1)}"
proof -
  show inv: "dl_inv example_state" by (simp add: dl_inv_def example_state_def)
  have "edges example_state = [(1, 2), (2, 1), (3, 1)]"
    by (simp add: edges_def request_edges_def thread_hold_lock_lookup_def example_state_def)
  then show "waits_for example_state = {(1, 2), (2, 1), (3, 1)}" using set_edges[OF inv] by simp
qed

theorem check_dead_lock_finds_cycles_witness:
  "\<exists>r. check_dead_lock_unlocked (\<lambda>_ _. True) 0 example_state = Some r \<and>
    (case r of
       DeadLock es \<Rightarrow> \<not> acyclic (waits_for example_state) \<and>
         set (map fst es) = {t. (t, t) \<in> (waits_for example_state)\<^sup>+}
     | NoDeadLock ws \<Rightarrow> acyclic (waits_for example_state) \<and> ws = check_wait_lock_time 0 example_state)"
proof (rule check_dead_lock_finds_cycles)
  show "dl_inv example_state" by (rule waits_for_example)
  show "card (Field (waits_for example_state)) \<le> MAX_DEAD_MUTEXLOCK_CHECK"
    by (simp add: waits_for_example Field_def Domain_fst Range_snd MAX_DEAD_MUTEXLOCK_CHECK_def card_insert_if)
qed

section \<open>The tables are kept consistent\<close>

lemma req_alloc_inv:
  assumes "dl_inv st" "thread_req_lock_lookup_or_alloc ok tid st = (b, st')"
  shows "dl_inv st'" and "m_lock_belong_thread st' = m_lock_belong_thread st"
    and "deadlock_mutex st' = deadlock_mutex st"
  using assms
  by (auto simp: thread_req_lock_lookup_or_alloc_def thread_req_lock_alloc_def thread_req_lock_lookup_def
        dl_inv_def find_None_iff split: option.splits if_splits)

lemma hold_alloc_inv:
  assumes "dl_inv st" "thread_hold_lock_lookup_or_alloc ok lock st = (b, st')"
  shows "dl_inv st'" and "m_thread_apply_lock st' = m_thread_apply_lock st"
    and "deadlock_mutex st' = deadlock_mutex st"
  using assms
  by (auto simp: thread_hold_lock_lookup_or_alloc_def thread_hold_lock_alloc_def thread_hold_lock_lookup_def
        dl_inv_def find_None_iff split: option.splits if_splits)

lemma upd_req_inv:
  assumes "dl_inv st" "\<And>l. rthread l = tid \<Longrightarrow> rthread (f l) = tid"
  shows "dl_inv (st\<lparr>m_thread_apply_lock := upd_first (\<lambda>l. rthread l = tid) f (m_thread_apply_lock st)\<rparr>)"
  using assms by (simp add: dl_inv_def map_upd_first)

lemma upd_hold_inv:
  assumes "dl_inv st"
    and "\<And>h. hcount h = int (length (point_list h)) \<Longrightarrow>
      hlock (f h) = hlock h \<and> hcount (f h) = int (length (point_list (f h)))"
    and "\<And>h. hlock (f h) = hlock h"
  shows "dl_inv (st\<lparr>m_lock_belong_thread := upd_first (\<lambda>h. hlock h = lock) f (m_lock_belong_thread st)\<rparr>)"
  using assms by (auto simp: dl_inv_def map_upd_first dest!: set_upd_first)

lemma dl_inv_mutex [simp]: "dl_inv (st\<lparr>deadlock_mutex := b\<rparr>) = dl_inv st"
  by (simp add: dl_inv_def)

lemma pushstack_count:
  "hlock (thread_hold_lock_pushstack ok file line func stack num h) = hlock h"
  "hcount h = int (length (point_list h)) \<Longrightarrow>
    hcount (thread_hold_lock_pushstack ok file line func stack num h) =
    int (length (point_list (thread_hold_lock_pushstack ok file line func stack num h)))"
  by (simp_all add: thread_hold_lock_pushstack_def)

lemma popstack_count:
  "hlock (thread_hold_lock_popstack h) = hlock h"
  "hcount h = int (length (point_list h)) \<Longrightarrow>
    hcount (thread_hold_lock_popstack h) = int (length (point_list (thread_hold_lock_popstack h)))"
  by (simp_all add: thread_hold_lock_popstack_def split: list.splits)


lemma before_inv:
  assumes "dl_inv st" "deadlockcheck_before ok now tid lock file line func name stack num st = Some st'"
  shows "dl_inv st'"
proof -
  obtain b st1 where a: "thread_req_lock_lookup_or_alloc ok tid (st\<lparr>deadlock_mutex := True\<rparr>) = (b, st1)"
    by (cases "thread_req_lock_lookup_or_alloc ok tid (st\<lparr>deadlock_mutex := True\<rparr>)")
  have "dl_inv st1" by (rule req_alloc_inv(1)[OF _ a]) (simp add: assms(1))
  then show ?thesis using assms(2)
    by (auto simp: deadlockcheck_before_def mutex_lock_def mutex_unlock_def a thread_req_lock_init_def
          intro!: upd_req_inv split: if_splits)
qed

lemma after_inv:
  assumes "dl_inv st" "deadlockcheck_after ok1 ok2 tid lock file line func name stack num st = Some st'"
  shows "dl_inv st'"
proof -
  define st0 where "st0 = st\<lparr>deadlock_mutex := True, m_thread_apply_lock := upd_first (\<lambda>l. rthread l = tid)
    (\<lambda>l. l\<lparr>valid := 0, rstack_num := 0, rstack := []\<rparr>) (m_thread_apply_lock st)\<rparr>"
  have "dl_inv st0"
    using upd_req_inv[of "st\<lparr>deadlock_mutex := True\<rparr>" tid "\<lambda>l. l\<lparr>valid := 0, rstack_num := 0, rstack := []\<rparr>"] assms(1)
    by (simp add: st0_def)
  obtain b st1 where a: "thread_hold_lock_lookup_or_alloc ok1 lock st0 = (b, st1)"
    by (cases "thread_hold_lock_lookup_or_alloc ok1 lock st0")
  have "dl_inv st1" by (rule hold_alloc_inv(1)[OF \<open>dl_inv st0\<close> a])
  then show ?thesis using assms(2) a
    by (auto simp: deadlockcheck_after_def mutex_lock_def mutex_unlock_def st0_def pushstack_count Let_def
          intro!: upd_hold_inv split: if_splits)
qed

lemma unlock_after_inv:
  assumes "dl_inv st" "deadlockcheck_unlock_after ok tid lock st = Some st'"
  shows "dl_inv st'"
proof -
  obtain b st1 where a: "thread_hold_lock_lookup_or_alloc ok lock (st\<lparr>deadlock_mutex := True\<rparr>) = (b, st1)"
    by (cases "thread_hold_lock_lookup_or_alloc ok lock (st\<lparr>deadlock_mutex := True\<rparr>)")
  have "dl_inv st1" by (rule hold_alloc_inv(1)[OF _ a]) (simp add: assms(1))
  then show ?thesis using assms(2)
    by (auto simp: deadlockcheck_unlock_after_def mutex_lock_def mutex_unlock_def a popstack_count
          intro!: upd_hold_inv split: if_splits)
qed

text \<open>The states that the wrapped lock and unlock calls of all threads, in any order, reach from the start.\<close>

inductive dl_reachable :: "dl_state \<Rightarrow> bool" where
  start: "dl_reachable (dead_lock_stub_start_check st)"
| before: "dl_reachable st \<Longrightarrow> deadlockcheck_before ok now tid lock file line func name stack num st = Some st' \<Longrightarrow> dl_reachable st'"
| after: "dl_reachable st \<Longrightarrow> deadlockcheck_after ok1 ok2 tid lock file line func name stack num st = Some st' \<Longrightarrow> dl_reachable st'"
| unlock: "dl_reachable st \<Longrightarrow> deadlockcheck_unlock_after ok tid lock st = Some st' \<Longrightarrow> dl_reachable st'"

lemma reachable_inv: "dl_reachable st \<Longrightarrow> dl_inv st"
proof (induction rule: dl_reachable.induct)
  case (start st)
  then show ?case by (simp add: dead_lock_stub_start_check_def dl_inv_def)
qed (blast intro: before_inv after_inv unlock_after_inv)+

text \<open>C31: Whatever lock and unlock calls the threads make, and whichever allocations fail, every thread has at most one
  request in the table, every mutex at most one entry, and the count of an entry is the number of its lock points and
  never negative.
\<close>

theorem dl_tables_consistent:
  assumes "dl_reachable st"
  shows "distinct (map rthread (m_thread_apply_lock st)) \<and> distinct (map hlock (m_lock_belong_thread st)) \<and>
    (\<forall>h \<in> set (m_lock_belong_thread st). 0 \<le> hcount h \<and> hcount h = int (length (point_list h)))"
  using reachable_inv[OF assms] by (auto simp: dl_inv_def)

theorem dl_tables_consistent_witness:
  "\<exists>st. deadlockcheck_before True 0 7 9 [] 1 [] [] [] 0 (dead_lock_stub_start_check \<lparr>m_thread_apply_lock = [],
      m_lock_belong_thread = [], deadlock_mutex = False\<rparr>) = Some st \<and>
    distinct (map rthread (m_thread_apply_lock st)) \<and> distinct (map hlock (m_lock_belong_thread st)) \<and>
    (\<forall>h \<in> set (m_lock_belong_thread st). 0 \<le> hcount h \<and> hcount h = int (length (point_list h)))"
proof -
  let ?st = "dead_lock_stub_start_check \<lparr>m_thread_apply_lock = [], m_lock_belong_thread = [], deadlock_mutex = False\<rparr>"
  obtain st where st: "deadlockcheck_before True 0 7 9 [] 1 [] [] [] 0 ?st = Some st"
    by (simp add: deadlockcheck_before_def mutex_lock_def dead_lock_stub_start_check_def
        thread_req_lock_lookup_or_alloc_def thread_req_lock_lookup_def thread_req_lock_alloc_def)
  then have "dl_reachable st" by (rule dl_reachable.before[OF dl_reachable.start])
  from dl_tables_consistent[OF this] st show ?thesis by blast
qed


section \<open>What a lock and an unlock record\<close>

lemma req_alloc_lookup:
  "\<exists>st'. thread_req_lock_lookup_or_alloc True t st = (True, st') \<and> thread_req_lock_lookup t st' \<noteq> None \<and>
     (\<forall>u. u \<noteq> t \<longrightarrow> thread_req_lock_lookup u st' = thread_req_lock_lookup u st) \<and>
     m_lock_belong_thread st' = m_lock_belong_thread st"
  by (cases "thread_req_lock_lookup t st")
    (auto simp: thread_req_lock_lookup_or_alloc_def thread_req_lock_alloc_def thread_req_lock_lookup_def find_append
      split: option.splits)

abbreviation hold_count :: "u64 \<Rightarrow> dl_state \<Rightarrow> int" where
  "hold_count lock st \<equiv> (case thread_hold_lock_lookup lock st of None \<Rightarrow> 0 | Some h \<Rightarrow> hcount h)"

lemma hold_alloc_lookup:
  "\<exists>st' h. thread_hold_lock_lookup_or_alloc True lock st = (True, st') \<and>
     thread_hold_lock_lookup lock st' = Some h \<and> hcount h = hold_count lock st \<and>
     (\<forall>l. l \<noteq> lock \<longrightarrow> thread_hold_lock_lookup l st' = thread_hold_lock_lookup l st) \<and>
     m_thread_apply_lock st' = m_thread_apply_lock st"
  by (cases "thread_hold_lock_lookup lock st")
    (auto simp: thread_hold_lock_lookup_or_alloc_def thread_hold_lock_alloc_def thread_hold_lock_lookup_def find_append
      split: option.splits)

lemma lookup_mutex [simp]:
  "thread_req_lock_lookup u (st\<lparr>deadlock_mutex := b\<rparr>) = thread_req_lock_lookup u st"
  "thread_hold_lock_lookup l (st\<lparr>deadlock_mutex := b\<rparr>) = thread_hold_lock_lookup l st"
  by (simp_all add: thread_req_lock_lookup_def thread_hold_lock_lookup_def)

lemma before_records:
  assumes "\<not> deadlock_mutex st"
  shows "\<exists>st' l. deadlockcheck_before True now t lock file line func name stack num st = Some st' \<and>
    \<not> deadlock_mutex st' \<and> thread_req_lock_lookup t st' = Some l \<and> valid l = 1 \<and> rlock l = lock \<and> rtime l = now \<and>
    (\<forall>u. u \<noteq> t \<longrightarrow> thread_req_lock_lookup u st' = thread_req_lock_lookup u st) \<and>
    m_lock_belong_thread st' = m_lock_belong_thread st"
proof -
  let ?f = "\<lambda>l. (thread_req_lock_init t lock file line func name stack num now l)\<lparr>valid := 1\<rparr>"
  obtain st1 l where 1: "thread_req_lock_lookup_or_alloc True t (st\<lparr>deadlock_mutex := True\<rparr>) = (True, st1)"
    "thread_req_lock_lookup t st1 = Some l" "\<And>u. u \<noteq> t \<Longrightarrow> thread_req_lock_lookup u st1 = thread_req_lock_lookup u st"
    "m_lock_belong_thread st1 = m_lock_belong_thread st"
    using req_alloc_lookup[of t "st\<lparr>deadlock_mutex := True\<rparr>"] by auto
  define st' where "st' = mutex_unlock (st1\<lparr>m_thread_apply_lock := upd_first (\<lambda>l. rthread l = t) ?f (m_thread_apply_lock st1)\<rparr>)"
  have eq: "deadlockcheck_before True now t lock file line func name stack num st = Some st'"
    using assms 1(1) by (simp add: deadlockcheck_before_def mutex_lock_def st'_def)
  have look: "find (\<lambda>l. rthread l = u) (upd_first (\<lambda>l. rthread l = t) ?f ls) =
      (if u = t then map_option ?f (find (\<lambda>l. rthread l = t) ls) else find (\<lambda>l. rthread l = u) ls)" for u ls
    by (induction ls) (auto simp: thread_req_lock_init_def)
  have req: "thread_req_lock_lookup u st' =
      (if u = t then map_option ?f (thread_req_lock_lookup t st1) else thread_req_lock_lookup u st1)" for u
    by (simp add: st'_def mutex_unlock_def thread_req_lock_lookup_def look)
  have "\<not> deadlock_mutex st'" "m_lock_belong_thread st' = m_lock_belong_thread st1"
    by (simp_all add: st'_def mutex_unlock_def)
  then show ?thesis
    using eq 1(2-4) by (intro exI[of _ st'] exI[of _ "?f l"]) (simp add: req thread_req_lock_init_def)
qed

lemma after_records:
  assumes "\<not> deadlock_mutex st"
  shows "\<exists>st' h. deadlockcheck_after True True t lock file line func name stack num st = Some st' \<and>
    \<not> deadlock_mutex st' \<and> thread_hold_lock_lookup lock st' = Some h \<and> hthread h = t \<and>
    hcount h = hold_count lock st + 1 \<and> point_list h \<noteq> [] \<and>
    (\<forall>l. l \<noteq> lock \<longrightarrow> thread_hold_lock_lookup l st' = thread_hold_lock_lookup l st) \<and>
    (\<forall>l. thread_req_lock_lookup t st' = Some l \<longrightarrow> valid l = 0) \<and>
    (\<forall>u. u \<noteq> t \<longrightarrow> thread_req_lock_lookup u st' = thread_req_lock_lookup u st)"
proof -
  let ?f = "\<lambda>l. l\<lparr>valid := 0, rstack_num := 0, rstack := []\<rparr>"
  let ?g = "\<lambda>h. thread_hold_lock_pushstack True file line func stack num (h\<lparr>hthread := t, hlock_name := take 31 name\<rparr>)"
  define st0 where "st0 = st\<lparr>deadlock_mutex := True, m_thread_apply_lock := upd_first (\<lambda>l. rthread l = t) ?f (m_thread_apply_lock st)\<rparr>"
  have h0: "thread_hold_lock_lookup l st0 = thread_hold_lock_lookup l st" for l
    by (simp add: st0_def thread_hold_lock_lookup_def)
  have r0: "thread_req_lock_lookup u st0 =
      (if u = t then map_option ?f (thread_req_lock_lookup t st) else thread_req_lock_lookup u st)" for u
    by (simp add: st0_def thread_req_lock_lookup_def find_upd_first)
  obtain st1 h where 1: "thread_hold_lock_lookup_or_alloc True lock st0 = (True, st1)"
    "thread_hold_lock_lookup lock st1 = Some h" "hcount h = hold_count lock st"
    "\<And>l. l \<noteq> lock \<Longrightarrow> thread_hold_lock_lookup l st1 = thread_hold_lock_lookup l st"
    "m_thread_apply_lock st1 = m_thread_apply_lock st0"
    using hold_alloc_lookup[of lock st0] by (auto simp: h0)
  define st' where "st' = mutex_unlock (st1\<lparr>m_lock_belong_thread := upd_first (\<lambda>h. hlock h = lock) ?g (m_lock_belong_thread st1)\<rparr>)"
  have eq: "deadlockcheck_after True True t lock file line func name stack num st = Some st'"
    using assms 1(1) by (simp add: deadlockcheck_after_def mutex_lock_def st0_def st'_def)
  have look: "thread_hold_lock_lookup l st' =
      (if l = lock then map_option ?g (thread_hold_lock_lookup lock st1) else thread_hold_lock_lookup l st1)" for l
    by (simp add: st'_def mutex_unlock_def thread_hold_lock_lookup_def find_upd_first pushstack_count)
  have req: "thread_req_lock_lookup u st' = thread_req_lock_lookup u st0" for u
    by (simp add: st'_def mutex_unlock_def thread_req_lock_lookup_def 1(5))
  have "\<not> deadlock_mutex st'" by (simp add: st'_def mutex_unlock_def)
  then show ?thesis
    using eq 1(2-4) by (intro exI[of _ st'] exI[of _ "?g h"]) (auto simp: look req r0 thread_hold_lock_pushstack_def)
qed

lemma unlock_records:
  assumes "\<not> deadlock_mutex st" "thread_hold_lock_lookup lock st = Some h"
  shows "\<exists>st'. deadlockcheck_unlock_after ok t lock st = Some st' \<and> \<not> deadlock_mutex st' \<and>
    thread_hold_lock_lookup lock st' = Some (thread_hold_lock_popstack h) \<and>
    (\<forall>l. l \<noteq> lock \<longrightarrow> thread_hold_lock_lookup l st' = thread_hold_lock_lookup l st) \<and>
    m_thread_apply_lock st' = m_thread_apply_lock st"
  using assms
  by (simp add: deadlockcheck_unlock_after_def mutex_lock_def mutex_unlock_def thread_hold_lock_lookup_or_alloc_def
      thread_hold_lock_lookup_def find_upd_first popstack_count)

text \<open>When the allocations succeed, a thread that locks and unlocks a mutex is recorded as waiting for it, then as its
  holder with the count raised by one and no longer waiting; after the unlock the count is the old one, and the entries of
  the other mutexes and the requests of the other threads are as before.
\<close>

theorem lock_unlock_recorded:
  assumes "\<not> deadlock_mutex st"
  shows "\<exists>st1 st2 st3 l h.
    deadlockcheck_before True now t lock file line func name stack num st = Some st1 \<and>
    thread_req_lock_lookup t st1 = Some l \<and> valid l = 1 \<and> rlock l = lock \<and>
    deadlockcheck_after True True t lock file line func name stack num st1 = Some st2 \<and>
    thread_hold_lock_lookup lock st2 = Some h \<and> hthread h = t \<and> hcount h = hold_count lock st + 1 \<and>
    deadlockcheck_unlock_after True t lock st2 = Some st3 \<and> hold_count lock st3 = hold_count lock st \<and>
    \<not> deadlock_mutex st3 \<and> (\<forall>l. thread_req_lock_lookup t st3 = Some l \<longrightarrow> valid l = 0) \<and>
    (\<forall>l. l \<noteq> lock \<longrightarrow> thread_hold_lock_lookup l st3 = thread_hold_lock_lookup l st) \<and>
    (\<forall>u. u \<noteq> t \<longrightarrow> thread_req_lock_lookup u st3 = thread_req_lock_lookup u st)"
proof -
  obtain st1 l where 1: "deadlockcheck_before True now t lock file line func name stack num st = Some st1"
    "\<not> deadlock_mutex st1" "thread_req_lock_lookup t st1 = Some l" "valid l = 1" "rlock l = lock"
    "\<forall>u. u \<noteq> t \<longrightarrow> thread_req_lock_lookup u st1 = thread_req_lock_lookup u st"
    "m_lock_belong_thread st1 = m_lock_belong_thread st"
    using before_records[OF assms, of now t lock "file" line func name stack num] by blast
  have h1: "thread_hold_lock_lookup l st1 = thread_hold_lock_lookup l st" for l
    by (simp add: thread_hold_lock_lookup_def 1(7))
  obtain st2 h where 2: "deadlockcheck_after True True t lock file line func name stack num st1 = Some st2"
    "\<not> deadlock_mutex st2" "thread_hold_lock_lookup lock st2 = Some h" "hthread h = t" "hcount h = hold_count lock st1 + 1"
    "point_list h \<noteq> []" "\<forall>l. l \<noteq> lock \<longrightarrow> thread_hold_lock_lookup l st2 = thread_hold_lock_lookup l st1"
    "\<forall>l. thread_req_lock_lookup t st2 = Some l \<longrightarrow> valid l = 0"
    "\<forall>u. u \<noteq> t \<longrightarrow> thread_req_lock_lookup u st2 = thread_req_lock_lookup u st1"
    using after_records[OF 1(2), of t lock "file" line func name stack num] by blast
  obtain st3 where 3: "deadlockcheck_unlock_after True t lock st2 = Some st3" "\<not> deadlock_mutex st3"
    "thread_hold_lock_lookup lock st3 = Some (thread_hold_lock_popstack h)"
    "\<forall>l. l \<noteq> lock \<longrightarrow> thread_hold_lock_lookup l st3 = thread_hold_lock_lookup l st2"
    "m_thread_apply_lock st3 = m_thread_apply_lock st2"
    using unlock_records[OF 2(2,3), of True t] by blast
  have r3: "thread_req_lock_lookup u st3 = thread_req_lock_lookup u st2" for u
    by (simp add: thread_req_lock_lookup_def 3(5))
  have "hcount (thread_hold_lock_popstack h) = hold_count lock st"
    using 2(5,6) by (simp add: thread_hold_lock_popstack_def h1 split: list.splits)
  then show ?thesis using 1 2 3 by (simp add: r3 h1)
qed


theorem lock_unlock_recorded_witness:
  "\<exists>st1 st2 st3 l h.
    deadlockcheck_before True 5 7 10 [] 1 [] [] [] 0 (example_state\<lparr>deadlock_mutex := False\<rparr>) = Some st1 \<and>
    thread_req_lock_lookup 7 st1 = Some l \<and> valid l = 1 \<and> rlock l = 10 \<and>
    deadlockcheck_after True True 7 10 [] 1 [] [] [] 0 st1 = Some st2 \<and>
    thread_hold_lock_lookup 10 st2 = Some h \<and> hthread h = 7 \<and>
    hcount h = hold_count 10 (example_state\<lparr>deadlock_mutex := False\<rparr>) + 1 \<and>
    deadlockcheck_unlock_after True 7 10 st2 = Some st3 \<and>
    hold_count 10 st3 = hold_count 10 (example_state\<lparr>deadlock_mutex := False\<rparr>) \<and>
    \<not> deadlock_mutex st3 \<and> (\<forall>l. thread_req_lock_lookup 7 st3 = Some l \<longrightarrow> valid l = 0) \<and>
    (\<forall>l. l \<noteq> 10 \<longrightarrow> thread_hold_lock_lookup l st3 = thread_hold_lock_lookup l (example_state\<lparr>deadlock_mutex := False\<rparr>)) \<and>
    (\<forall>u. u \<noteq> 7 \<longrightarrow> thread_req_lock_lookup u st3 = thread_req_lock_lookup u (example_state\<lparr>deadlock_mutex := False\<rparr>))"
  by (rule lock_unlock_recorded) simp

text \<open>When the allocation of the request of a new thread fails, \<open>deadlockcheck_before\<close> returns with
  \<open>deadlock_mutex\<close> locked, so the next call of any of the functions of the detector never returns.
\<close>

theorem alloc_failure_blocks_detector:
  assumes "\<not> deadlock_mutex st" "thread_req_lock_lookup t st = None"
  shows "\<exists>st'. deadlockcheck_before False now t lock file line func name stack num st = Some st' \<and>
    deadlockcheck_after ok1 ok2 t lock file line func name stack num st' = None \<and>
    deadlockcheck_before ok3 now' u lock' file line func name stack num st' = None \<and>
    deadlockcheck_unlock_after ok4 u lock' st' = None \<and> check_dead_lock_stub ok5 now' st' = None \<and>
    show_thread_locks_info st' = None"
  using assms
  by (simp add: deadlockcheck_before_def deadlockcheck_after_def deadlockcheck_unlock_after_def check_dead_lock_stub_def
      show_thread_locks_info_def mutex_lock_def thread_req_lock_lookup_or_alloc_def thread_req_lock_alloc_def)

theorem alloc_failure_blocks_detector_witness:
  "\<exists>st'. deadlockcheck_before False 5 7 10 [] 1 [] [] [] 0 (example_state\<lparr>deadlock_mutex := False\<rparr>) = Some st' \<and>
    deadlockcheck_after True True 7 10 [] 1 [] [] [] 0 st' = None \<and>
    deadlockcheck_before True 6 1 30 [] 1 [] [] [] 0 st' = None \<and>
    deadlockcheck_unlock_after True 1 30 st' = None \<and> check_dead_lock_stub (\<lambda>_ _. True) 6 st' = None \<and>
    show_thread_locks_info st' = None"
  by (rule alloc_failure_blocks_detector) (simp_all add: thread_req_lock_lookup_def example_state_def)

text \<open>A queue of threads that all wait for thread 0 only, when more than these wait for it.\<close>

lemma peel_star:
  assumes "\<forall>t \<in> set q. thread_graphic_vertex_lookup t g = Some \<lparr>indegress = 0, vthread = t, threads = [0]\<rparr>"
    and "thread_graphic_vertex_lookup 0 g = Some \<lparr>indegress = k, vthread = 0, threads = []\<rparr>"
    and "int (length q) < k" "0 \<notin> set q"
  shows "\<exists>g'. peel (g, q, n) = Some (g', n) \<and> length g' = length g"
  using assms
proof (induction q arbitrary: g k rule: rev_induct)
  case Nil
  then show ?case by (subst peel.simps) (simp add: graphics_queue_empty_def)
next
  case (snoc t q)
  define g1 where "g1 = upd_vertex 0 (\<lambda>v. v\<lparr>indegress := indegress v - 1\<rparr>) g"
  have l1: "thread_graphic_vertex_lookup u g1 = (if u = 0 then Some \<lparr>indegress = k - 1, vthread = 0, threads = []\<rparr>
      else thread_graphic_vertex_lookup u g)" for u
    using snoc.prems(2) by (simp add: g1_def lookup_upd_vertex)
  have "peel (g, q @ [t], n) = peel (g1, q, n)"
    using snoc.prems by (subst peel.simps)
      (simp add: graphics_queue_empty_def graphics_queue_pop_def cut_edge_def g1_def)
  moreover have "length g1 = length g" by (simp add: g1_def)
  moreover have "\<exists>g'. peel (g1, q, n) = Some (g', n) \<and> length g' = length g1"
  proof (rule snoc.IH[of g1 "k - 1"])
    show "\<forall>u \<in> set q. thread_graphic_vertex_lookup u g1 = Some \<lparr>indegress = 0, vthread = u, threads = [0]\<rparr>"
      using snoc.prems(1,4) l1 by auto
  qed (use snoc.prems l1 in simp_all)
  ultimately show ?case by simp
qed

definition many_waiting :: dl_state where
  "many_waiting = \<lparr>m_thread_apply_lock = map (\<lambda>t. example_req (word_of_nat t) 9) [1..<102],
     m_lock_belong_thread = [example_hold 0 9], deadlock_mutex = False\<rparr>"

lemma word_of_nat_u64_eq: "a < 2 ^ 64 \<Longrightarrow> b < 2 ^ 64 \<Longrightarrow> (word_of_nat a = (word_of_nat b :: u64)) \<longleftrightarrow> a = b"
  by (simp add: word_of_nat_eq_iff take_bit_nat_eq_self)

lemma edges_many_waiting: "edges many_waiting = map (\<lambda>t. (word_of_nat t, 0)) [1..<102]"
proof -
  have "concat (map (request_edges many_waiting) (map (\<lambda>t. example_req (word_of_nat t) 9) ns)) =
      map (\<lambda>t. (word_of_nat t, 0)) ns" for ns
    by (induction ns) (simp_all add: request_edges_def thread_hold_lock_lookup_def many_waiting_def)
  then show ?thesis by (simp add: edges_def many_waiting_def)
qed

lemma many_waiting_inv: "dl_inv many_waiting"
proof -
  have "inj_on (word_of_nat :: nat \<Rightarrow> u64) {1..<102}"
    by (rule inj_onI) (simp add: word_of_nat_u64_eq)
  then show ?thesis by (simp add: dl_inv_def many_waiting_def distinct_map o_def)
qed


abbreviation many_ids :: "u64 set" where
  "many_ids \<equiv> word_of_nat ` {1..<102}"

lemma many_ids: "0 \<notin> many_ids" "card many_ids = 101"
proof -
  show "0 \<notin> many_ids"
    using word_of_nat_u64_eq[of 0] by (auto simp del: word_of_nat_eq_iff)
  show "card many_ids = 101"
    by (subst card_image) (auto intro: inj_onI simp: word_of_nat_u64_eq)
qed

lemma edge_many_waiting: "(a, b) \<in> set (edges many_waiting) \<longleftrightarrow> a \<in> many_ids \<and> b = 0"
  by (auto simp: edges_many_waiting)

lemma nodes_many_waiting: "nodes (edges many_waiting) = insert 0 many_ids"
proof -
  have "fst ` set (edges many_waiting) = many_ids" "snd ` set (edges many_waiting) = {0}"
    unfolding edges_many_waiting set_map image_image by (auto simp: image_constant_conv)
  then show ?thesis by (simp add: nodes_def)
qed

lemma vertex_many_waiting:
  "vertex {} (edges many_waiting) 0 = \<lparr>indegress = 101, vthread = 0, threads = []\<rparr>"
  "t \<in> many_ids \<Longrightarrow> vertex {} (edges many_waiting) t = \<lparr>indegress = 0, vthread = t, threads = [0]\<rparr>"
proof -
  let ?es = "edges many_waiting"
  have d: "distinct (map fst ?es)" by (rule distinct_edges[OF many_waiting_inv])
  have "filter (\<lambda>e. fst e = 0) ?es = []"
    using many_ids(1) edge_many_waiting[of 0] by (auto simp: filter_empty_conv)
  moreover have "filter (\<lambda>e. snd e = 0) ?es = ?es"
    by (rule filter_True) (simp add: edges_many_waiting)
  ultimately show "vertex {} ?es 0 = \<lparr>indegress = 101, vthread = 0, threads = []\<rparr>"
    by (simp add: vertex_def) (simp add: edges_many_waiting)
  assume t: "t \<in> many_ids"
  then have "map_of ?es t = Some 0" using edge_many_waiting[of t 0] d by simp
  moreover have "filter (\<lambda>e. snd e = t) ?es = []"
    using t many_ids(1) edge_many_waiting by (auto simp: filter_empty_conv)
  ultimately show "vertex {} ?es t = \<lparr>indegress = 0, vthread = t, threads = [0]\<rparr>"
    by (simp add: vertex_def out_edges[OF d])
qed

text \<open>C32: The queue of the check has 100 places and drops what does not fit while the count goes on: with 101 threads that
  wait for the mutex of one more thread, which waits for nothing, a dead lock is reported, although the threads do not
  wait in a cycle.
\<close>

theorem check_dead_lock_false_alarm:
  "(\<exists>es. check_dead_lock_unlocked (\<lambda>_ _. True) now many_waiting = Some (DeadLock es)) \<and> acyclic (waits_for many_waiting)"
proof
  let ?es = "edges many_waiting"
  obtain g where b: "build_graph (\<lambda>_ _. True) many_waiting = Some g" and ok: "graph_ok {} ?es g"
    by (rule build_graph_ok[OF many_waiting_inv])
  let ?rs = "map vthread (filter (\<lambda>v. indegress v = 0) g)"
  have rs: "set ?rs = many_ids" unfolding roots(2)[OF ok] nodes_many_waiting edge_many_waiting using many_ids(1) by auto
  then have len: "length (filter (\<lambda>v. indegress v = 0) g) = 101"
    using distinct_card[OF roots(1)[OF ok]] many_ids(2) by simp
  have "\<exists>g'. peel (g, take MAX_DEAD_MUTEXLOCK_CHECK ?rs, 101) = Some (g', 101) \<and> length g' = length g"
  proof (rule peel_star)
    show "\<forall>t \<in> set (take MAX_DEAD_MUTEXLOCK_CHECK ?rs). thread_graphic_vertex_lookup t g =
        Some \<lparr>indegress = 0, vthread = t, threads = [0]\<rparr>"
    proof
      fix t
      assume "t \<in> set (take MAX_DEAD_MUTEXLOCK_CHECK ?rs)"
      then have "t \<in> many_ids" using rs by (metis in_set_takeD)
      then show "thread_graphic_vertex_lookup t g = Some \<lparr>indegress = 0, vthread = t, threads = [0]\<rparr>"
        using graph_ok_lookup[OF ok, of t, unfolded nodes_many_waiting] vertex_many_waiting(2)[of t] by (metis insertI2)
    qed
    show "thread_graphic_vertex_lookup 0 g = Some \<lparr>indegress = 101, vthread = 0, threads = []\<rparr>"
      using graph_ok_lookup[OF ok, of 0, unfolded nodes_many_waiting] vertex_many_waiting(1) by (metis insertI1)
    show "0 \<notin> set (take MAX_DEAD_MUTEXLOCK_CHECK ?rs)"
      using many_ids(1) rs by (metis in_set_takeD)
  qed (simp add: len MAX_DEAD_MUTEXLOCK_CHECK_def)
  moreover have "length g = 102" using roots(3)[OF ok] many_ids by (simp add: nodes_many_waiting)
  ultimately show "\<exists>es. check_dead_lock_unlocked (\<lambda>_ _. True) now many_waiting = Some (DeadLock es)"
    by (auto simp: check_dead_lock_unlocked_def b queue_roots_eq len vertex_count_length)
  have *: "x \<in> many_ids \<and> y = 0" if "(x, y) \<in> (waits_for many_waiting)\<^sup>+" for x y
    using that unfolding set_edges[OF many_waiting_inv, symmetric]
    by (induction rule: trancl_induct) (auto simp: edge_many_waiting)
  show "acyclic (waits_for many_waiting)"
    unfolding acyclic_def using *[of x x for x] many_ids(1) by metis
qed

end
