(* ===== verification/ClThread.thy ===== *)
theory ClThread
  imports Base
begin

text \<open>
  The event loop of \<open>framework/zebra/cl_thread.c\<close>: pseudo threads (tasks) that wait for a file descriptor, for a
  timeout or for nothing, are kept in the lists of a master and are fetched one at a time by priority.

  A list of the master is the sequence of the addresses of its entries (the pointer operations are verified in
  \<open>StlcList\<close>); the intrusive deletion \<open>stlc_list_del\<close> of an entry takes it out of the list in which it is linked and
  is a fault when it is in none.  The tasks live in a memory of blocks; the address that \<open>calloc\<close> returns is an
  argument, and so are the clock and the answer of \<open>select\<close> in each round of the loop.  The union \<open>u\<close> of a task is one
  32-bit word.  There is one master, so the back pointer of a task is left out, and so is \<open>exceptfd\<close>, which stays empty.
\<close>

section \<open>Data\<close>

definition CL_THREAD_UNUSED :: u8 where "CL_THREAD_UNUSED = 0"
definition CL_THREAD_READ :: u8 where "CL_THREAD_READ = 1"
definition CL_THREAD_WRITE :: u8 where "CL_THREAD_WRITE = 2"
definition CL_THREAD_TIMER :: u8 where "CL_THREAD_TIMER = 3"
definition CL_THREAD_EVENT :: u8 where "CL_THREAD_EVENT = 4"
definition CL_THREAD_READY :: u8 where "CL_THREAD_READY = 5"

lemmas thread_types = CL_THREAD_UNUSED_def CL_THREAD_READ_def CL_THREAD_WRITE_def CL_THREAD_TIMER_def
  CL_THREAD_EVENT_def CL_THREAD_READY_def

record cl_thread =
  ttype :: u8
  func :: u64
  arg :: u64
  uni :: u32

record time_node =
  th_head :: "addr list"
  interval :: u32
  tcount :: u32

record master =
  m_read :: "addr list"
  m_write :: "addr list"
  m_timer :: "time_node list"
  m_event :: "addr list"
  m_ready :: "addr list"
  m_unuse :: "addr list"
  readfd :: "u32 set"
  writefd :: "u32 set"
  max_fd :: u32
  locked :: bool
  thr :: "addr \<rightharpoonup> cl_thread"

text \<open>The entries of all lists, and the deletion of an entry from the list in which it is.\<close>

definition linked :: "master \<Rightarrow> addr list" where
  "linked m = m_read m @ m_write m @ concat (map th_head (m_timer m)) @ m_event m @ m_ready m @ m_unuse m"

definition unlink :: "addr \<Rightarrow> master \<Rightarrow> master option" where
  "unlink t m =
     (if t \<in> set (linked m)
      then Some (m\<lparr>m_read := remove1 t (m_read m), m_write := remove1 t (m_write m),
                   m_timer := map (\<lambda>tn. tn\<lparr>th_head := remove1 t (th_head tn)\<rparr>) (m_timer m),
                   m_event := remove1 t (m_event m), m_ready := remove1 t (m_ready m), m_unuse := remove1 t (m_unuse m)\<rparr>)
      else None)"

text \<open>The macros of \<open>select\<close> are defined for descriptors below \<open>FD_SETSIZE\<close> only.\<close>

definition fd_ok :: "u32 \<Rightarrow> bool" where
  "fd_ok fd \<longleftrightarrow> unat fd < 1024"

abbreviation upd_thr :: "addr \<Rightarrow> (cl_thread \<Rightarrow> cl_thread) \<Rightarrow> master \<Rightarrow> master" where
  "upd_thr t f m \<equiv> m\<lparr>thr := (thr m)(t := map_option f (thr m t))\<rparr>"

section \<open>Operations\<close>

definition cl_thread_trim_head :: "addr list \<Rightarrow> addr option \<times> addr list" where
  "cl_thread_trim_head ts = (case ts of [] \<Rightarrow> (None, []) | t # ts \<Rightarrow> (Some t, ts))"

definition cl_thread_get :: "addr \<Rightarrow> u8 \<Rightarrow> u64 \<Rightarrow> u64 \<Rightarrow> master \<Rightarrow> (addr \<times> master) option" where
  "cl_thread_get new ty f a m =
     (case cl_thread_trim_head (m_unuse m) of
        (None, _) \<Rightarrow>
          if new = NULL then None
          else Some (new, m\<lparr>thr := (thr m)(new \<mapsto> \<lparr>ttype = ty, func = f, arg = a, uni = 0\<rparr>)\<rparr>)
      | (Some t, us) \<Rightarrow> do {
          c \<leftarrow> thr m t;
          Some (t, m\<lparr>m_unuse := us, thr := (thr m)(t \<mapsto> c\<lparr>ttype := ty, func := f, arg := a\<rparr>)\<rparr>) })"

definition cl_thread_add_read :: "addr \<Rightarrow> u64 \<Rightarrow> u64 \<Rightarrow> u32 \<Rightarrow> master \<Rightarrow> (addr option \<times> master) option" where
  "cl_thread_add_read new f a sock m =
     (if \<not> fd_ok sock then None
      else if sock \<in> readfd m then Some (None, m)
      else do {
        (t, m) \<leftarrow> cl_thread_get new CL_THREAD_READ f a m;
        let m = upd_thr t (\<lambda>c. c\<lparr>uni := sock\<rparr>) (m\<lparr>readfd := insert sock (readfd m)\<rparr>);
        let m = m\<lparr>m_read := t # m_read m\<rparr>;
        Some (Some t, if sint sock > sint (max_fd m) then m\<lparr>max_fd := sock\<rparr> else m) })"

definition cl_thread_add_write :: "addr \<Rightarrow> u64 \<Rightarrow> u64 \<Rightarrow> u32 \<Rightarrow> master \<Rightarrow> (addr option \<times> master) option" where
  "cl_thread_add_write new f a sock m =
     (if \<not> fd_ok sock then None
      else if sock \<in> writefd m then Some (None, m)
      else do {
        (t, m) \<leftarrow> cl_thread_get new CL_THREAD_WRITE f a m;
        let m = upd_thr t (\<lambda>c. c\<lparr>uni := sock\<rparr>) (m\<lparr>writefd := insert sock (writefd m)\<rparr>);
        let m = m\<lparr>m_write := t # m_write m\<rparr>;
        Some (Some t, if sint sock > sint (max_fd m) then m\<lparr>max_fd := sock\<rparr> else m) })"

text \<open>The milliseconds of the monotonic clock, 0 when it cannot be read.\<close>

definition getmsec :: "(u64 \<times> u64) option \<Rightarrow> u32" where
  "getmsec tp = (case tp of Some (sec, nsec) \<Rightarrow> ucast (sec * 1000 + nsec div 1000000) | None \<Rightarrow> 0)"

definition u32_is_bigger :: "u32 \<Rightarrow> u32 \<Rightarrow> bool" where
  "u32_is_bigger a b \<longleftrightarrow> a \<noteq> b \<and> a - b < 0x7FFFFFFF"

text \<open>A task with a timeout goes to the end of the list of its interval; \<open>tn_ok\<close> tells whether a new list can be
  allocated.\<close>

definition cl_thread_add_timer ::
  "addr \<Rightarrow> bool \<Rightarrow> u32 \<Rightarrow> u64 \<Rightarrow> u64 \<Rightarrow> u32 \<Rightarrow> master \<Rightarrow> (addr \<times> master) option" where
  "cl_thread_add_timer new tn_ok now f a tm m = do {
     (t, m) \<leftarrow> cl_thread_get new CL_THREAD_TIMER f a m;
     let m = upd_thr t (\<lambda>c. c\<lparr>uni := now + tm\<rparr>) m;
     if \<exists>tn \<in> set (m_timer m). interval tn = tm
     then Some (t, m\<lparr>m_timer := upd_first (\<lambda>tn. interval tn = tm) (\<lambda>tn. tn\<lparr>th_head := th_head tn @ [t]\<rparr>) (m_timer m)\<rparr>)
     else if tn_ok
     then Some (t, m\<lparr>m_timer := m_timer m @ [\<lparr>th_head = [t], interval = tm, tcount = 0\<rparr>]\<rparr>)
     else None }"

definition cl_thread_add_event :: "addr \<Rightarrow> u64 \<Rightarrow> u64 \<Rightarrow> u32 \<Rightarrow> master \<Rightarrow> (addr \<times> master) option" where
  "cl_thread_add_event new f a v m = do {
     (t, m) \<leftarrow> cl_thread_get new CL_THREAD_EVENT f a m;
     let m = upd_thr t (\<lambda>c. c\<lparr>uni := v\<rparr>) m;
     Some (t, m\<lparr>m_event := m_event m @ [t]\<rparr>) }"

definition cl_thread_cancel :: "addr \<Rightarrow> master \<Rightarrow> master option" where
  "cl_thread_cancel t m = do {
     c \<leftarrow> thr m t;
     m \<leftarrow> (if ttype c = CL_THREAD_READ
          then (if fd_ok (uni c) \<and> uni c \<in> readfd m then unlink t (m\<lparr>readfd := readfd m - {uni c}\<rparr>) else None)
          else if ttype c = CL_THREAD_WRITE
          then (if fd_ok (uni c) \<and> uni c \<in> writefd m then unlink t (m\<lparr>writefd := writefd m - {uni c}\<rparr>) else None)
          else if ttype c = CL_THREAD_TIMER \<or> ttype c = CL_THREAD_EVENT \<or> ttype c = CL_THREAD_READY
          then unlink t m
          else None);
     let m = upd_thr t (\<lambda>c. c\<lparr>ttype := CL_THREAD_UNUSED\<rparr>) m;
     Some (m\<lparr>m_unuse := t # m_unuse m\<rparr>) }"

text \<open>One entry of the loops over the tasks that wait for reading and for writing, for the descriptors that are set.\<close>

definition ready_read :: "u32 set \<Rightarrow> addr \<Rightarrow> master \<times> nat \<Rightarrow> (master \<times> nat) option" where
  "ready_read fdset t = (\<lambda>(m, n). do {
     c \<leftarrow> thr m t;
     if \<not> fd_ok (uni c) then None
     else if uni c \<in> fdset
     then (if uni c \<in> readfd m then do {
             m \<leftarrow> unlink t (m\<lparr>readfd := readfd m - {uni c}\<rparr>);
             Some (upd_thr t (\<lambda>c. c\<lparr>ttype := CL_THREAD_READY\<rparr>) (m\<lparr>m_ready := t # m_ready m\<rparr>), n + 1) }
           else None)
     else Some (m, n) })"

definition ready_write :: "u32 set \<Rightarrow> addr \<Rightarrow> master \<times> nat \<Rightarrow> (master \<times> nat) option" where
  "ready_write fdset t = (\<lambda>(m, n). do {
     c \<leftarrow> thr m t;
     if \<not> fd_ok (uni c) then None
     else if uni c \<in> fdset
     then (if uni c \<in> writefd m then do {
             m \<leftarrow> unlink t (m\<lparr>writefd := writefd m - {uni c}\<rparr>);
             Some (upd_thr t (\<lambda>c. c\<lparr>ttype := CL_THREAD_READY\<rparr>) (m\<lparr>m_ready := t # m_ready m\<rparr>), n + 1) }
           else None)
     else Some (m, n) })"

definition cl_thread_process_read :: "u32 set \<Rightarrow> master \<Rightarrow> (master \<times> nat) option" where
  "cl_thread_process_read fdset m = foldM (ready_read fdset) (m_read m) (m, 0)"

definition cl_thread_process_write :: "u32 set \<Rightarrow> master \<Rightarrow> (master \<times> nat) option" where
  "cl_thread_process_write fdset m = foldM (ready_write fdset) (m_write m) (m, 0)"

definition cl_thread_run :: "addr \<Rightarrow> master \<Rightarrow> (cl_thread \<times> master) option" where
  "cl_thread_run t m = do {
     c \<leftarrow> thr m t;
     let m = upd_thr t (\<lambda>c. c\<lparr>ttype := CL_THREAD_UNUSED\<rparr>) m;
     Some (c, m\<lparr>m_unuse := t # m_unuse m\<rparr>) }"

text \<open>The first list whose first task is due.\<close>

fun due_timer :: "u32 \<Rightarrow> (addr \<rightharpoonup> cl_thread) \<Rightarrow> time_node list \<Rightarrow> addr option option" where
  "due_timer now th [] = Some None"
| "due_timer now th (tn # tns) =
     (case th_head tn of
        [] \<Rightarrow> due_timer now th tns
      | t # _ \<Rightarrow> do {
          c \<leftarrow> th t;
          if u32_is_bigger now (uni c) then Some (Some t) else due_timer now th tns })"

text \<open>
  A round of the loop of \<open>cl_thread_fetch\<close>; the result is the copy of the fetched task, or nothing when the loop goes on.
  The environment of a round is the clock and the answer of \<open>select\<close> to the sets it is given.
\<close>

type_synonym fd_env = "u32 \<times> (u32 set \<Rightarrow> u32 set \<Rightarrow> int \<times> u32 set \<times> u32 set)"

definition poll_fds :: "fd_env \<Rightarrow> master \<Rightarrow> (cl_thread option \<times> master) option" where
  "poll_fds e m = (let (n, rfd, wfd) = snd e (readfd m) (writefd m) in
     if n \<le> 0 then Some (None, m)
     else do {
       (m, _) \<leftarrow> cl_thread_process_read rfd m;
       (m, _) \<leftarrow> cl_thread_process_write wfd m;
       case cl_thread_trim_head (m_ready m) of
         (Some t, ts) \<Rightarrow> map_option (apfst Some) (cl_thread_run t (m\<lparr>m_ready := ts\<rparr>))
       | (None, _) \<Rightarrow> Some (None, m) })"

definition ready_or_poll :: "fd_env \<Rightarrow> master \<Rightarrow> (cl_thread option \<times> master) option" where
  "ready_or_poll e m =
     (case cl_thread_trim_head (m_ready m) of
        (Some t, ts) \<Rightarrow> map_option (apfst Some) (cl_thread_run t (m\<lparr>m_ready := ts\<rparr>))
      | (None, _) \<Rightarrow> poll_fds e m)"

definition fetch_round :: "fd_env \<Rightarrow> master \<Rightarrow> (cl_thread option \<times> master) option" where
  "fetch_round e m =
     (case cl_thread_trim_head (m_event m) of
        (Some t, ts) \<Rightarrow> map_option (apfst Some) (cl_thread_run t (m\<lparr>m_event := ts\<rparr>))
      | (None, _) \<Rightarrow> do {
          d \<leftarrow> due_timer (fst e) (thr m) (m_timer m);
          case d of
            Some t \<Rightarrow> do { m \<leftarrow> unlink t m; map_option (apfst Some) (cl_thread_run t m) }
          | None \<Rightarrow> ready_or_poll e m })"

fun cl_thread_fetch :: "fd_env list \<Rightarrow> master \<Rightarrow> (cl_thread option \<times> master) option" where
  "cl_thread_fetch [] m = Some (None, m)"
| "cl_thread_fetch (e # es) m = do {
     (c, m) \<leftarrow> fetch_round e m;
     case c of Some c \<Rightarrow> Some (Some c, m) | None \<Rightarrow> cl_thread_fetch es m }"

text \<open>The same loop with the mutex of the master held while the timers are searched; a held mutex blocks for ever.\<close>

definition lock_master :: "master \<Rightarrow> master option" where
  "lock_master m = (if locked m then None else Some (m\<lparr>locked := True\<rparr>))"

definition fetch_round_lock :: "fd_env \<Rightarrow> master \<Rightarrow> (cl_thread option \<times> master) option" where
  "fetch_round_lock e m =
     (case cl_thread_trim_head (m_event m) of
        (Some t, ts) \<Rightarrow> map_option (apfst Some) (cl_thread_run t (m\<lparr>m_event := ts\<rparr>))
      | (None, _) \<Rightarrow> do {
          m \<leftarrow> lock_master m;
          d \<leftarrow> due_timer (fst e) (thr m) (m_timer m);
          case d of
            Some t \<Rightarrow> do { m \<leftarrow> unlink t m; (c, m) \<leftarrow> cl_thread_run t m; Some (Some c, m\<lparr>locked := False\<rparr>) }
          | None \<Rightarrow> ready_or_poll e (m\<lparr>locked := False\<rparr>) })"

fun cl_thread_fetch_lock :: "fd_env list \<Rightarrow> master \<Rightarrow> (cl_thread option \<times> master) option" where
  "cl_thread_fetch_lock [] m = Some (None, m)"
| "cl_thread_fetch_lock (e # es) m = do {
     (c, m) \<leftarrow> fetch_round_lock e m;
     case c of Some c \<Rightarrow> Some (Some c, m) | None \<Rightarrow> cl_thread_fetch_lock es m }"

definition cl_thread_call :: "(u64 \<Rightarrow> cl_thread \<Rightarrow> master \<Rightarrow> master option) \<Rightarrow> cl_thread \<Rightarrow> master \<Rightarrow> master option" where
  "cl_thread_call call c m = call (func c) c m"

definition cl_thread_init :: master where
  "cl_thread_init = \<lparr>m_read = [], m_write = [], m_timer = [], m_event = [], m_ready = [], m_unuse = [],
     readfd = {}, writefd = {}, max_fd = 0, locked = False, thr = Map.empty\<rparr>"

definition free_thread :: "addr \<Rightarrow> master \<Rightarrow> master option" where
  "free_thread t m = do {
     m \<leftarrow> unlink t m;
     c \<leftarrow> thr m t;
     Some (m\<lparr>thr := (thr m)(t := None)\<rparr>) }"

definition cl_thread_free_all_thread :: "addr list \<Rightarrow> master \<Rightarrow> master option" where
  "cl_thread_free_all_thread ts m = foldM free_thread ts m"

definition cl_thread_free_all_timer :: "master \<Rightarrow> master option" where
  "cl_thread_free_all_timer m = foldM (\<lambda>tn m. do {
     m \<leftarrow> cl_thread_free_all_thread (th_head tn) m;
     Some (m\<lparr>m_timer := tl (m_timer m)\<rparr>) }) (m_timer m) m"

definition cl_thread_stop :: "master \<Rightarrow> master option" where
  "cl_thread_stop m = do {
     m \<leftarrow> cl_thread_free_all_thread (m_read m) m;
     m \<leftarrow> cl_thread_free_all_thread (m_write m) m;
     m \<leftarrow> cl_thread_free_all_timer m;
     m \<leftarrow> cl_thread_free_all_thread (m_event m) m;
     m \<leftarrow> cl_thread_free_all_thread (m_ready m) m;
     cl_thread_free_all_thread (m_unuse m) m }"

section \<open>The macros of the header\<close>

definition CL_THREAD_READ_ON :: "addr \<Rightarrow> u64 \<Rightarrow> u64 \<Rightarrow> u32 \<Rightarrow> addr option \<Rightarrow> master \<Rightarrow> (addr option \<times> master) option" where
  "CL_THREAD_READ_ON new f a sock t m =
     (case t of None \<Rightarrow> cl_thread_add_read new f a sock m | Some t \<Rightarrow> Some (Some t, m))"

definition CL_THREAD_WRITE_ON :: "addr \<Rightarrow> u64 \<Rightarrow> u64 \<Rightarrow> u32 \<Rightarrow> addr option \<Rightarrow> master \<Rightarrow> (addr option \<times> master) option" where
  "CL_THREAD_WRITE_ON new f a sock t m =
     (case t of None \<Rightarrow> cl_thread_add_write new f a sock m | Some t \<Rightarrow> Some (Some t, m))"

definition CL_THREAD_TIMER_ON ::
  "addr \<Rightarrow> bool \<Rightarrow> u32 \<Rightarrow> u64 \<Rightarrow> u64 \<Rightarrow> u32 \<Rightarrow> addr option \<Rightarrow> master \<Rightarrow> (addr \<times> master) option" where
  "CL_THREAD_TIMER_ON new tn_ok now f a tm t m = do {
     m \<leftarrow> (case t of None \<Rightarrow> Some m | Some t \<Rightarrow> cl_thread_cancel t m);
     cl_thread_add_timer new tn_ok now f a tm m }"

definition CL_THREAD_TIMER_ON_LOCK ::
  "addr \<Rightarrow> bool \<Rightarrow> u32 \<Rightarrow> u64 \<Rightarrow> u64 \<Rightarrow> u32 \<Rightarrow> addr option \<Rightarrow> master \<Rightarrow> (addr \<times> master) option" where
  "CL_THREAD_TIMER_ON_LOCK new tn_ok now f a tm t m = do {
     m \<leftarrow> lock_master m;
     m \<leftarrow> (case t of None \<Rightarrow> Some m | Some t \<Rightarrow> cl_thread_cancel t m);
     (t, m) \<leftarrow> cl_thread_add_timer new tn_ok now f a tm m;
     Some (t, m\<lparr>locked := False\<rparr>) }"

definition CL_THREAD_EVENT_ON :: "addr \<Rightarrow> u64 \<Rightarrow> u64 \<Rightarrow> u32 \<Rightarrow> addr option \<Rightarrow> master \<Rightarrow> (addr \<times> master) option" where
  "CL_THREAD_EVENT_ON new f a v t m =
     (case t of None \<Rightarrow> cl_thread_add_event new f a v m | Some t \<Rightarrow> Some (t, m))"

definition CL_THREAD_OFF :: "addr option \<Rightarrow> master \<Rightarrow> (addr option \<times> master) option" where
  "CL_THREAD_OFF t m =
     (case t of None \<Rightarrow> Some (None, m) | Some t \<Rightarrow> map_option (Pair None) (cl_thread_cancel t m))"

definition CL_THREAD_OFF_LOCK :: "addr option \<Rightarrow> master \<Rightarrow> (addr option \<times> master) option" where
  "CL_THREAD_OFF_LOCK t m =
     (case t of
        None \<Rightarrow> Some (None, m)
      | Some t \<Rightarrow> do {
          m \<leftarrow> lock_master m;
          m \<leftarrow> cl_thread_cancel t m;
          Some (None, m\<lparr>locked := False\<rparr>) })"


section \<open>The invariant\<close>

definition of_type :: "master \<Rightarrow> u8 \<Rightarrow> addr list \<Rightarrow> bool" where
  "of_type m ty ts \<longleftrightarrow> (\<forall>t \<in> set ts. \<exists>c. thr m t = Some c \<and> ttype c = ty)"

text \<open>
  Each task is in one list, the list of its type, and every allocated task is in a list, except for the tasks in \<open>D\<close>
  that an operation has just taken out.
\<close>

definition task_inv :: "addr set \<Rightarrow> master \<Rightarrow> bool" where
  "task_inv D m \<longleftrightarrow> distinct (linked m) \<and> D \<inter> set (linked m) = {} \<and> dom (thr m) = D \<union> set (linked m) \<and>
     thr m NULL = None \<and> of_type m CL_THREAD_READ (m_read m) \<and> of_type m CL_THREAD_WRITE (m_write m) \<and>
     of_type m CL_THREAD_TIMER (concat (map th_head (m_timer m))) \<and> of_type m CL_THREAD_EVENT (m_event m) \<and>
     of_type m CL_THREAD_READY (m_ready m) \<and> of_type m CL_THREAD_UNUSED (m_unuse m) \<and>
     distinct (map interval (m_timer m))"

text \<open>The descriptor sets are the descriptors of the waiting tasks, each waited for once, and \<open>max_fd\<close> covers them.\<close>

definition waits :: "(addr \<rightharpoonup> cl_thread) \<Rightarrow> addr list \<Rightarrow> u32 set \<Rightarrow> bool" where
  "waits th ts fds \<longleftrightarrow> distinct (map (\<lambda>t. uni (the (th t))) ts) \<and> (\<lambda>t. uni (the (th t))) ` set ts = fds"

definition fd_inv :: "master \<Rightarrow> bool" where
  "fd_inv m \<longleftrightarrow> waits (thr m) (m_read m) (readfd m) \<and> waits (thr m) (m_write m) (writefd m) \<and>
     (\<forall>fd \<in> readfd m \<union> writefd m. fd_ok fd \<and> sint fd \<le> sint (max_fd m))"

definition master_inv :: "master \<Rightarrow> bool" where
  "master_inv m \<longleftrightarrow> task_inv {} m \<and> fd_inv m"

lemma of_type_upd [simp]: "t \<notin> set ts \<Longrightarrow> of_type (upd_thr t f m) ty ts = of_type m ty ts"
  by (auto simp: of_type_def)

lemma linked_upd [simp]: "linked (m\<lparr>thr := x\<rparr>) = linked m" "linked (m\<lparr>readfd := r\<rparr>) = linked m"
  "linked (m\<lparr>writefd := r\<rparr>) = linked m" "linked (m\<lparr>max_fd := k\<rparr>) = linked m" "linked (m\<lparr>locked := b\<rparr>) = linked m"
  by (simp_all add: linked_def)

lemma task_inv_upd_sets [simp]: "task_inv D (m\<lparr>readfd := r\<rparr>) = task_inv D m"
  "task_inv D (m\<lparr>writefd := r\<rparr>) = task_inv D m" "task_inv D (m\<lparr>max_fd := k\<rparr>) = task_inv D m"
  "task_inv D (m\<lparr>locked := b\<rparr>) = task_inv D m"
  by (simp_all add: task_inv_def of_type_def)

lemma remove1_append_distinct: "distinct (xs @ ys) \<Longrightarrow> remove1 t (xs @ ys) = remove1 t xs @ remove1 t ys"
proof (cases "t \<in> set xs")
  case True
  moreover assume "distinct (xs @ ys)"
  ultimately have "t \<notin> set ys" by auto
  then show ?thesis using True by (simp add: remove1_append remove1_idem)
qed (simp add: remove1_append remove1_idem)

lemma remove1_concat:
  "distinct (concat (map f xs)) \<Longrightarrow> concat (map (\<lambda>x. remove1 t (f x)) xs) = remove1 t (concat (map f xs))"
proof (induction xs)
  case (Cons x xs)
  then show ?case using remove1_append_distinct[of "f x" "concat (map f xs)" t] by simp
qed simp

text \<open>What \<open>unlink\<close> does when each task is in one list.\<close>

lemma unlink_lists:
  assumes "task_inv D m" "t \<in> set (linked m)"
  obtains m' where "unlink t m = Some m'" "linked m' = remove1 t (linked m)" "thr m' = thr m"
    "m_read m' = remove1 t (m_read m)" "m_write m' = remove1 t (m_write m)"
    "concat (map th_head (m_timer m')) = remove1 t (concat (map th_head (m_timer m)))"
    "map interval (m_timer m') = map interval (m_timer m)" "m_event m' = remove1 t (m_event m)"
    "m_ready m' = remove1 t (m_ready m)" "m_unuse m' = remove1 t (m_unuse m)" "readfd m' = readfd m"
    "writefd m' = writefd m" "max_fd m' = max_fd m" "locked m' = locked m"
proof -
  let ?m' = "m\<lparr>m_read := remove1 t (m_read m), m_write := remove1 t (m_write m),
      m_timer := map (\<lambda>tn. tn\<lparr>th_head := remove1 t (th_head tn)\<rparr>) (m_timer m),
      m_event := remove1 t (m_event m), m_ready := remove1 t (m_ready m), m_unuse := remove1 t (m_unuse m)\<rparr>"
  have d: "distinct (linked m)" using assms by (simp add: task_inv_def)
  then have tm: "concat (map th_head (m_timer ?m')) = remove1 t (concat (map th_head (m_timer m)))"
    by (simp add: linked_def comp_def remove1_concat)
  have "linked ?m' = remove1 t (linked m)"
    using d unfolding linked_def tm by (simp add: remove1_append_distinct)
  then show thesis using that[of ?m'] assms(2) tm by (simp add: unlink_def comp_def)
qed

lemma task_inv_unlink:
  assumes "task_inv D m" "t \<in> set (linked m)"
  obtains m' where "unlink t m = Some m'" "task_inv (insert t D) m'" "thr m' = thr m"
    "m_read m' = remove1 t (m_read m)" "m_write m' = remove1 t (m_write m)"
    "concat (map th_head (m_timer m')) = remove1 t (concat (map th_head (m_timer m)))"
    "m_event m' = remove1 t (m_event m)" "m_ready m' = remove1 t (m_ready m)" "m_unuse m' = remove1 t (m_unuse m)"
    "readfd m' = readfd m" "writefd m' = writefd m" "max_fd m' = max_fd m" "locked m' = locked m"
proof -
  obtain m' where m': "unlink t m = Some m'" "linked m' = remove1 t (linked m)" "thr m' = thr m"
    "m_read m' = remove1 t (m_read m)" "m_write m' = remove1 t (m_write m)"
    "concat (map th_head (m_timer m')) = remove1 t (concat (map th_head (m_timer m)))"
    "map interval (m_timer m') = map interval (m_timer m)" "m_event m' = remove1 t (m_event m)"
    "m_ready m' = remove1 t (m_ready m)" "m_unuse m' = remove1 t (m_unuse m)" "readfd m' = readfd m"
    "writefd m' = writefd m" "max_fd m' = max_fd m" "locked m' = locked m"
    using unlink_lists[OF assms] by blast
  have ty: "of_type m' ty (remove1 t ts)" if "of_type m ty ts" for ty ts
    using that m'(3) set_remove1_subset[of t ts] by (auto simp: of_type_def)
  have "task_inv (insert t D) m'"
    using assms unfolding task_inv_def m' by (auto intro: ty)
  then show thesis using that m' by blast
qed

text \<open>A task that is in no list may be changed.\<close>

lemma task_inv_upd_thr:
  assumes "task_inv D m" "t \<in> D"
  shows "task_inv D (upd_thr t f m)"
proof -
  have "t \<notin> set (linked m)" using assms by (auto simp: task_inv_def)
  then have nt: "t \<notin> set (m_read m)" "t \<notin> set (m_write m)" "t \<notin> set (concat (map th_head (m_timer m)))"
    "t \<notin> set (m_event m)" "t \<notin> set (m_ready m)" "t \<notin> set (m_unuse m)"
    by (auto simp: linked_def)
  have "dom (thr (upd_thr t f m)) = dom (thr m)" by (auto simp: dom_def split: if_splits)
  moreover have "thr m t \<noteq> None" using assms by (auto simp: task_inv_def)
  ultimately show ?thesis using assms(1) nt by (auto simp: task_inv_def)
qed


text \<open>Putting a task back into the list of its type.\<close>

lemma task_inv_push:
  assumes inv: "task_inv (insert t D) m" and t: "t \<notin> D" and c: "thr m t = Some c" "ttype c = ty"
  shows "ty = CL_THREAD_READ \<Longrightarrow> task_inv D (m\<lparr>m_read := t # m_read m\<rparr>)"
    and "ty = CL_THREAD_WRITE \<Longrightarrow> task_inv D (m\<lparr>m_write := t # m_write m\<rparr>)"
    and "ty = CL_THREAD_EVENT \<Longrightarrow> task_inv D (m\<lparr>m_event := m_event m @ [t]\<rparr>)"
    and "ty = CL_THREAD_READY \<Longrightarrow> task_inv D (m\<lparr>m_ready := t # m_ready m\<rparr>)"
    and "ty = CL_THREAD_UNUSED \<Longrightarrow> task_inv D (m\<lparr>m_unuse := t # m_unuse m\<rparr>)"
  using inv t c by (auto simp: task_inv_def of_type_def linked_def)

lemma task_inv_push_timer:
  assumes inv: "task_inv {t} m" and c: "thr m t = Some c" "ttype c = CL_THREAD_TIMER"
    and tm: "mset (concat (map th_head tns)) = add_mset t (mset (concat (map th_head (m_timer m))))"
    and d: "distinct (map interval tns)"
  shows "task_inv {} (m\<lparr>m_timer := tns\<rparr>)"
proof -
  have heads: "set (concat (map th_head tns)) = insert t (set (concat (map th_head (m_timer m))))"
    using arg_cong[OF tm, of set_mset] by (simp only: set_mset_mset set_mset_add_mset_insert)
  have ml: "mset (linked (m\<lparr>m_timer := tns\<rparr>)) = mset (t # linked m)"
    using tm by (simp add: linked_def)
  have "distinct (t # linked m)" using inv by (auto simp: task_inv_def)
  then have "distinct (linked (m\<lparr>m_timer := tns\<rparr>))"
    using mset_eq_imp_distinct_iff[OF ml] by blast
  moreover have "set (linked (m\<lparr>m_timer := tns\<rparr>)) = insert t (set (linked m))"
    using mset_eq_setD[OF ml] by simp
  moreover have "of_type (m\<lparr>m_timer := tns\<rparr>) CL_THREAD_TIMER (concat (map th_head tns))"
    using inv c heads by (auto simp: task_inv_def of_type_def)
  ultimately show ?thesis
    using inv d by (auto simp: task_inv_def of_type_def)
qed

lemma append_to_interval:
  assumes "\<exists>tn \<in> set tns. interval tn = tm"
  shows "mset (concat (map th_head (upd_first (\<lambda>tn. interval tn = tm) (\<lambda>tn. tn\<lparr>th_head := th_head tn @ [t]\<rparr>) tns))) =
    add_mset t (mset (concat (map th_head tns)))"
  using assms by (induction tns) auto

text \<open>A descriptor that is not waited for any more, and one that is added.\<close>

lemma waits_cong: "waits th ts fds \<Longrightarrow> \<forall>t \<in> set ts. th' t = th t \<Longrightarrow> waits th' ts fds"
proof -
  assume "\<forall>t \<in> set ts. th' t = th t"
  then have "map (\<lambda>t. uni (the (th' t))) ts = map (\<lambda>t. uni (the (th t))) ts"
    "(\<lambda>t. uni (the (th' t))) ` set ts = (\<lambda>t. uni (the (th t))) ` set ts"
    by (auto intro: image_cong)
  then show "waits th ts fds \<Longrightarrow> waits th' ts fds" unfolding waits_def by metis
qed

lemma waits_upd: "waits th ts fds \<Longrightarrow> t \<notin> set ts \<Longrightarrow> waits (th(t := x)) ts fds"
  by (erule waits_cong) auto

lemma waits_add:
  assumes "waits th ts fds" "t \<notin> set ts" "th t = Some c" "uni c \<notin> fds"
  shows "waits th (t # ts) (insert (uni c) fds)"
  using assms by (auto simp: waits_def)

lemma waits_remove:
  assumes "waits th ts fds" "t \<in> set ts" "th t = Some c"
  shows "waits th (remove1 t ts) (fds - {uni c})" "uni c \<in> fds"
proof -
  let ?f = "\<lambda>t. uni (the (th t))"
  have d: "distinct ts" "inj_on ?f (set ts)" and im: "?f ` set ts = fds"
    using assms(1) by (auto simp: distinct_map waits_def)
  have "?f ` set (remove1 t ts) = ?f ` set ts - {?f t}"
    using d inj_on_image_set_diff[of ?f "set ts" "set ts" "{t}"] assms(2) by simp
  moreover have "distinct (map ?f (remove1 t ts))"
    using d by (auto simp: distinct_map intro: inj_on_subset)
  ultimately show "waits th (remove1 t ts) (fds - {uni c})" using assms(3) im by (simp add: waits_def)
  show "uni c \<in> fds" using im assms(2,3) by force
qed

lemma fd_inv_upd_thr:
  assumes "fd_inv m" "t \<notin> set (m_read m)" "t \<notin> set (m_write m)"
  shows "fd_inv (m\<lparr>thr := (thr m)(t := x)\<rparr>)"
  using assms by (simp add: fd_inv_def waits_upd)

abbreviation calloc_ok :: "addr \<Rightarrow> master \<Rightarrow> bool" where
  "calloc_ok new m \<equiv> m_unuse m = [] \<longrightarrow> new \<noteq> NULL \<and> thr m new = None"

lemma get_ok:
  assumes "task_inv {} m" "calloc_ok new m"
  obtains t m' c where "cl_thread_get new ty f a m = Some (t, m')" "task_inv {t} m'" "thr m' = (thr m)(t \<mapsto> c)"
    "ttype c = ty" "func c = f" "arg c = a" "t \<notin> set (linked m) - set (m_unuse m)" "m_unuse m' = tl (m_unuse m)"
    "m_read m' = m_read m" "m_write m' = m_write m" "m_timer m' = m_timer m" "m_event m' = m_event m"
    "m_ready m' = m_ready m" "readfd m' = readfd m" "writefd m' = writefd m" "max_fd m' = max_fd m" "locked m' = locked m"
proof (cases "m_unuse m")
  case Nil
  let ?c = "\<lparr>ttype = ty, func = f, arg = a, uni = 0\<rparr>"
  let ?m' = "m\<lparr>thr := (thr m)(new \<mapsto> ?c)\<rparr>"
  have new: "new \<noteq> NULL" "new \<notin> set (linked m)" using assms Nil by (auto simp: task_inv_def)
  then have "task_inv {new} ?m'"
    using assms(1) by (auto simp: task_inv_def of_type_def linked_def)
  then show thesis using that[of new ?m' ?c] new Nil
    by (simp add: cl_thread_get_def cl_thread_trim_head_def)
next
  case (Cons t us)
  then obtain c where c: "thr m t = Some c" using assms(1) by (auto simp: task_inv_def of_type_def)
  let ?c = "c\<lparr>ttype := ty, func := f, arg := a\<rparr>"
  let ?m' = "m\<lparr>m_unuse := us, thr := (thr m)(t \<mapsto> ?c)\<rparr>"
  have "task_inv {t} ?m'" "t \<notin> set (linked m) - set (m_unuse m)"
    using assms(1) Cons by (auto simp: task_inv_def of_type_def linked_def)
  then show thesis using that[of t ?m' ?c] c Cons
    by (simp add: cl_thread_get_def cl_thread_trim_head_def)
qed


section \<open>Every operation keeps the invariant\<close>

text \<open>A task of the given type is in the list of that type.\<close>

lemma type_list:
  assumes inv: "task_inv D m" and t: "t \<in> set (linked m)" and c: "thr m t = Some c"
  shows "ttype c = CL_THREAD_READ \<longleftrightarrow> t \<in> set (m_read m)" "ttype c = CL_THREAD_WRITE \<longleftrightarrow> t \<in> set (m_write m)"
    "ttype c = CL_THREAD_TIMER \<longleftrightarrow> t \<in> set (concat (map th_head (m_timer m)))"
    "ttype c = CL_THREAD_EVENT \<longleftrightarrow> t \<in> set (m_event m)" "ttype c = CL_THREAD_READY \<longleftrightarrow> t \<in> set (m_ready m)"
    "ttype c = CL_THREAD_UNUSED \<longleftrightarrow> t \<in> set (m_unuse m)"
proof -
  have ty: "t \<in> set ts \<Longrightarrow> ttype c = ty" if "of_type m ty ts" for ty ts
    using that c by (auto simp: of_type_def)
  have "of_type m CL_THREAD_READ (m_read m)" "of_type m CL_THREAD_WRITE (m_write m)"
    "of_type m CL_THREAD_TIMER (concat (map th_head (m_timer m)))" "of_type m CL_THREAD_EVENT (m_event m)"
    "of_type m CL_THREAD_READY (m_ready m)" "of_type m CL_THREAD_UNUSED (m_unuse m)"
    using inv by (simp_all add: task_inv_def)
  note tys = this[THEN ty]
  have "t \<in> set (m_read m) \<or> t \<in> set (m_write m) \<or> t \<in> set (concat (map th_head (m_timer m))) \<or>
      t \<in> set (m_event m) \<or> t \<in> set (m_ready m) \<or> t \<in> set (m_unuse m)"
    using t by (auto simp: linked_def)
  then have "t \<in> set (m_read m) \<and> ttype c = 1 \<or> t \<in> set (m_write m) \<and> ttype c = 2 \<or>
      t \<in> set (concat (map th_head (m_timer m))) \<and> ttype c = 3 \<or> t \<in> set (m_event m) \<and> ttype c = 4 \<or>
      t \<in> set (m_ready m) \<and> ttype c = 5 \<or> t \<in> set (m_unuse m) \<and> ttype c = 0"
    using tys unfolding thread_types by blast
  then have "ttype c = 1 \<Longrightarrow> t \<in> set (m_read m)" "ttype c = 2 \<Longrightarrow> t \<in> set (m_write m)"
    "ttype c = 3 \<Longrightarrow> t \<in> set (concat (map th_head (m_timer m)))" "ttype c = 4 \<Longrightarrow> t \<in> set (m_event m)"
    "ttype c = 5 \<Longrightarrow> t \<in> set (m_ready m)" "ttype c = 0 \<Longrightarrow> t \<in> set (m_unuse m)"
    by auto
  then show "ttype c = CL_THREAD_READ \<longleftrightarrow> t \<in> set (m_read m)" "ttype c = CL_THREAD_WRITE \<longleftrightarrow> t \<in> set (m_write m)"
    "ttype c = CL_THREAD_TIMER \<longleftrightarrow> t \<in> set (concat (map th_head (m_timer m)))"
    "ttype c = CL_THREAD_EVENT \<longleftrightarrow> t \<in> set (m_event m)" "ttype c = CL_THREAD_READY \<longleftrightarrow> t \<in> set (m_ready m)"
    "ttype c = CL_THREAD_UNUSED \<longleftrightarrow> t \<in> set (m_unuse m)"
    using tys unfolding thread_types by blast+
qed

lemma add_read_inv:
  assumes inv: "master_inv m" and new: "calloc_ok new m" and fd: "fd_ok sock" and ns: "sock \<notin> readfd m"
  shows "\<exists>t m'. cl_thread_add_read new f a sock m = Some (Some t, m') \<and> master_inv m' \<and>
      m_read m' = t # m_read m \<and> thr m' t = Some \<lparr>ttype = CL_THREAD_READ, func = f, arg = a, uni = sock\<rparr> \<and>
      readfd m' = insert sock (readfd m)"
proof -
  have ti: "task_inv {} m" and fi: "fd_inv m" using inv by (simp_all add: master_inv_def)
  obtain t m1 c where g: "cl_thread_get new CL_THREAD_READ f a m = Some (t, m1)" "task_inv {t} m1" "thr m1 = (thr m)(t \<mapsto> c)"
    "ttype c = CL_THREAD_READ" "func c = f" "arg c = a" "m_read m1 = m_read m" "m_write m1 = m_write m"
    "readfd m1 = readfd m" "writefd m1 = writefd m" "max_fd m1 = max_fd m"
    using get_ok[OF ti new, of CL_THREAD_READ f a] by metis
  define c' where "c' = \<lparr>ttype = CL_THREAD_READ, func = f, arg = a, uni = sock\<rparr>"
  define m2 where "m2 = m1\<lparr>thr := (thr m)(t \<mapsto> c'), readfd := insert sock (readfd m)\<rparr>"
  define m3 where "m3 = m2\<lparr>m_read := t # m_read m\<rparr>"
  define m' where "m' = (if sint sock > sint (max_fd m) then m3\<lparr>max_fd := sock\<rparr> else m3)"
  have c': "c\<lparr>uni := sock\<rparr> = c'" using g(4-6) by (simp add: c'_def)
  have eq: "cl_thread_add_read new f a sock m = Some (Some t, m')"
    using ns fd g by (simp add: cl_thread_add_read_def m2_def m3_def m'_def c')
  have "task_inv {t} m2"
    using task_inv_upd_thr[OF g(2), of t "\<lambda>c. c\<lparr>uni := sock\<rparr>"] by (simp add: m2_def g(3) c')
  then have "task_inv {} (m2\<lparr>m_read := t # m_read m2\<rparr>)"
    by (rule task_inv_push(1)[where c = c' and ty = CL_THREAD_READ]) (simp_all add: m2_def c'_def)
  then have ti': "task_inv {} m'" by (simp add: m'_def m3_def m2_def g)
  have nt: "t \<notin> set (m_read m)" "t \<notin> set (m_write m)"
    using g(2,7,8) by (auto simp: task_inv_def linked_def)
  then have "waits ((thr m)(t \<mapsto> c')) (t # m_read m) (insert (uni c') (readfd m))"
    using fi ns by (intro waits_add) (auto simp: fd_inv_def c'_def intro: waits_upd)
  moreover have "sint fd \<le> sint sock" if "fd \<in> readfd m \<union> writefd m" "sint (max_fd m) < sint sock" for fd
    using bspec[OF conjunct2[OF conjunct2[OF fi[unfolded fd_inv_def]]] that(1)] that(2) by simp
  ultimately have "fd_inv m'"
    using fi nt fd by (auto simp: fd_inv_def m'_def m3_def m2_def g c'_def waits_upd)
  then show ?thesis using eq ti' by (auto simp: master_inv_def m'_def m3_def m2_def c'_def)
qed


lemma add_write_inv:
  assumes inv: "master_inv m" and new: "calloc_ok new m" and fd: "fd_ok sock" and ns: "sock \<notin> writefd m"
  shows "\<exists>t m'. cl_thread_add_write new f a sock m = Some (Some t, m') \<and> master_inv m' \<and>
      m_write m' = t # m_write m \<and> thr m' t = Some \<lparr>ttype = CL_THREAD_WRITE, func = f, arg = a, uni = sock\<rparr> \<and>
      writefd m' = insert sock (writefd m)"
proof -
  have ti: "task_inv {} m" and fi: "fd_inv m" using inv by (simp_all add: master_inv_def)
  obtain t m1 c where g: "cl_thread_get new CL_THREAD_WRITE f a m = Some (t, m1)" "task_inv {t} m1" "thr m1 = (thr m)(t \<mapsto> c)"
    "ttype c = CL_THREAD_WRITE" "func c = f" "arg c = a" "m_write m1 = m_write m" "m_read m1 = m_read m"
    "writefd m1 = writefd m" "readfd m1 = readfd m" "max_fd m1 = max_fd m"
    using get_ok[OF ti new, of CL_THREAD_WRITE f a] by metis
  define c' where "c' = \<lparr>ttype = CL_THREAD_WRITE, func = f, arg = a, uni = sock\<rparr>"
  define m2 where "m2 = m1\<lparr>thr := (thr m)(t \<mapsto> c'), writefd := insert sock (writefd m)\<rparr>"
  define m3 where "m3 = m2\<lparr>m_write := t # m_write m\<rparr>"
  define m' where "m' = (if sint sock > sint (max_fd m) then m3\<lparr>max_fd := sock\<rparr> else m3)"
  have c': "c\<lparr>uni := sock\<rparr> = c'" using g(4-6) by (simp add: c'_def)
  have eq: "cl_thread_add_write new f a sock m = Some (Some t, m')"
    using ns fd g by (simp add: cl_thread_add_write_def m2_def m3_def m'_def c')
  have "task_inv {t} m2"
    using task_inv_upd_thr[OF g(2), of t "\<lambda>c. c\<lparr>uni := sock\<rparr>"] by (simp add: m2_def g(3) c')
  then have "task_inv {} (m2\<lparr>m_write := t # m_write m2\<rparr>)"
    by (rule task_inv_push(2)[where c = c' and ty = CL_THREAD_WRITE]) (simp_all add: m2_def c'_def)
  then have ti': "task_inv {} m'" by (simp add: m'_def m3_def m2_def g)
  have nt: "t \<notin> set (m_write m)" "t \<notin> set (m_read m)"
    using g(2,7,8) by (auto simp: task_inv_def linked_def)
  then have "waits ((thr m)(t \<mapsto> c')) (t # m_write m) (insert (uni c') (writefd m))"
    using fi ns by (intro waits_add) (auto simp: fd_inv_def c'_def intro: waits_upd)
  moreover have "sint fd \<le> sint sock" if "fd \<in> readfd m \<union> writefd m" "sint (max_fd m) < sint sock" for fd
    using bspec[OF conjunct2[OF conjunct2[OF fi[unfolded fd_inv_def]]] that(1)] that(2) by simp
  ultimately have "fd_inv m'"
    using fi nt fd by (auto simp: fd_inv_def m'_def m3_def m2_def g c'_def waits_upd)
  then show ?thesis using eq ti' by (auto simp: master_inv_def m'_def m3_def m2_def c'_def)
qed


lemma add_event_inv:
  assumes inv: "master_inv m" and new: "calloc_ok new m"
  shows "\<exists>t m'. cl_thread_add_event new f a v m = Some (t, m') \<and> master_inv m' \<and> m_event m' = m_event m @ [t] \<and>
      thr m' t = Some \<lparr>ttype = CL_THREAD_EVENT, func = f, arg = a, uni = v\<rparr>"
proof -
  have ti: "task_inv {} m" and fi: "fd_inv m" using inv by (simp_all add: master_inv_def)
  obtain t m1 c where g: "cl_thread_get new CL_THREAD_EVENT f a m = Some (t, m1)" "task_inv {t} m1" "thr m1 = (thr m)(t \<mapsto> c)"
    "ttype c = CL_THREAD_EVENT" "func c = f" "arg c = a" "m_read m1 = m_read m" "m_write m1 = m_write m"
    "readfd m1 = readfd m" "writefd m1 = writefd m" "max_fd m1 = max_fd m" "m_event m1 = m_event m"
    using get_ok[OF ti new, of CL_THREAD_EVENT f a] by metis
  define c' where "c' = \<lparr>ttype = CL_THREAD_EVENT, func = f, arg = a, uni = v\<rparr>"
  have c': "c\<lparr>uni := v\<rparr> = c'" using g(4-6) by (simp add: c'_def)
  define m2 where "m2 = m1\<lparr>thr := (thr m)(t \<mapsto> c')\<rparr>"
  have "task_inv {t} m2"
    using task_inv_upd_thr[OF g(2), of t "\<lambda>c. c\<lparr>uni := v\<rparr>"] by (simp add: m2_def g(3) c')
  then have "task_inv {} (m2\<lparr>m_event := m_event m2 @ [t]\<rparr>)"
    by (rule task_inv_push(3)[where c = c' and ty = CL_THREAD_EVENT]) (simp_all add: m2_def c'_def)
  moreover have "t \<notin> set (m_read m)" "t \<notin> set (m_write m)"
    using g(2,7,8) by (auto simp: task_inv_def linked_def)
  then have "fd_inv (m2\<lparr>m_event := m_event m2 @ [t]\<rparr>)"
    using fi by (simp add: fd_inv_def m2_def g waits_upd)
  moreover have "cl_thread_add_event new f a v m = Some (t, m2\<lparr>m_event := m_event m2 @ [t]\<rparr>)"
    using g by (simp add: cl_thread_add_event_def m2_def c')
  ultimately show ?thesis by (simp add: master_inv_def m2_def g(12) c'_def)
qed

lemma add_timer_inv:
  assumes inv: "master_inv m" and new: "calloc_ok new m" and tn: "tn_ok \<or> (\<exists>tn \<in> set (m_timer m). interval tn = tm)"
  shows "\<exists>t m'. cl_thread_add_timer new tn_ok now f a tm m = Some (t, m') \<and> master_inv m' \<and>
      thr m' = (thr m)(t \<mapsto> \<lparr>ttype = CL_THREAD_TIMER, func = f, arg = a, uni = now + tm\<rparr>) \<and>
      t \<notin> set (linked m) - set (m_unuse m) \<and>
      m_timer m' = (if \<exists>tn \<in> set (m_timer m). interval tn = tm
        then upd_first (\<lambda>tn. interval tn = tm) (\<lambda>tn. tn\<lparr>th_head := th_head tn @ [t]\<rparr>) (m_timer m)
        else m_timer m @ [\<lparr>th_head = [t], interval = tm, tcount = 0\<rparr>])"
proof -
  have ti: "task_inv {} m" and fi: "fd_inv m" using inv by (simp_all add: master_inv_def)
  obtain t m1 c where g: "cl_thread_get new CL_THREAD_TIMER f a m = Some (t, m1)" "task_inv {t} m1" "thr m1 = (thr m)(t \<mapsto> c)"
    "ttype c = CL_THREAD_TIMER" "func c = f" "arg c = a" "m_read m1 = m_read m" "m_write m1 = m_write m"
    "readfd m1 = readfd m" "writefd m1 = writefd m" "max_fd m1 = max_fd m" "m_timer m1 = m_timer m"
    "t \<notin> set (linked m) - set (m_unuse m)"
    using get_ok[OF ti new, of CL_THREAD_TIMER f a] by metis
  define c' where "c' = \<lparr>ttype = CL_THREAD_TIMER, func = f, arg = a, uni = now + tm\<rparr>"
  have c': "c\<lparr>uni := now + tm\<rparr> = c'" using g(4-6) by (simp add: c'_def)
  define m2 where "m2 = m1\<lparr>thr := (thr m)(t \<mapsto> c')\<rparr>"
  define tns where "tns = (if \<exists>tn \<in> set (m_timer m). interval tn = tm
        then upd_first (\<lambda>tn. interval tn = tm) (\<lambda>tn. tn\<lparr>th_head := th_head tn @ [t]\<rparr>) (m_timer m)
        else m_timer m @ [\<lparr>th_head = [t], interval = tm, tcount = 0\<rparr>])"
  have "task_inv {t} m2"
    using task_inv_upd_thr[OF g(2), of t "\<lambda>c. c\<lparr>uni := now + tm\<rparr>"] by (simp add: m2_def g(3) c')
  then have "task_inv {} (m2\<lparr>m_timer := tns\<rparr>)"
  proof (rule task_inv_push_timer)
    show "thr m2 t = Some c'" "ttype c' = CL_THREAD_TIMER" by (simp_all add: m2_def c'_def)
    show "mset (concat (map th_head tns)) = add_mset t (mset (concat (map th_head (m_timer m2))))"
      using append_to_interval[of "m_timer m" tm t] by (simp add: tns_def m2_def g(12))
    show "distinct (map interval tns)"
      using ti by (auto simp: tns_def map_upd_first task_inv_def)
  qed
  moreover have "t \<notin> set (m_read m)" "t \<notin> set (m_write m)"
    using g(2,7,8) by (auto simp: task_inv_def linked_def)
  then have "fd_inv (m2\<lparr>m_timer := tns\<rparr>)"
    using fi by (simp add: fd_inv_def m2_def g waits_upd)
  moreover have "cl_thread_add_timer new tn_ok now f a tm m = Some (t, m2\<lparr>m_timer := tns\<rparr>)"
    using g(1,3,12) tn by (auto simp: cl_thread_add_timer_def m2_def tns_def c')
  ultimately show ?thesis using g(13) by (simp add: master_inv_def m2_def c'_def tns_def)
qed


text \<open>Handing a detached task to the unused list, as the cancellation and the fetch do.\<close>

lemma retire:
  assumes "task_inv {t} m" "thr m t = Some c"
  shows "task_inv {} ((upd_thr t (\<lambda>c. c\<lparr>ttype := CL_THREAD_UNUSED\<rparr>) m)\<lparr>m_unuse := t # m_unuse m\<rparr>)"
proof -
  let ?m = "upd_thr t (\<lambda>c. c\<lparr>ttype := CL_THREAD_UNUSED\<rparr>) m"
  have "task_inv {t} ?m" by (rule task_inv_upd_thr[OF assms(1)]) simp
  from task_inv_push(5)[OF this, of "c\<lparr>ttype := CL_THREAD_UNUSED\<rparr>"] show ?thesis using assms(2) by simp
qed

lemma detached_notin: "task_inv {t} m \<Longrightarrow> t \<notin> set (m_read m) \<and> t \<notin> set (m_write m)"
  by (auto simp: task_inv_def linked_def)

lemma run_ok:
  assumes "task_inv {t} m" "fd_inv m" "thr m t = Some c"
  shows "\<exists>m'. cl_thread_run t m = Some (c, m') \<and> master_inv m' \<and> m_unuse m' = t # m_unuse m \<and>
    thr m' = (thr m)(t \<mapsto> c\<lparr>ttype := CL_THREAD_UNUSED\<rparr>) \<and> m_read m' = m_read m \<and> m_write m' = m_write m \<and>
    m_timer m' = m_timer m \<and> m_event m' = m_event m \<and> m_ready m' = m_ready m \<and> locked m' = locked m"
proof -
  let ?m' = "(upd_thr t (\<lambda>c. c\<lparr>ttype := CL_THREAD_UNUSED\<rparr>) m)\<lparr>m_unuse := t # m_unuse m\<rparr>"
  have "fd_inv ?m'"
    using assms(2) detached_notin[OF assms(1)] by (simp add: fd_inv_def waits_upd)
  then have "master_inv ?m'" using retire[OF assms(1,3)] by (simp add: master_inv_def)
  then show ?thesis using assms(3) by (simp add: cl_thread_run_def)
qed

lemma pop_list:
  assumes "task_inv {} m"
  shows "m_event m = t # ts \<Longrightarrow> task_inv {t} (m\<lparr>m_event := ts\<rparr>)"
    and "m_ready m = t # ts \<Longrightarrow> task_inv {t} (m\<lparr>m_ready := ts\<rparr>)"
  using assms by (auto simp: task_inv_def of_type_def linked_def)

lemma linked_thr: "task_inv {} m \<Longrightarrow> t \<in> set (linked m) \<Longrightarrow> \<exists>c. thr m t = Some c"
  by (auto simp: task_inv_def)

text \<open>Taking a waiting task out: what is left of the descriptors, and of the invariant for the other tasks.\<close>

lemma unlink_read:
  assumes "master_inv m" "t \<in> set (m_read m)" "thr m t = Some c"
  obtains m' where "unlink t (m\<lparr>readfd := readfd m - {uni c}\<rparr>) = Some m'" "task_inv {t} m'" "fd_inv m'"
    "uni c \<in> readfd m" "fd_ok (uni c)" "thr m' = thr m" "m_read m' = remove1 t (m_read m)"
    "m_write m' = m_write m" "concat (map th_head (m_timer m')) = concat (map th_head (m_timer m))"
    "m_event m' = m_event m" "m_ready m' = m_ready m" "m_unuse m' = m_unuse m" "readfd m' = readfd m - {uni c}"
    "writefd m' = writefd m" "locked m' = locked m"
proof -
  have ti: "task_inv {} m" and fi: "fd_inv m" using assms(1) by (simp_all add: master_inv_def)
  have t: "t \<in> set (linked (m\<lparr>readfd := readfd m - {uni c}\<rparr>))" using assms(2) by (simp add: linked_def)
  have "task_inv {} (m\<lparr>readfd := readfd m - {uni c}\<rparr>)" using ti by simp
  from task_inv_unlink[OF this t] obtain m' where m': "unlink t (m\<lparr>readfd := readfd m - {uni c}\<rparr>) = Some m'"
    "task_inv {t} m'" "thr m' = thr m"
    "m_read m' = remove1 t (m_read m)" "m_write m' = remove1 t (m_write m)"
    "concat (map th_head (m_timer m')) = remove1 t (concat (map th_head (m_timer m)))"
    "m_event m' = remove1 t (m_event m)" "m_ready m' = remove1 t (m_ready m)" "m_unuse m' = remove1 t (m_unuse m)"
    "readfd m' = readfd m - {uni c}" "writefd m' = writefd m" "max_fd m' = max_fd m" "locked m' = locked m"
    by simp metis
  have other: "t \<notin> set (m_write m)" "t \<notin> set (concat (map th_head (m_timer m)))" "t \<notin> set (m_event m)"
    "t \<notin> set (m_ready m)" "t \<notin> set (m_unuse m)"
    using ti assms(2) by (auto simp: task_inv_def linked_def)
  have w: "waits (thr m) (remove1 t (m_read m)) (readfd m - {uni c})" "uni c \<in> readfd m"
    using waits_remove[of "thr m" "m_read m" "readfd m" t c] assms(2,3) fi by (auto simp: fd_inv_def)
  then have "fd_inv m'" using fi other(1) by (auto simp: fd_inv_def m' remove1_idem)
  moreover have "fd_ok (uni c)" using fi w(2) by (auto simp: fd_inv_def)
  ultimately show thesis using that[OF m'(1,2)] w(2) m' other by (simp add: remove1_idem)
qed


lemma unlink_write:
  assumes "master_inv m" "t \<in> set (m_write m)" "thr m t = Some c"
  obtains m' where "unlink t (m\<lparr>writefd := writefd m - {uni c}\<rparr>) = Some m'" "task_inv {t} m'" "fd_inv m'"
    "uni c \<in> writefd m" "fd_ok (uni c)" "thr m' = thr m" "m_write m' = remove1 t (m_write m)"
    "m_read m' = m_read m" "concat (map th_head (m_timer m')) = concat (map th_head (m_timer m))"
    "m_event m' = m_event m" "m_ready m' = m_ready m" "m_unuse m' = m_unuse m" "writefd m' = writefd m - {uni c}"
    "readfd m' = readfd m" "locked m' = locked m"
proof -
  have ti: "task_inv {} m" and fi: "fd_inv m" using assms(1) by (simp_all add: master_inv_def)
  have t: "t \<in> set (linked (m\<lparr>writefd := writefd m - {uni c}\<rparr>))" using assms(2) by (simp add: linked_def)
  have "task_inv {} (m\<lparr>writefd := writefd m - {uni c}\<rparr>)" using ti by simp
  from task_inv_unlink[OF this t] obtain m' where m': "unlink t (m\<lparr>writefd := writefd m - {uni c}\<rparr>) = Some m'"
    "task_inv {t} m'" "thr m' = thr m"
    "m_write m' = remove1 t (m_write m)" "m_read m' = remove1 t (m_read m)"
    "concat (map th_head (m_timer m')) = remove1 t (concat (map th_head (m_timer m)))"
    "m_event m' = remove1 t (m_event m)" "m_ready m' = remove1 t (m_ready m)" "m_unuse m' = remove1 t (m_unuse m)"
    "writefd m' = writefd m - {uni c}" "readfd m' = readfd m" "max_fd m' = max_fd m" "locked m' = locked m"
    by simp metis
  have other: "t \<notin> set (m_read m)" "t \<notin> set (concat (map th_head (m_timer m)))" "t \<notin> set (m_event m)"
    "t \<notin> set (m_ready m)" "t \<notin> set (m_unuse m)"
    using ti assms(2) by (auto simp: task_inv_def linked_def)
  have w: "waits (thr m) (remove1 t (m_write m)) (writefd m - {uni c})" "uni c \<in> writefd m"
    using waits_remove[of "thr m" "m_write m" "writefd m" t c] assms(2,3) fi by (auto simp: fd_inv_def)
  then have "fd_inv m'" using fi other(1) by (auto simp: fd_inv_def m' remove1_idem)
  moreover have "fd_ok (uni c)" using fi w(2) by (auto simp: fd_inv_def)
  ultimately show thesis using that[OF m'(1,2)] w(2) m' other by (simp add: remove1_idem)
qed


lemma unlink_other:
  assumes "master_inv m" "t \<in> set (concat (map th_head (m_timer m))) \<union> set (m_event m) \<union> set (m_ready m)"
  obtains m' where "unlink t m = Some m'" "task_inv {t} m'" "fd_inv m'" "thr m' = thr m" "m_read m' = m_read m"
    "m_write m' = m_write m" "concat (map th_head (m_timer m')) = remove1 t (concat (map th_head (m_timer m)))"
    "m_event m' = remove1 t (m_event m)" "m_ready m' = remove1 t (m_ready m)" "m_unuse m' = m_unuse m"
    "readfd m' = readfd m" "writefd m' = writefd m" "locked m' = locked m"
proof -
  have ti: "task_inv {} m" and fi: "fd_inv m" using assms(1) by (simp_all add: master_inv_def)
  have "t \<in> set (linked m)" using assms(2) by (auto simp: linked_def)
  from task_inv_unlink[OF ti this] obtain m' where m': "unlink t m = Some m'" "task_inv {t} m'" "thr m' = thr m"
    "m_read m' = remove1 t (m_read m)" "m_write m' = remove1 t (m_write m)"
    "concat (map th_head (m_timer m')) = remove1 t (concat (map th_head (m_timer m)))"
    "m_event m' = remove1 t (m_event m)" "m_ready m' = remove1 t (m_ready m)" "m_unuse m' = remove1 t (m_unuse m)"
    "readfd m' = readfd m" "writefd m' = writefd m" "max_fd m' = max_fd m" "locked m' = locked m" by metis
  have other: "t \<notin> set (m_read m)" "t \<notin> set (m_write m)" "t \<notin> set (m_unuse m)"
    using ti assms(2) by (auto simp: task_inv_def linked_def)
  then have "fd_inv m'" using fi by (simp add: fd_inv_def m' remove1_idem)
  then show thesis using that m' other by (simp add: remove1_idem)
qed

lemma cancel_ok:
  assumes inv: "master_inv m" and t: "t \<in> set (linked m)" "t \<notin> set (m_unuse m)"
  shows "\<exists>m' c. cl_thread_cancel t m = Some m' \<and> thr m t = Some c \<and> master_inv m' \<and> m_unuse m' = t # m_unuse m \<and>
    m_read m' = remove1 t (m_read m) \<and> m_write m' = remove1 t (m_write m) \<and>
    concat (map th_head (m_timer m')) = remove1 t (concat (map th_head (m_timer m))) \<and>
    m_event m' = remove1 t (m_event m) \<and> m_ready m' = remove1 t (m_ready m) \<and>
    thr m' = (thr m)(t \<mapsto> c\<lparr>ttype := CL_THREAD_UNUSED\<rparr>)"
proof -
  have ti: "task_inv {} m" using inv by (simp add: master_inv_def)
  obtain c where c: "thr m t = Some c" using linked_thr[OF ti t(1)] by blast
  note ty = type_list[OF ti t(1) c]
  have fin: ?thesis if "cl_thread_cancel t m = map_option (\<lambda>m. (upd_thr t (\<lambda>c. c\<lparr>ttype := CL_THREAD_UNUSED\<rparr>) m)\<lparr>m_unuse := t # m_unuse m\<rparr>) (Some m1)"
      "task_inv {t} m1" "fd_inv m1" "thr m1 = thr m" "m_unuse m1 = m_unuse m"
      "m_read m1 = remove1 t (m_read m)" "m_write m1 = remove1 t (m_write m)"
      "concat (map th_head (m_timer m1)) = remove1 t (concat (map th_head (m_timer m)))"
      "m_event m1 = remove1 t (m_event m)" "m_ready m1 = remove1 t (m_ready m)" for m1
    using run_ok[OF that(2,3), of c] that(4-) c by (auto simp: that(1) cl_thread_run_def)
  have other: "t \<in> set (m_read m) \<Longrightarrow> t \<notin> set (m_write m) \<and> t \<notin> set (concat (map th_head (m_timer m))) \<and>
      t \<notin> set (m_event m) \<and> t \<notin> set (m_ready m)" "t \<in> set (m_write m) \<Longrightarrow> t \<notin> set (m_read m) \<and>
      t \<notin> set (concat (map th_head (m_timer m))) \<and> t \<notin> set (m_event m) \<and> t \<notin> set (m_ready m)"
    using ti by (auto simp: task_inv_def linked_def)
  consider "t \<in> set (m_read m)" | "t \<in> set (m_write m)"
    | "t \<in> set (concat (map th_head (m_timer m))) \<union> set (m_event m) \<union> set (m_ready m)"
    using t by (auto simp: linked_def)
  then show ?thesis
  proof cases
    case 1
    show ?thesis
    proof (rule unlink_read[OF inv 1 c])
      fix m1
      assume m1: "unlink t (m\<lparr>readfd := readfd m - {uni c}\<rparr>) = Some m1" "task_inv {t} m1" "fd_inv m1"
        "uni c \<in> readfd m" "fd_ok (uni c)" "thr m1 = thr m" "m_read m1 = remove1 t (m_read m)"
        "m_write m1 = m_write m" "concat (map th_head (m_timer m1)) = concat (map th_head (m_timer m))"
        "m_event m1 = m_event m" "m_ready m1 = m_ready m" "m_unuse m1 = m_unuse m"
      show ?thesis
        by (rule fin[of m1]) (use 1 m1 c ty other(1) in \<open>simp_all add: cl_thread_cancel_def remove1_idem\<close>)
    qed
  next
    case 2
    show ?thesis
    proof (rule unlink_write[OF inv 2 c])
      fix m1
      assume m1: "unlink t (m\<lparr>writefd := writefd m - {uni c}\<rparr>) = Some m1" "task_inv {t} m1" "fd_inv m1"
        "uni c \<in> writefd m" "fd_ok (uni c)" "thr m1 = thr m" "m_write m1 = remove1 t (m_write m)"
        "m_read m1 = m_read m" "concat (map th_head (m_timer m1)) = concat (map th_head (m_timer m))"
        "m_event m1 = m_event m" "m_ready m1 = m_ready m" "m_unuse m1 = m_unuse m"
      have "ttype c = CL_THREAD_WRITE" "ttype c \<noteq> CL_THREAD_READ" using 2 ty(1,2) other(2) by blast+
      then show ?thesis
        by (intro fin[of m1]) (use 2 m1 c other(2) in \<open>simp_all add: cl_thread_cancel_def remove1_idem\<close>)
    qed
  next
    case 3
    show ?thesis
    proof (rule unlink_other[OF inv 3])
      fix m1
      assume m1: "unlink t m = Some m1" "task_inv {t} m1" "fd_inv m1" "thr m1 = thr m" "m_read m1 = m_read m"
        "m_write m1 = m_write m" "concat (map th_head (m_timer m1)) = remove1 t (concat (map th_head (m_timer m)))"
        "m_event m1 = remove1 t (m_event m)" "m_ready m1 = remove1 t (m_ready m)" "m_unuse m1 = m_unuse m"
      have no: "t \<notin> set (m_read m)" "t \<notin> set (m_write m)" using 3 other by blast+
      have "ttype c \<noteq> CL_THREAD_READ" "ttype c \<noteq> CL_THREAD_WRITE"
        "ttype c = CL_THREAD_TIMER \<or> ttype c = CL_THREAD_EVENT \<or> ttype c = CL_THREAD_READY"
        using 3 no ty by blast+
      then show ?thesis
        by (intro fin[of m1]) (use m1 c no in \<open>simp_all add: cl_thread_cancel_def remove1_idem\<close>)
    qed
  qed
qed


section \<open>Fetching the next task\<close>

abbreviation fd_of :: "master \<Rightarrow> addr \<Rightarrow> u32" where
  "fd_of m t \<equiv> uni (the (thr m t))"

text \<open>What one entry and the whole loops over the waiting tasks do: the tasks whose descriptor is set become ready.\<close>

lemma make_ready:
  assumes "task_inv {t} m" "fd_inv m" "thr m t = Some c"
  shows "master_inv (upd_thr t (\<lambda>c. c\<lparr>ttype := CL_THREAD_READY\<rparr>) (m\<lparr>m_ready := t # m_ready m\<rparr>))"
proof -
  let ?m = "upd_thr t (\<lambda>c. c\<lparr>ttype := CL_THREAD_READY\<rparr>) m"
  have "task_inv {t} ?m" by (rule task_inv_upd_thr[OF assms(1)]) simp
  from task_inv_push(4)[OF this, of "c\<lparr>ttype := CL_THREAD_READY\<rparr>"]
  have "task_inv {} (?m\<lparr>m_ready := t # m_ready m\<rparr>)" using assms(3) by simp
  moreover have "fd_inv (?m\<lparr>m_ready := t # m_ready m\<rparr>)"
    using assms(2) detached_notin[OF assms(1)] by (simp add: fd_inv_def waits_upd)
  moreover have "upd_thr t (\<lambda>c. c\<lparr>ttype := CL_THREAD_READY\<rparr>) (m\<lparr>m_ready := t # m_ready m\<rparr>) = ?m\<lparr>m_ready := t # m_ready m\<rparr>"
    by simp
  ultimately show ?thesis unfolding master_inv_def by metis
qed

text \<open>The tasks of \<open>m\<close> and \<open>m'\<close> are the same up to their types.\<close>

definition same_tasks :: "master \<Rightarrow> master \<Rightarrow> bool" where
  "same_tasks m m' \<longleftrightarrow> (\<forall>t. map_option (\<lambda>c. (func c, arg c, uni c)) (thr m' t) = map_option (\<lambda>c. (func c, arg c, uni c)) (thr m t))"

lemma same_tasks_refl [simp]: "same_tasks m m"
  by (simp add: same_tasks_def)

lemma same_tasks_trans [trans]: "same_tasks m1 m2 \<Longrightarrow> same_tasks m2 m3 \<Longrightarrow> same_tasks m1 m3"
  by (simp add: same_tasks_def)

lemma same_tasks_fd: "same_tasks m m' \<Longrightarrow> thr m t \<noteq> None \<Longrightarrow> fd_of m' t = fd_of m t"
  unfolding same_tasks_def by (drule spec[of _ t]) (cases "thr m' t"; auto)

lemma ready_read_ok:
  assumes "master_inv m" "t \<in> set (m_read m)"
  shows "\<exists>m' k. ready_read fds t (m, n) = Some (m', n + k) \<and> master_inv m' \<and> same_tasks m m' \<and>
    m_read m' = (if fd_of m t \<in> fds then remove1 t (m_read m) else m_read m) \<and>
    m_ready m' = (if fd_of m t \<in> fds then t # m_ready m else m_ready m) \<and> m_write m' = m_write m \<and> m_unuse m' = m_unuse m \<and>
    m_event m' = m_event m \<and> concat (map th_head (m_timer m')) = concat (map th_head (m_timer m))"
proof -
  have "task_inv {} m" using assms(1) by (simp add: master_inv_def)
  then obtain c where c: "thr m t = Some c" using assms(2) linked_thr[of m t] by (auto simp: linked_def)
  show ?thesis
  proof (rule unlink_read[OF assms c])
    fix m1
    assume m1: "unlink t (m\<lparr>readfd := readfd m - {uni c}\<rparr>) = Some m1" "task_inv {t} m1" "fd_inv m1"
      "uni c \<in> readfd m" "fd_ok (uni c)" "thr m1 = thr m" "m_read m1 = remove1 t (m_read m)"
      "m_write m1 = m_write m" "concat (map th_head (m_timer m1)) = concat (map th_head (m_timer m))"
      "m_event m1 = m_event m" "m_ready m1 = m_ready m" "m_unuse m1 = m_unuse m"
    show ?thesis
    proof (cases "uni c \<in> fds")
      case True
      have "master_inv (upd_thr t (\<lambda>c. c\<lparr>ttype := CL_THREAD_READY\<rparr>) (m1\<lparr>m_ready := t # m_ready m1\<rparr>))"
        by (rule make_ready) (use m1 c in simp_all)
      then show ?thesis using True m1 c
        by (intro exI[of _ "upd_thr t (\<lambda>c. c\<lparr>ttype := CL_THREAD_READY\<rparr>) (m1\<lparr>m_ready := t # m_ready m1\<rparr>)"] exI[of _ 1])
          (simp add: ready_read_def same_tasks_def)
    next
      case False
      then show ?thesis using assms(1) m1(5) c by (intro exI[of _ m] exI[of _ 0]) (simp add: ready_read_def)
    qed
  qed
qed

lemma process_read_loop:
  assumes "master_inv m" "distinct ts" "set ts \<subseteq> set (m_read m)"
  shows "\<exists>m' k. foldM (ready_read fds) ts (m, n) = Some (m', k) \<and> master_inv m' \<and> same_tasks m m' \<and>
    set (m_read m') = set (m_read m) - {t \<in> set ts. fd_of m t \<in> fds} \<and>
    m_ready m' = rev (filter (\<lambda>t. fd_of m t \<in> fds) ts) @ m_ready m \<and> m_write m' = m_write m \<and> m_unuse m' = m_unuse m \<and>
    m_event m' = m_event m \<and> concat (map th_head (m_timer m')) = concat (map th_head (m_timer m))"
  using assms
proof (induction ts arbitrary: m n)
  case Nil
  then show ?case by simp
next
  case (Cons t ts)
  obtain m1 k1 where 1: "ready_read fds t (m, n) = Some (m1, n + k1)" "master_inv m1" "same_tasks m m1"
    "m_read m1 = (if fd_of m t \<in> fds then remove1 t (m_read m) else m_read m)"
    "m_ready m1 = (if fd_of m t \<in> fds then t # m_ready m else m_ready m)" "m_write m1 = m_write m" "m_unuse m1 = m_unuse m"
    "m_event m1 = m_event m" "concat (map th_head (m_timer m1)) = concat (map th_head (m_timer m))"
    using ready_read_ok[of m t fds n] Cons.prems by auto
  have d: "distinct (m_read m)" using Cons.prems(1) by (simp add: master_inv_def task_inv_def linked_def)
  have fd: "fd_of m1 u = fd_of m u" if "u \<in> set ts" for u
  proof (rule same_tasks_fd[OF 1(3)])
    have "u \<in> set (linked m)" using Cons.prems(3) that by (auto simp: linked_def)
    then show "thr m u \<noteq> None" using linked_thr[of m u] Cons.prems(1) by (auto simp: master_inv_def)
  qed
  have "set ts \<subseteq> set (m_read m1)" using Cons.prems(2,3) d 1(4) by auto
  from Cons.IH[OF 1(2) _ this, of "n + k1"] obtain m' k where 2:
    "foldM (ready_read fds) ts (m1, n + k1) = Some (m', k)" "master_inv m'" "same_tasks m1 m'"
    "set (m_read m') = set (m_read m1) - {t \<in> set ts. fd_of m1 t \<in> fds}"
    "m_ready m' = rev (filter (\<lambda>t. fd_of m1 t \<in> fds) ts) @ m_ready m1" "m_write m' = m_write m1" "m_unuse m' = m_unuse m1"
    "m_event m' = m_event m1" "concat (map th_head (m_timer m')) = concat (map th_head (m_timer m1))"
    using Cons.prems(2) by auto
  have fl: "filter (\<lambda>t. fd_of m1 t \<in> fds) ts = filter (\<lambda>t. fd_of m t \<in> fds) ts"
    using fd by (intro filter_cong) auto
  have "set (m_read m') = set (m_read m) - {u \<in> set (t # ts). fd_of m u \<in> fds}"
    unfolding 2(4) using 1(4) d fd Cons.prems(2) by auto
  then show ?case
    using 1 2 fl by (intro exI[of _ m'] exI[of _ k]) (auto intro: same_tasks_trans)
qed

lemmas process_read = process_read_loop[of m "m_read m" _ 0 for m, folded cl_thread_process_read_def]


lemma ready_write_ok:
  assumes "master_inv m" "t \<in> set (m_write m)"
  shows "\<exists>m' k. ready_write fds t (m, n) = Some (m', n + k) \<and> master_inv m' \<and> same_tasks m m' \<and>
    m_write m' = (if fd_of m t \<in> fds then remove1 t (m_write m) else m_write m) \<and>
    m_ready m' = (if fd_of m t \<in> fds then t # m_ready m else m_ready m) \<and> m_read m' = m_read m \<and> m_unuse m' = m_unuse m \<and>
    m_event m' = m_event m \<and> concat (map th_head (m_timer m')) = concat (map th_head (m_timer m))"
proof -
  have "task_inv {} m" using assms(1) by (simp add: master_inv_def)
  then obtain c where c: "thr m t = Some c" using assms(2) linked_thr[of m t] by (auto simp: linked_def)
  show ?thesis
  proof (rule unlink_write[OF assms c])
    fix m1
    assume m1: "unlink t (m\<lparr>writefd := writefd m - {uni c}\<rparr>) = Some m1" "task_inv {t} m1" "fd_inv m1"
      "uni c \<in> writefd m" "fd_ok (uni c)" "thr m1 = thr m" "m_write m1 = remove1 t (m_write m)"
      "m_read m1 = m_read m" "concat (map th_head (m_timer m1)) = concat (map th_head (m_timer m))"
      "m_event m1 = m_event m" "m_ready m1 = m_ready m" "m_unuse m1 = m_unuse m"
    show ?thesis
    proof (cases "uni c \<in> fds")
      case True
      have "master_inv (upd_thr t (\<lambda>c. c\<lparr>ttype := CL_THREAD_READY\<rparr>) (m1\<lparr>m_ready := t # m_ready m1\<rparr>))"
        by (rule make_ready) (use m1 c in simp_all)
      then show ?thesis using True m1 c
        by (intro exI[of _ "upd_thr t (\<lambda>c. c\<lparr>ttype := CL_THREAD_READY\<rparr>) (m1\<lparr>m_ready := t # m_ready m1\<rparr>)"] exI[of _ 1])
          (simp add: ready_write_def same_tasks_def)
    next
      case False
      then show ?thesis using assms(1) m1(5) c by (intro exI[of _ m] exI[of _ 0]) (simp add: ready_write_def)
    qed
  qed
qed

lemma process_write_loop:
  assumes "master_inv m" "distinct ts" "set ts \<subseteq> set (m_write m)"
  shows "\<exists>m' k. foldM (ready_write fds) ts (m, n) = Some (m', k) \<and> master_inv m' \<and> same_tasks m m' \<and>
    set (m_write m') = set (m_write m) - {t \<in> set ts. fd_of m t \<in> fds} \<and>
    m_ready m' = rev (filter (\<lambda>t. fd_of m t \<in> fds) ts) @ m_ready m \<and> m_read m' = m_read m \<and> m_unuse m' = m_unuse m \<and>
    m_event m' = m_event m \<and> concat (map th_head (m_timer m')) = concat (map th_head (m_timer m))"
  using assms
proof (induction ts arbitrary: m n)
  case Nil
  then show ?case by simp
next
  case (Cons t ts)
  obtain m1 k1 where 1: "ready_write fds t (m, n) = Some (m1, n + k1)" "master_inv m1" "same_tasks m m1"
    "m_write m1 = (if fd_of m t \<in> fds then remove1 t (m_write m) else m_write m)"
    "m_ready m1 = (if fd_of m t \<in> fds then t # m_ready m else m_ready m)" "m_read m1 = m_read m" "m_unuse m1 = m_unuse m"
    "m_event m1 = m_event m" "concat (map th_head (m_timer m1)) = concat (map th_head (m_timer m))"
    using ready_write_ok[of m t fds n] Cons.prems by auto
  have d: "distinct (m_write m)" using Cons.prems(1) by (simp add: master_inv_def task_inv_def linked_def)
  have fd: "fd_of m1 u = fd_of m u" if "u \<in> set ts" for u
  proof (rule same_tasks_fd[OF 1(3)])
    have "u \<in> set (linked m)" using Cons.prems(3) that by (auto simp: linked_def)
    then show "thr m u \<noteq> None" using linked_thr[of m u] Cons.prems(1) by (auto simp: master_inv_def)
  qed
  have "set ts \<subseteq> set (m_write m1)" using Cons.prems(2,3) d 1(4) by auto
  from Cons.IH[OF 1(2) _ this, of "n + k1"] obtain m' k where 2:
    "foldM (ready_write fds) ts (m1, n + k1) = Some (m', k)" "master_inv m'" "same_tasks m1 m'"
    "set (m_write m') = set (m_write m1) - {t \<in> set ts. fd_of m1 t \<in> fds}"
    "m_ready m' = rev (filter (\<lambda>t. fd_of m1 t \<in> fds) ts) @ m_ready m1" "m_read m' = m_read m1" "m_unuse m' = m_unuse m1"
    "m_event m' = m_event m1" "concat (map th_head (m_timer m')) = concat (map th_head (m_timer m1))"
    using Cons.prems(2) by auto
  have fl: "filter (\<lambda>t. fd_of m1 t \<in> fds) ts = filter (\<lambda>t. fd_of m t \<in> fds) ts"
    using fd by (intro filter_cong) auto
  have "set (m_write m') = set (m_write m) - {u \<in> set (t # ts). fd_of m u \<in> fds}"
    unfolding 2(4) using 1(4) d fd Cons.prems(2) by auto
  then show ?case
    using 1 2 fl by (intro exI[of _ m'] exI[of _ k]) (auto intro: same_tasks_trans)
qed

lemmas process_write = process_write_loop[of m "m_write m" _ 0 for m, folded cl_thread_process_write_def]


text \<open>The task that a round of the loop has to fetch before it looks at the descriptors.\<close>

definition next_task :: "u32 \<Rightarrow> master \<Rightarrow> addr option" where
  "next_task now m =
     (case m_event m of
        t # _ \<Rightarrow> Some t
      | [] \<Rightarrow> (case filter (\<lambda>t. u32_is_bigger now (fd_of m t)) (concat (map (take 1 \<circ> th_head) (m_timer m))) of
                t # _ \<Rightarrow> Some t
              | [] \<Rightarrow> (case m_ready m of t # _ \<Rightarrow> Some t | [] \<Rightarrow> None)))"

lemma due_timer_eq:
  assumes "\<forall>t \<in> set (concat (map th_head tns)). \<exists>c. th t = Some c"
  shows "due_timer now th tns = Some (case filter (\<lambda>t. u32_is_bigger now (uni (the (th t)))) (concat (map (take 1 \<circ> th_head) tns)) of
    t # _ \<Rightarrow> Some t | [] \<Rightarrow> None)"
  using assms
proof (induction tns)
  case (Cons tn tns)
  then show ?case by (cases "th_head tn") auto
qed simp

lemma due_timer_mem:
  assumes "filter P (concat (map (take 1 \<circ> th_head) tns)) = t # ts"
  shows "t \<in> set (concat (map th_head tns))"
proof -
  have "t \<in> set (concat (map (take 1 \<circ> th_head) tns))"
    using assms by (metis filter_is_subset list.set_intros(1) subsetD)
  then show ?thesis by (auto dest: in_set_takeD)
qed


text \<open>The task that becomes ready last when descriptors are set: it is at the head of the ready list.\<close>

definition next_fd_task :: "u32 set \<Rightarrow> u32 set \<Rightarrow> master \<Rightarrow> addr option" where
  "next_fd_task rfd wfd m =
     (case rev (filter (\<lambda>t. fd_of m t \<in> wfd) (m_write m)) @ rev (filter (\<lambda>t. fd_of m t \<in> rfd) (m_read m)) of
        t # _ \<Rightarrow> Some t
      | [] \<Rightarrow> None)"

lemma run_event:
  assumes "master_inv m" "m_event m = t # ts"
  shows "\<exists>m' c. cl_thread_run t (m\<lparr>m_event := ts\<rparr>) = Some (c, m') \<and> thr m t = Some c \<and> master_inv m' \<and> m_unuse m' = t # m_unuse m"
proof -
  have ti: "task_inv {} m" and fi: "fd_inv m" using assms(1) by (simp_all add: master_inv_def)
  obtain c where c: "thr m t = Some c" using linked_thr[OF ti, of t] assms(2) by (auto simp: linked_def)
  have "task_inv {t} (m\<lparr>m_event := ts\<rparr>)" "fd_inv (m\<lparr>m_event := ts\<rparr>)"
    using pop_list(1)[OF ti assms(2)] fi by (simp_all add: fd_inv_def)
  from run_ok[OF this, of c] show ?thesis using c by auto
qed

lemma run_ready:
  assumes "master_inv m" "m_ready m = t # ts"
  shows "\<exists>m' c. cl_thread_run t (m\<lparr>m_ready := ts\<rparr>) = Some (c, m') \<and> thr m t = Some c \<and> ttype c = CL_THREAD_READY \<and>
    master_inv m' \<and> m_unuse m' = t # m_unuse m"
proof -
  have ti: "task_inv {} m" and fi: "fd_inv m" using assms(1) by (simp_all add: master_inv_def)
  obtain c where c: "thr m t = Some c" "ttype c = CL_THREAD_READY"
    using ti assms(2) by (auto simp: task_inv_def of_type_def)
  have "task_inv {t} (m\<lparr>m_ready := ts\<rparr>)" "fd_inv (m\<lparr>m_ready := ts\<rparr>)"
    using pop_list(2)[OF ti assms(2)] fi by (simp_all add: fd_inv_def)
  from run_ok[OF this, of c] show ?thesis using c by auto
qed

lemma same_tasks_ready:
  assumes "same_tasks m m'" "thr m' t = Some c" "ttype c = CL_THREAD_READY"
  shows "Some c = map_option (\<lambda>c. c\<lparr>ttype := CL_THREAD_READY\<rparr>) (thr m t)"
proof -
  have "map_option (\<lambda>c. (func c, arg c, uni c)) (thr m' t) = map_option (\<lambda>c. (func c, arg c, uni c)) (thr m t)"
    using assms(1) by (simp add: same_tasks_def)
  then obtain d where "thr m t = Some d" "func c = func d" "arg c = arg d" "uni c = uni d"
    using assms(2) by (cases "thr m t") auto
  then show ?thesis using assms(3) by simp
qed

lemma poll_ok:
  assumes inv: "master_inv m" and nr: "m_ready m = []" and sel: "snd e (readfd m) (writefd m) = (n, rfd, wfd)"
  shows "\<exists>r m'. poll_fds e m = Some (r, m') \<and> master_inv m' \<and>
    (if n \<le> 0 then r = None \<and> m' = m
     else case next_fd_task rfd wfd m of
            Some t \<Rightarrow> r = map_option (\<lambda>c. c\<lparr>ttype := CL_THREAD_READY\<rparr>) (thr m t) \<and> m_unuse m' = t # m_unuse m
          | None \<Rightarrow> r = None)"
proof (cases "n \<le> 0")
  case True
  then show ?thesis using inv by (simp add: poll_fds_def sel)
next
  case False
  have "distinct (m_read m)" using inv by (simp add: master_inv_def task_inv_def linked_def)
  from process_read[OF inv this subset_refl, of rfd] obtain m1 k1 where 1: "cl_thread_process_read rfd m = Some (m1, k1)"
    "master_inv m1" "same_tasks m m1" "m_ready m1 = rev (filter (\<lambda>t. fd_of m t \<in> rfd) (m_read m)) @ m_ready m"
    "m_write m1 = m_write m" "m_unuse m1 = m_unuse m" by blast
  have "distinct (m_write m1)" using 1(2) by (simp add: master_inv_def task_inv_def linked_def)
  from process_write[OF 1(2) this subset_refl, of wfd] obtain m2 k2 where 2: "cl_thread_process_write wfd m1 = Some (m2, k2)"
    "master_inv m2" "same_tasks m1 m2" "m_ready m2 = rev (filter (\<lambda>t. fd_of m1 t \<in> wfd) (m_write m1)) @ m_ready m1"
    "m_unuse m2 = m_unuse m1" by blast
  have "fd_of m1 t = fd_of m t" if "t \<in> set (m_write m)" for t
    using same_tasks_fd[OF 1(3)] linked_thr[of m t] inv that by (auto simp: master_inv_def linked_def)
  then have "filter (\<lambda>t. fd_of m1 t \<in> wfd) (m_write m) = filter (\<lambda>t. fd_of m t \<in> wfd) (m_write m)"
    by (intro filter_cong) auto
  then have rd: "next_fd_task rfd wfd m = (case m_ready m2 of t # _ \<Rightarrow> Some t | [] \<Rightarrow> None)"
    using 1(4,5) 2(4) nr by (simp add: next_fd_task_def)
  show ?thesis
  proof (cases "m_ready m2")
    case Nil
    then show ?thesis using False 1(1) 2(1,2) rd by (simp add: poll_fds_def sel cl_thread_trim_head_def)
  next
    case (Cons t ts)
    from run_ready[OF 2(2) this] obtain m' c where r: "cl_thread_run t (m2\<lparr>m_ready := ts\<rparr>) = Some (c, m')"
      "thr m2 t = Some c" "ttype c = CL_THREAD_READY" "master_inv m'" "m_unuse m' = t # m_unuse m2" by blast
    have "Some c = map_option (\<lambda>c. c\<lparr>ttype := CL_THREAD_READY\<rparr>) (thr m t)"
      by (rule same_tasks_ready[OF same_tasks_trans[OF 1(3) 2(3)] r(2,3)])
    then show ?thesis using False 1(1,6) 2(1,5) r rd Cons by (simp add: poll_fds_def sel cl_thread_trim_head_def)
  qed
qed

lemma timer_thr: "master_inv m \<Longrightarrow> \<forall>t \<in> set (concat (map th_head (m_timer m))). \<exists>c. thr m t = Some c"
  unfolding master_inv_def task_inv_def of_type_def by blast

lemma fetch_round_spec:
  assumes "master_inv m" "snd e (readfd m) (writefd m) = (n, rfd, wfd)"
  shows "\<exists>r m'. fetch_round e m = Some (r, m') \<and> master_inv m' \<and>
    (case next_task (fst e) m of
       Some t \<Rightarrow> r = thr m t \<and> r \<noteq> None \<and> m_unuse m' = t # m_unuse m
     | None \<Rightarrow>
         if n \<le> 0 then r = None \<and> m' = m
         else case next_fd_task rfd wfd m of
                Some t \<Rightarrow> r = map_option (\<lambda>c. c\<lparr>ttype := CL_THREAD_READY\<rparr>) (thr m t) \<and> m_unuse m' = t # m_unuse m
              | None \<Rightarrow> r = None)"
proof (cases "m_event m")
  case (Cons t ts)
  from run_event[OF assms(1) this] Cons show ?thesis
    by (auto simp: fetch_round_def next_task_def cl_thread_trim_head_def)
next
  case Nil
  let ?due = "filter (\<lambda>t. u32_is_bigger (fst e) (fd_of m t)) (concat (map (take 1 \<circ> th_head) (m_timer m)))"
  have due: "due_timer (fst e) (thr m) (m_timer m) = Some (case ?due of t # _ \<Rightarrow> Some t | [] \<Rightarrow> None)"
    by (rule due_timer_eq[OF timer_thr[OF assms(1)]])
  show ?thesis
  proof (cases ?due)
    case (Cons t ts)
    then have t: "t \<in> set (concat (map th_head (m_timer m)))" by (rule due_timer_mem)
    obtain c where c: "thr m t = Some c" using timer_thr[OF assms(1)] t by blast
    from t have "t \<in> set (concat (map th_head (m_timer m))) \<union> set (m_event m) \<union> set (m_ready m)" by blast
    then obtain m1 where m1: "unlink t m = Some m1" "task_inv {t} m1" "fd_inv m1" "thr m1 = thr m" "m_unuse m1 = m_unuse m"
      using unlink_other[OF assms(1)] by metis
    from run_ok[OF m1(2,3), of c] c m1 show ?thesis
      using Nil Cons due by (auto simp: fetch_round_def next_task_def cl_thread_trim_head_def)
  next
    case none: Nil
    show ?thesis
    proof (cases "m_ready m")
      case (Cons t ts)
      from run_ready[OF assms(1) this] show ?thesis
        using Nil none Cons due
        by (auto simp: fetch_round_def ready_or_poll_def next_task_def cl_thread_trim_head_def)
    next
      case Nil': Nil
      from poll_ok[OF assms(1) this assms(2)] show ?thesis
        using Nil none Nil' due by (simp add: fetch_round_def ready_or_poll_def next_task_def cl_thread_trim_head_def)
    qed
  qed
qed

text \<open>C10: A round of \<open>cl_thread_fetch\<close> on a well-formed master does not fault, keeps the master well formed and obeys the
  priorities: the first event, else the first task of a timer list that is due, else the first ready task, is
  fetched and retired; only when there is none are the descriptors polled, and then the last task that became ready, the
  writers after the readers, is fetched; without an answer of \<open>select\<close> nothing changes.
\<close>

theorem fetch_round_priority:
  assumes "master_inv m" "snd e (readfd m) (writefd m) = (n, rfd, wfd)"
  shows "\<exists>r m'. fetch_round e m = Some (r, m') \<and> master_inv m' \<and>
    (case next_task (fst e) m of
       Some t \<Rightarrow> r = thr m t \<and> r \<noteq> None \<and> m_unuse m' = t # m_unuse m
     | None \<Rightarrow>
         if n \<le> 0 then r = None \<and> m' = m
         else case next_fd_task rfd wfd m of
                Some t \<Rightarrow> r = map_option (\<lambda>c. c\<lparr>ttype := CL_THREAD_READY\<rparr>) (thr m t) \<and> m_unuse m' = t # m_unuse m
              | None \<Rightarrow> r = None)"
  by (rule fetch_round_spec[OF assms])

text \<open>A master with a task that reads from descriptor 5, one that waits for 10 ms and an event.\<close>

definition example_master :: master where
  "example_master = \<lparr>m_read = [100], m_write = [], m_timer = [\<lparr>th_head = [200], interval = 10, tcount = 0\<rparr>], m_event = [300],
     m_ready = [], m_unuse = [], readfd = {5}, writefd = {}, max_fd = 5, locked = False,
     thr = [100 \<mapsto> \<lparr>ttype = CL_THREAD_READ, func = 1, arg = 0, uni = 5\<rparr>,
            200 \<mapsto> \<lparr>ttype = CL_THREAD_TIMER, func = 2, arg = 0, uni = 1010\<rparr>,
            300 \<mapsto> \<lparr>ttype = CL_THREAD_EVENT, func = 3, arg = 0, uni = 7\<rparr>]\<rparr>"

lemma example_master_inv: "master_inv example_master"
  by (auto simp: master_inv_def task_inv_def fd_inv_def waits_def of_type_def linked_def example_master_def fd_ok_def)

theorem fetch_round_priority_witness:
  "\<exists>r m'. fetch_round (1000, \<lambda>r w. (0, {}, {})) example_master = Some (r, m') \<and> master_inv m' \<and>
    (case next_task 1000 example_master of
       Some t \<Rightarrow> r = thr example_master t \<and> r \<noteq> None \<and> m_unuse m' = t # m_unuse example_master
     | None \<Rightarrow>
         if (0 :: int) \<le> 0 then r = None \<and> m' = example_master
         else case next_fd_task {} {} example_master of
                Some t \<Rightarrow> r = map_option (\<lambda>c. c\<lparr>ttype := CL_THREAD_READY\<rparr>) (thr example_master t) \<and>
                  m_unuse m' = t # m_unuse example_master
              | None \<Rightarrow> r = None)"
  using fetch_round_priority[OF example_master_inv, of "(1000, \<lambda>r w. (0, {}, {}))" 0 "{}" "{}"] by simp

lemma fetch_ok: "master_inv m \<Longrightarrow> \<exists>r m'. cl_thread_fetch es m = Some (r, m') \<and> master_inv m'"
proof (induction es arbitrary: m)
  case (Cons e es)
  obtain n rfd wfd where "snd e (readfd m) (writefd m) = (n, rfd, wfd)" by (metis prod_cases3)
  from fetch_round_spec[OF Cons.prems this] obtain r m' where r: "fetch_round e m = Some (r, m')" "master_inv m'" by blast
  show ?case
  proof (cases r)
    case None
    then show ?thesis using r Cons.IH[OF r(2)] by simp
  qed (use r in simp)
qed simp

text \<open>The states that the operations of the event loop reach, with every task that is cancelled being scheduled.\<close>

inductive cl_reachable :: "master \<Rightarrow> bool" where
  init: "cl_reachable cl_thread_init"
| read: "cl_reachable m \<Longrightarrow> calloc_ok new m \<Longrightarrow> cl_thread_add_read new f a sock m = Some (r, m') \<Longrightarrow> cl_reachable m'"
| wr: "cl_reachable m \<Longrightarrow> calloc_ok new m \<Longrightarrow> cl_thread_add_write new f a sock m = Some (r, m') \<Longrightarrow> cl_reachable m'"
| timer: "cl_reachable m \<Longrightarrow> calloc_ok new m \<Longrightarrow> cl_thread_add_timer new ok now f a tm m = Some (t, m') \<Longrightarrow> cl_reachable m'"
| event: "cl_reachable m \<Longrightarrow> calloc_ok new m \<Longrightarrow> cl_thread_add_event new f a v m = Some (t, m') \<Longrightarrow> cl_reachable m'"
| cancel: "cl_reachable m \<Longrightarrow> t \<in> set (linked m) - set (m_unuse m) \<Longrightarrow> cl_thread_cancel t m = Some m' \<Longrightarrow> cl_reachable m'"
| fetch: "cl_reachable m \<Longrightarrow> cl_thread_fetch es m = Some (r, m') \<Longrightarrow> cl_reachable m'"

lemma add_read_cases:
  assumes "master_inv m" "calloc_ok new m" "cl_thread_add_read new f a sock m = Some (r, m')"
  shows "master_inv m'"
proof (cases "fd_ok sock \<and> sock \<notin> readfd m")
  case True
  then show ?thesis using add_read_inv[OF assms(1,2), of sock f a] assms(3) by auto
next
  case False
  then show ?thesis using assms(1,3) by (auto simp: cl_thread_add_read_def split: if_splits)
qed

lemma add_write_cases:
  assumes "master_inv m" "calloc_ok new m" "cl_thread_add_write new f a sock m = Some (r, m')"
  shows "master_inv m'"
proof (cases "fd_ok sock \<and> sock \<notin> writefd m")
  case True
  then show ?thesis using add_write_inv[OF assms(1,2), of sock f a] assms(3) by auto
next
  case False
  then show ?thesis using assms(1,3) by (auto simp: cl_thread_add_write_def split: if_splits)
qed

lemma add_timer_cases:
  assumes "master_inv m" "calloc_ok new m" "cl_thread_add_timer new ok now f a tm m = Some (t, m')"
  shows "master_inv m'"
proof -
  have "task_inv {} m" using assms(1) by (simp add: master_inv_def)
  then obtain u m1 where g: "cl_thread_get new CL_THREAD_TIMER f a m = Some (u, m1)" "m_timer m1 = m_timer m"
    using get_ok[OF _ assms(2), of CL_THREAD_TIMER f a] by metis
  have "ok \<or> (\<exists>tn \<in> set (m_timer m). interval tn = tm)"
    using assms(3) g by (auto simp: cl_thread_add_timer_def Let_def split: if_splits)
  from add_timer_inv[OF assms(1,2) this, of now f a] show ?thesis using assms(3) by auto
qed

lemma reachable_master_inv: "cl_reachable m \<Longrightarrow> master_inv m"
proof (induction rule: cl_reachable.induct)
  case init
  then show ?case
    by (simp add: cl_thread_init_def master_inv_def task_inv_def fd_inv_def waits_def of_type_def linked_def)
next
  case (event m new f a v t m')
  then show ?case using add_event_inv[of m new f a v] by auto
next
  case (cancel m t m')
  then show ?case using cancel_ok[of m t] by auto
next
  case (fetch m es r m')
  then show ?case using fetch_ok[of m es] by auto
qed (blast intro: add_read_cases add_write_cases add_timer_cases)+


text \<open>C15: In every state that the operations reach, each task is in exactly one list and no task is lost, the descriptor
  sets are exactly the descriptors that the tasks in the read and write lists wait for and do not exceed \<open>max_fd\<close>; no
  cancellation of a scheduled task and no fetch faults, so no assertion fails.\<close>

theorem cl_master_consistent:
  assumes "cl_reachable m"
  shows "distinct (linked m) \<and> dom (thr m) = set (linked m) \<and>
    readfd m = fd_of m ` set (m_read m) \<and> writefd m = fd_of m ` set (m_write m) \<and>
    (\<forall>fd \<in> readfd m \<union> writefd m. sint fd \<le> sint (max_fd m)) \<and>
    (\<forall>t \<in> set (linked m) - set (m_unuse m). cl_thread_cancel t m \<noteq> None) \<and> (\<forall>es. cl_thread_fetch es m \<noteq> None)"
proof -
  have inv: "master_inv m" by (rule reachable_master_inv[OF assms])
  have "cl_thread_cancel t m \<noteq> None" if "t \<in> set (linked m) - set (m_unuse m)" for t
    using cancel_ok[OF inv, of t] that by auto
  moreover have "cl_thread_fetch es m \<noteq> None" for es using fetch_ok[OF inv, of es] by auto
  ultimately show ?thesis using inv by (auto simp: master_inv_def task_inv_def fd_inv_def waits_def)
qed

theorem cl_master_consistent_witness:
  "\<exists>t m. cl_thread_add_event 64 3 0 7 cl_thread_init = Some (t, m) \<and> distinct (linked m) \<and> dom (thr m) = set (linked m) \<and>
    readfd m = fd_of m ` set (m_read m) \<and> writefd m = fd_of m ` set (m_write m) \<and>
    (\<forall>fd \<in> readfd m \<union> writefd m. sint fd \<le> sint (max_fd m)) \<and>
    (\<forall>t \<in> set (linked m) - set (m_unuse m). cl_thread_cancel t m \<noteq> None) \<and> (\<forall>es. cl_thread_fetch es m \<noteq> None)"
proof -
  obtain t m where m: "cl_thread_add_event 64 3 0 7 cl_thread_init = Some (t, m)"
    by (auto simp: cl_thread_add_event_def cl_thread_get_def cl_thread_trim_head_def cl_thread_init_def)
  have "calloc_ok 64 cl_thread_init" by (simp add: cl_thread_init_def)
  from cl_reachable.event[OF cl_reachable.init this m] have "cl_reachable m" .
  from cl_master_consistent[OF this] m show ?thesis by blast
qed

section \<open>Timers are served when they are due\<close>

text \<open>
  With the time of the clock before it is cut to 32 bits, \<open>C\<close>, and the true time \<open>\<tau> t\<close> at which a task is due: within a
  list of one interval the times are in order, so that it is enough to look at the first task of each list.
\<close>

definition node_ok :: "nat \<Rightarrow> (addr \<Rightarrow> nat) \<Rightarrow> master \<Rightarrow> time_node \<Rightarrow> bool" where
  "node_ok C \<tau> m tn \<longleftrightarrow> sorted (map \<tau> (th_head tn)) \<and>
     (\<forall>t \<in> set (th_head tn). fd_of m t = word_of_nat (\<tau> t) \<and> \<tau> t \<le> C + unat (interval tn))"

definition clock_inv :: "nat \<Rightarrow> (addr \<Rightarrow> nat) \<Rightarrow> master \<Rightarrow> bool" where
  "clock_inv C \<tau> m \<longleftrightarrow> (\<forall>tn \<in> set (m_timer m). node_ok C \<tau> m tn)"

abbreviation timed_tasks :: "master \<Rightarrow> addr set" where
  "timed_tasks m \<equiv> set (concat (map th_head (m_timer m)))"

lemma sorted_remove1: "sorted (map \<tau> ts) \<Longrightarrow> sorted (map \<tau> (remove1 t ts))"
  by (induction ts) (auto dest: set_remove1_subset[THEN subsetD])

lemma clock_inv_same:
  assumes "clock_inv C \<tau> m" "m_timer m' = m_timer m" "\<forall>u \<in> timed_tasks m. fd_of m' u = fd_of m u"
  shows "clock_inv C \<tau> m'"
  using assms by (auto simp: clock_inv_def node_ok_def)

lemma clock_inv_unlink:
  assumes "clock_inv C \<tau> m" "unlink t m = Some m'"
  shows "clock_inv C \<tau> m'"
proof -
  have m': "m_timer m' = map (\<lambda>tn. tn\<lparr>th_head := remove1 t (th_head tn)\<rparr>) (m_timer m)" "thr m' = thr m"
    using assms(2) by (auto simp: unlink_def split: if_splits)
  show ?thesis using assms(1) unfolding clock_inv_def node_ok_def m'
    by (auto simp: sorted_remove1 dest: set_remove1_subset[THEN subsetD])
qed

lemma clock_inv_upd [simp]:
  "clock_inv C \<tau> (m\<lparr>readfd := r\<rparr>) = clock_inv C \<tau> m" "clock_inv C \<tau> (m\<lparr>writefd := r\<rparr>) = clock_inv C \<tau> m"
  "clock_inv C \<tau> (m\<lparr>m_unuse := ts\<rparr>) = clock_inv C \<tau> m" "clock_inv C \<tau> (m\<lparr>m_ready := ts\<rparr>) = clock_inv C \<tau> m"
  "clock_inv C \<tau> (m\<lparr>m_event := ts\<rparr>) = clock_inv C \<tau> m"
  by (simp_all add: clock_inv_def node_ok_def)

lemma clock_inv_type: "clock_inv C \<tau> m \<Longrightarrow> clock_inv C \<tau> (upd_thr t (\<lambda>c. c\<lparr>ttype := ty\<rparr>) m)"
  by (rule clock_inv_same[of C \<tau> m]) (cases "thr m t"; simp)+

lemma clock_inv_run: "clock_inv C \<tau> m \<Longrightarrow> cl_thread_run t m = Some (c, m') \<Longrightarrow> clock_inv C \<tau> m'"
  using clock_inv_type[of C \<tau> m t CL_THREAD_UNUSED] by (auto simp: cl_thread_run_def bind_eq_Some_iff)


lemma clock_inv_ready_read:
  assumes "clock_inv C \<tau> m" "ready_read fds t (m, n) = Some (m', k)"
  shows "clock_inv C \<tau> m'"
proof -
  obtain c where c: "thr m t = Some c" using assms(2) by (auto simp: ready_read_def bind_eq_Some_iff)
  show ?thesis
  proof (cases "uni c \<in> fds")
    case True
    then obtain m1 where u: "unlink t (m\<lparr>readfd := readfd m - {uni c}\<rparr>) = Some m1"
      and m': "m' = upd_thr t (\<lambda>c. c\<lparr>ttype := CL_THREAD_READY\<rparr>) (m1\<lparr>m_ready := t # m_ready m1\<rparr>)"
      using assms(2) c by (auto simp: ready_read_def bind_eq_Some_iff split: if_splits)
    have "clock_inv C \<tau> m1" by (rule clock_inv_unlink[OF _ u]) (simp add: assms(1))
    then show ?thesis unfolding m' by (intro clock_inv_type) simp
  next
    case False
    then show ?thesis using assms c by (auto simp: ready_read_def split: if_splits)
  qed
qed

lemma clock_inv_ready_write:
  assumes "clock_inv C \<tau> m" "ready_write fds t (m, n) = Some (m', k)"
  shows "clock_inv C \<tau> m'"
proof -
  obtain c where c: "thr m t = Some c" using assms(2) by (auto simp: ready_write_def bind_eq_Some_iff)
  show ?thesis
  proof (cases "uni c \<in> fds")
    case True
    then obtain m1 where u: "unlink t (m\<lparr>writefd := writefd m - {uni c}\<rparr>) = Some m1"
      and m': "m' = upd_thr t (\<lambda>c. c\<lparr>ttype := CL_THREAD_READY\<rparr>) (m1\<lparr>m_ready := t # m_ready m1\<rparr>)"
      using assms(2) c by (auto simp: ready_write_def bind_eq_Some_iff split: if_splits)
    have "clock_inv C \<tau> m1" by (rule clock_inv_unlink[OF _ u]) (simp add: assms(1))
    then show ?thesis unfolding m' by (intro clock_inv_type) simp
  next
    case False
    then show ?thesis using assms c by (auto simp: ready_write_def split: if_splits)
  qed
qed

lemma clock_inv_process:
  assumes "clock_inv C \<tau> m"
  shows "foldM (ready_read fds) ts (m, n) = Some (m', k) \<Longrightarrow> clock_inv C \<tau> m'"
    and "foldM (ready_write fds) ts (m, n) = Some (m', k) \<Longrightarrow> clock_inv C \<tau> m'"
proof -
  show "foldM (ready_read fds) ts (m, n) = Some (m', k) \<Longrightarrow> clock_inv C \<tau> m'"
    using assms
  proof (induction ts arbitrary: m n)
    case (Cons t ts)
    from Cons.prems(1) obtain m1 n1 where 1: "ready_read fds t (m, n) = Some (m1, n1)"
      "foldM (ready_read fds) ts (m1, n1) = Some (m', k)" by (auto simp: bind_eq_Some_iff)
    show ?case by (rule Cons.IH[OF 1(2) clock_inv_ready_read[OF Cons.prems(2) 1(1)]])
  qed simp
  show "foldM (ready_write fds) ts (m, n) = Some (m', k) \<Longrightarrow> clock_inv C \<tau> m'"
    using assms
  proof (induction ts arbitrary: m n)
    case (Cons t ts)
    from Cons.prems(1) obtain m1 n1 where 1: "ready_write fds t (m, n) = Some (m1, n1)"
      "foldM (ready_write fds) ts (m1, n1) = Some (m', k)" by (auto simp: bind_eq_Some_iff)
    show ?case by (rule Cons.IH[OF 1(2) clock_inv_ready_write[OF Cons.prems(2) 1(1)]])
  qed simp
qed

lemma clock_inv_run_list:
  assumes "clock_inv C \<tau> m"
  shows "cl_thread_run t (m\<lparr>m_ready := ts\<rparr>) = Some (c, m') \<Longrightarrow> clock_inv C \<tau> m'"
    and "cl_thread_run t (m\<lparr>m_event := ts\<rparr>) = Some (c, m') \<Longrightarrow> clock_inv C \<tau> m'"
  using clock_inv_run[of C \<tau> "m\<lparr>m_ready := ts\<rparr>" t c m'] clock_inv_run[of C \<tau> "m\<lparr>m_event := ts\<rparr>" t c m'] assms
  by simp_all

lemma clock_inv_poll:
  assumes "clock_inv C \<tau> m" "poll_fds e m = Some (r, m')"
  shows "clock_inv C \<tau> m'"
proof -
  obtain n rfd wfd where sel: "snd e (readfd m) (writefd m) = (n, rfd, wfd)" by (metis prod_cases3)
  show ?thesis
  proof (cases "n \<le> 0")
    case True
    then show ?thesis using assms by (simp add: poll_fds_def sel)
  next
    case False
    obtain m1 k1 m2 k2 where p: "cl_thread_process_read rfd m = Some (m1, k1)" "cl_thread_process_write wfd m1 = Some (m2, k2)"
      and r: "(case cl_thread_trim_head (m_ready m2) of
         (Some t, ts) \<Rightarrow> map_option (apfst Some) (cl_thread_run t (m2\<lparr>m_ready := ts\<rparr>)) | (None, _) \<Rightarrow> Some (None, m2)) = Some (r, m')"
      using assms(2) False by (auto simp: poll_fds_def sel bind_eq_Some_iff)
    have "clock_inv C \<tau> m2"
      using clock_inv_process(2)[OF clock_inv_process(1)[OF assms(1)]] p
      unfolding cl_thread_process_read_def cl_thread_process_write_def by blast
    then show ?thesis
      using r by (auto simp: cl_thread_trim_head_def split: list.splits intro: clock_inv_run_list)
  qed
qed

lemma clock_inv_fetch_round:
  assumes "clock_inv C \<tau> m" "fetch_round e m = Some (r, m')"
  shows "clock_inv C \<tau> m'"
proof (cases "m_event m")
  case (Cons t ts)
  then show ?thesis using assms by (auto simp: fetch_round_def cl_thread_trim_head_def intro: clock_inv_run_list)
next
  case Nil
  then obtain d where d: "(case d of
            Some t \<Rightarrow> Option.bind (unlink t m) (\<lambda>m. map_option (apfst Some) (cl_thread_run t m))
          | None \<Rightarrow> ready_or_poll e m) = Some (r, m')"
    using assms(2) by (auto simp: fetch_round_def cl_thread_trim_head_def bind_eq_Some_iff)
  show ?thesis
  proof (cases d)
    case None
    then show ?thesis
      using d assms(1)
      by (auto simp: ready_or_poll_def cl_thread_trim_head_def split: list.splits intro: clock_inv_run_list clock_inv_poll)
  next
    case (Some t)
    then obtain m1 c where "unlink t m = Some m1" "cl_thread_run t m1 = Some (c, m')"
      using d by (auto simp: bind_eq_Some_iff)
    then show ?thesis using clock_inv_unlink[OF assms(1)] clock_inv_run by blast
  qed
qed

lemma clock_inv_fetch: "clock_inv C \<tau> m \<Longrightarrow> cl_thread_fetch es m = Some (r, m') \<Longrightarrow> clock_inv C \<tau> m'"
proof (induction es arbitrary: m)
  case (Cons e es)
  from Cons.prems(2) obtain r1 m1 where 1: "fetch_round e m = Some (r1, m1)"
    "(case r1 of Some c \<Rightarrow> Some (Some c, m1) | None \<Rightarrow> cl_thread_fetch es m1) = Some (r, m')"
    by (auto simp: bind_eq_Some_iff)
  from clock_inv_fetch_round[OF Cons.prems(1) 1(1)] 1(2) Cons.IH show ?case by (auto split: option.splits)
qed simp


lemma clock_inv_cancel:
  assumes "clock_inv C \<tau> m" "cl_thread_cancel t m = Some m'"
  shows "clock_inv C \<tau> m'"
proof -
  obtain m0 m1 where u: "unlink t m0 = Some m1" "clock_inv C \<tau> m0"
    and m': "m' = (upd_thr t (\<lambda>c. c\<lparr>ttype := CL_THREAD_UNUSED\<rparr>) m1)\<lparr>m_unuse := t # m_unuse m1\<rparr>"
    using assms by (auto simp: cl_thread_cancel_def bind_eq_Some_iff split: if_splits)
  have "clock_inv C \<tau> (upd_thr t (\<lambda>c. c\<lparr>ttype := CL_THREAD_UNUSED\<rparr>) m1)"
    by (rule clock_inv_type[OF clock_inv_unlink[OF u(2,1)]])
  then show ?thesis unfolding m' by simp
qed

text \<open>A new task that is not in a timer list does not matter.\<close>

lemma clock_inv_new:
  assumes "clock_inv C \<tau> m" "m_timer m' = m_timer m" "\<forall>u. u \<noteq> t \<longrightarrow> thr m' u = thr m u" "t \<notin> timed_tasks m"
  shows "clock_inv C \<tau> m'"
proof (rule clock_inv_same[OF assms(1,2)])
  show "\<forall>u \<in> timed_tasks m. fd_of m' u = fd_of m u" using assms(3,4) by metis
qed

lemma get_frame:
  assumes "master_inv m" "calloc_ok new m" "cl_thread_get new ty f a m = Some (t, m')"
  shows "m_timer m' = m_timer m" "\<forall>u. u \<noteq> t \<longrightarrow> thr m' u = thr m u" "t \<notin> timed_tasks m"
proof -
  have ti: "task_inv {} m" using assms(1) by (simp add: master_inv_def)
  obtain t1 m1 c where g: "cl_thread_get new ty f a m = Some (t1, m1)" "task_inv {t1} m1" "thr m1 = (thr m)(t1 \<mapsto> c)"
    "m_timer m1 = m_timer m"
    using get_ok[OF ti assms(2), of ty f a] by metis
  have "t1 = t" "m1 = m'" using g(1) assms(3) by simp_all
  then show "m_timer m' = m_timer m" "\<forall>u. u \<noteq> t \<longrightarrow> thr m' u = thr m u" "t \<notin> timed_tasks m"
    using g by (auto simp: task_inv_def linked_def)
qed

lemma clock_inv_add:
  assumes "master_inv m" "calloc_ok new m" "clock_inv C \<tau> m"
  shows "cl_thread_add_read new f a sock m = Some (r, m') \<Longrightarrow> clock_inv C \<tau> m'"
    and "cl_thread_add_write new f a sock m = Some (r, m') \<Longrightarrow> clock_inv C \<tau> m'"
    and "cl_thread_add_event new f a v m = Some (t, m') \<Longrightarrow> clock_inv C \<tau> m'"
proof -
  show "clock_inv C \<tau> m'" if add: "cl_thread_add_read new f a sock m = Some (r, m')"
  proof (cases "sock \<in> readfd m")
    case True
    then show ?thesis using add assms(3) by (auto simp: cl_thread_add_read_def split: if_splits)
  next
    case False
    then obtain t m1 where g: "cl_thread_get new CL_THREAD_READ f a m = Some (t, m1)"
      and m': "m_timer m' = m_timer m1" "\<forall>u. u \<noteq> t \<longrightarrow> thr m' u = thr m1 u"
      using add by (auto simp: cl_thread_add_read_def bind_eq_Some_iff Let_def split: if_splits)
    show ?thesis by (rule clock_inv_new[OF assms(3), of m' t]) (use m' get_frame[OF assms(1,2) g] in simp_all)
  qed
  show "clock_inv C \<tau> m'" if add: "cl_thread_add_write new f a sock m = Some (r, m')"
  proof (cases "sock \<in> writefd m")
    case True
    then show ?thesis using add assms(3) by (auto simp: cl_thread_add_write_def split: if_splits)
  next
    case False
    then obtain t m1 where g: "cl_thread_get new CL_THREAD_WRITE f a m = Some (t, m1)"
      and m': "m_timer m' = m_timer m1" "\<forall>u. u \<noteq> t \<longrightarrow> thr m' u = thr m1 u"
      using add by (auto simp: cl_thread_add_write_def bind_eq_Some_iff Let_def split: if_splits)
    show ?thesis by (rule clock_inv_new[OF assms(3), of m' t]) (use m' get_frame[OF assms(1,2) g] in simp_all)
  qed
  show "clock_inv C \<tau> m'" if add: "cl_thread_add_event new f a v m = Some (t, m')"
  proof -
    obtain m1 where g: "cl_thread_get new CL_THREAD_EVENT f a m = Some (t, m1)"
      and m': "m_timer m' = m_timer m1" "\<forall>u. u \<noteq> t \<longrightarrow> thr m' u = thr m1 u"
      using add by (auto simp: cl_thread_add_event_def bind_eq_Some_iff Let_def split: if_splits)
    show ?thesis by (rule clock_inv_new[OF assms(3), of m' t]) (use m' get_frame[OF assms(1,2) g] in simp_all)
  qed
qed


lemma clock_inv_add_timer:
  assumes inv: "master_inv m" and new: "calloc_ok new m" and ci: "clock_inv C \<tau> m"
    and add: "cl_thread_add_timer new ok (word_of_nat C) f a tm m = Some (t, m')"
  shows "clock_inv C (\<tau>(t := C + unat tm)) m'"
proof -
  have "task_inv {} m" using inv by (simp add: master_inv_def)
  then obtain u m1 where g: "cl_thread_get new CL_THREAD_TIMER f a m = Some (u, m1)" "m_timer m1 = m_timer m"
    using get_ok[OF _ new, of CL_THREAD_TIMER f a] by metis
  have "ok \<or> (\<exists>tn \<in> set (m_timer m). interval tn = tm)"
    using add g by (auto simp: cl_thread_add_timer_def Let_def split: if_splits)
  from add_timer_inv[OF inv new this, of "word_of_nat C" f a] add
  have m': "thr m' = (thr m)(t \<mapsto> \<lparr>ttype = CL_THREAD_TIMER, func = f, arg = a, uni = word_of_nat C + tm\<rparr>)"
    and nt: "t \<notin> set (linked m) - set (m_unuse m)"
    and tm: "m_timer m' = (if \<exists>tn \<in> set (m_timer m). interval tn = tm
        then upd_first (\<lambda>tn. interval tn = tm) (\<lambda>tn. tn\<lparr>th_head := th_head tn @ [t]\<rparr>) (m_timer m)
        else m_timer m @ [\<lparr>th_head = [t], interval = tm, tcount = 0\<rparr>])" by auto
  have t: "t \<notin> set (th_head tn)" if "tn \<in> set (m_timer m)" for tn
    using nt inv that by (auto simp: master_inv_def task_inv_def linked_def)
  let ?\<tau> = "\<tau>(t := C + unat tm)"
  have old: "node_ok C ?\<tau> m' tn" if "tn \<in> set (m_timer m)" for tn
  proof -
    have "map ?\<tau> (th_head tn) = map \<tau> (th_head tn)" using t[OF that] by (auto intro: map_cong)
    then show ?thesis using ci that t[OF that] by (auto simp: clock_inv_def node_ok_def m')
  qed
  have fd: "fd_of m' t = word_of_nat (?\<tau> t)" by (simp add: m')
  have app: "node_ok C ?\<tau> m' (tn\<lparr>th_head := th_head tn @ [t]\<rparr>)" if "tn \<in> set (m_timer m)" "interval tn = tm" for tn
  proof -
    have "\<forall>u \<in> set (th_head tn). \<tau> u \<le> C + unat tm" using ci that by (auto simp: clock_inv_def node_ok_def)
    then show ?thesis using old[OF that(1)] that fd t[OF that(1)] by (auto simp: node_ok_def sorted_append)
  qed
  have single: "node_ok C ?\<tau> m' \<lparr>th_head = [t], interval = tm, tcount = 0\<rparr>" using fd by (simp add: node_ok_def)
  have "tn' \<in> set (m_timer m) \<or> (\<exists>tn \<in> set (m_timer m). interval tn = tm \<and> tn' = tn\<lparr>th_head := th_head tn @ [t]\<rparr>) \<or>
      tn' = \<lparr>th_head = [t], interval = tm, tcount = 0\<rparr>" if "tn' \<in> set (m_timer m')" for tn'
    using that set_upd_first[of tn' "\<lambda>tn. interval tn = tm" "\<lambda>tn. tn\<lparr>th_head := th_head tn @ [t]\<rparr>" "m_timer m"]
    by (auto simp: tm split: if_splits)
  then show ?thesis
    unfolding clock_inv_def using old app single by metis
qed

text \<open>The reachable states with the true times; the clock only moves forward.\<close>

inductive cl_timed :: "nat \<Rightarrow> (addr \<Rightarrow> nat) \<Rightarrow> master \<Rightarrow> bool" where
  init: "cl_timed C \<tau> cl_thread_init"
| tick: "cl_timed C \<tau> m \<Longrightarrow> C \<le> C' \<Longrightarrow> cl_timed C' \<tau> m"
| read: "cl_timed C \<tau> m \<Longrightarrow> calloc_ok new m \<Longrightarrow> cl_thread_add_read new f a sock m = Some (r, m') \<Longrightarrow> cl_timed C \<tau> m'"
| wr: "cl_timed C \<tau> m \<Longrightarrow> calloc_ok new m \<Longrightarrow> cl_thread_add_write new f a sock m = Some (r, m') \<Longrightarrow> cl_timed C \<tau> m'"
| timer: "cl_timed C \<tau> m \<Longrightarrow> calloc_ok new m \<Longrightarrow>
    cl_thread_add_timer new ok (word_of_nat C) f a tm m = Some (t, m') \<Longrightarrow> cl_timed C (\<tau>(t := C + unat tm)) m'"
| event: "cl_timed C \<tau> m \<Longrightarrow> calloc_ok new m \<Longrightarrow> cl_thread_add_event new f a v m = Some (t, m') \<Longrightarrow> cl_timed C \<tau> m'"
| cancel: "cl_timed C \<tau> m \<Longrightarrow> t \<in> set (linked m) - set (m_unuse m) \<Longrightarrow> cl_thread_cancel t m = Some m' \<Longrightarrow> cl_timed C \<tau> m'"
| fetch: "cl_timed C \<tau> m \<Longrightarrow> cl_thread_fetch es m = Some (r, m') \<Longrightarrow> cl_timed C \<tau> m'"

lemma timed_reachable: "cl_timed C \<tau> m \<Longrightarrow> cl_reachable m"
  by (induction rule: cl_timed.induct) (blast intro: cl_reachable.intros)+

lemma timed_clock_inv: "cl_timed C \<tau> m \<Longrightarrow> clock_inv C \<tau> m"
proof (induction rule: cl_timed.induct)
  case (init C \<tau>)
  then show ?case by (simp add: clock_inv_def cl_thread_init_def)
next
  case (tick C \<tau> m C')
  then show ?case unfolding clock_inv_def node_ok_def by (meson add_le_mono1 order_trans)
qed (blast intro: clock_inv_add clock_inv_add_timer clock_inv_cancel clock_inv_fetch reachable_master_inv timed_reachable)+

lemma u32_is_bigger_iff:
  assumes "C < T + 0x7FFFFFFF" "T \<le> C + 0x80000000"
  shows "u32_is_bigger (word_of_nat C) (word_of_nat T) \<longleftrightarrow> T < C"
proof -
  consider d where "C = T + d" "0 < d" | "C = T" | d where "T = C + d" "0 < d"
    by (metis less_imp_add_positive linorder_cases)
  then show ?thesis
  proof cases
    case (1 d)
    then have d: "unat (word_of_nat d :: u32) = d" using assms by (simp add: unat_of_nat take_bit_nat_eq_self)
    then have "(word_of_nat d :: u32) \<noteq> 0" using 1(2) by auto
    then show ?thesis using 1 d assms by (simp add: u32_is_bigger_def word_less_nat_alt)
  next
    case (3 d)
    then have d: "unat (word_of_nat d :: u32) = d" using assms by (simp add: unat_of_nat take_bit_nat_eq_self)
    have "unat (0 - word_of_nat d :: u32) = 2 ^ 32 - d" using d 3(2) by (simp only: unat_sub_if_size) (simp add: word_size)
    then have "\<not> (- word_of_nat d :: u32) < 0x7FFFFFFF" using 3 assms by (simp add: word_less_nat_alt)
    then show ?thesis using 3 by (simp add: u32_is_bigger_def)
  qed (simp add: u32_is_bigger_def)
qed


lemma next_timer:
  assumes inv: "master_inv m" and ci: "clock_inv C \<tau> m" and ev: "m_event m = []"
    and near: "\<forall>t \<in> timed_tasks m. C < \<tau> t + 0x7FFFFFFF \<and> \<tau> t \<le> C + 0x80000000"
  shows "(\<exists>t \<in> timed_tasks m. \<tau> t < C) \<longleftrightarrow> (\<exists>t \<in> timed_tasks m. \<tau> t < C \<and> next_task (word_of_nat C) m = Some t)"
    and "(\<forall>t \<in> timed_tasks m. C \<le> \<tau> t) \<Longrightarrow> next_task (word_of_nat C) m \<notin> Some ` timed_tasks m"
proof -
  let ?heads = "concat (map (take 1 \<circ> th_head) (m_timer m))"
  let ?due = "filter (\<lambda>t. u32_is_bigger (word_of_nat C) (fd_of m t)) ?heads"
  have due: "u32_is_bigger (word_of_nat C) (fd_of m t) \<longleftrightarrow> \<tau> t < C" if "t \<in> timed_tasks m" for t
  proof -
    have "fd_of m t = word_of_nat (\<tau> t)" using ci that by (auto simp: clock_inv_def node_ok_def)
    then show ?thesis using u32_is_bigger_iff[of C "\<tau> t"] bspec[OF near that] by simp
  qed
  have heads: "set ?heads \<subseteq> timed_tasks m" by (auto dest: in_set_takeD)
  have first: "\<exists>h \<in> set ?heads. \<tau> h \<le> \<tau> t" if t: "t \<in> timed_tasks m" for t
  proof -
    obtain tn where tn: "tn \<in> set (m_timer m)" "t \<in> set (th_head tn)" using t by auto
    then obtain h ts where h: "th_head tn = h # ts" by (cases "th_head tn") auto
    have "sorted (map \<tau> (th_head tn))" using ci tn(1) by (simp add: clock_inv_def node_ok_def)
    then have "\<tau> h \<le> \<tau> t" using tn(2) h by auto
    moreover have "h \<in> set ?heads" using tn(1) h by force
    ultimately show ?thesis by blast
  qed
  show "(\<exists>t \<in> timed_tasks m. \<tau> t < C) \<longleftrightarrow> (\<exists>t \<in> timed_tasks m. \<tau> t < C \<and> next_task (word_of_nat C) m = Some t)"
  proof
    assume "\<exists>t \<in> timed_tasks m. \<tau> t < C"
    then obtain h where h: "h \<in> set ?heads" "\<tau> h < C" using first by (meson order_le_less_trans)
    have "h \<in> set ?due" using h due[OF subsetD[OF heads h(1)]] by (simp only: set_filter mem_Collect_eq simp_thms)
    then have "?due \<noteq> []" by (metis empty_iff empty_set)
    then obtain x xs where x: "?due = x # xs" by (meson neq_Nil_conv)
    then have "x \<in> set ?due" by (metis list.set_intros(1))
    then have "x \<in> set ?heads" "u32_is_bigger (word_of_nat C) (fd_of m x)" by (simp_all only: set_filter mem_Collect_eq)
    then have "x \<in> timed_tasks m" "\<tau> x < C" using heads due by blast+
    then show "\<exists>t \<in> timed_tasks m. \<tau> t < C \<and> next_task (word_of_nat C) m = Some t"
      using x ev by (auto simp: next_task_def)
  qed blast
  assume "\<forall>t \<in> timed_tasks m. C \<le> \<tau> t"
  then have "?due = []" using due heads by (auto simp: filter_empty_conv subset_iff not_less)
  moreover have "set (m_ready m) \<inter> timed_tasks m = {}"
    using inv by (auto simp: master_inv_def task_inv_def linked_def)
  ultimately show "next_task (word_of_nat C) m \<notin> Some ` timed_tasks m"
    using ev by (auto simp: next_task_def split: list.splits)
qed

lemma run_timers: "cl_thread_run t m = Some (c, m') \<Longrightarrow> m_timer m' = m_timer m"
  by (auto simp: cl_thread_run_def bind_eq_Some_iff)

lemma poll_timers:
  assumes "master_inv m" "poll_fds e m = Some (r, m')"
  shows "timed_tasks m' = timed_tasks m"
proof -
  obtain n rfd wfd where sel: "snd e (readfd m) (writefd m) = (n, rfd, wfd)" by (metis prod_cases3)
  show ?thesis
  proof (cases "n \<le> 0")
    case False
    have "distinct (m_read m)" using assms(1) by (simp add: master_inv_def task_inv_def linked_def)
    from process_read[OF assms(1) this subset_refl, of rfd] obtain m1 k1 where 1: "cl_thread_process_read rfd m = Some (m1, k1)"
      "master_inv m1" "timed_tasks m1 = timed_tasks m" by metis
    have "distinct (m_write m1)" using 1(2) by (simp add: master_inv_def task_inv_def linked_def)
    from process_write[OF 1(2) this subset_refl, of wfd] obtain m2 k2 where 2: "cl_thread_process_write wfd m1 = Some (m2, k2)"
      "timed_tasks m2 = timed_tasks m1" by metis
    show ?thesis using assms(2) 1 2 False
      by (auto simp: poll_fds_def sel cl_thread_trim_head_def dest!: run_timers split: list.splits)
  qed (use assms(2) in \<open>simp add: poll_fds_def sel\<close>)
qed

text \<open>A round whose next task is a timed one fetches it, and any other round leaves the timed tasks alone.\<close>

lemma timed_round:
  assumes inv: "master_inv m" and ev: "m_event m = []"
  shows "next_task now m = Some t \<Longrightarrow> t \<in> timed_tasks m \<Longrightarrow>
      \<exists>r m'. fetch_round (now, sel) m = Some (r, m') \<and> timed_tasks m' = timed_tasks m - {t}"
    and "next_task now m \<notin> Some ` timed_tasks m \<Longrightarrow> fetch_round (now, sel) m = Some (r, m') \<Longrightarrow> timed_tasks m' = timed_tasks m"
proof -
  let ?due = "filter (\<lambda>t. u32_is_bigger now (fd_of m t)) (concat (map (take 1 \<circ> th_head) (m_timer m)))"
  have due: "due_timer now (thr m) (m_timer m) = Some (case ?due of t # _ \<Rightarrow> Some t | [] \<Rightarrow> None)"
    by (rule due_timer_eq[OF timer_thr[OF inv]])
  have d: "set (m_ready m) \<inter> timed_tasks m = {}" "distinct (concat (map th_head (m_timer m)))"
    using inv by (auto simp: master_inv_def task_inv_def linked_def)
  show "\<exists>r m'. fetch_round (now, sel) m = Some (r, m') \<and> timed_tasks m' = timed_tasks m - {t}"
    if t: "next_task now m = Some t" "t \<in> timed_tasks m"
  proof -
    obtain ts where ts: "?due = t # ts" using t d(1) ev by (auto simp: next_task_def split: list.splits)
    from t(2) have "t \<in> timed_tasks m \<union> set (m_event m) \<union> set (m_ready m)" by blast
    then obtain m1 where m1: "unlink t m = Some m1" "task_inv {t} m1" "fd_inv m1" "thr m1 = thr m"
        "concat (map th_head (m_timer m1)) = remove1 t (concat (map th_head (m_timer m)))"
      using unlink_other[OF inv] by metis
    obtain c where "thr m t = Some c" using timer_thr[OF inv] t(2) by blast
    then obtain m' where m': "cl_thread_run t m1 = Some (c, m')" "m_timer m' = m_timer m1"
      using run_ok[OF m1(2,3)] m1(4) by metis
    have "timed_tasks m' = timed_tasks m - {t}" unfolding m'(2) m1(5) by (rule set_remove1_eq[OF d(2)])
    then show ?thesis using m1(1) m'(1) due ts ev by (simp add: fetch_round_def cl_thread_trim_head_def)
  qed
  assume n: "next_task now m \<notin> Some ` timed_tasks m" "fetch_round (now, sel) m = Some (r, m')"
  have "?due = []"
  proof (cases ?due)
    case (Cons t ts)
    then have "t \<in> timed_tasks m" by (rule due_timer_mem)
    then show ?thesis using n(1) Cons ev by (simp add: next_task_def)
  qed simp
  then have r: "ready_or_poll (now, sel) m = Some (r, m')" using n(2) due ev by (simp add: fetch_round_def cl_thread_trim_head_def)
  show "timed_tasks m' = timed_tasks m"
  proof (cases "m_ready m")
    case Nil
    then show ?thesis using r poll_timers[OF inv] by (simp add: ready_or_poll_def cl_thread_trim_head_def)
  next
    case (Cons t ts)
    then show ?thesis using r by (auto simp: ready_or_poll_def cl_thread_trim_head_def dest!: run_timers)
  qed
qed

text \<open>C33: no timer is missed.  Whatever the loop has done before, when no event is pending and all pending times are within
  \<open>2^31\<close> ms of the clock, a round at time \<open>C\<close> does not fault and takes a timed task exactly when some timed task is due: it
  then returns one that is due and takes only that one out of its list, and otherwise all timed tasks stay.  This holds
  although the loop only looks at the first task of each interval list and compares 32-bit times.\<close>

theorem due_timer_fetched:
  assumes "cl_timed C \<tau> m" "m_event m = []"
    and "\<forall>t \<in> timed_tasks m. C < \<tau> t + 0x7FFFFFFF \<and> \<tau> t \<le> C + 0x80000000"
  shows "\<exists>r m'. fetch_round (word_of_nat C, sel) m = Some (r, m') \<and>
    (if \<exists>t \<in> timed_tasks m. \<tau> t < C
     then \<exists>t \<in> timed_tasks m. \<tau> t < C \<and> r = thr m t \<and> r \<noteq> None \<and> m_unuse m' = t # m_unuse m \<and>
       timed_tasks m' = timed_tasks m - {t}
     else timed_tasks m' = timed_tasks m)"
proof -
  have inv: "master_inv m" by (rule reachable_master_inv[OF timed_reachable[OF assms(1)]])
  note next_t = next_timer[OF inv timed_clock_inv[OF assms(1)] assms(2,3)]
  obtain n rfd wfd where "sel (readfd m) (writefd m) = (n, rfd, wfd)" by (metis prod_cases3)
  then have "snd (word_of_nat C, sel) (readfd m) (writefd m) = (n, rfd, wfd)" by simp
  from fetch_round_spec[OF inv this] obtain r m' where f: "fetch_round (word_of_nat C, sel) m = Some (r, m')"
      "next_task (word_of_nat C) m = Some t \<Longrightarrow> r = thr m t \<and> r \<noteq> None \<and> m_unuse m' = t # m_unuse m" for t by fastforce
  show ?thesis
  proof (cases "\<exists>t \<in> timed_tasks m. \<tau> t < C")
    case True
    then obtain t where t: "t \<in> timed_tasks m" "\<tau> t < C" "next_task (word_of_nat C) m = Some t" using next_t(1) by blast
    have "timed_tasks m' = timed_tasks m - {t}" using timed_round(1)[OF inv assms(2) t(3,1), of sel] f(1) by simp
    then have "\<exists>t \<in> timed_tasks m. \<tau> t < C \<and> r = thr m t \<and> r \<noteq> None \<and> m_unuse m' = t # m_unuse m \<and>
        timed_tasks m' = timed_tasks m - {t}" using t f(2)[OF t(3)] by blast
    then show ?thesis using True f(1) by auto
  next
    case False
    then have "next_task (word_of_nat C) m \<notin> Some ` timed_tasks m" using next_t(2) by force
    then have "timed_tasks m' = timed_tasks m" by (rule timed_round(2)[OF inv assms(2) _ f(1)])
    then show ?thesis using False f(1) by auto
  qed
qed

definition example_timed :: master where
  "example_timed = cl_thread_init\<lparr>thr := [64 \<mapsto> \<lparr>ttype = CL_THREAD_TIMER, func = 2, arg = 0, uni = 1010\<rparr>],
     m_timer := [\<lparr>th_head = [64], interval = 10, tcount = 0\<rparr>]\<rparr>"

theorem due_timer_fetched_witness:
  "\<exists>r m'. fetch_round (word_of_nat 1011, \<lambda>r w. (0, {}, {})) example_timed = Some (r, m') \<and>
    (if \<exists>t \<in> timed_tasks example_timed. ((\<lambda>_. 0)(64 := 1010)) t < (1011 :: nat)
     then \<exists>t \<in> timed_tasks example_timed. ((\<lambda>_. 0)(64 := 1010)) t < (1011 :: nat) \<and> r = thr example_timed t \<and> r \<noteq> None \<and>
       m_unuse m' = t # m_unuse example_timed \<and> timed_tasks m' = timed_tasks example_timed - {t}
     else timed_tasks m' = timed_tasks example_timed)"
proof (rule due_timer_fetched)
  have "cl_thread_add_timer 64 True (word_of_nat 1000) 2 0 10 cl_thread_init = Some (64, example_timed)"
    by (simp add: cl_thread_add_timer_def cl_thread_get_def cl_thread_trim_head_def cl_thread_init_def example_timed_def)
  from cl_timed.timer[OF cl_timed.init[of 1000 "\<lambda>_. 0"] _ this]
  have "cl_timed 1000 ((\<lambda>_. 0)(64 := 1010)) example_timed" by (simp add: cl_thread_init_def)
  then show "cl_timed 1011 ((\<lambda>_. 0)(64 := 1010)) example_timed" by (rule cl_timed.tick) simp
  show "m_event example_timed = []"
    "\<forall>t \<in> timed_tasks example_timed. (1011 :: nat) < ((\<lambda>_. 0)(64 := 1010)) t + 0x7FFFFFFF \<and> ((\<lambda>_. 0)(64 := 1010)) t \<le> 1011 + (0x80000000 :: nat)"
    by (simp_all add: example_timed_def cl_thread_init_def)
qed

section \<open>The loop with the mutex\<close>

abbreviation held :: "master \<Rightarrow> master" where
  "held m \<equiv> m\<lparr>locked := True\<rparr>"

lemma unlink_held: "unlink t (held m) = map_option held (unlink t m)"
  by (simp add: unlink_def)

lemma run_held: "cl_thread_run t (held m) = map_option (apsnd held) (cl_thread_run t m)"
  by (cases "thr m t") (simp_all add: cl_thread_run_def)

lemma locked_unlink: "unlink t m = Some m' \<Longrightarrow> locked m' = locked m"
  by (auto simp: unlink_def split: if_splits)

lemma locked_run: "cl_thread_run t m = Some (c, m') \<Longrightarrow> locked m' = locked m"
  by (auto simp: cl_thread_run_def bind_eq_Some_iff)

lemma unheld: "\<not> locked m \<Longrightarrow> m\<lparr>locked := False\<rparr> = m"
  by (cases m) simp

lemma locked_ready_read: "ready_read fds t (m, n) = Some (m', k) \<Longrightarrow> locked m' = locked m"
  by (auto simp: ready_read_def bind_eq_Some_iff dest: locked_unlink split: if_splits)

lemma locked_ready_write: "ready_write fds t (m, n) = Some (m', k) \<Longrightarrow> locked m' = locked m"
  by (auto simp: ready_write_def bind_eq_Some_iff dest: locked_unlink split: if_splits)

lemma locked_process:
  "foldM (ready_read fds) ts (m, n) = Some (m', k) \<Longrightarrow> locked m' = locked m"
  "foldM (ready_write fds) ts (m, n) = Some (m', k) \<Longrightarrow> locked m' = locked m"
  by (induction ts arbitrary: m n) (auto simp: bind_eq_Some_iff dest: locked_ready_read locked_ready_write)

lemma locked_poll:
  assumes "poll_fds e m = Some (r, m')"
  shows "locked m' = locked m"
proof -
  obtain n rfd wfd where sel: "snd e (readfd m) (writefd m) = (n, rfd, wfd)" by (metis prod_cases3)
  show ?thesis
  proof (cases "n \<le> 0")
    case False
    then obtain m1 k1 m2 k2 where p: "cl_thread_process_read rfd m = Some (m1, k1)" "cl_thread_process_write wfd m1 = Some (m2, k2)"
      and r: "(case cl_thread_trim_head (m_ready m2) of
         (Some t, ts) \<Rightarrow> map_option (apfst Some) (cl_thread_run t (m2\<lparr>m_ready := ts\<rparr>)) | (None, _) \<Rightarrow> Some (None, m2)) = Some (r, m')"
      using assms by (auto simp: poll_fds_def sel bind_eq_Some_iff)
    have "locked m2 = locked m"
      using p locked_process unfolding cl_thread_process_read_def cl_thread_process_write_def by metis
    then show ?thesis using r by (auto simp: cl_thread_trim_head_def split: list.splits dest: locked_run)
  qed (use assms in \<open>simp add: poll_fds_def sel\<close>)
qed

lemma locked_ready_or_poll: "ready_or_poll e m = Some (r, m') \<Longrightarrow> locked m' = locked m"
  by (cases "m_ready m") (auto simp: ready_or_poll_def cl_thread_trim_head_def dest: locked_run locked_poll)

lemma locked_fetch_round: "fetch_round e m = Some (r, m') \<Longrightarrow> locked m' = locked m"
  by (auto simp: fetch_round_def cl_thread_trim_head_def bind_eq_Some_iff split: list.splits option.splits
      dest!: locked_run locked_unlink locked_ready_or_poll)

lemma fetch_round_lock_eq:
  assumes "\<not> locked m"
  shows "fetch_round_lock e m = fetch_round e m"
proof (cases "m_event m")
  case Nil
  have "Option.bind (unlink t (held m)) (\<lambda>m. Option.bind (cl_thread_run t m) (\<lambda>(c, m). Some (Some c, m\<lparr>locked := False\<rparr>))) =
      Option.bind (unlink t m) (\<lambda>m. map_option (apfst Some) (cl_thread_run t m))" for t
  proof (cases "unlink t m")
    case (Some m1)
    then have "\<not> locked m1" using locked_unlink assms by metis
    then show ?thesis using Some
      by (cases "cl_thread_run t m1") (auto simp: unlink_held run_held unheld dest: locked_run)
  qed (simp add: unlink_held)
  then show ?thesis using Nil assms
    by (simp add: fetch_round_lock_def fetch_round_def cl_thread_trim_head_def lock_master_def unheld
        cong: option.case_cong)
qed (simp add: fetch_round_lock_def fetch_round_def cl_thread_trim_head_def)

text \<open>When the mutex of the master is free, \<open>cl_thread_fetch_lock\<close> returns what \<open>cl_thread_fetch\<close> returns in every
  environment, and leaves the mutex free.\<close>

theorem cl_thread_fetch_lock_eq:
  assumes "\<not> locked m"
  shows "cl_thread_fetch_lock es m = cl_thread_fetch es m \<and>
    map_option (locked \<circ> snd) (cl_thread_fetch_lock es m) \<in> {None, Some False}"
  using assms
proof (induction es arbitrary: m)
  case (Cons e es)
  show ?case
  proof (cases "fetch_round e m")
    case (Some p)
    obtain r m1 where p: "p = (r, m1)" by (cases p)
    have "\<not> locked m1" using locked_fetch_round Some Cons.prems p by metis
    then show ?thesis using Some p Cons.IH[of m1] by (cases r) (auto simp: fetch_round_lock_eq[OF Cons.prems])
  qed (simp add: fetch_round_lock_eq[OF Cons.prems])
qed simp

theorem cl_thread_fetch_lock_eq_witness:
  "cl_thread_fetch_lock [(1000, \<lambda>r w. (0, {}, {}))] example_master = cl_thread_fetch [(1000, \<lambda>r w. (0, {}, {}))] example_master \<and>
    map_option (locked \<circ> snd) (cl_thread_fetch_lock [(1000, \<lambda>r w. (0, {}, {}))] example_master) \<in> {None, Some False}"
  by (rule cl_thread_fetch_lock_eq) (simp add: example_master_def)


section \<open>Tear-down\<close>

text \<open>The master without the tasks in \<open>S\<close>.\<close>

definition without :: "addr set \<Rightarrow> master \<Rightarrow> master" where
  "without S m = m\<lparr>m_read := filter (\<lambda>t. t \<notin> S) (m_read m), m_write := filter (\<lambda>t. t \<notin> S) (m_write m),
     m_timer := map (\<lambda>tn. tn\<lparr>th_head := filter (\<lambda>t. t \<notin> S) (th_head tn)\<rparr>) (m_timer m),
     m_event := filter (\<lambda>t. t \<notin> S) (m_event m), m_ready := filter (\<lambda>t. t \<notin> S) (m_ready m),
     m_unuse := filter (\<lambda>t. t \<notin> S) (m_unuse m), thr := (\<lambda>t. if t \<in> S then None else thr m t)\<rparr>"

definition owned :: "master \<Rightarrow> bool" where
  "owned m \<longleftrightarrow> distinct (linked m) \<and> dom (thr m) = set (linked m)"

lemma linked_without: "linked (without S m) = filter (\<lambda>t. t \<notin> S) (linked m)"
proof -
  have "concat (map th_head (map (\<lambda>tn. tn\<lparr>th_head := filter (\<lambda>t. t \<notin> S) (th_head tn)\<rparr>) tns)) =
      filter (\<lambda>t. t \<notin> S) (concat (map th_head tns))" for tns
    by (induction tns) simp_all
  then show ?thesis by (simp add: linked_def without_def)
qed

lemma owned_without: "owned m \<Longrightarrow> owned (without S m)"
  by (auto simp: owned_def linked_without) (auto simp: without_def dom_def split: if_splits)

lemma without_without: "without S (without T m) = without (T \<union> S) m"
  by (auto simp: without_def fun_eq_iff comp_def conj_commute intro!: filter_cong)

lemma without_empty: "without {} m = m"
  by (cases m) (simp add: without_def)

lemma free_thread_ok:
  assumes "owned m" "t \<in> set (linked m)"
  shows "free_thread t m = Some (without {t} m)"
proof -
  have d: "distinct (m_read m)" "distinct (m_write m)" "distinct (m_event m)" "distinct (m_ready m)" "distinct (m_unuse m)"
    "\<And>tn. tn \<in> set (m_timer m) \<Longrightarrow> distinct (th_head tn)"
    using assms(1) by (auto simp: owned_def linked_def distinct_concat_iff)
  obtain c where "thr m t = Some c" using assms by (auto simp: owned_def)
  then show ?thesis using assms(2) d
    by (simp add: free_thread_def unlink_def without_def distinct_remove1_removeAll removeAll_filter_not_eq fun_eq_iff neq_commute)
qed

lemma free_all_ok:
  assumes "owned m" "distinct ts" "set ts \<subseteq> set (linked m)"
  shows "cl_thread_free_all_thread ts m = Some (without (set ts) m)"
  using assms
proof (induction ts arbitrary: m)
  case Nil
  then show ?case by (simp add: cl_thread_free_all_thread_def without_empty)
next
  case (Cons t ts)
  have "set ts \<subseteq> set (linked (without {t} m))" using Cons.prems by (auto simp: linked_without)
  then have "cl_thread_free_all_thread ts (without {t} m) = Some (without (set ts) (without {t} m))"
    using Cons by (intro Cons.IH) (auto intro: owned_without)
  then show ?case using free_thread_ok[of m t] Cons.prems
    by (simp add: cl_thread_free_all_thread_def without_without)
qed


lemma without_timer: "(without S (m\<lparr>m_timer := x\<rparr>))\<lparr>m_timer := y\<rparr> = (without S m)\<lparr>m_timer := y\<rparr>"
  by (cases m) (simp add: without_def cong: if_cong)

lemma free_timers_ok:
  assumes "owned m" "m_timer m = tns"
  shows "foldM (\<lambda>tn m. Option.bind (cl_thread_free_all_thread (th_head tn) m) (\<lambda>m. Some (m\<lparr>m_timer := tl (m_timer m)\<rparr>))) tns m =
      Some ((without (set (concat (map th_head tns))) m)\<lparr>m_timer := []\<rparr>) \<and>
    owned ((without (set (concat (map th_head tns))) m)\<lparr>m_timer := []\<rparr>)"
  using assms
proof (induction tns arbitrary: m)
  case Nil
  then show ?case by (simp add: without_empty owned_def linked_def)
next
  case (Cons tn tns)
  let ?m1 = "(without (set (th_head tn)) m)\<lparr>m_timer := tns\<rparr>"
  have d: "distinct (th_head tn)" "set (th_head tn) \<subseteq> set (linked m)"
    and dis: "set (th_head tn) \<inter> set (concat (map th_head tns)) = {}"
    using Cons.prems by (auto simp: owned_def linked_def)
  have "map (\<lambda>u. u\<lparr>th_head := filter (\<lambda>t. t \<notin> set (th_head tn)) (th_head u)\<rparr>) tns = tns"
  proof (rule map_idI)
    fix u
    assume "u \<in> set tns"
    then have "filter (\<lambda>t. t \<notin> set (th_head tn)) (th_head u) = th_head u" using dis by (intro filter_True) auto
    then show "u\<lparr>th_head := filter (\<lambda>t. t \<notin> set (th_head tn)) (th_head u)\<rparr> = u" by (cases u) simp
  qed
  then have tl: "m_timer (without (set (th_head tn)) m) = tn\<lparr>th_head := []\<rparr> # tns"
    using Cons.prems(2) by (simp add: without_def)
  have "linked ?m1 = linked (without (set (th_head tn)) m)" by (simp add: linked_def tl)
  then have "owned ?m1" using owned_without[OF Cons.prems(1), of "set (th_head tn)"] by (simp add: owned_def)
  from Cons.IH[OF this] have IH: "foldM (\<lambda>tn m. Option.bind (cl_thread_free_all_thread (th_head tn) m) (\<lambda>m. Some (m\<lparr>m_timer := tl (m_timer m)\<rparr>))) tns ?m1 =
      Some ((without (set (concat (map th_head tns))) ?m1)\<lparr>m_timer := []\<rparr>)"
    "owned ((without (set (concat (map th_head tns))) ?m1)\<lparr>m_timer := []\<rparr>)" by simp_all
  have eq: "(without (set (concat (map th_head tns))) ?m1)\<lparr>m_timer := []\<rparr> =
      (without (set (concat (map th_head (tn # tns)))) m)\<lparr>m_timer := []\<rparr>"
    by (simp only: without_timer without_without) simp
  show ?case using IH free_all_ok[OF Cons.prems(1) d] tl unfolding eq by simp
qed

lemma stop_ok:
  assumes "owned m"
  shows "\<exists>m'. cl_thread_stop m = Some m' \<and> linked m' = [] \<and> thr m' = Map.empty"
proof -
  have free: "cl_thread_free_all_thread ts m = Some (without (set ts) m)" "owned (without (set ts) m)"
    if "owned m" "distinct ts" "set ts \<subseteq> set (linked m)" for ts m
    using free_all_ok[OF that] owned_without[OF that(1)] by simp_all
  have sub: "distinct (m_read m)" "set (m_read m) \<subseteq> set (linked m)" "distinct (m_write m)" "set (m_write m) \<subseteq> set (linked m)"
    "distinct (m_event m)" "set (m_event m) \<subseteq> set (linked m)" "distinct (m_ready m)" "set (m_ready m) \<subseteq> set (linked m)"
    "distinct (m_unuse m)" "set (m_unuse m) \<subseteq> set (linked m)" if "owned m" for m
    using that by (auto simp: owned_def linked_def)
  define m1 where "m1 = without (set (m_read m)) m"
  define m2 where "m2 = without (set (m_write m1)) m1"
  define m3 where "m3 = (without (set (concat (map th_head (m_timer m2)))) m2)\<lparr>m_timer := []\<rparr>"
  define m4 where "m4 = without (set (m_event m3)) m3"
  define m5 where "m5 = without (set (m_ready m4)) m4"
  define m6 where "m6 = without (set (m_unuse m5)) m5"
  have o1: "owned m1" "cl_thread_free_all_thread (m_read m) m = Some m1"
    using free[OF assms sub(1,2)[OF assms]] by (simp_all add: m1_def)
  have o2: "owned m2" "cl_thread_free_all_thread (m_write m1) m1 = Some m2"
    using free[OF o1(1) sub(3,4)[OF o1(1)]] by (simp_all add: m2_def)
  have o3: "owned m3" "cl_thread_free_all_timer m2 = Some m3"
    using free_timers_ok[OF o2(1) refl] by (simp_all add: m3_def cl_thread_free_all_timer_def)
  have o4: "owned m4" "cl_thread_free_all_thread (m_event m3) m3 = Some m4"
    using free[OF o3(1) sub(5,6)[OF o3(1)]] by (simp_all add: m4_def)
  have o5: "owned m5" "cl_thread_free_all_thread (m_ready m4) m4 = Some m5"
    using free[OF o4(1) sub(7,8)[OF o4(1)]] by (simp_all add: m5_def)
  have o6: "owned m6" "cl_thread_free_all_thread (m_unuse m5) m5 = Some m6"
    using free[OF o5(1) sub(9,10)[OF o5(1)]] by (simp_all add: m6_def)
  have "m_read m1 = []" by (simp add: m1_def without_def)
  moreover have "m_write m2 = []" by (simp add: m2_def without_def)
  moreover have "m_event m4 = []" by (simp add: m4_def without_def)
  moreover have "m_ready m5 = []" by (simp add: m5_def without_def)
  moreover have "m_unuse m6 = []" by (simp add: m6_def without_def)
  ultimately have "linked m6 = []"
    by (simp add: linked_def m6_def m5_def m4_def m3_def m2_def without_def)
  moreover have "thr m6 = Map.empty" using o6(1) calculation by (simp add: owned_def)
  moreover have "cl_thread_stop m = Some m6" by (simp add: cl_thread_stop_def o1 o2 o3 o4 o5 o6)
  ultimately show ?thesis by blast
qed

text \<open>C34: In every reachable state \<open>cl_thread_stop\<close> frees each task exactly once, uses no freed task and leaves neither a
  list entry nor an allocated task behind.\<close>

theorem cl_thread_stop_frees_all:
  assumes "cl_reachable m"
  shows "\<exists>m'. cl_thread_stop m = Some m' \<and> linked m' = [] \<and> thr m' = Map.empty"
proof (rule stop_ok)
  show "owned m" using reachable_master_inv[OF assms] by (simp add: master_inv_def task_inv_def owned_def)
qed

theorem cl_thread_stop_frees_all_witness:
  "\<exists>m'. cl_thread_stop example_timed = Some m' \<and> linked m' = [] \<and> thr m' = Map.empty"
proof (rule cl_thread_stop_frees_all)
  have "cl_thread_add_timer 64 True 1000 2 0 10 cl_thread_init = Some (64, example_timed)"
    by (simp add: cl_thread_add_timer_def cl_thread_get_def cl_thread_trim_head_def cl_thread_init_def example_timed_def)
  from cl_reachable.timer[OF cl_reachable.init _ this] show "cl_reachable example_timed" by (simp add: cl_thread_init_def)
qed

end
