(* ===== verification/ClThreadEpoll.thy ===== *)
theory ClThreadEpoll
  imports MinHeap
begin

text \<open>
  The event loop of \<open>framework/zebra_epoll/cl_thread.c\<close>, the variant with \<open>epoll\<close> and the timer heap.  Its functions
  have the names of the file with the prefix \<open>cle\<close>, to tell them from those of \<open>ClThread\<close>.

  The six lists of the master are the sequences of their entries, under a name each; the intrusive deletion takes an
  entry out of the list in which it is linked.  The tree of sockets is the map from descriptors to socket records that it
  represents; a socket is never taken out before the tear-down, so an event that carries the pointer to a socket is
  given by its descriptor.  The part of the kernel is in the state too: the descriptors that are registered, with their
  event masks, and whether the coming calls of \<open>epoll_ctl\<close> succeed.  A call may fail for any reason of the kernel, and it
  fails when it adds a descriptor that is registered or changes or removes one that is not; the code ignores its result.  A
  descriptor that is closed is not registered any more.  Beside it stands what the code asked for last.  The union \<open>u\<close> of a task is a 64-bit word of which \<open>val\<close> and \<open>fd\<close> are the low half.
  The addresses that \<open>calloc\<close> returns, the clock and the answers of \<open>epoll_wait\<close> are arguments.
\<close>

section \<open>Data\<close>

datatype tlist = LRead | LWrite | LTimer | LEvent | LReady | LUnuse

text \<open>The type of the tasks of a list, with the numbers of \<open>CL_THREAD_READ\<close> and so on.\<close>

fun list_type :: "tlist \<Rightarrow> u8" where
  "list_type LUnuse = 0"
| "list_type LRead = 1"
| "list_type LWrite = 2"
| "list_type LTimer = 3"
| "list_type LEvent = 4"
| "list_type LReady = 5"

abbreviation "T_UNUSED \<equiv> list_type LUnuse"
abbreviation "T_READ \<equiv> list_type LRead"
abbreviation "T_WRITE \<equiv> list_type LWrite"
abbreviation "T_TIMER \<equiv> list_type LTimer"
abbreviation "T_EVENT \<equiv> list_type LEvent"
abbreviation "T_READY \<equiv> list_type LReady"

definition CL_SOCKETS_READ :: u32 where "CL_SOCKETS_READ = 1"
definition CL_SOCKETS_WRITE :: u32 where "CL_SOCKETS_WRITE = 2"
definition CL_SOCKETS_READ_PERSIST :: u32 where "CL_SOCKETS_READ_PERSIST = 4"
definition CL_SOCKETS_WRITE_PERSIST :: u32 where "CL_SOCKETS_WRITE_PERSIST = 8"

text \<open>The event masks of \<open>epoll\<close>.\<close>

definition EPOLLIN :: u32 where "EPOLLIN = 0x001"
definition EPOLLPRI :: u32 where "EPOLLPRI = 0x002"
definition EPOLLOUT :: u32 where "EPOLLOUT = 0x004"
definition EPOLLERR :: u32 where "EPOLLERR = 0x008"
definition EPOLLHUP :: u32 where "EPOLLHUP = 0x010"
definition EPOLLRDHUP :: u32 where "EPOLLRDHUP = 0x2000"

record cle_thread =
  etype :: u8
  efunc :: u64
  earg :: u64
  eu :: u64

text \<open>\<open>op\<close> is \<open>CL_EPOLL_ADDED\<close> when \<open>added\<close> holds and \<open>CL_EPOLL_ADD\<close> otherwise.\<close>

record cle_socket =
  stype :: u32
  added :: bool
  t_read :: addr
  t_write :: addr

text \<open>
  The kernel: \<open>reg\<close> is what is registered, \<open>answers\<close> what it will say to the next calls of \<open>epoll_ctl\<close>, and \<open>stale\<close> marks
  the descriptors whose last call failed or that were closed after it.
\<close>

record kernel =
  reg :: "u32 \<rightharpoonup> u32"
  answers :: "nat \<Rightarrow> bool"
  stale :: "u32 \<Rightarrow> bool"

text \<open>In the master \<open>asked\<close> keeps the last request for each descriptor; the code does not look at it.\<close>

record cle_master =
  sockets :: "u32 \<rightharpoonup> cle_socket"
  lst :: "tlist \<Rightarrow> addr list"
  heap :: "time_heap option"
  epollfd :: int
  elocked :: bool
  tnodes :: nodemem
  eth :: "addr \<rightharpoonup> cle_thread"
  asked :: "u32 \<rightharpoonup> u32"
  kern :: kernel

definition fd_word :: "u64 \<Rightarrow> u32" where
  "fd_word u = ucast u"

definition set_fd :: "u32 \<Rightarrow> u64 \<Rightarrow> u64" where
  "set_fd v u = (u AND NOT 0xFFFFFFFF) OR ucast v"

text \<open>A call of \<open>epoll_ctl\<close>: \<open>fits\<close> tells whether it suits what is registered.\<close>

definition kernel_ctl :: "u32 \<Rightarrow> bool \<Rightarrow> u32 option \<Rightarrow> kernel \<Rightarrow> kernel" where
  "kernel_ctl fd fits evs k =
     (let k' = k\<lparr>answers := (\<lambda>n. answers k (Suc n))\<rparr>
      in if answers k 0 \<and> fits then k'\<lparr>reg := (reg k)(fd := evs), stale := (stale k)(fd := False)\<rparr>
         else k'\<lparr>stale := (stale k)(fd := True)\<rparr>)"

text \<open>\<open>EPOLL_CTL_ADD\<close> and \<open>EPOLL_CTL_MOD\<close>, and \<open>EPOLL_CTL_DEL\<close>.\<close>

definition epoll_ctl_set :: "bool \<Rightarrow> u32 \<Rightarrow> u32 \<Rightarrow> cle_master \<Rightarrow> cle_master" where
  "epoll_ctl_set add fd evs m =
     m\<lparr>asked := (asked m)(fd \<mapsto> evs), kern := kernel_ctl fd (add = (reg (kern m) fd = None)) (Some evs) (kern m)\<rparr>"

definition epoll_ctl_del :: "u32 \<Rightarrow> cle_master \<Rightarrow> cle_master" where
  "epoll_ctl_del fd m =
     m\<lparr>asked := (asked m)(fd := None), kern := kernel_ctl fd (reg (kern m) fd \<noteq> None) None (kern m)\<rparr>"

text \<open>The client closes a descriptor, in the way of \<open>close\<close>; the master does not hear of it.\<close>

definition close_fd :: "u32 \<Rightarrow> cle_master \<Rightarrow> cle_master" where
  "close_fd fd m =
     m\<lparr>kern := (kern m)\<lparr>reg := (reg (kern m))(fd := None), stale := (stale (kern m))(fd := True)\<rparr>\<rparr>"

section \<open>Lists and memory\<close>

definition push :: "tlist \<Rightarrow> addr \<Rightarrow> cle_master \<Rightarrow> cle_master" where
  "push l t m = m\<lparr>lst := (lst m)(l := t # lst m l)\<rparr>"

definition push_tail :: "tlist \<Rightarrow> addr \<Rightarrow> cle_master \<Rightarrow> cle_master" where
  "push_tail l t m = m\<lparr>lst := (lst m)(l := lst m l @ [t])\<rparr>"

definition all_lists :: "tlist list" where
  "all_lists = [LRead, LWrite, LTimer, LEvent, LReady, LUnuse]"

definition unlink_task :: "addr \<Rightarrow> cle_master \<Rightarrow> cle_master option" where
  "unlink_task t m =
     (if list_ex (\<lambda>l. t \<in> set (lst m l)) all_lists
      then Some (m\<lparr>lst := (\<lambda>l. remove1 t (lst m l))\<rparr>)
      else None)"

definition upd_task :: "addr \<Rightarrow> (cle_thread \<Rightarrow> cle_thread) \<Rightarrow> cle_master \<Rightarrow> cle_master option" where
  "upd_task t f m = (case eth m t of None \<Rightarrow> None | Some c \<Rightarrow> Some (m\<lparr>eth := (eth m)(t \<mapsto> f c)\<rparr>))"

abbreviation put_socket :: "u32 \<Rightarrow> cle_socket \<Rightarrow> cle_master \<Rightarrow> cle_master" where
  "put_socket fd s m \<equiv> m\<lparr>sockets := (sockets m)(fd \<mapsto> s)\<rparr>"

section \<open>Operations\<close>

definition cle_thread_trim_head :: "tlist \<Rightarrow> cle_master \<Rightarrow> addr option \<times> cle_master" where
  "cle_thread_trim_head l m =
     (case lst m l of [] \<Rightarrow> (None, m) | t # ts \<Rightarrow> (Some t, m\<lparr>lst := (lst m)(l := ts)\<rparr>))"

definition cle_thread_get :: "addr \<Rightarrow> u8 \<Rightarrow> u64 \<Rightarrow> u64 \<Rightarrow> cle_master \<Rightarrow> (addr \<times> cle_master) option" where
  "cle_thread_get new ty f a m =
     (case cle_thread_trim_head LUnuse m of
        (None, _) \<Rightarrow>
          if new = NULL then None
          else Some (new, m\<lparr>eth := (eth m)(new \<mapsto> \<lparr>etype = ty, efunc = f, earg = a, eu = 0\<rparr>)\<rparr>)
      | (Some t, m) \<Rightarrow> map_option (Pair t) (upd_task t (\<lambda>c. c\<lparr>etype := ty, efunc := f, earg := a\<rparr>) m))"

text \<open>The order by which the tree of sockets is searched.\<close>

definition cle_thread_socket_search :: "u32 \<Rightarrow> u32 \<Rightarrow> int" where
  "cle_thread_socket_search fd sock = (if sint fd < sint sock then 1 else if sint fd > sint sock then -1 else 0)"

definition cle_thread_socket_calloc :: cle_socket where
  "cle_thread_socket_calloc = \<lparr>stype = 0, added = False, t_read = NULL, t_write = NULL\<rparr>"

definition cle_thread_socket_lookup :: "u32 \<Rightarrow> cle_master \<Rightarrow> cle_socket option" where
  "cle_thread_socket_lookup fd m = sockets m fd"

text \<open>The socket of a descriptor, made when there is none; \<open>sok\<close> tells whether its allocation succeeds.\<close>

definition socket_for :: "bool \<Rightarrow> u32 \<Rightarrow> cle_master \<Rightarrow> cle_socket option" where
  "socket_for sok fd m =
     (case sockets m fd of
        Some s \<Rightarrow> Some s
      | None \<Rightarrow> if sok then Some cle_thread_socket_calloc else None)"

definition cle_thread_add_read ::
  "addr \<Rightarrow> bool \<Rightarrow> u64 \<Rightarrow> u64 \<Rightarrow> u32 \<Rightarrow> bool \<Rightarrow> cle_master \<Rightarrow> (addr option \<times> cle_master) option" where
  "cle_thread_add_read new sok f a sock persist m = do {
     s \<leftarrow> socket_for sok sock m;
     let m = put_socket sock s m;
     if stype s AND CL_SOCKETS_READ \<noteq> 0 then Some (None, m)
     else do {
       (t, m) \<leftarrow> cle_thread_get new T_READ f a m;
       m \<leftarrow> upd_task t (\<lambda>c. c\<lparr>eu := set_fd sock (eu c)\<rparr>) m;
       if t_read s \<noteq> NULL then None
       else do {
         let ty = stype s OR CL_SOCKETS_READ;
         let evs = EPOLLIN OR (if ty AND CL_SOCKETS_WRITE \<noteq> 0 then EPOLLOUT else 0);
         let m = epoll_ctl_set (\<not> added s) sock evs m;
         let ty = (if persist then ty OR CL_SOCKETS_READ_PERSIST else ty AND NOT CL_SOCKETS_READ_PERSIST);
         let m = put_socket sock (s\<lparr>t_read := t, stype := ty, added := True\<rparr>) m;
         Some (Some t, push_tail LRead t m) } } }"

definition cle_thread_add_write ::
  "addr \<Rightarrow> bool \<Rightarrow> u64 \<Rightarrow> u64 \<Rightarrow> u32 \<Rightarrow> bool \<Rightarrow> cle_master \<Rightarrow> (addr option \<times> cle_master) option" where
  "cle_thread_add_write new sok f a sock persist m = do {
     s \<leftarrow> socket_for sok sock m;
     let m = put_socket sock s m;
     if stype s AND CL_SOCKETS_WRITE \<noteq> 0 then Some (None, m)
     else do {
       (t, m) \<leftarrow> cle_thread_get new T_WRITE f a m;
       m \<leftarrow> upd_task t (\<lambda>c. c\<lparr>eu := set_fd sock (eu c)\<rparr>) m;
       if t_write s \<noteq> NULL then None
       else do {
         let ty = stype s OR CL_SOCKETS_WRITE;
         let evs = EPOLLOUT OR (if ty AND CL_SOCKETS_READ \<noteq> 0 then EPOLLIN else 0);
         let m = epoll_ctl_set (\<not> added s) sock evs m;
         let ty = (if persist then ty OR CL_SOCKETS_WRITE_PERSIST else ty AND NOT CL_SOCKETS_WRITE_PERSIST);
         let m = put_socket sock (s\<lparr>t_write := t, stype := ty, added := True\<rparr>) m;
         Some (Some t, push_tail LWrite t m) } } }"

text \<open>\<open>nnew\<close> is the address of the new node of the timer heap.\<close>

definition cle_thread_add_timer ::
  "addr \<Rightarrow> addr \<Rightarrow> u64 \<Rightarrow> u64 \<Rightarrow> u64 \<Rightarrow> u32 \<Rightarrow> cle_master \<Rightarrow> (addr \<times> cle_master) option" where
  "cle_thread_add_timer new nnew now f a tm m = do {
     (t, m) \<leftarrow> cle_thread_get new T_TIMER f a m;
     (node, h, tn) \<leftarrow> MINHEAP_TIMER_ON nnew now (heap m) NULL NULL t tm (tnodes m);
     m \<leftarrow> upd_task t (\<lambda>c. c\<lparr>eu := node\<rparr>) (m\<lparr>heap := h, tnodes := tn\<rparr>);
     Some (t, push_tail LTimer t m) }"

definition cle_thread_add_event :: "addr \<Rightarrow> u64 \<Rightarrow> u64 \<Rightarrow> u32 \<Rightarrow> cle_master \<Rightarrow> (addr \<times> cle_master) option" where
  "cle_thread_add_event new f a v m = do {
     (t, m) \<leftarrow> cle_thread_get new T_EVENT f a m;
     m \<leftarrow> upd_task t (\<lambda>c. c\<lparr>eu := set_fd v (eu c)\<rparr>) m;
     Some (t, push_tail LEvent t m) }"

text \<open>The cancellation of the reader or the writer of a socket, with the socket given by its descriptor.\<close>

definition cle_cancel_read_sock :: "u32 \<Rightarrow> cle_socket \<Rightarrow> cle_master \<Rightarrow> cle_master option" where
  "cle_cancel_read_sock fd s m =
     (let t = t_read s;
          ty = stype s AND NOT CL_SOCKETS_READ AND NOT CL_SOCKETS_READ_PERSIST;
          s = s\<lparr>t_read := NULL, stype := ty\<rparr>
      in if ty AND CL_SOCKETS_WRITE \<noteq> 0
         then unlink_task t (put_socket fd (s\<lparr>added := True\<rparr>) (epoll_ctl_set (\<not> added s) fd EPOLLOUT m))
         else unlink_task t (put_socket fd (s\<lparr>added := False\<rparr>) (epoll_ctl_del fd m)))"

definition cle_cancel_write_sock :: "u32 \<Rightarrow> cle_socket \<Rightarrow> cle_master \<Rightarrow> cle_master option" where
  "cle_cancel_write_sock fd s m =
     (let t = t_write s;
          ty = stype s AND NOT CL_SOCKETS_WRITE AND NOT CL_SOCKETS_WRITE_PERSIST;
          s = s\<lparr>t_write := NULL, stype := ty\<rparr>
      in if ty AND CL_SOCKETS_READ \<noteq> 0
         then unlink_task t (put_socket fd (s\<lparr>added := True\<rparr>) (epoll_ctl_set (\<not> added s) fd EPOLLIN m))
         else unlink_task t (put_socket fd (s\<lparr>added := False\<rparr>) (epoll_ctl_del fd m)))"

definition cle_thread_cancel_read :: "addr \<Rightarrow> cle_master \<Rightarrow> cle_master option" where
  "cle_thread_cancel_read t m = do {
     c \<leftarrow> eth m t;
     case cle_thread_socket_lookup (fd_word (eu c)) m of
       None \<Rightarrow> unlink_task t m
     | Some s \<Rightarrow> if t_read s \<noteq> t then None else cle_cancel_read_sock (fd_word (eu c)) s m }"

definition cle_thread_cancel_write :: "addr \<Rightarrow> cle_master \<Rightarrow> cle_master option" where
  "cle_thread_cancel_write t m = do {
     c \<leftarrow> eth m t;
     case cle_thread_socket_lookup (fd_word (eu c)) m of
       None \<Rightarrow> unlink_task t m
     | Some s \<Rightarrow> if t_write s \<noteq> t then None else cle_cancel_write_sock (fd_word (eu c)) s m }"

definition cle_thread_cancel_ready :: "addr \<Rightarrow> cle_master \<Rightarrow> cle_master option" where
  "cle_thread_cancel_ready t m = do {
     c \<leftarrow> eth m t;
     case cle_thread_socket_lookup (fd_word (eu c)) m of
       None \<Rightarrow> unlink_task t m
     | Some s \<Rightarrow>
         if t_read s = t then cle_cancel_read_sock (fd_word (eu c)) s m
         else if t_write s = t then cle_cancel_write_sock (fd_word (eu c)) s m
         else unlink_task t m }"

text \<open>\<open>MINHEAP_TIMER_OFF\<close> with the deletion of this directory, which clears the arguments too.\<close>

definition cle_thread_cancel_timer :: "addr \<Rightarrow> cle_master \<Rightarrow> cle_master option" where
  "cle_thread_cancel_timer t m = do {
     c \<leftarrow> eth m t;
     tn \<leftarrow> (if eu c \<noteq> NULL then cl_time_heap_del_timer (eu c) (tnodes m) else Some (tnodes m));
     m \<leftarrow> upd_task t (\<lambda>c. c\<lparr>eu := NULL\<rparr>) (m\<lparr>tnodes := tn\<rparr>);
     unlink_task t m }"

text \<open>The case of a ready task has no \<open>break\<close> and runs into the default, which writes through a null pointer.\<close>

definition cle_thread_cancel :: "addr \<Rightarrow> cle_master \<Rightarrow> cle_master option" where
  "cle_thread_cancel t m = do {
     c \<leftarrow> eth m t;
     m \<leftarrow> (if etype c = T_READ then cle_thread_cancel_read t m
          else if etype c = T_WRITE then cle_thread_cancel_write t m
          else if etype c = T_TIMER then cle_thread_cancel_timer t m
          else if etype c = T_EVENT then unlink_task t m
          else if etype c = T_READY then do { m \<leftarrow> cle_thread_cancel_ready t m; None }
          else None);
     m \<leftarrow> upd_task t (\<lambda>c. c\<lparr>etype := T_UNUSED\<rparr>) m;
     Some (push LUnuse t m) }"

definition cle_thread_timer_wait :: "u64 \<Rightarrow> cle_master \<Rightarrow> int option" where
  "cle_thread_timer_wait now m =
     (case heap m of
        None \<Rightarrow> None
      | Some h \<Rightarrow> do { r \<leftarrow> time_heap_time_wait now h (tnodes m); Some (case r of None \<Rightarrow> 1 | Some w \<Rightarrow> w) })"

text \<open>
  An event of the kernel: its mask and the descriptor of the socket.  The reader and the writer that the mask concerns
  become ready, and what is not persistent is not asked for any more.
\<close>

definition EV_READ :: u32 where "EV_READ = 0x02"
definition EV_WRITE :: u32 where "EV_WRITE = 0x04"

definition event_what :: "u32 \<Rightarrow> u32" where
  "event_what evs =
     (let what = (if evs AND (EPOLLERR OR EPOLLHUP OR EPOLLRDHUP) \<noteq> 0 then EV_READ OR EV_WRITE else 0);
          what = (if evs AND (EPOLLIN OR EPOLLPRI) \<noteq> 0 then what OR EV_READ else what)
      in if evs AND EPOLLOUT \<noteq> 0 then what OR EV_WRITE else what)"

definition make_ready_task :: "addr \<Rightarrow> cle_master \<Rightarrow> cle_master option" where
  "make_ready_task t m = do {
     c \<leftarrow> eth m t;
     if etype c = T_READY then Some m
     else do {
       m \<leftarrow> upd_task t (\<lambda>c. c\<lparr>etype := T_READY\<rparr>) m;
       m \<leftarrow> unlink_task t m;
       Some (push LReady t m) } }"

definition do_event_read :: "u32 \<Rightarrow> cle_socket \<Rightarrow> cle_master \<Rightarrow> (u32 \<times> cle_master) option" where
  "do_event_read what s m =
     (if what AND EV_READ \<noteq> 0 \<and> stype s AND CL_SOCKETS_READ \<noteq> 0
      then if t_read s = NULL then None
           else map_option (Pair (if stype s AND CL_SOCKETS_READ_PERSIST = 0 then EV_READ else 0)) (make_ready_task (t_read s) m)
      else Some (0, m))"

definition do_event_write :: "u32 \<Rightarrow> cle_socket \<Rightarrow> u32 \<Rightarrow> cle_master \<Rightarrow> (u32 \<times> cle_master) option" where
  "do_event_write what s ctl m =
     (if what AND EV_WRITE \<noteq> 0 \<and> stype s AND CL_SOCKETS_WRITE \<noteq> 0
      then if t_write s = NULL then None
           else map_option (Pair (if stype s AND CL_SOCKETS_WRITE_PERSIST = 0 then ctl OR EV_WRITE else ctl)) (make_ready_task (t_write s) m)
      else Some (ctl, m))"

definition rearm_mask :: "u32 \<Rightarrow> u32 \<Rightarrow> u32" where
  "rearm_mask ty ctl =
     (let e = (if ty AND CL_SOCKETS_READ \<noteq> 0 then EPOLLIN else 0);
          e = (if ty AND CL_SOCKETS_WRITE \<noteq> 0 then e OR EPOLLOUT else e);
          e = (if ctl AND EV_READ \<noteq> 0 then e AND NOT EPOLLIN else e)
      in if ctl AND EV_WRITE \<noteq> 0 then e AND NOT EPOLLOUT else e)"

definition cle_thread_do_event :: "u32 \<times> u32 \<Rightarrow> cle_master \<Rightarrow> cle_master option" where
  "cle_thread_do_event = (\<lambda>(evs, fd) m. do {
     s \<leftarrow> sockets m fd;
     let what = event_what evs;
     (ctl, m) \<leftarrow> do_event_read what s m;
     (ctl, m) \<leftarrow> do_event_write what s ctl m;
     if ctl = 0 then Some m
     else let e = rearm_mask (stype s) ctl in
       if e = 0 then Some (put_socket fd (s\<lparr>added := False\<rparr>) (epoll_ctl_del fd m))
       else Some (put_socket fd (s\<lparr>added := True\<rparr>) (epoll_ctl_set (\<not> added s) fd e m)) })"

definition cle_thread_get_read :: "u32 \<Rightarrow> cle_master \<Rightarrow> addr" where
  "cle_thread_get_read sock m = (case cle_thread_socket_lookup sock m of Some s \<Rightarrow> t_read s | None \<Rightarrow> NULL)"

definition cle_thread_get_write :: "u32 \<Rightarrow> cle_master \<Rightarrow> addr" where
  "cle_thread_get_write sock m = (case cle_thread_socket_lookup sock m of Some s \<Rightarrow> t_write s | None \<Rightarrow> NULL)"

definition cle_thread_add_unuse :: "addr \<Rightarrow> cle_master \<Rightarrow> cle_master option" where
  "cle_thread_add_unuse t m = map_option (push LUnuse t) (upd_task t (\<lambda>c. c\<lparr>etype := T_UNUSED\<rparr>) m)"

definition cle_thread_socket_set :: "addr \<Rightarrow> cle_master \<Rightarrow> cle_master option" where
  "cle_thread_socket_set t m = do {
     c \<leftarrow> eth m t;
     let fd = fd_word (eu c);
     case cle_thread_socket_lookup fd m of
       None \<Rightarrow> cle_thread_add_unuse t m
     | Some s \<Rightarrow>
         if t_read s = t then
           (if stype s AND CL_SOCKETS_READ_PERSIST = 0
            then cle_thread_add_unuse t (put_socket fd (s\<lparr>stype := stype s AND NOT CL_SOCKETS_READ, t_read := NULL\<rparr>) m)
            else map_option (push LRead t) (upd_task t (\<lambda>c. c\<lparr>etype := T_READ\<rparr>) m))
         else if t_write s = t then
           (if stype s AND CL_SOCKETS_WRITE_PERSIST = 0
            then cle_thread_add_unuse t (put_socket fd (s\<lparr>stype := stype s AND NOT CL_SOCKETS_WRITE, t_write := NULL\<rparr>) m)
            else map_option (push LWrite t) (upd_task t (\<lambda>c. c\<lparr>etype := T_WRITE\<rparr>) m))
         else Some m }"

definition cle_thread_run :: "addr \<Rightarrow> cle_master \<Rightarrow> (cle_thread \<times> cle_master) option" where
  "cle_thread_run t m = do {
     c \<leftarrow> eth m t;
     map_option (Pair c) (if etype c = T_READY then cle_thread_socket_set t m else cle_thread_add_unuse t m) }"

text \<open>
  A round of the loop of \<open>cl_thread_fetch\<close>.  The environment of a round is the clock and the answer of \<open>epoll_wait\<close>, given
  what is registered and the time to wait: the number of events and the events.
\<close>

type_synonym ep_env = "u64 \<times> ((u32 \<rightharpoonup> u32) \<Rightarrow> int \<Rightarrow> int \<times> (u32 \<times> u32) list)"

definition cle_poll :: "ep_env \<Rightarrow> cle_master \<Rightarrow> (cle_thread option \<times> cle_master) option" where
  "cle_poll e m = do {
     expire \<leftarrow> cle_thread_timer_wait (fst e) m;
     let (n, evs) = snd e (reg (kern m)) expire;
     if n \<le> 0 then Some (None, m)
     else do {
       m \<leftarrow> foldM cle_thread_do_event (take (nat n) evs) m;
       case cle_thread_trim_head LReady m of
         (Some t, m) \<Rightarrow> map_option (apfst Some) (cle_thread_run t m)
       | (None, m) \<Rightarrow> Some (None, m) } }"

definition cle_timer_tick :: "u64 \<Rightarrow> cle_master \<Rightarrow> (addr \<times> cle_master) option" where
  "cle_timer_tick now m =
     (case heap m of
        None \<Rightarrow> None
      | Some h \<Rightarrow> do {
          (t, h, tn) \<leftarrow> cl_time_heap_tick now h (tnodes m);
          Some (t, m\<lparr>heap := Some h, tnodes := tn\<rparr>) })"

definition cle_ready_or_poll :: "ep_env \<Rightarrow> cle_master \<Rightarrow> (cle_thread option \<times> cle_master) option" where
  "cle_ready_or_poll e m =
     (case cle_thread_trim_head LReady m of
        (Some t, m) \<Rightarrow> map_option (apfst Some) (cle_thread_run t m)
      | (None, m) \<Rightarrow> cle_poll e m)"

definition cle_fetch_round :: "ep_env \<Rightarrow> cle_master \<Rightarrow> (cle_thread option \<times> cle_master) option" where
  "cle_fetch_round e m =
     (case cle_thread_trim_head LEvent m of
        (Some t, m) \<Rightarrow> map_option (apfst Some) (cle_thread_run t m)
      | (None, m) \<Rightarrow> do {
          (t, m) \<leftarrow> cle_timer_tick (fst e) m;
          if t \<noteq> NULL
          then do { m \<leftarrow> unlink_task t m; map_option (apfst Some) (cle_thread_run t m) }
          else cle_ready_or_poll e m })"

fun cle_thread_fetch :: "ep_env list \<Rightarrow> cle_master \<Rightarrow> (cle_thread option \<times> cle_master) option" where
  "cle_thread_fetch [] m = Some (None, m)"
| "cle_thread_fetch (e # es) m = do {
     (c, m) \<leftarrow> cle_fetch_round e m;
     case c of Some c \<Rightarrow> Some (Some c, m) | None \<Rightarrow> cle_thread_fetch es m }"

definition cle_lock :: "cle_master \<Rightarrow> cle_master option" where
  "cle_lock m = (if elocked m then None else Some (m\<lparr>elocked := True\<rparr>))"

definition cle_fetch_round_lock :: "ep_env \<Rightarrow> cle_master \<Rightarrow> (cle_thread option \<times> cle_master) option" where
  "cle_fetch_round_lock e m =
     (case cle_thread_trim_head LEvent m of
        (Some t, m) \<Rightarrow> map_option (apfst Some) (cle_thread_run t m)
      | (None, m) \<Rightarrow> do {
          m \<leftarrow> cle_lock m;
          (t, m) \<leftarrow> cle_timer_tick (fst e) m;
          if t \<noteq> NULL
          then do { m \<leftarrow> unlink_task t m; (c, m) \<leftarrow> cle_thread_run t m; Some (Some c, m\<lparr>elocked := False\<rparr>) }
          else cle_ready_or_poll e (m\<lparr>elocked := False\<rparr>) })"

fun cle_thread_fetch_lock :: "ep_env list \<Rightarrow> cle_master \<Rightarrow> (cle_thread option \<times> cle_master) option" where
  "cle_thread_fetch_lock [] m = Some (None, m)"
| "cle_thread_fetch_lock (e # es) m = do {
     (c, m) \<leftarrow> cle_fetch_round_lock e m;
     case c of Some c \<Rightarrow> Some (Some c, m) | None \<Rightarrow> cle_thread_fetch_lock es m }"

definition cle_thread_call :: "(u64 \<Rightarrow> cle_thread \<Rightarrow> cle_master \<Rightarrow> cle_master option) \<Rightarrow> cle_thread \<Rightarrow> cle_master \<Rightarrow> cle_master option" where
  "cle_thread_call call c m = call (efunc c) c m"

text \<open>The result of \<open>cl_thread_init\<close>: \<open>False\<close> is \<open>RS_ERROR\<close>; \<open>fd\<close> is what \<open>epoll_create\<close> returns, \<open>ans\<close> what \<open>epoll_ctl\<close> will.\<close>

definition cle_thread_init :: "int \<Rightarrow> bool \<Rightarrow> (nat \<Rightarrow> bool) \<Rightarrow> nodemem \<Rightarrow> bool \<times> cle_master" where
  "cle_thread_init fd hok ans tn =
     (let m = \<lparr>sockets = Map.empty, lst = (\<lambda>_. []), heap = None, epollfd = fd, elocked = False, tnodes = tn,
               eth = Map.empty, asked = Map.empty, kern = \<lparr>reg = Map.empty, answers = ans, stale = (\<lambda>_. False)\<rparr>\<rparr>
      in if fd < 0 then (False, m)
         else if hok then (True, m\<lparr>heap := Some time_heap_init\<rparr>)
         else (False, m))"

definition cle_thread_free :: "addr \<Rightarrow> cle_master \<Rightarrow> cle_master option" where
  "cle_thread_free t m = do {
     c \<leftarrow> eth m t;
     m \<leftarrow> unlink_task t m;
     Some (m\<lparr>eth := (eth m)(t := None)\<rparr>) }"

definition cle_thread_socket_free :: "u32 \<Rightarrow> cle_socket \<Rightarrow> cle_master \<Rightarrow> cle_master option" where
  "cle_thread_socket_free fd s m = do {
     m \<leftarrow> (if t_read s \<noteq> NULL then cle_thread_free (t_read s) m else Some m);
     m \<leftarrow> (if t_write s \<noteq> NULL then cle_thread_free (t_write s) m else Some m);
     Some (if added s then epoll_ctl_del fd m else m) }"

definition cle_thread_free_all_thread :: "tlist \<Rightarrow> cle_master \<Rightarrow> cle_master option" where
  "cle_thread_free_all_thread l m = foldM cle_thread_free (lst m l) m"

text \<open>The sockets are freed in the order of the tree; \<open>fds\<close> is the sequence of their descriptors.\<close>

definition cle_thread_rb_free :: "u32 list \<Rightarrow> cle_master \<Rightarrow> cle_master option" where
  "cle_thread_rb_free fds m = foldM (\<lambda>fd m. do {
     s \<leftarrow> sockets m fd;
     cle_thread_socket_free fd s (m\<lparr>sockets := (sockets m)(fd := None)\<rparr>) }) fds m"

definition cle_thread_stop :: "u32 list \<Rightarrow> cle_master \<Rightarrow> cle_master option" where
  "cle_thread_stop fds m = do {
     m \<leftarrow> cle_thread_free_all_thread LEvent m;
     m \<leftarrow> cle_thread_free_all_thread LTimer m;
     m \<leftarrow> cle_thread_free_all_thread LReady m;
     m \<leftarrow> cle_thread_free_all_thread LUnuse m;
     tn \<leftarrow> time_head_free (heap m) (tnodes m);
     m \<leftarrow> cle_thread_rb_free fds (m\<lparr>tnodes := tn, heap := None\<rparr>);
     Some (if epollfd m > 0 then m\<lparr>epollfd := 0\<rparr> else m) }"

text \<open>The macros of \<open>cl_thread.h\<close>, which own the pointer to a task.\<close>

definition CLE_THREAD_READ_ON ::
  "addr \<Rightarrow> bool \<Rightarrow> u64 \<Rightarrow> u64 \<Rightarrow> u32 \<Rightarrow> addr option \<Rightarrow> cle_master \<Rightarrow> (addr option \<times> cle_master) option" where
  "CLE_THREAD_READ_ON new sok f a sock t m =
     (case t of None \<Rightarrow> cle_thread_add_read new sok f a sock False m | Some t \<Rightarrow> Some (Some t, m))"

definition CLE_THREAD_WRITE_ON ::
  "addr \<Rightarrow> bool \<Rightarrow> u64 \<Rightarrow> u64 \<Rightarrow> u32 \<Rightarrow> addr option \<Rightarrow> cle_master \<Rightarrow> (addr option \<times> cle_master) option" where
  "CLE_THREAD_WRITE_ON new sok f a sock t m =
     (case t of None \<Rightarrow> cle_thread_add_write new sok f a sock False m | Some t \<Rightarrow> Some (Some t, m))"

definition CLE_THREAD_TIMER_ON ::
  "addr \<Rightarrow> addr \<Rightarrow> u64 \<Rightarrow> u64 \<Rightarrow> u64 \<Rightarrow> u32 \<Rightarrow> addr option \<Rightarrow> cle_master \<Rightarrow> (addr \<times> cle_master) option" where
  "CLE_THREAD_TIMER_ON new nnew now f a tm t m = do {
     m \<leftarrow> (case t of None \<Rightarrow> Some m | Some t \<Rightarrow> cle_thread_cancel t m);
     cle_thread_add_timer new nnew now f a tm m }"

definition CLE_THREAD_TIMER_ON_LOCK ::
  "addr \<Rightarrow> addr \<Rightarrow> u64 \<Rightarrow> u64 \<Rightarrow> u64 \<Rightarrow> u32 \<Rightarrow> addr option \<Rightarrow> cle_master \<Rightarrow> (addr \<times> cle_master) option" where
  "CLE_THREAD_TIMER_ON_LOCK new nnew now f a tm t m = do {
     m \<leftarrow> cle_lock m;
     (t, m) \<leftarrow> CLE_THREAD_TIMER_ON new nnew now f a tm t m;
     Some (t, m\<lparr>elocked := False\<rparr>) }"

definition CLE_THREAD_EVENT_ON :: "addr \<Rightarrow> u64 \<Rightarrow> u64 \<Rightarrow> u32 \<Rightarrow> addr option \<Rightarrow> cle_master \<Rightarrow> (addr \<times> cle_master) option" where
  "CLE_THREAD_EVENT_ON new f a v t m =
     (case t of None \<Rightarrow> cle_thread_add_event new f a v m | Some t \<Rightarrow> Some (t, m))"

definition CLE_THREAD_OFF :: "addr option \<Rightarrow> cle_master \<Rightarrow> (addr option \<times> cle_master) option" where
  "CLE_THREAD_OFF t m = (case t of None \<Rightarrow> Some (None, m) | Some t \<Rightarrow> map_option (Pair None) (cle_thread_cancel t m))"

definition CLE_THREAD_OFF_LOCK :: "addr option \<Rightarrow> cle_master \<Rightarrow> (addr option \<times> cle_master) option" where
  "CLE_THREAD_OFF_LOCK t m =
     (case t of
        None \<Rightarrow> Some (None, m)
      | Some t \<Rightarrow> do { m \<leftarrow> cle_lock m; m \<leftarrow> cle_thread_cancel t m; Some (None, m\<lparr>elocked := False\<rparr>) })"

section \<open>Flags\<close>

lemma and_flag: "(x AND 1 = 0) = (\<not> bit (x :: u32) 0)" "(x AND 2 = 0) = (\<not> bit x 1)" "(x AND 4 = 0) = (\<not> bit x 2)"
  "(x AND 8 = 0) = (\<not> bit x 3)"
  using and_exp_eq_0_iff_not_bit[of x 0] and_exp_eq_0_iff_not_bit[of x 1] and_exp_eq_0_iff_not_bit[of x 2]
    and_exp_eq_0_iff_not_bit[of x 3] by simp_all

lemma flag_iff [simp]:
  "(x AND CL_SOCKETS_READ = 0) = (\<not> bit x 0)" "(x AND CL_SOCKETS_WRITE = 0) = (\<not> bit x 1)"
  "(x AND CL_SOCKETS_READ_PERSIST = 0) = (\<not> bit x 2)" "(x AND CL_SOCKETS_WRITE_PERSIST = 0) = (\<not> bit x 3)"
  "(x AND EPOLLIN = 0) = (\<not> bit x 0)" "(x AND EPOLLOUT = 0) = (\<not> bit x 2)"
  "(x AND EV_READ = 0) = (\<not> bit x 1)" "(x AND EV_WRITE = 0) = (\<not> bit x 2)"
  by (simp_all only: CL_SOCKETS_READ_def CL_SOCKETS_WRITE_def CL_SOCKETS_READ_PERSIST_def CL_SOCKETS_WRITE_PERSIST_def
      EPOLLIN_def EPOLLOUT_def EV_READ_def EV_WRITE_def and_flag)

lemma bit_two: "bit (2 :: u32) n = (n = 1)" "bit (4 :: u32) n = (n = 2)" "bit (8 :: u32) n = (n = 3)"
  using bit_exp_iff[of 1 n, where 'a = u32] bit_exp_iff[of 2 n, where 'a = u32] bit_exp_iff[of 3 n, where 'a = u32]
  by auto

lemma bit_flag [simp]:
  "bit CL_SOCKETS_READ n = (n = 0)" "bit CL_SOCKETS_WRITE n = (n = 1)" "bit CL_SOCKETS_READ_PERSIST n = (n = 2)"
  "bit CL_SOCKETS_WRITE_PERSIST n = (n = 3)" "bit EPOLLIN n = (n = 0)" "bit EPOLLOUT n = (n = 2)"
  "bit EV_READ n = (n = 1)" "bit EV_WRITE n = (n = 2)"
  by (simp_all only: CL_SOCKETS_READ_def CL_SOCKETS_WRITE_def CL_SOCKETS_READ_PERSIST_def CL_SOCKETS_WRITE_PERSIST_def
      EPOLLIN_def EPOLLOUT_def EV_READ_def EV_WRITE_def bit_two bit_1_iff)

lemma bit_not_u32: "n < 32 \<Longrightarrow> bit (NOT x :: u32) n = (\<not> bit x n)"
  by (simp add: bit_not_iff)

lemmas flag_simps = bit_or_iff bit_and_iff bit_not_u32

lemma fd_word_set_fd [simp]: "fd_word (set_fd v u) = v"
proof (rule bit_eqI)
  fix n
  have "(0xFFFFFFFF :: u64) = mask 32" by (simp add: mask_eq_exp_minus_1)
  then have "set_fd v u = (u AND NOT (mask 32)) OR ucast v" by (simp only: set_fd_def)
  then show "bit (fd_word (set_fd v u)) n = bit v n"
    by (auto simp: fd_word_def bit_ucast_iff bit_or_iff bit_and_iff bit_not_iff bit_mask_iff dest: bit_imp_le_length)
qed

declare list_type.simps [simp del]

lemma list_type_inj [simp]: "list_type l = list_type l' \<longleftrightarrow> l = l'"
  by (cases l; cases l'; simp add: list_type.simps)

section \<open>The invariant\<close>

text \<open>
  The record of a socket agrees with its tasks and with what was asked of the kernel: the flags tell whether there is a
  reader and a writer, these are tasks of this descriptor that wait or are ready, \<open>op\<close> tells whether the last request
  was to have the descriptor registered, and a reader or writer that waits, or is persistent, was asked for with its event.
\<close>

definition waits_in :: "cle_master \<Rightarrow> u32 \<Rightarrow> u8 \<Rightarrow> bool \<Rightarrow> nat \<Rightarrow> addr \<Rightarrow> bool" where
  "waits_in m fd ty persist k t \<longleftrightarrow> (\<exists>c. eth m t = Some c \<and> fd_word (eu c) = fd \<and> (etype c = ty \<or> etype c = T_READY) \<and>
     (etype c = ty \<or> persist \<longrightarrow> (\<exists>e. asked m fd = Some e \<and> bit e k)))"

definition sock_ok :: "cle_master \<Rightarrow> u32 \<Rightarrow> cle_socket \<Rightarrow> bool" where
  "sock_ok m fd s \<longleftrightarrow> (t_read s \<noteq> NULL \<longleftrightarrow> bit (stype s) 0) \<and> (t_write s \<noteq> NULL \<longleftrightarrow> bit (stype s) 1) \<and>
     (added s \<longleftrightarrow> asked m fd \<noteq> None) \<and> (t_read s \<noteq> NULL \<longrightarrow> t_read s \<noteq> t_write s) \<and>
     (t_read s \<noteq> NULL \<longrightarrow> waits_in m fd T_READ (bit (stype s) 2) 0 (t_read s)) \<and>
     (t_write s \<noteq> NULL \<longrightarrow> waits_in m fd T_WRITE (bit (stype s) 3) 2 (t_write s))"

definition socks_inv :: "cle_master \<Rightarrow> bool" where
  "socks_inv m \<longleftrightarrow> (\<forall>fd s. sockets m fd = Some s \<longrightarrow> sock_ok m fd s) \<and> dom (asked m) \<subseteq> dom (sockets m)"

text \<open>Each task is in the list of its type, except for the tasks in \<open>D\<close> that an operation has just taken out.\<close>

definition lists_inv :: "addr set \<Rightarrow> cle_master \<Rightarrow> bool" where
  "lists_inv D m \<longleftrightarrow> (\<forall>l. distinct (lst m l)) \<and>
     (\<forall>l. \<forall>t \<in> set (lst m l). t \<notin> D \<and> (\<exists>c. eth m t = Some c \<and> etype c = list_type l)) \<and>
     (\<forall>t. eth m t \<noteq> None \<longrightarrow> t \<notin> D \<longrightarrow> (\<exists>l. t \<in> set (lst m l))) \<and> D \<subseteq> dom (eth m) \<and> eth m NULL = None"

text \<open>A task that waits or is ready is known to the socket of its descriptor.\<close>

definition own_ok :: "cle_master \<Rightarrow> addr \<Rightarrow> cle_thread \<Rightarrow> bool" where
  "own_ok m t c \<longleftrightarrow>
     (etype c = T_READ \<longrightarrow> (\<exists>s. sockets m (fd_word (eu c)) = Some s \<and> t_read s = t)) \<and>
     (etype c = T_WRITE \<longrightarrow> (\<exists>s. sockets m (fd_word (eu c)) = Some s \<and> t_write s = t)) \<and>
     (etype c = T_READY \<longrightarrow> (\<exists>s. sockets m (fd_word (eu c)) = Some s \<and> (t_read s = t \<or> t_write s = t)))"

definition owner_inv :: "addr set \<Rightarrow> cle_master \<Rightarrow> bool" where
  "owner_inv D m \<longleftrightarrow> (\<forall>t c. eth m t = Some c \<longrightarrow> t \<notin> D \<longrightarrow> own_ok m t c)"

text \<open>The timer tasks and the timers of the heap that are not deleted correspond to each other.\<close>

definition timers_inv :: "cle_master \<Rightarrow> bool" where
  "timers_inv m \<longleftrightarrow> (\<exists>h. heap m = Some h \<and> heap_inv h (tnodes m) \<and>
     (\<forall>t \<in> set (lst m LTimer). \<exists>c nd. eth m t = Some c \<and> eu c \<in> set (live h) \<and> tnodes m (eu c) = Some nd \<and> args nd = t) \<and>
     (\<forall>p \<in> set (live h). \<forall>nd. tnodes m p = Some nd \<longrightarrow> args nd \<noteq> NULL \<longrightarrow>
        args nd \<in> set (lst m LTimer) \<and> (\<exists>c. eth m (args nd) = Some c \<and> eu c = p)))"

definition cle_inv :: "cle_master \<Rightarrow> bool" where
  "cle_inv m \<longleftrightarrow> lists_inv {} m \<and> socks_inv m \<and> owner_inv {} m \<and> timers_inv m"

lemma waits_in_cong: "waits_in m fd ty p k t \<Longrightarrow> asked m' fd = asked m fd \<Longrightarrow> eth m' t = eth m t \<Longrightarrow> waits_in m' fd ty p k t"
  by (simp add: waits_in_def)

lemma sock_ok_cong:
  assumes "sock_ok m fd s" "asked m' fd = asked m fd" "t_read s \<noteq> NULL \<longrightarrow> eth m' (t_read s) = eth m (t_read s)"
    "t_write s \<noteq> NULL \<longrightarrow> eth m' (t_write s) = eth m (t_write s)"
  shows "sock_ok m' fd s"
  using assms by (auto simp: sock_ok_def intro: waits_in_cong)

text \<open>Only waiting and ready tasks belong to sockets, each to the socket of its descriptor.\<close>

lemma sock_user:
  assumes "socks_inv m" "sockets m fd = Some s" "t_read s = t \<or> t_write s = t" "t \<noteq> NULL"
  obtains c where "eth m t = Some c" "fd_word (eu c) = fd" "etype c = T_READ \<or> etype c = T_WRITE \<or> etype c = T_READY"
proof -
  have "sock_ok m fd s" using assms(1,2) by (simp add: socks_inv_def)
  then show thesis using that assms(3,4) by (auto simp: sock_ok_def waits_in_def)
qed

definition used :: "cle_master \<Rightarrow> addr \<Rightarrow> bool" where
  "used m t \<longleftrightarrow> (\<exists>fd s. sockets m fd = Some s \<and> (t_read s = t \<or> t_write s = t))"

lemma unused_types:
  assumes "socks_inv m" "t \<noteq> NULL" "\<And>c. eth m t = Some c \<Longrightarrow> etype c = T_UNUSED \<or> etype c = T_TIMER \<or> etype c = T_EVENT"
  shows "\<not> used m t"
  using sock_user[OF assms(1) _ _ assms(2)] assms(3) unfolding used_def by (metis list_type_inj tlist.distinct)

text \<open>One socket and the registration of its descriptor change, and one task that no other socket uses.\<close>

lemma socks_update:
  assumes inv: "socks_inv m" and so: "sockets m' = (sockets m)(fd \<mapsto> s')" and asked: "\<forall>f. f \<noteq> fd \<longrightarrow> asked m' f = asked m f"
    and eth: "\<forall>u. u \<noteq> t \<longrightarrow> eth m' u = eth m u" and t: "t \<noteq> NULL"
      "\<forall>f s. f \<noteq> fd \<longrightarrow> sockets m f = Some s \<longrightarrow> t_read s \<noteq> t \<and> t_write s \<noteq> t"
    and ok: "sock_ok m' fd s'"
  shows "socks_inv m'"
proof -
  have "sock_ok m' f s" if fs: "sockets m' f = Some s" for f s
  proof (cases "f = fd")
    case True
    then show ?thesis using fs ok so by simp
  next
    case False
    then have fs': "sockets m f = Some s" using fs so by simp
    have "sock_ok m f s" using inv fs' by (simp add: socks_inv_def)
    then show ?thesis
      by (rule sock_ok_cong) (use False fs' asked eth t in auto)
  qed
  moreover have "dom (asked m') \<subseteq> dom (sockets m')"
  proof
    fix f
    assume f: "f \<in> dom (asked m')"
    show "f \<in> dom (sockets m')"
    proof (cases "f = fd")
      case False
      then have "f \<in> dom (asked m)" using f asked by (auto simp: dom_def)
      then show ?thesis using inv so False by (auto simp: socks_inv_def)
    qed (simp add: so)
  qed
  ultimately show ?thesis by (simp add: socks_inv_def)
qed

lemma socks_frame:
  assumes "socks_inv m" "\<not> used m t" "\<forall>u. u \<noteq> t \<longrightarrow> eth m' u = eth m u" "sockets m' = sockets m" "asked m' = asked m"
  shows "socks_inv m'"
proof -
  have "sock_ok m' fd s" if fs: "sockets m fd = Some s" for fd s
  proof (rule sock_ok_cong)
    show "sock_ok m fd s" using assms(1) fs by (simp add: socks_inv_def)
  qed (use assms fs in \<open>auto simp: used_def\<close>)
  then show ?thesis using assms by (simp add: socks_inv_def)
qed

lemma timers_frame:
  assumes "timers_inv m" "lst m' LTimer = lst m LTimer" "heap m' = heap m" "tnodes m' = tnodes m"
    "\<forall>u \<in> set (lst m LTimer). eth m' u = eth m u"
  shows "timers_inv m'"
proof -
  obtain h where h: "heap m = Some h" "heap_inv h (tnodes m)"
    "\<forall>t \<in> set (lst m LTimer). \<exists>c nd. eth m t = Some c \<and> eu c \<in> set (live h) \<and> tnodes m (eu c) = Some nd \<and> args nd = t"
    "\<forall>p \<in> set (live h). \<forall>nd. tnodes m p = Some nd \<longrightarrow> args nd \<noteq> NULL \<longrightarrow>
        args nd \<in> set (lst m LTimer) \<and> (\<exists>c. eth m (args nd) = Some c \<and> eu c = p)"
    using assms(1) unfolding timers_inv_def by blast
  show ?thesis unfolding timers_inv_def assms(2-4)
  proof (intro exI[of _ h] conjI ballI allI impI)
    fix t
    assume "t \<in> set (lst m LTimer)"
    then show "\<exists>c nd. eth m' t = Some c \<and> eu c \<in> set (live h) \<and> tnodes m (eu c) = Some nd \<and> args nd = t"
      using h(3) assms(5) by simp
  next
    fix p nd
    assume p: "p \<in> set (live h)" "tnodes m p = Some nd" "args nd \<noteq> NULL"
    then show t: "args nd \<in> set (lst m LTimer)" using h(4) by blast
    show "\<exists>c. eth m' (args nd) = Some c \<and> eu c = p" using h(4) p assms(5) t by metis
  qed (rule h)+
qed

lemma lists_invD:
  assumes "lists_inv D m" "t \<in> set (lst m l)"
  obtains c where "eth m t = Some c" "etype c = list_type l" "t \<notin> D"
  using assms unfolding lists_inv_def by blast

lemma lists_inv_unique: "lists_inv D m \<Longrightarrow> t \<in> set (lst m l) \<Longrightarrow> t \<in> set (lst m l') \<Longrightarrow> l = l'"
  using lists_invD list_type_inj option.inject by metis

lemma lists_inv_pop:
  assumes inv: "lists_inv {} m" and l: "lst m l = t # ts"
  shows "lists_inv {t} (m\<lparr>lst := (lst m)(l := ts)\<rparr>)"
proof -
  let ?m = "m\<lparr>lst := (lst m)(l := ts)\<rparr>"
  have d: "distinct (lst m k)" for k using inv by (simp add: lists_inv_def)
  have tl: "t \<in> set (lst m l)" using l by simp
  have sub: "u \<in> set (lst m k)" "u \<noteq> t" if "u \<in> set (lst ?m k)" for u k
    using that l d[of l] lists_inv_unique[OF inv tl, of k] by (auto split: if_splits)
  have "\<exists>k. u \<in> set (lst ?m k)" if u: "eth m u \<noteq> None" "u \<noteq> t" for u
  proof -
    obtain k where k: "u \<in> set (lst m k)" using inv u(1) unfolding lists_inv_def by blast
    then have "u \<in> set (lst ?m k)" using l u(2) by auto
    then show ?thesis ..
  qed
  moreover have "\<exists>c. eth m u = Some c \<and> etype c = list_type k" if "u \<in> set (lst ?m k)" for u k
    using lists_invD[OF inv sub(1)[OF that]] by metis
  moreover have "distinct (lst ?m k)" for k using d[of k] d[of l] l by auto
  moreover have "eth m t \<noteq> None" using lists_invD[OF inv tl] by (metis option.distinct(1))
  moreover have "eth m NULL = None" using inv by (simp add: lists_inv_def)
  ultimately show ?thesis unfolding lists_inv_def using sub(2) by auto
qed

text \<open>A task that an operation holds: it is in no list and belongs to no socket.\<close>

definition detached :: "addr \<Rightarrow> cle_master \<Rightarrow> bool" where
  "detached t m \<longleftrightarrow> lists_inv {t} m \<and> socks_inv m \<and> owner_inv {t} m \<and> timers_inv m \<and> \<not> used m t \<and> t \<noteq> NULL"

abbreviation calloc_fresh :: "addr \<Rightarrow> cle_master \<Rightarrow> bool" where
  "calloc_fresh new m \<equiv> lst m LUnuse = [] \<longrightarrow> new \<noteq> NULL \<and> eth m new = None"

lemma detached_upd:
  assumes "detached t m"
  obtains c m' where "eth m t = Some c" "upd_task t f m = Some m'" "detached t m'" "eth m' t = Some (f c)"
    "m' = m\<lparr>eth := (eth m)(t \<mapsto> f c)\<rparr>"
proof -
  have li: "lists_inv {t} m" using assms by (simp add: detached_def)
  then obtain c where c: "eth m t = Some c" by (auto simp: lists_inv_def)
  let ?m' = "m\<lparr>eth := (eth m)(t \<mapsto> f c)\<rparr>"
  have nt: "t \<notin> set (lst m l)" for l using li by (auto simp: lists_inv_def)
  have "lists_inv {t} ?m'" using li nt unfolding lists_inv_def by auto
  moreover have "socks_inv ?m'"
    by (rule socks_frame[of m t]) (use assms in \<open>auto simp: detached_def\<close>)
  moreover have "owner_inv {t} ?m'" using assms by (auto simp: detached_def owner_inv_def own_ok_def)
  moreover have "timers_inv ?m'"
    by (rule timers_frame[of m]) (use assms nt in \<open>auto simp: detached_def\<close>)
  ultimately have "detached t ?m'" using assms by (simp add: detached_def used_def)
  then show thesis using that[of c ?m'] c by (simp add: upd_task_def)
qed

lemma get_detached:
  assumes inv: "cle_inv m" and new: "calloc_fresh new m"
  obtains t m' c where "cle_thread_get new ty f a m = Some (t, m')" "detached t m'" "eth m' t = Some c" "etype c = ty"
    "sockets m' = sockets m" "asked m' = asked m" "heap m' = heap m" "tnodes m' = tnodes m" "lst m' LTimer = lst m LTimer"
proof (cases "lst m LUnuse")
  case Nil
  let ?m' = "m\<lparr>eth := (eth m)(new \<mapsto> \<lparr>etype = ty, efunc = f, earg = a, eu = 0\<rparr>)\<rparr>"
  have n: "new \<noteq> NULL" "eth m new = None" using new Nil by auto
  have li: "lists_inv {} m" using inv by (simp add: cle_inv_def)
  have nt: "new \<notin> set (lst m l)" for l
  proof
    assume "new \<in> set (lst m l)"
    from lists_invD[OF li this] show False using n(2) by (metis option.distinct(1))
  qed
  have un: "\<not> used m new" by (rule unused_types) (use inv n in \<open>auto simp: cle_inv_def\<close>)
  have "lists_inv {new} ?m'" using li n nt unfolding lists_inv_def by auto
  moreover have "socks_inv ?m'" by (rule socks_frame[of m new]) (use inv un in \<open>auto simp: cle_inv_def\<close>)
  moreover have "owner_inv {new} ?m'" using inv by (auto simp: cle_inv_def owner_inv_def own_ok_def)
  moreover have "timers_inv ?m'" by (rule timers_frame[of m]) (use inv nt in \<open>auto simp: cle_inv_def\<close>)
  ultimately have "detached new ?m'" using un n by (simp add: detached_def used_def)
  then show thesis using that[of new ?m'] n Nil by (simp add: cle_thread_get_def cle_thread_trim_head_def)
next
  case (Cons t us)
  let ?m1 = "m\<lparr>lst := (lst m)(LUnuse := us)\<rparr>"
  have li: "lists_inv {} m" using inv by (simp add: cle_inv_def)
  obtain c where c: "eth m t = Some c" "etype c = T_UNUSED"
    using lists_invD[OF li, of t LUnuse] Cons by auto
  have tn: "t \<noteq> NULL" using li c by (auto simp: lists_inv_def)
  have un: "\<not> used m t" by (rule unused_types) (use inv c tn in \<open>auto simp: cle_inv_def\<close>)
  have "lists_inv {t} ?m1" by (rule lists_inv_pop[OF li Cons])
  moreover have "socks_inv ?m1" by (rule socks_frame[of m t]) (use inv un in \<open>auto simp: cle_inv_def\<close>)
  moreover have "owner_inv {t} ?m1" using inv by (auto simp: cle_inv_def owner_inv_def own_ok_def)
  moreover have "timers_inv ?m1" by (rule timers_frame[of m]) (use inv in \<open>auto simp: cle_inv_def\<close>)
  ultimately have "detached t ?m1" using un tn by (simp add: detached_def used_def)
  from detached_upd[OF this, of "\<lambda>c. c\<lparr>etype := ty, efunc := f, earg := a\<rparr>"] obtain c' m' where
    m': "upd_task t (\<lambda>c. c\<lparr>etype := ty, efunc := f, earg := a\<rparr>) ?m1 = Some m'" "detached t m'"
    "eth m' t = Some (c'\<lparr>etype := ty, efunc := f, earg := a\<rparr>)"
    "m' = ?m1\<lparr>eth := (eth ?m1)(t \<mapsto> c'\<lparr>etype := ty, efunc := f, earg := a\<rparr>)\<rparr>" by metis
  show thesis by (rule that[OF _ m'(2,3)]) (use m' Cons in \<open>simp_all add: cle_thread_get_def cle_thread_trim_head_def\<close>)
qed


text \<open>Putting a task that is held back into a list.\<close>

lemma lists_inv_push:
  assumes inv: "lists_inv {t} m" and c: "eth m t = Some c" "etype c = list_type l"
  shows "lists_inv {} (push l t m)" "lists_inv {} (push_tail l t m)"
proof -
  have nt: "t \<notin> set (lst m k)" for k using inv unfolding lists_inv_def by blast
  have d: "distinct (lst m k)" for k using inv by (simp add: lists_inv_def)
  have ty: "\<exists>c. eth m u = Some c \<and> etype c = list_type k" if "u \<in> set (lst m k)" for u k
    using lists_invD[OF inv that] by metis
  have mem: "\<exists>k. u \<in> set (lst m k)" if "eth m u \<noteq> None" "u \<noteq> t" for u
    using inv that unfolding lists_inv_def by blast
  have "eth m NULL = None" using inv by (simp add: lists_inv_def)
  then show "lists_inv {} (push l t m)" "lists_inv {} (push_tail l t m)"
    unfolding lists_inv_def push_def push_tail_def using nt d ty mem c by (auto split: if_splits) (metis insert_iff list.set(2), metis UnI1)+
qed

text \<open>
  One task \<open>t\<close> and the socket of one descriptor change, and \<open>t\<close> goes into a list: what has to be shown is that the
  socket agrees with its tasks, that \<open>t\<close> is known to its socket and that the socket keeps its other task.
\<close>

definition keeps_others :: "addr \<Rightarrow> cle_socket option \<Rightarrow> cle_socket \<Rightarrow> bool" where
  "keeps_others t so s' \<longleftrightarrow> (\<forall>s u. so = Some s \<longrightarrow> u \<noteq> t \<longrightarrow> u \<noteq> NULL \<longrightarrow>
     (t_read s = u \<longrightarrow> t_read s' = u) \<and> (t_write s = u \<longrightarrow> t_write s' = u))"

lemma owner_update:
  assumes ow: "owner_inv {t} m" and so: "sockets m' = (sockets m)(fd \<mapsto> s')" and eth: "\<forall>u. u \<noteq> t \<longrightarrow> eth m' u = eth m u"
    and null: "eth m NULL = None" and keep: "keeps_others t (sockets m fd) s'"
    and own: "\<And>c. eth m' t = Some c \<Longrightarrow> own_ok m' t c"
  shows "owner_inv {} m'"
proof -
  have "own_ok m' u c" if c: "eth m' u = Some c" for u c
  proof (cases "u = t")
    case True
    then show ?thesis using own c by simp
  next
    case False
    then have c': "eth m u = Some c" using c eth by simp
    then have "u \<noteq> NULL" using null by auto
    have "own_ok m u c" using ow c' False by (simp add: owner_inv_def)
    then show ?thesis using keep so False \<open>u \<noteq> NULL\<close> unfolding keeps_others_def own_ok_def by auto
  qed
  then show ?thesis by (simp add: owner_inv_def)
qed

definition only_user :: "addr \<Rightarrow> u32 \<Rightarrow> cle_master \<Rightarrow> bool" where
  "only_user t fd m \<longleftrightarrow> (\<forall>f s. f \<noteq> fd \<longrightarrow> sockets m f = Some s \<longrightarrow> t_read s \<noteq> t \<and> t_write s \<noteq> t)"

lemma only_user_fd:
  assumes "socks_inv m" "t \<noteq> NULL" "eth m t = Some c"
  shows "only_user t (fd_word (eu c)) m"
  unfolding only_user_def using sock_user[OF assms(1) _ _ assms(2)] assms(3) option.inject by metis

lemma only_user_detached: "detached t m \<Longrightarrow> only_user t fd m"
  by (auto simp: detached_def only_user_def used_def)

lemma sock_change:
  assumes li: "lists_inv {} m'" and inv: "socks_inv m" "owner_inv {t} m" "timers_inv m" "eth m NULL = None"
    and t: "t \<noteq> NULL" "only_user t fd m" "t \<notin> set (lst m LTimer)"
    and so: "sockets m' = (sockets m)(fd \<mapsto> s')" and asked: "\<And>f. f \<noteq> fd \<Longrightarrow> asked m' f = asked m f"
    and eth: "\<And>u. u \<noteq> t \<Longrightarrow> eth m' u = eth m u"
    and ok: "sock_ok m' fd s'" and own: "\<And>c. eth m' t = Some c \<Longrightarrow> own_ok m' t c"
    and keep: "keeps_others t (sockets m fd) s'"
    and tm: "lst m' LTimer = lst m LTimer" "heap m' = heap m" "tnodes m' = tnodes m"
  shows "cle_inv m'"
proof -
  have "socks_inv m'"
    by (rule socks_update[OF inv(1) so, where t = t]) (use asked eth t ok in \<open>auto simp: only_user_def\<close>)
  moreover have "owner_inv {} m'"
    by (rule owner_update[OF inv(2) so]) (use eth inv(4) keep own in auto)
  moreover have "timers_inv m'"
    by (rule timers_frame[OF inv(3) tm]) (use eth t(3) in metis)
  ultimately show ?thesis using li by (simp add: cle_inv_def)
qed

lemma attach_plain:
  assumes det: "detached t m" and c: "eth m t = Some c" "etype c = list_type l" and l: "l = LUnuse \<or> l = LEvent"
  shows "cle_inv (push l t m)" "cle_inv (push_tail l t m)"
proof -
  have li: "lists_inv {} (push l t m)" "lists_inv {} (push_tail l t m)"
    using lists_inv_push[OF _ c] det by (auto simp: detached_def)
  have so: "socks_inv (push l t m)" "socks_inv (push_tail l t m)"
    by (rule socks_frame[of m t]; use det in \<open>simp add: detached_def push_def push_tail_def\<close>)+
  have "own_ok m t c" using c l by (auto simp: own_ok_def)
  then have "own_ok m u d" if "eth m u = Some d" for u d
    using that det c by (cases "u = t") (auto simp: detached_def owner_inv_def)
  then have ow: "owner_inv {} (push l t m)" "owner_inv {} (push_tail l t m)"
    by (auto simp: owner_inv_def push_def push_tail_def own_ok_def)
  have "timers_inv (push l t m)" "timers_inv (push_tail l t m)"
    by (rule timers_frame[of m]; use det l in \<open>auto simp: detached_def push_def push_tail_def\<close>)+
  then show "cle_inv (push l t m)" "cle_inv (push_tail l t m)" using li so ow by (simp_all add: cle_inv_def)
qed

lemma add_event_ok:
  assumes "cle_inv m" "calloc_fresh new m"
  shows "\<exists>t m'. cle_thread_add_event new f a v m = Some (t, m') \<and> cle_inv m'"
proof (rule get_detached[OF assms, of T_EVENT f a])
  fix t m1 c
  assume g: "cle_thread_get new T_EVENT f a m = Some (t, m1)" "detached t m1" "eth m1 t = Some c" "etype c = T_EVENT"
  show ?thesis
  proof (rule detached_upd[OF g(2), of "\<lambda>c. c\<lparr>eu := set_fd v (eu c)\<rparr>"])
    fix c' m2
    assume u: "eth m1 t = Some c'" "upd_task t (\<lambda>c. c\<lparr>eu := set_fd v (eu c)\<rparr>) m1 = Some m2" "detached t m2"
      "eth m2 t = Some (c'\<lparr>eu := set_fd v (eu c')\<rparr>)"
    have "cle_inv (push_tail LEvent t m2)"
      by (rule attach_plain(2)[OF u(3,4)]) (use g(3,4) u(1) in auto)
    then show ?thesis using g(1) u(2) by (simp add: cle_thread_add_event_def)
  qed
qed

lemma socket_for_ok:
  assumes "cle_inv m" "socket_for sok fd m = Some s"
  shows "cle_inv (put_socket fd s m)" "sock_ok m fd s" "sockets (put_socket fd s m) fd = Some s"
proof -
  have so: "socks_inv m" using assms(1) by (simp add: cle_inv_def)
  show ok: "sock_ok m fd s"
  proof (cases "sockets m fd")
    case None
    then have "asked m fd = None" using so by (auto simp: socks_inv_def dom_def)
    then show ?thesis using assms(2) None
      by (auto simp: socket_for_def cle_thread_socket_calloc_def sock_ok_def split: if_splits)
  next
    case (Some s')
    then show ?thesis using assms(2) so by (simp add: socket_for_def socks_inv_def)
  qed
  have eq: "sockets m fd = Some s \<Longrightarrow> put_socket fd s m = m" by (simp add: fun_upd_idem)
  have old: "sockets m fd = Some s \<or> sockets m fd = None \<and> t_read s = NULL \<and> t_write s = NULL"
    using assms(2) by (auto simp: socket_for_def cle_thread_socket_calloc_def split: option.splits if_splits)
  have "sock_ok (put_socket fd s m) f u" if "((sockets m)(fd \<mapsto> s)) f = Some u" for f u
  proof (rule sock_ok_cong[of m])
    show "sock_ok m f u" using that ok so by (cases "f = fd") (auto simp: socks_inv_def)
  qed simp_all
  then have "socks_inv (put_socket fd s m)" using so by (auto simp: socks_inv_def)
  moreover have "owner_inv {} (put_socket fd s m)"
  proof -
    have "own_ok (put_socket fd s m) u c" if "own_ok m u c" for u c
      using that old by (cases "fd_word (eu c) = fd") (auto simp: own_ok_def)
    then show ?thesis using assms(1) by (simp add: cle_inv_def owner_inv_def)
  qed
  moreover have "timers_inv (put_socket fd s m)"
    by (rule timers_frame[of m]) (use assms(1) in \<open>simp_all add: cle_inv_def\<close>)
  moreover have "lists_inv {} (put_socket fd s m)" using assms(1) by (simp add: cle_inv_def lists_inv_def)
  ultimately show "cle_inv (put_socket fd s m)" by (simp add: cle_inv_def)
qed simp

lemma waits_in_armed:
  "waits_in m fd ty p k t \<Longrightarrow> eth m' t = eth m t \<Longrightarrow> asked m' fd = Some e \<Longrightarrow> bit e k \<Longrightarrow> waits_in m' fd ty p' k t"
  by (auto simp: waits_in_def)

lemma detachedD:
  assumes "detached t m"
  shows "lists_inv {t} m" "socks_inv m" "owner_inv {t} m" "timers_inv m" "t \<noteq> NULL" "eth m NULL = None"
    "t \<notin> set (lst m l)" "only_user t fd m" "sockets m fd = Some s \<Longrightarrow> sock_ok m fd s \<and> t_read s \<noteq> t \<and> t_write s \<noteq> t"
  using assms only_user_detached[OF assms, of fd]
  by (auto simp: detached_def lists_inv_def used_def socks_inv_def)

text \<open>A task that is held becomes the reader or the writer of its socket.\<close>

lemma attach_read:
  assumes det: "detached t m" and c: "eth m t = Some c" "etype c = T_READ" "fd_word (eu c) = fd"
    and s: "sockets m fd = Some s" "\<not> bit (stype s) 0"
    and ty: "bit ty 0" "bit ty 1 = bit (stype s) 1" "bit ty 3 = bit (stype s) 3"
    and e: "bit e 0" "bit (stype s) 1 \<longrightarrow> bit e 2"
    and m': "m' = push_tail LRead t (put_socket fd (s\<lparr>t_read := t, stype := ty, added := True\<rparr>) (m\<lparr>asked := (asked m)(fd \<mapsto> e), kern := k\<rparr>))"
  shows "cle_inv m'"
proof (rule sock_change[of _ m t fd])
  note d = detachedD[OF det]
  have ok: "sock_ok m fd s" "t_read s \<noteq> t" "t_write s \<noteq> t" using d(9)[OF s(1)] by auto
  have "lists_inv {t} (put_socket fd (s\<lparr>t_read := t, stype := ty, added := True\<rparr>) (m\<lparr>asked := (asked m)(fd \<mapsto> e), kern := k\<rparr>))"
    using d(1) by (simp add: lists_inv_def)
  then show "lists_inv {} m'" unfolding m' by (rule lists_inv_push(2)) (use c in auto)
  show "sock_ok m' fd (s\<lparr>t_read := t, stype := ty, added := True\<rparr>)"
    using ok s(2) ty e c d(5) unfolding m' sock_ok_def push_tail_def
    by (auto simp: waits_in_def)
  show "own_ok m' t d" if "eth m' t = Some d" for d
    using that c unfolding m' push_tail_def own_ok_def by auto
  show "keeps_others t (sockets m fd) (s\<lparr>t_read := t, stype := ty, added := True\<rparr>)"
    using ok s by (auto simp: keeps_others_def sock_ok_def)
  show "socks_inv m" "owner_inv {t} m" "timers_inv m" "eth m NULL = None" "t \<noteq> NULL" "only_user t fd m"
    "t \<notin> set (lst m LTimer)" by (rule d)+
qed (simp_all add: m' push_tail_def)

lemma attach_write:
  assumes det: "detached t m" and c: "eth m t = Some c" "etype c = T_WRITE" "fd_word (eu c) = fd"
    and s: "sockets m fd = Some s" "\<not> bit (stype s) 1"
    and ty: "bit ty 1" "bit ty 0 = bit (stype s) 0" "bit ty 2 = bit (stype s) 2"
    and e: "bit e 2" "bit (stype s) 0 \<longrightarrow> bit e 0"
    and m': "m' = push_tail LWrite t (put_socket fd (s\<lparr>t_write := t, stype := ty, added := True\<rparr>) (m\<lparr>asked := (asked m)(fd \<mapsto> e), kern := k\<rparr>))"
  shows "cle_inv m'"
proof (rule sock_change[of _ m t fd])
  note d = detachedD[OF det]
  have ok: "sock_ok m fd s" "t_read s \<noteq> t" "t_write s \<noteq> t" using d(9)[OF s(1)] by auto
  have "lists_inv {t} (put_socket fd (s\<lparr>t_write := t, stype := ty, added := True\<rparr>) (m\<lparr>asked := (asked m)(fd \<mapsto> e), kern := k\<rparr>))"
    using d(1) by (simp add: lists_inv_def)
  then show "lists_inv {} m'" unfolding m' by (rule lists_inv_push(2)) (use c in auto)
  show "sock_ok m' fd (s\<lparr>t_write := t, stype := ty, added := True\<rparr>)"
    using ok s(2) ty e c d(5) unfolding m' sock_ok_def push_tail_def
    by (auto simp: waits_in_def)
  show "own_ok m' t d" if "eth m' t = Some d" for d
    using that c unfolding m' push_tail_def own_ok_def by auto
  show "keeps_others t (sockets m fd) (s\<lparr>t_write := t, stype := ty, added := True\<rparr>)"
    using ok s by (auto simp: keeps_others_def sock_ok_def)
  show "socks_inv m" "owner_inv {t} m" "timers_inv m" "eth m NULL = None" "t \<noteq> NULL" "only_user t fd m"
    "t \<notin> set (lst m LTimer)" by (rule d)+
qed (simp_all add: m' push_tail_def)

lemma add_read_ok:
  assumes inv: "cle_inv m" and new: "calloc_fresh new m" and s: "socket_for sok fd m = Some s"
  shows "\<exists>r m'. cle_thread_add_read new sok f a fd persist m = Some (r, m') \<and> cle_inv m' \<and>
    (r = None \<longleftrightarrow> bit (stype s) 0)"
proof (cases "bit (stype s) 0")
  case True
  then show ?thesis using s socket_for_ok(1)[OF inv s] by (simp add: cle_thread_add_read_def)
next
  case False
  let ?m0 = "put_socket fd s m"
  note sf = socket_for_ok[OF inv s]
  have new': "calloc_fresh new ?m0" using new by simp
  show ?thesis
  proof (rule get_detached[OF sf(1) new', of T_READ f a])
    fix t m1 c
    assume g: "cle_thread_get new T_READ f a ?m0 = Some (t, m1)" "detached t m1" "eth m1 t = Some c" "etype c = T_READ"
      "sockets m1 = sockets ?m0" "asked m1 = asked ?m0"
    show ?thesis
    proof (rule detached_upd[OF g(2), of "\<lambda>c. c\<lparr>eu := set_fd fd (eu c)\<rparr>"])
      fix c' m2
      assume u: "eth m1 t = Some c'" "upd_task t (\<lambda>c. c\<lparr>eu := set_fd fd (eu c)\<rparr>) m1 = Some m2" "detached t m2"
        "eth m2 t = Some (c'\<lparr>eu := set_fd fd (eu c')\<rparr>)" "m2 = m1\<lparr>eth := (eth m1)(t \<mapsto> c'\<lparr>eu := set_fd fd (eu c')\<rparr>)\<rparr>"
      have ss: "sockets m2 fd = Some s" using u(5) g(5) by simp
      let ?ty = "if persist then (stype s OR CL_SOCKETS_READ) OR CL_SOCKETS_READ_PERSIST
        else (stype s OR CL_SOCKETS_READ) AND NOT CL_SOCKETS_READ_PERSIST"
      let ?e = "EPOLLIN OR (if bit (stype s) 1 then EPOLLOUT else 0)"
      let ?k = "kernel_ctl fd ((\<not> added s) = (reg (kern m2) fd = None)) (Some ?e) (kern m2)"
      have "cle_inv (push_tail LRead t (put_socket fd (s\<lparr>t_read := t, stype := ?ty, added := True\<rparr>)
        (m2\<lparr>asked := (asked m2)(fd \<mapsto> ?e), kern := ?k\<rparr>)))" (is "cle_inv ?m'")
        by (rule attach_read[OF u(3,4) _ _ ss False])
          (use g(3,4) u(1) False in \<open>auto simp: flag_simps\<close>)
      moreover have "t_read s = NULL" using sf(2) False by (simp add: sock_ok_def)
      moreover have "cle_thread_add_read new sok f a fd persist m = Some (Some t, ?m')"
        using s False g(1) u(2) \<open>t_read s = NULL\<close>
        by (simp add: cle_thread_add_read_def epoll_ctl_set_def Let_def bit_or_iff cong: if_cong)
      ultimately show ?thesis using False by auto
    qed
  qed
qed

lemma add_write_ok:
  assumes inv: "cle_inv m" and new: "calloc_fresh new m" and s: "socket_for sok fd m = Some s"
  shows "\<exists>r m'. cle_thread_add_write new sok f a fd persist m = Some (r, m') \<and> cle_inv m' \<and>
    (r = None \<longleftrightarrow> bit (stype s) 1)"
proof (cases "bit (stype s) 1")
  case True
  then show ?thesis using s socket_for_ok(1)[OF inv s] by (simp add: cle_thread_add_write_def)
next
  case False
  let ?m0 = "put_socket fd s m"
  note sf = socket_for_ok[OF inv s]
  have new': "calloc_fresh new ?m0" using new by simp
  show ?thesis
  proof (rule get_detached[OF sf(1) new', of T_WRITE f a])
    fix t m1 c
    assume g: "cle_thread_get new T_WRITE f a ?m0 = Some (t, m1)" "detached t m1" "eth m1 t = Some c" "etype c = T_WRITE"
      "sockets m1 = sockets ?m0" "asked m1 = asked ?m0"
    show ?thesis
    proof (rule detached_upd[OF g(2), of "\<lambda>c. c\<lparr>eu := set_fd fd (eu c)\<rparr>"])
      fix c' m2
      assume u: "eth m1 t = Some c'" "upd_task t (\<lambda>c. c\<lparr>eu := set_fd fd (eu c)\<rparr>) m1 = Some m2" "detached t m2"
        "eth m2 t = Some (c'\<lparr>eu := set_fd fd (eu c')\<rparr>)" "m2 = m1\<lparr>eth := (eth m1)(t \<mapsto> c'\<lparr>eu := set_fd fd (eu c')\<rparr>)\<rparr>"
      have ss: "sockets m2 fd = Some s" using u(5) g(5) by simp
      let ?ty = "if persist then (stype s OR CL_SOCKETS_WRITE) OR CL_SOCKETS_WRITE_PERSIST
        else (stype s OR CL_SOCKETS_WRITE) AND NOT CL_SOCKETS_WRITE_PERSIST"
      let ?e = "EPOLLOUT OR (if bit (stype s) 0 then EPOLLIN else 0)"
      let ?k = "kernel_ctl fd ((\<not> added s) = (reg (kern m2) fd = None)) (Some ?e) (kern m2)"
      have "cle_inv (push_tail LWrite t (put_socket fd (s\<lparr>t_write := t, stype := ?ty, added := True\<rparr>)
        (m2\<lparr>asked := (asked m2)(fd \<mapsto> ?e), kern := ?k\<rparr>)))" (is "cle_inv ?m'")
        by (rule attach_write[OF u(3,4) _ _ ss False])
          (use g(3,4) u(1) False in \<open>auto simp: flag_simps\<close>)
      moreover have "t_write s = NULL" using sf(2) False by (simp add: sock_ok_def)
      moreover have "cle_thread_add_write new sok f a fd persist m = Some (Some t, ?m')"
        using s False g(1) u(2) \<open>t_write s = NULL\<close>
        by (simp add: cle_thread_add_write_def epoll_ctl_set_def Let_def bit_or_iff cong: if_cong)
      ultimately show ?thesis using False by auto
    qed
  qed
qed

subsection \<open>Moving a task\<close>

text \<open>A task leaves its list and goes to the front of the list \<open>l\<close>.\<close>

definition moved :: "addr \<Rightarrow> tlist \<Rightarrow> (tlist \<Rightarrow> addr list) \<Rightarrow> tlist \<Rightarrow> addr list" where
  "moved t l L = (\<lambda>k. if k = l then t # remove1 t (L k) else remove1 t (L k))"

lemma lists_inv_cong: "lists_inv D m \<Longrightarrow> lst m' = lst m \<Longrightarrow> eth m' = eth m \<Longrightarrow> lists_inv D m'"
  by (simp add: lists_inv_def)

lemma lists_inv_mem: "lists_inv {} m \<Longrightarrow> eth m t = Some c \<Longrightarrow> \<exists>l. t \<in> set (lst m l) \<and> etype c = list_type l"
  unfolding lists_inv_def by (metis option.distinct(1) option.inject empty_iff)

lemma lists_inv_remove:
  assumes inv: "lists_inv {} m" and c: "eth m t = Some c" and m': "lst m' = (\<lambda>k. remove1 t (lst m k))" "eth m' = (eth m)(t \<mapsto> c')"
  shows "lists_inv {t} m'"
proof -
  have d: "distinct (lst m k)" for k using inv by (simp add: lists_inv_def)
  have ty: "\<exists>c. eth m u = Some c \<and> etype c = list_type k" if "u \<in> set (lst m k)" for u k
    using lists_invD[OF inv that] by metis
  have mem: "\<exists>k. u \<in> set (lst m k)" if "eth m u \<noteq> None" for u
    using inv that unfolding lists_inv_def by blast
  have "eth m NULL = None" using inv by (simp add: lists_inv_def)
  then show ?thesis unfolding lists_inv_def m' using d ty mem c by (auto simp: set_remove1_eq)
qed

lemma lists_inv_move:
  assumes inv: "lists_inv {} m" and c: "eth m t = Some c" and m': "lst m' = moved t l (lst m)" "eth m' = (eth m)(t \<mapsto> c')"
    "etype c' = list_type l"
  shows "lists_inv {} m'"
proof -
  have "lists_inv {t} (m'\<lparr>lst := (\<lambda>k. remove1 t (lst m k))\<rparr>)" (is "lists_inv _ ?n")
    by (rule lists_inv_remove[OF inv c]) (use m' in auto)
  then have "lists_inv {} (push l t ?n)" by (rule lists_inv_push) (use m' in auto)
  then show ?thesis by (rule lists_inv_cong) (auto simp: m' push_def moved_def)
qed

lemma unlink_ok: "lists_inv {} m \<Longrightarrow> eth m t = Some c \<Longrightarrow> lst m' = lst m \<Longrightarrow>
    unlink_task t m' = Some (m'\<lparr>lst := (\<lambda>k. remove1 t (lst m k))\<rparr>)"
  using lists_inv_mem[of m t c] by (auto simp: unlink_task_def all_lists_def) (metis tlist.exhaust)

lemma not_timer: "lists_inv {} m \<Longrightarrow> eth m t = Some c \<Longrightarrow> etype c \<noteq> T_TIMER \<Longrightarrow> t \<notin> set (lst m LTimer)"
  using lists_invD by (metis option.inject)

lemma move_sock:
  assumes inv: "cle_inv m" and c: "eth m t = Some c" "etype c \<noteq> T_TIMER" "fd_word (eu c) = fd"
    and m': "lst m' = moved t l (lst m)" "eth m' = (eth m)(t \<mapsto> c')" "etype c' = list_type l" "l \<noteq> LTimer"
    and so: "sockets m' = (sockets m)(fd \<mapsto> s')" and asked: "\<And>f. f \<noteq> fd \<Longrightarrow> asked m' f = asked m f"
    and ok: "sock_ok m' fd s'" and own: "own_ok m' t c'" and keep: "keeps_others t (sockets m fd) s'"
    and tm: "heap m' = heap m" "tnodes m' = tnodes m"
  shows "cle_inv m'"
proof (rule sock_change[of _ m t fd])
  have li: "lists_inv {} m" and so': "socks_inv m" using inv by (simp_all add: cle_inv_def)
  show "lists_inv {} m'" by (rule lists_inv_move[OF li c(1) m'(1-3)])
  show nt: "t \<noteq> NULL" "eth m NULL = None" using li c(1) by (auto simp: lists_inv_def)
  show "only_user t fd m" using only_user_fd[OF so' nt(1) c(1)] c(3) by simp
  show tt: "t \<notin> set (lst m LTimer)" by (rule not_timer[OF li c(1,2)])
  show "lst m' LTimer = lst m LTimer" using m'(1,4) tt by (simp add: moved_def remove1_idem)
  show "owner_inv {t} m" using inv by (simp add: cle_inv_def owner_inv_def)
  show "own_ok m' t d" if "eth m' t = Some d" for d using that own m'(2) by simp
qed (use inv m' so asked ok keep tm in \<open>auto simp: cle_inv_def\<close>)

subsection \<open>Cancellation\<close>

text \<open>What \<open>_cl_thread_cancel_read\<close> and the end of \<open>cl_thread_cancel\<close> leave.\<close>

lemma moved_unuse: "lst m' = (\<lambda>k. remove1 t (lst m k)) \<Longrightarrow> lst (push l t m') = moved t l (lst m)"
  by (auto simp: push_def moved_def)

lemma cancel_read_ok:
  assumes inv: "cle_inv m" and c: "eth m t = Some c" "etype c = T_READ"
  shows "\<exists>m'. cle_thread_cancel t m = Some m' \<and> cle_inv m' \<and> cle_thread_get_read (fd_word (eu c)) m' = NULL"
proof -
  let ?fd = "fd_word (eu c)" and ?c' = "c\<lparr>etype := T_UNUSED\<rparr>"
  have li: "lists_inv {} m" and so: "socks_inv m" using inv by (simp_all add: cle_inv_def)
  have "own_ok m t c" using inv c by (simp add: cle_inv_def owner_inv_def)
  then obtain s where s: "sockets m ?fd = Some s" "t_read s = t" using c by (auto simp: own_ok_def)
  have ok: "sock_ok m ?fd s" using so s by (simp add: socks_inv_def)
  have nt: "t \<noteq> NULL" using li c by (auto simp: lists_inv_def)
  let ?ty = "stype s AND NOT CL_SOCKETS_READ AND NOT CL_SOCKETS_READ_PERSIST"
  let ?s = "\<lambda>b. s\<lparr>t_read := NULL, stype := ?ty, added := b\<rparr>"
  let ?b = "bit (stype s) 1"
  let ?asked = "if ?b then (asked m)(?fd \<mapsto> EPOLLOUT) else (asked m)(?fd := None)"
  let ?k = "if ?b then kernel_ctl ?fd ((\<not> added s) = (reg (kern m) ?fd = None)) (Some EPOLLOUT) (kern m)
    else kernel_ctl ?fd (reg (kern m) ?fd \<noteq> None) None (kern m)"
  let ?m1 = "m\<lparr>asked := ?asked, kern := ?k, sockets := (sockets m)(?fd \<mapsto> ?s ?b), lst := \<lambda>k. remove1 t (lst m k)\<rparr>"
  let ?m' = "push LUnuse t (?m1\<lparr>eth := (eth m)(t \<mapsto> ?c')\<rparr>)"
  have "cle_cancel_read_sock ?fd s m = Some ?m1"
    unfolding cle_cancel_read_sock_def using unlink_ok[OF li c(1)] s(2)
    by (simp add: epoll_ctl_set_def epoll_ctl_del_def flag_simps)
  then have run: "cle_thread_cancel t m = Some ?m'"
    using c s by (simp add: cle_thread_cancel_def cle_thread_cancel_read_def cle_thread_socket_lookup_def upd_task_def)
  moreover have "cle_inv ?m'"
  proof (rule move_sock[OF inv c(1)])
    show "lst ?m' = moved t LUnuse (lst m)" by (rule moved_unuse) simp
    show "sock_ok ?m' ?fd (?s ?b)" using ok s nt by (auto simp: sock_ok_def push_def flag_simps waits_in_def)
    show "keeps_others t (sockets m ?fd) (?s ?b)" using s by (auto simp: keeps_others_def)
  qed (use c in \<open>auto simp: push_def own_ok_def\<close>)
  moreover have "cle_thread_get_read ?fd ?m' = NULL"
    by (simp add: cle_thread_get_read_def cle_thread_socket_lookup_def push_def)
  ultimately show ?thesis by blast
qed

lemma cancel_write_ok:
  assumes inv: "cle_inv m" and c: "eth m t = Some c" "etype c = T_WRITE"
  shows "\<exists>m'. cle_thread_cancel t m = Some m' \<and> cle_inv m' \<and> cle_thread_get_write (fd_word (eu c)) m' = NULL"
proof -
  let ?fd = "fd_word (eu c)" and ?c' = "c\<lparr>etype := T_UNUSED\<rparr>"
  have li: "lists_inv {} m" and so: "socks_inv m" using inv by (simp_all add: cle_inv_def)
  have "own_ok m t c" using inv c by (simp add: cle_inv_def owner_inv_def)
  then obtain s where s: "sockets m ?fd = Some s" "t_write s = t" using c by (auto simp: own_ok_def)
  have ok: "sock_ok m ?fd s" using so s by (simp add: socks_inv_def)
  have nt: "t \<noteq> NULL" using li c by (auto simp: lists_inv_def)
  let ?ty = "stype s AND NOT CL_SOCKETS_WRITE AND NOT CL_SOCKETS_WRITE_PERSIST"
  let ?s = "\<lambda>b. s\<lparr>t_write := NULL, stype := ?ty, added := b\<rparr>"
  let ?b = "bit (stype s) 0"
  let ?asked = "if ?b then (asked m)(?fd \<mapsto> EPOLLIN) else (asked m)(?fd := None)"
  let ?k = "if ?b then kernel_ctl ?fd ((\<not> added s) = (reg (kern m) ?fd = None)) (Some EPOLLIN) (kern m)
    else kernel_ctl ?fd (reg (kern m) ?fd \<noteq> None) None (kern m)"
  let ?m1 = "m\<lparr>asked := ?asked, kern := ?k, sockets := (sockets m)(?fd \<mapsto> ?s ?b), lst := \<lambda>k. remove1 t (lst m k)\<rparr>"
  let ?m' = "push LUnuse t (?m1\<lparr>eth := (eth m)(t \<mapsto> ?c')\<rparr>)"
  have "cle_cancel_write_sock ?fd s m = Some ?m1"
    unfolding cle_cancel_write_sock_def using unlink_ok[OF li c(1)] s(2)
    by (simp add: epoll_ctl_set_def epoll_ctl_del_def flag_simps)
  then have run: "cle_thread_cancel t m = Some ?m'"
    using c s by (simp add: cle_thread_cancel_def cle_thread_cancel_write_def cle_thread_socket_lookup_def upd_task_def)
  moreover have "cle_inv ?m'"
  proof (rule move_sock[OF inv c(1)])
    show "lst ?m' = moved t LUnuse (lst m)" by (rule moved_unuse) simp
    show "sock_ok ?m' ?fd (?s ?b)" using ok s nt by (auto simp: sock_ok_def push_def flag_simps waits_in_def)
    show "keeps_others t (sockets m ?fd) (?s ?b)" using s by (auto simp: keeps_others_def)
  qed (use c in \<open>auto simp: push_def own_ok_def\<close>)
  moreover have "cle_thread_get_write ?fd ?m' = NULL"
    by (simp add: cle_thread_get_write_def cle_thread_socket_lookup_def push_def)
  ultimately show ?thesis by blast
qed

text \<open>A task of a plain event belongs to no socket and no timer.\<close>

lemma detach_event:
  assumes inv: "cle_inv m" and c: "eth m t = Some c" "etype c = T_EVENT"
  shows "detached t (m\<lparr>lst := (\<lambda>k. remove1 t (lst m k))\<rparr>)" (is "detached t ?m")
proof -
  have li: "lists_inv {} m" using inv by (simp add: cle_inv_def)
  have nt: "t \<noteq> NULL" using li c by (auto simp: lists_inv_def)
  have un: "\<not> used m t" by (rule unused_types) (use inv c nt in \<open>auto simp: cle_inv_def\<close>)
  have tt: "t \<notin> set (lst m LTimer)" by (rule not_timer[OF li c(1)]) (simp add: c)
  have "lists_inv {t} ?m" by (rule lists_inv_remove[OF li c(1), where c' = c]) (use c in auto)
  moreover have "socks_inv ?m" by (rule socks_frame[of m t]) (use inv un in \<open>auto simp: cle_inv_def\<close>)
  moreover have "owner_inv {t} ?m" using inv by (auto simp: cle_inv_def owner_inv_def own_ok_def)
  moreover have "timers_inv ?m"
    by (rule timers_frame[of m]) (use inv tt in \<open>auto simp: cle_inv_def remove1_idem\<close>)
  ultimately show ?thesis using un nt by (simp add: detached_def used_def)
qed

lemma attach_unuse:
  assumes "detached t m"
  shows "\<exists>m'. cle_thread_add_unuse t m = Some m' \<and> cle_inv m'"
proof (rule detached_upd[OF assms, of "\<lambda>c. c\<lparr>etype := T_UNUSED\<rparr>"])
  fix c m1
  assume u: "upd_task t (\<lambda>c. c\<lparr>etype := T_UNUSED\<rparr>) m = Some m1" "detached t m1" "eth m1 t = Some (c\<lparr>etype := T_UNUSED\<rparr>)"
  have "cle_inv (push LUnuse t m1)" by (rule attach_plain(1)[OF u(2,3)]) auto
  then show ?thesis using u(1) by (simp add: cle_thread_add_unuse_def)
qed

lemma cancel_event_ok:
  assumes inv: "cle_inv m" and c: "eth m t = Some c" "etype c = T_EVENT"
  shows "\<exists>m'. cle_thread_cancel t m = Some m' \<and> cle_inv m'"
proof -
  have li: "lists_inv {} m" using inv by (simp add: cle_inv_def)
  show ?thesis using attach_unuse[OF detach_event[OF inv c]] unlink_ok[OF li c(1), of m] c
    by (auto simp: cle_thread_cancel_def cle_thread_add_unuse_def)
qed

subsection \<open>Events\<close>

text \<open>The reader or the writer of a socket becomes ready; it stays registered.\<close>

definition is_ready :: "cle_master \<Rightarrow> addr \<Rightarrow> bool" where
  "is_ready m t \<longleftrightarrow> (\<exists>c. eth m t = Some c \<and> etype c = T_READY)"

lemma waits_ready:
  "waits_in m fd ty p k t \<Longrightarrow> eth m t = Some c \<Longrightarrow> etype c \<noteq> T_READY \<Longrightarrow> eth m' t = Some (c\<lparr>etype := T_READY\<rparr>) \<Longrightarrow>
    asked m' = asked m \<Longrightarrow> waits_in m' fd ty p k t"
  by (simp add: waits_in_def)

lemma waits_rearm:
  "waits_in m fd ty p k t \<Longrightarrow> eth m' = eth m \<Longrightarrow> (\<exists>e. asked m' fd = Some e \<and> bit e k) \<or> is_ready m t \<and> \<not> p \<Longrightarrow>
    ty \<noteq> T_READY \<Longrightarrow> waits_in m' fd ty p k t"
  by (auto simp: waits_in_def is_ready_def)

lemma make_ready_ok:
  assumes inv: "cle_inv m" and s: "sockets m fd = Some s" "t_read s = t \<or> t_write s = t" and t: "t \<noteq> NULL"
  shows "\<exists>m'. make_ready_task t m = Some m' \<and> cle_inv m' \<and> is_ready m' t \<and> sockets m' = sockets m \<and> asked m' = asked m \<and>
    (\<forall>u. u \<noteq> t \<longrightarrow> eth m' u = eth m u)"
proof -
  have li: "lists_inv {} m" and so: "socks_inv m" using inv by (simp_all add: cle_inv_def)
  obtain c where c: "eth m t = Some c" "fd_word (eu c) = fd" "etype c = T_READ \<or> etype c = T_WRITE \<or> etype c = T_READY"
    using sock_user[OF so s t] by metis
  have ok: "sock_ok m fd s" using so s by (simp add: socks_inv_def)
  show ?thesis
  proof (cases "etype c = T_READY")
    case True
    then show ?thesis using c inv by (simp add: make_ready_task_def is_ready_def)
  next
    case False
    let ?c' = "c\<lparr>etype := T_READY\<rparr>"
    let ?m' = "push LReady t (m\<lparr>eth := (eth m)(t \<mapsto> ?c'), lst := (\<lambda>k. remove1 t (lst m k))\<rparr>)"
    have "unlink_task t (m\<lparr>eth := (eth m)(t \<mapsto> ?c')\<rparr>) =
        Some (m\<lparr>eth := (eth m)(t \<mapsto> ?c'), lst := (\<lambda>k. remove1 t (lst m k))\<rparr>)"
      using unlink_ok[OF li c(1), of "m\<lparr>eth := (eth m)(t \<mapsto> ?c')\<rparr>"] by simp
    then have run: "make_ready_task t m = Some ?m'" using c False by (simp add: make_ready_task_def upd_task_def)
    have so': "sockets ?m' = (sockets m)(fd \<mapsto> s)" using s by (auto simp: push_def)
    have "cle_inv ?m'"
    proof (rule move_sock[OF inv c(1) _ c(2) _ _ _ _ so'])
      show "lst ?m' = moved t LReady (lst m)" by (rule moved_unuse) simp
      have "waits_in ?m' fd ty p k u" if "waits_in m fd ty p k u" for ty p k u
        using waits_ready[OF _ c(1) False, of fd ty p k ?m'] waits_in_cong[OF that, of ?m'] that
        by (cases "u = t") (simp_all add: push_def)
      then show "sock_ok ?m' fd s" using ok by (simp add: sock_ok_def push_def)
      show "own_ok ?m' t ?c'" using s c by (simp add: own_ok_def push_def)
      show "keeps_others t (sockets m fd) s" using s by (simp add: keeps_others_def)
    qed (use c in \<open>auto simp: push_def\<close>)
    then show ?thesis using run by (auto simp: push_def is_ready_def)
  qed
qed

lemma rearm_mask_bits:
  "bit (rearm_mask ty ctl) 0 \<longleftrightarrow> bit ty 0 \<and> \<not> bit ctl 1" "bit (rearm_mask ty ctl) 2 \<longleftrightarrow> bit ty 1 \<and> \<not> bit ctl 2"
  by (auto simp: rearm_mask_def flag_simps)

text \<open>The registration of a socket with a ready task is renewed.\<close>

lemma rearm_ok:
  assumes inv: "cle_inv m" and s: "sockets m fd = Some s" and some: "t_read s \<noteq> NULL \<or> t_write s \<noteq> NULL"
    and ctl: "bit ctl 1 \<Longrightarrow> is_ready m (t_read s) \<and> \<not> bit (stype s) 2" "bit ctl 2 \<Longrightarrow> is_ready m (t_write s) \<and> \<not> bit (stype s) 3"
    and e: "e = rearm_mask (stype s) ctl"
    and m': "m' = m\<lparr>asked := (asked m)(fd := if e = 0 then None else Some e), kern := k, sockets := (sockets m)(fd \<mapsto> s\<lparr>added := e \<noteq> 0\<rparr>)\<rparr>"
  shows "cle_inv m'"
proof -
  have li: "lists_inv {} m" and so: "socks_inv m" using inv by (simp_all add: cle_inv_def)
  have ok: "sock_ok m fd s" using so s by (simp add: socks_inv_def)
  obtain t where t: "t \<noteq> NULL" "t_read s = t \<or> t_write s = t" using some by blast
  obtain c where c: "eth m t = Some c" "fd_word (eu c) = fd" "etype c = T_READ \<or> etype c = T_WRITE \<or> etype c = T_READY"
    using sock_user[OF so s t(2,1)] by metis
  have z: "e = 0 \<Longrightarrow> \<not> bit e k" for k by simp
  have eb: "bit e 0 \<longleftrightarrow> bit (stype s) 0 \<and> \<not> bit ctl 1" "bit e 2 \<longleftrightarrow> bit (stype s) 1 \<and> \<not> bit ctl 2"
    unfolding e by (rule rearm_mask_bits)+
  show ?thesis
  proof (rule sock_change[of _ m t fd])
    show "lists_inv {} m'" by (rule lists_inv_cong[OF li]) (simp_all add: m')
    show "only_user t fd m" using only_user_fd[OF so t(1) c(1)] c(2) by simp
    show "t \<notin> set (lst m LTimer)" by (rule not_timer[OF li c(1)]) (use c in auto)
    have "own_ok m t c" using inv c by (simp add: cle_inv_def owner_inv_def)
    then show "own_ok m' t d" if "eth m' t = Some d" for d
      using that c s by (auto simp: m' own_ok_def)
    show "keeps_others t (sockets m fd) (s\<lparr>added := e \<noteq> 0\<rparr>)" using s by (simp add: keeps_others_def)
    have r: "waits_in m' fd ty p k u" if "waits_in m fd ty p k u" "bit e k \<or> is_ready m u \<and> \<not> p" "ty \<noteq> T_READY" for ty p k u
      by (rule waits_rearm[OF that(1)]) (use that(2,3) z[of k] in \<open>auto simp: m'\<close>)
    have "waits_in m' fd T_READ (bit (stype s) 2) 0 (t_read s)" if "t_read s \<noteq> NULL"
      using r[of T_READ "bit (stype s) 2" 0 "t_read s"] that ok ctl(1) eb(1) by (auto simp: sock_ok_def)
    moreover have "waits_in m' fd T_WRITE (bit (stype s) 3) 2 (t_write s)" if "t_write s \<noteq> NULL"
      using r[of T_WRITE "bit (stype s) 3" 2 "t_write s"] that ok ctl(2) eb(2) by (auto simp: sock_ok_def)
    ultimately show "sock_ok m' fd (s\<lparr>added := e \<noteq> 0\<rparr>)"
      using ok by (simp add: sock_ok_def m')
  qed (use inv t li in \<open>auto simp: m' cle_inv_def owner_inv_def lists_inv_def\<close>)
qed

lemma do_event_read_ok:
  assumes inv: "cle_inv m" and s: "sockets m fd = Some s"
  shows "\<exists>ctl m'. do_event_read w s m = Some (ctl, m') \<and> cle_inv m' \<and> sockets m' = sockets m \<and> asked m' = asked m \<and>
      \<not> bit ctl 2 \<and> (bit ctl 1 \<longrightarrow> is_ready m' (t_read s) \<and> \<not> bit (stype s) 2) \<and> (ctl \<noteq> 0 \<longrightarrow> t_read s \<noteq> NULL)"
proof (cases "bit w 1 \<and> bit (stype s) 0")
  case True
  have ok: "sock_ok m fd s" using inv s by (simp add: cle_inv_def socks_inv_def)
  then have t: "t_read s \<noteq> NULL" using True by (simp add: sock_ok_def)
  show ?thesis using make_ready_ok[OF inv s, of "t_read s"] t True by (auto simp: do_event_read_def)
next
  case False
  then show ?thesis using inv by (auto simp: do_event_read_def)
qed

lemma do_event_write_ok:
  assumes inv: "cle_inv m1" and s: "sockets m1 fd = Some s" and r: "sockets m1 = sockets m" "asked m1 = asked m"
    "\<not> bit ctl 2" "bit ctl 1 \<longrightarrow> is_ready m1 (t_read s) \<and> \<not> bit (stype s) 2" "ctl \<noteq> 0 \<longrightarrow> t_read s \<noteq> NULL"
  shows "\<exists>ctl' m2. do_event_write w s ctl m1 = Some (ctl', m2) \<and> cle_inv m2 \<and> sockets m2 = sockets m \<and> asked m2 = asked m \<and>
      (bit ctl' 1 \<longrightarrow> is_ready m2 (t_read s) \<and> \<not> bit (stype s) 2) \<and>
      (bit ctl' 2 \<longrightarrow> is_ready m2 (t_write s) \<and> \<not> bit (stype s) 3) \<and>
      (ctl' \<noteq> 0 \<longrightarrow> t_read s \<noteq> NULL \<or> t_write s \<noteq> NULL)"
proof (cases "bit w 2 \<and> bit (stype s) 1")
  case True
  have ok: "sock_ok m1 fd s" using inv s by (simp add: cle_inv_def socks_inv_def)
  then have t: "t_write s \<noteq> NULL" using True by (simp add: sock_ok_def)
  obtain m2 where m2: "make_ready_task (t_write s) m1 = Some m2" "cle_inv m2" "is_ready m2 (t_write s)"
      "sockets m2 = sockets m1" "asked m2 = asked m1" "\<forall>u. u \<noteq> t_write s \<longrightarrow> eth m2 u = eth m1 u"
    using make_ready_ok[OF inv s, of "t_write s"] t by auto
  have "is_ready m1 (t_read s) \<Longrightarrow> is_ready m2 (t_read s)"
    using m2(3,6) by (cases "t_read s = t_write s") (auto simp: is_ready_def)
  then show ?thesis using t True m2(1-5) r by (auto simp: do_event_write_def bit_or_iff)
next
  case False
  then show ?thesis using inv r by (auto simp: do_event_write_def)
qed

lemma do_event_ok:
  assumes inv: "cle_inv m" and s: "sockets m fd = Some s"
  shows "\<exists>m'. cle_thread_do_event (evs, fd) m = Some m' \<and> cle_inv m' \<and> dom (sockets m') = dom (sockets m)"
proof -
  have ok: "sock_ok m fd s" using inv s by (simp add: cle_inv_def socks_inv_def)
  let ?w = "event_what evs"
  have "\<exists>ctl m1. do_event_read ?w s m = Some (ctl, m1) \<and> cle_inv m1 \<and> sockets m1 = sockets m \<and> asked m1 = asked m \<and>
      \<not> bit ctl 2 \<and> (bit ctl 1 \<longrightarrow> is_ready m1 (t_read s) \<and> \<not> bit (stype s) 2) \<and> (ctl \<noteq> 0 \<longrightarrow> t_read s \<noteq> NULL)"
    by (rule do_event_read_ok[OF inv s])
  then obtain ctl m1 where r: "do_event_read ?w s m = Some (ctl, m1)" "cle_inv m1" "sockets m1 = sockets m" "asked m1 = asked m"
      "\<not> bit ctl 2" "bit ctl 1 \<longrightarrow> is_ready m1 (t_read s) \<and> \<not> bit (stype s) 2" "ctl \<noteq> 0 \<longrightarrow> t_read s \<noteq> NULL" by blast
  have s1: "sockets m1 fd = Some s" using s r(3) by simp
  have "\<exists>ctl' m2. do_event_write ?w s ctl m1 = Some (ctl', m2) \<and> cle_inv m2 \<and> sockets m2 = sockets m \<and> asked m2 = asked m \<and>
      (bit ctl' 1 \<longrightarrow> is_ready m2 (t_read s) \<and> \<not> bit (stype s) 2) \<and>
      (bit ctl' 2 \<longrightarrow> is_ready m2 (t_write s) \<and> \<not> bit (stype s) 3) \<and>
      (ctl' \<noteq> 0 \<longrightarrow> t_read s \<noteq> NULL \<or> t_write s \<noteq> NULL)"
    by (rule do_event_write_ok[OF r(2) s1 r(3-7)])
  then obtain ctl' m2 where w: "do_event_write ?w s ctl m1 = Some (ctl', m2)" "cle_inv m2" "sockets m2 = sockets m" "asked m2 = asked m"
      "bit ctl' 1 \<Longrightarrow> is_ready m2 (t_read s) \<and> \<not> bit (stype s) 2" "bit ctl' 2 \<Longrightarrow> is_ready m2 (t_write s) \<and> \<not> bit (stype s) 3"
      "ctl' \<noteq> 0 \<Longrightarrow> t_read s \<noteq> NULL \<or> t_write s \<noteq> NULL" by blast
  have s2: "sockets m2 fd = Some s" using s w(3) by simp
  let ?e = "rearm_mask (stype s) ctl'"
  let ?k = "if ?e = 0 then kernel_ctl fd (reg (kern m2) fd \<noteq> None) None (kern m2)
    else kernel_ctl fd ((\<not> added s) = (reg (kern m2) fd = None)) (Some ?e) (kern m2)"
  let ?m' = "m2\<lparr>asked := (asked m2)(fd := if ?e = 0 then None else Some ?e), kern := ?k, sockets := (sockets m2)(fd \<mapsto> s\<lparr>added := ?e \<noteq> 0\<rparr>)\<rparr>"
  show ?thesis
  proof (cases "ctl' = 0")
    case True
    then show ?thesis using s r(1) w(1-3) by (simp add: cle_thread_do_event_def)
  next
    case False
    have "cle_inv ?m'" by (rule rearm_ok[OF w(2) s2 w(7)[OF False] w(5,6) refl refl])
    moreover have "cle_thread_do_event (evs, fd) m = Some ?m'"
      using s r(1) w(1) False by (simp add: cle_thread_do_event_def epoll_ctl_set_def epoll_ctl_del_def Let_def)
    ultimately show ?thesis using w(3) s by auto
  qed
qed

subsection \<open>The kernel\<close>

text \<open>
  What is registered belongs to sockets, and it is what was asked for last, except for the descriptors whose last call
  failed or that were closed.
\<close>

definition kern_inv :: "cle_master \<Rightarrow> bool" where
  "kern_inv m \<longleftrightarrow> dom (reg (kern m)) \<subseteq> dom (sockets m) \<and> (\<forall>fd. stale (kern m) fd \<or> reg (kern m) fd = asked m fd)"

lemma kern_inv_frame [simp]:
  "kern_inv (m\<lparr>lst := L\<rparr>) = kern_inv m" "kern_inv (m\<lparr>eth := T\<rparr>) = kern_inv m" "kern_inv (m\<lparr>heap := h\<rparr>) = kern_inv m"
  "kern_inv (m\<lparr>tnodes := tn\<rparr>) = kern_inv m" "kern_inv (push l t m) = kern_inv m" "kern_inv (push_tail l t m) = kern_inv m"
  "sockets (push l t m) = sockets m" "sockets (push_tail l t m) = sockets m"
  by (simp_all add: kern_inv_def push_def push_tail_def)

lemma kern_put: "kern_inv m \<Longrightarrow> kern_inv (put_socket fd s m)"
  by (auto simp: kern_inv_def)

lemma kern_ctl: "kern_inv m \<Longrightarrow> sockets m fd = Some s \<Longrightarrow> kern_inv (epoll_ctl_set b fd e m)"
  "kern_inv m \<Longrightarrow> kern_inv (epoll_ctl_del fd m)" "kern_inv m \<Longrightarrow> kern_inv (close_fd fd m)"
  by (auto simp: kern_inv_def epoll_ctl_set_def epoll_ctl_del_def kernel_ctl_def close_fd_def Let_def)

lemma kern_unlink: "unlink_task t m = Some m' \<Longrightarrow> kern_inv m' = kern_inv m \<and> sockets m' = sockets m"
  by (auto simp: unlink_task_def split: if_splits)

lemma kern_upd: "upd_task t f m = Some m' \<Longrightarrow> kern_inv m' = kern_inv m \<and> sockets m' = sockets m"
  by (auto simp: upd_task_def split: option.splits)

lemma kern_trim: "cle_thread_trim_head l m = (r, m') \<Longrightarrow> kern_inv m' = kern_inv m \<and> sockets m' = sockets m"
  by (auto simp: cle_thread_trim_head_def split: list.splits)

lemma kern_get: "cle_thread_get new ty f a m = Some (t, m') \<Longrightarrow> kern_inv m' = kern_inv m \<and> sockets m' = sockets m"
  by (auto simp: cle_thread_get_def dest!: kern_trim kern_upd split: prod.splits option.splits if_splits)

lemma kern_make_ready: "make_ready_task t m = Some m' \<Longrightarrow> kern_inv m' = kern_inv m \<and> sockets m' = sockets m"
  by (auto simp: make_ready_task_def bind_eq_Some_iff dest!: kern_unlink kern_upd split: if_splits)

lemma kern_add:
  assumes "kern_inv m"
  shows "cle_thread_add_read new sok f a fd p m = Some (r, m') \<Longrightarrow> kern_inv m'"
    and "cle_thread_add_write new sok f a fd p m = Some (r, m') \<Longrightarrow> kern_inv m'"
    and "cle_thread_add_event new f a v m = Some (t, m') \<Longrightarrow> kern_inv m'"
    and "cle_thread_add_timer new nnew now f a tm m = Some (t, m') \<Longrightarrow> kern_inv m'"
  using assms
  by (auto simp: cle_thread_add_read_def cle_thread_add_write_def cle_thread_add_event_def cle_thread_add_timer_def Let_def
      bind_eq_Some_iff intro!: kern_put kern_ctl dest!: kern_get kern_upd split: if_splits)

lemma kern_cancel_sock:
  assumes "kern_inv m" "sockets m fd = Some s"
  shows "cle_cancel_read_sock fd s m = Some m' \<Longrightarrow> kern_inv m'" "cle_cancel_write_sock fd s m = Some m' \<Longrightarrow> kern_inv m'"
  using assms kern_put[OF kern_ctl(1)[OF assms]] kern_put[OF kern_ctl(2)[OF assms(1)]]
  by (auto simp: cle_cancel_read_sock_def cle_cancel_write_sock_def Let_def dest!: kern_unlink split: if_splits)

lemma kern_cancel: "kern_inv m \<Longrightarrow> cle_thread_cancel t m = Some m' \<Longrightarrow> kern_inv m'"
  by (auto simp: cle_thread_cancel_def cle_thread_cancel_read_def cle_thread_cancel_write_def cle_thread_cancel_timer_def
      cle_thread_socket_lookup_def bind_eq_Some_iff dest!: kern_upd dest: kern_unlink kern_cancel_sock
      split: if_splits option.splits)

lemma kern_do_event:
  assumes "kern_inv m" "cle_thread_do_event (evs, fd) m = Some m'"
  shows "kern_inv m'"
proof -
  obtain s x m1 y m2 where r: "sockets m fd = Some s" "do_event_read (event_what evs) s m = Some (x, m1)"
      "do_event_write (event_what evs) s x m1 = Some (y, m2)"
      "(if y = 0 then Some m2
        else if rearm_mask (stype s) y = 0 then Some (put_socket fd (s\<lparr>added := False\<rparr>) (epoll_ctl_del fd m2))
        else Some (put_socket fd (s\<lparr>added := True\<rparr>) (epoll_ctl_set (\<not> added s) fd (rearm_mask (stype s) y) m2))) = Some m'"
    using assms(2) unfolding cle_thread_do_event_def Let_def by (auto simp: bind_eq_Some_iff)
  have 1: "kern_inv m1 = kern_inv m \<and> sockets m1 = sockets m"
    using r(2) kern_make_ready[of "t_read s" m m1] by (auto simp: do_event_read_def split: if_splits)
  have 2: "kern_inv m2 = kern_inv m1 \<and> sockets m2 = sockets m1"
    using r(3) kern_make_ready[of "t_write s" m1 m2] by (auto simp: do_event_write_def split: if_splits)
  have "kern_inv m2" "sockets m2 fd = Some s" using 1 2 assms(1) r(1) by auto
  then show ?thesis using r(4) kern_put[OF kern_ctl(1)] kern_put[OF kern_ctl(2)] by (auto split: if_splits)
qed

lemma kern_unuse: "cle_thread_add_unuse t m = Some m' \<Longrightarrow> kern_inv m' = kern_inv m"
  by (auto simp: cle_thread_add_unuse_def dest: kern_upd)

lemma kern_socket_set:
  assumes "kern_inv m" "cle_thread_socket_set t m = Some m'"
  shows "kern_inv m'"
proof -
  note p = kern_put[OF assms(1)]
  obtain c where c: "eth m t = Some c" using assms(2) by (auto simp: cle_thread_socket_set_def bind_eq_Some_iff)
  have keep: "map_option (push l t) (upd_task t f m) = Some m' \<Longrightarrow> kern_inv m'" for l f
    using kern_upd assms(1) by auto
  show ?thesis using assms c p kern_unuse keep
    by (cases "sockets m (fd_word (eu c))")
      (auto simp: cle_thread_socket_set_def cle_thread_socket_lookup_def Let_def simp del: map_option_eq_Some split: if_splits)
qed

lemma kern_run: "kern_inv m \<Longrightarrow> cle_thread_run t m = Some (c, m') \<Longrightarrow> kern_inv m'"
  by (auto simp: cle_thread_run_def bind_eq_Some_iff dest: kern_unuse kern_socket_set split: if_splits)

lemma kern_events: "kern_inv m \<Longrightarrow> foldM cle_thread_do_event evs m = Some m' \<Longrightarrow> kern_inv m'"
proof (induction evs arbitrary: m)
  case (Cons e es)
  then obtain m1 where "cle_thread_do_event e m = Some m1" "foldM cle_thread_do_event es m1 = Some m'"
    by (auto simp: bind_eq_Some_iff)
  then show ?case using Cons kern_do_event[of m "fst e" "snd e" m1] by simp
qed simp

lemma kern_head:
  assumes "kern_inv m"
    and "(case cle_thread_trim_head l m of
      (Some t, m) \<Rightarrow> map_option (apfst Some) (cle_thread_run t m) | (None, m) \<Rightarrow> k m) = Some (r, m')"
    and "\<And>n. kern_inv n \<Longrightarrow> k n = Some (r, m') \<Longrightarrow> kern_inv m'"
  shows "kern_inv m'"
proof -
  obtain x n where x: "cle_thread_trim_head l m = (x, n)" by (cases "cle_thread_trim_head l m")
  show ?thesis using assms x kern_trim[OF x] kern_run by (cases x) auto
qed

lemma kern_poll: "kern_inv m \<Longrightarrow> cle_poll e m = Some (r, m') \<Longrightarrow> kern_inv m'"
proof -
  assume i: "kern_inv m" and p: "cle_poll e m = Some (r, m')"
  then obtain w where w: "cle_thread_timer_wait (fst e) m = Some w" by (auto simp: cle_poll_def bind_eq_Some_iff)
  obtain n evs where n: "snd e (reg (kern m)) w = (n, evs)" by (cases "snd e (reg (kern m)) w")
  show ?thesis
  proof (cases "n \<le> 0")
    case False
    then obtain m1 where m1: "foldM cle_thread_do_event (take (nat n) evs) m = Some m1"
      "(case cle_thread_trim_head LReady m1 of
         (Some t, m) \<Rightarrow> map_option (apfst Some) (cle_thread_run t m) | (None, m) \<Rightarrow> Some (None, m)) = Some (r, m')"
      using p w n by (auto simp: cle_poll_def bind_eq_Some_iff)
    then show ?thesis using kern_head[OF kern_events[OF i m1(1)] m1(2)] by simp
  qed (use i p w n in \<open>simp add: cle_poll_def\<close>)
qed

lemma kern_ready_or_poll: "kern_inv m \<Longrightarrow> cle_ready_or_poll e m = Some (r, m') \<Longrightarrow> kern_inv m'"
  unfolding cle_ready_or_poll_def by (erule kern_head) (auto intro: kern_poll)

lemma kern_tick: "cle_timer_tick now m = Some (t, m') \<Longrightarrow> kern_inv m' = kern_inv m"
  by (auto simp: cle_timer_tick_def bind_eq_Some_iff split: option.splits)

lemma kern_round: "kern_inv m \<Longrightarrow> cle_fetch_round e m = Some (r, m') \<Longrightarrow> kern_inv m'"
  unfolding cle_fetch_round_def
  by (erule kern_head)
    (auto simp: bind_eq_Some_iff dest!: kern_tick kern_unlink dest: kern_run kern_ready_or_poll split: if_splits)

subsection \<open>Timers\<close>

text \<open>The tick of the heap drops deleted timers and at most one timer that is not deleted, the one it returns.\<close>

definition timer_of :: "nodemem \<Rightarrow> addr \<Rightarrow> addr" where
  "timer_of tn p = (case tn p of Some nd \<Rightarrow> args nd | None \<Rightarrow> NULL)"

definition drops :: "addr \<Rightarrow> time_heap \<Rightarrow> nodemem \<Rightarrow> time_heap \<Rightarrow> nodemem \<Rightarrow> bool" where
  "drops a h tn h' tn' \<longleftrightarrow> heap_inv h' tn' \<and>
     (\<forall>p \<in> set (live h'). p \<in> set (live h) \<and> (timer_of tn' p \<noteq> NULL \<longrightarrow> tn' p = tn p)) \<and>
     (\<forall>p \<in> set (live h). timer_of tn p \<noteq> NULL \<longrightarrow> timer_of tn p \<noteq> a \<longrightarrow> p \<in> set (live h') \<and> tn' p = tn p) \<and>
     (a \<noteq> NULL \<longrightarrow> (\<exists>p \<in> set (live h). timer_of tn p = a \<and> (p \<in> set (live h') \<longrightarrow> timer_of tn' p \<noteq> a)))"

lemma cl_tick_loop_drops:
  assumes "(\<lambda>(h, m). heap_inv h m) s"
  shows "\<exists>a h' m'. cl_time_heap_tick_loop cur (nodes (fst s) ! 0) (fst s) (snd s) = Some (a, h', m') \<and>
    drops a (fst s) (snd s) h' m'"
  using assms
proof (induction s rule: heapq.due_induct[where t = cur])
  case (served s)
  obtain h m where s: "s = (h, m)" by (cases s)
  have inv: "heap_inv h m" and stop: "live h = [] \<or> cur < key m (nodes h ! 0)"
    using served s by auto
  then show ?case
    unfolding s fst_conv snd_conv using tick_stop(2)[OF inv stop] by (simp add: drops_def)
next
  case (due s s')
  obtain h m h1 m1 where s: "s = (h, m)" "s' = (h1, m1)" by (cases s; cases s')
  let ?t = "nodes h ! 0"
  have inv: "heap_inv h m" and ne: "live h \<noteq> []" and le: "key m ?t \<le> cur"
      and pop: "pop_timer h m = Some (h1, m1)"
    using due s by auto
  obtain nd where nd: "m ?t = Some nd" using top_in_live[OF inv ne] by auto
  note facts = pop_facts[OF inv ne pop] and step = tick_step(2)[OF inv ne le nd pop]
  have same: "m1 p = m p" if "p \<in> set (live h1)" for p using facts(6)[OF that] by blast
  show ?case
  proof (cases "args nd = NULL")
    case False
    have "drops (args nd) h m h1 m1"
      unfolding drops_def using facts(1,4,5) same nd False by (auto simp: timer_of_def)
    then show ?thesis unfolding s fst_conv snd_conv using False step by auto
  next
    case True
    obtain a h' m' where ih: "cl_time_heap_tick_loop cur (nodes h1 ! 0) h1 m1 = Some (a, h', m')" "drops a h1 m1 h' m'"
      using due.IH unfolding s fst_conv snd_conv by blast
    have eq: "timer_of m1 p = timer_of m p" if "p \<in> set (live h1)" for p
      using same[OF that] by (simp add: timer_of_def)
    have nt: "timer_of m ?t = NULL" using nd True by (simp add: timer_of_def)
    have "drops a h m h' m'"
      using ih(2) same eq nt unfolding drops_def facts(4) by (auto simp: timer_of_def)
    then show ?thesis unfolding s fst_conv snd_conv using True step ih(1) by auto
  qed
qed

lemma timers_drop:
  assumes inv: "timers_inv m" and h: "heap m = Some h" and dr: "drops a h (tnodes m) h' tn'"
    and m': "heap m' = Some h'" "tnodes m' = tn'" "lst m' LTimer = remove1 a (lst m LTimer)"
      "\<And>u. u \<noteq> a \<Longrightarrow> eth m' u = eth m u"
    and d: "distinct (lst m LTimer)" "NULL \<notin> set (lst m LTimer)"
  shows "timers_inv m'" "a \<noteq> NULL \<Longrightarrow> a \<in> set (lst m LTimer)"
proof -
  have T: "\<exists>c. eth m t = Some c \<and> eu c \<in> set (live h) \<and> timer_of (tnodes m) (eu c) = t" if "t \<in> set (lst m LTimer)" for t
    using inv h that unfolding timers_inv_def timer_of_def by fastforce
  have P: "timer_of (tnodes m) p \<in> set (lst m LTimer) \<and> (\<exists>c. eth m (timer_of (tnodes m) p) = Some c \<and> eu c = p)"
    if "p \<in> set (live h)" "timer_of (tnodes m) p \<noteq> NULL" for p
    using inv h that unfolding timers_inv_def timer_of_def by (auto split: option.splits)
  show "a \<noteq> NULL \<Longrightarrow> a \<in> set (lst m LTimer)" using dr P unfolding drops_def by blast
  show "timers_inv m'" unfolding timers_inv_def
  proof (intro exI[of _ h'] conjI ballI allI impI)
    show "heap_inv h' (tnodes m')" using dr m' by (simp add: drops_def)
  next
    fix t
    assume "t \<in> set (lst m' LTimer)"
    then have t: "t \<in> set (lst m LTimer)" "t \<noteq> a" "t \<noteq> NULL" using m'(3) d by auto
    then obtain c where c: "eth m t = Some c" "eu c \<in> set (live h)" "timer_of (tnodes m) (eu c) = t" using T by blast
    then have "eu c \<in> set (live h') \<and> tn' (eu c) = tnodes m (eu c)" using dr t unfolding drops_def by blast
    then show "\<exists>c nd. eth m' t = Some c \<and> eu c \<in> set (live h') \<and> tnodes m' (eu c) = Some nd \<and> args nd = t"
      using c m'(2,4) t by (auto simp: timer_of_def split: option.splits)
  next
    fix p nd
    assume p: "p \<in> set (live h')" "tnodes m' p = Some nd" "args nd \<noteq> NULL"
    then have old: "p \<in> set (live h)" "tnodes m p = Some nd" using dr m'(2) by (auto simp: drops_def timer_of_def)
    then have tp: "timer_of (tnodes m) p = args nd" by (simp add: timer_of_def)
    obtain c where c: "args nd \<in> set (lst m LTimer)" "eth m (args nd) = Some c" "eu c = p" using P[OF old(1)] tp p(3) by auto
    have "args nd \<noteq> a"
    proof
      assume eq: "args nd = a"
      then obtain q where q: "q \<in> set (live h)" "timer_of (tnodes m) q = a" "q \<in> set (live h') \<Longrightarrow> timer_of tn' q \<noteq> a"
        using dr p(3) unfolding drops_def by blast
      then have "q = p" using P[OF q(1)] c eq p(3) by auto
      then show False using q(3) p m'(2) eq by (simp add: timer_of_def)
    qed
    then show "args nd \<in> set (lst m' LTimer)" "\<exists>c. eth m' (args nd) = Some c \<and> eu c = p"
      using c m'(3,4) d by auto
  qed (use m' in simp)
qed

lemma timer_list_ok: "cle_inv m \<Longrightarrow> distinct (lst m LTimer) \<and> NULL \<notin> set (lst m LTimer)"
  by (auto simp: cle_inv_def lists_inv_def) force

lemma drop_null:
  assumes inv: "cle_inv m" and h: "heap m = Some h" and dr: "drops NULL h (tnodes m) h' tn'"
  shows "cle_inv (m\<lparr>heap := Some h', tnodes := tn'\<rparr>)"
proof -
  note d = timer_list_ok[OF inv]
  have "timers_inv (m\<lparr>heap := Some h', tnodes := tn'\<rparr>)"
    by (rule timers_drop(1)[OF _ h dr]) (use inv d in \<open>auto simp: cle_inv_def remove1_idem\<close>)
  moreover have "socks_inv (m\<lparr>heap := Some h', tnodes := tn'\<rparr>)"
  proof -
    have "sock_ok m fd s \<Longrightarrow> sock_ok (m\<lparr>heap := Some h', tnodes := tn'\<rparr>) fd s" for fd s
      by (erule sock_ok_cong) simp_all
    then show ?thesis using inv by (auto simp: cle_inv_def socks_inv_def)
  qed
  ultimately show ?thesis using inv by (simp add: cle_inv_def lists_inv_def owner_inv_def own_ok_def)
qed

lemma detach_timer:
  assumes inv: "cle_inv m" and h: "heap m = Some h" and dr: "drops t h (tnodes m) h' tn'" and t: "t \<noteq> NULL"
  shows "\<exists>c. eth m t = Some c \<and> etype c = T_TIMER \<and>
    detached t (m\<lparr>heap := Some h', tnodes := tn', lst := (\<lambda>k. remove1 t (lst m k))\<rparr>)" (is "\<exists>c. _ \<and> _ \<and> detached t ?m")
proof -
  have li: "lists_inv {} m" using inv by (simp add: cle_inv_def)
  note d = timer_list_ok[OF inv]
  have ti: "timers_inv m" using inv by (simp add: cle_inv_def)
  have "t \<in> set (lst m LTimer)"
    by (rule timers_drop(2)[OF ti h dr _ _ _ _ _ _ t, of ?m]) (use d in auto)
  then obtain c where c: "eth m t = Some c" "etype c = T_TIMER" using lists_invD[OF li] by metis
  have un: "\<not> used m t" by (rule unused_types) (use inv c t in \<open>auto simp: cle_inv_def\<close>)
  have "lists_inv {t} ?m" by (rule lists_inv_remove[OF li c(1), where c' = c]) (use c in auto)
  moreover have "socks_inv ?m" by (rule socks_frame[of m t]) (use inv un in \<open>auto simp: cle_inv_def\<close>)
  moreover have "owner_inv {t} ?m" using inv by (auto simp: cle_inv_def owner_inv_def own_ok_def)
  moreover have "timers_inv ?m" by (rule timers_drop(1)[OF ti h dr]) (use d in auto)
  ultimately have "detached t ?m" using un t by (simp add: detached_def used_def)
  then show ?thesis using c by blast
qed

lemma timerD:
  assumes inv: "cle_inv m" and c: "eth m t = Some c" "etype c = T_TIMER"
  obtains h nd where "heap m = Some h" "heap_inv h (tnodes m)" "eu c \<in> set (live h)" "tnodes m (eu c) = Some nd" "args nd = t"
    "t \<noteq> NULL" "eu c \<noteq> NULL"
proof -
  have li: "lists_inv {} m" using inv by (simp add: cle_inv_def)
  have "t \<in> set (lst m LTimer)" using lists_inv_mem[OF li c(1)] c(2) by auto
  moreover have "t \<noteq> NULL" using li c by (auto simp: lists_inv_def)
  moreover obtain h where h: "heap m = Some h" "heap_inv h (tnodes m)"
     "\<forall>t \<in> set (lst m LTimer). \<exists>c nd. eth m t = Some c \<and> eu c \<in> set (live h) \<and> tnodes m (eu c) = Some nd \<and> args nd = t"
    using inv unfolding cle_inv_def timers_inv_def by blast
  moreover have "NULL \<notin> set (live h)" using h(2) by (auto simp: heap_inv_def)
  ultimately show thesis using that c(1) by (metis option.inject)
qed

lemma del_drops:
  assumes "heap_inv h tn" "p \<in> set (live h)" "tn p = Some nd" "args nd \<noteq> NULL"
  shows "drops (args nd) h tn h (tn(p \<mapsto> nd\<lparr>cb := NULL, args := NULL\<rparr>))"
proof -
  have "key (tn(p \<mapsto> nd\<lparr>cb := NULL, args := NULL\<rparr>)) = key tn" using assms(3) by (auto simp: key_def fun_eq_iff)
  then have "heap_inv h (tn(p \<mapsto> nd\<lparr>cb := NULL, args := NULL\<rparr>))" using assms(1-3) by (auto simp: heap_inv_def)
  then show ?thesis using assms by (auto simp: drops_def timer_of_def)
qed

lemma cancel_timer_ok:
  assumes inv: "cle_inv m" and c: "eth m t = Some c" "etype c = T_TIMER"
  shows "\<exists>m'. cle_thread_cancel t m = Some m' \<and> cle_inv m'"
proof (rule timerD[OF inv c])
  fix h nd
  assume h: "heap m = Some h" "heap_inv h (tnodes m)" "eu c \<in> set (live h)" "tnodes m (eu c) = Some nd" "args nd = t"
    "t \<noteq> NULL" "eu c \<noteq> NULL"
  let ?tn = "(tnodes m)(eu c \<mapsto> nd\<lparr>cb := NULL, args := NULL\<rparr>)"
  have li: "lists_inv {} m" using inv by (simp add: cle_inv_def)
  have "drops t h (tnodes m) h ?tn" using del_drops[OF h(2-4)] h(5,6) by simp
  from detach_timer[OF inv h(1) this h(6)]
  have "detached t (m\<lparr>heap := Some h, tnodes := ?tn, lst := (\<lambda>k. remove1 t (lst m k))\<rparr>)" (is "detached t ?m1") by blast
  from detached_upd[OF this, of "\<lambda>c. c\<lparr>eu := NULL\<rparr>"] obtain c' m2 where
    u: "eth ?m1 t = Some c'" "detached t m2" "m2 = ?m1\<lparr>eth := (eth ?m1)(t \<mapsto> c'\<lparr>eu := NULL\<rparr>)\<rparr>" by metis
  obtain m3 where m3: "cle_thread_add_unuse t m2 = Some m3" "cle_inv m3" using attach_unuse[OF u(2)] by blast
  have "cle_thread_cancel_timer t m = unlink_task t (m\<lparr>tnodes := ?tn, eth := (eth m)(t \<mapsto> c\<lparr>eu := NULL\<rparr>)\<rparr>)"
    using c h by (simp add: cle_thread_cancel_timer_def cl_time_heap_del_timer_def upd_task_def)
  also have "\<dots> = Some m2"
    using unlink_ok[OF li c(1), of "m\<lparr>tnodes := ?tn, eth := (eth m)(t \<mapsto> c\<lparr>eu := NULL\<rparr>)\<rparr>"] u(1,3) c h(1)
    by (simp add: cle_master.equality)
  finally have "cle_thread_cancel t m = Some m3"
    using c m3(1) by (auto simp: cle_thread_cancel_def cle_thread_add_unuse_def)
  then show ?thesis using m3(2) by blast
qed

lemma attach_timer:
  assumes det: "detached t m" and c: "eth m t = Some c" "etype c = T_TIMER" and h: "heap m = Some h"
    and n: "p \<noteq> NULL" "p \<notin> dom (tnodes m)" "args nd = t"
    and h': "heap_inv h' ((tnodes m)(p \<mapsto> nd))" "set (live h') = insert p (set (live h))"
    and m': "m' = push_tail LTimer t (m\<lparr>heap := Some h', tnodes := (tnodes m)(p \<mapsto> nd), eth := (eth m)(t \<mapsto> c\<lparr>eu := p\<rparr>)\<rparr>)"
  shows "cle_inv m'"
proof -
  note d = detachedD[OF det]
  have hi: "heap_inv h (tnodes m)" "\<forall>t \<in> set (lst m LTimer). \<exists>c nd. eth m t = Some c \<and> eu c \<in> set (live h) \<and> tnodes m (eu c) = Some nd \<and> args nd = t"
     "\<forall>p \<in> set (live h). \<forall>nd. tnodes m p = Some nd \<longrightarrow> args nd \<noteq> NULL \<longrightarrow>
        args nd \<in> set (lst m LTimer) \<and> (\<exists>c. eth m (args nd) = Some c \<and> eu c = p)"
    using d(4) h unfolding timers_inv_def by auto
  have tt: "t \<notin> set (lst m LTimer)" by (rule d)
  have pl: "p \<notin> set (live h)" using hi(1) n(2) by (auto simp: heap_inv_def)
  have "timers_inv m'" unfolding timers_inv_def
  proof (intro exI[of _ h'] conjI ballI allI impI)
    fix u
    assume "u \<in> set (lst m' LTimer)"
    then have "u = t \<or> u \<in> set (lst m LTimer) \<and> u \<noteq> t" using tt by (auto simp: m' push_tail_def)
    then show "\<exists>c nd. eth m' u = Some c \<and> eu c \<in> set (live h') \<and> tnodes m' (eu c) = Some nd \<and> args nd = u"
    proof
      assume "u \<in> set (lst m LTimer) \<and> u \<noteq> t"
      then obtain cu du where u: "eth m u = Some cu" "eu cu \<in> set (live h)" "tnodes m (eu cu) = Some du" "args du = u" "u \<noteq> t"
        using hi(2) by blast
      then have "eu cu \<noteq> p" using pl by auto
      then show ?thesis using u h'(2) by (auto simp: m' push_tail_def)
    qed (use n h'(2) in \<open>auto simp: m' push_tail_def\<close>)
  next
    fix q dq
    assume q: "q \<in> set (live h')" "tnodes m' q = Some dq" "args dq \<noteq> NULL"
    have "args dq \<in> set (lst m' LTimer) \<and> (\<exists>c. eth m' (args dq) = Some c \<and> eu c = q)"
    proof (cases "q = p")
      case True
      then show ?thesis using q n by (auto simp: m' push_tail_def)
    next
      case False
      then have "args dq \<in> set (lst m LTimer)" "\<exists>c. eth m (args dq) = Some c \<and> eu c = q"
        using hi(3) q h'(2) by (auto simp: m' push_tail_def)
      then show ?thesis using tt by (cases "args dq = t") (auto simp: m' push_tail_def)
    qed
    then show "args dq \<in> set (lst m' LTimer)" "\<exists>c. eth m' (args dq) = Some c \<and> eu c = q" by auto
  qed (use h' in \<open>auto simp: m' push_tail_def\<close>)
  moreover have "lists_inv {} m'" unfolding m'
    by (rule lists_inv_push(2)[where c = "c\<lparr>eu := p\<rparr>"]) (use d(1,7) c in \<open>auto simp: lists_inv_def\<close>)
  moreover have "socks_inv m'"
    by (rule socks_frame[of m t]) (use det in \<open>auto simp: detached_def m' push_tail_def\<close>)
  moreover have "own_ok m' u cu" if "eth m' u = Some cu" for u cu
    using that c d(3) by (cases "u = t") (auto simp: m' push_tail_def own_ok_def owner_inv_def)
  then have "owner_inv {} m'" by (simp add: owner_inv_def)
  ultimately show ?thesis by (simp add: cle_inv_def)
qed

text \<open>The heap has room for one more timer.\<close>

definition timer_room :: "cle_master \<Rightarrow> bool" where
  "timer_room m \<longleftrightarrow> (case heap m of None \<Rightarrow> True | Some h \<Rightarrow> cursize h < 2 ^ 30)"

lemma add_timer_task_ok:
  assumes inv: "cle_inv m" and new: "calloc_fresh new m" and room: "timer_room m" and n: "nnew \<noteq> NULL" "nnew \<notin> dom (tnodes m)"
  shows "\<exists>t m'. cle_thread_add_timer new nnew now f a tm m = Some (t, m') \<and> cle_inv m'"
proof (rule get_detached[OF inv new, of T_TIMER f a])
  fix t m1 c
  assume g: "cle_thread_get new T_TIMER f a m = Some (t, m1)" "detached t m1" "eth m1 t = Some c" "etype c = T_TIMER"
    "heap m1 = heap m" "tnodes m1 = tnodes m"
  obtain h where h: "heap m1 = Some h" "heap_inv h (tnodes m1)"
    using detachedD(4)[OF g(2)] unfolding timers_inv_def by blast
  have fit: "cursize h < 2 ^ 30" using room h(1) g(5) by (simp add: timer_room_def)
  let ?nd = "\<lparr>expire = ucast (now + ucast tm), cb = NULL, args = t\<rparr>"
  obtain h' where h': "time_heap_add_timer nnew now (Some h) NULL t tm (tnodes m1) = Some (nnew, Some h', (tnodes m1)(nnew \<mapsto> ?nd))"
      "heap_inv h' ((tnodes m1)(nnew \<mapsto> ?nd))" "mset (live h') = add_mset nnew (mset (live h))"
    using add_timer_ok[OF h(2) fit n(1) _ refl] n(2) g(6) by metis
  have st: "set (live h') = insert nnew (set (live h))"
    using h'(3) by (metis set_mset_add_mset_insert set_mset_mset)
  have "cle_inv (push_tail LTimer t (m1\<lparr>heap := Some h', tnodes := (tnodes m1)(nnew \<mapsto> ?nd), eth := (eth m1)(t \<mapsto> c\<lparr>eu := nnew\<rparr>)\<rparr>))"
    by (rule attach_timer[OF g(2-4) h(1) n(1) _ _ h'(2) st refl]) (use n g(6) in auto)
  then show ?thesis using g(1,3) h(1) h'(1)
    by (simp add: cle_thread_add_timer_def MINHEAP_TIMER_ON_def upd_task_def)
qed

subsection \<open>Fetching\<close>

lemma pop_moved: "lists_inv {} m \<Longrightarrow> lst m l = t # ts \<Longrightarrow> (lst m)(l := ts) = (\<lambda>k. remove1 t (lst m k))"
  using lists_inv_unique[of "{}" m t l] by (intro ext) (metis fun_upd_apply list.set_intros(1) remove1.simps(2) remove1_idem)

lemma popped_task: "lists_inv {} m \<Longrightarrow> lst m l = t # ts \<Longrightarrow> \<exists>c. eth m t = Some c \<and> etype c = list_type l"
  using lists_invD[of "{}" m t l] by auto

lemma run_event_ok:
  assumes inv: "cle_inv m" and l: "lst m LEvent = t # ts"
  shows "\<exists>c m'. cle_thread_run t (m\<lparr>lst := (lst m)(LEvent := ts)\<rparr>) = Some (c, m') \<and> cle_inv m' \<and> eth m t = Some c"
proof -
  have li: "lists_inv {} m" using inv by (simp add: cle_inv_def)
  obtain c where c: "eth m t = Some c" "etype c = T_EVENT" using popped_task[OF li l] by blast
  show ?thesis using attach_unuse[OF detach_event[OF inv c]] c
    by (auto simp: cle_thread_run_def pop_moved[OF li l])
qed

lemma run_ready_ok:
  assumes inv: "cle_inv m" and l: "lst m LReady = t # ts"
  shows "\<exists>c m'. cle_thread_run t (m\<lparr>lst := (lst m)(LReady := ts)\<rparr>) = Some (c, m') \<and> cle_inv m' \<and> eth m t = Some c"
proof -
  have li: "lists_inv {} m" and so: "socks_inv m" using inv by (simp_all add: cle_inv_def)
  obtain c where c: "eth m t = Some c" "etype c = T_READY" using popped_task[OF li l] by blast
  let ?fd = "fd_word (eu c)"
  have "own_ok m t c" using inv c by (simp add: cle_inv_def owner_inv_def)
  then obtain s where s: "sockets m ?fd = Some s" "t_read s = t \<or> t_write s = t" using c by (auto simp: own_ok_def)
  have ok: "sock_ok m ?fd s" using so s by (simp add: socks_inv_def)
  have nt: "t \<noteq> NULL" using li c by (auto simp: lists_inv_def)
  let ?m1 = "m\<lparr>lst := (\<lambda>k. remove1 t (lst m k))\<rparr>"
  let ?mf = "\<lambda>k s'. push k t (?m1\<lparr>sockets := (sockets m)(?fd \<mapsto> s'), eth := (eth m)(t \<mapsto> c\<lparr>etype := list_type k\<rparr>)\<rparr>)"
  have fin: "cle_inv (?mf k s')" if "k \<noteq> LTimer" "sock_ok (?mf k s') ?fd s'" "own_ok (?mf k s') t (c\<lparr>etype := list_type k\<rparr>)"
    "keeps_others t (Some s) s'" for k s'
    by (rule move_sock[OF inv c(1) _ refl, where m' = "?mf k s'" and l = k])
      (use that c s in \<open>simp_all add: moved_unuse\<close>, simp_all add: push_def)
  have same: "(sockets m)(?fd \<mapsto> s) = sockets m" using s by auto
  have "\<exists>k s'. cle_thread_socket_set t ?m1 = Some (?mf k s') \<and> k \<noteq> LTimer \<and> sock_ok (?mf k s') ?fd s' \<and>
    own_ok (?mf k s') t (c\<lparr>etype := list_type k\<rparr>) \<and> keeps_others t (Some s) s'"
  proof (cases "t_read s = t")
    case True
    show ?thesis
    proof (cases "bit (stype s) 2")
      case p: True
      show ?thesis
        by (rule exI[of _ LRead], rule exI[of _ s])
          (use True p c s ok nt in \<open>auto simp: cle_thread_socket_set_def cle_thread_socket_lookup_def upd_task_def same push_def
             sock_ok_def waits_in_def own_ok_def keeps_others_def\<close>)
    next
      case p: False
      show ?thesis
        by (rule exI[of _ LUnuse], rule exI[of _ "s\<lparr>stype := stype s AND NOT CL_SOCKETS_READ, t_read := NULL\<rparr>"])
          (use True p c s ok nt in \<open>auto simp: cle_thread_socket_set_def cle_thread_socket_lookup_def upd_task_def push_def
             cle_thread_add_unuse_def sock_ok_def waits_in_def own_ok_def keeps_others_def flag_simps\<close>)
    qed
  next
    case False
    then have w: "t_write s = t" using s by simp
    show ?thesis
    proof (cases "bit (stype s) 3")
      case p: True
      show ?thesis
        by (rule exI[of _ LWrite], rule exI[of _ s])
          (use False w p c s ok nt in \<open>auto simp: cle_thread_socket_set_def cle_thread_socket_lookup_def upd_task_def same push_def
             sock_ok_def waits_in_def own_ok_def keeps_others_def\<close>)
    next
      case p: False
      show ?thesis
        by (rule exI[of _ LUnuse], rule exI[of _ "s\<lparr>stype := stype s AND NOT CL_SOCKETS_WRITE, t_write := NULL\<rparr>"])
          (use False w p c s ok nt in \<open>auto simp: cle_thread_socket_set_def cle_thread_socket_lookup_def upd_task_def push_def
             cle_thread_add_unuse_def sock_ok_def waits_in_def own_ok_def keeps_others_def flag_simps\<close>)
    qed
  qed
  then obtain k s' where e: "cle_thread_socket_set t ?m1 = Some (?mf k s')" "cle_inv (?mf k s')" using fin by blast
  then show ?thesis using c by (simp add: cle_thread_run_def pop_moved[OF li l])
qed

text \<open>\<open>epoll_wait\<close> reports events of registered descriptors only.\<close>

definition kernel_ok :: "ep_env \<Rightarrow> bool" where
  "kernel_ok e \<longleftrightarrow> (\<forall>E w n evs. snd e E w = (n, evs) \<longrightarrow> snd ` set (take (nat n) evs) \<subseteq> dom E)"

lemma do_events_ok:
  "cle_inv m \<Longrightarrow> snd ` set evs \<subseteq> dom (sockets m) \<Longrightarrow> \<exists>m'. foldM cle_thread_do_event evs m = Some m' \<and> cle_inv m'"
proof (induction evs arbitrary: m)
  case (Cons e es)
  obtain ev fd where e: "e = (ev, fd)" by (cases e)
  then obtain s where "sockets m fd = Some s" using Cons.prems(2) by auto
  from do_event_ok[OF Cons.prems(1) this, of ev] obtain m1 where
    m1: "cle_thread_do_event e m = Some m1" "cle_inv m1" "dom (sockets m1) = dom (sockets m)" unfolding e by blast
  then show ?case using Cons.IH[OF m1(2)] Cons.prems(2) by simp
qed simp

lemma timer_wait_ok: "cle_inv m \<Longrightarrow> \<exists>w. cle_thread_timer_wait now m = Some w"
proof -
  assume "cle_inv m"
  then obtain h where h: "heap m = Some h" "heap_inv h (tnodes m)" by (auto simp: cle_inv_def timers_inv_def)
  show ?thesis using h top_in_live[OF h(2)] live_empty_iff[OF h(2)]
    by (cases "live h = []")
      (auto simp: cle_thread_timer_wait_def time_heap_time_wait_def time_heap_top_expire_def time_heap_empty_def
        node_expire_def Let_def split: option.splits)
qed

lemma run_head_ready:
  assumes "cle_inv m" "cle_thread_trim_head LReady m = (Some t, m1)"
  shows "\<exists>c m'. cle_thread_run t m1 = Some (c, m') \<and> cle_inv m'"
  using run_ready_ok[OF assms(1)] assms(2) by (fastforce simp: cle_thread_trim_head_def split: list.splits)

lemma trim_none: "cle_thread_trim_head l m = (None, m1) \<Longrightarrow> m1 = m"
  by (auto simp: cle_thread_trim_head_def split: list.splits)

lemma cle_poll_ok:
  assumes inv: "cle_inv m" and ki: "kern_inv m" and k: "kernel_ok e"
  shows "\<exists>r m'. cle_poll e m = Some (r, m') \<and> cle_inv m'"
proof -
  obtain w where w: "cle_thread_timer_wait (fst e) m = Some w" using timer_wait_ok[OF inv] by blast
  obtain n evs where n: "snd e (reg (kern m)) w = (n, evs)" by (cases "snd e (reg (kern m)) w")
  have "dom (reg (kern m)) \<subseteq> dom (sockets m)" using ki by (simp add: kern_inv_def)
  then have "snd ` set (take (nat n) evs) \<subseteq> dom (sockets m)" using k n unfolding kernel_ok_def by blast
  from do_events_ok[OF inv this] obtain m1 where
    m1: "foldM cle_thread_do_event (take (nat n) evs) m = Some m1" "cle_inv m1" by blast
  obtain r m2 where r: "cle_thread_trim_head LReady m1 = (r, m2)" by (cases "cle_thread_trim_head LReady m1")
  show ?thesis
  proof (cases r)
    case None
    then show ?thesis using w n m1 r inv trim_none[of LReady m1 m2] by (simp add: cle_poll_def)
  next
    case (Some t)
    then show ?thesis using run_head_ready[OF m1(2), of t m2] w n m1 r inv by (auto simp: cle_poll_def)
  qed
qed

lemma ready_or_poll_ok:
  assumes inv: "cle_inv m" and ki: "kern_inv m" and k: "kernel_ok e"
  shows "\<exists>r m'. cle_ready_or_poll e m = Some (r, m') \<and> cle_inv m'"
proof -
  obtain r m2 where r: "cle_thread_trim_head LReady m = (r, m2)" by (cases "cle_thread_trim_head LReady m")
  show ?thesis
  proof (cases r)
    case None
    then show ?thesis using r cle_poll_ok[OF assms] trim_none[of LReady m m2] by (simp add: cle_ready_or_poll_def)
  next
    case (Some t)
    then show ?thesis using run_head_ready[OF inv, of t m2] r by (auto simp: cle_ready_or_poll_def)
  qed
qed

lemma timer_tick_ok:
  assumes inv: "cle_inv m"
  shows "\<exists>t m1. cle_timer_tick now m = Some (t, m1) \<and>
    (if t = NULL then cle_inv m1
     else \<exists>m2 c m3. unlink_task t m1 = Some m2 \<and> cle_thread_run t m2 = Some (c, m3) \<and> cle_inv m3)"
proof -
  obtain h where h: "heap m = Some h" "heap_inv h (tnodes m)"
    using inv unfolding cle_inv_def timers_inv_def by blast
  obtain a h' tn' where a: "cl_time_heap_tick_loop (ucast now) (nodes h ! 0) h (tnodes m) = Some (a, h', tn')" "drops a h (tnodes m) h' tn'"
    using cl_tick_loop_drops[of "(h, tnodes m)" "ucast now"] h(2) by auto
  let ?m1 = "m\<lparr>heap := Some h', tnodes := tn'\<rparr>"
  have t: "cle_timer_tick now m = Some (a, ?m1)"
    using h a(1) at_0[OF h(2)] by (simp add: cle_timer_tick_def cl_time_heap_tick_def)
  have li: "lists_inv {} m" using inv by (simp add: cle_inv_def)
  show ?thesis
  proof (cases "a = NULL")
    case True
    then show ?thesis using t drop_null[OF inv h(1)] a(2) by auto
  next
    case False
    let ?m2 = "m\<lparr>heap := Some h', tnodes := tn', lst := (\<lambda>k. remove1 a (lst m k))\<rparr>"
    obtain c where c: "eth m a = Some c" "etype c = T_TIMER" "detached a ?m2"
      using detach_timer[OF inv h(1) a(2) False] by blast
    have u: "unlink_task a ?m1 = Some ?m2" using unlink_ok[OF li c(1), of ?m1] by simp
    obtain m3 where "cle_thread_add_unuse a ?m2 = Some m3" "cle_inv m3" using attach_unuse[OF c(3)] by blast
    then have "cle_thread_run a ?m2 = Some (c, m3)" "cle_inv m3" using c(1,2) by (simp_all add: cle_thread_run_def)
    then show ?thesis using t u False by (intro exI[of _ a] exI[of _ ?m1]) auto
  qed
qed

lemma fetch_round_ok:
  assumes inv: "cle_inv m" and ki: "kern_inv m" and k: "kernel_ok e"
  shows "\<exists>r m'. cle_fetch_round e m = Some (r, m') \<and> cle_inv m'"
proof (cases "lst m LEvent")
  case (Cons t ts)
  then show ?thesis using run_event_ok[OF inv Cons] by (auto simp: cle_fetch_round_def cle_thread_trim_head_def)
next
  case Nil
  obtain t m1 where t: "cle_timer_tick (fst e) m = Some (t, m1)"
      "if t = NULL then cle_inv m1
       else \<exists>m2 c m3. unlink_task t m1 = Some m2 \<and> cle_thread_run t m2 = Some (c, m3) \<and> cle_inv m3"
    using timer_tick_ok[OF inv] by blast
  have "kern_inv m1" using kern_tick[OF t(1)] ki by simp
  then show ?thesis using t Nil ready_or_poll_ok[OF _ _ k, of m1]
    by (cases "t = NULL") (auto simp: cle_fetch_round_def cle_thread_trim_head_def)
qed

lemma cle_fetch_ok:
  "cle_inv m \<Longrightarrow> kern_inv m \<Longrightarrow> list_all kernel_ok es \<Longrightarrow>
    \<exists>r m'. cle_thread_fetch es m = Some (r, m') \<and> cle_inv m' \<and> kern_inv m'"
proof (induction es arbitrary: m)
  case (Cons e es)
  obtain r m1 where r: "cle_fetch_round e m = Some (r, m1)" "cle_inv m1"
    using fetch_round_ok[of m e] Cons.prems by auto
  have "kern_inv m1" by (rule kern_round[OF Cons.prems(2) r(1)])
  then show ?case using r Cons.IH[OF r(2)] Cons.prems by (cases r) auto
qed simp

section \<open>Reachable states\<close>

text \<open>
  The states that a client can reach with calls of the interface and by closing descriptors.  A call that returns is a
  step; the hypotheses are those of the allocator (a fresh address), of \<open>epoll_wait\<close>, and that the heap of the timers
  has room.  The calls of \<open>epoll_ctl\<close> may fail.
\<close>

inductive cle_reach :: "cle_master \<Rightarrow> bool" where
  init: "cle_thread_init fd hok ans tn = (True, m) \<Longrightarrow> NULL \<notin> dom tn \<Longrightarrow> cle_reach m"
| add_read: "cle_reach m \<Longrightarrow> calloc_fresh new m \<Longrightarrow> cle_thread_add_read new sok f a fd p m = Some (r, m') \<Longrightarrow> cle_reach m'"
| add_write: "cle_reach m \<Longrightarrow> calloc_fresh new m \<Longrightarrow> cle_thread_add_write new sok f a fd p m = Some (r, m') \<Longrightarrow> cle_reach m'"
| add_timer: "cle_reach m \<Longrightarrow> calloc_fresh new m \<Longrightarrow> timer_room m \<Longrightarrow> nnew \<noteq> NULL \<Longrightarrow> nnew \<notin> dom (tnodes m) \<Longrightarrow>
    cle_thread_add_timer new nnew now f a tm m = Some (t, m') \<Longrightarrow> cle_reach m'"
| add_event: "cle_reach m \<Longrightarrow> calloc_fresh new m \<Longrightarrow> cle_thread_add_event new f a v m = Some (t, m') \<Longrightarrow> cle_reach m'"
| cancel: "cle_reach m \<Longrightarrow> cle_thread_cancel t m = Some m' \<Longrightarrow> cle_reach m'"
| fetch: "cle_reach m \<Longrightarrow> list_all kernel_ok es \<Longrightarrow> cle_thread_fetch es m = Some (r, m') \<Longrightarrow> cle_reach m'"
| close: "cle_reach m \<Longrightarrow> cle_reach (close_fd fd m)"

lemma init_inv:
  assumes "cle_thread_init fd hok ans tn = (True, m)" "NULL \<notin> dom tn"
  shows "cle_inv m" "kern_inv m"
proof -
  have m: "m = \<lparr>sockets = Map.empty, lst = (\<lambda>_. []), heap = Some time_heap_init, epollfd = fd, elocked = False, tnodes = tn,
               eth = Map.empty, asked = Map.empty, kern = \<lparr>reg = Map.empty, answers = ans, stale = (\<lambda>_. False)\<rparr>\<rparr>"
    using assms(1) by (auto simp: cle_thread_init_def Let_def split: if_splits)
  show "kern_inv m" by (simp add: m kern_inv_def)
  show "cle_inv m" using assms(2)
    by (simp add: m cle_inv_def lists_inv_def socks_inv_def owner_inv_def timers_inv_def heap_inv_def live_def time_heap_init_def
        TIME_HEAP_NODE_ISIZE_def heap_ordered_def)
qed

lemma cle_cancel_ok:
  assumes inv: "cle_inv m" and c: "eth m t = Some c" "etype c \<noteq> T_READY" "etype c \<noteq> T_UNUSED"
  shows "\<exists>m'. cle_thread_cancel t m = Some m' \<and> cle_inv m'"
proof -
  have "lists_inv {} m" using inv by (simp add: cle_inv_def)
  from lists_inv_mem[OF this c(1)] obtain l where "etype c = list_type l" by blast
  then show ?thesis
    using c cancel_read_ok[OF inv c(1)] cancel_write_ok[OF inv c(1)] cancel_timer_ok[OF inv c(1)] cancel_event_ok[OF inv c(1)]
    by (cases l) auto
qed

lemma cancel_dom:
  assumes "cle_thread_cancel t m = Some m'"
  obtains c where "eth m t = Some c" "etype c \<noteq> T_READY" "etype c \<noteq> T_UNUSED"
  using assms by (auto simp: cle_thread_cancel_def bind_eq_Some_iff split: if_splits)

lemma close_inv: "cle_inv m \<Longrightarrow> cle_inv (close_fd fd m)"
  by (simp add: cle_inv_def lists_inv_def socks_inv_def owner_inv_def timers_inv_def sock_ok_def waits_in_def own_ok_def close_fd_def)

lemma cle_reach_invs: "cle_reach m \<Longrightarrow> cle_inv m \<and> kern_inv m"
proof (induction rule: cle_reach.induct)
  case (init fd hok ans tn m)
  then show ?case using init_inv by blast
next
  case (add_read m new sok f a fd p r m')
  obtain s where "socket_for sok fd m = Some s"
    using add_read.hyps by (auto simp: cle_thread_add_read_def bind_eq_Some_iff)
  then show ?case using add_read_ok[OF _ add_read.hyps(2), of sok fd s f a p] add_read.hyps(3) add_read.IH kern_add(1) by fastforce
next
  case (add_write m new sok f a fd p r m')
  obtain s where "socket_for sok fd m = Some s"
    using add_write.hyps by (auto simp: cle_thread_add_write_def bind_eq_Some_iff)
  then show ?case using add_write_ok[OF _ add_write.hyps(2), of sok fd s f a p] add_write.hyps(3) add_write.IH kern_add(2) by fastforce
next
  case (add_timer m new nnew now f a tm t m')
  then show ?case using add_timer_task_ok[OF _ add_timer.hyps(2-5), of now f a tm] kern_add(4) by fastforce
next
  case (add_event m new f a v t m')
  then show ?case using add_event_ok[OF _ add_event.hyps(2), of f a v] kern_add(3) by fastforce
next
  case (cancel m t m')
  obtain c where c: "eth m t = Some c" "etype c \<noteq> T_READY" "etype c \<noteq> T_UNUSED" by (rule cancel_dom[OF cancel.hyps(2)])
  show ?case using cle_cancel_ok[OF _ c] cancel kern_cancel by fastforce
next
  case (fetch m es r m')
  then show ?case using cle_fetch_ok[of m es] by auto
next
  case (close m fd)
  then show ?case using close_inv kern_ctl(3) by blast
qed

lemma cle_reach_inv: "cle_reach m \<Longrightarrow> cle_inv m" and cle_reach_kern: "cle_reach m \<Longrightarrow> kern_inv m"
  using cle_reach_invs by blast+

subsection \<open>The lock\<close>

abbreviation lk :: "bool \<Rightarrow> cle_master \<Rightarrow> cle_master" where
  "lk b m \<equiv> m\<lparr>elocked := b\<rparr>"

lemma unlink_lk: "unlink_task t (lk b m) = map_option (lk b) (unlink_task t m)"
  by (simp add: unlink_task_def)

lemma run_lk: "cle_thread_run t (lk b m) = map_option (apsnd (lk b)) (cle_thread_run t m)"
proof (cases "eth m t")
  case None
  then show ?thesis by (simp add: cle_thread_run_def)
next
  case (Some c)
  then show ?thesis
    by (cases "sockets m (fd_word (eu c))")
      (simp_all add: cle_thread_run_def cle_thread_socket_set_def cle_thread_socket_lookup_def cle_thread_add_unuse_def
        upd_task_def push_def Let_def)
qed

lemma timer_tick_lk: "cle_timer_tick now (lk b m) = map_option (apsnd (lk b)) (cle_timer_tick now m)"
proof (cases "heap m")
  case (Some h)
  then show ?thesis by (cases "cl_time_heap_tick now h (tnodes m)") (auto simp: cle_timer_tick_def)
qed (simp add: cle_timer_tick_def)

lemma unlink_elocked: "unlink_task t m = Some m' \<Longrightarrow> elocked m' = elocked m"
  by (auto simp: unlink_task_def split: if_splits)

lemma run_elocked:
  assumes "cle_thread_run t m = Some (c, m')"
  shows "elocked m' = elocked m"
proof -
  have "lk (elocked m) m' = m'" using run_lk[of t "elocked m" m] assms by simp
  then show ?thesis by (metis cle_master.select_convs(5) cle_master.surjective cle_master.update_convs(5))
qed

lemma timer_tick_elocked: "cle_timer_tick now m = Some (t, m') \<Longrightarrow> elocked m' = elocked m"
  by (auto simp: cle_timer_tick_def bind_eq_Some_iff split: option.splits)

lemma make_ready_elocked: "make_ready_task t m = Some m' \<Longrightarrow> elocked m' = elocked m"
proof -
  assume "make_ready_task t m = Some m'"
  moreover have "elocked n = elocked m" if "unlink_task t (m\<lparr>eth := E\<rparr>) = Some n" for E n
    using unlink_elocked[OF that] by simp
  ultimately show ?thesis
    by (auto simp: make_ready_task_def upd_task_def push_def bind_eq_Some_iff simp del: not_None_eq split: if_splits)
qed

lemma do_event_read_elocked: "do_event_read w s m = Some (x, m') \<Longrightarrow> elocked m' = elocked m"
  using make_ready_elocked[of "t_read s" m m'] unfolding do_event_read_def by (auto split: if_splits)

lemma do_event_write_elocked: "do_event_write w s y m = Some (x, m') \<Longrightarrow> elocked m' = elocked m"
  using make_ready_elocked[of "t_write s" m m'] unfolding do_event_write_def by (auto split: if_splits)

lemma do_event_elocked:
  assumes "cle_thread_do_event (evs, fd) m = Some m'"
  shows "elocked m' = elocked m"
proof -
  obtain s x m1 y m2 where r: "do_event_read (event_what evs) s m = Some (x, m1)" "do_event_write (event_what evs) s x m1 = Some (y, m2)"
      "(if y = 0 then Some m2
        else if rearm_mask (stype s) y = 0 then Some (put_socket fd (s\<lparr>added := False\<rparr>) (epoll_ctl_del fd m2))
        else Some (put_socket fd (s\<lparr>added := True\<rparr>) (epoll_ctl_set (\<not> added s) fd (rearm_mask (stype s) y) m2))) = Some m'"
    using assms unfolding cle_thread_do_event_def Let_def by (auto simp: bind_eq_Some_iff)
  have "elocked m' = elocked m2"
    using r(3) by (auto simp: epoll_ctl_set_def epoll_ctl_del_def Let_def split: if_splits)
  then show ?thesis using do_event_read_elocked[OF r(1)] do_event_write_elocked[OF r(2)] by simp
qed

lemma do_events_elocked: "foldM cle_thread_do_event evs m = Some m' \<Longrightarrow> elocked m' = elocked m"
proof (induction evs arbitrary: m)
  case (Cons e es)
  then obtain m1 where "cle_thread_do_event e m = Some m1" "foldM cle_thread_do_event es m1 = Some m'"
    by (auto simp: bind_eq_Some_iff)
  then show ?case using Cons.IH[of m1] do_event_elocked[of "fst e" "snd e" m m1] by simp
qed simp

lemma trim_head_elocked: "cle_thread_trim_head l m = (r, m') \<Longrightarrow> elocked m' = elocked m"
  by (auto simp: cle_thread_trim_head_def split: list.splits)

lemma run_head_elocked:
  assumes "(case cle_thread_trim_head l m of
      (Some t, m) \<Rightarrow> map_option (apfst Some) (cle_thread_run t m) | (None, m) \<Rightarrow> k m) = Some (r, m')"
    and "\<And>n. k n = Some (r, m') \<Longrightarrow> elocked m' = elocked n"
  shows "elocked m' = elocked m"
proof -
  obtain x n where x: "cle_thread_trim_head l m = (x, n)" by (cases "cle_thread_trim_head l m")
  show ?thesis using assms x trim_head_elocked[OF x] run_elocked by (cases x) auto
qed

lemma poll_elocked: "cle_poll e m = Some (r, m') \<Longrightarrow> elocked m' = elocked m"
proof -
  assume p: "cle_poll e m = Some (r, m')"
  then obtain w where w: "cle_thread_timer_wait (fst e) m = Some w" by (auto simp: cle_poll_def bind_eq_Some_iff)
  obtain n evs where n: "snd e (reg (kern m)) w = (n, evs)" by (cases "snd e (reg (kern m)) w")
  show ?thesis
  proof (cases "n \<le> 0")
    case False
    then obtain m1 where m1: "foldM cle_thread_do_event (take (nat n) evs) m = Some m1"
      "(case cle_thread_trim_head LReady m1 of
         (Some t, m) \<Rightarrow> map_option (apfst Some) (cle_thread_run t m) | (None, m) \<Rightarrow> Some (None, m)) = Some (r, m')"
      using p w n by (auto simp: cle_poll_def bind_eq_Some_iff)
    then show ?thesis using run_head_elocked[OF m1(2)] do_events_elocked[OF m1(1)] by simp
  qed (use p w n in \<open>simp add: cle_poll_def\<close>)
qed

lemma ready_or_poll_elocked: "cle_ready_or_poll e m = Some (r, m') \<Longrightarrow> elocked m' = elocked m"
  unfolding cle_ready_or_poll_def by (erule run_head_elocked) (rule poll_elocked)

lemma fetch_round_elocked: "cle_fetch_round e m = Some (r, m') \<Longrightarrow> elocked m' = elocked m"
  unfolding cle_fetch_round_def
  by (erule run_head_elocked)
    (auto simp: bind_eq_Some_iff dest!: run_elocked ready_or_poll_elocked timer_tick_elocked unlink_elocked split: if_splits)

lemma lk_idem: "elocked m = b \<Longrightarrow> lk b m = m"
  by simp

lemma cle_fetch_round_lock_eq:
  assumes "\<not> elocked m"
  shows "cle_fetch_round_lock e m = cle_fetch_round e m"
proof (cases "lst m LEvent")
  case (Cons t ts)
  then show ?thesis by (simp add: cle_fetch_round_def cle_fetch_round_lock_def cle_thread_trim_head_def)
next
  case Nil
  show ?thesis
  proof (cases "cle_timer_tick (fst e) m")
    case None
    then show ?thesis using Nil assms
      by (simp add: cle_fetch_round_def cle_fetch_round_lock_def cle_thread_trim_head_def cle_lock_def timer_tick_lk)
  next
    case (Some r)
    obtain t m1 where r: "r = (t, m1)" by (cases r)
    have l1: "elocked m1 = False" using timer_tick_elocked[of "fst e" m t m1] Some r assms by simp
    have "map_option (apfst Some) (cle_thread_run t m2) =
        Option.bind (cle_thread_run t (lk True m2)) (\<lambda>(c, m). Some (Some c, lk False m))" if "unlink_task t m1 = Some m2" for m2
    proof -
      have "elocked m2 = False" using unlink_elocked[OF that] l1 by simp
      then show ?thesis using run_elocked[of t m2] by (cases "cle_thread_run t m2") (auto simp: run_lk)
    qed
    moreover have "cle_ready_or_poll e (lk False m1) = cle_ready_or_poll e m1" by (simp only: lk_idem[OF l1])
    ultimately show ?thesis using Nil assms Some r
      by (cases "unlink_task t m1")
        (simp_all add: cle_fetch_round_def cle_fetch_round_lock_def cle_thread_trim_head_def cle_lock_def timer_tick_lk unlink_lk)
  qed
qed

section \<open>Tear-down\<close>

lemma free_frame:
  assumes "cle_thread_free u m = Some m'"
  shows "sockets m' = sockets m" "eth m' u = None" "v \<noteq> u \<Longrightarrow> eth m' v = eth m v"
    "v \<noteq> u \<Longrightarrow> v \<in> set (lst m l) \<Longrightarrow> v \<in> set (lst m' l)" "eth m u \<noteq> None"
  using assms by (auto simp: cle_thread_free_def unlink_task_def bind_eq_Some_iff in_set_remove1 split: if_splits)

lemma free_list_frame:
  "foldM cle_thread_free us m = Some m' \<Longrightarrow> sockets m' = sockets m \<and> (eth m t = None \<longrightarrow> eth m' t = None) \<and>
     (if t \<in> set us then eth m' t = None else eth m' t = eth m t \<and> (\<forall>l. t \<in> set (lst m l) \<longrightarrow> t \<in> set (lst m' l)))"
proof (induction us arbitrary: m)
  case (Cons u us)
  then obtain m1 where m1: "cle_thread_free u m = Some m1" "foldM cle_thread_free us m1 = Some m'"
    by (auto simp: bind_eq_Some_iff)
  then show ?case
    using Cons.IH[OF m1(2)] free_frame(1,2,5)[OF m1(1)] free_frame(3,4)[OF m1(1), of t] by (cases "t = u") (auto split: if_splits)
qed simp

lemma free_opt_frame:
  assumes "(if u \<noteq> NULL then cle_thread_free u m else Some m) = Some m'" "eth m t = None" "t \<noteq> NULL"
  shows "u \<noteq> t \<and> eth m' t = None \<and> sockets m' = sockets m"
proof (cases "u = NULL")
  case False
  then have f: "cle_thread_free u m = Some m'" using assms(1) by simp
  have "t \<noteq> u" using free_frame(5)[OF f] assms(2) by auto
  then show ?thesis using free_frame(1)[OF f] free_frame(3)[OF f, of t] assms(2) by simp
qed (use assms in simp)

text \<open>A socket whose task was freed already cannot be freed.\<close>

lemma socket_free_frame:
  assumes "cle_thread_socket_free fd s m = Some m'" "eth m t = None" "t \<noteq> NULL" "sockets m = S"
  shows "eth m' t = None \<and> sockets m' = S \<and> t_read s \<noteq> t \<and> t_write s \<noteq> t"
proof -
  obtain m1 m2 where m: "(if t_read s \<noteq> NULL then cle_thread_free (t_read s) m else Some m) = Some m1"
      "(if t_write s \<noteq> NULL then cle_thread_free (t_write s) m1 else Some m1) = Some m2"
      "m' = (if added s then epoll_ctl_del fd m2 else m2)"
    using assms(1) unfolding cle_thread_socket_free_def bind_eq_Some_iff by blast
  have "t_read s \<noteq> t \<and> eth m1 t = None \<and> sockets m1 = sockets m" by (rule free_opt_frame[OF m(1) assms(2,3)])
  moreover from this have "t_write s \<noteq> t \<and> eth m2 t = None \<and> sockets m2 = sockets m1"
    by (intro free_opt_frame[OF m(2) _ assms(3)]) simp
  ultimately show ?thesis using m(3) assms(4) by (simp add: epoll_ctl_del_def)
qed

lemma rb_free_dangling:
  "fd \<in> set fds \<Longrightarrow> sockets m fd = Some s \<Longrightarrow> t_read s = t \<or> t_write s = t \<Longrightarrow> t \<noteq> NULL \<Longrightarrow> eth m t = None \<Longrightarrow>
     cle_thread_rb_free fds m = None"
proof (induction fds arbitrary: m)
  case (Cons f fds)
  let ?step = "\<lambda>fd m. Option.bind (sockets m fd) (\<lambda>s. cle_thread_socket_free fd s (m\<lparr>sockets := (sockets m)(fd := None)\<rparr>))"
  show ?case
  proof (cases "?step f m")
    case None
    then show ?thesis by (simp add: cle_thread_rb_free_def)
  next
    case (Some m1)
    then obtain s1 where s1: "sockets m f = Some s1" "cle_thread_socket_free f s1 (m\<lparr>sockets := (sockets m)(f := None)\<rparr>) = Some m1"
      by (auto simp: bind_eq_Some_iff)
    have fr: "eth m1 t = None \<and> sockets m1 = (sockets m)(f := None) \<and> t_read s1 \<noteq> t \<and> t_write s1 \<noteq> t"
      by (rule socket_free_frame[OF s1(2) _ Cons.prems(4)]) (simp_all add: Cons.prems(5))
    then have "f \<noteq> fd" using s1(1) Cons.prems(2,3) by auto
    then have "cle_thread_rb_free fds m1 = None"
      using Cons.IH[of m1] Cons.prems fr by auto
    then show ?thesis using Some by (simp add: cle_thread_rb_free_def)
  qed
qed simp

lemma free_all_keeps:
  assumes "cle_thread_free_all_thread l m = Some m'"
  shows "sockets m' = sockets m" "eth m t = None \<Longrightarrow> eth m' t = None"
    "t \<in> set (lst m l) \<Longrightarrow> eth m' t = None" "t \<notin> set (lst m l) \<Longrightarrow> t \<in> set (lst m k) \<Longrightarrow> t \<in> set (lst m' k)"
    "t \<notin> set (lst m l) \<Longrightarrow> eth m' t = eth m t"
  using assms free_list_frame[of "lst m l" m m' t] unfolding cle_thread_free_all_thread_def by auto

text \<open>The ready tasks are freed with their list and again with their sockets.\<close>

lemma stop_faults:
  assumes inv: "cle_inv m" and t: "t \<in> set (lst m LReady)" and c: "eth m t = Some c" and fds: "fd_word (eu c) \<in> set fds"
  shows "cle_thread_stop fds m = None"
proof (rule ccontr)
  assume "cle_thread_stop fds m \<noteq> None"
  then obtain m1 m2 m3 m4 tn m5 where r: "cle_thread_free_all_thread LEvent m = Some m1"
      "cle_thread_free_all_thread LTimer m1 = Some m2" "cle_thread_free_all_thread LReady m2 = Some m3"
      "cle_thread_free_all_thread LUnuse m3 = Some m4" "cle_thread_rb_free fds (m4\<lparr>tnodes := tn, heap := None\<rparr>) = Some m5"
    by (auto simp: cle_thread_stop_def bind_eq_None_conv)
  have li: "lists_inv {} m" using inv by (simp add: cle_inv_def)
  have ty: "etype c = T_READY" using lists_invD[OF li t] c by (metis option.inject)
  have "own_ok m t c" using inv c by (simp add: cle_inv_def owner_inv_def)
  then obtain s where s: "sockets m (fd_word (eu c)) = Some s" "t_read s = t \<or> t_write s = t" using ty by (auto simp: own_ok_def)
  have n: "t \<noteq> NULL" using li c by (auto simp: lists_inv_def)
  have "t \<notin> set (lst m LEvent)" using lists_inv_unique[OF li t, of LEvent] by auto
  then have t1: "t \<in> set (lst m1 LReady)" using free_all_keeps(4)[OF r(1) _ t] by simp
  have "eth m3 t = None"
  proof (cases "t \<in> set (lst m1 LTimer)")
    case True
    then have e: "eth m2 t = None" by (rule free_all_keeps(3)[OF r(2)])
    show ?thesis by (rule free_all_keeps(2)[OF r(3) e])
  next
    case False
    have t2: "t \<in> set (lst m2 LReady)" by (rule free_all_keeps(4)[OF r(2) False t1])
    show ?thesis by (rule free_all_keeps(3)[OF r(3) t2])
  qed
  then have e4: "eth m4 t = None" by (rule free_all_keeps(2)[OF r(4)])
  have so: "sockets m4 = sockets m"
    using free_all_keeps(1)[OF r(1)] free_all_keeps(1)[OF r(2)] free_all_keeps(1)[OF r(3)] free_all_keeps(1)[OF r(4)] by simp
  have "cle_thread_rb_free fds (m4\<lparr>tnodes := tn, heap := None\<rparr>) = None"
    by (rule rb_free_dangling[OF fds _ s(2) n]) (use e4 so s in auto)
  then show False using r(5) by simp
qed

lemma cancel_ready_faults: "eth m t = Some c \<Longrightarrow> etype c = T_READY \<Longrightarrow> cle_thread_cancel t m = None"
  by (simp add: cle_thread_cancel_def bind_eq_None_conv)

section \<open>Properties\<close>

text \<open>
  A sample: two readers are added, the kernel reports both descriptors readable, and one of the readers is fetched; the
  other stays ready.
\<close>

definition sample_kernel :: ep_env where
  "sample_kernel = (1000, \<lambda>E w. if E 5 = None \<or> E 6 = None then (0, []) else (2, [(EPOLLIN, 5), (EPOLLIN, 6)]))"

definition sample_start :: cle_master where
  "sample_start = snd (cle_thread_init 3 True (\<lambda>_. True) Map.empty)"

definition sample_one :: cle_master where
  "sample_one = snd (the (cle_thread_add_read 256 True 1 1 5 False sample_start))"

definition sample_two :: cle_master where
  "sample_two = snd (the (cle_thread_add_read 512 True 1 2 6 False sample_one))"

definition sample_ready :: cle_master where
  "sample_ready = snd (the (cle_thread_fetch [sample_kernel] sample_two))"

lemma sample_kernel_ok: "kernel_ok sample_kernel"
  by (auto simp: kernel_ok_def sample_kernel_def take_Cons' split: if_splits)

lemma sample_start_reach: "cle_reach sample_start"
proof -
  have "cle_thread_init 3 True (\<lambda>_. True) Map.empty = (True, sample_start)" by (simp add: sample_start_def cle_thread_init_def)
  then show ?thesis by (rule cle_reach.init) simp
qed

lemma add_read_reach:
  assumes r: "cle_reach m" and new: "calloc_fresh new m"
  shows "cle_reach (snd (the (cle_thread_add_read new True f a fd p m)))"
proof -
  obtain s where "socket_for True fd m = Some s" by (cases "sockets m fd") (auto simp: socket_for_def)
  then obtain x m' where "cle_thread_add_read new True f a fd p m = Some (x, m')"
    using add_read_ok[OF cle_reach_inv[OF r] new] by blast
  then show ?thesis using cle_reach.add_read[OF r new] by simp
qed

lemma fetch_reach:
  assumes r: "cle_reach m" and k: "list_all kernel_ok es"
  shows "cle_reach (snd (the (cle_thread_fetch es m)))"
proof -
  obtain x m' where "cle_thread_fetch es m = Some (x, m')" using cle_fetch_ok[OF cle_reach_inv[OF r] cle_reach_kern[OF r] k] by blast
  then show ?thesis using cle_reach.fetch[OF r k] by simp
qed

lemma sample_two_fresh: "512 \<noteq> NULL \<and> Option.is_none (eth sample_one 512)"
  by code_simp

lemma sample_two_reach: "cle_reach sample_two"
  unfolding sample_two_def
proof (rule add_read_reach)
  show "cle_reach sample_one" unfolding sample_one_def
    by (rule add_read_reach[OF sample_start_reach]) (simp add: sample_start_def cle_thread_init_def)
  show "calloc_fresh 512 sample_one" using sample_two_fresh by (simp add: Option.is_none_def split: option.splits)
qed

lemma sample_ready_reach: "cle_reach sample_ready"
  unfolding sample_ready_def by (rule fetch_reach[OF sample_two_reach]) (simp add: sample_kernel_ok)

lemma sample_ready_state: "lst sample_ready LReady = [256] \<and> map_option (\<lambda>c. fd_word (eu c)) (eth sample_ready 256) = Some 5"
  by code_simp

text \<open>C14: in every state that a client can reach, each task in the list of readers is the reader of its descriptor and
  the last request for the descriptor was to have it registered for input; each task in the list of writers is the writer
  of its descriptor and the last request was to have it registered for output; and \<open>op\<close> tells for every socket whether
  the last request was to have it registered.  The kernel has it registered in just this way, unless \<open>epoll_ctl\<close> refused
  that request or the descriptor was closed after it: the code does not look at the result, so it does not learn of
  either.\<close>

theorem cle_waiting_registered:
  assumes "cle_reach m"
  shows "list_all (\<lambda>t. \<exists>c e. eth m t = Some c \<and> cle_thread_get_read (fd_word (eu c)) m = t \<and>
       asked m (fd_word (eu c)) = Some e \<and> e AND EPOLLIN \<noteq> 0 \<and>
       (reg (kern m) (fd_word (eu c)) = Some e \<or> stale (kern m) (fd_word (eu c)))) (lst m LRead) \<and>
    list_all (\<lambda>t. \<exists>c e. eth m t = Some c \<and> cle_thread_get_write (fd_word (eu c)) m = t \<and>
       asked m (fd_word (eu c)) = Some e \<and> e AND EPOLLOUT \<noteq> 0 \<and>
       (reg (kern m) (fd_word (eu c)) = Some e \<or> stale (kern m) (fd_word (eu c)))) (lst m LWrite) \<and>
    (\<forall>fd. map_option added (sockets m fd) \<in> {None, Some (asked m fd \<noteq> None)} \<and>
       (reg (kern m) fd = asked m fd \<or> stale (kern m) fd))"
proof (intro conjI)
  note inv = cle_reach_inv[OF assms]
  have li: "lists_inv {} m" and so: "\<And>fd s. sockets m fd = Some s \<Longrightarrow> sock_ok m fd s"
    using inv by (simp_all add: cle_inv_def socks_inv_def)
  have nn: "eth m NULL = None" using li by (simp add: lists_inv_def)
  have ke: "stale (kern m) fd \<or> reg (kern m) fd = asked m fd" for fd
    using cle_reach_kern[OF assms] by (simp add: kern_inv_def)
  have "\<exists>c e. eth m t = Some c \<and> cle_thread_get_read (fd_word (eu c)) m = t \<and> asked m (fd_word (eu c)) = Some e \<and>
      e AND EPOLLIN \<noteq> 0" if t: "t \<in> set (lst m LRead)" for t
  proof -
    obtain c where c: "eth m t = Some c" "etype c = T_READ" using lists_invD[OF li t] by metis
    then have "own_ok m t c" using inv by (simp add: cle_inv_def owner_inv_def)
    then obtain s where s: "sockets m (fd_word (eu c)) = Some s" "t_read s = t" using c by (auto simp: own_ok_def)
    then show ?thesis using so[OF s(1)] c nn
      by (auto simp: sock_ok_def waits_in_def cle_thread_get_read_def cle_thread_socket_lookup_def)
  qed
  then show "list_all (\<lambda>t. \<exists>c e. eth m t = Some c \<and> cle_thread_get_read (fd_word (eu c)) m = t \<and>
       asked m (fd_word (eu c)) = Some e \<and> e AND EPOLLIN \<noteq> 0 \<and>
       (reg (kern m) (fd_word (eu c)) = Some e \<or> stale (kern m) (fd_word (eu c)))) (lst m LRead)"
    using ke by (fastforce simp: list_all_iff)
  have "\<exists>c e. eth m t = Some c \<and> cle_thread_get_write (fd_word (eu c)) m = t \<and> asked m (fd_word (eu c)) = Some e \<and>
      e AND EPOLLOUT \<noteq> 0" if t: "t \<in> set (lst m LWrite)" for t
  proof -
    obtain c where c: "eth m t = Some c" "etype c = T_WRITE" using lists_invD[OF li t] by metis
    then have "own_ok m t c" using inv by (simp add: cle_inv_def owner_inv_def)
    then obtain s where s: "sockets m (fd_word (eu c)) = Some s" "t_write s = t" using c by (auto simp: own_ok_def)
    then show ?thesis using so[OF s(1)] c nn
      by (auto simp: sock_ok_def waits_in_def cle_thread_get_write_def cle_thread_socket_lookup_def)
  qed
  then show "list_all (\<lambda>t. \<exists>c e. eth m t = Some c \<and> cle_thread_get_write (fd_word (eu c)) m = t \<and>
       asked m (fd_word (eu c)) = Some e \<and> e AND EPOLLOUT \<noteq> 0 \<and>
       (reg (kern m) (fd_word (eu c)) = Some e \<or> stale (kern m) (fd_word (eu c)))) (lst m LWrite)"
    using ke by (fastforce simp: list_all_iff)
  show "(\<forall>fd. map_option added (sockets m fd) \<in> {None, Some (asked m fd \<noteq> None)} \<and>
       (reg (kern m) fd = asked m fd \<or> stale (kern m) fd))"
  proof
    fix fd
    show "map_option added (sockets m fd) \<in> {None, Some (asked m fd \<noteq> None)} \<and> (reg (kern m) fd = asked m fd \<or> stale (kern m) fd)"
      using so[of fd] ke[of fd] by (cases "sockets m fd") (auto simp: sock_ok_def)
  qed
qed

theorem cle_waiting_registered_witness:
  "list_all (\<lambda>t. \<exists>c e. eth sample_two t = Some c \<and> cle_thread_get_read (fd_word (eu c)) sample_two = t \<and>
       asked sample_two (fd_word (eu c)) = Some e \<and> e AND EPOLLIN \<noteq> 0 \<and>
       (reg (kern sample_two) (fd_word (eu c)) = Some e \<or> stale (kern sample_two) (fd_word (eu c)))) (lst sample_two LRead) \<and>
    list_all (\<lambda>t. \<exists>c e. eth sample_two t = Some c \<and> cle_thread_get_write (fd_word (eu c)) sample_two = t \<and>
       asked sample_two (fd_word (eu c)) = Some e \<and> e AND EPOLLOUT \<noteq> 0 \<and>
       (reg (kern sample_two) (fd_word (eu c)) = Some e \<or> stale (kern sample_two) (fd_word (eu c)))) (lst sample_two LWrite) \<and>
    (\<forall>fd. map_option added (sockets sample_two fd) \<in> {None, Some (asked sample_two fd \<noteq> None)} \<and>
       (reg (kern sample_two) fd = asked sample_two fd \<or> stale (kern sample_two) fd))"
  by (rule cle_waiting_registered[OF sample_two_reach])

text \<open>A refused registration is not made up for.  When \<open>op\<close> says that a descriptor was added and the kernel does not have
  it, adding the other of its tasks succeeds for the caller and still leaves the descriptor unregistered, whatever the
  kernel would allow, since the code asks to change what is not there.\<close>

theorem refused_add_stays:
  assumes r: "cle_reach m" and s: "sockets m fd = Some s" "added s" "reg (kern m) fd = None" "\<not> bit (stype s) 1"
    and new: "calloc_fresh new m"
  shows "\<exists>t m'. cle_thread_add_write new sok f a fd p m = Some (Some t, m') \<and> reg (kern m') fd = None \<and> t \<in> set (lst m' LWrite)"
proof -
  have sf: "socket_for sok fd m = Some s" using s(1) by (simp add: socket_for_def)
  have same: "put_socket fd s m = m" using s(1) by (simp add: fun_upd_idem)
  obtain t m' where t: "cle_thread_add_write new sok f a fd p m = Some (Some t, m')"
    using add_write_ok[OF cle_reach_inv[OF r] new sf, of f a p] s(4) by fastforce
  obtain m1 m2 e s' where k: "cle_thread_get new T_WRITE f a m = Some (t, m1)" "upd_task t (\<lambda>c. c\<lparr>eu := set_fd fd (eu c)\<rparr>) m1 = Some m2"
      "m' = push_tail LWrite t (put_socket fd s' (epoll_ctl_set False fd e m2))"
    using t s by (auto simp: cle_thread_add_write_def sf same bind_eq_Some_iff Let_def split: if_splits)
  have "kern m2 = kern m"
    using k(1,2) by (auto simp: cle_thread_get_def cle_thread_trim_head_def upd_task_def split: prod.splits option.splits if_splits list.splits)
  then have "reg (kern m') fd = None" using s(3) by (simp add: k(3) push_tail_def epoll_ctl_set_def kernel_ctl_def)
  moreover have "t \<in> set (lst m' LWrite)" by (simp add: k(3) push_tail_def)
  ultimately show ?thesis using t by blast
qed

text \<open>A reader is added and the kernel refuses.\<close>

definition sample_refused :: cle_master where
  "sample_refused = snd (the (cle_thread_add_read 256 True 1 1 5 False
     (snd (cle_thread_init 3 True (\<lambda>_. False) Map.empty))))"

lemma sample_refused_reach: "cle_reach sample_refused"
proof -
  let ?m = "snd (cle_thread_init 3 True (\<lambda>_. False) Map.empty)"
  have "cle_thread_init 3 True (\<lambda>_. False) Map.empty = (True, ?m)" by (simp add: cle_thread_init_def)
  then have "cle_reach ?m" by (rule cle_reach.init) simp
  then show ?thesis unfolding sample_refused_def
    by (rule add_read_reach) (simp add: cle_thread_init_def)
qed

lemma sample_refused_state:
  "map_option (\<lambda>s. (added s, bit (stype s) 1)) (sockets sample_refused 5) = Some (True, False) \<and>
   reg (kern sample_refused) 5 = None \<and> eth sample_refused 512 = None"
  by (simp add: sample_refused_def cle_thread_init_def cle_thread_add_read_def socket_for_def cle_thread_socket_calloc_def
      cle_thread_get_def cle_thread_trim_head_def upd_task_def epoll_ctl_set_def kernel_ctl_def push_tail_def Let_def flag_simps)

theorem refused_add_stays_witness:
  "\<exists>t m'. cle_thread_add_write 512 True 1 2 5 False sample_refused = Some (Some t, m') \<and> reg (kern m') 5 = None \<and>
     t \<in> set (lst m' LWrite)"
proof -
  obtain s where s: "sockets sample_refused 5 = Some s" "added s" "\<not> bit (stype s) 1" using sample_refused_state by auto
  show ?thesis by (rule refused_add_stays[OF sample_refused_reach s(1,2) _ s(3)]) (use sample_refused_state in simp_all)
qed

text \<open>C35: from a reachable state, and with a kernel that reports registered descriptors only, \<open>cl_thread_fetch\<close> fails no
  assertion and touches no freed or null task, whatever the number of rounds, and cancelling a task that waits for
  input, output, a timer or an event succeeds.\<close>

theorem cle_fetch_safe:
  assumes "cle_reach m" and "list_all kernel_ok es"
  shows "(\<exists>r m'. cle_thread_fetch es m = Some (r, m') \<and> cle_reach m') \<and>
     list_all (\<lambda>t. cle_thread_cancel t m \<noteq> None) (lst m LRead @ lst m LWrite @ lst m LTimer @ lst m LEvent)"
proof
  note inv = cle_reach_inv[OF assms(1)]
  show "\<exists>r m'. cle_thread_fetch es m = Some (r, m') \<and> cle_reach m'"
    using cle_fetch_ok[OF inv cle_reach_kern[OF assms(1)] assms(2)] cle_reach.fetch[OF assms] by blast
  have li: "lists_inv {} m" using inv by (simp add: cle_inv_def)
  have "cle_thread_cancel t m \<noteq> None" if t: "t \<in> set (lst m l)" "l \<noteq> LReady" "l \<noteq> LUnuse" for t l
    using lists_invD[OF li t(1)] cle_cancel_ok[OF inv, of t] t(2,3) by (metis list_type_inj option.distinct(1))
  then show "list_all (\<lambda>t. cle_thread_cancel t m \<noteq> None) (lst m LRead @ lst m LWrite @ lst m LTimer @ lst m LEvent)"
    by (auto simp: list_all_iff)
qed

theorem cle_fetch_safe_witness:
  "(\<exists>r m'. cle_thread_fetch [sample_kernel, sample_kernel] sample_two = Some (r, m') \<and> cle_reach m') \<and>
   list_all (\<lambda>t. cle_thread_cancel t sample_two \<noteq> None)
     (lst sample_two LRead @ lst sample_two LWrite @ lst sample_two LTimer @ lst sample_two LEvent)"
  by (rule cle_fetch_safe[OF sample_two_reach]) (simp add: sample_kernel_ok)

text \<open>When no one holds the mutex, \<open>cl_thread_fetch_lock\<close> gives the same task and the same state as
  \<open>cl_thread_fetch\<close>, and on return the mutex is free again.\<close>

theorem cle_fetch_lock_equiv:
  assumes "\<not> elocked m"
  shows "cle_thread_fetch_lock es m = cle_thread_fetch es m \<and>
     map_option (elocked \<circ> snd) (cle_thread_fetch_lock es m) \<in> {None, Some False}"
  using assms
proof (induction es arbitrary: m)
  case (Cons e es)
  have eq: "cle_fetch_round_lock e m = cle_fetch_round e m" by (rule cle_fetch_round_lock_eq[OF Cons.prems])
  show ?case
  proof (cases "cle_fetch_round e m")
    case (Some r)
    obtain c m1 where r: "r = (c, m1)" by (cases r)
    then have "\<not> elocked m1" using fetch_round_elocked[of e m c m1] Some Cons.prems by simp
    then show ?thesis using Cons.IH[of m1] eq Some r by (cases c) auto
  qed (simp add: eq)
qed simp

theorem cle_fetch_lock_equiv_witness:
  "cle_thread_fetch_lock [sample_kernel] sample_start = cle_thread_fetch [sample_kernel] sample_start \<and>
   map_option (elocked \<circ> snd) (cle_thread_fetch_lock [sample_kernel] sample_start) \<in> {None, Some False}"
  by (rule cle_fetch_lock_equiv) (simp add: sample_start_def cle_thread_init_def)

text \<open>C36: a task that is ready in a reachable state can be neither cancelled nor torn down: \<open>cl_thread_cancel\<close> runs from
  the case of the ready tasks into the default one and writes through a null pointer, and \<open>cl_thread_stop\<close> frees the
  task with the ready list and once more with its socket.\<close>

theorem cle_ready_faults:
  assumes "cle_reach m" and "t \<in> set (lst m LReady)" and "eth m t = Some c" and "fd_word (eu c) \<in> set fds"
  shows "cle_thread_cancel t m = None \<and> cle_thread_stop fds m = None"
proof
  note inv = cle_reach_inv[OF assms(1)]
  then have "lists_inv {} m" by (simp add: cle_inv_def)
  then have "etype c = T_READY" using lists_invD[of "{}" m t LReady] assms(2,3) by auto
  then show "cle_thread_cancel t m = None" by (rule cancel_ready_faults[OF assms(3)])
  show "cle_thread_stop fds m = None" by (rule stop_faults[OF inv assms(2-4)])
qed

theorem cle_ready_faults_witness:
  "cle_reach sample_ready \<and> cle_thread_cancel 256 sample_ready = None \<and> cle_thread_stop [5, 6] sample_ready = None"
proof -
  obtain c where c: "eth sample_ready 256 = Some c" "fd_word (eu c) = 5" using sample_ready_state by auto
  have "cle_thread_cancel 256 sample_ready = None \<and> cle_thread_stop [5, 6] sample_ready = None"
    by (rule cle_ready_faults[OF sample_ready_reach _ c(1)]) (use sample_ready_state c(2) in auto)
  then show ?thesis using sample_ready_reach by simp
qed

end
