(* ===== verification/Blocks.thy ===== *)
theory Blocks
  imports Base
begin

text \<open>
  The memory of the buffer components: blocks of bytes by their address, as \<open>calloc\<close>, \<open>realloc\<close>, \<open>memcpy\<close>, \<open>memset\<close> and
  \<open>free\<close> see them.  An access outside a block, a negative count (which \<open>size_t\<close> turns into a huge one) and freeing what
  is not allocated are faults.  The locale \<open>ordered_stream\<close> is the contract that the buffers of this repository promise to
  their clients: what is put in comes out in the same order, and nothing is lost.
\<close>

type_synonym blocks = "addr \<rightharpoonup> u8 list"

definition bcalloc :: "addr \<Rightarrow> nat \<Rightarrow> blocks \<Rightarrow> blocks" where
  "bcalloc new n H = (if new = NULL then H else H(new \<mapsto> replicate n 0))"

definition bfree :: "addr \<Rightarrow> blocks \<Rightarrow> blocks option" where
  "bfree p H = (if p = NULL then Some H else if p \<in> dom H then Some (H(p := None)) else None)"

text \<open>\<open>realloc\<close> that succeeds with the block \<open>new\<close>; what it adds is indeterminate.\<close>

definition brealloc :: "addr \<Rightarrow> (nat \<Rightarrow> u8) \<Rightarrow> addr \<Rightarrow> nat \<Rightarrow> blocks \<Rightarrow> blocks option" where
  "brealloc new junk p n H =
     (if p = NULL then Some (H(new \<mapsto> map junk [0..<n]))
      else case H p of
        None \<Rightarrow> None
      | Some bs \<Rightarrow> Some ((H(p := None))(new \<mapsto> take n bs @ map junk [length bs..<n])))"

definition bread :: "addr \<Rightarrow> int \<Rightarrow> int \<Rightarrow> blocks \<Rightarrow> u8 list option" where
  "bread p off n H =
     (case H p of
        None \<Rightarrow> if n = 0 then Some [] else None
      | Some bs \<Rightarrow> if 0 \<le> off \<and> 0 \<le> n \<and> off + n \<le> int (length bs) then Some (take (nat n) (drop (nat off) bs)) else None)"

definition bwrite :: "addr \<Rightarrow> int \<Rightarrow> u8 list \<Rightarrow> blocks \<Rightarrow> blocks option" where
  "bwrite p off xs H =
     (case H p of
        None \<Rightarrow> if xs = [] then Some H else None
      | Some bs \<Rightarrow>
          if 0 \<le> off \<and> off + int (length xs) \<le> int (length bs)
          then Some (H(p \<mapsto> take (nat off) bs @ xs @ drop (nat off + length xs) bs))
          else None)"

text \<open>\<open>memset\<close> with zero.\<close>

definition bzero :: "addr \<Rightarrow> int \<Rightarrow> int \<Rightarrow> blocks \<Rightarrow> blocks option" where
  "bzero p off n H = (if n < 0 then None else bwrite p off (replicate (nat n) 0) H)"

lemma bread_ok:
  "H p = Some bs \<Longrightarrow> 0 \<le> off \<Longrightarrow> 0 \<le> n \<Longrightarrow> off + n \<le> int (length bs) \<Longrightarrow>
     bread p off n H = Some (take (nat n) (drop (nat off) bs))"
  by (simp add: bread_def)

lemma bwrite_ok:
  "H p = Some bs \<Longrightarrow> 0 \<le> off \<Longrightarrow> off + int (length xs) \<le> int (length bs) \<Longrightarrow>
     bwrite p off xs H = Some (H(p \<mapsto> take (nat off) bs @ xs @ drop (nat off + length xs) bs))"
  by (simp add: bwrite_def)

lemma bzero_ok:
  "H p = Some bs \<Longrightarrow> 0 \<le> off \<Longrightarrow> 0 \<le> n \<Longrightarrow> off + n \<le> int (length bs) \<Longrightarrow>
     bzero p off n H = Some (H(p \<mapsto> take (nat off) bs @ replicate (nat n) 0 @ drop (nat off + nat n) bs))"
  by (simp add: bzero_def bwrite_ok)

lemma bzero_end:
  "H p = Some (bs @ ys) \<Longrightarrow> length ys = n \<Longrightarrow> bzero p (int (length bs)) (int n) H = Some (H(p \<mapsto> bs @ replicate n 0))"
  by (auto simp: bzero_def bwrite_def)

text \<open>The operations touch their own blocks only.\<close>

lemma bwrite_frame: "bwrite p off xs H = Some H' \<Longrightarrow> q \<noteq> p \<Longrightarrow> H' q = H q"
  by (auto simp: bwrite_def split: option.splits if_splits)

lemma bzero_frame: "bzero p off n H = Some H' \<Longrightarrow> q \<noteq> p \<Longrightarrow> H' q = H q"
  by (auto simp: bzero_def split: if_splits dest: bwrite_frame)

lemma brealloc_frame: "brealloc new junk p n H = Some H' \<Longrightarrow> q \<noteq> p \<Longrightarrow> q \<noteq> new \<Longrightarrow> H' q = H q"
  by (auto simp: brealloc_def split: option.splits if_splits)

section \<open>The contract of an ordered stream\<close>

text \<open>
  \<open>view\<close> is what the client has put in, in order: what came out already and what is still inside.  An operation that is
  allowed in a state does not fault and appends its input \<open>inp\<close> to the view; \<open>all_allowed\<close> says that each operation of
  a sequence is allowed in the state in which it runs.  Whether it faults there is not part of it: after a fault nothing
  more runs and nothing more is asked.
\<close>

fun all_allowed :: "('op \<Rightarrow> 's \<Rightarrow> 's option) \<Rightarrow> ('op \<Rightarrow> 's \<Rightarrow> bool) \<Rightarrow> 'op list \<Rightarrow> 's \<Rightarrow> bool" where
  "all_allowed step allowed [] s = True"
| "all_allowed step allowed (op # ops) s =
     (allowed op s \<and> (case step op s of None \<Rightarrow> True | Some s' \<Rightarrow> all_allowed step allowed ops s'))"

locale ordered_stream =
  fixes step :: "'op \<Rightarrow> 's \<Rightarrow> 's option"
    and allowed :: "'op \<Rightarrow> 's \<Rightarrow> bool"
    and inp :: "'op \<Rightarrow> 'a list"
    and inv :: "'s \<Rightarrow> bool"
    and view :: "'s \<Rightarrow> 'a list"
  assumes step_law: "inv s \<Longrightarrow> allowed op s \<Longrightarrow> \<exists>s'. step op s = Some s' \<and> inv s' \<and> view s' = view s @ inp op"
begin

lemma run_view:
  "inv s \<Longrightarrow> all_allowed step allowed ops s \<Longrightarrow> \<exists>s'. foldM step ops s = Some s' \<and> inv s' \<and> view s' = view s @ concat (map inp ops)"
proof (induction ops arbitrary: s)
  case (Cons op ops)
  obtain s' where s': "step op s = Some s'" "inv s'" "view s' = view s @ inp op"
    using step_law[of s op] Cons.prems by auto
  then show ?case using Cons.IH[OF s'(2)] Cons.prems(2) by auto
qed simp

end

end
