(* ===== verification/FlexBuffer.thy ===== *)
theory FlexBuffer
  imports Blocks
begin

text \<open>
  The growing byte buffer of \<open>demo/C/flex_buffer/flex_buffer.h\<close> and the array of such buffers.  A buffer is a block of
  bytes with the indices of the reader and the writer.  An index is a C \<open>int\<close>; where the code compares with or adds a
  \<open>size_t\<close> the conversion is written out.  Failed assertions are faults.  The addresses that the allocator returns, and
  the bytes that \<open>realloc\<close> adds, are arguments.  A pointer to a buffer structure that may be null is an option.
\<close>

section \<open>Data\<close>

record flex_buffer =
  fb_buffer :: addr
  readerIndex :: int
  writerIndex :: int
  fb_size :: int

record alignflexbuffer =
  fb_buffers :: "flex_buffer list"
  fb_cout :: int
  fb_max :: int

type_synonym fb_state = "flex_buffer \<times> blocks"

text \<open>The conversions from \<open>int\<close> to \<open>size_t\<close> and back.\<close>

definition size_of :: "int \<Rightarrow> nat" where
  "size_of x = nat (x mod 2 ^ 64)"

definition int_of :: "int \<Rightarrow> int" where
  "int_of x = signed_take_bit 31 x"

section \<open>Operations on a buffer\<close>

definition readableBytes :: "flex_buffer \<Rightarrow> int" where
  "readableBytes b = writerIndex b - readerIndex b"

definition writableBytes :: "flex_buffer \<Rightarrow> int" where
  "writableBytes b = fb_size b - writerIndex b"

text \<open>The two pointers into the block, as offsets.\<close>

definition flex_peek :: "flex_buffer \<Rightarrow> int" where
  "flex_peek b = readerIndex b"

definition flex_beginWrite :: "flex_buffer \<Rightarrow> int" where
  "flex_beginWrite b = writerIndex b"

definition flex_retrieveAll :: "fb_state \<Rightarrow> fb_state option" where
  "flex_retrieveAll = (\<lambda>(b, H). do {
     H \<leftarrow> bzero (fb_buffer b) 0 (fb_size b) H;
     Some (b\<lparr>readerIndex := 0, writerIndex := 0\<rparr>, H) })"

definition flex_retrieve :: "int \<Rightarrow> fb_state \<Rightarrow> fb_state option" where
  "flex_retrieve len = (\<lambda>(b, H).
     if \<not> len \<le> readableBytes b then None
     else if len < readableBytes b then do {
       H \<leftarrow> bzero (fb_buffer b) (readerIndex b) len H;
       Some (b\<lparr>readerIndex := readerIndex b + len\<rparr>, H) }
     else flex_retrieveAll (b, H))"

definition retrieveUntil :: "int \<Rightarrow> fb_state \<Rightarrow> fb_state option" where
  "retrieveUntil end_off = (\<lambda>(b, H).
     if \<not> flex_peek b \<le> end_off then None
     else if \<not> end_off \<le> flex_beginWrite b then None
     else flex_retrieve (end_off - flex_peek b) (b, H))"

text \<open>The result is the count and the bytes copied to \<open>data\<close>.\<close>

definition retrieveReadData :: "int \<Rightarrow> fb_state \<Rightarrow> (int \<times> u8 list \<times> fb_state) option" where
  "retrieveReadData len = (\<lambda>(b, H). do {
     let len = (if len > readableBytes b then readableBytes b else len);
     data \<leftarrow> bread (fb_buffer b) (flex_peek b) len H;
     s \<leftarrow> flex_retrieve len (b, H);
     Some (len, data, s) })"

definition flex_makeSpace :: "addr \<Rightarrow> (nat \<Rightarrow> u8) \<Rightarrow> nat \<Rightarrow> fb_state \<Rightarrow> fb_state option" where
  "flex_makeSpace new junk len = (\<lambda>(b, H). do {
     (b, H) \<leftarrow> (if readerIndex b \<noteq> 0
       then do {
         let readable = readableBytes b;
         data \<leftarrow> bread (fb_buffer b) (readerIndex b) readable H;
         H \<leftarrow> bwrite (fb_buffer b) 0 data H;
         Some (b\<lparr>readerIndex := 0, writerIndex := 0 + readable\<rparr>, H) }
       else Some (b, H));
     if size_of (writableBytes b) < len
     then if new = NULL then None
     else do {
       H \<leftarrow> brealloc new junk (fb_buffer b) (size_of (writerIndex b + int len)) H;
       H \<leftarrow> bzero new (fb_size b) (int (size_of (writerIndex b + int len - fb_size b))) H;
       Some (b\<lparr>fb_buffer := new, fb_size := int_of (writerIndex b + int len)\<rparr>, H) }
     else Some (b, H) })"

definition ensureWritableBytes :: "addr \<Rightarrow> (nat \<Rightarrow> u8) \<Rightarrow> int \<Rightarrow> fb_state \<Rightarrow> fb_state option" where
  "ensureWritableBytes new junk len = (\<lambda>(b, H). do {
     (b, H) \<leftarrow> (if writableBytes b < len then flex_makeSpace new junk (size_of len) (b, H) else Some (b, H));
     if \<not> writableBytes b \<ge> len then None else Some (b, H) })"

definition flex_hasWritten :: "nat \<Rightarrow> fb_state \<Rightarrow> fb_state option" where
  "flex_hasWritten len = (\<lambda>(b, H).
     if \<not> len \<le> size_of (writableBytes b) then None
     else Some (b\<lparr>writerIndex := int_of (writerIndex b + int len)\<rparr>, H))"

text \<open>\<open>data\<close> is the memory from the pointer that the caller passes.\<close>

definition flex_append :: "addr \<Rightarrow> (nat \<Rightarrow> u8) \<Rightarrow> u8 list \<Rightarrow> int \<Rightarrow> fb_state \<Rightarrow> (int \<times> fb_state) option" where
  "flex_append new junk data len s = do {
     (b, H) \<leftarrow> ensureWritableBytes new junk len s;
     if len < 0 \<or> int (length data) < len then None
     else do {
       H \<leftarrow> bwrite (fb_buffer b) (writerIndex b) (take (nat len) data) H;
       s \<leftarrow> flex_hasWritten (size_of len) (b, H);
       Some (len, s) } }"

definition flex_buffer_clean :: "bool \<Rightarrow> fb_state \<Rightarrow> fb_state option" where
  "flex_buffer_clean isfree = (\<lambda>(b, H). do {
     H \<leftarrow> (if isfree \<and> fb_buffer b \<noteq> NULL then bfree (fb_buffer b) H else Some H);
     Some (b\<lparr>readerIndex := 0, writerIndex := 0, fb_size := 0, fb_buffer := NULL\<rparr>, H) })"

definition flex_buffer_move :: "bool \<Rightarrow> flex_buffer \<Rightarrow> flex_buffer \<Rightarrow> blocks \<Rightarrow> (flex_buffer \<times> flex_buffer \<times> blocks) option" where
  "flex_buffer_move clean dst src H = do {
     (dst, H) \<leftarrow> (if clean then flex_buffer_clean True (dst, H) else Some (dst, H));
     let dst = src;
     (src, H) \<leftarrow> flex_buffer_clean False (src, H);
     Some (dst, src, H) }"

definition flex_buffer_usable :: "flex_buffer \<Rightarrow> bool" where
  "flex_buffer_usable b = (fb_buffer b \<noteq> NULL)"

definition flex_buffer_free :: "flex_buffer option \<Rightarrow> blocks \<Rightarrow> blocks option" where
  "flex_buffer_free bo H =
     (case bo of
        None \<Rightarrow> Some H
      | Some b \<Rightarrow> if fb_buffer b \<noteq> NULL then bfree (fb_buffer b) H else Some H)"

definition flex_buffer_safe_free :: "flex_buffer option \<Rightarrow> blocks \<Rightarrow> (flex_buffer option \<times> blocks) option" where
  "flex_buffer_safe_free bo H =
     (case bo of None \<Rightarrow> Some (None, H) | Some b \<Rightarrow> map_option (Pair None) (flex_buffer_free (Some b) H))"

text \<open>\<open>sok\<close> tells whether the structure can be allocated, \<open>new\<close> is the address of the block.\<close>

definition flex_buffer_init :: "bool \<Rightarrow> addr \<Rightarrow> int \<Rightarrow> blocks \<Rightarrow> flex_buffer option \<times> blocks" where
  "flex_buffer_init sok new n H =
     (if \<not> sok then (None, H)
      else if new = NULL then (None, H)
      else (Some \<lparr>fb_buffer = new, readerIndex = 0, writerIndex = 0, fb_size = n\<rparr>, bcalloc new (size_of n) H))"

text \<open>When the allocation fails the structure is freed too: the first component is what is left of it.\<close>

definition flex_buffer_recalloc ::
  "addr \<Rightarrow> int \<Rightarrow> flex_buffer option \<Rightarrow> blocks \<Rightarrow> (int \<times> flex_buffer option \<times> blocks) option" where
  "flex_buffer_recalloc new n bo H =
     (case bo of
        None \<Rightarrow> Some (0, None, H)
      | Some b \<Rightarrow> do {
          H \<leftarrow> (if fb_buffer b \<noteq> NULL then bfree (fb_buffer b) H else Some H);
          if new = NULL then Some (-1, None, H)
          else Some (0, Some (b\<lparr>fb_buffer := new, readerIndex := 0, writerIndex := 0, fb_size := n\<rparr>),
                     bcalloc new (size_of n) H) })"

section \<open>Arrays of buffers\<close>

definition zero_flex_buffer :: flex_buffer where
  "zero_flex_buffer = \<lparr>fb_buffer = NULL, readerIndex = 0, writerIndex = 0, fb_size = 0\<rparr>"

definition alignflexbuffer_add_tail ::
  "alignflexbuffer \<Rightarrow> flex_buffer \<Rightarrow> blocks \<Rightarrow> (alignflexbuffer \<times> flex_buffer \<times> blocks) option" where
  "alignflexbuffer_add_tail t b H =
     (if fb_cout t \<ge> fb_max t then Some (t, b, H)
      else if \<not> (0 \<le> fb_cout t \<and> fb_cout t < int (length (fb_buffers t))) then None
      else do {
        let t = t\<lparr>fb_buffers := (fb_buffers t)[nat (fb_cout t) := b], fb_cout := fb_cout t + 1\<rparr>;
        (b, H) \<leftarrow> flex_buffer_clean False (b, H);
        Some (t, b, H) })"

definition clean_slot :: "int \<Rightarrow> alignflexbuffer \<times> blocks \<Rightarrow> (alignflexbuffer \<times> blocks) option" where
  "clean_slot i = (\<lambda>(t, H).
     if \<not> (0 \<le> i \<and> i < int (length (fb_buffers t))) then None
     else do {
       (b, H) \<leftarrow> flex_buffer_clean True (fb_buffers t ! nat i, H);
       Some (t\<lparr>fb_buffers := (fb_buffers t)[nat i := b]\<rparr>, H) })"

definition alignflexbuffer_erase :: "int \<Rightarrow> int \<Rightarrow> alignflexbuffer \<times> blocks \<Rightarrow> (alignflexbuffer \<times> blocks) option" where
  "alignflexbuffer_erase begin_i end_i s = do {
     (t, H) \<leftarrow> foldM clean_slot [begin_i..end_i - 1] s;
     Some (if begin_i \<ge> 0 then t\<lparr>fb_cout := begin_i\<rparr> else t, H) }"

definition alignflexbuffer_move ::
  "alignflexbuffer \<Rightarrow> alignflexbuffer \<Rightarrow> blocks \<Rightarrow> (alignflexbuffer \<times> alignflexbuffer \<times> blocks) option" where
  "alignflexbuffer_move dst src H = do {
     let n = (if fb_max dst > fb_cout src then fb_cout src else fb_max dst);
     (dst, H) \<leftarrow> alignflexbuffer_erase 0 (fb_cout dst) (dst, H);
     if \<not> (0 \<le> n \<and> nat n \<le> length (fb_buffers dst) \<and> nat n \<le> length (fb_buffers src)) then None
     else Some
       (dst\<lparr>fb_buffers := take (nat n) (fb_buffers src) @ drop (nat n) (fb_buffers dst), fb_cout := n\<rparr>,
        src\<lparr>fb_buffers := replicate (nat n) zero_flex_buffer @ drop (nat n) (fb_buffers src), fb_cout := 0\<rparr>, H) }"

text \<open>An array that was freed is the empty list here.\<close>

definition alignflexbuffer_free :: "alignflexbuffer \<times> blocks \<Rightarrow> (alignflexbuffer \<times> blocks) option" where
  "alignflexbuffer_free = (\<lambda>(t, H). do {
     (t, H) \<leftarrow> (if fb_buffers t \<noteq> []
       then do { (t, H) \<leftarrow> alignflexbuffer_erase 0 (fb_cout t) (t, H); Some (t\<lparr>fb_buffers := []\<rparr>, H) }
       else Some (t, H));
     Some (t\<lparr>fb_cout := 0, fb_max := 0\<rparr>, H) })"

definition alignflexbuffer_clear :: "alignflexbuffer \<times> blocks \<Rightarrow> (alignflexbuffer \<times> blocks) option" where
  "alignflexbuffer_clear = (\<lambda>(t, H). alignflexbuffer_erase 0 (fb_cout t) (t, H))"

text \<open>The count is not set: the callers clear the structure first.\<close>

definition alignflexbuffer_init :: "int \<Rightarrow> alignflexbuffer \<Rightarrow> alignflexbuffer" where
  "alignflexbuffer_init n t = t\<lparr>fb_buffers := replicate (nat n) zero_flex_buffer, fb_max := n\<rparr>"

section \<open>The content\<close>

text \<open>
  A buffer is well formed when its block has the recorded size and the indices are in order; its content is what lies
  between the reader and the writer.
\<close>

definition fb_inv :: "fb_state \<Rightarrow> bool" where
  "fb_inv = (\<lambda>(b, H). fb_buffer b \<noteq> NULL \<and> map_option (int \<circ> length) (H (fb_buffer b)) = Some (fb_size b) \<and>
     0 \<le> readerIndex b \<and> readerIndex b \<le> writerIndex b \<and> writerIndex b \<le> fb_size b \<and> fb_size b < 2 ^ 31)"

definition fb_content :: "fb_state \<Rightarrow> u8 list" where
  "fb_content = (\<lambda>(b, H). take (nat (readableBytes b)) (drop (nat (readerIndex b)) (the (H (fb_buffer b)))))"

lemma size_of_nat [simp]: "0 \<le> x \<Longrightarrow> x < 2 ^ 64 \<Longrightarrow> size_of x = nat x"
  by (simp add: size_of_def)

lemma int_of_id [simp]: "- (2 ^ 31) \<le> x \<Longrightarrow> x < 2 ^ 31 \<Longrightarrow> int_of x = x"
  by (simp add: int_of_def signed_take_bit_int_eq_self)

lemma nat_window:
  fixes r w n :: int
  assumes "0 \<le> r" "r \<le> w" "0 \<le> n"
  shows "nat (w + n - r) = (nat w - nat r) + nat n" "nat (w - r) = nat w - nat r" "nat r \<le> nat w"
  using assms by auto

lemma window_append:
  "r \<le> w \<Longrightarrow> w \<le> length bs \<Longrightarrow>
     take (w - r + length d) (drop r (take w bs @ d @ drop (w + length d) bs)) = take (w - r) (drop r bs) @ d"
  by (simp add: drop_take)

lemma fb_invD:
  assumes "fb_inv (b, H)"
  obtains bs where "H (fb_buffer b) = Some bs" "int (length bs) = fb_size b" "fb_buffer b \<noteq> NULL" "0 \<le> readerIndex b"
    "readerIndex b \<le> writerIndex b" "writerIndex b \<le> fb_size b" "fb_size b < 2 ^ 31"
    "fb_content (b, H) = take (nat (readableBytes b)) (drop (nat (readerIndex b)) bs)"
  using assms by (auto simp: fb_inv_def fb_content_def)

lemma content_length: "fb_inv (b, H) \<Longrightarrow> int (length (fb_content (b, H))) = readableBytes b"
  by (erule fb_invD) (auto simp: readableBytes_def)

lemma retrieve_ok:
  assumes inv: "fb_inv (b, H)" and len: "0 \<le> len" "len \<le> readableBytes b"
  shows "\<exists>b' H'. flex_retrieve len (b, H) = Some (b', H') \<and> fb_inv (b', H') \<and>
    fb_content (b', H') = drop (nat len) (fb_content (b, H)) \<and> fb_buffer b' = fb_buffer b"
proof (rule fb_invD[OF inv])
  fix bs
  assume bs: "H (fb_buffer b) = Some bs" "int (length bs) = fb_size b" "fb_buffer b \<noteq> NULL" "0 \<le> readerIndex b"
    "readerIndex b \<le> writerIndex b" "writerIndex b \<le> fb_size b" "fb_size b < 2 ^ 31"
    "fb_content (b, H) = take (nat (readableBytes b)) (drop (nat (readerIndex b)) bs)"
  show ?thesis
  proof (cases "len < readableBytes b")
    case True
    let ?r = "nat (readerIndex b)" and ?n = "nat len"
    let ?bs = "take ?r bs @ replicate ?n 0 @ drop (?r + ?n) bs"
    have z: "bzero (fb_buffer b) (readerIndex b) len H = Some (H(fb_buffer b \<mapsto> ?bs))"
      by (rule bzero_ok) (use bs len True in \<open>auto simp: readableBytes_def\<close>)
    have le: "?r + ?n \<le> length bs" using bs len True by (simp add: readableBytes_def)
    have "drop (?r + ?n) ?bs = drop (?r + ?n) bs" using le by (simp add: min_def)
    moreover have "nat (writerIndex b - (readerIndex b + len)) = nat (readableBytes b) - ?n"
      using len True by (simp add: readableBytes_def)
    ultimately have "fb_content (b\<lparr>readerIndex := readerIndex b + len\<rparr>, H(fb_buffer b \<mapsto> ?bs)) = drop ?n (fb_content (b, H))"
      using bs len by (simp add: fb_content_def readableBytes_def nat_add_distrib drop_take add.commute)
    moreover have "fb_inv (b\<lparr>readerIndex := readerIndex b + len\<rparr>, H(fb_buffer b \<mapsto> ?bs))"
      using bs len True le by (simp add: fb_inv_def readableBytes_def)
    ultimately show ?thesis using True z by (simp add: flex_retrieve_def)
  next
    case False
    have z: "bzero (fb_buffer b) 0 (fb_size b) H = Some (H(fb_buffer b \<mapsto> replicate (length bs) 0))"
      using bzero_ok[of H "fb_buffer b" bs 0 "fb_size b"] bs(1,2) nat_int[of "length bs"] by simp
    have "len = readableBytes b" using False len by simp
    then show ?thesis using z bs content_length[OF inv]
      by (simp add: flex_retrieve_def flex_retrieveAll_def fb_inv_def fb_content_def readableBytes_def)
  qed
qed

lemma read_ok:
  assumes inv: "fb_inv (b, H)" and len: "0 \<le> len"
  shows "\<exists>s'. retrieveReadData len (b, H) =
      Some (min len (readableBytes b), take (nat len) (fb_content (b, H)), s') \<and> fb_inv s' \<and>
    fb_content s' = drop (nat len) (fb_content (b, H))"
proof (rule fb_invD[OF inv])
  fix bs
  assume bs: "H (fb_buffer b) = Some bs" "int (length bs) = fb_size b" "fb_buffer b \<noteq> NULL" "0 \<le> readerIndex b"
    "readerIndex b \<le> writerIndex b" "writerIndex b \<le> fb_size b" "fb_size b < 2 ^ 31"
    "fb_content (b, H) = take (nat (readableBytes b)) (drop (nat (readerIndex b)) bs)"
  let ?n = "min len (readableBytes b)"
  have n: "0 \<le> ?n" "?n \<le> readableBytes b" using bs len by (auto simp: readableBytes_def)
  obtain b' H' where r: "flex_retrieve ?n (b, H) = Some (b', H')" "fb_inv (b', H')"
      "fb_content (b', H') = drop (nat ?n) (fb_content (b, H))"
    using retrieve_ok[OF inv n] by blast
  have "bread (fb_buffer b) (flex_peek b) ?n H = Some (take (nat ?n) (drop (nat (readerIndex b)) bs))"
    using n bs by (subst bread_ok) (auto simp: flex_peek_def readableBytes_def)
  moreover have "take (nat ?n) (drop (nat (readerIndex b)) bs) = take (nat len) (fb_content (b, H))"
    using len n bs(8) by (simp add: min_def)
  moreover have "drop (nat ?n) (fb_content (b, H)) = drop (nat len) (fb_content (b, H))"
    using content_length[OF inv] by (simp add: min_def)
  moreover have "(if len > readableBytes b then readableBytes b else len) = ?n" by simp
  ultimately show ?thesis using r by (simp add: retrieveReadData_def)
qed

text \<open>Making space: the content moves to the front, and the block grows when this is not enough.\<close>

definition fb_compact :: "fb_state \<Rightarrow> fb_state option" where
  "fb_compact = (\<lambda>(b, H).
     if readerIndex b \<noteq> 0
     then do {
       data \<leftarrow> bread (fb_buffer b) (readerIndex b) (readableBytes b) H;
       H \<leftarrow> bwrite (fb_buffer b) 0 data H;
       Some (b\<lparr>readerIndex := 0, writerIndex := readableBytes b\<rparr>, H) }
     else Some (b, H))"

lemma compact_ok:
  assumes inv: "fb_inv (b, H)"
  shows "\<exists>b' H'. fb_compact (b, H) = Some (b', H') \<and> fb_inv (b', H') \<and> fb_content (b', H') = fb_content (b, H) \<and>
    readerIndex b' = 0 \<and> writerIndex b' = readableBytes b \<and> fb_buffer b' = fb_buffer b \<and> fb_size b' = fb_size b \<and>
    (\<forall>p. p \<noteq> fb_buffer b \<longrightarrow> H' p = H p)"
proof (rule fb_invD[OF inv])
  fix bs
  assume bs: "H (fb_buffer b) = Some bs" "int (length bs) = fb_size b" "fb_buffer b \<noteq> NULL" "0 \<le> readerIndex b"
    "readerIndex b \<le> writerIndex b" "writerIndex b \<le> fb_size b" "fb_size b < 2 ^ 31"
    "fb_content (b, H) = take (nat (readableBytes b)) (drop (nat (readerIndex b)) bs)"
  show ?thesis
  proof (cases "readerIndex b = 0")
    case True
    then show ?thesis using inv by (simp add: fb_compact_def readableBytes_def)
  next
    case False
    let ?d = "take (nat (readableBytes b)) (drop (nat (readerIndex b)) bs)"
    have r: "bread (fb_buffer b) (readerIndex b) (readableBytes b) H = Some ?d"
      by (rule bread_ok) (use bs in \<open>auto simp: readableBytes_def\<close>)
    have ld: "length ?d = nat (readableBytes b)" using bs by (simp add: readableBytes_def)
    have "bwrite (fb_buffer b) 0 ?d H = Some (H(fb_buffer b \<mapsto> ?d @ drop (length ?d) bs))"
      using bwrite_ok[of H "fb_buffer b" bs 0 ?d] bs ld by (simp add: readableBytes_def)
    then have "fb_compact (b, H) = Some (b\<lparr>readerIndex := 0, writerIndex := readableBytes b\<rparr>, H(fb_buffer b \<mapsto> ?d @ drop (length ?d) bs))"
      using False r by (simp add: fb_compact_def)
    moreover have "fb_inv (b\<lparr>readerIndex := 0, writerIndex := readableBytes b\<rparr>, H(fb_buffer b \<mapsto> ?d @ drop (length ?d) bs))"
      using bs ld by (auto simp: fb_inv_def readableBytes_def)
    moreover have "fb_content (b\<lparr>readerIndex := 0, writerIndex := readableBytes b\<rparr>, H(fb_buffer b \<mapsto> ?d @ drop (length ?d) bs)) =
        fb_content (b, H)"
      using bs(8) ld by (simp add: fb_content_def readableBytes_def)
    ultimately show ?thesis by (intro exI conjI) (assumption | simp)+
  qed
qed

definition fb_grow :: "addr \<Rightarrow> (nat \<Rightarrow> u8) \<Rightarrow> nat \<Rightarrow> fb_state \<Rightarrow> fb_state option" where
  "fb_grow new junk len = (\<lambda>(b, H).
     if size_of (writableBytes b) < len
     then if new = NULL then None
     else do {
       H \<leftarrow> brealloc new junk (fb_buffer b) (size_of (writerIndex b + int len)) H;
       H \<leftarrow> bzero new (fb_size b) (int (size_of (writerIndex b + int len - fb_size b))) H;
       Some (b\<lparr>fb_buffer := new, fb_size := int_of (writerIndex b + int len)\<rparr>, H) }
     else Some (b, H))"

lemma makeSpace_eq: "flex_makeSpace new junk len s = Option.bind (fb_compact s) (fb_grow new junk len)"
  by (cases s) (simp add: flex_makeSpace_def fb_compact_def fb_grow_def Let_def case_prod_beta)

definition fresh_block :: "addr \<Rightarrow> fb_state \<Rightarrow> bool" where
  "fresh_block new = (\<lambda>(b, H). new \<noteq> NULL \<and> (H new = None \<or> new = fb_buffer b))"

lemma grow_ok:
  assumes inv: "fb_inv (b, H)" and r: "readerIndex b = 0" and new: "fresh_block new (b, H)"
    and len: "writerIndex b + int len < 2 ^ 31"
  shows "\<exists>b' H'. fb_grow new junk len (b, H) = Some (b', H') \<and> fb_inv (b', H') \<and> fb_content (b', H') = fb_content (b, H) \<and>
    int len \<le> writableBytes b'"
proof (rule fb_invD[OF inv])
  fix bs
  assume bs: "H (fb_buffer b) = Some bs" "int (length bs) = fb_size b" "fb_buffer b \<noteq> NULL" "0 \<le> readerIndex b"
    "readerIndex b \<le> writerIndex b" "writerIndex b \<le> fb_size b" "fb_size b < 2 ^ 31"
    "fb_content (b, H) = take (nat (readableBytes b)) (drop (nat (readerIndex b)) bs)"
  have w: "0 \<le> writableBytes b" "writableBytes b < 2 ^ 31" using bs by (auto simp: writableBytes_def)
  show ?thesis
  proof (cases "nat (writableBytes b) < len")
    case True
    let ?n = "nat (writerIndex b) + len"
    have sz: "size_of (writerIndex b + int len) = ?n" using bs len by (simp add: nat_add_distrib)
    have sz2: "size_of (writerIndex b + int len - fb_size b) = ?n - length bs"
      using bs len True by (subst size_of_nat) (auto simp: writableBytes_def)
    have le: "length bs \<le> ?n" using True bs by (simp add: writableBytes_def)
    have new': "new \<noteq> NULL" using new by (simp add: fresh_block_def)
    let ?H1 = "(H(fb_buffer b := None))(new \<mapsto> bs @ map junk [length bs..<?n])"
    have re: "brealloc new junk (fb_buffer b) ?n H = Some ?H1" using bs le by (simp add: brealloc_def)
    let ?bs = "bs @ replicate (?n - length bs) 0"
    have ze: "bzero new (fb_size b) (int (?n - length bs)) ?H1 = Some (?H1(new \<mapsto> ?bs))" 
      unfolding bs(2)[symmetric] by (rule bzero_end[where ys = "map junk [length bs..<?n]"]) simp_all
    let ?b = "b\<lparr>fb_buffer := new, fb_size := writerIndex b + int len\<rparr>"
    have "fb_grow new junk len (b, H) = Some (?b, ?H1(new \<mapsto> ?bs))"
      using True w new' sz sz2 re ze bs len by (simp add: fb_grow_def)
    moreover have "fb_inv (?b, ?H1(new \<mapsto> ?bs))" using bs le len new' by (simp add: fb_inv_def)
    moreover have "fb_content (?b, ?H1(new \<mapsto> ?bs)) = fb_content (b, H)"
      using bs r by (simp add: fb_content_def readableBytes_def)
    moreover have "int len \<le> writableBytes ?b" by (simp add: writableBytes_def)
    ultimately show ?thesis by blast
  next
    case False
    then show ?thesis using w inv by (simp add: fb_grow_def)
  qed
qed

lemma ensure_ok:
  assumes inv: "fb_inv (b, H)" and new: "fresh_block new (b, H)" and len: "0 \<le> len" "readableBytes b + len < 2 ^ 31"
  shows "\<exists>b' H'. ensureWritableBytes new junk len (b, H) = Some (b', H') \<and> fb_inv (b', H') \<and>
    fb_content (b', H') = fb_content (b, H) \<and> len \<le> writableBytes b'"
proof (cases "writableBytes b < len")
  case True
  obtain b1 H1 where c: "fb_compact (b, H) = Some (b1, H1)" "fb_inv (b1, H1)" "fb_content (b1, H1) = fb_content (b, H)"
      "readerIndex b1 = 0" "writerIndex b1 = readableBytes b" "fb_buffer b1 = fb_buffer b" "\<forall>p. p \<noteq> fb_buffer b \<longrightarrow> H1 p = H p"
    using compact_ok[OF inv] by blast
  have n1: "fresh_block new (b1, H1)" using new c(6,7) by (auto simp: fresh_block_def)
  have sz: "int (size_of len) = len" using len inv by (subst size_of_nat) (auto simp: fb_inv_def readableBytes_def)
  obtain b2 H2 where g: "fb_grow new junk (size_of len) (b1, H1) = Some (b2, H2)" "fb_inv (b2, H2)"
      "fb_content (b2, H2) = fb_content (b1, H1)" "len \<le> writableBytes b2"
    using grow_ok[OF c(2,4) n1, of "size_of len" junk] sz c(5) len by auto
  then show ?thesis using True c by (simp add: ensureWritableBytes_def makeSpace_eq)
next
  case False
  then show ?thesis using inv by (simp add: ensureWritableBytes_def)
qed

lemma append_ok:
  assumes inv: "fb_inv (b, H)" and new: "fresh_block new (b, H)"
    and len: "0 \<le> len" "len \<le> int (length data)" "readableBytes b + len < 2 ^ 31"
  shows "\<exists>s'. flex_append new junk data len (b, H) = Some (len, s') \<and> fb_inv s' \<and>
    fb_content s' = fb_content (b, H) @ take (nat len) data"
proof -
  obtain b1 H1 where e: "ensureWritableBytes new junk len (b, H) = Some (b1, H1)" "fb_inv (b1, H1)"
      "fb_content (b1, H1) = fb_content (b, H)" "len \<le> writableBytes b1"
    using ensure_ok[OF inv new len(1,3)] by blast
  show ?thesis
  proof (rule fb_invD[OF e(2)])
    fix bs
    assume bs: "H1 (fb_buffer b1) = Some bs" "int (length bs) = fb_size b1" "fb_buffer b1 \<noteq> NULL" "0 \<le> readerIndex b1"
      "readerIndex b1 \<le> writerIndex b1" "writerIndex b1 \<le> fb_size b1" "fb_size b1 < 2 ^ 31"
      "fb_content (b1, H1) = take (nat (readableBytes b1)) (drop (nat (readerIndex b1)) bs)"
    let ?d = "take (nat len) data" and ?w = "nat (writerIndex b1)"
    let ?bs = "take ?w bs @ ?d @ drop (?w + length ?d) bs"
    have ld: "int (length ?d) = len" using len by simp
    have wr: "bwrite (fb_buffer b1) (writerIndex b1) ?d H1 = Some (H1(fb_buffer b1 \<mapsto> ?bs))"
      by (rule bwrite_ok) (use bs ld e(4) in \<open>auto simp: writableBytes_def\<close>)
    let ?b = "b1\<lparr>writerIndex := writerIndex b1 + len\<rparr>"
    have sz: "size_of len = nat len" "size_of (writableBytes b1) = nat (writableBytes b1)"
      using bs len e(4) by (auto simp: writableBytes_def)
    have hw: "flex_hasWritten (size_of len) (b1, H1(fb_buffer b1 \<mapsto> ?bs)) = Some (?b, H1(fb_buffer b1 \<mapsto> ?bs))"
      using sz e(4) len bs by (simp add: flex_hasWritten_def writableBytes_def)
    have lw: "?w + length ?d \<le> length bs" "?w \<le> length bs" using bs e(4) ld by (simp_all add: writableBytes_def)
    have i: "fb_inv (?b, H1(fb_buffer b1 \<mapsto> ?bs))"
      using bs e(4) ld lw len by (simp add: fb_inv_def writableBytes_def)
    have "take (nat (writerIndex b1 + len - readerIndex b1)) (drop (nat (readerIndex b1)) ?bs) =
        take (nat (readableBytes b1)) (drop (nat (readerIndex b1)) bs) @ ?d"
    proof -
      have "length ?d = nat len" using ld by linarith
      then have "nat (writerIndex b1 + len - readerIndex b1) = (?w - nat (readerIndex b1)) + length ?d"
        "nat (readableBytes b1) = ?w - nat (readerIndex b1)" "nat (readerIndex b1) \<le> ?w"
        using nat_window[OF bs(4,5) len(1)] by (simp_all only: readableBytes_def)
      then show ?thesis using window_append[OF _ lw(2)] by (simp only:)
    qed
    then have "fb_content (?b, H1(fb_buffer b1 \<mapsto> ?bs)) = fb_content (b1, H1) @ ?d"
      using bs(8) by (simp add: fb_content_def readableBytes_def)
    then show ?thesis using e(1,3) len wr hw i by (simp add: flex_append_def)
  qed
qed

text \<open>Appending touches no blocks but the one of the buffer and the new one, which it may become.\<close>

lemma compact_frame:
  "fb_compact (b, H) = Some (b', H') \<Longrightarrow> fb_buffer b' = fb_buffer b \<and> (\<forall>q. q \<noteq> fb_buffer b \<longrightarrow> H' q = H q)"
  by (auto simp: fb_compact_def bind_eq_Some_iff split: if_splits dest: bwrite_frame)

lemma grow_frame:
  assumes "fb_grow new junk len (b, H) = Some (b', H')"
  shows "fb_buffer b' \<in> {fb_buffer b, new} \<and> (\<forall>q. q \<noteq> fb_buffer b \<longrightarrow> q \<noteq> new \<longrightarrow> H' q = H q)"
proof (cases "size_of (writableBytes b) < len")
  case True
  then obtain H1 where "brealloc new junk (fb_buffer b) (size_of (writerIndex b + int len)) H = Some H1"
      "bzero new (fb_size b) (int (size_of (writerIndex b + int len - fb_size b))) H1 = Some H'" "fb_buffer b' = new"
    using assms by (auto simp: fb_grow_def bind_eq_Some_iff split: if_splits)
  then show ?thesis using brealloc_frame bzero_frame by (metis insertI1 insertI2)
next
  case False
  then show ?thesis using assms by (simp add: fb_grow_def)
qed

lemma ensure_frame:
  assumes "ensureWritableBytes new junk len (b, H) = Some (b', H')"
  shows "fb_buffer b' \<in> {fb_buffer b, new} \<and> (\<forall>q. q \<noteq> fb_buffer b \<longrightarrow> q \<noteq> new \<longrightarrow> H' q = H q)"
proof (cases "writableBytes b < len")
  case True
  then obtain b1 H1 where "fb_compact (b, H) = Some (b1, H1)" "fb_grow new junk (size_of len) (b1, H1) = Some (b', H')"
    using assms by (auto simp: ensureWritableBytes_def makeSpace_eq bind_eq_Some_iff split: if_splits)
  then show ?thesis using compact_frame[of b H b1 H1] grow_frame[of new junk "size_of len" b1 H1 b' H'] by auto
next
  case False
  then show ?thesis using assms by (auto simp: ensureWritableBytes_def split: if_splits)
qed

lemma append_frame:
  assumes "flex_append new junk data len (b, H) = Some (n, b', H')"
  shows "fb_buffer b' \<in> {fb_buffer b, new} \<and> (\<forall>q. q \<noteq> fb_buffer b \<longrightarrow> q \<noteq> new \<longrightarrow> H' q = H q)"
proof -
  obtain b1 H1 where e: "ensureWritableBytes new junk len (b, H) = Some (b1, H1)"
      "bwrite (fb_buffer b1) (writerIndex b1) (take (nat len) data) H1 = Some H'" "fb_buffer b' = fb_buffer b1"
    using assms by (auto simp: flex_append_def flex_hasWritten_def bind_eq_Some_iff split: if_splits)
  then show ?thesis using ensure_frame[OF e(1)] bwrite_frame[OF e(2)] by auto
qed

section \<open>The buffer is a byte stream\<close>

text \<open>A client appends and reads in any order; the bytes that it has read so far are collected.\<close>

datatype fb_op = FAppend "u8 list" addr "nat \<Rightarrow> u8" | FRead int

fun fb_step :: "fb_op \<Rightarrow> u8 list \<times> fb_state \<Rightarrow> (u8 list \<times> fb_state) option" where
  "fb_step (FAppend data new junk) (got, s) =
     map_option (\<lambda>(n, s). (got, s)) (flex_append new junk data (int (length data)) s)"
| "fb_step (FRead n) (got, s) = map_option (\<lambda>(k, data, s). (got @ data, s)) (retrieveReadData n s)"

text \<open>The content stays below the range of \<open>int\<close>, the allocator returns a block that is not in use, and no negative count is read.\<close>

fun fb_allowed :: "fb_op \<Rightarrow> u8 list \<times> fb_state \<Rightarrow> bool" where
  "fb_allowed (FAppend data new junk) (got, s) =
     (readableBytes (fst s) + int (length data) < 2 ^ 31 \<and> fresh_block new s)"
| "fb_allowed (FRead n) (got, s) = (0 \<le> n)"

fun fb_inp :: "fb_op \<Rightarrow> u8 list" where
  "fb_inp (FAppend data new junk) = data"
| "fb_inp (FRead n) = []"

definition fb_view :: "u8 list \<times> fb_state \<Rightarrow> u8 list" where
  "fb_view = (\<lambda>(got, s). got @ fb_content s)"

interpretation flexs: ordered_stream fb_step fb_allowed fb_inp "\<lambda>(got, s). fb_inv s" fb_view
proof unfold_locales
  fix w :: "u8 list \<times> fb_state" and op
  assume inv: "case w of (got, s) \<Rightarrow> fb_inv s" and al: "fb_allowed op w"
  obtain got b H where w: "w = (got, b, H)" by (cases w) auto
  show "\<exists>w'. fb_step op w = Some w' \<and> (case w' of (got, s) \<Rightarrow> fb_inv s) \<and> fb_view w' = fb_view w @ fb_inp op"
  proof (cases op)
    case (FAppend data new junk)
    then show ?thesis using append_ok[of b H new "int (length data)" data junk] inv al w by (auto simp: fb_view_def)
  next
    case (FRead n)
    then show ?thesis using read_ok[of b H n] inv al w by (auto simp: fb_view_def)
  qed
qed

section \<open>Properties\<close>

text \<open>C13: the buffer is a byte stream.  Whatever sequence of \<open>flex_append\<close> and \<open>retrieveReadData\<close> a client runs, while the
  content stays below \<open>2^31\<close> bytes and the allocations succeed, no access leaves the block and no assertion fails, and what
  was read followed by what is still in the buffer is what was there at first followed by all that was appended.\<close>

theorem flex_buffer_stream:
  assumes "fb_inv s" and "all_allowed fb_step fb_allowed ops (got, s)"
  shows "\<exists>got' s'. foldM fb_step ops (got, s) = Some (got', s') \<and> fb_inv s' \<and>
     got' @ fb_content s' = got @ fb_content s @ concat (map fb_inp ops)"
  using flexs.run_view[of "(got, s)" ops] assms by (auto simp: fb_view_def)

definition sample_flex :: fb_state where
  "sample_flex = (case flex_buffer_init True 8 4 Map.empty of (bo, H) \<Rightarrow> (the bo, H))"

definition sample_flex_ops :: "fb_op list" where
  "sample_flex_ops = [FAppend [1, 2, 3] 16 (\<lambda>_. 7), FRead 2, FAppend [4, 5, 6, 7] 16 (\<lambda>_. 7), FRead 10]"

theorem flex_buffer_stream_witness:
  "\<exists>got' s'. foldM fb_step sample_flex_ops ([], sample_flex) = Some (got', s') \<and> fb_inv s' \<and>
     got' @ fb_content s' = [] @ fb_content sample_flex @ concat (map fb_inp sample_flex_ops)"
  by (rule flex_buffer_stream)
    (simp add: sample_flex_def flex_buffer_init_def fb_inv_def bcalloc_def, code_simp)

end
