(* ===== verification/BufferArray.thy ===== *)
theory BufferArray
  imports Blocks
begin

text \<open>
  What the asynchronous logger and the asynchronous tasks have in common: buffer structures that own a block of memory each,
  and arrays of them with a fixed number of entries, of which the first ones are filled.  The locale \<open>owned_buffers\<close> says
  what is needed of a kind of buffer: the address of its block, its content, that both depend on its own block only, and the
  operation that frees the block and clears the structure.
\<close>

lemma foldM_lift:
  assumes "\<And>x s. f x (g s) = map_option g (h x s)"
  shows "foldM f xs (g s) = map_option g (foldM h xs s)"
proof (induction xs arbitrary: s)
  case (Cons x xs)
  then show ?case by (cases "h x s") (simp_all add: assms)
qed simp

lemma replicate_split: "n < k \<Longrightarrow> replicate (k - n) x = x # replicate (k - Suc n) x"
  by (metis Suc_diff_Suc replicate_Suc)

lemma upto_upt: "[int i..int j - 1] = map int [i..<j]"
  by (rule nth_equalityI) (auto simp: nth_upto)

locale owned_buffers =
  fixes adr :: "'b \<Rightarrow> addr"
    and zero :: 'b
    and ok :: "blocks \<Rightarrow> 'b \<Rightarrow> bool"
    and content :: "blocks \<Rightarrow> 'b \<Rightarrow> u8 list"
    and clean :: "'b \<Rightarrow> blocks \<Rightarrow> ('b \<times> blocks) option"
  assumes ok_adr: "ok H b \<Longrightarrow> adr b \<noteq> NULL \<and> adr b \<in> dom H"
    and ok_cong: "ok H b \<Longrightarrow> H' (adr b) = H (adr b) \<Longrightarrow> ok H' b \<and> content H' b = content H b"
    and zero_adr: "adr zero = NULL"
    and clean_null: "adr b = NULL \<Longrightarrow> clean b H = Some (zero, H)"
    and clean_free: "adr b \<noteq> NULL \<Longrightarrow> adr b \<in> dom H \<Longrightarrow> clean b H = Some (zero, H(adr b := None))"
begin

definition owned :: "'b list \<Rightarrow> addr set" where
  "owned bs = adr ` {b \<in> set bs. adr b \<noteq> NULL}"

definition bufs_ok :: "blocks \<Rightarrow> 'b list \<Rightarrow> bool" where
  "bufs_ok H bs \<longleftrightarrow> distinct (map adr bs) \<and> (\<forall>b \<in> set bs. ok H b)"

text \<open>A buffer structure that may be empty, as a list.\<close>

definition opt_buf :: "'b \<Rightarrow> 'b list" where
  "opt_buf b = (if adr b \<noteq> NULL then [b] else [])"

lemma bufs_ok_Nil [simp]: "bufs_ok H []"
  by (simp add: bufs_ok_def)

lemma bufs_ok_Cons: "bufs_ok H (b # bs) \<longleftrightarrow> ok H b \<and> adr b \<notin> adr ` set bs \<and> bufs_ok H bs"
  by (auto simp: bufs_ok_def)

lemma bufs_ok_append:
  "bufs_ok H (xs @ ys) \<longleftrightarrow> bufs_ok H xs \<and> bufs_ok H ys \<and> adr ` set xs \<inter> adr ` set ys = {}"
  by (auto simp: bufs_ok_def)

lemma bufs_ok_perm: "bufs_ok H bs \<Longrightarrow> mset bs = mset bs' \<Longrightarrow> bufs_ok H bs'"
  unfolding bufs_ok_def by (metis mset_eq_imp_distinct_iff mset_eq_setD mset_map)

lemma bufs_ok_cong:
  assumes "bufs_ok H bs" "\<And>b. b \<in> set bs \<Longrightarrow> H' (adr b) = H (adr b)"
  shows "bufs_ok H' bs" "map (content H') bs = map (content H) bs"
  using assms ok_cong[of H _ H'] by (auto simp: bufs_ok_def)

lemma bufs_ok_null: "bufs_ok H bs \<Longrightarrow> b \<in> set bs \<Longrightarrow> adr b \<noteq> NULL \<and> adr b \<in> dom H"
  using ok_adr by (auto simp: bufs_ok_def)

lemma owned_append [simp]: "owned (xs @ ys) = owned xs \<union> owned ys"
  by (auto simp: owned_def)

lemma owned_zeros [simp]: "owned (replicate n zero) = {}"
  by (auto simp: owned_def zero_adr)

lemma bufs_ok_free:
  assumes "bufs_ok H (L @ D)"
  shows "bufs_ok (H |` (- owned D)) L" "map (content (H |` (- owned D))) L = map (content H) L"
proof -
  have L: "bufs_ok H L" "adr ` set L \<inter> adr ` set D = {}" using assms by (auto simp: bufs_ok_append)
  have eq: "(H |` (- owned D)) (adr b) = H (adr b)" if "b \<in> set L" for b
  proof -
    have "adr b \<notin> owned D" using L(2) that unfolding owned_def by blast
    then show ?thesis by simp
  qed
  show "bufs_ok (H |` (- owned D)) L" by (rule bufs_ok_cong(1)[OF L(1) eq])
  show "map (content (H |` (- owned D))) L = map (content H) L" by (rule bufs_ok_cong(2)[OF L(1) eq])
qed

text \<open>Cleaning the entry \<open>i\<close> of an array, and a range of entries.\<close>

definition clean_entry :: "int \<Rightarrow> 'b list \<times> blocks \<Rightarrow> ('b list \<times> blocks) option" where
  "clean_entry i = (\<lambda>(bs, H).
     if \<not> (0 \<le> i \<and> i < int (length bs)) then None
     else do { (b, H) \<leftarrow> clean (bs ! nat i) H; Some (bs[nat i := b], H) })"

lemma clean_owned: "adr b = NULL \<or> adr b \<in> dom H \<Longrightarrow> clean b H = Some (zero, H |` (- owned [b]))"
  by (cases "adr b = NULL") (auto simp: clean_null clean_free owned_def restrict_map_def fun_eq_iff)

lemma clean_range:
  assumes "i \<le> j" "j \<le> length bs" "distinct (map adr (filter (\<lambda>b. adr b \<noteq> NULL) (drop i (take j bs))))"
    "owned (drop i (take j bs)) \<subseteq> dom H"
  shows "foldM clean_entry (map int [i..<j]) (bs, H) =
    Some (take i bs @ replicate (j - i) zero @ drop j bs, H |` (- owned (drop i (take j bs))))"
  using assms
proof (induction j rule: dec_induct)
  case base
  have "H |` (- owned []) = H" by (simp add: owned_def restrict_map_def)
  then show ?case by simp
next
  case (step j)
  have e: "drop i (take (Suc j) bs) = drop i (take j bs) @ [bs ! j]" using step.hyps step.prems(1) by (simp add: take_Suc_conv_app_nth)
  let ?H = "H |` (- owned (drop i (take j bs)))"
  let ?bs = "take i bs @ replicate (j - i) zero @ drop j bs"
  have ih: "foldM clean_entry (map int [i..<j]) (bs, H) = Some (?bs, ?H)"
    using step.IH step.prems e by (auto simp: owned_def)
  have nth: "?bs ! j = bs ! j" "j < length ?bs" using step.hyps step.prems(1) by (auto simp: nth_append)
  have "adr (bs ! j) \<in> dom ?H" if u: "adr (bs ! j) \<noteq> NULL"
  proof -
    have "adr (bs ! j) \<in> dom H" using step.prems(3) u unfolding e by (auto simp: owned_def)
    moreover have "adr (bs ! j) \<notin> owned (drop i (take j bs))"
      using step.prems(2) u unfolding e by (auto simp: owned_def)
    ultimately show ?thesis by auto
  qed
  then have "clean (bs ! j) ?H = Some (zero, ?H |` (- owned [bs ! j]))" by (intro clean_owned) blast
  then have "clean_entry (int j) (?bs, ?H) = Some (?bs[j := zero], ?H |` (- owned [bs ! j]))"
    unfolding clean_entry_def using nth by simp
  moreover have "?bs[j := zero] = take i bs @ replicate (Suc j - i) zero @ drop (Suc j) bs"
    using step.hyps step.prems(1) by (simp add: list_update_append Suc_diff_le replicate_append_same flip: Cons_nth_drop_Suc)
  moreover have "?H |` (- owned [bs ! j]) = H |` (- owned (drop i (take (Suc j) bs)))"
    unfolding e by (auto simp: restrict_map_def fun_eq_iff)
  ultimately show ?case using ih step.hyps by (simp add: foldM_append)
qed

text \<open>An array of \<open>cap\<close> entries of which the first are the buffers \<open>us\<close>.\<close>

definition entries :: "nat \<Rightarrow> 'b list \<Rightarrow> 'b list" where
  "entries cap us = us @ replicate (cap - length us) zero"

lemma clean_tail:
  assumes ok: "bufs_ok H us" and i: "i \<le> length us" "length us \<le> j" "j \<le> cap"
  shows "foldM clean_entry [int i..int j - 1] (entries cap us, H) =
    Some (entries cap (take i us), H |` (- owned (drop i us)))"
proof -
  have u: "adr b \<noteq> NULL \<and> adr b \<in> dom H" if "b \<in> set us" for b using bufs_ok_null[OF ok that] .
  let ?bs = "entries cap us"
  have tk: "drop i (take j ?bs) = drop i us @ replicate (j - length us) zero"
    using i by (simp add: entries_def min_def)
  have fu: "filter (\<lambda>b. adr b \<noteq> NULL) (drop i us) = drop i us" using u by (metis (mono_tags, lifting) filter_True in_set_dropD)
  have dd: "distinct (map adr (filter (\<lambda>b. adr b \<noteq> NULL) (drop i (take j ?bs))))"
    using ok fu unfolding tk by (simp add: bufs_ok_def filter_replicate zero_adr distinct_drop flip: drop_map)
  have sub: "owned (drop i (take j ?bs)) \<subseteq> dom H"
    unfolding tk using u by (auto simp: owned_def zero_adr dest: in_set_dropD)
  have "foldM clean_entry (map int [i..<j]) (?bs, H) =
      Some (take i ?bs @ replicate (j - i) zero @ drop j ?bs, H |` (- owned (drop i (take j ?bs))))"
    by (rule clean_range) (use i dd sub in \<open>auto simp: entries_def\<close>)
  moreover have "take i ?bs @ replicate (j - i) zero @ drop j ?bs = entries cap (take i us)"
    using i by (simp add: entries_def replicate_add[symmetric] min_def)
  moreover have "owned (drop i (take j ?bs)) = owned (drop i us)" unfolding tk by simp
  ultimately show ?thesis by (simp add: upto_upt)
qed

lemma entries_Nil: "entries cap [] = replicate cap zero"
  by (simp add: entries_def)

lemma entries_add: "length us < cap \<Longrightarrow> (entries cap us)[length us := b] = entries cap (us @ [b])"
  by (simp add: entries_def replicate_split list_update_append)

lemma entries_last: "length us < cap \<Longrightarrow> entries cap (us @ [x]) ! length us = x \<and> (entries cap (us @ [x]))[length us := zero] = entries cap us"
  by (simp add: entries_def replicate_split list_update_append nth_append)

lemma length_entries: "length us \<le> cap \<Longrightarrow> length (entries cap us) = cap"
  by (simp add: entries_def)

lemma entries_move:
  "length us \<le> cap \<Longrightarrow> take (length us) (entries cap us) @ drop (length us) (entries cap []) = entries cap us"
  "length us \<le> cap \<Longrightarrow> replicate (length us) zero @ drop (length us) (entries cap us) = entries cap []"
  by (simp_all add: entries_def flip: replicate_add)

end

end
