(* ===== verification/AsyncLog.thy ===== *)
theory AsyncLog
  imports BufferArray
begin

text \<open>
  The asynchronous logger of \<open>demo/C/asynclog\<close>: the fixed buffers and arrays of buffers of \<open>arbuffer.h\<close>, the log file with
  rolling of \<open>logfile.c\<close> and the logger of \<open>asynclog.c\<close>, in which clients fill buffers under a mutex and a thread swaps them
  out and writes them to the file.

  Every assignment to \<open>cur\<close> of a buffer sets it to \<open>buffer\<close>, to null together with \<open>buffer\<close>, or moves it forward, so \<open>cur\<close> is
  its offset from \<open>buffer\<close>.  What runs under the mutex is one step; the thread writes outside of it, so a round of the
  thread is two steps, the swap and the writing, and clients may append between them.  The locals of the thread are
  part of the state.  The addresses that \<open>calloc\<close> returns, the clock, the results of \<open>fopen\<close> and \<open>fwrite\<close> and the formatted
  text are arguments.  The stdio buffer is not told apart from the file, so flushing changes nothing but \<open>lastFlush\<close>.
\<close>

section \<open>Buffers\<close>

record arbuf =
  ab_buffer :: addr
  ab_cur :: int
  ab_len :: int

record aralign =
  al_bufs :: "arbuf list"
  al_cout :: int
  al_max :: int

definition zero_arbuf :: arbuf where
  "zero_arbuf = \<lparr>ab_buffer = NULL, ab_cur = 0, ab_len = 0\<rparr>"

definition arbuffer_usable :: "arbuf \<Rightarrow> bool" where
  "arbuffer_usable b = (ab_buffer b \<noteq> NULL)"

text \<open>The end of the buffer, as an offset from its start.\<close>

definition arbuffer_end :: "arbuf \<Rightarrow> int" where
  "arbuffer_end b = ab_len b"

definition arbuffer_avail :: "arbuf \<Rightarrow> int" where
  "arbuffer_avail b = arbuffer_end b - ab_cur b"

definition arbuffer_used :: "arbuf \<Rightarrow> int" where
  "arbuffer_used b = ab_cur b"

definition arbuffer_append :: "arbuf \<Rightarrow> u8 list \<Rightarrow> int \<Rightarrow> blocks \<Rightarrow> (arbuf \<times> blocks) option" where
  "arbuffer_append b data len H =
     (if len < 0 \<or> int (length data) < len then None
      else do {
        H \<leftarrow> bwrite (ab_buffer b) (ab_cur b) (take (nat len) data) H;
        Some (b\<lparr>ab_cur := ab_cur b + len\<rparr>, H) })"

definition arbuffer_move :: "arbuf \<Rightarrow> arbuf \<Rightarrow> arbuf \<times> arbuf" where
  "arbuffer_move dst src =
     (dst\<lparr>ab_buffer := ab_buffer src, ab_cur := 0, ab_len := ab_len src\<rparr>,
      src\<lparr>ab_buffer := NULL, ab_cur := 0, ab_len := 0\<rparr>)"

definition arbuffer_reset :: "arbuf \<Rightarrow> arbuf" where
  "arbuffer_reset b = b\<lparr>ab_cur := 0\<rparr>"

definition arbuffer_clear :: "arbuf \<Rightarrow> blocks \<Rightarrow> (arbuf \<times> blocks) option" where
  "arbuffer_clear b H = do {
     H \<leftarrow> (if ab_buffer b \<noteq> NULL then bfree (ab_buffer b) H else Some H);
     Some (b\<lparr>ab_buffer := NULL, ab_cur := 0, ab_len := 0\<rparr>, H) }"

definition arbuffer_space :: "arbuf \<Rightarrow> int" where
  "arbuffer_space b = ab_len b"

definition arbuffer_init :: "addr \<Rightarrow> nat \<Rightarrow> blocks \<Rightarrow> arbuf \<times> blocks" where
  "arbuffer_init new len H = (\<lparr>ab_buffer = new, ab_cur = 0, ab_len = int len\<rparr>, bcalloc new len H)"

definition arraybufferalign_add_tail :: "aralign \<Rightarrow> arbuf \<Rightarrow> (aralign \<times> arbuf) option" where
  "arraybufferalign_add_tail t b =
     (if al_cout t \<ge> al_max t then Some (t, b)
      else if \<not> (0 \<le> al_cout t \<and> al_cout t < int (length (al_bufs t))) then None
      else Some (t\<lparr>al_bufs := (al_bufs t)[nat (al_cout t) := b], al_cout := al_cout t + 1\<rparr>,
                 b\<lparr>ab_buffer := NULL, ab_cur := 0, ab_len := 0\<rparr>))"

definition clear_slot :: "int \<Rightarrow> aralign \<times> blocks \<Rightarrow> (aralign \<times> blocks) option" where
  "clear_slot i = (\<lambda>(t, H).
     if \<not> (0 \<le> i \<and> i < int (length (al_bufs t))) then None
     else do {
       (b, H) \<leftarrow> arbuffer_clear (al_bufs t ! nat i) H;
       Some (t\<lparr>al_bufs := (al_bufs t)[nat i := b]\<rparr>, H) })"

definition arraybufferalign_erase :: "int \<Rightarrow> int \<Rightarrow> aralign \<times> blocks \<Rightarrow> (aralign \<times> blocks) option" where
  "arraybufferalign_erase begin_i end_i s = do {
     (t, H) \<leftarrow> foldM clear_slot [begin_i..end_i - 1] s;
     Some (if begin_i \<ge> 0 then t\<lparr>al_cout := begin_i\<rparr> else t, H) }"

definition arraybufferalign_move :: "aralign \<Rightarrow> aralign \<Rightarrow> blocks \<Rightarrow> (aralign \<times> aralign \<times> blocks) option" where
  "arraybufferalign_move dst src H = do {
     let n = (if al_max dst > al_cout src then al_cout src else al_max dst);
     (dst, H) \<leftarrow> arraybufferalign_erase 0 (al_cout dst) (dst, H);
     if \<not> (0 \<le> n \<and> nat n \<le> length (al_bufs dst) \<and> nat n \<le> length (al_bufs src)) then None
     else Some
       (dst\<lparr>al_bufs := take (nat n) (al_bufs src) @ drop (nat n) (al_bufs dst), al_cout := n\<rparr>,
        src\<lparr>al_bufs := replicate (nat n) zero_arbuf @ drop (nat n) (al_bufs src), al_cout := 0\<rparr>, H) }"

text \<open>An array that was freed is the empty list here.\<close>

definition arraybufferalign_free :: "aralign \<times> blocks \<Rightarrow> (aralign \<times> blocks) option" where
  "arraybufferalign_free = (\<lambda>(t, H). do {
     (t, H) \<leftarrow> (if al_bufs t \<noteq> []
       then do { (t, H) \<leftarrow> arraybufferalign_erase 0 (al_cout t) (t, H); Some (t\<lparr>al_bufs := []\<rparr>, H) }
       else Some (t, H));
     Some (t\<lparr>al_cout := 0, al_max := 0\<rparr>, H) })"

definition arraybufferalign_clear :: "aralign \<times> blocks \<Rightarrow> (aralign \<times> blocks) option" where
  "arraybufferalign_clear = (\<lambda>(t, H). arraybufferalign_erase 0 (al_cout t) (t, H))"

definition arraybufferalign_init :: "int \<Rightarrow> aralign \<Rightarrow> aralign" where
  "arraybufferalign_init n t = t\<lparr>al_bufs := replicate (nat n) zero_arbuf, al_max := n\<rparr>"

section \<open>The log file\<close>

text \<open>\<open>files\<close> are the contents of the files opened so far, the current one last; \<open>fp\<close> tells whether it is open.\<close>

record logfile =
  rollSize :: int
  flushInterval :: int
  checkEveryN :: int
  lf_count :: int
  threadSafe :: bool
  startOfPeriod :: int
  lastRoll :: int
  lastFlush :: int
  fp :: bool
  writtenBytes :: int
  kRollPerSeconds :: int
  lf_files :: "u8 list list"

text \<open>What the environment answers in a call: \<open>fwrite\<close> from each position, two readings of the clock, \<open>fopen\<close>.\<close>

record lf_env =
  env_fwrite :: "nat \<Rightarrow> nat"
  env_now :: int
  env_now_roll :: int
  env_fopen :: bool

definition logfile_reopen :: "bool \<Rightarrow> logfile \<Rightarrow> logfile" where
  "logfile_reopen ok t = (if ok then t\<lparr>fp := True, lf_files := lf_files t @ [[]]\<rparr> else t\<lparr>fp := False\<rparr>)"

definition logfile_roll :: "lf_env \<Rightarrow> logfile \<Rightarrow> logfile" where
  "logfile_roll e t =
     (let now = env_now_roll e;
          start = now div kRollPerSeconds t * kRollPerSeconds t
      in if now > lastRoll t
         then logfile_reopen (env_fopen e) (t\<lparr>lastRoll := now, lastFlush := now, startOfPeriod := start\<rparr>)
         else t)"

text \<open>The loop that repeats a short \<open>fwrite\<close>; \<open>n\<close> bytes are written already.\<close>

function write_rest :: "(nat \<Rightarrow> nat) \<Rightarrow> u8 list \<Rightarrow> nat \<Rightarrow> u8 list" where
  "write_rest fw data n =
     (if n < length data
      then let x = min (fw n) (length data - n) in
        if x = 0 then [] else take x (drop n data) @ write_rest fw data (n + x)
      else [])"
  by pat_completeness auto
termination
  by (relation "measure (\<lambda>(fw, data, n). length data - n)") auto

declare write_rest.simps [simp del]

definition logfile_append_raw :: "lf_env \<Rightarrow> u8 list \<Rightarrow> logfile \<Rightarrow> logfile option" where
  "logfile_append_raw e data t =
     (if \<not> fp t \<or> lf_files t = [] then None
      else let x = min (env_fwrite e 0) (length data);
               out = take x data @ write_rest (env_fwrite e) data x
           in Some (t\<lparr>lf_files := butlast (lf_files t) @ [last (lf_files t) @ out],
                      writtenBytes := writtenBytes t + int (length data)\<rparr>))"

definition logfile_flush :: "logfile \<Rightarrow> logfile option" where
  "logfile_flush t = (if fp t then Some t else None)"

definition logfile_append_unlocked :: "lf_env \<Rightarrow> u8 list \<Rightarrow> logfile \<Rightarrow> logfile option" where
  "logfile_append_unlocked e data t = do {
     t \<leftarrow> logfile_append_raw e data t;
     if writtenBytes t > rollSize t then Some (logfile_roll e t)
     else let t = t\<lparr>lf_count := lf_count t + 1\<rparr> in
       if lf_count t \<ge> checkEveryN t then
         let t = t\<lparr>lf_count := 0\<rparr>;
             now = env_now e;
             thisPeriod = now div kRollPerSeconds t * kRollPerSeconds t
         in if thisPeriod \<noteq> startOfPeriod t then Some (logfile_roll e t)
            else if now - lastFlush t > flushInterval t then logfile_flush (t\<lparr>lastFlush := now\<rparr>)
            else Some t
       else Some t }"

definition logfile_append :: "lf_env \<Rightarrow> u8 list \<Rightarrow> logfile \<Rightarrow> logfile option" where
  "logfile_append e data t = logfile_append_unlocked e data t"

definition zero_logfile :: logfile where
  "zero_logfile = \<lparr>rollSize = 0, flushInterval = 0, checkEveryN = 0, lf_count = 0, threadSafe = False, startOfPeriod = 0,
     lastRoll = 0, lastFlush = 0, fp = False, writtenBytes = 0, kRollPerSeconds = 0, lf_files = []\<rparr>"

definition logfile_init :: "lf_env \<Rightarrow> int \<Rightarrow> bool \<Rightarrow> int \<Rightarrow> logfile" where
  "logfile_init e roll ts flush =
     logfile_roll e (zero_logfile\<lparr>rollSize := roll, flushInterval := flush, checkEveryN := 1024, threadSafe := ts,
       kRollPerSeconds := 60 * 60 * 24\<rparr>)"

definition logfile_free :: "logfile \<Rightarrow> logfile" where
  "logfile_free t = t\<lparr>fp := False\<rparr>"

section \<open>The logger\<close>

definition ASYNCLOG_BUFMAX :: nat where "ASYNCLOG_BUFMAX = 1024 * 1024 * 4"
definition ASYNCLOG_KROLLSIZE :: int where "ASYNCLOG_KROLLSIZE = 500 * 1000 * 1000"
definition ASYNCLOG_FLUSHTIME :: int where "ASYNCLOG_FLUSHTIME = 3"
definition MAXBUFFER :: int where "MAXBUFFER = 23"

record asynclog =
  aflushInterval :: int
  arollSize :: int
  currentBuffer :: arbuf
  nextBuffer :: arbuf
  abuffers :: aralign
  logline :: "u8 list"
  newBuffer1 :: arbuf
  newBuffer2 :: arbuf
  buffersToWrite :: aralign
  log_out :: logfile
  amem :: blocks
  writing :: bool

definition log_append_raw :: "addr \<Rightarrow> u8 list \<Rightarrow> int \<Rightarrow> asynclog \<Rightarrow> asynclog option" where
  "log_append_raw new line len s =
     (if arbuffer_avail (currentBuffer s) > len
      then do {
        (b, H) \<leftarrow> arbuffer_append (currentBuffer s) line len (amem s);
        Some (s\<lparr>currentBuffer := b, amem := H\<rparr>) }
      else do {
        (t, b) \<leftarrow> arraybufferalign_add_tail (abuffers s) (currentBuffer s);
        let s = s\<lparr>abuffers := t, currentBuffer := b\<rparr>;
        let s = (if arbuffer_usable (nextBuffer s)
                 then case arbuffer_move (currentBuffer s) (nextBuffer s) of (c, n) \<Rightarrow> s\<lparr>currentBuffer := c, nextBuffer := n\<rparr>
                 else case arbuffer_init new ASYNCLOG_BUFMAX (amem s) of (c, H) \<Rightarrow> s\<lparr>currentBuffer := c, amem := H\<rparr>);
        (b, H) \<leftarrow> arbuffer_append (currentBuffer s) line len (amem s);
        Some (s\<lparr>currentBuffer := b, amem := H\<rparr>) })"

text \<open>\<open>vsnprintf\<close> into an array: at most \<open>n - 1\<close> characters and the terminating zero; it returns the full length.\<close>

definition vsnprintf_into :: "nat \<Rightarrow> u8 list \<Rightarrow> u8 list \<Rightarrow> u8 list" where
  "vsnprintf_into n line arr = take (n - 1) line @ [0] @ drop (length (take (n - 1) line) + 1) arr"

text \<open>\<open>line\<close> is the formatted text, or none when \<open>vsnprintf\<close> fails.\<close>

definition log_append :: "addr \<Rightarrow> u8 list option \<Rightarrow> asynclog \<Rightarrow> asynclog option" where
  "log_append new line s =
     (case line of
        None \<Rightarrow> Some s
      | Some l \<Rightarrow>
          let s = s\<lparr>logline := vsnprintf_into (ASYNCLOG_BUFMAX - 1) l (logline s)\<rparr>
          in log_append_raw new (logline s) (int (length l)) s)"

text \<open>The part of a round of the thread that runs under the mutex, after waiting.\<close>

definition asynclog_swap :: "asynclog \<Rightarrow> asynclog option" where
  "asynclog_swap s = do {
     (t, c) \<leftarrow> arraybufferalign_add_tail (abuffers s) (currentBuffer s);
     (w, t, H) \<leftarrow> arraybufferalign_move (buffersToWrite s) t (amem s);
     let (c, n1) = arbuffer_move c (newBuffer1 s);
     let s = s\<lparr>abuffers := t, buffersToWrite := w, amem := H, currentBuffer := c, newBuffer1 := n1, writing := True\<rparr>;
     Some (if \<not> arbuffer_usable (nextBuffer s)
           then case arbuffer_move (nextBuffer s) (newBuffer2 s) of (n, n2) \<Rightarrow> s\<lparr>nextBuffer := n, newBuffer2 := n2\<rparr>
           else s) }"

text \<open>Taking a buffer back from the end of the array.\<close>

definition take_back :: "arbuf \<Rightarrow> aralign \<Rightarrow> (arbuf \<times> aralign) option" where
  "take_back b t =
     (if arbuffer_usable b then Some (b, t)
      else let i = al_cout t - 1 in
        if \<not> (0 \<le> i \<and> i < int (length (al_bufs t))) then None
        else case arbuffer_move b (al_bufs t ! nat i) of
          (b, src) \<Rightarrow> Some (arbuffer_reset b, t\<lparr>al_bufs := (al_bufs t)[nat i := src], al_cout := i\<rparr>))"

definition write_buffer :: "(nat \<Rightarrow> lf_env) \<Rightarrow> arbuf list \<Rightarrow> blocks \<Rightarrow> int \<Rightarrow> logfile \<Rightarrow> logfile option" where
  "write_buffer envs bufs H i t =
     (if \<not> (0 \<le> i \<and> i < int (length bufs)) then None
      else do {
        let b = bufs ! nat i;
        data \<leftarrow> bread (ab_buffer b) 0 (arbuffer_used b) H;
        logfile_append (envs (nat i)) data t })"

text \<open>Two buffers are kept, the thread takes back those that it gave away, and the rest is cleared.\<close>

definition asynclog_refill :: "arbuf \<Rightarrow> arbuf \<Rightarrow> aralign \<Rightarrow> blocks \<Rightarrow> (arbuf \<times> arbuf \<times> aralign \<times> blocks) option" where
  "asynclog_refill n1 n2 w H = do {
     (w, H) \<leftarrow> (if al_cout w > 2 then arraybufferalign_erase 2 (MAXBUFFER + 1) (w, H) else Some (w, H));
     (n1, w) \<leftarrow> take_back n1 w;
     (n2, w) \<leftarrow> take_back n2 w;
     (w, H) \<leftarrow> arraybufferalign_clear (w, H);
     Some (n1, n2, w, H) }"

text \<open>The rest of the round; \<open>msg\<close> is the message about dropped buffers, \<open>envs\<close> and \<open>e\<close> the environment of the calls.\<close>

definition asynclog_write :: "lf_env \<Rightarrow> u8 list \<Rightarrow> (nat \<Rightarrow> lf_env) \<Rightarrow> asynclog \<Rightarrow> asynclog option" where
  "asynclog_write e msg envs s = do {
     (w, H, t) \<leftarrow> (if al_cout (buffersToWrite s) > MAXBUFFER
       then do {
         t \<leftarrow> logfile_append e msg (log_out s);
         (w, H) \<leftarrow> arraybufferalign_erase 2 (MAXBUFFER + 1) (buffersToWrite s, amem s);
         Some (w, H, t) }
       else Some (buffersToWrite s, amem s, log_out s));
     t \<leftarrow> foldM (write_buffer envs (al_bufs w) H) [0..al_cout w - 1] t;
     (n1, n2, w, H) \<leftarrow> asynclog_refill (newBuffer1 s) (newBuffer2 s) w H;
     t \<leftarrow> logfile_flush t;
     Some (s\<lparr>newBuffer1 := n1, newBuffer2 := n2, buffersToWrite := w, log_out := t, amem := H, writing := False\<rparr>) }"

text \<open>
  \<open>asynclog_def_init\<close> and the start of the thread; \<open>n1\<close> to \<open>n4\<close> are the blocks of the four buffers.
\<close>

definition zero_aralign :: aralign where
  "zero_aralign = \<lparr>al_bufs = [], al_cout = 0, al_max = 0\<rparr>"

definition asynclog_def_init :: "addr \<Rightarrow> addr \<Rightarrow> int \<Rightarrow> int \<Rightarrow> blocks \<Rightarrow> asynclog" where
  "asynclog_def_init n1 n2 roll flush H =
     (let (c, H) = arbuffer_init n1 ASYNCLOG_BUFMAX H;
          (n, H) = arbuffer_init n2 ASYNCLOG_BUFMAX H
      in \<lparr>aflushInterval = flush, arollSize = roll, currentBuffer = c, nextBuffer = n,
          abuffers = arraybufferalign_init (MAXBUFFER + 1) zero_aralign, logline = replicate ASYNCLOG_BUFMAX 0,
          newBuffer1 = zero_arbuf, newBuffer2 = zero_arbuf, buffersToWrite = zero_aralign, log_out = zero_logfile,
          amem = H, writing = False\<rparr>)"

definition asynclog_thread_start :: "addr \<Rightarrow> addr \<Rightarrow> lf_env \<Rightarrow> asynclog \<Rightarrow> asynclog" where
  "asynclog_thread_start n3 n4 e s =
     (let (b1, H) = arbuffer_init n3 ASYNCLOG_BUFMAX (amem s);
          (b2, H) = arbuffer_init n4 ASYNCLOG_BUFMAX H
      in s\<lparr>newBuffer1 := b1, newBuffer2 := b2, buffersToWrite := arraybufferalign_init (MAXBUFFER + 1) zero_aralign,
           amem := H, log_out := logfile_init e (arollSize s) False (aflushInterval s)\<rparr>)"

text \<open>The end of the thread.\<close>

definition asynclog_thread_end :: "asynclog \<Rightarrow> asynclog option" where
  "asynclog_thread_end s = do {
     t \<leftarrow> logfile_flush (log_out s);
     (w, H) \<leftarrow> arraybufferalign_clear (buffersToWrite s, amem s);
     (b1, H) \<leftarrow> arbuffer_clear (newBuffer1 s) H;
     (b2, H) \<leftarrow> arbuffer_clear (newBuffer2 s) H;
     Some (s\<lparr>log_out := logfile_free t, buffersToWrite := w, newBuffer1 := b1, newBuffer2 := b2, amem := H\<rparr>) }"

definition asynclog_init :: "addr \<Rightarrow> addr \<Rightarrow> blocks \<Rightarrow> asynclog" where
  "asynclog_init n1 n2 H = asynclog_def_init n1 n2 ASYNCLOG_KROLLSIZE ASYNCLOG_FLUSHTIME H"

section \<open>Buffers with content\<close>

definition ab_ok :: "blocks \<Rightarrow> arbuf \<Rightarrow> bool" where
  "ab_ok H b \<longleftrightarrow> ab_buffer b \<noteq> NULL \<and> map_option length (H (ab_buffer b)) = Some ASYNCLOG_BUFMAX \<and>
     ab_len b = int ASYNCLOG_BUFMAX \<and> 0 \<le> ab_cur b \<and> ab_cur b \<le> int ASYNCLOG_BUFMAX"

definition ab_content :: "blocks \<Rightarrow> arbuf \<Rightarrow> u8 list" where
  "ab_content H b = take (nat (ab_cur b)) (the (H (ab_buffer b)))"

lemma zero_arbuf_eq: "b\<lparr>ab_buffer := NULL, ab_cur := 0, ab_len := 0\<rparr> = zero_arbuf"
  by (simp add: zero_arbuf_def)

text \<open>The buffers of the logger own their blocks, so the facts on arrays of buffers apply.\<close>

interpretation alb: owned_buffers ab_buffer zero_arbuf ab_ok ab_content arbuffer_clear
  by unfold_locales
    (auto simp: ab_ok_def ab_content_def zero_arbuf_def arbuffer_clear_def bfree_def)

lemma ab_ok_reset: "ab_ok H b \<Longrightarrow> ab_ok H (b\<lparr>ab_cur := 0\<rparr>)" "ab_content H (b\<lparr>ab_cur := 0\<rparr>) = []"
  by (simp_all add: ab_ok_def ab_content_def)

lemma arbuffer_append_ok:
  assumes ok: "ab_ok H b" and len: "0 \<le> len" "len \<le> int (length data)" "ab_cur b + len \<le> int ASYNCLOG_BUFMAX"
  shows "\<exists>H'. arbuffer_append b data len H = Some (b\<lparr>ab_cur := ab_cur b + len\<rparr>, H') \<and> ab_ok H' (b\<lparr>ab_cur := ab_cur b + len\<rparr>) \<and>
    ab_content H' (b\<lparr>ab_cur := ab_cur b + len\<rparr>) = ab_content H b @ take (nat len) data \<and> (\<forall>p. p \<noteq> ab_buffer b \<longrightarrow> H' p = H p)"
proof -
  obtain bs where bs: "H (ab_buffer b) = Some bs" "length bs = ASYNCLOG_BUFMAX" "0 \<le> ab_cur b" "ab_buffer b \<noteq> NULL"
      "ab_len b = int ASYNCLOG_BUFMAX"
    using ok by (auto simp: ab_ok_def)
  let ?c = "nat (ab_cur b)" and ?d = "take (nat len) data"
  let ?bs = "take ?c bs @ ?d @ drop (?c + length ?d) bs"
  have ld: "length ?d = nat len" "int (length ?d) = len" using len by auto
  have le: "?c + length ?d \<le> length bs" using bs len ld by linarith
  have wr: "bwrite (ab_buffer b) (ab_cur b) ?d H = Some (H(ab_buffer b \<mapsto> ?bs))"
    by (rule bwrite_ok) (use bs len ld in auto)
  have "nat (ab_cur b + len) = ?c + length ?d" using bs(3) len(1) ld(1) by (simp add: nat_add_distrib)
  then have "ab_content (H(ab_buffer b \<mapsto> ?bs)) (b\<lparr>ab_cur := ab_cur b + len\<rparr>) = ab_content H b @ ?d"
    using le bs(1) ld(1) by (simp add: ab_content_def min_def split: if_splits)
  moreover have "ab_ok (H(ab_buffer b \<mapsto> ?bs)) (b\<lparr>ab_cur := ab_cur b + len\<rparr>)"
    using bs len le by (simp add: ab_ok_def)
  ultimately show ?thesis using wr len by (simp add: arbuffer_append_def)
qed

section \<open>Arrays with their filled part\<close>

definition CAP :: nat where "CAP = 24"

lemma MAXBUFFER_CAP: "MAXBUFFER + 1 = int CAP"
  by (simp add: MAXBUFFER_def CAP_def)

definition holds :: "aralign \<Rightarrow> arbuf list \<Rightarrow> bool" where
  "holds t us \<longleftrightarrow> al_bufs t = alb.entries CAP us \<and> length us \<le> CAP \<and>
     al_cout t = int (length us) \<and> al_max t = int CAP"

definition filled :: "aralign \<Rightarrow> arbuf list" where
  "filled t = take (nat (al_cout t)) (al_bufs t)"

lemma holds_filled: "holds t us \<Longrightarrow> filled t = us"
  by (simp add: holds_def filled_def alb.entries_def)

lemma zero_unusable [simp]: "\<not> arbuffer_usable zero_arbuf"
  by (simp add: zero_arbuf_def arbuffer_usable_def)

lemma add_tail_holds:
  assumes "holds t us" "length us < CAP"
  shows "\<exists>t'. arraybufferalign_add_tail t b = Some (t', zero_arbuf) \<and> holds t' (us @ [b])"
  using assms
  by (auto simp: arraybufferalign_add_tail_def holds_def zero_arbuf_eq alb.entries_add alb.length_entries)

lemma take_back_holds:
  assumes "holds t (us @ [x])" "\<not> arbuffer_usable b"
  shows "\<exists>t'. take_back b t = Some (x\<lparr>ab_cur := 0\<rparr>, t') \<and> holds t' us"
proof -
  have le: "length us < CAP" using assms(1) by (simp add: holds_def)
  have "b\<lparr>ab_buffer := ab_buffer x, ab_cur := 0, ab_len := ab_len x\<rparr> = x\<lparr>ab_cur := 0\<rparr>" by simp
  then show ?thesis using assms le alb.entries_last[OF le, of x]
    by (auto simp: take_back_def holds_def zero_arbuf_eq arbuffer_move_def arbuffer_reset_def alb.length_entries)
qed

lemma clear_slot_entry: "clear_slot i (t\<lparr>al_bufs := fst s\<rparr>, snd s) =
    map_option (\<lambda>s. (t\<lparr>al_bufs := fst s\<rparr>, snd s)) (alb.clean_entry i s)"
  by (cases s; cases "arbuffer_clear (fst s ! nat i) (snd s)") (auto simp: clear_slot_def alb.clean_entry_def)

lemma erase_holds:
  assumes t: "holds t us" and i: "i \<le> length us" "length us \<le> j" "j \<le> CAP" and ok: "alb.bufs_ok H us"
  shows "\<exists>t'. arraybufferalign_erase (int i) (int j) (t, H) = Some (t', H |` (- alb.owned (drop i us))) \<and> holds t' (take i us)"
proof -
  have "t\<lparr>al_bufs := alb.entries CAP us\<rparr> = t" using t by (simp add: holds_def)
  then have "foldM clear_slot [int i..int j - 1] (t, H) =
      Some (t\<lparr>al_bufs := alb.entries CAP (take i us)\<rparr>, H |` (- alb.owned (drop i us)))"
    using foldM_lift[of clear_slot "\<lambda>s. (t\<lparr>al_bufs := fst s\<rparr>, snd s)" alb.clean_entry _ "(alb.entries CAP us, H)"]
      clear_slot_entry alb.clean_tail[OF ok i] by simp
  then show ?thesis using i t by (simp add: arraybufferalign_erase_def holds_def)
qed

lemma move_holds:
  assumes "holds dst []" "holds src us"
  shows "\<exists>dst' src'. arraybufferalign_move dst src H = Some (dst', src', H) \<and> holds dst' us \<and> holds src' []"
  using assms
  by (simp add: arraybufferalign_move_def arraybufferalign_erase_def holds_def Let_def alb.length_entries alb.entries_move)
    (simp add: alb.entries_Nil)

section \<open>Writing to the file\<close>

definition env_ok :: "lf_env \<Rightarrow> bool" where
  "env_ok e \<longleftrightarrow> (\<forall>n. 0 < env_fwrite e n) \<and> env_fopen e"

definition lf_ok :: "logfile \<Rightarrow> bool" where
  "lf_ok t \<longleftrightarrow> fp t \<and> lf_files t \<noteq> []"

lemma write_rest_all: "\<forall>n. 0 < fw n \<Longrightarrow> write_rest fw data n = drop n data"
proof (induction fw data n rule: write_rest.induct)
  case (1 fw data n)
  let ?x = "min (fw n) (length data - n)"
  show ?case
  proof (cases "n < length data")
    case True
    then have x: "?x \<noteq> 0" using 1(2) by (metis min_def neq0_conv zero_less_diff)
    then have "write_rest fw data (n + ?x) = drop (n + ?x) data" using 1 True by simp
    moreover have "take ?x (drop n data) @ drop (n + ?x) data = drop n data"
      by (metis add.commute append_take_drop_id drop_drop)
    ultimately show ?thesis using True x by (subst write_rest.simps) (simp add: Let_def)
  qed (subst write_rest.simps, simp)
qed

lemma roll_ok: "lf_ok t \<Longrightarrow> env_ok e \<Longrightarrow> lf_ok (logfile_roll e t) \<and> concat (lf_files (logfile_roll e t)) = concat (lf_files t)"
  by (simp add: logfile_roll_def logfile_reopen_def lf_ok_def env_ok_def Let_def)

lemma append_raw_ok:
  assumes "lf_ok t" "env_ok e"
  shows "\<exists>t'. logfile_append_raw e data t = Some t' \<and> lf_ok t' \<and> concat (lf_files t') = concat (lf_files t) @ data"
proof -
  let ?x = "min (env_fwrite e 0) (length data)"
  have all: "take ?x data @ write_rest (env_fwrite e) data ?x = data"
    using assms(2) write_rest_all[of "env_fwrite e" data ?x] by (simp add: env_ok_def)
  have "concat (butlast (lf_files t)) @ last (lf_files t) = concat (lf_files t)"
    using assms(1) append_butlast_last_id[of "lf_files t"]
    by (metis concat.simps concat_append append_Nil2 lf_ok_def)
  then have "concat (butlast (lf_files t)) @ last (lf_files t) @ data = concat (lf_files t) @ data" by (metis append_assoc)
  then show ?thesis using assms(1) by (simp add: logfile_append_raw_def lf_ok_def Let_def all)
qed

lemma logfile_append_ok:
  assumes "lf_ok t" "env_ok e"
  shows "\<exists>t'. logfile_append e data t = Some t' \<and> lf_ok t' \<and> concat (lf_files t') = concat (lf_files t) @ data"
proof -
  obtain t1 where t1: "logfile_append_raw e data t = Some t1" "lf_ok t1" "concat (lf_files t1) = concat (lf_files t) @ data"
    using append_raw_ok[OF assms] by blast
  have upd: "lf_ok (t1\<lparr>lf_count := c\<rparr>)" "lf_ok (t1\<lparr>lf_count := c, lastFlush := d\<rparr>)" for c d using t1(2) by (simp_all add: lf_ok_def)
  have r: "lf_ok (logfile_roll e t1)" "concat (lf_files (logfile_roll e t1)) = concat (lf_files t1)"
    "lf_ok (logfile_roll e (t1\<lparr>lf_count := 0\<rparr>))" "concat (lf_files (logfile_roll e (t1\<lparr>lf_count := 0\<rparr>))) = concat (lf_files t1)"
    using roll_ok[OF t1(2) assms(2)] roll_ok[OF upd(1) assms(2), of 0] by auto
  have f: "fp t1" using t1(2) by (simp add: lf_ok_def)
  show ?thesis using t1 r upd f
    by (simp add: logfile_append_def logfile_append_unlocked_def logfile_flush_def Let_def)
qed

lemma write_buffers_ok:
  assumes "lf_ok t" "\<forall>i. env_ok (envs i)" "\<forall>b \<in> set us. ab_ok H b" "k \<le> length us"
  shows "\<exists>t'. foldM (write_buffer envs (us @ zs) H) (map int [0..<k]) t = Some t' \<and> lf_ok t' \<and>
    concat (lf_files t') = concat (lf_files t) @ concat (map (ab_content H) (take k us))"
  using assms(4)
proof (induction k)
  case 0
  then show ?case using assms(1) by simp
next
  case (Suc k)
  then obtain t1 where t1: "foldM (write_buffer envs (us @ zs) H) (map int [0..<k]) t = Some t1" "lf_ok t1"
    "concat (lf_files t1) = concat (lf_files t) @ concat (map (ab_content H) (take k us))" by auto
  have k: "k < length us" using Suc.prems by simp
  then have "ab_ok H (us ! k)" using assms(3) by simp
  then have rd: "bread (ab_buffer (us ! k)) 0 (arbuffer_used (us ! k)) H = Some (ab_content H (us ! k))"
    by (auto simp: ab_ok_def bread_def ab_content_def arbuffer_used_def)
  obtain t2 where t2: "logfile_append (envs k) (ab_content H (us ! k)) t1 = Some t2" "lf_ok t2"
      "concat (lf_files t2) = concat (lf_files t1) @ ab_content H (us ! k)"
    using logfile_append_ok[OF t1(2)] assms(2) by blast
  have "write_buffer envs (us @ zs) H (int k) t1 = Some t2" using t2(1) rd k by (simp add: write_buffer_def nth_append)
  then show ?case using t1 t2 k by (simp add: foldM_append take_Suc_conv_app_nth)
qed

section \<open>The invariant of the logger\<close>

lemma opt_buf_usable: "alb.opt_buf b = (if arbuffer_usable b then [b] else [])"
  by (simp add: alb.opt_buf_def arbuffer_usable_def)

definition live_bufs :: "asynclog \<Rightarrow> arbuf list \<Rightarrow> arbuf list \<Rightarrow> arbuf list" where
  "live_bufs s us ws =
     currentBuffer s # alb.opt_buf (nextBuffer s) @ alb.opt_buf (newBuffer1 s) @ alb.opt_buf (newBuffer2 s) @ us @ ws"

definition phase_ok :: "asynclog \<Rightarrow> arbuf list \<Rightarrow> bool" where
  "phase_ok s ws \<longleftrightarrow>
     (if writing s
      then ws \<noteq> [] \<and> length ws < CAP \<and> \<not> arbuffer_usable (newBuffer1 s) \<and> (arbuffer_usable (newBuffer2 s) \<or> 2 \<le> length ws)
      else ws = [] \<and> arbuffer_usable (newBuffer1 s) \<and> arbuffer_usable (newBuffer2 s))"

definition alog_inv :: "asynclog \<Rightarrow> bool" where
  "alog_inv s \<longleftrightarrow> (\<exists>us ws. holds (abuffers s) us \<and> holds (buffersToWrite s) ws \<and> alb.bufs_ok (amem s) (live_bufs s us ws) \<and>
     length (logline s) = ASYNCLOG_BUFMAX \<and> lf_ok (log_out s) \<and> (arbuffer_usable (nextBuffer s) \<or> us \<noteq> []) \<and> phase_ok s ws)"

lemma alog_inv_upd:
  "alog_inv s \<Longrightarrow> length x = ASYNCLOG_BUFMAX \<Longrightarrow> alog_inv (s\<lparr>logline := x\<rparr>)"
  "alog_inv s \<Longrightarrow> lf_ok t \<Longrightarrow> alog_inv (s\<lparr>log_out := t\<rparr>)"
proof -
  have "live_bufs (s\<lparr>logline := x\<rparr>) us ws = live_bufs s us ws" "phase_ok (s\<lparr>logline := x\<rparr>) ws = phase_ok s ws"
    "live_bufs (s\<lparr>log_out := t\<rparr>) us ws = live_bufs s us ws" "phase_ok (s\<lparr>log_out := t\<rparr>) ws = phase_ok s ws" for us ws
    by (simp_all add: live_bufs_def phase_ok_def)
  then show "alog_inv s \<Longrightarrow> length x = ASYNCLOG_BUFMAX \<Longrightarrow> alog_inv (s\<lparr>logline := x\<rparr>)"
    "alog_inv s \<Longrightarrow> lf_ok t \<Longrightarrow> alog_inv (s\<lparr>log_out := t\<rparr>)"
    by (simp_all add: alog_inv_def) blast+
qed

text \<open>What is still in buffers, in the order of the appends, and before it what is in the files.\<close>

definition alog_pending :: "asynclog \<Rightarrow> u8 list list" where
  "alog_pending s = map (ab_content (amem s)) (filled (buffersToWrite s) @ filled (abuffers s) @ [currentBuffer s])"

definition alog_view :: "asynclog \<Rightarrow> u8 list" where
  "alog_view s = concat (lf_files (log_out s)) @ concat (alog_pending s)"

text \<open>Appending to the last buffer, or to a new one.\<close>

definition pending_add :: "u8 list \<Rightarrow> u8 list list \<Rightarrow> u8 list list \<Rightarrow> bool" where
  "pending_add l xs ys \<longleftrightarrow> ys = butlast xs @ [last xs @ l] \<or> ys = xs @ [l]"

lemma concat_pending_add: "pending_add l xs ys \<Longrightarrow> xs \<noteq> [] \<Longrightarrow> concat ys = concat xs @ l"
  by (cases xs rule: rev_cases) (auto simp: pending_add_def)

lemma pending_add_last: "pending_add l xs (butlast xs @ [last xs @ l])"
  by (simp add: pending_add_def)

lemma alog_pending_ne [simp]: "alog_pending s \<noteq> []"
  by (simp add: alog_pending_def)

lemma append_current:
  assumes ok: "alb.bufs_ok H (c # bs)" and len: "l \<le> length data" "ab_cur c + int l \<le> int ASYNCLOG_BUFMAX"
  shows "\<exists>c' H'. arbuffer_append c data (int l) H = Some (c', H') \<and> alb.bufs_ok H' (c' # bs) \<and>
    ab_content H' c' = ab_content H c @ take l data \<and> map (ab_content H') bs = map (ab_content H) bs"
proof -
  have c: "ab_ok H c" "ab_buffer c \<notin> ab_buffer ` set bs" "alb.bufs_ok H bs" using ok by (auto simp: alb.bufs_ok_Cons)
  let ?c = "c\<lparr>ab_cur := ab_cur c + int l\<rparr>"
  obtain H' where H': "arbuffer_append c data (int l) H = Some (?c, H')" "ab_ok H' ?c"
      "ab_content H' ?c = ab_content H c @ take l data" "\<forall>p. p \<noteq> ab_buffer c \<longrightarrow> H' p = H p"
    using arbuffer_append_ok[OF c(1), of "int l" data] len by auto
  have eq: "H' (ab_buffer b) = H (ab_buffer b)" if "b \<in> set bs" for b using H'(4) c(2) that by (metis image_eqI)
  show ?thesis using H' alb.bufs_ok_cong[OF c(3) eq] c(2) by (auto simp: alb.bufs_ok_Cons)
qed

lemma logline_take:
  assumes "length l \<le> ASYNCLOG_BUFMAX - 2" "length arr = ASYNCLOG_BUFMAX"
  shows "take (length l) (vsnprintf_into (ASYNCLOG_BUFMAX - 1) l arr) = l"
    "length (vsnprintf_into (ASYNCLOG_BUFMAX - 1) l arr) = ASYNCLOG_BUFMAX"
  using assms by (auto simp: vsnprintf_into_def ASYNCLOG_BUFMAX_def)

text \<open>The buffer that \<open>_log_append\<close> starts when the current one is full.\<close>

definition next_current :: "addr \<Rightarrow> asynclog \<Rightarrow> asynclog" where
  "next_current new s =
     (if arbuffer_usable (nextBuffer s)
      then case arbuffer_move (currentBuffer s) (nextBuffer s) of (c, n) \<Rightarrow> s\<lparr>currentBuffer := c, nextBuffer := n\<rparr>
      else case arbuffer_init new ASYNCLOG_BUFMAX (amem s) of (c, H) \<Rightarrow> s\<lparr>currentBuffer := c, amem := H\<rparr>)"

lemma log_append_raw_eq:
  "log_append_raw new line len s =
     (if arbuffer_avail (currentBuffer s) > len
      then map_option (\<lambda>(b, H). s\<lparr>currentBuffer := b, amem := H\<rparr>) (arbuffer_append (currentBuffer s) line len (amem s))
      else Option.bind (arraybufferalign_add_tail (abuffers s) (currentBuffer s)) (\<lambda>(t, b).
        let s = next_current new (s\<lparr>abuffers := t, currentBuffer := b\<rparr>) in
        map_option (\<lambda>(b, H). s\<lparr>currentBuffer := b, amem := H\<rparr>) (arbuffer_append (currentBuffer s) line len (amem s))))"
proof -
  have m: "Option.bind x (\<lambda>(b, H). Some (f b H)) = map_option (\<lambda>(b, H). f b H) x" for x and f :: "arbuf \<Rightarrow> blocks \<Rightarrow> asynclog"
    by (cases x) auto
  show ?thesis unfolding log_append_raw_def next_current_def m by (simp add: Let_def)
qed

lemma next_current_ok:
  assumes ok: "alb.bufs_ok (amem s) (tl (live_bufs s us ws))"
    and new: "new \<noteq> NULL" "amem s new = None" and s': "s' = next_current new s"
  shows "alb.bufs_ok (amem s') (live_bufs s' us ws)" "ab_cur (currentBuffer s') = 0" "ab_content (amem s') (currentBuffer s') = []"
    "\<forall>b \<in> set us \<union> set ws. ab_content (amem s') b = ab_content (amem s) b"
    "abuffers s' = abuffers s" "buffersToWrite s' = buffersToWrite s" "log_out s' = log_out s" "logline s' = logline s"
    "writing s' = writing s" "newBuffer1 s' = newBuffer1 s" "newBuffer2 s' = newBuffer2 s"
proof -
  show f: "abuffers s' = abuffers s" "buffersToWrite s' = buffersToWrite s" "log_out s' = log_out s" "logline s' = logline s"
    "writing s' = writing s" "newBuffer1 s' = newBuffer1 s" "newBuffer2 s' = newBuffer2 s"
    by (simp_all add: s' next_current_def arbuffer_move_def arbuffer_init_def)
  show "ab_cur (currentBuffer s') = 0" "ab_content (amem s') (currentBuffer s') = []"
    by (simp_all add: s' next_current_def arbuffer_move_def arbuffer_init_def ab_content_def)
  show "alb.bufs_ok (amem s') (live_bufs s' us ws)" "\<forall>b \<in> set us \<union> set ws. ab_content (amem s') b = ab_content (amem s) b"
  proof (atomize (full), cases "arbuffer_usable (nextBuffer s)")
    case True
    let ?n = "nextBuffer s"
    have e: "c\<lparr>ab_buffer := ab_buffer ?n, ab_cur := 0, ab_len := ab_len ?n\<rparr> = ?n\<lparr>ab_cur := 0\<rparr>" for c :: arbuf by simp
    have s1: "s' = s\<lparr>currentBuffer := ?n\<lparr>ab_cur := 0\<rparr>, nextBuffer := zero_arbuf\<rparr>"
      using True by (simp add: s' next_current_def arbuffer_move_def zero_arbuf_eq e)
    have "alb.bufs_ok (amem s) (?n # alb.opt_buf (newBuffer1 s) @ alb.opt_buf (newBuffer2 s) @ us @ ws)"
      using ok True by (simp add: live_bufs_def opt_buf_usable)
    then have "alb.bufs_ok (amem s) (?n\<lparr>ab_cur := 0\<rparr> # alb.opt_buf (newBuffer1 s) @ alb.opt_buf (newBuffer2 s) @ us @ ws)"
      using ab_ok_reset(1) by (simp add: alb.bufs_ok_Cons)
    then show "alb.bufs_ok (amem s') (live_bufs s' us ws) \<and> (\<forall>b \<in> set us \<union> set ws. ab_content (amem s') b = ab_content (amem s) b)"
      unfolding s1 by (simp add: live_bufs_def opt_buf_usable)
  next
    case False
    let ?c = "\<lparr>ab_buffer = new, ab_cur = 0, ab_len = int ASYNCLOG_BUFMAX\<rparr>"
    let ?H = "(amem s)(new \<mapsto> replicate ASYNCLOG_BUFMAX 0)"
    have s1: "s' = s\<lparr>currentBuffer := ?c, amem := ?H\<rparr>"
      using False new by (simp add: s' next_current_def arbuffer_init_def bcalloc_def)
    let ?bs = "alb.opt_buf (newBuffer1 s) @ alb.opt_buf (newBuffer2 s) @ us @ ws"
    have b: "alb.bufs_ok (amem s) ?bs" using ok False by (simp add: live_bufs_def opt_buf_usable)
    have nb: "ab_buffer x \<noteq> new" if "x \<in> set ?bs" for x
    proof -
      have "ab_ok (amem s) x" using b that by (metis alb.bufs_ok_def)
      then show ?thesis using new(2) by (auto simp: ab_ok_def)
    qed
    have k: "?H (ab_buffer x) = amem s (ab_buffer x)" if "x \<in> set ?bs" for x using nb[OF that] by simp
    have "new \<notin> ab_buffer ` set ?bs" using nb by blast
    moreover have "alb.bufs_ok ?H ?bs" by (rule alb.bufs_ok_cong(1)[OF b k])
    moreover have "ab_ok ?H ?c" using new by (simp add: ab_ok_def)
    ultimately have "alb.bufs_ok ?H (?c # ?bs)" unfolding alb.bufs_ok_Cons by simp
    moreover have "\<forall>x \<in> set us \<union> set ws. ab_content ?H x = ab_content (amem s) x" using k by (auto simp: ab_content_def)
    ultimately show "alb.bufs_ok (amem s') (live_bufs s' us ws) \<and> (\<forall>b \<in> set us \<union> set ws. ab_content (amem s') b = ab_content (amem s) b)"
      unfolding s1 using False by (simp add: live_bufs_def opt_buf_usable)
  qed
qed

lemma set_live:
  "set us \<subseteq> set (live_bufs s us ws)" "set ws \<subseteq> set (live_bufs s us ws)" "currentBuffer s \<in> set (live_bufs s us ws)"
  by (auto simp: live_bufs_def)

lemma map_content_cong: "\<forall>b \<in> set us \<union> set ws. ab_content H' b = ab_content H b \<Longrightarrow>
    concat (map (ab_content H') us) = concat (map (ab_content H) us) \<and> concat (map (ab_content H') ws) = concat (map (ab_content H) ws)"
  by (simp cong: map_cong)

lemma append_to_current:
  assumes ok: "alb.bufs_ok (amem s) (live_bufs s us ws)" and h: "holds (abuffers s) us" "holds (buffersToWrite s) ws"
    and len: "length l \<le> length data" "take (length l) data = l" "ab_cur (currentBuffer s) + int (length l) \<le> int ASYNCLOG_BUFMAX"
  shows "\<exists>c H. arbuffer_append (currentBuffer s) data (int (length l)) (amem s) = Some (c, H) \<and>
    alb.bufs_ok H (live_bufs (s\<lparr>currentBuffer := c, amem := H\<rparr>) us ws) \<and>
    alog_pending (s\<lparr>currentBuffer := c, amem := H\<rparr>) = butlast (alog_pending s) @ [last (alog_pending s) @ l]"
proof -
  let ?bs = "alb.opt_buf (nextBuffer s) @ alb.opt_buf (newBuffer1 s) @ alb.opt_buf (newBuffer2 s) @ us @ ws"
  have "alb.bufs_ok (amem s) (currentBuffer s # ?bs)" using ok by (simp add: live_bufs_def)
  from append_current[OF this len(1,3)] obtain c H where
    c: "arbuffer_append (currentBuffer s) data (int (length l)) (amem s) = Some (c, H)" "alb.bufs_ok H (c # ?bs)"
      "ab_content H c = ab_content (amem s) (currentBuffer s) @ l" "map (ab_content H) ?bs = map (ab_content (amem s)) ?bs"
    using len(2) by auto
  have "map (ab_content H) us = map (ab_content (amem s)) us" "map (ab_content H) ws = map (ab_content (amem s)) ws"
    using c(4) by auto
  then show ?thesis using c(1-3) holds_filled[OF h(1)] holds_filled[OF h(2)]
    by (simp add: live_bufs_def alog_pending_def butlast_append del: map_eq_conv)
qed

lemma log_append_raw_ok:
  assumes inv: "alog_inv s" and len: "length l \<le> ASYNCLOG_BUFMAX" "length l \<le> length data" "take (length l) data = l"
    and new: "new \<noteq> NULL" "amem s new = None"
    and room: "int (length l) < arbuffer_avail (currentBuffer s) \<or> al_cout (abuffers s) \<le> MAXBUFFER"
  shows "\<exists>s'. log_append_raw new data (int (length l)) s = Some s' \<and> alog_inv s' \<and>
    pending_add l (alog_pending s) (alog_pending s') \<and> log_out s' = log_out s \<and>
    writing s' = writing s \<and> al_cout (abuffers s') \<le> al_cout (abuffers s) + 1"
proof -
  obtain us ws where u: "holds (abuffers s) us" "holds (buffersToWrite s) ws" "alb.bufs_ok (amem s) (live_bufs s us ws)"
      "length (logline s) = ASYNCLOG_BUFMAX" "lf_ok (log_out s)" "arbuffer_usable (nextBuffer s) \<or> us \<noteq> []" "phase_ok s ws"
    using inv unfolding alog_inv_def by blast
  have cok: "ab_ok (amem s) (currentBuffer s)" using u(3) set_live(3) by (auto simp: alb.bufs_ok_def)
  show ?thesis
  proof (cases "arbuffer_avail (currentBuffer s) > int (length l)")
    case True
    have fit: "ab_cur (currentBuffer s) + int (length l) \<le> int ASYNCLOG_BUFMAX"
      using True cok by (simp add: arbuffer_avail_def arbuffer_end_def ab_ok_def)
    obtain c H where c: "arbuffer_append (currentBuffer s) data (int (length l)) (amem s) = Some (c, H)"
        "alb.bufs_ok H (live_bufs (s\<lparr>currentBuffer := c, amem := H\<rparr>) us ws)"
        "alog_pending (s\<lparr>currentBuffer := c, amem := H\<rparr>) = butlast (alog_pending s) @ [last (alog_pending s) @ l]"
      using append_to_current[OF u(3) u(1,2) len(2,3) fit] by blast
    have "alog_inv (s\<lparr>currentBuffer := c, amem := H\<rparr>)"
      unfolding alog_inv_def by (rule exI[of _ us], rule exI[of _ ws]) (use u c(2) in \<open>simp add: phase_ok_def\<close>)
    then show ?thesis using c(1,3) True by (simp add: log_append_raw_eq pending_add_def)
  next
    case False
    then have lt: "length us < CAP" using room u(1) by (auto simp: holds_def MAXBUFFER_def CAP_def)
    obtain t where t: "arraybufferalign_add_tail (abuffers s) (currentBuffer s) = Some (t, zero_arbuf)" "holds t (us @ [currentBuffer s])"
      using add_tail_holds[OF u(1) lt] by blast
    let ?s1 = "s\<lparr>abuffers := t, currentBuffer := zero_arbuf\<rparr>"
    let ?us = "us @ [currentBuffer s]"
    let ?s2 = "next_current new ?s1"
    have "mset (live_bufs s us ws) = mset (tl (live_bufs ?s1 ?us ws))" by (simp add: live_bufs_def)
    then have ok1: "alb.bufs_ok (amem ?s1) (tl (live_bufs ?s1 ?us ws))" using alb.bufs_ok_perm[OF u(3)] by simp
    have nw: "amem ?s1 new = None" using new by simp
    note n = next_current_ok[OF ok1 new(1) nw refl]
    have h: "holds (abuffers ?s2) ?us" "holds (buffersToWrite ?s2) ws" using n(5,6) t(2) u(2) by simp_all
    have fit: "ab_cur (currentBuffer ?s2) + int (length l) \<le> int ASYNCLOG_BUFMAX" using n(2) len(1) by simp
    obtain c H where c: "arbuffer_append (currentBuffer ?s2) data (int (length l)) (amem ?s2) = Some (c, H)"
        "alb.bufs_ok H (live_bufs (?s2\<lparr>currentBuffer := c, amem := H\<rparr>) ?us ws)"
        "alog_pending (?s2\<lparr>currentBuffer := c, amem := H\<rparr>) = butlast (alog_pending ?s2) @ [last (alog_pending ?s2) @ l]"
      using append_to_current[OF n(1) h len(2,3) fit] by blast
    have "alog_inv (?s2\<lparr>currentBuffer := c, amem := H\<rparr>)"
      unfolding alog_inv_def
      by (rule exI[of _ ?us], rule exI[of _ ws])
        (use u h c(2) n(7-11) in \<open>simp add: phase_ok_def\<close>)
    moreover have "alog_pending ?s2 = alog_pending s @ [[]]"
      using n(3,4) holds_filled[OF h(1)] holds_filled[OF h(2)] holds_filled[OF u(1)] holds_filled[OF u(2)]
      by (auto simp: alog_pending_def)
    moreover have "writing ?s2 = writing s" "al_cout (abuffers ?s2) = al_cout (abuffers s) + 1" "log_out ?s2 = log_out s"
      using n(5,7,9) t(2) u(1) by (simp_all add: holds_def)
    ultimately show ?thesis using c(1,3) t(1) False by (simp add: log_append_raw_eq Let_def pending_add_def butlast_append)
  qed
qed

lemma log_append_ok:
  assumes inv: "alog_inv s" and len: "length l \<le> ASYNCLOG_BUFMAX - 2" and new: "new \<noteq> NULL" "amem s new = None"
    and room: "int (length l) < arbuffer_avail (currentBuffer s) \<or> al_cout (abuffers s) \<le> MAXBUFFER"
  shows "\<exists>s'. log_append new (Some l) s = Some s' \<and> alog_inv s' \<and> alog_view s' = alog_view s @ l \<and>
    writing s' = writing s \<and> al_cout (abuffers s') \<le> al_cout (abuffers s) + 1"
proof -
  let ?data = "vsnprintf_into (ASYNCLOG_BUFMAX - 1) l (logline s)"
  let ?s = "s\<lparr>logline := ?data\<rparr>"
  have "length (logline s) = ASYNCLOG_BUFMAX" using inv by (auto simp: alog_inv_def)
  note ll = logline_take[OF len this]
  have inv': "alog_inv ?s" by (rule alog_inv_upd(1)[OF inv ll(2)])
  have p: "alog_pending ?s = alog_pending s" by (simp add: alog_pending_def)
  have le: "length l \<le> ASYNCLOG_BUFMAX" "length l \<le> length ?data" using ll(2) len by simp_all
  obtain s' where s': "log_append_raw new ?data (int (length l)) ?s = Some s'" "alog_inv s'" "log_out s' = log_out s"
      "pending_add l (alog_pending s) (alog_pending s')" "writing s' = writing s" "al_cout (abuffers s') \<le> al_cout (abuffers s) + 1"
    using log_append_raw_ok[OF inv' le ll(1) new(1)] new(2) room p by auto
  then have "alog_view s' = alog_view s @ l" using concat_pending_add[OF s'(4)] by (simp add: alog_view_def)
  then show ?thesis using s' by (simp add: log_append_def Let_def)
qed

lemma log_bufs_reset: "alb.bufs_ok H (b # bs) \<Longrightarrow> alb.bufs_ok H (b\<lparr>ab_cur := 0\<rparr> # bs)"
  by (simp add: alb.bufs_ok_Cons ab_ok_reset)

lemma swap_ok:
  assumes inv: "alog_inv s" and w: "\<not> writing s" and room: "al_cout (abuffers s) < MAXBUFFER"
  shows "\<exists>s'. asynclog_swap s = Some s' \<and> alog_inv s' \<and> alog_pending s' = alog_pending s @ [[]] \<and> alog_view s' = alog_view s \<and>
    writing s' \<and> al_cout (abuffers s') = 0 \<and> amem s' = amem s"
proof -
  obtain us ws where u: "holds (abuffers s) us" "holds (buffersToWrite s) ws" "alb.bufs_ok (amem s) (live_bufs s us ws)"
      "length (logline s) = ASYNCLOG_BUFMAX" "lf_ok (log_out s)" "arbuffer_usable (nextBuffer s) \<or> us \<noteq> []" "phase_ok s ws"
    using inv unfolding alog_inv_def by blast
  have ph: "ws = []" "arbuffer_usable (newBuffer1 s)" "arbuffer_usable (newBuffer2 s)" using u(7) w by (auto simp: phase_ok_def)
  have lt: "length us < CAP" "Suc (length us) < CAP" using room u(1) by (auto simp: holds_def MAXBUFFER_def CAP_def)
  let ?us = "us @ [currentBuffer s]"
  obtain t where t: "arraybufferalign_add_tail (abuffers s) (currentBuffer s) = Some (t, zero_arbuf)" "holds t ?us"
    using add_tail_holds[OF u(1) lt(1)] by blast
  obtain w' t' where m: "arraybufferalign_move (buffersToWrite s) t (amem s) = Some (w', t', amem s)" "holds w' ?us" "holds t' []"
    using move_holds[OF _ t(2)] u(2) ph(1) by blast
  let ?n1 = "newBuffer1 s" and ?n2 = "newBuffer2 s"
  have e: "b\<lparr>ab_buffer := ab_buffer x, ab_cur := 0, ab_len := ab_len x\<rparr> = x\<lparr>ab_cur := 0\<rparr>" for b x :: arbuf by simp
  let ?s1 = "s\<lparr>abuffers := t', buffersToWrite := w', currentBuffer := ?n1\<lparr>ab_cur := 0\<rparr>, newBuffer1 := zero_arbuf, writing := True\<rparr>"
  let ?s2 = "if arbuffer_usable (nextBuffer s) then ?s1 else ?s1\<lparr>nextBuffer := ?n2\<lparr>ab_cur := 0\<rparr>, newBuffer2 := zero_arbuf\<rparr>"
  have run: "asynclog_swap s = Some ?s2"
    using t(1) m(1) by (simp add: asynclog_swap_def arbuffer_move_def zero_arbuf_eq e Let_def)
  let ?nx = "if arbuffer_usable (nextBuffer s) then [nextBuffer s, ?n2] else [?n2]"
  have "mset (live_bufs s us ws) = mset (?n1 # ?nx @ ?us)" using ph by (simp add: live_bufs_def opt_buf_usable)
  then have ok: "alb.bufs_ok (amem s) (?n1\<lparr>ab_cur := 0\<rparr> # ?nx @ ?us)" using log_bufs_reset alb.bufs_ok_perm[OF u(3)] by blast
  have "alb.bufs_ok (amem s) (live_bufs ?s2 [] ?us)"
  proof (cases "arbuffer_usable (nextBuffer s)")
    case True
    then show ?thesis using ok ph(3) by (simp add: live_bufs_def opt_buf_usable)
  next
    case False
    have "alb.bufs_ok (amem s) (?n2 # ?n1\<lparr>ab_cur := 0\<rparr> # ?us)" using alb.bufs_ok_perm[OF ok] False by simp
    then have "alb.bufs_ok (amem s) (?n2\<lparr>ab_cur := 0\<rparr> # ?n1\<lparr>ab_cur := 0\<rparr> # ?us)" by (rule log_bufs_reset)
    then have "alb.bufs_ok (amem s) (?n1\<lparr>ab_cur := 0\<rparr> # ?n2\<lparr>ab_cur := 0\<rparr> # ?us)" by (rule alb.bufs_ok_perm) simp
    moreover have "arbuffer_usable (?n2\<lparr>ab_cur := 0\<rparr>)" using ph(3) by (simp add: arbuffer_usable_def)
    ultimately show ?thesis using False by (simp add: live_bufs_def opt_buf_usable)
  qed
  moreover have "phase_ok ?s2 ?us" using lt ph(3) u(6) by (auto simp: phase_ok_def length_greater_0_conv Suc_le_eq)
  moreover have "arbuffer_usable (nextBuffer ?s2)" using ph(3) by (simp add: arbuffer_usable_def)
  ultimately have "alog_inv ?s2" unfolding alog_inv_def
    by (intro exI[of _ "[]"] exI[of _ ?us]) (use m u in auto)
  moreover have p: "alog_pending ?s2 = alog_pending s @ [[]]"
    using holds_filled[OF u(1)] holds_filled[OF u(2)] holds_filled[OF m(2)] holds_filled[OF m(3)] ph(1)
    by (simp add: alog_pending_def ab_content_def)
  moreover have "alog_view ?s2 = alog_view s" unfolding alog_view_def p by simp
  moreover have "writing ?s2 \<and> al_cout (abuffers ?s2) = 0 \<and> amem ?s2 = amem s" using m(3) by (simp add: holds_def)
  ultimately show ?thesis using run by blast
qed

text \<open>The thread gets its two buffers back; what is left of the first two is cleared.\<close>

lemma take_back_two:
  assumes w: "holds w ws" "ws \<noteq> []" "length ws \<le> 2" and n1: "\<not> arbuffer_usable n1" and n2: "arbuffer_usable n2 \<or> length ws = 2"
  shows "\<exists>m1 w1 m2 w2 rest b1. take_back n1 w = Some (m1, w1) \<and> take_back n2 w1 = Some (m2, w2) \<and> holds w2 rest \<and>
    m1 = b1\<lparr>ab_cur := 0\<rparr> \<and>
    (if arbuffer_usable n2 then m2 = n2 \<and> mset ws = mset (b1 # rest)
     else \<exists>b2. m2 = b2\<lparr>ab_cur := 0\<rparr> \<and> mset ws = mset (b1 # b2 # rest))"
proof -
  obtain xs b1 where xs: "ws = xs @ [b1]" using w(2) by (cases ws rule: rev_cases) auto
  obtain w1 where w1: "take_back n1 w = Some (b1\<lparr>ab_cur := 0\<rparr>, w1)" "holds w1 xs"
    using take_back_holds[of w xs b1] w(1) xs n1 by blast
  show ?thesis
  proof (cases "arbuffer_usable n2")
    case True
    then have "take_back n2 w1 = Some (n2, w1)" by (simp add: take_back_def)
    then show ?thesis using True w1 xs by auto
  next
    case False
    then have "length xs = 1" using n2 xs by simp
    then obtain b2 where b2: "xs = [] @ [b2]" by (cases xs) auto
    obtain w2 where w2: "take_back n2 w1 = Some (b2\<lparr>ab_cur := 0\<rparr>, w2)" "holds w2 []"
      using take_back_holds[of w1 "[]" b2] w1(2) b2 False by blast
    have "mset ws = mset (b1 # b2 # [])" using xs b2 by simp
    then show ?thesis using w1(1) w2 False by (auto intro!: exI[of _ "[]"])
  qed
qed

lemma erase_two:
  assumes w: "holds w ws" "length ws \<le> CAP" and ok: "alb.bufs_ok H ws"
  shows "\<exists>w'. (if al_cout w > 2 then arraybufferalign_erase 2 (MAXBUFFER + 1) (w, H) else Some (w, H)) =
    Some (w', H |` (- alb.owned (drop 2 ws))) \<and> holds w' (take 2 ws)"
proof (cases "length ws > 2")
  case True
  have "\<exists>t'. arraybufferalign_erase (int 2) (int CAP) (w, H) = Some (t', H |` (- alb.owned (drop 2 ws))) \<and> holds t' (take 2 ws)"
    by (rule erase_holds[OF w(1)]) (use True w ok in \<open>auto simp: alb.bufs_ok_def\<close>)
  then show ?thesis using True w(1) by (simp add: MAXBUFFER_CAP holds_def)
next
  case False
  then have "al_cout w \<le> 2" using w(1) by (simp add: holds_def)
  moreover have "H |` (- alb.owned (drop 2 ws)) = H" using False by (simp add: alb.owned_def restrict_map_def)
  ultimately show ?thesis using False w(1) by simp
qed

lemma clear_all:
  assumes w: "holds w ws" and ok: "alb.bufs_ok H ws"
  shows "\<exists>w'. arraybufferalign_clear (w, H) = Some (w', H |` (- alb.owned ws)) \<and> holds w' []"
proof -
  have "\<exists>t'. arraybufferalign_erase (int 0) (int (length ws)) (w, H) = Some (t', H |` (- alb.owned (drop 0 ws))) \<and> holds t' (take 0 ws)"
    by (rule erase_holds[OF w]) (use w ok in \<open>auto simp: alb.bufs_ok_def holds_def\<close>)
  then show ?thesis using w by (simp add: arraybufferalign_clear_def holds_def)
qed

lemma swap_blocks:
  assumes "mset (O1 @ T) = mset (b1 # k2 # R)"
  shows "mset (C @ O1 @ T @ D) = mset ((b1 # k2 # C @ R) @ D)"
proof -
  have "mset (C @ O1 @ T @ D) = mset (O1 @ T) + mset C + mset D" by simp
  also have "\<dots> = mset (b1 # k2 # R) + mset C + mset D" by (simp only: assms)
  also have "\<dots> = mset ((b1 # k2 # C @ R) @ D)" by simp
  finally show ?thesis .
qed

lemma asynclog_refill_ok:
  assumes inv: "alog_inv s" and w: "writing s"
  shows "\<exists>n1 n2 w' H. asynclog_refill (newBuffer1 s) (newBuffer2 s) (buffersToWrite s) (amem s) = Some (n1, n2, w', H) \<and>
    alog_inv (s\<lparr>newBuffer1 := n1, newBuffer2 := n2, buffersToWrite := w', amem := H, writing := False\<rparr>) \<and>
    alog_pending s = map (ab_content (amem s)) (filled (buffersToWrite s)) @
      alog_pending (s\<lparr>newBuffer1 := n1, newBuffer2 := n2, buffersToWrite := w', amem := H, writing := False\<rparr>)"
proof -
  obtain us ws where u: "holds (abuffers s) us" "holds (buffersToWrite s) ws" "alb.bufs_ok (amem s) (live_bufs s us ws)"
      "length (logline s) = ASYNCLOG_BUFMAX" "lf_ok (log_out s)" "arbuffer_usable (nextBuffer s) \<or> us \<noteq> []" "phase_ok s ws"
    using inv unfolding alog_inv_def by blast
  let ?H = "amem s" and ?n1 = "newBuffer1 s" and ?n2 = "newBuffer2 s" and ?c = "currentBuffer s # alb.opt_buf (nextBuffer s) @ us"
  have ph: "ws \<noteq> []" "length ws < CAP" "\<not> arbuffer_usable ?n1" "arbuffer_usable ?n2 \<or> 2 \<le> length ws"
    using u(7) w by (auto simp: phase_ok_def)
  have "alb.bufs_ok ?H (?c @ alb.opt_buf ?n2 @ ws)"
    by (rule alb.bufs_ok_perm[OF u(3)]) (use ph(3) in \<open>simp add: live_bufs_def opt_buf_usable\<close>)
  then have live: "alb.bufs_ok ?H (?c @ alb.opt_buf ?n2 @ take 2 ws @ drop 2 ws)" by simp
  have okw: "alb.bufs_ok ?H ws" using u(3) by (auto simp: live_bufs_def alb.bufs_ok_Cons alb.bufs_ok_append)
  obtain w1 where w1: "(if al_cout (buffersToWrite s) > 2 then arraybufferalign_erase 2 (MAXBUFFER + 1) (buffersToWrite s, ?H)
        else Some (buffersToWrite s, ?H)) = Some (w1, ?H |` (- alb.owned (drop 2 ws)))" "holds w1 (take 2 ws)"
    using erase_two[OF u(2) _ okw] ph(2) by auto
  let ?H1 = "?H |` (- alb.owned (drop 2 ws))"
  have "take 2 ws \<noteq> []" "length (take 2 ws) \<le> 2" "arbuffer_usable ?n2 \<or> length (take 2 ws) = 2" using ph by auto
  from take_back_two[OF w1(2) this(1,2) ph(3) this(3)] obtain m1 w2 m2 w3 rest b1 where
    tb: "take_back ?n1 w1 = Some (m1, w2)" "take_back ?n2 w2 = Some (m2, w3)" "holds w3 rest" "m1 = b1\<lparr>ab_cur := 0\<rparr>"
      "if arbuffer_usable ?n2 then m2 = ?n2 \<and> mset (take 2 ws) = mset (b1 # rest)
       else \<exists>b2. m2 = b2\<lparr>ab_cur := 0\<rparr> \<and> mset (take 2 ws) = mset (b1 # b2 # rest)" by blast
  obtain k2 where k2: "m2 = k2 \<or> m2 = k2\<lparr>ab_cur := 0\<rparr>" "mset (alb.opt_buf ?n2 @ take 2 ws) = mset (b1 # k2 # rest)"
    using tb(5) by (auto simp: opt_buf_usable split: if_splits)
  have live2: "alb.bufs_ok ?H ((b1 # k2 # ?c @ rest) @ drop 2 ws)"
    by (rule alb.bufs_ok_perm[OF live swap_blocks[OF k2(2)]])
  then have live3: "alb.bufs_ok ?H1 ((b1 # k2 # ?c) @ rest)" using alb.bufs_ok_free(1)[OF live2] by simp
  have okr: "alb.bufs_ok ?H1 rest" using live3 by (auto simp: alb.bufs_ok_Cons alb.bufs_ok_append)
  obtain w4 where w4: "arraybufferalign_clear (w3, ?H1) = Some (w4, ?H1 |` (- alb.owned rest))" "holds w4 []"
    using clear_all[OF tb(3) okr] by blast
  let ?H2 = "?H1 |` (- alb.owned rest)"
  have l4: "alb.bufs_ok ?H2 (b1 # k2 # ?c)" "map (ab_content ?H2) (b1 # k2 # ?c) = map (ab_content ?H1) (b1 # k2 # ?c)"
    using alb.bufs_ok_free[OF live3] by auto
  have "map (ab_content ?H1) (b1 # k2 # ?c @ rest) = map (ab_content ?H) (b1 # k2 # ?c @ rest)"
    using alb.bufs_ok_free(2)[OF live2] .
  then have cont: "map (ab_content ?H2) us = map (ab_content ?H) us" "ab_content ?H2 (currentBuffer s) = ab_content ?H (currentBuffer s)"
    using l4(2) by auto
  have "alb.bufs_ok ?H2 (k2 # m1 # ?c)" using log_bufs_reset[OF l4(1)] tb(4) alb.bufs_ok_perm[of ?H2 "m1 # k2 # ?c" "k2 # m1 # ?c"] by simp
  then have l5: "alb.bufs_ok ?H2 (m2 # m1 # ?c)" using k2(1) log_bufs_reset by blast
  have us5: "arbuffer_usable m1" "arbuffer_usable m2" using l5 by (auto simp: alb.bufs_ok_Cons ab_ok_def arbuffer_usable_def)
  let ?s' = "s\<lparr>newBuffer1 := m1, newBuffer2 := m2, buffersToWrite := w4, amem := ?H2, writing := False\<rparr>"
  have run: "asynclog_refill ?n1 ?n2 (buffersToWrite s) ?H = Some (m1, m2, w4, ?H2)"
    using w1(1) tb(1,2) w4(1) by (simp add: asynclog_refill_def)
  have "alb.bufs_ok ?H2 (live_bufs ?s' us [])"
    by (rule alb.bufs_ok_perm[OF l5]) (use us5 in \<open>simp add: live_bufs_def opt_buf_usable\<close>)
  then have "alog_inv ?s'" unfolding alog_inv_def
    by (intro exI[of _ us] exI[of _ "[]"]) (use u w4(2) us5 in \<open>simp add: phase_ok_def\<close>)
  moreover have "alog_pending s = map (ab_content ?H) (filled (buffersToWrite s)) @ alog_pending ?s'"
    using holds_filled[OF u(1)] holds_filled[OF w4(2)] cont by (simp add: alog_pending_def del: map_eq_conv)
  ultimately show ?thesis using run by blast
qed

lemma write_ok:
  assumes inv: "alog_inv s" and w: "writing s" and envs: "\<forall>i. env_ok (envs i)"
  shows "\<exists>s'. asynclog_write e msg envs s = Some s' \<and> alog_inv s' \<and> alog_view s' = alog_view s \<and>
    \<not> writing s' \<and> abuffers s' = abuffers s"
proof -
  obtain ws where u: "holds (buffersToWrite s) ws" "alb.bufs_ok (amem s) ws" "lf_ok (log_out s)" "length ws < CAP"
    using inv w by (auto simp: alog_inv_def phase_ok_def live_bufs_def alb.bufs_ok_Cons alb.bufs_ok_append)
  obtain t where t: "foldM (write_buffer envs (al_bufs (buffersToWrite s)) (amem s)) [0..al_cout (buffersToWrite s) - 1] (log_out s) = Some t"
      "lf_ok t" "concat (lf_files t) = concat (lf_files (log_out s)) @ concat (map (ab_content (amem s)) ws)"
    using write_buffers_ok[OF u(3) envs, of ws "amem s" "length ws" "replicate (CAP - length ws) zero_arbuf"] u
      upto_upt[of 0 "length ws"] by (auto simp: holds_def alb.bufs_ok_def alb.entries_def)
  obtain n1 n2 w' H where r: "asynclog_refill (newBuffer1 s) (newBuffer2 s) (buffersToWrite s) (amem s) = Some (n1, n2, w', H)"
      "alog_inv (s\<lparr>newBuffer1 := n1, newBuffer2 := n2, buffersToWrite := w', amem := H, writing := False\<rparr>)"
      "alog_pending s = map (ab_content (amem s)) (filled (buffersToWrite s)) @
        alog_pending (s\<lparr>newBuffer1 := n1, newBuffer2 := n2, buffersToWrite := w', amem := H, writing := False\<rparr>)"
    using asynclog_refill_ok[OF inv w] by blast
  let ?s' = "s\<lparr>newBuffer1 := n1, newBuffer2 := n2, buffersToWrite := w', log_out := t, amem := H, writing := False\<rparr>"
  have "\<not> al_cout (buffersToWrite s) > MAXBUFFER" using u(1,4) by (simp add: holds_def MAXBUFFER_def CAP_def)
  moreover have "logfile_flush t = Some t" using t(2) by (simp add: logfile_flush_def lf_ok_def)
  ultimately have run: "asynclog_write e msg envs s = Some ?s'" using t(1) r(1) by (simp add: asynclog_write_def)
  have out: "s\<lparr>newBuffer1 := n1, newBuffer2 := n2, buffersToWrite := w', amem := H, writing := False\<rparr>\<lparr>log_out := t\<rparr> = ?s'" by simp
  have "alog_inv ?s'" using alog_inv_upd(2)[OF r(2) t(2)] by (simp only: out)
  moreover have "alog_view ?s' = alog_view s"
    using t(3) r(3) holds_filled[OF u(1)] by (simp add: alog_view_def alog_pending_def)
  ultimately show ?thesis using run by simp
qed

section \<open>The logger is a byte stream\<close>

datatype log_op = LAppend "u8 list" addr | LSwap | LWrite lf_env "u8 list" "nat \<Rightarrow> lf_env"

fun log_step :: "log_op \<Rightarrow> asynclog \<Rightarrow> asynclog option" where
  "log_step (LAppend l new) s = log_append new (Some l) s"
| "log_step LSwap s = asynclog_swap s"
| "log_step (LWrite e msg envs) s = asynclog_write e msg envs s"

text \<open>
  A line fits into a buffer, \<open>calloc\<close> returns a block that is not in use, no more buffers are filled between two swaps than
  the array takes, the two steps of the thread alternate, and writing to the file makes progress.
\<close>

fun log_allowed :: "log_op \<Rightarrow> asynclog \<Rightarrow> bool" where
  "log_allowed (LAppend l new) s \<longleftrightarrow> length l \<le> ASYNCLOG_BUFMAX - 2 \<and> new \<noteq> NULL \<and> amem s new = None \<and>
     (int (length l) < arbuffer_avail (currentBuffer s) \<or> al_cout (abuffers s) \<le> MAXBUFFER)"
| "log_allowed LSwap s \<longleftrightarrow> \<not> writing s \<and> al_cout (abuffers s) < MAXBUFFER"
| "log_allowed (LWrite e msg envs) s \<longleftrightarrow> writing s \<and> (\<forall>i. env_ok (envs i))"

fun log_inp :: "log_op \<Rightarrow> u8 list" where
  "log_inp (LAppend l new) = l"
| "log_inp _ = []"

interpretation alogs: ordered_stream log_step log_allowed log_inp alog_inv alog_view
proof unfold_locales
  fix s op
  assume inv: "alog_inv s" and al: "log_allowed op s"
  show "\<exists>s'. log_step op s = Some s' \<and> alog_inv s' \<and> alog_view s' = alog_view s @ log_inp op"
  proof (cases op)
    case (LAppend l new)
    then show ?thesis using log_append_ok[OF inv, of l new] al by auto
  next
    case LSwap
    then show ?thesis using swap_ok[OF inv] al by auto
  next
    case (LWrite e msg envs)
    then show ?thesis using write_ok[OF inv, of envs e msg] al by auto
  qed
qed

section \<open>Properties\<close>

text \<open>C4: no log line is lost, doubled or reordered, whatever the interleaving of appends with the swaps and the writing of the
  thread, as long as each line fits into a buffer, the array of buffers does not fill up between two swaps, allocations
  return blocks that are not in use, \<open>fwrite\<close> makes progress and the files can be opened: then no step faults, and the
  contents of the files followed by the contents of the buffers are what was there at first followed by the appended lines,
  in order.\<close>

theorem asynclog_keeps_lines:
  assumes "alog_inv s" and "all_allowed log_step log_allowed ops s"
  shows "\<exists>s'. foldM log_step ops s = Some s' \<and> alog_inv s' \<and> alog_view s' = alog_view s @ concat (map log_inp ops)"
  by (rule alogs.run_view[OF assms])

definition sample_env :: lf_env where
  "sample_env = \<lparr>env_fwrite = (\<lambda>_. 100), env_now = 1000, env_now_roll = 1000, env_fopen = True\<rparr>"

definition sample_log :: asynclog where
  "sample_log = asynclog_thread_start 24 32 sample_env (asynclog_init 8 16 Map.empty)"

lemmas sample_log_defs = sample_log_def asynclog_thread_start_def asynclog_init_def asynclog_def_init_def arbuffer_init_def
  arraybufferalign_init_def zero_aralign_def bcalloc_def MAXBUFFER_def

lemma sample_log_inv: "alog_inv sample_log"
  unfolding alog_inv_def
  by (intro exI[of _ "[]"])
    (simp add: sample_log_defs holds_def alb.entries_def CAP_def alb.bufs_ok_def live_bufs_def opt_buf_usable ab_ok_def arbuffer_usable_def
      phase_ok_def lf_ok_def logfile_init_def logfile_roll_def logfile_reopen_def zero_logfile_def sample_env_def)

text \<open>A line is appended while the thread writes.\<close>

definition sample_log_ops :: "log_op list" where
  "sample_log_ops = [LSwap, LAppend [72, 105, 10] 40, LWrite sample_env [] (\<lambda>_. sample_env), LSwap]"

lemma sample_log_allowed: "all_allowed log_step log_allowed sample_log_ops sample_log"
proof -
  have start: "\<not> writing sample_log" "al_cout (abuffers sample_log) = 0" "amem sample_log 40 = None"
    by (simp_all add: sample_log_defs)
  have env: "env_ok sample_env" by (simp add: env_ok_def sample_env_def)
  obtain s1 where s1: "asynclog_swap sample_log = Some s1" "alog_inv s1" "writing s1" "al_cout (abuffers s1) = 0"
      "amem s1 = amem sample_log"
    using swap_ok[OF sample_log_inv start(1)] start(2) by (auto simp: MAXBUFFER_def)
  have len: "length [72, 105, 10 :: u8] \<le> ASYNCLOG_BUFMAX - 2" by (simp add: ASYNCLOG_BUFMAX_def)
  obtain s2 where s2: "log_append 40 (Some [72, 105, 10]) s1 = Some s2" "alog_inv s2" "writing s2" "al_cout (abuffers s2) \<le> 1"
    using log_append_ok[OF s1(2) len, of 40] s1(3-5) start(3) by (auto simp: MAXBUFFER_def)
  obtain s3 where s3: "asynclog_write sample_env [] (\<lambda>_. sample_env) s2 = Some s3" "alog_inv s3" "\<not> writing s3" "abuffers s3 = abuffers s2"
    using write_ok[OF s2(2,3), of "\<lambda>_. sample_env" sample_env "[]"] env by blast
  have m: "al_cout (abuffers s3) < MAXBUFFER" "al_cout (abuffers s1) \<le> MAXBUFFER" "al_cout (abuffers sample_log) < MAXBUFFER"
    using s2(4) s3(4) s1(4) start(2) by (auto simp: MAXBUFFER_def)
  obtain s4 where s4: "asynclog_swap s3 = Some s4" using swap_ok[OF s3(2,3) m(1)] by blast
  show ?thesis using start s1 s2(1,3) s3(1,3) s4 len env m by (simp add: sample_log_ops_def)
qed

theorem asynclog_keeps_lines_witness:
  "\<exists>s'. foldM log_step sample_log_ops sample_log = Some s' \<and> alog_inv s' \<and>
     alog_view s' = alog_view sample_log @ concat (map log_inp sample_log_ops)"
  by (rule asynclog_keeps_lines[OF sample_log_inv sample_log_allowed])

lemma log_append_full:
  assumes inv: "alog_inv s" and full: "al_cout (abuffers s) = MAXBUFFER + 1" and len: "length l \<le> ASYNCLOG_BUFMAX - 2"
    and new: "new \<noteq> NULL" "amem s new = None" and tight: "\<not> int (length l) < arbuffer_avail (currentBuffer s)"
  shows "\<exists>s' X. log_append new (Some l) s = Some s' \<and> alog_inv s' \<and>
    alog_view s = X @ ab_content (amem s) (currentBuffer s) \<and> alog_view s' = X @ l"
proof -
  obtain us ws where u: "holds (abuffers s) us" "holds (buffersToWrite s) ws" "alb.bufs_ok (amem s) (live_bufs s us ws)"
      "length (logline s) = ASYNCLOG_BUFMAX" "lf_ok (log_out s)" "arbuffer_usable (nextBuffer s) \<or> us \<noteq> []" "phase_ok s ws"
    using inv unfolding alog_inv_def by blast
  let ?data = "vsnprintf_into (ASYNCLOG_BUFMAX - 1) l (logline s)"
  let ?s = "s\<lparr>logline := ?data\<rparr>" let ?s2 = "next_current new ?s"
  note ll = logline_take[OF len u(4)]
  have lle: "length l \<le> length ?data" using ll(2) len by simp
  have t: "arraybufferalign_add_tail (abuffers s) (currentBuffer s) = Some (abuffers s, currentBuffer s)"
    using u(1) full by (simp add: arraybufferalign_add_tail_def holds_def MAXBUFFER_CAP)
  have us: "us \<noteq> []" using u(1) full by (auto simp: holds_def MAXBUFFER_def)
  have ok1: "alb.bufs_ok (amem ?s) (tl (live_bufs ?s us ws))" using u(3) by (simp add: live_bufs_def alb.bufs_ok_Cons)
  have nw: "amem ?s new = None" using new by simp
  note n = next_current_ok[OF ok1 new(1) nw refl]
  have h: "holds (abuffers ?s2) us" "holds (buffersToWrite ?s2) ws" using n(5,6) u(1,2) by simp_all
  have fit: "ab_cur (currentBuffer ?s2) + int (length l) \<le> int ASYNCLOG_BUFMAX" using n(2) len by simp
  obtain c H where c: "arbuffer_append (currentBuffer ?s2) ?data (int (length l)) (amem ?s2) = Some (c, H)"
      "alb.bufs_ok H (live_bufs (?s2\<lparr>currentBuffer := c, amem := H\<rparr>) us ws)"
      "alog_pending (?s2\<lparr>currentBuffer := c, amem := H\<rparr>) = butlast (alog_pending ?s2) @ [last (alog_pending ?s2) @ l]"
    using append_to_current[OF n(1) h lle ll(1) fit] by blast
  have "alog_view (?s2\<lparr>currentBuffer := c, amem := H\<rparr>) = alog_view ?s2 @ l"
    using concat_pending_add[OF pending_add_last alog_pending_ne, of ?s2 l] c(3) by (simp add: alog_view_def)
  note c = c(1,2) this
  have i: "alog_inv (?s2\<lparr>currentBuffer := c, amem := H\<rparr>)"
    unfolding alog_inv_def
    by (rule exI[of _ us], rule exI[of _ ws]) (use u us h c(2) ll(2) n(7-11) in \<open>simp add: phase_ok_def\<close>)
  have id: "?s\<lparr>abuffers := abuffers s, currentBuffer := currentBuffer s\<rparr> = ?s" by simp
  have "log_append new (Some l) s = log_append_raw new ?data (int (length l)) ?s" by (simp add: log_append_def Let_def)
  also have "\<dots> = Some (?s2\<lparr>currentBuffer := c, amem := H\<rparr>)"
    using tight t c(1) by (simp add: log_append_raw_eq Let_def id)
  finally have run: "log_append new (Some l) s = Some (?s2\<lparr>currentBuffer := c, amem := H\<rparr>)" .
  let ?X = "concat (lf_files (log_out s)) @ concat (map (ab_content (amem s)) ws) @ concat (map (ab_content (amem s)) us)"
  have "alog_view s = ?X @ ab_content (amem s) (currentBuffer s)"
    using holds_filled[OF u(1)] holds_filled[OF u(2)] by (simp add: alog_view_def alog_pending_def)
  moreover have "alog_view ?s2 = ?X"
    using n(3,4,7) holds_filled[OF h(1)] holds_filled[OF h(2)] map_content_cong[of us ws "amem ?s2" "amem ?s"]
    by (simp add: alog_view_def alog_pending_def)
  ultimately show ?thesis using run i c(3) by (intro exI[of _ "?s2\<lparr>currentBuffer := c, amem := H\<rparr>"] exI[of _ ?X]) simp
qed

text \<open>C37: when clients fill the 24 entries of the array between two swaps and then the current buffer, the next line that does
  not fit makes \<open>_log_append\<close> overwrite the current buffer with another one, since \<open>arraybufferalign_add_tail\<close> returns
  silently on a full array: all lines of the current buffer are lost, and only they.\<close>

theorem asynclog_full_drops:
  assumes "alog_inv s" and "al_cout (abuffers s) = MAXBUFFER + 1" and "length l \<le> ASYNCLOG_BUFMAX - 2"
    and "new \<noteq> NULL" and "amem s new = None" and "\<not> int (length l) < arbuffer_avail (currentBuffer s)"
  shows "\<exists>s' X. log_append new (Some l) s = Some s' \<and> alog_inv s' \<and>
     alog_view s = X @ ab_content (amem s) (currentBuffer s) \<and> alog_view s' = X @ l"
  by (rule log_append_full[OF assms])

definition sample_full_log :: asynclog where
  "sample_full_log = sample_log
     \<lparr>currentBuffer := \<lparr>ab_buffer = 8, ab_cur = int ASYNCLOG_BUFMAX, ab_len = int ASYNCLOG_BUFMAX\<rparr>,
      nextBuffer := zero_arbuf,
      abuffers := \<lparr>al_bufs = map (\<lambda>i. \<lparr>ab_buffer = word_of_nat i, ab_cur = 0, ab_len = int ASYNCLOG_BUFMAX\<rparr>) [100..<124],
        al_cout = 24, al_max = 24\<rparr>,
      amem := (\<lambda>p. if p \<noteq> 0 \<and> p < 200 then Some (replicate ASYNCLOG_BUFMAX 1) else None)\<rparr>"

lemma sample_full_inv: "alog_inv sample_full_log"
  unfolding alog_inv_def
proof (rule exI[of _ "map (\<lambda>i. \<lparr>ab_buffer = word_of_nat i, ab_cur = 0, ab_len = int ASYNCLOG_BUFMAX\<rparr>) [100..<124]"],
    rule exI[of _ "[]"], intro conjI)
  let ?us = "map (\<lambda>i. \<lparr>ab_buffer = word_of_nat i, ab_cur = 0, ab_len = int ASYNCLOG_BUFMAX\<rparr>) [100..<124]"
  show "alb.bufs_ok (amem sample_full_log) (live_bufs sample_full_log ?us [])"
    unfolding alb.bufs_ok_def
  proof
    have "distinct (map ab_buffer (live_bufs sample_full_log ?us [])) = distinct ([8, 24, 32 :: addr] @ map word_of_nat [100..<124])"
      by (simp add: sample_full_log_def sample_log_defs live_bufs_def opt_buf_usable zero_arbuf_def arbuffer_usable_def o_def)
    also have "\<dots> = True" by code_simp
    finally show "distinct (map ab_buffer (live_bufs sample_full_log ?us []))" by simp
    have "list_all (\<lambda>p. p \<noteq> 0 \<and> p < (200 :: addr)) ([8, 24, 32] @ map word_of_nat [100..<124])" by code_simp
    then show "\<forall>b \<in> set (live_bufs sample_full_log ?us []). ab_ok (amem sample_full_log) b"
      by (auto simp: sample_full_log_def sample_log_defs live_bufs_def opt_buf_usable zero_arbuf_def arbuffer_usable_def ab_ok_def list_all_iff)
  qed
qed (simp_all add: sample_full_log_def holds_def alb.entries_def CAP_def phase_ok_def sample_log_defs
      arbuffer_usable_def lf_ok_def logfile_init_def logfile_roll_def logfile_reopen_def zero_logfile_def sample_env_def)

theorem asynclog_full_drops_witness:
  "\<exists>s' X. log_append 300 (Some [72, 105]) sample_full_log = Some s' \<and> alog_inv s' \<and>
     alog_view sample_full_log = X @ ab_content (amem sample_full_log) (currentBuffer sample_full_log) \<and>
     alog_view s' = X @ [72, 105]"
  by (rule asynclog_full_drops[OF sample_full_inv])
    (simp_all add: sample_full_log_def MAXBUFFER_def arbuffer_avail_def arbuffer_end_def ASYNCLOG_BUFMAX_def)

end
