(* ===== verification/AsyncProc.thy ===== *)
theory AsyncProc
  imports FlexBuffer BufferArray
begin

text \<open>
  The buffering of the asynchronous tasks, \<open>demo/C/async_task/demo/common/async_proc.c\<close>: clients append data to a flex
  buffer under a mutex, and a thread takes the filled buffers over and passes the content of each to a callback.  What runs
  under the mutex is one step; a round of the thread is two, taking over and processing, and clients may append between
  them.  The locals of the thread are part of the state.  The callback \<open>proc\<close> gets the memory from the first readable byte on
  and the number of readable bytes, and changes the client's data.  The results of the allocations are arguments.
\<close>

section \<open>State\<close>

text \<open>A pointer to a buffer structure; \<open>flex_buffer_recalloc\<close> frees the structure when it cannot get memory.\<close>

datatype fbptr = FNull | FFreed | FBuf flex_buffer

definition fb_deref :: "fbptr \<Rightarrow> flex_buffer option" where
  "fb_deref p = (case p of FBuf b \<Rightarrow> Some b | _ \<Rightarrow> None)"

definition fb_ptr :: "fbptr \<Rightarrow> flex_buffer option \<Rightarrow> fbptr" where
  "fb_ptr none b = (case b of None \<Rightarrow> none | Some b \<Rightarrow> FBuf b)"

record async_stream =
  as_data :: "u8 list list"
  as_len :: "int list"
  as_cout :: int

record 'w asyncProc =
  ap_running :: bool
  ap_flushInterval :: int
  ap_current :: fbptr
  ap_next :: fbptr
  ap_buffers :: alignflexbuffer
  ap_data :: 'w
  ap_new1 :: fbptr
  ap_new2 :: fbptr
  ap_toWrite :: alignflexbuffer
  ap_mem :: blocks
  ap_writing :: bool

definition ASYNCPROC_BUFMAX :: int where "ASYNCPROC_BUFMAX = 1024 * 1024 * 4"
definition ASYNCPROC_MAXBUFFER :: int where "ASYNCPROC_MAXBUFFER = 23"
definition ASYNCPROC_FLUSHTIME :: int where "ASYNCPROC_FLUSHTIME = 2"
definition ASYNCPROC_MAXSTREAM :: nat where "ASYNCPROC_MAXSTREAM = 4"

type_synonym 'w proc_cb = "u8 list \<Rightarrow> int \<Rightarrow> 'w \<Rightarrow> 'w option"

section \<open>Appending\<close>

text \<open>The full buffer goes to the array and another one takes its place.\<close>

definition hand_over :: "addr \<Rightarrow> 'w asyncProc \<Rightarrow> 'w asyncProc option" where
  "hand_over new s = do {
     c \<leftarrow> fb_deref (ap_current s);
     (t, c, H) \<leftarrow> alignflexbuffer_add_tail (ap_buffers s) c (ap_mem s);
     let s = s\<lparr>ap_buffers := t, ap_current := FBuf c, ap_mem := H\<rparr>;
     n \<leftarrow> fb_deref (ap_next s);
     if flex_buffer_usable n
     then do {
       (c, n, H) \<leftarrow> flex_buffer_move False c n H;
       Some (s\<lparr>ap_current := FBuf c, ap_next := FBuf n, ap_mem := H\<rparr>) }
     else do {
       (r, co, H) \<leftarrow> flex_buffer_recalloc new ASYNCPROC_BUFMAX (Some c) H;
       Some (s\<lparr>ap_current := fb_ptr FFreed co, ap_mem := H\<rparr>) } }"

definition hand_over_if_full :: "addr \<Rightarrow> 'w asyncProc \<Rightarrow> 'w asyncProc option" where
  "hand_over_if_full new s = do {
     c \<leftarrow> fb_deref (ap_current s);
     if readableBytes c \<ge> ASYNCPROC_BUFMAX then hand_over new s else Some s }"

text \<open>\<open>alloc i\<close> is the block that \<open>realloc\<close> returns when the entry \<open>i\<close> needs more space, and what is in it.\<close>

definition append_entry :: "(nat \<Rightarrow> addr \<times> (nat \<Rightarrow> u8)) \<Rightarrow> async_stream \<Rightarrow> int \<Rightarrow> fb_state \<Rightarrow> fb_state option" where
  "append_entry alloc st i s =
     (if \<not> (0 \<le> i \<and> nat i < length (as_data st) \<and> nat i < length (as_len st)) then None
      else case alloc (nat i) of (new, junk) \<Rightarrow>
        map_option snd (flex_append new junk (as_data st ! nat i) (as_len st ! nat i) s))"

definition async_proc_append_stream ::
  "(nat \<Rightarrow> addr \<times> (nat \<Rightarrow> u8)) \<Rightarrow> addr \<Rightarrow> async_stream \<Rightarrow> 'w asyncProc \<Rightarrow> 'w asyncProc option" where
  "async_proc_append_stream alloc new st s = do {
     c \<leftarrow> fb_deref (ap_current s);
     (c, H) \<leftarrow> foldM (append_entry alloc st) [0..as_cout st - 1] (c, ap_mem s);
     hand_over_if_full new (s\<lparr>ap_current := FBuf c, ap_mem := H\<rparr>) }"

definition async_proc_append :: "addr \<times> (nat \<Rightarrow> u8) \<Rightarrow> addr \<Rightarrow> u8 list \<Rightarrow> int \<Rightarrow> 'w asyncProc \<Rightarrow> 'w asyncProc option" where
  "async_proc_append alloc new data len s = do {
     c \<leftarrow> fb_deref (ap_current s);
     (n, c, H) \<leftarrow> (case alloc of (a, junk) \<Rightarrow> flex_append a junk data len (c, ap_mem s));
     hand_over_if_full new (s\<lparr>ap_current := FBuf c, ap_mem := H\<rparr>) }"

section \<open>The thread\<close>

text \<open>The part of a round under the mutex, after waiting.\<close>

definition async_proc_swap :: "'w asyncProc \<Rightarrow> 'w asyncProc option" where
  "async_proc_swap s = do {
     c \<leftarrow> fb_deref (ap_current s);
     (t, c, H) \<leftarrow> alignflexbuffer_add_tail (ap_buffers s) c (ap_mem s);
     (w, t, H) \<leftarrow> alignflexbuffer_move (ap_toWrite s) t H;
     n1 \<leftarrow> fb_deref (ap_new1 s);
     (c, n1, H) \<leftarrow> flex_buffer_move False c n1 H;
     n \<leftarrow> fb_deref (ap_next s);
     let s = s\<lparr>ap_buffers := t, ap_toWrite := w, ap_current := FBuf c, ap_new1 := FBuf n1, ap_writing := True\<rparr>;
     if \<not> flex_buffer_usable n
     then do {
       n2 \<leftarrow> fb_deref (ap_new2 s);
       (n, n2, H) \<leftarrow> flex_buffer_move False n n2 H;
       Some (s\<lparr>ap_next := FBuf n, ap_new2 := FBuf n2, ap_mem := H\<rparr>) }
     else Some (s\<lparr>ap_mem := H\<rparr>) }"

definition proc_buffer :: "'w proc_cb \<Rightarrow> flex_buffer list \<Rightarrow> blocks \<Rightarrow> int \<Rightarrow> 'w \<Rightarrow> 'w option" where
  "proc_buffer proc bufs H i w =
     (if \<not> (0 \<le> i \<and> nat i < length bufs) then None
      else do {
        let cur = bufs ! nat i;
        mem \<leftarrow> bread (fb_buffer cur) (flex_peek cur) (fb_size cur - flex_peek cur) H;
        proc mem (readableBytes cur) w })"

text \<open>An emptied buffer comes back from the end of the array.\<close>

definition refill :: "fbptr \<Rightarrow> alignflexbuffer \<Rightarrow> blocks \<Rightarrow> (fbptr \<times> alignflexbuffer \<times> blocks) option" where
  "refill p t H = do {
     b \<leftarrow> fb_deref p;
     if flex_buffer_usable b then Some (p, t, H)
     else do {
       let i = fb_cout t - 1;
       if \<not> (0 \<le> i \<and> nat i < length (fb_buffers t)) then None
       else do {
         (b, src, H) \<leftarrow> flex_buffer_move False b (fb_buffers t ! nat i) H;
         (b, H) \<leftarrow> flex_retrieveAll (b, H);
         Some (FBuf b, t\<lparr>fb_buffers := (fb_buffers t)[nat i := src], fb_cout := i\<rparr>, H) } } }"

definition async_proc_process :: "'w proc_cb \<Rightarrow> 'w asyncProc \<Rightarrow> 'w asyncProc option" where
  "async_proc_process proc s = do {
     (t, H) \<leftarrow> (if fb_cout (ap_toWrite s) > ASYNCPROC_MAXBUFFER
       then alignflexbuffer_erase 2 (ASYNCPROC_MAXBUFFER + 1) (ap_toWrite s, ap_mem s)
       else Some (ap_toWrite s, ap_mem s));
     w \<leftarrow> foldM (proc_buffer proc (fb_buffers t) H) [0..fb_cout t - 1] (ap_data s);
     (t, H) \<leftarrow> (if fb_cout t > 2 then alignflexbuffer_erase 2 (ASYNCPROC_MAXBUFFER + 1) (t, H) else Some (t, H));
     (n1, t, H) \<leftarrow> refill (ap_new1 s) t H;
     (n2, t, H) \<leftarrow> refill (ap_new2 s) t H;
     (t, H) \<leftarrow> alignflexbuffer_clear (t, H);
     Some (s\<lparr>ap_new1 := n1, ap_new2 := n2, ap_toWrite := t, ap_mem := H, ap_data := w, ap_writing := False\<rparr>) }"

section \<open>Starting and stopping\<close>

definition zero_align :: alignflexbuffer where
  "zero_align = \<lparr>fb_buffers = [], fb_cout = 0, fb_max = 0\<rparr>"

text \<open>A buffer of \<open>ASYNCPROC_BUFMAX\<close> bytes: whether the structure can be allocated, and its block.\<close>

definition new_buffer :: "bool \<times> addr \<Rightarrow> blocks \<Rightarrow> fbptr \<times> blocks" where
  "new_buffer a H = (case flex_buffer_init (fst a) (snd a) ASYNCPROC_BUFMAX H of (b, H) \<Rightarrow> (fb_ptr FNull b, H))"

text \<open>\<open>pok\<close> tells whether the state itself can be allocated.\<close>

definition async_proc_def_init ::
  "bool \<Rightarrow> bool \<times> addr \<Rightarrow> bool \<times> addr \<Rightarrow> 'w \<Rightarrow> int \<Rightarrow> blocks \<Rightarrow> 'w asyncProc option" where
  "async_proc_def_init pok a1 a2 data flush H =
     (if pok
      then let (c, H) = new_buffer a1 H;
               (n, H) = new_buffer a2 H
           in Some \<lparr>ap_running = False, ap_flushInterval = flush, ap_current = c, ap_next = n,
               ap_buffers = alignflexbuffer_init (ASYNCPROC_MAXBUFFER + 1) zero_align, ap_data = data,
               ap_new1 = FNull, ap_new2 = FNull, ap_toWrite = zero_align, ap_mem = H, ap_writing = False\<rparr>
      else None)"

definition async_proc_init :: "bool \<Rightarrow> bool \<times> addr \<Rightarrow> bool \<times> addr \<Rightarrow> 'w \<Rightarrow> blocks \<Rightarrow> 'w asyncProc option" where
  "async_proc_init pok a1 a2 data H = async_proc_def_init pok a1 a2 data ASYNCPROC_FLUSHTIME H"

text \<open>What the thread does before its loop, and after it.\<close>

definition thread_begin :: "bool \<times> addr \<Rightarrow> bool \<times> addr \<Rightarrow> 'w asyncProc \<Rightarrow> 'w asyncProc" where
  "thread_begin a3 a4 s =
     (let (n1, H) = new_buffer a3 (ap_mem s);
          (n2, H) = new_buffer a4 H
      in s\<lparr>ap_new1 := n1, ap_new2 := n2, ap_toWrite := alignflexbuffer_init (ASYNCPROC_MAXBUFFER + 1) zero_align,
           ap_mem := H\<rparr>)"

definition free_ptr :: "fbptr \<Rightarrow> blocks \<Rightarrow> blocks option" where
  "free_ptr p H = (case p of FNull \<Rightarrow> flex_buffer_free None H | FFreed \<Rightarrow> None | FBuf b \<Rightarrow> flex_buffer_free (Some b) H)"

definition thread_end :: "'w asyncProc \<Rightarrow> 'w asyncProc option" where
  "thread_end s = do {
     (t, H) \<leftarrow> alignflexbuffer_clear (ap_toWrite s, ap_mem s);
     H \<leftarrow> free_ptr (ap_new1 s) H;
     H \<leftarrow> free_ptr (ap_new2 s) H;
     Some (s\<lparr>ap_toWrite := t, ap_new1 := FFreed, ap_new2 := FFreed, ap_mem := H\<rparr>) }"

definition async_proc_start :: "bool \<times> addr \<Rightarrow> bool \<times> addr \<Rightarrow> 'w asyncProc \<Rightarrow> 'w asyncProc" where
  "async_proc_start a3 a4 s = thread_begin a3 a4 (s\<lparr>ap_running := True\<rparr>)"

text \<open>
  \<open>async_proc_stop\<close> waits for the thread.  One that is processing when \<open>running_\<close> is cleared finishes the round and leaves
  the loop, since the test of \<open>running_\<close> follows the processing at once; one that waits is woken up and makes one more
  round.
\<close>

definition async_proc_stop :: "'w proc_cb \<Rightarrow> 'w asyncProc \<Rightarrow> 'w asyncProc option" where
  "async_proc_stop proc s = do {
     let s = s\<lparr>ap_running := False\<rparr>;
     s \<leftarrow> (if ap_writing s then Some s else async_proc_swap s);
     s \<leftarrow> async_proc_process proc s;
     thread_end s }"

definition async_proc_free :: "'w asyncProc \<Rightarrow> blocks option" where
  "async_proc_free s = do {
     H \<leftarrow> free_ptr (ap_current s) (ap_mem s);
     H \<leftarrow> free_ptr (ap_next s) H;
     (t, H) \<leftarrow> alignflexbuffer_free (ap_buffers s, H);
     Some H }"

section \<open>Buffers and arrays of them\<close>

lemma fb_ptr_simps [simp]: "fb_deref (FBuf b) = Some b" "fb_deref FNull = None" "fb_deref FFreed = None"
  "fb_ptr p (Some b) = FBuf b" "fb_ptr p None = p"
  by (simp_all add: fb_deref_def fb_ptr_def)

abbreviation fok :: "blocks \<Rightarrow> flex_buffer \<Rightarrow> bool" where
  "fok H b \<equiv> fb_inv (b, H)"

abbreviation fcontent :: "blocks \<Rightarrow> flex_buffer \<Rightarrow> u8 list" where
  "fcontent H b \<equiv> fb_content (b, H)"

lemma clean_eq: "flex_buffer_clean False (b, H) = Some (zero_flex_buffer, H)"
  by (simp add: flex_buffer_clean_def zero_flex_buffer_def)

lemma move_eq: "flex_buffer_move False dst src H = Some (src, zero_flex_buffer, H)"
  by (simp add: flex_buffer_move_def clean_eq)

text \<open>The flex buffers own their blocks.\<close>

interpretation flb: owned_buffers fb_buffer zero_flex_buffer fok fcontent "\<lambda>b H. flex_buffer_clean True (b, H)"
  by unfold_locales
    (auto simp: fb_inv_def fb_content_def zero_flex_buffer_def flex_buffer_clean_def bfree_def)

definition PCAP :: nat where "PCAP = 24"

lemma MAXBUFFER_PCAP: "ASYNCPROC_MAXBUFFER + 1 = int PCAP"
  by (simp add: ASYNCPROC_MAXBUFFER_def PCAP_def)

definition fholds :: "alignflexbuffer \<Rightarrow> flex_buffer list \<Rightarrow> bool" where
  "fholds t us \<longleftrightarrow> fb_buffers t = flb.entries PCAP us \<and> length us \<le> PCAP \<and>
     fb_cout t = int (length us) \<and> fb_max t = int PCAP"

definition fb_filled :: "alignflexbuffer \<Rightarrow> flex_buffer list" where
  "fb_filled t = take (nat (fb_cout t)) (fb_buffers t)"

lemma fholds_filled: "fholds t us \<Longrightarrow> fb_filled t = us"
  by (simp add: fholds_def fb_filled_def flb.entries_def)

lemma fb_add_tail:
  assumes "fholds t us" "length us < PCAP"
  shows "\<exists>t'. alignflexbuffer_add_tail t b H = Some (t', zero_flex_buffer, H) \<and> fholds t' (us @ [b])"
  using assms
  by (auto simp: alignflexbuffer_add_tail_def fholds_def clean_eq flb.entries_add flb.length_entries)

lemma fb_move_all:
  assumes "fholds dst []" "fholds src us"
  shows "\<exists>dst' src'. alignflexbuffer_move dst src H = Some (dst', src', H) \<and> fholds dst' us \<and> fholds src' []"
  using assms
  by (simp add: alignflexbuffer_move_def alignflexbuffer_erase_def fholds_def Let_def flb.length_entries flb.entries_move)
    (simp add: flb.entries_Nil)

lemma clean_slot_entry: "clean_slot i (t\<lparr>fb_buffers := fst s\<rparr>, snd s) =
    map_option (\<lambda>s. (t\<lparr>fb_buffers := fst s\<rparr>, snd s)) (flb.clean_entry i s)"
  by (cases s; cases "flex_buffer_clean True (fst s ! nat i, snd s)") (auto simp: clean_slot_def flb.clean_entry_def)

lemma fb_erase:
  assumes t: "fholds t us" and i: "i \<le> length us" "length us \<le> j" "j \<le> PCAP" and ok: "flb.bufs_ok H us"
  shows "\<exists>t'. alignflexbuffer_erase (int i) (int j) (t, H) = Some (t', H |` (- flb.owned (drop i us))) \<and> fholds t' (take i us)"
proof -
  have "t\<lparr>fb_buffers := flb.entries PCAP us\<rparr> = t" using t by (simp add: fholds_def)
  then have "foldM clean_slot [int i..int j - 1] (t, H) =
      Some (t\<lparr>fb_buffers := flb.entries PCAP (take i us)\<rparr>, H |` (- flb.owned (drop i us)))"
    using foldM_lift[of clean_slot "\<lambda>s. (t\<lparr>fb_buffers := fst s\<rparr>, snd s)" flb.clean_entry _ "(flb.entries PCAP us, H)"]
      clean_slot_entry flb.clean_tail[OF ok i] by simp
  then show ?thesis using i t by (simp add: alignflexbuffer_erase_def fholds_def)
qed

lemma fb_erase_two:
  assumes w: "fholds t us" and ok: "flb.bufs_ok H us"
  shows "\<exists>t'. (if fb_cout t > 2 then alignflexbuffer_erase 2 (ASYNCPROC_MAXBUFFER + 1) (t, H) else Some (t, H)) =
    Some (t', H |` (- flb.owned (drop 2 us))) \<and> fholds t' (take 2 us)"
proof (cases "length us > 2")
  case True
  then show ?thesis using fb_erase[OF w _ _ _ ok, of 2 PCAP] w by (simp add: MAXBUFFER_PCAP fholds_def)
next
  case False
  then have "fb_cout t \<le> 2" using w by (simp add: fholds_def)
  moreover have "H |` (- flb.owned (drop 2 us)) = H" using False by (simp add: flb.owned_def restrict_map_def)
  ultimately show ?thesis using False w by simp
qed

lemma fb_clear_all:
  assumes w: "fholds t us" and ok: "flb.bufs_ok H us"
  shows "\<exists>t'. alignflexbuffer_clear (t, H) = Some (t', H |` (- flb.owned us)) \<and> fholds t' []"
  using fb_erase[OF w _ _ _ ok, of 0 "length us"] w by (simp add: alignflexbuffer_clear_def fholds_def)

lemma retrieveAll_ok:
  assumes "fb_inv (b, H)"
  shows "\<exists>b' H'. flex_retrieveAll (b, H) = Some (b', H') \<and> fb_inv (b', H') \<and> fb_content (b', H') = [] \<and>
    fb_buffer b' = fb_buffer b \<and> (\<forall>q. q \<noteq> fb_buffer b \<longrightarrow> H' q = H q)"
proof (rule fb_invD[OF assms])
  fix bs
  assume bs: "H (fb_buffer b) = Some bs" "int (length bs) = fb_size b" "fb_buffer b \<noteq> NULL" "0 \<le> readerIndex b"
    "readerIndex b \<le> writerIndex b" "writerIndex b \<le> fb_size b" "fb_size b < 2 ^ 31"
    "fb_content (b, H) = take (nat (readableBytes b)) (drop (nat (readerIndex b)) bs)"
  have z: "bzero (fb_buffer b) 0 (fb_size b) H = Some (H(fb_buffer b \<mapsto> replicate (length bs) 0))"
    using bzero_ok[of H "fb_buffer b" bs 0 "fb_size b"] bs(1,2) nat_int[of "length bs"] by simp
  show ?thesis using bs by (auto simp: flex_retrieveAll_def z fb_inv_def fb_content_def readableBytes_def)
qed

lemma refill_used: "flex_buffer_usable b \<Longrightarrow> refill (FBuf b) t H = Some (FBuf b, t, H)"
  by (simp add: refill_def)

lemma refill_ok:
  assumes t: "fholds t (us @ [x])" and b: "\<not> flex_buffer_usable b" and ok: "flb.bufs_ok H (x # bs)"
  shows "\<exists>x' t' H'. refill (FBuf b) t H = Some (FBuf x', t', H') \<and> fholds t' us \<and> flb.bufs_ok H' (x' # bs) \<and>
    fcontent H' x' = [] \<and> map (fcontent H') bs = map (fcontent H) bs"
proof -
  have le: "length us < PCAP" using t by (simp add: fholds_def)
  have x: "fok H x" "fb_buffer x \<notin> fb_buffer ` set bs" "flb.bufs_ok H bs" using ok by (auto simp: flb.bufs_ok_Cons)
  obtain x' H' where r: "flex_retrieveAll (x, H) = Some (x', H')" "fok H' x'" "fcontent H' x' = []"
      "fb_buffer x' = fb_buffer x" "\<forall>q. q \<noteq> fb_buffer x \<longrightarrow> H' q = H q"
    using retrieveAll_ok[OF x(1)] by blast
  have eq: "H' (fb_buffer y) = H (fb_buffer y)" if "y \<in> set bs" for y using r(5) x(2) that by (metis image_eqI)
  have "refill (FBuf b) t H = Some (FBuf x', t\<lparr>fb_buffers := flb.entries PCAP us, fb_cout := int (length us)\<rparr>, H')"
    using t b le r(1) flb.entries_last[OF le, of x]
    by (simp add: refill_def fholds_def move_eq flb.length_entries Let_def)
  moreover have "fholds (t\<lparr>fb_buffers := flb.entries PCAP us, fb_cout := int (length us)\<rparr>) us"
    using t by (simp add: fholds_def)
  moreover have "flb.bufs_ok H' (x' # bs)"
    using flb.bufs_ok_cong(1)[OF x(3) eq] r x(2) by (simp add: flb.bufs_ok_Cons)
  moreover have "map (fcontent H') bs = map (fcontent H) bs" by (rule flb.bufs_ok_cong(2)[OF x(3) eq])
  ultimately show ?thesis using r(3) by blast
qed

end
