(* ===== verification/AsyncProcInv.thy ===== *)
theory AsyncProcInv
  imports AsyncProc
begin

text \<open>
  The invariant of the buffering of the asynchronous tasks, and the locale \<open>proc_client\<close> that says what the buffering relies on
  in its callback.  The interface is about whole units: a client appends whole units only, so every buffer holds whole units,
  and the callback delivers those of a buffer.  In the locale the buffering is an ordered stream of units.
\<close>

section \<open>The representation\<close>

definition ap_phase :: "bool \<Rightarrow> flex_buffer \<Rightarrow> flex_buffer \<Rightarrow> flex_buffer list \<Rightarrow> bool" where
  "ap_phase wr n1 n2 ws \<longleftrightarrow>
     (if wr
      then ws \<noteq> [] \<and> length ws < PCAP \<and> \<not> flex_buffer_usable n1 \<and> (flex_buffer_usable n2 \<or> 2 \<le> length ws)
      else ws = [] \<and> flex_buffer_usable n1 \<and> flex_buffer_usable n2)"

definition ap_live :: "flex_buffer \<Rightarrow> flex_buffer \<Rightarrow> flex_buffer \<Rightarrow> flex_buffer \<Rightarrow> flex_buffer list \<Rightarrow> flex_buffer list \<Rightarrow> flex_buffer list" where
  "ap_live c n n1 n2 us ws = c # flb.opt_buf n @ flb.opt_buf n1 @ flb.opt_buf n2 @ us @ ws"

text \<open>
  \<open>c\<close>, \<open>n\<close>, \<open>n1\<close> and \<open>n2\<close> are the four buffer structures, \<open>us\<close> the filled buffers, \<open>ws\<close> those that the thread has taken over.
\<close>

definition ap_rep ::
  "'w asyncProc \<Rightarrow> flex_buffer \<Rightarrow> flex_buffer \<Rightarrow> flex_buffer \<Rightarrow> flex_buffer \<Rightarrow> flex_buffer list \<Rightarrow> flex_buffer list \<Rightarrow> bool" where
  "ap_rep s c n n1 n2 us ws \<longleftrightarrow>
     ap_current s = FBuf c \<and> ap_next s = FBuf n \<and> ap_new1 s = FBuf n1 \<and> ap_new2 s = FBuf n2 \<and>
     fholds (ap_buffers s) us \<and> fholds (ap_toWrite s) ws \<and>
     flb.bufs_ok (ap_mem s) (ap_live c n n1 n2 us ws) \<and>
     (\<forall>b \<in> set (flb.opt_buf n @ flb.opt_buf n1 @ flb.opt_buf n2). fcontent (ap_mem s) b = []) \<and>
     readableBytes c < ASYNCPROC_BUFMAX \<and> (flex_buffer_usable n \<or> us \<noteq> []) \<and> ap_phase (ap_writing s) n1 n2 ws"

lemma opt_usable: "flb.opt_buf b = (if flex_buffer_usable b then [b] else [])"
  by (simp add: flb.opt_buf_def flex_buffer_usable_def)

lemma zero_not_usable [simp]: "\<not> flex_buffer_usable zero_flex_buffer"
  by (simp add: flex_buffer_usable_def zero_flex_buffer_def)

lemma fok_usable: "fok H b \<Longrightarrow> flex_buffer_usable b"
  by (simp add: fb_inv_def flex_buffer_usable_def)

lemma empty_readable: "fok H b \<Longrightarrow> fcontent H b = [] \<Longrightarrow> readableBytes b = 0"
  using content_length[of b H] by simp

section \<open>Appending a stream\<close>

definition stream_ok :: "async_stream \<Rightarrow> bool" where
  "stream_ok st \<longleftrightarrow> 0 \<le> as_cout st \<and> nat (as_cout st) \<le> length (as_data st) \<and> nat (as_cout st) \<le> length (as_len st) \<and>
     (\<forall>i < nat (as_cout st). 0 \<le> as_len st ! i \<and> as_len st ! i \<le> int (length (as_data st ! i)))"

definition stream_part :: "async_stream \<Rightarrow> nat \<Rightarrow> u8 list" where
  "stream_part st i = take (nat (as_len st ! i)) (as_data st ! i)"

definition stream_bytes :: "async_stream \<Rightarrow> u8 list" where
  "stream_bytes st = concat (map (stream_part st) [0..<nat (as_cout st)])"

definition entry_allowed :: "(nat \<Rightarrow> addr \<times> (nat \<Rightarrow> u8)) \<Rightarrow> int \<Rightarrow> fb_state \<Rightarrow> bool" where
  "entry_allowed alloc i s = fresh_block (fst (alloc (nat i))) s"

lemma append_entry_ok:
  assumes st: "stream_ok st" and i: "i < nat (as_cout st)" and ok: "flb.bufs_ok H (c # bs)"
    and al: "entry_allowed alloc (int i) (c, H)" and len: "readableBytes c + int (length (stream_part st i)) < 2 ^ 31"
  shows "\<exists>c' H'. append_entry alloc st (int i) (c, H) = Some (c', H') \<and> flb.bufs_ok H' (c' # bs) \<and>
    fcontent H' c' = fcontent H c @ stream_part st i \<and> map (fcontent H') bs = map (fcontent H) bs \<and>
    readableBytes c' = readableBytes c + int (length (stream_part st i)) \<and>
    (\<forall>q. q \<noteq> fb_buffer c \<longrightarrow> q \<noteq> fst (alloc i) \<longrightarrow> H' q = H q)"
proof -
  have i': "i < nat (as_cout st)" "0 \<le> as_len st ! i" "as_len st ! i \<le> int (length (as_data st ! i))"
      "i < length (as_data st)" "i < length (as_len st)"
    using st i by (auto simp: stream_ok_def)
  have c: "fok H c" "fb_buffer c \<notin> fb_buffer ` set bs" "flb.bufs_ok H bs" using ok by (auto simp: flb.bufs_ok_Cons)
  obtain new junk where a: "alloc i = (new, junk)" by (cases "alloc i")
  have fr: "fresh_block new (c, H)" using al a by (simp add: entry_allowed_def)
  have lp: "int (length (stream_part st i)) = as_len st ! i" using i' by (simp add: stream_part_def)
  then have lt: "readableBytes c + as_len st ! i < 2 ^ 31" using len by simp
  obtain c1 H1 where f: "flex_append new junk (as_data st ! i) (as_len st ! i) (c, H) = Some (as_len st ! i, c1, H1)"
      "fok H1 c1" "fcontent H1 c1 = fcontent H c @ stream_part st i"
    using append_ok[OF c(1) fr i'(2,3) lt, of junk] by (auto simp: stream_part_def)
  have e: "append_entry alloc st (int i) (c, H) = Some (c1, H1)" using f(1) a i' by (simp add: append_entry_def)
  note frame = append_frame[OF f(1)]
  have nb: "fb_buffer b \<noteq> new \<and> fb_buffer b \<noteq> fb_buffer c" if "b \<in> set bs" for b
  proof -
    have "fb_buffer b \<in> dom H" using flb.bufs_ok_null[OF c(3) that] by simp
    moreover have "fb_buffer b \<noteq> fb_buffer c" using c(2) that by (metis image_eqI)
    ultimately show ?thesis using fr by (auto simp: fresh_block_def)
  qed
  have eq: "H1 (fb_buffer b) = H (fb_buffer b)" if "b \<in> set bs" for b
    using frame nb[OF that] by simp
  have "fb_buffer c1 \<notin> fb_buffer ` set bs"
  proof
    assume "fb_buffer c1 \<in> fb_buffer ` set bs"
    then obtain b where "b \<in> set bs" "fb_buffer b = fb_buffer c1" by force
    then show False using frame nb[of b] by simp
  qed
  then have ok1: "flb.bufs_ok H1 (c1 # bs)" and m1: "map (fcontent H1) bs = map (fcontent H) bs"
    using flb.bufs_ok_cong[OF c(3) eq] f(2) by (simp_all add: flb.bufs_ok_Cons)
  have r1: "readableBytes c1 = readableBytes c + int (length (stream_part st i))"
    using content_length[OF c(1)] content_length[OF f(2)] f(3) by simp
  show ?thesis using e ok1 f(3) m1 r1 frame a by auto
qed

lemma append_entries_ok:
  assumes st: "stream_ok st" and ks: "set ks \<subseteq> {0..<nat (as_cout st)}"
    and ok: "flb.bufs_ok H (c # bs)"
    and al: "all_allowed (append_entry alloc st) (entry_allowed alloc) (map int ks) (c, H)"
    and len: "readableBytes c + int (length (concat (map (stream_part st) ks))) < 2 ^ 31"
  shows "\<exists>c' H'. foldM (append_entry alloc st) (map int ks) (c, H) = Some (c', H') \<and> flb.bufs_ok H' (c' # bs) \<and>
    fcontent H' c' = fcontent H c @ concat (map (stream_part st) ks) \<and> map (fcontent H') bs = map (fcontent H) bs"
  using ks ok al len
proof (induction ks arbitrary: c H)
  case (Cons i ks)
  have "\<exists>c1 H1. append_entry alloc st (int i) (c, H) = Some (c1, H1) \<and> flb.bufs_ok H1 (c1 # bs) \<and>
    fcontent H1 c1 = fcontent H c @ stream_part st i \<and> map (fcontent H1) bs = map (fcontent H) bs \<and>
    readableBytes c1 = readableBytes c + int (length (stream_part st i)) \<and>
    (\<forall>q. q \<noteq> fb_buffer c \<longrightarrow> q \<noteq> fst (alloc i) \<longrightarrow> H1 q = H q)"
    by (rule append_entry_ok[OF st]) (use Cons.prems in auto)
  then obtain c1 H1 where e: "append_entry alloc st (int i) (c, H) = Some (c1, H1)" "flb.bufs_ok H1 (c1 # bs)"
      "fcontent H1 c1 = fcontent H c @ stream_part st i" "map (fcontent H1) bs = map (fcontent H) bs"
      "readableBytes c1 = readableBytes c + int (length (stream_part st i))" by blast
  have "\<exists>c' H'. foldM (append_entry alloc st) (map int ks) (c1, H1) = Some (c', H') \<and> flb.bufs_ok H' (c' # bs) \<and>
      fcontent H' c' = fcontent H1 c1 @ concat (map (stream_part st) ks) \<and> map (fcontent H') bs = map (fcontent H1) bs"
    by (rule Cons.IH) (use Cons.prems e in auto)
  then show ?case using e by auto
qed auto

text \<open>Blocks that are free before the append and differ are good for all its entries.\<close>

lemma fresh_entries_allowed:
  assumes st: "stream_ok st" and ks: "set ks \<subseteq> {0..<nat (as_cout st)}" "distinct ks"
    and ok: "flb.bufs_ok H (c # bs)" and len: "readableBytes c + int (length (concat (map (stream_part st) ks))) < 2 ^ 31"
    and fr: "\<forall>i \<in> set ks. fst (alloc i) \<noteq> NULL \<and> H (fst (alloc i)) = None" "inj_on (\<lambda>i. fst (alloc i)) (set ks)"
  shows "all_allowed (append_entry alloc st) (entry_allowed alloc) (map int ks) (c, H) \<and>
    (\<forall>c' H' q. foldM (append_entry alloc st) (map int ks) (c, H) = Some (c', H') \<longrightarrow>
       q \<notin> (\<lambda>i. fst (alloc i)) ` set ks \<longrightarrow> H q = None \<longrightarrow> H' q = None)"
  using ks ok len fr
proof (induction ks arbitrary: c H)
  case (Cons i ks)
  have al: "entry_allowed alloc (int i) (c, H)" using Cons.prems(5) by (simp add: entry_allowed_def fresh_block_def)
  have "\<exists>c1 H1. append_entry alloc st (int i) (c, H) = Some (c1, H1) \<and> flb.bufs_ok H1 (c1 # bs) \<and>
    fcontent H1 c1 = fcontent H c @ stream_part st i \<and> map (fcontent H1) bs = map (fcontent H) bs \<and>
    readableBytes c1 = readableBytes c + int (length (stream_part st i)) \<and>
    (\<forall>q. q \<noteq> fb_buffer c \<longrightarrow> q \<noteq> fst (alloc i) \<longrightarrow> H1 q = H q)"
    by (rule append_entry_ok[OF st _ Cons.prems(3) al]) (use Cons.prems(1,4) in auto)
  then obtain c1 H1 where e: "append_entry alloc st (int i) (c, H) = Some (c1, H1)" "flb.bufs_ok H1 (c1 # bs)"
      "readableBytes c1 = readableBytes c + int (length (stream_part st i))"
      "\<forall>q. q \<noteq> fb_buffer c \<longrightarrow> q \<noteq> fst (alloc i) \<longrightarrow> H1 q = H q" by blast
  have free: "H1 q = None" if "H q = None" "q \<noteq> fst (alloc i)" for q
  proof -
    have "fb_buffer c \<in> dom H" using flb.bufs_ok_null[OF Cons.prems(3), of c] by simp
    then have "q \<noteq> fb_buffer c" using that(1) by auto
    then show ?thesis using e(4) that by simp
  qed
  have ne: "fst (alloc k) \<noteq> fst (alloc i)" if "k \<in> set ks" for k
    using inj_onD[OF Cons.prems(6), of k i] that Cons.prems(2) by auto
  have ih: "all_allowed (append_entry alloc st) (entry_allowed alloc) (map int ks) (c1, H1) \<and>
      (\<forall>c' H' q. foldM (append_entry alloc st) (map int ks) (c1, H1) = Some (c', H') \<longrightarrow>
         q \<notin> (\<lambda>i. fst (alloc i)) ` set ks \<longrightarrow> H1 q = None \<longrightarrow> H' q = None)"
    by (rule Cons.IH) (use Cons.prems e(2,3) free ne in \<open>auto simp: inj_on_def\<close>)
  then show ?case using e(1) al free by simp
qed simp

section \<open>Handing a full buffer over\<close>

lemma new_fok: "new \<noteq> NULL \<Longrightarrow> H new = Some (replicate (nat ASYNCPROC_BUFMAX) 0) \<Longrightarrow>
    fok H (b\<lparr>fb_buffer := new, readerIndex := 0, writerIndex := 0, fb_size := ASYNCPROC_BUFMAX\<rparr>)"
  by (simp add: fb_inv_def ASYNCPROC_BUFMAX_def)

lemma new_content: "fcontent H (b\<lparr>fb_buffer := new, readerIndex := 0, writerIndex := 0, fb_size := k\<rparr>) = []"
  by (simp add: fb_content_def readableBytes_def)

text \<open>\<open>c'\<close> and \<open>n'\<close> are the new current and next buffer.\<close>

lemma hand_over_ok:
  assumes s: "ap_current s = FBuf c" "ap_next s = FBuf n" and t: "fholds (ap_buffers s) us" "length us < PCAP"
    and ok: "flb.bufs_ok (ap_mem s) (c # flb.opt_buf n @ bs)" and e: "\<forall>b \<in> set (flb.opt_buf n). fcontent (ap_mem s) b = []"
    and new: "new \<noteq> NULL" "ap_mem s new = None"
  shows "\<exists>c' n' t' H'. hand_over new s = Some (s\<lparr>ap_current := FBuf c', ap_next := FBuf n', ap_buffers := t', ap_mem := H'\<rparr>) \<and>
    fholds t' (us @ [c]) \<and> flb.bufs_ok H' (c' # flb.opt_buf n' @ c # bs) \<and> flb.opt_buf n' = [] \<and> fcontent H' c' = [] \<and>
    map (fcontent H') (c # bs) = map (fcontent (ap_mem s)) (c # bs)"
proof -
  obtain t' where t': "alignflexbuffer_add_tail (ap_buffers s) c (ap_mem s) = Some (t', zero_flex_buffer, ap_mem s)" "fholds t' (us @ [c])"
    using fb_add_tail[OF t] by blast
  show ?thesis
  proof (cases "flex_buffer_usable n")
    case True
    then have "hand_over new s =
        Some (s\<lparr>ap_current := FBuf n, ap_next := FBuf zero_flex_buffer, ap_buffers := t', ap_mem := ap_mem s\<rparr>)"
      using s t' by (simp add: hand_over_def move_eq)
    moreover have "flb.bufs_ok (ap_mem s) (n # flb.opt_buf zero_flex_buffer @ c # bs)"
      by (rule flb.bufs_ok_perm[OF ok]) (simp add: opt_usable True)
    moreover have "fcontent (ap_mem s) n = []" using e True by (simp add: opt_usable)
    ultimately show ?thesis using t'(2) by (intro exI conjI) (assumption | simp add: opt_usable)+
  next
    case False
    let ?c = "zero_flex_buffer\<lparr>fb_buffer := new, readerIndex := 0, writerIndex := 0, fb_size := ASYNCPROC_BUFMAX\<rparr>"
    let ?H = "(ap_mem s)(new \<mapsto> replicate (nat ASYNCPROC_BUFMAX) 0)"
    have sz: "size_of ASYNCPROC_BUFMAX = nat ASYNCPROC_BUFMAX" by (simp add: ASYNCPROC_BUFMAX_def)
    have "hand_over new s = Some (s\<lparr>ap_current := FBuf ?c, ap_next := FBuf n, ap_buffers := t', ap_mem := ?H\<rparr>)"
      using s t' False new
      by (simp add: hand_over_def flex_buffer_recalloc_def bcalloc_def sz) (simp add: zero_flex_buffer_def)
    moreover have on: "flb.opt_buf n = []" using False by (simp add: opt_usable)
    have eq: "?H (fb_buffer b) = ap_mem s (fb_buffer b) \<and> fb_buffer b \<noteq> new" if "b \<in> set (c # bs)" for b
      using flb.bufs_ok_null[OF ok, of b] that new by auto
    have okb: "flb.bufs_ok (ap_mem s) (c # bs)" using ok on by simp
    have m: "flb.bufs_ok ?H (c # bs)" "map (fcontent ?H) (c # bs) = map (fcontent (ap_mem s)) (c # bs)"
      using flb.bufs_ok_cong(1)[OF okb, where H' = ?H] flb.bufs_ok_cong(2)[OF okb, where H' = ?H] eq by auto
    moreover have "fok ?H ?c" by (rule new_fok) (use new in simp_all)
    moreover have "fb_buffer ?c \<notin> fb_buffer ` set (c # bs)" using eq by auto
    ultimately have "flb.bufs_ok ?H (?c # flb.opt_buf n @ c # bs)" using on by (simp only: flb.bufs_ok_Cons append_Nil) simp
    then show ?thesis using t'(2) m(2) on new_content[where H = ?H and b = zero_flex_buffer and new = new and k = ASYNCPROC_BUFMAX]
        \<open>hand_over new s = _\<close> by blast
  qed
qed

section \<open>The operations keep the representation\<close>

text \<open>
  An append is allowed when its entries are what they say they are, the allocator returns free blocks, and the array has
  room when the buffer gets full.  That it does not fault is not asked.
\<close>

definition append_allowed :: "(nat \<Rightarrow> addr \<times> (nat \<Rightarrow> u8)) \<Rightarrow> addr \<Rightarrow> async_stream \<Rightarrow> 'w asyncProc \<Rightarrow> bool" where
  "append_allowed alloc new st s \<longleftrightarrow>
     stream_ok st \<and> int (length (stream_bytes st)) < 2 ^ 31 - ASYNCPROC_BUFMAX \<and>
     (case fb_deref (ap_current s) of
        None \<Rightarrow> True
      | Some c \<Rightarrow>
          all_allowed (append_entry alloc st) (entry_allowed alloc) [0..as_cout st - 1] (c, ap_mem s) \<and>
          (case foldM (append_entry alloc st) [0..as_cout st - 1] (c, ap_mem s) of
             None \<Rightarrow> True
           | Some (c, H) \<Rightarrow> readableBytes c \<ge> ASYNCPROC_BUFMAX \<longrightarrow>
               fb_cout (ap_buffers s) \<le> ASYNCPROC_MAXBUFFER \<and> new \<noteq> NULL \<and> H new = None))"

lemma ap_repD:
  assumes "ap_rep s c n n1 n2 us ws"
  shows "ap_current s = FBuf c" "ap_next s = FBuf n" "ap_new1 s = FBuf n1" "ap_new2 s = FBuf n2"
    "fholds (ap_buffers s) us" "fholds (ap_toWrite s) ws" "flb.bufs_ok (ap_mem s) (ap_live c n n1 n2 us ws)"
    "\<forall>b \<in> set (flb.opt_buf n @ flb.opt_buf n1 @ flb.opt_buf n2). fcontent (ap_mem s) b = []"
    "readableBytes c < ASYNCPROC_BUFMAX" "flex_buffer_usable n \<or> us \<noteq> []" "ap_phase (ap_writing s) n1 n2 ws"
  using assms by (simp_all add: ap_rep_def)

lemma append_allowedI:
  assumes rep: "ap_rep s c n n1 n2 us ws" and st: "stream_ok st" "int (length (stream_bytes st)) < 2 ^ 31 - ASYNCPROC_BUFMAX"
    and fr: "\<forall>i < nat (as_cout st). fst (alloc i) \<noteq> NULL \<and> ap_mem s (fst (alloc i)) = None \<and> fst (alloc i) \<noteq> new"
      "inj_on (\<lambda>i. fst (alloc i)) {0..<nat (as_cout st)}" "new \<noteq> NULL" "ap_mem s new = None"
    and room: "fb_cout (ap_buffers s) \<le> ASYNCPROC_MAXBUFFER"
  shows "append_allowed alloc new st s"
proof -
  note r = ap_repD[OF rep]
  let ?bs = "flb.opt_buf n @ flb.opt_buf n1 @ flb.opt_buf n2 @ us @ ws" and ?ks = "[0..<nat (as_cout st)]"
  have up: "[0..as_cout st - 1] = map int ?ks"
    using upto_upt[of 0 "nat (as_cout st)"] st(1) by (simp add: stream_ok_def)
  have ok: "flb.bufs_ok (ap_mem s) (c # ?bs)" using r(7) by (simp add: ap_live_def)
  have len: "readableBytes c + int (length (concat (map (stream_part st) ?ks))) < 2 ^ 31"
    using st(2) r(9) by (simp add: stream_bytes_def)
  have f: "all_allowed (append_entry alloc st) (entry_allowed alloc) (map int ?ks) (c, ap_mem s) \<and>
      (\<forall>c' H' q. foldM (append_entry alloc st) (map int ?ks) (c, ap_mem s) = Some (c', H') \<longrightarrow>
         q \<notin> (\<lambda>i. fst (alloc i)) ` set ?ks \<longrightarrow> ap_mem s q = None \<longrightarrow> H' q = None)"
    by (rule fresh_entries_allowed[OF st(1) _ _ ok len]) (use fr in auto)
  obtain c' H' where e: "foldM (append_entry alloc st) (map int ?ks) (c, ap_mem s) = Some (c', H')"
    using append_entries_ok[OF st(1) _ ok _ len] f by fastforce
  have "new \<notin> (\<lambda>i. fst (alloc i)) ` set ?ks" using fr(1) by auto
  then have "H' new = None" using f e fr(4) by blast
  then show ?thesis using r(1) st f e fr(3) room by (simp add: append_allowed_def up)
qed

lemma append_rep:
  assumes rep: "ap_rep s c n n1 n2 us ws" and al: "append_allowed alloc new st s"
  shows "\<exists>s' c' n' us'. async_proc_append_stream alloc new st s = Some s' \<and> ap_rep s' c' n' n1 n2 us' ws \<and>
    ap_data s' = ap_data s \<and> ap_writing s' = ap_writing s \<and> fb_cout (ap_buffers s') \<le> fb_cout (ap_buffers s) + 1 \<and>
    map (fcontent (ap_mem s')) ws = map (fcontent (ap_mem s)) ws \<and>
    (let P = map (fcontent (ap_mem s)) us; x = fcontent (ap_mem s) c @ stream_bytes st in
     map (fcontent (ap_mem s')) (us' @ [c']) \<in> {P @ [x], P @ [x, []]})"
proof -
  note r = ap_repD[OF rep]
  let ?bs = "flb.opt_buf n @ flb.opt_buf n1 @ flb.opt_buf n2 @ us @ ws"
  have st: "stream_ok st" "int (length (stream_bytes st)) < 2 ^ 31 - ASYNCPROC_BUFMAX"
    using al by (simp_all add: append_allowed_def)
  have up: "[0..as_cout st - 1] = map int [0..<nat (as_cout st)]"
    using upto_upt[of 0 "nat (as_cout st)"] st(1) by (simp add: stream_ok_def)
  have al1: "all_allowed (append_entry alloc st) (entry_allowed alloc) (map int [0..<nat (as_cout st)]) (c, ap_mem s)"
    using al r(1) up by (simp add: append_allowed_def)
  have ok: "flb.bufs_ok (ap_mem s) (c # ?bs)" using r(7) by (simp add: ap_live_def)
  have "\<exists>c1 H1. foldM (append_entry alloc st) (map int [0..<nat (as_cout st)]) (c, ap_mem s) = Some (c1, H1) \<and>
      flb.bufs_ok H1 (c1 # ?bs) \<and> fcontent H1 c1 = fcontent (ap_mem s) c @ concat (map (stream_part st) [0..<nat (as_cout st)]) \<and>
      map (fcontent H1) ?bs = map (fcontent (ap_mem s)) ?bs"
    by (rule append_entries_ok[OF st(1) _ ok al1]) (use st(2) r(9) in \<open>auto simp: stream_bytes_def\<close>)
  then obtain c1 H1 where f: "foldM (append_entry alloc st) (map int [0..<nat (as_cout st)]) (c, ap_mem s) = Some (c1, H1)"
      "flb.bufs_ok H1 (c1 # ?bs)" "fcontent H1 c1 = fcontent (ap_mem s) c @ stream_bytes st"
      "map (fcontent H1) ?bs = map (fcontent (ap_mem s)) ?bs"
    by (auto simp: stream_bytes_def)
  let ?s = "s\<lparr>ap_current := FBuf c1, ap_mem := H1\<rparr>"
  have run: "async_proc_append_stream alloc new st s = hand_over_if_full new ?s"
    using r(1) f(1) up by (simp add: async_proc_append_stream_def)
  have m: "map (fcontent H1) us = map (fcontent (ap_mem s)) us" "map (fcontent H1) ws = map (fcontent (ap_mem s)) ws"
      "\<forall>b \<in> set (flb.opt_buf n @ flb.opt_buf n1 @ flb.opt_buf n2). fcontent H1 b = []"
    using f(4) r(8) by auto
  show ?thesis
  proof (cases "readableBytes c1 \<ge> ASYNCPROC_BUFMAX")
    case False
    then have "hand_over_if_full new ?s = Some ?s" by (simp add: hand_over_if_full_def)
    moreover have "ap_rep ?s c1 n n1 n2 us ws" using r f(2) m(3) False by (simp add: ap_rep_def ap_live_def)
    ultimately show ?thesis using run f(3) m by (intro exI[of _ ?s] exI[of _ c1] exI[of _ n] exI[of _ us]) simp
  next
    case True
    then have "fb_cout (ap_buffers s) \<le> ASYNCPROC_MAXBUFFER" and new: "new \<noteq> NULL" "H1 new = None"
      using al r(1) f(1) up by (simp_all add: append_allowed_def)
    then have lt: "length us < PCAP" using r(5) by (simp add: fholds_def ASYNCPROC_MAXBUFFER_def PCAP_def)
    have "\<exists>c' n' t' H'. hand_over new ?s = Some (?s\<lparr>ap_current := FBuf c', ap_next := FBuf n', ap_buffers := t', ap_mem := H'\<rparr>) \<and>
        fholds t' (us @ [c1]) \<and> flb.bufs_ok H' (c' # flb.opt_buf n' @ c1 # (flb.opt_buf n1 @ flb.opt_buf n2 @ us @ ws)) \<and>
        flb.opt_buf n' = [] \<and> fcontent H' c' = [] \<and>
        map (fcontent H') (c1 # (flb.opt_buf n1 @ flb.opt_buf n2 @ us @ ws)) =
        map (fcontent (ap_mem ?s)) (c1 # (flb.opt_buf n1 @ flb.opt_buf n2 @ us @ ws))"
      by (rule hand_over_ok) (use r f(2) m(3) lt new in auto)
    then obtain c' n' t' H' where h:
        "hand_over new ?s = Some (?s\<lparr>ap_current := FBuf c', ap_next := FBuf n', ap_buffers := t', ap_mem := H'\<rparr>)"
        "fholds t' (us @ [c1])" "flb.bufs_ok H' (c' # flb.opt_buf n' @ c1 # (flb.opt_buf n1 @ flb.opt_buf n2 @ us @ ws))"
        "flb.opt_buf n' = []" "fcontent H' c' = []"
        "map (fcontent H') (c1 # (flb.opt_buf n1 @ flb.opt_buf n2 @ us @ ws)) =
         map (fcontent H1) (c1 # (flb.opt_buf n1 @ flb.opt_buf n2 @ us @ ws))"
      by auto
    let ?t = "?s\<lparr>ap_current := FBuf c', ap_next := FBuf n', ap_buffers := t', ap_mem := H'\<rparr>"
    have "flb.bufs_ok H' (ap_live c' n' n1 n2 (us @ [c1]) ws)"
      by (rule flb.bufs_ok_perm[OF h(3)]) (simp add: ap_live_def)
    moreover have "fok H' c'" using h(3) by (simp add: flb.bufs_ok_Cons)
    ultimately have "ap_rep ?t c' n' n1 n2 (us @ [c1]) ws"
      using r h(2,4,5,6) m(3) empty_readable[of c' H'] by (simp add: ap_rep_def ASYNCPROC_BUFMAX_def ball_Un)
    moreover have "map (fcontent H') ((us @ [c1]) @ [c']) = map (fcontent (ap_mem s)) us @ [fcontent (ap_mem s) c @ stream_bytes st, []]"
      using h(5,6) m(1) f(3) by simp
    moreover have "hand_over_if_full new ?s = Some ?t" using True h(1) by (simp add: hand_over_if_full_def)
    moreover have "map (fcontent H') ws = map (fcontent (ap_mem s)) ws" using h(6) m(2) by simp
    moreover have "fb_cout t' = fb_cout (ap_buffers s) + 1" using h(2) r(5) by (simp add: fholds_def)
    ultimately show ?thesis using run
      by (intro exI[of _ ?t] exI[of _ c'] exI[of _ n'] exI[of _ "us @ [c1]"]) simp
  qed
qed

lemma swap_rep:
  assumes rep: "ap_rep s c n n1 n2 us ws" and w: "\<not> ap_writing s" and room: "fb_cout (ap_buffers s) < ASYNCPROC_MAXBUFFER"
  shows "\<exists>s' c' n' m1 m2. async_proc_swap s = Some s' \<and> ap_rep s' c' n' m1 m2 [] (us @ [c]) \<and> ap_data s' = ap_data s \<and>
    ap_writing s' \<and> fb_cout (ap_buffers s') = 0 \<and> ap_mem s' = ap_mem s \<and> fcontent (ap_mem s') c' = []"
proof -
  note r = ap_repD[OF rep]
  have ph: "ws = []" "flex_buffer_usable n1" "flex_buffer_usable n2" using r(11) w by (auto simp: ap_phase_def)
  have lt: "length us < PCAP" "Suc (length us) < PCAP"
    using room r(5) by (auto simp: fholds_def ASYNCPROC_MAXBUFFER_def PCAP_def)
  obtain t where t: "alignflexbuffer_add_tail (ap_buffers s) c (ap_mem s) = Some (t, zero_flex_buffer, ap_mem s)" "fholds t (us @ [c])"
    using fb_add_tail[OF r(5) lt(1)] by blast
  obtain w' t' where m: "alignflexbuffer_move (ap_toWrite s) t (ap_mem s) = Some (w', t', ap_mem s)" "fholds w' (us @ [c])" "fholds t' []"
    using fb_move_all[OF _ t(2)] r(6) ph(1) by blast
  let ?s1 = "s\<lparr>ap_buffers := t', ap_toWrite := w', ap_current := FBuf n1, ap_new1 := FBuf zero_flex_buffer, ap_writing := True\<rparr>"
  let ?n = "if flex_buffer_usable n then n else n2" and ?m2 = "if flex_buffer_usable n then n2 else zero_flex_buffer"
  let ?s2 = "?s1\<lparr>ap_next := FBuf ?n, ap_new2 := FBuf ?m2\<rparr>"
  have run: "async_proc_swap s = Some ?s2"
    using t(1) m(1) r(1-4) by (simp add: async_proc_swap_def move_eq)
  have e1: "fcontent (ap_mem s) n1 = []" "fok (ap_mem s) n1"
    using r(7,8) ph by (simp_all add: opt_usable ap_live_def flb.bufs_ok_Cons flb.bufs_ok_append)
  have "flb.bufs_ok (ap_mem s) (ap_live n1 ?n zero_flex_buffer ?m2 [] (us @ [c]))"
    by (rule flb.bufs_ok_perm[OF r(7)]) (use ph in \<open>simp add: ap_live_def opt_usable\<close>)
  moreover have "ap_phase True zero_flex_buffer ?m2 (us @ [c])"
    using lt ph(3) r(10) by (auto simp: ap_phase_def length_greater_0_conv Suc_le_eq)
  ultimately have "ap_rep ?s2 n1 ?n zero_flex_buffer ?m2 [] (us @ [c])"
    using m(2,3) r(2,4,8) ph e1(1) empty_readable[OF e1(2,1)]
    by (auto simp: ap_rep_def opt_usable ASYNCPROC_BUFMAX_def)
  then show ?thesis using run e1(1) m(3)
    by (intro exI[of _ ?s2] exI[of _ n1] exI[of _ ?n] exI[of _ zero_flex_buffer] exI[of _ ?m2]) (simp add: fholds_def)
qed

text \<open>
  The thread gets its two buffers back, from the end of what is left of the array; \<open>rest\<close> is what stays there.
\<close>

lemma refill_two:
  assumes t: "fholds t ws" "ws \<noteq> []" "length ws \<le> 2" and n1: "\<not> flex_buffer_usable n1"
    and n2: "flex_buffer_usable n2 \<or> length ws = 2"
    and ok: "flb.bufs_ok H (ws @ flb.opt_buf n2 @ bs)" and e2: "\<forall>b \<in> set (flb.opt_buf n2). fcontent H b = []"
  shows "\<exists>m1 t1 H1 m2 t2 H2 rest. refill (FBuf n1) t H = Some (FBuf m1, t1, H1) \<and> refill (FBuf n2) t1 H1 = Some (FBuf m2, t2, H2) \<and>
    fholds t2 rest \<and> flb.bufs_ok H2 ((m1 # m2 # bs) @ rest) \<and> fcontent H2 m1 = [] \<and> fcontent H2 m2 = [] \<and>
    map (fcontent H2) bs = map (fcontent H) bs"
proof -
  obtain xs x where xs: "ws = xs @ [x]" using t(2) by (cases ws rule: rev_cases) auto
  have "flb.bufs_ok H (x # xs @ flb.opt_buf n2 @ bs)" by (rule flb.bufs_ok_perm[OF ok]) (simp add: xs)
  then obtain m1 t1 H1 where r1: "refill (FBuf n1) t H = Some (FBuf m1, t1, H1)" "fholds t1 xs"
      "flb.bufs_ok H1 (m1 # xs @ flb.opt_buf n2 @ bs)" "fcontent H1 m1 = []"
      "map (fcontent H1) (xs @ flb.opt_buf n2 @ bs) = map (fcontent H) (xs @ flb.opt_buf n2 @ bs)"
    using refill_ok[of t xs x n1 H "xs @ flb.opt_buf n2 @ bs"] t(1) xs n1 by auto
  show ?thesis
  proof (cases "flex_buffer_usable n2")
    case True
    have "flb.bufs_ok H1 ((m1 # n2 # bs) @ xs)" by (rule flb.bufs_ok_perm[OF r1(3)]) (simp add: True opt_usable)
    moreover have "fcontent H1 n2 = []" using r1(5) e2 True by (simp add: opt_usable)
    ultimately show ?thesis using r1 refill_used[OF True, of t1 H1] by (auto simp: opt_usable)
  next
    case False
    then have "length xs = 1" using n2 xs by simp
    then obtain y where y: "xs = [y]" by (cases xs) auto
    have "flb.bufs_ok H1 (y # m1 # bs)" by (rule flb.bufs_ok_perm[OF r1(3)]) (simp add: False opt_usable y)
    then obtain m2 t2 H2 where r2: "refill (FBuf n2) t1 H1 = Some (FBuf m2, t2, H2)" "fholds t2 []"
        "flb.bufs_ok H2 (m2 # m1 # bs)" "fcontent H2 m2 = []" "map (fcontent H2) (m1 # bs) = map (fcontent H1) (m1 # bs)"
      using refill_ok[of t1 "[]" y n2 H1 "m1 # bs"] r1(2) y False by auto
    have "flb.bufs_ok H2 ((m1 # m2 # bs) @ [])" by (rule flb.bufs_ok_perm[OF r2(3)]) simp
    then show ?thesis using r1 r2 False by (intro exI conjI) (assumption | simp add: opt_usable)+
  qed
qed

lemma process_rep:
  assumes rep: "ap_rep s c n n1 n2 us ws" and w: "ap_writing s"
    and fold: "foldM (proc_buffer proc (fb_buffers (ap_toWrite s)) (ap_mem s)) [0..fb_cout (ap_toWrite s) - 1] (ap_data s) = Some d"
  shows "\<exists>s' m1 m2. async_proc_process proc s = Some s' \<and> ap_rep s' c n m1 m2 us [] \<and> ap_data s' = d \<and> \<not> ap_writing s' \<and>
    ap_buffers s' = ap_buffers s \<and> map (fcontent (ap_mem s')) (us @ [c]) = map (fcontent (ap_mem s)) (us @ [c])"
proof -
  note r = ap_repD[OF rep]
  let ?H = "ap_mem s" and ?B = "c # flb.opt_buf n @ us"
  have ph: "ws \<noteq> []" "length ws < PCAP" "\<not> flex_buffer_usable n1" "flex_buffer_usable n2 \<or> 2 \<le> length ws"
    using r(11) w by (auto simp: ap_phase_def)
  have on: "flb.opt_buf n1 = []" using ph(3) by (simp add: opt_usable)
  have live: "flb.bufs_ok ?H ((take 2 ws @ flb.opt_buf n2 @ ?B) @ drop 2 ws)"
  proof (rule flb.bufs_ok_perm[OF r(7)])
    have "mset (take 2 ws) + mset (drop 2 ws) = mset ws" by (metis append_take_drop_id mset_append)
    then show "mset (ap_live c n n1 n2 us ws) = mset ((take 2 ws @ flb.opt_buf n2 @ ?B) @ drop 2 ws)"
      by (simp add: ap_live_def on)
  qed
  have okw: "flb.bufs_ok ?H ws" using r(7) by (auto simp: ap_live_def flb.bufs_ok_Cons flb.bufs_ok_append)
  let ?H1 = "?H |` (- flb.owned (drop 2 ws))"
  obtain t1 where t1: "(if fb_cout (ap_toWrite s) > 2 then alignflexbuffer_erase 2 (ASYNCPROC_MAXBUFFER + 1) (ap_toWrite s, ?H)
        else Some (ap_toWrite s, ?H)) = Some (t1, ?H1)" "fholds t1 (take 2 ws)"
    using fb_erase_two[OF r(6) okw] by blast
  note f1 = flb.bufs_ok_free[OF live]
  have "\<exists>m1 t2 H2 m2 t3 H3 rest. refill (FBuf n1) t1 ?H1 = Some (FBuf m1, t2, H2) \<and> refill (FBuf n2) t2 H2 = Some (FBuf m2, t3, H3) \<and>
      fholds t3 rest \<and> flb.bufs_ok H3 ((m1 # m2 # ?B) @ rest) \<and> fcontent H3 m1 = [] \<and> fcontent H3 m2 = [] \<and>
      map (fcontent H3) ?B = map (fcontent ?H1) ?B"
    by (rule refill_two[OF t1(2) _ _ ph(3) _ f1(1)]) (use ph f1(2) r(8) in auto)
  then obtain m1 t2 H2 m2 t3 H3 rest where f: "refill (FBuf n1) t1 ?H1 = Some (FBuf m1, t2, H2)"
      "refill (FBuf n2) t2 H2 = Some (FBuf m2, t3, H3)" "fholds t3 rest" "flb.bufs_ok H3 ((m1 # m2 # ?B) @ rest)"
      "fcontent H3 m1 = []" "fcontent H3 m2 = []" "map (fcontent H3) ?B = map (fcontent ?H1) ?B"
    by blast
  let ?H4 = "H3 |` (- flb.owned rest)"
  have okr: "flb.bufs_ok H3 rest" using f(4) by (auto simp: flb.bufs_ok_Cons flb.bufs_ok_append)
  obtain t4 where t4: "alignflexbuffer_clear (t3, H3) = Some (t4, ?H4)" "fholds t4 []"
    using fb_clear_all[OF f(3) okr] by blast
  note f4 = flb.bufs_ok_free[OF f(4)]
  let ?s' = "s\<lparr>ap_new1 := FBuf m1, ap_new2 := FBuf m2, ap_toWrite := t4, ap_mem := ?H4, ap_data := d, ap_writing := False\<rparr>"
  have "\<not> fb_cout (ap_toWrite s) > ASYNCPROC_MAXBUFFER"
    using r(6) ph(2) by (simp add: fholds_def ASYNCPROC_MAXBUFFER_def PCAP_def)
  then have run: "async_proc_process proc s = Some ?s'"
    using fold t1(1) f(1,2) t4(1) r(3,4) by (simp add: async_proc_process_def)
  have us: "flex_buffer_usable m1" "flex_buffer_usable m2" using f4(1) by (auto simp: flb.bufs_ok_Cons fok_usable)
  have cont: "map (fcontent ?H4) ?B = map (fcontent ?H) ?B" using f4(2) f(7) f1(2) by auto
  have "flb.bufs_ok ?H4 (ap_live c n m1 m2 us [])"
    by (rule flb.bufs_ok_perm[OF f4(1)]) (simp add: ap_live_def opt_usable us)
  moreover have "\<forall>b \<in> set (flb.opt_buf n @ flb.opt_buf m1 @ flb.opt_buf m2). fcontent ?H4 b = []"
    using cont r(8) f4(2) f(5,6) us by (auto simp: opt_usable)
  ultimately have "ap_rep ?s' c n m1 m2 us []" using r t4(2) us by (simp add: ap_rep_def ap_phase_def)
  moreover have "map (fcontent ?H4) (us @ [c]) = map (fcontent ?H) (us @ [c])" using cont by simp
  ultimately show ?thesis using run by (intro exI[of _ ?s'] exI[of _ m1] exI[of _ m2]) simp
qed

text \<open>The end of the thread and the tear-down free the blocks of the buffers, each once.\<close>

lemma free_ptr_opt:
  assumes "flb.bufs_ok H (flb.opt_buf b @ bs)"
  shows "\<exists>H'. free_ptr (FBuf b) H = Some H' \<and> flb.bufs_ok H' bs"
proof (cases "flex_buffer_usable b")
  case True
  then have ok: "flb.bufs_ok H (b # bs)" using assms by (simp add: opt_usable)
  have b: "fb_buffer b \<noteq> NULL" "fb_buffer b \<in> dom H" using flb.bufs_ok_null[OF ok, of b] by simp_all
  have bs: "flb.bufs_ok H bs" "fb_buffer b \<notin> fb_buffer ` set bs" using ok by (simp_all add: flb.bufs_ok_Cons)
  have eq: "(H(fb_buffer b := None)) (fb_buffer x) = H (fb_buffer x)" if "x \<in> set bs" for x
    using bs(2) that by (metis fun_upd_other image_eqI)
  have "free_ptr (FBuf b) H = Some (H(fb_buffer b := None))"
    using b by (simp add: free_ptr_def flex_buffer_free_def bfree_def)
  then show ?thesis using flb.bufs_ok_cong(1)[OF bs(1) eq] by blast
next
  case False
  then show ?thesis using assms by (simp add: opt_usable free_ptr_def flex_buffer_free_def flex_buffer_usable_def)
qed

lemma thread_end_rep:
  assumes rep: "ap_rep s c n n1 n2 us ws" and w: "\<not> ap_writing s"
  shows "\<exists>s'. thread_end s = Some s' \<and> ap_data s' = ap_data s \<and> async_proc_free s' \<noteq> None"
proof -
  note r = ap_repD[OF rep]
  have ws: "ws = []" using r(11) w by (simp add: ap_phase_def)
  have id: "ap_mem s |` (- flb.owned []) = ap_mem s" by (simp add: flb.owned_def restrict_map_def)
  obtain t where t: "alignflexbuffer_clear (ap_toWrite s, ap_mem s) = Some (t, ap_mem s)"
    using fb_clear_all[OF r(6), of "ap_mem s"] id unfolding ws by auto
  have "flb.bufs_ok (ap_mem s) (flb.opt_buf n1 @ flb.opt_buf n2 @ c # flb.opt_buf n @ us)"
    by (rule flb.bufs_ok_perm[OF r(7)]) (simp add: ap_live_def ws)
  then obtain H1 where H1: "free_ptr (FBuf n1) (ap_mem s) = Some H1" "flb.bufs_ok H1 (flb.opt_buf n2 @ c # flb.opt_buf n @ us)"
    using free_ptr_opt by blast
  obtain H2 where H2: "free_ptr (FBuf n2) H1 = Some H2" "flb.bufs_ok H2 (c # flb.opt_buf n @ us)"
    using free_ptr_opt[OF H1(2)] by blast
  let ?s = "s\<lparr>ap_toWrite := t, ap_new1 := FFreed, ap_new2 := FFreed, ap_mem := H2\<rparr>"
  have e: "thread_end s = Some ?s" using t H1(1) H2(1) r(3,4) by (simp add: thread_end_def)
  have "flex_buffer_usable c" using H2(2) by (auto simp: flb.bufs_ok_Cons fok_usable)
  then have "flb.bufs_ok H2 (flb.opt_buf c @ flb.opt_buf n @ us)" using H2(2) by (simp add: opt_usable)
  then obtain H3 where H3: "free_ptr (FBuf c) H2 = Some H3" "flb.bufs_ok H3 (flb.opt_buf n @ us)"
    using free_ptr_opt by blast
  obtain H4 where H4: "free_ptr (FBuf n) H3 = Some H4" "flb.bufs_ok H4 us" using free_ptr_opt[OF H3(2)] by blast
  obtain t' H5 where "alignflexbuffer_erase 0 (fb_cout (ap_buffers s)) (ap_buffers s, H4) = Some (t', H5)"
    using fb_clear_all[OF r(5) H4(2)] by (auto simp: alignflexbuffer_clear_def)
  then have "alignflexbuffer_free (ap_buffers s, H4) \<noteq> None" by (simp add: alignflexbuffer_free_def)
  then have "async_proc_free ?s \<noteq> None" using H3(1) H4(1) r(1,2) by (auto simp: async_proc_free_def)
  then show ?thesis using e by simp
qed

section \<open>Clients\<close>

datatype ap_op = PAppend "nat \<Rightarrow> addr \<times> (nat \<Rightarrow> u8)" addr async_stream | PSwap | PProcess

fun ap_step :: "'w proc_cb \<Rightarrow> ap_op \<Rightarrow> 'w asyncProc \<Rightarrow> 'w asyncProc option" where
  "ap_step proc (PAppend alloc new st) s = async_proc_append_stream alloc new st s"
| "ap_step proc PSwap s = async_proc_swap s"
| "ap_step proc PProcess s = async_proc_process proc s"

text \<open>The two steps of the thread alternate, and no more buffers are filled between two swaps than the array takes.\<close>

fun ap_allowed :: "(u8 list \<Rightarrow> bool) \<Rightarrow> ap_op \<Rightarrow> 'w asyncProc \<Rightarrow> bool" where
  "ap_allowed whole (PAppend alloc new st) s \<longleftrightarrow> append_allowed alloc new st s \<and> whole (stream_bytes st)"
| "ap_allowed whole PSwap s \<longleftrightarrow> \<not> ap_writing s \<and> fb_cout (ap_buffers s) < ASYNCPROC_MAXBUFFER"
| "ap_allowed whole PProcess s \<longleftrightarrow> ap_writing s"

fun ap_inp :: "(u8 list \<Rightarrow> 'a list) \<Rightarrow> ap_op \<Rightarrow> 'a list" where
  "ap_inp parse (PAppend alloc new st) = parse (stream_bytes st)"
| "ap_inp parse _ = []"

text \<open>The contents of the buffers, from the oldest to the newest.\<close>

definition ap_pending :: "'w asyncProc \<Rightarrow> u8 list list" where
  "ap_pending s = map (fcontent (ap_mem s)) (fb_filled (ap_toWrite s) @ fb_filled (ap_buffers s) @
     (case fb_deref (ap_current s) of None \<Rightarrow> [] | Some c \<Rightarrow> [c]))"

definition ap_view :: "(u8 list \<Rightarrow> 'a list) \<Rightarrow> ('w \<Rightarrow> 'a list) \<Rightarrow> 'w asyncProc \<Rightarrow> 'a list" where
  "ap_view parse delivered s = delivered (ap_data s) @ concat (map parse (ap_pending s))"

definition ap_inv :: "(u8 list \<Rightarrow> bool) \<Rightarrow> ('w \<Rightarrow> bool) \<Rightarrow> 'w asyncProc \<Rightarrow> bool" where
  "ap_inv whole winv s \<longleftrightarrow> winv (ap_data s) \<and> (\<exists>c n n1 n2 us ws. ap_rep s c n n1 n2 us ws) \<and> (\<forall>x \<in> set (ap_pending s). whole x)"

lemma rep_pending:
  assumes "ap_rep s c n n1 n2 us ws"
  shows "ap_pending s = map (fcontent (ap_mem s)) ws @ map (fcontent (ap_mem s)) (us @ [c])"
  using ap_repD(1,5,6)[OF assms] fholds_filled by (simp add: ap_pending_def)

text \<open>What starts when the allocations succeed is well formed.\<close>

lemma new_buffer_eq:
  "a \<noteq> NULL \<Longrightarrow> new_buffer (True, a) H =
    (FBuf \<lparr>fb_buffer = a, readerIndex = 0, writerIndex = 0, fb_size = ASYNCPROC_BUFMAX\<rparr>,
     H(a \<mapsto> replicate (nat ASYNCPROC_BUFMAX) 0))"
  by (simp add: new_buffer_def flex_buffer_init_def bcalloc_def ASYNCPROC_BUFMAX_def)

lemma start_rep:
  assumes d: "distinct [NULL, a1, a2, a3, a4]"
    and s: "async_proc_init True (True, a1) (True, a2) d H = Some s"
  shows "\<exists>c n n1 n2. ap_rep (async_proc_start (True, a3) (True, a4) s) c n n1 n2 [] [] \<and>
    ap_data (async_proc_start (True, a3) (True, a4) s) = d \<and> ap_pending (async_proc_start (True, a3) (True, a4) s) = [[]] \<and>
    (\<forall>q. q \<notin> {a1, a2, a3, a4} \<longrightarrow> ap_mem (async_proc_start (True, a3) (True, a4) s) q = H q)"
proof -
  let ?b = "\<lambda>a. \<lparr>fb_buffer = a, readerIndex = 0, writerIndex = 0, fb_size = ASYNCPROC_BUFMAX\<rparr>"
  let ?s = "async_proc_start (True, a3) (True, a4) s"
  have nz: "a1 \<noteq> NULL" "a2 \<noteq> NULL" "a3 \<noteq> NULL" "a4 \<noteq> NULL" using d by auto
  let ?z = "replicate (nat ASYNCPROC_BUFMAX) (0 :: u8)"
  let ?H = "H(a1 \<mapsto> ?z, a2 \<mapsto> ?z, a3 \<mapsto> ?z, a4 \<mapsto> ?z)"
  have e: "?s = \<lparr>ap_running = True, ap_flushInterval = ASYNCPROC_FLUSHTIME, ap_current = FBuf (?b a1), ap_next = FBuf (?b a2),
      ap_buffers = alignflexbuffer_init (ASYNCPROC_MAXBUFFER + 1) zero_align, ap_data = d,
      ap_new1 = FBuf (?b a3), ap_new2 = FBuf (?b a4), ap_toWrite = alignflexbuffer_init (ASYNCPROC_MAXBUFFER + 1) zero_align,
      ap_mem = ?H, ap_writing = False\<rparr>"
    using s nz by (auto simp: async_proc_init_def async_proc_def_init_def async_proc_start_def thread_begin_def new_buffer_eq)
  have ok: "fok ?H (?b a)" if "a \<in> {a1, a2, a3, a4}" for a
    using new_fok[of a ?H zero_flex_buffer] that d by (auto simp: zero_flex_buffer_def)
  have em: "fcontent G (?b a) = []" for G a by (simp add: fb_content_def readableBytes_def)
  have h: "fholds (alignflexbuffer_init (ASYNCPROC_MAXBUFFER + 1) zero_align) []"
    by (simp add: fholds_def alignflexbuffer_init_def zero_align_def flb.entries_Nil ASYNCPROC_MAXBUFFER_def PCAP_def)
  have us: "flex_buffer_usable (?b a)" if "a \<in> {a1, a2, a3, a4}" for a using fok_usable[OF ok[OF that]] .
  have "flb.bufs_ok ?H [?b a1, ?b a2, ?b a3, ?b a4]" using ok d by (simp add: flb.bufs_ok_def)
  then have "flb.bufs_ok ?H (ap_live (?b a1) (?b a2) (?b a3) (?b a4) [] [])" using us by (simp add: ap_live_def opt_usable)
  moreover have "readableBytes (?b a1) < ASYNCPROC_BUFMAX" by (simp add: readableBytes_def ASYNCPROC_BUFMAX_def)
  ultimately have rep: "ap_rep ?s (?b a1) (?b a2) (?b a3) (?b a4) [] []"
    unfolding e using h em us by (simp add: ap_rep_def ap_phase_def opt_usable)
  moreover have "ap_data ?s = d \<and> (\<forall>q. q \<notin> {a1, a2, a3, a4} \<longrightarrow> ap_mem ?s q = H q)" unfolding e by simp
  moreover have "ap_pending ?s = [[]]" using rep_pending[OF rep] e em by simp
  ultimately show ?thesis using rep by blast
qed

lemma ap_invI:
  "ap_rep s c n n1 n2 us ws \<Longrightarrow> winv (ap_data s) \<Longrightarrow> (\<And>x. x \<in> set (ap_pending s) \<Longrightarrow> whole x) \<Longrightarrow> ap_inv whole winv s"
  unfolding ap_inv_def by blast

lemma async_proc_append_eq:
  "async_proc_append a new data len s = async_proc_append_stream (\<lambda>_. a) new \<lparr>as_data = [data], as_len = [len], as_cout = 1\<rparr> s"
  by (cases "fb_deref (ap_current s)"; cases a)
    (auto simp: async_proc_append_def async_proc_append_stream_def append_entry_def bind_eq_Some_iff
      split: Option.bind_splits)

text \<open>
  \<open>whole\<close> tells that bytes are whole units, \<open>parse\<close> gives what they stand for, \<open>delivered\<close> what the callback has delivered.
\<close>

locale proc_client =
  fixes proc :: "'w proc_cb"
    and whole :: "u8 list \<Rightarrow> bool"
    and parse :: "u8 list \<Rightarrow> 'a list"
    and delivered :: "'w \<Rightarrow> 'a list"
    and winv :: "'w \<Rightarrow> bool"
  assumes whole_Nil: "whole []" and parse_Nil: "parse [] = []"
    and whole_append: "whole x \<Longrightarrow> whole y \<Longrightarrow> whole (x @ y) \<and> parse (x @ y) = parse x @ parse y"
    and proc_law: "winv w \<Longrightarrow> whole x \<Longrightarrow> int (length x) < 2 ^ 31 \<Longrightarrow>
      \<exists>w'. proc (x @ rest) (int (length x)) w = Some w' \<and> winv w' \<and> delivered w' = delivered w @ parse x"
begin

lemma proc_buffer_ok:
  assumes "winv d" "fok H b" "whole (fcontent H b)" "i < length bs" "bs ! i = b"
  shows "\<exists>d'. proc_buffer proc bs H (int i) d = Some d' \<and> winv d' \<and> delivered d' = delivered d @ parse (fcontent H b)"
proof (rule fb_invD[OF assms(2)])
  fix m
  assume m: "H (fb_buffer b) = Some m" "int (length m) = fb_size b" "fb_buffer b \<noteq> NULL" "0 \<le> readerIndex b"
    "readerIndex b \<le> writerIndex b" "writerIndex b \<le> fb_size b" "fb_size b < 2 ^ 31"
    "fcontent H b = take (nat (readableBytes b)) (drop (nat (readerIndex b)) m)"
  have rd: "bread (fb_buffer b) (flex_peek b) (fb_size b - flex_peek b) H = Some (drop (nat (readerIndex b)) m)"
    using m by (simp add: bread_def flex_peek_def nat_diff_distrib)
  have mem: "drop (nat (readerIndex b)) m = fcontent H b @ drop (nat (readableBytes b)) (drop (nat (readerIndex b)) m)"
    by (simp only: m(8) append_take_drop_id)
  have len: "int (length (fcontent H b)) = readableBytes b" by (rule content_length[OF assms(2)])
  have "int (length (fcontent H b)) < 2 ^ 31" unfolding len using m(4-7) by (simp add: readableBytes_def)
  then obtain d' where "proc (drop (nat (readerIndex b)) m) (readableBytes b) d = Some d'" "winv d'"
      "delivered d' = delivered d @ parse (fcontent H b)"
    using proc_law[OF assms(1,3)] mem len by metis
  then show ?thesis using rd assms(4,5) by (simp add: proc_buffer_def)
qed

lemma proc_buffers_ok:
  assumes "winv d" "\<forall>b \<in> set us. fok H b \<and> whole (fcontent H b)" "k \<le> length us"
  shows "\<exists>d'. foldM (proc_buffer proc (us @ zs) H) (map int [0..<k]) d = Some d' \<and> winv d' \<and>
    delivered d' = delivered d @ concat (map (\<lambda>b. parse (fcontent H b)) (take k us))"
  using assms(3)
proof (induction k)
  case 0
  then show ?case using assms(1) by simp
next
  case (Suc k)
  then obtain d1 where d1: "foldM (proc_buffer proc (us @ zs) H) (map int [0..<k]) d = Some d1" "winv d1"
      "delivered d1 = delivered d @ concat (map (\<lambda>b. parse (fcontent H b)) (take k us))" by auto
  have k: "k < length us" using Suc.prems by simp
  then obtain d2 where "proc_buffer proc (us @ zs) H (int k) d1 = Some d2" "winv d2"
      "delivered d2 = delivered d1 @ parse (fcontent H (us ! k))"
    using proc_buffer_ok[OF d1(2), of "us ! k" H k "us @ zs"] assms(2) by (auto simp: nth_append)
  then show ?case using d1 k by (simp add: foldM_append take_Suc_conv_app_nth)
qed

lemma append_law:
  assumes inv: "ap_inv whole winv s" and al: "append_allowed alloc new st s" and wh: "whole (stream_bytes st)"
  shows "\<exists>s'. async_proc_append_stream alloc new st s = Some s' \<and> ap_inv whole winv s' \<and>
    ap_view parse delivered s' = ap_view parse delivered s @ parse (stream_bytes st)"
proof -
  obtain c n n1 n2 us ws where rep: "ap_rep s c n n1 n2 us ws" using inv by (auto simp: ap_inv_def)
  obtain s' c' n' us' where a: "async_proc_append_stream alloc new st s = Some s'" "ap_rep s' c' n' n1 n2 us' ws"
      "ap_data s' = ap_data s" "map (fcontent (ap_mem s')) ws = map (fcontent (ap_mem s)) ws"
      "map (fcontent (ap_mem s')) (us' @ [c']) \<in> {map (fcontent (ap_mem s)) us @ [fcontent (ap_mem s) c @ stream_bytes st],
         map (fcontent (ap_mem s)) us @ [fcontent (ap_mem s) c @ stream_bytes st, []]}"
    using append_rep[OF rep al] by (auto simp: Let_def)
  have p: "ap_pending s = map (fcontent (ap_mem s)) ws @ map (fcontent (ap_mem s)) us @ [fcontent (ap_mem s) c]"
    using rep_pending[OF rep] by simp
  have wc: "whole (fcontent (ap_mem s) c)" "\<forall>x \<in> set (ap_pending s). whole x" "winv (ap_data s)"
    using inv p by (auto simp: ap_inv_def)
  note app = whole_append[OF wc(1) wh]
  have p': "ap_pending s' \<in> {map (fcontent (ap_mem s)) (ws @ us) @ [fcontent (ap_mem s) c @ stream_bytes st],
      map (fcontent (ap_mem s)) (ws @ us) @ [fcontent (ap_mem s) c @ stream_bytes st, []]}"
    using rep_pending[OF a(2)] a(4,5) by auto
  have "ap_inv whole winv s'" by (rule ap_invI[OF a(2)]) (use a(3) wc(2,3) p' p app whole_Nil in auto)
  moreover have "ap_view parse delivered s' = ap_view parse delivered s @ parse (stream_bytes st)"
    using p' p app parse_Nil a(3) by (auto simp: ap_view_def)
  ultimately show ?thesis using a(1) by blast
qed

lemma swap_law:
  assumes inv: "ap_inv whole winv s" and w: "\<not> ap_writing s" and room: "fb_cout (ap_buffers s) < ASYNCPROC_MAXBUFFER"
  shows "\<exists>s'. async_proc_swap s = Some s' \<and> ap_inv whole winv s' \<and> ap_view parse delivered s' = ap_view parse delivered s \<and>
    ap_writing s' \<and> fb_cout (ap_buffers s') = 0 \<and> ap_data s' = ap_data s \<and>
    map (fcontent (ap_mem s')) (fb_filled (ap_toWrite s')) = ap_pending s"
proof -
  obtain c n n1 n2 us ws where rep: "ap_rep s c n n1 n2 us ws" using inv by (auto simp: ap_inv_def)
  obtain s' c' n' m1 m2 where a: "async_proc_swap s = Some s'" "ap_rep s' c' n' m1 m2 [] (us @ [c])" "ap_data s' = ap_data s"
      "ap_writing s'" "fb_cout (ap_buffers s') = 0" "ap_mem s' = ap_mem s" "fcontent (ap_mem s') c' = []"
    using swap_rep[OF rep w room] by blast
  have "ws = []" using ap_repD(11)[OF rep] w by (simp add: ap_phase_def)
  then have p: "ap_pending s' = ap_pending s @ [[]]" using rep_pending[OF rep] rep_pending[OF a(2)] a(6,7) by simp
  have "ap_inv whole winv s'" by (rule ap_invI[OF a(2)]) (use inv a(3) p whole_Nil in \<open>auto simp: ap_inv_def\<close>)
  moreover have "ap_view parse delivered s' = ap_view parse delivered s" using p a(3) parse_Nil by (simp add: ap_view_def)
  moreover have "map (fcontent (ap_mem s')) (fb_filled (ap_toWrite s')) = ap_pending s"
    using rep_pending[OF rep] fholds_filled[OF ap_repD(6)[OF a(2)]] a(6) \<open>ws = []\<close> by simp
  ultimately show ?thesis using a by blast
qed

text \<open>Processing delivers what the thread has taken over, and that only.\<close>

lemma process_law:
  assumes inv: "ap_inv whole winv s" and w: "ap_writing s"
  shows "\<exists>s'. async_proc_process proc s = Some s' \<and> ap_inv whole winv s' \<and> ap_view parse delivered s' = ap_view parse delivered s \<and>
    \<not> ap_writing s' \<and> ap_buffers s' = ap_buffers s \<and>
    delivered (ap_data s') = delivered (ap_data s) @ concat (map parse (map (fcontent (ap_mem s)) (fb_filled (ap_toWrite s))))"
proof -
  obtain c n n1 n2 us ws where rep: "ap_rep s c n n1 n2 us ws" using inv by (auto simp: ap_inv_def)
  let ?H = "ap_mem s"
  have p: "ap_pending s = map (fcontent ?H) ws @ map (fcontent ?H) (us @ [c])" by (rule rep_pending[OF rep])
  have wh: "\<forall>b \<in> set ws. fok ?H b \<and> whole (fcontent ?H b)"
    using inv p ap_repD(7)[OF rep] by (auto simp: ap_inv_def ap_live_def flb.bufs_ok_def)
  have wd: "winv (ap_data s)" using inv by (simp add: ap_inv_def)
  have h: "fb_buffers (ap_toWrite s) = ws @ replicate (PCAP - length ws) zero_flex_buffer" "fb_cout (ap_toWrite s) = int (length ws)"
    using ap_repD(6)[OF rep] by (simp_all add: fholds_def flb.entries_def)
  obtain d where d: "foldM (proc_buffer proc (fb_buffers (ap_toWrite s)) ?H) [0..fb_cout (ap_toWrite s) - 1] (ap_data s) = Some d"
      "winv d" "delivered d = delivered (ap_data s) @ concat (map (\<lambda>b. parse (fcontent ?H b)) ws)"
    using proc_buffers_ok[OF wd wh order_refl, of "replicate (PCAP - length ws) zero_flex_buffer"] upto_upt[of 0 "length ws"]
    by (auto simp: h)
  obtain s' m1 m2 where a: "async_proc_process proc s = Some s'" "ap_rep s' c n m1 m2 us []" "ap_data s' = d" "\<not> ap_writing s'"
      "ap_buffers s' = ap_buffers s" "map (fcontent (ap_mem s')) (us @ [c]) = map (fcontent ?H) (us @ [c])"
    using process_rep[OF rep w d(1)] by blast
  have p': "ap_pending s = map (fcontent ?H) ws @ ap_pending s'" using p rep_pending[OF a(2)] a(6) by simp
  have "ap_inv whole winv s'" by (rule ap_invI[OF a(2)]) (use inv a(3) d(2) p' in \<open>auto simp: ap_inv_def\<close>)
  moreover have del: "delivered (ap_data s') = delivered (ap_data s) @ concat (map parse (map (fcontent ?H) ws))"
    using d(3) a(3) by (simp add: o_def)
  moreover have "ap_view parse delivered s' = ap_view parse delivered s" using p' del by (simp add: ap_view_def)
  ultimately show ?thesis using a(1,4,5) fholds_filled[OF ap_repD(6)[OF rep]] by auto
qed

text \<open>
  Stopping the thread while it waits delivers what is pending; stopping it while it processes delivers only what it has taken
  over.  In both cases the tear-down that follows frees no block twice.
\<close>

lemma stop_law:
  assumes inv: "ap_inv whole winv s" and room: "\<not> ap_writing s \<Longrightarrow> fb_cout (ap_buffers s) < ASYNCPROC_MAXBUFFER"
  shows "\<exists>s'. async_proc_stop proc s = Some s' \<and> async_proc_free s' \<noteq> None \<and>
    delivered (ap_data s') = delivered (ap_data s) @ concat (map parse
      (if ap_writing s then map (fcontent (ap_mem s)) (fb_filled (ap_toWrite s)) else ap_pending s))"
proof -
  let ?s = "s\<lparr>ap_running := False\<rparr>"
  have inv0: "ap_inv whole winv ?s" using inv by (simp add: ap_inv_def ap_rep_def ap_pending_def)
  obtain s1 where s1: "(if ap_writing ?s then Some ?s else async_proc_swap ?s) = Some s1" "ap_inv whole winv s1" "ap_writing s1"
      "ap_data s1 = ap_data s"
      "map (fcontent (ap_mem s1)) (fb_filled (ap_toWrite s1)) =
       (if ap_writing s then map (fcontent (ap_mem s)) (fb_filled (ap_toWrite s)) else ap_pending s)"
  proof (cases "ap_writing s")
    case True
    then show ?thesis using that[of ?s] inv0 by simp
  next
    case False
    have p: "ap_pending ?s = ap_pending s" by (simp add: ap_pending_def)
    obtain s1 where "async_proc_swap ?s = Some s1" "ap_inv whole winv s1" "ap_writing s1" "ap_data s1 = ap_data ?s"
        "map (fcontent (ap_mem s1)) (fb_filled (ap_toWrite s1)) = ap_pending ?s"
      using swap_law[OF inv0] False room by auto
    then show ?thesis using that[of s1] False p by simp
  qed
  obtain s2 where s2: "async_proc_process proc s1 = Some s2" "ap_inv whole winv s2" "\<not> ap_writing s2"
      "delivered (ap_data s2) = delivered (ap_data s1) @ concat (map parse (map (fcontent (ap_mem s1)) (fb_filled (ap_toWrite s1))))"
    using process_law[OF s1(2,3)] by blast
  obtain c n n1 n2 us ws where "ap_rep s2 c n n1 n2 us ws" using s2(2) by (auto simp: ap_inv_def)
  then obtain s3 where "thread_end s2 = Some s3" "ap_data s3 = ap_data s2" "async_proc_free s3 \<noteq> None"
    using thread_end_rep s2(3) by blast
  moreover have "async_proc_stop proc s = Option.bind (Some s1) (\<lambda>s. Option.bind (async_proc_process proc s) thread_end)"
    using s1(1) by (simp add: async_proc_stop_def Let_def)
  ultimately show ?thesis using s2(1,4) s1(4,5) by simp
qed

end

text \<open>The buffering of a client is an ordered stream of its units.\<close>

sublocale proc_client \<subseteq> units: ordered_stream "ap_step proc" "ap_allowed whole" "ap_inp parse" "ap_inv whole winv"
  "ap_view parse delivered"
proof unfold_locales
  fix s op
  assume inv: "ap_inv whole winv s" and al: "ap_allowed whole op s"
  show "\<exists>s'. ap_step proc op s = Some s' \<and> ap_inv whole winv s' \<and> ap_view parse delivered s' = ap_view parse delivered s @ ap_inp parse op"
  proof (cases op)
    case (PAppend alloc new st)
    then show ?thesis using append_law[OF inv, of alloc new st] al by auto
  next
    case PSwap
    then show ?thesis using swap_law[OF inv] al by auto
  next
    case PProcess
    then show ?thesis using process_law[OF inv] al by auto
  qed
qed

end
