(* ===== verification/AsyncTask.thy ===== *)
theory AsyncTask
  imports AsyncProcInv
begin

text \<open>
  The asynchronous tasks of \<open>demo/C/async_task/demo/common/async_task.c\<close> on top of the buffering of \<open>AsyncProc\<close>: a task is a
  header with a payload, written as one stream; the thread cuts the content of a buffer into tasks, executes those that hold
  SQL and passes all to the callback of the user.  What leaves the program, the statements handed to MySQL and the calls of
  the callback, is recorded in a log in the order in which it happens.  The results of MySQL and memcached are arguments.
\<close>

section \<open>Numbers in memory\<close>

text \<open>A \<open>u_int32_t\<close> in memory, least significant byte first.\<close>

definition le32 :: "u32 \<Rightarrow> u8 list" where
  "le32 w = [ucast w, ucast (drop_bit 8 w), ucast (drop_bit 16 w), ucast (drop_bit 24 w)]"

fun rd32 :: "u8 list \<Rightarrow> u32 option" where
  "rd32 (a # b # c # d # bs) =
     Some (ucast a OR push_bit 8 (ucast b) OR push_bit 16 (ucast c) OR push_bit 24 (ucast d))"
| "rd32 _ = None"

section \<open>Tasks\<close>

record async_storage_hdr =
  h_ver :: u8
  h_pad :: "u8 \<times> u8 \<times> u8"
  ds_command :: u32
  h_len :: u32

definition ASYNC_STORAGE_SQL :: u32 where "ASYNC_STORAGE_SQL = 65535"
definition DB_TYPE_ACCOUNT :: u8 where "DB_TYPE_ACCOUNT = 2"
definition DB_TYPE_SYNC :: u8 where "DB_TYPE_SYNC = 4"

definition hdr_bytes :: "async_storage_hdr \<Rightarrow> u8 list" where
  "hdr_bytes h = (case h_pad h of (p, q, r) \<Rightarrow> [h_ver h, p, q, r]) @ le32 (ds_command h) @ le32 (h_len h)"

fun load_hdr :: "u8 list \<Rightarrow> async_storage_hdr option" where
  "load_hdr (v # p # q # r # bs) = do {
     cmd \<leftarrow> rd32 bs;
     len \<leftarrow> rd32 (drop 4 bs);
     Some \<lparr>h_ver = v, h_pad = (p, q, r), ds_command = cmd, h_len = len\<rparr> }"
| "load_hdr _ = None"

text \<open>\<open>async_storage_sql_t\<close> without the statement that follows it.\<close>

definition sql_bytes :: "u8 \<Rightarrow> u32 \<Rightarrow> u8 list" where
  "sql_bytes db_type len = [db_type, 0, 0, 0] @ le32 len"

datatype sql_conn = AccountDb | SyncDb

datatype task_ev = SqlEv sql_conn u8 "u8 list" | CbEv async_storage_hdr "u8 list"

datatype resource = RMc | RAccount | RSync

record asyncConfig =
  c_mc :: bool
  c_account :: bool
  c_sync :: bool

record asyncTask =
  t_cfg :: asyncConfig
  t_open :: "resource list"
  t_cb :: bool
  t_log :: "task_ev list"

type_synonym sql_exec = "sql_conn \<Rightarrow> u8 \<Rightarrow> u8 list \<Rightarrow> int"

section \<open>The thread's side\<close>

definition conn_of :: "u8 \<Rightarrow> sql_conn option" where
  "conn_of db_type =
     (if db_type = DB_TYPE_ACCOUNT then Some AccountDb else if db_type = DB_TYPE_SYNC then Some SyncDb else None)"

text \<open>\<open>t\<close> is the memory from the payload on; \<open>db\<close> is the result of \<open>db_type_bin_execute_sql\<close>.\<close>

definition db_set_async_sql :: "sql_exec \<Rightarrow> u8 list \<Rightarrow> asyncTask \<Rightarrow> (int \<times> asyncTask) option" where
  "db_set_async_sql db t task =
     (if t = [] then None
      else case conn_of (hd t) of
        None \<Rightarrow> Some (-1, task)
      | Some mysql \<Rightarrow> do {
          len \<leftarrow> rd32 (drop 4 t);
          if length t < 8 + unat len then None
          else do {
            let sql = take (unat len) (drop 8 t);
            let task = task\<lparr>t_log := t_log task @ [SqlEv mysql (hd t) sql]\<rparr>;
            Some (if db mysql (hd t) sql \<noteq> 0 then -1 else 0, task) } })"

definition do_async_proc :: "sql_exec \<Rightarrow> u8 list \<Rightarrow> asyncTask \<Rightarrow> asyncTask option" where
  "do_async_proc db mem task = do {
     h \<leftarrow> load_hdr mem;
     task \<leftarrow> (if ds_command h = ASYNC_STORAGE_SQL then map_option snd (db_set_async_sql db (drop 12 mem) task) else Some task);
     if t_cb task
     then if length mem < 12 + unat (h_len h) then None
       else Some (task\<lparr>t_log := t_log task @ [CbEv h (take (unat (h_len h)) (drop 12 mem))]\<rparr>)
     else Some task }"

text \<open>The loop of \<open>_async_proc\<close>; \<open>mem\<close> is the memory from \<open>cur\<close> on.\<close>

function async_proc_loop :: "sql_exec \<Rightarrow> u8 list \<Rightarrow> int \<Rightarrow> asyncTask \<Rightarrow> asyncTask option" where
  "async_proc_loop db mem remain task =
     (if remain \<ge> 12
      then (case load_hdr mem of
              None \<Rightarrow> None
            | Some h \<Rightarrow>
                if uint (h_len h) > remain - 12 then Some task
                else (case do_async_proc db mem task of
                        None \<Rightarrow> None
                      | Some task \<Rightarrow> async_proc_loop db (drop (12 + unat (h_len h)) mem) (remain - 12 - uint (h_len h)) task))
      else Some task)"
  by pat_completeness auto
termination
  by (relation "measure (\<lambda>(db, mem, remain, task). nat remain)") (auto intro: less_le_trans[OF _ uint_ge_0])

declare async_proc_loop.simps [simp del]

definition async_proc_cb :: "sql_exec \<Rightarrow> asyncTask proc_cb" where
  "async_proc_cb db data len task = async_proc_loop db data len task"

section \<open>The client's side\<close>

text \<open>Both functions build the header and the parts of the stream on the stack; the unused entries of the stream are zero.\<close>

definition task_stream :: "u32 \<Rightarrow> u8 list \<Rightarrow> u32 \<Rightarrow> async_stream" where
  "task_stream cmd param param_len =
     (let hdr = \<lparr>h_ver = 1, h_pad = (0, 0, 0), ds_command = cmd, h_len = param_len\<rparr>
      in \<lparr>as_data = [hdr_bytes hdr, param, [], []], as_len = [12, sint param_len, 0, 0], as_cout = 2\<rparr>)"

definition task_async ::
  "(nat \<Rightarrow> addr \<times> (nat \<Rightarrow> u8)) \<Rightarrow> addr \<Rightarrow> u32 \<Rightarrow> u8 list \<Rightarrow> u32 \<Rightarrow> asyncTask asyncProc \<Rightarrow> (int \<times> asyncTask asyncProc) option" where
  "task_async alloc new cmd param param_len s =
     map_option (Pair 0) (async_proc_append_stream alloc new (task_stream cmd param param_len) s)"

definition task_sql_stream :: "int \<Rightarrow> u8 list \<Rightarrow> u32 \<Rightarrow> async_stream" where
  "task_sql_stream db_type sql sql_len =
     (let hdr = \<lparr>h_ver = 1, h_pad = (0, 0, 0), ds_command = ASYNC_STORAGE_SQL, h_len = sql_len + 8\<rparr>
      in \<lparr>as_data = [hdr_bytes hdr, sql_bytes (word_of_int db_type) sql_len, sql, []],
          as_len = [12, 8, sint sql_len, 0], as_cout = 3\<rparr>)"

definition task_sql_async ::
  "(nat \<Rightarrow> addr \<times> (nat \<Rightarrow> u8)) \<Rightarrow> addr \<Rightarrow> int \<Rightarrow> u8 list \<Rightarrow> u32 \<Rightarrow> asyncTask asyncProc \<Rightarrow> (int \<times> asyncTask asyncProc) option" where
  "task_sql_async alloc new db_type sql sql_len s =
     map_option (Pair 0) (async_proc_append_stream alloc new (task_sql_stream db_type sql sql_len) s)"

section \<open>Starting and stopping\<close>

text \<open>
  What the environment answers while a task object is set up: \<open>calloc\<close>, \<open>memcached_init\<close>, the two \<open>db_type_open\<close> and the
  allocations of the buffering.
\<close>

record init_env =
  ie_task :: bool
  ie_mc :: bool
  ie_account :: int
  ie_sync :: int
  ie_proc :: bool
  ie_bufs :: "(bool \<times> addr) \<times> (bool \<times> addr) \<times> (bool \<times> addr) \<times> (bool \<times> addr)"

text \<open>Opening a resource that is wanted; \<open>Inl\<close> is the jump to \<open>err\<close> with what is open by then.\<close>

definition open_resource :: "bool \<Rightarrow> bool \<Rightarrow> resource \<Rightarrow> resource list \<Rightarrow> resource list + resource list" where
  "open_resource wanted ok r opened =
     (if wanted then if ok then Inr (opened @ [r]) else Inl opened else Inr opened)"

definition open_all :: "init_env \<Rightarrow> asyncConfig \<Rightarrow> resource list + resource list" where
  "open_all e cfg =
     (case open_resource (c_mc cfg) (ie_mc e) RMc [] of
        Inl os \<Rightarrow> Inl os
      | Inr os \<Rightarrow>
          (case open_resource (c_account cfg) (\<not> ie_account e < 0) RAccount os of
             Inl os \<Rightarrow> Inl os
           | Inr os \<Rightarrow> open_resource (c_sync cfg) (\<not> ie_sync e < 0) RSync os))"

text \<open>\<open>Inl\<close> is the null pointer with the resources that were released on the way out; a failed assertion is a fault.\<close>

definition async_task_def_func_init ::
  "init_env \<Rightarrow> asyncConfig \<Rightarrow> bool \<Rightarrow> blocks \<Rightarrow> (resource list + asyncTask asyncProc) option" where
  "async_task_def_func_init e cfg cb H =
     (if \<not> ie_task e then None
      else case open_all e cfg of
        Inl os \<Rightarrow> Some (Inl ((if RMc \<in> set os then [RMc] else []) @ [RSync, RAccount]))
      | Inr os \<Rightarrow>
          (case ie_bufs e of
             (a1, a2, a3, a4) \<Rightarrow>
               (case async_proc_init (ie_proc e) a1 a2 \<lparr>t_cfg = cfg, t_open = os, t_cb = cb, t_log = []\<rparr> H of
                  None \<Rightarrow> None
                | Some s \<Rightarrow> Some (Inr (async_proc_start a3 a4 s)))))"

text \<open>The result: the task data as it was freed, what was released, and the memory.\<close>

definition async_task_stop :: "sql_exec \<Rightarrow> asyncTask asyncProc \<Rightarrow> (asyncTask \<times> resource list \<times> blocks) option" where
  "async_task_stop db s = do {
     s \<leftarrow> async_proc_stop (async_proc_cb db) s;
     H \<leftarrow> async_proc_free s;
     let cfg = t_cfg (ap_data s);
     Some (ap_data s,
       (if c_mc cfg then [RMc] else []) @ (if c_sync cfg then [RSync] else []) @ (if c_account cfg then [RAccount] else []), H) }"

section \<open>Cutting bytes into tasks\<close>

lemma rd32_le32: "rd32 (le32 w @ bs) = Some w"
proof -
  have "ucast (ucast w :: u8) OR push_bit 8 (ucast (ucast (drop_bit 8 w) :: u8)) OR
      push_bit 16 (ucast (ucast (drop_bit 16 w) :: u8)) OR push_bit 24 (ucast (ucast (drop_bit 24 w) :: u8)) = w"
  proof (rule bit_word_eqI)
    fix n assume "n < LENGTH(32)"
    then consider "n < 8" | "8 \<le> n" "n < 16" | "16 \<le> n" "n < 24" | "24 \<le> n" "n < 32" by force
    then show "bit (ucast (ucast w :: u8) OR push_bit 8 (ucast (ucast (drop_bit 8 w) :: u8)) OR
        push_bit 16 (ucast (ucast (drop_bit 16 w) :: u8)) OR push_bit 24 (ucast (ucast (drop_bit 24 w) :: u8)) :: u32) n = bit w n"
      by cases (auto simp: bit_simps)
  qed
  then show ?thesis by (simp add: le32_def)
qed

lemma length_le32 [simp]: "length (le32 w) = 4"
  by (simp add: le32_def)

lemma length_hdr_bytes [simp]: "length (hdr_bytes h) = 12"
  by (simp add: hdr_bytes_def split: prod.splits)

lemma load_hdr_bytes [simp]: "load_hdr (hdr_bytes h @ bs) = Some h"
proof -
  obtain p q r where p: "h_pad h = (p, q, r)" by (cases "h_pad h")
  have "load_hdr (hdr_bytes h @ bs) = Some \<lparr>h_ver = h_ver h, h_pad = (p, q, r), ds_command = ds_command h, h_len = h_len h\<rparr>"
    using rd32_le32[of "ds_command h" "le32 (h_len h) @ bs"] rd32_le32[of "h_len h" bs] by (simp add: hdr_bytes_def p)
  then show ?thesis by (simp flip: p)
qed

text \<open>A task as its header and its payload.\<close>

type_synonym msg = "async_storage_hdr \<times> u8 list"

definition encode :: "msg \<Rightarrow> u8 list" where
  "encode = (\<lambda>(h, p). hdr_bytes h @ p)"

text \<open>A payload with SQL holds the inner header and as many bytes as that says.\<close>

definition valid_msg :: "msg \<Rightarrow> bool" where
  "valid_msg = (\<lambda>(h, p). length p = unat (h_len h) \<and>
     (ds_command h = ASYNC_STORAGE_SQL \<longrightarrow>
        8 \<le> length p \<and> (case rd32 (drop 4 p) of None \<Rightarrow> False | Some len \<Rightarrow> 8 + unat len \<le> length p)))"

function decode :: "u8 list \<Rightarrow> msg list" where
  "decode x =
     (case load_hdr x of
        None \<Rightarrow> []
      | Some h \<Rightarrow>
          if 12 + unat (h_len h) \<le> length x
          then (h, take (unat (h_len h)) (drop 12 x)) # decode (drop (12 + unat (h_len h)) x)
          else [])"
  by pat_completeness auto
termination
  by (relation "measure length") auto

declare decode.simps [simp del]

definition whole_msgs :: "u8 list \<Rightarrow> bool" where
  "whole_msgs x \<longleftrightarrow> list_all valid_msg (decode x) \<and> concat (map encode (decode x)) = x"

text \<open>What a task is to do: the SQL statement on the connection of its database, and the call of the callback.\<close>

definition sql_events :: "u8 list \<Rightarrow> task_ev list" where
  "sql_events p =
     (case conn_of (hd p) of
        None \<Rightarrow> []
      | Some c \<Rightarrow> [SqlEv c (hd p) (take (unat (the (rd32 (drop 4 p)))) (drop 8 p))])"

definition msg_events :: "bool \<Rightarrow> msg \<Rightarrow> task_ev list" where
  "msg_events cb = (\<lambda>(h, p). (if ds_command h = ASYNC_STORAGE_SQL then sql_events p else []) @ (if cb then [CbEv h p] else []))"

definition parse_events :: "bool \<Rightarrow> u8 list \<Rightarrow> task_ev list" where
  "parse_events cb x = concat (map (msg_events cb) (decode x))"

lemma decode_Nil [simp]: "decode [] = []"
  by (simp add: decode.simps)

lemma decode_encode:
  assumes "length p = unat (h_len h)"
  shows "decode (encode (h, p) @ y) = (h, p) # decode y"
proof -
  have "load_hdr (hdr_bytes h @ p @ y) = Some h" by simp
  then show ?thesis using assms by (subst decode.simps) (simp add: encode_def)
qed

lemma decode_encodes: "list_all valid_msg ms \<Longrightarrow> decode (concat (map encode ms) @ y) = ms @ decode y"
proof (induction ms)
  case (Cons m ms)
  obtain h p where m: "m = (h, p)" by (cases m)
  have "length p = unat (h_len h)" using Cons.prems by (simp add: m valid_msg_def)
  then show ?case using Cons decode_encode[of p h "concat (map encode ms) @ y"] by (simp add: m)
qed simp

lemma whole_msgs_iff: "whole_msgs x \<longleftrightarrow> (\<exists>ms. list_all valid_msg ms \<and> x = concat (map encode ms))"
  using decode_encodes[of _ "[]"] unfolding whole_msgs_def by auto

lemma whole_encode: "valid_msg m \<Longrightarrow> whole_msgs (encode m) \<and> parse_events cb (encode m) = msg_events cb m"
  using decode_encodes[of "[m]" "[]"] by (simp add: whole_msgs_def parse_events_def)

section \<open>The callback delivers whole tasks\<close>

lemma do_async_proc_ok:
  assumes "valid_msg (h, p)" "t_cb w = cb"
  shows "\<exists>w'. do_async_proc db (encode (h, p) @ y) w = Some w' \<and> t_cb w' = cb \<and> t_log w' = t_log w @ msg_events cb (h, p)"
proof -
  have l: "length p = unat (h_len h)" using assms(1) by (simp add: valid_msg_def)
  have ld: "load_hdr (encode (h, p) @ y) = Some h" "drop 12 (encode (h, p) @ y) = p @ y" "12 + length p \<le> length (encode (h, p) @ y)"
    by (simp_all add: encode_def)
  obtain w1 where w1: "(if ds_command h = ASYNC_STORAGE_SQL then map_option snd (db_set_async_sql db (p @ y) w) else Some w) = Some w1"
      "t_cb w1 = cb" "t_log w1 = t_log w @ (if ds_command h = ASYNC_STORAGE_SQL then sql_events p else [])"
  proof (cases "ds_command h = ASYNC_STORAGE_SQL")
    case True
    then obtain len where p: "8 \<le> length p" "rd32 (drop 4 p) = Some len" "8 + unat len \<le> length p"
      using assms(1) by (auto simp: valid_msg_def split: option.splits)
    obtain a b c d e where d4: "drop 4 p = a # b # c # d # e" using p(2) by (cases "drop 4 p" rule: rd32.cases) auto
    have r: "rd32 (drop 4 (p @ y)) = Some len" using p d4 by simp
    have "p \<noteq> []" using p(1) by auto
    then have "\<exists>k w1. db_set_async_sql db (p @ y) w = Some (k, w1) \<and> t_cb w1 = cb \<and> t_log w1 = t_log w @ sql_events p"
      using p r assms(2) by (cases "conn_of (hd p)") (auto simp: db_set_async_sql_def sql_events_def Let_def)
    then show ?thesis using that True by auto
  next
    case False
    then show ?thesis using that[of w] assms(2) by simp
  qed
  have "do_async_proc db (encode (h, p) @ y) w =
      Option.bind (if ds_command h = ASYNC_STORAGE_SQL then map_option snd (db_set_async_sql db (p @ y) w) else Some w)
        (\<lambda>w1. if t_cb w1 then Some (w1\<lparr>t_log := t_log w1 @ [CbEv h p]\<rparr>) else Some w1)"
    using ld(3) l unfolding do_async_proc_def ld(1,2) by (simp cong: if_cong)
  also have "\<dots> = (if t_cb w1 then Some (w1\<lparr>t_log := t_log w1 @ [CbEv h p]\<rparr>) else Some w1)" by (simp only: w1(1) bind.bind_lunit)
  finally show ?thesis using w1(2,3) by (cases cb) (simp_all add: msg_events_def)
qed

lemma async_proc_loop_ok:
  "list_all valid_msg ms \<Longrightarrow> t_cb w = cb \<Longrightarrow>
    \<exists>w'. async_proc_loop db (concat (map encode ms) @ rest) (int (length (concat (map encode ms)))) w = Some w' \<and>
      t_cb w' = cb \<and> t_log w' = t_log w @ concat (map (msg_events cb) ms)"
proof (induction ms arbitrary: w)
  case Nil
  then show ?case by (subst async_proc_loop.simps) simp
next
  case (Cons m ms)
  obtain h p where m: "m = (h, p)" by (cases m)
  have l: "length p = unat (h_len h)" using Cons.prems by (simp add: m valid_msg_def)
  let ?y = "concat (map encode ms) @ rest"
  obtain w1 where w1: "do_async_proc db (encode (h, p) @ ?y) w = Some w1" "t_cb w1 = cb"
      "t_log w1 = t_log w @ msg_events cb (h, p)"
    using do_async_proc_ok[of h p w cb db ?y] Cons.prems m by auto
  have e: "load_hdr (encode (h, p) @ ?y) = Some h" "length (encode (h, p)) = 12 + unat (h_len h)"
      "drop (12 + unat (h_len h)) (encode (h, p) @ ?y) = ?y"
    by (simp_all add: encode_def l)
  define R where "R = int (length (concat (map encode ms)))"
  have "int (unat (h_len h)) = uint (h_len h)" by simp
  then have len: "int (length (concat (map encode (m # ms)))) = 12 + uint (h_len h) + R" "0 \<le> R" "0 \<le> uint (h_len h)"
    using e(2) by (simp_all add: m R_def)
  have "async_proc_loop db (encode (h, p) @ ?y) (12 + uint (h_len h) + R) w = async_proc_loop db ?y R w1"
    using len(2,3) w1(1) e(1,3) by (subst async_proc_loop.simps) simp
  then have "async_proc_loop db (encode (h, p) @ ?y) (int (length (concat (map encode (m # ms))))) w =
      async_proc_loop db ?y (int (length (concat (map encode ms)))) w1"
    by (simp only: len(1) R_def)
  then show ?case using Cons.IH[OF _ w1(2)] Cons.prems(1) w1(3) by (simp add: m)
qed

text \<open>So the thread's callback is a client of the buffering.\<close>

interpretation tasks: proc_client "async_proc_cb db" whole_msgs "parse_events cb" t_log "\<lambda>w :: asyncTask. t_cb w = cb" for db cb
proof unfold_locales
  show "whole_msgs []" "parse_events cb [] = []" by (simp_all add: whole_msgs_def parse_events_def)
next
  fix x y assume w: "whole_msgs x" "whole_msgs y"
  then have "decode (x @ y) = decode x @ decode y" using decode_encodes[of "decode x" y] by (simp add: whole_msgs_def)
  then show "whole_msgs (x @ y) \<and> parse_events cb (x @ y) = parse_events cb x @ parse_events cb y"
    using w by (simp add: whole_msgs_def parse_events_def)
next
  fix w :: asyncTask and x rest assume "t_cb w = cb" "whole_msgs x"
  then show "\<exists>w'. async_proc_cb db (x @ rest) (int (length x)) w = Some w' \<and> t_cb w' = cb \<and> t_log w' = t_log w @ parse_events cb x"
    using async_proc_loop_ok[of "decode x" w cb db rest] by (simp add: whole_msgs_def async_proc_cb_def parse_events_def)
qed

section \<open>The calls of the client\<close>

lemma sint_nonneg: "0 \<le> sint (n :: u32) \<Longrightarrow> sint n = int (unat n) \<and> unat n < 2 ^ 31"
proof -
  assume "0 \<le> sint n"
  then have "unat n < 2 ^ 31" using sint_neg_iff[of n] by linarith
  have u: "uint n = int (unat n)" by simp
  have "int (unat n) < int (2 ^ 31)" using \<open>unat n < 2 ^ 31\<close> by (simp only: of_nat_less_iff)
  then have "uint n < 2 ^ 31" by simp
  then have "sint n = int (unat n)" unfolding u[symmetric] by (rule sint_small)
  then show ?thesis using \<open>unat n < 2 ^ 31\<close> by blast
qed

lemma upt_small: "[0..<2] = [0, Suc 0]" "[0..<3] = [0, Suc 0, 2]"
  by (simp_all add: upt_rec)

lemma task_stream_bytes:
  assumes "stream_ok (task_stream cmd param n)"
  shows "stream_bytes (task_stream cmd param n) =
      encode (\<lparr>h_ver = 1, h_pad = (0, 0, 0), ds_command = cmd, h_len = n\<rparr>, take (unat n) param)"
    "unat n \<le> length param"
proof -
  have a: "0 \<le> sint n" "sint n \<le> int (length param)"
    using assms by (auto simp: stream_ok_def task_stream_def Let_def dest!: spec[of _ 1])
  show "unat n \<le> length param" using conjunct1[OF sint_nonneg[OF a(1)]] a(2) by linarith
  show "stream_bytes (task_stream cmd param n) =
      encode (\<lparr>h_ver = 1, h_pad = (0, 0, 0), ds_command = cmd, h_len = n\<rparr>, take (unat n) param)"
    using sint_nonneg[OF a(1)] by (simp add: stream_bytes_def task_stream_def Let_def upt_small stream_part_def encode_def)
qed

lemma task_sql_stream_bytes:
  assumes "stream_ok (task_sql_stream t sql n)"
  shows "stream_bytes (task_sql_stream t sql n) =
      encode (\<lparr>h_ver = 1, h_pad = (0, 0, 0), ds_command = ASYNC_STORAGE_SQL, h_len = n + 8\<rparr>,
        sql_bytes (word_of_int t) n @ take (unat n) sql)"
    "unat n \<le> length sql" "unat n < 2 ^ 31"
proof -
  have a: "0 \<le> sint n" "sint n \<le> int (length sql)"
    using assms by (auto simp: stream_ok_def task_sql_stream_def Let_def dest!: spec[of _ 2])
  show "unat n \<le> length sql" using conjunct1[OF sint_nonneg[OF a(1)]] a(2) by linarith
  show "unat n < 2 ^ 31" using sint_nonneg[OF a(1)] by simp
  show "stream_bytes (task_sql_stream t sql n) =
      encode (\<lparr>h_ver = 1, h_pad = (0, 0, 0), ds_command = ASYNC_STORAGE_SQL, h_len = n + 8\<rparr>,
        sql_bytes (word_of_int t) n @ take (unat n) sql)"
    using sint_nonneg[OF a(1)]
    by (simp add: stream_bytes_def task_sql_stream_def Let_def upt_small stream_part_def encode_def sql_bytes_def)
qed

lemma rd32_sql: "rd32 (drop 4 (sql_bytes t n @ x)) = Some n"
  using rd32_le32[of n x] by (simp add: sql_bytes_def)

lemma sql_valid:
  assumes "unat n \<le> length sql" "unat n < 2 ^ 31"
  shows "valid_msg (\<lparr>h_ver = 1, h_pad = (0, 0, 0), ds_command = ASYNC_STORAGE_SQL, h_len = n + 8\<rparr>, sql_bytes t n @ take (unat n) sql)"
proof -
  have "unat (n + 8) = unat n + 8" using assms(2) by (subst unat_add_lem[THEN iffD1]) simp_all
  then show ?thesis using assms(1) rd32_sql[of t n "take (unat n) sql"]
    by (simp add: valid_msg_def sql_bytes_def del: drop_append)
qed

datatype task_op =
    TaskAsync "nat \<Rightarrow> addr \<times> (nat \<Rightarrow> u8)" addr u32 "u8 list" u32
  | TaskSql "nat \<Rightarrow> addr \<times> (nat \<Rightarrow> u8)" addr int "u8 list" u32
  | ThreadSwap
  | ThreadProcess

fun task_step :: "sql_exec \<Rightarrow> task_op \<Rightarrow> asyncTask asyncProc \<Rightarrow> asyncTask asyncProc option" where
  "task_step db (TaskAsync alloc new cmd param n) s = map_option snd (task_async alloc new cmd param n s)"
| "task_step db (TaskSql alloc new t sql n) s = map_option snd (task_sql_async alloc new t sql n s)"
| "task_step db ThreadSwap s = async_proc_swap s"
| "task_step db ThreadProcess s = async_proc_process (async_proc_cb db) s"

text \<open>A task that is not made by \<open>task_sql_async\<close> must not use its command.\<close>

fun task_allowed :: "task_op \<Rightarrow> asyncTask asyncProc \<Rightarrow> bool" where
  "task_allowed (TaskAsync alloc new cmd param n) s \<longleftrightarrow>
     cmd \<noteq> ASYNC_STORAGE_SQL \<and> append_allowed alloc new (task_stream cmd param n) s"
| "task_allowed (TaskSql alloc new t sql n) s \<longleftrightarrow> append_allowed alloc new (task_sql_stream t sql n) s"
| "task_allowed ThreadSwap s \<longleftrightarrow> \<not> ap_writing s \<and> fb_cout (ap_buffers s) < ASYNCPROC_MAXBUFFER"
| "task_allowed ThreadProcess s \<longleftrightarrow> ap_writing s"

text \<open>What a call asks for.\<close>

fun task_inp :: "bool \<Rightarrow> task_op \<Rightarrow> task_ev list" where
  "task_inp cb (TaskAsync alloc new cmd param n) =
     (if cb then [CbEv \<lparr>h_ver = 1, h_pad = (0, 0, 0), ds_command = cmd, h_len = n\<rparr> (take (unat n) param)] else [])"
| "task_inp cb (TaskSql alloc new t sql n) =
     (case conn_of (word_of_int t) of None \<Rightarrow> [] | Some c \<Rightarrow> [SqlEv c (word_of_int t) (take (unat n) sql)]) @
     (if cb then [CbEv \<lparr>h_ver = 1, h_pad = (0, 0, 0), ds_command = ASYNC_STORAGE_SQL, h_len = n + 8\<rparr>
        (sql_bytes (word_of_int t) n @ take (unat n) sql)] else [])"
| "task_inp cb _ = []"

definition task_inv :: "bool \<Rightarrow> asyncTask asyncProc \<Rightarrow> bool" where
  "task_inv cb = ap_inv whole_msgs (\<lambda>w. t_cb w = cb)"

text \<open>What was done, then what the tasks in the buffers are to do.\<close>

definition task_view :: "bool \<Rightarrow> asyncTask asyncProc \<Rightarrow> task_ev list" where
  "task_view cb = ap_view (parse_events cb) t_log"

lemma task_append_law:
  assumes "task_inv cb s" "append_allowed alloc new st s" "stream_bytes st = encode m" "valid_msg m"
  shows "\<exists>s'. async_proc_append_stream alloc new st s = Some s' \<and> task_inv cb s' \<and>
    task_view cb s' = task_view cb s @ msg_events cb m"
  using tasks.append_law[where cb = cb, of s alloc new st] assms whole_encode[OF assms(4), of cb]
  by (simp add: task_inv_def task_view_def)

interpretation calls: ordered_stream "task_step db" task_allowed "task_inp cb" "task_inv cb" "task_view cb" for db cb
proof unfold_locales
  fix s op
  assume inv: "task_inv cb s" and al: "task_allowed op s"
  show "\<exists>s'. task_step db op s = Some s' \<and> task_inv cb s' \<and> task_view cb s' = task_view cb s @ task_inp cb op"
  proof (cases op)
    case (TaskAsync alloc new cmd param n)
    let ?m = "(\<lparr>h_ver = 1, h_pad = (0, 0, 0), ds_command = cmd, h_len = n\<rparr>, take (unat n) param)"
    have al: "append_allowed alloc new (task_stream cmd param n) s" "cmd \<noteq> ASYNC_STORAGE_SQL" using al TaskAsync by simp_all
    then have st: "stream_ok (task_stream cmd param n)" by (simp add: append_allowed_def)
    note b = task_stream_bytes[OF st]
    have "valid_msg ?m" using al(2) b(2) by (simp add: valid_msg_def)
    moreover have "msg_events cb ?m = task_inp cb op" using al(2) TaskAsync by (simp add: msg_events_def)
    ultimately show ?thesis using task_append_law[OF inv al(1) b(1)] TaskAsync by (auto simp: task_async_def)
  next
    case (TaskSql alloc new t sql n)
    let ?m = "(\<lparr>h_ver = 1, h_pad = (0, 0, 0), ds_command = ASYNC_STORAGE_SQL, h_len = n + 8\<rparr>,
      sql_bytes (word_of_int t) n @ take (unat n) sql)"
    have al: "append_allowed alloc new (task_sql_stream t sql n) s" using al TaskSql by simp
    then have st: "stream_ok (task_sql_stream t sql n)" by (simp add: append_allowed_def)
    note b = task_sql_stream_bytes[OF st]
    have hd: "hd (sql_bytes (word_of_int t) n @ x) = word_of_int t" "drop 8 (sql_bytes (word_of_int t) n @ x) = x" for x
      by (simp_all add: sql_bytes_def)
    have "sql_events (sql_bytes (word_of_int t) n @ take (unat n) sql) =
        (case conn_of (word_of_int t) of None \<Rightarrow> [] | Some c \<Rightarrow> [SqlEv c (word_of_int t) (take (unat n) sql)])"
      unfolding sql_events_def hd rd32_sql by (cases "conn_of (word_of_int t)") simp_all
    then have "msg_events cb ?m = task_inp cb op" using TaskSql by (simp add: msg_events_def)
    then show ?thesis using task_append_law[OF inv al b(1) sql_valid[OF b(2,3)]] TaskSql by (auto simp: task_sql_async_def)
  next
    case ThreadSwap
    then show ?thesis using tasks.swap_law[where cb = cb, of s] inv al by (auto simp: task_inv_def task_view_def)
  next
    case ThreadProcess
    then show ?thesis using tasks.process_law[where cb = cb and db = db, of s] inv al by (auto simp: task_inv_def task_view_def)
  qed
qed

section \<open>Properties\<close>

text \<open>What has been put into buffers and is not taken over by the thread.\<close>

definition ap_waiting :: "'w asyncProc \<Rightarrow> u8 list list" where
  "ap_waiting s = map (fcontent (ap_mem s)) (fb_filled (ap_buffers s) @
     (case fb_deref (ap_current s) of None \<Rightarrow> [] | Some c \<Rightarrow> [c]))"

lemma pending_waiting: "ap_pending s = map (fcontent (ap_mem s)) (fb_filled (ap_toWrite s)) @ ap_waiting s"
  by (simp add: ap_pending_def ap_waiting_def)

lemma async_task_stop_eq:
  assumes "async_proc_stop (async_proc_cb db) s = Some s'" "async_proc_free s' \<noteq> None"
  shows "\<exists>rs H. async_task_stop db s = Some (ap_data s', rs, H)"
  using assms by (auto simp: async_task_stop_def Let_def)

text \<open>Setting up with working connections gives an empty, well-formed task object.\<close>

lemma task_init_ok:
  assumes "ie_task e" "open_all e cfg = Inr os" "ie_proc e" "ie_bufs e = ((True, a1), (True, a2), (True, a3), (True, a4))"
    "distinct [NULL, a1, a2, a3, a4]"
  shows "\<exists>s c n n1 n2. async_task_def_func_init e cfg cb H = Some (Inr s) \<and> ap_rep s c n n1 n2 [] [] \<and> task_inv cb s \<and>
    task_view cb s = [] \<and> (\<forall>q. q \<notin> {a1, a2, a3, a4} \<longrightarrow> ap_mem s q = H q)"
proof -
  let ?d = "\<lparr>t_cfg = cfg, t_open = os, t_cb = cb, t_log = []\<rparr>"
  obtain s0 where s0: "async_proc_init True (True, a1) (True, a2) ?d H = Some s0"
    by (simp add: async_proc_init_def async_proc_def_init_def case_prod_beta)
  let ?s = "async_proc_start (True, a3) (True, a4) s0"
  obtain c n n1 n2 where r: "ap_rep ?s c n n1 n2 [] []" "ap_data ?s = ?d" "\<forall>q. q \<notin> {a1, a2, a3, a4} \<longrightarrow> ap_mem ?s q = H q"
      and p: "ap_pending ?s = [[]]"
    using start_rep[OF assms(5) s0] by blast
  have "task_inv cb ?s" unfolding task_inv_def by (rule ap_invI[OF r(1)]) (use r(2) p in \<open>simp_all add: tasks.whole_Nil\<close>)
  moreover have "task_view cb ?s = []" using p r(2) by (simp add: task_view_def ap_view_def parse_events_def)
  moreover have "async_task_def_func_init e cfg cb H = Some (Inr ?s)"
    using assms s0 by (simp add: async_task_def_func_init_def)
  ultimately show ?thesis using r(1,3) by blast
qed

text \<open>C5: no task is lost, doubled or reordered.  Whatever sequence of \<open>task_async\<close>, \<open>task_sql_async\<close> and steps of the thread
  runs, as long as the array of buffers does not fill up between two swaps, allocations return blocks that are not in use,
  the parameters have the lengths that the calls give and fit into a message, and \<open>task_async\<close> is not called with the command
  65535 that marks a statement, no step faults, and what was done so far, SQL statements and calls of the callback in their order, followed by what the buffered tasks are to
  do, is what it was at first followed by what the calls asked for, in order.\<close>

theorem tasks_in_order:
  assumes "task_inv cb s" and "all_allowed (task_step db) task_allowed ops s"
  shows "\<exists>s'. foldM (task_step db) ops s = Some s' \<and> task_inv cb s' \<and> task_view cb s' = task_view cb s @ concat (map (task_inp cb) ops)"
  by (rule calls.run_view[OF assms])

definition sample_init :: init_env where
  "sample_init = \<lparr>ie_task = True, ie_mc = True, ie_account = 0, ie_sync = 0, ie_proc = True,
     ie_bufs = ((True, 8), (True, 16), (True, 24), (True, 32))\<rparr>"

definition sample_cfg :: asyncConfig where
  "sample_cfg = \<lparr>c_mc = False, c_account = False, c_sync = True\<rparr>"

definition sample_tasks :: "asyncTask asyncProc" where
  "sample_tasks = projr (the (async_task_def_func_init sample_init sample_cfg True Map.empty))"

definition sample_alloc :: "nat \<Rightarrow> addr \<times> (nat \<Rightarrow> u8)" where
  "sample_alloc i = (of_nat (100 + 8 * i), \<lambda>_. 0)"

lemma sample_tasks_ok:
  "\<exists>c n n1 n2. ap_rep sample_tasks c n n1 n2 [] [] \<and> task_inv True sample_tasks \<and> task_view True sample_tasks = [] \<and>
    (\<forall>q. q \<notin> {8, 16, 24, 32} \<longrightarrow> ap_mem sample_tasks q = None)"
proof -
  have "\<exists>s c n n1 n2. async_task_def_func_init sample_init sample_cfg True Map.empty = Some (Inr s) \<and> ap_rep s c n n1 n2 [] [] \<and>
      task_inv True s \<and> task_view True s = [] \<and> (\<forall>q. q \<notin> {8, 16, 24, 32} \<longrightarrow> ap_mem s q = Map.empty q)"
    by (rule task_init_ok[where os = "[RSync]"])
      (simp_all add: sample_init_def sample_cfg_def open_all_def open_resource_def)
  then obtain s where s: "async_task_def_func_init sample_init sample_cfg True Map.empty = Some (Inr s)"
      "\<exists>c n n1 n2. ap_rep s c n n1 n2 [] [] \<and> task_inv True s \<and> task_view True s = [] \<and>
        (\<forall>q. q \<notin> {8, 16, 24, 32} \<longrightarrow> ap_mem s q = None)" by fastforce
  have "sample_tasks = s" using s(1) by (simp add: sample_tasks_def)
  then show ?thesis using s(2) by simp
qed

text \<open>A statement is queued while the thread processes.\<close>

definition sample_task_ops :: "task_op list" where
  "sample_task_ops = [ThreadSwap, TaskSql sample_alloc 200 4 [115, 101, 108] 3]"

lemma sample_tasks_run:
  "\<exists>s. foldM (task_step db) sample_task_ops sample_tasks = Some s \<and>
    all_allowed (task_step db) task_allowed sample_task_ops sample_tasks \<and>
    ap_writing s \<and> task_inv True s"
proof -
  obtain c n n1 n2 where r: "ap_rep sample_tasks c n n1 n2 [] []" "task_inv True sample_tasks"
      "\<forall>q. q \<notin> {8, 16, 24, 32} \<longrightarrow> ap_mem sample_tasks q = None" using sample_tasks_ok by blast
  have w: "\<not> ap_writing sample_tasks" using ap_repD(11)[OF r(1)] by (auto simp: ap_phase_def split: if_splits)
  have room: "fb_cout (ap_buffers sample_tasks) < ASYNCPROC_MAXBUFFER"
    using ap_repD(5)[OF r(1)] by (simp add: fholds_def ASYNCPROC_MAXBUFFER_def)
  obtain s1 c1 m1 n3 n4 where s1: "async_proc_swap sample_tasks = Some s1" "ap_rep s1 c1 m1 n3 n4 [] ([] @ [c])"
      "ap_writing s1" "fb_cout (ap_buffers s1) = 0" "ap_mem s1 = ap_mem sample_tasks"
    using swap_rep[OF r(1) w room] by blast
  let ?st = "task_sql_stream 4 [115, 101, 108] 3"
  have three: "i < nat (as_cout ?st) \<longleftrightarrow> i = 0 \<or> i = 1 \<or> i = 2" for i
    by (simp add: task_sql_stream_def Let_def) linarith
  have al: "append_allowed sample_alloc 200 ?st s1"
  proof (rule append_allowedI[OF s1(2)])
    show ok: "stream_ok ?st"
      unfolding stream_ok_def three by (simp add: task_sql_stream_def Let_def sql_bytes_def)
    show "int (length (stream_bytes ?st)) < 2 ^ 31 - ASYNCPROC_BUFMAX"
      by (simp add: task_sql_stream_bytes[OF ok] encode_def sql_bytes_def ASYNCPROC_BUFMAX_def)
    show "fb_cout (ap_buffers s1) \<le> ASYNCPROC_MAXBUFFER" using s1(4) by (simp add: ASYNCPROC_MAXBUFFER_def)
    show "ap_mem s1 200 = None" using r(3) s1(5) by simp
    show "\<forall>i < nat (as_cout ?st). fst (sample_alloc i) \<noteq> NULL \<and> ap_mem s1 (fst (sample_alloc i)) = None \<and> fst (sample_alloc i) \<noteq> 200"
      unfolding three using r(3) s1(5) by (auto simp: sample_alloc_def)
    show "inj_on (\<lambda>i. fst (sample_alloc i)) {0..<nat (as_cout ?st)}"
      by (auto simp: inj_on_def three sample_alloc_def)
  qed simp
  obtain s2 c2 n5 us2 where s2: "async_proc_append_stream sample_alloc 200 ?st s1 = Some s2" "ap_rep s2 c2 n5 n3 n4 us2 ([] @ [c])"
      "ap_writing s2 = ap_writing s1" "fb_cout (ap_buffers s2) \<le> fb_cout (ap_buffers s1) + 1"
    using append_rep[OF s1(2) al] by (auto simp: Let_def)
  have run: "foldM (task_step db) sample_task_ops sample_tasks = Some s2"
    "all_allowed (task_step db) task_allowed sample_task_ops sample_tasks"
    using s1(1) s2(1) w room al by (simp_all add: sample_task_ops_def task_sql_async_def)
  then have "task_inv True s2" using calls.run_view[OF r(2) run(2)] by simp
  then show ?thesis using run s2 s1(3,4) by auto
qed

theorem tasks_in_order_witness:
  "\<exists>s. foldM (task_step (\<lambda>_ _ _. 0)) sample_task_ops sample_tasks = Some s \<and> task_inv True s \<and>
     task_view True s = task_view True sample_tasks @ concat (map (task_inp True) sample_task_ops)"
proof -
  have "task_inv True sample_tasks" using sample_tasks_ok by blast
  moreover have "all_allowed (task_step (\<lambda>_ _ _. 0)) task_allowed sample_task_ops sample_tasks"
    using sample_tasks_run[of "\<lambda>_ _ _. 0"] by blast
  ultimately show ?thesis by (rule tasks_in_order)
qed



text \<open>A failed set-up releases whatever it had opened.\<close>

lemma open_all_fails:
  "open_all e cfg = Inl os \<Longrightarrow> set os \<subseteq> set ((if RMc \<in> set os then [RMc] else []) @ [RSync, RAccount])"
  by (auto simp: open_all_def open_resource_def split: if_splits sum.splits)

end
