(* ===== verification/LinkageLog.thy ===== *)
theory LinkageLog
  imports AsyncLog AsyncTask
begin

text \<open>
  The linkage log of \<open>demo/C/linkagelog\<close>: records with a header are appended to the buffers of \<open>arbuffer.h\<close> in the way of
  the asynchronous logger, and the thread, instead of writing the buffers to a file, looks at the records in them and
  calls the function that the table of \<open>linkage_log.c\<close> has for each.  What these functions print is a list of reports.

  The state has the test of \<open>running_\<close> at the top of the thread's loop as a step of its own, since what happens to the
  records when the log is stopped depends on where the thread is.  The mutual exclusion, the buffers and the memory are
  those of \<open>AsyncLog\<close>; \<open>as_asynclog\<close> reads a state of this log as one of the other, and appending, swapping and refilling
  commute with it, so that the invariant and the lemmas of \<open>AsyncLog\<close> carry over.
\<close>

section \<open>Records\<close>

fun rd16 :: "u8 list \<Rightarrow> u16 option" where
  "rd16 (a # b # bs) = Some (ucast a OR push_bit 8 (ucast b))"
| "rd16 _ = None"

definition le16 :: "u16 \<Rightarrow> u8 list" where
  "le16 w = [ucast w, ucast (drop_bit 8 w)]"

definition rd64 :: "u8 list \<Rightarrow> u64 option" where
  "rd64 bs = do { l \<leftarrow> rd32 bs; h \<leftarrow> rd32 (drop 4 bs); Some (ucast l OR push_bit 32 (ucast h)) }"

definition le64 :: "u64 \<Rightarrow> u8 list" where
  "le64 w = le32 (ucast w) @ le32 (ucast (drop_bit 32 w))"

record linkage_log_header =
  lh_ver :: u8
  lh_pad :: "u8 \<times> u8 \<times> u8"
  lh_command :: u16
  lh_len :: u16

definition LOG_ADDDEV :: u16 where "LOG_ADDDEV = 1"

text \<open>The memory from a pointer to a header on; the structure is packed.\<close>

fun load_link_hdr :: "u8 list \<Rightarrow> linkage_log_header option" where
  "load_link_hdr (v # p # q # r # bs) = do {
     cmd \<leftarrow> rd16 bs;
     len \<leftarrow> rd16 (drop 2 bs);
     Some \<lparr>lh_ver = v, lh_pad = (p, q, r), lh_command = cmd, lh_len = len\<rparr> }"
| "load_link_hdr _ = None"

record log_adddev_t =
  home_id :: u32
  user_id :: u32
  sn :: u64
  add_t :: u32

text \<open>What \<open>log_adddev\<close> prints.\<close>

datatype link_report = AddDev u32 u32 u64

definition log_adddev :: "u8 list \<Rightarrow> link_report list \<Rightarrow> link_report list option" where
  "log_adddev hdr out = do {
     let add = drop 8 hdr;
     home \<leftarrow> rd32 add;
     user \<leftarrow> rd32 (drop 4 add);
     s \<leftarrow> rd64 (drop 8 add);
     Some (out @ [AddDev home user s]) }"

type_synonym linkagelog_func = "u8 list \<Rightarrow> link_report list \<Rightarrow> link_report list option"

definition linkagelog_proc :: "(string \<times> u16 \<times> linkagelog_func option) list" where
  "linkagelog_proc = [(''ADDDEV'', LOG_ADDDEV, Some log_adddev)]"

definition proc_entry :: "u8 list \<Rightarrow> string \<times> u16 \<times> linkagelog_func option \<Rightarrow> link_report list \<Rightarrow> link_report list option" where
  "proc_entry hdr = (\<lambda>(name, action, fuc) out. do {
     h \<leftarrow> load_link_hdr hdr;
     (case fuc of
        None \<Rightarrow> Some out
      | Some f \<Rightarrow> if lh_command h = action then f hdr out else Some out) })"

definition do_linkagelog_proc :: "u8 list \<Rightarrow> link_report list \<Rightarrow> link_report list option" where
  "do_linkagelog_proc hdr out = foldM (proc_entry hdr) linkagelog_proc out"

definition do_linkagelog :: "u8 list \<Rightarrow> link_report list \<Rightarrow> link_report list option" where
  "do_linkagelog hdr out = do_linkagelog_proc hdr out"

text \<open>
  The loop of \<open>do_linkageasynclog\<close>.  The pointer \<open>cur\<close> is set to \<open>data\<close> before the loop and not changed in it, so that
  every round looks at the memory from \<open>data\<close> on.
\<close>

function linkage_loop :: "u8 list \<Rightarrow> int \<Rightarrow> link_report list \<Rightarrow> link_report list option" where
  "linkage_loop cur remain out =
     (if remain > 8
      then (case load_link_hdr cur of
              None \<Rightarrow> None
            | Some h \<Rightarrow>
                if uint (lh_len h) > remain - 8 then Some out
                else (case do_linkagelog cur out of
                        None \<Rightarrow> None
                      | Some out \<Rightarrow> linkage_loop cur (remain - 8 - uint (lh_len h)) out))
      else Some out)"
  by pat_completeness auto
termination
  by (relation "measure (\<lambda>(cur, remain, out). nat remain)") (auto intro: less_le_trans[OF _ uint_ge_0])

declare linkage_loop.simps [simp del]

definition do_linkageasynclog :: "u8 list \<Rightarrow> int \<Rightarrow> link_report list \<Rightarrow> link_report list option" where
  "do_linkageasynclog data len out = linkage_loop data len out"

definition log_header_set :: "u8 list \<Rightarrow> u16 \<Rightarrow> u16 \<Rightarrow> u8 list option" where
  "log_header_set data cmd len =
     (if length data < 8 then None
      else Some ([1] @ take 3 (drop 1 data) @ le16 cmd @ le16 len @ drop 8 data))"

section \<open>The log\<close>

definition LINKAGEASYNCLOG_BUFMAX :: nat where "LINKAGEASYNCLOG_BUFMAX = 1024 * 1024 * 4"
definition LINKAGEASYNCLOG_MAXBUFFER :: int where "LINKAGEASYNCLOG_MAXBUFFER = 23"
definition LINKAGEASYNCLOG_FLUSHTIME :: int where "LINKAGEASYNCLOG_FLUSHTIME = 2"

text \<open>
  Where the thread is: before the test of \<open>running_\<close>, past it and before the swap (waiting, or for the mutex), between the
  swap and the end of the round, or at its end.
\<close>

datatype thread_pos = AtTest | AtSwap | AtWrite | Ended

record linkageasynclog =
  running :: bool
  lk_flushInterval :: int
  lk_current :: arbuf
  lk_next :: arbuf
  lk_buffers :: aralign
  lk_new1 :: arbuf
  lk_new2 :: arbuf
  lk_toWrite :: aralign
  lk_pos :: thread_pos
  lk_mem :: blocks
  lk_out :: "link_report list"

definition linkagelog_append :: "addr \<Rightarrow> u8 list \<Rightarrow> int \<Rightarrow> linkageasynclog \<Rightarrow> linkageasynclog option" where
  "linkagelog_append new data len s =
     (if arbuffer_avail (lk_current s) > len
      then do {
        (b, H) \<leftarrow> arbuffer_append (lk_current s) data len (lk_mem s);
        Some (s\<lparr>lk_current := b, lk_mem := H\<rparr>) }
      else do {
        (t, b) \<leftarrow> arraybufferalign_add_tail (lk_buffers s) (lk_current s);
        let s = s\<lparr>lk_buffers := t, lk_current := b\<rparr>;
        let s = (if arbuffer_usable (lk_next s)
                 then case arbuffer_move (lk_current s) (lk_next s) of (c, n) \<Rightarrow> s\<lparr>lk_current := c, lk_next := n\<rparr>
                 else case arbuffer_init new LINKAGEASYNCLOG_BUFMAX (lk_mem s) of (c, H) \<Rightarrow> s\<lparr>lk_current := c, lk_mem := H\<rparr>);
        (b, H) \<leftarrow> arbuffer_append (lk_current s) data len (lk_mem s);
        Some (s\<lparr>lk_current := b, lk_mem := H\<rparr>) })"

text \<open>\<open>len + sizeof(linkage_log_header_t)\<close> is a \<open>size_t\<close>, converted to \<open>int\<close> for the call.\<close>

definition linkagelog_send :: "addr \<Rightarrow> u8 list \<Rightarrow> int \<Rightarrow> linkageasynclog \<Rightarrow> linkageasynclog option" where
  "linkagelog_send new data len s = linkagelog_append new data (int_of (int (size_of (len + 8)))) s"

section \<open>The thread\<close>

definition linkage_thread_begin :: "addr \<Rightarrow> addr \<Rightarrow> linkageasynclog \<Rightarrow> linkageasynclog" where
  "linkage_thread_begin n1 n2 s =
     (let (b1, H) = arbuffer_init n1 LINKAGEASYNCLOG_BUFMAX (lk_mem s);
          (b2, H) = arbuffer_init n2 LINKAGEASYNCLOG_BUFMAX H
      in s\<lparr>lk_new1 := b1, lk_new2 := b2, lk_toWrite := arraybufferalign_init (LINKAGEASYNCLOG_MAXBUFFER + 1) zero_aralign,
           lk_mem := H, lk_pos := AtTest\<rparr>)"

text \<open>The part of a round under the mutex, after waiting.\<close>

definition linkage_swap :: "linkageasynclog \<Rightarrow> linkageasynclog option" where
  "linkage_swap s = do {
     (t, c) \<leftarrow> arraybufferalign_add_tail (lk_buffers s) (lk_current s);
     (w, t, H) \<leftarrow> arraybufferalign_move (lk_toWrite s) t (lk_mem s);
     let (c, n1) = arbuffer_move c (lk_new1 s);
     let s = s\<lparr>lk_buffers := t, lk_toWrite := w, lk_mem := H, lk_current := c, lk_new1 := n1, lk_pos := AtWrite\<rparr>;
     Some (if \<not> arbuffer_usable (lk_next s)
           then case arbuffer_move (lk_next s) (lk_new2 s) of (n, n2) \<Rightarrow> s\<lparr>lk_next := n, lk_new2 := n2\<rparr>
           else s) }"

text \<open>The memory from the start of a buffer on; a null pointer has none.\<close>

definition buffer_mem :: "arbuf \<Rightarrow> blocks \<Rightarrow> u8 list" where
  "buffer_mem b H = (case H (ab_buffer b) of None \<Rightarrow> [] | Some bs \<Rightarrow> bs)"

definition linkage_buffer :: "arbuf list \<Rightarrow> blocks \<Rightarrow> int \<Rightarrow> link_report list \<Rightarrow> link_report list option" where
  "linkage_buffer bufs H i out =
     (if \<not> (0 \<le> i \<and> i < int (length bufs)) then None
      else do_linkageasynclog (buffer_mem (bufs ! nat i) H) (arbuffer_used (bufs ! nat i)) out)"

definition linkage_write :: "linkageasynclog \<Rightarrow> linkageasynclog option" where
  "linkage_write s = do {
     (w, H) \<leftarrow> (if al_cout (lk_toWrite s) > LINKAGEASYNCLOG_MAXBUFFER
       then arraybufferalign_erase 2 (LINKAGEASYNCLOG_MAXBUFFER + 1) (lk_toWrite s, lk_mem s)
       else Some (lk_toWrite s, lk_mem s));
     out \<leftarrow> foldM (linkage_buffer (al_bufs w) H) [0..al_cout w - 1] (lk_out s);
     (w, H) \<leftarrow> (if al_cout w > 2 then arraybufferalign_erase 2 (LINKAGEASYNCLOG_MAXBUFFER + 1) (w, H) else Some (w, H));
     (n1, w) \<leftarrow> take_back (lk_new1 s) w;
     (n2, w) \<leftarrow> take_back (lk_new2 s) w;
     (w, H) \<leftarrow> arraybufferalign_clear (w, H);
     Some (s\<lparr>lk_new1 := n1, lk_new2 := n2, lk_toWrite := w, lk_out := out, lk_mem := H, lk_pos := AtTest\<rparr>) }"

definition linkage_thread_end :: "linkageasynclog \<Rightarrow> linkageasynclog option" where
  "linkage_thread_end s = do {
     (w, H) \<leftarrow> arraybufferalign_clear (lk_toWrite s, lk_mem s);
     (b1, H) \<leftarrow> arbuffer_clear (lk_new1 s) H;
     (b2, H) \<leftarrow> arbuffer_clear (lk_new2 s) H;
     Some (s\<lparr>lk_toWrite := w, lk_new1 := b1, lk_new2 := b2, lk_mem := H, lk_pos := Ended\<rparr>) }"

text \<open>The steps of the thread, one for each position.\<close>

definition linkage_thread :: "linkageasynclog \<Rightarrow> linkageasynclog option" where
  "linkage_thread s =
     (case lk_pos s of
        AtTest \<Rightarrow> if running s then Some (s\<lparr>lk_pos := AtSwap\<rparr>) else linkage_thread_end s
      | AtSwap \<Rightarrow> linkage_swap s
      | AtWrite \<Rightarrow> linkage_write s
      | Ended \<Rightarrow> Some s)"

section \<open>Setting up and stopping\<close>

definition linkageasynclog_def_init :: "bool \<Rightarrow> addr \<Rightarrow> addr \<Rightarrow> int \<Rightarrow> blocks \<Rightarrow> linkageasynclog option" where
  "linkageasynclog_def_init ok n1 n2 flush H =
     (if \<not> ok then None
      else let (c, H) = arbuffer_init n1 LINKAGEASYNCLOG_BUFMAX H;
               (n, H) = arbuffer_init n2 LINKAGEASYNCLOG_BUFMAX H
           in Some \<lparr>running = False, lk_flushInterval = flush, lk_current = c, lk_next = n,
                lk_buffers = arraybufferalign_init (LINKAGEASYNCLOG_MAXBUFFER + 1) zero_aralign,
                lk_new1 = zero_arbuf, lk_new2 = zero_arbuf, lk_toWrite = zero_aralign, lk_pos = Ended, lk_mem = H, lk_out = []\<rparr>)"

definition linkageasynclog_init :: "bool \<Rightarrow> addr \<Rightarrow> addr \<Rightarrow> blocks \<Rightarrow> linkageasynclog option" where
  "linkageasynclog_init ok n1 n2 H = linkageasynclog_def_init ok n1 n2 LINKAGEASYNCLOG_FLUSHTIME H"

text \<open>The call returns when the new thread has counted the latch down, which it does just before its loop.\<close>

definition linkageasynclog_start :: "addr \<Rightarrow> addr \<Rightarrow> linkageasynclog \<Rightarrow> linkageasynclog" where
  "linkageasynclog_start n3 n4 s = linkage_thread_begin n3 n4 (s\<lparr>running := True\<rparr>)"

text \<open>\<open>linkagelog_init\<close>; when \<open>calloc\<close> fails, \<open>linkageasynclog_start\<close> writes through the null pointer.\<close>

definition linkagelog_init :: "bool \<Rightarrow> addr \<times> addr \<times> addr \<times> addr \<Rightarrow> blocks \<Rightarrow> linkageasynclog option" where
  "linkagelog_init ok = (\<lambda>(n1, n2, n3, n4) H. map_option (linkageasynclog_start n3 n4) (linkageasynclog_init ok n1 n2 H))"

text \<open>After \<open>running_\<close> is cleared the call waits for the thread, which takes at most three more steps.\<close>

definition linkageasynclog_stop :: "linkageasynclog \<Rightarrow> linkageasynclog option" where
  "linkageasynclog_stop s = do {
     s \<leftarrow> linkage_thread (s\<lparr>running := False\<rparr>);
     s \<leftarrow> linkage_thread s;
     linkage_thread s }"

definition linkagelog_stop :: "linkageasynclog \<Rightarrow> linkageasynclog option" where
  "linkagelog_stop s = linkageasynclog_stop s"

section \<open>Records as bytes\<close>

type_synonym link_rec = "linkage_log_header \<times> u8 list"

definition link_hdr_bytes :: "linkage_log_header \<Rightarrow> u8 list" where
  "link_hdr_bytes h = (case lh_pad h of (p, q, r) \<Rightarrow> [lh_ver h, p, q, r]) @ le16 (lh_command h) @ le16 (lh_len h)"

definition link_encode :: "link_rec \<Rightarrow> u8 list" where
  "link_encode = (\<lambda>(h, p). link_hdr_bytes h @ p)"

text \<open>The header has the length of the payload, and an \<open>ADDDEV\<close> record holds a \<open>log_adddev_t\<close>.\<close>

definition link_valid :: "link_rec \<Rightarrow> bool" where
  "link_valid = (\<lambda>(h, p). length p = unat (lh_len h) \<and> (lh_command h = LOG_ADDDEV \<longrightarrow> 20 \<le> length p))"

function link_decode :: "u8 list \<Rightarrow> link_rec list" where
  "link_decode x =
     (case load_link_hdr x of
        None \<Rightarrow> []
      | Some h \<Rightarrow>
          if 8 + unat (lh_len h) \<le> length x
          then (h, take (unat (lh_len h)) (drop 8 x)) # link_decode (drop (8 + unat (lh_len h)) x)
          else [])"
  by pat_completeness auto
termination
  by (relation "measure length") auto

declare link_decode.simps [simp del]

definition whole_recs :: "u8 list \<Rightarrow> bool" where
  "whole_recs x \<longleftrightarrow> list_all link_valid (link_decode x) \<and> concat (map link_encode (link_decode x)) = x"

lemma rd16_le16: "rd16 (le16 w @ bs) = Some w"
proof -
  have "ucast (ucast w :: u8) OR push_bit 8 (ucast (ucast (drop_bit 8 w) :: u8)) = w"
  proof (rule bit_word_eqI)
    fix n assume "n < LENGTH(16)"
    then consider "n < 8" | "8 \<le> n" "n < 16" by force
    then show "bit (ucast (ucast w :: u8) OR push_bit 8 (ucast (ucast (drop_bit 8 w) :: u8)) :: u16) n = bit w n"
      by cases (auto simp: bit_simps)
  qed
  then show ?thesis by (simp add: le16_def)
qed

lemma rd64_le64: "rd64 (le64 w @ bs) = Some w"
proof -
  have "ucast (ucast w :: u32) OR push_bit 32 (ucast (ucast (drop_bit 32 w) :: u32)) = w"
  proof (rule bit_word_eqI)
    fix n assume "n < LENGTH(64)"
    then consider "n < 32" | "32 \<le> n" "n < 64" by force
    then show "bit (ucast (ucast w :: u32) OR push_bit 32 (ucast (ucast (drop_bit 32 w) :: u32)) :: u64) n = bit w n"
      by cases (auto simp: bit_simps)
  qed
  then show ?thesis
    using rd32_le32[of "ucast w" "le32 (ucast (drop_bit 32 w)) @ bs"] rd32_le32[of "ucast (drop_bit 32 w)" bs]
    by (simp add: rd64_def le64_def)
qed

lemma length_le16 [simp]: "length (le16 w) = 2"
  by (simp add: le16_def)

lemma length_link_hdr [simp]: "length (link_hdr_bytes h) = 8"
  by (simp add: link_hdr_bytes_def split: prod.splits)

lemma load_link_hdr_bytes [simp]: "load_link_hdr (link_hdr_bytes h @ bs) = Some h"
proof -
  obtain p q r where p: "lh_pad h = (p, q, r)" by (cases "lh_pad h")
  have "load_link_hdr (link_hdr_bytes h @ bs) = Some \<lparr>lh_ver = lh_ver h, lh_pad = (p, q, r), lh_command = lh_command h, lh_len = lh_len h\<rparr>"
    using rd16_le16[of "lh_command h" "le16 (lh_len h) @ bs"] rd16_le16[of "lh_len h" bs] by (simp add: link_hdr_bytes_def p)
  then show ?thesis by (simp flip: p)
qed

lemma link_decode_Nil [simp]: "link_decode [] = []"
  by (simp add: link_decode.simps)

lemma link_decode_encode: "length p = unat (lh_len h) \<Longrightarrow> link_decode (link_encode (h, p) @ y) = (h, p) # link_decode y"
  by (subst link_decode.simps) (simp add: link_encode_def)

lemma link_decode_encodes:
  "list_all link_valid ms \<Longrightarrow> link_decode (concat (map link_encode ms) @ y) = ms @ link_decode y"
proof (induction ms)
  case (Cons m ms)
  obtain h p where m: "m = (h, p)" by (cases m)
  have "length p = unat (lh_len h)" using Cons.prems by (simp add: m link_valid_def)
  then show ?case using Cons link_decode_encode[of p h "concat (map link_encode ms) @ y"] by (simp add: m)
qed simp

lemma whole_recs_Nil [simp]: "whole_recs []"
  by (simp add: whole_recs_def)

lemma whole_recs_append:
  assumes "whole_recs x" "link_valid m"
  shows "whole_recs (x @ link_encode m)" "link_decode (x @ link_encode m) = link_decode x @ [m]"
proof -
  let ?ms = "link_decode x @ [m]"
  have v: "list_all link_valid ?ms" "concat (map link_encode ?ms) = x @ link_encode m"
    using assms by (simp_all add: whole_recs_def)
  show d: "link_decode (x @ link_encode m) = ?ms" using link_decode_encodes[OF v(1), of "[]"] v(2) by simp
  show "whole_recs (x @ link_encode m)" unfolding whole_recs_def d using v by simp
qed

section \<open>What the thread reports of a buffer\<close>

definition link_event :: "link_rec \<Rightarrow> link_report list" where
  "link_event = (\<lambda>(h, p).
     if lh_command h = LOG_ADDDEV then [AddDev (the (rd32 p)) (the (rd32 (drop 4 p))) (the (rd64 (drop 8 p)))] else [])"

text \<open>How often the loop finds room for a record with a payload of \<open>l\<close> bytes in \<open>n\<close> bytes.\<close>

definition link_rounds :: "nat \<Rightarrow> nat \<Rightarrow> nat" where
  "link_rounds l n = (if l = 0 then (n - 1) div 8 else n div (8 + l))"

definition buffer_reports :: "link_rec list \<Rightarrow> link_report list" where
  "buffer_reports ms =
     (case ms of
        [] \<Rightarrow> []
      | m # _ \<Rightarrow> concat (replicate (link_rounds (length (snd m)) (length (concat (map link_encode ms)))) (link_event m)))"

lemma link_rounds_step:
  "8 < n \<Longrightarrow> 8 + l \<le> n \<Longrightarrow> link_rounds l n = Suc (link_rounds l (n - (8 + l)))"
  by (auto simp: link_rounds_def le_div_geq)

lemma link_rounds_stop: "\<not> (8 < n \<and> 8 + l \<le> n) \<Longrightarrow> link_rounds l n = 0"
  by (auto simp: link_rounds_def)

lemma rd_some: "4 \<le> length x \<Longrightarrow> \<exists>w. rd32 x = Some w \<and> (\<forall>y. rd32 (x @ y) = Some w)"
  by (cases x rule: rd32.cases) auto

lemma rd64_some:
  assumes "8 \<le> length x"
  shows "\<exists>w. rd64 x = Some w \<and> (\<forall>y. rd64 (x @ y) = Some w)"
proof -
  obtain l where "rd32 x = Some l" "\<forall>y. rd32 (x @ y) = Some l" using rd_some[of x] assms by auto
  moreover obtain h where "rd32 (drop 4 x) = Some h" "\<forall>y. rd32 (drop 4 x @ y) = Some h" using rd_some[of "drop 4 x"] assms by (auto simp: le_diff_conv2)
  ultimately show ?thesis using assms by (simp add: rd64_def)
qed

lemma do_linkagelog_event:
  assumes "link_valid m"
  shows "do_linkagelog (link_encode m @ y) out = Some (out @ link_event m)"
proof -
  obtain h p where m: "m = (h, p)" by (cases m)
  have ld: "load_link_hdr (link_encode m @ y) = Some h" "drop 8 (link_encode m @ y) = p @ y" by (simp_all add: m link_encode_def)
  have "log_adddev (link_encode m @ y) out = Some (out @ link_event m)" if c: "lh_command h = LOG_ADDDEV"
  proof -
    have l: "20 \<le> length p" using assms c by (simp add: m link_valid_def)
    obtain a where "rd32 p = Some a" "\<forall>y. rd32 (p @ y) = Some a" using rd_some[of p] l by auto
    moreover obtain b where "rd32 (drop 4 p) = Some b" "\<forall>y. rd32 (drop 4 p @ y) = Some b" using rd_some[of "drop 4 p"] l by (auto simp: le_diff_conv2)
    moreover obtain d where "rd64 (drop 8 p) = Some d" "\<forall>y. rd64 (drop 8 p @ y) = Some d" using rd64_some[of "drop 8 p"] l by (auto simp: le_diff_conv2)
    ultimately show ?thesis using l c unfolding log_adddev_def ld(2) by (simp add: link_event_def m)
  qed
  then show ?thesis
    using ld(1) by (auto simp: do_linkagelog_def do_linkagelog_proc_def linkagelog_proc_def proc_entry_def link_event_def m)
qed

lemma linkage_loop_first:
  assumes h: "load_link_hdr mem = Some h" and ev: "\<And>out. do_linkagelog mem out = Some (out @ ev)"
  shows "linkage_loop mem (int n) out = Some (out @ concat (replicate (link_rounds (unat (lh_len h)) n) ev))"
proof (induction n arbitrary: out rule: less_induct)
  case (less n)
  let ?l = "unat (lh_len h)"
  have u: "uint (lh_len h) = int ?l" by simp
  show ?case
  proof (cases "8 < n \<and> 8 + ?l \<le> n")
    case True
    then have c: "int n > 8" "\<not> uint (lh_len h) > int n - 8" "int n - 8 - uint (lh_len h) = int (n - (8 + ?l))"
      unfolding u by linarith+
    have "linkage_loop mem (int n) out = linkage_loop mem (int (n - (8 + ?l))) (out @ ev)"
      by (subst linkage_loop.simps) (simp only: c h ev option.case if_True if_False simp_thms)
    then show ?thesis using less[of "n - (8 + ?l)" "out @ ev"] True by (simp add: link_rounds_step)
  next
    case False
    then have c: "\<not> int n > 8 \<or> uint (lh_len h) > int n - 8" unfolding u by linarith
    then have "linkage_loop mem (int n) out = Some out"
      by (subst linkage_loop.simps) (auto simp only: h option.case if_True if_False simp_thms split: if_splits)
    then show ?thesis using link_rounds_stop[OF False] by simp
  qed
qed

lemma do_linkageasynclog_reports:
  assumes "list_all link_valid ms"
  shows "do_linkageasynclog (concat (map link_encode ms) @ y) (int (length (concat (map link_encode ms)))) out =
    Some (out @ buffer_reports ms)"
proof (cases ms)
  case Nil
  then show ?thesis by (simp add: do_linkageasynclog_def linkage_loop.simps buffer_reports_def)
next
  case (Cons m ms')
  obtain h p where m: "m = (h, p)" by (cases m)
  have v: "link_valid m" using assms by (simp add: Cons)
  then have l: "unat (lh_len h) = length p" by (simp add: m link_valid_def)
  let ?mem = "link_encode m @ concat (map link_encode ms') @ y"
  have "load_link_hdr ?mem = Some h" by (simp add: m link_encode_def)
  then have e: "linkage_loop ?mem (int n) out = Some (out @ concat (replicate (link_rounds (length p) n) (link_event m)))" for n
    using linkage_loop_first do_linkagelog_event[OF v] l by metis
  have a: "concat (map link_encode ms) @ y = ?mem" by (simp add: Cons)
  show ?thesis unfolding do_linkageasynclog_def a e by (simp add: buffer_reports_def Cons m)
qed

section \<open>The log as an asynchronous logger\<close>

text \<open>A state read as one of \<open>AsyncLog\<close>, with an empty log file and an array for formatting that is not used.\<close>

definition no_file :: logfile where
  "no_file = zero_logfile\<lparr>fp := True, lf_files := [[]]\<rparr>"

definition as_asynclog :: "linkageasynclog \<Rightarrow> asynclog" where
  "as_asynclog s =
     \<lparr>aflushInterval = lk_flushInterval s, arollSize = 0, currentBuffer = lk_current s, nextBuffer = lk_next s,
      abuffers = lk_buffers s, logline = replicate ASYNCLOG_BUFMAX 0, newBuffer1 = lk_new1 s, newBuffer2 = lk_new2 s,
      buffersToWrite = lk_toWrite s, log_out = no_file, amem = lk_mem s, writing = (lk_pos s = AtWrite)\<rparr>"

lemma as_asynclog_sel [simp]:
  "currentBuffer (as_asynclog s) = lk_current s" "nextBuffer (as_asynclog s) = lk_next s" "abuffers (as_asynclog s) = lk_buffers s"
  "newBuffer1 (as_asynclog s) = lk_new1 s" "newBuffer2 (as_asynclog s) = lk_new2 s" "buffersToWrite (as_asynclog s) = lk_toWrite s"
  "log_out (as_asynclog s) = no_file" "amem (as_asynclog s) = lk_mem s" "writing (as_asynclog s) = (lk_pos s = AtWrite)"
  by (simp_all add: as_asynclog_def)

lemma lf_ok_no_file: "lf_ok no_file"
  by (simp add: lf_ok_def no_file_def)

lemma link_consts: "LINKAGEASYNCLOG_BUFMAX = ASYNCLOG_BUFMAX" "LINKAGEASYNCLOG_MAXBUFFER = MAXBUFFER"
  by (simp_all add: LINKAGEASYNCLOG_BUFMAX_def ASYNCLOG_BUFMAX_def LINKAGEASYNCLOG_MAXBUFFER_def MAXBUFFER_def)

lemma append_commutes: "log_append_raw new data len (as_asynclog s) = map_option as_asynclog (linkagelog_append new data len s)"
proof -
  have m: "Option.bind x (\<lambda>(b, H). Some (f b H)) = map_option (\<lambda>(b, H). f b H) x" for x and f :: "arbuf \<Rightarrow> blocks \<Rightarrow> 'c"
    by (cases x) auto
  have e: "linkagelog_append new data len s =
    (if arbuffer_avail (lk_current s) > len
      then map_option (\<lambda>(b, H). s\<lparr>lk_current := b, lk_mem := H\<rparr>) (arbuffer_append (lk_current s) data len (lk_mem s))
      else Option.bind (arraybufferalign_add_tail (lk_buffers s) (lk_current s)) (\<lambda>(t, b).
        let s = s\<lparr>lk_buffers := t, lk_current := b\<rparr>;
            s = (if arbuffer_usable (lk_next s)
                 then case arbuffer_move (lk_current s) (lk_next s) of (c, n) \<Rightarrow> s\<lparr>lk_current := c, lk_next := n\<rparr>
                 else case arbuffer_init new ASYNCLOG_BUFMAX (lk_mem s) of (c, H) \<Rightarrow> s\<lparr>lk_current := c, lk_mem := H\<rparr>) in
        map_option (\<lambda>(b, H). s\<lparr>lk_current := b, lk_mem := H\<rparr>) (arbuffer_append (lk_current s) data len (lk_mem s))))"
    unfolding linkagelog_append_def m link_consts by (simp add: Let_def)
  show ?thesis unfolding e log_append_raw_eq next_current_def
    by (cases "arraybufferalign_add_tail (lk_buffers s) (lk_current s)")
      (auto simp: as_asynclog_def Let_def arbuffer_move_def arbuffer_init_def option.map_comp o_def case_prod_unfold)
qed

lemma swap_commutes: "asynclog_swap (as_asynclog s) = map_option as_asynclog (linkage_swap s)"
  unfolding asynclog_swap_def linkage_swap_def as_asynclog_sel
  by (cases "arraybufferalign_add_tail (lk_buffers s) (lk_current s)")
    (auto simp: as_asynclog_def Let_def arbuffer_move_def split: option.splits prod.splits bind_splits)

lemma linkage_write_eq:
  "linkage_write s = do {
     (w, H) \<leftarrow> (if al_cout (lk_toWrite s) > MAXBUFFER
       then arraybufferalign_erase 2 (MAXBUFFER + 1) (lk_toWrite s, lk_mem s) else Some (lk_toWrite s, lk_mem s));
     out \<leftarrow> foldM (linkage_buffer (al_bufs w) H) [0..al_cout w - 1] (lk_out s);
     (n1, n2, w, H) \<leftarrow> asynclog_refill (lk_new1 s) (lk_new2 s) w H;
     Some (s\<lparr>lk_new1 := n1, lk_new2 := n2, lk_toWrite := w, lk_out := out, lk_mem := H, lk_pos := AtTest\<rparr>) }"
  unfolding linkage_write_def asynclog_refill_def link_consts
  by (simp add: case_prod_unfold Option.bind_assoc split del: if_split)

section \<open>The invariant\<close>

definition link_pending :: "linkageasynclog \<Rightarrow> u8 list list" where
  "link_pending s = alog_pending (as_asynclog s)"

text \<open>The records that are in buffers, in order.\<close>

definition link_waiting :: "linkageasynclog \<Rightarrow> link_rec list" where
  "link_waiting s = concat (map link_decode (link_pending s))"

definition link_inv :: "linkageasynclog \<Rightarrow> bool" where
  "link_inv s \<longleftrightarrow> lk_pos s \<noteq> Ended \<and> alog_inv (as_asynclog s) \<and> list_all whole_recs (link_pending s)"

text \<open>The contents of the buffers that the thread has taken over.\<close>

definition link_taken :: "linkageasynclog \<Rightarrow> u8 list list" where
  "link_taken s = map (ab_content (lk_mem s)) (filled (lk_toWrite s))"

lemma pending_taken: "\<exists>xs. link_pending s = link_taken s @ xs"
  by (simp add: link_pending_def link_taken_def alog_pending_def)

lemma pending_add_whole:
  assumes "pending_add (link_encode m) xs ys" "list_all whole_recs xs" "link_valid m" "xs \<noteq> []"
  shows "list_all whole_recs ys" "concat (map link_decode ys) = concat (map link_decode xs) @ [m]"
proof -
  obtain bs b where xs: "xs = bs @ [b]" using assms(4) by (cases xs rule: rev_cases) auto
  have b: "whole_recs b" "list_all whole_recs bs" using assms(2) xs by auto
  have n: "whole_recs (link_encode m)" "link_decode (link_encode m) = [m]" using whole_recs_append[of "[]" m] assms(3) by simp_all
  note w = whole_recs_append[OF b(1) assms(3)]
  have "ys = bs @ [b @ link_encode m] \<or> ys = (bs @ [b]) @ [link_encode m]" using assms(1) xs by (simp add: pending_add_def)
  then show "list_all whole_recs ys" "concat (map link_decode ys) = concat (map link_decode xs) @ [m]"
    using b n w xs by auto
qed

lemma unat_u16: "unat (w :: u16) < 2 ^ 16"
  using unsigned_less[of w] by simp

lemma send_len: "length p = unat (lh_len h) \<Longrightarrow> int_of (int (size_of (int (length p) + 8))) = int (length (link_encode (h, p)))"
proof -
  assume l: "length p = unat (lh_len h)"
  have "unat (lh_len h) < 2 ^ 16" by (rule unat_u16)
  then have b: "length p + 8 < 2 ^ 17" using l by simp
  then have "size_of (int (length p) + 8) = length p + 8" by (simp add: size_of_def)
  moreover have "int_of (int (length p + 8)) = int (length p + 8)"
    unfolding int_of_def by (rule signed_take_bit_int_eq_self) (use b in simp_all)
  ultimately show ?thesis by (simp add: link_encode_def)
qed

lemma send_ok:
  assumes inv: "link_inv s" and m: "link_valid (h, p)" and new: "new \<noteq> NULL" "lk_mem s new = None"
    and room: "int (8 + length p) < arbuffer_avail (lk_current s) \<or> al_cout (lk_buffers s) \<le> LINKAGEASYNCLOG_MAXBUFFER"
  shows "\<exists>s'. linkagelog_send new (link_encode (h, p)) (int (length p)) s = Some s' \<and> link_inv s' \<and>
    link_waiting s' = link_waiting s @ [(h, p)] \<and> lk_out s' = lk_out s \<and> lk_pos s' = lk_pos s \<and> running s' = running s \<and>
    al_cout (lk_buffers s') \<le> al_cout (lk_buffers s) + 1"
proof -
  let ?l = "link_encode (h, p)"
  have l: "length p = unat (lh_len h)" "length ?l = 8 + length p" using m by (simp_all add: link_valid_def link_encode_def)
  have "unat (lh_len h) < 2 ^ 16" by (rule unat_u16)
  then have fit: "length ?l \<le> ASYNCLOG_BUFMAX" using l by (simp add: ASYNCLOG_BUFMAX_def)
  have i: "alog_inv (as_asynclog s)" "list_all whole_recs (link_pending s)" using inv by (simp_all add: link_inv_def)
  obtain a where a: "log_append_raw new ?l (int (length ?l)) (as_asynclog s) = Some a" "alog_inv a"
      "pending_add ?l (alog_pending (as_asynclog s)) (alog_pending a)" "al_cout (abuffers a) \<le> al_cout (lk_buffers s) + 1"
    using log_append_raw_ok[OF i(1) fit order_refl, of new] new room l(2) by (auto simp: link_consts)
  obtain s' where s': "linkagelog_append new ?l (int (length ?l)) s = Some s'" "a = as_asynclog s'"
    using a(1) by (auto simp: append_commutes)
  have keep: "lk_pos s' = lk_pos s" "lk_out s' = lk_out s" "running s' = running s"
    using s'(1) by (auto simp: linkagelog_append_def Let_def bind_eq_Some_iff split: if_splits prod.splits)
  have pa: "pending_add ?l (link_pending s) (link_pending s')" using a(3) s'(2) by (simp add: link_pending_def)
  have ne: "link_pending s \<noteq> []" by (simp add: link_pending_def)
  have "link_inv s'" using pending_add_whole(1)[OF pa i(2) m ne] a(2) s'(2) keep inv by (simp add: link_inv_def)
  moreover have "link_waiting s' = link_waiting s @ [(h, p)]"
    using pending_add_whole(2)[OF pa i(2) m ne] by (simp add: link_waiting_def)
  ultimately show ?thesis using s' a(4) keep send_len[OF l(1)] by (simp add: linkagelog_send_def)
qed

lemma swap_link_ok:
  assumes inv: "link_inv s" and pos: "lk_pos s = AtSwap" and room: "al_cout (lk_buffers s) < LINKAGEASYNCLOG_MAXBUFFER"
  shows "\<exists>s'. linkage_swap s = Some s' \<and> link_inv s' \<and> link_waiting s' = link_waiting s \<and> lk_out s' = lk_out s \<and>
    lk_pos s' = AtWrite \<and> running s' = running s \<and> link_pending s' = link_pending s @ [[]] \<and> al_cout (lk_buffers s') = 0"
proof -
  have i: "alog_inv (as_asynclog s)" "list_all whole_recs (link_pending s)" using inv by (simp_all add: link_inv_def)
  obtain a where a: "asynclog_swap (as_asynclog s) = Some a" "alog_inv a" "alog_pending a = link_pending s @ [[]]"
      "al_cout (abuffers a) = 0"
    using swap_ok[OF i(1)] pos room by (auto simp: link_consts link_pending_def)
  obtain s' where s': "linkage_swap s = Some s'" "a = as_asynclog s'" using a(1) by (auto simp: swap_commutes)
  have keep: "lk_pos s' = AtWrite" "lk_out s' = lk_out s" "running s' = running s"
    using s'(1) by (auto simp: linkage_swap_def arbuffer_move_def Let_def bind_eq_Some_iff split: if_splits)
  have p: "link_pending s' = link_pending s @ [[]]" using a(3) s'(2) by (simp add: link_pending_def)
  have "link_inv s'" using a(2) s'(2) keep p i(2) by (simp add: link_inv_def)
  then show ?thesis using s' keep p a(4) by (simp add: link_waiting_def)
qed

lemma linkage_buffer_ok:
  assumes b: "i < length us" "ab_ok H (us ! i)" "whole_recs (ab_content H (us ! i))"
  shows "linkage_buffer (us @ zs) H (int i) out = Some (out @ buffer_reports (link_decode (ab_content H (us ! i))))"
proof -
  let ?b = "us ! i"
  obtain bs where bs: "H (ab_buffer ?b) = Some bs" "length bs = ASYNCLOG_BUFMAX" using b(2) by (auto simp: ab_ok_def)
  let ?x = "ab_content H ?b"
  have cur: "0 \<le> ab_cur ?b" "ab_cur ?b \<le> int ASYNCLOG_BUFMAX" using b(2) by (auto simp: ab_ok_def)
  then have x: "buffer_mem ?b H = ?x @ drop (nat (ab_cur ?b)) bs" "arbuffer_used ?b = int (length ?x)"
    using bs by (auto simp: buffer_mem_def ab_content_def arbuffer_used_def)
  let ?ms = "link_decode ?x"
  have ms: "list_all link_valid ?ms" "concat (map link_encode ?ms) = ?x" using b(3) by (simp_all add: whole_recs_def)
  have "do_linkageasynclog (?x @ drop (nat (ab_cur ?b)) bs) (int (length ?x)) out = Some (out @ buffer_reports ?ms)"
    using do_linkageasynclog_reports[OF ms(1), of "drop (nat (ab_cur ?b)) bs" out] unfolding ms(2) .
  then show ?thesis using b(1) x by (simp add: linkage_buffer_def nth_append)
qed

lemma linkage_buffers_ok:
  assumes us: "\<forall>b \<in> set us. ab_ok H b \<and> whole_recs (ab_content H b)" and "k \<le> length us"
  shows "foldM (linkage_buffer (us @ zs) H) (map int [0..<k]) out =
    Some (out @ concat (map (\<lambda>b. buffer_reports (link_decode (ab_content H b))) (take k us)))"
  using assms(2)
proof (induction k)
  case (Suc k)
  then have k: "k < length us" by simp
  show ?case using Suc linkage_buffer_ok[OF k] us k by (simp add: foldM_append take_Suc_conv_app_nth)
qed simp

lemma write_link_ok:
  assumes inv: "link_inv s" and pos: "lk_pos s = AtWrite"
  shows "\<exists>s'. linkage_write s = Some s' \<and> link_inv s' \<and> link_pending s = link_taken s @ link_pending s' \<and>
    lk_out s' = lk_out s @ concat (map (buffer_reports \<circ> link_decode) (link_taken s)) \<and>
    lk_pos s' = AtTest \<and> running s' = running s \<and> lk_buffers s' = lk_buffers s"
proof -
  let ?a = "as_asynclog s"
  have i: "alog_inv ?a" "list_all whole_recs (link_pending s)" "writing ?a" using inv pos by (simp_all add: link_inv_def)
  obtain ws where u: "holds (lk_toWrite s) ws" "alb.bufs_ok (lk_mem s) ws" "length ws < CAP"
    using i(1,3) by (auto simp: alog_inv_def phase_ok_def live_bufs_def alb.bufs_ok_Cons alb.bufs_ok_append)
  have tk: "link_taken s = map (ab_content (lk_mem s)) ws" by (simp add: link_taken_def holds_filled[OF u(1)])
  have wh: "\<forall>b \<in> set ws. ab_ok (lk_mem s) b \<and> whole_recs (ab_content (lk_mem s) b)"
    using pending_taken[of s] tk i(2) u(2) by (auto simp: list_all_iff alb.bufs_ok_def)
  let ?out = "lk_out s @ concat (map (buffer_reports \<circ> link_decode) (link_taken s))"
  have l: "foldM (linkage_buffer (al_bufs (lk_toWrite s)) (lk_mem s)) [0..al_cout (lk_toWrite s) - 1] (lk_out s) = Some ?out"
    using linkage_buffers_ok[OF wh order_refl, of "replicate (CAP - length ws) zero_arbuf" "lk_out s"] u(1) upto_upt[of 0 "length ws"] tk
    by (simp add: holds_def alb.entries_def o_def)
  obtain n1 n2 w' H where r: "asynclog_refill (lk_new1 s) (lk_new2 s) (lk_toWrite s) (lk_mem s) = Some (n1, n2, w', H)"
      "alog_inv (?a\<lparr>newBuffer1 := n1, newBuffer2 := n2, buffersToWrite := w', amem := H, writing := False\<rparr>)"
      "alog_pending ?a = link_taken s @ alog_pending (?a\<lparr>newBuffer1 := n1, newBuffer2 := n2, buffersToWrite := w', amem := H, writing := False\<rparr>)"
    using asynclog_refill_ok[OF i(1,3)] by (auto simp: link_taken_def)
  let ?s' = "s\<lparr>lk_new1 := n1, lk_new2 := n2, lk_toWrite := w', lk_out := ?out, lk_mem := H, lk_pos := AtTest\<rparr>"
  have e: "?a\<lparr>newBuffer1 := n1, newBuffer2 := n2, buffersToWrite := w', amem := H, writing := False\<rparr> = as_asynclog ?s'"
    by (simp add: as_asynclog_def)
  have "\<not> al_cout (lk_toWrite s) > MAXBUFFER" using u(1,3) by (simp add: holds_def MAXBUFFER_def CAP_def)
  then have run: "linkage_write s = Some ?s'" using l r(1) by (simp add: linkage_write_eq)
  have p: "link_pending s = link_taken s @ link_pending ?s'" using r(3) unfolding e by (simp add: link_pending_def)
  moreover have "link_inv ?s'" using r(2) p i(2) unfolding e by (simp add: link_inv_def)
  ultimately show ?thesis using run by simp
qed

section \<open>The log as a stream of records\<close>

text \<open>A send of a record with the answer of \<open>calloc\<close>, and a step of the thread.  What is observed is the list of the records of
  each buffer that the thread has dealt with.\<close>

datatype link_op = LkSend link_rec addr | LkThread

type_synonym link_obs = "link_rec list list \<times> linkageasynclog"

fun link_step :: "link_op \<Rightarrow> link_obs \<Rightarrow> link_obs option" where
  "link_step (LkSend m new) (mss, s) = map_option (Pair mss) (linkagelog_send new (link_encode m) (int (length (snd m))) s)"
| "link_step LkThread (mss, s) =
     map_option (Pair (if lk_pos s = AtWrite then mss @ map link_decode (link_taken s) else mss)) (linkage_thread s)"

text \<open>
  A record is valid, \<open>calloc\<close> returns a block that is not in use, no more buffers are filled between two swaps than the array
  takes, and the log is running.
\<close>

fun link_allowed :: "link_op \<Rightarrow> link_obs \<Rightarrow> bool" where
  "link_allowed (LkSend m new) (mss, s) \<longleftrightarrow> link_valid m \<and> new \<noteq> NULL \<and> lk_mem s new = None \<and>
     (int (8 + length (snd m)) < arbuffer_avail (lk_current s) \<or> al_cout (lk_buffers s) \<le> LINKAGEASYNCLOG_MAXBUFFER)"
| "link_allowed LkThread (mss, s) \<longleftrightarrow> running s \<and> (lk_pos s = AtSwap \<longrightarrow> al_cout (lk_buffers s) < LINKAGEASYNCLOG_MAXBUFFER)"

fun link_inp :: "link_op \<Rightarrow> link_rec list" where
  "link_inp (LkSend m new) = [m]"
| "link_inp LkThread = []"

definition obs_inv :: "link_report list \<Rightarrow> link_obs \<Rightarrow> bool" where
  "obs_inv out = (\<lambda>(mss, s). link_inv s \<and> lk_out s = out @ concat (map buffer_reports mss))"

definition obs_view :: "link_obs \<Rightarrow> link_rec list" where
  "obs_view = (\<lambda>(mss, s). concat mss @ link_waiting s)"

lemma thread_link_ok:
  assumes inv: "obs_inv out (mss, s)" and al: "link_allowed LkThread (mss, s)"
  shows "\<exists>o'. link_step LkThread (mss, s) = Some o' \<and> obs_inv out o' \<and> obs_view o' = obs_view (mss, s)"
proof (cases "lk_pos s")
  case AtTest
  have i: "link_inv s" "lk_out s = out @ concat (map buffer_reports mss)" using inv by (simp_all add: obs_inv_def)
  let ?s = "s\<lparr>lk_pos := AtSwap\<rparr>"
  have "as_asynclog ?s = as_asynclog s" using AtTest by (simp add: as_asynclog_def)
  then have "link_inv ?s" "link_waiting ?s = link_waiting s" using i(1) by (simp_all add: link_inv_def link_pending_def link_waiting_def)
  then show ?thesis using AtTest al i by (simp add: linkage_thread_def obs_inv_def obs_view_def)
next
  case AtSwap
  have i: "link_inv s" "lk_out s = out @ concat (map buffer_reports mss)" using inv by (simp_all add: obs_inv_def)
  obtain s' where "linkage_swap s = Some s'" "link_inv s'" "link_waiting s' = link_waiting s" "lk_out s' = lk_out s"
    using swap_link_ok[OF i(1) AtSwap] al AtSwap by auto
  then show ?thesis using AtSwap i by (simp add: linkage_thread_def obs_inv_def obs_view_def)
next
  case AtWrite
  have i: "link_inv s" "lk_out s = out @ concat (map buffer_reports mss)" using inv by (simp_all add: obs_inv_def)
  obtain s' where "linkage_write s = Some s'" "link_inv s'" "link_pending s = link_taken s @ link_pending s'"
      "lk_out s' = lk_out s @ concat (map (buffer_reports \<circ> link_decode) (link_taken s))"
    using write_link_ok[OF i(1) AtWrite] by auto
  then show ?thesis using AtWrite i by (simp add: linkage_thread_def obs_inv_def obs_view_def link_waiting_def)
next
  case Ended
  then show ?thesis using inv by (simp add: obs_inv_def link_inv_def)
qed

interpretation links: ordered_stream link_step link_allowed link_inp "obs_inv out" obs_view for out
proof unfold_locales
  fix o1 op
  assume inv: "obs_inv out o1" and al: "link_allowed op o1"
  obtain mss s where o1: "o1 = (mss, s)" by (cases o1)
  show "\<exists>o'. link_step op o1 = Some o' \<and> obs_inv out o' \<and> obs_view o' = obs_view o1 @ link_inp op"
  proof (cases op)
    case (LkSend m new)
    obtain h p where m: "m = (h, p)" by (cases m)
    obtain s' where "linkagelog_send new (link_encode (h, p)) (int (length p)) s = Some s'" "link_inv s'"
        "link_waiting s' = link_waiting s @ [(h, p)]" "lk_out s' = lk_out s"
      using send_ok[of s h p new] inv al unfolding o1 LkSend m by (auto simp: obs_inv_def)
    then show ?thesis using inv by (simp add: o1 LkSend m obs_inv_def obs_view_def)
  next
    case LkThread
    then show ?thesis using thread_link_ok inv al by (simp add: o1)
  qed
qed

section \<open>The end of the log\<close>

lemma thread_end_ok:
  assumes inv: "link_inv s" and pos: "lk_pos s = AtTest"
  shows "\<exists>s'. linkage_thread_end s = Some s' \<and> lk_pos s' = Ended \<and> running s' = running s \<and> lk_out s' = lk_out s"
proof -
  let ?a = "as_asynclog s" let ?H = "lk_mem s" let ?n1 = "lk_new1 s" let ?n2 = "lk_new2 s"
  obtain us where u: "holds (lk_toWrite s) []" "alb.bufs_ok ?H (live_bufs ?a us [])" "phase_ok ?a []"
    using inv pos by (auto simp: link_inv_def alog_inv_def phase_ok_def)
  have us: "arbuffer_usable ?n1" "arbuffer_usable ?n2" using u(3) pos by (simp_all add: phase_ok_def)
  have "alb.bufs_ok ?H ([?n1, ?n2] @ (lk_current s # alb.opt_buf (lk_next s) @ us))"
    by (rule alb.bufs_ok_perm[OF u(2)]) (use us in \<open>simp add: live_bufs_def opt_buf_usable\<close>)
  then have n: "ab_ok ?H ?n1" "ab_ok ?H ?n2" "ab_buffer ?n1 \<noteq> ab_buffer ?n2"
    by (auto simp: alb.bufs_ok_Cons)
  obtain w where w: "arraybufferalign_clear (lk_toWrite s, ?H) = Some (w, ?H)"
    using clear_all[OF u(1), of ?H] by (auto simp: alb.owned_def restrict_map_def)
  have d: "ab_buffer ?n1 \<noteq> NULL" "ab_buffer ?n1 \<in> dom ?H" "ab_buffer ?n2 \<noteq> NULL" "ab_buffer ?n2 \<in> dom ?H"
    using alb.ok_adr[OF n(1)] alb.ok_adr[OF n(2)] by simp_all
  let ?H1 = "?H(ab_buffer ?n1 := None)"
  have "ab_buffer ?n2 \<in> dom ?H1" using d(4) n(3) by auto
  then have c: "arbuffer_clear ?n1 ?H = Some (zero_arbuf, ?H1)"
    "arbuffer_clear ?n2 ?H1 = Some (zero_arbuf, ?H1(ab_buffer ?n2 := None))"
    using alb.clean_free d by simp_all
  show ?thesis unfolding linkage_thread_end_def w by (simp add: c)
qed

lemma inv_running: "link_inv s \<Longrightarrow> link_inv (s\<lparr>running := b\<rparr>)" "link_pending (s\<lparr>running := b\<rparr>) = link_pending s"
  "link_taken (s\<lparr>running := b\<rparr>) = link_taken s"
proof -
  have "as_asynclog (s\<lparr>running := b\<rparr>) = as_asynclog s" by (simp add: as_asynclog_def)
  then show "link_inv s \<Longrightarrow> link_inv (s\<lparr>running := b\<rparr>)" "link_pending (s\<lparr>running := b\<rparr>) = link_pending s"
    "link_taken (s\<lparr>running := b\<rparr>) = link_taken s"
    by (simp_all add: link_inv_def link_pending_def link_taken_def)
qed

lemma stop_at_test:
  assumes "link_inv s" "lk_pos s = AtTest" "\<not> running s"
  shows "\<exists>s'. linkage_thread s = Some s' \<and> linkage_thread s' = Some s' \<and> lk_pos s' = Ended \<and> \<not> running s' \<and> lk_out s' = lk_out s"
proof -
  obtain s' where s': "linkage_thread_end s = Some s'" "lk_pos s' = Ended" "running s' = running s" "lk_out s' = lk_out s"
    using thread_end_ok[OF assms(1,2)] by blast
  then have "linkage_thread s = Some s'" "linkage_thread s' = Some s'" using assms(2,3) by (simp_all add: linkage_thread_def)
  then show ?thesis using s' assms(3) by simp
qed

lemma stop_at_write:
  assumes "link_inv s" "lk_pos s = AtWrite" "\<not> running s"
  shows "\<exists>s1 s'. linkage_thread s = Some s1 \<and> linkage_thread s1 = Some s' \<and> linkage_thread s' = Some s' \<and> lk_pos s' = Ended \<and>
    \<not> running s' \<and> lk_out s' = lk_out s @ concat (map (buffer_reports \<circ> link_decode) (link_taken s))"
proof -
  obtain s1 where s1: "linkage_write s = Some s1" "link_inv s1" "lk_pos s1 = AtTest" "running s1 = running s"
      "lk_out s1 = lk_out s @ concat (map (buffer_reports \<circ> link_decode) (link_taken s))"
    using write_link_ok[OF assms(1,2)] by auto
  have "linkage_thread s = Some s1" using s1(1) assms(2) by (simp add: linkage_thread_def)
  then show ?thesis using stop_at_test[OF s1(2,3)] s1(4,5) assms(3) by auto
qed

text \<open>After a swap the thread has all that was pending.\<close>

lemma swap_taken:
  assumes "link_pending s' = xs @ [[]]" "al_cout (lk_buffers s') = 0"
  shows "link_taken s' = xs"
  using assms by (simp add: link_pending_def alog_pending_def link_taken_def filled_def)

section \<open>Properties\<close>

text \<open>C39: whatever the order of the sends and the steps of the thread of a running log, no step faults, and the records of the
  buffers that the thread has dealt with, followed by those that wait in buffers, are what was sent, in order.  What is
  reported of a buffer, however, is its first record, as often as records of that length fit, since the loop never moves
  on: the other records of the buffer are not looked at.  The headers of the records have the length of the payload, an
  \<open>ADDDEV\<close> record holds its structure, allocations return blocks that are not in use, and the array of buffers does not fill
  up between two swaps.\<close>

theorem linkage_reports:
  assumes "link_inv s" and "all_allowed link_step link_allowed ops ([], s)"
  shows "\<exists>mss s'. foldM link_step ops ([], s) = Some (mss, s') \<and> link_inv s' \<and>
    concat mss @ link_waiting s' = link_waiting s @ concat (map link_inp ops) \<and>
    lk_out s' = lk_out s @ concat (map buffer_reports mss)"
proof -
  have "obs_inv (lk_out s) ([], s)" using assms(1) by (simp add: obs_inv_def)
  from links.run_view[OF this assms(2)] show ?thesis by (auto simp: obs_inv_def obs_view_def)
qed

definition sample_link :: linkageasynclog where
  "sample_link = the (linkagelog_init True (8, 16, 24, 32) Map.empty)"

definition sample_rec :: link_rec where
  "sample_rec = (\<lparr>lh_ver = 1, lh_pad = (0, 0, 0), lh_command = LOG_ADDDEV, lh_len = 20\<rparr>,
     le32 5 @ le32 6 @ le64 808000010001 @ le32 0)"

lemma sample_rec_valid: "link_valid sample_rec"
  by (simp add: sample_rec_def link_valid_def le64_def)

lemmas sample_link_defs = sample_link_def linkagelog_init_def linkageasynclog_init_def linkageasynclog_def_init_def
  linkageasynclog_start_def linkage_thread_begin_def link_consts arbuffer_init_def arraybufferalign_init_def zero_aralign_def
  bcalloc_def MAXBUFFER_def

lemma sample_link_inv: "link_inv sample_link"
proof -
  have "alog_inv (as_asynclog sample_link)" unfolding alog_inv_def
    by (intro exI[of _ "[]"])
      (simp add: sample_link_defs as_asynclog_def holds_def alb.entries_def CAP_def alb.bufs_ok_def live_bufs_def opt_buf_usable
        ab_ok_def arbuffer_usable_def phase_ok_def lf_ok_no_file)
  moreover have "link_pending sample_link = [[]]" "lk_pos sample_link = AtTest"
    by (simp_all add: sample_link_defs link_pending_def alog_pending_def as_asynclog_def filled_def ab_content_def)
  ultimately show ?thesis by (simp add: link_inv_def)
qed

lemma sample_link_start:
  "lk_pos sample_link = AtTest" "running sample_link" "al_cout (lk_buffers sample_link) = 0" "lk_mem sample_link 40 = None"
  "lk_out sample_link = []" "link_waiting sample_link = []"
  by (simp_all add: sample_link_defs link_waiting_def link_pending_def alog_pending_def as_asynclog_def filled_def ab_content_def)

text \<open>A record is sent while the thread is at the test, and dealt with in its next round.\<close>

definition sample_link_ops :: "link_op list" where
  "sample_link_ops = [LkSend sample_rec 40, LkThread, LkThread, LkThread]"

lemma sample_sent:
  "\<exists>s'. linkagelog_send 40 (link_encode sample_rec) (int (length (snd sample_rec))) sample_link = Some s' \<and> link_inv s' \<and>
     link_waiting s' = [sample_rec] \<and> lk_pos s' = AtTest \<and> running s' \<and> lk_out s' = [] \<and> al_cout (lk_buffers s') \<le> 1"
  using send_ok[OF sample_link_inv, of "fst sample_rec" "snd sample_rec" 40] sample_rec_valid sample_link_start
  by (auto simp: link_consts MAXBUFFER_def)

lemma sample_link_allowed: "all_allowed link_step link_allowed sample_link_ops ([], sample_link)"
proof -
  obtain s1 where s1: "linkagelog_send 40 (link_encode sample_rec) (int (length (snd sample_rec))) sample_link = Some s1"
      "link_inv s1" "lk_pos s1 = AtTest" "running s1" "al_cout (lk_buffers s1) \<le> 1"
    using sample_sent by blast
  let ?s2 = "s1\<lparr>lk_pos := AtSwap\<rparr>"
  have "as_asynclog ?s2 = as_asynclog s1" using s1(3) by (simp add: as_asynclog_def)
  then have i2: "link_inv ?s2" using s1(2) by (simp add: link_inv_def link_pending_def)
  have "lk_pos ?s2 = AtSwap" "al_cout (lk_buffers ?s2) < LINKAGEASYNCLOG_MAXBUFFER" using s1(5) by (simp_all add: link_consts MAXBUFFER_def)
  from swap_link_ok[OF i2 this] obtain s3 where s3: "linkage_swap ?s2 = Some s3" "link_inv s3" "lk_pos s3 = AtWrite" "running s3 = running ?s2" by auto
  obtain s4 where s4: "linkage_write s3 = Some s4" using write_link_ok[OF s3(2,3)] by auto
  have t: "linkage_thread s1 = Some ?s2" "linkage_thread ?s2 = Some s3" "linkage_thread s3 = Some s4"
    using s1(3,4) s3(1,3) s4 by (simp_all add: linkage_thread_def)
  show ?thesis using sample_link_start(3,4) sample_rec_valid s1 s3(3,4) t by (simp add: sample_link_ops_def link_consts MAXBUFFER_def)
qed

theorem linkage_reports_witness:
  "\<exists>mss s'. foldM link_step sample_link_ops ([], sample_link) = Some (mss, s') \<and> link_inv s' \<and>
    concat mss @ link_waiting s' = link_waiting sample_link @ concat (map link_inp sample_link_ops) \<and>
    lk_out s' = lk_out sample_link @ concat (map buffer_reports mss)"
  by (rule linkage_reports[OF sample_link_inv sample_link_allowed])

text \<open>With records of one length the first one is reported for each of them.\<close>

theorem same_length_repeats:
  assumes "\<forall>m' \<in> set (m # ms). length (snd m') = l" and "0 < l"
  shows "buffer_reports (m # ms) = concat (replicate (Suc (length ms)) (link_event m))"
proof -
  have e: "length (link_encode m') = 8 + l" if "length (snd m') = l" for m' using that by (cases m') (simp add: link_encode_def)
  have "length (concat (map link_encode ms')) = length ms' * (8 + l)" if "\<forall>m' \<in> set ms'. length (snd m') = l" for ms'
    using that by (induction ms') (simp_all add: e)
  then have "length (concat (map link_encode (m # ms))) = Suc (length ms) * (8 + l)" using assms(1) by (metis length_Cons)
  moreover have "link_rounds l (Suc (length ms) * (8 + l)) = Suc (length ms)"
    using assms(2) unfolding link_rounds_def by (simp del: mult_Suc)
  ultimately show ?thesis using assms(1) by (simp add: buffer_reports_def)
qed

theorem same_length_repeats_witness:
  "buffer_reports (sample_rec # [sample_rec]) = concat (replicate (Suc (length [sample_rec])) (link_event sample_rec))"
  by (rule same_length_repeats[where l = 20]) (simp_all add: sample_rec_def le64_def)

text \<open>\<open>linkagelog_stop\<close> ends the thread and frees its blocks, but the records that were sent are dealt with only when the
  thread is past its test of \<open>running_\<close>: when it is at the test all of them are lost, when it is at work those that were
  sent since it took the buffers over.\<close>

theorem linkage_stop_delivers:
  assumes "link_inv s" and "lk_pos s = AtSwap \<Longrightarrow> al_cout (lk_buffers s) < LINKAGEASYNCLOG_MAXBUFFER"
  shows "\<exists>s'. linkagelog_stop s = Some s' \<and> lk_pos s' = Ended \<and> \<not> running s' \<and>
    lk_out s' = lk_out s @ concat (map (buffer_reports \<circ> link_decode)
      (case lk_pos s of AtSwap \<Rightarrow> link_pending s | AtWrite \<Rightarrow> link_taken s | _ \<Rightarrow> []))"
proof -
  let ?s = "s\<lparr>running := False\<rparr>"
  have i: "link_inv ?s" by (rule inv_running(1)[OF assms(1)])
  show ?thesis
  proof (cases "lk_pos s")
    case AtTest
    then show ?thesis using stop_at_test[OF i] by (auto simp: linkagelog_stop_def linkageasynclog_stop_def)
  next
    case AtSwap
    then obtain s1 where s1: "linkage_swap ?s = Some s1" "link_inv s1" "lk_out s1 = lk_out s" "lk_pos s1 = AtWrite" "\<not> running s1"
        "link_pending s1 = link_pending s @ [[]]" "al_cout (lk_buffers s1) = 0"
      using swap_link_ok[OF i] assms(2) inv_running(2)[of False s] by auto
    then have "linkage_thread ?s = Some s1" using AtSwap by (simp add: linkage_thread_def)
    then show ?thesis using stop_at_write[OF s1(2,4,5)] swap_taken[OF s1(6,7)] s1(3) AtSwap
      by (auto simp: linkagelog_stop_def linkageasynclog_stop_def)
  next
    case AtWrite
    then show ?thesis using stop_at_write[OF i] inv_running(3)[of False s] by (auto simp: linkagelog_stop_def linkageasynclog_stop_def)
  next
    case Ended
    then show ?thesis using assms(1) by (simp add: link_inv_def)
  qed
qed

text \<open>The program of \<open>main.c\<close>, when the thread has not yet come to its test: the record is lost.\<close>

definition sample_link_sent :: linkageasynclog where
  "sample_link_sent = the (linkagelog_send 40 (link_encode sample_rec) (int (length (snd sample_rec))) sample_link)"

lemma sample_link_sent_facts: "link_inv sample_link_sent" "lk_pos sample_link_sent = AtTest" "lk_out sample_link_sent = []"
  "link_waiting sample_link_sent = [sample_rec]"
  using sample_sent by (auto simp: sample_link_sent_def)

theorem linkage_stop_delivers_witness:
  "\<exists>s'. linkagelog_stop sample_link_sent = Some s' \<and> link_waiting sample_link_sent = [sample_rec] \<and> lk_out s' = []"
  using linkage_stop_delivers[OF sample_link_sent_facts(1)] sample_link_sent_facts by auto

text \<open>What \<open>log_header_set\<close> writes is the header that the thread reads.\<close>

theorem log_header_set_loads:
  assumes "8 \<le> length data"
  shows "\<exists>data'. log_header_set data cmd len = Some data' \<and> length data' = length data \<and> drop 8 data' = drop 8 data \<and>
    load_link_hdr data' = Some \<lparr>lh_ver = 1, lh_pad = (data ! 1, data ! 2, data ! 3), lh_command = cmd, lh_len = len\<rparr>"
proof -
  have t: "take 3 (drop 1 data) = [data ! 1, data ! 2, data ! 3]"
  proof (rule nth_equalityI)
    show "length (take 3 (drop 1 data)) = length [data ! 1, data ! 2, data ! 3]" using assms by simp
    fix i assume "i < length (take 3 (drop 1 data))"
    then consider "i = 0" | "i = 1" | "i = 2" using assms by fastforce
    then show "take 3 (drop 1 data) ! i = [data ! 1, data ! 2, data ! 3] ! i"
      using assms by cases (simp_all add: numeral_2_eq_2 numeral_3_eq_3)
  qed
  let ?h = "\<lparr>lh_ver = 1, lh_pad = (data ! 1, data ! 2, data ! 3), lh_command = cmd, lh_len = len\<rparr>"
  have "log_header_set data cmd len = Some (link_hdr_bytes ?h @ drop 8 data)"
    using assms t by (simp add: log_header_set_def link_hdr_bytes_def)
  then show ?thesis using assms by simp
qed

theorem log_header_set_loads_witness:
  "\<exists>data'. log_header_set (replicate 100 0) LOG_ADDDEV 20 = Some data' \<and> length data' = length (replicate 100 (0 :: u8)) \<and>
    drop 8 data' = drop 8 (replicate 100 0) \<and>
    load_link_hdr data' = Some \<lparr>lh_ver = 1, lh_pad = (replicate 100 0 ! 1, replicate 100 0 ! 2, replicate 100 0 ! 3),
      lh_command = LOG_ADDDEV, lh_len = 20\<rparr>"
  by (rule log_header_set_loads) simp

end
