(* ===== verification/DsTools.thy ===== *)
theory DsTools
  imports Base
begin

text \<open>
  The string helpers of \<open>ds_tools.h\<close>: hexadecimal text, trimming, net masks and the search for a substring.  A buffer of
  C bytes is a list; reading or writing outside it is a fault, and so is using a value that was never set.  A C string is the
  part before the first zero byte.  Blocks are passed by value: a function returns the buffer that it changed.
\<close>

section \<open>Bytes and strings\<close>

definition rd :: "u8 list \<Rightarrow> nat \<Rightarrow> u8 option" where
  "rd b i = (if i < length b then Some (b ! i) else None)"

definition wr :: "nat \<Rightarrow> u8 \<Rightarrow> u8 list \<Rightarrow> u8 list option" where
  "wr i v b = (if i < length b then Some (b[i := v]) else None)"

definition strlen :: "u8 list \<Rightarrow> nat option" where
  "strlen b = (if 0 \<in> set b then Some (length (takeWhile (\<lambda>c. c \<noteq> 0) b)) else None)"

text \<open>The character classes of the C locale that the code asks for.\<close>

definition is_digit :: "u8 \<Rightarrow> bool" where "is_digit c \<longleftrightarrow> 48 \<le> c \<and> c \<le> 57"
definition is_upper :: "u8 \<Rightarrow> bool" where "is_upper c \<longleftrightarrow> 65 \<le> c \<and> c \<le> 90"
definition is_alpha :: "u8 \<Rightarrow> bool" where "is_alpha c \<longleftrightarrow> 65 \<le> c \<and> c \<le> 90 \<or> 97 \<le> c \<and> c \<le> 122"
definition is_space :: "u8 \<Rightarrow> bool" where "is_space c \<longleftrightarrow> c = 32 \<or> 9 \<le> c \<and> c \<le> 13"

section \<open>Hexadecimal text\<close>

definition hex_val :: "u8 \<Rightarrow> u32 option" where
  "hex_val c =
     (if 48 \<le> c \<and> c \<le> 57 then Some (ucast c - 48)
      else if 65 \<le> c \<and> c \<le> 70 then Some (ucast c - 55)
      else if 97 \<le> c \<and> c \<le> 102 then Some (ucast c - 87) else None)"

text \<open>
  \<open>sscanf(buf, "%02x", &val)\<close> on a buffer of two characters: blanks are skipped, a sign is taken, and as many digits as
  there are; \<open>None\<close> when there is no digit, and \<open>val\<close> is not written.
\<close>

definition scan_hex2 :: "u8 \<Rightarrow> u8 \<Rightarrow> u32 option" where
  "scan_hex2 a b =
     (if is_space a \<or> a = 43 then hex_val b
      else if a = 45 then map_option uminus (hex_val b)
      else case hex_val a of
             None \<Rightarrow> None
           | Some x \<Rightarrow> (case hex_val b of None \<Rightarrow> Some x | Some y \<Rightarrow> Some (16 * x + y)))"

function asicc_to_hex_loop :: "u8 list \<Rightarrow> nat \<Rightarrow> nat \<Rightarrow> nat \<Rightarrow> u32 option \<Rightarrow> u8 list \<Rightarrow> (nat \<times> u8 list) option" where
  "asicc_to_hex_loop str len i j val out =
     (if i < len
      then (case (rd str i, rd str (i + 1)) of
              (Some a, Some b) \<Rightarrow>
                (let val' = (case scan_hex2 a b of None \<Rightarrow> val | Some v \<Rightarrow> Some v) in
                 case val' of
                   None \<Rightarrow> None
                 | Some v \<Rightarrow> (case wr j (ucast v) out of
                               None \<Rightarrow> None
                             | Some out' \<Rightarrow> asicc_to_hex_loop str len (i + 2) (j + 1) val' out'))
            | _ \<Rightarrow> None)
      else Some (j, out))"
  by pat_completeness auto
termination by (relation "measure (\<lambda>(str, len, i, j, val, out). len - i)") auto

declare asicc_to_hex_loop.simps [simp del]

definition asicc_to_hex :: "u8 list \<Rightarrow> u8 list \<Rightarrow> (nat \<times> u8 list) option" where
  "asicc_to_hex str out = do {
     len \<leftarrow> strlen str;
     if len mod 2 \<noteq> 0 then Some (0, out) else asicc_to_hex_loop str len 0 0 None out }"

definition hex_digit :: "u8 \<Rightarrow> u8" where
  "hex_digit d = (if d < 10 then 48 + d else 87 + d)"

text \<open>\<open>sprintf(p, "%02x", c)\<close>: two digits and the terminating zero.\<close>

definition put_hex2 :: "nat \<Rightarrow> u8 \<Rightarrow> u8 list \<Rightarrow> u8 list option" where
  "put_hex2 i c out = do {
     out \<leftarrow> wr i (hex_digit (drop_bit 4 c)) out;
     out \<leftarrow> wr (i + 1) (hex_digit (c AND 15)) out;
     wr (i + 2) 0 out }"

fun hex_to_asicc_loop :: "u8 list \<Rightarrow> nat \<Rightarrow> u8 list \<Rightarrow> u8 list option" where
  "hex_to_asicc_loop [] index out = Some out"
| "hex_to_asicc_loop (c # cs) index out = Option.bind (put_hex2 index c out) (hex_to_asicc_loop cs (index + 2))"

definition hex_to_asicc :: "u8 list \<Rightarrow> nat \<Rightarrow> u8 list \<Rightarrow> u8 list option" where
  "hex_to_asicc str len out = (if len \<le> length str then hex_to_asicc_loop (take len str) 0 out else None)"

text \<open>The formats \<open>MD5_FORMAT\<close> and \<open>UCPREKEY_FORMAT\<close> print 16 and 8 bytes the same way; the result counts the characters.\<close>

definition pwd_to_str :: "u8 list \<Rightarrow> u8 list \<Rightarrow> (nat \<times> u8 list) option" where
  "pwd_to_str pwd out = map_option (Pair 32) (hex_to_asicc pwd 16 out)"

definition ucprekey_to_str :: "u8 list \<Rightarrow> u8 list \<Rightarrow> (nat \<times> u8 list) option" where
  "ucprekey_to_str pwd out = map_option (Pair 16) (hex_to_asicc pwd 8 out)"

definition str_to_pwd :: "u8 list \<Rightarrow> u8 list \<Rightarrow> (nat \<times> u8 list) option" where
  "str_to_pwd str out = asicc_to_hex str out"

text \<open>The value of a digit; \<open>ch > 'z'\<close> is what the code tests, so the letters after \<open>f\<close> have values above 15.\<close>

definition c2i :: "u8 \<Rightarrow> int" where
  "c2i ch =
     (if is_digit ch then uint ch - 48
      else if ch < 65 \<or> ch > 70 \<and> ch < 97 \<or> ch > 122 then -1
      else if is_alpha ch then (if is_upper ch then uint ch - 55 else uint ch - 87) else -1)"

text \<open>A shift by 64 or more is undefined.\<close>

fun strhex2int_loop :: "u8 list \<Rightarrow> nat \<Rightarrow> nat \<Rightarrow> u64 \<Rightarrow> u64 option" where
  "strhex2int_loop [] len i num = Some num"
| "strhex2int_loop (c # cs) len i num =
     (if (len - i - 1) * 4 < 64
      then strhex2int_loop cs len (i + 1) (num OR push_bit ((len - i - 1) * 4) (word_of_int (c2i c)))
      else None)"

definition strhex2int :: "u8 list \<Rightarrow> u64 option" where
  "strhex2int hex = do { len \<leftarrow> strlen hex; strhex2int_loop (take len hex) len 0 0 }"

section \<open>Trimming\<close>

definition is_blank :: "u8 \<Rightarrow> bool" where
  "is_blank c \<longleftrightarrow> c = 32 \<or> c = 9 \<or> c = 13 \<or> c = 10"

text \<open>The loop runs down to the first character and not below; on the empty string it starts at -1, before the buffer.\<close>

fun trim_tail_loop :: "nat \<Rightarrow> u8 list \<Rightarrow> u8 list option" where
  "trim_tail_loop 0 str = Some str"
| "trim_tail_loop (Suc n) str =
     (case rd str (Suc n) of
        None \<Rightarrow> None
      | Some c \<Rightarrow> if is_blank c then Option.bind (wr (Suc n) 0 str) (trim_tail_loop n) else Some str)"

definition trim_cmd_tail :: "u8 list \<Rightarrow> u8 list option" where
  "trim_cmd_tail str = do { len \<leftarrow> strlen str; if len = 0 then None else trim_tail_loop (len - 1) str }"

text \<open>The index of the first character that is not blank; \<open>Some None\<close> is \<open>NULL\<close>.\<close>

fun trim_head_loop :: "u8 list \<Rightarrow> nat \<Rightarrow> nat option option" where
  "trim_head_loop [] p = None"
| "trim_head_loop (c # cs) p =
     (if c = 0 then Some None else if is_blank c then trim_head_loop cs (p + 1) else Some (Some p))"

definition trim_cmd_head :: "u8 list \<Rightarrow> nat option option" where
  "trim_cmd_head str = trim_head_loop str 0"

section \<open>Net masks\<close>

fun len_2_mask_loop :: "nat \<Rightarrow> u32 \<Rightarrow> u32 \<Rightarrow> u32" where
  "len_2_mask_loop 0 b m = m"
| "len_2_mask_loop (Suc n) b m = len_2_mask_loop n (drop_bit 1 b) (m OR b)"

definition len_2_mask :: "u32 \<Rightarrow> u32" where
  "len_2_mask len = len_2_mask_loop (unat len) 0x80000000 0"

function mask_2_len_loop :: "u32 \<Rightarrow> u32 \<Rightarrow> u32 \<Rightarrow> u32" where
  "mask_2_len_loop mk i x = (if mk AND x \<noteq> 0 then mask_2_len_loop mk (i + 1) (drop_bit 1 x) else i)"
  by pat_completeness auto
termination
proof (relation "measure (\<lambda>(mk, i, x). unat x)")
  fix mk i x :: u32 assume "mk AND x \<noteq> 0"
  then have "x \<noteq> 0" by auto
  then have "0 < unat x" by (simp add: unat_gt_0)
  moreover have "unat (drop_bit 1 x) = unat x div 2" by (simp only: drop_bit_eq_div power_one_right unat_div) simp
  ultimately show "((mk, i + 1, drop_bit 1 x), mk, i, x) \<in> measure (\<lambda>(mk, i, x). unat x)"
    by (simp only: in_measure case_prod_conv)
qed simp

declare mask_2_len_loop.simps [simp del]

definition mask_2_len :: "u32 \<Rightarrow> u32" where
  "mask_2_len mk = mask_2_len_loop mk 0 0x80000000"

section \<open>Searching\<close>

text \<open>
  \<open>cur\<close> is the index of \<open>p1\<close>, \<open>same\<close> that of \<open>p2\<close>, \<open>eo\<close> is \<open>exprOffSet\<close>.  The length of
  the pattern is asked for only when the two characters agree.
\<close>

partial_function (option) find_first_loop :: "u8 list \<Rightarrow> u8 list \<Rightarrow> nat \<Rightarrow> nat \<Rightarrow> nat \<Rightarrow> int \<Rightarrow> int option" where
  "find_first_loop buf expr n cur same eo =
     (if cur < n
      then do {
        c \<leftarrow> rd buf cur;
        d \<leftarrow> rd expr same;
        if c = d \<and> same = 0 then find_first_loop buf expr n (cur + 1) (same + 1) (int cur)
        else do {
          len \<leftarrow> (if c = d then strlen expr else Some 0);
          if same < len
          then (if same + 1 = len then Some eo else find_first_loop buf expr n (cur + 1) (same + 1) eo)
          else if eo \<ge> 0 then find_first_loop buf expr n (nat eo + 1) 0 (-1)
          else find_first_loop buf expr n (cur + 1) same eo } }
      else Some (-1))"

declare find_first_loop.simps [code]

definition findFirst :: "u8 list \<Rightarrow> int \<Rightarrow> u8 list \<Rightarrow> int \<Rightarrow> int option" where
  "findFirst buf offset expr bufMaxLen =
     (if offset < 0 \<or> offset > bufMaxLen - 1 then Some (-1)
      else find_first_loop buf expr (nat bufMaxLen) (nat offset) 0 (-1))"

section \<open>Copies\<close>

definition mem_strcpy :: "u8 list \<Rightarrow> u8 list \<Rightarrow> nat \<Rightarrow> u8 list option" where
  "mem_strcpy dst src n =
     (if n \<le> length src \<and> n < length dst then Some (take n src @ 0 # drop (n + 1) dst) else None)"

text \<open>\<open>junk\<close> is what \<open>malloc\<close> returns: none, or the old bytes of the new block.  \<open>Some None\<close> is \<open>NULL\<close>.\<close>

definition mem_strdup :: "(nat \<Rightarrow> u8) option \<Rightarrow> u8 list \<Rightarrow> nat \<Rightarrow> u8 list option option" where
  "mem_strdup junk src n =
     (case junk of
        None \<Rightarrow> Some None
      | Some f \<Rightarrow> map_option Some (mem_strcpy (map f [0..<n + 1]) src n))"

section \<open>Net masks\<close>

text \<open>The mask of a length is the word whose upper \<open>len\<close> bits are set.\<close>

lemma len_2_mask_loop_bit:
  "bit (len_2_mask_loop n b m) i \<longleftrightarrow> bit m i \<or> (\<exists>j < n. bit b (i + j))"
proof (induction n arbitrary: b m)
  case (Suc n)
  show ?case
    by (simp only: len_2_mask_loop.simps Suc.IH bit_or_iff bit_drop_bit_eq o_def Ex_less_Suc2)
       (auto simp: add.commute add.left_commute)
qed simp

lemma bit_top: "bit (0x80000000 :: u32) i \<longleftrightarrow> i = 31"
proof -
  have "(0x80000000 :: u32) = push_bit 31 1" by simp
  then show ?thesis by (simp only: bit_push_bit_iff bit_1_iff) auto
qed

lemma len_2_mask_bit: "bit (len_2_mask len) i \<longleftrightarrow> i \<le> 31 \<and> 31 < i + unat len"
proof -
  have "(\<exists>j < unat len. i + j = 31) \<longleftrightarrow> i \<le> 31 \<and> 31 < i + unat len"
    by (auto intro!: exI[of _ "31 - i"])
  then show ?thesis by (simp only: len_2_mask_def len_2_mask_loop_bit bit_top) simp
qed

text \<open>\<open>mask_2_len\<close> counts the leading bits that are set.\<close>

lemma and_bit_zero_iff: "mk AND drop_bit j 0x80000000 \<noteq> 0 \<longleftrightarrow> j \<le> 31 \<and> bit mk (31 - j)" for mk :: u32
proof -
  have "w \<noteq> 0 \<longleftrightarrow> (\<exists>i. bit w i)" for w :: u32 
    using bit_imp_le_length[of w] by (auto simp: bit_eq_iff[of w 0])
  then have "mk AND drop_bit j 0x80000000 \<noteq> 0 \<longleftrightarrow> (\<exists>i. bit mk i \<and> j + i = 31)"
    by (simp only: bit_and_iff bit_drop_bit_eq o_def bit_top)
  also have "\<dots> \<longleftrightarrow> j \<le> 31 \<and> bit mk (31 - j)" by (metis add_diff_cancel_left' le_add1 le_add_diff_inverse)
  finally show ?thesis .
qed

lemma mask_2_len_loop_counts:
  assumes "\<forall>i < c. bit mk (31 - i)" "c \<le> 32" "c < 32 \<longrightarrow> \<not> bit mk (31 - c)" "j \<le> c"
  shows "mask_2_len_loop mk (of_nat j) (drop_bit j 0x80000000) = of_nat c"
  using assms(4)
proof (induction "c - j" arbitrary: j)
  case 0
  then have "j = c" by simp
  then show ?case using assms(2,3) by (simp add: mask_2_len_loop.simps and_bit_zero_iff)
next
  case (Suc d)
  then have j: "j < c" by simp
  then have "mk AND drop_bit j 0x80000000 \<noteq> 0" using assms(1,2) by (simp only: and_bit_zero_iff) auto
  then have "mask_2_len_loop mk (of_nat j) (drop_bit j 0x80000000)
      = mask_2_len_loop mk (of_nat j + 1) (drop_bit 1 (drop_bit j 0x80000000))"
    by (simp only: mask_2_len_loop.simps[of mk "of_nat j"] if_True simp_thms)
  also have "\<dots> = mask_2_len_loop mk (of_nat (Suc j)) (drop_bit (Suc j) 0x80000000)"
    by (simp only: drop_bit_drop_bit of_nat_Suc add.commute plus_1_eq_Suc)
  also have "\<dots> = of_nat c" using Suc j by (intro Suc.hyps(1)) auto
  finally show ?case .
qed

lemma mask_2_len_counts:
  assumes "\<forall>i < c. bit mk (31 - i)" "c \<le> 32" "c < 32 \<longrightarrow> \<not> bit mk (31 - c)"
  shows "mask_2_len mk = of_nat c"
  using mask_2_len_loop_counts[OF assms, of 0] by (simp add: mask_2_len_def)

text \<open>C30: the net mask of a length up to 32 has exactly that many upper bits set, and \<open>mask_2_len\<close> finds the length of the
  mask again.\<close>

theorem mask_2_len_inverts:
  assumes "len \<le> 32"
  shows "mask_2_len (len_2_mask len) = len
    \<and> (\<forall>i. bit (len_2_mask len) i = (i \<le> 31 \<and> 31 < i + unat len))"
proof -
  have l: "unat len \<le> 32" using assms by (simp add: word_le_nat_alt)
  have "mask_2_len (len_2_mask len) = of_nat (unat len)"
    using l by (intro mask_2_len_counts) (auto simp: len_2_mask_bit)
  then show ?thesis by (simp add: len_2_mask_bit)
qed

theorem mask_2_len_inverts_witness: "mask_2_len (len_2_mask 24) = 24"
  using mask_2_len_inverts[of 24] by simp

section \<open>The search finds the first occurrence\<close>

text \<open>The reference: the pattern stands at place \<open>i\<close> of the first \<open>n\<close> bytes.\<close>

definition occurs_at :: "u8 list \<Rightarrow> u8 list \<Rightarrow> nat \<Rightarrow> nat \<Rightarrow> bool" where
  "occurs_at pat buf n i \<longleftrightarrow> i + length pat \<le> n \<and> take (length pat) (drop i buf) = pat"

definition first_from :: "u8 list \<Rightarrow> u8 list \<Rightarrow> nat \<Rightarrow> nat \<Rightarrow> int" where
  "first_from pat buf n from = (case find (occurs_at pat buf n) [from..<n] of None \<Rightarrow> -1 | Some i \<Rightarrow> int i)"

lemma first_from_step:
  "s < n \<Longrightarrow> first_from pat buf n s = (if occurs_at pat buf n s then int s else first_from pat buf n (Suc s))"
  by (simp add: first_from_def upt_conv_Cons)

lemma first_from_end: "n \<le> s \<Longrightarrow> first_from pat buf n s = -1"
  by (simp add: first_from_def)

lemma first_from_short:
  assumes "n < s + length pat" shows "first_from pat buf n s = -1"
proof -
  have "find (occurs_at pat buf n) [s..<n] = None"
    using assms by (auto simp: find_None_iff occurs_at_def)
  then show ?thesis by (simp add: first_from_def)
qed

lemma occurs_at_nth:
  assumes "occurs_at pat buf n i" "k < length pat" "n \<le> length buf"
  shows "buf ! (i + k) = pat ! k"
proof -
  have "i + length pat \<le> n" "take (length pat) (drop i buf) ! k = pat ! k" using assms(1) by (simp_all add: occurs_at_def)
  then show ?thesis using assms(2,3) by (simp add: nth_drop)
qed

lemma take_Suc_same:
  assumes "take k (drop s buf) = take k pat" "buf ! (s + k) = pat ! k" "k < length pat" "s + k < length buf"
  shows "take (Suc k) (drop s buf) = take (Suc k) pat"
  using assms by (simp add: take_Suc_conv_app_nth)

lemma strlen_terminated: "0 \<notin> set e \<Longrightarrow> strlen (e @ 0 # r) = Some (length e)"
  by (simp add: strlen_def takeWhile_append)

text \<open>
  The two modes of the loop: looking for the first character (\<open>k = 0\<close>), and with \<open>k\<close> characters matched from place
  \<open>s\<close> on.
\<close>

lemma find_first_loop_correct:
  assumes e: "0 \<notin> set e" "2 \<le> length e" and n: "n \<le> length buf"
  shows "s + k \<le> n \<Longrightarrow> k < length e \<Longrightarrow> take k (drop s buf) = take k e \<Longrightarrow>
    find_first_loop buf (e @ 0 # r) n (s + k) k (if k = 0 then -1 else int s) = Some (first_from e buf n s)"
proof (induction "(n - s) * (length e + 1) + (length e - k)" arbitrary: s k rule: less_induct)
  case less
  note simps = find_first_loop.simps[of buf "e @ 0 # r" n "s + k"]
  have restart: "find_first_loop buf (e @ 0 # r) n (Suc s) 0 (-1) = Some (first_from e buf n (Suc s))" if "s < n"
  proof -
    have "n - s = Suc (n - Suc s)" "e \<noteq> []" using that e(2) by auto
    then have "(n - Suc s) * (length e + 1) + (length e - 0) < (n - s) * (length e + 1) + (length e - k)"
      by (simp only: mult_Suc)
    then show ?thesis using less.hyps[of "Suc s" 0] that \<open>e \<noteq> []\<close> by simp
  qed
  show ?case
  proof (cases "s + k < n")
    case False
    then have "first_from e buf n s = -1" using less.prems by (intro first_from_short) simp
    then show ?thesis using False by (simp add: simps)
  next
    case True
    then have reads: "rd buf (s + k) = Some (buf ! (s + k))" "rd (e @ 0 # r) k = Some (e ! k)"
      using n less.prems by (auto simp: rd_def nth_append)
    have extend: "find_first_loop buf (e @ 0 # r) n (Suc (s + k)) (Suc k) (int s) = Some (first_from e buf n s)"
      if "buf ! (s + k) = e ! k" "Suc k < length e"
      using less.hyps[of s "Suc k"] take_Suc_same[of k s buf e] that less.prems True n by simp
    show ?thesis
    proof (cases "buf ! (s + k) = e ! k")
      case hit: True
      show ?thesis
      proof (cases "Suc k < length e")
        case more: True
        show ?thesis using extend[OF hit more] True reads hit more
          by (subst simps, cases "k = 0") (simp_all add: strlen_terminated[OF e(1)])
      next
        case False
        then have l: "length e = Suc k" "k \<noteq> 0" using less.prems e(2) by auto
        then have "occurs_at e buf n s"
          using take_Suc_same[of k s buf e] hit less.prems True n by (simp add: occurs_at_def)
        then show ?thesis using True reads hit l
          by (subst simps) (simp add: strlen_terminated[OF e(1)] first_from_step)
      qed
    next
      case miss: False
      then have "\<not> occurs_at e buf n s" using occurs_at_nth n less.prems(2) by blast
      then show ?thesis using miss True reads restart
        by (subst simps, cases "k = 0") (simp_all add: first_from_step)
    qed
  qed
qed

text \<open>C28: \<open>findFirst\<close> on a pattern of two characters or more returns, without an access outside the buffers, the
  first place from \<open>offset\<close> on at which the whole pattern stands within the first \<open>bufMaxLen\<close> bytes, and -1 when there is none.
  The loop that goes back after a partial match is thus equal to the plain search.\<close>

theorem findFirst_first_occurrence:
  assumes "0 \<notin> set pat" "2 \<le> length pat" "0 \<le> offset" "bufMaxLen \<le> int (length buf)"
  shows "findFirst buf offset (pat @ 0 # rest) bufMaxLen
    = Some (case find (\<lambda>i. i + length pat \<le> nat bufMaxLen \<and> take (length pat) (drop i buf) = pat)
                   [nat offset..<nat bufMaxLen] of None \<Rightarrow> -1 | Some i \<Rightarrow> int i)"
proof -
  have "findFirst buf offset (pat @ 0 # rest) bufMaxLen = Some (first_from pat buf (nat bufMaxLen) (nat offset))"
  proof (cases "offset > bufMaxLen - 1")
    case True
    then show ?thesis using assms by (simp add: findFirst_def first_from_end)
  next
    case False
    moreover from this have "nat bufMaxLen \<le> length buf" "nat offset \<le> nat bufMaxLen" "0 < length pat"
      using assms by linarith+
    ultimately show ?thesis
      using find_first_loop_correct[of pat "nat bufMaxLen" buf "nat offset" 0 rest] assms
      by (simp add: findFirst_def)
  qed
  then show ?thesis by (simp add: first_from_def occurs_at_def[abs_def])
qed

theorem findFirst_first_occurrence_witness:
  "findFirst [97, 97, 98, 97, 98] 0 [97, 98, 0] 5 = Some 1 \<and> findFirst [97, 97, 98, 97, 98] 2 [97, 98, 0] 4 = Some (-1)"
  using findFirst_first_occurrence[of "[97, 98]" 0 5 "[97, 97, 98, 97, 98]" "[]"]
    findFirst_first_occurrence[of "[97, 98]" 2 4 "[97, 97, 98, 97, 98]" "[]"]
  by (simp add: upt_rec)

lemma find_first_loop_single:
  assumes "c \<noteq> 0" "n \<le> length buf"
  shows "s + k \<le> n \<Longrightarrow> k \<le> 1 \<Longrightarrow> find_first_loop buf (c # 0 # r) n (s + k) k (if k = 0 then -1 else int s) = Some (-1)"
proof (induction "(n - s) * 2 + (1 - k)" arbitrary: s k rule: less_induct)
  case less
  note simps = find_first_loop.simps[of buf "c # 0 # r" n "s + k"]
  show ?case
  proof (cases "s + k < n")
    case True
    then have reads: "rd buf (s + k) = Some (buf ! (s + k))" "rd (c # 0 # r) k = Some ((c # 0 # r) ! k)"
      using assms less.prems by (auto simp: rd_def)
    have "n - s = Suc (n - Suc s)" using True by simp
    then have restart: "find_first_loop buf (c # 0 # r) n (Suc s) 0 (-1) = Some (-1)"
      using less.hyps[of "Suc s" 0] True less.prems by simp
    have one: "k = 0 \<Longrightarrow> find_first_loop buf (c # 0 # r) n (Suc s) 1 (int s) = Some (-1)"
      using less.hyps[of s 1] True by simp
    have len: "strlen (c # 0 # r) = Some 1" using assms(1) by (simp add: strlen_def)
    consider "k = 0" | "k = 1" using less.prems by linarith
    then show ?thesis
    proof cases
      case 1
      then show ?thesis using True reads restart one find_first_loop.simps[of buf "c # 0 # r" n s 0] by simp
    next
      case 2
      then show ?thesis
        using True reads restart assms(1) len find_first_loop.simps[of buf "c # 0 # r" n "Suc s" 1] by simp
    qed
  qed (simp add: simps)
qed

text \<open>A pattern of one character is never found, wherever it stands: the loop compares the number of matched
  characters with the length of the pattern only after the second one.\<close>

theorem findFirst_single_never_found:
  assumes "c \<noteq> 0" "bufMaxLen \<le> int (length buf)"
  shows "findFirst buf offset [c, 0] bufMaxLen = Some (-1)"
  using find_first_loop_single[of c "nat bufMaxLen" buf "nat offset" 0 "[]"] assms
  by (auto simp: findFirst_def)

theorem findFirst_single_never_found_witness: "findFirst [97, 98] 0 [98, 0] 2 = Some (-1)"
  using findFirst_single_never_found[of 98 2 "[97, 98]" 0] by simp

section \<open>Hexadecimal text can be read back\<close>

definition hexes :: "u8 list \<Rightarrow> u8 list" where
  "hexes cs = concat (map (\<lambda>c. [hex_digit (drop_bit 4 c), hex_digit (c AND 15)]) cs)"

lemma hexes_simps: "hexes [] = []"
  "hexes (c # cs) = hex_digit (drop_bit 4 c) # hex_digit (c AND 15) # hexes cs"
  by (simp_all add: hexes_def)

lemma length_hexes [simp]: "length (hexes cs) = 2 * length cs"
  by (induction cs) (simp_all add: hexes_simps)

lemma nibble_cases:
  assumes "d < (16 :: u8)"
  shows "d = 0 \<or> d = 1 \<or> d = 2 \<or> d = 3 \<or> d = 4 \<or> d = 5 \<or> d = 6 \<or> d = 7 \<or>
    d = 8 \<or> d = 9 \<or> d = 10 \<or> d = 11 \<or> d = 12 \<or> d = 13 \<or> d = 14 \<or> d = 15"
proof -
  have "unat d < 16" using assms by (simp add: word_less_nat_alt)
  then show ?thesis by (simp add: word_unat_eq_iff) presburger
qed

lemma hex_digit_facts:
  assumes "d < (16 :: u8)"
  shows "hex_digit d \<noteq> 0" "hex_val (hex_digit d) = Some (ucast d)" "\<not> is_space (hex_digit d)"
    "hex_digit d \<noteq> 43" "hex_digit d \<noteq> 45"
  using nibble_cases[OF assms] by (elim disjE; simp add: hex_digit_def hex_val_def is_space_def)+

lemma nibbles:
  fixes c :: u8
  shows "drop_bit 4 c < 16" "c AND 15 < 16" "ucast (16 * ucast (drop_bit 4 c) + ucast (c AND 15) :: u32) = c"
proof -
  have h: "unat (drop_bit 4 c) = unat c div 16" by (simp only: drop_bit_eq_div unat_div) simp
  have m: "c AND 15 = take_bit 4 c" by (simp add: take_bit_eq_mask mask_eq_exp_minus_1)
  have l: "unat (c AND 15) = unat c mod 16" by (simp only: m unsigned_take_bit_eq) (simp add: take_bit_eq_mod)
  have c: "unat c < 256" using unsigned_less[of c] by simp
  show "drop_bit 4 c < 16" using h c by (simp add: word_less_nat_alt)
  show "c AND 15 < 16" using l by (simp add: word_less_nat_alt)
  show "ucast (16 * ucast (drop_bit 4 c) + ucast (c AND 15) :: u32) = c"
  proof -
    let ?w = "16 * ucast (drop_bit 4 c) + ucast (c AND 15) :: u32"
    have "unat (ucast (drop_bit 4 c) :: u32) = unat c div 16" "unat (ucast (c AND 15) :: u32) = unat c mod 16"
      using c by (simp_all add: h l unsigned_ucast_eq take_bit_nat_eq_self)
    then have "unat ?w = (16 * (unat c div 16) mod 2 ^ 32 + unat c mod 16) mod 2 ^ 32"
      by (simp add: unat_word_ariths)
    also have "\<dots> = unat c" using c by simp
    finally have "unat (ucast ?w :: u8) = unat c" using c by (simp only: unsigned_ucast_eq) (simp add: take_bit_nat_eq_self)
    then show ?thesis by (simp only: word_unat_eq_iff)
  qed
qed

lemma scan_hex2_digits: "scan_hex2 (hex_digit (drop_bit 4 c)) (hex_digit (c AND 15))
    = Some (16 * ucast (drop_bit 4 c) + ucast (c AND 15))"
  by (simp add: scan_hex2_def hex_digit_facts nibbles)

lemma put_hex2_eq:
  assumes "length xs + 2 < length xs + length ys"
  shows "put_hex2 (length xs) c (xs @ ys) =
    Some ((xs @ [hex_digit (drop_bit 4 c), hex_digit (c AND 15)]) @ 0 # drop 3 ys)"
proof -
  obtain a b d zs where "ys = a # b # d # zs"
    using assms by (cases ys; cases "tl ys"; cases "tl (tl ys)") auto
  then show ?thesis by (simp add: put_hex2_def wr_def list_update_append)
qed

lemma hex_to_asicc_loop_eq:
  "2 * length cs < length ys \<Longrightarrow>
    hex_to_asicc_loop cs (length xs) (xs @ ys) =
      Some (xs @ hexes cs @ (if cs = [] then ys else 0 # drop (2 * length cs + 1) ys))"
proof (induction cs arbitrary: xs ys)
  case (Cons c cs)
  let ?xs = "xs @ [hex_digit (drop_bit 4 c), hex_digit (c AND 15)]"
  have "hex_to_asicc_loop (c # cs) (length xs) (xs @ ys) = hex_to_asicc_loop cs (length ?xs) (?xs @ 0 # drop 3 ys)"
    using Cons.prems by (simp add: put_hex2_eq)
  also have "\<dots> = Some (?xs @ hexes cs @ (if cs = [] then 0 # drop 3 ys else 0 # drop (2 * length cs + 1) (0 # drop 3 ys)))"
    using Cons.prems by (intro Cons.IH) simp
  finally show ?case by (simp add: hexes_simps add.commute numeral_eq_Suc)
qed (simp add: hexes_simps)

lemma asicc_to_hex_loop_eq:
  "str = pre @ hexes cs @ 0 # r \<Longrightarrow> out = xs @ ys \<Longrightarrow> length cs \<le> length ys \<Longrightarrow>
    asicc_to_hex_loop str (length pre + 2 * length cs) (length pre) (length xs) val out
      = Some (length xs + length cs, xs @ cs @ drop (length cs) ys)"
proof (induction cs arbitrary: pre xs ys val out)
  case Nil
  then show ?case by (simp add: asicc_to_hex_loop.simps hexes_simps)
next
  case (Cons c cs)
  obtain y zs where ys: "ys = y # zs" using Cons.prems by (cases ys) auto
  let ?v = "16 * ucast (drop_bit 4 c) + ucast (c AND 15) :: u32"
  have "asicc_to_hex_loop str (length pre + 2 * length (c # cs)) (length pre) (length xs) val out
      = asicc_to_hex_loop str (length (pre @ [hex_digit (drop_bit 4 c), hex_digit (c AND 15)]) + 2 * length cs)
          (length (pre @ [hex_digit (drop_bit 4 c), hex_digit (c AND 15)])) (length (xs @ [c])) (Some ?v) ((xs @ [c]) @ zs)"
    by (subst asicc_to_hex_loop.simps)
       (simp add: Cons.prems(1,2) ys hexes_simps rd_def wr_def nth_append scan_hex2_digits nibbles list_update_append)
  also have "\<dots> = Some (length (xs @ [c]) + length cs, (xs @ [c]) @ cs @ drop (length cs) zs)"
    using Cons.prems ys by (intro Cons.IH) (simp_all add: hexes_simps)
  finally show ?case by (simp add: ys)
qed

lemma hexes_nonzero: "0 \<notin> set (hexes cs)"
  by (induction cs) (simp_all add: hexes_simps hex_digit_facts nibbles neq_commute)

text \<open>C29: \<open>hex_to_asicc\<close> prints \<open>len\<close> bytes as a string of two digits a byte, upper half first, and
  \<open>asicc_to_hex\<close> reads the same bytes back from it; neither leaves the buffers.\<close>

theorem asicc_to_hex_inverts:
  assumes "0 < len" "len \<le> length bytes" "2 * len < length out" "len \<le> length dst"
  shows "\<exists>text. hex_to_asicc bytes len out = Some text
    \<and> strlen text = Some (2 * len)
    \<and> (\<forall>i < len. text ! (2 * i) = hex_digit (drop_bit 4 (bytes ! i)) \<and> text ! (2 * i + 1) = hex_digit (bytes ! i AND 15))
    \<and> asicc_to_hex text dst = Some (len, take len bytes @ drop len dst)"
proof -
  let ?t = "hexes (take len bytes) @ 0 # drop (2 * len + 1) out"
  have t: "hex_to_asicc bytes len out = Some ?t"
    using hex_to_asicc_loop_eq[of "take len bytes" out "[]"] assms by (auto simp: hex_to_asicc_def)
  have l: "strlen ?t = Some (2 * len)"
    using strlen_terminated[OF hexes_nonzero, of "take len bytes"] assms by simp
  have d: "hexes cs ! (2 * i) = hex_digit (drop_bit 4 (cs ! i)) \<and> hexes cs ! (2 * i + 1) = hex_digit (cs ! i AND 15)"
    if "i < length cs" for cs i using that
  proof (induction cs arbitrary: i)
    case (Cons c cs)
    then show ?case by (cases i) (auto simp: hexes_simps)
  qed simp
  have "asicc_to_hex ?t dst = Some (len, take len bytes @ drop len dst)"
    using asicc_to_hex_loop_eq[of ?t "[]" "take len bytes" "drop (2 * len + 1) out" dst "[]" dst None] assms
    unfolding asicc_to_hex_def l by simp
  moreover have "?t ! (2 * i) = hex_digit (drop_bit 4 (bytes ! i)) \<and> ?t ! (2 * i + 1) = hex_digit (bytes ! i AND 15)"
    if "i < len" for i using d[of i "take len bytes"] that assms by (simp add: nth_append)
  ultimately show ?thesis using t l by blast
qed

theorem asicc_to_hex_inverts_witness:
  "\<exists>text. hex_to_asicc [1, 0xab] 2 [0,0,0,0,0] = Some text \<and> asicc_to_hex text [0,0] = Some (2, [1, 0xab])"
  using asicc_to_hex_inverts[of 2 "[1, 0xab]" "[0,0,0,0,0]" "[0,0]"] by auto
end
