(* ===== verification/MemLeaks.thy ===== *)
theory MemLeaks
  imports HList
begin

text \<open>
  The memory leak checker (\<open>mem_leaks.c\<close>, \<open>mem_leaks.h\<close>): the hash table of the recorded blocks on the
  bucket lists of \<open>stlc_list.h\<close>, the replacements of \<open>malloc\<close>, \<open>calloc\<close>, \<open>realloc\<close> and \<open>free\<close>, and
  the commands that switch the recording and print the table.

  The allocator of the C library is the set of the addresses of its live blocks; the addresses that it
  returns are arguments.  A call of the replacements is cut where another thread may come between: after the
  call of the C library and after each critical section.  \<open>call_state\<close> says what a thread has still to do,
  the functions \<open>..._enter\<close> are the code up to the first cut, \<open>call_step\<close> is the code from one cut to the next,
  and \<open>malloc\<close>, \<open>calloc\<close>, \<open>realloc\<close> and \<open>free\<close> compose them to the calls of one thread.  Printing is
  the list of the records shown.
\<close>

section \<open>State\<close>

record mem_leaks_info_t =
  li_p :: addr
  li_stacktrace :: addr
  li_stacktrace_num :: u8
  li_size :: u32

definition MEM_HASH_SIZE :: nat where
  "MEM_HASH_SIZE = 65536"

definition MAX_STACKTRACE :: nat where
  "MAX_STACKTRACE = 10"

definition MEM_LEAKS_MAX_THREADS :: nat where
  "MEM_LEAKS_MAX_THREADS = 102400"

text \<open>The buckets and the links of the records are in one memory, and a record has the address of its link;
  \<open>ml_count\<close> and \<open>ml_total\<close> are fields of the table at \<open>g_alloc_hash_b\<close>.\<close>

record mem_state =
  ml_links :: hmem
  ml_info :: "addr \<rightharpoonup> mem_leaks_info_t"
  ml_count :: "nat \<Rightarrow> int"
  ml_total :: int
  g_alloc_hash_b :: addr
  my_key_once :: bool
  pids :: "nat \<Rightarrow> int"
  mem_check :: bool
  ml_heap :: "addr set"
  ml_shown :: "mem_leaks_info_t list"

definition ml_boot :: mem_state where
  "ml_boot = \<lparr>ml_links = \<lparr>hcell = Map.empty, hpprev = Map.empty\<rparr>, ml_info = Map.empty, ml_count = (\<lambda>_. 0),
     ml_total = 0, g_alloc_hash_b = NULL, my_key_once = False, pids = (\<lambda>_. 0), mem_check = False,
     ml_heap = {}, ml_shown = []\<rparr>"

section \<open>The allocator of the C library\<close>

definition libc_new :: "addr \<Rightarrow> mem_state \<Rightarrow> mem_state" where
  "libc_new p s = (if p = NULL then s else s\<lparr>ml_heap := insert p (ml_heap s)\<rparr>)"

definition libc_free :: "addr \<Rightarrow> mem_state \<Rightarrow> mem_state option" where
  "libc_free p s =
     (if p = NULL then Some s
      else if p \<in> ml_heap s then Some (s\<lparr>ml_heap := ml_heap s - {p}\<rparr>) else None)"

text \<open>The result of \<open>realloc\<close> is \<open>new\<close>; with size zero it frees the block and returns the null pointer.\<close>

definition libc_realloc :: "addr \<Rightarrow> addr \<Rightarrow> u64 \<Rightarrow> mem_state \<Rightarrow> mem_state option" where
  "libc_realloc old new sz s =
     (if new \<noteq> NULL then map_option (libc_new new) (libc_free old s)
      else if sz = 0 then libc_free old s
      else if old = NULL \<or> old \<in> ml_heap s then Some s else None)"

section \<open>Stack frames\<close>

text \<open>\<open>stk\<close> is the stack memory, \<open>ebp\<close> the frame pointer that \<open>getEBP\<close> reads.\<close>

fun walk_frames :: "(addr \<rightharpoonup> addr) \<Rightarrow> nat \<Rightarrow> addr \<Rightarrow> u64 \<Rightarrow> addr list option" where
  "walk_frames stk 0 ebp dist = Some []"
| "walk_frames stk (Suc n) ebp dist =
     (if ebp \<noteq> NULL \<and> dist < 2 ^ 24 \<and> dist > 0
      then do {
        ret \<leftarrow> stk (ebp + 8);
        ebp' \<leftarrow> stk ebp;
        up \<leftarrow> stk ebp';
        fr \<leftarrow> walk_frames stk n ebp' (up - ebp');
        Some (ret # fr) }
      else Some [])"

definition my_backtrace :: "(addr \<rightharpoonup> addr) \<Rightarrow> addr \<Rightarrow> nat \<Rightarrow> addr list option" where
  "my_backtrace stk ebp sz =
     (if sz > 0 then do { up \<leftarrow> stk ebp; walk_frames stk sz ebp (up - ebp) } else Some [])"

section \<open>The table\<close>

definition mem_hash_key :: "addr \<Rightarrow> nat" where
  "mem_hash_key ptr = unat ptr mod MEM_HASH_SIZE"

definition bucket_addr :: "addr \<Rightarrow> nat \<Rightarrow> addr" where
  "bucket_addr h k = h + 8 * word_of_nat k"

definition in_buckets :: "addr \<Rightarrow> addr \<Rightarrow> bool" where
  "in_buckets h a \<longleftrightarrow> a - h < 8 * 65536 \<and> (a - h) mod 8 = 0"

text \<open>\<open>++\<close> and \<open>--\<close> on an \<open>int\<close>.\<close>

definition int_inc :: "int \<Rightarrow> int option" where
  "int_inc x = (if x < 2 ^ 31 - 1 then Some (x + 1) else None)"

definition int_dec :: "int \<Rightarrow> int option" where
  "int_dec x = (if x > - (2 ^ 31) then Some (x - 1) else None)"

text \<open>\<open>h\<close> is the result of \<open>__libc_calloc\<close>, whose memory is zero.\<close>

definition mem_leaks_hash_init :: "addr \<Rightarrow> mem_state \<Rightarrow> mem_state option" where
  "mem_leaks_hash_init h s =
     (if h \<noteq> NULL then do {
        let s = (libc_new h s)\<lparr>ml_count := (\<lambda>_. 0), ml_total := 0, ml_links := (ml_links s)\<lparr>hcell :=
          (\<lambda>a. if in_buckets h a then Some 0 else hcell (ml_links s) a)\<rparr>\<rparr>;
        l \<leftarrow> foldM (\<lambda>i. STLC_INIT_HLIST_HEAD (bucket_addr h i)) [0..<MEM_HASH_SIZE] (ml_links s);
        Some (s\<lparr>ml_links := l\<rparr>) }
      else Some s)"

definition mem_hash_add :: "addr \<Rightarrow> mem_state \<Rightarrow> mem_state option" where
  "mem_hash_add info s = do {
     i \<leftarrow> ml_info s info;
     let k = mem_hash_key (li_p i);
     l \<leftarrow> stlc_hlist_add_head info (bucket_addr (g_alloc_hash_b s) k) (ml_links s);
     c \<leftarrow> int_inc (ml_count s k);
     t \<leftarrow> int_inc (ml_total s);
     Some (s\<lparr>ml_links := l, ml_count := (ml_count s)(k := c), ml_total := t\<rparr>) }"

definition mem_hash_del :: "addr \<Rightarrow> mem_state \<Rightarrow> mem_state option" where
  "mem_hash_del info s = do {
     t \<leftarrow> int_dec (ml_total s);
     i \<leftarrow> ml_info s info;
     let k = mem_hash_key (li_p i);
     c \<leftarrow> int_dec (ml_count s k);
     l \<leftarrow> stlc_hlist_del info (ml_links s);
     Some (s\<lparr>ml_links := l, ml_count := (ml_count s)(k := c), ml_total := t\<rparr>) }"

partial_function (option) bucket_lookup :: "addr \<Rightarrow> addr \<Rightarrow> mem_state \<Rightarrow> addr option" where
  "bucket_lookup ptr pos s =
     (if pos = NULL then Some NULL
      else Option.bind (ml_info s pos) (\<lambda>i.
        if li_p i = ptr then Some pos
        else Option.bind (hcell (ml_links s) pos) (\<lambda>n. bucket_lookup ptr n s)))"

definition mem_hash_lookup :: "addr \<Rightarrow> mem_state \<Rightarrow> addr option" where
  "mem_hash_lookup ptr s = do {
     pos \<leftarrow> hcell (ml_links s) (bucket_addr (g_alloc_hash_b s) (mem_hash_key ptr));
     bucket_lookup ptr pos s }"

section \<open>Records\<close>

text \<open>\<open>info\<close> is the result of \<open>__libc_calloc\<close>; a null pointer fails the assertion.\<close>

definition mem_alloc_info_alloc ::
    "addr \<Rightarrow> addr \<Rightarrow> addr \<Rightarrow> u8 \<Rightarrow> u64 \<Rightarrow> mem_state \<Rightarrow> mem_state option" where
  "mem_alloc_info_alloc info p st num sz s =
     (if info = NULL then None
      else Some ((libc_new info s)\<lparr>
        ml_links := \<lparr>hcell = (hcell (ml_links s))(info \<mapsto> 0), hpprev = (hpprev (ml_links s))(info \<mapsto> 0)\<rparr>,
        ml_info := (ml_info s)(info \<mapsto>
          \<lparr>li_p = p, li_stacktrace = st, li_stacktrace_num = num, li_size = ucast sz\<rparr>)\<rparr>))"

definition mem_alloc_info_free :: "addr \<Rightarrow> mem_state \<Rightarrow> mem_state option" where
  "mem_alloc_info_free info s =
     (if info \<noteq> NULL then do {
        i \<leftarrow> ml_info s info;
        s \<leftarrow> (if li_stacktrace i \<noteq> NULL then libc_free (li_stacktrace i) s else Some s);
        s \<leftarrow> libc_free info s;
        Some (s\<lparr>ml_links := \<lparr>hcell = (hcell (ml_links s))(info := None), hpprev = (hpprev (ml_links s))(info := None)\<rparr>,
          ml_info := (ml_info s)(info := None)\<rparr>) }
      else Some s)"

definition mem_alloc_info_show :: "addr \<Rightarrow> mem_state \<Rightarrow> mem_state option" where
  "mem_alloc_info_show info s =
     (if info \<noteq> NULL then do {
        i \<leftarrow> ml_info s info;
        if li_stacktrace i \<noteq> NULL \<and> li_stacktrace i \<notin> ml_heap s then None
        else Some (s\<lparr>ml_shown := ml_shown s @ [i]\<rparr>) }
      else Some s)"

text \<open>Taking the lock of a table that could not be allocated is a fault.\<close>

definition hash_lock :: "mem_state \<Rightarrow> unit option" where
  "hash_lock s = (if g_alloc_hash_b s = NULL then None else Some ())"

definition mem_alloc_info_add ::
    "addr \<Rightarrow> addr \<Rightarrow> addr \<Rightarrow> u8 \<Rightarrow> u64 \<Rightarrow> mem_state \<Rightarrow> mem_state option" where
  "mem_alloc_info_add info p st num sz s = do {
     s \<leftarrow> mem_alloc_info_alloc info p st num sz s;
     hash_lock s;
     mem_hash_add info s }"

definition mem_alloc_info_del :: "addr \<Rightarrow> mem_state \<Rightarrow> mem_state option" where
  "mem_alloc_info_del p s = do {
     hash_lock s;
     pos \<leftarrow> mem_hash_lookup p s;
     if pos \<noteq> NULL then do { s \<leftarrow> mem_hash_del pos s; mem_alloc_info_free pos s } else Some s }"

section \<open>Set-up and switches\<close>

definition mem_leaks_init :: "addr \<Rightarrow> mem_state \<Rightarrow> mem_state option" where
  "mem_leaks_init h s = do {
     s \<leftarrow> mem_leaks_hash_init h
       (s\<lparr>pids := (\<lambda>i. if i < MEM_LEAKS_MAX_THREADS then 1 else pids s i)\<rparr>);
     Some (s\<lparr>g_alloc_hash_b := h\<rparr>) }"

definition mem_once :: "addr \<Rightarrow> mem_state \<Rightarrow> mem_state option" where
  "mem_once h s =
     (if my_key_once s then Some s
      else map_option (\<lambda>s. s\<lparr>my_key_once := True\<rparr>) (mem_leaks_init h s))"

definition mem_leaks_start :: "addr \<Rightarrow> mem_state \<Rightarrow> mem_state option" where
  "mem_leaks_start h s = map_option (\<lambda>s. s\<lparr>mem_check := True\<rparr>) (mem_once h s)"

definition mem_leaks_stop :: "addr \<Rightarrow> mem_state \<Rightarrow> mem_state option" where
  "mem_leaks_stop h s = map_option (\<lambda>s. s\<lparr>mem_check := False\<rparr>) (mem_once h s)"

partial_function (option) bucket_show :: "addr \<Rightarrow> mem_state \<Rightarrow> mem_state option" where
  "bucket_show pos s =
     (if pos = NULL then Some s
      else Option.bind (mem_alloc_info_show pos s) (\<lambda>s.
        Option.bind (hcell (ml_links s) pos) (\<lambda>n. bucket_show n s)))"

definition mem_leaks_show :: "addr \<Rightarrow> mem_state \<Rightarrow> mem_state option" where
  "mem_leaks_show h s = do {
     s \<leftarrow> mem_once h s;
     hash_lock s;
     foldM (\<lambda>k s. do {
       pos \<leftarrow> hcell (ml_links s) (bucket_addr (g_alloc_hash_b s) k);
       bucket_show pos s }) [0..<MEM_HASH_SIZE] s }"

definition mem_leaks_cmd :: "addr \<Rightarrow> string option \<Rightarrow> mem_state \<Rightarrow> mem_state option" where
  "mem_leaks_cmd h param s =
     (case param of
        None \<Rightarrow> Some s
      | Some c \<Rightarrow>
          if c = ''start'' then mem_leaks_start h s
          else if c = ''stop'' then mem_leaks_stop h s
          else if c = ''show'' then mem_leaks_show h s
          else Some s)"

section \<open>The replaced functions\<close>

definition pid_flag :: "nat \<Rightarrow> mem_state \<Rightarrow> bool option" where
  "pid_flag t s = (if t < MEM_LEAKS_MAX_THREADS then Some (pids s t \<noteq> 0) else None)"

definition set_pid :: "nat \<Rightarrow> int \<Rightarrow> mem_state \<Rightarrow> mem_state option" where
  "set_pid t v s =
     (if t < MEM_LEAKS_MAX_THREADS then Some (s\<lparr>pids := (pids s)(t := v)\<rparr>) else None)"

text \<open>What a call has still to do: nothing, record a block (and show the record), show the record of a block that it
  has recorded, give a block back to the C library, or forget the old block of a \<open>realloc\<close> (and record the new
  one).\<close>

datatype call_state =
    Idle
  | Recording addr u64 bool
  | Showing addr addr
  | Freeing addr
  | Forgetting addr addr u64 bool

text \<open>What the environment supplies to a call: the stack, the results of the inner allocations.\<close>

record call_env =
  ce_stk :: "addr \<rightharpoonup> addr"
  ce_ebp :: addr
  ce_trace :: addr
  ce_info :: addr

text \<open>\<open>malloc\<close> (\<open>sh\<close>) and \<open>calloc\<close>, when the C library returns \<open>p\<close>.\<close>

definition alloc_enter :: "bool \<Rightarrow> nat \<Rightarrow> addr \<Rightarrow> u64 \<Rightarrow> mem_state \<Rightarrow> (call_state \<times> mem_state) option" where
  "alloc_enter sh t p sz s =
     (if \<not> mem_check s then Some (Idle, libc_new p s)
      else do {
        f \<leftarrow> pid_flag t s;
        if f then do { s \<leftarrow> set_pid t 0 s; Some (Recording p sz sh, libc_new p s) }
        else Some (Idle, libc_new p s) })"

text \<open>\<open>backtrace_symbols\<close> allocates the block of its result by \<open>malloc\<close>; a nested call that recorded that
  block would not end.\<close>

definition backtrace_symbols :: "nat \<Rightarrow> addr \<Rightarrow> mem_state \<Rightarrow> mem_state option" where
  "backtrace_symbols t st s = do {
     (k, s) \<leftarrow> alloc_enter True t st 0 s;
     if k = Idle then Some s else None }"

definition record_block :: "nat \<Rightarrow> call_env \<Rightarrow> addr \<Rightarrow> u64 \<Rightarrow> mem_state \<Rightarrow> mem_state option" where
  "record_block t e p sz s = do {
     fr \<leftarrow> my_backtrace (ce_stk e) (ce_ebp e) MAX_STACKTRACE;
     s \<leftarrow> backtrace_symbols t (ce_trace e) s;
     mem_alloc_info_add (ce_info e) p (ce_trace e) (word_of_nat (length fr)) sz s }"

definition realloc_enter ::
    "nat \<Rightarrow> addr \<Rightarrow> addr \<Rightarrow> u64 \<Rightarrow> mem_state \<Rightarrow> (call_state \<times> mem_state) option" where
  "realloc_enter t old new sz s = do {
     f \<leftarrow> (if mem_check s then pid_flag t s else Some False);
     if f then do {
       s \<leftarrow> set_pid t 0 s;
       s \<leftarrow> libc_realloc old new sz s;
       if new \<noteq> NULL then Some (Forgetting old new sz True, s)
       else do { s \<leftarrow> set_pid t 1 s; Some (Idle, s) } }
     else do {
       s \<leftarrow> libc_realloc old new sz s;
       Some (if new \<noteq> NULL then Forgetting old new sz False else Idle, s) } }"

definition free_enter :: "addr \<Rightarrow> mem_state \<Rightarrow> (call_state \<times> mem_state) option" where
  "free_enter ptr s = do {
     s \<leftarrow> (if ptr \<noteq> NULL then mem_alloc_info_del ptr s else Some s);
     Some (Freeing ptr, s) }"

text \<open>\<open>malloc\<close> shows the record after the lock has been released; the others only switch their flag on again.\<close>

fun call_step :: "nat \<Rightarrow> call_env \<Rightarrow> call_state \<Rightarrow> mem_state \<Rightarrow> (call_state \<times> mem_state) option" where
  "call_step t e Idle s = Some (Idle, s)"
| "call_step t e (Recording p sz sh) s = do {
     s \<leftarrow> record_block t e p sz s;
     if sh then Some (Showing p (ce_info e), s) else do { s \<leftarrow> set_pid t 1 s; Some (Idle, s) } }"
| "call_step t e (Showing p info) s = do {
     s \<leftarrow> mem_alloc_info_show info s;
     s \<leftarrow> set_pid t 1 s;
     Some (Idle, s) }"
| "call_step t e (Freeing p) s = do { s \<leftarrow> libc_free p s; Some (Idle, s) }"
| "call_step t e (Forgetting old new sz r) s = do {
     s \<leftarrow> mem_alloc_info_del old s;
     Some (if r then Recording new sz False else Idle, s) }"

definition malloc :: "addr \<Rightarrow> nat \<Rightarrow> call_env \<Rightarrow> addr \<Rightarrow> u64 \<Rightarrow> mem_state \<Rightarrow> mem_state option" where
  "malloc h t e p sz s = do {
     s \<leftarrow> mem_once h s;
     (k, s) \<leftarrow> alloc_enter True t p sz s;
     (k, s) \<leftarrow> call_step t e k s;
     map_option snd (call_step t e k s) }"

definition calloc :: "addr \<Rightarrow> nat \<Rightarrow> call_env \<Rightarrow> addr \<Rightarrow> u64 \<Rightarrow> u64 \<Rightarrow> mem_state \<Rightarrow> mem_state option" where
  "calloc h t e p num sz s = do {
     s \<leftarrow> mem_once h s;
     (k, s) \<leftarrow> alloc_enter False t p (num * sz) s;
     map_option snd (call_step t e k s) }"

definition realloc ::
    "addr \<Rightarrow> nat \<Rightarrow> call_env \<Rightarrow> addr \<Rightarrow> addr \<Rightarrow> u64 \<Rightarrow> mem_state \<Rightarrow> mem_state option" where
  "realloc h t e old new sz s = do {
     s \<leftarrow> mem_once h s;
     (k, s) \<leftarrow> realloc_enter t old new sz s;
     (k, s) \<leftarrow> call_step t e k s;
     map_option snd (call_step t e k s) }"

definition free :: "addr \<Rightarrow> nat \<Rightarrow> call_env \<Rightarrow> addr \<Rightarrow> mem_state \<Rightarrow> mem_state option" where
  "free h t e ptr s = do {
     s \<leftarrow> mem_once h s;
     (k, s) \<leftarrow> free_enter ptr s;
     map_option snd (call_step t e k s) }"

end
