(* ===== verification/MemLeaksTable.thy ===== *)
theory MemLeaksTable
  imports MemLeaks
begin

text \<open>
  The table of the memory leak checker: \<open>table_rep s L\<close> says that the bucket \<open>k\<close> of the table is the list
  \<open>L k\<close> of records whose blocks have the key \<open>k\<close> and that the counters are right.  Every operation of the
  table is the operation on these lists.
\<close>

section \<open>Buckets do not touch each other\<close>

lemma hseg_cong:
  assumes "\<And>a. a \<in> set (p # xs) \<Longrightarrow> hcell m' a = hcell m a \<and> hpprev m' a = hpprev m a"
  shows "hseg m' p xs \<longleftrightarrow> hseg m p xs"
  using assms by (induction xs arbitrary: p) auto

lemma is_hlist_cong:
  assumes "\<And>a. a \<in> set (p # xs) \<Longrightarrow> hcell m' a = hcell m a \<and> hpprev m' a = hpprev m a"
  shows "is_hlist m' p xs \<longleftrightarrow> is_hlist m p xs"
  unfolding is_hlist_def using hseg_cong[OF assms] by simp

lemma hlist_first: "is_hlist m hp xs \<Longrightarrow> hcell m hp = Some (case xs of [] \<Rightarrow> NULL | x # _ \<Rightarrow> x)"
  by (cases xs) (auto simp: is_hlist_def)

lemma hlist_add_head_frame:
  assumes "is_hlist m hp xs" "stlc_hlist_add_head n hp m = Some m'" "a \<notin> set (hp # n # xs)"
  shows "hcell m' a = hcell m a \<and> hpprev m' a = hpprev m a"
  using assms hlist_first[OF assms(1)]
  by (cases xs) (auto simp: stlc_hlist_add_head_def set_cell_def set_pprev_def bind_eq_Some_iff split: if_splits)

lemma hlist_del_frame:
  assumes l: "is_hlist m hp (xs @ e # ys)" and d: "stlc_hlist_del e m = Some m'"
    and a: "a \<notin> set (hp # xs @ e # ys)"
  shows "hcell m' a = hcell m a \<and> hpprev m' a = hpprev m a"
proof -
  have pp: "hpprev m e = Some (last (hp # xs))" and nx: "hcell m e = Some (case ys of [] \<Rightarrow> NULL | y # _ \<Rightarrow> y)"
    using l by (cases ys; auto simp: is_hlist_def hseg_append)+
  have "a \<noteq> last (hp # xs)" "a \<noteq> e"
    using a last_in_set[of "hp # xs"] by auto
  then show ?thesis
    using d a pp nx
    by (cases ys) (auto simp: stlc_hlist_del_def stlc_hlist_unlink_def set_cell_def set_pprev_def bind_eq_Some_iff
        simp del: last.simps split: if_splits)
qed

lemma bucket_off: "k < MEM_HASH_SIZE \<Longrightarrow> unat (8 * word_of_nat k :: addr) = 8 * k"
proof -
  assume "k < MEM_HASH_SIZE"
  then have "8 * k < 2 ^ LENGTH(64)" by (simp add: MEM_HASH_SIZE_def)
  then have "unat (word_of_nat (8 * k) :: addr) = 8 * k" by (rule of_nat_inverse[OF refl])
  moreover have "word_of_nat (8 * k) = (8 * word_of_nat k :: addr)" by simp
  ultimately show ?thesis by (simp only:)
qed

lemma bucket_addr_inj:
  assumes "k < MEM_HASH_SIZE" "j < MEM_HASH_SIZE"
  shows "bucket_addr h k = bucket_addr h j \<longleftrightarrow> k = j"
proof
  assume "bucket_addr h k = bucket_addr h j"
  then have "8 * word_of_nat k = (8 * word_of_nat j :: addr)"
    unfolding bucket_addr_def by (rule add_left_imp_eq)
  then have "8 * k = 8 * j"
    using bucket_off[OF assms(1)] bucket_off[OF assms(2)] by metis
  then show "k = j" by simp
qed simp

lemma in_buckets_bucket: "k < MEM_HASH_SIZE \<Longrightarrow> in_buckets h (bucket_addr h k)"
proof -
  assume k: "k < MEM_HASH_SIZE"
  have "unat (8 * word_of_nat k :: addr) < 8 * 65536"
    unfolding bucket_off[OF k] using k by (simp add: MEM_HASH_SIZE_def)
  moreover have "unat ((8 * word_of_nat k :: addr) mod 8) = 0"
    unfolding unat_mod bucket_off[OF k] by simp
  ultimately show ?thesis
    by (simp add: in_buckets_def bucket_addr_def word_less_nat_alt word_unat_eq_iff)
qed

lemma key_less: "mem_hash_key p < MEM_HASH_SIZE"
  by (simp add: mem_hash_key_def MEM_HASH_SIZE_def)

section \<open>The table\<close>

definition table_rep :: "mem_state \<Rightarrow> (nat \<Rightarrow> addr list) \<Rightarrow> bool" where
  "table_rep s L \<longleftrightarrow> my_key_once s \<and> g_alloc_hash_b s \<noteq> NULL \<and>
     (\<forall>k < MEM_HASH_SIZE. is_hlist (ml_links s) (bucket_addr (g_alloc_hash_b s) k) (L k) \<and>
        ml_count s k = int (length (L k)) \<and>
        (\<forall>n \<in> set (L k). \<not> in_buckets (g_alloc_hash_b s) n \<and>
           (\<exists>i. ml_info s n = Some i \<and> mem_hash_key (li_p i) = k))) \<and>
     ml_total s = (\<Sum>k < MEM_HASH_SIZE. int (length (L k)))"

text \<open>The records of the block at an address, latest first.\<close>

definition recs :: "mem_state \<Rightarrow> (nat \<Rightarrow> addr list) \<Rightarrow> addr \<Rightarrow> mem_leaks_info_t list" where
  "recs s L a = filter (\<lambda>i. li_p i = a) (map (\<lambda>n. the (ml_info s n)) (L (mem_hash_key a)))"

definition tab_nodes :: "(nat \<Rightarrow> addr list) \<Rightarrow> addr list" where
  "tab_nodes L = concat (map L [0..<MEM_HASH_SIZE])"

text \<open>\<open>info\<close> is a record of the block at \<open>p\<close> in the table.\<close>

definition rec_at :: "mem_state \<Rightarrow> (nat \<Rightarrow> addr list) \<Rightarrow> addr \<Rightarrow> addr \<Rightarrow> bool" where
  "rec_at s L p info \<longleftrightarrow> info \<in> set (tab_nodes L) \<and> li_p (the (ml_info s info)) = p"

lemma table_repD:
  assumes "table_rep s L" "k < MEM_HASH_SIZE"
  shows "is_hlist (ml_links s) (bucket_addr (g_alloc_hash_b s) k) (L k)"
    and "ml_count s k = int (length (L k))"
    and "n \<in> set (L k) \<Longrightarrow> \<not> in_buckets (g_alloc_hash_b s) n"
    and "n \<in> set (L k) \<Longrightarrow> \<exists>i. ml_info s n = Some i \<and> mem_hash_key (li_p i) = k"
    and "n \<in> set (L k) \<Longrightarrow> n \<noteq> NULL \<and> n \<in> dom (hcell (ml_links s))"
    and "distinct (L k)"
  using assms hseg_dom[of "ml_links s" "bucket_addr (g_alloc_hash_b s) k" "L k"]
  by (auto simp: table_rep_def is_hlist_def)

lemma table_disjoint:
  assumes "table_rep s L" "k < MEM_HASH_SIZE" "j < MEM_HASH_SIZE" "k \<noteq> j"
  shows "set (L k) \<inter> set (L j) = {}"
  using table_repD(4)[OF assms(1,2)] table_repD(4)[OF assms(1,3)] assms(4) by fastforce

lemma table_other:
  assumes "table_rep s L" "k < MEM_HASH_SIZE" "j < MEM_HASH_SIZE" "k \<noteq> j"
    and "a \<in> set (bucket_addr (g_alloc_hash_b s) j # L j)"
  shows "a \<notin> set (bucket_addr (g_alloc_hash_b s) k # L k)"
  using assms(5) table_disjoint[OF assms(1-4)] table_repD(3)[OF assms(1,2)] table_repD(3)[OF assms(1,3)]
    bucket_addr_inj[OF assms(2,3), of "g_alloc_hash_b s"] in_buckets_bucket[OF assms(2), of "g_alloc_hash_b s"]
    in_buckets_bucket[OF assms(3), of "g_alloc_hash_b s"] assms(4)
  by auto

lemma sum_len_upd:
  assumes "k < MEM_HASH_SIZE"
  shows "(\<Sum>j < MEM_HASH_SIZE. int (length ((L(k := ys)) j))) =
    (\<Sum>j < MEM_HASH_SIZE. int (length (L j))) - int (length (L k)) + int (length ys)"
proof -
  have "(\<Sum>j < MEM_HASH_SIZE. int (length ((L(k := ys)) j))) =
      int (length ys) + (\<Sum>j \<in> {..<MEM_HASH_SIZE} - {k}. int (length ((L(k := ys)) j)))"
    using assms by (subst sum.remove[of _ k]) auto
  also have "(\<Sum>j \<in> {..<MEM_HASH_SIZE} - {k}. int (length ((L(k := ys)) j))) =
      (\<Sum>j \<in> {..<MEM_HASH_SIZE} - {k}. int (length (L j)))"
    by (rule sum.cong) auto
  finally show ?thesis
    using assms by (simp add: sum.remove[of "{..<MEM_HASH_SIZE}" k])
qed

text \<open>Replacing the contents of one bucket, when the memory of the others stays.\<close>

lemma table_rep_upd:
  assumes r: "table_rep s L" and k: "k < MEM_HASH_SIZE"
    and l: "is_hlist (ml_links s') (bucket_addr (g_alloc_hash_b s) k) ys"
    and fr: "\<And>a. a \<notin> set (bucket_addr (g_alloc_hash_b s) k # n # L k) \<Longrightarrow>
        hcell (ml_links s') a = hcell (ml_links s) a \<and> hpprev (ml_links s') a = hpprev (ml_links s) a"
    and n: "n \<notin> (\<Union>j \<in> {..<MEM_HASH_SIZE} - {k}. set (bucket_addr (g_alloc_hash_b s) j # L j))"
    and ys: "\<And>x. x \<in> set ys \<Longrightarrow> \<not> in_buckets (g_alloc_hash_b s) x \<and>
        (\<exists>i. ml_info s' x = Some i \<and> mem_hash_key (li_p i) = k)"
    and i: "\<And>x. x \<noteq> n \<Longrightarrow> ml_info s' x = ml_info s x"
    and c: "ml_count s' = (ml_count s)(k := int (length ys))"
      "ml_total s' = ml_total s - int (length (L k)) + int (length ys)"
    and g: "g_alloc_hash_b s' = g_alloc_hash_b s" "my_key_once s' = my_key_once s"
  shows "table_rep s' (L(k := ys))"
proof -
  have "is_hlist (ml_links s') (bucket_addr (g_alloc_hash_b s) j) (L j)"
    if j: "j < MEM_HASH_SIZE" "j \<noteq> k" for j
  proof -
    have "hcell (ml_links s') a = hcell (ml_links s) a \<and> hpprev (ml_links s') a = hpprev (ml_links s) a"
      if a: "a \<in> set (bucket_addr (g_alloc_hash_b s) j # L j)" for a
    proof (rule fr)
      have "a \<noteq> n"
        using n a j by auto
      then show "a \<notin> set (bucket_addr (g_alloc_hash_b s) k # n # L k)"
        using table_other[OF r k j(1) _ a] j(2) by auto
    qed
    then show ?thesis
      using is_hlist_cong table_repD(1)[OF r j(1)] by blast
  qed
  moreover have "ml_info s' x = ml_info s x" if "x \<in> set (L j)" "j < MEM_HASH_SIZE" "j \<noteq> k" for x j
    using that n by (intro i) auto
  ultimately show ?thesis
    using r l ys c g k sum_len_upd[OF k, of L ys] unfolding table_rep_def by simp
qed

lemma int_inc_small: "0 \<le> x \<Longrightarrow> x < 2 ^ 31 - 1 \<Longrightarrow> int_inc x = Some (x + 1)"
  by (simp add: int_inc_def)

lemma int_dec_pos: "0 \<le> x \<Longrightarrow> int_dec x = Some (x - 1)"
  by (simp add: int_dec_def)

lemma count_le_total:
  assumes "table_rep s L" "k < MEM_HASH_SIZE"
  shows "0 \<le> ml_count s k" "ml_count s k \<le> ml_total s"
  using assms sum_nonneg_leq_bound[of "{..<MEM_HASH_SIZE}" "\<lambda>k. int (length (L k))" _ k]
  by (auto simp: table_rep_def)

section \<open>Adding a record\<close>

lemma set_cell_None: "set_cell p v m = Some m' \<Longrightarrow> hcell m' a = None \<longleftrightarrow> hcell m a = None"
  by (auto simp: set_cell_def split: if_splits)

lemma set_pprev_cell: "set_pprev p v m = Some m' \<Longrightarrow> hcell m' = hcell m"
  by (auto simp: set_pprev_def split: if_splits)

lemma hlist_add_head_dom:
  assumes "stlc_hlist_add_head n hp m = Some m'" shows "dom (hcell m') = dom (hcell m)"
proof -
  have "hcell m' a = None \<longleftrightarrow> hcell m a = None" for a
    using assms by (auto simp: stlc_hlist_add_head_def bind_eq_Some_iff split: if_splits
        dest!: set_cell_None[where a = a] set_pprev_cell)
  then show ?thesis unfolding dom_def by simp
qed

lemma hlist_del_dom:
  assumes "stlc_hlist_del n m = Some m'" shows "dom (hcell m') = dom (hcell m)"
proof -
  have "hcell m' a = None \<longleftrightarrow> hcell m a = None" for a
    using assms by (auto simp: stlc_hlist_del_def stlc_hlist_unlink_def bind_eq_Some_iff split: if_splits
        dest!: set_cell_None[where a = a] set_pprev_cell)
  then show ?thesis unfolding dom_def by simp
qed

lemma in_bucketsE:
  assumes "in_buckets h a" obtains k where "k < MEM_HASH_SIZE" "a = bucket_addr h k"
proof -
  let ?d = "a - h"
  have u: "unat ?d < 524288" "unat ?d mod 8 = 0"
    using assms by (simp_all add: in_buckets_def word_less_nat_alt word_unat_eq_iff unat_mod)
  then have "?d = word_of_nat (8 * (unat ?d div 8))"
    using mult_div_mod_eq[of 8 "unat ?d"] by simp
  then have "a = bucket_addr h (unat ?d div 8)"
    by (simp add: bucket_addr_def algebra_simps)
  moreover have "unat ?d div 8 < MEM_HASH_SIZE"
    using u(1) by (simp add: MEM_HASH_SIZE_def)
  ultimately show ?thesis by (rule that[rotated])
qed

text \<open>An address that is not in use: neither a live block nor a cell of one.\<close>

definition fresh :: "mem_state \<Rightarrow> addr \<Rightarrow> bool" where
  "fresh s a \<longleftrightarrow> a \<noteq> NULL \<and> a \<notin> ml_heap s \<and> hcell (ml_links s) a = None"

lemma fresh_outside:
  assumes r: "table_rep s L" and f: "fresh s n"
  shows "\<not> in_buckets (g_alloc_hash_b s) n"
    and "k < MEM_HASH_SIZE \<Longrightarrow> n \<notin> set (bucket_addr (g_alloc_hash_b s) k # L k)"
proof -
  have *: "n \<notin> set (bucket_addr (g_alloc_hash_b s) k # L k)" if "k < MEM_HASH_SIZE" for k
    using hseg_dom[of "ml_links s" "bucket_addr (g_alloc_hash_b s) k" "L k"] table_repD(1)[OF r that] f
    by (auto simp: fresh_def is_hlist_def)
  then show "k < MEM_HASH_SIZE \<Longrightarrow> n \<notin> set (bucket_addr (g_alloc_hash_b s) k # L k)" .
  show "\<not> in_buckets (g_alloc_hash_b s) n"
    using * by (auto elim: in_bucketsE)
qed

text \<open>What the operations of the table leave alone.\<close>

definition tab_frame :: "mem_state \<Rightarrow> mem_state \<Rightarrow> bool" where
  "tab_frame s s' \<longleftrightarrow> g_alloc_hash_b s' = g_alloc_hash_b s \<and> my_key_once s' = my_key_once s \<and>
     pids s' = pids s \<and> mem_check s' = mem_check s \<and> ml_shown s' = ml_shown s"

lemma mem_alloc_info_add_ok:
  fixes p st :: addr and num :: u8 and z :: u64
  assumes r: "table_rep s L" and f: "fresh s n" and t: "ml_total s < 2 ^ 31 - 1"
  defines "k \<equiv> mem_hash_key p"
  defines "i \<equiv> \<lparr>li_p = p, li_stacktrace = st, li_stacktrace_num = num, li_size = ucast z\<rparr>"
  shows "\<exists>s'. mem_alloc_info_add n p st num z s = Some s' \<and> table_rep s' (L(k := n # L k)) \<and>
           ml_info s' = (ml_info s)(n \<mapsto> i) \<and> ml_heap s' = insert n (ml_heap s) \<and>
           dom (hcell (ml_links s')) = insert n (dom (hcell (ml_links s))) \<and> tab_frame s s'"
proof -
  let ?g = "g_alloc_hash_b s" let ?hp = "bucket_addr ?g k"
  let ?m = "\<lparr>hcell = (hcell (ml_links s))(n \<mapsto> 0), hpprev = (hpprev (ml_links s))(n \<mapsto> 0)\<rparr>"
  have k: "k < MEM_HASH_SIZE" by (simp add: k_def key_less)
  have n: "n \<noteq> NULL" "n \<notin> set (?hp # L k)" and nb: "\<not> in_buckets ?g n"
    using fresh_outside[OF r f] f k by (auto simp: fresh_def)
  have "is_hlist ?m ?hp (L k)"
    using table_repD(1)[OF r k] n(2) by (subst is_hlist_cong[of _ _ _ "ml_links s"]) auto
  moreover have "is_hnode ?m n"
    using n by (simp add: is_hnode_def)
  ultimately obtain m' where m': "stlc_hlist_add_head n ?hp ?m = Some m'" "is_hlist m' ?hp (n # L k)"
    using hlist_add_head_refines[of ?m ?hp "L k" n] n(2) by blast
  have fr: "hcell m' a = hcell (ml_links s) a \<and> hpprev m' a = hpprev (ml_links s) a"
    if "a \<notin> set (?hp # n # L k)" for a
    using hlist_add_head_frame[OF \<open>is_hlist ?m ?hp (L k)\<close> m'(1) that] that by simp
  let ?s = "s\<lparr>ml_heap := insert n (ml_heap s), ml_info := (ml_info s)(n \<mapsto> i), ml_links := m',
     ml_count := (ml_count s)(k := ml_count s k + 1), ml_total := ml_total s + 1\<rparr>"
  have inc: "int_inc (ml_count s k) = Some (ml_count s k + 1)" "int_inc (ml_total s) = Some (ml_total s + 1)"
    using count_le_total[OF r k] t by (auto intro!: int_inc_small)
  have run: "mem_alloc_info_add n p st num z s = Some ?s"
    using n(1) m'(1) inc table_rep_def[of s L] r
    by (simp add: mem_alloc_info_add_def mem_alloc_info_alloc_def mem_hash_add_def hash_lock_def libc_new_def
        Let_def i_def flip: k_def)
  have "table_rep ?s (L(k := n # L k))"
  proof (rule table_rep_upd[OF r k, where n = n])
    show "n \<notin> (\<Union>j \<in> {..<MEM_HASH_SIZE} - {k}. set (bucket_addr ?g j # L j))"
      using fresh_outside(2)[OF r f] by auto
    show "\<And>x. x \<in> set (n # L k) \<Longrightarrow> \<not> in_buckets ?g x \<and>
        (\<exists>i. ml_info ?s x = Some i \<and> mem_hash_key (li_p i) = k)"
      using nb n(2) table_repD(3,4)[OF r k] by (auto simp: i_def k_def)
  qed (use m'(2) fr table_repD(2)[OF r k] in auto)
  then show ?thesis
    using run hlist_add_head_dom[OF m'(1)] by (simp add: tab_frame_def)
qed

lemma recs_add:
  assumes "table_rep s L" "fresh s n" "ml_info s' = (ml_info s)(n \<mapsto> i)" "li_p i = p"
  shows "recs s' (L(mem_hash_key p := n # L (mem_hash_key p))) a = (if a = p then i # recs s L a else recs s L a)"
proof -
  have "x \<noteq> n" if "x \<in> set (L (mem_hash_key a))" for x
    using fresh_outside(2)[OF assms(1,2) key_less[of a]] that by auto
  then have "map (\<lambda>x. the (ml_info s' x)) (L (mem_hash_key a)) = map (\<lambda>x. the (ml_info s x)) (L (mem_hash_key a))"
    using assms(3) by simp
  then show ?thesis
    using assms(3,4) by (auto simp: recs_def simp del: map_eq_conv)
qed

section \<open>The blocks of the checker\<close>

text \<open>The live blocks are the table, one block for each record, one for each trace, and those of the program.\<close>

definition trace_of :: "mem_state \<Rightarrow> addr \<Rightarrow> addr" where
  "trace_of s n = li_stacktrace (the (ml_info s n))"

definition trace_blocks :: "mem_state \<Rightarrow> addr multiset \<Rightarrow> addr multiset" where
  "trace_blocks s N = filter_mset (\<lambda>a. a \<noteq> NULL) (image_mset (trace_of s) N)"

definition heap_rep :: "mem_state \<Rightarrow> (nat \<Rightarrow> addr list) \<Rightarrow> addr set \<Rightarrow> bool" where
  "heap_rep s L own \<longleftrightarrow> finite (ml_heap s) \<and> finite own \<and> NULL \<notin> own \<and>
     mset_set (ml_heap s) =
       add_mset (g_alloc_hash_b s) (mset (tab_nodes L) + trace_blocks s (mset (tab_nodes L)) + mset_set own)"

lemma nodes_upd:
  assumes "k < MEM_HASH_SIZE"
  shows "mset (tab_nodes (L(k := ys))) + mset (L k) = mset (tab_nodes L) + mset ys"
proof -
  have "[0..<MEM_HASH_SIZE] = [0..<k] @ k # [Suc k..<MEM_HASH_SIZE]"
    using assms upt_add_eq_append[of 0 k "MEM_HASH_SIZE - k"] by (simp add: upt_conv_Cons)
  moreover have "map (L(k := ys)) [0..<k] = map L [0..<k]"
      "map (L(k := ys)) [Suc k..<MEM_HASH_SIZE] = map L [Suc k..<MEM_HASH_SIZE]"
    by auto
  ultimately show ?thesis
    by (simp add: tab_nodes_def)
qed

lemma set_nodes: "n \<in> set (tab_nodes L) \<longleftrightarrow> (\<exists>k < MEM_HASH_SIZE. n \<in> set (L k))"
  by (auto simp: tab_nodes_def)

lemma nodes_not_null: "table_rep s L \<Longrightarrow> NULL \<notin> set (tab_nodes L)"
  using table_repD(5)[of s L _ NULL] unfolding set_nodes by blast

lemma trace_blocks_add [simp]:
  "trace_blocks s (add_mset n N) = (if trace_of s n = NULL then trace_blocks s N else add_mset (trace_of s n) (trace_blocks s N))"
  by (simp add: trace_blocks_def)

lemma trace_blocks_cong:
  assumes "\<And>x. x \<in># N \<Longrightarrow> ml_info s' x = ml_info s x"
  shows "trace_blocks s' N = trace_blocks s N"
proof -
  have "image_mset (trace_of s') N = image_mset (trace_of s) N"
    using assms by (intro image_mset_cong) (simp add: trace_of_def)
  then show ?thesis by (simp add: trace_blocks_def)
qed

lemma mset_set_eq_finite_insert:
  assumes "mset_set A = add_mset a M" "finite A"
  shows "a \<in> A" "mset_set (A - {a}) = M" "a \<notin># M"
proof -
  show a: "a \<in> A"
    using assms by (metis finite_set_mset_mset_set union_single_eq_member)
  then show m: "mset_set (A - {a}) = M"
    using assms by (metis add_mset_remove_trivial mset_set.remove)
  show "a \<notin># M"
    using assms(2) by (simp flip: m)
qed

section \<open>Looking up and deleting a record\<close>

lemma bucket_lookup_ok:
  assumes "hseg (ml_links s) q xs" "\<forall>n \<in> set xs. ml_info s n \<noteq> None"
  shows "Option.bind (hcell (ml_links s) q) (\<lambda>pos. bucket_lookup p pos s) =
    Some (case find (\<lambda>n. li_p (the (ml_info s n)) = p) xs of None \<Rightarrow> NULL | Some n \<Rightarrow> n)"
  using assms
proof (induction xs arbitrary: q)
  case Nil
  then show ?case by (simp add: bucket_lookup.simps)
next
  case (Cons x xs)
  then show ?case by (subst bucket_lookup.simps) auto
qed

lemma mem_hash_lookup_ok:
  assumes "table_rep s L"
  shows "mem_hash_lookup p s = Some (case find (\<lambda>n. li_p (the (ml_info s n)) = p) (L (mem_hash_key p)) of
    None \<Rightarrow> NULL | Some n \<Rightarrow> n)"
  unfolding mem_hash_lookup_def
  using table_repD(1,4)[OF assms key_less[of p]]
  by (intro bucket_lookup_ok) (auto simp: is_hlist_def)

lemma find_split: "find P xs = Some x \<Longrightarrow> \<exists>ys zs. xs = ys @ x # zs \<and> P x \<and> (\<forall>y \<in> set ys. \<not> P y)"
proof (induction xs)
  case (Cons a xs)
  show ?case
  proof (cases "P a")
    case True
    then show ?thesis using Cons.prems by (intro exI[of _ "[]"] exI[of _ xs]) simp
  next
    case False
    then obtain ys zs where "xs = ys @ x # zs \<and> P x \<and> (\<forall>y \<in> set ys. \<not> P y)"
      using Cons by auto
    then show ?thesis using False by (intro exI[of _ "a # ys"] exI[of _ zs]) auto
  qed
qed simp

lemma recs_Nil_iff: "recs s L p = [] \<longleftrightarrow> find (\<lambda>n. li_p (the (ml_info s n)) = p) (L (mem_hash_key p)) = None"
  by (auto simp: recs_def find_None_iff filter_empty_conv)

lemma mem_hash_del_ok:
  assumes r: "table_rep s L" and k: "k < MEM_HASH_SIZE" and Lk: "L k = xs @ n # ys"
  obtains m' where
    "mem_hash_del n s = Some (s\<lparr>ml_links := m', ml_count := (ml_count s)(k := ml_count s k - 1), ml_total := ml_total s - 1\<rparr>)"
    "is_hlist m' (bucket_addr (g_alloc_hash_b s) k) (xs @ ys)" "dom (hcell m') = dom (hcell (ml_links s))"
    "\<And>a. a \<notin> set (bucket_addr (g_alloc_hash_b s) k # L k) \<Longrightarrow>
       hcell m' a = hcell (ml_links s) a \<and> hpprev m' a = hpprev (ml_links s) a"
proof -
  have l: "is_hlist (ml_links s) (bucket_addr (g_alloc_hash_b s) k) (xs @ n # ys)"
    using table_repD(1)[OF r k] Lk by simp
  obtain m' where m': "stlc_hlist_del n (ml_links s) = Some m'" "is_hlist m' (bucket_addr (g_alloc_hash_b s) k) (xs @ ys)"
    using hlist_del_refines[OF l] by blast
  obtain i where i: "ml_info s n = Some i" "mem_hash_key (li_p i) = k"
    using table_repD(4)[OF r k, of n] Lk by auto
  have dec: "int_dec (ml_count s k) = Some (ml_count s k - 1)" "int_dec (ml_total s) = Some (ml_total s - 1)"
    using count_le_total[OF r k] by (auto intro!: int_dec_pos)
  show ?thesis
    by (rule that[of m'])
      (use m' i dec hlist_del_dom[OF m'(1)] hlist_del_frame[OF l m'(1)] Lk in \<open>auto simp: mem_hash_del_def Let_def\<close>)
qed

lemma mem_alloc_info_del_ok:
  assumes r: "table_rep s L" and h: "heap_rep s L own"
  shows "\<exists>s' L'. mem_alloc_info_del p s = Some s' \<and> table_rep s' L' \<and> heap_rep s' L' own \<and> tab_frame s s' \<and>
    (\<forall>a. recs s' L' a = (if a = p then drop 1 (recs s L a) else recs s L a)) \<and>
    (\<forall>a info. a \<noteq> p \<longrightarrow> rec_at s L a info \<longrightarrow> rec_at s' L' a info)"
proof (cases "find (\<lambda>n. li_p (the (ml_info s n)) = p) (L (mem_hash_key p))")
  case None
  moreover have "g_alloc_hash_b s \<noteq> NULL"
    using r by (simp add: table_rep_def)
  ultimately have "mem_alloc_info_del p s = Some s" "recs s L p = []"
    using mem_hash_lookup_ok[OF r, of p] by (simp_all add: mem_alloc_info_del_def hash_lock_def recs_Nil_iff)
  then show ?thesis
    using r h by (intro exI[of _ s] exI[of _ L]) (auto simp: tab_frame_def)
next
  case (Some n)
  define k where "k = mem_hash_key p"
  have k: "k < MEM_HASH_SIZE" by (simp add: k_def key_less)
  obtain xs ys where Lk: "L k = xs @ n # ys" and np: "li_p (the (ml_info s n)) = p"
      and xs: "\<forall>x \<in> set xs. li_p (the (ml_info s x)) \<noteq> p"
    using find_split[OF Some] unfolding k_def by blast
  have dn: "n \<notin> set xs" "n \<notin> set ys"
    using table_repD(6)[OF r k] Lk by auto
  obtain i where i: "ml_info s n = Some i" and n0: "n \<noteq> NULL" and nh: "n \<in> set (L k)"
    using table_repD(4,5)[OF r k, of n] Lk by auto
  obtain m' where m': "mem_hash_del n s =
        Some (s\<lparr>ml_links := m', ml_count := (ml_count s)(k := ml_count s k - 1), ml_total := ml_total s - 1\<rparr>)"
      "is_hlist m' (bucket_addr (g_alloc_hash_b s) k) (xs @ ys)" "dom (hcell m') = dom (hcell (ml_links s))"
      "\<And>a. a \<notin> set (bucket_addr (g_alloc_hash_b s) k # L k) \<Longrightarrow>
         hcell m' a = hcell (ml_links s) a \<and> hpprev m' a = hpprev (ml_links s) a"
    by (rule mem_hash_del_ok[OF r k Lk]) (rule that)
  let ?L = "L(k := xs @ ys)"
  let ?m = "\<lparr>hcell = (hcell m')(n := None), hpprev = (hpprev m')(n := None)\<rparr>"
  let ?H = "ml_heap s - {li_stacktrace i} - {n}"
  let ?s = "s\<lparr>ml_links := ?m, ml_count := (ml_count s)(k := ml_count s k - 1), ml_total := ml_total s - 1,
     ml_info := (ml_info s)(n := None), ml_heap := ?H\<rparr>"
  have N: "mset (tab_nodes L) = add_mset n (mset (tab_nodes ?L))"
    using nodes_upd[OF k, of L "xs @ ys"] Lk by simp
  have off: "x \<noteq> n" if x: "x \<in> set (tab_nodes ?L)" for x
  proof -
    obtain j where j: "j < MEM_HASH_SIZE" "x \<in> set (?L j)"
      using x unfolding set_nodes by blast
    show ?thesis
    proof (cases "j = k")
      case True
      then show ?thesis using j dn by auto
    next
      case False
      then show ?thesis using table_disjoint[OF r j(1) k] nh j(2) by auto
    qed
  qed
  have tr: "trace_blocks ?s (mset (tab_nodes ?L)) = trace_blocks s (mset (tab_nodes ?L))"
    by (rule trace_blocks_cong) (use off in auto)
  let ?M = "mset (tab_nodes ?L) + trace_blocks s (mset (tab_nodes ?L)) + mset_set own"
  have H: "mset_set (ml_heap s) = add_mset n
      ((if li_stacktrace i = NULL then {#} else {#li_stacktrace i#}) + add_mset (g_alloc_hash_b s) ?M)"
    and fin: "finite (ml_heap s)"
    using h i N by (auto simp: heap_rep_def trace_of_def)
  note H1 = mset_set_eq_finite_insert[OF H fin]
  have H2: "mset_set ?H = add_mset (g_alloc_hash_b s) ?M \<and>
      (li_stacktrace i \<noteq> NULL \<longrightarrow> li_stacktrace i \<in> ml_heap s \<and> li_stacktrace i \<noteq> n) \<and>
      (li_stacktrace i = NULL \<longrightarrow> ?H = ml_heap s - {n})"
  proof (cases "li_stacktrace i = NULL")
    case True
    have "NULL \<notin># mset_set (ml_heap s)"
    proof -
      have "NULL \<notin> set (tab_nodes ?L)"
        using nodes_not_null[OF r] arg_cong[OF N, of set_mset] by auto
      moreover have "NULL \<notin># trace_blocks s (mset (tab_nodes ?L))" by (simp add: trace_blocks_def)
      ultimately show ?thesis
        using h r n0 True by (auto simp: H heap_rep_def table_rep_def)
    qed
    then have "?H = ml_heap s - {n}"
      using True fin by auto
    then show ?thesis using H1(2) True by simp
  next
    case False
    then have "mset_set (ml_heap s - {n}) = add_mset (li_stacktrace i) (add_mset (g_alloc_hash_b s) ?M)"
      using H1(2) by simp
    note H3 = mset_set_eq_finite_insert[OF this finite_Diff[OF fin]]
    have "ml_heap s - {n} - {li_stacktrace i} = ?H" by blast
    then show ?thesis using H3 False by simp
  qed
  have g0: "g_alloc_hash_b s \<noteq> NULL"
    using r by (simp add: table_rep_def)
  have lk: "mem_hash_lookup p s = Some n"
    using mem_hash_lookup_ok[OF r, of p] Some by simp
  let ?d = "s\<lparr>ml_links := m', ml_count := (ml_count s)(k := ml_count s k - 1), ml_total := ml_total s - 1\<rparr>"
  have "mem_alloc_info_free n ?d = Some ?s"
  proof (cases "li_stacktrace i = NULL")
    case True
    then have "?H = ml_heap s - {n}"
      using H2 by blast
    then show ?thesis
      using i n0 H1(1) True by (simp add: mem_alloc_info_free_def libc_free_def)
  next
    case False
    moreover have "li_stacktrace i \<in> ml_heap s" "n \<in> ml_heap s - {li_stacktrace i}"
      using H2 H1(1) False by auto
    ultimately show ?thesis
      using i n0 by (simp add: mem_alloc_info_free_def libc_free_def)
  qed
  then have run: "mem_alloc_info_del p s = Some ?s"
    using n0 by (simp add: mem_alloc_info_del_def hash_lock_def g0 lk m'(1))
  have rep: "table_rep ?s ?L"
  proof (rule table_rep_upd[OF r k, where n = n])
    show "is_hlist (ml_links ?s) (bucket_addr (g_alloc_hash_b s) k) (xs @ ys)"
    proof (subst is_hlist_cong[of _ _ _ m'])
      fix a assume a: "a \<in> set (bucket_addr (g_alloc_hash_b s) k # xs @ ys)"
      have "bucket_addr (g_alloc_hash_b s) k \<noteq> n"
        using table_repD(3)[OF r k nh] in_buckets_bucket[OF k] by metis
      then have "a \<noteq> n" using a dn by auto
      then show "hcell (ml_links ?s) a = hcell m' a \<and> hpprev (ml_links ?s) a = hpprev m' a" by simp
    qed (rule m'(2))
    show "n \<notin> (\<Union>j \<in> {..<MEM_HASH_SIZE} - {k}. set (bucket_addr (g_alloc_hash_b s) j # L j))"
      using table_other[OF r _ k] nh by fastforce
    show "\<not> in_buckets (g_alloc_hash_b s) x \<and> (\<exists>i. ml_info ?s x = Some i \<and> mem_hash_key (li_p i) = k)"
      if "x \<in> set (xs @ ys)" for x
      using that dn table_repD(3,4)[OF r k, of x] Lk by auto
  qed (use m'(4) table_repD(2)[OF r k] Lk in auto)
  have recs: "recs ?s ?L a = (if a = p then drop 1 (recs s L a) else recs s L a)" for a
  proof (cases "mem_hash_key a = k")
    case True
    have eq: "map (\<lambda>x. the (ml_info ?s x)) xs = map (\<lambda>x. the (ml_info s x)) xs"
        "map (\<lambda>x. the (ml_info ?s x)) ys = map (\<lambda>x. the (ml_info s x)) ys"
      using dn by auto
    have "filter (\<lambda>i. li_p i = p) (map (\<lambda>x. the (ml_info s x)) xs) = []"
      using xs by (auto simp: filter_empty_conv)
    moreover have "recs s L a = filter (\<lambda>i. li_p i = a) (map (\<lambda>x. the (ml_info s x)) (xs @ n # ys))"
        "recs ?s ?L a = filter (\<lambda>i. li_p i = a) (map (\<lambda>x. the (ml_info ?s x)) (xs @ ys))"
      using True by (simp_all add: recs_def Lk)
    ultimately show ?thesis
      using np i eq by (cases "a = p") (simp_all del: map_eq_conv)
  next
    case False
    then have "mem_hash_key a < MEM_HASH_SIZE" "a \<noteq> p" by (auto simp: key_less k_def)
    moreover have "x \<noteq> n" if "x \<in> set (L (mem_hash_key a))" for x
      using that table_disjoint[OF r key_less k False] nh by auto
    then have "map (\<lambda>x. the (ml_info ?s x)) (L (mem_hash_key a)) = map (\<lambda>x. the (ml_info s x)) (L (mem_hash_key a))"
      by auto
    ultimately show ?thesis
      using False by (simp add: recs_def del: map_eq_conv)
  qed
  have keep: "rec_at s L a info \<longrightarrow> rec_at ?s ?L a info" if "a \<noteq> p" for a info
    using that np arg_cong[OF N, of set_mset] by (auto simp: rec_at_def)
  have "heap_rep ?s ?L own"
    using H2 h fin by (simp add: heap_rep_def tr)
  then show ?thesis
    using run rep recs keep by (intro exI[of _ ?s] exI[of _ ?L]) (auto simp: tab_frame_def)
qed

section \<open>Recording a block and showing the table\<close>

lemma table_rep_simps [simp]:
  "table_rep (s\<lparr>ml_heap := H\<rparr>) L = table_rep s L" "table_rep (s\<lparr>pids := P\<rparr>) L = table_rep s L"
  "table_rep (s\<lparr>mem_check := b\<rparr>) L = table_rep s L" "table_rep (s\<lparr>ml_shown := X\<rparr>) L = table_rep s L"
  by (simp_all add: table_rep_def)

lemma recs_simps [simp]:
  "recs (s\<lparr>ml_heap := H\<rparr>) L = recs s L" "recs (s\<lparr>pids := P\<rparr>) L = recs s L"
  "recs (s\<lparr>mem_check := b\<rparr>) L = recs s L" "recs (s\<lparr>ml_shown := X\<rparr>) L = recs s L"
  by (simp_all add: recs_def fun_eq_iff)

lemma heap_rep_simps [simp]:
  "heap_rep (s\<lparr>pids := P\<rparr>) L own = heap_rep s L own"
  "heap_rep (s\<lparr>mem_check := b\<rparr>) L own = heap_rep s L own"
  "heap_rep (s\<lparr>ml_shown := X\<rparr>) L own = heap_rep s L own"
  by (simp_all add: heap_rep_def trace_blocks_def trace_of_def[abs_def])

lemma heap_rep_own:
  assumes "heap_rep s L own" shows "own \<subseteq> ml_heap s"
proof -
  have "mset_set own \<subseteq># mset_set (ml_heap s)" "finite (ml_heap s)" "finite own"
    using assms by (auto simp: heap_rep_def)
  then show ?thesis by (metis finite_set_mset_mset_set set_mset_mono)
qed

lemma heap_rep_live:
  assumes "heap_rep s L own" "n \<in> set (tab_nodes L)"
  shows "n \<in> ml_heap s" "trace_of s n = NULL \<or> trace_of s n \<in> ml_heap s"
proof -
  have fin: "finite (ml_heap s)" and eq: "mset_set (ml_heap s) =
      add_mset (g_alloc_hash_b s) (mset (tab_nodes L) + trace_blocks s (mset (tab_nodes L)) + mset_set own)"
    using assms(1) by (auto simp: heap_rep_def)
  have "set (tab_nodes L) \<union> set_mset (trace_blocks s (mset (tab_nodes L))) \<subseteq> ml_heap s"
    using arg_cong[OF eq, of set_mset] fin by auto
  then show "n \<in> ml_heap s" "trace_of s n = NULL \<or> trace_of s n \<in> ml_heap s"
    using assms(2) by (auto simp: trace_blocks_def)
qed

lemma heap_rep_new_own:
  assumes "heap_rep s L own" "p = NULL \<or> p \<notin> ml_heap s"
  shows "heap_rep (libc_new p s) L (own \<union> ({p} - {NULL}))"
proof (cases "p = NULL")
  case False
  then have "p \<notin> own" using assms heap_rep_own by auto
  then show ?thesis
    using assms False by (simp add: heap_rep_def libc_new_def trace_blocks_def trace_of_def[abs_def])
qed (use assms in \<open>simp add: libc_new_def\<close>)

text \<open>What the environment must supply: readable frames and addresses that are not in use.\<close>

definition ml_env_ok :: "mem_state \<Rightarrow> call_env \<Rightarrow> bool" where
  "ml_env_ok s e \<longleftrightarrow> my_backtrace (ce_stk e) (ce_ebp e) MAX_STACKTRACE \<noteq> None \<and> fresh s (ce_info e) \<and>
     (ce_trace e = NULL \<or> fresh s (ce_trace e)) \<and> ce_info e \<noteq> ce_trace e"

lemma backtrace_symbols_ok:
  assumes "t < MEM_LEAKS_MAX_THREADS" "pids s t = 0"
  shows "backtrace_symbols t st s = Some (libc_new st s)"
  using assms by (simp add: backtrace_symbols_def alloc_enter_def pid_flag_def)

lemma record_block_ok:
  assumes r: "table_rep s L" and h: "heap_rep s L own" and t: "t < MEM_LEAKS_MAX_THREADS" "pids s t = 0"
    and e: "ml_env_ok s e" and tot: "ml_total s < 2 ^ 31 - 1"
  shows "\<exists>s' L' i. record_block t e p z s = Some s' \<and> table_rep s' L' \<and> heap_rep s' L' own \<and>
    li_p i = p \<and> li_size i = ucast z \<and>
    (\<forall>a. recs s' L' a = (if a = p then i # recs s L a else recs s L a)) \<and>
    rec_at s' L' p (ce_info e) \<and> (\<forall>a info. rec_at s L a info \<longrightarrow> rec_at s' L' a info) \<and>
    pids s' = pids s \<and> mem_check s' = mem_check s"
proof -
  let ?st = "ce_trace e" let ?n = "ce_info e" let ?k = "mem_hash_key p"
  obtain fr where fr: "my_backtrace (ce_stk e) (ce_ebp e) MAX_STACKTRACE = Some fr"
    using e by (auto simp: ml_env_ok_def)
  define s1 where "s1 = libc_new ?st s"
  define i where "i = \<lparr>li_p = p, li_stacktrace = ?st, li_stacktrace_num = word_of_nat (length fr), li_size = ucast z\<rparr>"
  have r1: "table_rep s1 L" "ml_info s1 = ml_info s" "ml_total s1 = ml_total s"
      "fresh s1 ?n" "g_alloc_hash_b s1 = g_alloc_hash_b s"
    and f1: "pids s1 = pids s" "mem_check s1 = mem_check s" "recs s1 L = recs s L"
    using r e by (auto simp: s1_def libc_new_def ml_env_ok_def fresh_def)
  obtain s2 where s2: "mem_alloc_info_add ?n p ?st (word_of_nat (length fr)) z s1 = Some s2"
      "table_rep s2 (L(?k := ?n # L ?k))" "ml_info s2 = (ml_info s1)(?n \<mapsto> i)" "ml_heap s2 = insert ?n (ml_heap s1)"
      "tab_frame s1 s2"
    using mem_alloc_info_add_ok[OF r1(1,4), of p ?st "word_of_nat (length fr)" z] tot r1(3)
    unfolding i_def by auto
  let ?L = "L(?k := ?n # L ?k)"
  have N: "mset (tab_nodes ?L) = add_mset ?n (mset (tab_nodes L))"
    using nodes_upd[OF key_less, of L p "?n # L ?k"] by simp
  have nn: "?n \<notin> set (tab_nodes L)"
    using fresh_outside(2)[OF r1(1,4)] unfolding set_nodes by auto
  have tr: "trace_blocks s2 (mset (tab_nodes L)) = trace_blocks s (mset (tab_nodes L))"
    by (rule trace_blocks_cong) (use nn r1(2) s2(3) in auto)
  have h2: "heap_rep s2 ?L own"
  proof -
    have "?n \<notin> ml_heap s1" "finite (ml_heap s)" "?st = NULL \<or> ?st \<notin> ml_heap s"
      using e h by (auto simp: ml_env_ok_def fresh_def s1_def libc_new_def heap_rep_def)
    then show ?thesis
      using h s2(3-5) unfolding heap_rep_def N
      by (auto simp: tr tab_frame_def r1(5) trace_of_def i_def s1_def libc_new_def)
  qed
  have run: "record_block t e p z s = Some s2"
    using fr backtrace_symbols_ok[OF t, of ?st] s2(1) by (simp add: record_block_def flip: s1_def)
  have recs: "recs s2 ?L a = (if a = p then i # recs s L a else recs s L a)" for a
    using recs_add[OF r1(1,4) s2(3), of p a] f1(3) by (simp add: i_def)
  have nodes: "set (tab_nodes ?L) = insert ?n (set (tab_nodes L))"
    using arg_cong[OF N, of set_mset] by simp
  have "rec_at s2 ?L p ?n" "rec_at s L a info \<longrightarrow> rec_at s2 ?L a info" for a info
    using nn r1(2) s2(3) unfolding rec_at_def nodes by (auto simp: i_def)
  then show ?thesis
    using run recs s2(2,5) h2 f1
    by (intro exI[of _ s2] exI[of _ ?L] exI[of _ i]) (auto simp: i_def tab_frame_def)
qed

text \<open>A record of the table can be shown.\<close>

lemma mem_alloc_info_show_ok:
  assumes r: "table_rep s L" and h: "heap_rep s L own" and i: "rec_at s L p info"
  shows "\<exists>x. mem_alloc_info_show info s = Some (s\<lparr>ml_shown := ml_shown s @ x\<rparr>)"
proof -
  have n: "info \<in> set (tab_nodes L)" using i by (simp add: rec_at_def)
  then obtain k where k: "k < MEM_HASH_SIZE" "info \<in> set (L k)" unfolding set_nodes by blast
  obtain x where "ml_info s info = Some x" using table_repD(4)[OF r k] by blast
  moreover have "info \<noteq> NULL" using nodes_not_null[OF r] n by auto
  ultimately show ?thesis
    using heap_rep_live(2)[OF h n] by (auto simp: mem_alloc_info_show_def trace_of_def)
qed

text \<open>Showing any record changes nothing but the output.\<close>

lemma mem_alloc_info_show_frame:
  "mem_alloc_info_show info s = Some s' \<Longrightarrow> \<exists>x. s' = s\<lparr>ml_shown := ml_shown s @ x\<rparr>"
  by (cases "info = NULL")
    (auto simp: mem_alloc_info_show_def bind_eq_Some_iff split: if_splits intro: exI[of _ "[]"])

lemma bucket_show_ok:
  assumes "hseg (ml_links s) q xs"
    "\<forall>n \<in> set xs. ml_info s n \<noteq> None \<and> (trace_of s n = NULL \<or> trace_of s n \<in> ml_heap s)"
  shows "Option.bind (hcell (ml_links s) q) (\<lambda>pos. bucket_show pos s) =
    Some (s\<lparr>ml_shown := ml_shown s @ map (\<lambda>n. the (ml_info s n)) xs\<rparr>)"
  using assms
proof (induction xs arbitrary: q s)
  case Nil
  then show ?case by (simp add: bucket_show.simps)
next
  case (Cons x xs)
  let ?s = "s\<lparr>ml_shown := ml_shown s @ [the (ml_info s x)]\<rparr>"
  have "mem_alloc_info_show x s = Some ?s"
    using Cons.prems by (auto simp: mem_alloc_info_show_def trace_of_def)
  moreover have "Option.bind (hcell (ml_links ?s) x) (\<lambda>pos. bucket_show pos ?s) =
      Some (?s\<lparr>ml_shown := ml_shown ?s @ map (\<lambda>n. the (ml_info ?s n)) xs\<rparr>)"
    by (rule Cons.IH) (use Cons.prems in \<open>auto simp: trace_of_def\<close>)
  ultimately show ?case
    using Cons.prems by (subst bucket_show.simps) auto
qed

lemma mem_leaks_show_ok:
  assumes r: "table_rep s L" and h: "heap_rep s L own"
  shows "mem_leaks_show b s = Some (s\<lparr>ml_shown := ml_shown s @ map (\<lambda>n. the (ml_info s n)) (tab_nodes L)\<rparr>)"
proof -
  let ?body = "\<lambda>k s. Option.bind (hcell (ml_links s) (bucket_addr (g_alloc_hash_b s) k)) (\<lambda>pos. bucket_show pos s)"
  let ?out = "\<lambda>m. s\<lparr>ml_shown := ml_shown s @ map (\<lambda>n. the (ml_info s n)) (concat (map L [0..<m]))\<rparr>"
  have "foldM ?body [0..<m] s = Some (?out m)" if "m \<le> MEM_HASH_SIZE" for m
    using that
  proof (induction m)
    case (Suc m)
    then have m: "m < MEM_HASH_SIZE" by simp
    have "?body m (?out m) =
        Some (?out m\<lparr>ml_shown := ml_shown (?out m) @ map (\<lambda>n. the (ml_info (?out m) n)) (L m)\<rparr>)"
    proof (rule bucket_show_ok)
      show "hseg (ml_links (?out m)) (bucket_addr (g_alloc_hash_b (?out m)) m) (L m)"
        using table_repD(1)[OF r m] by (simp add: is_hlist_def)
      have "n \<in> set (tab_nodes L)" if "n \<in> set (L m)" for n
        using that m unfolding set_nodes by blast
      then show "\<forall>n \<in> set (L m). ml_info (?out m) n \<noteq> None \<and>
          (trace_of (?out m) n = NULL \<or> trace_of (?out m) n \<in> ml_heap (?out m))"
        using heap_rep_live(2)[OF h] table_repD(4)[OF r m] by (fastforce simp: trace_of_def)
    qed
    then show ?case
      using Suc by (simp add: foldM_append)
  qed simp
  from this[of MEM_HASH_SIZE] show ?thesis
    using r by (simp add: mem_leaks_show_def mem_once_def table_rep_def hash_lock_def tab_nodes_def)
qed

lemma filter_nodes:
  assumes "table_rep s L"
  shows "filter (\<lambda>i. li_p i = a) (map (\<lambda>n. the (ml_info s n)) (tab_nodes L)) = recs s L a"
proof -
  let ?k = "mem_hash_key a"
  let ?f = "\<lambda>k. filter (\<lambda>i. li_p i = a) (map (\<lambda>n. the (ml_info s n)) (L k))"
  have other: "?f k = []" if "k < MEM_HASH_SIZE" "k \<noteq> ?k" for k
    using table_repD(4)[OF assms that(1)] that(2) by (fastforce simp: filter_empty_conv)
  have *: "concat (map ?f ks) = []" if "\<forall>k \<in> set ks. k < MEM_HASH_SIZE \<and> k \<noteq> ?k" for ks
    using that other by auto
  have "[0..<MEM_HASH_SIZE] = [0..<?k] @ ?k # [Suc ?k..<MEM_HASH_SIZE]"
    using key_less[of a] upt_add_eq_append[of 0 ?k "MEM_HASH_SIZE - ?k"] by (simp add: upt_conv_Cons)
  then have "concat (map ?f [0..<MEM_HASH_SIZE]) = ?f ?k"
    using *[of "[0..<?k]"] *[of "[Suc ?k..<MEM_HASH_SIZE]"] key_less[of a]
    by (simp del: concat_eq_Nil_conv)
  then show ?thesis
    by (simp add: tab_nodes_def map_concat filter_concat comp_def recs_def)
qed

lemma table_total:
  assumes "table_rep s L" shows "ml_total s = int (length (tab_nodes L))"
proof -
  have "int (length (concat (map L [0..<m]))) = (\<Sum>k < m. int (length (L k)))" for m
    by (induction m) simp_all
  then show ?thesis
    using assms by (simp add: table_rep_def tab_nodes_def)
qed

lemma heap_rep_empty:
  assumes "heap_rep s L own" "tab_nodes L = []"
  shows "ml_heap s = insert (g_alloc_hash_b s) own"
proof -
  have "set_mset (mset_set (ml_heap s)) = insert (g_alloc_hash_b s) own" "finite (ml_heap s)"
    using assms by (simp_all add: heap_rep_def trace_blocks_def)
  then show ?thesis by simp
qed

section \<open>Setting up\<close>

lemma init_heads:
  assumes "m \<le> MEM_HASH_SIZE" "\<And>k. k < m \<Longrightarrow> hcell l (bucket_addr h k) = Some NULL"
  shows "foldM (\<lambda>i. STLC_INIT_HLIST_HEAD (bucket_addr h i)) [0..<m] l = Some l"
  using assms
proof (induction m)
  case (Suc m)
  then have "hcell l (bucket_addr h m) = Some NULL" by blast
  then have "(hcell l)(bucket_addr h m \<mapsto> NULL) = hcell l" by (rule map_upd_triv)
  then have "STLC_INIT_HLIST_HEAD (bucket_addr h m) l = Some l"
    using \<open>hcell l (bucket_addr h m) = Some NULL\<close>
    by (simp add: STLC_INIT_HLIST_HEAD_def set_cell_def domIff)
  then show ?case
    using Suc by (simp add: foldM_append)
qed simp

text \<open>The first call of any function sets up an empty table.\<close>

definition boot_table :: "addr \<Rightarrow> mem_state" where
  "boot_table h = ml_boot\<lparr>ml_heap := {h}, my_key_once := True, g_alloc_hash_b := h,
     ml_links := \<lparr>hcell = (\<lambda>a. if in_buckets h a then Some NULL else None), hpprev = Map.empty\<rparr>,
     pids := (\<lambda>i. if i < MEM_LEAKS_MAX_THREADS then 1 else 0)\<rparr>"

lemma mem_once_boot:
  assumes "h \<noteq> NULL" shows "mem_once h ml_boot = Some (boot_table h)"
proof -
  let ?l = "\<lparr>hcell = (\<lambda>a. if in_buckets h a then Some NULL else None), hpprev = Map.empty\<rparr>"
  have "foldM (\<lambda>i. STLC_INIT_HLIST_HEAD (bucket_addr h i)) [0..<MEM_HASH_SIZE] ?l = Some ?l"
    by (rule init_heads) (simp_all add: in_buckets_bucket)
  then show ?thesis
    using assms by (simp add: mem_once_def mem_leaks_init_def mem_leaks_hash_init_def libc_new_def ml_boot_def
        boot_table_def cong: if_cong)
qed

lemma boot_table_rep:
  assumes "h \<noteq> NULL" shows "table_rep (boot_table h) (\<lambda>_. [])" "heap_rep (boot_table h) (\<lambda>_. []) {}"
  using assms
  by (simp_all add: table_rep_def boot_table_def ml_boot_def is_hlist_def in_buckets_bucket heap_rep_def tab_nodes_def
      trace_blocks_def)

end
