(* ===== verification/MemLeaksCalls.thy ===== *)
theory MemLeaksCalls
  imports MemLeaksTable
begin

text \<open>
  Calls of the memory leak checker by several threads (\<open>mem_leaks.c\<close>).  A configuration is the state of the
  checker, what each thread has still to do, and the log of the blocks that the C library handed out and took
  back, as the program sees them.  An action is a call up to its first cut, the continuation of a call to the
  next cut, or a switch of the recording; \<open>ml_allowed\<close> says which actions a program that uses the allocator
  correctly, and the allocator, may take.  The invariant ties the table to the log, except at the addresses in
  \<open>disturbed\<close>, where the checker goes wrong.
\<close>

section \<open>The log and what it says should be recorded\<close>

text \<open>A block was got, with its size and whether the recording was on; given back; or moved by \<open>realloc\<close>.\<close>

datatype ml_event =
    Got addr u64 bool
  | Gave addr
  | Moved addr addr u64 bool

fun ev_own :: "ml_event \<Rightarrow> addr set \<Rightarrow> addr set" where
  "ev_own (Got p z r) A = (if p = NULL then A else insert p A)"
| "ev_own (Gave p) A = A - {p}"
| "ev_own (Moved old new z r) A = (if new = NULL then (if z = 0 then A - {old} else A) else insert new (A - {old}))"

fun ev_rec :: "ml_event \<Rightarrow> (addr \<rightharpoonup> u32) \<Rightarrow> (addr \<rightharpoonup> u32)" where
  "ev_rec (Got p z r) R = (if p = NULL then R else R(p := if r then Some (ucast z) else None))"
| "ev_rec (Gave p) R = R(p := None)"
| "ev_rec (Moved old new z r) R =
     (if new = NULL then (if z = 0 then R(old := None) else R)
      else R(old := None, new := if r then Some (ucast z) else None))"

definition own_of :: "ml_event list \<Rightarrow> addr set" where
  "own_of g = fold ev_own g {}"

definition rec_of :: "ml_event list \<Rightarrow> (addr \<rightharpoonup> u32)" where
  "rec_of g = fold ev_rec g Map.empty"

lemma log_simps [simp]:
  "own_of [] = {}" "rec_of [] = Map.empty"
  "own_of (g @ [e]) = ev_own e (own_of g)" "rec_of (g @ [e]) = ev_rec e (rec_of g)"
  by (simp_all add: own_of_def rec_of_def)

lemma rec_of_own: "a \<notin> own_of g \<Longrightarrow> rec_of g a = None"
proof (induction g arbitrary: a rule: rev_induct)
  case (snoc e g)
  then show ?case by (cases e) (auto split: if_splits)
qed simp

section \<open>Configurations and actions\<close>

record ml_cfg =
  lc_st :: mem_state
  lc_pc :: "nat \<Rightarrow> call_state"
  lc_log :: "ml_event list"

definition ml_cfg0 :: "mem_state \<Rightarrow> ml_cfg" where
  "ml_cfg0 s = \<lparr>lc_st = s, lc_pc = (\<lambda>_. Idle), lc_log = []\<rparr>"

text \<open>\<open>CallAlloc t sh p z\<close> is a call of \<open>malloc\<close> (\<open>sh\<close>) or \<open>calloc\<close> by the thread \<open>t\<close> for \<open>z\<close> bytes, when the C
  library returns \<open>p\<close>.\<close>

datatype ml_action =
    CallAlloc nat bool addr u64
  | CallRealloc nat addr addr u64
  | CallFree nat addr
  | Continue nat call_env
  | Start
  | Stop

fun ml_do :: "addr \<Rightarrow> ml_action \<Rightarrow> ml_cfg \<Rightarrow> ml_cfg option" where
  "ml_do h (CallAlloc t sh p z) c = do {
     s \<leftarrow> mem_once h (lc_st c);
     (k, s) \<leftarrow> alloc_enter sh t p z s;
     Some (c\<lparr>lc_st := s, lc_pc := (lc_pc c)(t := k), lc_log := lc_log c @ [Got p z (mem_check (lc_st c))]\<rparr>) }"
| "ml_do h (CallRealloc t old new z) c = do {
     s \<leftarrow> mem_once h (lc_st c);
     (k, s) \<leftarrow> realloc_enter t old new z s;
     Some (c\<lparr>lc_st := s, lc_pc := (lc_pc c)(t := k),
       lc_log := lc_log c @ [Moved old new z (mem_check (lc_st c))]\<rparr>) }"
| "ml_do h (CallFree t p) c = do {
     s \<leftarrow> mem_once h (lc_st c);
     (k, s) \<leftarrow> free_enter p s;
     Some (c\<lparr>lc_st := s, lc_pc := (lc_pc c)(t := k)\<rparr>) }"
| "ml_do h (Continue t e) c = do {
     (k, s) \<leftarrow> call_step t e (lc_pc c t) (lc_st c);
     Some (c\<lparr>lc_st := s, lc_pc := (lc_pc c)(t := k),
       lc_log := lc_log c @ (case lc_pc c t of Freeing p \<Rightarrow> [Gave p] | _ \<Rightarrow> [])\<rparr>) }"
| "ml_do h Start c = map_option (\<lambda>s. c\<lparr>lc_st := s\<rparr>) (mem_leaks_start h (lc_st c))"
| "ml_do h Stop c = map_option (\<lambda>s. c\<lparr>lc_st := s\<rparr>) (mem_leaks_stop h (lc_st c))"

text \<open>The addresses that a call in progress is about, and those of the blocks that it works on for its caller.\<close>

fun busy :: "call_state \<Rightarrow> addr set" where
  "busy Idle = {}"
| "busy (Recording p z sh) = {p} - {NULL}"
| "busy (Showing p info) = {p} - {NULL}"
| "busy (Freeing p) = {p} - {NULL}"
| "busy (Forgetting old new z r) = {old, new} - {NULL}"

fun held :: "call_state \<Rightarrow> addr set" where
  "held (Forgetting old new z r) = {new} - {NULL}"
| "held k = busy k"

definition unclaimed :: "ml_cfg \<Rightarrow> addr \<Rightarrow> bool" where
  "unclaimed c a \<longleftrightarrow> (\<forall>t. a \<notin> busy (lc_pc c t))"

text \<open>The program gives back or resizes only blocks that it got, and not while another call works on them.\<close>

definition usable :: "ml_cfg \<Rightarrow> addr \<Rightarrow> bool" where
  "usable c a \<longleftrightarrow> a \<in> own_of (lc_log c) \<and> (\<forall>t. a \<notin> held (lc_pc c t))"

text \<open>A thread makes one call at a time and uses its own blocks.  The C library returns addresses that are not in use,
  or the null pointer.  Thread numbers fit the array of flags, there are less than \<open>2^31 - 1\<close> records, and the stack
  and the inner allocations are as \<open>ml_env_ok\<close> says.\<close>

fun ml_allowed :: "ml_action \<Rightarrow> ml_cfg \<Rightarrow> bool" where
  "ml_allowed (CallAlloc t sh p z) c \<longleftrightarrow> lc_pc c t = Idle \<and> t < MEM_LEAKS_MAX_THREADS \<and> (p = NULL \<or> fresh (lc_st c) p)"
| "ml_allowed (CallRealloc t old new z) c \<longleftrightarrow> lc_pc c t = Idle \<and> t < MEM_LEAKS_MAX_THREADS \<and>
     (old = NULL \<or> usable c old) \<and> (new = NULL \<or> new = old \<or> fresh (lc_st c) new)"
| "ml_allowed (CallFree t p) c \<longleftrightarrow> lc_pc c t = Idle \<and> (p = NULL \<or> usable c p)"
| "ml_allowed (Continue t e) c \<longleftrightarrow> ml_env_ok (lc_st c) e \<and> ml_total (lc_st c) < 2 ^ 31 - 1"
| "ml_allowed Start c \<longleftrightarrow> True"
| "ml_allowed Stop c \<longleftrightarrow> True"

fun ml_legal :: "addr \<Rightarrow> ml_action list \<Rightarrow> ml_cfg \<Rightarrow> bool" where
  "ml_legal h [] c \<longleftrightarrow> True"
| "ml_legal h (a # as) c \<longleftrightarrow> ml_allowed a c \<and> (case ml_do h a c of None \<Rightarrow> True | Some c' \<Rightarrow> ml_legal h as c')"

text \<open>
  The addresses at which the checker goes wrong: those that the C library hands out while a \<open>realloc\<close> that moved a
  block away from them has still to remove the old record, and those of the blocks that a \<open>realloc\<close> to size zero gives
  back.
\<close>

definition forgetting :: "ml_cfg \<Rightarrow> addr set" where
  "forgetting c = {a. \<exists>t new z r. lc_pc c t = Forgetting a new z r \<and> a \<noteq> new}"

fun disturbs :: "ml_action \<Rightarrow> ml_cfg \<Rightarrow> addr set" where
  "disturbs (CallAlloc t sh p z) c = {p} \<inter> forgetting c"
| "disturbs (CallRealloc t old new z) c =
     (if new = NULL then (if z = 0 then {old} else {}) else if new = old then {} else {new} \<inter> forgetting c)"
| "disturbs _ c = {}"

fun disturbed :: "addr \<Rightarrow> ml_action list \<Rightarrow> ml_cfg \<Rightarrow> addr set" where
  "disturbed h [] c = {}"
| "disturbed h (a # as) c = disturbs a c \<union> (case ml_do h a c of None \<Rightarrow> {} | Some c' \<Rightarrow> disturbed h as c')"

section \<open>The invariant\<close>

definition sizes :: "mem_state \<Rightarrow> (nat \<Rightarrow> addr list) \<Rightarrow> addr \<Rightarrow> u32 list" where
  "sizes s L a = map li_size (recs s L a)"

definition exact_at :: "mem_state \<Rightarrow> (nat \<Rightarrow> addr list) \<Rightarrow> ml_event list \<Rightarrow> addr \<Rightarrow> bool" where
  "exact_at s L g a \<longleftrightarrow> sizes s L a = (case rec_of g a of None \<Rightarrow> [] | Some z \<Rightarrow> [z])"

text \<open>What holds while a thread is in a call.  \<open>R\<close> are the addresses that are disturbed in the whole run.\<close>

fun pc_ok :: "addr set \<Rightarrow> mem_state \<Rightarrow> (nat \<Rightarrow> addr list) \<Rightarrow> ml_event list \<Rightarrow> call_state \<Rightarrow> bool" where
  "pc_ok R s L g Idle \<longleftrightarrow> True"
| "pc_ok R s L g (Recording p z sh) \<longleftrightarrow>
     (p \<noteq> NULL \<longrightarrow> p \<notin> R \<longrightarrow> sizes s L p = [] \<and> rec_of g p = Some (ucast z))"
| "pc_ok R s L g (Showing p info) \<longleftrightarrow> (p \<noteq> NULL \<longrightarrow> p \<notin> R \<longrightarrow> exact_at s L g p \<and> rec_at s L p info)"
| "pc_ok R s L g (Freeing p) \<longleftrightarrow> (p \<noteq> NULL \<longrightarrow> p \<notin> R \<longrightarrow> sizes s L p = [])"
| "pc_ok R s L g (Forgetting old new z r) \<longleftrightarrow> new \<noteq> NULL \<and>
     (new \<notin> R \<longrightarrow> rec_of g new = (if r then Some (ucast z) else None) \<and> (old \<noteq> new \<longrightarrow> sizes s L new = [])) \<and>
     (old \<noteq> NULL \<longrightarrow> old \<notin> R \<longrightarrow> length (sizes s L old) \<le> 1 \<and> (old \<noteq> new \<longrightarrow> old \<notin> own_of g))"

fun will_record :: "call_state \<Rightarrow> bool" where
  "will_record (Recording p z sh) = True"
| "will_record (Showing p info) = True"
| "will_record (Forgetting old new z r) = r"
| "will_record _ = False"

definition ml_inv :: "addr set \<Rightarrow> ml_cfg \<Rightarrow> (nat \<Rightarrow> addr list) \<Rightarrow> bool" where
  "ml_inv R c L \<longleftrightarrow> table_rep (lc_st c) L \<and> heap_rep (lc_st c) L (own_of (lc_log c)) \<and>
     (\<forall>t u. t \<noteq> u \<longrightarrow> busy (lc_pc c t) \<inter> busy (lc_pc c u) \<subseteq> R \<and> held (lc_pc c t) \<inter> held (lc_pc c u) = {}) \<and>
     (\<forall>t. held (lc_pc c t) \<subseteq> own_of (lc_log c)) \<and>
     (\<forall>t. pc_ok R (lc_st c) L (lc_log c) (lc_pc c t)) \<and>
     (\<forall>t. will_record (lc_pc c t) \<longrightarrow> t < MEM_LEAKS_MAX_THREADS) \<and>
     (\<forall>t < MEM_LEAKS_MAX_THREADS. pids (lc_st c) t = (if will_record (lc_pc c t) then 0 else 1)) \<and>
     (\<forall>a. a \<noteq> NULL \<longrightarrow> a \<notin> R \<longrightarrow> unclaimed c a \<longrightarrow> exact_at (lc_st c) L (lc_log c) a)"

lemma ml_invD:
  assumes "ml_inv R c L"
  shows "table_rep (lc_st c) L" "heap_rep (lc_st c) L (own_of (lc_log c))"
    and "u \<noteq> t \<Longrightarrow> busy (lc_pc c t) \<inter> busy (lc_pc c u) \<subseteq> R"
    and "u \<noteq> t \<Longrightarrow> held (lc_pc c t) \<inter> held (lc_pc c u) = {}"
    and "held (lc_pc c t) \<subseteq> own_of (lc_log c)"
    and "pc_ok R (lc_st c) L (lc_log c) (lc_pc c t)"
    and "will_record (lc_pc c t) \<Longrightarrow> t < MEM_LEAKS_MAX_THREADS"
    and "t < MEM_LEAKS_MAX_THREADS \<Longrightarrow> pids (lc_st c) t = (if will_record (lc_pc c t) then 0 else 1)"
    and "a \<noteq> NULL \<Longrightarrow> a \<notin> R \<Longrightarrow> unclaimed c a \<Longrightarrow> exact_at (lc_st c) L (lc_log c) a"
    and "mem_once h (lc_st c) = Some (lc_st c)"
  using assms unfolding ml_inv_def by (auto simp: mem_once_def table_rep_def)

lemma pc_ok_cong:
  assumes "pc_ok R s L g k"
    "\<And>a. a \<in> busy k \<Longrightarrow> a \<notin> R \<Longrightarrow> sizes s' L' a = sizes s L a \<and> (a \<in> own_of g' \<longleftrightarrow> a \<in> own_of g) \<and>
       rec_of g' a = rec_of g a \<and> (\<forall>info. rec_at s L a info \<longrightarrow> rec_at s' L' a info)"
  shows "pc_ok R s' L' g' k"
  using assms by (cases k) (auto simp: exact_at_def)

lemma busy_not_null: "NULL \<notin> busy k"
  by (cases k) auto

lemma held_busy: "held k \<subseteq> busy k"
  by (cases k) auto

text \<open>A step of one thread that touches only the addresses \<open>A\<close>, which no other thread is about.\<close>

lemma ml_inv_step:
  assumes inv: "ml_inv R c L" and rep: "table_rep s' L'" "heap_rep s' L' (own_of g')"
    and same: "\<And>a. a \<noteq> NULL \<Longrightarrow> a \<notin> A \<Longrightarrow> sizes s' L' a = sizes (lc_st c) L a \<and>
      (a \<in> own_of g' \<longleftrightarrow> a \<in> own_of (lc_log c)) \<and> rec_of g' a = rec_of (lc_log c) a \<and>
      (\<forall>info. rec_at (lc_st c) L a info \<longrightarrow> rec_at s' L' a info)"
    and A: "\<And>u. u \<noteq> t \<Longrightarrow> A \<inter> busy (lc_pc c u) \<subseteq> R" "busy k \<subseteq> A" "busy (lc_pc c t) \<subseteq> A"
    and hd: "\<And>u. u \<noteq> t \<Longrightarrow> held k \<inter> held (lc_pc c u) = {}" "held k \<subseteq> own_of g'"
      "\<And>u. u \<noteq> t \<Longrightarrow> held (lc_pc c u) \<subseteq> own_of g'"
    and ok: "pc_ok R s' L' g' k" "will_record k \<Longrightarrow> t < MEM_LEAKS_MAX_THREADS"
      "\<And>u. u \<noteq> t \<Longrightarrow> pids s' u = pids (lc_st c) u"
      "t < MEM_LEAKS_MAX_THREADS \<Longrightarrow> pids s' t = (if will_record k then 0 else 1)"
    and ex: "\<And>a. a \<noteq> NULL \<Longrightarrow> a \<in> A \<Longrightarrow> a \<notin> R \<Longrightarrow> a \<notin> busy k \<Longrightarrow> exact_at s' L' g' a"
  shows "ml_inv R (c\<lparr>lc_st := s', lc_pc := (lc_pc c)(t := k), lc_log := g'\<rparr>) L'"
proof -
  let ?c = "c\<lparr>lc_st := s', lc_pc := (lc_pc c)(t := k), lc_log := g'\<rparr>"
  have pc: "pc_ok R s' L' g' (lc_pc ?c u)" for u
  proof (cases "u = t")
    case False
    have "pc_ok R s' L' g' (lc_pc c u)"
    proof (rule pc_ok_cong[OF ml_invD(6)[OF inv]])
      fix a assume a: "a \<in> busy (lc_pc c u)" "a \<notin> R"
      then have "a \<noteq> NULL" "a \<notin> A" using A(1)[OF False] busy_not_null by (metis, auto)
      then show "sizes s' L' a = sizes (lc_st c) L a \<and> (a \<in> own_of g' \<longleftrightarrow> a \<in> own_of (lc_log c)) \<and>
          rec_of g' a = rec_of (lc_log c) a \<and> (\<forall>info. rec_at (lc_st c) L a info \<longrightarrow> rec_at s' L' a info)"
        by (rule same)
    qed
    then show ?thesis using False by simp
  qed (use ok(1) in simp)
  have busy: "busy k \<inter> busy (lc_pc c u) \<subseteq> R" if "u \<noteq> t" for u
    using A(1)[OF that] A(2) by auto
  have exact: "exact_at s' L' g' a" if a: "a \<noteq> NULL" "a \<notin> R" "unclaimed ?c a" for a
  proof (cases "a \<in> A")
    case True
    then show ?thesis using ex a by (auto simp: unclaimed_def dest: spec[of _ t])
  next
    case False
    have "a \<notin> busy (lc_pc c u)" for u
      using False A(3) a(3) by (cases "u = t") (auto simp: unclaimed_def dest: spec[of _ u])
    then have "exact_at (lc_st c) L (lc_log c) a"
      using ml_invD(9)[OF inv a(1,2)] by (simp add: unclaimed_def)
    then show ?thesis using same[OF a(1) False] by (simp add: exact_at_def)
  qed
  show ?thesis
    unfolding ml_inv_def
  proof (intro conjI allI impI)
    fix u v :: nat assume "u \<noteq> v"
    then show "busy (lc_pc ?c u) \<inter> busy (lc_pc ?c v) \<subseteq> R" "held (lc_pc ?c u) \<inter> held (lc_pc ?c v) = {}"
      using busy[of u] busy[of v] hd(1)[of u] hd(1)[of v] ml_invD(3,4)[OF inv, of v u] by (auto simp: Int_commute)
  next
    fix a assume "a \<noteq> NULL" "a \<notin> R" "unclaimed ?c a"
    then show "exact_at (lc_st ?c) L' (lc_log ?c) a" using exact by simp
  qed (use rep hd pc ok ml_invD(7,8)[OF inv] in \<open>simp_all split: if_splits\<close>)
qed

lemma exact_at_one: "exact_at s L g a \<Longrightarrow> length (sizes s L a) \<le> 1"
  by (auto simp: exact_at_def split: option.splits)

lemma not_own_fresh: "ml_inv R c L \<Longrightarrow> fresh (lc_st c) p \<Longrightarrow> p \<notin> own_of (lc_log c)"
  using heap_rep_own ml_invD(2) by (fastforce simp: fresh_def)

text \<open>An address that a call is about is held by it or is the old block of its \<open>realloc\<close>.\<close>

lemma busy_cases: "a \<in> busy (lc_pc c t) \<Longrightarrow> a \<in> held (lc_pc c t) \<or> a \<in> forgetting c"
  by (cases "lc_pc c t") (auto simp: forgetting_def)

lemma not_busy:
  assumes a: "\<forall>t. a \<notin> held (lc_pc c t)" "a \<in> forgetting c \<Longrightarrow> a \<in> R"
  shows "a \<in> busy (lc_pc c u) \<Longrightarrow> a \<in> R"
  using a busy_cases by blast

lemma usable_busy:
  assumes inv: "ml_inv R c L" and a: "usable c a" and b: "a \<in> busy (lc_pc c u)"
  shows "a \<in> R"
proof (rule ccontr)
  assume R: "a \<notin> R"
  have "a \<noteq> NULL" using b busy_not_null by metis
  moreover have "a \<notin> held (lc_pc c u)" "a \<in> own_of (lc_log c)" using a by (auto simp: usable_def)
  ultimately show False
    using b R ml_invD(6)[OF inv, of u] by (cases "lc_pc c u") auto
qed

lemma fresh_not_held: "ml_inv R c L \<Longrightarrow> fresh (lc_st c) p \<Longrightarrow> p \<notin> held (lc_pc c u)"
  using not_own_fresh ml_invD(5) by blast

lemma fresh_busy:
  assumes inv: "ml_inv R c L" and f: "fresh (lc_st c) p" and d: "p \<in> forgetting c \<Longrightarrow> p \<in> R"
    and b: "p \<in> busy (lc_pc c u)"
  shows "p \<in> R"
  using not_busy[of p c R u] fresh_not_held[OF inv f] d b by blast

lemma new_block_unrecorded:
  assumes inv: "ml_inv R c L" and f: "fresh (lc_st c) p" and d: "p \<in> forgetting c \<Longrightarrow> p \<in> R" and R: "p \<notin> R"
  shows "sizes (lc_st c) L p = []"
proof -
  have "unclaimed c p" using fresh_busy[OF inv f d] R by (auto simp: unclaimed_def)
  then show ?thesis
    using ml_invD(9)[OF inv _ R] rec_of_own[OF not_own_fresh[OF inv f]] f by (simp add: exact_at_def fresh_def)
qed

lemma usable_one:
  assumes "ml_inv R c L" "usable c a" "a \<noteq> NULL" "a \<notin> R"
  shows "exact_at (lc_st c) L (lc_log c) a"
  using ml_invD(9)[OF assms(1,3,4)] usable_busy[OF assms(1,2)] assms(4) by (auto simp: unclaimed_def)

lemma rec_at_simps [simp]:
  "rec_at (s\<lparr>ml_heap := H\<rparr>) L = rec_at s L" "rec_at (s\<lparr>pids := P\<rparr>) L = rec_at s L"
  "rec_at (s\<lparr>mem_check := b\<rparr>) L = rec_at s L" "rec_at (libc_new p s) L = rec_at s L"
  "rec_at (s\<lparr>ml_shown := X\<rparr>) L = rec_at s L"
  by (simp_all add: rec_at_def libc_new_def fun_eq_iff)

lemma sizes_simps [simp]:
  "sizes (s\<lparr>ml_heap := H\<rparr>) L = sizes s L" "sizes (s\<lparr>pids := P\<rparr>) L = sizes s L"
  "sizes (s\<lparr>mem_check := b\<rparr>) L = sizes s L" "sizes (libc_new p s) L = sizes s L"
  "sizes (s\<lparr>ml_shown := X\<rparr>) L = sizes s L"
  by (simp_all add: sizes_def libc_new_def fun_eq_iff)

lemma libc_new_simps [simp]:
  "table_rep (libc_new p s) L = table_rep s L" "pids (libc_new p s) = pids s"
  "mem_check (libc_new p s) = mem_check s"
  by (simp_all add: libc_new_def)

lemma step_alloc_ok:
  assumes inv: "ml_inv R c L" and ok: "ml_allowed (CallAlloc t sh p z) c" and d: "disturbs (CallAlloc t sh p z) c \<subseteq> R"
  shows "\<exists>c'. ml_do h (CallAlloc t sh p z) c = Some c' \<and> ml_inv R c' L"
proof -
  let ?s = "lc_st c" let ?r = "mem_check ?s"
  let ?k = "if ?r then Recording p z sh else Idle"
  let ?s1 = "if ?r then ?s\<lparr>pids := (pids ?s)(t := 0)\<rparr> else ?s"
  let ?g = "lc_log c @ [Got p z ?r]"
  have t: "lc_pc c t = Idle" "t < MEM_LEAKS_MAX_THREADS" and p: "p = NULL \<or> fresh ?s p" and fg: "p \<in> forgetting c \<Longrightarrow> p \<in> R"
    using ok d by auto
  have pid: "pids ?s t = 1"
    using ml_invD(8)[OF inv t(2)] t(1) by simp
  have run: "ml_do h (CallAlloc t sh p z) c =
      Some (c\<lparr>lc_st := libc_new p ?s1, lc_pc := (lc_pc c)(t := ?k), lc_log := ?g\<rparr>)"
    using t(2) pid ml_invD(10)[OF inv] by (simp add: alloc_enter_def pid_flag_def set_pid_def)
  have pn: "p \<noteq> NULL \<Longrightarrow> p \<notin> R \<Longrightarrow> sizes ?s L p = []"
    using p new_block_unrecorded[OF inv _ fg] by auto
  have "ml_inv R (c\<lparr>lc_st := libc_new p ?s1, lc_pc := (lc_pc c)(t := ?k), lc_log := ?g\<rparr>) L"
  proof (rule ml_inv_step[OF inv, where A = "{p} - {NULL}"])
    show "heap_rep (libc_new p ?s1) L (own_of ?g)"
      using heap_rep_new_own[of ?s1 L "own_of (lc_log c)" p] ml_invD(2)[OF inv] p
      by (auto simp: fresh_def insert_absorb split: if_splits)
    show "({p} - {NULL}) \<inter> busy (lc_pc c u) \<subseteq> R" for u
      using p fresh_busy[OF inv _ fg] by auto
    show "held ?k \<inter> held (lc_pc c u) = {}" for u
      using p fresh_not_held[OF inv] by auto
    show "held (lc_pc c u) \<subseteq> own_of ?g" for u
      using ml_invD(5)[OF inv] by auto
    show "exact_at (libc_new p ?s1) L ?g a" if "a \<noteq> NULL" "a \<in> {p} - {NULL}" "a \<notin> R" "a \<notin> busy ?k" for a
      using that pn by (auto simp: exact_at_def)
  qed (use ml_invD(1)[OF inv] t pid pn in auto)
  then show ?thesis using run by blast
qed

lemma heap_rep_free:
  assumes "heap_rep s L own" "p \<in> own"
  shows "libc_free p s = Some (s\<lparr>ml_heap := ml_heap s - {p}\<rparr>)"
    and "heap_rep (s\<lparr>ml_heap := ml_heap s - {p}\<rparr>) L (own - {p})"
proof -
  have p: "p \<noteq> NULL" "p \<in> ml_heap s" and fin: "finite (ml_heap s)" "finite own"
    using assms heap_rep_own[OF assms(1)] by (auto simp: heap_rep_def)
  then show "libc_free p s = Some (s\<lparr>ml_heap := ml_heap s - {p}\<rparr>)"
    by (simp add: libc_free_def)
  have o: "mset_set own = add_mset p (mset_set (own - {p}))"
    using assms(2) fin(2) by (rule mset_set.remove[rotated])
  have H: "mset_set (ml_heap s) = add_mset p (mset_set (ml_heap s - {p}))"
    using p(2) fin(1) by (rule mset_set.remove[rotated])
  have "trace_blocks (s\<lparr>ml_heap := ml_heap s - {p}\<rparr>) N = trace_blocks s N" for N
    by (simp add: trace_blocks_def trace_of_def[abs_def])
  then show "heap_rep (s\<lparr>ml_heap := ml_heap s - {p}\<rparr>) L (own - {p})"
    using assms(1) unfolding heap_rep_def o H by simp
qed

lemma step_free_ok:
  assumes inv: "ml_inv R c L" and ok: "ml_allowed (CallFree t p) c"
  shows "\<exists>c' L'. ml_do h (CallFree t p) c = Some c' \<and> ml_inv R c' L'"
proof -
  let ?s = "lc_st c"
  have t: "lc_pc c t = Idle" and p: "p = NULL \<or> usable c p"
    using ok by auto
  obtain s' L' where s': "(if p \<noteq> NULL then mem_alloc_info_del p ?s else Some ?s) = Some s'"
      "table_rep s' L'" "heap_rep s' L' (own_of (lc_log c))" "tab_frame ?s s'"
      "\<forall>a \<noteq> NULL. sizes s' L' a = (if a = p then drop 1 (sizes ?s L a) else sizes ?s L a)"
      "\<forall>a info. a \<noteq> p \<longrightarrow> rec_at ?s L a info \<longrightarrow> rec_at s' L' a info"
  proof (cases "p = NULL")
    case True
    then show ?thesis using that[of ?s L] ml_invD(1,2)[OF inv] by (simp add: tab_frame_def)
  next
    case False
    obtain s' L' where "mem_alloc_info_del p ?s = Some s' \<and> table_rep s' L' \<and> heap_rep s' L' (own_of (lc_log c)) \<and>
        tab_frame ?s s' \<and> (\<forall>a. recs s' L' a = (if a = p then drop 1 (recs ?s L a) else recs ?s L a)) \<and>
        (\<forall>a info. a \<noteq> p \<longrightarrow> rec_at ?s L a info \<longrightarrow> rec_at s' L' a info)"
      using mem_alloc_info_del_ok[OF ml_invD(1,2)[OF inv]] by blast
    then show ?thesis using that[of s' L'] False by (simp add: sizes_def drop_map)
  qed
  have run: "ml_do h (CallFree t p) c =
      Some (c\<lparr>lc_st := s', lc_pc := (lc_pc c)(t := Freeing p), lc_log := lc_log c\<rparr>)"
    using s'(1) ml_invD(10)[OF inv] by (simp add: free_enter_def)
  have "length (sizes ?s L p) \<le> 1" if "p \<noteq> NULL" "p \<notin> R"
    using usable_one[OF inv _ that] p that exact_at_one by blast
  then have p1: "p \<noteq> NULL \<Longrightarrow> p \<notin> R \<Longrightarrow> sizes s' L' p = []"
    using s'(5) by simp
  have "ml_inv R (c\<lparr>lc_st := s', lc_pc := (lc_pc c)(t := Freeing p), lc_log := lc_log c\<rparr>) L'"
  proof (rule ml_inv_step[OF inv s'(2,3), where A = "{p} - {NULL}"])
    show "({p} - {NULL}) \<inter> busy (lc_pc c u) \<subseteq> R" for u
      using p usable_busy[OF inv] by auto
    show "held (Freeing p) \<inter> held (lc_pc c u) = {}" "held (Freeing p) \<subseteq> own_of (lc_log c)" for u
      using p by (auto simp: usable_def)
    show "held (lc_pc c u) \<subseteq> own_of (lc_log c)" for u
      by (rule ml_invD(5)[OF inv])
    show "t < MEM_LEAKS_MAX_THREADS \<Longrightarrow> pids s' t = (if will_record (Freeing p) then 0 else 1)"
      using ml_invD(8)[OF inv, of t] t s'(4) by (simp add: tab_frame_def)
  qed (use p1 t s'(4-6) in \<open>auto simp: tab_frame_def\<close>)
  then show ?thesis using run by blast
qed

text \<open>The call of \<open>realloc\<close> of the C library.\<close>

lemma libc_realloc_ok:
  assumes h: "heap_rep s L own" and o: "old = NULL \<or> old \<in> own" and n: "new = old \<or> fresh s new" "new \<noteq> NULL"
  obtains H where "libc_realloc old new z s = Some (s\<lparr>ml_heap := H\<rparr>)"
    "heap_rep (s\<lparr>ml_heap := H\<rparr>) L (insert new (own - {old}))"
proof (cases "old = NULL")
  case True
  then have f: "new \<notin> ml_heap s" "NULL \<notin> own"
    using n h by (auto simp: fresh_def heap_rep_def)
  have "libc_realloc old new z s = Some (s\<lparr>ml_heap := insert new (ml_heap s)\<rparr>)"
    using n True by (simp add: libc_realloc_def libc_free_def libc_new_def)
  then show ?thesis
    using heap_rep_new_own[OF h, of new] f n(2) True by (intro that) (auto simp: libc_new_def insert_commute)
next
  case False
  then have o: "old \<in> own" using o by simp
  note F = heap_rep_free[OF h o]
  have "new \<notin> ml_heap s - {old}"
    using n by (auto simp: fresh_def)
  then have "heap_rep (libc_new new (s\<lparr>ml_heap := ml_heap s - {old}\<rparr>)) L (own - {old} \<union> ({new} - {NULL}))"
    by (intro heap_rep_new_own[OF F(2)]) simp
  moreover have "own - {old} \<union> ({new} - {NULL}) = insert new (own - {old})"
    using n(2) by auto
  ultimately show ?thesis
    using F(1) n(2) by (intro that) (auto simp: libc_realloc_def libc_new_def)
qed

lemma step_realloc_failed:
  assumes inv: "ml_inv R c L" and ok: "ml_allowed (CallRealloc t old NULL z) c" and d: "z = 0 \<Longrightarrow> old \<in> R"
  shows "\<exists>c'. ml_do h (CallRealloc t old NULL z) c = Some c' \<and> ml_inv R c' L"
proof -
  let ?s = "lc_st c" let ?r = "mem_check ?s" let ?own = "own_of (lc_log c)"
  let ?g = "lc_log c @ [Moved old NULL z ?r]"
  let ?s1 = "if ?r then ?s\<lparr>pids := (pids ?s)(t := 1)\<rparr> else ?s"
  have t: "lc_pc c t = Idle" "t < MEM_LEAKS_MAX_THREADS" and o: "old = NULL \<or> usable c old"
    using ok by auto
  have pid: "pids ?s t = 1"
    using ml_invD(8)[OF inv t(2)] t(1) by simp
  note h0 = ml_invD(2)[OF inv]
  have nul: "NULL \<notin> ?own" using h0 by (simp add: heap_rep_def)
  obtain H where H: "libc_realloc old NULL z ?s = Some (?s\<lparr>ml_heap := H\<rparr>)" "heap_rep (?s\<lparr>ml_heap := H\<rparr>) L (own_of ?g)"
  proof (cases "z = 0 \<and> old \<noteq> NULL")
    case True
    then have "old \<in> ?own" using o by (simp add: usable_def)
    from heap_rep_free[OF h0 this] True show ?thesis
      by (intro that[of "ml_heap ?s - {old}"]) (simp_all add: libc_realloc_def)
  next
    case False
    then have "libc_realloc old NULL z ?s = Some ?s" "own_of ?g = ?own"
      using o heap_rep_own[OF h0] nul by (auto simp: libc_realloc_def libc_free_def usable_def)
    then show ?thesis using h0 by (intro that[of "ml_heap ?s"]) simp_all
  qed
  have "libc_realloc old NULL z (?s\<lparr>pids := P\<rparr>) = map_option (\<lambda>s. s\<lparr>pids := P\<rparr>) (libc_realloc old NULL z ?s)" for P
    by (simp add: libc_realloc_def libc_free_def)
  then have run: "ml_do h (CallRealloc t old NULL z) c =
      Some (c\<lparr>lc_st := ?s1\<lparr>ml_heap := H\<rparr>, lc_pc := (lc_pc c)(t := Idle), lc_log := ?g\<rparr>)"
    using t pid ml_invD(10)[OF inv] H(1)
    by (cases ?r) (simp_all add: realloc_enter_def pid_flag_def set_pid_def)
  have "ml_inv R (c\<lparr>lc_st := ?s1\<lparr>ml_heap := H\<rparr>, lc_pc := (lc_pc c)(t := Idle), lc_log := ?g\<rparr>) L"
  proof (rule ml_inv_step[OF inv, where A = "if z = 0 then {old} - {NULL} else {}"])
    show "heap_rep (?s1\<lparr>ml_heap := H\<rparr>) L (own_of ?g)"
      using H(2) by (auto simp: heap_rep_def trace_blocks_def trace_of_def[abs_def])
    show "held (lc_pc c u) \<subseteq> own_of ?g" for u
      using ml_invD(5)[OF inv, of u] o busy_not_null held_busy[of "lc_pc c u"] by (fastforce simp: usable_def)
  qed (use t pid ml_invD(1)[OF inv] d in \<open>auto split: if_splits\<close>)
  then show ?thesis using run by blast
qed

lemma step_realloc_moved:
  assumes inv: "ml_inv R c L" and ok: "ml_allowed (CallRealloc t old new z) c" and False: "new \<noteq> NULL"
    and d: "disturbs (CallRealloc t old new z) c \<subseteq> R"
  shows "\<exists>c'. ml_do h (CallRealloc t old new z) c = Some c' \<and> ml_inv R c' L"
proof -
  let ?s = "lc_st c" let ?r = "mem_check ?s" let ?own = "own_of (lc_log c)"
  let ?g = "lc_log c @ [Moved old new z ?r]" let ?k = "Forgetting old new z ?r"
  let ?s1 = "if ?r then ?s\<lparr>pids := (pids ?s)(t := 0)\<rparr> else ?s"
  have t: "lc_pc c t = Idle" "t < MEM_LEAKS_MAX_THREADS" and o: "old = NULL \<or> usable c old"
    and n: "new = old \<or> fresh ?s new" and fg: "new \<noteq> old \<Longrightarrow> new \<in> forgetting c \<Longrightarrow> new \<in> R"
    using ok d False by auto
  have pid: "pids ?s t = 1"
    using ml_invD(8)[OF inv t(2)] t(1) by simp
  have h1: "heap_rep ?s1 L ?own" and f1: "new = old \<or> fresh ?s1 new" and o1: "old = NULL \<or> old \<in> ?own"
    using ml_invD(2)[OF inv] n o by (auto simp: fresh_def usable_def)
  obtain H where H: "libc_realloc old new z ?s1 = Some (?s1\<lparr>ml_heap := H\<rparr>)"
      "heap_rep (?s1\<lparr>ml_heap := H\<rparr>) L (insert new (?own - {old}))"
    by (rule libc_realloc_ok[OF h1 o1 f1 False]) (rule that)
  have run: "ml_do h (CallRealloc t old new z) c =
      Some (c\<lparr>lc_st := ?s1\<lparr>ml_heap := H\<rparr>, lc_pc := (lc_pc c)(t := ?k), lc_log := ?g\<rparr>)"
    using False t(2) pid ml_invD(10)[OF inv] H(1)
    by (cases ?r) (simp_all add: realloc_enter_def pid_flag_def set_pid_def)
  have one: "old \<noteq> NULL \<Longrightarrow> old \<notin> R \<Longrightarrow> length (sizes ?s L old) \<le> 1"
    using usable_one[OF inv] o exact_at_one by blast
  have new0: "new \<noteq> old \<Longrightarrow> new \<notin> R \<Longrightarrow> sizes ?s L new = []"
    using new_block_unrecorded[OF inv] n fg by blast
  have ob: "a \<in> R" if "a \<in> busy (lc_pc c u)" "a = old \<or> a = new" for a u
    using that o n usable_busy[OF inv, of old u] fresh_busy[OF inv, of new u] fg busy_not_null[of "lc_pc c u"] by metis
  have oh: "old \<notin> held (lc_pc c u)" "new \<notin> held (lc_pc c u)" for u
  proof -
    show old: "old \<notin> held (lc_pc c u)"
      using o held_busy[of "lc_pc c u"] busy_not_null by (auto simp: usable_def)
    show "new \<notin> held (lc_pc c u)"
      using n old fresh_not_held[OF inv, of new u] by auto
  qed
  have "ml_inv R (c\<lparr>lc_st := ?s1\<lparr>ml_heap := H\<rparr>, lc_pc := (lc_pc c)(t := ?k), lc_log := ?g\<rparr>) L"
  proof (rule ml_inv_step[OF inv, where A = "{old, new} - {NULL}"])
    show "heap_rep (?s1\<lparr>ml_heap := H\<rparr>) L (own_of ?g)"
      using H(2) False by simp
    show "({old, new} - {NULL}) \<inter> busy (lc_pc c u) \<subseteq> R" for u
      using ob by blast
    show "held ?k \<inter> held (lc_pc c u) = {}" "held ?k \<subseteq> own_of ?g" for u
      using oh False by auto
    show "held (lc_pc c u) \<subseteq> own_of ?g" for u
      using oh False ml_invD(5)[OF inv, of u] by auto
    show "pc_ok R (?s1\<lparr>ml_heap := H\<rparr>) L ?g ?k"
      using False one new0 by auto
  qed (use ml_invD(1)[OF inv] t pid False in auto)
  then show ?thesis using run by blast
qed

lemma step_recording_ok:
  assumes inv: "ml_inv R c L" and pc: "lc_pc c t = Recording p z sh"
    and ok: "ml_env_ok (lc_st c) e" "ml_total (lc_st c) < 2 ^ 31 - 1"
  shows "\<exists>c' L'. ml_do h (Continue t e) c = Some c' \<and> ml_inv R c' L'"
proof -
  let ?s = "lc_st c" let ?k = "if sh then Showing p (ce_info e) else Idle"
  have t: "t < MEM_LEAKS_MAX_THREADS" and pid: "pids ?s t = 0"
    using ml_invD(7)[OF inv, of t] ml_invD(8)[OF inv, of t] pc by auto
  obtain s' L' i where s': "record_block t e p z ?s = Some s'" "table_rep s' L'" "heap_rep s' L' (own_of (lc_log c))"
      "li_p i = p" "li_size i = ucast z" "\<forall>a. recs s' L' a = (if a = p then i # recs ?s L a else recs ?s L a)"
      "rec_at s' L' p (ce_info e)" "\<forall>a info. rec_at ?s L a info \<longrightarrow> rec_at s' L' a info" "pids s' = pids ?s"
    using record_block_ok[OF ml_invD(1,2)[OF inv] t pid ok] by blast
  let ?s' = "if sh then s' else s'\<lparr>pids := (pids s')(t := 1)\<rparr>"
  have pcok: "p \<noteq> NULL \<Longrightarrow> p \<notin> R \<Longrightarrow> sizes ?s L p = [] \<and> rec_of (lc_log c) p = Some (ucast z)"
    using ml_invD(6)[OF inv, of t] pc by simp
  have sz: "sizes s' L' a = (if a = p then ucast z # sizes ?s L a else sizes ?s L a)" for a
    using s'(5,6) by (simp add: sizes_def)
  have run: "ml_do h (Continue t e) c = Some (c\<lparr>lc_st := ?s', lc_pc := (lc_pc c)(t := ?k), lc_log := lc_log c\<rparr>)"
    using pc s'(1) t by (cases sh) (simp_all add: set_pid_def)
  have ex: "exact_at s' L' (lc_log c) p" if "p \<noteq> NULL" "p \<notin> R"
    using pcok[OF that] sz by (simp add: exact_at_def)
  have "ml_inv R (c\<lparr>lc_st := ?s', lc_pc := (lc_pc c)(t := ?k), lc_log := lc_log c\<rparr>) L'"
  proof (rule ml_inv_step[OF inv, where A = "{p} - {NULL}"])
    show "u \<noteq> t \<Longrightarrow> ({p} - {NULL}) \<inter> busy (lc_pc c u) \<subseteq> R" "u \<noteq> t \<Longrightarrow> held ?k \<inter> held (lc_pc c u) = {}" for u
      using ml_invD(3,4)[OF inv, of u t] pc by auto
    show "held ?k \<subseteq> own_of (lc_log c)" "held (lc_pc c u) \<subseteq> own_of (lc_log c)" for u
      using ml_invD(5)[OF inv, of t] ml_invD(5)[OF inv, of u] pc by auto
    show "exact_at ?s' L' (lc_log c) a" if "a \<noteq> NULL" "a \<in> {p} - {NULL}" "a \<notin> R" for a
      using that ex by (auto simp: exact_at_def)
    show "pc_ok R ?s' L' (lc_log c) ?k" using ex s'(7) by simp
  qed (use s'(2,3,8,9) sz pid t pc in auto)
  then show ?thesis using run by blast
qed

lemma step_showing_ok:
  assumes inv: "ml_inv R c L" and pc: "lc_pc c t = Showing p info"
  shows "ml_do h (Continue t e) c = None \<longrightarrow> p = NULL \<or> p \<in> R"
    and "ml_do h (Continue t e) c = Some c' \<Longrightarrow> ml_inv R c' L"
proof -
  let ?s = "lc_st c"
  have t: "t < MEM_LEAKS_MAX_THREADS" using ml_invD(7)[OF inv, of t] pc by simp
  have pcok: "p \<noteq> NULL \<Longrightarrow> p \<notin> R \<Longrightarrow> exact_at ?s L (lc_log c) p \<and> rec_at ?s L p info"
    using ml_invD(6)[OF inv, of t] pc by simp
  show "ml_do h (Continue t e) c = None \<longrightarrow> p = NULL \<or> p \<in> R"
  proof (intro impI, rule ccontr)
    assume n: "ml_do h (Continue t e) c = None" "\<not> (p = NULL \<or> p \<in> R)"
    then obtain x where "mem_alloc_info_show info ?s = Some (?s\<lparr>ml_shown := ml_shown ?s @ x\<rparr>)"
      using pcok mem_alloc_info_show_ok[OF ml_invD(1,2)[OF inv], of p info] by blast
    then show False using n(1) pc t by (simp add: set_pid_def)
  qed
  assume "ml_do h (Continue t e) c = Some c'"
  then obtain x where c': "c' = c\<lparr>lc_st := ?s\<lparr>ml_shown := ml_shown ?s @ x, pids := (pids ?s)(t := 1)\<rparr>,
      lc_pc := (lc_pc c)(t := Idle), lc_log := lc_log c\<rparr>"
    using pc t by (auto simp: set_pid_def bind_eq_Some_iff dest!: mem_alloc_info_show_frame)
  show "ml_inv R c' L"
    unfolding c'
  proof (rule ml_inv_step[OF inv, where A = "{p} - {NULL}"])
    show "u \<noteq> t \<Longrightarrow> ({p} - {NULL}) \<inter> busy (lc_pc c u) \<subseteq> R" for u
      using ml_invD(3)[OF inv, of u t] pc by simp
  qed (use ml_invD(1,2,5)[OF inv] pcok pc in \<open>auto simp: exact_at_def\<close>)
qed

lemma step_freeing_ok:
  assumes inv: "ml_inv R c L" and pc: "lc_pc c t = Freeing p"
  shows "\<exists>c' L'. ml_do h (Continue t e) c = Some c' \<and> ml_inv R c' L'"
proof -
  let ?s = "lc_st c" let ?g = "lc_log c @ [Gave p]"
  note h0 = ml_invD(2)[OF inv]
  have pcok: "p \<noteq> NULL \<Longrightarrow> p \<notin> R \<Longrightarrow> sizes ?s L p = []" and own: "p \<noteq> NULL \<Longrightarrow> p \<in> own_of (lc_log c)"
    using ml_invD(6)[OF inv, of t] ml_invD(5)[OF inv, of t] pc by auto
  have nul: "NULL \<notin> own_of (lc_log c)"
    using h0 by (simp add: heap_rep_def)
  obtain H where H: "libc_free p ?s = Some (?s\<lparr>ml_heap := H\<rparr>)" "heap_rep (?s\<lparr>ml_heap := H\<rparr>) L (own_of ?g)"
  proof (cases "p = NULL")
    case True
    then show ?thesis using that[of "ml_heap ?s"] h0 nul by (simp add: libc_free_def)
  next
    case False
    then show ?thesis using that[of "ml_heap ?s - {p}"] heap_rep_free[OF h0] own by simp
  qed
  have run: "ml_do h (Continue t e) c = Some (c\<lparr>lc_st := ?s\<lparr>ml_heap := H\<rparr>, lc_pc := (lc_pc c)(t := Idle), lc_log := ?g\<rparr>)"
    using pc H(1) by simp
  have "ml_inv R (c\<lparr>lc_st := ?s\<lparr>ml_heap := H\<rparr>, lc_pc := (lc_pc c)(t := Idle), lc_log := ?g\<rparr>) L"
  proof (rule ml_inv_step[OF inv, where A = "{p} - {NULL}"])
    show "u \<noteq> t \<Longrightarrow> ({p} - {NULL}) \<inter> busy (lc_pc c u) \<subseteq> R" for u
      using ml_invD(3)[OF inv, of u t] pc by simp
    show "held (lc_pc c u) \<subseteq> own_of ?g" if "u \<noteq> t" for u
      using ml_invD(4)[OF inv that] ml_invD(5)[OF inv, of u] pc held_busy[of "lc_pc c u"] busy_not_null by fastforce
    show "exact_at (?s\<lparr>ml_heap := H\<rparr>) L ?g a" if "a \<noteq> NULL" "a \<in> {p} - {NULL}" "a \<notin> R" "a \<notin> busy Idle" for a
      using that pcok by (simp add: exact_at_def)
    show "t < MEM_LEAKS_MAX_THREADS \<Longrightarrow> pids (?s\<lparr>ml_heap := H\<rparr>) t = (if will_record Idle then 0 else 1)"
      using ml_invD(8)[OF inv, of t] pc by simp
  qed (use ml_invD(1)[OF inv] H(2) pc in auto)
  then show ?thesis using run by blast
qed

lemma step_forgetting_ok:
  assumes inv: "ml_inv R c L" and pc: "lc_pc c t = Forgetting old new z r"
  shows "\<exists>c' L'. ml_do h (Continue t e) c = Some c' \<and> ml_inv R c' L'"
proof -
  let ?s = "lc_st c" let ?g = "lc_log c" let ?k = "if r then Recording new z False else Idle"
  have ok: "pc_ok R ?s L ?g (Forgetting old new z r)"
    using ml_invD(6)[OF inv, of t] pc by simp
  obtain s' L' where s': "mem_alloc_info_del old ?s = Some s'" "table_rep s' L'" "heap_rep s' L' (own_of ?g)"
      "tab_frame ?s s'" "\<forall>a. recs s' L' a = (if a = old then drop 1 (recs ?s L a) else recs ?s L a)"
      "\<forall>a info. a \<noteq> old \<longrightarrow> rec_at ?s L a info \<longrightarrow> rec_at s' L' a info"
    using mem_alloc_info_del_ok[OF ml_invD(1,2)[OF inv]] by blast
  have sz: "sizes s' L' a = (if a = old then drop 1 (sizes ?s L a) else sizes ?s L a)" for a
    using s'(5) by (simp add: sizes_def drop_map)
  have run: "ml_do h (Continue t e) c = Some (c\<lparr>lc_st := s', lc_pc := (lc_pc c)(t := ?k), lc_log := ?g\<rparr>)"
    using pc s'(1) by simp
  have empty: "old \<noteq> NULL \<Longrightarrow> old \<notin> R \<Longrightarrow> sizes s' L' old = []" "new \<notin> R \<Longrightarrow> sizes s' L' new = []"
    using ok sz by (auto split: if_splits)
  have "ml_inv R (c\<lparr>lc_st := s', lc_pc := (lc_pc c)(t := ?k), lc_log := ?g\<rparr>) L'"
  proof (rule ml_inv_step[OF inv s'(2,3), where A = "{old, new} - {NULL}"])
    show "u \<noteq> t \<Longrightarrow> ({old, new} - {NULL}) \<inter> busy (lc_pc c u) \<subseteq> R" "u \<noteq> t \<Longrightarrow> held ?k \<inter> held (lc_pc c u) = {}" for u
      using ml_invD(3,4)[OF inv, of u t] pc by auto
    show "held ?k \<subseteq> own_of ?g" "held (lc_pc c u) \<subseteq> own_of ?g" for u
      using ml_invD(5)[OF inv, of t] ml_invD(5)[OF inv, of u] pc by auto
    show "exact_at s' L' ?g a" if "a \<noteq> NULL" "a \<in> {old, new} - {NULL}" "a \<notin> R" "a \<notin> busy ?k" for a
      using that ok empty rec_of_own[of old ?g] by (auto simp: exact_at_def split: if_splits)
    show "t < MEM_LEAKS_MAX_THREADS \<Longrightarrow> pids s' t = (if will_record ?k then 0 else 1)"
      using ml_invD(8)[OF inv, of t] pc s'(4) by (simp add: tab_frame_def)
    show "will_record ?k \<Longrightarrow> t < MEM_LEAKS_MAX_THREADS"
      using ml_invD(7)[OF inv, of t] pc by (simp split: if_splits)
  qed (use sz s'(4,6) ok empty pc in \<open>auto simp: tab_frame_def\<close>)
  then show ?thesis using run by blast
qed

lemma ml_inv_switch: "ml_inv R c L \<Longrightarrow> ml_inv R (c\<lparr>lc_st := lc_st c\<lparr>mem_check := b\<rparr>\<rparr>) L"
proof -
  have "pc_ok R (s\<lparr>mem_check := b\<rparr>) L g k = pc_ok R s L g k" for s g k
    by (cases k) (simp_all add: exact_at_def)
  then show "ml_inv R c L \<Longrightarrow> ?thesis"
    by (simp add: ml_inv_def unclaimed_def exact_at_def)
qed

text \<open>A step faults only when it shows a record that another thread has removed.\<close>

definition show_fault :: "addr set \<Rightarrow> ml_action \<Rightarrow> ml_cfg \<Rightarrow> bool" where
  "show_fault R a c \<longleftrightarrow> (\<exists>t e p info. a = Continue t e \<and> lc_pc c t = Showing p info \<and> (p = NULL \<or> p \<in> R))"

lemma ml_step_ok:
  assumes inv: "ml_inv R c L" and ok: "ml_allowed a c" and d: "disturbs a c \<subseteq> R"
  shows "(\<exists>c' L'. ml_do h a c = Some c' \<and> ml_inv R c' L') \<or> ml_do h a c = None \<and> show_fault R a c"
proof (cases a)
  case (CallAlloc t sh p z)
  then show ?thesis using step_alloc_ok[OF inv] ok d by blast
next
  case (CallRealloc t old new z)
  show ?thesis
  proof (cases "new = NULL")
    case True
    then show ?thesis using step_realloc_failed[OF inv, of t old z] ok d CallRealloc by (auto split: if_splits)
  next
    case False
    then show ?thesis using step_realloc_moved[OF inv, of t old new z] ok d CallRealloc by blast
  qed
next
  case (CallFree t p)
  then show ?thesis using step_free_ok[OF inv] ok by blast
next
  case (Continue t e)
  show ?thesis
  proof (cases "lc_pc c t")
    case Idle
    then show ?thesis using inv Continue by (auto simp: fun_upd_idem)
  next
    case (Recording p z sh)
    then show ?thesis using step_recording_ok[OF inv] ok Continue by auto
  next
    case (Showing p info)
    note sh = step_showing_ok[OF inv Showing]
    show ?thesis
    proof (cases "ml_do h a c")
      case None
      then show ?thesis using sh(1)[of h e] Showing unfolding show_fault_def Continue by blast
    next
      case (Some c')
      then show ?thesis using sh(2)[of h e c'] Continue by blast
    qed
  next
    case (Freeing p)
    then show ?thesis using step_freeing_ok[OF inv] Continue by auto
  next
    case (Forgetting old new z r)
    then show ?thesis using step_forgetting_ok[OF inv] Continue by auto
  qed
qed (use ml_inv_switch[OF inv] ml_invD(10)[OF inv] in \<open>auto simp: mem_leaks_start_def mem_leaks_stop_def\<close>)

lemma ml_run_ok:
  "ml_inv R c L \<Longrightarrow> ml_legal h acts c \<Longrightarrow> disturbed h acts c \<subseteq> R \<Longrightarrow>
     (\<exists>c' L'. foldM (ml_do h) acts c = Some c' \<and> ml_inv R c' L') \<or>
     foldM (ml_do h) acts c = None \<and>
       (\<exists>pre a post c'. acts = pre @ a # post \<and> foldM (ml_do h) pre c = Some c' \<and> ml_do h a c' = None \<and>
          show_fault R a c')"
proof (induction acts arbitrary: c L)
  case (Cons a as)
  have d: "disturbs a c \<subseteq> R" and ok: "ml_allowed a c" using Cons.prems by auto
  from ml_step_ok[OF Cons.prems(1) ok d, of h] show ?case
  proof (elim disjE exE conjE)
    fix c1 L1 assume s: "ml_do h a c = Some c1" "ml_inv R c1 L1"
    have "ml_legal h as c1" "disturbed h as c1 \<subseteq> R" using Cons.prems s(1) by auto
    from Cons.IH[OF s(2) this] show ?thesis
    proof (elim disjE exE conjE)
      fix pre b post c' assume n: "foldM (ml_do h) as c1 = None" "as = pre @ b # post"
        "foldM (ml_do h) pre c1 = Some c'" "ml_do h b c' = None" "show_fault R b c'"
      then show ?thesis
        using s(1) by (intro disjI2 conjI exI[of _ "a # pre"] exI[of _ b] exI[of _ post] exI[of _ c']) simp_all
    qed (use s(1) in auto)
  next
    assume "ml_do h a c = None" "show_fault R a c"
    then show ?thesis
      by (intro disjI2 conjI exI[of _ "[]"] exI[of _ a] exI[of _ as] exI[of _ c]) simp_all
  qed
qed auto

lemma ml_inv_boot:
  assumes "h \<noteq> NULL" shows "ml_inv R (ml_cfg0 (boot_table h)) (\<lambda>_. [])"
  using boot_table_rep[OF assms]
  by (simp add: ml_inv_def ml_cfg0_def exact_at_def sizes_def recs_def boot_table_def)

section \<open>Properties\<close>


definition leaks_env :: "addr \<Rightarrow> addr \<Rightarrow> call_env" where
  "leaks_env st info = \<lparr>ce_stk = [0x7000 \<mapsto> 0x7100, 0x7008 \<mapsto> 0x401000, 0x7100 \<mapsto> 0x7100], ce_ebp = 0x7000,
     ce_trace = st, ce_info = info\<rparr>"

text \<open>The first thread gets a block and moves it; the second one meanwhile gives back the null pointer.\<close>

definition sample_acts :: "ml_action list" where
  "sample_acts = [Start, CallAlloc 1 False 0x200000 24, Continue 1 (leaks_env 0x210000 0x220000),
     CallRealloc 1 0x200000 0x400000 48, CallFree 2 NULL, Continue 1 (leaks_env 0x310000 0x320000),
     Continue 2 (leaks_env 0x310000 0x320000), Continue 1 (leaks_env 0x310000 0x320000)]"

lemmas ml_defs = alloc_enter_def pid_flag_def set_pid_def libc_new_def record_block_def backtrace_symbols_def
  my_backtrace_def MAX_STACKTRACE_def mem_alloc_info_add_def mem_alloc_info_alloc_def hash_lock_def mem_hash_add_def
  int_inc_def int_dec_def mem_alloc_info_show_def mem_alloc_info_del_def mem_hash_lookup_def mem_hash_del_def
  mem_alloc_info_free_def libc_free_def free_enter_def realloc_enter_def libc_realloc_def mem_once_def
  mem_leaks_start_def mem_leaks_stop_def bucket_lookup.simps
  bucket_addr_def mem_hash_key_def MEM_HASH_SIZE_def in_buckets_def
  STLC_INIT_HLIST_HEAD_def set_cell_def set_pprev_def stlc_hlist_add_head_def stlc_hlist_del_def stlc_hlist_unlink_def
  MEM_LEAKS_MAX_THREADS_def

lemma walk_stop: "walk_frames stk n ebp 0 = Some []"
  by (cases n) simp_all

lemma sample_frames: "walk_frames [0x7000 \<mapsto> 0x7100, 0x7008 \<mapsto> 0x401000, 0x7100 \<mapsto> 0x7100] 10 0x7000 0x100 = Some [0x401000]"
proof -
  have "10 = Suc 9" by simp
  then show ?thesis by (simp only: walk_frames.simps) (simp add: walk_stop)
qed

lemma sample_legal: "ml_legal 0x1000 sample_acts (ml_cfg0 (boot_table 0x1000))"
  by (simp add: sample_acts_def ml_cfg0_def boot_table_def ml_boot_def ml_defs leaks_env_def sample_frames Let_def
      ml_env_ok_def fresh_def usable_def domIff own_of_def rec_of_def)

lemma sample_run:
  "\<exists>c. foldM (ml_do 0x1000) sample_acts (ml_cfg0 (boot_table 0x1000)) = Some c \<and> (\<forall>t. lc_pc c t = Idle) \<and>
     rec_of (lc_log c) 0x200000 = None \<and> rec_of (lc_log c) 0x400000 = Some 48"
  by (simp add: sample_acts_def ml_cfg0_def boot_table_def ml_boot_def ml_defs leaks_env_def sample_frames Let_def
      domIff own_of_def rec_of_def)

lemma sample_disturbed: "disturbed 0x1000 sample_acts (ml_cfg0 (boot_table 0x1000)) = {}"
  by (simp add: sample_acts_def ml_cfg0_def boot_table_def ml_boot_def ml_defs leaks_env_def sample_frames Let_def
      domIff forgetting_def)


section \<open>What goes wrong at disturbed addresses\<close>

text \<open>A thread moves a block by \<open>realloc\<close>; before it has removed the record of the old address another thread gets
  that address and records it; the first thread then removes the record of the second.  No call is in progress any
  more and the block is in use, but the table does not have it.\<close>

definition race_acts :: "ml_action list" where
  "race_acts = [CallAlloc 1 True 0x200000 24, CallRealloc 1 0x200000 0x300000 48, Start, CallAlloc 2 True 0x200000 16,
     Continue 2 (leaks_env 0x310000 0x320000)]"

lemmas race_defs = race_acts_def ml_cfg0_def boot_table_def ml_boot_def ml_defs leaks_env_def sample_frames Let_def
  domIff own_of_def rec_of_def

lemma race_legal:
  "ml_legal 0x1000 (race_acts @ [Continue 2 (leaks_env 0x330000 0x340000), Continue 1 (leaks_env 0x330000 0x340000)])
     (ml_cfg0 (boot_table 0x1000))"
  "ml_legal 0x1000 (race_acts @ [Continue 1 (leaks_env 0x330000 0x340000), Continue 2 (leaks_env 0x330000 0x340000)])
     (ml_cfg0 (boot_table 0x1000))"
  by (simp_all add: race_defs ml_env_ok_def fresh_def usable_def)

theorem realloc_race_loses_record:
  "let acts = race_acts @ [Continue 2 (leaks_env 0x330000 0x340000), Continue 1 (leaks_env 0x330000 0x340000)] in
     ml_legal 0x1000 acts (ml_cfg0 (boot_table 0x1000)) \<and>
     (\<exists>c. foldM (ml_do 0x1000) acts (ml_cfg0 (boot_table 0x1000)) = Some c \<and> (\<forall>t. lc_pc c t = Idle) \<and>
       0x200000 \<in> own_of (lc_log c) \<and> rec_of (lc_log c) 0x200000 = Some 16 \<and>
       mem_hash_lookup 0x200000 (lc_st c) = Some NULL)"
  using race_legal(1) by (simp add: race_defs)

text \<open>When the first thread removes the record before the second one has shown it, the second one reads a record that
  has been freed.\<close>

theorem show_after_free:
  "let acts = race_acts @ [Continue 1 (leaks_env 0x330000 0x340000), Continue 2 (leaks_env 0x330000 0x340000)] in
     ml_legal 0x1000 acts (ml_cfg0 (boot_table 0x1000)) \<and> foldM (ml_do 0x1000) acts (ml_cfg0 (boot_table 0x1000)) = None"
  using race_legal(2) by (simp add: race_defs)

text \<open>An allocation that fails while the recording is on leaves a record of the null pointer, which no
  \<open>free\<close> removes.\<close>

theorem failed_allocation_recorded:
  assumes inv: "ml_inv R c L" and t: "lc_pc c t = Idle" "t < MEM_LEAKS_MAX_THREADS" and m: "mem_check (lc_st c)"
    and e: "ml_env_ok (lc_st c) e" "ml_total (lc_st c) < 2 ^ 31 - 1"
  shows "\<exists>c' L'. foldM (ml_do h) [CallAlloc t sh NULL z, Continue t e] c = Some c' \<and>
    own_of (lc_log c') = own_of (lc_log c) \<and> table_rep (lc_st c') L' \<and>
    sizes (lc_st c') L' NULL = ucast z # sizes (lc_st c) L NULL"
proof -
  let ?s = "(lc_st c)\<lparr>pids := (pids (lc_st c))(t := 0)\<rparr>"
  have pid: "pids (lc_st c) t = 1"
    using ml_invD(8)[OF inv t(2)] t(1) by simp
  have "ml_env_ok ?s e" "ml_total ?s < 2 ^ 31 - 1" "table_rep ?s L" "heap_rep ?s L (own_of (lc_log c))"
    using e ml_invD(1,2)[OF inv] by (simp_all add: ml_env_ok_def fresh_def)
  then obtain s' L' i where s': "record_block t e NULL z ?s = Some s'" "table_rep s' L'" "li_size i = ucast z"
      "\<forall>a. recs s' L' a = (if a = NULL then i # recs ?s L a else recs ?s L a)"
    using record_block_ok[of ?s L "own_of (lc_log c)" t e NULL z] t(2) by auto
  show ?thesis
    using s' t pid m ml_invD(10)[OF inv]
    by (cases sh) (simp_all add: alloc_enter_def pid_flag_def set_pid_def libc_new_def sizes_def exI[of _ L'])
qed

text \<open>\<open>realloc\<close> to size zero gives the block back but leaves its record.\<close>

theorem realloc_zero_keeps_record:
  assumes "table_rep s L" "p \<in> ml_heap s" "p \<noteq> NULL" "\<not> mem_check s"
  shows "\<exists>s'. realloc h t e p NULL 0 s = Some s' \<and> p \<notin> ml_heap s' \<and> table_rep s' L \<and> recs s' L p = recs s L p"
  using assms
  by (auto simp: realloc_def realloc_enter_def libc_realloc_def libc_free_def mem_once_def table_rep_def)

text \<open>A thread number beyond the array of flags makes every recorded call read outside the array.\<close>

theorem thread_number_out_of_range:
  assumes "my_key_once s" "mem_check s" "MEM_LEAKS_MAX_THREADS \<le> t"
  shows "malloc h t e p z s = None" "calloc h t e p n z s = None" "realloc h t e old p z s = None"
  using assms by (simp_all add: malloc_def calloc_def realloc_def realloc_enter_def alloc_enter_def pid_flag_def mem_once_def)

end
