(* ===== verification/Latch.thy ===== *)
theory Latch
  imports Base
begin

text \<open>
  Conditions and countdown latches (\<open>condition.c\<close>, \<open>condition.h\<close>), by which the threads of the logger and
  of the asynchronous tasks wait for each other: the memory they own, the deadline of a timed wait, and the
  waiting itself.  Waiting is cut where the code takes or gives up the mutex.  A thread that waits on the
  condition sleeps until it is notified, or wakes up for no reason, and takes the mutex again before it goes
  on; scheduling a thread that sleeps or that waits for the mutex changes nothing.
\<close>

section \<open>Memory\<close>

record condition_t =
  lock_free :: bool
  cond_lock :: addr

record countdownlatch_t =
  lcount :: int
  latch_cond :: addr

text \<open>The live mutexes are those that conditions allocated; a mutex of the caller is not among them.\<close>

record cond_mem =
  conds :: "addr \<rightharpoonup> condition_t"
  latches :: "addr \<rightharpoonup> countdownlatch_t"
  own_locks :: "addr set"

definition condition_free :: "addr \<Rightarrow> cond_mem \<Rightarrow> cond_mem option" where
  "condition_free t m =
     (if t \<noteq> NULL then do {
        c \<leftarrow> conds m t;
        m \<leftarrow> (if lock_free c
             then if cond_lock c \<in> own_locks m then Some (m\<lparr>own_locks := own_locks m - {cond_lock c}\<rparr>) else None
             else Some m);
        Some (m\<lparr>conds := (conds m)(t := None)\<rparr>) }
      else Some m)"

text \<open>\<open>t\<close> and \<open>l\<close> are the results of \<open>calloc\<close>.\<close>

definition condition_init :: "addr \<Rightarrow> addr \<Rightarrow> addr \<Rightarrow> cond_mem \<Rightarrow> addr \<times> cond_mem" where
  "condition_init lock t l m =
     (if t = NULL then (NULL, m)
      else if lock \<noteq> NULL then (t, m\<lparr>conds := (conds m)(t \<mapsto> \<lparr>lock_free = False, cond_lock = lock\<rparr>)\<rparr>)
      else if l = NULL then (NULL, m)
      else (t, m\<lparr>conds := (conds m)(t \<mapsto> \<lparr>lock_free = True, cond_lock = l\<rparr>), own_locks := insert l (own_locks m)\<rparr>))"

definition condition_getLock :: "addr \<Rightarrow> cond_mem \<Rightarrow> addr option" where
  "condition_getLock t m = map_option cond_lock (conds m t)"

definition countdownlatch_free :: "addr \<Rightarrow> cond_mem \<Rightarrow> cond_mem option" where
  "countdownlatch_free t m =
     (if t \<noteq> NULL then do {
        l \<leftarrow> latches m t;
        m \<leftarrow> (if latch_cond l \<noteq> NULL then condition_free (latch_cond l) m else Some m);
        Some (m\<lparr>latches := (latches m)(t := None)\<rparr>) }
      else Some m)"

definition countdownlatch_init :: "addr \<Rightarrow> int \<Rightarrow> addr \<Rightarrow> addr \<Rightarrow> addr \<Rightarrow> cond_mem \<Rightarrow> addr \<times> cond_mem" where
  "countdownlatch_init lock n t c l m =
     (if t \<noteq> NULL
      then let (cnd, m) = condition_init lock c l m
           in (t, m\<lparr>latches := (latches m)(t \<mapsto> \<lparr>lcount = n, latch_cond = cnd\<rparr>)\<rparr>)
      else (t, m))"

section \<open>The deadline of a timed wait\<close>

text \<open>\<open>/\<close> and \<open>%\<close> of C truncate towards zero.\<close>

definition cdiv :: "int \<Rightarrow> int \<Rightarrow> int" where
  "cdiv a b = (if (a < 0) = (b < 0) then \<bar>a\<bar> div \<bar>b\<bar> else - (\<bar>a\<bar> div \<bar>b\<bar>))"

definition int64 :: "int \<Rightarrow> int option" where
  "int64 x = (if - (2 ^ 63) \<le> x \<and> x < 2 ^ 63 then Some x else None)"

text \<open>\<open>sec\<close> and \<open>nsec\<close> are the time of \<open>clock_gettime\<close>, \<open>ns\<close> is \<open>seconds\<close> in nanoseconds, converted from
  \<open>double\<close>; a sum that overflows is a fault.\<close>

definition wait_deadline :: "int \<Rightarrow> int \<Rightarrow> int \<Rightarrow> (int \<times> int) option" where
  "wait_deadline sec nsec ns = do {
     a \<leftarrow> int64 (nsec + ns);
     sec' \<leftarrow> int64 (sec + cdiv a 1000000000);
     b \<leftarrow> int64 (nsec + ns);
     Some (sec', b - 1000000000 * cdiv b 1000000000) }"

section \<open>Waiting and counting down\<close>

text \<open>Where a thread is: before it takes the mutex for \<open>countdownlatch_wait\<close>, holding it before the test of the
  loop, asleep, woken up, or done; and before or after its \<open>countdownlatch_countdown\<close>.\<close>

datatype latch_pc = WLock | WTest | WSleep | WWoken | WDone | CLock | CDone

record latch_sys =
  ls_mem :: cond_mem
  ls_owner :: "addr \<rightharpoonup> nat"
  ls_pc :: "nat \<Rightarrow> latch_pc"

definition latch_lock :: "addr \<Rightarrow> latch_sys \<Rightarrow> addr option" where
  "latch_lock a s = do { l \<leftarrow> latches (ls_mem s) a; condition_getLock (latch_cond l) (ls_mem s) }"

text \<open>\<open>countdownlatch_wait\<close>: taking the mutex, and the test of the loop, which sleeps and gives up the mutex or
  leaves.\<close>

definition latch_take :: "addr \<Rightarrow> nat \<Rightarrow> latch_sys \<Rightarrow> latch_sys option" where
  "latch_take a t s = do {
     k \<leftarrow> latch_lock a s;
     if ls_owner s k = None
     then Some (s\<lparr>ls_owner := (ls_owner s)(k \<mapsto> t), ls_pc := (ls_pc s)(t := WTest)\<rparr>)
     else Some s }"

definition latch_test :: "addr \<Rightarrow> nat \<Rightarrow> latch_sys \<Rightarrow> latch_sys option" where
  "latch_test a t s = do {
     k \<leftarrow> latch_lock a s;
     l \<leftarrow> latches (ls_mem s) a;
     Some (s\<lparr>ls_owner := (ls_owner s)(k := None),
       ls_pc := (ls_pc s)(t := if lcount l > 0 then WSleep else WDone)\<rparr>) }"

text \<open>\<open>condition_notifyAll\<close>.\<close>

definition wake_all :: "(nat \<Rightarrow> latch_pc) \<Rightarrow> nat \<Rightarrow> latch_pc" where
  "wake_all pc u = (if pc u = WSleep then WWoken else pc u)"

definition countdownlatch_countdown :: "addr \<Rightarrow> nat \<Rightarrow> latch_sys \<Rightarrow> latch_sys option" where
  "countdownlatch_countdown a t s = do {
     k \<leftarrow> latch_lock a s;
     if ls_owner s k = None
     then do {
       l \<leftarrow> latches (ls_mem s) a;
       let n = lcount l - 1;
       Some (s\<lparr>ls_mem := (ls_mem s)\<lparr>latches := (latches (ls_mem s))(a \<mapsto> l\<lparr>lcount := n\<rparr>)\<rparr>,
         ls_pc := (if n = 0 then wake_all (ls_pc s) else ls_pc s)(t := CDone)\<rparr>) }
     else Some s }"

datatype latch_act = Run nat | Spurious nat

fun latch_step :: "addr \<Rightarrow> latch_act \<Rightarrow> latch_sys \<Rightarrow> latch_sys option" where
  "latch_step a (Run t) s =
     (case ls_pc s t of
        WLock \<Rightarrow> latch_take a t s
      | WWoken \<Rightarrow> latch_take a t s
      | WTest \<Rightarrow> latch_test a t s
      | CLock \<Rightarrow> countdownlatch_countdown a t s
      | _ \<Rightarrow> Some s)"
| "latch_step a (Spurious t) s =
     Some (if ls_pc s t = WSleep then s\<lparr>ls_pc := (ls_pc s)(t := WWoken)\<rparr> else s)"

fun act_thread :: "latch_act \<Rightarrow> nat" where
  "act_thread (Run t) = t"
| "act_thread (Spurious t) = t"

text \<open>The start: \<open>waiters\<close> and \<open>counters\<close> of \<open>n\<close> threads, the mutex free.\<close>

definition latch_start :: "cond_mem \<Rightarrow> (nat \<Rightarrow> bool) \<Rightarrow> latch_sys" where
  "latch_start m cnt = \<lparr>ls_mem = m, ls_owner = Map.empty, ls_pc = (\<lambda>t. if cnt t then CLock else WLock)\<rparr>"

section \<open>The deadline\<close>

lemma cdiv_nonneg: "0 \<le> a \<Longrightarrow> 0 < b \<Longrightarrow> cdiv a b = a div b"
  by (simp add: cdiv_def)

text \<open>A timed wait for a time that is not negative has a normal deadline, exactly that much after the present
  time.\<close>

theorem wait_deadline_exact:
  assumes "0 \<le> nsec" "nsec < 1000000000" "0 \<le> ns" "ns < 2 ^ 62" "0 \<le> sec" "sec < 2 ^ 62"
  shows "\<exists>s' n'. wait_deadline sec nsec ns = Some (s', n') \<and> 0 \<le> n' \<and> n' < 1000000000 \<and>
    s' * 1000000000 + n' = sec * 1000000000 + nsec + ns"
proof -
  let ?a = "nsec + ns"
  have a: "0 \<le> ?a" "?a < 2 ^ 63" using assms by auto
  have d: "0 \<le> ?a div 1000000000" "?a div 1000000000 < 2 ^ 62"
    using a by auto
  have "wait_deadline sec nsec ns = Some (sec + ?a div 1000000000, ?a mod 1000000000)"
    using a d assms(5,6)
    by (simp add: wait_deadline_def int64_def cdiv_nonneg minus_mult_div_eq_mod)
  moreover have "(sec + ?a div 1000000000) * 1000000000 + ?a mod 1000000000 = sec * 1000000000 + nsec + ns"
    by (simp add: distrib_right)
  ultimately show ?thesis by simp
qed

theorem wait_deadline_exact_witness:
  "\<exists>s' n'. wait_deadline 100 900000000 2500000000 = Some (s', n') \<and> 0 \<le> n' \<and> n' < 1000000000 \<and>
    s' * 1000000000 + n' = 100 * 1000000000 + 900000000 + 2500000000"
  by (rule wait_deadline_exact) simp_all

section \<open>Memory\<close>

text \<open>Setting up a latch and tearing it down again leaves the memory as it was: the latch, its condition and a
  mutex of its own are given back, and a mutex of the caller is left alone; so is everything when an allocation
  fails.\<close>

theorem countdownlatch_init_free:
  assumes "latches m t = None" "conds m c = None" "l \<notin> own_locks m"
  shows "countdownlatch_free (fst (countdownlatch_init lock n t c l m)) (snd (countdownlatch_init lock n t c l m)) = Some m"
  using assms
  by (simp add: countdownlatch_init_def countdownlatch_free_def condition_init_def condition_free_def fun_upd_idem)

theorem countdownlatch_init_free_witness:
  "countdownlatch_free (fst (countdownlatch_init NULL 1 8 16 24 \<lparr>conds = Map.empty, latches = Map.empty, own_locks = {}\<rparr>))
     (snd (countdownlatch_init NULL 1 8 16 24 \<lparr>conds = Map.empty, latches = Map.empty, own_locks = {}\<rparr>)) =
   Some \<lparr>conds = Map.empty, latches = Map.empty, own_locks = {}\<rparr>"
  by (rule countdownlatch_init_free) simp_all

section \<open>Waiting\<close>

definition counted :: "nat \<Rightarrow> (nat \<Rightarrow> latch_pc) \<Rightarrow> nat" where
  "counted n pc = card {t. t < n \<and> pc t = CDone}"

text \<open>The invariant for the latch \<open>a\<close> with mutex \<open>k\<close>, \<open>n\<close> threads and the first count \<open>c0\<close>.\<close>

definition latch_inv :: "addr \<Rightarrow> addr \<Rightarrow> nat \<Rightarrow> (nat \<Rightarrow> bool) \<Rightarrow> int \<Rightarrow> latch_sys \<Rightarrow> bool" where
  "latch_inv a k n cnt c0 s \<longleftrightarrow>
     (\<exists>l. latches (ls_mem s) a = Some l \<and> latch_lock a s = Some k \<and> lcount l = c0 - int (counted n (ls_pc s)) \<and>
        (\<forall>t < n. ls_pc s t = WDone \<longrightarrow> lcount l \<le> 0) \<and> (\<forall>t < n. lcount l \<le> 0 \<longrightarrow> ls_pc s t \<noteq> WSleep)) \<and>
     (\<forall>t < n. ls_owner s k = Some t \<longleftrightarrow> ls_pc s t = WTest) \<and>
     (\<forall>t. ls_owner s k = Some t \<longrightarrow> t < n) \<and>
     (\<forall>t < n. cnt t \<longleftrightarrow> ls_pc s t = CLock \<or> ls_pc s t = CDone)"

lemma counted_same:
  assumes "\<And>t. t < n \<Longrightarrow> pc' t = CDone \<longleftrightarrow> pc t = CDone"
  shows "counted n pc' = counted n pc"
  unfolding counted_def using assms by (intro arg_cong[of _ _ card]) auto

lemma counted_Suc:
  assumes "t < n" "pc t \<noteq> CDone" "\<And>u. u \<noteq> t \<Longrightarrow> pc' u = CDone \<longleftrightarrow> pc u = CDone" "pc' t = CDone"
  shows "counted n pc' = Suc (counted n pc)"
proof -
  have "{u. u < n \<and> pc' u = CDone} = insert t {u. u < n \<and> pc u = CDone}"
    using assms by (auto split: if_splits) metis+
  then show ?thesis using assms(2) by (simp add: counted_def)
qed

lemma latch_lock_simps [simp]:
  "latch_lock a (s\<lparr>ls_owner := X\<rparr>) = latch_lock a s" "latch_lock a (s\<lparr>ls_pc := Y\<rparr>) = latch_lock a s"
  by (simp_all add: latch_lock_def)

lemma latch_lock_count:
  "latches (ls_mem s) a = Some l \<Longrightarrow>
   latch_lock a (s\<lparr>ls_mem := (ls_mem s)\<lparr>latches := (latches (ls_mem s))(a \<mapsto> l\<lparr>lcount := n\<rparr>)\<rparr>\<rparr>) = latch_lock a s"
  by (simp add: latch_lock_def condition_getLock_def)

text \<open>The cases of a step.\<close>

lemma latch_take_inv:
  assumes inv: "latch_inv a k n cnt c0 s" and t: "t < n" "ls_pc s t = WLock \<or> ls_pc s t = WWoken"
  shows "\<exists>s'. latch_take a t s = Some s' \<and> latch_inv a k n cnt c0 s' \<and>
    (ls_owner s k = None \<longrightarrow> ls_pc s' = (ls_pc s)(t := WTest)) \<and> (ls_owner s k \<noteq> None \<longrightarrow> s' = s)"
proof (cases "ls_owner s k")
  case None
  let ?pc = "(ls_pc s)(t := WTest)"
  have c: "counted n ?pc = counted n (ls_pc s)"
    using t by (intro counted_same) auto
  have "latch_inv a k n cnt c0 (s\<lparr>ls_owner := (ls_owner s)(k \<mapsto> t), ls_pc := ?pc\<rparr>)"
    using inv t None unfolding latch_inv_def by (auto simp: c)
  then show ?thesis
    using inv None by (auto simp: latch_take_def latch_inv_def)
next
  case (Some u)
  then show ?thesis
    using inv by (auto simp: latch_take_def latch_inv_def)
qed

lemma latch_test_inv:
  assumes inv: "latch_inv a k n cnt c0 s" and t: "t < n" "ls_pc s t = WTest"
  shows "\<exists>s' x. latch_test a t s = Some s' \<and> latch_inv a k n cnt c0 s' \<and> ls_pc s' = (ls_pc s)(t := x) \<and> x \<in> {WSleep, WDone}"
proof -
  obtain l where l: "latches (ls_mem s) a = Some l" "latch_lock a s = Some k"
    using inv by (auto simp: latch_inv_def)
  let ?x = "if lcount l > 0 then WSleep else WDone"
  let ?pc = "(ls_pc s)(t := ?x)"
  have c: "counted n ?pc = counted n (ls_pc s)"
    using t by (intro counted_same) auto
  have w: "\<forall>u < n. ls_owner s k = Some u \<longleftrightarrow> ls_pc s u = WTest"
    using inv by (auto simp: latch_inv_def)
  then have o: "ls_owner s k = Some t" using t by blast
  then have only: "u < n \<Longrightarrow> ls_pc s u = WTest \<Longrightarrow> u = t" for u
    using w by (metis option.inject)
  have "latch_inv a k n cnt c0 (s\<lparr>ls_owner := (ls_owner s)(k := None), ls_pc := ?pc\<rparr>)"
  proof -
    have "\<forall>u < n. ?pc u = WDone \<longrightarrow> lcount l \<le> 0" "\<forall>u < n. lcount l \<le> 0 \<longrightarrow> ?pc u \<noteq> WSleep"
        "\<forall>u < n. cnt u \<longleftrightarrow> ?pc u = CLock \<or> ?pc u = CDone"
      using inv l(1) t by (auto simp: latch_inv_def)
    moreover have "\<forall>u < n. ?pc u \<noteq> WTest"
      using only by auto
    moreover have "lcount l = c0 - int (counted n ?pc)"
      using inv l(1) c by (auto simp: latch_inv_def)
    ultimately show ?thesis
      using l by (simp add: latch_inv_def)
  qed
  then show ?thesis
    using l by (intro exI[of _ "s\<lparr>ls_owner := (ls_owner s)(k := None), ls_pc := ?pc\<rparr>"] exI[of _ ?x])
      (auto simp: latch_test_def)
qed

lemma countdown_inv:
  assumes inv: "latch_inv a k n cnt c0 s" and t: "t < n" "ls_pc s t = CLock"
  shows "\<exists>s'. countdownlatch_countdown a t s = Some s' \<and> latch_inv a k n cnt c0 s' \<and>
    (ls_owner s k = None \<longrightarrow> ls_pc s' t = CDone \<and>
       (ls_pc s' = (ls_pc s)(t := CDone) \<or> ls_pc s' = (wake_all (ls_pc s))(t := CDone))) \<and>
    (ls_owner s k \<noteq> None \<longrightarrow> s' = s)"
proof (cases "ls_owner s k")
  case None
  obtain l where l: "latches (ls_mem s) a = Some l" "latch_lock a s = Some k"
      "lcount l = c0 - int (counted n (ls_pc s))"
    using inv by (auto simp: latch_inv_def)
  let ?n = "lcount l - 1"
  let ?pc = "(if ?n = 0 then wake_all (ls_pc s) else ls_pc s)(t := CDone)"
  let ?s = "s\<lparr>ls_mem := (ls_mem s)\<lparr>latches := (latches (ls_mem s))(a \<mapsto> l\<lparr>lcount := ?n\<rparr>)\<rparr>, ls_pc := ?pc\<rparr>"
  have c: "counted n ?pc = Suc (counted n (ls_pc s))"
    using t by (intro counted_Suc[of t]) (auto simp: wake_all_def)
  have run: "countdownlatch_countdown a t s = Some ?s"
    using None l by (simp add: countdownlatch_countdown_def Let_def)
  have "latch_lock a ?s = Some k"
    using latch_lock_count[OF l(1), of ?n] l(2) by (simp add: latch_lock_def)
  moreover have "\<forall>u < n. ?pc u = WDone \<longrightarrow> ?n \<le> 0" "\<forall>u < n. ?n \<le> 0 \<longrightarrow> ?pc u \<noteq> WSleep"
      "\<forall>u < n. ls_owner s k = Some u \<longleftrightarrow> ?pc u = WTest" "\<forall>u < n. cnt u \<longleftrightarrow> ?pc u = CLock \<or> ?pc u = CDone"
    using inv l(1) t by (auto simp: latch_inv_def wake_all_def)
  ultimately have "latch_inv a k n cnt c0 ?s"
    using None l(3) c unfolding latch_inv_def by auto
  then show ?thesis
    using run None by auto
next
  case (Some u)
  then show ?thesis
    using inv by (auto simp: countdownlatch_countdown_def latch_inv_def)
qed

lemma latch_step_inv:
  assumes inv: "latch_inv a k n cnt c0 s" and t: "act_thread x < n"
  shows "\<exists>s'. latch_step a x s = Some s' \<and> latch_inv a k n cnt c0 s'"
proof (cases x)
  case (Run u)
  then show ?thesis
    using t inv latch_take_inv[OF inv, of u] latch_test_inv[OF inv, of u] countdown_inv[OF inv, of u]
    by (cases "ls_pc s u") auto
next
  case (Spurious u)
  have "counted n ((ls_pc s)(u := WWoken)) = counted n (ls_pc s)" if "ls_pc s u = WSleep"
    using that by (intro counted_same) auto
  then show ?thesis
    using Spurious t inv unfolding latch_inv_def by auto
qed

lemma latch_run_inv:
  "latch_inv a k n cnt c0 s \<Longrightarrow> \<forall>x \<in> set xs. act_thread x < n \<Longrightarrow>
   \<exists>s'. foldM (latch_step a) xs s = Some s' \<and> latch_inv a k n cnt c0 s'"
proof (induction xs arbitrary: s)
  case (Cons x xs)
  then obtain s1 where "latch_step a x s = Some s1" "latch_inv a k n cnt c0 s1"
    using latch_step_inv[of a k n cnt c0 s x] by auto
  then show ?case using Cons by auto
qed auto

lemma latch_start_inv:
  assumes "latches m a = Some l" "condition_getLock (latch_cond l) m = Some k"
  shows "latch_inv a k n cnt (lcount l) (latch_start m cnt)"
proof -
  have "counted n (\<lambda>t. if cnt t then CLock else WLock) = 0"
    by (simp add: counted_def)
  then show ?thesis
    using assms by (simp add: latch_inv_def latch_start_def latch_lock_def)
qed

section \<open>Progress\<close>

fun pc_rank :: "latch_pc \<Rightarrow> nat" where
  "pc_rank WLock = 2"
| "pc_rank WWoken = 2"
| "pc_rank WTest = 1"
| "pc_rank _ = 0"

definition latch_measure :: "nat \<Rightarrow> latch_sys \<Rightarrow> nat" where
  "latch_measure n s = (2 * n + 1) * card {t. t < n \<and> ls_pc s t = CLock} + (\<Sum>t < n. pc_rank (ls_pc s t))"

lemma rank_sum_upd:
  fixes n :: nat
  assumes "t < n" "pc_rank x < pc_rank (pc t)"
  shows "(\<Sum>u < n. pc_rank ((pc(t := x)) u)) < (\<Sum>u < n. pc_rank (pc u))"
  using assms by (intro sum_strict_mono_ex1 finite_lessThan) (auto intro: exI[of _ t])

lemma rank_sum_bound: "(\<Sum>u < n. pc_rank (pc u)) \<le> 2 * n"
proof -
  have "pc_rank x \<le> 2" for x by (cases x) auto
  then have "(\<Sum>u < n. pc_rank (pc u)) \<le> (\<Sum>u < n. 2)" by (intro sum_mono) simp
  then show ?thesis by simp
qed

lemma measure_wait:
  assumes "t < n" "ls_pc s' = (ls_pc s)(t := x)" "pc_rank x < pc_rank (ls_pc s t)" "x \<noteq> CLock" "ls_pc s t \<noteq> CLock"
  shows "latch_measure n s' < latch_measure n s"
proof -
  have "{u. u < n \<and> ls_pc s' u = CLock} = {u. u < n \<and> ls_pc s u = CLock}"
    using assms by auto
  then show ?thesis
    using rank_sum_upd[OF assms(1), of x "ls_pc s"] assms by (simp add: latch_measure_def)
qed

lemma measure_count:
  assumes "t < n" "ls_pc s t = CLock" "ls_pc s' t = CDone"
    "\<And>u. u \<noteq> t \<Longrightarrow> ls_pc s' u = CLock \<longleftrightarrow> ls_pc s u = CLock"
  shows "latch_measure n s' < latch_measure n s"
proof -
  have "{u. u < n \<and> ls_pc s u = CLock} = insert t {u. u < n \<and> ls_pc s' u = CLock}"
    using assms by (auto split: if_splits) metis+
  moreover have "t \<notin> {u. u < n \<and> ls_pc s' u = CLock}" using assms by simp
  ultimately have "card {u. u < n \<and> ls_pc s u = CLock} = Suc (card {u. u < n \<and> ls_pc s' u = CLock})"
    by simp
  then show ?thesis
    using rank_sum_bound[of "ls_pc s'" n] by (simp add: latch_measure_def)
qed

text \<open>Unless all threads are done, some thread can go on.\<close>

lemma latch_progress:
  assumes inv: "latch_inv a k n cnt c0 s" and c: "c0 \<le> int (card {t. t < n \<and> cnt t})"
    and t: "t < n" "ls_pc s t \<noteq> WDone" "ls_pc s t \<noteq> CDone"
  shows "\<exists>u < n. \<exists>s'. latch_step a (Run u) s = Some s' \<and> latch_inv a k n cnt c0 s' \<and> latch_measure n s' < latch_measure n s"
proof (cases "ls_owner s k")
  case (Some u)
  then have u: "u < n" "ls_pc s u = WTest"
    using inv by (auto simp: latch_inv_def)
  obtain s' x where s': "latch_test a u s = Some s'" "latch_inv a k n cnt c0 s'" "ls_pc s' = (ls_pc s)(u := x)"
      "x \<in> {WSleep, WDone}"
    using latch_test_inv[OF inv u] by blast
  have "latch_measure n s' < latch_measure n s"
    by (rule measure_wait[OF u(1) s'(3)]) (use s'(4) u(2) in auto)
  then show ?thesis
    using u s' by (intro exI[of _ u]) simp
next
  case None
  show ?thesis
  proof (cases "\<exists>u < n. ls_pc s u \<in> {CLock, WLock, WWoken}")
    case True
    then obtain u where u: "u < n" "ls_pc s u \<in> {CLock, WLock, WWoken}" by blast
    show ?thesis
    proof (cases "ls_pc s u = CLock")
      case True
      obtain s' where s': "countdownlatch_countdown a u s = Some s'" "latch_inv a k n cnt c0 s'" "ls_pc s' u = CDone"
          "ls_pc s' = (ls_pc s)(u := CDone) \<or> ls_pc s' = (wake_all (ls_pc s))(u := CDone)"
        using countdown_inv[OF inv u(1) True] None by blast
      have "latch_measure n s' < latch_measure n s"
        by (rule measure_count[OF u(1) True s'(3)]) (use s'(4) in \<open>auto simp: wake_all_def split: if_splits\<close>)
      then show ?thesis
        using u(1) True s' by (intro exI[of _ u]) simp
    next
      case False
      then have "ls_pc s u = WLock \<or> ls_pc s u = WWoken" using u(2) by auto
      moreover obtain s' where s': "latch_take a u s = Some s'" "latch_inv a k n cnt c0 s'" "ls_pc s' = (ls_pc s)(u := WTest)"
        using latch_take_inv[OF inv u(1) calculation] None by blast
      moreover have "latch_measure n s' < latch_measure n s"
        by (rule measure_wait[OF u(1) s'(3)]) (use calculation in auto)
      ultimately show ?thesis
        using u(1) by (intro exI[of _ u]) auto
    qed
  next
    case False
    then have "{u. u < n \<and> cnt u} = {u. u < n \<and> ls_pc s u = CDone}"
      using inv by (auto simp: latch_inv_def)
    then have "c0 \<le> int (counted n (ls_pc s))"
      using c by (simp add: counted_def)
    then have "ls_pc s t \<noteq> WSleep" and "ls_pc s t \<noteq> WTest"
      using inv t None by (auto simp: latch_inv_def)
    then show ?thesis
      using False t by (cases "ls_pc s t") auto
  qed
qed

lemma latch_finishes:
  assumes "latch_inv a k n cnt c0 s" "c0 \<le> int (card {t. t < n \<and> cnt t})"
  shows "\<exists>ts s'. set ts \<subseteq> {..<n} \<and> foldM (latch_step a) (map Run ts) s = Some s' \<and>
    (\<forall>t < n. ls_pc s' t = (if cnt t then CDone else WDone))"
  using assms(1)
proof (induction "latch_measure n s" arbitrary: s rule: less_induct)
  case less
  show ?case
  proof (cases "\<forall>t < n. ls_pc s t = WDone \<or> ls_pc s t = CDone")
    case True
    then show ?thesis
      using less.prems by (intro exI[of _ "[]"] exI[of _ s]) (auto simp: latch_inv_def)
  next
    case False
    then obtain u s1 where u: "u < n" "latch_step a (Run u) s = Some s1" "latch_inv a k n cnt c0 s1"
        "latch_measure n s1 < latch_measure n s"
      using latch_progress[OF less.prems assms(2)] by blast
    obtain ts s' where "set ts \<subseteq> {..<n}" "foldM (latch_step a) (map Run ts) s1 = Some s'"
        "\<forall>t < n. ls_pc s' t = (if cnt t then CDone else WDone)"
      using less.hyps[OF u(4,3)] by blast
    then show ?thesis
      using u by (intro exI[of _ "u # ts"] exI[of _ s']) simp
  qed
qed

text \<open>C17: whatever the order in which the threads run, wake-ups without a reason included, nothing faults and no
  thread leaves \<open>countdownlatch_wait\<close> before the latch was counted down as often as its first count says.  And no
  wake-up is lost: if there are enough threads that count down, the run can be continued from every point, by
  running threads only, to one where every wait has returned.\<close>

theorem latch_opens_once_counted:
  assumes l: "latches m a = Some l" "condition_getLock (latch_cond l) m = Some k"
    and xs: "\<forall>x \<in> set xs. act_thread x < n"
  shows "\<exists>s. foldM (latch_step a) xs (latch_start m cnt) = Some s \<and>
    (\<forall>t < n. ls_pc s t = WDone \<longrightarrow> lcount l \<le> int (card {u. u < n \<and> ls_pc s u = CDone})) \<and>
    (lcount l \<le> int (card {t. t < n \<and> cnt t}) \<longrightarrow>
       (\<exists>ts s'. set ts \<subseteq> {..<n} \<and> foldM (latch_step a) (map Run ts) s = Some s' \<and>
          (\<forall>t < n. ls_pc s' t = (if cnt t then CDone else WDone))))"
proof -
  obtain s where s: "foldM (latch_step a) xs (latch_start m cnt) = Some s" "latch_inv a k n cnt (lcount l) s"
    using latch_run_inv[OF latch_start_inv[OF l] xs] by blast
  then show ?thesis
    using latch_finishes[OF s(2)] by (auto simp: latch_inv_def counted_def)
qed

definition sample_latch :: cond_mem where
  "sample_latch = \<lparr>conds = [16 \<mapsto> \<lparr>lock_free = False, cond_lock = 24\<rparr>],
     latches = [8 \<mapsto> \<lparr>lcount = 2, latch_cond = 16\<rparr>], own_locks = {}\<rparr>"

definition sample_schedule :: "latch_act list" where
  "sample_schedule = [Run 2, Run 0, Run 2, Spurious 2, Run 0, Run 2, Run 2]"

theorem latch_opens_once_counted_witness:
  "\<exists>s. foldM (latch_step 8) sample_schedule (latch_start sample_latch (\<lambda>t. t < 2)) = Some s \<and>
     (\<exists>ts s'. set ts \<subseteq> {..<3} \<and> foldM (latch_step 8) (map Run ts) s = Some s' \<and> ls_pc s' 2 = WDone)"
proof -
  let ?l = "\<lparr>lcount = 2, latch_cond = 16\<rparr>"
  have "{t :: nat. t < 3 \<and> t < 2} = {0, 1}" by auto
  then have c: "card {t :: nat. t < 3 \<and> t < 2} = 2" by simp
  have "latches sample_latch 8 = Some ?l" "condition_getLock (latch_cond ?l) sample_latch = Some 24"
      "\<forall>x \<in> set sample_schedule. act_thread x < 3"
    by (simp_all add: sample_latch_def condition_getLock_def sample_schedule_def)
  from latch_opens_once_counted[OF this, of "\<lambda>t. t < 2"]
  obtain s where s: "foldM (latch_step 8) sample_schedule (latch_start sample_latch (\<lambda>t. t < 2)) = Some s"
    and more: "lcount ?l \<le> int (card {t :: nat. t < 3 \<and> t < 2}) \<longrightarrow>
       (\<exists>ts s'. set ts \<subseteq> {..<3} \<and> foldM (latch_step 8) (map Run ts) s = Some s' \<and>
          (\<forall>t < 3. ls_pc s' t = (if t < 2 then CDone else WDone)))"
    by blast
  from more[unfolded c] obtain ts s' where "set ts \<subseteq> {..<3}" "foldM (latch_step 8) (map Run ts) s = Some s'"
      "\<forall>t < 3. ls_pc s' t = (if t < 2 then CDone else WDone)"
    by auto
  moreover from this(3) have "ls_pc s' 2 = WDone" by simp
  ultimately show ?thesis using s by blast
qed

text \<open>The latch that is left when the condition could not be allocated is not null, but waiting on it faults.\<close>

theorem latch_without_condition_faults:
  assumes "t \<noteq> NULL" "countdownlatch_init lock n t NULL l m = (t', m')" "conds m NULL = None"
  shows "t' = t \<and> latch_step t (Run 0) (latch_start m' (\<lambda>_. False)) = None"
  using assms
  by (auto simp: countdownlatch_init_def condition_init_def latch_start_def latch_take_def latch_lock_def
      condition_getLock_def)

end
