(* ===== verification/IniFile.thy ===== *)
theory IniFile
  imports DsTools
begin

text \<open>
  The configuration files of the asynchronous tasks (\<open>ini_file.c\<close>): lines \<open>key=value\<close>, blank lines and comments,
  read by scanning for the first line with the key and written by appending a line.  A file is the list of its
  bytes, \<open>None\<close> a file that does not exist.  A line is read into a buffer of 2048 bytes as a C string with the
  byte operations of \<open>DsTools\<close>; the buffer behind the string is indeterminate, and what the code reads of it does not
  matter.
\<close>

section \<open>Trimming\<close>

text \<open>A result \<open>Some None\<close> is the null pointer.\<close>

function ini_trim_left :: "u8 list \<Rightarrow> nat \<Rightarrow> nat option option" where
  "ini_trim_left str p =
     (case rd str p of
        None \<Rightarrow> None
      | Some c \<Rightarrow>
          if c = 0 then Some None
          else if c = 32 \<or> c = 9 then ini_trim_left str (p + 1)
          else if c = 35 then Some None
          else Some (Some p))"
  by pat_completeness auto
termination by (relation "measure (\<lambda>(str, p). length str - p)") (auto simp: rd_def split: if_splits)

declare ini_trim_left.simps [simp del]

text \<open>The loop ends at offset 0 without looking at it; on the empty string it starts at -1.\<close>

function trim_right_loop :: "u8 list \<Rightarrow> nat \<Rightarrow> int \<Rightarrow> nat option option" where
  "trim_right_loop str p len =
     (if len = 0 then Some None
      else if int p + len < 0 then None
      else case rd str (nat (int p + len)) of
          None \<Rightarrow> None
        | Some c \<Rightarrow> if is_blank c then trim_right_loop str p (len - 1) else Some (Some (nat (int p + len))))"
  by pat_completeness auto
termination by (relation "measure (\<lambda>(str, p, len). nat (int p + len + 1))") auto

declare trim_right_loop.simps [simp del]

definition ini_trim_right :: "u8 list \<Rightarrow> nat \<Rightarrow> nat option option" where
  "ini_trim_right str p = do { n \<leftarrow> strlen (drop p str); trim_right_loop str p (int n - 1) }"

definition ini_trim :: "u8 list \<Rightarrow> nat \<Rightarrow> nat option option" where
  "ini_trim str p = do {
     b \<leftarrow> ini_trim_left str p;
     case b of None \<Rightarrow> Some None | Some b \<Rightarrow> ini_trim_right str b }"

section \<open>Reading\<close>

definition INI_BUF :: nat where
  "INI_BUF = 2048"

text \<open>\<open>fgets(buf, sizeof(buf)-1, fp)\<close>: at most 2046 bytes, up to and with the first end of line.\<close>

definition line_of :: "u8 list \<Rightarrow> u8 list" where
  "line_of f = takeWhile (\<lambda>c. c \<noteq> 10) f @ (if 10 \<in> set f then [10] else [])"

definition chunk :: "u8 list \<Rightarrow> u8 list" where
  "chunk f = take (INI_BUF - 2) (line_of f)"

definition ini_fgets :: "u8 list \<Rightarrow> (u8 list \<times> u8 list) option" where
  "ini_fgets f = (if f = [] then None else Some (chunk f @ [0], drop (length (chunk f)) f))"

text \<open>\<open>memcmp\<close> of a part of the buffer with the key, which has no zero byte, so that what follows the string
  in the buffer does not matter; the part must be inside the buffer.\<close>

definition key_differs :: "u8 list \<Rightarrow> nat \<Rightarrow> u8 list \<Rightarrow> bool option" where
  "key_differs buf p key =
     (if p + length key \<le> INI_BUF then Some (take (length key) (drop p buf) \<noteq> key) else None)"

datatype ini_res = NextLine | Found "u8 list" | TooLong

text \<open>The value is copied with \<open>memcpy\<close>, whose length is unsigned: a negative length is out of bounds.\<close>

definition ini_value :: "u8 list \<Rightarrow> nat \<Rightarrow> nat \<Rightarrow> nat \<Rightarrow> ini_res option" where
  "ini_value buf b e value_len =
     (let len = int e - int b + 1 in
      if int value_len \<ge> len + 1
      then if len < 0 then None else Some (Found (take (nat len) (drop b buf)))
      else Some TooLong)"

text \<open>The body of the loop: each \<open>continue\<close> is \<open>NextLine\<close>.\<close>

definition ini_line :: "u8 list \<Rightarrow> u8 list \<Rightarrow> nat \<Rightarrow> ini_res option" where
  "ini_line buf key value_len = do {
     b \<leftarrow> ini_trim_left buf 0;
     case b of None \<Rightarrow> Some NextLine | Some b \<Rightarrow> do {
     e \<leftarrow> ini_trim_right buf b;
     case e of None \<Rightarrow> Some NextLine | Some e \<Rightarrow> do {
     d \<leftarrow> key_differs buf b key;
     if d then Some NextLine else do {
     b \<leftarrow> ini_trim_left buf (b + length key);
     case b of None \<Rightarrow> Some NextLine | Some b \<Rightarrow> do {
     b \<leftarrow> ini_trim_left buf b;
     case b of None \<Rightarrow> Some NextLine | Some b \<Rightarrow> do {
     c \<leftarrow> rd buf b;
     if c \<noteq> 61 then Some NextLine else do {
     b \<leftarrow> ini_trim_left buf (b + 1);
     case b of None \<Rightarrow> Some NextLine | Some b \<Rightarrow> ini_value buf b e value_len }}}}}}}"

lemma chunk_pos: "f \<noteq> [] \<Longrightarrow> 0 < length (chunk f)"
  by (cases f) (auto simp: chunk_def line_of_def INI_BUF_def)

text \<open>The loop over the lines; \<open>NextLine\<close> is the end of the file.\<close>

function ini_scan :: "u8 list \<Rightarrow> u8 list \<Rightarrow> nat \<Rightarrow> ini_res option" where
  "ini_scan f key value_len =
     (case ini_fgets f of
        None \<Rightarrow> Some NextLine
      | Some (buf, f') \<Rightarrow>
          (case ini_line buf key value_len of
             None \<Rightarrow> None
           | Some NextLine \<Rightarrow> ini_scan f' key value_len
           | Some r \<Rightarrow> Some r))"
  by pat_completeness auto
termination
  by (relation "measure (\<lambda>(f, key, value_len). length f)")
    (auto simp: ini_fgets_def intro!: diff_less chunk_pos split: if_splits)

declare ini_scan.simps [simp del]

text \<open>\<open>Some None\<close> is the result -1, \<open>Some (Some v)\<close> the result 0 with the value.\<close>

definition ini_read_string :: "u8 list option \<Rightarrow> u8 list \<Rightarrow> nat \<Rightarrow> u8 list option option" where
  "ini_read_string file key value_len =
     (case file of
        None \<Rightarrow> Some None
      | Some f \<Rightarrow> do {
          r \<leftarrow> ini_scan f key value_len;
          Some (case r of Found v \<Rightarrow> Some v | _ \<Rightarrow> None) })"

text \<open>\<open>atoi\<close>; a number that does not fit is undefined.\<close>

fun atoi_digits :: "int \<Rightarrow> u8 list \<Rightarrow> int" where
  "atoi_digits n [] = n"
| "atoi_digits n (c # cs) = (if is_digit c then atoi_digits (10 * n + (uint c - 48)) cs else n)"

definition c_atoi :: "u8 list \<Rightarrow> int option" where
  "c_atoi s =
     (let t = dropWhile is_space s;
          n = (case t of [] \<Rightarrow> 0
               | c # cs \<Rightarrow> if c = 45 then - atoi_digits 0 cs else if c = 43 then atoi_digits 0 cs else atoi_digits 0 t)
      in if - (2 ^ 31) \<le> n \<and> n < 2 ^ 31 then Some n else None)"

definition ini_read_number :: "u8 list option \<Rightarrow> u8 list \<Rightarrow> int option option" where
  "ini_read_number file key = do {
     r \<leftarrow> ini_read_string file key 128;
     case r of None \<Rightarrow> Some None | Some v \<Rightarrow> map_option Some (c_atoi v) }"

section \<open>Writing and file names\<close>

text \<open>\<open>ok\<close> says whether the file can be opened for appending.\<close>

definition ini_append_string :: "bool \<Rightarrow> u8 list option \<Rightarrow> u8 list \<Rightarrow> u8 list \<Rightarrow> int \<times> u8 list option" where
  "ini_append_string ok file key value =
     (if ok then (0, Some ((case file of None \<Rightarrow> [] | Some f \<Rightarrow> f) @ key @ [61] @ value @ [10])) else (-1, file))"

definition file_exist :: "u8 list option \<Rightarrow> int" where
  "file_exist file = (if file = None then -1 else 0)"

text \<open>The size is stored in 32 bits.\<close>

definition file_size :: "u8 list option \<Rightarrow> u32 option" where
  "file_size file = map_option (\<lambda>f. word_of_nat (length f)) file"

text \<open>The offset of the name behind the last slash; the loop does not look at offset 0.\<close>

fun file_name_loop :: "u8 list \<Rightarrow> nat \<Rightarrow> nat option" where
  "file_name_loop s 0 = Some 0"
| "file_name_loop s (Suc n) =
     (if n = 0 then Some 0
      else case rd s n of None \<Rightarrow> None | Some c \<Rightarrow> if c = 47 then Some (Suc n) else file_name_loop s n)"

definition file_name :: "u8 list \<Rightarrow> nat option" where
  "file_name s = do { len \<leftarrow> strlen s; if len = 0 then Some 0 else file_name_loop s len }"

section \<open>Lines that the code writes\<close>

text \<open>Keys and values that can be written and read back.\<close>

definition plain_key :: "u8 list \<Rightarrow> bool" where
  "plain_key k \<longleftrightarrow> k \<noteq> [] \<and> (\<forall>c \<in> set k. c \<notin> {0, 9, 10, 13, 32, 35, 61})"

definition good_value :: "u8 list \<Rightarrow> bool" where
  "good_value v \<longleftrightarrow> (\<forall>c \<in> set v. c \<noteq> 0 \<and> c \<noteq> 10) \<and>
     (v \<noteq> [] \<longrightarrow> hd v \<notin> {32, 9, 35} \<and> \<not> is_blank (last v))"

lemma trim_left_stop:
  assumes "p < length str" "str ! p \<notin> {0, 32, 9, 35}"
  shows "ini_trim_left str p = Some (Some p)"
  using assms by (simp add: ini_trim_left.simps rd_def)

lemma strlen_line: "0 \<notin> set xs \<Longrightarrow> strlen (xs @ [0]) = Some (length xs)"
  by (induction xs) (auto simp: strlen_def)

text \<open>The end of a line that is written: the last byte of the value, or the equals sign.\<close>

lemma trim_right_line:
  assumes "xs \<noteq> []" "0 \<notin> set xs" "\<not> is_blank (last xs)" "1 < length xs"
  shows "ini_trim_right (xs @ [10, 0]) 0 = Some (Some (length xs - 1))"
proof -
  have "strlen ((xs @ [10]) @ [0]) = Some (length (xs @ [10]))"
    using assms(2) by (intro strlen_line) simp
  then have s: "strlen (xs @ [10, 0]) = Some (Suc (length xs))" by simp
  have "trim_right_loop (xs @ [10, 0]) 0 (int (length xs)) = trim_right_loop (xs @ [10, 0]) 0 (int (length xs) - 1)"
    using assms(1) by (subst trim_right_loop.simps) (simp add: rd_def nth_append is_blank_def)
  also have "\<dots> = Some (Some (length xs - 1))"
    using assms by (subst trim_right_loop.simps) (simp add: rd_def nth_append last_conv_nth nat_diff_distrib')
  finally show ?thesis
    using s by (simp add: ini_trim_right_def)
qed

lemma ini_line_written:
  assumes k: "plain_key k" and v: "good_value v" and len: "length k \<le> INI_BUF"
  shows "ini_line (k @ [61] @ v @ [10] @ [0]) k n = Some (if length v < n then Found v else TooLong)"
proof -
  let ?l = "k @ [61] @ v @ [10] @ [0]"
  have k0: "k \<noteq> []" "hd k \<notin> {0, 32, 9, 35}" "0 \<notin> set k"
    using k hd_in_set[of k] by (auto simp: plain_key_def)
  have b: "ini_trim_left ?l 0 = Some (Some 0)"
    using k0 by (intro trim_left_stop) (auto simp: nth_append hd_conv_nth)
  have e: "ini_trim_right ?l 0 = Some (Some (length k + length v))"
    using trim_right_line[of "k @ [61] @ v"] k0 v by (auto simp: good_value_def is_blank_def)
  have d: "key_differs ?l 0 k = Some False"
    using len by (simp add: key_differs_def)
  have q: "ini_trim_left ?l (length k) = Some (Some (length k))"
    by (intro trim_left_stop) (auto simp: nth_append)
  have b2: "ini_trim_left ?l (Suc (length k)) = Some (Some (Suc (length k)))"
    using v by (intro trim_left_stop) (cases v; auto simp: nth_append good_value_def)+
  have r: "rd ?l (length k) = Some 61"
    by (simp add: rd_def nth_append)
  show ?thesis
    by (simp add: ini_line_def b[simplified] e[simplified] d[simplified] q[simplified] r[simplified] b2[simplified])
      (auto simp: ini_value_def Let_def)
qed

text \<open>Another key does not match such a line.\<close>

lemma ini_line_other:
  assumes k: "plain_key k" and v: "good_value v" and j: "plain_key j" "j \<noteq> k" "length j \<le> INI_BUF"
  shows "ini_line (k @ [61] @ v @ [10] @ [0]) j n = Some NextLine"
proof -
  let ?l = "k @ [61] @ v @ [10] @ [0]"
  have k0: "k \<noteq> []" "hd k \<notin> {0, 32, 9, 35}" "0 \<notin> set k"
    using k hd_in_set[of k] by (auto simp: plain_key_def)
  have b: "ini_trim_left ?l 0 = Some (Some 0)"
    using k0 by (intro trim_left_stop) (auto simp: nth_append hd_conv_nth)
  have e: "ini_trim_right ?l 0 = Some (Some (length k + length v))"
    using trim_right_line[of "k @ [61] @ v"] k0 v by (auto simp: good_value_def is_blank_def)
  show ?thesis
  proof (cases "take (length j) ?l = j")
    case False
    then show ?thesis
      using j by (simp add: ini_line_def b[simplified] e[simplified] key_differs_def)
  next
    case True
    have lt: "length j < length k"
    proof (rule ccontr)
      assume "\<not> length j < length k"
      then consider "length j = length k" | "length k < length j" by linarith
      then show False
      proof cases
        case 1
        then show False using True j(2) by simp
      next
        case 2
        then have "j ! length k = 61"
          using True by (metis append_Cons nth_append_length nth_take)
        then show False
          using 2 j(1) nth_mem[OF 2] by (auto simp: plain_key_def)
      qed
    qed
    have c: "?l ! length j = k ! length j" "k ! length j \<in> set k"
      using lt by (auto simp: nth_append)
    then have c2: "?l ! length j \<notin> {0, 32, 9, 35, 61}"
      using k by (auto simp: plain_key_def)
    then have q: "ini_trim_left ?l (length j) = Some (Some (length j))"
      using lt by (intro trim_left_stop) auto
    have r: "rd ?l (length j) = Some (?l ! length j)"
      using lt by (simp add: rd_def)
    have d: "key_differs ?l 0 j = Some False"
      using j(3) True by (simp add: key_differs_def)
    show ?thesis
      using c2 by (simp add: ini_line_def b[simplified] e[simplified] d[simplified] q[simplified] r[simplified])
  qed
qed

section \<open>Appending to a file\<close>

definition whole_lines :: "u8 list \<Rightarrow> bool" where
  "whole_lines f \<longleftrightarrow> f = [] \<or> last f = 10"

lemma chunk_append:
  assumes "f \<noteq> []" "whole_lines f"
  shows "chunk (f @ g) = chunk f" "length (chunk f) \<le> length f" "whole_lines (drop (length (chunk f)) f)"
proof -
  have nl: "10 \<in> set f"
    using assms last_in_set[of f] by (auto simp: whole_lines_def)
  then have "line_of (f @ g) = line_of f"
    by (simp add: line_of_def)
  then show "chunk (f @ g) = chunk f"
    by (simp add: chunk_def)
  have "length (line_of f) \<le> length f"
    by (induction f) (auto simp: line_of_def)
  then show "length (chunk f) \<le> length f"
    by (simp add: chunk_def)
  show "whole_lines (drop (length (chunk f)) f)"
    by (cases "length (chunk f) < length f") (use assms in \<open>auto simp: whole_lines_def last_drop\<close>)
qed

text \<open>Scanning a file and what was appended to it.\<close>

lemma ini_scan_append:
  assumes "whole_lines f" "ini_scan f key n = Some r"
  shows "ini_scan (f @ g) key n = (if r = NextLine then ini_scan g key n else Some r)"
  using assms
proof (induction f key n rule: ini_scan.induct)
  case (1 f key n)
  show ?case
  proof (cases "f = []")
    case True
    then show ?thesis
      using 1(3) by (subst (asm) ini_scan.simps) (simp add: ini_fgets_def)
  next
    case False
    note c = chunk_append[OF False 1(2)]
    have fg: "ini_fgets f = Some (chunk f @ [0], drop (length (chunk f)) f)"
        "ini_fgets (f @ g) = Some (chunk f @ [0], drop (length (chunk f)) f @ g)"
      using False c by (simp_all add: ini_fgets_def)
    show ?thesis
    proof (cases "ini_line (chunk f @ [0]) key n")
      case None
      then show ?thesis using 1(3) fg(1) by (subst (asm) ini_scan.simps) simp
    next
      case (Some x)
      show ?thesis
      proof (cases "x = NextLine")
        case True
        then have "ini_scan (drop (length (chunk f)) f) key n = Some r"
          using 1(3) fg(1) Some by (subst (asm) ini_scan.simps) simp
        then have "ini_scan (drop (length (chunk f)) f @ g) key n = (if r = NextLine then ini_scan g key n else Some r)"
          using 1(1)[OF fg(1)] c(3) Some True by simp
        then show ?thesis
          using fg(2) Some True by (subst ini_scan.simps) simp
      next
        case False
        then show ?thesis
          using 1(3) fg Some by (subst ini_scan.simps, subst (asm) ini_scan.simps) (auto split: ini_res.splits)
      qed
    qed
  qed
qed

lemma ini_scan_line:
  assumes k: "plain_key k" and v: "good_value v" and len: "length k + length v \<le> INI_BUF - 4"
    and j: "plain_key j" "length j \<le> INI_BUF"
  shows "ini_scan (k @ [61] @ v @ [10]) j n = Some (if j = k then if length v < n then Found v else TooLong else NextLine)"
proof -
  let ?f = "k @ [61] @ v @ [10]"
  have "\<forall>c \<in> set (k @ [61] @ v). c \<noteq> 10"
    using k v by (auto simp: plain_key_def good_value_def)
  then have "takeWhile (\<lambda>c. c \<noteq> 10) ((k @ [61] @ v) @ [10]) = k @ [61] @ v"
    by (subst takeWhile_append2) auto
  then have "line_of ?f = ?f"
    by (simp add: line_of_def)
  then have "chunk ?f = ?f"
    using len by (simp add: chunk_def INI_BUF_def)
  then have fg: "ini_fgets ?f = Some (k @ [61] @ v @ [10] @ [0], [])"
    by (simp add: ini_fgets_def)
  have nil: "ini_scan [] j n = Some NextLine"
    by (simp add: ini_scan.simps ini_fgets_def)
  show ?thesis
  proof (cases "j = k")
    case True
    then show ?thesis
      using ini_line_written[OF k v, of n] j(2) fg by (subst ini_scan.simps) simp
  next
    case False
    then show ?thesis
      using ini_line_other[OF k v j(1) False j(2), of n] fg nil by (subst ini_scan.simps) simp
  qed
qed

text \<open>A whole file, which may be missing.\<close>

definition file_scan :: "u8 list option \<Rightarrow> u8 list \<Rightarrow> nat \<Rightarrow> ini_res option" where
  "file_scan file key n = (case file of None \<Rightarrow> Some NextLine | Some f \<Rightarrow> ini_scan f key n)"

definition file_whole :: "u8 list option \<Rightarrow> bool" where
  "file_whole file \<longleftrightarrow> (case file of None \<Rightarrow> True | Some f \<Rightarrow> whole_lines f)"

definition file_add :: "u8 list option \<Rightarrow> u8 list \<Rightarrow> u8 list \<Rightarrow> u8 list option" where
  "file_add file key v = snd (ini_append_string True file key v)"

lemma ini_read_string_scan:
  "ini_read_string file key n =
     (case file_scan file key n of None \<Rightarrow> None | Some (Found v) \<Rightarrow> Some (Some v) | Some _ \<Rightarrow> Some None)"
  by (auto simp: ini_read_string_def file_scan_def bind_eq_Some_iff split: option.splits ini_res.splits)

lemma file_add_scan:
  assumes "file_whole file" "file_scan file j n = Some r"
    and "plain_key k" "good_value v" "length k + length v \<le> INI_BUF - 4" "plain_key j" "length j \<le> INI_BUF"
  shows "file_scan (file_add file k v) j n =
      Some (if r = NextLine then (if j = k then if length v < n then Found v else TooLong else NextLine) else r)"
    and "file_whole (file_add file k v)"
proof -
  note l = ini_scan_line[OF assms(3-7)]
  show "file_scan (file_add file k v) j n =
      Some (if r = NextLine then (if j = k then if length v < n then Found v else TooLong else NextLine) else r)"
  proof (cases "file")
    case None
    then show ?thesis using assms(2) l by (simp add: file_add_def ini_append_string_def file_scan_def)
  next
    case (Some f)
    then show ?thesis
      using ini_scan_append[of f j n r "k @ [61] @ v @ [10]"] assms(1,2) l
      by (simp add: file_add_def ini_append_string_def file_scan_def file_whole_def)
  qed
  show "file_whole (file_add file k v)"
    by (simp add: file_add_def ini_append_string_def file_whole_def whole_lines_def)
qed

section \<open>Numbers\<close>

text \<open>\<open>sprintf(strip, "%d", value)\<close>.\<close>

fun dec_digits :: "nat \<Rightarrow> u8 list" where
  "dec_digits n = (if n < 10 then [word_of_nat (48 + n)] else dec_digits (n div 10) @ [word_of_nat (48 + n mod 10)])"

declare dec_digits.simps [simp del]

definition sprint_d :: "int \<Rightarrow> u8 list" where
  "sprint_d n = (if n < 0 then 45 # dec_digits (nat (- n)) else dec_digits (nat n))"

lemma digit_char:
  assumes "n < 10"
  shows "is_digit (word_of_nat (48 + n))" "uint (word_of_nat (48 + n) :: u8) = 48 + int n"
proof -
  have u: "unat (word_of_nat (48 + n) :: u8) = 48 + n"
    using assms by (intro of_nat_inverse[OF refl]) simp
  show "uint (word_of_nat (48 + n) :: u8) = 48 + int n"
    using arg_cong[OF u, of int] unfolding of_nat_unat by simp
  show "is_digit (word_of_nat (48 + n))"
    using assms unfolding is_digit_def word_le_nat_alt u by simp
qed

lemma atoi_digits_append:
  "\<forall>c \<in> set xs. is_digit c \<Longrightarrow> atoi_digits a (xs @ ys) = atoi_digits (atoi_digits a xs) ys"
  by (induction xs arbitrary: a) auto

lemma dec_digits_ok: "(\<forall>c \<in> set (dec_digits n). is_digit c) \<and> dec_digits n \<noteq> [] \<and> atoi_digits 0 (dec_digits n) = int n"
proof (induction n rule: dec_digits.induct)
  case (1 n)
  show ?case
  proof (cases "n < 10")
    case True
    then have d: "dec_digits n = [word_of_nat (48 + n)]" by (subst dec_digits.simps) simp
    show ?thesis
      using digit_char[OF True] unfolding d by (simp del: of_nat_add)
  next
    case False
    then have d: "dec_digits n = dec_digits (n div 10) @ [word_of_nat (48 + n mod 10)]"
      by (subst dec_digits.simps) simp
    have ih: "\<forall>c \<in> set (dec_digits (n div 10)). is_digit c" "atoi_digits 0 (dec_digits (n div 10)) = int (n div 10)"
      using 1 False by auto
    have "n mod 10 < 10" by simp
    note c = digit_char[OF this]
    have "atoi_digits 0 (dec_digits n) = 10 * int (n div 10) + int (n mod 10)"
      unfolding d atoi_digits_append[OF ih(1)] ih(2) using c by (simp del: of_nat_add)
    moreover have "10 * int (n div 10) + int (n mod 10) = int n"
      by (simp add: zdiv_int zmod_int)
    moreover have "\<forall>c \<in> set (dec_digits n). is_digit c" "dec_digits n \<noteq> []"
      unfolding d using ih(1) c(1) by (simp_all del: of_nat_add)
    ultimately show ?thesis by simp
  qed
qed

lemma digit_good: "is_digit c \<Longrightarrow> c \<notin> {0, 10, 32, 9, 35} \<and> \<not> is_blank c \<and> \<not> is_space c \<and> c \<noteq> 45 \<and> c \<noteq> 43"
  by (auto simp: is_digit_def is_blank_def is_space_def word_le_nat_alt)

lemma dec_digits_dropWhile: "dropWhile is_space (dec_digits n) = dec_digits n"
  using dec_digits_ok[of n] digit_good by (cases "dec_digits n") auto

lemma atoi_sprint:
  assumes "- (2 ^ 31) \<le> n" "n < 2 ^ 31"
  shows "c_atoi (sprint_d n) = Some n"
proof (cases "n < 0")
  case True
  then show ?thesis
    using assms dec_digits_ok[of "nat (- n)"] by (simp add: c_atoi_def sprint_d_def is_space_def Let_def)
next
  case False
  obtain c cs where d: "dec_digits (nat n) = c # cs"
    using dec_digits_ok[of "nat n"] by (cases "dec_digits (nat n)") auto
  then have "c \<noteq> 45" "c \<noteq> 43"
    using dec_digits_ok[of "nat n"] digit_good[of c] by auto
  then show ?thesis
    using False assms dec_digits_ok[of "nat n"] dec_digits_dropWhile[of "nat n"] d
    by (simp add: c_atoi_def sprint_d_def Let_def del: atoi_digits.simps)
qed

lemma sprint_good: "good_value (sprint_d n)"
proof -
  have g: "c \<noteq> 0 \<and> c \<noteq> 10 \<and> c \<notin> {32, 9, 35} \<and> \<not> is_blank c" if "c \<in> set (dec_digits m)" for c m
    using dec_digits_ok[of m] digit_good that by auto
  have ne: "dec_digits m \<noteq> []" for m
    using dec_digits_ok by blast
  have "hd (dec_digits m) \<notin> {32, 9, 35}" "\<not> is_blank (last (dec_digits m))" for m
    using g[OF hd_in_set[OF ne]] g[OF last_in_set[OF ne]] by auto
  then show ?thesis
    using g ne by (auto simp: good_value_def sprint_d_def)
qed

section \<open>Properties\<close>

text \<open>C22: what is appended is read back.  In a file whose last line is terminated, for a key that it does not have yet
  (without blanks, line ends, \<open>#\<close> and \<open>=\<close>) and a value without zero bytes, line ends and outer blanks that does not
  begin a comment, such that the line fits the buffer of the reader and the value that of the caller, reading after
  appending gives the value.  Every other such key that could be read before is read as before.\<close>

theorem ini_append_read:
  assumes fl: "file_whole file" "file_scan file k n = Some NextLine"
    and k: "plain_key k" and v: "good_value v" "length k + length v \<le> 2044" "length v < n"
    and j: "plain_key j" "j \<noteq> k" "length j \<le> 2048" "ini_read_string file j m = Some r"
  shows "ini_append_string True file k v = (0, file_add file k v) \<and>
    ini_read_string (file_add file k v) k n = Some (Some v) \<and>
    ini_read_string (file_add file k v) j m = Some r"
proof -
  have l: "length k + length v \<le> INI_BUF - 4" "length k \<le> INI_BUF" "length j \<le> INI_BUF"
    using v j by (simp_all add: INI_BUF_def)
  obtain rj where rj: "file_scan file j m = Some rj"
    using j(4) by (auto simp: ini_read_string_scan split: option.splits)
  have "file_scan (file_add file k v) k n = Some (Found v)"
    using file_add_scan(1)[OF fl k v(1) l(1) k l(2)] v(3) by simp
  moreover have "file_scan (file_add file k v) j m = Some rj"
    using file_add_scan(1)[OF fl(1) rj k v(1) l(1) j(1) l(3)] j(2) by simp
  ultimately show ?thesis
    using j(4) rj by (auto simp: ini_read_string_scan file_add_def ini_append_string_def)
qed

definition sample_ini :: "u8 list" where
  "sample_ini = [35, 32, 120, 10, 10, 32, 112, 61, 49, 10]"

lemma sample_scan: "file_scan (Some sample_ini) [113] 8 = Some NextLine" "file_scan (Some sample_ini) [112] 8 = Some (Found [49])"
  by (simp_all add: file_scan_def sample_ini_def ini_scan.simps ini_fgets_def chunk_def line_of_def INI_BUF_def ini_line_def
      ini_trim_left.simps rd_def ini_trim_right_def strlen_def trim_right_loop.simps is_blank_def key_differs_def
      ini_value_def)

theorem ini_append_read_witness:
  "ini_append_string True (Some sample_ini) [113] [97, 32, 98] = (0, file_add (Some sample_ini) [113] [97, 32, 98]) \<and>
   ini_read_string (file_add (Some sample_ini) [113] [97, 32, 98]) [113] 8 = Some (Some [97, 32, 98]) \<and>
   ini_read_string (file_add (Some sample_ini) [113] [97, 32, 98]) [112] 8 = Some (Some [49])"
proof (rule ini_append_read)
  show "file_whole (Some sample_ini)"
    by (simp add: file_whole_def whole_lines_def sample_ini_def)
qed (use sample_scan in \<open>simp_all add: plain_key_def good_value_def is_blank_def ini_read_string_scan\<close>)

lemma trim_left_skip:
  assumes "\<And>i. p \<le> i \<Longrightarrow> i < q \<Longrightarrow> str ! i \<in> {32, 9}" "p \<le> q" "q \<le> length str"
  shows "ini_trim_left str p = ini_trim_left str q"
  using assms(2,1)
proof (induction p rule: inc_induct)
  case (step p)
  then have "str ! p \<in> {32, 9}" by simp
  then have "ini_trim_left str p = ini_trim_left str (Suc p)"
    using step.hyps assms(3) by (subst ini_trim_left.simps) (auto simp: rd_def)
  then show ?case using step by simp
qed simp

lemma trim_right_skip:
  assumes "\<And>i. i < m \<Longrightarrow> is_blank (str ! (n + 1 + i))" "n + m < length str" "0 < n"
  shows "trim_right_loop str 0 (int (n + m)) = trim_right_loop str 0 (int n)"
  using assms(1,2)
proof (induction m)
  case (Suc m)
  have "is_blank (str ! (n + 1 + m))" using Suc.prems(1) by blast
  then have "trim_right_loop str 0 (int (n + Suc m)) = trim_right_loop str 0 (int (n + m))"
    using Suc.prems(2) assms(3) by (subst trim_right_loop.simps) (simp add: rd_def nat_add_distrib add.commute)
  then show ?case using Suc by simp
qed simp

text \<open>C40: a line with the key and a blank value faults: behind the equals sign only blanks are left, the
  start of the value is then the end of the line, behind its end, and the negative length is copied.\<close>

theorem ini_blank_value_faults:
  assumes k: "plain_key k" and n: "blanks \<noteq> []" "set blanks \<subseteq> {32, 9}" "length k + length blanks \<le> 2044"
  shows "ini_read_string (Some (k @ [61] @ blanks @ [10] @ rest)) k m = None"
proof -
  let ?x = "k @ [61] @ blanks" let ?l = "k @ [61] @ blanks @ [10] @ [0]" let ?f = "k @ [61] @ blanks @ [10] @ rest"
  have nl: "\<And>c. c \<in> set ?x \<Longrightarrow> c \<noteq> 10" and z: "0 \<notin> set ?x"
    using k n(2) by (auto simp: plain_key_def)
  have "takeWhile (\<lambda>c. c \<noteq> 10) (?x @ [10] @ rest) = ?x"
    using nl by (subst takeWhile_append2) auto
  then have "line_of ?f = k @ [61] @ blanks @ [10]"
    by (simp add: line_of_def)
  then have c: "chunk ?f @ [0] = ?l"
    using n(3) by (simp add: chunk_def INI_BUF_def)
  have k0: "k \<noteq> []" "hd k \<notin> {0, 32, 9, 35}"
    using k hd_in_set[of k] by (auto simp: plain_key_def)
  have b: "ini_trim_left ?l 0 = Some (Some 0)"
    using k0 by (intro trim_left_stop) (auto simp: nth_append hd_conv_nth)
  have sl: "strlen ?l = Some (Suc (length ?x))"
    using strlen_line[of "?x @ [10]"] z by simp
  have bl: "is_blank (?l ! (length k + 1 + i))" if "i < length blanks + 1" for i
  proof (cases "i < length blanks")
    case True
    then have "blanks ! i \<in> {32, 9}" using n(2) nth_mem[of i blanks] by blast
    then show ?thesis using True by (auto simp: nth_append is_blank_def)
  next
    case False
    then show ?thesis using that by (auto simp: nth_append is_blank_def less_Suc_eq)
  qed
  have "trim_right_loop ?l 0 (int (length k + (length blanks + 1))) = trim_right_loop ?l 0 (int (length k))"
    using bl k0 by (intro trim_right_skip) auto
  also have "\<dots> = Some (Some (length k))"
    using k0 by (subst trim_right_loop.simps) (simp add: rd_def nth_append is_blank_def)
  finally have e: "ini_trim_right ?l 0 = Some (Some (length k))"
    using sl by (simp add: ini_trim_right_def add.commute add.left_commute)
  have d: "key_differs ?l 0 k = Some False"
    using n(3) by (simp add: key_differs_def INI_BUF_def)
  have q: "ini_trim_left ?l (length k) = Some (Some (length k))"
    by (intro trim_left_stop) (auto simp: nth_append)
  have r: "rd ?l (length k) = Some 61"
    by (simp add: rd_def nth_append)
  have "ini_trim_left ?l (Suc (length k)) = ini_trim_left ?l (Suc (length k) + length blanks)"
  proof (rule trim_left_skip)
    fix i assume i: "Suc (length k) \<le> i" "i < Suc (length k) + length blanks"
    then have "?l ! i = blanks ! (i - Suc (length k))" by (auto simp: nth_append)
    moreover have "blanks ! (i - Suc (length k)) \<in> set blanks" using i by (intro nth_mem) simp
    ultimately show "?l ! i \<in> {32, 9}" using n(2) by auto
  qed auto
  also have "\<dots> = Some (Some (Suc (length k) + length blanks))"
    by (intro trim_left_stop) (auto simp: nth_append)
  finally have v: "ini_trim_left ?l (Suc (length k)) = Some (Some (Suc (length k) + length blanks))" .
  have "1 \<le> length blanks" using n(1) by (cases blanks) auto
  then have le: "1 - int (length blanks) \<le> int m" by linarith
  have "ini_line ?l k m = None"
    using n(1) le by (simp add: ini_line_def b[simplified] e[simplified] d[simplified] q[simplified] r[simplified]
        v[simplified] ini_value_def Let_def)
  then have "ini_scan ?f k m = None"
    using c by (subst ini_scan.simps) (simp add: ini_fgets_def)
  then show ?thesis
    by (simp add: ini_read_string_def)
qed

theorem ini_blank_value_faults_witness:
  "ini_read_string (Some ([112] @ [61] @ [32] @ [10] @ [113, 61, 49, 10])) [112] 128 = None"
  by (rule ini_blank_value_faults) (simp_all add: plain_key_def)

text \<open>The name of a path is what follows its last slash, unless the only slash is the first byte.\<close>

lemma file_name_loop_ok:
  "n \<le> length s \<Longrightarrow> \<exists>i \<le> n. file_name_loop s n = Some i \<and> (\<forall>j < n. i \<le> j \<longrightarrow> 0 < j \<longrightarrow> s ! j \<noteq> 47) \<and>
     (0 < i \<longrightarrow> 1 < i \<and> s ! (i - 1) = 47)"
proof (induction n)
  case (Suc n)
  show ?case
  proof (cases "n = 0 \<or> s ! n = 47")
    case True
    then show ?thesis using Suc.prems by (auto simp: rd_def)
  next
    case False
    then have "file_name_loop s (Suc n) = file_name_loop s n" using Suc.prems by (simp add: rd_def)
    then show ?thesis using Suc False by (auto simp: less_Suc_eq)
  qed
qed simp

theorem file_name_last:
  assumes "strlen s = Some n"
  shows "\<exists>i \<le> n. file_name s = Some i \<and> (\<forall>j < n. i \<le> j \<longrightarrow> 0 < j \<longrightarrow> s ! j \<noteq> 47) \<and> (0 < i \<longrightarrow> 1 < i \<and> s ! (i - 1) = 47)"
proof -
  have "n \<le> length s"
    using assms length_takeWhile_le[of _ s] by (auto simp: strlen_def split: if_splits)
  then show ?thesis
    using file_name_loop_ok[of n s] assms by (cases "n = 0") (auto simp: file_name_def)
qed

end
