(* ===== verification/DbTool.thy ===== *)
theory DbTool
  imports IniFile
begin

text \<open>
  The access to the database (\<open>db_tool.c\<close>): the connection parameters, read from the configuration file and
  completed in it, and the statements and queries, which open the connection anew and try again when it is gone.
  The client library of MySQL is an argument: \<open>ans\<close> gives the result of a call, \<open>my_errno\<close> and \<open>my_fields\<close> what
  \<open>mysql_errno\<close> and \<open>mysql_field_count\<close> return, and \<open>my_row\<close> the first column of a fetched row, all of them from the
  calls made before, which the state records with their results.
\<close>

section \<open>The connection parameters\<close>

record db_config_t =
  host_ip :: "u8 list"
  user :: "u8 list"
  password :: "u8 list"
  port :: u32
  db_name :: "u8 list"
  read_timeout :: u32

text \<open>String literals of C.\<close>

definition lit :: "string \<Rightarrow> u8 list" where
  "lit s = map (\<lambda>c. word_of_nat (of_char c)) s"

text \<open>Reading a parameter, or writing its default; \<open>ok\<close> says whether the file can be written.\<close>

definition cfg_string :: "bool \<Rightarrow> u8 list \<Rightarrow> u8 list \<Rightarrow> u8 list option \<Rightarrow> (u8 list \<times> u8 list option) option" where
  "cfg_string ok key def conf = do {
     r \<leftarrow> ini_read_string conf key 128;
     case r of
       Some v \<Rightarrow> Some (v, conf)
     | None \<Rightarrow> Some (def, snd (ini_append_string ok conf key def)) }"

definition cfg_number :: "bool \<Rightarrow> u8 list \<Rightarrow> int \<Rightarrow> u8 list option \<Rightarrow> (int \<times> u8 list option) option" where
  "cfg_number ok key def conf = do {
     r \<leftarrow> ini_read_number conf key;
     case r of
       Some v \<Rightarrow> Some (v, conf)
     | None \<Rightarrow> Some (def, snd (ini_append_string ok conf key (sprint_d def))) }"

text \<open>The names of the parameters in \<open>config.h\<close> by the type of the database.\<close>

definition db_prefix :: "u8 \<Rightarrow> u8 list" where
  "db_prefix ty =
     (if ty = 1 then lit ''db_rds_''
      else if ty = 2 then lit ''db_account_''
      else if ty = 3 then lit ''global_db_''
      else if ty = 4 then lit ''sync_db_''
      else if ty = 5 then lit ''db_cloud_''
      else lit ''db_local_'')"

text \<open>The six branches differ in the names only; the default of name, user and password is the empty string in all.\<close>

definition get_db_conn_config :: "bool \<Rightarrow> u8 \<Rightarrow> u8 list option \<Rightarrow> (db_config_t \<times> u8 list option) option" where
  "get_db_conn_config ok ty conf = do {
     (t, conf) \<leftarrow> cfg_number ok (lit ''db_read_timeout'') 20 conf;
     (ip, conf) \<leftarrow> cfg_string ok (db_prefix ty @ lit ''ip'') (lit ''127.0.0.1'') conf;
     (po, conf) \<leftarrow> cfg_number ok (db_prefix ty @ lit ''port'') 3306 conf;
     (nm, conf) \<leftarrow> cfg_string ok (db_prefix ty @ lit ''name'') [] conf;
     (us, conf) \<leftarrow> cfg_string ok (db_prefix ty @ lit ''user'') [] conf;
     (pw, conf) \<leftarrow> cfg_string ok (db_prefix ty @ lit ''pass'') [] conf;
     Some (\<lparr>host_ip = ip, user = us, password = pw, port = word_of_int po, db_name = nm,
       read_timeout = word_of_int t\<rparr>, conf) }"

section \<open>Calls of the client library\<close>

datatype my_call =
    MInit
  | MSslSet "u8 list" "u8 list" "u8 list" "u8 list"
  | MReadTimeout u32
  | MWriteTimeout u32
  | MReconnect u32
  | MConnect db_config_t
  | MCharset
  | MQuery "u8 list"
  | MRealQuery "u8 list" u32
  | MStore
  | MFetch
  | MFreeResult int
  | MClose

type_synonym my_log = "(my_call \<times> int) list"

text \<open>Pointers that the library returns are numbers, zero is the null pointer.\<close>

record my_api =
  ans :: "my_log \<Rightarrow> my_call \<Rightarrow> int"
  my_errno :: "my_log \<Rightarrow> int"
  my_fields :: "my_log \<Rightarrow> int"
  my_row :: "my_log \<Rightarrow> u8 list option"

record db_state =
  db_log :: my_log
  db_conf :: "u8 list option"

definition call :: "my_api \<Rightarrow> my_call \<Rightarrow> db_state \<Rightarrow> int \<times> db_state" where
  "call api c s = (let a = ans api (db_log s) c in (a, s\<lparr>db_log := db_log s @ [(c, a)]\<rparr>))"

definition CR_SERVER_GONE_ERROR :: int where "CR_SERVER_GONE_ERROR = 2006"
definition CR_SERVER_LOST :: int where "CR_SERVER_LOST = 2013"
definition ER_DUP_ENTRY :: int where "ER_DUP_ENTRY = 1062"

definition db_gone :: "my_api \<Rightarrow> db_state \<Rightarrow> bool" where
  "db_gone api s \<longleftrightarrow> my_errno api (db_log s) = CR_SERVER_GONE_ERROR \<or> my_errno api (db_log s) = CR_SERVER_LOST"

section \<open>Opening and closing\<close>

definition db_ssl_set :: "my_api \<Rightarrow> bool \<Rightarrow> db_state \<Rightarrow> db_state option" where
  "db_ssl_set api ok s = do {
     v \<leftarrow> ini_read_number (db_conf s) (lit ''ssl-enable'');
     case v of
       None \<Rightarrow> Some (s\<lparr>db_conf := snd (ini_append_string ok (db_conf s) (lit ''ssl-enable'') (lit ''0''))\<rparr>)
     | Some v \<Rightarrow>
         if v = 0 then Some s
         else do {
           key \<leftarrow> ini_read_string (db_conf s) (lit ''ssl-clikey'') 256;
           case key of None \<Rightarrow> Some s | Some key \<Rightarrow> do {
           cert \<leftarrow> ini_read_string (db_conf s) (lit ''ssl-clicert'') 256;
           case cert of None \<Rightarrow> Some s | Some cert \<Rightarrow> do {
           ca \<leftarrow> ini_read_string (db_conf s) (lit ''ssl-ca'') 256;
           case ca of None \<Rightarrow> Some s | Some ca \<Rightarrow> do {
           path \<leftarrow> ini_read_string (db_conf s) (lit ''ssl-capath'') 256;
           case path of None \<Rightarrow> Some s | Some path \<Rightarrow> Some (snd (call api (MSslSet key cert ca path) s)) }}}}}"

definition db_type_open :: "my_api \<Rightarrow> bool \<Rightarrow> u8 \<Rightarrow> db_state \<Rightarrow> (int \<times> db_state) option" where
  "db_type_open api ok ty s =
     (case call api MInit s of (a, s) \<Rightarrow>
        if a = 0 then Some (-1, s)
        else do {
          (cfg, conf) \<leftarrow> get_db_conn_config ok ty (db_conf s);
          s \<leftarrow> db_ssl_set api ok (s\<lparr>db_conf := conf\<rparr>);
          let s = snd (call api (MReadTimeout (read_timeout cfg)) s);
          let s = snd (call api (MWriteTimeout (read_timeout cfg)) s);
          case call api (MConnect cfg) s of (a, s) \<Rightarrow>
            if a = 0 then Some (-1, s)
            else case call api MCharset (snd (call api (MReconnect 1) s)) of (a, s) \<Rightarrow>
              if a \<noteq> 0 then Some (-1, s) else Some (0, s) })"

definition db_open :: "my_api \<Rightarrow> bool \<Rightarrow> db_state \<Rightarrow> (int \<times> db_state) option" where
  "db_open api ok s = db_type_open api ok 2 s"

definition db_close :: "my_api \<Rightarrow> db_state \<Rightarrow> db_state" where
  "db_close api s = snd (call api MClose s)"

section \<open>Statements and queries\<close>

text \<open>Sending a statement; when the connection is gone it is opened anew and the statement is sent once more.  The
  result says whether it was taken, and otherwise whether the last error is one of sending (and not of opening).\<close>

definition db_send ::
    "my_api \<Rightarrow> (db_state \<Rightarrow> (int \<times> db_state) option) \<Rightarrow> my_call \<Rightarrow> db_state \<Rightarrow> (bool \<times> bool \<times> db_state) option" where
  "db_send api opn c s =
     (case call api c s of (a, s) \<Rightarrow>
        if a \<noteq> 0 then
          if db_gone api s then do {
            (r, s) \<leftarrow> opn (db_close api s);
            if r \<noteq> 0 then Some (False, False, s)
            else case call api c s of (a, s) \<Rightarrow> if a \<noteq> 0 then Some (False, True, s) else Some (True, True, s) }
          else Some (False, True, s)
        else Some (True, True, s))"

text \<open>The text of the four functions that query; \<open>null\<close> says that the handle is null, and \<open>sql\<close> is \<open>None\<close> for the
  null pointer.  The emptiness of binary statements is tested with \<open>strlen\<close> too.\<close>

definition sql_empty :: "u8 list option \<Rightarrow> bool" where
  "sql_empty sql \<longleftrightarrow> (case sql of None \<Rightarrow> True | Some b \<Rightarrow> b = [] \<or> hd b = 0)"

definition query_by ::
    "my_api \<Rightarrow> (db_state \<Rightarrow> (int \<times> db_state) option) \<Rightarrow> bool \<Rightarrow> u8 list option \<Rightarrow> my_call \<Rightarrow> db_state \<Rightarrow> (int \<times> db_state) option" where
  "query_by api opn null sql c s =
     (if null \<or> sql_empty sql then Some (0, s)
      else do {
        (sent, _, s) \<leftarrow> db_send api opn c s;
        if \<not> sent then Some (0, s) else Some (call api MStore s) })"

definition db_query :: "my_api \<Rightarrow> bool \<Rightarrow> bool \<Rightarrow> u8 list option \<Rightarrow> db_state \<Rightarrow> (int \<times> db_state) option" where
  "db_query api ok null sql s = query_by api (db_open api ok) null sql (MQuery (the sql)) s"

definition db_type_query :: "my_api \<Rightarrow> bool \<Rightarrow> u8 \<Rightarrow> bool \<Rightarrow> u8 list option \<Rightarrow> db_state \<Rightarrow> (int \<times> db_state) option" where
  "db_type_query api ok ty null sql s = query_by api (db_type_open api ok ty) null sql (MQuery (the sql)) s"

definition db_bin_query :: "my_api \<Rightarrow> bool \<Rightarrow> bool \<Rightarrow> u8 list option \<Rightarrow> u32 \<Rightarrow> db_state \<Rightarrow> (int \<times> db_state) option" where
  "db_bin_query api ok null sql len s = query_by api (db_open api ok) null sql (MRealQuery (the sql) len) s"

definition db_type_bin_query ::
    "my_api \<Rightarrow> bool \<Rightarrow> u8 \<Rightarrow> bool \<Rightarrow> u8 list option \<Rightarrow> u32 \<Rightarrow> db_state \<Rightarrow> (int \<times> db_state) option" where
  "db_type_bin_query api ok ty null sql len s =
     query_by api (db_type_open api ok ty) null sql (MRealQuery (the sql) len) s"

text \<open>The four functions that execute; \<open>dup\<close> says that a duplicate key is told by the result 1.\<close>

definition execute_by ::
    "my_api \<Rightarrow> (db_state \<Rightarrow> (int \<times> db_state) option) \<Rightarrow> bool \<Rightarrow> bool \<Rightarrow> u8 list option \<Rightarrow> my_call \<Rightarrow> db_state \<Rightarrow>
     (int \<times> db_state) option" where
  "execute_by api opn dup null sql c s =
     (if null \<or> sql_empty sql then Some (-1, s)
      else do {
        (sent, sending, s) \<leftarrow> db_send api opn c s;
        Some (if sent then 0 else if dup \<and> sending \<and> my_errno api (db_log s) = ER_DUP_ENTRY then 1 else -1, s) })"

definition execute_sql :: "my_api \<Rightarrow> bool \<Rightarrow> bool \<Rightarrow> u8 list option \<Rightarrow> db_state \<Rightarrow> (int \<times> db_state) option" where
  "execute_sql api ok null sql s = execute_by api (db_open api ok) False null sql (MQuery (the sql)) s"

definition db_type_execute_sql ::
    "my_api \<Rightarrow> bool \<Rightarrow> u8 \<Rightarrow> bool \<Rightarrow> u8 list option \<Rightarrow> db_state \<Rightarrow> (int \<times> db_state) option" where
  "db_type_execute_sql api ok ty null sql s = execute_by api (db_type_open api ok ty) True null sql (MQuery (the sql)) s"

definition execute_bin_sql :: "my_api \<Rightarrow> bool \<Rightarrow> bool \<Rightarrow> u8 list option \<Rightarrow> u32 \<Rightarrow> db_state \<Rightarrow> (int \<times> db_state) option" where
  "execute_bin_sql api ok null sql len s = execute_by api (db_open api ok) False null sql (MRealQuery (the sql) len) s"

definition db_type_bin_execute_sql ::
    "my_api \<Rightarrow> bool \<Rightarrow> u8 \<Rightarrow> bool \<Rightarrow> u8 list option \<Rightarrow> u32 \<Rightarrow> db_state \<Rightarrow> (int \<times> db_state) option" where
  "db_type_bin_execute_sql api ok ty null sql len s =
     execute_by api (db_type_open api ok ty) True null sql (MRealQuery (the sql) len) s"

text \<open>\<open>strncpy\<close> of a string without its zero byte: it is cut or filled up with zero bytes.\<close>

definition c_strncpy :: "u8 list \<Rightarrow> nat \<Rightarrow> u8 list" where
  "c_strncpy v n = take n (v @ replicate n 0)"

text \<open>The four functions that return the first column of the first row: \<open>maxlen\<close> is the size of the result buffer,
  \<open>None\<close> a null pointer; the returned buffer is \<open>None\<close> where the function returns the null pointer.\<close>

definition query_value_by ::
    "my_api \<Rightarrow> (db_state \<Rightarrow> (int \<times> db_state) option) \<Rightarrow> bool \<Rightarrow> u8 list option \<Rightarrow> nat option \<Rightarrow> db_state \<Rightarrow>
     (u8 list option \<times> db_state) option" where
  "query_value_by api qry null sql maxlen s =
     (if null \<or> sql = None then Some (None, s)
      else do {
        (res, s) \<leftarrow> qry s;
        if res = 0 then Some (None, s)
        else case call api MFetch s of (a, s) \<Rightarrow> do {
          out \<leftarrow> (case (if a = 0 then None else my_row api (db_log s)) of
                   None \<Rightarrow> Some None
                 | Some v \<Rightarrow> (case maxlen of None \<Rightarrow> None | Some n \<Rightarrow> Some (Some (c_strncpy v n))));
          Some (out, snd (call api (MFreeResult res) s)) } })"

definition db_query_value ::
    "my_api \<Rightarrow> bool \<Rightarrow> bool \<Rightarrow> u8 list option \<Rightarrow> nat option \<Rightarrow> db_state \<Rightarrow> (u8 list option \<times> db_state) option" where
  "db_query_value api ok null sql maxlen s = query_value_by api (db_query api ok null sql) null sql maxlen s"

definition db_type_query_value ::
    "my_api \<Rightarrow> bool \<Rightarrow> u8 \<Rightarrow> bool \<Rightarrow> u8 list option \<Rightarrow> nat option \<Rightarrow> db_state \<Rightarrow> (u8 list option \<times> db_state) option" where
  "db_type_query_value api ok ty null sql maxlen s = query_value_by api (db_type_query api ok ty null sql) null sql maxlen s"

definition db_bin_query_value ::
    "my_api \<Rightarrow> bool \<Rightarrow> bool \<Rightarrow> u8 list option \<Rightarrow> u32 \<Rightarrow> nat option \<Rightarrow> db_state \<Rightarrow> (u8 list option \<times> db_state) option" where
  "db_bin_query_value api ok null sql len maxlen s =
     query_value_by api (db_bin_query api ok null sql len) null sql maxlen s"

definition db_type_bin_query_value ::
    "my_api \<Rightarrow> bool \<Rightarrow> u8 \<Rightarrow> bool \<Rightarrow> u8 list option \<Rightarrow> u32 \<Rightarrow> nat option \<Rightarrow> db_state \<Rightarrow> (u8 list option \<times> db_state) option" where
  "db_type_bin_query_value api ok ty null sql len maxlen s =
     query_value_by api (db_type_bin_query api ok ty null sql len) null sql maxlen s"

definition db_result_count :: "my_api \<Rightarrow> db_state \<Rightarrow> int" where
  "db_result_count api s = my_fields api (db_log s)"

section \<open>The configuration file settles\<close>

definition db_keys :: "u8 \<Rightarrow> u8 list list" where
  "db_keys ty = lit ''db_read_timeout'' # map (\<lambda>x. db_prefix ty @ lit x) [''ip'', ''port'', ''name'', ''user'', ''pass'']"

definition number_keys :: "u8 list set" where
  "number_keys = {lit ''db_read_timeout'', lit ''ssl-enable''} \<union> range (\<lambda>ty. db_prefix ty @ lit ''port'')"

text \<open>A configuration file that can be read: its lines are complete, no line has a blank value, and the numbers
  are in the range of an \<open>int\<close>.\<close>

definition conf_ok :: "u8 list option \<Rightarrow> bool" where
  "conf_ok c \<longleftrightarrow> file_whole c \<and> (\<forall>j n. plain_key j \<longrightarrow> length j \<le> INI_BUF \<longrightarrow> file_scan c j n \<noteq> None) \<and>
     (\<forall>j \<in> number_keys. \<forall>v. file_scan c j 128 = Some (Found v) \<longrightarrow> c_atoi v \<noteq> None)"

definition short_key :: "u8 list \<Rightarrow> bool" where
  "short_key k \<longleftrightarrow> plain_key k \<and> length k \<le> 100"

lemma lit_simps [simp]: "lit [] = []" "lit (c # cs) = word_of_nat (of_char c) # lit cs"
  by (simp_all add: lit_def)

lemma db_prefix_plain:
  "x \<in> {0, 9, 10, 13, 32, 35, 61} \<Longrightarrow> x \<notin> set (db_prefix ty)" "length (db_prefix ty) \<le> 20"
  by (auto simp: db_prefix_def)

lemma conf_ok_scan:
  assumes "conf_ok c" "plain_key j" "length j \<le> INI_BUF"
  obtains r where "file_scan c j n = Some r"
  using assms unfolding conf_ok_def by blast

lemma short_key_plain: "short_key k \<Longrightarrow> plain_key k \<and> length k \<le> INI_BUF"
  by (simp add: short_key_def INI_BUF_def)

lemma short_db_keys: "k \<in> set (db_keys ty) \<Longrightarrow> short_key k"
  using db_prefix_plain(2)[of ty] by (auto simp: db_keys_def short_key_def plain_key_def db_prefix_plain(1))

lemma distinct_db_keys: "distinct (db_keys ty)"
  by (simp add: db_keys_def db_prefix_def)

lemma short_number_key: "k \<in> number_keys \<Longrightarrow> short_key k"
proof -
  have "short_key (db_prefix ty @ lit ''port'')" for ty
    by (rule short_db_keys[of _ ty]) (simp add: db_keys_def)
  moreover have "short_key (lit ''db_read_timeout'')" "short_key (lit ''ssl-enable'')"
    by (simp_all add: short_key_def plain_key_def)
  ultimately show "k \<in> number_keys \<Longrightarrow> ?thesis"
    unfolding number_keys_def by blast
qed

lemma conf_ok_number:
  assumes "conf_ok c" "j \<in> number_keys" "file_scan c j 128 = Some (Found v)"
  obtains n where "c_atoi v = Some n"
  using assms unfolding conf_ok_def by blast

text \<open>What adding a line for a key does to the other keys and to this one.\<close>

lemma add_line:
  assumes c: "conf_ok c" and k: "short_key k" and v: "good_value v" "length v \<le> 100"
    and num: "k \<in> number_keys \<Longrightarrow> c_atoi v \<noteq> None"
  shows "conf_ok (file_add c k v)"
    and "short_key j \<Longrightarrow> file_scan (file_add c k v) j 128 =
      Some (if file_scan c j 128 = Some NextLine then (if j = k then Found v else NextLine) else the (file_scan c j 128))"
proof -
  have k': "plain_key k" "length k + length v \<le> INI_BUF - 4" "length k \<le> INI_BUF"
    using k v(2) by (auto simp: short_key_def INI_BUF_def)
  have add: "file_scan (file_add c k v) j n =
      Some (if file_scan c j n = Some NextLine then (if j = k then if length v < n then Found v else TooLong else NextLine)
        else the (file_scan c j n))"
    if j: "plain_key j" "length j \<le> INI_BUF" for j n
  proof -
    obtain r where "file_scan c j n = Some r" using conf_ok_scan[OF c j] .
    then show ?thesis
      using file_add_scan(1)[of c j n r k v] c k' v(1) j by (simp add: conf_ok_def)
  qed
  show "file_scan (file_add c k v) j 128 =
      Some (if file_scan c j 128 = Some NextLine then (if j = k then Found v else NextLine) else the (file_scan c j 128))"
    if "short_key j"
    using add[of j 128] that v(2) by (simp add: short_key_def INI_BUF_def)
  have plain: "plain_key j \<and> length j \<le> INI_BUF" if "j \<in> number_keys" for j
    using that short_number_key short_key_plain by blast
  have "c_atoi w \<noteq> None" if j: "j \<in> number_keys" "file_scan (file_add c k v) j 128 = Some (Found w)" for j w
  proof (cases "file_scan c j 128 = Some NextLine")
    case True
    then show ?thesis using j add[of j 128] plain[OF j(1)] num v(2) by (auto split: if_splits)
  next
    case False
    obtain r where "file_scan c j 128 = Some r" using conf_ok_scan[OF c] plain[OF j(1)] by blast
    moreover from this have "r = Found w" using False j add[of j 128] plain[OF j(1)] by auto
    ultimately show ?thesis using conf_ok_number[OF c j(1)] by blast
  qed
  moreover have "file_whole (file_add c k v)"
    by (simp add: file_add_def ini_append_string_def file_whole_def whole_lines_def)
  ultimately show "conf_ok (file_add c k v)"
    using add unfolding conf_ok_def by auto
qed

text \<open>A parameter that has its value.\<close>

definition has_value :: "u8 list option \<Rightarrow> u8 list \<Rightarrow> u8 list \<Rightarrow> bool" where
  "has_value c k v \<longleftrightarrow> file_scan c k 128 = Some (Found v)"

definition fits :: "u8 list option \<Rightarrow> u8 list \<Rightarrow> bool" where
  "fits c k \<longleftrightarrow> file_scan c k 128 \<noteq> Some TooLong"

text \<open>The value that a parameter with a default has in a file.\<close>

definition conf_value :: "u8 list option \<Rightarrow> u8 list \<times> u8 list \<Rightarrow> u8 list" where
  "conf_value c = (\<lambda>(k, d). case file_scan c k 128 of Some (Found v) \<Rightarrow> v | _ \<Rightarrow> d)"

text \<open>What a step leaves of the other parameters.\<close>

definition conf_step :: "u8 list option \<Rightarrow> u8 list option \<Rightarrow> u8 list \<Rightarrow> bool" where
  "conf_step c c' k \<longleftrightarrow> conf_ok c' \<and>
     (\<forall>j. short_key j \<longrightarrow> j \<noteq> k \<longrightarrow> file_scan c' j 128 = file_scan c j 128)"

lemma conf_step_keep:
  assumes "conf_step c c' k" "short_key j" "j \<noteq> k"
  shows "has_value c j v \<Longrightarrow> has_value c' j v" "fits c j \<Longrightarrow> fits c' j" "conf_value c' (j, d) = conf_value c (j, d)"
  using assms by (auto simp: conf_step_def has_value_def fits_def conf_value_def)

lemma conf_step_add:
  assumes "conf_ok c" "short_key k" "good_value v" "length v \<le> 100" "k \<in> number_keys \<Longrightarrow> c_atoi v \<noteq> None"
  shows "conf_step c (file_add c k v) k"
proof -
  have "file_scan (file_add c k v) j 128 = file_scan c j 128" if j: "short_key j" "j \<noteq> k" for j
  proof -
    obtain r where "file_scan c j 128 = Some r"
      using conf_ok_scan[OF assms(1)] short_key_plain[OF j(1)] by blast
    then show ?thesis using add_line(2)[OF assms j(1)] j(2) by simp
  qed
  then show ?thesis using add_line(1)[OF assms] by (simp add: conf_step_def)
qed

lemma cfg_string_ok:
  assumes c: "conf_ok c" and k: "short_key k" "k \<notin> number_keys" and d: "good_value def" "length def \<le> 100"
  shows "\<exists>v c'. cfg_string ok k def c = Some (v, c') \<and> conf_step c c' k \<and>
    (ok \<longrightarrow> fits c k \<longrightarrow> has_value c' k v \<and> v = conf_value c (k, def))"
proof -
  obtain r where r: "file_scan c k 128 = Some r"
    using conf_ok_scan[OF c] short_key_plain[OF k(1)] by blast
  have same: "conf_step c c k" using c by (simp add: conf_step_def)
  show ?thesis
  proof (cases r)
    case (Found v)
    then have "cfg_string ok k def c = Some (v, c)"
      using r by (simp add: cfg_string_def ini_read_string_scan)
    then show ?thesis using same r Found by (auto simp: has_value_def conf_value_def)
  next
    case NextLine
    have "cfg_string ok k def c = Some (def, if ok then file_add c k def else c)"
      using r NextLine by (simp add: cfg_string_def ini_read_string_scan file_add_def ini_append_string_def)
    moreover have "has_value (file_add c k def) k def"
      using add_line(2)[OF c k(1) d _ k(1)] k(2) r NextLine by (simp add: has_value_def)
    ultimately show ?thesis
      using same conf_step_add[OF c k(1) d] k(2) r NextLine by (auto simp: conf_value_def)
  next
    case TooLong
    have "cfg_string ok k def c = Some (def, if ok then file_add c k def else c)"
      using r TooLong by (simp add: cfg_string_def ini_read_string_scan file_add_def ini_append_string_def)
    then show ?thesis
      using same conf_step_add[OF c k(1) d] k(2) r TooLong by (auto simp: fits_def)
  qed
qed

lemma cfg_number_ok:
  assumes c: "conf_ok c" and k: "short_key k" "k \<in> number_keys" and d: "0 \<le> def" "def < 2 ^ 31" "length (sprint_d def) \<le> 100"
  shows "\<exists>n v c'. cfg_number ok k def c = Some (n, c') \<and> conf_step c c' k \<and>
    (ok \<longrightarrow> fits c k \<longrightarrow> has_value c' k v \<and> v = conf_value c (k, sprint_d def) \<and> c_atoi v = Some n)"
proof -
  obtain r where r: "file_scan c k 128 = Some r"
    using conf_ok_scan[OF c] short_key_plain[OF k(1)] by blast
  have same: "conf_step c c k" using c by (simp add: conf_step_def)
  have at: "c_atoi (sprint_d def) = Some def" and g: "good_value (sprint_d def)"
    using d atoi_sprint[of def] sprint_good by auto
  have step: "conf_step c (file_add c k (sprint_d def)) k"
    using conf_step_add[OF c k(1) g d(3)] at by simp
  show ?thesis
  proof (cases r)
    case (Found v)
    then obtain n where "c_atoi v = Some n" using conf_ok_number[OF c k(2)] r by blast
    moreover from this have "cfg_number ok k def c = Some (n, c)"
      using r Found by (simp add: cfg_number_def ini_read_number_def ini_read_string_scan)
    ultimately show ?thesis using same r Found by (auto simp: has_value_def conf_value_def)
  next
    case NextLine
    have "cfg_number ok k def c = Some (def, if ok then file_add c k (sprint_d def) else c)"
      using r NextLine by (simp add: cfg_number_def ini_read_number_def ini_read_string_scan file_add_def ini_append_string_def)
    moreover have "has_value (file_add c k (sprint_d def)) k (sprint_d def)"
      using add_line(2)[OF c k(1) g d(3) _ k(1)] at r NextLine by (simp add: has_value_def)
    ultimately show ?thesis
      using same step at r NextLine by (auto simp: conf_value_def)
  next
    case TooLong
    have "cfg_number ok k def c = Some (def, if ok then file_add c k (sprint_d def) else c)"
      using r TooLong by (simp add: cfg_number_def ini_read_number_def ini_read_string_scan file_add_def ini_append_string_def)
    then show ?thesis
      using same step r TooLong by (auto simp: fits_def)
  qed
qed

lemma cfg_again:
  "has_value c k v \<Longrightarrow> cfg_string ok k def c = Some (v, c)"
  "has_value c k v \<Longrightarrow> c_atoi v = Some n \<Longrightarrow> cfg_number ok k d c = Some (n, c)"
  by (simp_all add: has_value_def cfg_string_def cfg_number_def ini_read_number_def ini_read_string_scan)

lemma number_key_cases:
  "lit ''db_read_timeout'' \<in> number_keys" "db_prefix ty @ lit ''port'' \<in> number_keys" "lit ''ssl-enable'' \<in> number_keys"
  "x \<in> {''ip'', ''name'', ''user'', ''pass''} \<Longrightarrow> db_prefix ty @ lit x \<notin> number_keys"
proof -
  show "lit ''db_read_timeout'' \<in> number_keys" "db_prefix ty @ lit ''port'' \<in> number_keys" "lit ''ssl-enable'' \<in> number_keys"
    by (auto simp: number_keys_def simp del: lit_simps)
  have ends: "last k \<noteq> (112 :: u8) \<and> last k \<noteq> 115 \<and> (last k = 101 \<longrightarrow> k = lit ''ssl-enable'') \<and> (last k = 114 \<longrightarrow> False)"
    if "k \<in> number_keys" for k
    using that by (auto simp: number_keys_def)
  show "x \<in> {''ip'', ''name'', ''user'', ''pass''} \<Longrightarrow> db_prefix ty @ lit x \<notin> number_keys"
    using ends[of "db_prefix ty @ lit x"] by (auto simp: db_prefix_def split: if_splits)
qed

text \<open>The parameters with their defaults, and what they say when they are put together.\<close>

definition db_defaults :: "u8 \<Rightarrow> (u8 list \<times> u8 list) list" where
  "db_defaults ty = zip (db_keys ty) [sprint_d 20, lit ''127.0.0.1'', sprint_d 3306, [], [], []]"

fun config_of :: "u8 list list \<Rightarrow> db_config_t option" where
  "config_of [t, i, po, nm, us, pw] = do {
     t \<leftarrow> c_atoi t;
     po \<leftarrow> c_atoi po;
     Some \<lparr>host_ip = i, user = us, password = pw, port = word_of_int po, db_name = nm, read_timeout = word_of_int t\<rparr> }"
| "config_of _ = None"

lemma get_db_conn_config_ok:
  assumes c: "conf_ok c"
  shows "\<exists>cfg c'. get_db_conn_config ok ty c = Some (cfg, c') \<and> conf_ok c' \<and>
    (\<forall>j. short_key j \<longrightarrow> j \<notin> set (db_keys ty) \<longrightarrow> file_scan c' j 128 = file_scan c j 128) \<and>
    (ok \<longrightarrow> (\<forall>k \<in> set (db_keys ty). fits c k) \<longrightarrow>
      (\<forall>(k, d) \<in> set (db_defaults ty). has_value c' k (conf_value c (k, d))) \<and>
      config_of (map (conf_value c) (db_defaults ty)) = Some cfg \<and> get_db_conn_config ok ty c' = Some (cfg, c'))"
proof -
  let ?k0 = "lit ''db_read_timeout''" let ?p = "db_prefix ty"
  let ?k1 = "?p @ lit ''ip''" let ?k2 = "?p @ lit ''port''" let ?k3 = "?p @ lit ''name''"
  let ?k4 = "?p @ lit ''user''" let ?k5 = "?p @ lit ''pass''"
  have ks: "db_keys ty = [?k0, ?k1, ?k2, ?k3, ?k4, ?k5]" by (simp add: db_keys_def)
  have sk: "short_key ?k0" "short_key ?k1" "short_key ?k2" "short_key ?k3" "short_key ?k4" "short_key ?k5"
    by (rule short_db_keys[of _ ty], simp only: ks list.set insert_iff simp_thms)+
  have ne: "distinct [?k0, ?k1, ?k2, ?k3, ?k4, ?k5]"
    using distinct_db_keys[of ty] unfolding ks .
  have ip: "good_value (lit ''127.0.0.1'')" "length (lit ''127.0.0.1'') \<le> 100"
    by (simp_all add: good_value_def is_blank_def)
  have nil: "good_value []" "length ([] :: u8 list) \<le> 100"
    by (simp_all add: good_value_def)
  have d20: "length (sprint_d 20) \<le> 100" "length (sprint_d 3306) \<le> 100"
    by (simp_all add: sprint_d_def dec_digits.simps)
  obtain t v0 c0 where s0: "cfg_number ok ?k0 20 c = Some (t, c0)" "conf_step c c0 ?k0"
      "ok \<longrightarrow> fits c ?k0 \<longrightarrow> has_value c0 ?k0 v0 \<and> v0 = conf_value c (?k0, sprint_d 20) \<and> c_atoi v0 = Some t"
    using cfg_number_ok[OF c sk(1) number_key_cases(1), of 20 ok] d20 by auto
  have o0: "conf_ok c0" using s0(2) by (simp add: conf_step_def)
  obtain i c1 where s1: "cfg_string ok ?k1 (lit ''127.0.0.1'') c0 = Some (i, c1)" "conf_step c0 c1 ?k1"
      "ok \<longrightarrow> fits c0 ?k1 \<longrightarrow> has_value c1 ?k1 i \<and> i = conf_value c0 (?k1, lit ''127.0.0.1'')"
    using cfg_string_ok[OF o0 sk(2) number_key_cases(4) ip, of ok] by auto
  have o1: "conf_ok c1" using s1(2) by (simp add: conf_step_def)
  obtain po v2 c2 where s2: "cfg_number ok ?k2 3306 c1 = Some (po, c2)" "conf_step c1 c2 ?k2"
      "ok \<longrightarrow> fits c1 ?k2 \<longrightarrow> has_value c2 ?k2 v2 \<and> v2 = conf_value c1 (?k2, sprint_d 3306) \<and> c_atoi v2 = Some po"
    using cfg_number_ok[OF o1 sk(3) number_key_cases(2), of 3306 ok] d20 by auto
  have o2: "conf_ok c2" using s2(2) by (simp add: conf_step_def)
  obtain nm c3 where s3: "cfg_string ok ?k3 [] c2 = Some (nm, c3)" "conf_step c2 c3 ?k3"
      "ok \<longrightarrow> fits c2 ?k3 \<longrightarrow> has_value c3 ?k3 nm \<and> nm = conf_value c2 (?k3, [])"
    using cfg_string_ok[OF o2 sk(4) number_key_cases(4) nil, of ok] by auto
  have o3: "conf_ok c3" using s3(2) by (simp add: conf_step_def)
  obtain us c4 where s4: "cfg_string ok ?k4 [] c3 = Some (us, c4)" "conf_step c3 c4 ?k4"
      "ok \<longrightarrow> fits c3 ?k4 \<longrightarrow> has_value c4 ?k4 us \<and> us = conf_value c3 (?k4, [])"
    using cfg_string_ok[OF o3 sk(5) number_key_cases(4) nil, of ok] by auto
  have o4: "conf_ok c4" using s4(2) by (simp add: conf_step_def)
  obtain pw c5 where s5: "cfg_string ok ?k5 [] c4 = Some (pw, c5)" "conf_step c4 c5 ?k5"
      "ok \<longrightarrow> fits c4 ?k5 \<longrightarrow> has_value c5 ?k5 pw \<and> pw = conf_value c4 (?k5, [])"
    using cfg_string_ok[OF o4 sk(6) number_key_cases(4) nil, of ok] by auto
  let ?cfg = "\<lparr>host_ip = i, user = us, password = pw, port = word_of_int po, db_name = nm, read_timeout = word_of_int t\<rparr>"
  have run: "get_db_conn_config ok ty c = Some (?cfg, c5)"
    by (simp only: get_db_conn_config_def s0(1) s1(1) s2(1) s3(1) s4(1) s5(1) bind.simps prod.case)
  have other: "file_scan c5 j 128 = file_scan c j 128" if "short_key j" "j \<notin> set (db_keys ty)" for j
    using s0(2) s1(2) s2(2) s3(2) s4(2) s5(2) that unfolding ks conf_step_def by simp
  have "(\<forall>(k, d) \<in> set (db_defaults ty). has_value c5 k (conf_value c (k, d))) \<and>
      config_of (map (conf_value c) (db_defaults ty)) = Some ?cfg \<and> get_db_conn_config ok ty c5 = Some (?cfg, c5)"
    if ok and fit: "\<forall>k \<in> set (db_keys ty). fits c k"
  proof -
    have f: "fits c ?k0" "fits c ?k1" "fits c ?k2" "fits c ?k3" "fits c ?k4" "fits c ?k5"
      using fit unfolding ks by simp_all
    have lt: "?k0 \<noteq> ?k1" "?k0 \<noteq> ?k2" "?k0 \<noteq> ?k3" "?k0 \<noteq> ?k4" "?k0 \<noteq> ?k5" "?k1 \<noteq> ?k2" "?k1 \<noteq> ?k3"
        "?k1 \<noteq> ?k4" "?k1 \<noteq> ?k5" "?k2 \<noteq> ?k3" "?k2 \<noteq> ?k4" "?k2 \<noteq> ?k5" "?k3 \<noteq> ?k4" "?k3 \<noteq> ?k5" "?k4 \<noteq> ?k5"
      using ne unfolding distinct.simps list.set insert_iff by blast+
    note gt = lt[THEN not_sym]
    have f0: "fits c0 ?k1" "fits c0 ?k2" "fits c0 ?k3" "fits c0 ?k4" "fits c0 ?k5"
      by (intro conf_step_keep(2)[OF s0(2)] sk f gt)+
    have f1: "fits c1 ?k2" "fits c1 ?k3" "fits c1 ?k4" "fits c1 ?k5"
      by (intro conf_step_keep(2)[OF s1(2)] sk f0 gt)+
    have f2: "fits c2 ?k3" "fits c2 ?k4" "fits c2 ?k5"
      by (intro conf_step_keep(2)[OF s2(2)] sk f1 gt)+
    have f3: "fits c3 ?k4" "fits c3 ?k5"
      by (intro conf_step_keep(2)[OF s3(2)] sk f2 gt)+
    have f4: "fits c4 ?k5"
      by (intro conf_step_keep(2)[OF s4(2)] sk f3 gt)
    have v: "has_value c0 ?k0 v0" "c_atoi v0 = Some t" "has_value c1 ?k1 i" "has_value c2 ?k2 v2" "c_atoi v2 = Some po"
        "has_value c3 ?k3 nm" "has_value c4 ?k4 us" "has_value c5 ?k5 pw"
      using \<open>ok\<close> s0(3) s1(3) s2(3) s3(3) s4(3) s5(3) f(1) f0(1) f1(1) f2(1) f3(1) f4 by blast+
    have "has_value c5 ?k0 v0" "has_value c5 ?k1 i" "has_value c5 ?k2 v2" "has_value c5 ?k3 nm" "has_value c5 ?k4 us"
      by (intro conf_step_keep(1)[OF s5(2)] conf_step_keep(1)[OF s4(2)] conf_step_keep(1)[OF s3(2)]
          conf_step_keep(1)[OF s2(2)] conf_step_keep(1)[OF s1(2)] sk v lt)+
    note has = this v(8)
    then have again: "get_db_conn_config ok ty c5 = Some (?cfg, c5)"
      using v(2,5) by (simp only: get_db_conn_config_def cfg_again bind.simps prod.case)
    have e0: "conf_value c0 (?k1, d1) = conf_value c (?k1, d1)" "conf_value c0 (?k2, d2) = conf_value c (?k2, d2)" "conf_value c0 (?k3, d3) = conf_value c (?k3, d3)" "conf_value c0 (?k4, d4) = conf_value c (?k4, d4)" "conf_value c0 (?k5, d5) = conf_value c (?k5, d5)"
      for d1 d2 d3 d4 d5
      by (intro conf_step_keep(3)[OF s0(2)] sk gt)+
    have e1: "conf_value c1 (?k2, d2) = conf_value c (?k2, d2)" "conf_value c1 (?k3, d3) = conf_value c (?k3, d3)" "conf_value c1 (?k4, d4) = conf_value c (?k4, d4)" "conf_value c1 (?k5, d5) = conf_value c (?k5, d5)"
      for d2 d3 d4 d5
      by (rule trans[OF conf_step_keep(3)[OF s1(2)]], rule sk, rule gt, rule e0)+
    have e2: "conf_value c2 (?k3, d3) = conf_value c (?k3, d3)" "conf_value c2 (?k4, d4) = conf_value c (?k4, d4)" "conf_value c2 (?k5, d5) = conf_value c (?k5, d5)"
      for d3 d4 d5
      by (rule trans[OF conf_step_keep(3)[OF s2(2)]], rule sk, rule gt, rule e1)+
    have e3: "conf_value c3 (?k4, d4) = conf_value c (?k4, d4)" "conf_value c3 (?k5, d5) = conf_value c (?k5, d5)"
      for d4 d5
      by (rule trans[OF conf_step_keep(3)[OF s3(2)]], rule sk, rule gt, rule e2)+
    have e4: "conf_value c4 (?k5, d5) = conf_value c (?k5, d5)"
      for d5
      by (rule trans[OF conf_step_keep(3)[OF s4(2)]], rule sk, rule gt, rule e3)+
    have raw: "v0 = conf_value c (?k0, sprint_d 20)" "i = conf_value c0 (?k1, lit ''127.0.0.1'')"
        "v2 = conf_value c1 (?k2, sprint_d 3306)" "nm = conf_value c2 (?k3, [])" "us = conf_value c3 (?k4, [])" "pw = conf_value c4 (?k5, [])"
      using \<open>ok\<close> s0(3) s1(3) s2(3) s3(3) s4(3) s5(3) f(1) f0(1) f1(1) f2(1) f3(1) f4 by blast+
    have vals: "v0 = conf_value c (?k0, sprint_d 20)" "i = conf_value c (?k1, lit ''127.0.0.1'')"
        "v2 = conf_value c (?k2, sprint_d 3306)" "nm = conf_value c (?k3, [])" "us = conf_value c (?k4, [])"
        "pw = conf_value c (?k5, [])"
      using raw unfolding e0 e1 e2 e3 e4 by this+
    have dk: "db_defaults ty = [(?k0, sprint_d 20), (?k1, lit ''127.0.0.1''), (?k2, sprint_d 3306), (?k3, []), (?k4, []), (?k5, [])]"
      unfolding db_defaults_def ks by (simp only: zip_Cons_Cons zip_Nil)
    have "map (conf_value c) (db_defaults ty) = [v0, i, v2, nm, us, pw]"
      unfolding dk by (simp only: list.map vals[symmetric])
    moreover have "config_of [v0, i, v2, nm, us, pw] = Some ?cfg" by (simp only: config_of.simps v bind.simps)
    ultimately have "config_of (map (conf_value c) (db_defaults ty)) = Some ?cfg" by (simp only:)
    moreover have "\<forall>(k, d) \<in> set (db_defaults ty). has_value c5 k (conf_value c (k, d))"
      unfolding dk using has unfolding vals by (simp only: list.set ball_simps prod.case simp_thms)
    ultimately show ?thesis using again by simp
  qed
  then show ?thesis
    using run s5(2) other by (auto simp: conf_step_def)
qed


lemma conf_ok_missing: "conf_ok None"
  by (simp add: conf_ok_def file_whole_def file_scan_def)


end
