(* ===== verification/DbCalls.thy ===== *)
theory DbCalls
  imports DbTool
begin

text \<open>
  The calls that \<open>db_tool.c\<close> makes to the client library of MySQL: a handle is set up before it is used, connected
  and closed once, results are freed once, and a statement is sent at most twice, the second time only when the
  server has not taken the first one.
\<close>

section \<open>The protocol of the client library\<close>

datatype handle = HClosed | HInited | HConnected

text \<open>The handle and the number of results that have not been freed.\<close>

fun proto_step :: "my_call \<times> int \<Rightarrow> handle \<times> nat \<Rightarrow> (handle \<times> nat) option" where
  "proto_step (MInit, a) (h, n) = (if h = HClosed then Some (if a \<noteq> 0 then HInited else HClosed, n) else None)"
| "proto_step (MSslSet k ce ca p, a) (h, n) = (if h = HInited then Some (h, n) else None)"
| "proto_step (MReadTimeout t, a) (h, n) = (if h = HInited then Some (h, n) else None)"
| "proto_step (MWriteTimeout t, a) (h, n) = (if h = HInited then Some (h, n) else None)"
| "proto_step (MConnect cfg, a) (h, n) = (if h = HInited then Some (if a \<noteq> 0 then HConnected else HInited, n) else None)"
| "proto_step (MReconnect r, a) (h, n) = (if h = HConnected then Some (h, n) else None)"
| "proto_step (MCharset, a) (h, n) = (if h = HConnected then Some (h, n) else None)"
| "proto_step (MQuery q, a) (h, n) = (if h \<noteq> HClosed then Some (h, n) else None)"
| "proto_step (MRealQuery q l, a) (h, n) = (if h \<noteq> HClosed then Some (h, n) else None)"
| "proto_step (MStore, a) (h, n) = (if h \<noteq> HClosed then Some (h, if a \<noteq> 0 then Suc n else n) else None)"
| "proto_step (MFetch, a) (h, n) = (if 0 < n then Some (h, n) else None)"
| "proto_step (MFreeResult r, a) (h, n) = (if r \<noteq> 0 \<and> 0 < n then Some (h, n - 1) else None)"
| "proto_step (MClose, a) (h, n) = (if h \<noteq> HClosed then Some (HClosed, n) else None)"

fun is_send :: "my_call \<Rightarrow> bool" where
  "is_send (MQuery q) = True"
| "is_send (MRealQuery q l) = True"
| "is_send _ = False"

definition sends :: "my_log \<Rightarrow> my_log" where
  "sends l = filter (\<lambda>x. is_send (fst x)) l"

lemma sends_simps [simp]:
  "sends [] = []" "sends (x # l) = (if is_send (fst x) then x # sends l else sends l)" "sends (l @ m) = sends l @ sends m"
  by (simp_all add: sends_def)

text \<open>From \<open>s\<close> to \<open>s'\<close> the calls obey the protocol, send \<open>q\<close>, and leave a file that can be read.\<close>

definition obeys :: "db_state \<Rightarrow> handle \<times> nat \<Rightarrow> my_log \<Rightarrow> db_state \<Rightarrow> handle \<times> nat \<Rightarrow> bool" where
  "obeys s p q s' p' \<longleftrightarrow> conf_ok (db_conf s') \<and>
     (\<exists>l. db_log s' = db_log s @ l \<and> foldM proto_step l p = Some p' \<and> sends l = q)"

lemma obeys_refl: "conf_ok (db_conf s) \<Longrightarrow> obeys s p [] s p"
  by (auto simp: obeys_def)

lemma obeys_trans: "obeys s p q s1 p1 \<Longrightarrow> obeys s1 p1 q' s2 p2 \<Longrightarrow> obeys s p (q @ q') s2 p2"
  unfolding obeys_def by (metis (no_types, lifting) append.assoc bind.simps(2) foldM_append sends_simps(3))

lemma obeys_conf: "obeys s p q s1 p1 \<Longrightarrow> conf_ok c \<Longrightarrow> obeys s p q (s1\<lparr>db_conf := c\<rparr>) p1"
  by (auto simp: obeys_def)

lemma obeys_ok: "obeys s p q s1 p1 \<Longrightarrow> conf_ok (db_conf s1)"
  by (simp add: obeys_def)

lemma obeys_call:
  assumes "obeys s p q s1 p1" "proto_step (c, ans api (db_log s1) c) p1 = Some p2"
  shows "obeys s p (q @ (if is_send c then [(c, ans api (db_log s1) c)] else [])) (snd (call api c s1)) p2"
proof -
  have "obeys s1 p1 (if is_send c then [(c, ans api (db_log s1) c)] else []) (snd (call api c s1)) p2"
    using assms by (simp add: obeys_def call_def Let_def)
  then show ?thesis by (rule obeys_trans[OF assms(1)])
qed

lemma call_case: "(case call api c s of (a, s) \<Rightarrow> f a s) = f (ans api (db_log s) c) (snd (call api c s))"
  by (simp add: call_def Let_def)

lemma call_eq: "call api c s = (ans api (db_log s) c, s\<lparr>db_log := db_log s @ [(c, ans api (db_log s) c)]\<rparr>)"
  by (simp add: call_def Let_def)

section \<open>Opening\<close>

lemma conf_ok_read:
  assumes "conf_ok c" "short_key k" obtains r where "ini_read_string c k n = Some r"
proof -
  obtain x where "file_scan c k n = Some x"
    using conf_ok_scan[OF assms(1)] short_key_plain[OF assms(2)] by blast
  then show ?thesis using that by (cases x) (auto simp: ini_read_string_scan)
qed

lemma db_ssl_set_ok:
  assumes o: "obeys s p q s1 (HInited, n)"
  shows "\<exists>s'. db_ssl_set api ok s1 = Some s' \<and> obeys s p q s' (HInited, n)"
proof -
  let ?c = "db_conf s1" let ?e = "lit ''ssl-enable''"
  have c: "conf_ok ?c" using o by (rule obeys_ok)
  have k: "short_key ?e" "short_key (lit ''ssl-clikey'')" "short_key (lit ''ssl-clicert'')" "short_key (lit ''ssl-ca'')"
      "short_key (lit ''ssl-capath'')"
    by (simp_all add: short_key_def plain_key_def)
  obtain r where r: "ini_read_string ?c ?e 128 = Some r"
    using conf_ok_read[OF c k(1)] .
  show ?thesis
  proof (cases r)
    case None
    have "conf_ok (file_add ?c ?e (lit ''0''))"
    proof (rule add_line(1)[OF c k(1)])
      show "good_value (lit ''0'')" "length (lit ''0'') \<le> 100"
        by (simp_all add: good_value_def is_blank_def)
      show "c_atoi (lit ''0'') \<noteq> None"
        by (simp add: c_atoi_def is_space_def is_digit_def)
    qed
    moreover have "db_ssl_set api ok s1 = Some (s1\<lparr>db_conf := if ok then file_add ?c ?e (lit ''0'') else ?c\<rparr>)"
      using r None by (simp add: db_ssl_set_def ini_read_number_def file_add_def ini_append_string_def del: lit_simps)
    ultimately show ?thesis using o obeys_conf c by (cases ok) auto
  next
    case (Some v)
    then have "file_scan ?c ?e 128 = Some (Found v)"
      using r by (auto simp: ini_read_string_scan split: option.splits ini_res.splits)
    then obtain x where x: "c_atoi v = Some x"
      using conf_ok_number[OF c number_key_cases(3)] by blast
    obtain a1 where a1: "ini_read_string ?c (lit ''ssl-clikey'') 256 = Some a1" using conf_ok_read[OF c k(2)] .
    obtain a2 where a2: "ini_read_string ?c (lit ''ssl-clicert'') 256 = Some a2" using conf_ok_read[OF c k(3)] .
    obtain a3 where a3: "ini_read_string ?c (lit ''ssl-ca'') 256 = Some a3" using conf_ok_read[OF c k(4)] .
    obtain a4 where a4: "ini_read_string ?c (lit ''ssl-capath'') 256 = Some a4" using conf_ok_read[OF c k(5)] .
    have set: "obeys s p q (snd (call api (MSslSet b1 b2 b3 b4) s1)) (HInited, n)" for b1 b2 b3 b4
      using obeys_call[OF o, of "MSslSet b1 b2 b3 b4" api "(HInited, n)"] by simp
    show ?thesis
      using o set r Some x a1 a2 a3 a4
      by (auto simp: db_ssl_set_def ini_read_number_def simp del: lit_simps split: option.split)
  qed
qed

lemma db_type_open_ok:
  assumes init: "\<forall>l. ans api l MInit \<noteq> 0" and o: "obeys s p q s1 (HClosed, n)"
  shows "\<exists>r s' h. db_type_open api ok ty s1 = Some (r, s') \<and> obeys s p q s' (h, n) \<and> h \<noteq> HClosed"
proof -
  let ?s2 = "snd (call api MInit s1)"
  have o2: "obeys s p q ?s2 (HInited, n)"
    using obeys_call[OF o, of MInit api "(HInited, n)"] init by simp
  obtain cfg c where c: "get_db_conn_config ok ty (db_conf ?s2) = Some (cfg, c)" "conf_ok c"
    using get_db_conn_config_ok[OF obeys_ok[OF o2], of ok ty] by blast
  obtain s3 where s3: "db_ssl_set api ok (?s2\<lparr>db_conf := c\<rparr>) = Some s3" "obeys s p q s3 (HInited, n)"
    using db_ssl_set_ok[OF obeys_conf[OF o2 c(2)]] by blast
  let ?s4 = "snd (call api (MReadTimeout (read_timeout cfg)) s3)"
  let ?s5 = "snd (call api (MWriteTimeout (read_timeout cfg)) ?s4)"
  let ?s6 = "snd (call api (MConnect cfg) ?s5)"
  let ?s7 = "snd (call api (MReconnect 1) ?s6)"
  let ?s8 = "snd (call api MCharset ?s7)"
  have o4: "obeys s p q ?s4 (HInited, n)"
    using obeys_call[OF s3(2), of "MReadTimeout (read_timeout cfg)" api "(HInited, n)"] by simp
  have o5: "obeys s p q ?s5 (HInited, n)"
    using obeys_call[OF o4, of "MWriteTimeout (read_timeout cfg)" api "(HInited, n)"] by simp
  let ?a = "ans api (db_log ?s5) (MConnect cfg)"
  have o6: "obeys s p q ?s6 (if ?a \<noteq> 0 then HConnected else HInited, n)"
    using obeys_call[OF o5, of "MConnect cfg" api "(if ?a \<noteq> 0 then HConnected else HInited, n)"] by simp
  have run: "db_type_open api ok ty s1 =
      (if ?a = 0 then Some (-1, ?s6) else if ans api (db_log ?s7) MCharset \<noteq> 0 then Some (-1, ?s8) else Some (0, ?s8))"
    using init c s3(1)
    by (simp add: db_type_open_def Let_def call_case)
  show ?thesis
  proof (cases "?a = 0")
    case True
    then show ?thesis using run o6 by auto
  next
    case False
    then have "obeys s p q ?s6 (HConnected, n)" using o6 by simp
    from obeys_call[OF this, of "MReconnect 1" api "(HConnected, n)"] have "obeys s p q ?s7 (HConnected, n)" by simp
    from obeys_call[OF this, of MCharset api "(HConnected, n)"] have "obeys s p q ?s8 (HConnected, n)" by simp
    then show ?thesis using run False by (cases "ans api (db_log ?s7) MCharset = 0") auto
  qed
qed

section \<open>Sending\<close>

text \<open>What the sends of a statement say: one or two, the first of two was not taken, and the result is that of the
  last.\<close>

definition sent_as :: "my_call \<Rightarrow> bool \<Rightarrow> my_log \<Rightarrow> bool" where
  "sent_as c sent q \<longleftrightarrow> (\<exists>a. q = [(c, a)] \<and> (sent \<longleftrightarrow> a = 0)) \<or> (\<exists>a b. q = [(c, a), (c, b)] \<and> a \<noteq> 0 \<and> (sent \<longleftrightarrow> b = 0))"

definition opens :: "my_api \<Rightarrow> (db_state \<Rightarrow> (int \<times> db_state) option) \<Rightarrow> bool" where
  "opens api opn \<longleftrightarrow> (\<exists>ok ty. opn = db_type_open api ok ty)"

lemma opens_simps [simp]: "opens api (db_type_open api ok ty)" "opens api (db_open api ok)"
  by (auto simp: opens_def db_open_def[abs_def])

lemma db_send_ok:
  assumes init: "\<forall>l. ans api l MInit \<noteq> 0" and opn: "opens api opn" and c: "is_send c"
    and s: "conf_ok (db_conf s)" and h: "h \<noteq> HClosed"
  shows "\<exists>sent sending s' h' q. db_send api opn c s = Some (sent, sending, s') \<and> obeys s (h, n) q s' (h', n) \<and>
    h' \<noteq> HClosed \<and> sent_as c sent q"
proof -
  have step: "proto_step (c, a) (g, m) = (if g \<noteq> HClosed then Some (g, m) else None)" for a g m
    using c by (cases c) auto
  let ?a = "ans api (db_log s) c" let ?s1 = "snd (call api c s)"
  have o1: "obeys s (h, n) [(c, ?a)] ?s1 (h, n)"
    using obeys_call[OF obeys_refl[OF s, of "(h, n)"], of c api "(h, n)"] h c by (simp add: step)
  show ?thesis
  proof (cases "?a \<noteq> 0 \<and> db_gone api ?s1")
    case False
    then have "\<exists>g. db_send api opn c s = Some (?a = 0, g, ?s1)"
      by (auto simp: db_send_def call_case)
    moreover have "sent_as c (?a = 0) [(c, ?a)]" by (simp add: sent_as_def)
    ultimately show ?thesis using o1 h by blast
  next
    case True
    let ?s2 = "db_close api ?s1"
    have "obeys s (h, n) [(c, ?a)] ?s2 (HClosed, n)"
      using obeys_call[OF o1, of MClose api "(HClosed, n)"] h by (simp add: db_close_def)
    then obtain r s3 h3 where s3: "opn ?s2 = Some (r, s3)" "obeys s (h, n) [(c, ?a)] s3 (h3, n)" "h3 \<noteq> HClosed"
      using db_type_open_ok[OF init] opn unfolding opens_def by metis
    show ?thesis
    proof (cases "r = 0")
      case False
      then have "db_send api opn c s = Some (False, False, s3)"
        using True s3(1) by (simp add: db_send_def call_case)
      moreover have "sent_as c False [(c, ?a)]" using True by (simp add: sent_as_def)
      ultimately show ?thesis using s3 by blast
    next
      case r: True
      let ?b = "ans api (db_log s3) c" let ?s4 = "snd (call api c s3)"
      have "obeys s (h, n) ([(c, ?a)] @ [(c, ?b)]) ?s4 (h3, n)"
        using obeys_call[OF s3(2), of c api "(h3, n)"] s3(3) c by (simp add: step)
      moreover have "db_send api opn c s = Some (?b = 0, True, ?s4)"
        using True s3(1) r by (simp add: db_send_def call_case)
      moreover have "sent_as c (?b = 0) ([(c, ?a)] @ [(c, ?b)])" using True by (simp add: sent_as_def)
      ultimately show ?thesis using s3(3) by blast
    qed
  qed
qed

lemma query_by_ok:
  assumes init: "\<forall>l. ans api l MInit \<noteq> 0" and opn: "opens api opn" and c: "is_send c"
    and s: "conf_ok (db_conf s)" and h: "h \<noteq> HClosed"
  shows "\<exists>res s' h' q. query_by api opn null sql c s = Some (res, s') \<and>
    obeys s (h, n) q s' (h', if res \<noteq> 0 then Suc n else n) \<and> h' \<noteq> HClosed \<and> length q \<le> 2"
proof (cases "null \<or> sql_empty sql")
  case True
  then show ?thesis using obeys_refl[OF s] h by (fastforce simp: query_by_def)
next
  case False
  obtain sent sending s1 h1 q where s1: "db_send api opn c s = Some (sent, sending, s1)" "obeys s (h, n) q s1 (h1, n)"
      "h1 \<noteq> HClosed" "sent_as c sent q"
    using db_send_ok[OF init opn c s h] by blast
  have len: "length q \<le> 2" using s1(4) by (auto simp: sent_as_def)
  let ?r = "ans api (db_log s1) MStore"
  have "obeys s (h, n) q (snd (call api MStore s1)) (h1, if ?r \<noteq> 0 then Suc n else n)"
    using obeys_call[OF s1(2), of MStore api "(h1, if ?r \<noteq> 0 then Suc n else n)"] s1(3) by simp
  then have "\<exists>res s'. (if sent then Some (call api MStore s1) else Some (0, s1)) = Some (res, s') \<and>
      obeys s (h, n) q s' (h1, if res \<noteq> 0 then Suc n else n)"
    using s1(2) by (cases sent) (auto simp: call_eq)
  then show ?thesis
    using False s1(1,3) len by (fastforce simp: query_by_def split: if_splits)
qed

lemma execute_by_ok:
  assumes init: "\<forall>l. ans api l MInit \<noteq> 0" and opn: "opens api opn" and c: "is_send c"
    and s: "conf_ok (db_conf s)" and h: "h \<noteq> HClosed" and sql: "\<not> null" "\<not> sql_empty sql"
  shows "\<exists>r s' h' q. execute_by api opn dup null sql c s = Some (r, s') \<and> obeys s (h, n) q s' (h', n) \<and> h' \<noteq> HClosed \<and>
    sent_as c (r = 0) q"
  using db_send_ok[OF init opn c s h, of n] sql by (fastforce simp: execute_by_def)

lemma query_value_by_ok:
  assumes init: "\<forall>l. ans api l MInit \<noteq> 0" and opn: "opens api opn" and c: "is_send c"
    and s: "conf_ok (db_conf s)" and h: "h \<noteq> HClosed"
  shows "\<exists>out s' h' q. query_value_by api (query_by api opn null sql c) null sql (Some m) s = Some (out, s') \<and>
    obeys s (h, n) q s' (h', n) \<and> h' \<noteq> HClosed \<and> length q \<le> 2 \<and> (case out of None \<Rightarrow> True | Some b \<Rightarrow> length b = m)"
proof (cases "null \<or> sql = None")
  case True
  then show ?thesis using obeys_refl[OF s] h by (fastforce simp: query_value_by_def)
next
  case False
  obtain res s1 h1 q where s1: "query_by api opn null sql c s = Some (res, s1)"
      "obeys s (h, n) q s1 (h1, if res \<noteq> 0 then Suc n else n)" "h1 \<noteq> HClosed" "length q \<le> 2"
    using query_by_ok[OF init opn c s h] by blast
  show ?thesis
  proof (cases "res = 0")
    case True
    then show ?thesis using False s1 by (fastforce simp: query_value_by_def)
  next
    case r: False
    then have o1: "obeys s (h, n) q s1 (h1, Suc n)" using s1(2) by simp
    let ?s2 = "snd (call api MFetch s1)" let ?s3 = "snd (call api (MFreeResult res) ?s2)"
    have "obeys s (h, n) q ?s2 (h1, Suc n)"
      using obeys_call[OF o1, of MFetch api "(h1, Suc n)"] by simp
    then have "obeys s (h, n) q ?s3 (h1, n)"
      using obeys_call[of s "(h, n)" q ?s2 "(h1, Suc n)" "MFreeResult res" api "(h1, n)"] r by simp
    moreover have "\<exists>out. query_value_by api (query_by api opn null sql c) null sql (Some m) s = Some (out, ?s3) \<and>
        (case out of None \<Rightarrow> True | Some b \<Rightarrow> length b = m)"
      using False s1(1) r by (auto simp: query_value_by_def call_case c_strncpy_def split: option.split)
    ultimately show ?thesis using s1(3,4) by blast
  qed
qed

section \<open>Properties\<close>

text \<open>The functions of \<open>db_tool.h\<close> on a handle; \<open>None\<close> is the type of the functions without one, and a length makes it
  a binary statement.\<close>

datatype db_op =
    Query "u8 option" "u32 option" "u8 list option"
  | Execute "u8 option" "u32 option" "u8 list option"
  | QueryValue "u8 option" "u32 option" "u8 list option" nat

text \<open>The result of a query is its pointer; a query for a value returns no pointer to free.\<close>

fun db_do :: "my_api \<Rightarrow> bool \<Rightarrow> db_op \<Rightarrow> db_state \<Rightarrow> (int \<times> db_state) option" where
  "db_do api ok (Query None None q) s = db_query api ok False q s"
| "db_do api ok (Query (Some ty) None q) s = db_type_query api ok ty False q s"
| "db_do api ok (Query None (Some l) q) s = db_bin_query api ok False q l s"
| "db_do api ok (Query (Some ty) (Some l) q) s = db_type_bin_query api ok ty False q l s"
| "db_do api ok (Execute None None q) s = map_option (\<lambda>x. (0, snd x)) (execute_sql api ok False q s)"
| "db_do api ok (Execute (Some ty) None q) s = map_option (\<lambda>x. (0, snd x)) (db_type_execute_sql api ok ty False q s)"
| "db_do api ok (Execute None (Some l) q) s = map_option (\<lambda>x. (0, snd x)) (execute_bin_sql api ok False q l s)"
| "db_do api ok (Execute (Some ty) (Some l) q) s =
     map_option (\<lambda>x. (0, snd x)) (db_type_bin_execute_sql api ok ty False q l s)"
| "db_do api ok (QueryValue None None q m) s = map_option (\<lambda>x. (0, snd x)) (db_query_value api ok False q (Some m) s)"
| "db_do api ok (QueryValue (Some ty) None q m) s =
     map_option (\<lambda>x. (0, snd x)) (db_type_query_value api ok ty False q (Some m) s)"
| "db_do api ok (QueryValue None (Some l) q m) s =
     map_option (\<lambda>x. (0, snd x)) (db_bin_query_value api ok False q l (Some m) s)"
| "db_do api ok (QueryValue (Some ty) (Some l) q m) s =
     map_option (\<lambda>x. (0, snd x)) (db_type_bin_query_value api ok ty False q l (Some m) s)"

text \<open>A sequence of calls, and how many of them returned a result that the caller has to free.\<close>

fun db_run :: "my_api \<Rightarrow> bool \<Rightarrow> db_op list \<Rightarrow> db_state \<Rightarrow> (nat \<times> db_state) option" where
  "db_run api ok [] s = Some (0, s)"
| "db_run api ok (x # xs) s = do {
     (r, s) \<leftarrow> db_do api ok x s;
     (k, s) \<leftarrow> db_run api ok xs s;
     Some (if r \<noteq> 0 then Suc k else k, s) }"

lemma execute_by_any:
  assumes init: "\<forall>l. ans api l MInit \<noteq> 0" and opn: "opens api opn" and c: "is_send c"
    and s: "conf_ok (db_conf s)" and h: "h \<noteq> HClosed"
  shows "\<exists>r s' h' q. execute_by api opn dup null sql c s = Some (r, s') \<and> obeys s (h, n) q s' (h', n) \<and> h' \<noteq> HClosed \<and>
    length q \<le> 2"
proof (cases "null \<or> sql_empty sql")
  case True
  then show ?thesis using obeys_refl[OF s] h by (fastforce simp: execute_by_def)
next
  case False
  then show ?thesis
    using execute_by_ok[OF init opn c s h, of null sql dup n] by (fastforce simp: sent_as_def)
qed

lemmas db_op_defs = db_query_def db_type_query_def db_bin_query_def db_type_bin_query_def execute_sql_def
  db_type_execute_sql_def execute_bin_sql_def db_type_bin_execute_sql_def db_query_value_def db_type_query_value_def
  db_bin_query_value_def db_type_bin_query_value_def

lemma db_do_ok:
  assumes init: "\<forall>l. ans api l MInit \<noteq> 0" and s: "conf_ok (db_conf s)" and h: "h \<noteq> HClosed"
  shows "\<exists>r s' h' q. db_do api ok x s = Some (r, s') \<and> obeys s (h, n) q s' (h', if r \<noteq> 0 then Suc n else n) \<and>
    h' \<noteq> HClosed \<and> length q \<le> 2"
proof -
  note q = query_by_ok[OF init _ _ s h, of _ _ False _ n] and e = execute_by_any[OF init _ _ s h, of _ _ _ False _ n]
    and v = query_value_by_ok[OF init _ _ s h, of _ _ False _ _ n]
  have eta: "db_query api ok False q = query_by api (db_open api ok) False q (MQuery (the q))"
      "db_type_query api ok ty False q = query_by api (db_type_open api ok ty) False q (MQuery (the q))"
      "db_bin_query api ok False q l = query_by api (db_open api ok) False q (MRealQuery (the q) l)"
      "db_type_bin_query api ok ty False q l = query_by api (db_type_open api ok ty) False q (MRealQuery (the q) l)" for q l ty
    by (simp_all add: fun_eq_iff db_op_defs)
  have lift: "\<exists>r s' h' q. map_option (\<lambda>x. (0, snd x)) m = Some (r, s') \<and>
      obeys s (h, n) q s' (h', if r \<noteq> 0 then Suc n else n) \<and> h' \<noteq> HClosed \<and> length q \<le> 2"
    if "\<exists>r s' h' q. m = Some (r, s') \<and> obeys s (h, n) q s' (h', n) \<and> h' \<noteq> HClosed \<and> length q \<le> 2" for m :: "('b \<times> db_state) option"
    using that by fastforce
  have vl: "\<exists>r s' h' q. query_value_by api (query_by api opn False sql c) False sql (Some m) s = Some (r, s') \<and>
      obeys s (h, n) q s' (h', n) \<and> h' \<noteq> HClosed \<and> length q \<le> 2" if "opens api opn" "is_send c" for opn sql c m
    using v[OF that, of sql m] by blast
  show ?thesis
  proof (cases x)
    case (Query ty l sql)
    then show ?thesis
      by (cases ty; cases l) (simp_all only: Query db_do.simps eta, (rule q; simp)+)
  next
    case (Execute ty l sql)
    then show ?thesis
      by (cases ty; cases l)
        (simp_all only: Execute db_do.simps db_op_defs, (rule lift, rule e; simp)+)
  next
    case (QueryValue ty l sql m)
    then show ?thesis
      by (cases ty; cases l)
        (simp_all only: QueryValue db_do.simps db_query_value_def db_type_query_value_def db_bin_query_value_def
          db_type_bin_query_value_def eta, (rule lift, rule vl; simp)+)
  qed
qed

text \<open>C16: however the server answers, any sequence of queries and statements on an open handle returns and obeys the
  protocol of the client library: no call is made on a closed handle or on one that is not set up, a handle is set up again
  only after it was closed, a connection is opened only on a fresh handle, a result is freed once, and the handle is
  usable at the end.  The results that are left are those that the queries returned to the caller.  Setting up a handle does
  not fail, and the configuration file can be read.\<close>

theorem db_calls_obey_protocol:
  assumes init: "\<forall>l. ans api l MInit \<noteq> 0" and conf: "conf_ok (db_conf s)"
    and h: "foldM proto_step (db_log s) (HClosed, 0) = Some (h, n)" "h \<noteq> HClosed"
  shows "\<exists>k s' h'. db_run api ok ops s = Some (k, s') \<and> h' \<noteq> HClosed \<and>
    foldM proto_step (db_log s') (HClosed, 0) = Some (h', n + k)"
  using conf h
proof (induction ops arbitrary: s h n)
  case (Cons x xs)
  obtain r s1 h1 q where s1: "db_do api ok x s = Some (r, s1)" "obeys s (h, n) q s1 (h1, if r \<noteq> 0 then Suc n else n)"
      "h1 \<noteq> HClosed"
    using db_do_ok[OF init Cons.prems(1,3)] by blast
  have "foldM proto_step (db_log s1) (HClosed, 0) = Some (h1, if r \<noteq> 0 then Suc n else n)"
    using s1(2) Cons.prems(2) by (auto simp: obeys_def foldM_append)
  then obtain k s' h' where "db_run api ok xs s1 = Some (k, s')" "h' \<noteq> HClosed"
      "foldM proto_step (db_log s') (HClosed, 0) = Some (h', (if r \<noteq> 0 then Suc n else n) + k)"
    using Cons.IH[OF obeys_ok[OF s1(2)] _ s1(3)] by blast
  then show ?case
    using s1(1) by (intro exI[of _ "if r \<noteq> 0 then Suc k else k"] exI[of _ s'] exI[of _ h']) auto
qed auto

text \<open>C24: a statement is sent once, or twice when the connection was gone, and then the first attempt was refused; the
  result is 0 exactly when the last attempt was accepted.\<close>

theorem execute_sends_at_most_twice:
  assumes init: "\<forall>l. ans api l MInit \<noteq> 0" and conf: "conf_ok (db_conf s)"
    and h: "foldM proto_step (db_log s) (HClosed, 0) = Some (h, n)" "h \<noteq> HClosed"
    and q: "q \<noteq> []" "hd q \<noteq> 0"
  shows "\<exists>r s' l. db_type_execute_sql api ok ty False (Some q) s = Some (r, s') \<and> db_log s' = db_log s @ l \<and>
    ((\<exists>a. sends l = [(MQuery q, a)] \<and> (r = 0 \<longleftrightarrow> a = 0)) \<or>
     (\<exists>a b. sends l = [(MQuery q, a), (MQuery q, b)] \<and> a \<noteq> 0 \<and> (r = 0 \<longleftrightarrow> b = 0)))"
proof -
  have "\<not> sql_empty (Some q)" using q by (simp add: sql_empty_def)
  then obtain r s' h' l where "db_type_execute_sql api ok ty False (Some q) s = Some (r, s')" "obeys s (h, n) l s' (h', n)"
      "sent_as (MQuery q) (r = 0) l"
    using execute_by_ok[OF init _ _ conf h(2), where opn = "db_type_open api ok ty" and c = "MQuery q" and null = False
        and sql = "Some q" and dup = True and n = n]
    by (auto simp: db_type_execute_sql_def)
  then show ?thesis
    by (auto simp: obeys_def sent_as_def)
qed

definition sample_api :: my_api where
  "sample_api = \<lparr>ans = (\<lambda>l c. case c of MInit \<Rightarrow> 1 | MConnect cfg \<Rightarrow> 1 | MStore \<Rightarrow> 7 | MFetch \<Rightarrow> 1
       | MQuery q \<Rightarrow> (if MClose \<in> fst ` set l then 0 else 1) | _ \<Rightarrow> 0),
     my_errno = (\<lambda>l. 2006), my_fields = (\<lambda>l. 1), my_row = (\<lambda>l. Some [49])\<rparr>"

definition sample_db :: db_state where
  "sample_db = \<lparr>db_log = [(MInit, 1)], db_conf = None\<rparr>"

theorem db_calls_obey_protocol_witness:
  "\<exists>k s' h'. db_run sample_api True [Query None None (Some [65]), QueryValue (Some 1) None (Some [66]) 8,
       Execute None (Some 1) (Some [67])] sample_db = Some (k, s') \<and> h' \<noteq> HClosed \<and>
     foldM proto_step (db_log s') (HClosed, 0) = Some (h', 0 + k)"
  by (rule db_calls_obey_protocol[of sample_api sample_db HInited 0])
    (simp_all add: sample_api_def sample_db_def conf_ok_missing)

theorem execute_sends_at_most_twice_witness:
  "\<exists>r s' l. db_type_execute_sql sample_api True 1 False (Some [65]) sample_db = Some (r, s') \<and>
     db_log s' = db_log sample_db @ l \<and>
     ((\<exists>a. sends l = [(MQuery [65], a)] \<and> (r = 0 \<longleftrightarrow> a = 0)) \<or>
      (\<exists>a b. sends l = [(MQuery [65], a), (MQuery [65], b)] \<and> a \<noteq> 0 \<and> (r = 0 \<longleftrightarrow> b = 0)))"
  by (rule execute_sends_at_most_twice[of sample_api sample_db HInited 0])
    (simp_all add: sample_api_def sample_db_def conf_ok_missing)

text \<open>When setting up the handle fails while the connection is opened anew, the next call uses the closed handle.\<close>

definition no_memory_api :: my_api where
  "no_memory_api = \<lparr>ans = (\<lambda>l c. case c of MQuery q \<Rightarrow> 1 | _ \<Rightarrow> 0), my_errno = (\<lambda>l. 2006), my_fields = (\<lambda>l. 0),
     my_row = (\<lambda>l. None)\<rparr>"

theorem failed_reopen_leaves_closed_handle:
  "\<exists>s'. db_run no_memory_api True [Execute None None (Some [65]), Execute None None (Some [65])] sample_db = Some (0, s') \<and>
     foldM proto_step (db_log s') (HClosed, 0) = None"
  by (simp add: no_memory_api_def sample_db_def execute_sql_def execute_by_def sql_empty_def db_send_def call_def Let_def
      db_gone_def CR_SERVER_GONE_ERROR_def db_close_def db_open_def db_type_open_def)

text \<open>A value that fills the buffer of the caller is not terminated.\<close>

theorem query_value_unterminated:
  assumes "0 \<notin> set v" "m \<le> length v"
  shows "length (c_strncpy v m) = m \<and> 0 \<notin> set (c_strncpy v m)"
  using assms by (auto simp: c_strncpy_def dest: in_set_takeD)

end
