(* ===== verification/Spec2Isabelle.thy ===== *)
theory Spec2Isabelle
  imports HList MinHeap ITimerMgr ITimerPoolCalls DeadLock ClThread ClThreadEpoll FlexBuffer AsyncLog AsyncTask LinkageLog DsTools MemLeaksCalls Latch DbCalls
begin

text \<open>
  A verification library for the C part of the repository: its intrusive lists, its timers, its two event loops, its
  dead-lock detector, its growing buffers, its asynchronous logger and its linkage log, its asynchronous tasks
  with their access to a database and their configuration files, its latches and its memory leak checker.

  \<^bold>\<open>The program.\<close>  The repository is a collection of C utilities.  \<open>framework/zebra/stlc_list.h\<close> gives doubly
  linked lists whose links are embedded in the entries, and nearly every other part keeps its state on them.  The timers come
  in two kinds: a hierarchical time wheel (\<open>timer/timewheel\<close>) and a binary heap (\<open>timer/min_heap\<close>).  The event
  loops (\<open>framework/zebra\<close> with \<open>select\<close>, \<open>framework/zebra_epoll\<close> with \<open>epoll\<close>) keep tasks
  on such lists and take their timers from a list in the first and from the heap in the second.  The logger
  (\<open>demo/C/asynclog\<close>) hands arrays of buffers from the threads that log to the one that writes, the linkage log
  (\<open>demo/C/linkagelog\<close>) hands records over in the same way, and \<open>demo/C/flex_buffer\<close> is a byte stream.  \<open>tools/dead_lock_stub\<close> wraps the mutex calls of a program and
  looks for cycles of waiting, \<open>demo/C/condition\<close> waits for counted events, and \<open>demo/C/check_mem_leaks\<close> replaces the allocator and records the live blocks.

  \<^bold>\<open>Conventions.\<close>  A C function is a function on the state it changes.  Where it may dereference an invalid pointer,
  fail an assertion, block for ever on a mutex it holds, or not end, it returns an \<open>option\<close>, and \<open>None\<close> is that
  outcome: every property that says what a call does also says that the result is \<open>Some\<close>.  Where a property speaks of a
  sequence of steps, its condition on the environment (\<open>all_allowed\<close>, \<open>ml_legal\<close>) is about the states before the
  steps and holds for what follows a step that faults, so that the absence of faults is proved and not assumed.  Unsigned
  integers are words of their width; where a signed one may overflow, that is a fault.  The results of \<open>calloc\<close> and \<open>malloc\<close>, the clock, \<open>select\<close>, \<open>epoll_wait\<close> and
  the callbacks of the user are arguments.  What the source does while it holds a mutex is one step.

  \<^bold>\<open>The theories.\<close>
  \<^item> \<open>Base\<close>: machine types, loops that may fault (\<open>foldM\<close>), lemmas on lists and words.
  \<^item> \<open>StlcList\<close>: the heads and links of \<open>stlc_list.h\<close> on a memory of link pairs, \<open>is_list\<close> as the
    abstraction to a sequence, and the locale \<open>intrusive_list\<close> as the contract of a list implementation.
    \<open>IList\<close> has the macros of \<open>itimer.h\<close>, the second implementation of the contract; \<open>HList\<close> has the
    singly headed lists of the hash buckets.
  \<^item> \<open>ITimer\<close>: the core of \<open>itimer.c\<close>.  The five vectors are functions from an index to the sequence of the
    linked nodes, justified by \<open>IList\<close>; \<open>wheel_inv\<close> says that every node is in the bucket that its expiry and the
    present tick determine.  \<open>ITimerMgr\<close>: the manager and the periodic events on top of the core, and the locale \<open>mgr_client\<close> that says
    what the manager relies on in the callback of its nodes.
  \<^item> \<open>ITimerPool\<close>, \<open>ITimerPoolInv\<close>, \<open>ITimerPoolCalls\<close>: the timers shared by threads
    (\<open>itimer_pool_thread\<close>): events found by handle, tasks and the queues of the threads, as a second client of the
    manager; the invariants of the parts; the calls, the states they reach and what they deliver.
  \<^item> \<open>MinHeap\<close>: the heap of \<open>timer/min_heap\<close> with its node memory and index fields, the locale
    \<open>timer_queue\<close> that states what a client of the heap relies on, and the functions that differ in the copy of
    \<open>framework/zebra_epoll\<close>.
  \<^item> \<open>DeadLock\<close>: the tables of requested and held locks, the wrappers, the graph and the check.
  \<^item> \<open>ClThread\<close> and \<open>ClThreadEpoll\<close>: the two event loops; the second uses \<open>MinHeap\<close>.
  \<^item> \<open>Blocks\<close>: a memory of byte blocks and the locale \<open>ordered_stream\<close> (what goes in comes out, in order
    and once); \<open>FlexBuffer\<close>, \<open>AsyncLog\<close> and \<open>AsyncTask\<close> are its interpretations.  \<open>BufferArray\<close>: the locale
    \<open>owned_buffers\<close>, buffers that own a block each and arrays of them, with interpretations in \<open>AsyncLog\<close> and
    \<open>AsyncProc\<close>.
  \<^item> \<open>AsyncProc\<close> and \<open>AsyncProcInv\<close>: the buffering of \<open>demo/C/async_task\<close> (\<open>async_proc.c\<close>) on top of the flex
    buffers, its invariant, and the locale \<open>proc_client\<close> that says what it relies on in the callback of the thread.
    \<open>AsyncTask\<close>: the tasks (\<open>async_task.c\<close>), whose callback is an interpretation of \<open>proc_client\<close>.
  \<^item> \<open>LinkageLog\<close>: the linkage log, whose states are read as those of \<open>AsyncLog\<close>, so that its invariant and
    lemmas carry over; another interpretation of \<open>ordered_stream\<close>.
  \<^item> \<open>DsTools\<close>: the string helpers of \<open>ds_tools.h\<close>.
  \<^item> \<open>IniFile\<close>: the configuration files of \<open>ini_file.c\<close> on the byte operations of \<open>DsTools\<close>.
    \<open>DbTool\<close>: the access to MySQL of \<open>db_tool.c\<close>, with the client library as an argument, and the parameters
    that it takes from a configuration file; \<open>DbCalls\<close>: the protocol that its calls follow.
  \<^item> \<open>Latch\<close>: the conditions and latches of \<open>condition.c\<close>; the latch is a state machine of the threads that
    wait for it and count it down.
  \<^item> \<open>MemLeaks\<close>, \<open>MemLeaksTable\<close>, \<open>MemLeaksCalls\<close>: the memory leak checker (\<open>mem_leaks.c\<close>) on the hash
    buckets of \<open>HList\<close>: the model, the table and its memory (\<open>table_rep\<close>, \<open>heap_rep\<close>), and the calls by several
    threads, cut where another thread may come between.

  \<^bold>\<open>What is shown.\<close>
  \<^item> Lists: each operation refines the operation on sequences; appending and then iterating is first in, first out;
    breaking and splicing are inverse.
  \<^item> Wheel: a node is scheduled at the distance of its expiry, fires at the tick of its expiry and not before
    (cascading included), deletion unlinks it, the run ends for all callbacks that queue nothing, and the manager catches up
    with the clock.  Shared timers: every call returns in every state that calls reach, under the conditions that the
    property states, handles find their own events, and what a timer owes is called once and in order by the thread that set it.  Heap: insertion and removal keep the heap order and the index fields, the tick serves exactly the due
    timers in order, tear-down frees every node once.  Two properties state what happens when the 32-bit clock wraps.
  \<^item> Detector: the tables follow the mutex calls; the check reports exactly the threads on a cycle while the graph has at
    most 100 roots and the allocations succeed.  A property shows what happens beyond that; when an allocation fails the
    wrappers leave the detector locked (\<open>alloc_failure_blocks_detector\<close>) and the check faults
    (\<open>build_graph_no_memory\<close>).
  \<^item> Event loops: a task is always in the list of its type, a round serves ready tasks, events, due timers and descriptors
    in the order of the code, the variants that take the lock agree with those that do not, a due timer is served, for
    what waits in the tree of sockets the last request to the kernel was to register it, which the kernel has unless it
    refused (the code does not look, \<open>refused_add_stays\<close>), tear-down frees everything once.
  \<^item> Buffers and logger: the readable content is the sequence of the bytes written and not yet read; every line accepted
    is written to the log files in order or still held in a buffer; when the array is full the current buffer is lost.
    The linkage log hands over every record in order, but reports the first one of each buffer again and again.
  \<^item> Tasks: what the calls ask for is done in order and once, or still buffered, and stopping drops what is queued while the
    thread processes.  String helpers: the search equals the plain search, hexadecimal text and net masks can be read back.
  \<^item> Files and database: what is appended to a configuration file is read back and a blank value faults, every missing
    parameter of a connection has its default, the handle of the client library is used only while it is open, and a
    statement is sent at most twice.
  \<^item> Latches: in every order of the threads a latch opens only when it has been counted down, and no waiting thread is
    forgotten.
  \<^item> Leak checker: under every interleaving of allocator calls the table is exactly what was recorded and is still held,
    except at the null pointer and at the addresses that are used again while a \<open>realloc\<close> has still to forget them, or
    that a \<open>realloc\<close> to size zero gave back; and the only fault is a \<open>malloc\<close> that shows such a record too late.
    \<open>realloc_race_loses_record\<close> and \<open>show_after_free\<close> are runs in which this happens.

  \<^bold>\<open>Bounds.\<close>  Loops are structural recursion, \<open>foldM\<close>, or \<open>partial_function (option)\<close> with a proof that
  they return; no fuel is used.  The clock of the manager must stay below \<open>2^32\<close> milliseconds during a run
  (\<open>period_ok\<close>, \<open>run_room\<close>), its interval small enough for the limits of \<open>itimer_mgr_run\<close> (\<open>interval_ok\<close>), and a
  heap to which a timer is added below \<open>2^30\<close> timers, which the properties state where they need it.

  \<^bold>\<open>Not modelled.\<close>  Printing, back traces, thread creation, sleeping and the real interleaving inside a critical
  section; the C++, Go, PHP and Python parts and the design-pattern demonstrations (not C); \<open>framework/libco_pool\<close> (C++
  with assembly context switches); the wrapper of memcached
  (\<open>memcached_api.c\<close>), which only calls that library; \<open>demo/C/rbtree\<close>, which is the tree of the Linux
  kernel, represented here by the map that it implements; and the examples.
\<close>

end
